(* ===== verification/HBC_Prelude.thy ===== *)
theory HBC_Prelude
  imports Main "HOL-Library.Word"
begin

text \<open>
  The prelude of the Homebrew Channel development: the names of the machine types of
  \<^verbatim>\<open>gctypes.h\<close>, big-endian byte encodings, the flat 32-bit memory that the reloader and
  the packer stubs write to, the environment of calls into code outside the repository, and
  the fact collections the components share.

  Memory is a total function from 32-bit addresses to bytes; address arithmetic wraps as it
  does on the PowerPC. A call into the operating system or a library is an event put to an
  \<^emph>\<open>environment\<close>: a function of the history of earlier events (newest first) and of the event
  itself. Nothing is assumed of the environment unless a lemma says so.
\<close>

unbundle bit_operations_syntax

named_theorems word_bytes \<open>machine words as byte sequences\<close>
named_theorems mem_simps \<open>reads after writes of the flat memory\<close>
named_theorems log_simps \<open>what an operation adds to the history of calls\<close>

section \<open>Machine types\<close>

type_synonym u8 = "8 word"
type_synonym u16 = "16 word"
type_synonym u32 = "32 word"
type_synonym u64 = "64 word"

section \<open>Big-endian bytes\<close>

definition be16_bytes :: "u16 \<Rightarrow> u8 list" where
  "be16_bytes v = [ucast (drop_bit 8 v), ucast v]"

definition be32_bytes :: "u32 \<Rightarrow> u8 list" where
  "be32_bytes v = [ucast (drop_bit 24 v), ucast (drop_bit 16 v), ucast (drop_bit 8 v), ucast v]"

definition be16_of :: "u8 \<Rightarrow> u8 \<Rightarrow> u16" where
  "be16_of a b = push_bit 8 (ucast a) OR ucast b"

definition be32_of :: "u8 \<Rightarrow> u8 \<Rightarrow> u8 \<Rightarrow> u8 \<Rightarrow> u32" where
  "be32_of a b c d =
     push_bit 24 (ucast a) OR push_bit 16 (ucast b) OR push_bit 8 (ucast c) OR ucast d"

lemma length_be_bytes [simp]: "length (be16_bytes v) = 2" "length (be32_bytes w) = 4"
  by (simp_all add: be16_bytes_def be32_bytes_def)

lemma be16_of_bytes [word_bytes]: "be16_of (ucast (drop_bit 8 v)) (ucast v) = v"
proof (rule bit_word_eqI)
  fix n assume "n < LENGTH(16)"
  then show "bit (be16_of (ucast (drop_bit 8 v)) (ucast v)) n = bit v n"
    by (cases "n < 8") (auto simp: be16_of_def bit_simps)
qed

lemma be32_of_bytes [word_bytes]:
  "be32_of (ucast (drop_bit 24 v)) (ucast (drop_bit 16 v)) (ucast (drop_bit 8 v)) (ucast v) = v"
proof (rule bit_word_eqI)
  fix n assume n: "n < LENGTH(32)"
  consider "n < 8" | "8 \<le> n" "n < 16" | "16 \<le> n" "n < 24" | "24 \<le> n" by linarith
  then show "bit (be32_of (ucast (drop_bit 24 v)) (ucast (drop_bit 16 v))
      (ucast (drop_bit 8 v)) (ucast v)) n = bit v n"
    using n by cases (auto simp: be32_of_def bit_simps)
qed

section \<open>Two's complement\<close>

lemma sint32: "sint (w :: u32) = (if uint w < 2147483648 then uint w else uint w - 4294967296)"
proof -
  have "sint w = (uint w + 2147483648) mod 4294967296 - 2147483648"
    by (simp add: sint_uint signed_take_bit_eq_take_bit_shift take_bit_eq_mod)
  then show ?thesis
    using uint_lt2p[of w] uint_ge_0[of w] mod_pos_pos_trivial[of "uint w + 2147483648" 4294967296]
      mod_pos_pos_trivial[of "uint w + 2147483648 - 4294967296" 4294967296]
      minus_mod_self2[of "uint w + 2147483648" 4294967296]
    by (auto split: if_splits)
qed

lemma sint_neg_unat: "sint (w :: u32) < 0 \<Longrightarrow> int (unat (- w)) = - sint w"
proof -
  assume "sint w < 0"
  then have s: "sint w = uint w - 4294967296" and "uint w \<noteq> 0"
    using uint_ge_0[of w] by (auto simp: sint32 split: if_splits)
  then have "uint (- w) = 4294967296 - uint w"
    using uint_lt2p[of w] uint_ge_0[of w] by (simp add: uint_word_ariths zmod_zminus1_eq_if)
  with s show ?thesis by simp
qed

lemma sint_nonneg_unat: "\<not> sint (w :: u32) < 0 \<Longrightarrow> int (unat w) = sint w"
  using uint_lt2p[of w] by (auto simp: sint32 split: if_splits)

section \<open>Shifts and masks\<close>

lemma unat_drop_bit: "unat (drop_bit n (w :: 'a::len word)) = unat w div 2 ^ n"
  unfolding unsigned_drop_bit_eq by (simp add: drop_bit_eq_div take_bit_nat_eq_self)

lemma unat_take_bit: "n \<le> LENGTH('a) \<Longrightarrow> unat (take_bit n (w :: 'a::len word)) = unat w mod 2 ^ n"
  unfolding unsigned_take_bit_eq by (simp add: take_bit_eq_mod)

lemma unat_push_bit: "unat (push_bit n (w :: 'a::len word)) = unat w * 2 ^ n mod 2 ^ LENGTH('a)"
  unfolding unsigned_push_bit_eq by (simp add: push_bit_eq_mult take_bit_eq_mod)

lemma unat_and_mask: "n \<le> LENGTH('a) \<Longrightarrow> unat (w AND mask n :: 'a::len word) = unat w mod 2 ^ n"
  by (simp add: take_bit_eq_mask [symmetric] unat_take_bit)

section \<open>The flat memory\<close>

type_synonym mem = "u32 \<Rightarrow> u8"

definition mem_read :: "mem \<Rightarrow> u32 \<Rightarrow> nat \<Rightarrow> u8 list" where
  "mem_read m a n = map (\<lambda>i. m (a + of_nat i)) [0..<n]"

definition mem_write :: "mem \<Rightarrow> u32 \<Rightarrow> u8 list \<Rightarrow> mem" where
  "mem_write m a bs = (\<lambda>x. if unat (x - a) < length bs then bs ! unat (x - a) else m x)"

definition load16 :: "mem \<Rightarrow> u32 \<Rightarrow> u16" where
  "load16 m a = be16_of (m a) (m (a + 1))"

definition load32 :: "mem \<Rightarrow> u32 \<Rightarrow> u32" where
  "load32 m a = be32_of (m a) (m (a + 1)) (m (a + 2)) (m (a + 3))"

definition store32 :: "mem \<Rightarrow> u32 \<Rightarrow> u32 \<Rightarrow> mem" where
  "store32 m a v = mem_write m a (be32_bytes v)"

text \<open>The addresses a block of \<open>n\<close> bytes at \<open>a\<close> occupies, with wrap-around.\<close>

definition in_block :: "u32 \<Rightarrow> nat \<Rightarrow> u32 \<Rightarrow> bool" where
  "in_block a n x \<longleftrightarrow> unat (x - a) < n"

lemma length_mem_read [simp]: "length (mem_read m a n) = n"
  by (simp add: mem_read_def)

lemma nth_mem_read [mem_simps]: "i < n \<Longrightarrow> mem_read m a n ! i = m (a + of_nat i)"
  by (simp add: mem_read_def)

lemma mem_write_outside [mem_simps]: "\<not> in_block a (length bs) x \<Longrightarrow> mem_write m a bs x = m x"
  by (simp add: mem_write_def in_block_def)

lemma mem_write_inside: "in_block a (length bs) x \<Longrightarrow> mem_write m a bs x = bs ! unat (x - a)"
  by (simp add: mem_write_def in_block_def)

lemma mem_write_Nil [simp]: "mem_write m a [] = m"
  by (simp add: mem_write_def)

lemma unat_of_nat32 [simp]: "n < 4294967296 \<Longrightarrow> unat (of_nat n :: u32) = n"
  by (simp add: unat_of_nat take_bit_eq_mod)

lemma in_block_offset [simp]:
  "i < 4294967296 \<Longrightarrow> in_block a n (a + of_nat i) \<longleftrightarrow> i < n"
  by (simp add: in_block_def)

lemma mem_read_write_same [mem_simps]:
  assumes "length bs \<le> 4294967296"
  shows "mem_read (mem_write m a bs) a (length bs) = bs"
proof (rule nth_equalityI)
  fix i assume "i < length (mem_read (mem_write m a bs) a (length bs))"
  with assms show "mem_read (mem_write m a bs) a (length bs) ! i = bs ! i"
    by (simp add: nth_mem_read mem_write_def)
qed simp

lemma mem_read_cong:
  "(\<And>x. in_block a n x \<Longrightarrow> m x = m' x) \<Longrightarrow> n \<le> 4294967296 \<Longrightarrow> mem_read m a n = mem_read m' a n"
  by (rule nth_equalityI) (simp_all add: nth_mem_read)

lemma mem_read_write_other:
  assumes "\<And>x. in_block b n x \<Longrightarrow> \<not> in_block a (length bs) x" and "n \<le> 4294967296"
  shows "mem_read (mem_write m a bs) b n = mem_read m b n"
  using assms by (intro mem_read_cong) (auto simp: mem_write_outside)

text \<open>Parts of a block that has been read.\<close>

lemma mem_read_prefix: "k \<le> n \<Longrightarrow> mem_read m a k = take k (mem_read m a n)"
  by (simp add: mem_read_def take_map take_upt)

lemma mem_read_suffix: "mem_read m (a + of_nat k) n = drop k (mem_read m a (k + n))"
  by (rule nth_equalityI) (simp_all add: nth_mem_read algebra_simps)

text \<open>
  A block that does not wrap is an interval, so containment and disjointness of blocks reduce
  to comparisons of natural numbers.
\<close>

lemma in_block_interval:
  assumes "unat a + n \<le> 4294967296"
  shows "in_block a n x \<longleftrightarrow> unat a \<le> unat x \<and> unat x < unat a + n"
proof (cases "a \<le> x")
  case True
  then have "unat (x - a) = unat x - unat a" by (rule unat_sub)
  with True show ?thesis by (auto simp: in_block_def word_le_nat_alt)
next
  case False
  have u: "unat (x - a) = 4294967296 + unat x - unat a"
    using False unsigned_less[of x, where ?'a = nat] unsigned_less[of a, where ?'a = nat]
    by (simp add: unat_sub_if' word_le_nat_alt)
  have "unat x < unat a" using False by (simp add: word_le_nat_alt)
  then show ?thesis using assms u by (auto simp: in_block_def)
qed

text \<open>Writing a block is writing its first byte and then the rest, or its two halves in turn.\<close>

lemma mem_write_Cons: "Suc (length bs) \<le> 4294967296 \<Longrightarrow>
    mem_write (m(a := b)) (a + 1) bs = mem_write m a (b # bs)"
proof (rule ext)
  fix x assume len: "Suc (length bs) \<le> 4294967296"
  show "mem_write (m(a := b)) (a + 1) bs x = mem_write m a (b # bs) x"
  proof (cases "x = a")
    case True
    have "unat (- 1 :: u32) = 4294967295" by (simp add: unsigned_minus_1_eq_mask mask_eq_exp_minus_1)
    with True len show ?thesis by (simp add: mem_write_def)
  next
    case False
    then have "unat (x - a - 1) = unat (x - a) - 1" and "0 < unat (x - a)"
      by (simp_all add: unat_minus_one unat_gt_0)
    then have "unat (x - a) = Suc (unat (x - (a + 1)))" by (simp add: diff_diff_add)
    with False show ?thesis by (simp add: mem_write_def)
  qed
qed

lemma mem_write_append:
  "length xs + length ys \<le> 4294967296 \<Longrightarrow>
    mem_write (mem_write m a xs) (a + of_nat (length xs)) ys = mem_write m a (xs @ ys)"
proof (induction xs arbitrary: m a)
  case (Cons x xs)
  have "mem_write (mem_write m a (x # xs)) (a + of_nat (length (x # xs))) ys
      = mem_write (mem_write (m(a := x)) (a + 1) xs) (a + 1 + of_nat (length xs)) ys"
    using Cons.prems by (simp add: mem_write_Cons [of xs m a x, symmetric] add.assoc)
  also have "\<dots> = mem_write (m(a := x)) (a + 1) (xs @ ys)"
    using Cons.prems by (intro Cons.IH) simp
  also have "\<dots> = mem_write m a ((x # xs) @ ys)"
    using Cons.prems by (simp add: mem_write_Cons)
  finally show ?case .
qed simp

lemma mem_read_Suc: "mem_read m a (Suc n) = m a # mem_read m (a + 1) n"
  unfolding mem_read_def by (simp add: upt_conv_Cons map_Suc_upt [symmetric] del: upt_Suc)
    (simp add: algebra_simps)

lemma load32_store32 [mem_simps]: "load32 (store32 m a v) a = v"
proof -
  have "unat (a + 1 - a) = 1" "unat (a + 2 - a) = 2" "unat (a + 3 - a) = 3" by simp_all
  then show ?thesis
    using be32_of_bytes[of v]
    by (simp add: load32_def store32_def mem_write_def be32_bytes_def numeral_2_eq_2 numeral_3_eq_3)
qed

lemma load32_cong:
  "(\<And>k. k < 4 \<Longrightarrow> m (a + of_nat k) = m' (a + of_nat k)) \<Longrightarrow> load32 m a = load32 m' a"
proof -
  assume *: "\<And>k. k < 4 \<Longrightarrow> m (a + of_nat k) = m' (a + of_nat k)"
  show "load32 m a = load32 m' a"
    using *[of 0] *[of 1] *[of 2] *[of 3] by (simp add: load32_def)
qed

lemma load16_cong: "m a = m' a \<Longrightarrow> m (a + 1) = m' (a + 1) \<Longrightarrow> load16 m a = load16 m' a"
  by (simp add: load16_def)

section \<open>Calls into code outside the repository\<close>

text \<open>
  \<open>ask w e h\<close> puts the call \<open>e\<close> to the environment \<open>w\<close> after the calls \<open>h\<close> and gives the
  answer and the longer history.
\<close>

type_synonym ('e, 'r) world = "'e list \<Rightarrow> 'e \<Rightarrow> 'r"

definition ask :: "('e, 'r) world \<Rightarrow> 'e \<Rightarrow> 'e list \<Rightarrow> 'r \<times> 'e list" where
  "ask w e h = (w h e, e # h)"

lemma ask_eq [simp]: "ask w e h = (r, h') \<longleftrightarrow> r = w h e \<and> h' = e # h"
  by (auto simp: ask_def)

lemma fst_ask [simp]: "fst (ask w e h) = w h e" and snd_ask [simp]: "snd (ask w e h) = e # h"
  by (simp_all add: ask_def)

section \<open>Results of code that may panic\<close>

text \<open>
  \<^verbatim>\<open>panic()\<close> of \<^verbatim>\<open>panic.c\<close> draws an error screen and never returns.
\<close>

datatype 'a ret = Ret 'a | Panic

fun bind_ret :: "'a ret \<Rightarrow> ('a \<Rightarrow> 'b ret) \<Rightarrow> 'b ret" where
  "bind_ret (Ret x) f = f x"
| "bind_ret Panic f = Panic"

lemma bind_ret_eq_Ret: "bind_ret x f = Ret y \<longleftrightarrow> (\<exists>a. x = Ret a \<and> f a = Ret y)"
  by (cases x) auto

section \<open>Rounding\<close>

text \<open>\<^verbatim>\<open>round_up(x,n)\<close> of \<^verbatim>\<open>wiipax/client/common.h\<close>: \<^verbatim>\<open>(-(-(x) & -(n)))\<close> on 32-bit words.\<close>

definition round_up :: "u32 \<Rightarrow> u32 \<Rightarrow> u32" where
  "round_up x n = - (- x AND - n)"

text \<open>The division of C rounds towards zero; the divisors are positive.\<close>

definition cdiv :: "int \<Rightarrow> int \<Rightarrow> int" where "cdiv a b = (if a < 0 then - (- a div b) else a div b)"

text \<open>Clearing the low five bits rounds down to a multiple of 32.\<close>

lemma unat_and_neg_32:
  fixes x :: u32
  shows "unat (x AND - 32) = 32 * (unat x div 32)"
proof -
  have "x AND NOT (mask 5) = push_bit 5 (drop_bit 5 x)"
    by (rule bit_word_eqI) (auto simp: bit_simps)
  moreover have "NOT (mask 5 :: u32) = - 32" by (simp add: mask_eq_exp_minus_1)
  ultimately have "unat (x AND - 32) = unat (push_bit 5 (drop_bit 5 x))"
    by simp
  also have "\<dots> = take_bit 32 (push_bit 5 (drop_bit 5 (unat x)))"
    using unsigned_less[of x, where ?'a = nat]
    by (simp add: unsigned_push_bit_eq unsigned_drop_bit_eq take_bit_nat_eq_self)
  also have "\<dots> = 32 * (unat x div 32)"
    using unsigned_less[of x, where ?'a = nat]
    by (simp add: take_bit_eq_mod push_bit_eq_mult drop_bit_eq_div)
  finally show ?thesis .
qed

lemma and_neg_32_le: "x AND - 32 \<le> (x :: u32)"
  by (simp add: word_le_nat_alt unat_and_neg_32)

lemma and_neg_32_aligned: "32 dvd unat (x AND (- 32 :: u32))"
  by (simp add: unat_and_neg_32)

text \<open>
  \<open>round_up x 32\<close> is the least multiple of 32 that is not below \<open>x\<close>, as long as that
  multiple is representable.
\<close>

lemma unat_round_up_32:
  assumes "unat x \<le> 4294967264"
  shows "unat (round_up x 32) = 32 * ((unat x + 31) div 32)"
proof (cases "x = 0")
  case False
  then have pos: "0 < unat x" by (simp add: unat_gt_0)
  have neg: "unat (- y) = (4294967296 - unat y) mod 4294967296" for y :: u32
    using unat_sub_if'[of 0 y] unsigned_less[of y, where ?'a = nat] by simp
  have a: "unat (- x AND - 32) = 32 * ((4294967296 - unat x) div 32)"
    using pos by (simp add: unat_and_neg_32 neg)
  define A where "A = (4294967296 - unat x) div 32"
  define B where "B = (unat x + 31) div 32"
  have "32 * A + (4294967296 - unat x) mod 32 = 4294967296 - unat x"
    and "32 * B + (unat x + 31) mod 32 = unat x + 31"
    by (simp_all add: A_def B_def)
  moreover have "(4294967296 - unat x) mod 32 < 32" and "(unat x + 31) mod 32 < 32" by simp_all
  ultimately have AB: "A + B = 134217728" and "1 \<le> A" using assms pos by linarith+
  then have "4294967296 - 32 * A = 32 * B" and "32 * B < 4294967296" by linarith+
  then show ?thesis
    unfolding round_up_def neg a A_def [symmetric] B_def [symmetric] by simp
qed (simp add: round_up_def)

lemma round_up_32_bounds:
  assumes "unat x \<le> 4294967264"
  shows "unat x \<le> unat (round_up x 32)" and "unat (round_up x 32) < unat x + 32"
    and "32 dvd unat (round_up x 32)"
  using assms by (simp_all add: unat_round_up_32)

end
