(* ===== verification/Blob.thy ===== *)
theory Blob
  imports HBC_Prelude
begin

text \<open>
  \<^verbatim>\<open>channelapp/source/blob.c\<close>: the stack allocator that carves large buffers off the top of
  MEM2. The state is the array \<^verbatim>\<open>blobs\<close> with its count, kept here as a list with the newest
  entry first, and the two arena bounds that libogc keeps (\<^verbatim>\<open>SYS_GetArena2Lo/Hi\<close>,
  \<^verbatim>\<open>SYS_SetArena2Hi\<close>). The interrupt lock makes both operations atomic, so each is one
  function of the state. The locale \<open>stack_alloc\<close> is the interface the loader and the NAND
  reader rely on.
\<close>

section \<open>State and operations\<close>

record blob_t =
  the_blob :: u32
  blob_size :: u32
  old_arena2hi :: u32

record arena =
  blobs :: "blob_t list"
  arena2lo :: u32
  arena2hi :: u32

definition MAX_BLOBS :: nat where "MAX_BLOBS = 8"
definition BLOB_MINSLACK :: u32 where "BLOB_MINSLACK = 512 * 1024"

definition blob_addr :: "u32 \<Rightarrow> arena \<Rightarrow> u32" where
  "blob_addr n s = (arena2hi s - n) AND NOT 31"

definition blob_alloc :: "u32 \<Rightarrow> arena \<Rightarrow> (u32 \<times> arena) ret" where
  "blob_alloc n s =
     (if length (blobs s) \<ge> MAX_BLOBS then Panic
      else if blob_addr n s < BLOB_MINSLACK + arena2lo s then Ret (0, s)
      else Ret (blob_addr n s,
             s\<lparr>blobs := \<lparr>the_blob = blob_addr n s, blob_size = n, old_arena2hi = arena2hi s\<rparr>
                        # blobs s,
               arena2hi := blob_addr n s\<rparr>))"

definition blob_free :: "u32 \<Rightarrow> arena \<Rightarrow> arena ret" where
  "blob_free p s =
     (if p = 0 then Ret s
      else (case blobs s of
              [] \<Rightarrow> Panic
            | b # bs \<Rightarrow>
                if p \<noteq> the_blob b then Panic
                else if arena2hi s \<noteq> p then Panic
                else Ret (s\<lparr>blobs := bs, arena2hi := old_arena2hi b\<rparr>)))"

section \<open>Well-formed arenas\<close>

text \<open>
  Every blob ends at or below the bound it was cut from, the newest blob starts at the current
  bound, each older blob starts where the next newer one's cut began, and all of them keep the
  512 KiB of slack above the low bound.
\<close>

fun chain :: "u32 \<Rightarrow> u32 \<Rightarrow> blob_t list \<Rightarrow> bool" where
  "chain lo hi [] \<longleftrightarrow> True"
| "chain lo hi (b # bs) \<longleftrightarrow>
     the_blob b = hi \<and> 32 dvd unat hi
     \<and> unat hi + unat (blob_size b) \<le> unat (old_arena2hi b)
     \<and> unat lo + 524288 \<le> unat hi
     \<and> chain lo (old_arena2hi b) bs"

definition arena_ok :: "arena \<Rightarrow> bool" where
  "arena_ok s \<longleftrightarrow> length (blobs s) \<le> MAX_BLOBS
     \<and> unat (arena2lo s) + 524288 < 4294967296
     \<and> chain (arena2lo s) (arena2hi s) (blobs s)"

lemma slack_less_iff:
  assumes "unat (arena2lo s) + 524288 < 4294967296"
  shows "a < BLOB_MINSLACK + arena2lo s \<longleftrightarrow> unat a < unat (arena2lo s) + 524288"
proof -
  have "unat (BLOB_MINSLACK + arena2lo s) = (524288 + unat (arena2lo s)) mod 4294967296"
    by (simp add: BLOB_MINSLACK_def unat_word_ariths)
  also have "\<dots> = unat (arena2lo s) + 524288"
    using assms by (subst mod_less) (linarith, rule add.commute)
  finally show ?thesis by (simp add: word_less_nat_alt)
qed

lemma blob_addr_bounds:
  assumes "unat n \<le> unat (arena2hi s)"
  shows "unat (blob_addr n s) + unat n \<le> unat (arena2hi s)"
    and "32 dvd unat (blob_addr n s)"
proof -
  have d: "unat (arena2hi s - n) = unat (arena2hi s) - unat n"
    using assms by (intro unat_sub) (simp add: word_le_nat_alt)
  have "unat (blob_addr n s) \<le> unat (arena2hi s - n)"
    by (simp add: blob_addr_def unat_and_neg_32)
  then show "unat (blob_addr n s) + unat n \<le> unat (arena2hi s)"
    using d assms by linarith
  show "32 dvd unat (blob_addr n s)"
    by (simp add: blob_addr_def and_neg_32_aligned)
qed

lemma blob_alloc_cases:
  assumes "blob_alloc n s = Ret (p, s')"
  obtains (null) "p = 0" "s' = s"
  | (blob) "length (blobs s) < MAX_BLOBS" "p = blob_addr n s" "\<not> p < BLOB_MINSLACK + arena2lo s"
      "s' = s\<lparr>blobs := \<lparr>the_blob = p, blob_size = n, old_arena2hi = arena2hi s\<rparr> # blobs s,
             arena2hi := p\<rparr>"
  using assms by (auto simp: blob_alloc_def not_le split: if_splits)

lemma arena_ok_alloc:
  assumes "arena_ok s" and "unat n \<le> unat (arena2hi s)" and "blob_alloc n s = Ret (p, s')"
  shows "arena_ok s'"
  using assms(3)
proof (cases rule: blob_alloc_cases)
  case blob
  with assms(1,2) show ?thesis
    using blob_addr_bounds[OF assms(2)]
    by (auto simp: arena_ok_def slack_less_iff)
qed (use assms in simp)

lemma arena_ok_free: "arena_ok s \<Longrightarrow> blob_free p s = Ret s' \<Longrightarrow> arena_ok s'"
  by (auto simp: arena_ok_def blob_free_def split: if_splits list.splits)

lemma blob_alloc_nonnull:
  assumes "arena_ok s" and "blob_alloc n s = Ret (p, s')" and "s' \<noteq> s"
  shows "p \<noteq> 0"
  using assms(2)
proof (cases rule: blob_alloc_cases)
  case blob
  with assms(1) show ?thesis by (auto simp: arena_ok_def slack_less_iff)
qed (use assms(3) in simp)

section \<open>The allocator's contract\<close>

text \<open>
  A client sees two operations and a notion of well-formed state; the contract is that freeing
  the pointer just returned restores the state exactly, whether or not the allocation succeeded,
  and that freeing NULL is harmless. Nested allocations released in reverse order therefore
  never panic and leave no trace.
\<close>

fun alloc_all :: "(u32 \<Rightarrow> 's \<Rightarrow> (u32 \<times> 's) ret) \<Rightarrow> u32 list \<Rightarrow> 's \<Rightarrow> (u32 list \<times> 's) ret" where
  "alloc_all alloc [] s = Ret ([], s)"
| "alloc_all alloc (n # ns) s =
     bind_ret (alloc n s) (\<lambda>(p, s1).
     bind_ret (alloc_all alloc ns s1) (\<lambda>(ps, s2). Ret (ps @ [p], s2)))"

fun free_all :: "(u32 \<Rightarrow> 's \<Rightarrow> 's ret) \<Rightarrow> u32 list \<Rightarrow> 's \<Rightarrow> 's ret" where
  "free_all free [] s = Ret s"
| "free_all free (p # ps) s = bind_ret (free p s) (free_all free ps)"

lemma free_all_append:
  "free_all free (ps @ qs) s = bind_ret (free_all free ps s) (free_all free qs)"
  by (induction ps arbitrary: s) (auto split: ret.splits, metis bind_ret.simps ret.exhaust)

fun all_fit :: "(u32 \<Rightarrow> 's \<Rightarrow> (u32 \<times> 's) ret) \<Rightarrow> (u32 \<Rightarrow> 's \<Rightarrow> bool) \<Rightarrow> u32 list \<Rightarrow> 's \<Rightarrow> bool"
where
  "all_fit alloc fits [] s \<longleftrightarrow> True"
| "all_fit alloc fits (n # ns) s \<longleftrightarrow>
     fits n s \<and> (case alloc n s of Panic \<Rightarrow> True | Ret (p, s1) \<Rightarrow> all_fit alloc fits ns s1)"

locale stack_alloc =
  fixes alloc :: "u32 \<Rightarrow> 's \<Rightarrow> (u32 \<times> 's) ret"
    and free :: "u32 \<Rightarrow> 's \<Rightarrow> 's ret"
    and fits :: "u32 \<Rightarrow> 's \<Rightarrow> bool"
    and ok :: "'s \<Rightarrow> bool"
  assumes free_null: "free 0 s = Ret s"
    and ok_alloc: "ok s \<Longrightarrow> fits n s \<Longrightarrow> alloc n s = Ret (p, s') \<Longrightarrow> ok s'"
    and free_alloc: "ok s \<Longrightarrow> fits n s \<Longrightarrow> alloc n s = Ret (p, s') \<Longrightarrow> free p s' = Ret s"
begin

lemma nested_release:
  assumes "ok s" and "all_fit alloc fits ns s" and "alloc_all alloc ns s = Ret (ps, s')"
  shows "free_all free ps s' = Ret s"
  using assms
proof (induction ns arbitrary: s ps s')
  case (Cons n ns)
  from Cons.prems(3) obtain p s1 qs where a: "alloc n s = Ret (p, s1)"
      and r: "alloc_all alloc ns s1 = Ret (qs, s')" and ps: "ps = qs @ [p]"
    by (auto simp: bind_ret_eq_Ret)
  from Cons.prems a have "ok s1" and "all_fit alloc fits ns s1" by (auto intro: ok_alloc)
  with r have "free_all free qs s' = Ret s1" by (intro Cons.IH)
  moreover from Cons.prems a have "free p s1 = Ret s" by (auto intro: free_alloc)
  ultimately show ?case by (simp add: ps free_all_append)
qed simp

lemma two_buffers:
  assumes "ok s" and "fits n s" and "alloc n s = Ret (p, s1)"
    and "fits m s1" and "alloc m s1 = Ret (q, s2)"
  shows "bind_ret (free q s2) (free p) = Ret s"
proof -
  have "ok s1" using assms(1-3) by (rule ok_alloc)
  then have "free q s2 = Ret s1" using assms(4,5) by (rule free_alloc)
  moreover have "free p s1 = Ret s" using assms(1-3) by (rule free_alloc)
  ultimately show ?thesis by simp
qed

end

definition blob_fits :: "u32 \<Rightarrow> arena \<Rightarrow> bool" where
  "blob_fits n s \<longleftrightarrow> n \<le> arena2hi s"

lemma blob_free_alloc:
  assumes "arena_ok s" and "blob_alloc n s = Ret (p, s')"
  shows "blob_free p s' = Ret s"
  using assms(2)
proof (cases rule: blob_alloc_cases)
  case blob
  with assms have "p \<noteq> 0" by (intro blob_alloc_nonnull[OF assms]) (auto dest: arg_cong[where f = blobs])
  with blob show ?thesis by (simp add: blob_free_def)
qed (simp add: blob_free_def)

interpretation blob: stack_alloc blob_alloc blob_free blob_fits arena_ok
proof
  fix s n p s'
  show "blob_free 0 s = Ret s" by (simp add: blob_free_def)
  assume "arena_ok s" "blob_fits n s" "blob_alloc n s = Ret (p, s')"
  then show "arena_ok s'" and "blob_free p s' = Ret s"
    by (auto simp: blob_fits_def word_le_nat_alt intro: arena_ok_alloc blob_free_alloc)
qed

section \<open>Live blobs do not overlap\<close>

definition blob_block :: "blob_t \<Rightarrow> u32 \<Rightarrow> bool" where
  "blob_block b x \<longleftrightarrow> unat (the_blob b) \<le> unat x \<and> unat x < unat (the_blob b) + unat (blob_size b)"

lemma chain_above: "chain lo hi bs \<Longrightarrow> b \<in> set bs \<Longrightarrow> blob_block b x \<Longrightarrow> unat hi \<le> unat x"
  by (induction bs arbitrary: hi) (auto simp: blob_block_def dest: le_trans, fastforce)

lemma chain_disjoint:
  "chain lo hi (b # bs) \<Longrightarrow> c \<in> set bs \<Longrightarrow> \<not> (blob_block b x \<and> blob_block c x)"
  by (auto simp: blob_block_def dest!: chain_above)

text \<open>
  Buffers taken one after the other and released in reverse order leave the arena exactly as
  it was, and none of the releases panics.
\<close>

lemma blob_nested_release:
  assumes "arena_ok s" and "all_fit blob_alloc blob_fits ns s"
    and "alloc_all blob_alloc ns s = Ret (ps, s')"
  shows "free_all blob_free ps s' = Ret s"
  using assms by (rule blob.nested_release)

definition sample_arena :: arena where
  "sample_arena = \<lparr>blobs = [], arena2lo = 0x90002000, arena2hi = 0x933e0000\<rparr>"

lemma blob_nested_release_example:
  "\<exists>ps s'. alloc_all blob_alloc [0x1000, 77] sample_arena = Ret (ps, s')
     \<and> length ps = 2 \<and> free_all blob_free ps s' = Ret sample_arena"
proof -
  have ok: "arena_ok sample_arena" by (simp add: arena_ok_def sample_arena_def MAX_BLOBS_def)
  have fit: "all_fit blob_alloc blob_fits [0x1000, 77] sample_arena"
    by (simp add: blob_fits_def sample_arena_def blob_alloc_def blob_addr_def MAX_BLOBS_def
        BLOB_MINSLACK_def)
  obtain ps s' where a: "alloc_all blob_alloc [0x1000, 77] sample_arena = Ret (ps, s')"
      and l: "length ps = 2"
    by (simp add: sample_arena_def blob_alloc_def blob_addr_def MAX_BLOBS_def BLOB_MINSLACK_def)
  from blob_nested_release[OF ok fit a] a l show ?thesis by blast
qed

text \<open>
  A successful allocation returns a 32-byte aligned block that lies between the slack above
  the low bound and the old high bound, and that overlaps no blob still in use.
\<close>

lemma blob_alloc_block:
  assumes "arena_ok s" and "n \<le> arena2hi s" and "blob_alloc n s = Ret (p, s')" and "p \<noteq> 0"
  shows "32 dvd unat p \<and> unat (arena2lo s) + 524288 \<le> unat p
    \<and> unat p + unat n \<le> unat (arena2hi s)
    \<and> (\<exists>b. blobs s' = b # blobs s \<and> the_blob b = p \<and> blob_size b = n
         \<and> (\<forall>c\<in>set (blobs s). \<forall>x. \<not> (blob_block b x \<and> blob_block c x)))"
  using assms(3)
proof (cases rule: blob_alloc_cases)
  case blob
  have "arena_ok s'"
    by (rule arena_ok_alloc[OF assms(1) _ assms(3)]) (use assms(2) in \<open>simp add: word_le_nat_alt\<close>)
  then have "chain (arena2lo s') (arena2hi s') (blobs s')" by (simp add: arena_ok_def)
  moreover define b where "b = \<lparr>the_blob = p, blob_size = n, old_arena2hi = arena2hi s\<rparr>"
  moreover have bs: "blobs s' = b # blobs s" unfolding b_def by (simp only: blob(4)) simp
  ultimately have "chain (arena2lo s') (arena2hi s') (b # blobs s)" by simp
  then have "\<forall>c\<in>set (blobs s). \<forall>x. \<not> (blob_block b x \<and> blob_block c x)"
    using chain_disjoint by blast
  moreover have "unat (arena2lo s) + 524288 \<le> unat p"
    using blob assms(1) by (simp add: arena_ok_def slack_less_iff)
  moreover have "32 dvd unat p" and "unat p + unat n \<le> unat (arena2hi s)"
    using blob_addr_bounds[of n s] assms(2) blob by (simp_all add: word_le_nat_alt)
  ultimately show ?thesis using bs by (auto simp: b_def)
qed (use assms(4) in simp)

lemma blob_alloc_block_example:
  "\<exists>s1 p s2. blob_alloc 0x1000 sample_arena = Ret (0x933df000, s1) \<and> blob_alloc 77 s1 = Ret (p, s2)
     \<and> 32 dvd unat p \<and> unat p + 77 \<le> 0x933df000"
proof -
  have ok: "arena_ok sample_arena" by (simp add: arena_ok_def sample_arena_def MAX_BLOBS_def)
  obtain s1 where a1: "blob_alloc 0x1000 sample_arena = Ret (0x933df000, s1)"
      and hi: "arena2hi s1 = 0x933df000"
    by (simp add: sample_arena_def blob_alloc_def blob_addr_def MAX_BLOBS_def BLOB_MINSLACK_def)
  have ok1: "arena_ok s1"
    by (rule arena_ok_alloc[OF ok _ a1]) (simp add: sample_arena_def)
  obtain p s2 where a2: "blob_alloc 77 s1 = Ret (p, s2)" and p: "p \<noteq> 0"
    using a1 by (auto simp: sample_arena_def blob_alloc_def blob_addr_def MAX_BLOBS_def BLOB_MINSLACK_def)
  from blob_alloc_block[OF ok1 _ a2 p] a1 a2 hi show ?thesis by auto
qed

text \<open>
  The guard on the request size is not in the code: a request above the high bound wraps around
  and is granted at the top of the address space.
\<close>

lemma blob_alloc_wraps:
  "\<exists>s'. blob_alloc 0x933e0020 sample_arena = Ret (0xffffffe0, s')"
  by (simp add: sample_arena_def blob_alloc_def blob_addr_def MAX_BLOBS_def BLOB_MINSLACK_def)

end
