(* ===== verification/Stub_String.thy ===== *)
theory Stub_String
  imports HBC_Prelude
begin

text \<open>
  \<^verbatim>\<open>wiipax/stub/string.c\<close>: the freestanding C string routines of the unpacking stub, over the
  flat memory. Counts are \<^verbatim>\<open>size_t\<close>, 32 bits on the target, and are unfolded as natural
  numbers. The routines that stop at a NUL only (\<^verbatim>\<open>strlen\<close>, \<^verbatim>\<open>strcpy\<close>, \<^verbatim>\<open>strcmp\<close>) may run
  forever in a memory without one, so they are partial functions with \<open>None\<close> for not
  returning; the lemmas show that they return on every terminated string.
\<close>

section \<open>The routines\<close>

fun strnlen_loop :: "mem \<Rightarrow> u32 \<Rightarrow> nat \<Rightarrow> u32" where
  "strnlen_loop m sc 0 = sc"
| "strnlen_loop m sc (Suc count) = (if m sc \<noteq> 0 then strnlen_loop m (sc + 1) count else sc)"

definition strnlen :: "mem \<Rightarrow> u32 \<Rightarrow> u32 \<Rightarrow> u32" where
  "strnlen m s count = strnlen_loop m s (unat count) - s"

partial_function (option) strlen_loop :: "mem \<Rightarrow> u32 \<Rightarrow> u32 option" where
  "strlen_loop m sc = (if m sc \<noteq> 0 then strlen_loop m (sc + 1) else Some sc)"

definition strlen :: "mem \<Rightarrow> u32 \<Rightarrow> u32 option" where
  "strlen m s = map_option (\<lambda>sc. sc - s) (strlen_loop m s)"

text \<open>
  \<^verbatim>\<open>strncpy\<close> has two loops. The first, \<^verbatim>\<open>while (n && (*dst++ = *src++)) n--;\<close>, stores a byte before
  it tests it, and leaves without counting the NUL it has stored; the second clears as many
  bytes as the count that is left.
\<close>

fun strncpy_copy :: "mem \<Rightarrow> u32 \<Rightarrow> u32 \<Rightarrow> nat \<Rightarrow> mem \<times> u32 \<times> nat" where
  "strncpy_copy m dst src 0 = (m, dst, 0)"
| "strncpy_copy m dst src (Suc n) =
     (let c = m src; m' = m(dst := c)
      in if c \<noteq> 0 then strncpy_copy m' (dst + 1) (src + 1) n else (m', dst + 1, Suc n))"

fun strncpy_clear :: "mem \<Rightarrow> u32 \<Rightarrow> nat \<Rightarrow> mem" where
  "strncpy_clear m dst 0 = m"
| "strncpy_clear m dst (Suc n) = strncpy_clear (m(dst := 0)) (dst + 1) n"

definition strncpy :: "mem \<Rightarrow> u32 \<Rightarrow> u32 \<Rightarrow> u32 \<Rightarrow> mem \<times> u32" where
  "strncpy m dst src n =
     (case strncpy_copy m dst src (unat n) of (m', d, left) \<Rightarrow> (strncpy_clear m' d left, dst))"

partial_function (option) strcpy_loop :: "mem \<Rightarrow> u32 \<Rightarrow> u32 \<Rightarrow> mem option" where
  "strcpy_loop m dst src =
     (if m src \<noteq> 0 then strcpy_loop (m(dst := m src)) (dst + 1) (src + 1)
      else Some (m(dst := m src)))"

definition strcpy :: "mem \<Rightarrow> u32 \<Rightarrow> u32 \<Rightarrow> (mem \<times> u32) option" where
  "strcpy m dst src = map_option (\<lambda>m'. (m', dst)) (strcpy_loop m dst src)"

partial_function (option) strcmp :: "mem \<Rightarrow> u32 \<Rightarrow> u32 \<Rightarrow> int option" where
  "strcmp m p q =
     (let a = m p; b = m q
      in if a = 0 \<or> a \<noteq> b then Some (int (unat a) - int (unat b)) else strcmp m (p + 1) (q + 1))"

fun memset_loop :: "mem \<Rightarrow> u32 \<Rightarrow> u8 \<Rightarrow> nat \<Rightarrow> mem" where
  "memset_loop m p x 0 = m"
| "memset_loop m p x (Suc n) = memset_loop (m(p := x)) (p + 1) x n"

definition memset :: "mem \<Rightarrow> u32 \<Rightarrow> u32 \<Rightarrow> u32 \<Rightarrow> mem \<times> u32" where
  "memset m dst x n = (memset_loop m dst (ucast x) (unat n), dst)"

fun memcpy_loop :: "mem \<Rightarrow> u32 \<Rightarrow> u32 \<Rightarrow> nat \<Rightarrow> mem" where
  "memcpy_loop m p q 0 = m"
| "memcpy_loop m p q (Suc n) = memcpy_loop (m(p := m q)) (p + 1) (q + 1) n"

definition memcpy :: "mem \<Rightarrow> u32 \<Rightarrow> u32 \<Rightarrow> u32 \<Rightarrow> mem \<times> u32" where
  "memcpy m dst src n = (memcpy_loop m dst src (unat n), dst)"

fun memcmp_loop :: "mem \<Rightarrow> u32 \<Rightarrow> u32 \<Rightarrow> nat \<Rightarrow> int" where
  "memcmp_loop m s1 s2 0 = 0"
| "memcmp_loop m s1 s2 (Suc n) =
     (if m s1 \<noteq> m s2 then (if m s1 < m s2 then -1 else 1) else memcmp_loop m (s1 + 1) (s2 + 1) n)"

definition memcmp :: "mem \<Rightarrow> u32 \<Rightarrow> u32 \<Rightarrow> u32 \<Rightarrow> int" where
  "memcmp m s1 s2 n = memcmp_loop m s1 s2 (unat n)"

section \<open>Terminated strings\<close>

fun cstr_at :: "mem \<Rightarrow> u32 \<Rightarrow> u8 list \<Rightarrow> bool" where
  "cstr_at m p [] \<longleftrightarrow> m p = 0"
| "cstr_at m p (b # bs) \<longleftrightarrow> b \<noteq> 0 \<and> m p = b \<and> cstr_at m (p + 1) bs"

lemma cstr_at_unique: "cstr_at m p bs \<Longrightarrow> cstr_at m p cs \<Longrightarrow> bs = cs"
  by (induction m p bs arbitrary: cs rule: cstr_at.induct) (case_tac cs; simp)+

lemma strlen_loop_cstr: "cstr_at m p bs \<Longrightarrow> strlen_loop m p = Some (p + of_nat (length bs))"
  by (induction m p bs rule: cstr_at.induct) (simp_all add: strlen_loop.simps algebra_simps)

lemma strlen_cstr: "cstr_at m p bs \<Longrightarrow> strlen m p = Some (of_nat (length bs))"
  by (simp add: strlen_def strlen_loop_cstr)

lemma strnlen_loop_cstr:
  "cstr_at m p bs \<Longrightarrow> strnlen_loop m p n = p + of_nat (min n (length bs))"
  by (induction m p bs arbitrary: n rule: cstr_at.induct)
     (case_tac n; simp add: algebra_simps)+

lemma strnlen_cstr:
  "cstr_at m p bs \<Longrightarrow> strnlen m p n = of_nat (min (unat n) (length bs))"
  by (simp add: strnlen_def strnlen_loop_cstr)

section \<open>Block operations as writes\<close>

lemma memset_loop_write:
  "n \<le> 4294967296 \<Longrightarrow> memset_loop m p x n = mem_write m p (replicate n x)"
  by (induction m p x n rule: memset_loop.induct) (simp_all add: mem_write_Cons)

lemma strncpy_clear_write:
  "n \<le> 4294967296 \<Longrightarrow> strncpy_clear m p n = mem_write m p (replicate n 0)"
  by (induction m p n rule: strncpy_clear.induct) (simp_all add: mem_write_Cons)

text \<open>
  A forward copy delivers the source's old contents when no byte is overwritten before it is
  read: always when the blocks are disjoint, and also when the destination lies below.
\<close>

definition read_ahead :: "u32 \<Rightarrow> u32 \<Rightarrow> nat \<Rightarrow> bool" where
  "read_ahead dst src n \<longleftrightarrow> (\<forall>i<n. \<forall>j<i. src + of_nat i \<noteq> dst + of_nat j)"

lemma read_ahead_step:
  assumes "read_ahead dst src (Suc n)"
  shows "read_ahead (dst + 1) (src + 1) n" and "i < n \<Longrightarrow> src + 1 + of_nat i \<noteq> dst"
proof -
  have *: "src + of_nat i \<noteq> dst + of_nat j" if "i < Suc n" "j < i" for i j
    using assms that by (simp add: read_ahead_def)
  show "read_ahead (dst + 1) (src + 1) n"
    unfolding read_ahead_def
  proof (intro allI impI)
    fix i j assume "i < n" "j < i"
    then show "src + 1 + of_nat i \<noteq> dst + 1 + of_nat j"
      using *[of "Suc i" "Suc j"] by (simp add: algebra_simps)
  qed
  show "i < n \<Longrightarrow> src + 1 + of_nat i \<noteq> dst"
    using *[of "Suc i" 0] by (simp add: algebra_simps)
qed

lemma read_ahead_above:
  assumes "unat src + n \<le> unat dst" and "unat dst + n \<le> 4294967296"
  shows "read_ahead dst src n"
  unfolding read_ahead_def
proof (intro allI impI notI)
  fix i j assume "i < n" "j < i" and eq: "src + of_nat i = dst + of_nat j"
  have "unat (src + of_nat i) = unat src + i" and "unat (dst + of_nat j) = unat dst + j"
    using \<open>i < n\<close> \<open>j < i\<close> assms by (simp_all add: unat_word_ariths)
  with eq \<open>i < n\<close> assms(1) show False by simp
qed

lemma mem_read_upd_other:
  "(\<And>i. i < n \<Longrightarrow> a + of_nat i \<noteq> d) \<Longrightarrow> mem_read (m(d := b)) a n = mem_read m a n"
  by (simp add: mem_read_def)

lemma memcpy_loop_write:
  assumes "read_ahead dst src n" and "n \<le> 4294967296"
  shows "memcpy_loop m dst src n = mem_write m dst (mem_read m src n)"
  using assms
proof (induction n arbitrary: m dst src)
  case (Suc n)
  note step = read_ahead_step[OF Suc.prems(1)]
  have "memcpy_loop m dst src (Suc n)
      = mem_write (m(dst := m src)) (dst + 1) (mem_read (m(dst := m src)) (src + 1) n)"
    using Suc.IH[OF step(1)] Suc.prems(2) by simp
  also have "mem_read (m(dst := m src)) (src + 1) n = mem_read m (src + 1) n"
    using step(2) by (rule mem_read_upd_other)
  also have "mem_write (m(dst := m src)) (dst + 1) (mem_read m (src + 1) n)
      = mem_write m dst (m src # mem_read m (src + 1) n)"
    using Suc.prems(2) by (intro mem_write_Cons) simp
  finally show ?case by (simp only: mem_read_Suc)
qed (simp add: mem_read_def)

lemma cstr_at_upd_other:
  "cstr_at m p bs \<Longrightarrow> (\<And>i. i \<le> length bs \<Longrightarrow> p + of_nat i \<noteq> d) \<Longrightarrow> cstr_at (m(d := c)) p bs"
proof (induction bs arbitrary: p)
  case Nil
  from Nil.prems(2)[of 0] Nil.prems(1) show ?case by simp
next
  case (Cons b bs)
  have "p + 1 + of_nat i \<noteq> d" if "i \<le> length bs" for i
    using Cons.prems(2)[of "Suc i"] that by (simp add: algebra_simps)
  with Cons.prems(1) have "cstr_at (m(d := c)) (p + 1) bs" by (intro Cons.IH) simp_all
  with Cons.prems(1) show ?case using Cons.prems(2)[of 0] by (simp del: fun_upd_apply) simp
qed

lemma strncpy_copy_short:
  assumes "cstr_at m src bs" and "length bs < n" and "n < 4294967296"
    and "read_ahead dst src (Suc (length bs))"
  shows "strncpy_copy m dst src n
       = (mem_write m dst (bs @ [0]), dst + of_nat (Suc (length bs)), n - length bs)"
  using assms
proof (induction bs arbitrary: m dst src n)
  case Nil
  have "mem_write m dst [0] = mem_write (m(dst := 0)) (dst + 1) []"
    by (rule mem_write_Cons [symmetric]) simp
  with Nil show ?case by (cases n) (simp_all del: fun_upd_apply)
next
  case (Cons b bs)
  obtain k where n: "n = Suc k" using Cons.prems(2) by (cases n) auto
  note step = read_ahead_step[OF Cons.prems(4)[simplified]]
  have "cstr_at (m(dst := b)) (src + 1) bs"
    using Cons.prems(1) step(2) by (intro cstr_at_upd_other) auto
  from Cons.IH[OF this, of k "dst + 1"] Cons.prems step(1) n
  have "strncpy_copy m dst src n
      = (mem_write (m(dst := b)) (dst + 1) (bs @ [0]), dst + 1 + of_nat (Suc (length bs)),
         k - length bs)"
    by (simp del: fun_upd_apply)
  also have "mem_write (m(dst := b)) (dst + 1) (bs @ [0]) = mem_write m dst (b # bs @ [0])"
    using Cons.prems(2,3) by (intro mem_write_Cons) simp
  finally show ?case using n by (simp add: algebra_simps)
qed

lemma strncpy_copy_long:
  assumes "cstr_at m src bs" and "n \<le> length bs" and "n \<le> 4294967296"
    and "read_ahead dst src (Suc (length bs))"
  shows "strncpy_copy m dst src n = (mem_write m dst (take n bs), dst + of_nat n, 0)"
  using assms
proof (induction bs arbitrary: m dst src n)
  case (Cons b bs)
  show ?case
  proof (cases n)
    case (Suc k)
    note step = read_ahead_step[OF Cons.prems(4)[simplified]]
    have "cstr_at (m(dst := b)) (src + 1) bs"
      using Cons.prems(1) step(2) by (intro cstr_at_upd_other) auto
    from Cons.IH[OF this, of k "dst + 1"] Cons.prems step(1) Suc
    have "strncpy_copy m dst src n
        = (mem_write (m(dst := b)) (dst + 1) (take k bs), dst + 1 + of_nat k, 0)"
      by (simp del: fun_upd_apply)
    also have "mem_write (m(dst := b)) (dst + 1) (take k bs) = mem_write m dst (b # take k bs)"
      using Cons.prems(2,3) Suc by (intro mem_write_Cons) simp
    finally show ?thesis using Suc by (simp add: algebra_simps)
  qed simp
qed simp

section \<open>What the routines deliver\<close>

text \<open>
  \<^verbatim>\<open>strncpy\<close> of a terminated string copies at most \<^verbatim>\<open>n\<close> bytes of a string that is not shorter than
  \<^verbatim>\<open>n\<close>, as it should; for a shorter string it writes the string followed by NULs up to \<^verbatim>\<open>n + 1\<close>
  bytes in all, one more than the destination is said to hold.
\<close>

lemma strncpy_writes:
  assumes "cstr_at m src bs" and "n < 4294967295" and "read_ahead dst src (Suc (length bs))"
  shows "strncpy m dst src n =
    (mem_write m dst (if length bs < unat n then bs @ replicate (unat n + 1 - length bs) 0
                      else take (unat n) bs), dst)"
proof (cases "length bs < unat n")
  case True
  let ?k = "unat n - length bs"
  have n: "unat n < 4294967295" using assms(2) by (simp add: word_less_nat_alt)
  have "strncpy_copy m dst src (unat n)
      = (mem_write m dst (bs @ [0]), dst + of_nat (Suc (length bs)), ?k)"
    using assms(1,3) True n by (intro strncpy_copy_short) simp_all
  moreover have "strncpy_clear (mem_write m dst (bs @ [0])) (dst + of_nat (Suc (length bs))) ?k
      = mem_write (mem_write m dst (bs @ [0])) (dst + of_nat (length (bs @ [0]))) (replicate ?k 0)"
    using n by (simp add: strncpy_clear_write)
  moreover have "\<dots> = mem_write m dst ((bs @ [0]) @ replicate ?k 0)"
    using True n by (intro mem_write_append) simp
  moreover have "(bs @ [0]) @ replicate ?k 0 = bs @ replicate (unat n + 1 - length bs) 0"
    using True by (simp add: Suc_diff_le)
  ultimately show ?thesis using True by (simp add: strncpy_def)
next
  case False
  then have "strncpy_copy m dst src (unat n) = (mem_write m dst (take (unat n) bs), dst + of_nat (unat n), 0)"
    using assms(1,3) unsigned_less[of n, where ?'a = nat] by (intro strncpy_copy_long) simp_all
  with False show ?thesis by (simp add: strncpy_def)
qed

definition abc_mem :: mem where
  "abc_mem = (\<lambda>x. if x = 0x100 then 97 else if x = 0x101 then 98 else if x = 0x102 then 0 else 7)"

lemma strncpy_writes_example:
  "strncpy abc_mem 0x200 0x100 4 = (mem_write abc_mem 0x200 [97, 98, 0, 0, 0], 0x200)"
proof -
  have ra: "read_ahead 0x200 0x100 (Suc (length [97, 98 :: u8]))"
    by (rule read_ahead_above) simp_all
  have c: "cstr_at abc_mem 0x100 [97, 98]" by (simp add: abc_mem_def)
  have "(4 :: u32) < 4294967295" by simp
  from strncpy_writes[OF c this ra] show ?thesis by (simp add: numeral_3_eq_3)
qed

lemma uint_byte_pos: "(w :: u8) \<noteq> 0 \<Longrightarrow> 0 < uint w"
  by (metis less_le uint_ge_0 unsigned_eq_0_iff)

lemma strcmp_cstr_step:
  assumes "cstr_at m p (b # bs)" and "cstr_at m q (b # cs)"
  shows "strcmp m p q = strcmp m (p + 1) (q + 1)"
  using assms by (subst strcmp.simps) simp

text \<open>
  \<^verbatim>\<open>strcmp\<close> returns on every pair of terminated strings; the result is 0 exactly for equal
  strings and negative exactly when the first comes first in the order of unsigned bytes.
\<close>

lemma strcmp_order:
  assumes "cstr_at m p bs" and "cstr_at m q cs"
  shows "\<exists>r. strcmp m p q = Some r \<and> (r = 0 \<longleftrightarrow> bs = cs) \<and> (r < 0 \<longleftrightarrow> ord_class.lexordp bs cs)"
  using assms
proof (induction bs arbitrary: p q cs)
  case Nil
  then show ?case
    by (cases cs) (auto simp: strcmp.simps uint_byte_pos uint_0_iff)
next
  case (Cons b bs)
  show ?case
  proof (cases cs)
    case Nil
    with Cons.prems show ?thesis by (auto simp: strcmp.simps uint_byte_pos uint_0_iff not_less)
  next
    case (Cons c cs')
    show ?thesis
    proof (cases "b = c")
      case True
      with Cons.IH[of "p + 1" "q + 1" cs'] Cons.prems Cons show ?thesis
        using strcmp_cstr_step[of m p b bs q cs'] by auto
    next
      case False
      then have "uint b < uint c \<longleftrightarrow> b < c" and "uint b \<noteq> uint c"
        by (simp_all add: word_less_def word_uint_eq_iff)
      with False Cons.prems Cons show ?thesis
        by (auto simp: strcmp.simps)
    qed
  qed
qed

lemma strcmp_order_example:
  "\<exists>r. strcmp abc_mem 0x100 0x101 = Some r \<and> r < 0 \<and> \<not> r = 0"
proof -
  have "cstr_at abc_mem 0x100 [97, 98]" and "cstr_at abc_mem 0x101 [98]"
    by (simp_all add: abc_mem_def)
  from strcmp_order[OF this] show ?thesis by auto
qed

lemma memcmp_loop_order:
  "memcmp_loop m p q n
   = (if mem_read m p n = mem_read m q n then 0
      else if ord_class.lexordp (mem_read m p n) (mem_read m q n) then -1 else 1)"
  by (induction m p q n rule: memcmp_loop.induct)
     (auto simp: mem_read_Suc mem_read_def[of _ _ 0] dest: less_asym)

text \<open>
  \<^verbatim>\<open>memcmp\<close> is 0 exactly when the two blocks hold the same bytes, and otherwise -1 or 1 as the
  first is below or above the second in the order of unsigned bytes.
\<close>

lemma memcmp_order:
  "memcmp m p q n
   = (if mem_read m p (unat n) = mem_read m q (unat n) then 0
      else if ord_class.lexordp (mem_read m p (unat n)) (mem_read m q (unat n)) then -1 else 1)"
  by (simp add: memcmp_def memcmp_loop_order)

lemma memcpy_write:
  "read_ahead dst src (unat n) \<Longrightarrow>
    memcpy m dst src n = (mem_write m dst (mem_read m src (unat n)), dst)"
  using unsigned_less[of n, where ?'a = nat] by (simp add: memcpy_def memcpy_loop_write)

lemma memset_write: "memset m dst x n = (mem_write m dst (replicate (unat n) (ucast x)), dst)"
  using unsigned_less[of n, where ?'a = nat] by (simp add: memset_def memset_loop_write)

end
