(* ===== verification/Vsprintf.thy ===== *)
theory Vsprintf
  imports HBC_Prelude
begin

text \<open>
  \<^verbatim>\<open>wiipax/stub/vsprintf.c\<close>: the formatter behind the stub's \<^verbatim>\<open>printf\<close>. The format is the list of
  its bytes before the NUL and the result the list of bytes stored before the final NUL. Every
  argument is one 32-bit word, as the target's calling convention passes them: \<open>args i\<close> is the
  word the \<open>i\<close>-th \<^verbatim>\<open>va_arg\<close> fetches, and \<open>str_at p\<close> the string a pointer argument designates.
  \<^verbatim>\<open>%n\<close> stores through its pointer; the stores are collected in order. \<^verbatim>\<open>long\<close> and \<^verbatim>\<open>int\<close> have
  32 bits; field widths and precisions are unbounded integers (a width of ten digits or more
  overflows in the code).
\<close>

section \<open>Characters\<close>

abbreviation (input) chr :: "char \<Rightarrow> u8" where "chr c \<equiv> of_char c"

definition isdigit :: "u8 \<Rightarrow> bool" where
  "isdigit c \<longleftrightarrow> 48 \<le> c \<and> c \<le> 57"

fun skip_atoi_loop :: "int \<Rightarrow> u8 list \<Rightarrow> int \<times> u8 list" where
  "skip_atoi_loop i [] = (i, [])"
| "skip_atoi_loop i (c # s) =
     (if isdigit c then skip_atoi_loop (i * 10 + uint c - 48) s else (i, c # s))"

definition skip_atoi :: "u8 list \<Rightarrow> int \<times> u8 list" where
  "skip_atoi s = skip_atoi_loop 0 s"

section \<open>Numbers\<close>

definition ZEROPAD :: u32 where "ZEROPAD = 1"
definition SIGN :: u32 where "SIGN = 2"
definition PLUS :: u32 where "PLUS = 4"
definition SPACE :: u32 where "SPACE = 8"
definition LEFT :: u32 where "LEFT = 16"
definition SPECIAL :: u32 where "SPECIAL = 32"
definition LARGE :: u32 where "LARGE = 64"

lemmas flag_defs = ZEROPAD_def SIGN_def PLUS_def SPACE_def LEFT_def SPECIAL_def LARGE_def

definition digits_lower :: "u8 list" where
  "digits_lower = map of_char ''0123456789abcdefghijklmnopqrstuvwxyz''"

definition digits_upper :: "u8 list" where
  "digits_upper = map of_char ''0123456789ABCDEFGHIJKLMNOPQRSTUVWXYZ''"

text \<open>
  The digits of \<^verbatim>\<open>tmp\<close>, least significant first: \<^verbatim>\<open>while (num != 0) tmp[i++] = digits[do_div(num,
  base)]\<close>. Both division and remainder are unsigned.
\<close>

fun number_digits :: "u8 list \<Rightarrow> nat \<Rightarrow> nat \<Rightarrow> u8 list" where
  "number_digits ds base num =
     (if num = 0 \<or> base < 2 then []
      else ds ! (num mod base) # number_digits ds base (num div base))"

declare number_digits.simps [simp del]

text \<open>\<^verbatim>\<open>while (size-- > 0) *str++ = c\<close>: what it stores and the value it leaves in \<^verbatim>\<open>size\<close>.\<close>

definition pad :: "int \<Rightarrow> u8 \<Rightarrow> u8 list" where
  "pad n c = replicate (nat n) c"

definition after_pad :: "int \<Rightarrow> int" where
  "after_pad n = (if 0 < n then -1 else n - 1)"

definition number_sign :: "u32 \<Rightarrow> u32 \<Rightarrow> u8 list \<times> u32" where
  "number_sign num flags =
     (if flags AND SIGN = 0 then ([], num)
      else if sint num < 0 then ([chr CHR ''-''], - num)
      else if flags AND PLUS \<noteq> 0 then ([chr CHR ''+''], num)
      else if flags AND SPACE \<noteq> 0 then ([chr CHR '' ''], num)
      else ([], num))"

definition number_prefix :: "u8 list \<Rightarrow> int \<Rightarrow> u32 \<Rightarrow> u8 list" where
  "number_prefix ds base flags =
     (if flags AND SPECIAL = 0 then []
      else if base = 8 then [chr CHR ''0'']
      else if base = 16 then [chr CHR ''0'', ds ! 33]
      else [])"

definition number :: "u32 \<Rightarrow> int \<Rightarrow> int \<Rightarrow> int \<Rightarrow> u32 \<Rightarrow> u8 list option" where
  "number num0 base size0 precision0 type0 =
     (let ds = (if type0 AND LARGE \<noteq> 0 then digits_upper else digits_lower);
          flags = (if type0 AND LEFT \<noteq> 0 then type0 AND NOT ZEROPAD else type0)
      in if base < 2 \<or> base > 36 then None
      else
        let c = (if flags AND ZEROPAD \<noteq> 0 then chr CHR ''0'' else chr CHR '' '');
            (sign, num) = number_sign num0 flags;
            prefix = number_prefix ds base flags;
            tmp = (if num = 0 then [chr CHR ''0''] else number_digits ds (nat base) (unat num));
            i = int (length tmp);
            precision = max i precision0;
            size = size0 - int (length sign) - int (length prefix) - precision;
            front = (if flags AND (ZEROPAD + LEFT) = 0 then pad size (chr CHR '' '') else []);
            size = (if flags AND (ZEROPAD + LEFT) = 0 then after_pad size else size);
            mid = (if flags AND LEFT = 0 then pad size c else []);
            size = (if flags AND LEFT = 0 then after_pad size else size);
            zeros = pad (precision - i) (chr CHR ''0'')
        in Some (front @ sign @ prefix @ mid @ zeros @ rev tmp @ pad size (chr CHR '' '')))"

section \<open>The formatter\<close>

text \<open>The flag characters after \<^verbatim>\<open>%\<close>, in any number and order.\<close>

fun parse_flags :: "u32 \<Rightarrow> u8 list \<Rightarrow> u32 \<times> u8 list" where
  "parse_flags flags [] = (flags, [])"
| "parse_flags flags (c # s) =
     (if c = chr CHR ''-'' then parse_flags (flags OR LEFT) s
      else if c = chr CHR ''+'' then parse_flags (flags OR PLUS) s
      else if c = chr CHR '' '' then parse_flags (flags OR SPACE) s
      else if c = chr CHR ''#'' then parse_flags (flags OR SPECIAL) s
      else if c = chr CHR ''0'' then parse_flags (flags OR ZEROPAD) s
      else (flags, c # s))"

record conv =
  cflags :: u32
  field_width :: int
  precision :: int
  qualifier :: "u8 option"
  next_arg :: nat

definition parse_width :: "(nat \<Rightarrow> u32) \<Rightarrow> conv \<Rightarrow> u8 list \<Rightarrow> conv \<times> u8 list" where
  "parse_width args k s =
     (case s of
        [] \<Rightarrow> (k, s)
      | c # s' \<Rightarrow>
          if isdigit c then (case skip_atoi s of (w, r) \<Rightarrow> (k\<lparr>field_width := w\<rparr>, r))
          else if c = chr CHR ''*'' then
            let w = sint (args (next_arg k)); k1 = k\<lparr>next_arg := Suc (next_arg k)\<rparr>
            in (if w < 0 then k1\<lparr>field_width := - w, cflags := cflags k OR LEFT\<rparr>
                else k1\<lparr>field_width := w\<rparr>, s')
          else (k, s))"

definition parse_precision :: "(nat \<Rightarrow> u32) \<Rightarrow> conv \<Rightarrow> u8 list \<Rightarrow> conv \<times> u8 list" where
  "parse_precision args k s =
     (case s of
        [] \<Rightarrow> (k, s)
      | d # s1 \<Rightarrow>
          if d \<noteq> chr CHR ''.'' then (k, s)
          else
            let (k1, p, s2) =
              (case s1 of
                 [] \<Rightarrow> (k, -1, s1)
               | c # s' \<Rightarrow>
                   if isdigit c then (case skip_atoi s1 of (p, r) \<Rightarrow> (k, p, r))
                   else if c = chr CHR ''*'' then
                     (k\<lparr>next_arg := Suc (next_arg k)\<rparr>, sint (args (next_arg k)), s')
                   else (k, -1, s1))
            in (k1\<lparr>precision := (if p < 0 then 0 else p)\<rparr>, s2))"

definition parse_qualifier :: "conv \<Rightarrow> u8 list \<Rightarrow> conv \<times> u8 list" where
  "parse_qualifier k s =
     (case s of
        [] \<Rightarrow> (k, s)
      | c # s' \<Rightarrow>
          if c = chr CHR ''h'' \<or> c = chr CHR ''l'' \<or> c = chr CHR ''L''
          then (k\<lparr>qualifier := Some c\<rparr>, s') else (k, s))"

text \<open>One conversion: what it stores, the next argument, the \<^verbatim>\<open>%n\<close> store it makes if any.\<close>

definition fetch_int :: "u8 option \<Rightarrow> u32 \<Rightarrow> u32 \<Rightarrow> u32" where
  "fetch_int q flags w =
     (if q = Some (chr CHR ''l'') then w
      else if q = Some (chr CHR ''h'') then
        (if flags AND SIGN \<noteq> 0 then scast (ucast w :: u16) else ucast (ucast w :: u16))
      else w)"

definition conv_int :: "(nat \<Rightarrow> u32) \<Rightarrow> conv \<Rightarrow> int \<Rightarrow> u32 \<Rightarrow> u8 list" where
  "conv_int args k base extra =
     (let flags = cflags k OR extra
      in case number (fetch_int (qualifier k) flags (args (next_arg k))) base (field_width k)
                     (precision k) flags of
           None \<Rightarrow> []
         | Some out \<Rightarrow> out)"

definition conv_char :: "(nat \<Rightarrow> u32) \<Rightarrow> conv \<Rightarrow> u8 list" where
  "conv_char args k =
     (let left = (cflags k AND LEFT \<noteq> 0); w = field_width k - 1;
          front = (if left then [] else pad w (chr CHR '' ''));
          w' = (if left then field_width k else min w 0)
      in front @ [ucast (args (next_arg k))] @ pad (w' - 1) (chr CHR '' ''))"

definition conv_str :: "(u32 \<Rightarrow> u8 list) \<Rightarrow> (nat \<Rightarrow> u32) \<Rightarrow> conv \<Rightarrow> u8 list" where
  "conv_str str_at args k =
     (let p = args (next_arg k);
          s = (if p = 0 then map of_char ''<NULL>'' else str_at p);
          s = (if precision k < 0 then s else take (nat (precision k)) s);
          fill = pad (field_width k - int (length s)) (chr CHR '' '')
      in if cflags k AND LEFT = 0 then fill @ s else s @ fill)"

definition conv_ptr :: "(nat \<Rightarrow> u32) \<Rightarrow> conv \<Rightarrow> u8 list" where
  "conv_ptr args k =
     (let (w, flags) = (if field_width k = -1 then (8, cflags k OR ZEROPAD)
                        else (field_width k, cflags k))
      in case number (args (next_arg k)) 16 w (precision k) flags of None \<Rightarrow> [] | Some out \<Rightarrow> out)"

text \<open>The parsers only ever consume format bytes.\<close>

lemma skip_atoi_loop_length: "length (snd (skip_atoi_loop i s)) \<le> length s"
  by (induction i s rule: skip_atoi_loop.induct) auto

lemma skip_atoi_length: "skip_atoi s = (w, r) \<Longrightarrow> length r \<le> length s"
  using skip_atoi_loop_length[of 0 s] by (simp add: skip_atoi_def)

lemma parse_flags_length: "parse_flags f s = (g, r) \<Longrightarrow> length r \<le> length s"
  by (induction f s rule: parse_flags.induct) (auto split: if_splits intro: le_SucI)

lemma parse_width_length: "parse_width args k s = (k', r) \<Longrightarrow> length r \<le> length s"
  by (auto simp: parse_width_def Let_def split: list.splits if_splits prod.splits
      dest: skip_atoi_length)

lemma parse_precision_length: "parse_precision args k s = (k', r) \<Longrightarrow> length r \<le> length s"
  by (auto simp: parse_precision_def Let_def split: list.splits if_splits prod.splits
      dest: skip_atoi_length intro: le_SucI)

lemma parse_qualifier_length: "parse_qualifier k s = (k', r) \<Longrightarrow> length r \<le> length s"
  by (auto simp: parse_qualifier_def split: list.splits if_splits)

text \<open>Everything between \<^verbatim>\<open>%\<close> and the conversion character.\<close>

definition parse_spec :: "(nat \<Rightarrow> u32) \<Rightarrow> nat \<Rightarrow> u8 list \<Rightarrow> conv \<times> u8 list" where
  "parse_spec args n s =
     (case parse_flags 0 s of (flags, s1) \<Rightarrow>
      case parse_width args
             \<lparr>cflags = flags, field_width = -1, precision = -1, qualifier = None, next_arg = n\<rparr> s1
      of (k1, s2) \<Rightarrow>
      case parse_precision args k1 s2 of (k2, s3) \<Rightarrow> parse_qualifier k2 s3)"

lemma parse_spec_length: "parse_spec args n s = (k, r) \<Longrightarrow> length r \<le> length s"
  by (auto simp: parse_spec_def split: prod.splits dest!: parse_flags_length parse_width_length
      parse_precision_length parse_qualifier_length)

lemma parse_spec_rest: "(k, d # t) = parse_spec args n s \<Longrightarrow> length t < Suc (length s)"
  using parse_spec_length[of args n s k "d # t"] by simp

type_synonym printed = "u8 list \<times> (u32 \<times> nat) list"

text \<open>
  The \<^verbatim>\<open>switch\<close> on the conversion character: the bytes it stores, the next argument, and the
  \<^verbatim>\<open>%n\<close> store.
\<close>

definition convert ::
  "(u32 \<Rightarrow> u8 list) \<Rightarrow> (nat \<Rightarrow> u32) \<Rightarrow> conv \<Rightarrow> nat \<Rightarrow> u8 \<Rightarrow> u8 list \<times> nat \<times> (u32 \<times> nat) list" where
  "convert str_at args k pos d =
     (let a = next_arg k
      in if d = chr CHR ''c'' then (conv_char args k, Suc a, [])
         else if d = chr CHR ''s'' then (conv_str str_at args k, Suc a, [])
         else if d = chr CHR ''p'' then (conv_ptr args k, Suc a, [])
         else if d = chr CHR ''n'' then ([], Suc a, [(args a, pos)])
         else if d = chr CHR ''%'' then ([chr CHR ''%''], a, [])
         else if d = chr CHR ''o'' then (conv_int args k 8 0, Suc a, [])
         else if d = chr CHR ''X'' then (conv_int args k 16 LARGE, Suc a, [])
         else if d = chr CHR ''x'' then (conv_int args k 16 0, Suc a, [])
         else if d = chr CHR ''d'' \<or> d = chr CHR ''i'' then (conv_int args k 10 SIGN, Suc a, [])
         else if d = chr CHR ''u'' then (conv_int args k 10 0, Suc a, [])
         else ([chr CHR ''%'', d], a, []))"

definition emit :: "u8 list \<Rightarrow> (u32 \<times> nat) list \<Rightarrow> printed \<Rightarrow> printed" where
  "emit cs st p = (cs @ fst p, st @ snd p)"

text \<open>
  The main loop: \<open>n\<close> is the next argument, \<open>pos\<close> the number of bytes stored so far. A format that
  ends inside a conversion prints a single \<^verbatim>\<open>%\<close>; an unknown conversion is printed as it stands.
\<close>

function vsprintf_loop ::
  "(u32 \<Rightarrow> u8 list) \<Rightarrow> (nat \<Rightarrow> u32) \<Rightarrow> nat \<Rightarrow> nat \<Rightarrow> u8 list \<Rightarrow> printed"
where
  "vsprintf_loop str_at args n pos [] = ([], [])"
| "vsprintf_loop str_at args n pos (c # s) =
     (if c \<noteq> chr CHR ''%'' then emit [c] [] (vsprintf_loop str_at args n (Suc pos) s)
      else
        (case parse_spec args n s of
           (k, []) \<Rightarrow> ([chr CHR ''%''], [])
         | (k, d # t) \<Rightarrow>
             (case convert str_at args k pos d of (cs, n', st) \<Rightarrow>
                emit cs st (vsprintf_loop str_at args n' (pos + length cs) t))))"
  by pat_completeness auto
termination
  by (relation "measure (\<lambda>(str_at, args, n, pos, s). length s)")
     (auto dest: parse_spec_rest)

text \<open>The bytes stored before the final NUL, the return value, and the \<^verbatim>\<open>%n\<close> stores.\<close>

definition vsprintf :: "(u32 \<Rightarrow> u8 list) \<Rightarrow> (nat \<Rightarrow> u32) \<Rightarrow> u8 list \<Rightarrow> u8 list \<times> int \<times> (u32 \<times> nat) list"
where
  "vsprintf str_at args fmt =
     (case vsprintf_loop str_at args 0 0 fmt of (out, stores) \<Rightarrow> (out, int (length out), stores))"

section \<open>Reading numbers back\<close>

definition digit_value :: "u8 \<Rightarrow> nat" where
  "digit_value c = (if isdigit c then unat c - 48 else unat c - 87)"

definition read_digits :: "nat \<Rightarrow> u8 list \<Rightarrow> nat" where
  "read_digits base cs = foldl (\<lambda>a c. a * base + digit_value c) 0 cs"

definition scan_int :: "u8 list \<Rightarrow> int" where
  "scan_int cs = (case cs of
       [] \<Rightarrow> 0
     | c # r \<Rightarrow> if c = chr CHR ''-'' then - int (read_digits 10 r) else int (read_digits 10 cs))"

lemma digit_value_digits: "d < 36 \<Longrightarrow> digit_value (digits_lower ! d) = d"
proof -
  have "list_all (\<lambda>d. digit_value (digits_lower ! d) = d) [0..<36]"
    by (simp add: digits_lower_def upt_conv_Cons digit_value_def isdigit_def)
  then show "d < 36 \<Longrightarrow> digit_value (digits_lower ! d) = d" by (simp add: list_all_iff)
qed

lemma digits_no_minus: "d < 36 \<Longrightarrow> digits_lower ! d \<noteq> chr CHR ''-''"
proof -
  have "list_all (\<lambda>d. digits_lower ! d \<noteq> chr CHR ''-'') [0..<36]"
    by (simp add: digits_lower_def upt_conv_Cons)
  then show "d < 36 \<Longrightarrow> digits_lower ! d \<noteq> chr CHR ''-''" by (simp add: list_all_iff)
qed

lemma read_digits_snoc: "read_digits base (cs @ [c]) = read_digits base cs * base + digit_value c"
  by (simp add: read_digits_def)

lemma read_number_digits:
  assumes "2 \<le> base" and "base \<le> 36"
  shows "read_digits base (rev (number_digits digits_lower base n)) = n"
  using assms
proof (induction digits_lower base n rule: number_digits.induct)
  case (1 base num)
  show ?case
  proof (cases "num = 0")
    case False
    then have "read_digits base (rev (number_digits digits_lower base (num div base))) = num div base"
      using 1 by simp
    moreover have "num mod base < 36" using 1(2,3) mod_less_divisor[of base num] by linarith
    ultimately show ?thesis
      using False 1(2) by (subst number_digits.simps) (simp add: read_digits_snoc digit_value_digits)
  qed (simp add: number_digits.simps read_digits_def)
qed

lemma number_digits_elem:
  assumes "2 \<le> base" and "base \<le> 36" and "c \<in> set (number_digits digits_lower base n)"
  shows "\<exists>d<36. c = digits_lower ! d"
  using assms
proof (induction digits_lower base n rule: number_digits.induct)
  case (1 base num)
  then have "num mod base < 36" using mod_less_divisor[of base num] by linarith
  with 1 show ?case
    by (subst (asm) (2) number_digits.simps) (auto split: if_splits)
qed

lemma number_digits_nonempty: "n \<noteq> 0 \<Longrightarrow> 2 \<le> base \<Longrightarrow> number_digits ds base n \<noteq> []"
  by (subst number_digits.simps) simp

text \<open>The magnitude part of a number with the default width and precision.\<close>

definition magnitude :: "nat \<Rightarrow> u8 list" where
  "magnitude n = (if n = 0 then [chr CHR ''0''] else rev (number_digits digits_lower 10 n))"

lemma read_magnitude: "read_digits 10 (magnitude n) = n"
  by (simp add: magnitude_def read_number_digits)
     (simp add: read_digits_def digit_value_def isdigit_def)

lemma magnitude_no_minus: "magnitude n = c # r \<Longrightarrow> c \<noteq> chr CHR ''-''"
proof -
  assume a: "magnitude n = c # r"
  show "c \<noteq> chr CHR ''-''"
  proof (cases "n = 0")
    case False
    with a have "c \<in> set (number_digits digits_lower 10 n)"
      by (simp add: magnitude_def)
    then show ?thesis using number_digits_elem[of 10 c n] digits_no_minus by auto
  next
    case True
    with a show ?thesis by (simp add: magnitude_def)
  qed
qed

lemma scan_magnitude: "scan_int (magnitude n) = int n"
proof (cases "magnitude n")
  case Nil
  then show ?thesis
    using number_digits_nonempty[of n 10 digits_lower] by (simp add: magnitude_def split: if_splits)
next
  case (Cons c r)
  with magnitude_no_minus[OF Cons] read_magnitude[of n] show ?thesis by (simp add: scan_int_def)
qed

section \<open>What the formatter prints\<close>

lemma number_decimal_signed:
  "number num 10 (-1) (-1) SIGN
   = Some ((if sint num < 0 then [chr CHR ''-''] else []) @ magnitude (nat \<bar>sint num\<bar>))"
proof -
  have "unat (- num) = nat \<bar>sint num\<bar>" and "- num \<noteq> 0" if "sint num < 0"
    using arg_cong[OF sint_neg_unat[OF that], of nat] that by auto
  moreover have "unat num = nat \<bar>sint num\<bar>" if "\<not> sint num < 0"
    using arg_cong[OF sint_nonneg_unat[OF that], of nat] that by simp
  moreover have "num = 0 \<longleftrightarrow> sint num = 0" by (simp add: signed_eq_0_iff)
  ultimately show ?thesis
    by (auto simp: number_def number_sign_def number_prefix_def flag_defs magnitude_def Let_def
        pad_def after_pad_def nat_eq_iff)
qed

text \<open>
  \<^verbatim>\<open>%d\<close> prints every 32-bit argument, the most negative one included, as a decimal numeral
  that reads back as the signed value, and the return value is the number of bytes stored.
\<close>

lemma vsprintf_decimal:
  "\<exists>out. vsprintf str_at args (map of_char ''%d'') = (out, int (length out), [])
     \<and> scan_int out = sint (args 0)"
proof -
  let ?out = "(if sint (args 0) < 0 then [chr CHR ''-''] else []) @ magnitude (nat \<bar>sint (args 0)\<bar>)"
  have "vsprintf str_at args (map of_char ''%d'') = (?out, int (length ?out), [])"
    using number_decimal_signed[of "args 0"]
    by (simp add: vsprintf_def parse_spec_def parse_width_def parse_precision_def
        parse_qualifier_def isdigit_def convert_def conv_int_def fetch_int_def emit_def)
  moreover have "scan_int ?out = sint (args 0)"
  proof (cases "sint (args 0) < 0")
    case True
    then show ?thesis by (simp add: scan_int_def read_magnitude)
  next
    case False
    then show ?thesis using scan_magnitude[of "nat \<bar>sint (args 0)\<bar>"] by (simp del: abs_of_nonneg)
  qed
  ultimately show ?thesis by blast
qed

lemma length_number_digits: "length (number_digits ds base n) = length (number_digits ds' base n)"
  by (induction ds base n rule: number_digits.induct)
     (subst number_digits.simps, subst (2) number_digits.simps, simp)

lemma length_pads:
  fixes n :: int and b1 b2 :: bool
  defines "n1 \<equiv> (if b1 then after_pad n else n)"
  defines "n2 \<equiv> (if b2 then after_pad n1 else n1)"
  shows "int (length (if b1 then pad n c else [])) + int (length (if b2 then pad n1 d else []))
       + int (length (pad n2 e)) = max 0 n"
  by (auto simp: pad_def after_pad_def n1_def n2_def)

text \<open>
  The output of a number is exactly as long as its parts ask for: the field width, unless the
  sign, the prefix and the digits (or the precision, if that is larger) need more.
\<close>

lemma number_length:
  assumes "2 \<le> base" and "base \<le> 36"
  shows "\<exists>out sign num.
      number num0 base width prec flags = Some out \<and> number_sign num0 flags = (sign, num)
      \<and> int (length out) = max width (int (length sign)
            + int (length (number_prefix digits_lower base flags))
            + max (if num = 0 then 1
                   else int (length (number_digits digits_lower (nat base) (unat num)))) prec)"
proof -
  obtain sign num where sn: "number_sign num0 flags = (sign, num)" by (cases "number_sign num0 flags")
  have clear: "(flags AND NOT ZEROPAD) AND SIGN = flags AND SIGN"
     "(flags AND NOT ZEROPAD) AND PLUS = flags AND PLUS"
     "(flags AND NOT ZEROPAD) AND SPACE = flags AND SPACE"
     "(flags AND NOT ZEROPAD) AND SPECIAL = flags AND SPECIAL"
    by (simp_all add: flag_defs and.assoc)
  have sn': "number_sign num0 (flags AND NOT ZEROPAD) = (sign, num)"
    using sn unfolding number_sign_def clear .
  define flags' where "flags' = (if flags AND LEFT \<noteq> 0 then flags AND NOT ZEROPAD else flags)"
  define ds where "ds = (if flags AND LARGE \<noteq> 0 then digits_upper else digits_lower)"
  define tmp where "tmp = (if num = 0 then [chr CHR ''0''] else number_digits ds (nat base) (unat num))"
  define prefix where "prefix = number_prefix ds base flags'"
  define p where "p = max (int (length tmp)) prec"
  define w where "w = width - int (length sign) - int (length prefix) - p"
  define b1 where "b1 \<longleftrightarrow> flags' AND (ZEROPAD + LEFT) = 0"
  define b2 where "b2 \<longleftrightarrow> flags' AND LEFT = 0"
  define c where "c = (if flags' AND ZEROPAD \<noteq> 0 then chr CHR ''0'' else chr CHR '' '')"
  define n1 where "n1 = (if b1 then after_pad w else w)"
  define n2 where "n2 = (if b2 then after_pad n1 else n1)"
  let ?out = "(if b1 then pad w (chr CHR '' '') else []) @ sign @ prefix
    @ (if b2 then pad n1 c else []) @ pad (p - int (length tmp)) (chr CHR ''0'')
    @ rev tmp @ pad n2 (chr CHR '' '')"
  have "number_sign num0 flags' = (sign, num)" using sn sn' by (simp add: flags'_def)
  then have "number num0 base width prec flags = Some ?out"
    using assms
    unfolding number_def Let_def flags'_def [symmetric] ds_def [symmetric] n2_def n1_def w_def p_def
      prefix_def tmp_def b1_def b2_def c_def
    by (simp only: prod.case not_less [symmetric] if_False simp_thms)
  moreover have "length prefix = length (number_prefix digits_lower base flags)"
    unfolding prefix_def number_prefix_def flags'_def by (auto simp: clear)
  moreover have "int (length tmp) = (if num = 0 then 1
      else int (length (number_digits digits_lower (nat base) (unat num))))"
    by (simp add: tmp_def length_number_digits [of ds _ _ digits_lower])
  moreover have "int (length ?out) = max width (int (length sign) + int (length prefix) + p)"
  proof -
    have "int (length (if b1 then pad w (chr CHR '' '') else []))
        + int (length (if b2 then pad n1 c else [])) + int (length (pad n2 (chr CHR '' ''))) = max 0 w"
      using length_pads[of b1 w "chr CHR '' ''" b2 c "chr CHR '' ''"]
      unfolding n1_def [symmetric] n2_def [symmetric] .
    moreover have "int (length (pad (p - int (length tmp)) (chr CHR ''0''))) = p - int (length tmp)"
      by (simp add: pad_def p_def)
    moreover have "width = w + int (length sign) + int (length prefix) + p" by (simp add: w_def)
    ultimately show ?thesis
      unfolding length_append length_rev of_nat_add by (cases "0 \<le> w") linarith+
  qed
  ultimately show ?thesis
    using sn by (intro exI conjI) (assumption, simp_all add: p_def)
qed

lemma number_length_example:
  "\<exists>out. number 42 10 5 3 ZEROPAD = Some out \<and> length out = 5"
proof -
  have "number_sign 42 ZEROPAD = ([], 42)"
    by (simp add: number_sign_def flag_defs)
  moreover have "number_digits digits_lower 10 42 = [chr CHR ''2'', chr CHR ''4'']"
    by (simp add: digits_lower_def number_digits.simps)
  moreover have "number_prefix digits_lower 10 ZEROPAD = []"
    by (simp add: number_prefix_def flag_defs)
  ultimately show ?thesis
    using number_length[of 10 42 5 3 ZEROPAD] by auto
qed

end
