(* ===== verification/Reloc.thy ===== *)
theory Reloc
  imports HBC_Prelude
begin

text \<open>
  \<^verbatim>\<open>channelapp/source/loader_reloc.c\<close>: placing a DOL or ELF executable, held in a buffer at
  \<^verbatim>\<open>addr\<close>, at its load addresses. The whole 32-bit memory is the state; headers are read from it
  at the moment the code reads them, so a section that lands on the header is seen by the later
  iterations. A result is the entry point (\<^verbatim>\<open>None\<close> for \<^verbatim>\<open>false\<close>) and the memory. Cache
  maintenance has no effect in the model. \<^verbatim>\<open>ARGV_MAGIC\<close> is libogc's constant, a parameter here.
\<close>

section \<open>Constants of config.h\<close>

definition BASE_ADDR :: u32 where "BASE_ADDR = 0x81330000"
definition ARGS_MAX_LEN :: u32 where "ARGS_MAX_LEN = 1024"
definition LD_MIN_ADDR :: u32 where "LD_MIN_ADDR = 0x80003400"
definition LD_MAX_ADDR :: u32 where "LD_MAX_ADDR = BASE_ADDR - 1 - ARGS_MAX_LEN"
definition LD_MAX_SIZE :: u32 where "LD_MAX_SIZE = LD_MAX_ADDR - LD_MIN_ADDR"
definition LD_ARGS_ADDR :: u32 where "LD_ARGS_ADDR = LD_MAX_ADDR + 1"

lemma ld_addr_values:
  "LD_MIN_ADDR = 0x80003400" "LD_MAX_ADDR = 0x8132fbff" "LD_ARGS_ADDR = 0x8132fc00"
  "LD_MAX_SIZE = 0x0132c7ff"
  by (simp_all add: LD_MIN_ADDR_def LD_MAX_ADDR_def LD_ARGS_ADDR_def LD_MAX_SIZE_def BASE_ADDR_def
      ARGS_MAX_LEN_def)

definition memmove :: "mem \<Rightarrow> u32 \<Rightarrow> u32 \<Rightarrow> u32 \<Rightarrow> mem" where
  "memmove m dst src n = mem_write m dst (mem_read m src (unat n))"

section \<open>DOL files\<close>

text \<open>
  The header's three parallel arrays: file position, load address and size of seven text and
  eleven data sections. A section is named by the addresses of its three fields.
\<close>

record dol_section =
  pos_field :: u32
  start_field :: u32
  size_field :: u32

definition text_section :: "u32 \<Rightarrow> nat \<Rightarrow> dol_section" where
  "text_section addr i =
     \<lparr>pos_field = addr + 0x00 + 4 * of_nat i, start_field = addr + 0x48 + 4 * of_nat i,
      size_field = addr + 0x90 + 4 * of_nat i\<rparr>"

definition data_section :: "u32 \<Rightarrow> nat \<Rightarrow> dol_section" where
  "data_section addr i =
     \<lparr>pos_field = addr + 0x1c + 4 * of_nat i, start_field = addr + 0x64 + 4 * of_nat i,
      size_field = addr + 0xac + 4 * of_nat i\<rparr>"

definition dol_sections :: "u32 \<Rightarrow> dol_section list" where
  "dol_sections addr = map (text_section addr) [0..<7] @ map (data_section addr) [0..<11]"

definition overlaps :: "u32 \<Rightarrow> u32 \<Rightarrow> bool" where
  "overlaps start n \<longleftrightarrow> start < LD_MIN_ADDR \<or> start + n > LD_MAX_ADDR"

text \<open>One loop: sections of size 0 are skipped, the first bad one ends the load.\<close>

fun load_sections :: "u32 \<Rightarrow> u32 \<Rightarrow> bool \<Rightarrow> dol_section list \<Rightarrow> mem \<Rightarrow> bool \<times> mem" where
  "load_sections addr n check [] m = (True, m)"
| "load_sections addr n check (s # ss) m =
     (let sz = load32 m (size_field s); pos = load32 m (pos_field s);
          start = load32 m (start_field s)
      in if sz = 0 then load_sections addr n check ss m
         else if pos + sz > n then (False, m)
         else if check \<and> overlaps start sz then (False, m)
         else load_sections addr n check ss (memmove m start (addr + pos) sz))"

definition reloc_dol :: "mem \<Rightarrow> u32 \<Rightarrow> u32 \<Rightarrow> bool \<Rightarrow> u32 option \<times> mem" where
  "reloc_dol m addr n check =
     (case load_sections addr n check (dol_sections addr) m of
        (ok, m') \<Rightarrow> (if ok then Some (load32 m' (addr + 0xe0)) else None, m'))"

section \<open>ELF files\<close>

definition is_elf_magic :: "mem \<Rightarrow> u32 \<Rightarrow> bool" where
  "is_elf_magic m addr \<longleftrightarrow>
     m addr = 0x7f \<and> m (addr + 1) = 0x45 \<and> m (addr + 2) = 0x4c \<and> m (addr + 3) = 0x46"

definition is_valid_elf :: "mem \<Rightarrow> u32 \<Rightarrow> int" where
  "is_valid_elf m addr =
     (if \<not> is_elf_magic m addr then 0
      else if m (addr + 4) \<noteq> 1 then -1
      else if m (addr + 5) \<noteq> 2 then -1
      else if m (addr + 6) \<noteq> 1 then -1
      else if load16 m (addr + 16) \<noteq> 2 then -1
      else if load16 m (addr + 18) \<noteq> 20 then -1
      else 1)"

definition to_k0 :: "u32 \<Rightarrow> u32" where
  "to_k0 a = (a AND 0x3FFFFFFF) OR 0x80000000"

text \<open>
  One program header at \<open>ph\<close>: \<open>None\<close> when the load is refused. The translated load address is
  written back into the header before it is used.
\<close>

definition load_phdr :: "u32 \<Rightarrow> bool \<Rightarrow> u32 \<Rightarrow> mem \<Rightarrow> bool \<times> mem" where
  "load_phdr addr check ph m =
     (if load32 m ph \<noteq> 1 then (True, m)
      else
        let m1 = store32 m (ph + 12) (to_k0 (load32 m (ph + 12)));
            paddr = load32 m1 (ph + 12); filesz = load32 m1 (ph + 16)
        in if filesz > load32 m1 (ph + 20) then (False, m1)
           else if filesz \<noteq> 0 then
             (if check \<and> overlaps paddr filesz then (False, m1)
              else (True, memmove m1 paddr (addr + load32 m1 (ph + 4)) filesz))
           else (True, m1))"

text \<open>\<^verbatim>\<open>for(i=0;i<ehdr->e_phnum;i++)\<close>: the count is read again before each iteration.\<close>

function load_phdrs :: "u32 \<Rightarrow> bool \<Rightarrow> u32 \<Rightarrow> nat \<Rightarrow> mem \<Rightarrow> bool \<times> mem" where
  "load_phdrs addr check phdrs i m =
     (if i < unat (load16 m (addr + 44)) then
        (case load_phdr addr check (phdrs + 32 * of_nat i) m of
           (ok, m') \<Rightarrow> if ok then load_phdrs addr check phdrs (Suc i) m' else (False, m'))
      else (True, m))"
  by pat_completeness auto
termination
proof (relation "measure (\<lambda>(addr, check, phdrs, i, m). 65536 - i)")
  fix addr phdrs :: u32 and i :: nat and m :: mem
  assume "i < unat (load16 m (addr + 44))"
  then show "((addr, check, phdrs, Suc i, m'), addr, check, phdrs, i, m)
      \<in> measure (\<lambda>(addr, check, phdrs, i, m). 65536 - i)" for check m'
    using unsigned_less[of "load16 m (addr + 44)", where ?'a = nat] by simp
qed simp

declare load_phdrs.simps [simp del]

definition reloc_elf :: "mem \<Rightarrow> u32 \<Rightarrow> bool \<Rightarrow> u32 option \<times> mem" where
  "reloc_elf m addr check =
     (if load32 m (addr + 28) = 0 \<or> load16 m (addr + 44) = 0 then (None, m)
      else if load16 m (addr + 42) \<noteq> 32 then (None, m)
      else
        (case load_phdrs addr check (addr + load32 m (addr + 28)) 0 m of
           (ok, m') \<Rightarrow> (if ok then Some (to_k0 (load32 m' (addr + 24))) else None, m')))"

section \<open>The entry point's patches and the whole relocation\<close>

definition patch_crt0 :: "u32 \<Rightarrow> mem \<Rightarrow> mem" where
  "patch_crt0 ep m = (if m (ep + 0x20) = 0x41 then m(ep + 0x20 := 0x40) else m)"

text \<open>
  \<^verbatim>\<open>struct __argv\<close> starts at the third word of the program: magic, command line, length.
\<close>

definition set_argv :: "u32 \<Rightarrow> u32 \<Rightarrow> u8 list \<Rightarrow> u16 \<Rightarrow> mem \<Rightarrow> mem" where
  "set_argv magic ep args arg_len m =
     (if load32 m (ep + 4) \<noteq> magic then m
      else
        let m1 = mem_write m LD_ARGS_ADDR (take (unat arg_len) args);
            m2 = store32 m1 (ep + 8) magic;
            m3 = store32 m2 (ep + 12) LD_ARGS_ADDR
        in store32 m3 (ep + 16) (ucast arg_len))"

definition loader_reloc ::
  "u32 \<Rightarrow> mem \<Rightarrow> u32 \<Rightarrow> u32 \<Rightarrow> u8 list option \<Rightarrow> u16 \<Rightarrow> bool \<Rightarrow> u32 option \<times> mem" where
  "loader_reloc magic m addr n args arg_len check =
     (let res = is_valid_elf m addr
      in if res < 0 then (None, m)
         else
           (case (if res = 1 then reloc_elf m addr check else reloc_dol m addr n check) of
              (None, m') \<Rightarrow> (None, m')
            | (Some ep, m') \<Rightarrow>
                let m1 = patch_crt0 ep m'
                in (Some ep,
                    case args of
                      None \<Rightarrow> m1
                    | Some a \<Rightarrow> if arg_len \<noteq> 0 then set_argv magic ep a arg_len m1 else m1)))"

text \<open>
  \<^verbatim>\<open>loader_exec\<close>: two clock-speed pokes, then the eight-instruction clearing stub is copied just
  below the top of MEM2, and control passes to it with the entry point in \<^verbatim>\<open>r3\<close>.
\<close>

definition exec_stub :: "u32 list" where
  "exec_stub = [0x7c6903a6, 0x3d208133, 0x3d408180, 0x90090000, 0x39290004, 0x7c295000,
                0x4180fff4, 0x4e800420]"

definition loader_exec :: "mem \<Rightarrow> u32 \<Rightarrow> u32 \<Rightarrow> mem \<times> u32 \<times> u32" where
  "loader_exec m arena2hi ep =
     (let m1 = store32 (store32 m 0x800000F8 0x0E7BE2C0) 0x800000FC 0x2B73A840;
          target = (arena2hi - 32) AND NOT 31
      in (mem_write m1 target (concat (map be32_bytes exec_stub)), target, ep))"

section \<open>Loads stay inside the load region\<close>

definition in_region :: "u32 \<Rightarrow> bool" where
  "in_region x \<longleftrightarrow> LD_MIN_ADDR \<le> x \<and> x < LD_MAX_ADDR"

definition same_outside :: "(u32 \<Rightarrow> bool) \<Rightarrow> mem \<Rightarrow> mem \<Rightarrow> bool" where
  "same_outside R m m' \<longleftrightarrow> (\<forall>x. \<not> R x \<longrightarrow> m' x = m x)"

lemma same_outside_refl [simp]: "same_outside R m m"
  by (simp add: same_outside_def)

lemma same_outside_trans:
  "same_outside R m m1 \<Longrightarrow> same_outside R m1 m2 \<Longrightarrow> same_outside R m m2"
  by (simp add: same_outside_def)

lemma same_outside_load32:
  "same_outside R m m' \<Longrightarrow> (\<And>k. k < 4 \<Longrightarrow> \<not> R (a + of_nat k)) \<Longrightarrow> load32 m' a = load32 m a"
  by (intro load32_cong) (simp add: same_outside_def)

lemma same_outside_read:
  "same_outside R m m' \<Longrightarrow> (\<And>x. in_block a n x \<Longrightarrow> \<not> R x) \<Longrightarrow> n \<le> 4294967296
    \<Longrightarrow> mem_read m' a n = mem_read m a n"
  by (intro mem_read_cong) (simp_all add: same_outside_def)

text \<open>
  The overlap test adds two 32-bit words; it means what it says only when that sum does not wrap.
\<close>

lemma checked_block_in_region:
  assumes "\<not> overlaps start n" and "unat start + unat n < 4294967296"
    and "in_block start (unat n) x"
  shows "in_region x"
proof -
  have "unat (start + n) = unat start + unat n"
    using assms(2) by (simp add: unat_word_ariths)
  moreover have "unat start \<le> unat x" "unat x < unat start + unat n"
    using assms(2,3) by (simp_all add: in_block_interval)
  ultimately show ?thesis
    using assms(1) by (simp add: overlaps_def in_region_def not_less word_le_nat_alt word_less_nat_alt)
qed

lemma memmove_same_outside:
  assumes "\<And>x. in_block start (unat n) x \<Longrightarrow> R x"
  shows "same_outside R m (memmove m start src n)"
  using assms by (auto simp: same_outside_def memmove_def intro!: mem_write_outside)

definition field_safe :: "u32 \<Rightarrow> bool" where
  "field_safe f \<longleftrightarrow> (\<forall>k<4. \<not> in_region (f + of_nat k))"

lemma field_safe_load32:
  "same_outside in_region m m' \<Longrightarrow> field_safe f \<Longrightarrow> load32 m' f = load32 m f"
  unfolding field_safe_def by (rule same_outside_load32) blast+

definition section_safe :: "mem \<Rightarrow> dol_section \<Rightarrow> bool" where
  "section_safe m s \<longleftrightarrow> field_safe (pos_field s) \<and> field_safe (start_field s) \<and> field_safe (size_field s)
     \<and> unat (load32 m (start_field s)) + unat (load32 m (size_field s)) < 4294967296"

lemma section_safe_fields:
  assumes "section_safe m0 s" and "same_outside in_region m0 m"
  shows "load32 m (pos_field s) = load32 m0 (pos_field s)"
    and "load32 m (start_field s) = load32 m0 (start_field s)"
    and "load32 m (size_field s) = load32 m0 (size_field s)"
  using assms by (auto simp: section_safe_def intro!: field_safe_load32)

lemma load_sections_confined:
  assumes "\<forall>s\<in>set ss. section_safe m0 s" and "same_outside in_region m0 m"
    and "load_sections addr n True ss m = (ok, m')"
  shows "same_outside in_region m0 m'"
  using assms
proof (induction ss arbitrary: m)
  case (Cons s ss)
  note f = section_safe_fields[of m0 s m]
  let ?sz = "load32 m0 (size_field s)" and ?start = "load32 m0 (start_field s)"
    and ?pos = "load32 m0 (pos_field s)"
  have "same_outside in_region m0 (memmove m ?start (addr + ?pos) ?sz)" if "\<not> overlaps ?start ?sz"
    using Cons.prems(1,2) that
    by (intro same_outside_trans[OF Cons.prems(2)] memmove_same_outside checked_block_in_region)
      (auto simp: section_safe_def)
  with Cons f show ?case by (auto simp: Let_def split: if_splits)
qed simp

text \<open>The addresses of a DOL header.\<close>

definition dol_header_safe :: "u32 \<Rightarrow> bool" where
  "dol_header_safe addr \<longleftrightarrow> (\<forall>k<0xe4. \<not> in_region (addr + of_nat k))"

lemma dol_header_field_safe:
  assumes "dol_header_safe addr" and "k + 3 < 0xe4"
  shows "field_safe (addr + of_nat k)"
  unfolding field_safe_def
proof (intro allI impI)
  fix j :: nat assume "j < 4"
  with assms(2) have "k + j < 0xe4" by simp
  with assms(1) have "\<not> in_region (addr + of_nat (k + j))" unfolding dol_header_safe_def by blast
  then show "\<not> in_region (addr + of_nat k + of_nat j)" by (simp add: add.assoc)
qed

lemma dol_sections_safe:
  assumes "dol_header_safe addr" and "s \<in> set (dol_sections addr)"
  shows "field_safe (pos_field s) \<and> field_safe (start_field s) \<and> field_safe (size_field s)"
proof -
  have f: "field_safe (addr + of_nat (b + 4 * i))" if "b + 4 * i + 3 < 0xe4" for b i :: nat
    using assms(1) that by (rule dol_header_field_safe)
  from assms(2) consider i where "i < 7" "s = text_section addr i"
    | i where "i < 11" "s = data_section addr i"
    by (auto simp: dol_sections_def)
  then show ?thesis
  proof cases
    case 1
    then show ?thesis
      using f[where b = "0" and i = i] f[where b = "0x48" and i = i] f[where b = "0x90" and i = i] by (simp add: text_section_def add.assoc)
  next
    case 2
    then show ?thesis
      using f[where b = "0x1c" and i = i] f[where b = "0x64" and i = i] f[where b = "0xac" and i = i] by (simp add: data_section_def add.assoc)
  qed
qed

definition dol_no_wrap :: "mem \<Rightarrow> u32 \<Rightarrow> bool" where
  "dol_no_wrap m addr \<longleftrightarrow> list_all (\<lambda>s.
     unat (load32 m (start_field s)) + unat (load32 m (size_field s)) < 4294967296) (dol_sections addr)"

text \<open>
  C26: with the overlap check on, loading a DOL changes memory inside the application's load region
  only, whether it succeeds or stops half way, provided the header lies outside that region and no
  section's start plus size wraps around.
\<close>

theorem reloc_dol_confined:
  assumes "dol_header_safe addr" and "dol_no_wrap m addr" and "reloc_dol m addr n True = (r, m')"
  shows "\<forall>x. \<not> (LD_MIN_ADDR \<le> x \<and> x < LD_MAX_ADDR) \<longrightarrow> m' x = m x"
proof -
  have "\<forall>s\<in>set (dol_sections addr). section_safe m s"
    using assms(1,2) dol_sections_safe
    by (auto simp: section_safe_def dol_no_wrap_def list_all_iff)
  moreover obtain ok where "load_sections addr n True (dol_sections addr) m = (ok, m')"
    using assms(3) by (auto simp: reloc_dol_def split: prod.splits)
  ultimately have "same_outside in_region m m'"
    by (rule load_sections_confined[OF _ same_outside_refl])
  then show ?thesis by (simp add: same_outside_def in_region_def)
qed

section \<open>What a successful load leaves in memory\<close>

definition target_block :: "mem \<Rightarrow> dol_section \<Rightarrow> u32 \<Rightarrow> bool" where
  "target_block m s = in_block (load32 m (start_field s)) (unat (load32 m (size_field s)))"

definition targets_disjoint :: "mem \<Rightarrow> dol_section list \<Rightarrow> bool" where
  "targets_disjoint m = sorted_wrt (\<lambda>s t.
     unat (load32 m (start_field s)) + unat (load32 m (size_field s)) \<le> unat (load32 m (start_field t))
     \<or> unat (load32 m (start_field t)) + unat (load32 m (size_field t)) \<le> unat (load32 m (start_field s)))"

definition source_ok :: "u32 \<Rightarrow> u32 \<Rightarrow> mem \<Rightarrow> dol_section \<Rightarrow> bool" where
  "source_ok addr n m s \<longleftrightarrow>
     unat (load32 m (pos_field s)) + unat (load32 m (size_field s)) < 4294967296"

definition buffer_safe :: "u32 \<Rightarrow> u32 \<Rightarrow> bool" where
  "buffer_safe addr n \<longleftrightarrow> unat addr + unat n \<le> 4294967296
     \<and> (LD_MAX_ADDR \<le> addr \<or> unat addr + unat n \<le> unat LD_MIN_ADDR)"

lemma buffer_safe_outside:
  assumes "buffer_safe addr n" and "unat pos + unat sz \<le> unat n" and "in_block (addr + pos) (unat sz) x"
  shows "\<not> in_region x"
proof (cases "sz = 0")
  case False
  then have "0 < unat sz" by (simp add: unat_gt_0)
  with assms(1,2) have "unat (addr + pos) = unat addr + unat pos"
    by (simp add: buffer_safe_def unat_word_ariths)
  with assms show ?thesis
    by (auto simp: in_block_interval buffer_safe_def in_region_def word_le_nat_alt word_less_nat_alt)
qed (use assms in \<open>simp add: in_block_def\<close>)

lemma target_blocks_disjoint:
  assumes "section_safe m0 s" and "section_safe m0 t" and "target_block m0 s x" and "target_block m0 t x"
  shows "\<not> (unat (load32 m0 (start_field s)) + unat (load32 m0 (size_field s)) \<le> unat (load32 m0 (start_field t))
     \<or> unat (load32 m0 (start_field t)) + unat (load32 m0 (size_field t)) \<le> unat (load32 m0 (start_field s)))"
  using assms by (auto simp: section_safe_def target_block_def in_block_interval)

lemma load_sections_frame:
  assumes "\<forall>s\<in>set ss. section_safe m0 s" and "same_outside in_region m0 m"
    and "load_sections addr n True ss m = (ok, m')" and "\<forall>s\<in>set ss. \<not> target_block m0 s x"
  shows "m' x = m x"
  using assms
proof (induction ss arbitrary: m)
  case (Cons s ss)
  note f = section_safe_fields[of m0 s m]
  let ?sz = "load32 m0 (size_field s)" and ?start = "load32 m0 (start_field s)"
    and ?pos = "load32 m0 (pos_field s)"
  let ?m1 = "memmove m ?start (addr + ?pos) ?sz"
  have so: "same_outside in_region m0 ?m1" if "\<not> overlaps ?start ?sz"
    using Cons.prems(1,2) that
    by (intro same_outside_trans[OF Cons.prems(2)] memmove_same_outside checked_block_in_region)
      (auto simp: section_safe_def)
  have "?m1 x = m x"
    using Cons.prems(4) by (simp add: memmove_def target_block_def mem_write_outside)
  with Cons f so show ?case by (auto simp: Let_def split: if_splits)
qed simp

lemma load_sections_contents:
  assumes "\<forall>s\<in>set ss. section_safe m0 s \<and> source_ok addr n m0 s" and "same_outside in_region m0 m"
    and "buffer_safe addr n" and "targets_disjoint m0 ss"
    and "load_sections addr n True ss m = (True, m')" and "s \<in> set ss"
  shows "mem_read m' (load32 m0 (start_field s)) (unat (load32 m0 (size_field s)))
    = mem_read m0 (addr + load32 m0 (pos_field s)) (unat (load32 m0 (size_field s)))"
  using assms
proof (induction ss arbitrary: m)
  case (Cons t ss)
  note f = section_safe_fields[of m0 t m]
  let ?sz = "load32 m0 (size_field t)" and ?start = "load32 m0 (start_field t)"
    and ?pos = "load32 m0 (pos_field t)"
  let ?m1 = "memmove m ?start (addr + ?pos) ?sz"
  have safe: "\<forall>u\<in>set ss. section_safe m0 u" and t: "section_safe m0 t" "source_ok addr n m0 t"
    using Cons.prems(1) by auto
  show ?case
  proof (cases "?sz = 0")
    case True
    then show ?thesis
      using Cons.prems Cons.IH[of m] f t by (auto simp: targets_disjoint_def mem_read_def)
  next
    case False
    then have le: "\<not> ?pos + ?sz > n" and ov: "\<not> overlaps ?start ?sz"
      and rest: "load_sections addr n True ss ?m1 = (True, m')"
      using Cons.prems(2,5) f t by (auto simp: Let_def split: if_splits)
    have so: "same_outside in_region m0 ?m1"
      using t ov by (intro same_outside_trans[OF Cons.prems(2)] memmove_same_outside
          checked_block_in_region) (auto simp: section_safe_def)
    show ?thesis
    proof (cases "s \<in> set ss")
      case True
      then show ?thesis
        using Cons.IH[OF _ so Cons.prems(3) _ rest] Cons.prems(1,4) by (simp add: targets_disjoint_def)
    next
      case False
      then have [simp]: "s = t" using Cons.prems(6) by simp
      have bound: "unat ?sz \<le> 4294967296" using unsigned_less[of ?sz, where ?'a = nat] by simp
      have keep: "m' x = ?m1 x" if "in_block ?start (unat ?sz) x" for x
        using load_sections_frame[OF safe so rest, of x] target_blocks_disjoint[OF t(1), of _ x]
          that safe Cons.prems(4) by (auto simp: targets_disjoint_def target_block_def)
      have "unat ?pos + unat ?sz \<le> unat n"
        using le t(2) by (simp add: source_ok_def not_less word_le_nat_alt unat_word_ariths)
      then have "mem_read m (addr + ?pos) (unat ?sz) = mem_read m0 (addr + ?pos) (unat ?sz)"
        by (intro same_outside_read[OF Cons.prems(2)] buffer_safe_outside[OF Cons.prems(3)] bound)
      moreover have "mem_read m' ?start (unat ?sz) = mem_read ?m1 ?start (unat ?sz)"
        by (rule mem_read_cong[OF keep bound])
      moreover have "mem_read ?m1 ?start (unat ?sz) = mem_read m (addr + ?pos) (unat ?sz)"
        using mem_read_write_same[of "mem_read m (addr + ?pos) (unat ?sz)" m ?start] bound
        by (simp add: memmove_def)
      ultimately show ?thesis by simp
    qed
  qed
qed simp

lemma buffer_header_safe:
  assumes "buffer_safe addr n" and "0xe4 \<le> unat n"
  shows "dol_header_safe addr"
  unfolding dol_header_safe_def
proof (intro allI impI)
  fix k :: nat assume "k < 0xe4"
  then show "\<not> in_region (addr + of_nat k)"
    using assms(2) buffer_safe_outside[OF assms(1), where pos = "of_nat k" and sz = 1 and x = "addr + of_nat k"]
    by (simp add: in_block_def)
qed

definition dol_sources_ok :: "mem \<Rightarrow> u32 \<Rightarrow> bool" where
  "dol_sources_ok m addr \<longleftrightarrow> list_all (\<lambda>s.
     unat (load32 m (pos_field s)) + unat (load32 m (size_field s)) < 4294967296) (dol_sections addr)"

text \<open>
  C17: a DOL load that succeeds has put the image bytes of every section at that section's load
  address and returns the entry point the header names. It holds when the buffer contains the
  header and lies outside the load region, the sections' load ranges are pairwise disjoint, and no
  sum of two header words wraps around.
\<close>

theorem reloc_dol_loads:
  assumes "buffer_safe addr n" and "0xe4 \<le> unat n" and "dol_no_wrap m addr" and "dol_sources_ok m addr"
    and "targets_disjoint m (dol_sections addr)" and "reloc_dol m addr n True = (Some ep, m')"
  shows "ep = load32 m (addr + 0xe0) \<and> (\<forall>s\<in>set (dol_sections addr).
    mem_read m' (load32 m (start_field s)) (unat (load32 m (size_field s)))
      = mem_read m (addr + load32 m (pos_field s)) (unat (load32 m (size_field s))))"
proof -
  note header = buffer_header_safe[OF assms(1,2)]
  have safe: "\<forall>s\<in>set (dol_sections addr). section_safe m s \<and> source_ok addr n m s"
    using assms(3,4) dol_sections_safe[OF header]
    by (auto simp: section_safe_def source_ok_def dol_no_wrap_def dol_sources_ok_def list_all_iff)
  have run: "load_sections addr n True (dol_sections addr) m = (True, m')"
    and ep: "ep = load32 m' (addr + 0xe0)"
    using assms(6) by (auto simp: reloc_dol_def split: prod.splits if_splits)
  have "same_outside in_region m m'"
    using safe by (intro load_sections_confined[OF _ same_outside_refl run]) simp
  then have "load32 m' (addr + 0xe0) = load32 m (addr + 0xe0)"
    using dol_header_field_safe[OF header, of "0xe0"] by (simp add: field_safe_load32)
  with ep show ?thesis
    using load_sections_contents[OF safe same_outside_refl assms(1,5) run] by simp
qed

text \<open>A one-section DOL in MEM2: four bytes at file offset 0x100 for address 0x80004000.\<close>

definition tiny_dol :: mem where
  "tiny_dol = (\<lambda>_. 0)(0x90000002 := 1, 0x90000048 := 0x80, 0x9000004a := 0x40, 0x90000093 := 4,
     0x900000e0 := 0x80, 0x900000e2 := 0x40,
     0x90000100 := 0x11, 0x90000101 := 0x22, 0x90000102 := 0x33, 0x90000103 := 0x44)"

lemma dol_sections_unrolled:
  "dol_sections addr = map (text_section addr) [0, 1, 2, 3, 4, 5, 6]
     @ map (data_section addr) [0, 1, 2, 3, 4, 5, 6, 7, 8, 9, 10]"
  by (simp add: dol_sections_def eval_nat_numeral)

lemmas section_defs = text_section_def data_section_def

lemma tiny_load32:
  "load32 tiny_dol 0x90000000 = 0x100" "load32 tiny_dol 0x90000048 = 0x80004000"
  "load32 tiny_dol 0x90000090 = 4" "load32 tiny_dol 0x900000e0 = 0x80004000"
  by (simp_all add: load32_def tiny_dol_def be32_of_def push_bit_eq_mult)

lemma tiny_load32_zero:
  "\<forall>s\<in>set (tl (dol_sections 0x90000000)). load32 tiny_dol (pos_field s) = 0
     \<and> load32 tiny_dol (start_field s) = 0 \<and> load32 tiny_dol (size_field s) = 0"
  by (simp add: dol_sections_unrolled section_defs load32_def tiny_dol_def be32_of_def)

lemma tiny_dol_sections:
  "\<exists>ss. dol_sections 0x90000000 = text_section 0x90000000 0 # ss \<and> (\<forall>s\<in>set ss.
     load32 tiny_dol (pos_field s) = 0 \<and> load32 tiny_dol (start_field s) = 0 \<and> load32 tiny_dol (size_field s) = 0)"
  using tiny_load32_zero by (simp add: dol_sections_unrolled)

lemma tiny_text0:
  "load32 tiny_dol (pos_field (text_section 0x90000000 0)) = 0x100"
  "load32 tiny_dol (start_field (text_section 0x90000000 0)) = 0x80004000"
  "load32 tiny_dol (size_field (text_section 0x90000000 0)) = 4"
  using tiny_load32 by (simp_all add: text_section_def)

lemma targets_disjoint_zero:
  "(\<forall>s\<in>set ss. load32 m (start_field s) = 0 \<and> load32 m (size_field s) = 0) \<Longrightarrow> targets_disjoint m ss"
  by (induction ss) (simp_all add: targets_disjoint_def)

lemma load_sections_zero:
  "(\<forall>s\<in>set ss. load32 m (size_field s) = 0) \<Longrightarrow> load_sections addr n c ss m = (True, m)"
  by (induction ss) (simp_all add: Let_def)

lemma tiny_buffer: "buffer_safe 0x90000000 0x104" "0xe4 \<le> unat (0x104 :: u32)"
  by (simp_all add: buffer_safe_def ld_addr_values)

lemma tiny_dol_ok:
  "dol_no_wrap tiny_dol 0x90000000" "dol_sources_ok tiny_dol 0x90000000"
  "targets_disjoint tiny_dol (dol_sections 0x90000000)"
proof -
  obtain ss where ss: "dol_sections 0x90000000 = text_section 0x90000000 0 # ss"
    "\<forall>s\<in>set ss. load32 tiny_dol (pos_field s) = 0 \<and> load32 tiny_dol (start_field s) = 0
      \<and> load32 tiny_dol (size_field s) = 0"
    using tiny_dol_sections by blast
  then show "dol_no_wrap tiny_dol 0x90000000" "dol_sources_ok tiny_dol 0x90000000"
    by (simp_all add: dol_no_wrap_def dol_sources_ok_def tiny_text0 list_all_iff)
  show "targets_disjoint tiny_dol (dol_sections 0x90000000)"
    using ss targets_disjoint_zero[of ss tiny_dol] by (simp add: targets_disjoint_def)
qed

definition tiny_loaded :: mem where
  "tiny_loaded = memmove tiny_dol 0x80004000 0x90000100 4"

lemma tiny_loaded_same: "same_outside in_region tiny_dol tiny_loaded"
  unfolding tiny_loaded_def
  by (rule memmove_same_outside, rule checked_block_in_region[of "0x80004000" 4])
    (simp_all add: overlaps_def ld_addr_values)

lemma tiny_run: "reloc_dol tiny_dol 0x90000000 0x104 True = (Some 0x80004000, tiny_loaded)"
proof -
  obtain ss where ss: "dol_sections 0x90000000 = text_section 0x90000000 0 # ss"
    "\<forall>s\<in>set ss. load32 tiny_dol (pos_field s) = 0 \<and> load32 tiny_dol (start_field s) = 0
      \<and> load32 tiny_dol (size_field s) = 0"
    using tiny_dol_sections by blast
  note header = buffer_header_safe[OF tiny_buffer]
  have "\<forall>s\<in>set ss. load32 tiny_loaded (size_field s) = 0"
  proof
    fix s assume "s \<in> set ss"
    then have "field_safe (size_field s)" using dol_sections_safe[OF header, of s] ss(1) by simp
    then have "load32 tiny_loaded (size_field s) = load32 tiny_dol (size_field s)"
      by (rule field_safe_load32[OF tiny_loaded_same])
    with ss(2) \<open>s \<in> set ss\<close> show "load32 tiny_loaded (size_field s) = 0" by simp
  qed
  moreover have "load32 tiny_loaded 0x900000e0 = load32 tiny_dol 0x900000e0"
    using dol_header_field_safe[OF header, of "0xe0"] field_safe_load32[OF tiny_loaded_same] by simp
  ultimately show ?thesis
    using ss(1) tiny_text0 tiny_load32(4)
    by (simp add: reloc_dol_def Let_def overlaps_def ld_addr_values load_sections_zero
        tiny_loaded_def [symmetric])
qed

theorem reloc_dol_loads_witness:
  "mem_read (snd (reloc_dol tiny_dol 0x90000000 0x104 True)) 0x80004000 4 = [0x11, 0x22, 0x33, 0x44]"
proof -
  have "mem_read tiny_dol 0x90000100 4 = [0x11, 0x22, 0x33, 0x44]"
    by (simp add: mem_read_def upt_rec tiny_dol_def)
  moreover have t: "text_section 0x90000000 0 \<in> set (dol_sections 0x90000000)"
    by (simp add: dol_sections_unrolled)
  ultimately show ?thesis
    using bspec[OF conjunct2[OF reloc_dol_loads[OF tiny_buffer tiny_dol_ok tiny_run]] t]
    by (simp add: tiny_run tiny_text0)
qed

theorem reloc_dol_confined_witness:
  "snd (reloc_dol tiny_dol 0x90000000 0x104 True) 0x80003000 = tiny_dol 0x80003000
   \<and> snd (reloc_dol tiny_dol 0x90000000 0x104 True) 0x90000100 = 0x11"
proof -
  have "\<forall>x. \<not> (LD_MIN_ADDR \<le> x \<and> x < LD_MAX_ADDR)
    \<longrightarrow> snd (reloc_dol tiny_dol 0x90000000 0x104 True) x = tiny_dol x"
    using reloc_dol_confined[OF buffer_header_safe[OF tiny_buffer] tiny_dol_ok(1) tiny_run]
    by (simp add: tiny_run)
  from this[THEN spec, of "0x80003000"] this[THEN spec, of "0x90000100"]
  show ?thesis by (simp add: ld_addr_values tiny_dol_def)
qed

text \<open>
  Without the no-wrap condition the overlap check is void: a section of 0x7f000000 bytes at
  0xa0000000 wraps past 0 and passes it.
\<close>

lemma overlap_check_wraps:
  "\<not> overlaps 0xa0000000 0x7f000000 \<and> in_block 0xa0000000 (unat (0x7f000000 :: u32)) 0xcd800000
    \<and> \<not> in_region 0xcd800000"
  by (simp add: overlaps_def ld_addr_values in_region_def in_block_def)

end
