(* ===== verification/Sha1.thy ===== *)
theory Sha1
  imports HBC_Prelude
begin

text \<open>
  \<^verbatim>\<open>channelapp/source/sha1.c\<close>, the hash of the update checker, and its refinement to the FIPS
  180-1 definition: the transform's circular 16-word message schedule, the buffering of
  \<^verbatim>\<open>SHA1Update\<close>, and the padding of \<^verbatim>\<open>SHA1Final\<close>. Words are big-endian, as on the console.
\<close>

section \<open>The transform\<close>

definition rol :: "u32 \<Rightarrow> nat \<Rightarrow> u32" where
  "rol v n = push_bit n v OR drop_bit (32 - n) v"

definition blk :: "nat \<Rightarrow> u32 list \<Rightarrow> u32 list" where
  "blk i l = l[i mod 16 := rol (l ! ((i + 13) mod 16) XOR l ! ((i + 8) mod 16) XOR l ! ((i + 2) mod 16)
     XOR l ! (i mod 16)) 1]"

text \<open>The macros \<^verbatim>\<open>R0\<close> to \<^verbatim>\<open>R4\<close> differ in the mixing function and the constant.\<close>

definition round_mix :: "nat \<Rightarrow> u32 \<Rightarrow> u32 \<Rightarrow> u32 \<Rightarrow> u32" where
  "round_mix i w x y =
     (if i < 20 then (w AND (x XOR y)) XOR y
      else if i < 40 then w XOR x XOR y
      else if i < 60 then ((w OR x) AND y) OR (w AND x)
      else w XOR x XOR y)"

definition round_const :: "nat \<Rightarrow> u32" where
  "round_const i = (if i < 20 then 0x5A827999 else if i < 40 then 0x6ED9EBA1
     else if i < 60 then 0x8F1BBCDC else 0xCA62C1D6)"

type_synonym sha_vars = "u32 \<times> u32 \<times> u32 \<times> u32 \<times> u32"

text \<open>
  One line of the unrolled code. The next line has the five variables in rotated roles, which is
  the rotation of the tuple here; after eighty lines the roles are the initial ones.
\<close>

definition sha_round :: "nat \<Rightarrow> u32 list \<times> sha_vars \<Rightarrow> u32 list \<times> sha_vars" where
  "sha_round i s =
     (case s of (l, v, w, x, y, z) \<Rightarrow>
        let l' = (if i < 16 then l else blk i l)
        in (l', z + (round_mix i w x y + l' ! (i mod 16) + round_const i + rol v 5), v, rol w 30, x, y))"

fun be_words :: "u8 list \<Rightarrow> u32 list" where
  "be_words (a # b # c # d # bs) = be32_of a b c d # be_words bs"
| "be_words _ = []"

definition SHA1Transform :: "u32 list \<Rightarrow> u8 list \<Rightarrow> u32 list" where
  "SHA1Transform st buffer =
     (case fold sha_round [0..<80] (be_words buffer, st ! 0, st ! 1, st ! 2, st ! 3, st ! 4) of
        (_, a, b, c, d, e) \<Rightarrow> [st ! 0 + a, st ! 1 + b, st ! 2 + c, st ! 3 + d, st ! 4 + e])"

section \<open>Contexts\<close>

record sha1_ctx =
  sha_state :: "u32 list"
  count0 :: u32
  count1 :: u32
  sha_buffer :: "u8 list"

definition SHA1Init :: "u8 list \<Rightarrow> sha1_ctx" where
  "SHA1Init junk = \<lparr>sha_state = [0x67452301, 0xEFCDAB89, 0x98BADCFE, 0x10325476, 0xC3D2E1F0],
     count0 = 0, count1 = 0, sha_buffer = junk\<rparr>"

definition put_at :: "'a list \<Rightarrow> nat \<Rightarrow> 'a list \<Rightarrow> 'a list" where
  "put_at buf j xs = take j buf @ xs @ drop (j + length xs) buf"

text \<open>\<^verbatim>\<open>for ( ; i + 63 < len; i += 64)\<close>: the new state and the rest of the data.\<close>

function update_blocks :: "u32 list \<Rightarrow> u8 list \<Rightarrow> u32 list \<times> u8 list" where
  "update_blocks st data =
     (if 63 < length data then update_blocks (SHA1Transform st (take 64 data)) (drop 64 data)
      else (st, data))"
  by pat_completeness auto
termination by (relation "measure (\<lambda>(st, data). length data)") auto

declare update_blocks.simps [simp del]

text \<open>
  Offsets are natural numbers, exact for data of fewer than \<open>2\<^sup>32 - 64\<close> bytes; the bit count is
  kept in two 32-bit words with the carry the code computes.
\<close>

definition SHA1Update :: "sha1_ctx \<Rightarrow> u8 list \<Rightarrow> sha1_ctx" where
  "SHA1Update ctx data =
     (let len = (of_nat (length data) :: u32);
          j = unat (drop_bit 3 (count0 ctx) AND 63);
          c0 = count0 ctx + push_bit 3 len;
          c1 = (if c0 < push_bit 3 len then count1 ctx + 1 else count1 ctx) + drop_bit 29 len;
          ctx1 = ctx\<lparr>count0 := c0, count1 := c1\<rparr>
      in if 63 < j + length data then
           let i = 64 - j;
               buf = put_at (sha_buffer ctx) j (take i data)
           in (case update_blocks (SHA1Transform (sha_state ctx) buf) (drop i data) of
                 (st, rest) \<Rightarrow> ctx1\<lparr>sha_state := st, sha_buffer := put_at buf 0 rest\<rparr>)
         else ctx1\<lparr>sha_buffer := put_at (sha_buffer ctx) j data\<rparr>)"

lemma count0_update: "count0 (SHA1Update ctx data) = count0 ctx + push_bit 3 (of_nat (length data))"
  by (simp add: SHA1Update_def Let_def split: prod.splits)

text \<open>\<^verbatim>\<open>count[0] & 504\<close> is the number of buffered bytes, times eight.\<close>

lemma drop_3_and_63: "unat (drop_bit 3 c AND 63 :: u32) = unat c div 8 mod 64"
proof -
  have "(63 :: u32) = mask 6" by (simp add: mask_eq_exp_minus_1)
  then show ?thesis using unat_and_mask[of 6 "drop_bit 3 c"] unat_drop_bit[of 3 c] by simp
qed

lemma and_504: "unat (c AND 504 :: u32) = 8 * (unat c div 8 mod 64)"
proof -
  have m: "(504 :: u32) = push_bit 3 (mask 6)" by (simp add: mask_eq_exp_minus_1 push_bit_eq_mult)
  have "c AND 504 = push_bit 3 (drop_bit 3 c AND mask 6)"
    unfolding m by (rule bit_word_eqI) (auto simp: bit_simps)
  also have "unat \<dots> = (unat c div 8 mod 64) * 8 mod 4294967296"
    using unat_push_bit[of 3 "drop_bit 3 c AND mask 6"] unat_and_mask[of 6 "drop_bit 3 c"]
      unat_drop_bit[of 3 c] by simp
  finally show ?thesis by (simp add: mod_less)
qed

lemma buffered_step:
  "unat (c + 8 :: u32) div 8 mod 64 = Suc (unat c div 8) mod 64"
proof -
  have "unat (c + 8) = (unat c + 8) mod 4294967296" by (simp add: unat_word_ariths)
  also have "\<dots> div 8 mod 64 = (unat c + 8) div 8 mod 64"
  proof -
    have "(x mod 4294967296) div 8 mod 64 = x div 8 mod 64" for x :: nat
    proof -
      have "x mod 4294967296 = x mod (8 * 536870912)" by simp
      also have "\<dots> div 8 = x div 8 mod 536870912" unfolding mod_mult2_eq by simp
      also have "\<dots> mod 64 = x div 8 mod 64" by (simp add: mod_mod_cancel)
      finally show ?thesis .
    qed
    then show ?thesis .
  qed
  also have "(unat c + 8) div 8 = Suc (unat c div 8)"
    using div_add_self2[of 8 "unat c"] by simp
  finally show ?thesis .
qed

text \<open>
  \<^verbatim>\<open>while ((context->count[0] & 504) != 448) SHA1Update(context, "\0", 1)\<close>.
\<close>

function pad_loop :: "sha1_ctx \<Rightarrow> sha1_ctx" where
  "pad_loop ctx = (if count0 ctx AND 504 \<noteq> 448 then pad_loop (SHA1Update ctx [0]) else ctx)"
  by pat_completeness auto
termination
proof (relation "measure (\<lambda>ctx. (120 - unat (count0 ctx) div 8 mod 64) mod 64)")
  fix ctx :: sha1_ctx
  assume "count0 ctx AND 504 \<noteq> 448"
  define q where "q = unat (count0 ctx) div 8 mod 64"
  have "q \<noteq> 56"
  proof
    assume "q = 56"
    then have "unat (count0 ctx AND 504) = unat (448 :: u32)" by (simp add: and_504 q_def)
    with \<open>count0 ctx AND 504 \<noteq> 448\<close> show False by (metis unsigned_word_eqI)
  qed
  moreover have "q < 64" by (simp add: q_def)
  ultimately have "(120 - Suc q mod 64) mod 64 < (120 - q) mod 64"
    by (cases "q = 63") (auto simp: mod_if)
  moreover have "unat (count0 (SHA1Update ctx [0])) div 8 mod 64 = Suc q mod 64"
    using buffered_step[of "count0 ctx"] by (simp add: count0_update q_def push_bit_eq_mult mod_Suc_eq)
  ultimately show "(SHA1Update ctx [0], ctx)
      \<in> measure (\<lambda>ctx. (120 - unat (count0 ctx) div 8 mod 64) mod 64)"
    by (simp add: q_def)
qed simp

declare pad_loop.simps [simp del]

definition SHA1Final :: "sha1_ctx \<Rightarrow> u8 list \<times> sha1_ctx" where
  "SHA1Final ctx =
     (let finalcount = map (\<lambda>i. ucast (drop_bit ((3 - i mod 4) * 8)
            (if 4 \<le> i then count0 ctx else count1 ctx))) [0..<8];
          c1 = pad_loop (SHA1Update ctx [0x80]);
          c2 = SHA1Update c1 finalcount;
          digest = map (\<lambda>i. ucast (drop_bit ((3 - i mod 4) * 8) (sha_state c2 ! (i div 4)))) [0..<20]
      in (digest, \<lparr>sha_state = SHA1Transform (replicate 5 0) (replicate 64 0), count0 = 0, count1 = 0,
           sha_buffer = replicate 64 0\<rparr>))"

text \<open>\<open>junk\<close> is what the uninitialised buffer of the stack context holds.\<close>

definition SHA1 :: "u8 list \<Rightarrow> u8 list \<Rightarrow> u8 list" where
  "SHA1 junk data = fst (SHA1Final (SHA1Update (SHA1Init junk) data))"

section \<open>FIPS 180-1\<close>

text \<open>The message schedule, the round functions and the compression function of the standard.\<close>

fun schedule :: "u32 list \<Rightarrow> nat \<Rightarrow> u32" where
  "schedule M t = (if t < 16 then M ! t
     else rol (schedule M (t - 3) XOR schedule M (t - 8) XOR schedule M (t - 14) XOR schedule M (t - 16)) 1)"

declare schedule.simps [simp del]

definition fips_f :: "nat \<Rightarrow> u32 \<Rightarrow> u32 \<Rightarrow> u32 \<Rightarrow> u32" where
  "fips_f t b c d =
     (if t < 20 then (b AND c) OR (NOT b AND d)
      else if t < 40 then b XOR c XOR d
      else if t < 60 then (b AND c) OR (b AND d) OR (c AND d)
      else b XOR c XOR d)"

definition fips_round :: "u32 list \<Rightarrow> nat \<Rightarrow> sha_vars \<Rightarrow> sha_vars" where
  "fips_round M t s =
     (case s of (a, b, c, d, e) \<Rightarrow>
        (rol a 5 + fips_f t b c d + e + schedule M t + round_const t, a, rol b 30, c, d))"

definition fips_compress :: "u32 list \<Rightarrow> u32 list \<Rightarrow> u32 list" where
  "fips_compress H M =
     (case fold (fips_round M) [0..<80] (H ! 0, H ! 1, H ! 2, H ! 3, H ! 4) of
        (a, b, c, d, e) \<Rightarrow> [H ! 0 + a, H ! 1 + b, H ! 2 + c, H ! 3 + d, H ! 4 + e])"

fun fips_hash :: "u32 list \<Rightarrow> u8 list \<Rightarrow> u32 list" where
  "fips_hash H msg =
     (if length msg < 64 then H
      else fips_hash (fips_compress H (be_words (take 64 msg))) (drop 64 msg))"

declare fips_hash.simps [simp del]

definition be64_bytes :: "nat \<Rightarrow> u8 list" where
  "be64_bytes n = be32_bytes (of_nat (n div 4294967296)) @ be32_bytes (of_nat n)"

definition fips_pad :: "u8 list \<Rightarrow> u8 list" where
  "fips_pad msg = msg @ 0x80 # replicate ((119 - length msg mod 64) mod 64) 0 @ be64_bytes (8 * length msg)"

definition fips_sha1 :: "u8 list \<Rightarrow> u8 list" where
  "fips_sha1 msg = concat (map be32_bytes
     (fips_hash [0x67452301, 0xEFCDAB89, 0x98BADCFE, 0x10325476, 0xC3D2E1F0] (fips_pad msg)))"

section \<open>The transform is the compression function\<close>

lemma round_mix_fips: "round_mix i w x y = fips_f i w x y"
proof -
  have "(w AND (x XOR y)) XOR y = (w AND x) OR (NOT w AND y)"
    and "((w OR x) AND y) OR (w AND x) = (w AND x) OR (w AND y) OR (x AND y)"
    by (rule bit_word_eqI, auto simp: bit_simps)+
  then show ?thesis by (simp add: round_mix_def fips_f_def)
qed

text \<open>After the rounds below \<open>t\<close> the circular block holds the last sixteen schedule words.\<close>

definition holds_schedule :: "u32 list \<Rightarrow> nat \<Rightarrow> u32 list \<Rightarrow> bool" where
  "holds_schedule M t l \<longleftrightarrow> length l = 16 \<and> (\<forall>j < max t 16. t \<le> j + 16 \<longrightarrow> l ! (j mod 16) = schedule M j)"

lemma holds_schedule_init: "length M = 16 \<Longrightarrow> holds_schedule M 0 M"
  by (simp add: holds_schedule_def schedule.simps)

lemma mod16_same: "j mod 16 = t mod 16 \<Longrightarrow> t \<le> j + 15 \<Longrightarrow> j \<le> t \<Longrightarrow> j = (t :: nat)"
proof -
  assume "j mod 16 = t mod 16" "t \<le> j + 15" "j \<le> t"
  then have "16 dvd t - j" and "t - j < 16" by (simp_all add: mod_eq_dvd_iff_nat [symmetric])
  with \<open>j \<le> t\<close> show "j = t" using nat_dvd_not_less[of "t - j" 16] by auto
qed

lemma mod16_shift: "(k + 16 + c) mod 16 = (k + c) mod (16 :: nat)"
  using mod_add_self2[of "k + c" "16 :: nat"] by (simp add: ac_simps)

lemma holds_schedule_step:
  assumes "holds_schedule M t l"
  defines "l' \<equiv> (if t < 16 then l else blk t l)"
  shows "holds_schedule M (Suc t) l'" and "l' ! (t mod 16) = schedule M t"
proof -
  have len: "length l = 16" and h: "\<And>j. j < max t 16 \<Longrightarrow> t \<le> j + 16 \<Longrightarrow> l ! (j mod 16) = schedule M j"
    using assms(1) by (auto simp: holds_schedule_def)
  show new: "l' ! (t mod 16) = schedule M t"
  proof (cases "t < 16")
    case True
    then show ?thesis using h[of t] by (simp add: l'_def)
  next
    case False
    define k where "k = t - 16"
    have t: "t = k + 16" using False by (simp add: k_def)
    have "schedule M t = rol (schedule M (k + 13) XOR schedule M (k + 8) XOR schedule M (k + 2)
        XOR schedule M k) 1"
      by (subst schedule.simps) (simp add: t add.commute)
    moreover have "schedule M (k + 13) = l ! ((k + 13) mod 16)" "schedule M (k + 8) = l ! ((k + 8) mod 16)"
      "schedule M (k + 2) = l ! ((k + 2) mod 16)" "schedule M k = l ! (k mod 16)"
      using h by (simp_all add: t)
    moreover have "(t + 13) mod 16 = (k + 13) mod 16" "(t + 8) mod 16 = (k + 8) mod 16"
      "(t + 2) mod 16 = (k + 2) mod 16" "t mod 16 = k mod 16"
      unfolding t by (rule mod16_shift mod_add_self2)+
    moreover have "l' ! (t mod 16) = rol (l ! ((t + 13) mod 16) XOR l ! ((t + 8) mod 16)
        XOR l ! ((t + 2) mod 16) XOR l ! (t mod 16)) 1"
      using False len by (simp add: l'_def blk_def)
    ultimately show ?thesis by (simp only:)
  qed
  have "l' ! (j mod 16) = schedule M j" if "j < max (Suc t) 16" "Suc t \<le> j + 16" for j
  proof (cases "j = t")
    case False
    then have "t < 16 \<or> j mod 16 \<noteq> t mod 16"
      using that mod16_same[of j t] by auto
    then show ?thesis
      using h[of j] that False len by (auto simp: l'_def blk_def)
  qed (use new in simp)
  then show "holds_schedule M (Suc t) l'"
    using len by (auto simp: holds_schedule_def l'_def blk_def)
qed

lemma sha_round_fips:
  assumes "holds_schedule M t l"
  shows "\<exists>l'. sha_round t (l, s) = (l', fips_round M t s) \<and> holds_schedule M (Suc t) l'"
proof -
  obtain v w x y z where s: "s = (v, w, x, y, z)" by (metis prod_cases5)
  let ?l = "if t < 16 then l else blk t l"
  have "sha_round t (l, s) = (?l, z + (fips_f t w x y + schedule M t + round_const t + rol v 5), v, rol w 30, x, y)"
    unfolding sha_round_def Let_def s prod.case holds_schedule_step(2)[OF assms] round_mix_fips ..
  also have "\<dots> = (?l, fips_round M t s)"
    by (simp only: s fips_round_def prod.case ac_simps)
  finally show ?thesis using holds_schedule_step(1)[OF assms] by blast
qed

lemma rounds_schedule:
  assumes "length M = 16"
  shows "\<exists>l. fold sha_round [0..<t] (M, s) = (l, fold (fips_round M) [0..<t] s) \<and> holds_schedule M t l"
proof (induction t)
  case (Suc t)
  then obtain l where "fold sha_round [0..<t] (M, s) = (l, fold (fips_round M) [0..<t] s)"
    "holds_schedule M t l" by blast
  then show ?case using sha_round_fips[of M t l] by simp
qed (use assms in \<open>simp add: holds_schedule_init\<close>)

lemma length_be_words: "length (be_words bs) = length bs div 4"
  by (induction bs rule: be_words.induct) simp_all

lemma transform_fips:
  assumes "length buf = 64"
  shows "SHA1Transform H buf = fips_compress H (be_words buf)"
proof -
  have "length (be_words buf) = 16" using assms by (simp add: length_be_words)
  from rounds_schedule[OF this] show ?thesis
    unfolding SHA1Transform_def fips_compress_def by (metis (no_types, lifting) case_prod_conv)
qed

section \<open>A context represents the message hashed so far\<close>

definition whole_blocks :: "'a list \<Rightarrow> 'a list" where
  "whole_blocks msg = take (length msg div 64 * 64) msg"

definition last_part :: "'a list \<Rightarrow> 'a list" where
  "last_part msg = drop (length msg div 64 * 64) msg"

lemma length_whole_blocks: "length (whole_blocks msg) = length msg div 64 * 64"
  using div_times_less_eq_dividend[of "length msg" 64] by (simp add: whole_blocks_def)

lemma parts: "whole_blocks msg @ last_part msg = msg" "64 dvd length (whole_blocks msg)"
  "length (last_part msg) = length msg mod 64"
  by (simp_all add: length_whole_blocks)
    (simp_all add: whole_blocks_def last_part_def minus_div_mult_eq_mod)

lemma last_part_append: "64 dvd length xs \<Longrightarrow> last_part (xs @ ys) = last_part ys"
  by (auto simp: last_part_def)

lemma last_part_short: "length xs < 64 \<Longrightarrow> last_part xs = xs"
  by (simp add: last_part_def)

lemma fips_hash_short: "length msg < 64 \<Longrightarrow> fips_hash H msg = H"
  by (simp add: fips_hash.simps)

lemma fips_hash_block:
  "length b = 64 \<Longrightarrow> fips_hash H (b @ msg) = fips_hash (fips_compress H (be_words b)) msg"
  by (subst fips_hash.simps) simp

lemma fips_hash_append: "64 dvd length xs \<Longrightarrow> fips_hash H (xs @ ys) = fips_hash (fips_hash H xs) ys"
proof (induction H xs rule: fips_hash.induct)
  case (1 H xs)
  show ?case
  proof (cases "length xs < 64")
    case True
    with 1(2) have "xs = []" using nat_dvd_not_less by blast
    then show ?thesis by (simp add: fips_hash_short)
  next
    case False
    then have "fips_hash H (take 64 xs @ (drop 64 xs @ ys))
        = fips_hash (fips_compress H (be_words (take 64 xs))) (drop 64 xs @ ys)"
      by (intro fips_hash_block) simp
    also have "\<dots> = fips_hash (fips_hash (fips_compress H (be_words (take 64 xs))) (drop 64 xs)) ys"
      using False 1(2) by (intro 1(1)) (auto simp: dvd_diff_nat)
    also have "fips_hash (fips_compress H (be_words (take 64 xs))) (drop 64 xs) = fips_hash H xs"
      using False by (subst (2) fips_hash.simps) simp
    finally show ?thesis by (simp flip: append_assoc)
  qed
qed

lemma fips_hash_parts: "fips_hash H (m @ ys) = fips_hash (fips_hash H m) (last_part m @ ys)"
proof -
  have "fips_hash H m = fips_hash H (whole_blocks m)"
    using fips_hash_append[OF parts(2), of H m "last_part m"] parts(1,3)[of m]
    by (simp add: fips_hash_short)
  then show ?thesis
    using fips_hash_append[OF parts(2), of H m "last_part m @ ys"] parts(1)[of m]
    by (simp flip: append_assoc)
qed

lemma update_blocks_fips: "update_blocks st data = (fips_hash st data, last_part data)"
proof (induction st data rule: update_blocks.induct)
  case (1 st data)
  show ?case
  proof (cases "63 < length data")
    case True
    then have "last_part data = last_part (drop 64 data)"
      using last_part_append[of "take 64 data" "drop 64 data"] by simp
    then show ?thesis
      using True 1[OF True] fips_hash_block[of "take 64 data" st "drop 64 data"]
      by (simp add: update_blocks.simps[of st data] transform_fips)
  qed (simp add: update_blocks.simps fips_hash_short last_part_short)
qed

definition sha_init_state :: "u32 list" where
  "sha_init_state = [0x67452301, 0xEFCDAB89, 0x98BADCFE, 0x10325476, 0xC3D2E1F0]"

definition bit_count :: "sha1_ctx \<Rightarrow> nat" where
  "bit_count ctx = unat (count1 ctx) * 4294967296 + unat (count0 ctx)"

definition represents :: "sha1_ctx \<Rightarrow> u8 list \<Rightarrow> bool" where
  "represents ctx msg \<longleftrightarrow> length (sha_buffer ctx) = 64
     \<and> bit_count ctx = 8 * length msg mod 18446744073709551616
     \<and> sha_state ctx = fips_hash sha_init_state msg
     \<and> take (length msg mod 64) (sha_buffer ctx) = last_part msg"

lemma represents_init: "length junk = 64 \<Longrightarrow> represents (SHA1Init junk) []"
  by (simp add: represents_def SHA1Init_def sha_init_state_def bit_count_def fips_hash_short last_part_def)

text \<open>The bit count is a 64-bit sum: the carry between its words is the one the code computes.\<close>

lemma low_carry:
  "unat (a + b :: u32) + 4294967296 * (if a + b < b then 1 else 0) = unat a + unat b"
proof -
  have a: "unat a < 4294967296" and b: "unat b < 4294967296"
    using unsigned_less[of a, where ?'a = nat] unsigned_less[of b, where ?'a = nat] by simp_all
  show ?thesis
  proof (cases "unat a + unat b < 4294967296")
    case True
    then have "unat (a + b) = unat a + unat b" by (simp add: unat_word_ariths)
    then show ?thesis by (simp add: word_less_nat_alt)
  next
    case False
    then have "unat (a + b) = unat a + unat b - 4294967296"
      using a b by (simp add: unat_word_ariths mod_if)
    then show ?thesis using False a by (simp add: word_less_nat_alt)
  qed
qed

lemma bit_count_update:
  assumes "length data < 4294967296"
  shows "bit_count (SHA1Update ctx data) = (bit_count ctx + 8 * length data) mod 18446744073709551616"
proof -
  define len :: u32 where "len = of_nat (length data)"
  define lo :: u32 where "lo = push_bit 3 len"
  define c0 where "c0 = count0 ctx + lo"
  define cy :: u32 where "cy = (if c0 < lo then 1 else 0)"
  define A where "A = unat c0"
  have L: "unat len = length data" using assms by (simp add: len_def)
  have lo: "unat lo = 8 * length data mod 4294967296"
    using unat_push_bit[of 3 len] by (simp add: lo_def L mult.commute)
  have hi: "unat (drop_bit 29 len) = 8 * length data div 4294967296"
    using unat_drop_bit[of 29 len] by (simp add: L div_mult2_eq [symmetric])
  have new: "bit_count (SHA1Update ctx data)
      = unat (count1 ctx + cy + drop_bit 29 len) * 4294967296 + A"
    by (simp add: bit_count_def SHA1Update_def Let_def A_def c0_def cy_def lo_def len_def
        split: prod.splits)
  have carry: "A + 4294967296 * unat cy = unat (count0 ctx) + unat lo"
    using low_carry[of "count0 ctx" lo] by (auto simp: A_def c0_def cy_def split: if_splits)
  have "unat (count1 ctx + cy + drop_bit 29 len)
      = (unat (count1 ctx) + unat cy + unat (drop_bit 29 len)) mod 4294967296"
    by (simp add: unat_word_ariths mod_simps)
  then have "bit_count (SHA1Update ctx data)
      = ((unat (count1 ctx) + unat cy + unat (drop_bit 29 len)) * 4294967296 + A) mod 18446744073709551616"
    (is "_ = (?h * _ + A) mod _")
  proof -
    have "A < 4294967296" using unsigned_less[of c0, where ?'a = nat] by (simp add: A_def)
    then have "(h mod 4294967296) * 4294967296 + A = (h * 4294967296 + A) mod (4294967296 * 4294967296)" for h
      unfolding mod_mult2_eq by simp
    with new \<open>unat (count1 ctx + cy + drop_bit 29 len) = _\<close> show ?thesis by simp
  qed
  also have "?h * 4294967296 + A = bit_count ctx + 8 * length data"
    using carry lo hi mult_div_mod_eq[of 4294967296 "8 * length data"]
    by (simp add: bit_count_def distrib_right)
  finally show ?thesis .
qed

lemma represents_buffered:
  assumes "represents ctx msg"
  shows "unat (drop_bit 3 (count0 ctx) AND 63) = length msg mod 64"
proof -
  have "unat (count0 ctx) < 4294967296" using unsigned_less[of "count0 ctx", where ?'a = nat] by simp
  then have "unat (count0 ctx) = bit_count ctx mod 4294967296" by (simp add: bit_count_def)
  also have "\<dots> = 8 * length msg mod (8 * 536870912)"
    using assms by (simp add: represents_def mod_mod_cancel)
  also have "\<dots> div 8 mod 64 = length msg mod 64"
    unfolding mod_mult2_eq by (simp add: mod_mod_cancel)
  finally show ?thesis by (simp add: drop_3_and_63)
qed

lemma represents_update:
  assumes "represents ctx msg" and "length data < 4294967296"
  shows "represents (SHA1Update ctx data) (msg @ data)"
proof -
  define q where "q = length msg mod 64"
  define tl where "tl = last_part msg"
  have q: "q < 64" "length tl = q" by (simp_all add: q_def tl_def parts(3))
  have buf: "length (sha_buffer ctx) = 64" "take q (sha_buffer ctx) = tl"
    and st: "sha_state ctx = fips_hash sha_init_state msg"
    using assms(1) by (simp_all add: represents_def q_def tl_def)
  have j: "unat (drop_bit 3 (count0 ctx) AND 63) = q"
    using represents_buffered[OF assms(1)] by (simp add: q_def)
  have count: "bit_count (SHA1Update ctx data) = 8 * length (msg @ data) mod 18446744073709551616"
    using assms(1) bit_count_update[OF assms(2), of ctx] by (simp add: represents_def mod_simps)
  have lp: "last_part (msg @ data) = last_part (tl @ data)"
    using last_part_append[OF parts(2), of msg "tl @ data"] parts(1)[of msg] by (simp add: tl_def flip: append_assoc)
  have fh: "fips_hash sha_init_state (msg @ data) = fips_hash (sha_state ctx) (tl @ data)"
    using fips_hash_parts[of sha_init_state msg data] by (simp add: st tl_def)
  have nbuf: "length (msg @ data) mod 64 = length (last_part (tl @ data))"
    using lp parts(3)[of "msg @ data"] by simp
  show ?thesis
  proof (cases "63 < q + length data")
    case True
    define i where "i = 64 - q"
    define b where "b = put_at (sha_buffer ctx) q (take i data)"
    have b: "b = tl @ take i data" "length b = 64"
      using True q buf by (auto simp: b_def put_at_def i_def)
    have split: "tl @ data = b @ drop i data" by (simp add: b)
    have upd: "SHA1Update ctx data = (SHA1Update ctx data)
        \<lparr>sha_state := fips_hash (sha_state ctx) (tl @ data), sha_buffer := put_at b 0 (last_part (drop i data))\<rparr>"
      using True unfolding split fips_hash_block[OF b(2)]
      by (simp add: SHA1Update_def Let_def j i_def[symmetric] b_def[symmetric] update_blocks_fips
          transform_fips b(2))
    have rest: "last_part (tl @ data) = last_part (drop i data)"
      unfolding split using b(2) by (intro last_part_append) simp
    have "length (last_part (drop i data)) \<le> 64" by (simp add: parts(3) less_imp_le)
    then have "length (sha_buffer (SHA1Update ctx data)) = 64"
      "take (length (last_part (drop i data))) (sha_buffer (SHA1Update ctx data)) = last_part (drop i data)"
      by (subst upd, simp add: put_at_def b(2))+
    moreover have "sha_state (SHA1Update ctx data) = fips_hash (sha_state ctx) (tl @ data)"
      by (subst upd) simp
    ultimately show ?thesis
      unfolding represents_def count fh lp nbuf rest by simp
  next
    case False
    then have "last_part (tl @ data) = tl @ data" "fips_hash (sha_state ctx) (tl @ data) = sha_state ctx"
      using q by (simp_all add: last_part_short fips_hash_short)
    moreover have "sha_buffer (SHA1Update ctx data) = put_at (sha_buffer ctx) q data"
      "sha_state (SHA1Update ctx data) = sha_state ctx"
      using False by (simp_all add: SHA1Update_def Let_def j)
    moreover have "put_at (sha_buffer ctx) q data = tl @ data @ drop (q + length data) (sha_buffer ctx)"
      by (simp add: put_at_def buf)
    ultimately show ?thesis
      using False q buf(1) unfolding represents_def count fh lp nbuf by simp
  qed
qed

section \<open>The digest\<close>

lemma represents_pad_loop:
  "represents ctx msg \<Longrightarrow>
    represents (pad_loop ctx) (msg @ replicate ((120 - length msg mod 64) mod 64) 0)"
proof (induction ctx arbitrary: msg rule: pad_loop.induct)
  case (1 ctx)
  define q where "q = length msg mod 64"
  have q: "q < 64" "unat (count0 ctx AND 504) = 8 * q"
    using represents_buffered[OF 1(2)] by (simp_all add: q_def and_504 drop_3_and_63)
  show ?case
  proof (cases "count0 ctx AND 504 = 448")
    case True
    then have "q = 56" using q(2) by simp
    then show ?thesis using True 1(2) by (subst pad_loop.simps) (simp add: q_def)
  next
    case False
    have "q \<noteq> 56"
    proof
      assume "q = 56"
      then have "unat (count0 ctx AND 504) = unat (448 :: u32)" using q(2) by simp
      with False show False by (metis unsigned_word_eqI)
    qed
    have "represents (pad_loop (SHA1Update ctx [0]))
        ((msg @ [0]) @ replicate ((120 - length (msg @ [0]) mod 64) mod 64) 0)"
      by (rule 1(1)[OF False represents_update[OF 1(2)]]) simp
    moreover have "(120 - q) mod 64 = Suc ((120 - Suc q mod 64) mod 64)"
      using q(1) \<open>q \<noteq> 56\<close> by (cases "q = 63") (auto simp: mod_if)
    moreover have "length (msg @ [0]) mod 64 = Suc q mod 64" by (simp add: q_def mod_Suc_eq)
    ultimately show ?thesis
      using False by (subst pad_loop.simps) (simp add: q_def replicate_app_Cons_same)
  qed
qed

lemma represents_counts:
  assumes "represents ctx msg"
  shows "count0 ctx = of_nat (8 * length msg)" and "count1 ctx = of_nat (8 * length msg div 4294967296)"
proof -
  let ?n = "8 * length msg"
  have c0: "unat (count0 ctx) < 4294967296" and c1: "unat (count1 ctx) < 4294967296"
    using unsigned_less[of "count0 ctx", where ?'a = nat] unsigned_less[of "count1 ctx", where ?'a = nat]
    by simp_all
  have b: "unat (count1 ctx) * 4294967296 + unat (count0 ctx) = ?n mod (4294967296 * 4294967296)"
    using assms by (simp add: represents_def bit_count_def)
  then have b': "unat (count1 ctx) * 4294967296 + unat (count0 ctx)
      = (?n div 4294967296 mod 4294967296) * 4294967296 + ?n mod 4294967296"
    unfolding mod_mult2_eq by simp
  then have "(unat (count1 ctx) * 4294967296 + unat (count0 ctx)) mod 4294967296 = ?n mod 4294967296"
    by (simp only: mod_mult_self3 mod_mod_trivial)
  then have e0: "unat (count0 ctx) = ?n mod 4294967296" using c0 by simp
  with b' have e1: "unat (count1 ctx) = ?n div 4294967296 mod 4294967296" by simp
  show "count0 ctx = of_nat ?n"
    by (rule word_unat_eq_iff[THEN iffD2]) (simp add: e0 unat_of_nat take_bit_eq_mod del: of_nat_mult)
  show "count1 ctx = of_nat (?n div 4294967296)"
    by (rule word_unat_eq_iff[THEN iffD2]) (simp add: e1 unat_of_nat take_bit_eq_mod del: of_nat_mult)
qed

lemma bytes_of_words:
  "map (\<lambda>i. ucast (drop_bit ((3 - i mod 4) * 8) ([a, b, c, d, e] ! (i div 4)))) [0..<20]
    = concat (map be32_bytes [a, b, c, d, e])"
  by (simp add: upt_rec be32_bytes_def)

lemma finalcount_bytes:
  "map (\<lambda>i. ucast (drop_bit ((3 - i mod 4) * 8) (if 4 \<le> i then a else b))) [0..<8]
    = be32_bytes b @ be32_bytes a"
  by (simp add: upt_rec be32_bytes_def)

lemma length_fips_hash: "length H = 5 \<Longrightarrow> length (fips_hash H msg) = 5"
proof (induction H msg rule: fips_hash.induct)
  case (1 H msg)
  then show ?case
    by (subst fips_hash.simps) (simp add: fips_compress_def split: prod.splits)
qed

lemma list5: "length xs = 5 \<Longrightarrow> \<exists>a b c d e. xs = [a, b, c, d, e]"
  by (auto simp: length_Suc_conv eval_nat_numeral)

lemma SHA1_digest:
  assumes "length data < 4294967232" and "length junk = 64"
  shows "SHA1 junk data = fips_sha1 data"
proof -
  let ?c = "SHA1Update (SHA1Init junk) data"
  define k where "k = (119 - length data mod 64) mod 64"
  have r0: "represents ?c data"
    using represents_update[OF represents_init[OF assms(2)], of data] assms(1) by simp
  then have r1: "represents (SHA1Update ?c [0x80]) (data @ [0x80])" by (rule represents_update) simp
  have "(120 - length (data @ [0x80]) mod 64) mod 64 = k"
    unfolding k_def length_append by (auto simp: mod_Suc)
  then have "represents (pad_loop (SHA1Update ?c [0x80])) ((data @ [0x80]) @ replicate k 0)"
    using represents_pad_loop[OF r1] by simp
  then have "represents (SHA1Update (pad_loop (SHA1Update ?c [0x80])) (be64_bytes (8 * length data)))
      (((data @ [0x80]) @ replicate k 0) @ be64_bytes (8 * length data))"
    by (rule represents_update) (simp add: be64_bytes_def)
  then have final: "sha_state (SHA1Update (pad_loop (SHA1Update ?c [0x80])) (be64_bytes (8 * length data)))
      = fips_hash sha_init_state (fips_pad data)"
    by (simp add: represents_def fips_pad_def k_def)
  have count: "map (\<lambda>i. ucast (drop_bit ((3 - i mod 4) * 8)
      (if 4 \<le> i then count0 ?c else count1 ?c))) [0..<8] = be64_bytes (8 * length data)"
    unfolding finalcount_bytes be64_bytes_def represents_counts[OF r0] ..
  obtain a b c d e where "fips_hash sha_init_state (fips_pad data) = [a, b, c, d, e]"
    using list5[OF length_fips_hash[of sha_init_state "fips_pad data"]] by (auto simp: sha_init_state_def)
  then show ?thesis
    unfolding SHA1_def SHA1Final_def Let_def count fst_conv final fips_sha1_def sha_init_state_def[symmetric]
    by (simp only: bytes_of_words)
qed

text \<open>
  C1: \<^verbatim>\<open>SHA1\<close> computes the FIPS 180-1 digest of every message of fewer than \<open>2\<^sup>32 - 64\<close> bytes, whatever
  its stack buffer held before: the circular schedule, the buffering across blocks, the carried
  64-bit bit count and the padding loop implement the standard's definition.
\<close>

theorem sha1_fips:
  assumes "length data < 4294967232" and "length junk = 64"
  shows "SHA1 junk data = fips_sha1 data"
  using assms by (rule SHA1_digest)

theorem sha1_fips_witness: "SHA1 (replicate 64 7) [0x61, 0x62, 0x63] = fips_sha1 [0x61, 0x62, 0x63]"
proof (rule sha1_fips)
  show "length [0x61 :: u8, 0x62, 0x63] < 4294967232" by simp
  show "length (replicate 64 (7 :: u8)) = 64" by (rule length_replicate)
qed

end
