(* ===== verification/App_Entry.thy ===== *)
theory App_Entry
  imports Reloc "HOL-Library.Multiset" "HOL-Library.List_Lexorder"
begin

text \<open>
  \<^verbatim>\<open>channelapp/source/appentry.c\<close>: the list of installed applications, its filtered and sorted
  view, and the background thread that watches the storage devices.

  Application records live on a heap and the two tables hold pointers, so that a pointer left in
  the view after its record is freed is visible in the model. The file system during one operation
  is a record of what \<^verbatim>\<open>stat\<close>, \<^verbatim>\<open>readdir\<close>, \<^verbatim>\<open>meta_parse\<close> and \<^verbatim>\<open>tex_from_png_file\<close> answer; the
  allocator and \<^verbatim>\<open>qsort\<close> are parameters; the calls to the device drivers go to the environment.
\<close>

section \<open>Types\<close>

type_synonym ptr = nat

datatype app_entry_type = AET_BOOT_ELF | AET_BOOT_DOL | AET_THEME
datatype ae_action = AE_ACT_NONE | AE_ACT_REMOVE | AE_ACT_ADD
datatype app_filter = APP_FILTER_ALL | APP_FILTER_ICONSONLY | APP_FILTER_DATEONLY
datatype app_sort = APP_SORT_NAME | APP_SORT_DATE | APP_SORT_SIZE
datatype ae_cmd = AE_CMD_IDLE | AE_CMD_EXIT | AE_CMD_SCAN | AE_CMD_POLLSTATUS

text \<open>The fields of \<^verbatim>\<open>meta_info\<close> the list and the loader look at (\<^verbatim>\<open>args\<close> with its length \<^verbatim>\<open>argslen\<close>); an icon is an opaque texture number.\<close>

record meta_info =
  meta_name :: "string option"
  release_date :: int
  meta_args :: "u8 list option"
  ahb_access :: bool

record app_entry =
  ae_type :: app_entry_type
  ae_size :: u32
  dirname :: string
  icon :: "nat option"
  meta :: "meta_info option"

definition MAX_ENTRIES :: nat where "MAX_ENTRIES = 1024"
definition DEVICE_COUNT :: nat where "DEVICE_COUNT = 4"
definition MAX_THEME_ZIP_SIZE :: nat where "MAX_THEME_ZIP_SIZE = 20 * 1024 * 1024"

definition device_names :: "string list" where
  "device_names = [''sd'', ''usb'', ''carda'', ''cardb'']"

datatype dev_call = FatMount nat | FatUnmount nat | Startup nat | Shutdown nat | IsInserted nat
  | Chdir string | UsbDeinitialize

record ae_state =
  entries_all :: "ptr option list"
  entry_count_all :: nat
  entries :: "ptr option list"
  entry_count :: nat
  ae_heap :: "ptr \<Rightarrow> app_entry option"
  current_filter :: app_filter
  current_sort :: app_sort
  cmp_descending :: bool
  device_active :: int
  device_prefered :: int
  last_status :: "bool list"
  ta_running :: bool
  ta_cmd :: ae_cmd
  ta_action :: ae_action
  ta_status :: "bool list"
  ta_umount :: bool
  ta_mount :: int
  ta_loading :: bool
  settings_sort :: app_sort
  settings_device :: int
  dev_calls :: "dev_call list"

record app_fs =
  fs_stat :: "string \<Rightarrow> nat option"
  fs_meta :: "string \<Rightarrow> meta_info option"
  fs_icon :: "string \<Rightarrow> nat option"
  fs_apps :: "(string \<times> bool) list option"

section \<open>Comparing entries\<close>

definition lower :: "char \<Rightarrow> nat" where
  "lower c = (let n = of_char c in if 65 \<le> n \<and> n \<le> 90 then n + 32 else n)"

text \<open>The C library's \<^verbatim>\<open>strcasecmp\<close> on strings that end at their first NUL.\<close>

fun strcasecmp :: "string \<Rightarrow> string \<Rightarrow> int" where
  "strcasecmp [] [] = 0"
| "strcasecmp [] (d # ds) = - int (lower d)"
| "strcasecmp (c # cs) [] = int (lower c)"
| "strcasecmp (c # cs) (d # ds) =
     (if lower c = lower d then (if lower c = 0 then 0 else strcasecmp cs ds)
      else int (lower c) - int (lower d))"

definition cmp_entries :: "app_sort \<Rightarrow> app_entry \<Rightarrow> app_entry \<Rightarrow> int" where
  "cmp_entries srt a1 a2 =
     (case (meta a1, meta a2) of
        (None, None) \<Rightarrow> strcasecmp (dirname a1) (dirname a2)
      | (None, Some _) \<Rightarrow> 1
      | (Some _, None) \<Rightarrow> -1
      | (Some m1, Some m2) \<Rightarrow>
          if srt = APP_SORT_DATE then
            (if release_date m1 = 0 \<and> release_date m2 = 0 then 0
             else if release_date m1 = 0 \<and> release_date m2 \<noteq> 0 then -1
             else if release_date m1 \<noteq> 0 \<and> release_date m2 = 0 then 1
             else if release_date m1 > release_date m2 then 1
             else -1)
          else if srt = APP_SORT_SIZE then sint (ae_size a2 - ae_size a1)
          else
            (case (meta_name m1, meta_name m2) of
               (None, None) \<Rightarrow> strcasecmp (dirname a1) (dirname a2)
             | (None, Some _) \<Rightarrow> 1
             | (Some _, None) \<Rightarrow> -1
             | (Some n1, Some n2) \<Rightarrow> strcasecmp n1 n2))"

definition cmp_app_entry :: "bool \<Rightarrow> app_sort \<Rightarrow> app_entry \<Rightarrow> app_entry \<Rightarrow> int" where
  "cmp_app_entry descending srt a1 a2 =
     (if descending then cmp_entries srt a2 a1 else cmp_entries srt a1 a2)"

section \<open>The view\<close>

type_synonym sorter = "(ptr \<Rightarrow> ptr \<Rightarrow> int) \<Rightarrow> ptr list \<Rightarrow> ptr list"

definition filter_passes :: "app_filter \<Rightarrow> app_entry \<Rightarrow> bool" where
  "filter_passes f e =
     (case f of
        APP_FILTER_ICONSONLY \<Rightarrow> icon e \<noteq> None
      | APP_FILTER_DATEONLY \<Rightarrow> meta e \<noteq> None
      | APP_FILTER_ALL \<Rightarrow> True)"

text \<open>\<open>entry_of\<close> dereferences a pointer of a table.\<close>

definition entry_of :: "ae_state \<Rightarrow> ptr \<Rightarrow> app_entry" where
  "entry_of s p = the (ae_heap s p)"

text \<open>The pointers in a table, in order.\<close>

fun pointers :: "ptr option list \<Rightarrow> ptr list" where
  "pointers [] = []"
| "pointers (None # xs) = pointers xs"
| "pointers (Some p # xs) = p # pointers xs"

definition kept :: "app_filter \<Rightarrow> ae_state \<Rightarrow> ptr list" where
  "kept f s = filter (\<lambda>p. filter_passes f (entry_of s p)) (pointers (entries_all s))"

definition app_entry_filter :: "sorter \<Rightarrow> app_filter \<Rightarrow> ae_state \<Rightarrow> ae_state" where
  "app_entry_filter qsort f s =
     (let ps = kept f s;
          cmp = (\<lambda>p q. cmp_app_entry (cmp_descending s) (current_sort s) (entry_of s p) (entry_of s q));
          view = (if ps = [] then [] else qsort cmp ps)
      in s\<lparr>entries := map Some view @ replicate (MAX_ENTRIES - length view) None,
           entry_count := length ps, current_filter := f\<rparr>)"

definition app_entry_get_sort :: "ae_state \<Rightarrow> app_sort" where
  "app_entry_get_sort s = current_sort s"

definition app_entry_set_sort :: "app_sort \<Rightarrow> ae_state \<Rightarrow> ae_state" where
  "app_entry_set_sort srt s =
     (let s1 = (case srt of
                  APP_SORT_DATE \<Rightarrow> s\<lparr>cmp_descending := True, current_filter := APP_FILTER_DATEONLY,
                                      current_sort := APP_SORT_DATE\<rparr>
                | APP_SORT_SIZE \<Rightarrow> s\<lparr>current_sort := APP_SORT_SIZE\<rparr>
                | APP_SORT_NAME \<Rightarrow> s\<lparr>cmp_descending := False, current_filter := APP_FILTER_ALL,
                                      current_sort := APP_SORT_NAME\<rparr>)
      in if settings_sort s1 \<noteq> current_sort s1 then s1\<lparr>settings_sort := current_sort s1\<rparr> else s1)"

section \<open>Loading, adding and removing\<close>

definition app_file :: "string \<Rightarrow> string \<Rightarrow> string" where
  "app_file dir file = ''/apps/'' @ dir @ ''/'' @ file"

text \<open>The executable or theme of a directory: the first of the three files that exists.\<close>

definition find_boot :: "app_fs \<Rightarrow> string \<Rightarrow> (app_entry_type \<times> nat) option" where
  "find_boot fs dir =
     (case fs_stat fs (app_file dir ''boot.elf'') of
        Some n \<Rightarrow> Some (AET_BOOT_ELF, n)
      | None \<Rightarrow>
          (case fs_stat fs (app_file dir ''boot.dol'') of
             Some n \<Rightarrow> Some (AET_BOOT_DOL, n)
           | None \<Rightarrow>
               (case fs_stat fs (app_file dir ''theme.zip'') of
                  None \<Rightarrow> None
                | Some n \<Rightarrow> if n > MAX_THEME_ZIP_SIZE then None else Some (AET_THEME, n))))"

definition load_single :: "app_fs \<Rightarrow> string \<Rightarrow> app_entry option" where
  "load_single fs dir =
     (case find_boot fs dir of
        None \<Rightarrow> None
      | Some (ty, n) \<Rightarrow>
          if n = 0 \<or> n > unat LD_MAX_SIZE then None
          else Some \<lparr>ae_type = ty, ae_size = of_nat n, dirname = dir,
                     icon = (case fs_stat fs (app_file dir ''icon.png'') of None \<Rightarrow> None
                             | Some _ \<Rightarrow> fs_icon fs (app_file dir ''icon.png'')),
                     meta = (case fs_stat fs (app_file dir ''meta.xml'') of None \<Rightarrow> None
                             | Some _ \<Rightarrow> fs_meta fs (app_file dir ''meta.xml''))\<rparr>)"

text \<open>
  \<^verbatim>\<open>app_entry_load_single\<close> puts the record in fresh memory; \<open>alloc\<close> is \<^verbatim>\<open>malloc\<close>, a function of the
  heap that gives an address not in use. \<^verbatim>\<open>pmalloc\<close> never returns without memory.
\<close>

type_synonym allocator = "(ptr \<Rightarrow> app_entry option) \<Rightarrow> ptr"

definition app_entry_load_single ::
  "allocator \<Rightarrow> app_fs \<Rightarrow> string \<Rightarrow> ae_state \<Rightarrow> ptr option \<times> ae_state" where
  "app_entry_load_single alloc fs dir s =
     (case load_single fs dir of
        None \<Rightarrow> (None, s)
      | Some e \<Rightarrow> let p = alloc (ae_heap s) in (Some p, s\<lparr>ae_heap := (ae_heap s)(p \<mapsto> e)\<rparr>))"

fun heap_free :: "ptr option list \<Rightarrow> (ptr \<Rightarrow> app_entry option) \<Rightarrow> (ptr \<Rightarrow> app_entry option)" where
  "heap_free [] h = h"
| "heap_free (None # xs) h = heap_free xs h"
| "heap_free (Some p # xs) h = heap_free xs (h(p := None))"

definition app_entries_free :: "ae_state \<Rightarrow> ae_state" where
  "app_entries_free s =
     s\<lparr>entries := replicate MAX_ENTRIES None, entries_all := replicate MAX_ENTRIES None,
       ae_heap := heap_free (entries_all s) (ae_heap s), entry_count_all := 0, entry_count := 0\<rparr>"

fun load_dirs :: "allocator \<Rightarrow> app_fs \<Rightarrow> (string \<times> bool) list \<Rightarrow> ae_state \<Rightarrow> ae_state" where
  "load_dirs alloc fs [] s = s"
| "load_dirs alloc fs ((name, is_dir) # ds) s =
     (if name = [] \<or> hd name = CHR ''.'' then load_dirs alloc fs ds s
      else if \<not> is_dir then load_dirs alloc fs ds s
      else
        (case app_entry_load_single alloc fs name s of
           (None, s1) \<Rightarrow> load_dirs alloc fs ds s1
         | (Some p, s1) \<Rightarrow>
             let s2 = s1\<lparr>entries_all := (entries_all s1)[entry_count_all s1 := Some p],
                         entry_count_all := Suc (entry_count_all s1)\<rparr>
             in if entry_count_all s2 \<ge> MAX_ENTRIES then s2 else load_dirs alloc fs ds s2))"

definition app_entry_load_all :: "sorter \<Rightarrow> allocator \<Rightarrow> app_fs \<Rightarrow> ae_state \<Rightarrow> ae_state" where
  "app_entry_load_all qsort alloc fs s =
     (let s1 = app_entries_free s
      in case fs_apps fs of
           None \<Rightarrow> s1
         | Some ds \<Rightarrow> let s2 = load_dirs alloc fs ds s1 in app_entry_filter qsort (current_filter s2) s2)"

text \<open>The loops over the table stop at the first hit.\<close>

fun first_index :: "('a \<Rightarrow> bool) \<Rightarrow> 'a list \<Rightarrow> nat option" where
  "first_index P [] = None"
| "first_index P (x # xs) = (if P x then Some 0 else map_option Suc (first_index P xs))"

definition drop_entry :: "nat \<Rightarrow> ptr \<Rightarrow> ae_state \<Rightarrow> ae_state" where
  "drop_entry i p s =
     s\<lparr>ae_heap := (ae_heap s)(p := None), entries_all := (entries_all s)[i := None],
       entry_count_all := entry_count_all s - 1\<rparr>"

definition app_entry_remove :: "sorter \<Rightarrow> ptr \<Rightarrow> ae_state \<Rightarrow> bool \<times> ae_state" where
  "app_entry_remove qsort app s =
     (case first_index (\<lambda>x. x = Some app) (entries_all s) of
        None \<Rightarrow> (False, s)
      | Some i \<Rightarrow> let s1 = drop_entry i app s in (True, app_entry_filter qsort (current_filter s1) s1))"

text \<open>
  \<^verbatim>\<open>app_entry_add\<close>: the entry of the same directory goes first, then the directory is loaded into
  the first free slot. The view is rebuilt when either happened.
\<close>

definition remove_same_dir :: "string \<Rightarrow> ae_state \<Rightarrow> bool \<times> ae_state" where
  "remove_same_dir dir s =
     (case first_index (\<lambda>x. case x of None \<Rightarrow> False | Some p \<Rightarrow> strcasecmp (dirname (entry_of s p)) dir = 0)
             (entries_all s) of
        None \<Rightarrow> (False, s)
      | Some i \<Rightarrow> (case entries_all s ! i of None \<Rightarrow> (False, s) | Some p \<Rightarrow> (True, drop_entry i p s)))"

definition insert_entry :: "ptr \<Rightarrow> ae_state \<Rightarrow> bool \<times> ae_state" where
  "insert_entry p s =
     (case first_index (\<lambda>x. x = None) (entries_all s) of
        None \<Rightarrow> (False, s)
      | Some i \<Rightarrow> (True, s\<lparr>entries_all := (entries_all s)[i := Some p],
                          entry_count_all := Suc (entry_count_all s)\<rparr>))"

definition app_entry_add ::
  "sorter \<Rightarrow> allocator \<Rightarrow> app_fs \<Rightarrow> string \<Rightarrow> ae_state \<Rightarrow> ptr option \<times> ae_state" where
  "app_entry_add qsort alloc fs dir s =
     (let (removed, s1) = remove_same_dir dir s;
          (entry, inserted, s2) =
            (if entry_count_all s1 \<ge> MAX_ENTRIES then (None, False, s1)
             else
               (case app_entry_load_single alloc fs dir s1 of
                  (None, t) \<Rightarrow> (None, False, t)
                | (Some p, t) \<Rightarrow> (case insert_entry p t of (b, u) \<Rightarrow> (Some p, b, u))))
      in (entry, if removed \<or> inserted then app_entry_filter qsort (current_filter s2) s2 else s2))"

definition app_entry_find :: "string \<Rightarrow> ae_state \<Rightarrow> ptr option" where
  "app_entry_find dir s =
     (case first_index (\<lambda>x. case x of None \<Rightarrow> False | Some p \<Rightarrow> strcasecmp (dirname (entry_of s p)) dir = 0)
             (take (entry_count s) (entries s)) of
        None \<Rightarrow> None
      | Some i \<Rightarrow> entries s ! i)"

section \<open>The device thread\<close>

type_synonym dev_world = "(dev_call, bool) world"

definition dev :: "dev_world \<Rightarrow> dev_call \<Rightarrow> ae_state \<Rightarrow> bool \<times> ae_state" where
  "dev w e s = (w (dev_calls s) e, s\<lparr>dev_calls := e # dev_calls s\<rparr>)"

definition mount :: "dev_world \<Rightarrow> nat \<Rightarrow> ae_state \<Rightarrow> bool \<times> ae_state" where
  "mount w i s =
     (let (ok, s1) = dev w (FatMount i) s;
          s2 = s1\<lparr>last_status := (last_status s1)[i := ok]\<rparr>
      in if \<not> ok then (False, snd (dev w (Shutdown i) s2)) else (True, s2))"

text \<open>The loop over all devices stops at the first that mounts.\<close>

fun mount_any :: "dev_world \<Rightarrow> nat list \<Rightarrow> ae_state \<Rightarrow> ae_state" where
  "mount_any w [] s = s"
| "mount_any w (i # is) s =
     (case mount w i s of
        (ok, s1) \<Rightarrow> if ok then s1\<lparr>device_active := int i\<rparr> else mount_any w is s1)"

definition scan_lost :: "dev_world \<Rightarrow> ae_state \<Rightarrow> ae_state" where
  "scan_lost w s =
     (let i = nat (device_active s);
          (keep, s1) = (if ta_umount s then (False, s) else dev w (IsInserted i) s)
      in if keep then s1
         else
           let s2 = s1\<lparr>ta_umount := False\<rparr>;
               s3 = snd (dev w (FatUnmount i) s2);
               s4 = snd (dev w (Shutdown i) s3)
           in s4\<lparr>last_status := (last_status s4)[i := False], device_active := -1,
                 ta_action := AE_ACT_REMOVE\<rparr>)"

definition scan_requested :: "dev_world \<Rightarrow> ae_state \<Rightarrow> ae_state" where
  "scan_requested w s =
     (if ta_mount s \<ge> 0 then
        (case mount w (nat (ta_mount s)) s of
           (ok, s1) \<Rightarrow> (if ok then s1\<lparr>device_active := ta_mount s\<rparr> else s1)\<lparr>ta_mount := -1\<rparr>)
      else s)"

definition scan_prefered :: "dev_world \<Rightarrow> ae_state \<Rightarrow> ae_state" where
  "scan_prefered w s =
     (if device_active s < 0 \<and> device_prefered s \<ge> 0 then
        (case mount w (nat (device_prefered s)) s of
           (ok, s1) \<Rightarrow> if ok then s1\<lparr>device_active := device_prefered s\<rparr> else s1)
      else s)"

definition scan_load :: "dev_world \<Rightarrow> sorter \<Rightarrow> allocator \<Rightarrow> app_fs \<Rightarrow> ae_state \<Rightarrow> ae_state" where
  "scan_load w qsort alloc fs s =
     (let s1 = snd (dev w (Chdir (device_names ! nat (device_active s) @ '':/'')) (s\<lparr>ta_loading := True\<rparr>));
          s2 = app_entry_load_all qsort alloc fs s1
      in s2\<lparr>ta_loading := False, ta_action := AE_ACT_ADD\<rparr>)"

definition ae_scan :: "dev_world \<Rightarrow> sorter \<Rightarrow> allocator \<Rightarrow> app_fs \<Rightarrow> ae_state \<Rightarrow> ae_state" where
  "ae_scan w qsort alloc fs s =
     (if device_active s \<ge> 0 then scan_lost w s
      else
        let s1 = scan_prefered w (scan_requested w s);
            s2 = (if device_active s1 < 0 then mount_any w [0..<DEVICE_COUNT] s1 else s1)
        in if device_active s2 \<ge> 0 then scan_load w qsort alloc fs s2 else s2)"

definition set_status :: "nat \<Rightarrow> bool \<Rightarrow> ae_state \<Rightarrow> ae_state" where
  "set_status i b s = s\<lparr>last_status := (last_status s)[i := b], ta_status := (ta_status s)[i := b]\<rparr>"

definition poll_device :: "dev_world \<Rightarrow> nat \<Rightarrow> ae_state \<Rightarrow> ae_state" where
  "poll_device w i s =
     (if int i = device_active s then
        (case dev w (IsInserted i) s of
           (b, s1) \<Rightarrow>
             let s2 = set_status i b s1
             in if \<not> ta_umount s2 \<and> \<not> b then s2\<lparr>ta_umount := True\<rparr> else s2)
      else if last_status s ! i then
        (case dev w (IsInserted i) s of
           (b, s1) \<Rightarrow> if \<not> b then snd (dev w (Shutdown i) (set_status i False s1)) else s1)
      else
        (case dev w (Startup i) s of
           (up, s1) \<Rightarrow>
             if \<not> up then set_status i False s1
             else
               (case dev w (IsInserted i) s1 of
                  (b, s2) \<Rightarrow>
                    let s3 = set_status i b s2
                    in if \<not> b then snd (dev w (Shutdown i) s3) else s3)))"

definition ae_poll :: "dev_world \<Rightarrow> ae_state \<Rightarrow> ae_state" where
  "ae_poll w s = fold (poll_device w) [0..<DEVICE_COUNT] s"

text \<open>
  \<^verbatim>\<open>ae_func\<close>: its start, and one wake-up of its condition variable. Both run under the mutex.
\<close>

definition ae_start :: "ae_state \<Rightarrow> ae_state" where
  "ae_start s = s\<lparr>ta_running := True, ta_status := replicate DEVICE_COUNT False, ta_cmd := AE_CMD_IDLE\<rparr>"

definition ae_wake :: "dev_world \<Rightarrow> sorter \<Rightarrow> allocator \<Rightarrow> app_fs \<Rightarrow> ae_state \<Rightarrow> ae_state" where
  "ae_wake w qsort alloc fs s =
     (case ta_cmd s of
        AE_CMD_EXIT \<Rightarrow> s\<lparr>ta_running := False\<rparr>
      | AE_CMD_SCAN \<Rightarrow> (ae_scan w qsort alloc fs s)\<lparr>ta_cmd := AE_CMD_IDLE\<rparr>
      | AE_CMD_POLLSTATUS \<Rightarrow> (ae_poll w s)\<lparr>ta_cmd := AE_CMD_IDLE\<rparr>
      | AE_CMD_IDLE \<Rightarrow> s)"

section \<open>The calls of the main thread\<close>

text \<open>
  \<open>locked\<close> tells whether \<^verbatim>\<open>LWP_MutexTryLock\<close> got the mutex. \<^verbatim>\<open>app_entry_init\<close> clears the two
  tables and starts the thread when the three kernel objects could be made.
\<close>

definition app_entry_init :: "bool \<Rightarrow> bool \<Rightarrow> bool \<Rightarrow> ae_state \<Rightarrow> ae_state" where
  "app_entry_init mutex_ok cond_ok thread_ok s =
     (let s1 = s\<lparr>entries_all := replicate MAX_ENTRIES None, entries := replicate MAX_ENTRIES None,
                 ta_cmd := AE_CMD_IDLE, ta_action := AE_ACT_NONE, ta_umount := False, ta_mount := -1,
                 ta_loading := False\<rparr>
      in if \<not> mutex_ok then s1 else if \<not> cond_ok then s1
         else if \<not> thread_ok then s1 else ae_start s1)"

definition app_entry_deinit :: "dev_world \<Rightarrow> (nat \<Rightarrow> bool) \<Rightarrow> ae_state \<Rightarrow> ae_state" where
  "app_entry_deinit w try_lock s =
     (if ta_running s then
        let s1 = (if \<exists>i\<in>set [0..<25]. try_lock i
                  then app_entries_free (s\<lparr>ta_cmd := AE_CMD_EXIT, ta_running := False\<rparr>) else s);
            s2 = (if device_active s1 \<ge> 0 then
                    snd (dev w (Shutdown (nat (device_active s1)))
                      (snd (dev w (FatUnmount (nat (device_active s1))) s1)))
                  else s1)
        in snd (dev w UsbDeinitialize s2)
      else s)"

definition app_entry_command :: "ae_cmd \<Rightarrow> bool \<Rightarrow> ae_state \<Rightarrow> ae_state" where
  "app_entry_command cmd locked s =
     (if \<not> ta_running s then s else if \<not> locked then s else s\<lparr>ta_cmd := cmd\<rparr>)"

definition app_entry_scan :: "bool \<Rightarrow> ae_state \<Rightarrow> ae_state" where
  "app_entry_scan = app_entry_command AE_CMD_SCAN"

definition app_entry_poll_status :: "bool \<Rightarrow> ae_state \<Rightarrow> ae_state" where
  "app_entry_poll_status = app_entry_command AE_CMD_POLLSTATUS"

definition app_entry_action :: "bool \<Rightarrow> ae_state \<Rightarrow> ae_action \<times> ae_state" where
  "app_entry_action locked s =
     (if \<not> ta_running s then (AE_ACT_NONE, s)
      else if \<not> locked then (AE_ACT_NONE, s)
      else (ta_action s, s\<lparr>ta_action := AE_ACT_NONE\<rparr>))"

definition app_entry_get_status :: "ae_state \<Rightarrow> bool list \<times> int" where
  "app_entry_get_status s = (map (\<lambda>i. ta_status s ! i) [0..<DEVICE_COUNT], device_active s)"

definition app_entry_set_prefered :: "int \<Rightarrow> ae_state \<Rightarrow> ae_state" where
  "app_entry_set_prefered d s =
     (if d < 0 then s\<lparr>device_prefered := -1\<rparr>
      else if d > int DEVICE_COUNT - 1 then s\<lparr>device_prefered := -1\<rparr>
      else let s1 = s\<lparr>device_prefered := d\<rparr>
           in if settings_device s1 \<noteq> d then s1\<lparr>settings_device := d\<rparr> else s1)"

definition app_entry_set_device :: "int \<Rightarrow> ae_state \<Rightarrow> ae_state" where
  "app_entry_set_device d s =
     (if d < 0 then s else if d > int DEVICE_COUNT - 1 then s
      else s\<lparr>ta_umount := True, ta_mount := d\<rparr>)"

definition app_entry_get_path :: "ae_state \<Rightarrow> string option" where
  "app_entry_get_path s =
     (if device_active s < 0 then None else Some (device_names ! nat (device_active s)))"

definition app_entry_get_filename :: "ae_state \<Rightarrow> app_entry \<Rightarrow> string option" where
  "app_entry_get_filename s app =
     (if device_active s < 0 then None
      else Some (device_names ! nat (device_active s) @ '':'' @ ''/apps'' @ ''/'' @ dirname app @ ''/'' @
             (case ae_type app of
                AET_BOOT_ELF \<Rightarrow> ''boot.elf''
              | AET_BOOT_DOL \<Rightarrow> ''boot.dol''
              | AET_THEME \<Rightarrow> ''theme.zip'')))"

definition app_entry_is_loading :: "ae_state \<Rightarrow> bool" where
  "app_entry_is_loading s = (if \<not> ta_running s then False else ta_loading s)"

section \<open>The tables hold live, distinct entries\<close>

text \<open>
  What the C library promises of \<^verbatim>\<open>malloc\<close> and of \<^verbatim>\<open>qsort\<close>: nothing when the comparison is not a total order of what is
  sorted.
\<close>

definition alloc_ok :: "allocator \<Rightarrow> bool" where
  "alloc_ok alloc \<longleftrightarrow> (\<forall>h. finite (dom h) \<longrightarrow> h (alloc h) = None)"

definition consistent :: "('a \<Rightarrow> 'a \<Rightarrow> int) \<Rightarrow> 'a set \<Rightarrow> bool" where
  "consistent cmp A \<longleftrightarrow> (\<forall>x\<in>A. \<forall>y\<in>A. (cmp x y < 0 \<longleftrightarrow> cmp y x > 0) \<and>
     (\<forall>z\<in>A. cmp x y \<le> 0 \<longrightarrow> cmp y z \<le> 0 \<longrightarrow> cmp x z \<le> 0))"

definition qsort_ok :: "sorter \<Rightarrow> bool" where
  "qsort_ok qsort \<longleftrightarrow> (\<forall>cmp xs. consistent cmp (set xs) \<longrightarrow>
     mset (qsort cmp xs) = mset xs \<and> sorted_wrt (\<lambda>x y. cmp x y \<le> 0) (qsort cmp xs))"

text \<open>The comparison that is set orders the applications of the table.\<close>

definition sortable :: "ae_state \<Rightarrow> bool" where
  "sortable s \<longleftrightarrow> consistent (\<lambda>p q. cmp_app_entry (cmp_descending s) (current_sort s) (entry_of s p) (entry_of s q))
     (set (pointers (entries_all s)))"

lemma consistent_mono: "consistent cmp A \<Longrightarrow> B \<subseteq> A \<Longrightarrow> consistent cmp B"
  unfolding consistent_def by blast

lemma sortable_kept:
  "sortable s \<Longrightarrow>
     consistent (\<lambda>p q. cmp_app_entry (cmp_descending s) (current_sort s) (entry_of s p) (entry_of s q)) (set (kept f s))"
  unfolding sortable_def by (rule consistent_mono) (auto simp: kept_def)

lemma first_index_Some:
  "first_index P xs = Some i \<Longrightarrow> i < length xs \<and> P (xs ! i) \<and> (\<forall>j<i. \<not> P (xs ! j))"
  by (induction xs arbitrary: i) (auto simp: less_Suc_eq_0_disj split: if_splits)

lemma first_index_None: "first_index P xs = None \<longleftrightarrow> (\<forall>x\<in>set xs. \<not> P x)"
  by (induction xs) auto

lemma set_pointers: "set (pointers xs) = {p. Some p \<in> set xs}"
  by (induction xs rule: pointers.induct) auto

lemma pointers_append: "pointers (xs @ ys) = pointers xs @ pointers ys"
  by (induction xs rule: pointers.induct) auto

lemma pointers_split: "i < length xs \<Longrightarrow>
    pointers xs = pointers (take i xs) @ pointers [xs ! i] @ pointers (drop (Suc i) xs)"
  by (subst (1) id_take_nth_drop[of i xs]) (simp_all only: pointers_append flip: append_Cons append.simps, simp_all add: pointers_append flip: pointers_append)

lemma pointers_update: "i < length xs \<Longrightarrow>
    pointers (xs[i := x]) = pointers (take i xs) @ pointers [x] @ pointers (drop (Suc i) xs)"
  by (simp add: upd_conv_take_nth_drop pointers_append flip: pointers_append)

lemma length_pointers: "length (pointers xs) \<le> length xs"
  by (induction xs rule: pointers.induct) auto

lemma pointers_full: "length (pointers xs) < length xs \<Longrightarrow> None \<in> set xs"
  by (induction xs rule: pointers.induct) auto

lemma pointers_replicate [simp]: "pointers (replicate n None) = []"
  by (induction n) auto

lemma heap_free_eq: "heap_free xs h p = (if p \<in> set (pointers xs) then None else h p)"
  by (induction xs h rule: heap_free.induct) (simp_all del: fun_upd_apply, auto)

definition table_ok :: "ae_state \<Rightarrow> bool" where
  "table_ok s \<longleftrightarrow> length (entries_all s) = MAX_ENTRIES \<and> distinct (pointers (entries_all s))
     \<and> entry_count_all s = length (pointers (entries_all s)) \<and> finite (dom (ae_heap s))
     \<and> (\<forall>p\<in>set (pointers (entries_all s)). \<exists>e. ae_heap s p = Some e \<and> ae_size e \<noteq> 0 \<and> ae_size e \<le> LD_MAX_SIZE)"

definition view_ok :: "ae_state \<Rightarrow> bool" where
  "view_ok s \<longleftrightarrow> (\<exists>ps. entries s = map Some ps @ replicate (MAX_ENTRIES - length ps) None
     \<and> length ps \<le> MAX_ENTRIES \<and> entry_count s = length ps \<and> distinct ps \<and> set ps \<subseteq> set (pointers (entries_all s)))"

lemma view_ok_filter:
  assumes "table_ok s" and "qsort_ok qsort" and "sortable s"
  shows "view_ok (app_entry_filter qsort f s)"
proof -
  define cmp where "cmp = (\<lambda>p q. cmp_app_entry (cmp_descending s) (current_sort s) (entry_of s p) (entry_of s q))"
  define vs where "vs = (if kept f s = [] then [] else qsort cmp (kept f s))"
  have "mset vs = mset (kept f s)" using assms(2) sortable_kept[OF assms(3)] by (simp add: vs_def qsort_ok_def cmp_def)
  then have "length vs = length (kept f s)" "set vs = set (kept f s)" "distinct vs = distinct (kept f s)"
    by (metis size_mset) (metis \<open>mset vs = _\<close> set_mset_mset, metis \<open>mset vs = _\<close> mset_eq_imp_distinct_iff)
  moreover have "length (kept f s) \<le> MAX_ENTRIES"
    using assms(1) length_pointers[of "entries_all s"] unfolding kept_def
    by (intro le_trans[OF length_filter_le]) (simp add: table_ok_def)
  ultimately show ?thesis
    using assms(1) unfolding view_ok_def
    by (intro exI[of _ vs]) (auto simp: app_entry_filter_def Let_def vs_def cmp_def kept_def table_ok_def)
qed

lemma table_ok_filter [simp]: "table_ok (app_entry_filter qsort f s) = table_ok s"
  by (simp add: table_ok_def app_entry_filter_def Let_def)

lemma sortable_filter [simp]: "sortable (app_entry_filter qsort f s) = sortable s"
  by (simp add: sortable_def app_entry_filter_def Let_def entry_of_def)

lemma table_ok_drop:
  assumes "table_ok s" and "i < length (entries_all s)" and "entries_all s ! i = Some p"
  shows "table_ok (drop_entry i p s)"
proof -
  have "pointers (entries_all s) = pointers (take i (entries_all s)) @ p # pointers (drop (Suc i) (entries_all s))"
    using pointers_split[OF assms(2)] assms(3) by simp
  with assms show ?thesis
    by (auto simp: table_ok_def drop_entry_def pointers_update)
qed

lemma table_ok_insert:
  assumes "table_ok s" and "entry_count_all s < MAX_ENTRIES" and "ae_heap s p = Some e"
    and "p \<notin> set (pointers (entries_all s))" and "ae_size e \<noteq> 0" and "ae_size e \<le> LD_MAX_SIZE"
  shows "\<exists>s'. insert_entry p s = (True, s') \<and> table_ok s'"
proof -
  have "None \<in> set (entries_all s)"
    using assms(1,2) by (intro pointers_full) (simp add: table_ok_def)
  then obtain i where i: "first_index (\<lambda>x. x = None) (entries_all s) = Some i"
    using first_index_None[of "\<lambda>x. x = None" "entries_all s"] by fastforce
  then have "i < length (entries_all s)" "entries_all s ! i = None" using first_index_Some by fastforce+
  with assms show ?thesis
    using pointers_split[of i "entries_all s"]
    by (auto simp: insert_entry_def i table_ok_def pointers_update)
qed

definition ae_ok :: "ae_state \<Rightarrow> bool" where
  "ae_ok s \<longleftrightarrow> table_ok s \<and> view_ok s"

lemma ae_ok_tables: "ae_ok s \<Longrightarrow> table_ok s"
  by (simp add: ae_ok_def)

lemma find_boot_bound: "find_boot fs dir = Some (ty, n) \<Longrightarrow> ty = AET_THEME \<Longrightarrow> n \<le> MAX_THEME_ZIP_SIZE"
  by (auto simp: find_boot_def split: option.splits if_splits)

lemma load_single_size:
  assumes "load_single fs dir = Some e"
  shows "ae_size e \<noteq> 0 \<and> ae_size e \<le> LD_MAX_SIZE \<and> dirname e = dir"
proof -
  obtain ty n where n: "find_boot fs dir = Some (ty, n)" "n \<noteq> 0" "n \<le> unat LD_MAX_SIZE"
    and e: "ae_size e = of_nat n" "dirname e = dir"
    using assms by (auto simp: load_single_def split: option.splits if_splits)
  have "n < 4294967296" using n(3) by (simp add: ld_addr_values)
  then have "unat (ae_size e) = n" by (simp add: e)
  then show ?thesis using n e(2) by (auto simp: word_le_nat_alt)
qed

lemma load_single_ok:
  assumes "table_ok s" and "alloc_ok alloc" and "app_entry_load_single alloc fs dir s = (r, t)"
  shows "table_ok t" and "entries t = entries s \<and> entry_count t = entry_count s
      \<and> entries_all t = entries_all s \<and> entry_count_all t = entry_count_all s"
    and "r = None \<Longrightarrow> t = s"
    and "r = Some p \<Longrightarrow> p \<notin> set (pointers (entries_all t)) \<and>
          (\<exists>e. ae_heap t p = Some e \<and> ae_size e \<noteq> 0 \<and> ae_size e \<le> LD_MAX_SIZE)"
proof -
  have "ae_heap s (alloc (ae_heap s)) = None"
    using assms(1,2) by (simp add: table_ok_def alloc_ok_def)
  then have fresh: "alloc (ae_heap s) \<notin> set (pointers (entries_all s))"
    using assms(1) by (auto simp: table_ok_def)
  show "table_ok t" "r = Some p \<Longrightarrow> p \<notin> set (pointers (entries_all t)) \<and>
      (\<exists>e. ae_heap t p = Some e \<and> ae_size e \<noteq> 0 \<and> ae_size e \<le> LD_MAX_SIZE)"
    using assms(1,3) fresh load_single_size[of fs dir]
    by (auto simp: app_entry_load_single_def Let_def table_ok_def split: option.splits)
  show "entries t = entries s \<and> entry_count t = entry_count s
      \<and> entries_all t = entries_all s \<and> entry_count_all t = entry_count_all s"
    and "r = None \<Longrightarrow> t = s"
    using assms(3) by (auto simp: app_entry_load_single_def Let_def split: option.splits)
qed

lemma table_ok_free: "table_ok s \<Longrightarrow> table_ok (app_entries_free s)"
proof -
  assume "table_ok s"
  moreover have "dom (heap_free (entries_all s) (ae_heap s)) \<subseteq> dom (ae_heap s)"
    by (auto simp: heap_free_eq split: if_splits)
  ultimately show ?thesis
    by (auto simp: table_ok_def app_entries_free_def intro: finite_subset)
qed

lemma view_ok_free: "view_ok (app_entries_free s)"
  unfolding view_ok_def by (intro exI[of _ "[]"]) (simp add: app_entries_free_def)

text \<open>While a directory is being read, the entries loaded so far fill the table from the bottom.\<close>

lemma load_dirs_ok:
  assumes "table_ok s" and "alloc_ok alloc" and "entry_count_all s < MAX_ENTRIES"
    and "entries_all s = map Some ps @ replicate (MAX_ENTRIES - length ps) None"
  shows "table_ok (load_dirs alloc fs ds s)"
  using assms
proof (induction ds arbitrary: s ps)
  case (Cons d ds)
  obtain name is_dir where d: "d = (name, is_dir)" by (cases d)
  show ?case
  proof (cases "(name = [] \<or> hd name = CHR ''.'') \<or> \<not> is_dir")
    case True
    then show ?thesis using Cons by (auto simp: d)
  next
    case False
    obtain r t where rt: "app_entry_load_single alloc fs name s = (r, t)" by fastforce
    note t = load_single_ok[OF Cons.prems(1,2) rt]
    show ?thesis
    proof (cases r)
      case None
      then show ?thesis using False t(3) Cons by (simp add: d rt)
    next
      case (Some p)
      define u where "u = t\<lparr>entries_all := (entries_all t)[entry_count_all t := Some p],
                          entry_count_all := Suc (entry_count_all t)\<rparr>"
      have pointers_map: "pointers (map Some ps) = ps" for ps by (induction ps) auto
      have n: "entry_count_all s = length ps"
        using Cons.prems(1,4) by (simp add: table_ok_def pointers_append pointers_map)
      have rest: "MAX_ENTRIES - length ps = Suc (MAX_ENTRIES - Suc (length ps))"
        using Cons.prems(3) n by simp
      have all: "entries_all u = map Some (ps @ [p]) @ replicate (MAX_ENTRIES - length (ps @ [p])) None"
        using t(2) Cons.prems(4) n unfolding rest by (simp add: u_def list_update_append)
      have "table_ok u"
        using t(1) t(4)[OF Some] t(2) n Cons.prems(3,4) all
        by (auto simp: table_ok_def pointers_append pointers_map u_def)
      then show ?thesis
        using False Some Cons.IH[OF \<open>table_ok u\<close> Cons.prems(2) _ all]
        by (auto simp: d rt u_def Let_def)
    qed
  qed
qed simp

lemma ae_ok_filter: "table_ok s \<Longrightarrow> qsort_ok qsort \<Longrightarrow> sortable s \<Longrightarrow> ae_ok (app_entry_filter qsort f s)"
  by (simp add: ae_ok_def view_ok_filter)

lemma ae_ok_load_all:
  assumes "table_ok s" and "qsort_ok qsort" and "alloc_ok alloc" and "sortable (app_entry_load_all qsort alloc fs s)"
  shows "ae_ok (app_entry_load_all qsort alloc fs s)"
proof -
  have "table_ok (load_dirs alloc fs ds (app_entries_free s))" for ds
    using load_dirs_ok[OF table_ok_free[OF assms(1)] assms(3), of "[]"]
    by (simp add: app_entries_free_def MAX_ENTRIES_def)
  then show ?thesis
    using assms ae_ok_filter table_ok_free view_ok_free
    by (auto simp: app_entry_load_all_def Let_def ae_ok_def view_ok_filter split: option.splits)
qed

lemma ae_ok_remove:
  assumes "ae_ok s" and "qsort_ok qsort" and "sortable (snd (app_entry_remove qsort app s))"
  shows "ae_ok (snd (app_entry_remove qsort app s))"
proof (cases "first_index (\<lambda>x. x = Some app) (entries_all s)")
  case (Some i)
  then have "table_ok (drop_entry i app s)"
    using first_index_Some[OF Some] assms(1) by (intro table_ok_drop) (auto simp: ae_ok_def)
  then show ?thesis using Some assms(2,3) by (simp add: app_entry_remove_def Let_def ae_ok_filter)
qed (use assms in \<open>simp add: app_entry_remove_def\<close>)

lemma remove_same_dir_ok:
  assumes "table_ok s" and "remove_same_dir dir s = (b, t)"
  shows "table_ok t" and "\<not> b \<Longrightarrow> t = s"
  using assms first_index_Some[of _ "entries_all s"]
  by (auto simp: remove_same_dir_def split: option.splits intro!: table_ok_drop)

text \<open>What is added, before the view is made anew.\<close>

lemma app_entry_add_cases:
  assumes "ae_ok s" and "alloc_ok alloc"
  shows "\<exists>t b. table_ok t \<and> (\<not> b \<longrightarrow> ae_ok t) \<and> current_sort t = current_sort s
    \<and> snd (app_entry_add qsort alloc fs dir s) = (if b then app_entry_filter qsort (current_filter t) t else t)"
proof -
  obtain rm s1 where s1: "remove_same_dir dir s = (rm, s1)" by fastforce
  have t1: "table_ok s1" and same: "\<not> rm \<Longrightarrow> s1 = s"
    using remove_same_dir_ok[OF _ s1] assms(1) by (auto simp: ae_ok_def)
  have c1: "current_sort s1 = current_sort s"
    using s1 by (auto simp: remove_same_dir_def drop_entry_def split: option.splits)
  show ?thesis
  proof (cases "entry_count_all s1 \<ge> MAX_ENTRIES")
    case True
    then show ?thesis using s1 same assms(1) t1 c1 by (intro exI[of _ s1] exI[of _ rm]) (simp add: app_entry_add_def)
  next
    case False
    obtain r t where rt: "app_entry_load_single alloc fs dir s1 = (r, t)" by fastforce
    note t = load_single_ok[OF t1 assms(2) rt]
    show ?thesis
    proof (cases r)
      case None
      then show ?thesis
        using False s1 same assms(1) t1 t(3) c1 by (intro exI[of _ s1] exI[of _ rm]) (simp add: app_entry_add_def rt)
    next
      case (Some p)
      then obtain u where u: "insert_entry p t = (True, u)" "table_ok u"
        using table_ok_insert[OF t(1), of p] t(2,4) False by auto
      have "current_sort t = current_sort s1" using rt by (auto simp: app_entry_load_single_def Let_def split: option.splits)
      then have "current_sort u = current_sort s" using u(1) c1 by (auto simp: insert_entry_def split: option.splits)
      then show ?thesis
        using False s1 Some u by (intro exI[of _ u] exI[of _ True]) (simp add: app_entry_add_def rt)
    qed
  qed
qed

lemma ae_ok_add:
  assumes "ae_ok s" and "qsort_ok qsort" and "alloc_ok alloc" and "sortable (snd (app_entry_add qsort alloc fs dir s))"
  shows "ae_ok (snd (app_entry_add qsort alloc fs dir s))"
proof -
  obtain t b where t: "table_ok t" "\<not> b \<longrightarrow> ae_ok t"
      "snd (app_entry_add qsort alloc fs dir s) = (if b then app_entry_filter qsort (current_filter t) t else t)"
    using app_entry_add_cases[OF assms(1,3), of qsort fs dir] by blast
  then have "b \<Longrightarrow> sortable t" using assms(4) by simp
  then show ?thesis using t ae_ok_filter[OF t(1) assms(2)] by simp
qed

text \<open>The rest of the state is invisible to the tables.\<close>

lemma tables_frame [simp]:
  "ae_ok (s\<lparr>device_active := a\<rparr>) = ae_ok s" "ae_ok (s\<lparr>device_prefered := a\<rparr>) = ae_ok s"
  "ae_ok (s\<lparr>last_status := b\<rparr>) = ae_ok s" "ae_ok (s\<lparr>ta_running := c\<rparr>) = ae_ok s"
  "ae_ok (s\<lparr>ta_cmd := d\<rparr>) = ae_ok s" "ae_ok (s\<lparr>ta_action := e\<rparr>) = ae_ok s"
  "ae_ok (s\<lparr>ta_status := b\<rparr>) = ae_ok s" "ae_ok (s\<lparr>ta_umount := c\<rparr>) = ae_ok s"
  "ae_ok (s\<lparr>ta_mount := a\<rparr>) = ae_ok s" "ae_ok (s\<lparr>ta_loading := c\<rparr>) = ae_ok s"
  "ae_ok (s\<lparr>settings_sort := f\<rparr>) = ae_ok s" "ae_ok (s\<lparr>settings_device := a\<rparr>) = ae_ok s"
  "ae_ok (s\<lparr>dev_calls := g\<rparr>) = ae_ok s" "ae_ok (s\<lparr>current_sort := f\<rparr>) = ae_ok s"
  "ae_ok (s\<lparr>cmp_descending := c\<rparr>) = ae_ok s" "ae_ok (s\<lparr>current_filter := i\<rparr>) = ae_ok s"
  by (simp_all add: ae_ok_def table_ok_def view_ok_def)

lemma sortable_frame [simp]:
  "sortable (s\<lparr>ta_cmd := d\<rparr>) = sortable s" "sortable (s\<lparr>ta_action := e\<rparr>) = sortable s" "sortable (s\<lparr>ta_loading := c\<rparr>) = sortable s"
  by (simp_all add: sortable_def entry_of_def)

lemma ae_ok_dev [simp]: "ae_ok (snd (dev w e s)) = ae_ok s"
  by (simp add: dev_def)

lemma ae_ok_mount [simp]: "ae_ok (snd (mount w i s)) = ae_ok s"
  by (simp add: mount_def dev_def Let_def)

lemma mount_ok: "mount w i s = (b, t) \<Longrightarrow> ae_ok t = ae_ok s"
  using ae_ok_mount[of w i s] by simp

lemma dev_ok: "dev w e s = (b, t) \<Longrightarrow> ae_ok t = ae_ok s"
  using ae_ok_dev[of w e s] by simp

lemma ae_ok_mount_any [simp]: "ae_ok (mount_any w is s) = ae_ok s"
  by (induction w "is" s rule: mount_any.induct) (auto split: prod.splits dest: mount_ok)

lemma ae_ok_requested [simp]: "ae_ok (scan_requested w s) = ae_ok s"
  by (auto simp: scan_requested_def split: prod.splits dest: mount_ok)

lemma ae_ok_prefered [simp]: "ae_ok (scan_prefered w s) = ae_ok s"
  by (auto simp: scan_prefered_def split: prod.splits dest: mount_ok)

lemma ae_ok_lost [simp]: "ae_ok (scan_lost w s) = ae_ok s"
  by (auto simp: scan_lost_def Let_def dev_def)

lemma ae_ok_scan:
  assumes "ae_ok s" and "qsort_ok qsort" and "alloc_ok alloc" and "sortable (ae_scan w qsort alloc fs s)"
  shows "ae_ok (ae_scan w qsort alloc fs s)"
proof -
  have "ae_ok (scan_load w qsort alloc fs t)" if "ae_ok t" "sortable (scan_load w qsort alloc fs t)" for t
  proof -
    let ?t = "snd (dev w (Chdir (device_names ! nat (device_active t) @ '':/'')) (t\<lparr>ta_loading := True\<rparr>))"
    have "ae_ok ?t" using that(1) by simp
    moreover have "sortable (app_entry_load_all qsort alloc fs ?t)" using that(2) by (simp add: scan_load_def Let_def)
    ultimately have "ae_ok (app_entry_load_all qsort alloc fs ?t)"
      by (intro ae_ok_load_all[OF ae_ok_tables assms(2,3)])
    then show ?thesis by (simp add: scan_load_def Let_def)
  qed
  with assms(1,4) show ?thesis by (simp add: ae_scan_def Let_def split: if_splits)
qed

lemma ae_ok_poll_device [simp]: "ae_ok (poll_device w i s) = ae_ok s"
  by (auto simp: poll_device_def set_status_def dev_def Let_def)

lemma ae_ok_poll [simp]: "ae_ok (ae_poll w s) = ae_ok s"
proof -
  have "ae_ok (fold (poll_device w) is s) = ae_ok s" for "is"
    by (induction "is" arbitrary: s) simp_all
  then show ?thesis by (simp add: ae_poll_def)
qed

lemma ae_ok_wake:
  "ae_ok s \<Longrightarrow> qsort_ok qsort \<Longrightarrow> alloc_ok alloc \<Longrightarrow> ta_cmd s = AE_CMD_SCAN \<longrightarrow> sortable (ae_wake w qsort alloc fs s)
     \<Longrightarrow> ae_ok (ae_wake w qsort alloc fs s)"
  by (auto simp: ae_wake_def ae_ok_scan split: ae_cmd.splits)

section \<open>Reachable states\<close>

text \<open>
  One step: a wake-up of the thread or a call of the main thread. Where the applications may be sorted, the comparison has to
  order them, since \<^verbatim>\<open>qsort\<close> may do anything otherwise; by name and by size it does (lemma \<open>sortable_sorts\<close>).
\<close>

inductive ae_step :: "dev_world \<Rightarrow> sorter \<Rightarrow> allocator \<Rightarrow> ae_state \<Rightarrow> ae_state \<Rightarrow> bool"
  for w qsort alloc where
  wake: "ta_cmd s = AE_CMD_SCAN \<longrightarrow> sortable (ae_wake w qsort alloc fs s) \<Longrightarrow> ae_step w qsort alloc s (ae_wake w qsort alloc fs s)"
| remove: "sortable (snd (app_entry_remove qsort app s)) \<Longrightarrow> ae_step w qsort alloc s (snd (app_entry_remove qsort app s))"
| add: "sortable (snd (app_entry_add qsort alloc fs dir s)) \<Longrightarrow> ae_step w qsort alloc s (snd (app_entry_add qsort alloc fs dir s))"
| command: "ae_step w qsort alloc s (app_entry_command cmd locked s)"
| action: "ae_step w qsort alloc s (snd (app_entry_action locked s))"
| set_sort: "ae_step w qsort alloc s (app_entry_set_sort srt s)"
| set_prefered: "ae_step w qsort alloc s (app_entry_set_prefered d s)"
| set_device: "ae_step w qsort alloc s (app_entry_set_device d s)"
| deinit: "ae_step w qsort alloc s (app_entry_deinit w try_lock s)"

inductive ae_reachable :: "dev_world \<Rightarrow> sorter \<Rightarrow> allocator \<Rightarrow> ae_state \<Rightarrow> bool"
  for w qsort alloc where
  start: "ae_heap s = Map.empty \<Longrightarrow> entry_count_all s = 0 \<Longrightarrow> entry_count s = 0
    \<Longrightarrow> ae_reachable w qsort alloc (app_entry_init mutex_ok cond_ok thread_ok s)"
| step: "ae_reachable w qsort alloc s \<Longrightarrow> ae_step w qsort alloc s t \<Longrightarrow> ae_reachable w qsort alloc t"

lemma ae_ok_init:
  assumes "ae_heap s = Map.empty" and "entry_count_all s = 0" and "entry_count s = 0"
  shows "ae_ok (app_entry_init m c t s)"
proof -
  have "table_ok (app_entry_init m c t s)"
    using assms by (simp add: table_ok_def app_entry_init_def ae_start_def Let_def)
  moreover have "view_ok (app_entry_init m c t s)"
    using assms unfolding view_ok_def
    by (intro exI[of _ "[]"]) (simp add: app_entry_init_def ae_start_def Let_def)
  ultimately show ?thesis by (simp add: ae_ok_def)
qed

lemma ae_ok_deinit: "ae_ok s \<Longrightarrow> ae_ok (app_entry_deinit w try_lock s)"
proof -
  assume s: "ae_ok s"
  then have "ae_ok (s\<lparr>ta_cmd := AE_CMD_EXIT, ta_running := False\<rparr>)" by simp
  then have "ae_ok (app_entries_free (s\<lparr>ta_cmd := AE_CMD_EXIT, ta_running := False\<rparr>))"
    using table_ok_free view_ok_free by (simp add: ae_ok_def del: tables_frame)
  with s show ?thesis by (simp add: app_entry_deinit_def Let_def)
qed

lemma ae_ok_step:
  assumes "ae_step w qsort alloc s t" and "ae_ok s" and "qsort_ok qsort" and "alloc_ok alloc"
  shows "ae_ok t"
  using assms
proof (cases rule: ae_step.cases)
  case (set_sort srt)
  then show ?thesis using assms(2) by (auto simp: app_entry_set_sort_def Let_def split: app_sort.splits)
qed (auto simp: ae_ok_wake ae_ok_remove ae_ok_add app_entry_command_def app_entry_action_def
    app_entry_set_prefered_def app_entry_set_device_def ae_ok_deinit Let_def)

lemma ae_reachable_ok:
  "ae_reachable w qsort alloc s \<Longrightarrow> qsort_ok qsort \<Longrightarrow> alloc_ok alloc \<Longrightarrow> ae_ok s"
  by (induction rule: ae_reachable.induct) (auto intro: ae_ok_init ae_ok_step)

text \<open>A \<^verbatim>\<open>qsort\<close> and a \<^verbatim>\<open>malloc\<close> that keep their promises exist.\<close>

fun insert_by :: "('a \<Rightarrow> 'a \<Rightarrow> int) \<Rightarrow> 'a \<Rightarrow> 'a list \<Rightarrow> 'a list" where
  "insert_by cmp x [] = [x]"
| "insert_by cmp x (y # ys) = (if cmp x y \<le> 0 then x # y # ys else y # insert_by cmp x ys)"

definition sort_by :: "('a \<Rightarrow> 'a \<Rightarrow> int) \<Rightarrow> 'a list \<Rightarrow> 'a list" where
  "sort_by cmp xs = foldr (insert_by cmp) xs []"

lemma mset_insert_by [simp]: "mset (insert_by cmp x ys) = add_mset x (mset ys)"
  by (induction ys) auto

lemma set_insert_by [simp]: "set (insert_by cmp x ys) = insert x (set ys)"
  by (induction ys) auto

lemma set_sort_by [simp]: "set (sort_by cmp xs) = set xs"
  by (induction xs) (simp_all add: sort_by_def)

lemma consistent_trans:
  "consistent cmp A \<Longrightarrow> x \<in> A \<Longrightarrow> y \<in> A \<Longrightarrow> z \<in> A \<Longrightarrow> cmp x y \<le> 0 \<Longrightarrow> cmp y z \<le> 0 \<Longrightarrow> cmp x z \<le> 0"
  unfolding consistent_def by blast

lemma consistent_total: "consistent cmp A \<Longrightarrow> x \<in> A \<Longrightarrow> y \<in> A \<Longrightarrow> cmp x y \<le> 0 \<or> cmp y x \<le> 0"
  unfolding consistent_def by (metis linorder_not_less order_less_imp_le)

lemma insert_by_sorted:
  assumes "consistent cmp (insert x (set ys))" and "sorted_wrt (\<lambda>x y. cmp x y \<le> 0) ys"
  shows "sorted_wrt (\<lambda>x y. cmp x y \<le> 0) (insert_by cmp x ys)"
  using assms
proof (induction ys)
  case (Cons y ys)
  note c = Cons.prems(1)
  have sub: "consistent cmp (insert x (set ys))" by (rule consistent_mono[OF c]) auto
  have rest: "\<forall>z\<in>set ys. cmp y z \<le> 0" "sorted_wrt (\<lambda>x y. cmp x y \<le> 0) ys" using Cons.prems(2) by simp_all
  show ?case
  proof (cases "cmp x y \<le> 0")
    case True
    then have "\<forall>z\<in>set ys. cmp x z \<le> 0"
      using consistent_trans[OF c, of x y] rest(1) by simp
    with True rest show ?thesis by simp
  next
    case False
    then have "cmp y x \<le> 0" using consistent_total[OF c, of x y] by simp
    with False rest Cons.IH[OF sub rest(2)] show ?thesis by simp
  qed
qed simp

lemma sort_by_ok: "qsort_ok sort_by"
proof -
  have "mset (sort_by cmp xs) = mset xs" for cmp :: "ptr \<Rightarrow> ptr \<Rightarrow> int" and xs
    by (induction xs) (simp_all add: sort_by_def)
  moreover have "consistent cmp (set xs) \<Longrightarrow> sorted_wrt (\<lambda>x y. cmp x y \<le> 0) (sort_by cmp xs)"
    for cmp :: "ptr \<Rightarrow> ptr \<Rightarrow> int" and xs
  proof (induction xs)
    case (Cons x xs)
    have "consistent cmp (set xs)" using Cons.prems by (rule consistent_mono) auto
    moreover have "consistent cmp (insert x (set (sort_by cmp xs)))" using Cons.prems by simp
    ultimately show ?case
      using insert_by_sorted[of cmp x "sort_by cmp xs"] Cons.IH by (simp add: sort_by_def)
  qed (simp add: sort_by_def)
  ultimately show ?thesis by (simp add: qsort_ok_def)
qed

definition least_free :: allocator where
  "least_free h = (LEAST p. h p = None)"

lemma least_free_ok: "alloc_ok least_free"
proof -
  have "h (least_free h) = None" if "finite (dom h)" for h :: "ptr \<Rightarrow> app_entry option"
  proof -
    have "\<exists>p. p \<notin> dom h" using that by (meson ex_new_if_finite infinite_UNIV_nat)
    then have "\<exists>p. h p = None" by (simp add: domIff)
    then show ?thesis unfolding least_free_def by (rule LeastI_ex)
  qed
  then show ?thesis by (simp add: alloc_ok_def)
qed

definition boot_state :: ae_state where
  "boot_state = \<lparr>entries_all = [], entry_count_all = 0, entries = [], entry_count = 0, ae_heap = Map.empty,
     current_filter = APP_FILTER_ALL, current_sort = APP_SORT_NAME, cmp_descending = False,
     device_active = -1, device_prefered = -1, last_status = replicate 4 False, ta_running = False,
     ta_cmd = AE_CMD_IDLE, ta_action = AE_ACT_NONE, ta_status = replicate 4 False, ta_umount = False,
     ta_mount = -1, ta_loading = False, settings_sort = APP_SORT_NAME, settings_device = -1, dev_calls = []\<rparr>"

definition one_app :: app_fs where
  "one_app = \<lparr>fs_stat = (\<lambda>f. if f = ''/apps/a/boot.dol'' then Some 100 else None),
     fs_meta = (\<lambda>_. None), fs_icon = (\<lambda>_. None), fs_apps = Some [(''a'', True)]\<rparr>"

section \<open>The order of the view\<close>

text \<open>A comparison that follows a key into a linear order is one \<^verbatim>\<open>qsort\<close> can use.\<close>

lemma consistent_key:
  fixes key :: "'a \<Rightarrow> 'b :: linorder"
  assumes "\<And>x y. x \<in> A \<Longrightarrow> y \<in> A \<Longrightarrow> (cmp x y < 0 \<longleftrightarrow> key x < key y) \<and> (cmp x y > 0 \<longleftrightarrow> key y < key x)"
  shows "consistent cmp A"
proof -
  have "cmp x y \<le> 0 \<longleftrightarrow> key x \<le> key y" if "x \<in> A" "y \<in> A" for x y
    using assms[OF that] by (simp add: not_less flip: not_less)
  with assms show ?thesis unfolding consistent_def by (meson order_trans)
qed

definition ckey :: "string \<Rightarrow> int list" where
  "ckey s = map (int \<circ> lower) (takeWhile (\<lambda>c. lower c \<noteq> 0) s)"

lemma strcasecmp_key:
  "(strcasecmp a b < 0 \<longleftrightarrow> ckey a < ckey b) \<and> (strcasecmp a b > 0 \<longleftrightarrow> ckey b < ckey a)"
  by (induction a b rule: strcasecmp.induct) (auto simp: ckey_def)

text \<open>Entries with metadata come first; by name, unnamed ones after the named.\<close>

definition entry_key :: "app_sort \<Rightarrow> app_entry \<Rightarrow> int list" where
  "entry_key srt e =
     (case meta e of
        None \<Rightarrow> 2 # ckey (dirname e)
      | Some m \<Rightarrow>
          if srt = APP_SORT_SIZE then [0, - uint (ae_size e)]
          else (case meta_name m of None \<Rightarrow> 1 # ckey (dirname e) | Some n \<Rightarrow> 0 # ckey n))"

lemma size_difference:
  assumes "a \<le> LD_MAX_SIZE" and "b \<le> LD_MAX_SIZE"
  shows "sint (b - a) = uint b - uint a"
proof -
  have u: "uint a \<le> 20105215" "uint b \<le> 20105215"
    using assms by (simp_all add: word_le_def ld_addr_values)
  have "uint (b - a) = (uint b - uint a) mod 4294967296" by (simp add: uint_word_ariths)
  then show ?thesis
  proof (cases "a \<le> b")
    case True
    then have "uint b - uint a < 2147483648" "uint (b - a) = uint b - uint a"
      using u uint_ge_0[of a] \<open>uint (b - a) = _\<close> mod_pos_pos_trivial[of "uint b - uint a" 4294967296]
      unfolding word_le_def by linarith+
    then show ?thesis by (simp add: sint32)
  next
    case False
    then have "(uint b - uint a) mod 4294967296 = uint b - uint a + 4294967296"
    proof -
      have "0 \<le> uint b - uint a + 4294967296" "uint b - uint a + 4294967296 < 4294967296"
        using False u uint_ge_0[of b] unfolding word_le_def by linarith+
      then show ?thesis using mod_pos_pos_trivial[of "uint b - uint a + 4294967296" 4294967296] by simp
    qed
    moreover have "\<not> uint b - uint a + 4294967296 < 2147483648" using u uint_ge_0[of b] by linarith
    ultimately show ?thesis using \<open>uint (b - a) = _\<close> by (simp add: sint32)
  qed
qed

lemma cmp_entries_key:
  assumes "ae_size a \<le> LD_MAX_SIZE" and "ae_size b \<le> LD_MAX_SIZE" and "srt \<noteq> APP_SORT_DATE"
  shows "(cmp_entries srt a b < 0 \<longleftrightarrow> entry_key srt a < entry_key srt b)
    \<and> (cmp_entries srt a b > 0 \<longleftrightarrow> entry_key srt b < entry_key srt a)"
  using assms size_difference[OF assms(1,2)]
  by (auto simp: cmp_entries_def entry_key_def strcasecmp_key split: option.splits)

lemma cmp_app_entry_consistent:
  assumes "\<And>p. p \<in> A \<Longrightarrow> ae_size (f p) \<le> LD_MAX_SIZE" and "srt \<noteq> APP_SORT_DATE"
  shows "consistent (\<lambda>p q. cmp_app_entry desc srt (f p) (f q)) A"
proof (cases desc)
  case False
  then show ?thesis
    using assms by (intro consistent_key[where key = "\<lambda>p. entry_key srt (f p)"])
      (simp add: cmp_app_entry_def cmp_entries_key)
next
  case True
  have "consistent (\<lambda>p q. cmp_entries srt (f p) (f q)) A"
    using assms by (intro consistent_key[where key = "\<lambda>p. entry_key srt (f p)"])
      (simp add: cmp_entries_key)
  then have "consistent (\<lambda>p q. cmp_entries srt (f q) (f p)) A" unfolding consistent_def by blast
  then show ?thesis using True by (simp add: cmp_app_entry_def)
qed

lemma sortable_sorts:
  assumes "table_ok s" and "current_sort s \<noteq> APP_SORT_DATE"
  shows "sortable s"
  unfolding sortable_def using assms by (intro cmp_app_entry_consistent) (auto simp: table_ok_def entry_of_def)

text \<open>
  C18: however the thread's wake-ups and the main thread's calls interleave, as long as the comparison that is set orders the
  applications whenever they are sorted (it does by name and by size, not by date), the visible list is packed at the front
  of its table, has no duplicates, and each of its pointers is a live record of the full table whose size is not 0 and fits
  the load region. No freed record is ever shown.
\<close>

theorem ae_view_live:
  assumes "ae_reachable w qsort alloc s" and "qsort_ok qsort" and "alloc_ok alloc"
  shows "\<exists>ps. entries s = map Some ps @ replicate (MAX_ENTRIES - length ps) None \<and> entry_count s = length ps
    \<and> distinct ps \<and> (\<forall>p\<in>set ps. Some p \<in> set (entries_all s)
        \<and> (\<exists>e. ae_heap s p = Some e \<and> ae_size e \<noteq> 0 \<and> ae_size e \<le> LD_MAX_SIZE))"
proof -
  have "table_ok s" "view_ok s" using ae_reachable_ok[OF assms] by (simp_all add: ae_ok_def)
  then show ?thesis unfolding view_ok_def table_ok_def by (auto simp: set_pointers)
qed

theorem ae_view_live_witness:
  "\<exists>ps. let s = snd (app_entry_add sort_by least_free one_app ''a'' (app_entry_init True True True boot_state))
    in entries s = map Some ps @ replicate (MAX_ENTRIES - length ps) None \<and> distinct ps"
proof -
  let ?s = "app_entry_init True True True boot_state"
  have r: "ae_reachable (\<lambda>_ _. True) sort_by least_free ?s"
    by (rule ae_reachable.start) (simp_all add: boot_state_def)
  have "ae_ok ?s" by (rule ae_ok_init) (simp_all add: boot_state_def)
  moreover have "current_sort ?s \<noteq> APP_SORT_DATE" by (simp add: app_entry_init_def ae_start_def boot_state_def)
  ultimately have "sortable (snd (app_entry_add sort_by least_free one_app ''a'' ?s))"
    using app_entry_add_cases[OF _ least_free_ok, of ?s sort_by one_app "''a''"] sortable_sorts sortable_filter by metis
  from ae_view_live[OF ae_reachable.step[OF r ae_step.add[OF this]] sort_by_ok least_free_ok]
  show ?thesis unfolding Let_def by blast
qed

text \<open>
  After the view is rebuilt by name or by size, its entries are exactly those of the table that
  pass the filter, and each is not above the next one in the chosen order, as the comparison function
  is consistent on entries that fit the load region (the 32-bit size difference never overflows).
\<close>

lemma view_sorted:
  assumes "table_ok s" and "qsort_ok qsort" and "current_sort s \<noteq> APP_SORT_DATE"
  shows "\<exists>ps. take (entry_count (app_entry_filter qsort f s)) (entries (app_entry_filter qsort f s)) = map Some ps
    \<and> mset ps = mset (filter (\<lambda>p. filter_passes f (entry_of s p)) (pointers (entries_all s)))
    \<and> sorted_wrt (\<lambda>p q. cmp_app_entry (cmp_descending s) (current_sort s) (entry_of s p) (entry_of s q) \<le> 0) ps"
proof -
  let ?cmp = "\<lambda>p q. cmp_app_entry (cmp_descending s) (current_sort s) (entry_of s p) (entry_of s q)"
  define vs where "vs = (if kept f s = [] then [] else qsort ?cmp (kept f s))"
  have "ae_size (entry_of s p) \<le> LD_MAX_SIZE" if "p \<in> set (kept f s)" for p
    using that assms(1) by (auto simp: kept_def table_ok_def entry_of_def)
  then have "consistent ?cmp (set (kept f s))" using assms(3) by (rule cmp_app_entry_consistent)
  then have vs: "mset vs = mset (kept f s)" "sorted_wrt (\<lambda>p q. ?cmp p q \<le> 0) vs"
    using assms(2) by (simp_all add: vs_def qsort_ok_def)
  then have "length vs = length (kept f s)" by (metis size_mset)
  moreover have "entries (app_entry_filter qsort f s) = map Some vs @ replicate (MAX_ENTRIES - length vs) None"
    and "entry_count (app_entry_filter qsort f s) = length (kept f s)"
    by (simp_all add: app_entry_filter_def Let_def vs_def)
  ultimately show ?thesis
    using vs unfolding kept_def [symmetric] by (intro exI[of _ vs]) simp
qed

text \<open>
  By date the comparison answers -1 both ways for two entries of the same day, so it is not a
  comparison \<^verbatim>\<open>qsort\<close> gives any promise for.
\<close>

lemma date_ties:
  assumes "meta a = Some m" and "meta b = Some n" and "release_date m = release_date n" and "release_date m \<noteq> 0"
  shows "cmp_entries APP_SORT_DATE a b = -1" and "cmp_entries APP_SORT_DATE b a = -1"
  using assms by (simp_all add: cmp_entries_def)

lemma view_sorted_example:
  "\<exists>ps. map Some ps = take (entry_count (app_entry_filter sort_by APP_FILTER_ALL (app_entry_init True True True boot_state)))
      (entries (app_entry_filter sort_by APP_FILTER_ALL (app_entry_init True True True boot_state)))"
proof -
  have "table_ok (app_entry_init True True True boot_state)"
    by (rule ae_ok_tables[OF ae_ok_init]) (simp_all add: boot_state_def)
  moreover have "current_sort (app_entry_init True True True boot_state) \<noteq> APP_SORT_DATE"
    by (simp add: app_entry_init_def ae_start_def boot_state_def)
  ultimately show ?thesis using view_sorted[OF _ sort_by_ok] by metis
qed

section \<open>Switching devices\<close>

text \<open>Loading the list leaves the device state alone.\<close>

definition device_view :: "ae_state \<Rightarrow> int \<times> bool \<times> int \<times> bool" where
  "device_view s = (device_active s, ta_umount s, ta_mount s, ta_running s)"

lemma load_single_device: "app_entry_load_single alloc fs d s = (r, t) \<Longrightarrow> device_view t = device_view s"
  by (auto simp: app_entry_load_single_def Let_def device_view_def split: option.splits)

lemma load_dirs_view: "device_view (load_dirs alloc fs ds s) = device_view s"
proof (induction ds arbitrary: s)
  case (Cons d ds)
  obtain name b where d: "d = (name, b)" by (cases d)
  obtain r t where rt: "app_entry_load_single alloc fs name s = (r, t)" by fastforce
  have "device_view t = device_view s" using rt by (rule load_single_device)
  moreover have "device_view (t\<lparr>entries_all := x, entry_count_all := n\<rparr>) = device_view t" for x n
    by (simp add: device_view_def)
  ultimately show ?case using Cons.IH by (cases r) (simp_all add: d rt Let_def)
qed simp

lemma load_all_view: "device_view (app_entry_load_all q alloc fs s) = device_view s"
proof -
  have "device_view (app_entry_filter q f t) = device_view t" for f t
    by (simp add: app_entry_filter_def Let_def device_view_def)
  moreover have "device_view (app_entries_free s) = device_view s"
    by (simp add: app_entries_free_def device_view_def)
  ultimately show ?thesis
    by (simp add: app_entry_load_all_def Let_def load_dirs_view split: option.splits)
qed

lemma load_all_device [simp]: "device_active (app_entry_load_all q alloc fs s) = device_active s"
  "ta_umount (app_entry_load_all q alloc fs s) = ta_umount s"
  "ta_mount (app_entry_load_all q alloc fs s) = ta_mount s"
  "ta_running (app_entry_load_all q alloc fs s) = ta_running s"
  using load_all_view[of q alloc fs s] by (simp_all add: device_view_def)

lemma mount_device:
  "mount w i s = (b, t) \<Longrightarrow> b = w (dev_calls s) (FatMount i) \<and> device_active t = device_active s
    \<and> ta_umount t = ta_umount s \<and> ta_mount t = ta_mount s \<and> ta_running t = ta_running s
    \<and> device_prefered t = device_prefered s"
  by (auto simp: mount_def dev_def Let_def split: if_splits)

text \<open>Every mount of the device is answered alike, whatever was called before.\<close>

definition mounts :: "dev_world \<Rightarrow> nat \<Rightarrow> bool" where
  "mounts w i \<longleftrightarrow> (\<forall>h. w h (FatMount i))"

lemma scan_mounts_requested:
  assumes "device_active s < 0" and "ta_mount s = int d" and "mounts w d"
  shows "device_active (ae_scan w q al fs s) = int d" and "ta_mount (ae_scan w q al fs s) = -1"
    and "ta_action (ae_scan w q al fs s) = AE_ACT_ADD" and "ta_umount (ae_scan w q al fs s) = ta_umount s"
    and "ta_running (ae_scan w q al fs s) = ta_running s"
proof -
  obtain t where t: "mount w d s = (True, t)" "ta_umount t = ta_umount s" "ta_running t = ta_running s"
    using mount_device[of w d s] assms(3) unfolding mounts_def by (metis surj_pair)
  show "device_active (ae_scan w q al fs s) = int d" "ta_mount (ae_scan w q al fs s) = -1"
    "ta_action (ae_scan w q al fs s) = AE_ACT_ADD" "ta_umount (ae_scan w q al fs s) = ta_umount s"
    "ta_running (ae_scan w q al fs s) = ta_running s"
    using assms t by (simp_all add: ae_scan_def Let_def scan_requested_def scan_prefered_def scan_load_def dev_def)
qed

lemma scan_unmounts:
  assumes "device_active s \<ge> 0" and "ta_umount s"
  shows "device_active (ae_scan w q al fs s) = -1" and "\<not> ta_umount (ae_scan w q al fs s)"
    and "ta_action (ae_scan w q al fs s) = AE_ACT_REMOVE" and "ta_mount (ae_scan w q al fs s) = ta_mount s"
    and "ta_running (ae_scan w q al fs s) = ta_running s"
  using assms by (simp_all add: ae_scan_def scan_lost_def dev_def Let_def)

definition scan_once :: "dev_world \<Rightarrow> sorter \<Rightarrow> allocator \<Rightarrow> app_fs \<Rightarrow> ae_state \<Rightarrow> ae_state" where
  "scan_once w q al fs s = ae_wake w q al fs (app_entry_scan True s)"

lemma scan_once_running: "ta_running s \<Longrightarrow>
    scan_once w q al fs s = (ae_scan w q al fs (s\<lparr>ta_cmd := AE_CMD_SCAN\<rparr>))\<lparr>ta_cmd := AE_CMD_IDLE\<rparr>"
  by (simp add: scan_once_def app_entry_scan_def app_entry_command_def ae_wake_def)

text \<open>
  C37: choosing another device while one is active switches to it in two scans: the first gives up the
  old device and reports its applications gone, the second mounts the chosen one and reports the new
  list.
\<close>

theorem device_switch:
  fixes q :: sorter and al :: allocator and fs fs2 :: app_fs and w :: dev_world
  assumes "ta_running s" and "device_active s \<ge> 0" and "d < DEVICE_COUNT" and "mounts w d"
  defines "s1 \<equiv> scan_once w q al fs (app_entry_set_device (int d) s)"
  defines "s2 \<equiv> scan_once w q al fs2 s1"
  shows "device_active s1 = -1 \<and> ta_action s1 = AE_ACT_REMOVE
    \<and> device_active s2 = int d \<and> ta_action s2 = AE_ACT_ADD \<and> \<not> ta_umount s2 \<and> ta_mount s2 = -1"
proof -
  let ?s0 = "s\<lparr>ta_umount := True, ta_mount := int d, ta_cmd := AE_CMD_SCAN\<rparr>"
  have s1: "s1 = (ae_scan w q al fs ?s0)\<lparr>ta_cmd := AE_CMD_IDLE\<rparr>"
    using assms(1,3) by (simp add: s1_def app_entry_set_device_def scan_once_running)
  note u = scan_unmounts[of ?s0 w q al fs]
  have f: "device_active s1 = -1" "\<not> ta_umount s1" "ta_action s1 = AE_ACT_REMOVE" "ta_mount s1 = int d"
    "ta_running s1"
    using u assms(1,2) by (simp_all add: s1)
  have s2: "s2 = (ae_scan w q al fs2 (s1\<lparr>ta_cmd := AE_CMD_SCAN\<rparr>))\<lparr>ta_cmd := AE_CMD_IDLE\<rparr>"
    unfolding s2_def by (rule scan_once_running[OF f(5)])
  show ?thesis
    using f scan_mounts_requested[of "s1\<lparr>ta_cmd := AE_CMD_SCAN\<rparr>" d w q al fs2] assms(4) by (simp add: s2)
qed

text \<open>
  With no device active, choosing a device leaves a stale unmount request behind: the next scan
  mounts the device and reports its applications, and the scan after that gives it up again.
\<close>

lemma device_choice_flaps:
  fixes q :: sorter and al :: allocator and fs fs2 :: app_fs and w :: dev_world
  assumes "ta_running s" and "device_active s < 0" and "d < DEVICE_COUNT" and "mounts w d"
  defines "s1 \<equiv> scan_once w q al fs (app_entry_set_device (int d) s)"
  defines "s2 \<equiv> scan_once w q al fs2 s1"
  shows "device_active s1 = int d \<and> ta_action s1 = AE_ACT_ADD
    \<and> device_active s2 = -1 \<and> ta_action s2 = AE_ACT_REMOVE"
proof -
  let ?s0 = "s\<lparr>ta_umount := True, ta_mount := int d, ta_cmd := AE_CMD_SCAN\<rparr>"
  have s1: "s1 = (ae_scan w q al fs ?s0)\<lparr>ta_cmd := AE_CMD_IDLE\<rparr>"
    using assms(1,3) by (simp add: s1_def app_entry_set_device_def scan_once_running)
  note m = scan_mounts_requested[of ?s0 d w q al fs]
  have f: "device_active s1 = int d" "ta_umount s1" "ta_action s1 = AE_ACT_ADD" "ta_running s1"
    using m assms(1,2,4) by (simp_all add: s1)
  have s2: "s2 = (ae_scan w q al fs2 (s1\<lparr>ta_cmd := AE_CMD_SCAN\<rparr>))\<lparr>ta_cmd := AE_CMD_IDLE\<rparr>"
    unfolding s2_def by (rule scan_once_running[OF f(4)])
  show ?thesis using f scan_unmounts[of "s1\<lparr>ta_cmd := AE_CMD_SCAN\<rparr>" w q al fs2] by (simp add: s2)
qed

theorem device_switch_witness:
  "device_active (scan_once (\<lambda>_ _. True) sort_by least_free one_app
     (scan_once (\<lambda>_ _. True) sort_by least_free one_app
       (app_entry_set_device (int 1) (boot_state\<lparr>ta_running := True, device_active := 0\<rparr>)))) = 1"
  using device_switch[of "boot_state\<lparr>ta_running := True, device_active := 0\<rparr>" 1 "\<lambda>_ _. True" sort_by
      least_free one_app one_app]
  by (simp add: DEVICE_COUNT_def mounts_def)

lemma device_choice_flaps_example:
  "device_active (scan_once (\<lambda>_ _. True) sort_by least_free one_app
     (scan_once (\<lambda>_ _. True) sort_by least_free one_app
       (app_entry_set_device (int 1) (boot_state\<lparr>ta_running := True\<rparr>)))) = -1"
  using device_choice_flaps[of "boot_state\<lparr>ta_running := True\<rparr>" 1 "\<lambda>_ _. True" sort_by
      least_free one_app one_app]
  by (simp add: DEVICE_COUNT_def mounts_def boot_state_def)

end
