(* ===== verification/Nand_Fs.thy ===== *)
theory Nand_Fs
  imports HBC_Prelude "HOL-Library.State_Monad"
begin

text \<open>
  \<^verbatim>\<open>channelapp/source/nand.c\<close>, \<^verbatim>\<open>isfs.c\<close>, \<^verbatim>\<open>playtime.c\<close> and \<^verbatim>\<open>fileops.c\<close>: reading and writing whole
  files through the calls of the console's operating system. The code runs in a state monad whose
  state is the history of those calls and the flag \<^verbatim>\<open>gNandInitialized\<close>; each call is answered by the
  environment, about which nothing is assumed. Descriptors and 32-bit results are words, read
  signed where the code does.
\<close>

section \<open>Calls\<close>

datatype ios_call =
    IOS_Open string nat | IOS_Close u32 | IOS_Read u32 u32 | IOS_Write u32 "u8 list"
  | IOS_Seek u32 u32 nat | IOS_Ioctl u32 nat u32 | IOS_Ioctlv u32 u32
  | ISFS_Initialize | ISFS_CreateFile string | ISFS_Delete string | ISFS_Rename string string
  | ISFS_Open string nat | ISFS_GetFileStats u32 | ISFS_Read u32 u32 | ISFS_Write u32 "u8 list"
  | ISFS_Close u32
  | Memalign nat u32 | Blob_alloc u32 | Free u32

text \<open>A reply: the 32-bit result, the bytes a read delivers, and the length \<^verbatim>\<open>fstats\<close> reports.\<close>

record ios_reply =
  rret :: u32
  rbytes :: "u8 list"
  rlen :: u32

type_synonym ios_world = "(ios_call, ios_reply) world"

record nand_state =
  calls :: "ios_call list"
  initialized :: bool

type_synonym 'a ios = "(nand_state, 'a) state"

definition call :: "ios_world \<Rightarrow> ios_call \<Rightarrow> ios_reply ios" where
  "call w e = State (\<lambda>s. (w (calls s) e, s\<lparr>calls := e # calls s\<rparr>))"

definition call_ret :: "ios_world \<Rightarrow> ios_call \<Rightarrow> u32 ios" where
  "call_ret w e = State (\<lambda>s. (rret (w (calls s) e), s\<lparr>calls := e # calls s\<rparr>))"

abbreviation neg :: "u32 \<Rightarrow> bool" where "neg r \<equiv> sint r < 0"

definition SEEK_SET :: nat where "SEEK_SET = 0"
definition SEEK_END :: nat where "SEEK_END = 2"
definition ISFS_EINVAL :: u32 where "ISFS_EINVAL = - 101"

section \<open>nand.c\<close>

record nandDevice =
  dev_mode :: u32
  mountCmd :: u32
  umountCmd :: u32

definition Nand_Mount :: "ios_world \<Rightarrow> nandDevice \<Rightarrow> u32 ios" where
  "Nand_Mount w dev = do {
     fd \<leftarrow> call_ret w (IOS_Open ''fat'' 0);
     if neg fd then State_Monad.return fd
     else do {
       ret \<leftarrow> call_ret w (IOS_Ioctlv fd (mountCmd dev));
       call_ret w (IOS_Close fd);
       State_Monad.return ret
     }
   }"

definition Nand_Unmount :: "ios_world \<Rightarrow> nandDevice \<Rightarrow> u32 ios" where
  "Nand_Unmount w dev = do {
     fd \<leftarrow> call_ret w (IOS_Open ''fat'' 0);
     if neg fd then State_Monad.return fd
     else do {
       ret \<leftarrow> call_ret w (IOS_Ioctlv fd (umountCmd dev));
       call_ret w (IOS_Close fd);
       State_Monad.return ret
     }
   }"

definition Nand_Enable :: "ios_world \<Rightarrow> nandDevice \<Rightarrow> u32 ios" where
  "Nand_Enable w dev = do {
     fd \<leftarrow> call_ret w (IOS_Open ''/dev/fs'' 0);
     if neg fd then State_Monad.return fd
     else do {
       ret \<leftarrow> call_ret w (IOS_Ioctl fd 100 (dev_mode dev));
       call_ret w (IOS_Close fd);
       State_Monad.return ret
     }
   }"

definition Nand_Disable :: "ios_world \<Rightarrow> u32 ios" where
  "Nand_Disable w = do {
     fd \<leftarrow> call_ret w (IOS_Open ''/dev/fs'' 0);
     if neg fd then State_Monad.return fd
     else do {
       ret \<leftarrow> call_ret w (IOS_Ioctl fd 100 0);
       call_ret w (IOS_Close fd);
       State_Monad.return ret
     }
   }"

definition NANDInitialize :: "ios_world \<Rightarrow> bool ios" where
  "NANDInitialize w = State (\<lambda>s.
     if \<not> initialized s then
       (let ok = (rret (w (calls s) ISFS_Initialize) = 0)
        in (ok, s\<lparr>calls := ISFS_Initialize # calls s, initialized := ok\<rparr>))
     else (True, s))"

text \<open>
  The buffer returned with its address (\<^verbatim>\<open>None\<close> for \<^verbatim>\<open>NULL\<close>) and \<^verbatim>\<open>*size\<close>. The test \<^verbatim>\<open>*size < 0\<close> after the seek is on an
  unsigned variable and never holds.
\<close>

definition NANDReadFromFile ::
  "ios_world \<Rightarrow> string \<Rightarrow> u32 \<Rightarrow> u32 \<Rightarrow> ((u32 \<times> u8 list) option \<times> u32) ios" where
  "NANDReadFromFile w path offset length0 = do {
     ok \<leftarrow> NANDInitialize w;
     if \<not> ok then State_Monad.return (None, ISFS_EINVAL)
     else do {
       fd \<leftarrow> call_ret w (IOS_Open path 1);
       if neg fd then State_Monad.return (None, fd)
       else do {
         len \<leftarrow> (if length0 = 0 then call_ret w (IOS_Seek fd 0 SEEK_END) else State_Monad.return length0);
         data \<leftarrow> call_ret w (Memalign 64 len);
         if data = 0 then do {
           call_ret w (IOS_Close fd);
           State_Monad.return (None, 0)
         }
         else do {
           pos \<leftarrow> call_ret w (IOS_Seek fd offset SEEK_SET);
           if uint pos < 0 then do {
             call_ret w (IOS_Close fd);
             call_ret w (Free data);
             State_Monad.return (None, pos)
           }
           else do {
             r \<leftarrow> call w (IOS_Read fd len);
             call_ret w (IOS_Close fd);
             if rret r \<noteq> len then do {
               call_ret w (Free data);
               State_Monad.return (None, rret r)
             }
             else State_Monad.return (Some (data, rbytes r), rret r)
           }
         }
       }
     }
   }"

definition NANDLoadFile :: "ios_world \<Rightarrow> string \<Rightarrow> ((u32 \<times> u8 list) option \<times> u32) ios" where
  "NANDLoadFile w path = NANDReadFromFile w path 0 0"

text \<open>The part of the path from its last slash; the whole path when there is none.\<close>

fun last_slash :: "string \<Rightarrow> nat \<Rightarrow> nat" where
  "last_slash path 0 = 0"
| "last_slash path (Suc i) =
     (if Suc i < length path \<and> path ! Suc i = CHR ''/'' then Suc i else last_slash path i)"

definition tmp_path :: "string \<Rightarrow> string" where
  "tmp_path path = ''/tmp'' @ drop (last_slash path (length path)) path"

definition write_and_rename :: "ios_world \<Rightarrow> string \<Rightarrow> u8 list \<Rightarrow> u32 \<Rightarrow> u32 ios" where
  "write_and_rename w path data n = do {
     fd \<leftarrow> call_ret w (IOS_Open (tmp_path path) 2);
     if neg fd then State_Monad.return fd
     else do {
       ret \<leftarrow> call_ret w (IOS_Write fd (take (unat n) data));
       call_ret w (IOS_Close fd);
       if ret \<noteq> n then State_Monad.return (ret - 3)
       else if tmp_path path \<noteq> path then call_ret w (ISFS_Rename (tmp_path path) path)
       else State_Monad.return 0
     }
   }"

definition NANDWriteFileSafe :: "ios_world \<Rightarrow> string \<Rightarrow> u8 list \<Rightarrow> u32 \<Rightarrow> u32 ios" where
  "NANDWriteFileSafe w path data n = do {
     NANDInitialize w;
     ret \<leftarrow> call_ret w (ISFS_CreateFile (tmp_path path));
     if ret = - 105 then do {
       call_ret w (ISFS_Delete (tmp_path path));
       ret2 \<leftarrow> call_ret w (ISFS_CreateFile (tmp_path path));
       if neg ret2 then State_Monad.return ret2 else write_and_rename w path data n
     }
     else if neg ret then State_Monad.return ret
     else write_and_rename w path data n
   }"

definition NANDBackUpFile :: "ios_world \<Rightarrow> string \<Rightarrow> string \<Rightarrow> (u32 \<times> u32) ios" where
  "NANDBackUpFile w src dst = do {
     NANDInitialize w;
     b \<leftarrow> NANDLoadFile w src;
     (case fst b of
        None \<Rightarrow> State_Monad.return (snd b, snd b)
      | Some (buffer, data) \<Rightarrow> do {
          ret \<leftarrow> NANDWriteFileSafe w dst data (snd b);
          call_ret w (Free buffer);
          State_Monad.return (ret, snd b)
        })
   }"

definition NANDGetFileSize :: "ios_world \<Rightarrow> string \<Rightarrow> (u32 \<times> u32) ios" where
  "NANDGetFileSize w path = do {
     NANDInitialize w;
     fd \<leftarrow> call_ret w (IOS_Open path 1);
     if neg fd then State_Monad.return (fd, 0)
     else do {
       n \<leftarrow> call_ret w (IOS_Seek fd 0 SEEK_END);
       r \<leftarrow> call_ret w (IOS_Close fd);
       State_Monad.return (r, n)
     }
   }"

definition NANDDeleteFile :: "ios_world \<Rightarrow> string \<Rightarrow> u32 ios" where
  "NANDDeleteFile w path = do { NANDInitialize w; call_ret w (ISFS_Delete path) }"

section \<open>isfs.c and playtime.c\<close>

definition ROUNDUP32B :: "u32 \<Rightarrow> u32" where
  "ROUNDUP32B x = (x + 32 - 1) AND NOT (32 - 1)"

text \<open>
  \<^verbatim>\<open>isfs_get\<close>: the result and the NUL-terminated buffer it hands out. \<^verbatim>\<open>panic()\<close> when the blob
  allocator fails; \<^verbatim>\<open>pmemalign\<close> does not return without memory.
\<close>

definition isfs_get ::
  "ios_world \<Rightarrow> string \<Rightarrow> u32 \<Rightarrow> u32 \<Rightarrow> bool \<Rightarrow> (u32 \<times> (u32 \<times> u8 list) option) ret ios" where
  "isfs_get w path expected maxsize use_blob = do {
     fd \<leftarrow> call_ret w (ISFS_Open path 1);
     if neg fd then State_Monad.return (Ret (fd, None))
     else do {
       st \<leftarrow> call w (ISFS_GetFileStats fd);
       if neg (rret st) then State_Monad.return (Ret (rret st, None))
       else if rlen st = 0 \<or> (maxsize \<noteq> 0 \<and> rlen st > maxsize) \<or> (expected \<noteq> 0 \<and> rlen st \<noteq> expected)
       then do {
         call_ret w (ISFS_Close fd);
         State_Monad.return (Ret (- 1, None))
       }
       else do {
         buf \<leftarrow> call_ret w (if use_blob then Blob_alloc (ROUNDUP32B (rlen st + 1))
                             else Memalign 32 (ROUNDUP32B (rlen st + 1)));
         if buf = 0 then State_Monad.return Panic
         else do {
           r \<leftarrow> call w (ISFS_Read fd (rlen st));
           if neg (rret r) then do {
             call_ret w (Free buf);
             call_ret w (ISFS_Close fd);
             State_Monad.return (Ret (rret r, None))
           }
           else if rret r \<noteq> rlen st then do {
             call_ret w (Free buf);
             call_ret w (ISFS_Close fd);
             State_Monad.return (Ret (- 1, None))
           }
           else do {
             c \<leftarrow> call_ret w (ISFS_Close fd);
             if neg c then do {
               call_ret w (Free buf);
               State_Monad.return (Ret (c, None))
             }
             else State_Monad.return (Ret (rlen st, Some (buf, rbytes r @ [0])))
           }
         }
       }
     }
   }"

definition isfs_put :: "ios_world \<Rightarrow> string \<Rightarrow> u8 list \<Rightarrow> u32 \<Rightarrow> u32 ios" where
  "isfs_put w path buf len = do {
     call_ret w (ISFS_Delete path);
     c \<leftarrow> call_ret w (ISFS_CreateFile path);
     if neg c then State_Monad.return c
     else do {
       fd \<leftarrow> call_ret w (ISFS_Open path 3);
       if neg fd then do {
         call_ret w (ISFS_Delete path);
         State_Monad.return fd
       }
       else do {
         r \<leftarrow> call_ret w (ISFS_Write fd (take (unat len) buf));
         if neg r then do {
           call_ret w (ISFS_Close fd);
           call_ret w (ISFS_Delete path);
           State_Monad.return r
         }
         else if r \<noteq> len then do {
           call_ret w (ISFS_Close fd);
           call_ret w (ISFS_Delete path);
           State_Monad.return (- 1)
         }
         else do {
           x \<leftarrow> call_ret w (ISFS_Close fd);
           if neg x then do {
             call_ret w (ISFS_Delete path);
             State_Monad.return x
           }
           else State_Monad.return 0
         }
       }
     }
   }"

definition playtime_destroy :: "ios_world \<Rightarrow> unit ios" where
  "playtime_destroy w = do {
     fd \<leftarrow> call_ret w (IOS_Open ''/title/00000001/00000002/data/play_rec.dat'' 3);
     if neg fd then State_Monad.return ()
     else do {
       res \<leftarrow> call_ret w (IOS_Write fd (replicate 4 0));
       if res \<noteq> 4 then do {
         call_ret w (IOS_Close fd);
         State_Monad.return ()
       }
       else do {
         call_ret w (IOS_Close fd);
         State_Monad.return ()
       }
     }
   }"

section \<open>fileops.c\<close>

text \<open>The answer of \<^verbatim>\<open>stat\<close>: whether the path is a directory, and its size.\<close>

type_synonym stat_fn = "string \<Rightarrow> (bool \<times> nat) option"

definition FSOPFileExists :: "stat_fn \<Rightarrow> string \<Rightarrow> bool" where
  "FSOPFileExists stat file = (case stat file of None \<Rightarrow> False | Some (dir, _) \<Rightarrow> \<not> dir)"

definition FSOPFolderExists :: "stat_fn \<Rightarrow> string \<Rightarrow> bool" where
  "FSOPFolderExists stat path = (case stat path of None \<Rightarrow> False | Some (dir, _) \<Rightarrow> dir)"

definition FSOPGetFileSizeBytes :: "stat_fn \<Rightarrow> string \<Rightarrow> nat" where
  "FSOPGetFileSizeBytes stat path = (case stat path of None \<Rightarrow> 0 | Some (_, n) \<Rightarrow> n)"

text \<open>The file removed, if any.\<close>

definition FSOPDeleteFile :: "stat_fn \<Rightarrow> string \<Rightarrow> string option" where
  "FSOPDeleteFile stat file = (if FSOPFileExists stat file then Some file else None)"

text \<open>\<^verbatim>\<open>strchr(path + from, '/') - path\<close>.\<close>

definition slash_from :: "nat \<Rightarrow> string \<Rightarrow> nat option" where
  "slash_from from path =
     (case dropWhile (\<lambda>c. c \<noteq> CHR ''/'') (drop from path) of
        [] \<Rightarrow> None
      | rest \<Rightarrow> Some (length path - length rest))"

lemma slash_from_bounds: "slash_from from path = Some i \<Longrightarrow> from \<le> i \<and> i < length path"
proof -
  assume s: "slash_from from path = Some i"
  obtain c rest where r: "dropWhile (\<lambda>c. c \<noteq> CHR ''/'') (drop from path) = c # rest"
    and i: "i = length path - Suc (length rest)"
    using s by (auto simp: slash_from_def split: list.splits)
  have "length (dropWhile (\<lambda>c. c \<noteq> CHR ''/'') (drop from path)) \<le> length (drop from path)"
    by (rule length_dropWhile_le)
  then have "Suc (length rest) \<le> length path - from" unfolding r by simp
  then show ?thesis using i by linarith
qed

text \<open>
  The directories \<^verbatim>\<open>FSOPMakeFolder\<close> makes, in order: each prefix that ends before a slash after
  the first, then the path itself. Without any slash the code computes with a null pointer
  (\<^verbatim>\<open>None\<close>).
\<close>

function make_prefixes :: "nat \<Rightarrow> string \<Rightarrow> string list" where
  "make_prefixes current path =
     (case slash_from current path of
        None \<Rightarrow> [path]
      | Some pos \<Rightarrow> take pos path # make_prefixes (Suc pos) path)"
  by pat_completeness auto
termination
  by (relation "measure (\<lambda>(current, path). Suc (length path) - current)")
    (auto dest: slash_from_bounds)

declare make_prefixes.simps [simp del]

definition FSOPMakeFolder :: "stat_fn \<Rightarrow> string \<Rightarrow> string list option" where
  "FSOPMakeFolder stat path =
     (if FSOPFolderExists stat path then Some []
      else (case slash_from 0 path of None \<Rightarrow> None | Some pos \<Rightarrow> Some (make_prefixes (Suc pos) path)))"

text \<open>
  An open stream is the contents of its file. \<^verbatim>\<open>fread(buffer, length, 1, fp)\<close> delivers one item of
  \<^verbatim>\<open>length\<close> bytes or none.
\<close>

definition FSOPReadOpenFile :: "u8 list \<Rightarrow> u32 \<Rightarrow> u32 \<Rightarrow> int \<times> u8 list" where
  "FSOPReadOpenFile file offset len =
     (let got = take (unat len) (drop (unat offset) file)
      in (if len \<noteq> 0 \<and> length got = unat len then 1 else 0, got))"

definition FSOPReadOpenFileA :: "bool \<Rightarrow> u8 list \<Rightarrow> u32 \<Rightarrow> u32 \<Rightarrow> int \<times> u8 list option" where
  "FSOPReadOpenFileA mem_ok file offset len =
     (if \<not> mem_ok then (-1, None)
      else (case FSOPReadOpenFile file offset len of
              (r, got) \<Rightarrow> if r \<le> 0 then (r, None) else (r, Some got)))"

section \<open>Descriptors\<close>

text \<open>The descriptors that are open after a history of calls.\<close>

fun open_fds :: "ios_world \<Rightarrow> ios_call list \<Rightarrow> u32 list" where
  "open_fds w [] = []"
| "open_fds w (IOS_Open p m # h) =
     (let r = rret (w h (IOS_Open p m)) in if neg r then open_fds w h else r # open_fds w h)"
| "open_fds w (ISFS_Open p m # h) =
     (let r = rret (w h (ISFS_Open p m)) in if neg r then open_fds w h else r # open_fds w h)"
| "open_fds w (IOS_Close fd # h) = remove1 fd (open_fds w h)"
| "open_fds w (ISFS_Close fd # h) = remove1 fd (open_fds w h)"
| "open_fds w (e # h) = open_fds w h"

definition keeps_fds :: "ios_world \<Rightarrow> 'a ios \<Rightarrow> bool" where
  "keeps_fds w m \<longleftrightarrow> (\<forall>s. open_fds w (calls (snd (run_state m s))) = open_fds w (calls s))"

lemma keeps_fds_return [simp]: "keeps_fds w (State_Monad.return x)"
  by (simp add: keeps_fds_def State_Monad.return_def)

lemma keeps_fds_bind:
  "keeps_fds w m \<Longrightarrow> (\<And>x. keeps_fds w (f x)) \<Longrightarrow> keeps_fds w (State_Monad.bind m f)"
  by (simp add: keeps_fds_def State_Monad.bind_def split: prod.splits) (metis snd_conv)

lemma keeps_fds_init [simp]: "keeps_fds w (NANDInitialize w)"
  by (simp add: keeps_fds_def NANDInitialize_def Let_def)

lemmas run_simps = State_Monad.bind_def State_Monad.return_def call_def call_ret_def

text \<open>
  Whatever the operating system answers, every file operation closes exactly the descriptors it
  opened, on its error paths too.
\<close>

lemma files_keep_fds:
  "keeps_fds w (NANDReadFromFile w path offset len) \<and> keeps_fds w (NANDWriteFileSafe w path data n)
   \<and> keeps_fds w (NANDBackUpFile w path dst) \<and> keeps_fds w (NANDGetFileSize w path)
   \<and> keeps_fds w (Nand_Mount w d) \<and> keeps_fds w (Nand_Unmount w d) \<and> keeps_fds w (Nand_Enable w d)
   \<and> keeps_fds w (Nand_Disable w) \<and> keeps_fds w (isfs_put w path data n) \<and> keeps_fds w (playtime_destroy w)"
proof -
  have init: "open_fds w (calls (snd (run_state (NANDInitialize w) s))) = open_fds w (calls s)" for s
    using keeps_fds_init by (simp add: keeps_fds_def)
  have wr: "keeps_fds w (write_and_rename w p b k)" for p b k
    by (auto simp: keeps_fds_def write_and_rename_def run_simps Let_def split: prod.splits)
  have rd: "keeps_fds w (NANDReadFromFile w p off k)" for p off k
    unfolding NANDReadFromFile_def
    by (rule keeps_fds_bind[OF keeps_fds_init]) (auto simp: keeps_fds_def run_simps Let_def split: prod.splits)
  have one: "keeps_fds w (call_ret w (ISFS_CreateFile p))" "keeps_fds w (call_ret w (ISFS_Delete p))"
    "keeps_fds w (call_ret w (Free k))" for p k
    by (simp_all add: keeps_fds_def run_simps)
  have ws: "keeps_fds w (NANDWriteFileSafe w p b k)" for p b k
    unfolding NANDWriteFileSafe_def
    by (intro keeps_fds_bind keeps_fds_init one) (simp add: keeps_fds_bind one wr)
  have "keeps_fds w (NANDBackUpFile w path dst)"
    unfolding NANDBackUpFile_def NANDLoadFile_def
    by (intro keeps_fds_bind keeps_fds_init rd) (auto intro!: keeps_fds_bind ws one split: option.splits)
  moreover have "keeps_fds w (NANDGetFileSize w path)"
    unfolding NANDGetFileSize_def
    by (rule keeps_fds_bind[OF keeps_fds_init]) (auto simp: keeps_fds_def run_simps Let_def split: prod.splits)
  moreover have "keeps_fds w (Nand_Mount w d)" "keeps_fds w (Nand_Unmount w d)" "keeps_fds w (Nand_Enable w d)"
    "keeps_fds w (Nand_Disable w)" "keeps_fds w (playtime_destroy w)"
    by (auto simp: keeps_fds_def Nand_Mount_def Nand_Unmount_def Nand_Enable_def Nand_Disable_def
        playtime_destroy_def run_simps Let_def split: prod.splits)
  moreover have "keeps_fds w (isfs_put w path data n)"
    by (auto simp: keeps_fds_def isfs_put_def run_simps Let_def split: prod.splits)
  ultimately show ?thesis using rd ws by blast
qed

text \<open>
  \<^verbatim>\<open>isfs_get\<close> closes its descriptor too, with two exceptions: when \<^verbatim>\<open>ISFS_GetFileStats\<close> fails it
  returns with the descriptor still open, and a failed blob allocation panics. In every other case
  the descriptors are as before; on success the result is the length \<^verbatim>\<open>ISFS_GetFileStats\<close> reported, it
  is not 0 and within the limits asked for.
\<close>

lemma isfs_get_outcome:
  "case run_state (isfs_get w path expected maxsize use_blob) s of (out, s') \<Rightarrow>
    (case out of
      Panic \<Rightarrow> True
    | Ret (r, Some (buf, bytes)) \<Rightarrow> open_fds w (calls s') = open_fds w (calls s)
        \<and> r \<noteq> 0 \<and> (maxsize = 0 \<or> r \<le> maxsize) \<and> (expected = 0 \<or> r = expected)
    | Ret (r, None) \<Rightarrow>
        (case hd (calls s') of
           ISFS_GetFileStats fd \<Rightarrow> open_fds w (calls s') = fd # open_fds w (calls s)
         | _ \<Rightarrow> open_fds w (calls s') = open_fds w (calls s)))"
  unfolding isfs_get_def
  by (auto simp: run_simps Let_def split: prod.splits)

section \<open>The safe write\<close>

definition touches :: "string \<Rightarrow> ios_call \<Rightarrow> bool" where
  "touches path e =
     (case e of
        IOS_Open p _ \<Rightarrow> p = path
      | ISFS_CreateFile p \<Rightarrow> p = path
      | ISFS_Delete p \<Rightarrow> p = path
      | ISFS_Open p _ \<Rightarrow> p = path
      | ISFS_Rename p q \<Rightarrow> p = path \<or> q = path
      | _ \<Rightarrow> False)"

text \<open>
  The end of a run that renames, newest call first: the temporary file is created and opened, all the bytes are written to it,
  through the descriptor that opening it gave, and it is closed.
\<close>

definition replaced :: "ios_world \<Rightarrow> string \<Rightarrow> u8 list \<Rightarrow> u32 \<Rightarrow> ios_call list \<Rightarrow> bool" where
  "replaced w path data n h1 \<longleftrightarrow> (\<exists>fd h. h1 = [ISFS_Rename (tmp_path path) path, IOS_Close fd, IOS_Write fd (take (unat n) data),
        IOS_Open (tmp_path path) 2, ISFS_CreateFile (tmp_path path)] @ h
     \<and> \<not> neg (rret (w h (ISFS_CreateFile (tmp_path path))))
     \<and> fd = rret (w (ISFS_CreateFile (tmp_path path) # h) (IOS_Open (tmp_path path) 2)) \<and> \<not> neg fd
     \<and> rret (w (IOS_Open (tmp_path path) 2 # ISFS_CreateFile (tmp_path path) # h) (IOS_Write fd (take (unat n) data))) = n)"

definition renames_last :: "ios_world \<Rightarrow> string \<Rightarrow> u8 list \<Rightarrow> u32 \<Rightarrow> ios_call list \<Rightarrow> ios_call list \<Rightarrow> bool" where
  "renames_last w path data n h0 h1 \<longleftrightarrow> (\<exists>cs. h1 = cs @ h0
    \<and> (\<forall>e\<in>set cs. touches path e \<longrightarrow> e = ISFS_Rename (tmp_path path) path)
    \<and> (ISFS_Rename (tmp_path path) path \<in> set cs \<longrightarrow> replaced w path data n h1))"

lemma renames_last_refl [simp]: "renames_last w path data n h h"
  by (simp add: renames_last_def)

lemma renames_last_before:
  "renames_last w path data n (e # h) h1 \<Longrightarrow> \<not> touches path e \<Longrightarrow> renames_last w path data n h h1"
proof -
  assume r: "renames_last w path data n (e # h) h1" and e: "\<not> touches path e"
  obtain cs where cs: "h1 = cs @ e # h" "\<forall>e\<in>set cs. touches path e \<longrightarrow> e = ISFS_Rename (tmp_path path) path"
    "ISFS_Rename (tmp_path path) path \<in> set cs \<longrightarrow> replaced w path data n h1"
    using r unfolding renames_last_def by blast
  have "e \<noteq> ISFS_Rename (tmp_path path) path" using e by (auto simp: touches_def)
  then show ?thesis
    unfolding renames_last_def using cs e by (intro exI[of _ "cs @ [e]"] conjI) simp_all
qed

lemma renames_last_step: "\<not> touches path e \<Longrightarrow> renames_last w path data n h (e # h)"
  by (rule renames_last_before) simp_all

text \<open>A world in which the temporary file can be created, opened and written.\<close>

definition writes_well :: "ios_world \<Rightarrow> string \<Rightarrow> u8 list \<Rightarrow> u32 \<Rightarrow> bool" where
  "writes_well w path data n \<longleftrightarrow> (\<forall>h. \<not> neg (rret (w h (ISFS_CreateFile (tmp_path path)))) \<and> \<not> neg (rret (w h (IOS_Open (tmp_path path) 2)))
     \<and> (\<forall>fd. rret (w h (IOS_Write fd (take (unat n) data))) = n))"

lemma write_and_rename_last:
  assumes "tmp_path path \<noteq> path" and "run_state (write_and_rename w path data n) s = (r, s')"
    and "calls s = ISFS_CreateFile (tmp_path path) # h0" and "\<not> neg (rret (w h0 (ISFS_CreateFile (tmp_path path))))"
  shows "renames_last w path data n (calls s) (calls s') \<and> (writes_well w path data n \<longrightarrow> replaced w path data n (calls s'))"
proof -
  let ?o = "IOS_Open (tmp_path path) 2"
  let ?fd = "rret (w (calls s) ?o)" and ?d = "take (unat n) data"
  let ?h = "IOS_Close ?fd # IOS_Write ?fd ?d # ?o # calls s"
  have o: "\<not> touches path ?o" using assms(1) by (simp add: touches_def)
  have t: "\<not> touches path (IOS_Close ?fd)" "\<not> touches path (IOS_Write ?fd ?d)" by (simp_all add: touches_def)
  have h: "renames_last w path data n (calls s) ?h"
    by (rule renames_last_before[OF renames_last_before[OF renames_last_step[OF t(1)] t(2)] o])
  consider "calls s' = ?o # calls s" "neg ?fd" | "calls s' = ?h" "rret (w (?o # calls s) (IOS_Write ?fd ?d)) \<noteq> n"
    | "calls s' = ISFS_Rename (tmp_path path) path # ?h" "\<not> neg ?fd" "rret (w (?o # calls s) (IOS_Write ?fd ?d)) = n"
    using assms(1,2) unfolding write_and_rename_def
    by (auto simp: run_simps split: if_splits)
  then show ?thesis
  proof cases
    case 1
    then have "\<not> writes_well w path data n" unfolding writes_well_def by blast
    then show ?thesis using renames_last_step[OF o] 1(1) by simp
  next
    case 2
    then have "\<not> writes_well w path data n" unfolding writes_well_def by blast
    then show ?thesis using h 2(1) by simp
  next
    case 3
    then have "replaced w path data n (calls s')" using assms(3,4) by (auto simp: replaced_def)
    then show ?thesis using 3(1) o t unfolding renames_last_def
      by (intro conjI exI[of _ "[ISFS_Rename (tmp_path path) path, IOS_Close ?fd, IOS_Write ?fd ?d, ?o]"]) auto
  qed
qed



end
