(* ===== verification/Tcp.thy ===== *)
theory Tcp
  imports HBC_Prelude "HOL-Library.While_Combinator"
begin

text \<open>
  \<^verbatim>\<open>channelapp/source/tcp.c\<close>: sockets with timeouts. The network library is the environment: a call
  is answered by a result, the bytes of a read and the clock. \<^verbatim>\<open>gettime\<close> is one of the calls, and
  \<open>elapsed\<close> stands for \<^verbatim>\<open>ticks_to_millisecs (diff_ticks (t, now))\<close> of the system library. The polling
  loops end only when the peer or the clock lets them; they are \<open>while_option\<close> loops over one
  iteration of their body, \<open>None\<close> when they never end, and that they return is proved for clocks that
  advance.
\<close>

section \<open>Calls\<close>

text \<open>The last three lines are the calls of the loader threads.\<close>

datatype net_call =
    NetSocket | NetSetsockopt int | NetGetfl int | NetSetfl int int | NetClose int
  | NetGethostbyname "u8 list" | NetErrno | NetGethostip
  | NetConnect int u32 u16 | NetBind int u32 u16 | NetListen int int
  | NetRead int u32 | NetWrite int "u8 list"
  | Gettime | Usleep | Progress u32
  | NetInitAsync | NetGetStatus | NetDeinit | NetAccept int | NetShutdown int int
  | UsbFlush | UsbRecv u32 | FileOpen string | FileRead int u32 | FileClose int
  | UsbIsGeckoAlive | TryLockGecko | TryLockTcp | MutexInit | CondInit | CreateThread

record net_reply =
  nret :: int
  nbytes :: "u8 list"
  ntime :: int
  naddr :: u32

type_synonym net_world = "(net_call, net_reply) world"
type_synonym clock = "int \<Rightarrow> int \<Rightarrow> int"

definition EAGAIN :: int where "EAGAIN = 11"
definition ETIMEDOUT :: int where "ETIMEDOUT = 116"
definition EINPROGRESS :: int where "EINPROGRESS = 119"
definition EALREADY :: int where "EALREADY = 120"
definition EISCONN :: int where "EISCONN = 127"

lemmas errno_defs = EAGAIN_def ETIMEDOUT_def EINPROGRESS_def EALREADY_def EISCONN_def

definition TCP_CONNECT_TIMEOUT :: int where "TCP_CONNECT_TIMEOUT = 5000"
definition TCP_BLOCK_SIZE :: u32 where "TCP_BLOCK_SIZE = 16 * 1024"
definition TCP_BLOCK_RECV_TIMEOUT :: int where "TCP_BLOCK_RECV_TIMEOUT = 10000"
definition TCP_BLOCK_SEND_TIMEOUT :: int where "TCP_BLOCK_SEND_TIMEOUT = 4000"

section \<open>Opening sockets\<close>

definition tcp_socket :: "net_world \<Rightarrow> net_call list \<Rightarrow> int \<times> net_call list" where
  "tcp_socket w h0 =
     (let s = nret (w h0 NetSocket); h1 = NetSocket # h0
      in if s < 0 then (s, h1)
         else
           let h2 = NetSetsockopt s # h1;
               res = nret (w h2 (NetGetfl s)); h3 = NetGetfl s # h2
           in if res < 0 then (res, NetClose s # h3)
              else
                let flags = or res 4; res2 = nret (w h3 (NetSetfl s flags)); h4 = NetSetfl s flags # h3
                in if res2 < 0 then (res2, NetClose s # h4) else (s, h4))"

text \<open>
  One iteration of the polling loop of \<^verbatim>\<open>tcp_connect\<close>: the result once there is one, and the calls.
\<close>

definition connect_iter ::
  "net_world \<Rightarrow> clock \<Rightarrow> int \<Rightarrow> u32 \<Rightarrow> u16 \<Rightarrow> int \<Rightarrow> net_call list \<Rightarrow> int option \<times> net_call list"
where
  "connect_iter w elapsed s addr port t h0 =
     (let h1 = Gettime # h0
      in if elapsed t (ntime (w h0 Gettime)) > TCP_CONNECT_TIMEOUT then (Some (- ETIMEDOUT), NetClose s # h1)
         else
           let res = nret (w h1 (NetConnect s addr port)); h2 = NetConnect s addr port # h1
           in if res < 0 then
                (if res = - EISCONN then (Some s, h2)
                 else if res = - EINPROGRESS \<or> res = - EALREADY then (None, Usleep # h2)
                 else (Some res, NetClose s # h2))
              else (Some s, h2))"

definition connect_loop ::
  "net_world \<Rightarrow> clock \<Rightarrow> int \<Rightarrow> u32 \<Rightarrow> u16 \<Rightarrow> int \<Rightarrow> net_call list \<Rightarrow> (int \<times> net_call list) option"
where
  "connect_loop w elapsed s addr port t h =
     map_option (\<lambda>(r, h'). (the r, h'))
       (while_option (\<lambda>(r, h). r = None) (\<lambda>(r, h). connect_iter w elapsed s addr port t h) (None, h))"

text \<open>When the name does not resolve the result is \<^verbatim>\<open>errno\<close>, with its sign as it is.\<close>

definition tcp_connect ::
  "net_world \<Rightarrow> clock \<Rightarrow> u8 list \<Rightarrow> u16 \<Rightarrow> net_call list \<Rightarrow> (int \<times> net_call list) option" where
  "tcp_connect w elapsed host port h0 =
     (let hp = w h0 (NetGethostbyname host); h1 = NetGethostbyname host # h0
      in if nret hp = 0 then Some (nret (w h1 NetErrno), NetErrno # h1)
         else
           (case tcp_socket w h1 of (s, h2) \<Rightarrow>
              if s < 0 then Some (s, h2)
              else connect_loop w elapsed s (naddr hp) port (ntime (w h2 Gettime)) (Gettime # h2)))"

definition tcp_listen ::
  "net_world \<Rightarrow> u16 \<Rightarrow> int \<Rightarrow> net_call list \<Rightarrow> int \<times> net_call list" where
  "tcp_listen w port backlog h0 =
     (case tcp_socket w h0 of (s, h1) \<Rightarrow>
        if s < 0 then (s, h1)
        else
          let ip = naddr (w h1 NetGethostip); h2 = NetGethostip # h1;
              res = nret (w h2 (NetBind s ip port)); h3 = NetBind s ip port # h2
          in if res < 0 then (res, NetClose s # h3)
             else
               let res2 = nret (w h3 (NetListen s backlog)); h4 = NetListen s backlog # h3
               in if res2 < 0 then (res2, NetClose s # h4) else (s, h4))"

section \<open>Reading a line\<close>

text \<open>
  \<open>buf\<close> holds the bytes read so far, its length is \<^verbatim>\<open>c\<close>. The line is \<^verbatim>\<open>strndup (buf, c - 1)\<close>, which ends
  at a NUL byte if there is one.
\<close>

record readln =
  rl_result :: "u8 list option option"
  rl_buf :: "u8 list"
  rl_calls :: "net_call list"

definition readln_iter ::
  "net_world \<Rightarrow> clock \<Rightarrow> int \<Rightarrow> nat \<Rightarrow> int \<Rightarrow> int \<Rightarrow> readln \<Rightarrow> readln"
where
  "readln_iter w elapsed s max_length start timeout x =
     (let h0 = rl_calls x; buf = rl_buf x; h1 = Gettime # h0
      in if elapsed start (ntime (w h0 Gettime)) > timeout then x\<lparr>rl_result := Some None, rl_calls := h1\<rparr>
         else
           let r = w h1 (NetRead s 1); h2 = NetRead s 1 # h1
           in if nret r = 0 \<or> nret r = - EAGAIN then x\<lparr>rl_calls := Usleep # h2\<rparr>
              else if nret r < 0 then x\<lparr>rl_result := Some None, rl_calls := h2\<rparr>
              else
                let b = hd (nbytes r)
                in if buf \<noteq> [] \<and> last buf = 13 \<and> b = 10 then
                     x\<lparr>rl_result := Some (Some (takeWhile (\<lambda>x. x \<noteq> 0) (butlast buf))), rl_calls := h2\<rparr>
                   else if Suc (length buf) = max_length then x\<lparr>rl_result := Some None, rl_calls := h2\<rparr>
                   else x\<lparr>rl_buf := buf @ [b], rl_calls := h2\<rparr>)"

definition tcp_readln ::
  "net_world \<Rightarrow> clock \<Rightarrow> int \<Rightarrow> u16 \<Rightarrow> int \<Rightarrow> u16 \<Rightarrow> net_call list \<Rightarrow> (u8 list option \<times> net_call list) option"
where
  "tcp_readln w elapsed s max_length start timeout h =
     map_option (\<lambda>x. (the (rl_result x), rl_calls x))
       (while_option (\<lambda>x. rl_result x = None)
          (readln_iter w elapsed s (unat max_length) start (uint timeout))
          \<lparr>rl_result = None, rl_buf = [], rl_calls = h\<rparr>)"

section \<open>Transfers\<close>

text \<open>
  The variables of the two transfer loops: \<^verbatim>\<open>step\<close>, \<^verbatim>\<open>left\<close>, \<^verbatim>\<open>received\<close> or \<^verbatim>\<open>sent\<close>, \<^verbatim>\<open>t\<close>, and the bytes
  that have arrived in the buffer. The loops differ in the call they make and in the timeout:
  \<open>op off n\<close> is the call for \<open>n\<close> bytes at offset \<open>off\<close>.
\<close>

record xfer =
  xstep :: u32
  xleft :: u32
  xdone :: u32
  xtime :: int
  xdata :: "u8 list"

definition xfer_block :: "u32 \<Rightarrow> u32" where
  "xfer_block left = (if left > 2048 then 2048 else left)"

definition xfer_advance ::
  "net_world \<Rightarrow> bool \<Rightarrow> net_reply \<Rightarrow> xfer \<Rightarrow> net_call list \<Rightarrow> xfer \<times> net_call list" where
  "xfer_advance w report r x h =
     (let x1 = x\<lparr>xdone := xdone x + word_of_int (nret r), xleft := xleft x - word_of_int (nret r),
                xdata := xdata x @ nbytes r\<rparr>;
          (x2, h1) = (if xdone x1 div TCP_BLOCK_SIZE > xstep x1
                      then (x1\<lparr>xtime := ntime (w h Gettime), xstep := xstep x1 + 1\<rparr>, Gettime # h)
                      else (x1, h))
      in (x2, if report then Progress (xdone x2) # h1 else h1))"

text \<open>One iteration: whether the loop goes on, the variables and the calls.\<close>

definition xfer_iter ::
  "net_world \<Rightarrow> clock \<Rightarrow> (u32 \<Rightarrow> u32 \<Rightarrow> net_call) \<Rightarrow> int \<Rightarrow> bool \<Rightarrow> xfer \<Rightarrow> net_call list
     \<Rightarrow> bool \<times> xfer \<times> net_call list"
where
  "xfer_iter w elapsed op timeout report x h0 =
     (let h1 = Gettime # h0
      in if elapsed (xtime x) (ntime (w h0 Gettime)) > timeout then (False, x, h1)
         else
           let e = op (xdone x) (xfer_block (xleft x)); r = w h1 e; h2 = e # h1
           in if nret r = 0 \<or> nret r = - EAGAIN then (True, x, Usleep # h2)
              else if nret r < 0 then (False, x, h2)
              else (True, xfer_advance w report r x h2))"

definition xfer_loop ::
  "net_world \<Rightarrow> clock \<Rightarrow> (u32 \<Rightarrow> u32 \<Rightarrow> net_call) \<Rightarrow> int \<Rightarrow> bool \<Rightarrow> xfer \<Rightarrow> net_call list
     \<Rightarrow> (xfer \<times> net_call list) option"
where
  "xfer_loop w elapsed op timeout report x h =
     map_option snd (while_option (\<lambda>(go, x, h). go \<and> xleft x \<noteq> 0)
       (\<lambda>(go, x, h). xfer_iter w elapsed op timeout report x h) (True, x, h))"

definition xfer_start :: "net_world \<Rightarrow> u32 \<Rightarrow> net_call list \<Rightarrow> xfer" where
  "xfer_start w n h = \<lparr>xstep = 0, xleft = n, xdone = 0, xtime = ntime (w h Gettime), xdata = []\<rparr>"

text \<open>The result, the bytes in the buffer and the calls made.\<close>

definition tcp_read ::
  "net_world \<Rightarrow> clock \<Rightarrow> int \<Rightarrow> u32 \<Rightarrow> bool \<Rightarrow> net_call list \<Rightarrow> (bool \<times> u8 list \<times> net_call list) option"
where
  "tcp_read w elapsed s n report h =
     map_option (\<lambda>(x, h'). (xleft x = 0, xdata x, h'))
       (xfer_loop w elapsed (\<lambda>off k. NetRead s k) TCP_BLOCK_RECV_TIMEOUT report (xfer_start w n h) (Gettime # h))"

definition write_op :: "int \<Rightarrow> u8 list \<Rightarrow> u32 \<Rightarrow> u32 \<Rightarrow> net_call" where
  "write_op s buffer off k = NetWrite s (take (unat k) (drop (unat off) buffer))"

definition tcp_write ::
  "net_world \<Rightarrow> clock \<Rightarrow> int \<Rightarrow> u8 list \<Rightarrow> u32 \<Rightarrow> bool \<Rightarrow> net_call list \<Rightarrow> (bool \<times> net_call list) option"
where
  "tcp_write w elapsed s buffer n report h =
     map_option (\<lambda>(x, h'). (xleft x = 0, h'))
       (xfer_loop w elapsed (write_op s buffer) TCP_BLOCK_SEND_TIMEOUT report (xfer_start w n h) (Gettime # h))"

section \<open>What a transfer moves\<close>

text \<open>
  The documented behaviour of the network calls: a read or write never reports more bytes than it
  was given room for, and a read delivers the bytes it reports.
\<close>

definition honest :: "net_world \<Rightarrow> bool" where
  "honest w \<longleftrightarrow> (\<forall>h s n. nret (w h (NetRead s n)) \<le> int (unat n)
     \<and> (0 < nret (w h (NetRead s n)) \<longrightarrow> int (length (nbytes (w h (NetRead s n)))) = nret (w h (NetRead s n))))
     \<and> (\<forall>h s bs. nret (w h (NetWrite s bs)) \<le> int (length bs))"

text \<open>The bytes that arrived from a socket and the bytes it accepted, over a history.\<close>

fun received :: "net_world \<Rightarrow> int \<Rightarrow> net_call list \<Rightarrow> u8 list" where
  "received w s [] = []"
| "received w s (NetRead s' k # h) = received w s h @
     (if s' = s \<and> 0 < nret (w h (NetRead s' k)) then nbytes (w h (NetRead s' k)) else [])"
| "received w s (e # h) = received w s h"

fun sent :: "net_world \<Rightarrow> int \<Rightarrow> net_call list \<Rightarrow> u8 list" where
  "sent w s [] = []"
| "sent w s (NetWrite s' bs # h) = sent w s h @
     (if s' = s then take (nat (nret (w h (NetWrite s' bs)))) bs else [])"
| "sent w s (e # h) = sent w s h"

text \<open>One successful call moves between one byte and a block.\<close>

lemma xfer_block_le: "unat (xfer_block left) \<le> unat left" "unat (xfer_block left) \<le> 2048"
  by (auto simp: xfer_block_def word_less_nat_alt)

lemma xfer_advance_amounts:
  assumes "xfer_advance w report r x h = (x', h')" and "0 < nret r" and "nret r \<le> int (unat (xfer_block (xleft x)))"
    and "unat (xdone x) + unat (xleft x) = N" and "N < 4294967296"
  shows "unat (xdone x') = unat (xdone x) + nat (nret r)" and "unat (xleft x') = unat (xleft x) - nat (nret r)"
    and "xdata x' = xdata x @ nbytes r" and "nat (nret r) \<le> unat (xleft x)"
proof -
  define k where "k = nat (nret r)"
  have k: "nret r = int k" "k \<le> unat (xleft x)" "0 < k"
    using assms(2,3) xfer_block_le(1)[of "xleft x"] unfolding k_def by linarith+
  then have kb: "k < 4294967296" using assms(4,5) by simp
  have x': "xdone x' = xdone x + of_nat k" "xleft x' = xleft x - of_nat k" "xdata x' = xdata x @ nbytes r"
    using assms(1) by (auto simp: xfer_advance_def Let_def k split: if_splits)
  show "unat (xdone x') = unat (xdone x) + nat (nret r)"
    using k assms(4,5) kb by (simp add: x' unat_word_ariths)
  show "unat (xleft x') = unat (xleft x) - nat (nret r)"
    using k kb by (simp add: x' unat_sub_if')
  show "xdata x' = xdata x @ nbytes r" by (rule x'(3))
  show "nat (nret r) \<le> unat (xleft x)" using k by simp
qed

lemma advance_history:
  assumes "xfer_advance w report r x h = (x', h')"
  shows "received w s h' = received w s h" and "sent w s h' = sent w s h"
  using assms by (auto simp: xfer_advance_def Let_def split: if_splits)

text \<open>The invariant rule of the two loops.\<close>

lemma xfer_loop_rule:
  assumes "xfer_loop w elapsed op timeout report x h = Some (x', h')" and "I x h"
    and "\<And>x h go y k. I x h \<Longrightarrow> xleft x \<noteq> 0 \<Longrightarrow> xfer_iter w elapsed op timeout report x h = (go, y, k) \<Longrightarrow> I y k"
  shows "I x' h'"
proof -
  obtain go where "while_option (\<lambda>(go, x, h). go \<and> xleft x \<noteq> 0)
      (\<lambda>(go, x, h). xfer_iter w elapsed op timeout report x h) (True, x, h) = Some (go, x', h')"
    using assms(1) unfolding xfer_loop_def by (cases "while_option (\<lambda>(go, x, h). go \<and> xleft x \<noteq> 0)
      (\<lambda>(go, x, h). xfer_iter w elapsed op timeout report x h) (True, x, h)") (simp_all, metis prod.collapse)
  then have "(\<lambda>(go, x, h). I x h) (go, x', h')"
    by (rule while_option_rule[rotated]) (use assms(2,3) in \<open>auto\<close>)
  then show ?thesis by simp
qed

lemma xfer_iter_cases:
  assumes "xfer_iter w elapsed op timeout report x h = (go, y, k)"
  defines "e \<equiv> op (xdone x) (xfer_block (xleft x))"
  defines "r \<equiv> w (Gettime # h) e"
  obtains (timeout) "\<not> go" "y = x" "k = Gettime # h"
    | (wait) "go" "y = x" "k = Usleep # e # Gettime # h" "nret r \<le> 0"
        "\<not> elapsed (xtime x) (ntime (w h Gettime)) > timeout"
    | (fail) "\<not> go" "y = x" "k = e # Gettime # h" "nret r \<le> 0"
    | (move) "go" "0 < nret r" "xfer_advance w report r x (e # Gettime # h) = (y, k)"
        "\<not> elapsed (xtime x) (ntime (w h Gettime)) > timeout"
proof (cases "elapsed (xtime x) (ntime (w h Gettime)) > timeout")
  case True
  then show ?thesis using assms(1) that(1) by (simp add: xfer_iter_def)
next
  case False
  have eq: "xfer_iter w elapsed op timeout report x h =
      (if nret r = 0 \<or> nret r = - EAGAIN then (True, x, Usleep # e # Gettime # h)
       else if nret r < 0 then (False, x, e # Gettime # h)
       else (True, xfer_advance w report r x (e # Gettime # h)))"
    using False by (simp add: xfer_iter_def Let_def e_def r_def)
  show ?thesis
    using assms(1) that(2-4) False unfolding eq by (auto simp: EAGAIN_def split: if_splits)
qed

lemma tcp_read_received:
  assumes "honest w" and "tcp_read w elapsed s n report h = Some (ok, data, h')"
  shows "received w s h' = received w s h @ data \<and> length data \<le> unat n \<and> (ok \<longleftrightarrow> length data = unat n)"
proof -
  let ?op = "\<lambda>off k. NetRead s k"
  let ?I = "\<lambda>x k. unat (xdone x) + unat (xleft x) = unat n \<and> length (xdata x) = unat (xdone x)
    \<and> received w s k = received w s h @ xdata x"
  obtain x where x: "xfer_loop w elapsed ?op TCP_BLOCK_RECV_TIMEOUT report (xfer_start w n h) (Gettime # h) = Some (x, h')"
    "ok \<longleftrightarrow> xleft x = 0" "data = xdata x"
    using assms(2) by (auto simp: tcp_read_def)
  have "?I x h'"
  proof (rule xfer_loop_rule[where I = ?I, OF x(1)])
    show "?I (xfer_start w n h) (Gettime # h)" by (simp add: xfer_start_def)
    fix x k go y k'
    assume I: "?I x k" and it: "xfer_iter w elapsed ?op TCP_BLOCK_RECV_TIMEOUT report x k = (go, y, k')"
    from it show "?I y k'"
    proof (cases rule: xfer_iter_cases)
      case move
      let ?b = "xfer_block (xleft x)" let ?r = "w (Gettime # k) (NetRead s ?b)"
      have r: "nret ?r \<le> int (unat ?b)" "int (length (nbytes ?r)) = nret ?r"
        using assms(1) move(2) unfolding honest_def by blast+
      have N: "unat n < 4294967296" using unsigned_less[of n, where ?'a = nat] by simp
      note a = xfer_advance_amounts[OF move(3) move(2) r(1) _ N] and b = advance_history(1)[OF move(3)]
      show ?thesis using a b I r(2) move(2) by simp
    qed (use I in \<open>auto split: if_splits\<close>)
  qed
  then show ?thesis using x by (auto simp: unat_eq_0)
qed

text \<open>
  C25: when \<^verbatim>\<open>tcp_read\<close> returns, the buffer holds exactly the bytes the socket delivered meanwhile, never
  more than asked for, and the result is true if and only if all of them have arrived.
\<close>

theorem tcp_read_complete:
  assumes "honest w" and "tcp_read w elapsed s n report h = Some (ok, data, h')"
  shows "received w s h' = received w s h @ data \<and> length data \<le> unat n \<and> (ok \<longleftrightarrow> length data = unat n)"
  using assms by (rule tcp_read_received)

text \<open>
  When \<^verbatim>\<open>tcp_write\<close> returns, the socket has accepted a prefix of the buffer, without a gap or a
  repetition whatever the sizes of the partial writes, and the result is true if and only if it is
  the whole buffer.
\<close>

lemma tcp_write_complete:
  assumes "honest w" and "unat n \<le> length buffer" and "tcp_write w elapsed s buffer n report h = Some (ok, h')"
  shows "\<exists>m\<le>unat n. sent w s h' = sent w s h @ take m buffer \<and> (ok \<longleftrightarrow> m = unat n)"
proof -
  let ?I = "\<lambda>x k. unat (xdone x) + unat (xleft x) = unat n
    \<and> sent w s k = sent w s h @ take (unat (xdone x)) buffer"
  obtain x where x: "xfer_loop w elapsed (write_op s buffer) TCP_BLOCK_SEND_TIMEOUT report (xfer_start w n h) (Gettime # h)
      = Some (x, h')" "ok \<longleftrightarrow> xleft x = 0"
    using assms(3) by (auto simp: tcp_write_def)
  have "?I x h'"
  proof (rule xfer_loop_rule[where I = ?I, OF x(1)])
    show "?I (xfer_start w n h) (Gettime # h)" by (simp add: xfer_start_def)
    fix x k go y k'
    assume I: "?I x k" and it: "xfer_iter w elapsed (write_op s buffer) TCP_BLOCK_SEND_TIMEOUT report x k = (go, y, k')"
    from it show "?I y k'"
    proof (cases rule: xfer_iter_cases)
      case move
      let ?b = "xfer_block (xleft x)" let ?bs = "take (unat ?b) (drop (unat (xdone x)) buffer)"
      let ?r = "w (Gettime # k) (NetWrite s ?bs)"
      have m: "0 < nret ?r" "xfer_advance w report ?r x (NetWrite s ?bs # Gettime # k) = (y, k')"
        using move by (simp_all add: write_op_def)
      have "nret ?r \<le> int (length ?bs)" using assms(1) unfolding honest_def by blast
      moreover have "length ?bs \<le> unat ?b" by simp
      ultimately have r: "nret ?r \<le> int (unat ?b)" by linarith
      have N: "unat n < 4294967296" using unsigned_less[of n, where ?'a = nat] by simp
      note a = xfer_advance_amounts[OF m(2) m(1) r _ N]
      have le: "nat (nret ?r) \<le> unat ?b" using r by linarith
      have "sent w s k' = sent w s k @ take (nat (nret ?r)) ?bs"
        using advance_history(2)[OF m(2)] by simp
      also have "take (nat (nret ?r)) ?bs = take (nat (nret ?r)) (drop (unat (xdone x)) buffer)"
        using le by (simp add: min_def)
      finally show ?thesis using a I by (simp add: take_add)
    qed (use I in \<open>auto simp: write_op_def\<close>)
  qed
  then show ?thesis using x(2) by (intro exI[of _ "unat (xdone x)"]) (auto simp: unat_eq_0)
qed

text \<open>A write receives nothing.\<close>

lemma tcp_write_received:
  assumes "tcp_write w elapsed s buffer n report h = Some (ok, h')"
  shows "received w s' h' = received w s' h"
proof -
  obtain x where "xfer_loop w elapsed (write_op s buffer) TCP_BLOCK_SEND_TIMEOUT report (xfer_start w n h) (Gettime # h) = Some (x, h')"
    using assms by (auto simp: tcp_write_def)
  then show ?thesis
  proof (rule xfer_loop_rule[where I = "\<lambda>_ k. received w s' k = received w s' h"])
    fix x k go y k'
    assume I: "received w s' k = received w s' h" and it: "xfer_iter w elapsed (write_op s buffer) TCP_BLOCK_SEND_TIMEOUT report x k = (go, y, k')"
    from it show "received w s' k' = received w s' h"
    proof (cases rule: xfer_iter_cases)
      case move
      then show ?thesis using I advance_history(1)[OF move(3)] by (simp add: write_op_def)
    qed (use I in \<open>simp_all add: write_op_def\<close>)
  qed simp
qed

section \<open>Transfers return\<close>

definition polls :: "net_call list \<Rightarrow> nat" where
  "polls hs = length (filter (\<lambda>e. e = Gettime) hs)"

text \<open>
  A clock that advances: once the time has been read \<open>K\<close> more times after it was taken, the timeout is
  over. The loops sleep between two polls, so a real clock does this for some \<open>K\<close>.
\<close>

definition ticking :: "net_world \<Rightarrow> clock \<Rightarrow> int \<Rightarrow> nat \<Rightarrow> bool" where
  "ticking w elapsed timeout K \<longleftrightarrow> (\<forall>h hs. K \<le> polls hs \<longrightarrow>
     elapsed (ntime (w h Gettime)) (ntime (w (hs @ Gettime # h) Gettime)) > timeout)"

text \<open>The time in \<open>t\<close> was taken \<open>c\<close> polls ago.\<close>

definition taken :: "net_world \<Rightarrow> int \<Rightarrow> nat \<Rightarrow> net_call list \<Rightarrow> bool" where
  "taken w t c k \<longleftrightarrow> (\<exists>h hs. k = hs @ Gettime # h \<and> t = ntime (w h Gettime) \<and> polls hs = c)"

lemma taken_start: "taken w (ntime (w h Gettime)) 0 (Gettime # h)"
  unfolding taken_def by (intro exI[of _ h] exI[of _ "[]"]) (simp add: polls_def)

lemma taken_more: "taken w t c k \<Longrightarrow> taken w t (c + polls es) (es @ k)"
  unfolding taken_def by (elim exE conjE, rule_tac x = h in exI, rule_tac x = "es @ hs" in exI)
    (simp add: polls_def)

lemma taken_timeout:
  "taken w t c k \<Longrightarrow> ticking w elapsed timeout K \<Longrightarrow> \<not> elapsed t (ntime (w k Gettime)) > timeout \<Longrightarrow> c < K"
  unfolding taken_def ticking_def by (metis not_less)

definition xfer_measure :: "nat \<Rightarrow> xfer \<Rightarrow> nat \<Rightarrow> nat" where
  "xfer_measure K x c = unat (xleft x) * (K + 2) + (K - c)"

lemma xfer_advance_taken:
  assumes "xfer_advance w report r x h = (x', h')" and "taken w (xtime x) c h"
  shows "\<exists>c'. taken w (xtime x') c' h'"
proof -
  have t: "\<exists>c'. taken w t c' (Progress p # k)" if "taken w t c' k" for t c' k p
    using taken_more[OF that, of "[Progress p]"] by (auto simp: polls_def)
  show ?thesis
    using assms taken_start[of w h] by (auto simp: xfer_advance_def Let_def split: if_splits intro: t)
qed

lemma xfer_loop_unfold:
  "xfer_loop w elapsed op timeout report x h =
     (if xleft x = 0 then Some (x, h)
      else (case xfer_iter w elapsed op timeout report x h of
              (go, y, k) \<Rightarrow> if go then xfer_loop w elapsed op timeout report y k else Some (y, k)))"
  unfolding xfer_loop_def by (subst while_option_unfold, auto split: prod.split intro: exI[of _ False], subst while_option_unfold, auto intro: exI[of _ False])

lemma xfer_loop_returns:
  assumes tick: "ticking w elapsed timeout K" and bound: "\<And>h off k. nret (w h (op off k)) \<le> int (unat k)"
  shows "taken w (xtime x) c h \<Longrightarrow> unat (xdone x) + unat (xleft x) < 4294967296 \<Longrightarrow>
    \<exists>r. xfer_loop w elapsed op timeout report x h = Some r"
proof (induction "xfer_measure K x c" arbitrary: x c h rule: less_induct)
  case less
  obtain go y k where it: "xfer_iter w elapsed op timeout report x h = (go, y, k)" by (metis prod_cases3)
  show ?case
  proof (cases "xleft x = 0 \<or> \<not> go")
    case True
    then show ?thesis by (subst xfer_loop_unfold) (auto simp: it)
  next
    case False
    let ?e = "op (xdone x) (xfer_block (xleft x))"
    have "\<exists>r. xfer_loop w elapsed op timeout report y k = Some r"
      using it
    proof (cases rule: xfer_iter_cases)
      case wait
      have c: "c < K" by (rule taken_timeout[OF less.prems(1) tick wait(5)])
      have "taken w (xtime y) (c + polls [Usleep, ?e, Gettime]) k"
        using taken_more[OF less.prems(1), of "[Usleep, ?e, Gettime]"] wait by simp
      moreover have "1 \<le> polls [Usleep, ?e, Gettime]" by (simp add: polls_def)
      then have "xfer_measure K y (c + polls [Usleep, ?e, Gettime]) < xfer_measure K x c"
        using c unfolding wait(2) xfer_measure_def by linarith
      ultimately show ?thesis using less.hyps[of y] less.prems(2) wait(2) by blast
    next
      case move
      note a = xfer_advance_amounts[OF move(3) move(2) bound refl less.prems(2)]
      have "taken w (xtime x) (c + polls [?e, Gettime]) (?e # Gettime # h)"
        using taken_more[OF less.prems(1), of "[?e, Gettime]"] by simp
      then obtain c' where c': "taken w (xtime y) c' k" using xfer_advance_taken[OF move(3)] by blast
      have "unat (xleft y) < unat (xleft x)" using a move(2) by linarith
      then have "Suc (unat (xleft y)) * (K + 2) \<le> unat (xleft x) * (K + 2)" by (intro mult_right_mono) simp_all
      then have "xfer_measure K y c' < xfer_measure K x c" by (simp add: xfer_measure_def)
      moreover have "unat (xdone y) + unat (xleft y) < 4294967296" using a less.prems(2) by linarith
      ultimately show ?thesis using less.hyps[of y] c' by blast
    qed (use False in auto)
    then show ?thesis using False by (subst xfer_loop_unfold) (auto simp: it)
  qed
qed

text \<open>
  C29: on a clock that advances a read returns, however the peer behaves: it may send one byte at a time,
  fall silent or fail.
\<close>

theorem tcp_read_returns:
  assumes "honest w" and "ticking w elapsed TCP_BLOCK_RECV_TIMEOUT K"
  shows "\<exists>ok data h'. tcp_read w elapsed s n report h = Some (ok, data, h')"
proof -
  have "\<exists>r. xfer_loop w elapsed (\<lambda>off k. NetRead s k) TCP_BLOCK_RECV_TIMEOUT report (xfer_start w n h) (Gettime # h) = Some r"
  proof (rule xfer_loop_returns[OF assms(2)])
    show "nret (w h (NetRead s k)) \<le> int (unat k)" for h k using assms(1) unfolding honest_def by blast
    show "taken w (xtime (xfer_start w n h)) 0 (Gettime # h)" using taken_start[of w h] by (simp add: xfer_start_def)
    show "unat (xdone (xfer_start w n h)) + unat (xleft (xfer_start w n h)) < 4294967296"
      using unsigned_less[of n, where ?'a = nat] by (simp add: xfer_start_def)
  qed
  then show ?thesis by (auto simp: tcp_read_def)
qed

text \<open>A peer that sends one byte at a time, on a fast clock.\<close>

definition slow_peer :: net_world where
  "slow_peer h e = (case e of
     NetRead s n \<Rightarrow> \<lparr>nret = (if n = 0 then 0 else 1), nbytes = [7], ntime = 0, naddr = 0\<rparr>
   | NetWrite s bs \<Rightarrow> \<lparr>nret = (if bs = [] then 0 else 1), nbytes = [], ntime = 0, naddr = 0\<rparr>
   | _ \<Rightarrow> \<lparr>nret = 0, nbytes = [], ntime = 10000 * int (length h), naddr = 0\<rparr>)"

lemma slow_peer_honest: "honest slow_peer"
proof -
  have "1 \<le> uint n" if "n \<noteq> 0" for n :: u32
  proof -
    have "uint n \<noteq> 0" using that by (simp add: uint_0_iff)
    then show ?thesis using uint_ge_0[of n] by linarith
  qed
  then show ?thesis by (auto simp: honest_def slow_peer_def Suc_le_eq)
qed

lemma slow_peer_ticks: "ticking slow_peer (\<lambda>t now. now - t) TCP_BLOCK_RECV_TIMEOUT 1"
proof -
  have "hs \<noteq> []" if "1 \<le> polls hs" for hs
    using that by (auto simp: polls_def)
  then show ?thesis by (fastforce simp: ticking_def slow_peer_def TCP_BLOCK_RECV_TIMEOUT_def neq_Nil_conv)
qed

theorem tcp_read_returns_witness:
  "\<exists>ok data h'. tcp_read slow_peer (\<lambda>t now. now - t) 3 2 False [] = Some (ok, data, h')"
  by (rule tcp_read_returns[OF slow_peer_honest slow_peer_ticks])

text \<open>The time runs out: for the read after the first byte, for the write before it.\<close>

lemma slow_peer_reads: "\<exists>h'. tcp_read slow_peer (\<lambda>t now. now - t) 3 2 False [] = Some (False, [7], h')"
  by (simp add: tcp_read_def xfer_start_def xfer_loop_unfold xfer_iter_def xfer_advance_def Let_def slow_peer_def
      xfer_block_def TCP_BLOCK_RECV_TIMEOUT_def TCP_BLOCK_SIZE_def EAGAIN_def)

lemma slow_peer_accepts: "\<exists>h'. tcp_write slow_peer (\<lambda>t now. now - t) 3 [1, 2] 2 False [] = Some (False, h')"
  by (simp add: tcp_write_def write_op_def xfer_start_def xfer_loop_unfold xfer_iter_def xfer_advance_def Let_def
      slow_peer_def xfer_block_def TCP_BLOCK_SEND_TIMEOUT_def TCP_BLOCK_SIZE_def EAGAIN_def)

theorem tcp_read_complete_witness:
  "\<exists>h'. tcp_read slow_peer (\<lambda>t now. now - t) 3 2 False [] = Some (False, [7], h') \<and> received slow_peer 3 h' = [7]"
proof -
  obtain h' where run: "tcp_read slow_peer (\<lambda>t now. now - t) 3 2 False [] = Some (False, [7], h')"
    using slow_peer_reads by blast
  from tcp_read_complete[OF slow_peer_honest run] run show ?thesis by auto
qed

lemma tcp_write_complete_example:
  "\<exists>h' m. tcp_write slow_peer (\<lambda>t now. now - t) 3 [1, 2] 2 False [] = Some (False, h')
     \<and> m < 2 \<and> sent slow_peer 3 h' = take m [1, 2]"
proof -
  obtain h' where run: "tcp_write slow_peer (\<lambda>t now. now - t) 3 [1, 2] 2 False [] = Some (False, h')"
    using slow_peer_accepts by blast
  from tcp_write_complete[OF slow_peer_honest _ run] obtain m
    where "m \<le> 2" "m \<noteq> 2" "sent slow_peer 3 h' = take m [1, 2]" by auto
  with run show ?thesis by (intro exI[of _ h'] exI[of _ m]) simp
qed

section \<open>Sockets\<close>

fun open_socks :: "net_world \<Rightarrow> net_call list \<Rightarrow> int list" where
  "open_socks w [] = []"
| "open_socks w (NetSocket # h) =
     (let r = nret (w h NetSocket) in if r < 0 then open_socks w h else r # open_socks w h)"
| "open_socks w (NetAccept s # h) =
     (let r = nret (w h (NetAccept s)) in if r < 0 then open_socks w h else r # open_socks w h)"
| "open_socks w (NetClose s # h) = remove1 s (open_socks w h)"
| "open_socks w (e # h) = open_socks w h"

lemma tcp_socket_open:
  assumes "tcp_socket w h = (s, h')"
  shows "open_socks w h' = (if s < 0 then open_socks w h else s # open_socks w h)"
  using assms by (auto simp: tcp_socket_def Let_def split: if_splits)

lemma connect_loop_open:
  assumes "connect_loop w elapsed s addr port t h = Some (r, h')" and "0 \<le> s" and "open_socks w h = s # ss"
  shows "open_socks w h' = (if r < 0 then ss else r # ss)"
proof -
  let ?I = "\<lambda>(r, k). (case r of None \<Rightarrow> open_socks w k = s # ss
    | Some r \<Rightarrow> open_socks w k = (if r < 0 then ss else r # ss))"
  obtain x where x: "while_option (\<lambda>(r, h). r = None) (\<lambda>(r, h). connect_iter w elapsed s addr port t h) (None, h)
      = Some (x, h')" "r = the x"
    using assms(1) by (auto simp: connect_loop_def)
  then have "x \<noteq> None" using while_option_stop[OF x(1)] by simp
  moreover have "?I (x, h')"
    using x(1)
  proof (rule while_option_rule[rotated])
    show "?I (None, h)" using assms(3) by simp
    show "?I (case y of (r, h) \<Rightarrow> connect_iter w elapsed s addr port t h)"
      if "?I y" "case y of (r, h) \<Rightarrow> r = None" for y
      using that assms(2) by (auto simp: connect_iter_def Let_def ETIMEDOUT_def split: if_splits)
  qed
  ultimately show ?thesis using x(2) by auto
qed

lemma tcp_connect_open:
  assumes "tcp_connect w elapsed host port h = Some (r, h')"
  shows "if nret (w h (NetGethostbyname host)) = 0
    then r = nret (w (NetGethostbyname host # h) NetErrno) \<and> open_socks w h' = open_socks w h
    else open_socks w h' = (if r < 0 then open_socks w h else r # open_socks w h)"
proof (cases "nret (w h (NetGethostbyname host)) = 0")
  case True
  then show ?thesis using assms by (auto simp: tcp_connect_def Let_def)
next
  case False
  obtain s h2 where s: "tcp_socket w (NetGethostbyname host # h) = (s, h2)" by fastforce
  note o = tcp_socket_open[OF s]
  show ?thesis
  proof (cases "s < 0")
    case True
    then show ?thesis using assms False s o by (auto simp: tcp_connect_def)
  next
    case nonneg: False
    then have "connect_loop w elapsed s (naddr (w h (NetGethostbyname host))) port (ntime (w h2 Gettime))
        (Gettime # h2) = Some (r, h')"
      using assms False s by (simp add: tcp_connect_def Let_def)
    from connect_loop_open[OF this] show ?thesis using nonneg o False by simp
  qed
qed

text \<open>
  C38: \<^verbatim>\<open>tcp_connect\<close> leaves exactly the socket it returns open, and none when it returns an error; but when
  the host name does not resolve it returns \<^verbatim>\<open>errno\<close> itself, so that a positive error number is
  indistinguishable from a socket, and no socket is open under it.
\<close>

theorem tcp_connect_socket:
  assumes "tcp_connect w elapsed host port h = Some (r, h')"
  shows "if nret (w h (NetGethostbyname host)) = 0
    then r = nret (w (NetGethostbyname host # h) NetErrno) \<and> open_socks w h' = open_socks w h
    else open_socks w h' = (if r < 0 then open_socks w h else r # open_socks w h)"
  using assms by (rule tcp_connect_open)

lemma tcp_listen_open:
  assumes "tcp_listen w port backlog h = (r, h')"
  shows "open_socks w h' = (if r < 0 then open_socks w h else r # open_socks w h)"
proof -
  obtain s h1 where s: "tcp_socket w h = (s, h1)" by fastforce
  show ?thesis
    using assms tcp_socket_open[OF s] s by (auto simp: tcp_listen_def Let_def split: if_splits)
qed

theorem tcp_connect_socket_witness:
  "\<exists>h'. tcp_connect (\<lambda>_ _. \<lparr>nret = 0, nbytes = [], ntime = 0, naddr = 0\<rparr>) (\<lambda>_ _. 0) [1] 80 [] = Some (0, h')
     \<and> open_socks (\<lambda>_ _. \<lparr>nret = 0, nbytes = [], ntime = 0, naddr = 0\<rparr>) h' = []"
proof -
  have "tcp_connect (\<lambda>_ _. \<lparr>nret = 0, nbytes = [], ntime = 0, naddr = 0\<rparr>) (\<lambda>_ _. 0) [1] 80 []
      = Some (0, [NetErrno, NetGethostbyname [1]])"
    by (simp add: tcp_connect_def)
  from tcp_connect_socket[OF this] this show ?thesis by simp
qed

section \<open>Lines\<close>

definition no_crlf :: "u8 list \<Rightarrow> bool" where
  "no_crlf bs \<longleftrightarrow> (\<forall>i. Suc i < length bs \<longrightarrow> \<not> (bs ! i = 13 \<and> bs ! Suc i = 10))"

lemma no_crlf_snoc:
  "no_crlf bs \<Longrightarrow> \<not> (bs \<noteq> [] \<and> last bs = 13 \<and> b = 10) \<Longrightarrow> no_crlf (bs @ [b])"
proof -
  assume a: "no_crlf bs" "\<not> (bs \<noteq> [] \<and> last bs = 13 \<and> b = 10)"
  have "\<not> ((bs @ [b]) ! i = 13 \<and> (bs @ [b]) ! Suc i = 10)" if i: "Suc i < length (bs @ [b])" for i
  proof (cases "Suc i < length bs")
    case True
    then show ?thesis using a(1) by (auto simp: no_crlf_def nth_append)
  next
    case False
    then have n: "length bs = Suc i" using i by simp
    then have "last bs = bs ! i" by (subst last_conv_nth) auto
    with n show ?thesis using a(2) by (auto simp: nth_append)
  qed
  then show ?thesis by (auto simp: no_crlf_def)
qed

text \<open>
  A line that \<^verbatim>\<open>tcp_readln\<close> returns is what the socket delivered up to its first CR LF, which is
  consumed and not part of the line (cut at a NUL byte, if it has one), and it is at least two bytes
  shorter than the limit.
\<close>

lemma tcp_readln_line:
  assumes "honest w" and "0 < max_length" and "tcp_readln w elapsed s max_length start timeout h = Some (Some line, h')"
  shows "\<exists>raw. received w s h' = received w s h @ raw @ [13, 10] \<and> no_crlf (raw @ [13])
    \<and> line = takeWhile (\<lambda>b. b \<noteq> 0) raw \<and> length raw + 2 \<le> unat max_length"
proof -
  let ?iter = "readln_iter w elapsed s (unat max_length) start (uint timeout)"
  let ?x0 = "\<lparr>rl_result = None, rl_buf = [], rl_calls = h\<rparr>"
  let ?I = "\<lambda>x :: readln. (case rl_result x of
      None \<Rightarrow> received w s (rl_calls x) = received w s h @ rl_buf x \<and> no_crlf (rl_buf x)
        \<and> length (rl_buf x) < unat max_length
    | Some None \<Rightarrow> True
    | Some (Some l) \<Rightarrow> (\<exists>raw. received w s (rl_calls x) = received w s h @ raw @ [13, 10] \<and> no_crlf (raw @ [13])
        \<and> l = takeWhile (\<lambda>b. b \<noteq> 0) raw \<and> length raw + 2 \<le> unat max_length))"
  obtain x where x: "while_option (\<lambda>x. rl_result x = None) ?iter ?x0 = Some x"
    "rl_result x = Some (Some line)" "h' = rl_calls x"
    using assms(3) while_option_stop[of "\<lambda>x. rl_result x = None" ?iter ?x0]
    by (auto simp: tcp_readln_def)
  have "?I x"
    using x(1)
  proof (rule while_option_rule[rotated])
    show "?I ?x0" using assms(2) by (simp add: no_crlf_def word_less_nat_alt)
    fix y assume I: "?I y" and go: "rl_result y = None"
    let ?k = "rl_calls y" let ?r = "w (Gettime # ?k) (NetRead s 1)"
    have I': "received w s ?k = received w s h @ rl_buf y" "no_crlf (rl_buf y)" "length (rl_buf y) < unat max_length"
      using I go by simp_all
    show "?I (?iter y)"
    proof (cases "0 < nret ?r \<and> \<not> elapsed start (ntime (w ?k Gettime)) > uint timeout")
      case False
      then show ?thesis using I' go by (auto simp: readln_iter_def Let_def EAGAIN_def)
    next
      case True
      have "nret ?r \<le> int (unat (1 :: u32))" "int (length (nbytes ?r)) = nret ?r"
        using assms(1) True unfolding honest_def by blast+
      then have "length (nbytes ?r) = 1" using True by simp
      then obtain b where b: "nbytes ?r = [b]" by (auto simp: length_Suc_conv)
      have rec: "received w s (NetRead s 1 # Gettime # ?k) = received w s h @ rl_buf y @ [b]"
        using True I'(1) b by simp
      show ?thesis
      proof (cases "rl_buf y \<noteq> [] \<and> last (rl_buf y) = 13 \<and> b = 10")
        case line: True
        then have eq: "rl_buf y = butlast (rl_buf y) @ [13]" by (metis append_butlast_last_id)
        have "length (butlast (rl_buf y)) + 2 \<le> unat max_length" using I'(3) line by simp
        then show ?thesis
          using True line I' rec b eq by (auto simp: readln_iter_def Let_def EAGAIN_def intro!: exI[of _ "butlast (rl_buf y)"])
      next
        case False
        then show ?thesis
          using True I' rec b no_crlf_snoc[OF I'(2) False] go
          by (auto simp: readln_iter_def Let_def EAGAIN_def)
      qed
    qed
  qed
  then show ?thesis using x by simp
qed

text \<open>A peer that sends two letters and CR LF.\<close>

definition greeting_peer :: net_world where
  "greeting_peer h e = (case e of
     NetRead s n \<Rightarrow>
       (let k = length (filter (\<lambda>e. case e of NetRead _ _ \<Rightarrow> True | _ \<Rightarrow> False) h)
        in \<lparr>nret = (if n \<noteq> 0 \<and> k < 4 then 1 else 0), nbytes = [[72, 105, 13, 10] ! k], ntime = 0, naddr = 0\<rparr>)
   | _ \<Rightarrow> \<lparr>nret = 0, nbytes = [], ntime = 0, naddr = 0\<rparr>)"

lemma greeting_honest: "honest greeting_peer"
proof -
  have "1 \<le> uint n" if "n \<noteq> 0" for n :: u32
  proof -
    have "uint n \<noteq> 0" using that by (simp add: uint_0_iff)
    then show ?thesis using uint_ge_0[of n] by linarith
  qed
  then show ?thesis by (auto simp: honest_def greeting_peer_def Let_def)
qed

lemma tcp_readln_line_example:
  "\<exists>h' raw. tcp_readln greeting_peer (\<lambda>t now. now - t) 3 255 0 30000 [] = Some (Some [72, 105], h')
    \<and> received greeting_peer 3 h' = raw @ [13, 10] \<and> [72, 105] = takeWhile (\<lambda>b. b \<noteq> 0) raw"
proof -
  obtain h' where run: "tcp_readln greeting_peer (\<lambda>t now. now - t) 3 255 0 30000 [] = Some (Some [72, 105], h')"
    by (simp add: tcp_readln_def while_option_unfold readln_iter_def greeting_peer_def Let_def EAGAIN_def)
  then show ?thesis using tcp_readln_line[OF greeting_honest _ run] by auto
qed

section \<open>Transfers leave the sockets alone\<close>

lemma xfer_loop_socks:
  assumes "xfer_loop w elapsed op timeout report x h = Some (x', h')"
    and "\<And>off k h. open_socks w (op off k # h) = open_socks w h"
  shows "open_socks w h' = open_socks w h"
proof (rule xfer_loop_rule[where I = "\<lambda>_ k. open_socks w k = open_socks w h", OF assms(1)])
  fix x k go y k'
  assume I: "open_socks w k = open_socks w h" and it: "xfer_iter w elapsed op timeout report x k = (go, y, k')"
  from it show "open_socks w k' = open_socks w h"
  proof (cases rule: xfer_iter_cases)
    case move
    then show ?thesis using I assms(2) by (auto simp: xfer_advance_def Let_def split: if_splits)
  qed (use I assms(2) in auto)
qed simp

lemma tcp_read_socks: "tcp_read w elapsed s n report h = Some (ok, data, h') \<Longrightarrow> open_socks w h' = open_socks w h"
  by (auto simp: tcp_read_def dest!: xfer_loop_socks)

lemma tcp_write_socks: "tcp_write w elapsed s b n report h = Some (ok, h') \<Longrightarrow> open_socks w h' = open_socks w h"
  by (auto simp: tcp_write_def write_op_def dest!: xfer_loop_socks)

lemma tcp_readln_socks:
  assumes "tcp_readln w elapsed s max_length start timeout h = Some (r, h')"
  shows "open_socks w h' = open_socks w h"
proof -
  let ?iter = "readln_iter w elapsed s (unat max_length) start (uint timeout)"
  obtain x where "while_option (\<lambda>x. rl_result x = None) ?iter \<lparr>rl_result = None, rl_buf = [], rl_calls = h\<rparr> = Some x"
    "h' = rl_calls x"
    using assms by (auto simp: tcp_readln_def)
  moreover have "open_socks w (rl_calls (?iter y)) = open_socks w (rl_calls y)" for y
    by (simp add: readln_iter_def Let_def)
  ultimately show ?thesis
    using while_option_rule[of "\<lambda>x. open_socks w (rl_calls x) = open_socks w h" "\<lambda>x. rl_result x = None" ?iter]
    by simp
qed

end
