(* ===== verification/Http.thy ===== *)
theory Http
  imports Tcp
begin

text \<open>
  \<^verbatim>\<open>channelapp/source/http.c\<close>: the background fetch of one URL. The shared argument block \<^verbatim>\<open>ta_http\<close>
  is the state, one wake-up of the thread is one function, and the C library's \<^verbatim>\<open>sscanf\<close> is written out
  for the two formats used. Socket calls are those of \<^verbatim>\<open>tcp.c\<close>.
\<close>

section \<open>Types\<close>

datatype http_cmd = HTTPCMD_IDLE | HTTPCMD_EXIT | HTTPCMD_FETCH
datatype http_state = HTTPS_IDLE | HTTPS_CONNECTING | HTTPS_REQUESTING | HTTPS_RECEIVING
datatype http_res = HTTPR_OK | HTTPR_ERR_CONNECT | HTTPR_ERR_REQUEST | HTTPR_ERR_STATUS
  | HTTPR_ERR_TOOBIG | HTTPR_ERR_RECEIVE

record http_arg =
  hrunning :: bool
  hdone :: bool
  hcmd :: http_cmd
  host :: "u8 list"
  hport :: u16
  hpath :: "u8 list"
  max_size :: u32
  sysmenu_version :: u16
  region :: "u8 list"
  area :: "u8 list"
  hstate :: http_state
  hres :: http_res
  http_status :: u32
  content_length :: u32
  progress :: u32
  hdata :: "u8 list option"

definition HTTP_TIMEOUT :: u16 where "HTTP_TIMEOUT = 30000"

abbreviation str :: "string \<Rightarrow> u8 list" where "str s \<equiv> map of_char s"

definition CHANNEL_VERSION_STR :: "u8 list" where "CHANNEL_VERSION_STR = str ''v1.2.0-alpha1''"

section \<open>Requests\<close>

fun dec :: "nat \<Rightarrow> u8 list" where
  "dec n = (if n < 10 then [of_nat (48 + n)] else dec (n div 10) @ [of_nat (48 + n mod 10)])"

declare dec.simps [simp del]

definition hex_digit :: "nat \<Rightarrow> u8" where
  "hex_digit d = (if d < 10 then of_nat (48 + d) else of_nat (87 + d))"

definition hex8 :: "u32 \<Rightarrow> u8 list" where
  "hex8 v = map (\<lambda>i. hex_digit (unat (drop_bit (28 - 4 * i) v) mod 16)) [0..<8]"

definition crlf :: "u8 list" where "crlf = [13, 10]"

definition http_request_text :: "u32 \<Rightarrow> u32 \<Rightarrow> http_arg \<Rightarrow> u8 list" where
  "http_request_text ng_id ms_id a =
     str ''GET '' @ hpath a @ str '' HTTP/1.1'' @ crlf
     @ str ''Host: '' @ host a @ crlf
     @ str ''Cache-Control: no-cache'' @ crlf
     @ str ''User-Agent: TheHomebrewChannel/'' @ CHANNEL_VERSION_STR @ str '' Wii/'' @ hex8 ng_id
     @ str '' ('' @ dec (unat ms_id) @ str ''; '' @ dec (unat (sysmenu_version a)) @ str ''; ''
     @ region a @ str ''-'' @ area a @ str '')'' @ crlf @ crlf"

text \<open>
  \<^verbatim>\<open>http_split_url\<close>: the outer option is the null pointer that \<^verbatim>\<open>strchr\<close> gives when there is no slash
  after the host, which the code dereferences; the inner one is \<^verbatim>\<open>false\<close>.
\<close>

definition lower8 :: "u8 \<Rightarrow> u8" where
  "lower8 c = (if 65 \<le> c \<and> c \<le> 90 then c + 32 else c)"

definition http_split_url :: "u8 list \<Rightarrow> (u8 list \<times> u8 list) option option" where
  "http_split_url url =
     (if map lower8 (take 7 url) \<noteq> str ''http://'' then Some None
      else
        (case dropWhile (\<lambda>c. c \<noteq> 47) (drop 7 url) of
           [] \<Rightarrow> None
         | c \<Rightarrow> Some (Some (takeWhile (\<lambda>c. c \<noteq> 47) (drop 7 url), c))))"

section \<open>Response headers\<close>

definition isspace :: "u8 \<Rightarrow> bool" where
  "isspace c \<longleftrightarrow> c = 32 \<or> (9 \<le> c \<and> c \<le> 13)"

definition isdigit8 :: "u8 \<Rightarrow> bool" where
  "isdigit8 c \<longleftrightarrow> 48 \<le> c \<and> c \<le> 57"

definition digits_value :: "u8 list \<Rightarrow> nat" where
  "digits_value ds = foldl (\<lambda>a c. a * 10 + (unat c - 48)) 0 ds"

text \<open>\<^verbatim>\<open>%u\<close>: blanks, a sign, digits; the value saturates and is negated as \<^verbatim>\<open>strtoul\<close> does.\<close>

definition scan_uint :: "u8 list \<Rightarrow> (u32 \<times> u8 list) option" where
  "scan_uint s =
     (let s1 = dropWhile isspace s;
          minus = (s1 \<noteq> [] \<and> hd s1 = 45);
          s2 = (if s1 \<noteq> [] \<and> (hd s1 = 45 \<or> hd s1 = 43) then tl s1 else s1);
          ds = takeWhile isdigit8 s2;
          v = (of_nat (min (digits_value ds) 4294967295) :: u32)
      in if ds = [] then None else Some (if minus then - v else v, dropWhile isdigit8 s2))"

definition scan_literal :: "u8 list \<Rightarrow> u8 list \<Rightarrow> u8 list option" where
  "scan_literal lit s = (if take (length lit) s = lit then Some (drop (length lit) s) else None)"

definition scan_status :: "u8 list \<Rightarrow> u32 \<Rightarrow> u32" where
  "scan_status line old =
     (case scan_literal (str ''HTTP/1.'') line of
        None \<Rightarrow> old
      | Some s \<Rightarrow>
          (case scan_uint s of
             None \<Rightarrow> old
           | Some (_, s1) \<Rightarrow> (case scan_uint s1 of None \<Rightarrow> old | Some (v, _) \<Rightarrow> v)))"

definition scan_length :: "u8 list \<Rightarrow> u32 \<Rightarrow> u32" where
  "scan_length line old =
     (case scan_literal (str ''Content-Length:'') line of
        None \<Rightarrow> old
      | Some s \<Rightarrow> (case scan_uint s of None \<Rightarrow> old | Some (v, _) \<Rightarrow> v))"

text \<open>
  The header loop; the first argument counts the lines that may still be read. \<open>None\<close> is a read that
  never returns.
\<close>

fun header_loop ::
  "nat \<Rightarrow> net_world \<Rightarrow> clock \<Rightarrow> int \<Rightarrow> int \<Rightarrow> http_arg \<Rightarrow> net_call list \<Rightarrow> (http_arg \<times> net_call list) option"
where
  "header_loop 0 w elapsed s t a h = Some (a, h)"
| "header_loop (Suc n) w elapsed s t a h =
     (case tcp_readln w elapsed s 0xff t HTTP_TIMEOUT h of
        None \<Rightarrow> None
      | Some (None, h1) \<Rightarrow> Some (a\<lparr>http_status := 404, hres := HTTPR_ERR_REQUEST\<rparr>, h1)
      | Some (Some line, h1) \<Rightarrow>
          if line = [] then Some (a, h1)
          else
            let a1 = a\<lparr>http_status := scan_status line (http_status a),
                       content_length := scan_length line (content_length a)\<rparr>
            in if n = 0 then Some (a1\<lparr>http_status := 404, hres := HTTPR_ERR_REQUEST\<rparr>, h1)
               else header_loop n w elapsed s t a1 h1)"

section \<open>One fetch\<close>

definition finish :: "http_res \<Rightarrow> http_arg \<Rightarrow> http_arg" where
  "finish r a = a\<lparr>hres := r, hstate := HTTPS_IDLE, hdone := True\<rparr>"

text \<open>After the headers: the checks and the body.\<close>

definition http_body ::
  "net_world \<Rightarrow> clock \<Rightarrow> int \<Rightarrow> http_arg \<Rightarrow> net_call list \<Rightarrow> (http_arg \<times> net_call list) option"
where
  "http_body w elapsed s a h =
     (let a1 = (if content_length a < 1 then a\<lparr>http_status := 404\<rparr> else a)
      in if http_status a1 \<noteq> 200 then Some (finish HTTPR_ERR_STATUS a1, NetClose s # h)
         else if content_length a1 > max_size a1 then Some (finish HTTPR_ERR_TOOBIG a1, NetClose s # h)
         else
           let a2 = a1\<lparr>hstate := HTTPS_RECEIVING\<rparr>
           in (case tcp_read w elapsed s (content_length a2) True h of
                 None \<Rightarrow> None
               | Some (ok, data, h1) \<Rightarrow>
                   let a3 = (if data = [] then a2 else a2\<lparr>progress := of_nat (length data)\<rparr>)
                   in Some (if \<not> ok then finish HTTPR_ERR_RECEIVE (a3\<lparr>hdata := None\<rparr>)
                            else finish HTTPR_OK (a3\<lparr>hdata := Some (data @ [0])\<rparr>), NetClose s # h1)))"

text \<open>\<^verbatim>\<open>http_func\<close>: the start of the thread and one \<^verbatim>\<open>HTTPCMD_FETCH\<close>.\<close>

definition http_thread_start :: "http_arg \<Rightarrow> http_arg" where
  "http_thread_start a = a\<lparr>hrunning := True, hstate := HTTPS_IDLE, hdone := True\<rparr>"

definition http_fetch ::
  "u32 \<Rightarrow> u32 \<Rightarrow> net_world \<Rightarrow> clock \<Rightarrow> http_arg \<Rightarrow> net_call list \<Rightarrow> (http_arg \<times> net_call list) option"
where
  "http_fetch ng_id ms_id w elapsed a0 h0 =
     (let a = a0\<lparr>hcmd := HTTPCMD_IDLE\<rparr>
      in case tcp_connect w elapsed (host a) (hport a) h0 of
           None \<Rightarrow> None
         | Some (s, h1) \<Rightarrow>
             if s < 0 then Some (finish HTTPR_ERR_CONNECT a, h1)
             else
               let a1 = a\<lparr>hstate := HTTPS_REQUESTING\<rparr>; req = http_request_text ng_id ms_id a1
               in (case tcp_write w elapsed s req (of_nat (length req)) False h1 of
                     None \<Rightarrow> None
                   | Some (ok, h2) \<Rightarrow>
                       if \<not> ok then Some (finish HTTPR_ERR_REQUEST a1, NetClose s # h2)
                       else
                         (case header_loop 32 w elapsed s (ntime (w h2 Gettime)) a1 (Gettime # h2) of
                            None \<Rightarrow> None
                          | Some (a2, h3) \<Rightarrow> http_body w elapsed s a2 h3)))"

definition http_wake ::
  "u32 \<Rightarrow> u32 \<Rightarrow> net_world \<Rightarrow> clock \<Rightarrow> http_arg \<Rightarrow> net_call list \<Rightarrow> (http_arg \<times> net_call list) option"
where
  "http_wake ng_id ms_id w elapsed a h =
     (case hcmd a of
        HTTPCMD_IDLE \<Rightarrow> Some (a, h)
      | HTTPCMD_EXIT \<Rightarrow> Some (a\<lparr>hrunning := False\<rparr>, h)
      | HTTPCMD_FETCH \<Rightarrow> http_fetch ng_id ms_id w elapsed a h)"

section \<open>The calls of the main thread\<close>

datatype conf_region = CONF_REGION_JP | CONF_REGION_US | CONF_REGION_EU | CONF_REGION_KR | CONF_REGION_CN
  | CONF_REGION_OTHER

datatype conf_area = CONF_AREA_JPN | CONF_AREA_USA | CONF_AREA_EUR | CONF_AREA_AUS | CONF_AREA_BRA
  | CONF_AREA_TWN | CONF_AREA_ROC | CONF_AREA_KOR | CONF_AREA_HKG | CONF_AREA_ASI | CONF_AREA_LTN
  | CONF_AREA_SAF | CONF_AREA_CHN | CONF_AREA_OTHER

definition region_name :: "conf_region \<Rightarrow> u8 list" where
  "region_name r = str (case r of
     CONF_REGION_JP \<Rightarrow> ''JP'' | CONF_REGION_US \<Rightarrow> ''US'' | CONF_REGION_EU \<Rightarrow> ''EU''
   | CONF_REGION_KR \<Rightarrow> ''KR'' | CONF_REGION_CN \<Rightarrow> ''CN'' | CONF_REGION_OTHER \<Rightarrow> ''UNK'')"

definition area_name :: "conf_area \<Rightarrow> u8 list" where
  "area_name a = str (case a of
     CONF_AREA_JPN \<Rightarrow> ''JPN'' | CONF_AREA_USA \<Rightarrow> ''USA'' | CONF_AREA_EUR \<Rightarrow> ''EUR''
   | CONF_AREA_AUS \<Rightarrow> ''AUS'' | CONF_AREA_BRA \<Rightarrow> ''BRA'' | CONF_AREA_TWN \<Rightarrow> ''TWN''
   | CONF_AREA_ROC \<Rightarrow> ''ROC'' | CONF_AREA_KOR \<Rightarrow> ''KOR'' | CONF_AREA_HKG \<Rightarrow> ''HKG''
   | CONF_AREA_ASI \<Rightarrow> ''ASI'' | CONF_AREA_LTN \<Rightarrow> ''LTN'' | CONF_AREA_SAF \<Rightarrow> ''SAF''
   | CONF_AREA_CHN \<Rightarrow> ''CHN'' | CONF_AREA_OTHER \<Rightarrow> ''UNK'')"

text \<open>The two \<^verbatim>\<open>ES\<close> calls answer a result each, the size and the view.\<close>

definition get_tmd_version :: "int \<Rightarrow> u32 \<Rightarrow> int \<Rightarrow> (nat \<Rightarrow> u8) \<Rightarrow> u16" where
  "get_tmd_version res1 tmd_view_size res2 tmdbuf =
     (if res1 < 0 then 0
      else if tmd_view_size > 1024 then 0
      else if res2 < 0 then 0
      else push_bit 8 (ucast (tmdbuf 88)) OR ucast (tmdbuf 89))"

definition http_init ::
  "u16 \<Rightarrow> conf_region \<Rightarrow> conf_area \<Rightarrow> bool \<Rightarrow> bool \<Rightarrow> bool \<Rightarrow> bool \<Rightarrow> http_arg" where
  "http_init version r a mutex_ok cmutex_ok cond_ok thread_ok =
     (let arg = \<lparr>hrunning = False, hdone = False, hcmd = HTTPCMD_IDLE, host = [], hport = 0, hpath = [],
                 max_size = 0, sysmenu_version = version, region = region_name r, area = area_name a,
                 hstate = HTTPS_IDLE, hres = HTTPR_OK, http_status = 0, content_length = 0, progress = 0,
                 hdata = None\<rparr>
      in if \<not> mutex_ok then arg else if \<not> cmutex_ok then arg else if \<not> cond_ok then arg
         else if \<not> thread_ok then arg else http_thread_start arg)"

definition http_deinit :: "(nat \<Rightarrow> bool) \<Rightarrow> http_arg \<Rightarrow> http_arg" where
  "http_deinit try_lock a =
     (if hrunning a \<and> (\<exists>i\<in>set [0..<25]. try_lock i)
      then a\<lparr>hcmd := HTTPCMD_EXIT, hrunning := False\<rparr> else a)"

definition http_ready :: "http_arg \<Rightarrow> bool" where
  "http_ready a \<longleftrightarrow> hrunning a \<and> hdone a"

definition http_request :: "u8 list \<Rightarrow> u32 \<Rightarrow> http_arg \<Rightarrow> (bool \<times> http_arg) option" where
  "http_request url n a =
     (if \<not> http_ready a then Some (False, a)
      else
        (case http_split_url url of
           None \<Rightarrow> None
         | Some None \<Rightarrow> Some (False, a)
         | Some (Some (ho, pa)) \<Rightarrow>
             Some (True, a\<lparr>host := ho, hpath := pa, hdone := False, hcmd := HTTPCMD_FETCH, hport := 80,
                           max_size := n\<rparr>)))"

definition http_get_state :: "http_arg \<Rightarrow> (http_state \<times> u32 \<times> u32) option" where
  "http_get_state a =
     (if \<not> hrunning a then None else Some (hstate a, content_length a, progress a))"

definition http_get_result ::
  "http_arg \<Rightarrow> (http_res \<times> u32 \<times> u8 list option \<times> u32) option \<times> http_arg" where
  "http_get_result a =
     (if \<not> http_ready a then (None, a)
      else
        (Some (hres a, http_status a, if hres a = HTTPR_OK then hdata a else None,
               if hres a = HTTPR_OK then content_length a else 0),
         a\<lparr>host := [], hpath := []\<rparr>))"

section \<open>What a fetch leaves behind\<close>

lemma header_loop_keeps:
  "header_loop n w elapsed s t a h = Some (a', h') \<Longrightarrow>
    max_size a' = max_size a \<and> host a' = host a \<and> hport a' = hport a \<and> open_socks w h' = open_socks w h"
proof (induction n arbitrary: a h)
  case (Suc n)
  obtain r h1 where r: "tcp_readln w elapsed s 0xff t HTTP_TIMEOUT h = Some (r, h1)"
    using Suc.prems by (cases "tcp_readln w elapsed s 0xff t HTTP_TIMEOUT h") auto
  note o = tcp_readln_socks[OF r]
  show ?case
  proof (cases r)
    case (Some line)
    define a1 where "a1 = a\<lparr>http_status := scan_status line (http_status a),
                       content_length := scan_length line (content_length a)\<rparr>"
    show ?thesis
      using Suc.prems Suc.IH[of a1 h1] r o Some by (auto simp: Let_def a1_def split: if_splits)
  qed (use Suc.prems r o in auto)
qed simp

text \<open>
  What a fetch that succeeds has received on the socket it connected: header lines that end with CR LF and of which only the
  last is empty (to the parser, which sees a line up to a NUL), then the body. The last status line found says 200, and the
  last length found (\<open>content_length\<close> keeps the one of the fetch before, if there is none) is that of the body.
\<close>

definition header_text :: "u8 list \<Rightarrow> u8 list" where
  "header_text raw = takeWhile (\<lambda>b. b \<noteq> 0) raw"

definition header_block :: "u8 list list \<Rightarrow> u8 list" where
  "header_block raws = concat (map (\<lambda>raw. raw @ [13, 10]) raws)"

definition complete_response :: "net_world \<Rightarrow> clock \<Rightarrow> http_arg \<Rightarrow> net_call list \<Rightarrow> net_call list \<Rightarrow> u8 list \<Rightarrow> bool" where
  "complete_response w elapsed a h h' data \<longleftrightarrow> (\<exists>s h1 raws blank.
     tcp_connect w elapsed (host a) (hport a) h = Some (s, h1) \<and> 0 \<le> s
   \<and> received w s h' = received w s h1 @ header_block (raws @ [blank]) @ data
   \<and> (\<forall>raw \<in> set raws. header_text raw \<noteq> [] \<and> no_crlf (raw @ [13])) \<and> header_text blank = [] \<and> no_crlf (blank @ [13])
   \<and> fold scan_status (map header_text raws) (http_status a) = 200
   \<and> unat (fold scan_length (map header_text raws) (content_length a)) = length data)"

lemma header_loop_reads:
  assumes "honest w"
  shows "header_loop n w elapsed s t a h = Some (a', h') \<Longrightarrow> http_status a' = 200 \<Longrightarrow> 0 < n \<Longrightarrow>
    \<exists>raws blank. received w s h' = received w s h @ header_block (raws @ [blank])
      \<and> (\<forall>raw \<in> set raws. header_text raw \<noteq> [] \<and> no_crlf (raw @ [13])) \<and> header_text blank = [] \<and> no_crlf (blank @ [13])
      \<and> http_status a' = fold scan_status (map header_text raws) (http_status a)
      \<and> content_length a' = fold scan_length (map header_text raws) (content_length a)"
proof (induction n arbitrary: a h)
  case (Suc n)
  obtain r h1 where r: "tcp_readln w elapsed s 0xff t HTTP_TIMEOUT h = Some (r, h1)"
    using Suc.prems by (cases "tcp_readln w elapsed s 0xff t HTTP_TIMEOUT h") auto
  show ?case
  proof (cases r)
    case None
    then show ?thesis using Suc.prems r by auto
  next
    case (Some line)
    obtain raw where raw: "received w s h1 = received w s h @ raw @ [13, 10]" "no_crlf (raw @ [13])" "line = header_text raw"
      using tcp_readln_line[OF assms _ r[unfolded Some]] by (auto simp: header_text_def)
    show ?thesis
    proof (cases "line = []")
      case True
      then have "a' = a" "h' = h1" using Suc.prems(1) r Some by auto
      then show ?thesis using raw True by (intro exI[of _ "[]"] exI[of _ raw]) (simp add: header_block_def)
    next
      case False
      define a1 where "a1 = a\<lparr>http_status := scan_status line (http_status a), content_length := scan_length line (content_length a)\<rparr>"
      have n: "0 < n" and rest: "header_loop n w elapsed s t a1 h1 = Some (a', h')"
        using Suc.prems(1,2) r Some False by (auto simp: Let_def a1_def split: if_splits)
      from Suc.IH[OF rest Suc.prems(2) n] obtain raws blank where
        "received w s h' = received w s h1 @ header_block (raws @ [blank])"
        "\<forall>raw \<in> set raws. header_text raw \<noteq> [] \<and> no_crlf (raw @ [13])" "header_text blank = []" "no_crlf (blank @ [13])"
        "http_status a' = fold scan_status (map header_text raws) (http_status a1)"
        "content_length a' = fold scan_length (map header_text raws) (content_length a1)" by blast
      then show ?thesis using raw False
        by (intro exI[of _ "raw # raws"] exI[of _ blank]) (simp add: header_block_def a1_def)
    qed
  qed
qed simp

lemma http_body_outcome:
  assumes "http_body w elapsed s a h = Some (a', h')"
  obtains (failed) "hres a' \<in> {HTTPR_ERR_STATUS, HTTPR_ERR_TOOBIG, HTTPR_ERR_RECEIVE}" "hdone a'" "hstate a' = HTTPS_IDLE"
      "\<exists>k. h' = NetClose s # k \<and> open_socks w k = open_socks w h"
  | (ok) data k where "hres a' = HTTPR_OK" "hdone a'" "hstate a' = HTTPS_IDLE" "hdata a' = Some (data @ [0])"
      "tcp_read w elapsed s (content_length a') True h = Some (True, data, k)" "h' = NetClose s # k"
      "content_length a' = content_length a" "\<not> content_length a < 1" "content_length a \<le> max_size a"
      "http_status a' = 200" "open_socks w k = open_socks w h"
proof (cases "content_length a < 1 \<or> http_status a \<noteq> 200 \<or> content_length a > max_size a")
  case True
  then show ?thesis
    using assms that(1) by (auto simp: http_body_def finish_def Let_def split: if_splits)
next
  case False
  then have c: "content_length a \<noteq> 0" "http_status a = 200" "(max_size a < content_length a) = False"
    "(if content_length a < 1 then a\<lparr>http_status := 404\<rparr> else a) = a"
    by simp_all
  obtain ok data k where r: "tcp_read w elapsed s (content_length a) True h = Some (ok, data, k)"
  proof (cases "tcp_read w elapsed s (content_length a) True h")
    case None
    then have "http_body w elapsed s a h = None" unfolding http_body_def Let_def c(4) by (simp add: c)
    with assms show ?thesis by simp
  next
    case (Some y)
    then show ?thesis using that by (cases y) blast
  qed
  define a3 where "a3 = (if data = [] then a\<lparr>hstate := HTTPS_RECEIVING\<rparr>
      else a\<lparr>hstate := HTTPS_RECEIVING, progress := of_nat (length data)\<rparr>)"
  have out: "a' = (if \<not> ok then finish HTTPR_ERR_RECEIVE (a3\<lparr>hdata := None\<rparr>)
       else finish HTTPR_OK (a3\<lparr>hdata := Some (data @ [0])\<rparr>))" "h' = NetClose s # k"
    using assms unfolding http_body_def Let_def c(4) by (auto simp: c r a3_def split: if_splits)
  have a3: "content_length a3 = content_length a" "http_status a3 = 200"
    using c by (simp_all add: a3_def)
  note o = tcp_read_socks[OF r]
  show ?thesis
  proof (cases ok)
    case True
    then show ?thesis
      using r out o c a3 by (intro that(2)[of data k]) (auto simp: finish_def)
  next
    case False
    then show ?thesis using r out o by (intro that(1)) (auto simp: finish_def)
  qed
qed

lemma http_fetch_cases:
  assumes "http_fetch ng_id ms_id w elapsed a h = Some (a', h')"
  obtains (connect) s where "tcp_connect w elapsed (host a) (hport a) h = Some (s, h')" "s < 0"
      "hres a' = HTTPR_ERR_CONNECT" "hdone a'" "hstate a' = HTTPS_IDLE"
  | (request) s h1 h2 req where "tcp_connect w elapsed (host a) (hport a) h = Some (s, h1)" "\<not> s < 0"
      "tcp_write w elapsed s req (of_nat (length req)) False h1 = Some (False, h2)" "h' = NetClose s # h2"
      "hres a' = HTTPR_ERR_REQUEST" "hdone a'" "hstate a' = HTTPS_IDLE"
  | (response) s h1 h2 h3 req a1 a2 where "tcp_connect w elapsed (host a) (hport a) h = Some (s, h1)" "\<not> s < 0"
      "tcp_write w elapsed s req (of_nat (length req)) False h1 = Some (True, h2)"
      "max_size a1 = max_size a \<and> http_status a1 = http_status a \<and> content_length a1 = content_length a"
      "header_loop 32 w elapsed s (ntime (w h2 Gettime)) a1 (Gettime # h2) = Some (a2, h3)"
      "http_body w elapsed s a2 h3 = Some (a', h')"
proof -
  define a1 where "a1 = a\<lparr>hcmd := HTTPCMD_IDLE, hstate := HTTPS_REQUESTING\<rparr>"
  define req where "req = http_request_text ng_id ms_id a1"
  obtain s h1 where c: "tcp_connect w elapsed (host a) (hport a) h = Some (s, h1)"
    using assms by (auto simp: http_fetch_def Let_def split: option.splits)
  show ?thesis
  proof (cases "s < 0")
    case True
    then show ?thesis using assms c by (intro that(1)[of s]) (auto simp: http_fetch_def finish_def Let_def)
  next
    case False
    then obtain ok h2 where wr: "tcp_write w elapsed s req (of_nat (length req)) False h1 = Some (ok, h2)"
      using assms c by (auto simp: http_fetch_def Let_def a1_def req_def split: option.splits)
    show ?thesis
    proof (cases ok)
      case True
      then obtain a2 h3 where hl: "header_loop 32 w elapsed s (ntime (w h2 Gettime)) a1 (Gettime # h2) = Some (a2, h3)"
        and bd: "http_body w elapsed s a2 h3 = Some (a', h')"
        using assms c False wr by (auto simp: http_fetch_def Let_def a1_def req_def split: option.splits)
      show ?thesis
        by (rule that(3)[OF c False _ _ hl bd, of req]) (use wr True in \<open>simp_all add: a1_def\<close>)
    next
      case notok: False
      have "a' = finish HTTPR_ERR_REQUEST a1 \<and> h' = NetClose s # h2"
        using assms c False wr notok by (simp add: http_fetch_def Let_def a1_def req_def)
      then show ?thesis using that(2)[OF c False, of req h2] wr notok by (simp add: finish_def)
    qed
  qed
qed

lemma http_fetch_outcome:
  assumes "honest w" and "http_fetch ng_id ms_id w elapsed a h = Some (a', h')"
  shows "hdone a' \<and> hstate a' = HTTPS_IDLE \<and> (hres a' = HTTPR_OK \<longrightarrow>
    (\<exists>data. hdata a' = Some (data @ [0]) \<and> length data = unat (content_length a')
       \<and> content_length a' \<noteq> 0 \<and> content_length a' \<le> max_size a \<and> http_status a' = 200
       \<and> complete_response w elapsed a h h' data))"
  using assms(2)
proof (cases rule: http_fetch_cases)
  case (response s h1 h2 h3 req a1 a2)
  have m: "max_size a2 = max_size a" using header_loop_keeps[OF response(5)] response(4) by simp
  from response(6) show ?thesis
  proof (cases rule: http_body_outcome)
    case (ok data k)
    have len: "length data = unat (content_length a')" and got: "received w s k = received w s h3 @ data"
      using tcp_read_received[OF assms(1) ok(5)] by simp_all
    have status: "http_status a2 = 200" using response(6) ok(1,8) by (auto simp: http_body_def finish_def Let_def split: if_splits option.splits)
    from header_loop_reads[OF assms(1) response(5) status] obtain raws blank where
      l: "received w s h3 = received w s (Gettime # h2) @ header_block (raws @ [blank])"
        "\<forall>raw \<in> set raws. header_text raw \<noteq> [] \<and> no_crlf (raw @ [13])" "header_text blank = []" "no_crlf (blank @ [13])"
        "http_status a2 = fold scan_status (map header_text raws) (http_status a1)"
        "content_length a2 = fold scan_length (map header_text raws) (content_length a1)" by auto
    have "received w s h' = received w s h1 @ header_block (raws @ [blank]) @ data"
      using ok(6) got l(1) tcp_write_received[OF response(3)] by simp
    then have "complete_response w elapsed a h h' data"
      unfolding complete_response_def using response(1,2,4) l(2-6) status len ok(7) by (metis linorder_not_less)
    then show ?thesis using ok m len by auto
  qed auto
qed auto


text \<open>
  Once the host name resolves, a fetch closes the socket it opened on every path, and no other.
\<close>

lemma http_fetch_sockets:
  assumes "nret (w h (NetGethostbyname (host a))) \<noteq> 0"
    and "http_fetch ng_id ms_id w elapsed a h = Some (a', h')"
  shows "open_socks w h' = open_socks w h"
proof -
  have c: "open_socks w h1 = (if s < 0 then open_socks w h else s # open_socks w h)"
    if "tcp_connect w elapsed (host a) (hport a) h = Some (s, h1)" for s h1
    using tcp_connect_open[OF that] assms(1) by simp
  from assms(2) show ?thesis
  proof (cases rule: http_fetch_cases)
    case (response s h1 h2 h3 req a1 a2)
    have "open_socks w h3 = s # open_socks w h"
      using header_loop_keeps[OF response(5)] tcp_write_socks[OF response(3)] c[OF response(1)] response(2) by simp
    with response(6) show ?thesis by (cases rule: http_body_outcome) auto
  next
    case (request s h1 h2 req)
    then show ?thesis using tcp_write_socks[OF request(3)] c[OF request(1)] by simp
  qed (use c in auto)
qed

text \<open>
  A fetch never reports \<^verbatim>\<open>HTTPR_ERR_REQUEST\<close> for a response it could not read: the value the header
  loop stores is always overwritten, and only a request that could not be sent is reported so.
\<close>

lemma http_request_error:
  assumes "http_fetch ng_id ms_id w elapsed a h = Some (a', h')" and "hres a' = HTTPR_ERR_REQUEST"
  shows "\<exists>s req h1 h2. tcp_connect w elapsed (host a) (hport a) h = Some (s, h1)
    \<and> tcp_write w elapsed s req (of_nat (length req)) False h1 = Some (False, h2) \<and> h' = NetClose s # h2"
  using assms(1)
proof (cases rule: http_fetch_cases)
  case (response s h1 h2 h3 req a1 a2)
  from response(6) show ?thesis by (cases rule: http_body_outcome) (use assms(2) in auto)
qed (use assms(2) in auto)

text \<open>
  The status and the length are not reset between fetches: a response whose first line is empty keeps
  those of the fetch before.
\<close>

lemma empty_header_keeps_status:
  assumes "tcp_readln w elapsed s 0xff t HTTP_TIMEOUT h = Some (Some [], h1)"
  shows "header_loop 32 w elapsed s t a h = Some (a, h1)"
proof -
  have "header_loop (Suc 31) w elapsed s t a h = Some (a, h1)"
    unfolding header_loop.simps(2) assms by simp
  then show ?thesis by simp
qed

text \<open>A URL comes apart at the first slash after the host.\<close>

lemma http_split_url_parts:
  assumes "47 \<notin> set ho"
  shows "http_split_url (str ''http://'' @ ho @ 47 # pa) = Some (Some (ho, 47 # pa))"
proof -
  have "takeWhile (\<lambda>c. c \<noteq> 47) (ho @ 47 # pa) = ho" "dropWhile (\<lambda>c. c \<noteq> 47) (ho @ 47 # pa) = 47 # pa"
  proof -
    have "\<forall>x\<in>set ho. x \<noteq> 47" using assms by blast
    then show "takeWhile (\<lambda>c. c \<noteq> 47) (ho @ 47 # pa) = ho" "dropWhile (\<lambda>c. c \<noteq> 47) (ho @ 47 # pa) = 47 # pa"
      by (simp_all add: takeWhile_append2 dropWhile_append2)
  qed
  moreover have "map lower8 (str ''http://'') = str ''http://''" by (simp add: lower8_def)
  ultimately show ?thesis by (simp add: http_split_url_def numeral_eq_Suc)
qed

definition no_network :: net_world where
  "no_network h e = (case e of
     NetGethostbyname _ \<Rightarrow> \<lparr>nret = 1, nbytes = [], ntime = 0, naddr = 0\<rparr>
   | _ \<Rightarrow> \<lparr>nret = - 1, nbytes = [], ntime = 0, naddr = 0\<rparr>)"

lemma no_network_honest: "honest no_network"
  by (auto simp: honest_def no_network_def intro: order_trans[OF _ uint_ge_0])

definition idle_http :: http_arg where
  "idle_http = http_init 513 CONF_REGION_EU CONF_AREA_EUR True True True True"

lemma no_network_run:
  "http_fetch 0 0 no_network (\<lambda>_ _. 0) idle_http []
    = Some (finish HTTPR_ERR_CONNECT (idle_http\<lparr>hcmd := HTTPCMD_IDLE\<rparr>), [NetSocket, NetGethostbyname []])"
  by (simp add: http_fetch_def tcp_connect_def tcp_socket_def no_network_def idle_http_def http_init_def
      http_thread_start_def Let_def)

text \<open>A server that sends the bytes of a stream on every socket and takes everything written to it.\<close>

fun srv_pos :: "nat \<Rightarrow> int \<Rightarrow> net_call list \<Rightarrow> nat" where
  "srv_pos n s [] = 0"
| "srv_pos n s (NetRead s' k # h) = (if s' = s then min (srv_pos n s h + unat k) n else srv_pos n s h)"
| "srv_pos n s (e # h) = srv_pos n s h"

definition server :: "u8 list \<Rightarrow> net_world" where
  "server st h e =
     \<lparr>nret = (case e of NetRead s k \<Rightarrow> int (length (take (unat k) (drop (srv_pos (length st) s h) st)))
          | NetWrite s bs \<Rightarrow> int (length bs) | NetSocket \<Rightarrow> 3 | NetGethostbyname n \<Rightarrow> 1 | _ \<Rightarrow> 0),
      nbytes = (case e of NetRead s k \<Rightarrow> take (unat k) (drop (srv_pos (length st) s h) st) | _ \<Rightarrow> []),
      ntime = 0, naddr = 0\<rparr>"

lemma server_honest: "honest (server st)"
proof -
  have "int (min k (unat n)) \<le> uint n" for k and n :: u32
  proof -
    have "int (min k (unat n)) \<le> int (unat n)" by (intro of_nat_mono) simp
    then show ?thesis by simp
  qed
  then show ?thesis by (auto simp: honest_def server_def)
qed

lemma server_read:
  assumes "0 < n" and "n \<le> 2048" and "drop (srv_pos (length st) s h) st = bs @ rest" and "length bs = unat n"
  shows "\<exists>h'. tcp_read (server st) (\<lambda>_ _. 0) s n report h = Some (True, bs, h') \<and> drop (srv_pos (length st) s h') st = rest"
proof -
  let ?x = "xfer_start (server st) n h" and ?p = "srv_pos (length st) s h"
  have b: "xfer_block n = n" using assms(2) by (auto simp: xfer_block_def dest: leD)
  have n: "\<not> unat n \<le> 0" using assms(1) by (simp add: word_gt_0 unat_eq_0)
  have "length (drop ?p st) = unat n + length rest" using assms(3,4) by simp
  then have le: "unat n \<le> length st - ?p" by simp
  then have m: "min (length st - ?p) (unat n) = unat n" "min (?p + unat n) (length st) = ?p + unat n" using n by simp_all
  have bs: "take (unat n) (drop ?p st) = bs" using assms(3,4) by simp
  have d: "n div TCP_BLOCK_SIZE = 0"
    using assms(2) by (simp add: TCP_BLOCK_SIZE_def word_unat_eq_iff unat_div word_le_nat_alt)
  obtain y k where it: "xfer_iter (server st) (\<lambda>_ _. 0) (\<lambda>off k. NetRead s k) TCP_BLOCK_RECV_TIMEOUT report ?x (Gettime # h)
      = (True, y, k)" and y: "xleft y = 0" "xdata y = bs" "srv_pos (length st) s k = ?p + unat n"
    using n m bs
    by (cases report) (simp_all add: xfer_iter_def xfer_start_def b d server_def Let_def
        TCP_BLOCK_RECV_TIMEOUT_def EAGAIN_def xfer_advance_def)
  have "xfer_loop (server st) (\<lambda>_ _. 0) (\<lambda>off k. NetRead s k) TCP_BLOCK_RECV_TIMEOUT report ?x (Gettime # h) = Some (y, k)"
  proof -
    have "xfer_loop (server st) (\<lambda>_ _. 0) (\<lambda>off k. NetRead s k) TCP_BLOCK_RECV_TIMEOUT report y k = Some (y, k)"
      using y(1) by (subst xfer_loop_unfold) simp
    moreover have "xleft ?x \<noteq> 0" using assms(1) by (simp add: xfer_start_def word_gt_0)
    ultimately show ?thesis using it by (subst xfer_loop_unfold) simp
  qed
  moreover have "drop (?p + unat n) st = rest"
    using assms(3,4) by (metis add.commute append_eq_conv_conj drop_drop)
  ultimately show ?thesis using y by (simp add: tcp_read_def)
qed

lemma server_write:
  assumes "0 < length req" and "length req \<le> 2048"
  shows "\<exists>h'. tcp_write (server st) (\<lambda>_ _. 0) s req (of_nat (length req)) False h = Some (True, h')
    \<and> srv_pos n s' h' = srv_pos n s' h"
proof -
  let ?n = "of_nat (length req) :: u32"
  let ?x = "xfer_start (server st) ?n h"
  have un: "unat ?n = length req" using assms(2) by (simp add: unat_of_nat)
  have b: "xfer_block ?n = ?n" using assms(2) by (auto simp: xfer_block_def word_less_nat_alt un)
  have d: "?n div TCP_BLOCK_SIZE = 0"
    using assms(2) by (simp add: TCP_BLOCK_SIZE_def word_unat_eq_iff unat_div un del: of_nat_0)
  obtain y k where it: "xfer_iter (server st) (\<lambda>_ _. 0) (write_op s req) TCP_BLOCK_SEND_TIMEOUT False ?x (Gettime # h) = (True, y, k)"
    and y: "xleft y = 0" "srv_pos n s' k = srv_pos n s' h"
    using assms(1) by (simp add: xfer_iter_def xfer_start_def b d server_def Let_def write_op_def un
        TCP_BLOCK_SEND_TIMEOUT_def EAGAIN_def xfer_advance_def)
  have "xfer_loop (server st) (\<lambda>_ _. 0) (write_op s req) TCP_BLOCK_SEND_TIMEOUT False ?x (Gettime # h) = Some (y, k)"
  proof -
    have "xfer_loop (server st) (\<lambda>_ _. 0) (write_op s req) TCP_BLOCK_SEND_TIMEOUT False y k = Some (y, k)"
      using y(1) by (subst xfer_loop_unfold) simp
    moreover have "unat (xleft ?x) \<noteq> 0" using assms(1) by (simp add: xfer_start_def un)
    then have "xleft ?x \<noteq> 0" by (metis unat_0)
    ultimately show ?thesis using it by (subst xfer_loop_unfold) simp
  qed
  then show ?thesis using y by (simp add: tcp_write_def)
qed

lemma server_iter:
  assumes "drop (srv_pos (length st) s h) st = b # rest" and "0 \<le> timeout"
  shows "readln_iter (server st) (\<lambda>_ _. 0) s n start timeout \<lparr>rl_result = None, rl_buf = buf, rl_calls = h\<rparr> =
    (if buf \<noteq> [] \<and> last buf = 13 \<and> b = 10
     then \<lparr>rl_result = Some (Some (takeWhile (\<lambda>x. x \<noteq> 0) (butlast buf))), rl_buf = buf, rl_calls = NetRead s 1 # Gettime # h\<rparr>
     else if Suc (length buf) = n then \<lparr>rl_result = Some None, rl_buf = buf, rl_calls = NetRead s 1 # Gettime # h\<rparr>
     else \<lparr>rl_result = None, rl_buf = buf @ [b], rl_calls = NetRead s 1 # Gettime # h\<rparr>)"
    and "drop (srv_pos (length st) s (NetRead s 1 # Gettime # h)) st = rest"
proof -
  have lt: "srv_pos (length st) s h < length st" using assms(1) by (metis drop_eq_Nil2 list.distinct(1) not_le)
  then have "min (length st - srv_pos (length st) s h) (Suc 0) = Suc 0" by simp
  then show "readln_iter (server st) (\<lambda>_ _. 0) s n start timeout \<lparr>rl_result = None, rl_buf = buf, rl_calls = h\<rparr> =
    (if buf \<noteq> [] \<and> last buf = 13 \<and> b = 10
     then \<lparr>rl_result = Some (Some (takeWhile (\<lambda>x. x \<noteq> 0) (butlast buf))), rl_buf = buf, rl_calls = NetRead s 1 # Gettime # h\<rparr>
     else if Suc (length buf) = n then \<lparr>rl_result = Some None, rl_buf = buf, rl_calls = NetRead s 1 # Gettime # h\<rparr>
     else \<lparr>rl_result = None, rl_buf = buf @ [b], rl_calls = NetRead s 1 # Gettime # h\<rparr>)"
    using assms by (simp add: readln_iter_def Let_def server_def EAGAIN_def)
  have "drop (Suc (srv_pos (length st) s h)) st = rest" using assms(1) by (metis drop_Suc list.sel(3) tl_drop)
  then show "drop (srv_pos (length st) s (NetRead s 1 # Gettime # h)) st = rest" using lt by (simp add: min_def)
qed

lemma server_line_loop:
  "drop (srv_pos (length st) s h) st = raw @ 13 # 10 # rest \<Longrightarrow> 10 \<notin> set raw \<Longrightarrow> length buf + length raw + 2 \<le> n \<Longrightarrow> 0 \<le> timeout \<Longrightarrow>
    \<exists>x. while_option (\<lambda>x. rl_result x = None) (readln_iter (server st) (\<lambda>_ _. 0) s n start timeout)
        \<lparr>rl_result = None, rl_buf = buf, rl_calls = h\<rparr> = Some x
      \<and> rl_result x = Some (Some (takeWhile (\<lambda>x. x \<noteq> 0) (buf @ raw))) \<and> drop (srv_pos (length st) s (rl_calls x)) st = rest"
proof (induction raw arbitrary: buf h)
  case Nil
  let ?h1 = "NetRead s 1 # Gettime # h"
  have "drop (srv_pos (length st) s h) st = 13 # 10 # rest" using Nil.prems(1) by simp
  note 1 = server_iter(1)[OF this Nil.prems(4), of n start buf] server_iter(2)[OF this Nil.prems(4)]
  note 2 = server_iter(1)[OF 1(2) Nil.prems(4), of n start "buf @ [13]"] server_iter(2)[OF 1(2) Nil.prems(4)]
  have "\<exists>x. while_option (\<lambda>x. rl_result x = None) (readln_iter (server st) (\<lambda>_ _. 0) s n start timeout)
      \<lparr>rl_result = None, rl_buf = buf @ [13], rl_calls = ?h1\<rparr> = Some x
    \<and> rl_result x = Some (Some (takeWhile (\<lambda>x. x \<noteq> 0) buf)) \<and> drop (srv_pos (length st) s (rl_calls x)) st = rest"
    using 2 by (subst while_option_unfold) (simp add: while_option_unfold del: srv_pos.simps)
  moreover have "Suc (length buf) \<noteq> n" using Nil.prems(3) by simp
  ultimately show ?case using 1(1) by (subst while_option_unfold) (simp del: srv_pos.simps)
next
  case (Cons c raw)
  have "drop (srv_pos (length st) s h) st = c # (raw @ 13 # 10 # rest)" using Cons.prems(1) by simp
  note 1 = server_iter(1)[OF this Cons.prems(4), of n start buf] server_iter(2)[OF this Cons.prems(4)]
  have ih: "\<exists>x. while_option (\<lambda>x. rl_result x = None) (readln_iter (server st) (\<lambda>_ _. 0) s n start timeout)
      \<lparr>rl_result = None, rl_buf = buf @ [c], rl_calls = NetRead s 1 # Gettime # h\<rparr> = Some x
    \<and> rl_result x = Some (Some (takeWhile (\<lambda>x. x \<noteq> 0) ((buf @ [c]) @ raw))) \<and> drop (srv_pos (length st) s (rl_calls x)) st = rest"
    by (rule Cons.IH[OF 1(2)]) (use Cons.prems in auto)
  have "c \<noteq> 10" "Suc (length buf) \<noteq> n" using Cons.prems by auto
  then have "readln_iter (server st) (\<lambda>_ _. 0) s n start timeout \<lparr>rl_result = None, rl_buf = buf, rl_calls = h\<rparr>
      = \<lparr>rl_result = None, rl_buf = buf @ [c], rl_calls = NetRead s 1 # Gettime # h\<rparr>" using 1(1) by simp
  then show ?case using ih by (subst while_option_unfold) (simp del: srv_pos.simps)
qed

lemma server_line:
  assumes "drop (srv_pos (length st) s h) st = raw @ 13 # 10 # rest" and "10 \<notin> set raw" and "length raw \<le> 200"
  shows "\<exists>h'. tcp_readln (server st) (\<lambda>_ _. 0) s 0xff t HTTP_TIMEOUT h = Some (Some (header_text raw), h')
    \<and> drop (srv_pos (length st) s h') st = rest"
proof -
  have "0 \<le> uint HTTP_TIMEOUT" "length [] + length raw + 2 \<le> unat (0xff :: u16)" using assms(3) by simp_all
  from server_line_loop[OF assms(1,2) this(2,1), of t] show ?thesis by (auto simp: tcp_readln_def header_text_def)
qed

text \<open>A response of two bytes. The fetch of it succeeds, whatever the host and the path are.\<close>

definition ok_response :: "u8 list" where
  "ok_response = str ''HTTP/1.1 200'' @ 13 # 10 # str ''Content-Length: 2'' @ 13 # 10 # 13 # 10 # [98, 99]"

lemma ok_lines:
  "header_text (str ''HTTP/1.1 200'') = str ''HTTP/1.1 200''" "scan_status (str ''HTTP/1.1 200'') v = 200" "scan_length (str ''HTTP/1.1 200'') v = v"
  "header_text (str ''Content-Length: 2'') = str ''Content-Length: 2''" "scan_status (str ''Content-Length: 2'') v = v"
  "scan_length (str ''Content-Length: 2'') v = 2" "10 \<notin> set (str ''HTTP/1.1 200'')" "10 \<notin> set (str ''Content-Length: 2'')"
  by (simp_all add: header_text_def scan_status_def scan_length_def scan_literal_def scan_uint_def Let_def isspace_def
      isdigit8_def digits_value_def)

lemma header_loop_line:
  "tcp_readln w elapsed s 0xff t HTTP_TIMEOUT h = Some (Some line, h1) \<Longrightarrow> 1 < n \<Longrightarrow> line \<noteq> [] \<Longrightarrow>
    header_loop n w elapsed s t a h = header_loop (n - 1) w elapsed s t
      (a\<lparr>http_status := scan_status line (http_status a), content_length := scan_length line (content_length a)\<rparr>) h1"
  by (cases n) (simp_all add: Let_def)

lemma header_loop_end:
  "tcp_readln w elapsed s 0xff t HTTP_TIMEOUT h = Some (Some [], h1) \<Longrightarrow> 0 < n \<Longrightarrow> header_loop n w elapsed s t a h = Some (a, h1)"
  by (cases n) (simp_all add: Let_def)

lemma server_headers:
  assumes "srv_pos (length ok_response) s h = 0"
  shows "\<exists>h'. header_loop 32 (server ok_response) (\<lambda>_ _. 0) s t a h = Some (a\<lparr>http_status := 200, content_length := 2\<rparr>, h')
    \<and> drop (srv_pos (length ok_response) s h') ok_response = [98, 99]"
proof -
  let ?st = ok_response and ?l1 = "str ''HTTP/1.1 200''" and ?l2 = "str ''Content-Length: 2''"
  have "drop (srv_pos (length ?st) s h) ?st = ?l1 @ 13 # 10 # (?l2 @ 13 # 10 # 13 # 10 # [98, 99])" using assms by (simp add: ok_response_def)
  from server_line[OF this ok_lines(7), of t] obtain h1 where
    1: "tcp_readln (server ?st) (\<lambda>_ _. 0) s 0xff t HTTP_TIMEOUT h = Some (Some ?l1, h1)"
      "drop (srv_pos (length ?st) s h1) ?st = ?l2 @ 13 # 10 # (13 # 10 # [98, 99])" unfolding ok_lines(1) by auto
  from server_line[OF 1(2) ok_lines(8), of t] obtain h2 where
    2: "tcp_readln (server ?st) (\<lambda>_ _. 0) s 0xff t HTTP_TIMEOUT h1 = Some (Some ?l2, h2)"
      "drop (srv_pos (length ?st) s h2) ?st = [] @ 13 # 10 # [98, 99]" unfolding ok_lines(4) by auto
  from server_line[OF 2(2), of t] obtain h3 where
    3: "tcp_readln (server ?st) (\<lambda>_ _. 0) s 0xff t HTTP_TIMEOUT h2 = Some (Some [], h3)"
      "drop (srv_pos (length ?st) s h3) ?st = [98, 99]" by (auto simp: header_text_def)
  have "header_loop 32 (server ?st) (\<lambda>_ _. 0) s t a h = Some (a\<lparr>http_status := 200, content_length := 2\<rparr>, h3)"
    unfolding header_loop_line[OF 1(1), of 32, simplified] header_loop_line[OF 2(1), of 31, simplified] header_loop_end[OF 3(1), of 30, simplified]
    by (simp add: ok_lines(2,3,5,6)[simplified])
  then show ?thesis using 3(2) by blast
qed

lemma server_connect:
  "\<exists>h1. tcp_connect (server st) (\<lambda>_ _. 0) hn port [] = Some (3, h1) \<and> srv_pos n s h1 = 0"
  by (simp add: tcp_connect_def tcp_socket_def server_def connect_loop_def while_option_unfold connect_iter_def
      TCP_CONNECT_TIMEOUT_def Let_def)

lemma server_fetch:
  assumes "length (http_request_text ng ms (a\<lparr>hcmd := HTTPCMD_IDLE, hstate := HTTPS_REQUESTING\<rparr>)) \<le> 2048"
    and "2 \<le> max_size a"
  shows "\<exists>h'. http_fetch ng ms (server ok_response) (\<lambda>_ _. 0) a [] = Some (a\<lparr>hcmd := HTTPCMD_IDLE, http_status := 200,
      content_length := 2, progress := 2, hdata := Some [98, 99, 0], hres := HTTPR_OK, hstate := HTTPS_IDLE, hdone := True\<rparr>, h')"
proof -
  let ?w = "server ok_response"
  define a1 where "a1 = a\<lparr>hcmd := HTTPCMD_IDLE, hstate := HTTPS_REQUESTING\<rparr>"
  define req where "req = http_request_text ng ms a1"
  obtain h1 where 1: "tcp_connect ?w (\<lambda>_ _. 0) (host a) (hport a) [] = Some (3, h1)" "srv_pos (length ok_response) 3 h1 = 0"
    using server_connect by blast
  have len: "0 < length req" "length req \<le> 2048" using assms(1) by (simp_all add: req_def a1_def http_request_text_def)
  obtain h2 where 2: "tcp_write ?w (\<lambda>_ _. 0) 3 req (of_nat (length req)) False h1 = Some (True, h2)"
      "srv_pos (length ok_response) 3 h2 = 0"
    using server_write[OF len, of ok_response 3 h1 "length ok_response" 3] 1(2) by auto
  have "srv_pos (length ok_response) 3 (Gettime # h2) = 0" using 2(2) by simp
  from server_headers[OF this, of "ntime (?w h2 Gettime)" a1] obtain h3 where
    3: "header_loop 32 ?w (\<lambda>_ _. 0) 3 (ntime (?w h2 Gettime)) a1 (Gettime # h2) = Some (a1\<lparr>http_status := 200, content_length := 2\<rparr>, h3)"
      "drop (srv_pos (length ok_response) 3 h3) ok_response = [98, 99] @ []" by auto
  obtain h4 where 4: "tcp_read ?w (\<lambda>_ _. 0) 3 2 True h3 = Some (True, [98, 99], h4)"
    using server_read[OF _ _ 3(2), of 2 True] by auto
  have max: "\<not> max_size a < 2" using assms(2) by simp
  have "http_body ?w (\<lambda>_ _. 0) 3 (a1\<lparr>http_status := 200, content_length := 2\<rparr>) h3
      = Some (finish HTTPR_OK (a1\<lparr>http_status := 200, content_length := 2, hstate := HTTPS_RECEIVING, progress := 2, hdata := Some [98, 99, 0]\<rparr>),
          NetClose 3 # h4)"
    using max by (simp add: http_body_def Let_def 4 a1_def)
  moreover have "finish HTTPR_OK (a1\<lparr>http_status := 200, content_length := 2, hstate := HTTPS_RECEIVING, progress := 2, hdata := Some [98, 99, 0]\<rparr>)
      = a\<lparr>hcmd := HTTPCMD_IDLE, http_status := 200, content_length := 2, progress := 2, hdata := Some [98, 99, 0], hres := HTTPR_OK,
          hstate := HTTPS_IDLE, hdone := True\<rparr>"
    by (rule http_arg.equality) (simp_all add: finish_def a1_def)
  ultimately show ?thesis
    unfolding http_fetch_def Let_def using 1(1) 2(1) 3(1) by (simp add: a1_def[symmetric] req_def[symmetric])
qed

lemma idle_request: "length (http_request_text 0 0 (idle_http\<lparr>max_size := m, hcmd := HTTPCMD_IDLE, hstate := HTTPS_REQUESTING\<rparr>)) \<le> 2048"
  by (simp add: http_request_text_def idle_http_def http_init_def http_thread_start_def crlf_def
      hex8_def CHANNEL_VERSION_STR_def region_name_def area_name_def dec.simps)


lemma http_fetch_sockets_example:
  "open_socks no_network [NetSocket, NetGethostbyname []] = open_socks no_network []"
  by (rule http_fetch_sockets[OF _ no_network_run]) (simp add: no_network_def)

text \<open>A host that resolves and connects, and a clock that runs out at once.\<close>

definition mute_peer :: net_world where
  "mute_peer h e = \<lparr>nret = 1, nbytes = [0], ntime = 0, naddr = 0\<rparr>"

lemma http_request_error_example:
  "\<exists>h' s req h1 h2. tcp_write mute_peer (\<lambda>_ _. 4500) s req (of_nat (length req)) False h1 = Some (False, h2)
     \<and> h' = NetClose s # h2"
proof -
  have c: "tcp_connect mute_peer (\<lambda>_ _. 4500) (host idle_http) (hport idle_http) []
      = Some (1, [NetConnect 1 0 0, Gettime, Gettime, NetSetfl 1 (or 1 4), NetGetfl 1, NetSetsockopt 1, NetSocket,
          NetGethostbyname []])"
    by (simp add: tcp_connect_def tcp_socket_def mute_peer_def connect_loop_def while_option_unfold connect_iter_def
        TCP_CONNECT_TIMEOUT_def idle_http_def http_init_def http_thread_start_def Let_def)
  define a1 where "a1 = idle_http\<lparr>hcmd := HTTPCMD_IDLE, hstate := HTTPS_REQUESTING\<rparr>"
  define req where "req = http_request_text 0 0 a1"
  let ?h = "[NetConnect 1 0 0, Gettime, Gettime, NetSetfl 1 (or 1 4), NetGetfl 1, NetSetsockopt 1, NetSocket,
          NetGethostbyname []]"
  have "(of_nat (length req) :: u32) \<noteq> 0"
    by (simp add: req_def http_request_text_def a1_def idle_http_def http_init_def http_thread_start_def crlf_def
        hex8_def CHANNEL_VERSION_STR_def region_name_def area_name_def dec.simps)
  then have wr: "tcp_write mute_peer (\<lambda>_ _. 4500) 1 req (of_nat (length req)) False ?h = Some (False, Gettime # Gettime # ?h)"
    by (simp add: tcp_write_def xfer_loop_unfold xfer_iter_def xfer_start_def TCP_BLOCK_SEND_TIMEOUT_def Let_def)
  have "http_fetch 0 0 mute_peer (\<lambda>_ _. 4500) idle_http []
      = Some (finish HTTPR_ERR_REQUEST a1, NetClose 1 # Gettime # Gettime # ?h)"
    unfolding http_fetch_def Let_def using c wr by (simp add: a1_def[symmetric] req_def[symmetric] idle_http_def[symmetric])
  from http_request_error[OF this] show ?thesis by (auto simp: finish_def)
qed

end
