(* ===== verification/Stub_Elf.thy ===== *)
theory Stub_Elf
  imports Stub_String Reloc
begin

text \<open>
  \<^verbatim>\<open>wiipax/stub/elf.c\<close> and \<^verbatim>\<open>main.c\<close>: the unpacking stub that is put in front of a packed program.
  It decodes its payload to the buffer at 0x90100000, checks that this is an ELF image, copies the
  loadable segments to their places, clears them in the buffer and branches to the entry point.
  \<^verbatim>\<open>LzmaDecode\<close> is a parameter; the release build's \<^verbatim>\<open>printf\<close> is empty, and cache maintenance has no
  effect in the model.
\<close>

section \<open>elf.c\<close>

definition valid_elf_image :: "mem \<Rightarrow> u32 \<Rightarrow> int" where
  "valid_elf_image m addr =
     (if \<not> is_elf_magic m addr then 0
      else if m (addr + 4) \<noteq> 1 then -1
      else if m (addr + 5) \<noteq> 2 then -1
      else if m (addr + 6) \<noteq> 1 then -1
      else if load16 m (addr + 16) \<noteq> 2 then -1
      else if load16 m (addr + 18) \<noteq> 20 then -1
      else 1)"

text \<open>One program header at \<open>ph\<close>; \<open>False\<close> when the file size exceeds the memory size.\<close>

definition load_segment :: "u32 \<Rightarrow> u32 \<Rightarrow> mem \<Rightarrow> bool \<times> mem" where
  "load_segment addr ph m =
     (if load32 m ph \<noteq> 1 then (True, m)
      else
        let m1 = store32 m (ph + 12) (to_k0 (load32 m (ph + 12)));
            filesz = load32 m1 (ph + 16)
        in if filesz > load32 m1 (ph + 20) then (False, m1)
           else if filesz \<noteq> 0 then
             let image = addr + load32 m1 (ph + 4);
                 m2 = fst (memcpy m1 (load32 m1 (ph + 12)) image filesz);
                 m3 = fst (memset m2 image 0 (load32 m2 (ph + 16)))
             in (True, m3)
           else (True, m1))"

function load_segments :: "u32 \<Rightarrow> u32 \<Rightarrow> nat \<Rightarrow> mem \<Rightarrow> bool \<times> mem" where
  "load_segments addr phdrs i m =
     (if i < unat (load16 m (addr + 44)) then
        (case load_segment addr (phdrs + 32 * of_nat i) m of
           (ok, m') \<Rightarrow> if ok then load_segments addr phdrs (Suc i) m' else (False, m'))
      else (True, m))"
  by pat_completeness auto
termination
proof (relation "measure (\<lambda>(addr, phdrs, i, m). 65536 - i)")
  fix addr phdrs :: u32 and i :: nat and m :: mem
  assume "i < unat (load16 m (addr + 44))"
  then show "((addr, phdrs, Suc i, m'), addr, phdrs, i, m) \<in> measure (\<lambda>(addr, phdrs, i, m). 65536 - i)" for m'
    using unsigned_less[of "load16 m (addr + 44)", where ?'a = nat] by simp
qed simp

declare load_segments.simps [simp del]

text \<open>The entry point, 0 for a refused image.\<close>

definition load_elf_image :: "mem \<Rightarrow> u32 \<Rightarrow> u32 \<times> mem" where
  "load_elf_image m addr =
     (if load32 m (addr + 28) = 0 \<or> load16 m (addr + 44) = 0 then (0, m)
      else if load16 m (addr + 42) \<noteq> 32 then (0, m)
      else
        (case load_segments addr (addr + load32 m (addr + 28)) 0 m of
           (ok, m') \<Rightarrow> (if ok then load32 m' (addr + 24) else 0, m')))"

section \<open>main.c\<close>

definition CODE_BUFFER :: u32 where "CODE_BUFFER = 0x90100000"

definition write32 :: "mem \<Rightarrow> u32 \<Rightarrow> u32 \<Rightarrow> mem" where
  "write32 m addr x = store32 m (0xc0000000 OR addr) x"

text \<open>How the stub ends: a branch to an entry point, in real mode or not, or the blinking light.\<close>

datatype stub_end = Branch u32 | Plunge u32 | Blink

definition stubmain :: "bool \<Rightarrow> (mem \<Rightarrow> int \<times> mem) \<Rightarrow> mem \<Rightarrow> stub_end \<times> mem" where
  "stubmain dkppc decode m0 =
     (case decode (write32 m0 0x0c003004 0) of (res, m1) \<Rightarrow>
        if res = 0 \<and> valid_elf_image m1 CODE_BUFFER \<noteq> 0 then
          (case load_elf_image m1 CODE_BUFFER of (entry, m2) \<Rightarrow>
             if entry \<noteq> 0 then
               let m3 = write32 (write32 m2 0x0c003004 0) 0x0c003000 0xffffffff
               in (if dkppc then Branch entry
                   else if entry AND 0xc0000000 \<noteq> 0 then Branch entry else Plunge entry, m3)
             else (Blink, m2))
        else (Blink, m1))"

section \<open>Segments\<close>

definition apart :: "u32 \<Rightarrow> nat \<Rightarrow> u32 \<Rightarrow> nat \<Rightarrow> bool" where
  "apart a n b k \<longleftrightarrow> (\<forall>x. in_block a n x \<longrightarrow> \<not> in_block b k x)"

lemma apart_sym: "apart a n b k \<Longrightarrow> apart b k a n"
  by (auto simp: apart_def)

lemma apart_intervals:
  assumes "unat a + n \<le> 4294967296" and "unat b + k \<le> 4294967296"
    and "unat a + n \<le> unat b \<or> unat b + k \<le> unat a"
  shows "apart a n b k"
  using assms by (auto simp: apart_def in_block_interval)

lemma apart_read_ahead:
  assumes "apart dst n src n" and "n \<le> 4294967296"
  shows "read_ahead dst src n"
  unfolding read_ahead_def
proof (intro allI impI notI)
  fix i j assume ij: "i < n" "j < i" and eq: "src + of_nat i = dst + of_nat j"
  have "in_block src n (src + of_nat i)" "in_block dst n (dst + of_nat j)"
    using ij assms(2) by simp_all
  with eq assms(1) show False by (auto simp: apart_def)
qed

lemma block_nth: "in_block a n x \<Longrightarrow> \<exists>j<n. x = a + of_nat j"
  by (rule exI[of _ "unat (x - a)"]) (simp add: in_block_def)

lemma block_sub:
  assumes "in_block (a + of_nat k) n x" and "k + n \<le> N" and "N \<le> 4294967296"
  shows "in_block a N x"
proof (cases "k = 4294967296")
  case False
  define d where "d = unat (x - (a + of_nat k))"
  have d: "d < n" using assms(1) by (simp add: in_block_def d_def)
  have "x = a + of_nat k + of_nat d" by (simp add: d_def)
  then have "x = a + of_nat (k + d)" by (simp add: add.assoc)
  moreover have "k + d < 4294967296" "k + d < N" using assms(2,3) d by linarith+
  ultimately show ?thesis by (simp del: of_nat_add)
next
  case True
  with assms show ?thesis by (simp add: in_block_def)
qed

lemma apart_sub:
  assumes "apart a N b k" and "j + n \<le> N" and "N \<le> 4294967296"
  shows "apart (a + of_nat j) n b k"
  using assms block_sub[OF _ assms(2,3)] by (auto simp: apart_def)

text \<open>
  The segment that the program header at \<open>ph\<close> describes: where it lies in the image, where it goes,
  and how many bytes are moved (none for a header of another type).
\<close>

definition seg_src :: "u32 \<Rightarrow> mem \<Rightarrow> u32 \<Rightarrow> u32" where
  "seg_src addr m ph = addr + load32 m (ph + 4)"

definition seg_dst :: "mem \<Rightarrow> u32 \<Rightarrow> u32" where
  "seg_dst m ph = to_k0 (load32 m (ph + 12))"

definition seg_len :: "mem \<Rightarrow> u32 \<Rightarrow> nat" where
  "seg_len m ph = (if load32 m ph = 1 then unat (load32 m (ph + 16)) else 0)"

definition seg_fits :: "mem \<Rightarrow> u32 \<Rightarrow> bool" where
  "seg_fits m ph \<longleftrightarrow> (load32 m ph = 1 \<longrightarrow> load32 m (ph + 16) \<le> load32 m (ph + 20))"

lemma seg_len_le: "seg_len m ph \<le> 4294967296"
  using unsigned_less[of "load32 m (ph + 16)", where ?'a = nat] by (simp add: seg_len_def)

definition same_on :: "u32 \<Rightarrow> nat \<Rightarrow> mem \<Rightarrow> mem \<Rightarrow> bool" where
  "same_on a n m m' \<longleftrightarrow> (\<forall>x. in_block a n x \<longrightarrow> m' x = m x)"

lemma same_on_byte: "same_on a n m m' \<Longrightarrow> k < n \<Longrightarrow> n \<le> 4294967296 \<Longrightarrow> m' (a + of_nat k) = m (a + of_nat k)"
  by (simp add: same_on_def)

lemma same_on_load32:
  assumes "same_on a n m m'" and "k + 4 \<le> n" and "n \<le> 4294967296"
  shows "load32 m' (a + of_nat k) = load32 m (a + of_nat k)"
proof (rule load32_cong)
  fix j :: nat assume "j < 4"
  then show "m' (a + of_nat k + of_nat j) = m (a + of_nat k + of_nat j)"
    using same_on_byte[OF assms(1), of "k + j"] assms(2,3) by (simp add: add.assoc)
qed

lemma same_on_load16:
  assumes "same_on a n m m'" and "k + 2 \<le> n" and "n \<le> 4294967296"
  shows "load16 m' (a + of_nat k) = load16 m (a + of_nat k)"
  using same_on_byte[OF assms(1), of k] same_on_byte[OF assms(1), of "Suc k"] assms(2,3)
  by (intro load16_cong) (simp_all add: ac_simps)

lemma same_on_header:
  assumes "same_on ph 32 m m'"
  shows "load32 m' ph = load32 m ph" "load32 m' (ph + 4) = load32 m (ph + 4)"
    "load32 m' (ph + 12) = load32 m (ph + 12)" "load32 m' (ph + 16) = load32 m (ph + 16)"
    "load32 m' (ph + 20) = load32 m (ph + 20)"
  using same_on_load32[OF assms, of 0] same_on_load32[OF assms, of 4] same_on_load32[OF assms, of 12]
    same_on_load32[OF assms, of 16] same_on_load32[OF assms, of 20] by simp_all

lemma store_paddr:
  shows "load32 (store32 m (ph + 12) v) (ph + 4) = load32 m (ph + 4)"
    and "load32 (store32 m (ph + 12) v) (ph + 16) = load32 m (ph + 16)"
    and "load32 (store32 m (ph + 12) v) (ph + 20) = load32 m (ph + 20)"
    and "\<not> in_block ph 32 x \<Longrightarrow> store32 m (ph + 12) v x = m x"
proof -
  have other: "store32 m (ph + 12) v x = m x" if "\<not> in_block (ph + 12) 4 x" for x
    using that by (simp add: store32_def mem_write_outside)
  have small: "\<not> in_block (ph + 12) 4 (ph + of_nat k)" if "k < 12 \<or> 16 \<le> k" "k < 32" for k :: nat
  proof
    assume "in_block (ph + 12) 4 (ph + of_nat k)"
    then obtain j :: nat where "j < 4" and "ph + of_nat k = ph + 12 + of_nat j"
      using block_nth[of "ph + 12" 4] by blast
    then have "(of_nat k :: u32) = of_nat (12 + j)" by (simp add: add.assoc)
    then have "unat (of_nat k :: u32) = unat (of_nat (12 + j) :: u32)" by (rule arg_cong)
    then have "k = 12 + j" using that \<open>j < 4\<close> by (simp only: unat_of_nat32)
    with that \<open>j < 4\<close> show False by linarith
  qed
  have field: "load32 (store32 m (ph + 12) v) (ph + of_nat f) = load32 m (ph + of_nat f)"
    if "f + 4 \<le> 12 \<or> 16 \<le> f" "f + 4 \<le> 32" for f :: nat
  proof (rule load32_cong)
    fix k :: nat assume "k < 4"
    then show "store32 m (ph + 12) v (ph + of_nat f + of_nat k) = m (ph + of_nat f + of_nat k)"
      using other[OF small[of "f + k"]] that by (simp add: add.assoc) linarith
  qed
  show "load32 (store32 m (ph + 12) v) (ph + 4) = load32 m (ph + 4)"
    "load32 (store32 m (ph + 12) v) (ph + 16) = load32 m (ph + 16)"
    "load32 (store32 m (ph + 12) v) (ph + 20) = load32 m (ph + 20)"
    using field[of 4] field[of 16] field[of 20] by simp_all
  show "\<not> in_block ph 32 x \<Longrightarrow> store32 m (ph + 12) v x = m x"
    using other block_sub[of ph 12 4 x 32] by auto
qed

text \<open>One step: the segment is moved, its place in the image cleared, and the rest left alone.\<close>

lemma load_segment_step:
  assumes "seg_fits m ph"
    and src: "apart (seg_src addr m ph) (seg_len m ph) ph 32"
    and dst: "apart (seg_dst m ph) (seg_len m ph) ph 32"
    and ds: "apart (seg_dst m ph) (seg_len m ph) (seg_src addr m ph) (seg_len m ph)"
  obtains m' where "load_segment addr ph m = (True, m')"
    and "mem_read m' (seg_dst m ph) (seg_len m ph) = mem_read m (seg_src addr m ph) (seg_len m ph)"
    and "mem_read m' (seg_src addr m ph) (seg_len m ph) = replicate (seg_len m ph) 0"
    and "\<And>x. \<not> in_block ph 32 x \<Longrightarrow> \<not> in_block (seg_dst m ph) (seg_len m ph) x
           \<Longrightarrow> \<not> in_block (seg_src addr m ph) (seg_len m ph) x \<Longrightarrow> m' x = m x"
proof (cases "load32 m ph = 1")
  case False
  then show ?thesis
    by (intro that[of m]) (simp_all add: load_segment_def seg_len_def mem_read_def)
next
  case True
  let ?s = "seg_src addr m ph" and ?d = "seg_dst m ph" and ?n = "seg_len m ph"
  define m1 where "m1 = store32 m (ph + 12) ?d"
  define m2 where "m2 = mem_write m1 ?d (mem_read m1 ?s ?n)"
  define m3 where "m3 = mem_write m2 ?s (replicate ?n 0)"
  have n: "unat (load32 m (ph + 16)) = ?n" using True by (simp add: seg_len_def)
  have len: "?n \<le> 4294967296" by (rule seg_len_le)
  have m1: "load32 m1 (ph + 12) = ?d" "load32 m1 (ph + 4) = load32 m (ph + 4)"
    "load32 m1 (ph + 16) = load32 m (ph + 16)" "load32 m1 (ph + 20) = load32 m (ph + 20)"
    by (simp_all add: m1_def load32_store32 store_paddr)
  have m1_other: "m1 x = m x" if "\<not> in_block ph 32 x" for x
    using that by (simp add: m1_def store_paddr)
  have read1: "mem_read m1 ?s ?n = mem_read m ?s ?n"
    using src len m1_other by (intro mem_read_cong) (auto simp: apart_def)
  have m2_ph: "same_on ph 32 m1 m2"
    using dst by (auto simp: same_on_def m2_def apart_def intro!: mem_write_outside)
  have "load_segment addr ph m = (True, if ?n = 0 then m1 else m3)"
  proof (cases "?n = 0")
    case True
    then have "load32 m (ph + 16) = 0" using n unat_eq_zero[of "load32 m (ph + 16)"] by simp
    then show ?thesis
      using \<open>load32 m ph = 1\<close> True m1
      by (simp add: load_segment_def Let_def m1_def[symmetric] seg_dst_def[symmetric])
  next
    case False
    then have nz: "load32 m (ph + 16) \<noteq> 0" using n by auto
    have "fst (memcpy m1 ?d ?s (load32 m (ph + 16))) = m2"
      using apart_read_ahead[OF ds len] n by (simp add: memcpy_write m2_def)
    moreover have "load32 m2 (ph + 16) = load32 m (ph + 16)"
      using same_on_header(4)[OF m2_ph] m1(3) by simp
    moreover have "fst (memset m2 ?s 0 (load32 m (ph + 16))) = m3"
      using n by (simp add: memset_write m3_def)
    moreover have "\<not> load32 m (ph + 16) > load32 m (ph + 20)"
      using assms(1) True by (simp add: seg_fits_def not_less)
    ultimately show ?thesis
      using True False nz m1
      by (simp add: load_segment_def Let_def m1_def[symmetric] seg_dst_def[symmetric]
          seg_src_def[symmetric])
  qed
  moreover have "mem_read m3 ?s ?n = replicate ?n 0"
    using mem_read_write_same[of "replicate ?n 0" m2 ?s] len by (simp add: m3_def)
  moreover have "mem_read m3 ?d ?n = mem_read m ?s ?n"
  proof -
    have "mem_read m3 ?d ?n = mem_read m2 ?d ?n"
      using ds len unfolding m3_def by (intro mem_read_write_other) (auto simp: apart_def)
    then show ?thesis
      using mem_read_write_same[of "mem_read m1 ?s ?n" m1 ?d] len read1 by (simp add: m2_def)
  qed
  moreover have "m3 x = m x" if "\<not> in_block ph 32 x" "\<not> in_block ?d ?n x" "\<not> in_block ?s ?n x" for x
    using that m1_other by (simp add: m3_def m2_def mem_write_outside)
  ultimately show ?thesis
    using m1_other by (intro that[of "if ?n = 0 then m1 else m3"]) (auto simp: mem_read_def)
qed

section \<open>Loading a well laid out image\<close>

definition phdr_at :: "u32 \<Rightarrow> mem \<Rightarrow> nat \<Rightarrow> u32" where
  "phdr_at addr m i = addr + load32 m (addr + 28) + 32 * of_nat i"

abbreviation (input) src_of :: "u32 \<Rightarrow> mem \<Rightarrow> nat \<Rightarrow> u32" where
  "src_of addr m i \<equiv> seg_src addr m (phdr_at addr m i)"
abbreviation (input) dst_of :: "u32 \<Rightarrow> mem \<Rightarrow> nat \<Rightarrow> u32" where
  "dst_of addr m i \<equiv> seg_dst m (phdr_at addr m i)"
abbreviation (input) len_of :: "u32 \<Rightarrow> mem \<Rightarrow> nat \<Rightarrow> nat" where
  "len_of addr m i \<equiv> seg_len m (phdr_at addr m i)"

definition phnum :: "u32 \<Rightarrow> mem \<Rightarrow> nat" where
  "phnum addr m = unat (load16 m (addr + 44))"

text \<open>
  The image has program headers of the right size and no segment with more bytes in the file than in
  memory; the ELF header, the program headers, the segments in the image and their load areas do not
  touch one another.
\<close>

definition elf_layout :: "u32 \<Rightarrow> mem \<Rightarrow> bool" where
  "elf_layout addr m \<longleftrightarrow>
     load32 m (addr + 28) \<noteq> 0 \<and> load16 m (addr + 42) = 32 \<and> 0 < phnum addr m \<and>
     (\<forall>i < phnum addr m. seg_fits m (phdr_at addr m i) \<and> apart (phdr_at addr m i) 32 addr 52 \<and>
        apart (src_of addr m i) (len_of addr m i) addr 52 \<and>
        apart (dst_of addr m i) (len_of addr m i) addr 52 \<and>
        (\<forall>j < phnum addr m.
           apart (src_of addr m i) (len_of addr m i) (phdr_at addr m j) 32 \<and>
           apart (dst_of addr m i) (len_of addr m i) (phdr_at addr m j) 32 \<and>
           apart (dst_of addr m i) (len_of addr m i) (src_of addr m j) (len_of addr m j) \<and>
           (i \<noteq> j \<longrightarrow> apart (src_of addr m i) (len_of addr m i) (src_of addr m j) (len_of addr m j) \<and>
                     apart (dst_of addr m i) (len_of addr m i) (dst_of addr m j) (len_of addr m j))))"

definition segs_inv :: "u32 \<Rightarrow> mem \<Rightarrow> nat \<Rightarrow> mem \<Rightarrow> bool" where
  "segs_inv addr m i m' \<longleftrightarrow> same_on addr 52 m m' \<and>
     (\<forall>j < phnum addr m.
        (if i \<le> j then same_on (phdr_at addr m j) 32 m m' \<and>
                        same_on (src_of addr m j) (len_of addr m j) m m'
         else mem_read m' (dst_of addr m j) (len_of addr m j) = mem_read m (src_of addr m j) (len_of addr m j) \<and>
              mem_read m' (src_of addr m j) (len_of addr m j) = replicate (len_of addr m j) 0))"

lemma phdrs_apart:
  assumes "i < 65536" and "j < 65536" and "i \<noteq> j"
  shows "apart (phdr_at addr m i) 32 (phdr_at addr m j) 32"
  unfolding apart_def
proof (intro allI impI notI)
  fix x assume "in_block (phdr_at addr m i) 32 x" "in_block (phdr_at addr m j) 32 x"
  then obtain a b :: nat where ab: "a < 32" "b < 32"
    and "x = phdr_at addr m i + of_nat a" "x = phdr_at addr m j + of_nat b"
    using block_nth by meson
  then have "(of_nat (32 * i + a) :: u32) = of_nat (32 * j + b)" by (simp add: phdr_at_def add.assoc)
  then have "unat (of_nat (32 * i + a) :: u32) = unat (of_nat (32 * j + b) :: u32)" by (rule arg_cong)
  then have eq: "32 * i + a = 32 * j + b"
    using ab assms by (simp only: unat_of_nat32)
  show False
  proof (cases "i < j")
    case True
    then have "32 * i + 32 \<le> 32 * j" by simp
    with eq ab show ?thesis by linarith
  next
    case False
    then have "32 * j + 32 \<le> 32 * i" using assms(3) by simp
    with eq ab show ?thesis by linarith
  qed
qed

lemma same_on_trans: "same_on a n m m1 \<Longrightarrow> (\<And>x. in_block a n x \<Longrightarrow> m2 x = m1 x) \<Longrightarrow> same_on a n m m2"
  by (simp add: same_on_def)

lemma phnum_less: "phnum addr m < 65536"
  using unsigned_less[of "load16 m (addr + 44)", where ?'a = nat] by (simp add: phnum_def)

lemma segs_inv_step:
  assumes lay: "elf_layout addr m" and inv: "segs_inv addr m i m1" and i: "i < phnum addr m"
  obtains m2 where "load_segment addr (phdr_at addr m i) m1 = (True, m2)" and "segs_inv addr m (Suc i) m2"
proof -
  let ?ph = "phdr_at addr m i"
  have same: "same_on ?ph 32 m m1" "same_on (src_of addr m i) (len_of addr m i) m m1"
    using inv i by (simp_all add: segs_inv_def)
  note hdr = same_on_header[OF same(1)]
  have eq: "seg_src addr m1 ?ph = src_of addr m i" "seg_dst m1 ?ph = dst_of addr m i"
    "seg_len m1 ?ph = len_of addr m i" "seg_fits m1 ?ph = seg_fits m ?ph"
    by (simp_all add: seg_src_def seg_dst_def seg_len_def seg_fits_def hdr)
  have L: "apart (src_of addr m i) (len_of addr m i) (phdr_at addr m j) 32"
    "apart (dst_of addr m i) (len_of addr m i) (phdr_at addr m j) 32"
    "apart (dst_of addr m i) (len_of addr m i) (src_of addr m j) (len_of addr m j)"
    "apart (dst_of addr m j) (len_of addr m j) (src_of addr m i) (len_of addr m i)"
    "apart (dst_of addr m j) (len_of addr m j) ?ph 32" "apart (src_of addr m j) (len_of addr m j) ?ph 32"
    if "j < phnum addr m" for j
    using lay i that unfolding elf_layout_def by blast+
  have L2: "apart (src_of addr m i) (len_of addr m i) (src_of addr m j) (len_of addr m j)"
    "apart (dst_of addr m i) (len_of addr m i) (dst_of addr m j) (len_of addr m j)"
    if "j < phnum addr m" "i \<noteq> j" for j
    using lay i that unfolding elf_layout_def by blast+
  have H: "apart ?ph 32 addr 52" "apart (src_of addr m i) (len_of addr m i) addr 52"
    "apart (dst_of addr m i) (len_of addr m i) addr 52" "seg_fits m ?ph"
    using lay i unfolding elf_layout_def by blast+
  have args: "seg_fits m1 ?ph" "apart (seg_src addr m1 ?ph) (seg_len m1 ?ph) ?ph 32"
    "apart (seg_dst m1 ?ph) (seg_len m1 ?ph) ?ph 32"
    "apart (seg_dst m1 ?ph) (seg_len m1 ?ph) (seg_src addr m1 ?ph) (seg_len m1 ?ph)"
    unfolding eq using H(4) L(1-3)[OF i] by simp_all
  obtain m2 where m2: "load_segment addr ?ph m1 = (True, m2)"
    and dst: "mem_read m2 (dst_of addr m i) (len_of addr m i) = mem_read m1 (src_of addr m i) (len_of addr m i)"
    and zero: "mem_read m2 (src_of addr m i) (len_of addr m i) = replicate (len_of addr m i) 0"
    and frame: "\<And>x. \<not> in_block ?ph 32 x \<Longrightarrow> \<not> in_block (dst_of addr m i) (len_of addr m i) x
           \<Longrightarrow> \<not> in_block (src_of addr m i) (len_of addr m i) x \<Longrightarrow> m2 x = m1 x"
    using load_segment_step[OF args] unfolding eq by blast
  have keep: "m2 x = m1 x" if "apart ?ph 32 a n" "apart (dst_of addr m i) (len_of addr m i) a n"
      "apart (src_of addr m i) (len_of addr m i) a n" "in_block a n x" for a n x
    using that by (intro frame) (auto simp: apart_def)
  have "segs_inv addr m (Suc i) m2"
    unfolding segs_inv_def
  proof (intro conjI allI impI)
    show "same_on addr 52 m m2"
      using inv same_on_trans[OF _ keep[OF H(1,3,2)]] by (simp add: segs_inv_def)
    fix j assume j: "j < phnum addr m"
    note sym = L(5,6)[OF j, THEN apart_sym]
    consider "Suc i \<le> j" | "j = i" | "j < i" by linarith
    then show "if Suc i \<le> j then same_on (phdr_at addr m j) 32 m m2 \<and>
                        same_on (src_of addr m j) (len_of addr m j) m m2
         else mem_read m2 (dst_of addr m j) (len_of addr m j) = mem_read m (src_of addr m j) (len_of addr m j) \<and>
              mem_read m2 (src_of addr m j) (len_of addr m j) = replicate (len_of addr m j) 0"
    proof cases
      case 1
      then have "i \<noteq> j" "i \<le> j" by simp_all
      moreover have "apart ?ph 32 (phdr_at addr m j) 32"
        using phnum_less[of addr m] i j \<open>i \<noteq> j\<close> by (intro phdrs_apart) simp_all
      ultimately have "same_on (phdr_at addr m j) 32 m m2" "same_on (src_of addr m j) (len_of addr m j) m m2"
        using inv j same_on_trans[OF _ keep[OF _ L(2)[OF j] L(1)[OF j]]]
          same_on_trans[OF _ keep[OF sym(2) L(3)[OF j] L2(1)[OF j]]]
        by (simp_all add: segs_inv_def)
      with 1 show ?thesis by simp
    next
      case 2
      have "mem_read m1 (src_of addr m i) (len_of addr m i) = mem_read m (src_of addr m i) (len_of addr m i)"
        using same(2) seg_len_le by (intro mem_read_cong) (auto simp: same_on_def)
      with 2 dst zero show ?thesis by simp
    next
      case 3
      then have ij: "i \<noteq> j" by simp
      have "mem_read m2 (dst_of addr m j) (len_of addr m j) = mem_read m1 (dst_of addr m j) (len_of addr m j)"
        using keep[OF sym(1) L2(2)[OF j ij] apart_sym[OF L(4)[OF j]]] seg_len_le
        by (intro mem_read_cong) auto
      moreover have "mem_read m2 (src_of addr m j) (len_of addr m j) = mem_read m1 (src_of addr m j) (len_of addr m j)"
        using keep[OF sym(2) L(3)[OF j] L2(1)[OF j ij]] seg_len_le by (intro mem_read_cong) auto
      ultimately show ?thesis using inv j 3 by (auto simp: segs_inv_def)
    qed
  qed
  with m2 show ?thesis by (rule that)
qed

lemma segs_inv_loop:
  assumes lay: "elf_layout addr m" and "segs_inv addr m i m1" and "i \<le> phnum addr m"
  obtains m2 where "load_segments addr (phdr_at addr m 0) i m1 = (True, m2)"
    and "segs_inv addr m (phnum addr m) m2"
proof -
  have "\<exists>m2. load_segments addr (phdr_at addr m 0) i m1 = (True, m2) \<and> segs_inv addr m (phnum addr m) m2"
    using assms(2,3)
  proof (induction "phnum addr m - i" arbitrary: i m1)
    case (0 i m1)
    then have "i = phnum addr m" by simp
    moreover have "load16 m1 (addr + 44) = load16 m (addr + 44)"
      using 0(2) same_on_load16[of addr 52 m m1 44] by (simp add: segs_inv_def)
    ultimately show ?case
      using 0(2) by (subst load_segments.simps) (simp add: phnum_def)
  next
    case (Suc k i m1)
    then have i: "i < phnum addr m" and k: "k = phnum addr m - Suc i" by linarith+
    obtain m2 where m2: "load_segment addr (phdr_at addr m i) m1 = (True, m2)" "segs_inv addr m (Suc i) m2"
      using segs_inv_step[OF lay Suc.prems(1) i] by blast
    have "load16 m1 (addr + 44) = load16 m (addr + 44)"
      using Suc.prems(1) same_on_load16[of addr 52 m m1 44] by (simp add: segs_inv_def)
    then have "load_segments addr (phdr_at addr m 0) i m1 = load_segments addr (phdr_at addr m 0) (Suc i) m2"
      using i m2(1) by (subst load_segments.simps) (simp add: phnum_def phdr_at_def)
    with Suc.hyps(1)[OF k m2(2)] i show ?case by auto
  qed
  with that show ?thesis by blast
qed

lemma load_elf_image_result:
  assumes "elf_layout addr m"
  shows "\<exists>m'. load_elf_image m addr = (load32 m (addr + 24), m') \<and>
    (\<forall>i < phnum addr m. let ph = addr + load32 m (addr + 28) + 32 * of_nat i in
       load32 m ph = 1 \<longrightarrow>
       mem_read m' (to_k0 (load32 m (ph + 12))) (unat (load32 m (ph + 16)))
         = mem_read m (addr + load32 m (ph + 4)) (unat (load32 m (ph + 16))) \<and>
       mem_read m' (addr + load32 m (ph + 4)) (unat (load32 m (ph + 16)))
         = replicate (unat (load32 m (ph + 16))) 0)"
proof -
  have "segs_inv addr m 0 m" by (simp add: segs_inv_def same_on_def)
  then obtain m' where run: "load_segments addr (phdr_at addr m 0) 0 m = (True, m')"
    and inv: "segs_inv addr m (phnum addr m) m'"
    using segs_inv_loop[OF assms, of 0 m] by blast
  have "load32 m' (addr + 24) = load32 m (addr + 24)"
    using inv same_on_load32[of addr 52 m m' 24] by (simp add: segs_inv_def)
  moreover have "load16 m (addr + 44) \<noteq> 0" using assms by (auto simp: elf_layout_def phnum_def)
  ultimately have "load_elf_image m addr = (load32 m (addr + 24), m')"
    using assms run by (simp add: load_elf_image_def elf_layout_def phdr_at_def)
  then show ?thesis
    using inv by (auto simp: segs_inv_def phdr_at_def seg_src_def seg_dst_def seg_len_def Let_def)
qed

text \<open>
  C19: an image whose headers, segments and load areas do not touch one another is loaded completely:
  the result is the entry point of the ELF header, every loadable segment has been moved from the
  image to its load address (translated to the cached MEM1/MEM2 mapping) and the bytes it occupied in
  the image have been cleared.
\<close>

theorem load_elf_image_moves:
  assumes "elf_layout addr m"
  shows "\<exists>m'. load_elf_image m addr = (load32 m (addr + 24), m') \<and>
    (\<forall>i < phnum addr m. let ph = addr + load32 m (addr + 28) + 32 * of_nat i in
       load32 m ph = 1 \<longrightarrow>
       mem_read m' (to_k0 (load32 m (ph + 12))) (unat (load32 m (ph + 16)))
         = mem_read m (addr + load32 m (ph + 4)) (unat (load32 m (ph + 16))) \<and>
       mem_read m' (addr + load32 m (ph + 4)) (unat (load32 m (ph + 16)))
         = replicate (unat (load32 m (ph + 16))) 0)"
  using assms by (rule load_elf_image_result)

text \<open>A one-segment image at the buffer: four bytes at offset 0x54 for physical address 0x4000.\<close>

definition tiny_elf :: mem where
  "tiny_elf = (\<lambda>_. 0)(0x90100000 := 0x7f, 0x90100001 := 0x45, 0x90100002 := 0x4c, 0x90100003 := 0x46,
     0x90100018 := 0x80, 0x9010001a := 0x40, 0x9010001f := 0x34, 0x9010002b := 0x20, 0x9010002d := 1,
     0x90100037 := 1, 0x9010003b := 0x54, 0x90100042 := 0x40, 0x90100047 := 4, 0x9010004b := 4,
     0x90100054 := 0x11, 0x90100055 := 0x22, 0x90100056 := 0x33, 0x90100057 := 0x44)"

lemma tiny_elf_fields:
  "load32 tiny_elf 0x9010001c = 0x34" "load16 tiny_elf 0x9010002a = 32" "load16 tiny_elf 0x9010002c = 1"
  "load32 tiny_elf 0x90100018 = 0x80004000" "load32 tiny_elf 0x90100034 = 1"
  "load32 tiny_elf 0x90100038 = 0x54" "load32 tiny_elf 0x90100040 = 0x4000"
  "load32 tiny_elf 0x90100044 = 4" "load32 tiny_elf 0x90100048 = 4"
  by (simp_all add: load32_def load16_def tiny_elf_def be32_of_def be16_of_def push_bit_eq_mult)

lemma tiny_elf_seg:
  "phnum 0x90100000 tiny_elf = 1" "phdr_at 0x90100000 tiny_elf 0 = 0x90100034"
  "seg_src 0x90100000 tiny_elf 0x90100034 = 0x90100054"
  "seg_dst tiny_elf 0x90100034 = 0x80004000" "seg_len tiny_elf 0x90100034 = 4"
  by (simp_all add: phnum_def phdr_at_def seg_src_def seg_dst_def seg_len_def tiny_elf_fields to_k0_def)

lemma tiny_elf_layout: "elf_layout 0x90100000 tiny_elf"
  by (simp add: elf_layout_def tiny_elf_seg tiny_elf_fields seg_fits_def apart_intervals)

theorem load_elf_image_moves_witness:
  "fst (load_elf_image tiny_elf CODE_BUFFER) = 0x80004000
   \<and> mem_read (snd (load_elf_image tiny_elf CODE_BUFFER)) 0x80004000 4 = [0x11, 0x22, 0x33, 0x44]
   \<and> mem_read (snd (load_elf_image tiny_elf CODE_BUFFER)) 0x90100054 4 = [0, 0, 0, 0]"
proof -
  have "mem_read tiny_elf 0x90100054 4 = [0x11, 0x22, 0x33, 0x44]"
    by (simp add: mem_read_def upt_rec tiny_elf_def)
  moreover have "replicate 4 (0 :: u8) = [0, 0, 0, 0]" by (simp add: eval_nat_numeral)
  ultimately show ?thesis
    using load_elf_image_moves[OF tiny_elf_layout]
    by (auto simp: CODE_BUFFER_def tiny_elf_seg tiny_elf_fields to_k0_def)
qed

section \<open>Images the stub should not run, and one it cannot\<close>

lemma valid_elf_image_nonzero: "valid_elf_image m addr \<noteq> 0 \<longleftrightarrow> is_elf_magic m addr"
  by (simp add: valid_elf_image_def)

text \<open>
  Of the checks of \<^verbatim>\<open>valid_elf_image\<close> only the magic number keeps the stub from running an
  image. The others (class, byte order, version, type, machine) answer -1, which the caller's
  condition takes for true: the stub branches to the entry point whenever decoding succeeded, the
  magic number is right and \<^verbatim>\<open>load_elf_image\<close> gives a nonzero entry, and blinks in every other case.
\<close>

lemma stubmain_checks_magic_only:
  "fst (stubmain dkppc decode m0) =
     (case decode (write32 m0 0x0c003004 0) of (res, m1) \<Rightarrow>
        let entry = fst (load_elf_image m1 CODE_BUFFER)
        in if res = 0 \<and> is_elf_magic m1 CODE_BUFFER \<and> entry \<noteq> 0
           then (if dkppc then Branch entry
                 else if entry AND 0xc0000000 = 0 then Plunge entry else Branch entry)
           else Blink)"
  by (simp add: stubmain_def valid_elf_image_nonzero Let_def split: prod.splits)

text \<open>
  When the first segment's bytes in the image include the ELF header (file offset 0, as linkers
  commonly lay it out), clearing them after the copy erases the header that the loop and the result
  are still read from: the remaining segments are not loaded and the entry point comes out as 0, so
  the stub blinks.
\<close>

lemma header_segment_erases_entry:
  assumes "load32 m (addr + 28) \<noteq> 0" and "load16 m (addr + 44) \<noteq> 0" and "load16 m (addr + 42) = 32"
    and ph: "ph = addr + load32 m (addr + 28)"
    and type: "load32 m ph = 1" and off: "load32 m (ph + 4) = 0"
    and fits: "load32 m (ph + 16) \<le> load32 m (ph + 20)" and big: "52 \<le> unat (load32 m (ph + 16))"
    and dst: "apart (to_k0 (load32 m (ph + 12))) (unat (load32 m (ph + 16))) ph 32"
      "apart (to_k0 (load32 m (ph + 12))) (unat (load32 m (ph + 16))) addr (unat (load32 m (ph + 16)))"
  shows "fst (load_elf_image m addr) = 0"
proof -
  let ?d = "to_k0 (load32 m (ph + 12))" and ?n = "load32 m (ph + 16)"
  define m1 where "m1 = store32 m (ph + 12) ?d"
  define m2 where "m2 = mem_write m1 ?d (mem_read m1 addr (unat ?n))"
  define m3 where "m3 = mem_write m2 addr (replicate (unat ?n) 0)"
  have n: "unat ?n < 4294967296" using unsigned_less[of ?n, where ?'a = nat] by simp
  have m1: "load32 m1 (ph + 12) = ?d" "load32 m1 (ph + 4) = 0"
    "load32 m1 (ph + 16) = ?n" "load32 m1 (ph + 20) = load32 m (ph + 20)"
    by (simp_all add: m1_def load32_store32 store_paddr off)
  have "same_on ph 32 m1 m2"
    using dst(1) by (auto simp: same_on_def m2_def apart_def intro!: mem_write_outside)
  then have "load32 m2 (ph + 16) = ?n" using same_on_header(4) m1(3) by simp
  moreover have "fst (memcpy m1 ?d addr ?n) = m2"
    using apart_read_ahead[OF dst(2)] n by (simp add: memcpy_write m2_def)
  moreover have "fst (memset m2 addr 0 ?n) = m3" by (simp add: memset_write m3_def)
  moreover have "?n \<noteq> 0" using big by auto
  ultimately have step: "load_segment addr ph m = (True, m3)"
    using type fits m1 by (simp add: load_segment_def Let_def m1_def[symmetric] not_less)
  have zero: "m3 (addr + of_nat k) = 0" if "k < 52" for k
    using that big n by (simp add: m3_def mem_write_def)
  have "load16 m3 (addr + 44) = 0" "load32 m3 (addr + 24) = 0"
    using zero[of 44] zero[of 45] zero[of 24] zero[of 25] zero[of 26] zero[of 27]
    by (simp_all add: load16_def load32_def be16_of_def be32_of_def add.commute[of _ addr])
  moreover have "0 < unat (load16 m (addr + 44))"
    using assms(2) unat_eq_zero[of "load16 m (addr + 44)"] by linarith
  ultimately have "load_segments addr ph 0 m = (True, m3)"
    using step by (subst load_segments.simps, subst load_segments.simps) simp
  then show ?thesis
    using assms(1-3) \<open>load32 m3 (addr + 24) = 0\<close> by (simp add: load_elf_image_def ph[symmetric])
qed

definition header_elf :: mem where
  "header_elf = tiny_elf(0x9010003b := 0, 0x90100047 := 0x58, 0x9010004b := 0x58)"

lemma header_segment_erases_entry_example:
  "load32 header_elf 0x90100018 = 0x80004000 \<and> fst (load_elf_image header_elf 0x90100000) = 0"
proof -
  have f: "load32 header_elf (0x90100000 + 28) = 0x34" "load16 header_elf (0x90100000 + 42) = 32"
    "load16 header_elf (0x90100000 + 44) = 1" "load32 header_elf 0x90100018 = 0x80004000"
    "load32 header_elf 0x90100034 = 1" "load32 header_elf (0x90100034 + 4) = 0"
    "load32 header_elf (0x90100034 + 12) = 0x4000" "load32 header_elf (0x90100034 + 16) = 0x58"
    "load32 header_elf (0x90100034 + 20) = 0x58"
    by (simp_all add: load32_def load16_def header_elf_def tiny_elf_def be32_of_def be16_of_def push_bit_eq_mult)
  have "fst (load_elf_image header_elf 0x90100000) = 0"
    by (rule header_segment_erases_entry[where ph = "0x90100034"])
      (simp_all only: f, simp_all add: to_k0_def apart_intervals)
  with f(4) show ?thesis by simp
qed

end
