(* ===== verification/Wiiload.thy ===== *)
theory Wiiload
  imports HBC_Prelude "HOL-Library.While_Combinator"
begin

text \<open>
  \<^verbatim>\<open>channel/wiiload/main.c\<close> and \<^verbatim>\<open>gecko.c\<close>: the host program that uploads an application to the
  channel, over TCP or over a USB Gecko (the POSIX build without libftdi). The operating system is
  the environment; \<^verbatim>\<open>compress2\<close> of zlib and the size of its output buffer, which the code computes in
  floating point, are parameters. Messages printed for the user are left out.
\<close>

section \<open>Calls\<close>

datatype host_call =
    HOpen "u8 list" | HClose int | HFcntl int | HTcgetattr int | HTcsetattr int | HTcflush int
  | HWrite int "u8 list" | HTcdrain int
  | HInetAddr "u8 list" | HGethostbyname "u8 list" | HSocket | HConnect int u32 u16
  | HSend int "u8 list"
  | HOpenFile "u8 list" | HFstat int | HStat "u8 list" | HReadFile int int | HMalloc int

text \<open>
  \<open>hret\<close> is the result, \<open>hok\<close> whether a pointer result is not null, \<open>haddr\<close> an address, \<open>hsize\<close> a file
  size and \<open>hbytes\<close> the bytes of a read.
\<close>

record host_reply =
  hret :: int
  hok :: bool
  haddr :: u32
  hsize :: int
  hbytes :: "u8 list"

type_synonym host_world = "(host_call, host_reply) world"

definition LD_TCP_PORT :: u16 where "LD_TCP_PORT = 4299"
definition MAX_ARGS_LEN :: u16 where "MAX_ARGS_LEN = 1024"
definition FTDI_PACKET_SIZE :: u64 where "FTDI_PACKET_SIZE = 3968"
definition AF_INET :: int where "AF_INET = 2"
definition INADDR_NONE :: u32 where "INADDR_NONE = 0xffffffff"

section \<open>gecko.c\<close>

text \<open>\<^verbatim>\<open>fd_gecko\<close> is the state: the result code, the descriptor and the calls. A failed set-up leaves it open.\<close>

definition gecko_open :: "host_world \<Rightarrow> u8 list \<Rightarrow> host_call list \<Rightarrow> int \<times> int \<times> host_call list" where
  "gecko_open w dev h0 =
     (let fd = hret (w h0 (HOpen dev)); h1 = HOpen dev # h0
      in if fd = -1 then (1, fd, h1)
         else let h2 = HFcntl fd # h1
         in if hret (w h1 (HFcntl fd)) \<noteq> 0 then (1, fd, h2)
         else let h3 = HTcgetattr fd # h2
         in if hret (w h2 (HTcgetattr fd)) \<noteq> 0 then (1, fd, h3)
         else let h4 = HTcsetattr fd # h3
         in if hret (w h3 (HTcsetattr fd)) \<noteq> 0 then (1, fd, h4)
         else (0, fd, HTcflush fd # h4))"

definition gecko_close :: "int \<Rightarrow> host_call list \<Rightarrow> host_call list" where
  "gecko_close fd h = (if fd > 0 then HClose fd # h else h)"

text \<open>
  \<^verbatim>\<open>gecko_write\<close> reads its buffer through \<open>peek\<close>, the bytes at an offset from \<^verbatim>\<open>buf\<close>, because its calls of
  \<^verbatim>\<open>write\<close> pass \<^verbatim>\<open>count\<close> each time and not what is left; and the result of \<^verbatim>\<open>write\<close> is kept in a \<^verbatim>\<open>size_t\<close>.
\<close>

record gecko_xfer =
  gresult :: "int option"
  gleft :: u64
  goff :: u64
  gcalls :: "host_call list"

definition gecko_bytes :: "(u64 \<Rightarrow> u8) \<Rightarrow> u64 \<Rightarrow> u64 \<Rightarrow> u8 list" where
  "gecko_bytes peek off n = map (\<lambda>i. peek (off + of_nat i)) [0..<unat n]"

definition gecko_write_iter ::
  "host_world \<Rightarrow> int \<Rightarrow> (u64 \<Rightarrow> u8) \<Rightarrow> u64 \<Rightarrow> gecko_xfer \<Rightarrow> gecko_xfer" where
  "gecko_write_iter w fd peek count x =
     (if gleft x = 0 then x\<lparr>gresult := Some 0\<rparr>
      else
        let h0 = gcalls x; e = HWrite fd (gecko_bytes peek (goff x) count);
            res = (word_of_int (hret (w h0 e)) :: u64); h1 = e # h0
        in if res < 1 then x\<lparr>gresult := Some 1, gcalls := h1\<rparr>
           else
             let y = x\<lparr>gleft := gleft x - res, goff := goff x + res, gcalls := HTcdrain fd # h1\<rparr>
             in if hret (w h1 (HTcdrain fd)) \<noteq> 0 then y\<lparr>gresult := Some 1\<rparr> else y)"

definition gecko_write ::
  "host_world \<Rightarrow> int \<Rightarrow> (u64 \<Rightarrow> u8) \<Rightarrow> u64 \<Rightarrow> host_call list \<Rightarrow> (int \<times> host_call list) option" where
  "gecko_write w fd peek count h =
     map_option (\<lambda>x. (the (gresult x), gcalls x))
       (while_option (\<lambda>x. gresult x = None) (gecko_write_iter w fd peek count)
          \<lparr>gresult = None, gleft = count, goff = 0, gcalls = h\<rparr>)"

section \<open>The transfer\<close>

definition len_bytes :: "u32 \<Rightarrow> u8 list" where
  "len_bytes n = [ucast (drop_bit 24 n AND 0xff), ucast (drop_bit 16 n AND 0xff),
     ucast (drop_bit 8 n AND 0xff), ucast (n AND 0xff)]"

text \<open>The four words of the upload request: magic, version 0.5 and length of the arguments, sizes.\<close>

definition request_words :: "u16 \<Rightarrow> u32 \<Rightarrow> u32 \<Rightarrow> u8 list list" where
  "request_words args_len len len_un =
     [[0x48, 0x41, 0x58, 0x58],
      [0, 5, ucast (drop_bit 8 args_len AND 0xff), ucast (args_len AND 0xff)],
      len_bytes len, len_bytes len_un]"

text \<open>The loop over the data: offset and size of each block.\<close>

function block_ranges :: "nat \<Rightarrow> nat \<Rightarrow> nat \<Rightarrow> (nat \<times> nat) list" where
  "block_ranges n off left =
     (if left = 0 \<or> n = 0 then []
      else let block = (if left > n then n else left)
           in (off, block) # block_ranges n (off + block) (left - block))"
  by pat_completeness auto
termination by (relation "measure (\<lambda>(n, off, left). left)") auto

declare block_ranges.simps [simp del]

definition blocks :: "nat \<Rightarrow> u8 list \<Rightarrow> u8 list list" where
  "blocks n bs = map (\<lambda>(off, k). take k (drop off bs)) (block_ranges n 0 (length bs))"

text \<open>Sends one block after the other; the first that fails ends it. \<open>None\<close> when a send never returns.\<close>

fun put_all :: "('b \<Rightarrow> 'h \<Rightarrow> (bool \<times> 'h) option) \<Rightarrow> 'b list \<Rightarrow> 'h \<Rightarrow> (bool \<times> 'h) option" where
  "put_all put [] h = Some (True, h)"
| "put_all put (b # bs) h =
     (case put b h of
        None \<Rightarrow> None
      | Some (ok, h') \<Rightarrow> if ok then put_all put bs h' else Some (False, h'))"

definition args_block :: "u8 list \<Rightarrow> u8 list list" where
  "args_block args = (if args \<noteq> [] then [args] else [])"

text \<open>Sends \<open>k\<close> bytes at an offset of a buffer; \<open>rest\<close> is what lies around it.\<close>

definition gecko_put ::
  "host_world \<Rightarrow> int \<Rightarrow> (u64 \<Rightarrow> u8) \<Rightarrow> u8 list \<times> nat \<times> nat \<Rightarrow> host_call list \<Rightarrow> (bool \<times> host_call list) option"
where
  "gecko_put w fd rest = (\<lambda>(buf, off, k) h.
     map_option (\<lambda>(r, h'). (r = 0, h'))
       (gecko_write w fd
          (\<lambda>i. let j = of_nat off + i in if unat j < length buf then buf ! unat j else rest j)
          (of_nat k) h))"

definition whole :: "u8 list \<Rightarrow> u8 list \<times> nat \<times> nat" where
  "whole bs = (bs, 0, length bs)"

text \<open>A failed data block ends the data, but not the transfer.\<close>

definition send_gecko ::
  "host_world \<Rightarrow> (u64 \<Rightarrow> u8) \<Rightarrow> u8 list \<Rightarrow> u8 list \<Rightarrow> u32 \<Rightarrow> u8 list \<Rightarrow> host_call list
     \<Rightarrow> (bool \<times> host_call list) option" where
  "send_gecko w rest dev data len_un args h0 =
     (case gecko_open w dev h0 of (r, fd, h1) \<Rightarrow>
        if r \<noteq> 0 then Some (False, h1)
        else
          (case put_all (gecko_put w fd rest)
                  (map whole (request_words (of_nat (length args)) (of_nat (length data)) len_un)) h1 of
             None \<Rightarrow> None
           | Some (ok, h2) \<Rightarrow>
               if \<not> ok then Some (False, gecko_close fd h2)
               else
                 (case put_all (gecko_put w fd rest) (map (Pair data) (block_ranges 63488 0 (length data))) h2 of
                    None \<Rightarrow> None
                  | Some (_, h3) \<Rightarrow>
                      map_option (\<lambda>(ok', h4). (ok', gecko_close fd h4))
                        (put_all (gecko_put w fd rest) (map whole (args_block args)) h3))))"

definition tcp_put_iter ::
  "host_world \<Rightarrow> int \<Rightarrow> u8 list \<Rightarrow> bool option \<times> int \<times> nat \<times> host_call list
     \<Rightarrow> bool option \<times> int \<times> nat \<times> host_call list" where
  "tcp_put_iter w s buf =
     (\<lambda>(r, left, off, h).
        if left = 0 then (Some True, left, off, h)
        else
          let e = HSend s (take (nat left) (drop off buf)); block = hret (w h e)
          in if block < 0 then (Some False, left, off, e # h)
             else (None, left - block, off + nat block, e # h))"

definition tcp_put ::
  "host_world \<Rightarrow> int \<Rightarrow> u8 list \<Rightarrow> host_call list \<Rightarrow> (bool \<times> host_call list) option" where
  "tcp_put w s buf h =
     map_option (\<lambda>(r, left, off, h'). (the r, h'))
       (while_option (\<lambda>(r, left, off, h). r = None) (tcp_put_iter w s buf)
          (None, sint (of_nat (length buf) :: u32), 0, h))"

text \<open>The address to connect to: \<open>None\<close> when the name does not resolve to an IPv4 address.\<close>

definition host_address :: "host_world \<Rightarrow> u8 list \<Rightarrow> host_call list \<Rightarrow> u32 option \<times> host_call list" where
  "host_address w host h0 =
     (let a = haddr (w h0 (HInetAddr host)); h1 = HInetAddr host # h0
      in if a = INADDR_NONE then
           let he = w h1 (HGethostbyname host); h2 = HGethostbyname host # h1
           in if \<not> hok he then (None, h2)
              else if hret he \<noteq> AF_INET then (None, h2)
              else (Some (haddr he), h2)
         else (Some a, h1))"

definition send_tcp ::
  "host_world \<Rightarrow> u8 list \<Rightarrow> u8 list \<Rightarrow> u32 \<Rightarrow> u8 list \<Rightarrow> host_call list \<Rightarrow> (bool \<times> host_call list) option"
where
  "send_tcp w host data len_un args h0 =
     (case host_address w host h0 of
        (None, h1) \<Rightarrow> Some (False, h1)
      | (Some a, h1) \<Rightarrow>
          let s = hret (w h1 HSocket); h2 = HSocket # h1
          in if s < 0 then Some (False, h2)
             else
               let h3 = HConnect s a LD_TCP_PORT # h2
               in if hret (w h2 (HConnect s a LD_TCP_PORT)) = -1 then Some (False, HClose s # h3)
                  else
                    map_option (\<lambda>(ok, h). (ok, HClose s # h))
                      (put_all (tcp_put w s)
                         (request_words (of_nat (length args)) (of_nat (length data)) len_un
                            @ blocks 4096 data @ args_block args) h3))"

section \<open>The program\<close>

text \<open>
  The argument buffer: \<open>abuf\<close> is the memory from \<^verbatim>\<open>args\<close> on, with what lies behind its 1024 bytes,
  \<open>apos\<close> the offset of \<^verbatim>\<open>arg_pos\<close>. \<^verbatim>\<open>snprintf\<close> stores at most \<open>n\<close> bytes, the last of them a NUL, and
  returns the length of the string.
\<close>

record args_state =
  abuf :: "nat \<Rightarrow> u8"
  apos :: nat
  aleft :: u16

definition snprintf_s :: "(nat \<Rightarrow> u8) \<Rightarrow> nat \<Rightarrow> nat \<Rightarrow> u8 list \<Rightarrow> nat \<Rightarrow> u8" where
  "snprintf_s buf pos n s =
     (let k = min (length s) (n - 1)
      in (\<lambda>x. if n = 0 \<or> x < pos \<or> pos + k < x then buf x else if x < pos + k then s ! (x - pos) else 0))"

definition add_arg :: "u8 list \<Rightarrow> args_state \<Rightarrow> args_state" where
  "add_arg s a =
     a\<lparr>abuf := snprintf_s (abuf a) (apos a) (unat (aleft a)) s, apos := apos a + length s + 1,
       aleft := aleft a - of_nat (length s + 1)\<rparr>"

fun add_args :: "u8 list list \<Rightarrow> args_state \<Rightarrow> args_state option" where
  "add_args [] a = Some a"
| "add_args (s # ss) a = (if length s \<ge> unat (aleft a) then None else add_args ss (add_arg s a))"

text \<open>The buffer and \<^verbatim>\<open>args_len\<close>; \<open>None\<close> when the program gives up.\<close>

definition build_args :: "(nat \<Rightarrow> u8) \<Rightarrow> u8 list \<Rightarrow> u8 list list \<Rightarrow> ((nat \<Rightarrow> u8) \<times> u16) option" where
  "build_args mem0 name ss =
     (let a = add_arg name \<lparr>abuf = mem0, apos = 0, aleft = MAX_ARGS_LEN\<rparr>
      in case (if ss \<noteq> [] then
                 (case add_args ss a of None \<Rightarrow> None | Some b \<Rightarrow> if aleft b < 1 then None else Some b)
               else Some a) of
           None \<Rightarrow> None
         | Some b \<Rightarrow> Some ((abuf b)(apos b := 0), MAX_ARGS_LEN - aleft b + 1))"

text \<open>\<^verbatim>\<open>basename\<close> of the C library.\<close>

definition basename :: "u8 list \<Rightarrow> u8 list" where
  "basename path =
     (if path = [] then [0x2e]
      else let p = rev (dropWhile (\<lambda>c. c = 0x2f) (rev path))
           in if p = [] then [0x2f] else rev (takeWhile (\<lambda>c. c \<noteq> 0x2f) (rev p)))"

text \<open>How the program ends: its exit status, and whether it reported the transfer as done.\<close>

datatype exit_status = Exit_Failure | Exit_Done | Exit_Transfer_Failed

definition PK_MAGIC :: "u8 list" where "PK_MAGIC = [0x50, 0x4b, 3, 4]"
definition TCP_PREFIX :: "u8 list" where "TCP_PREFIX = [0x74, 0x63, 0x70, 0x3a]"

text \<open>
  Reading and compressing the file: the data to send and the uncompressed size, 0 when the data are
  sent as they are.
\<close>

definition read_file :: "host_world \<Rightarrow> u8 list \<Rightarrow> host_call list \<Rightarrow> u8 list option \<times> host_call list" where
  "read_file w path h0 =
     (let fd = hret (w h0 (HOpenFile path)); h1 = HOpenFile path # h0
      in if fd < 0 then (None, h1)
         else
           let st = w h1 (HFstat fd); h2 = HFstat fd # h1; fsize = hsize st
           in if hret st \<noteq> 0 then (None, HClose fd # h2)
              else if fsize < 64 \<or> fsize > 20 * 1024 * 1024 then (None, HClose fd # h2)
              else
                let h3 = HMalloc fsize # h2
                in if \<not> hok (w h2 (HMalloc fsize)) then (None, HClose fd # h3)
                   else
                     let r = w h3 (HReadFile fd fsize); h4 = HReadFile fd fsize # h3
                     in if hret r \<noteq> fsize then (None, HClose fd # h4)
                        else (Some (hbytes r), HClose fd # h4))"

definition compress_data ::
  "host_world \<Rightarrow> (u8 list \<Rightarrow> int \<Rightarrow> int \<times> u8 list) \<Rightarrow> (int \<Rightarrow> int) \<Rightarrow> u8 list \<Rightarrow> host_call list
     \<Rightarrow> (u8 list \<times> u32) option \<times> host_call list" where
  "compress_data w compress2 bound buf h0 =
     (if take 4 buf = PK_MAGIC then (Some (buf, 0), h0)
      else
        let bufzlen = bound (int (length buf)); h1 = HMalloc bufzlen # h0
        in if \<not> hok (w h0 (HMalloc bufzlen)) then (None, h1)
           else
             (case compress2 buf bufzlen of (res, bufz) \<Rightarrow>
                if res \<noteq> 0 then (None, h1)
                else if length bufz < length buf then (Some (bufz, of_nat (length buf)), h1)
                else (Some (buf, 0), h1)))"

definition wiiload_main ::
  "host_world \<Rightarrow> (u8 list \<Rightarrow> int \<Rightarrow> int \<times> u8 list) \<Rightarrow> (int \<Rightarrow> int) \<Rightarrow> (u64 \<Rightarrow> u8) \<Rightarrow> (nat \<Rightarrow> u8)
     \<Rightarrow> u8 list list \<Rightarrow> u8 list option \<Rightarrow> host_call list \<Rightarrow> (exit_status \<times> host_call list) option"
where
  "wiiload_main w compress2 bound rest mem0 argv ev h0 =
     (case (argv, ev) of
        (_ # path # ss, Some dest) \<Rightarrow>
          (case read_file w path h0 of
             (None, h1) \<Rightarrow> Some (Exit_Failure, h1)
           | (Some buf, h1) \<Rightarrow>
               (case compress_data w compress2 bound buf h1 of
                  (None, h2) \<Rightarrow> Some (Exit_Failure, h2)
                | (Some (data, len_un), h2) \<Rightarrow>
                    (case build_args mem0 (basename path) ss of
                       None \<Rightarrow> Some (Exit_Failure, h2)
                     | Some (ab, args_len) \<Rightarrow>
                         let args = map ab [0..<unat args_len];
                             finish = map_option (\<lambda>(ok, h). (if ok then Exit_Done else Exit_Transfer_Failed, h))
                         in if take 4 dest \<noteq> TCP_PREFIX then
                              (if hret (w h2 (HStat dest)) \<noteq> 0 then Some (Exit_Failure, HStat dest # h2)
                               else finish (send_gecko w rest dest data len_un args (HStat dest # h2)))
                            else if length dest < 5 then Some (Exit_Failure, h2)
                            else finish (send_tcp w (drop 4 dest) data len_un args h2))))
      | _ \<Rightarrow> Some (Exit_Failure, h0))"

section \<open>What an upload consists of\<close>

definition upload :: "u8 list \<Rightarrow> u32 \<Rightarrow> u8 list \<Rightarrow> u8 list" where
  "upload data len_un args =
     concat (request_words (of_nat (length args)) (of_nat (length data)) len_un) @ data @ args"

lemma concat_block_ranges:
  "0 < n \<Longrightarrow> concat (map (\<lambda>(off, k). take k (drop off bs)) (block_ranges n off left)) = take left (drop off bs)"
proof (induction n off left rule: block_ranges.induct)
  case (1 n off left)
  define k where "k = (if left > n then n else left)"
  have k: "k \<le> left" by (simp add: k_def)
  show ?case
  proof (cases "left = 0")
    case False
    then have "block_ranges n off left = (off, k) # block_ranges n (off + k) (left - k)"
      using 1(2) by (subst block_ranges.simps) (simp add: k_def Let_def)
    moreover have "concat (map (\<lambda>(off, k). take k (drop off bs)) (block_ranges n (off + k) (left - k)))
        = take (left - k) (drop (off + k) bs)"
      using 1 False by (simp add: k_def)
    ultimately show ?thesis
      using take_add[of k "left - k" "drop off bs"] k by (simp add: add.commute)
  qed (simp add: block_ranges.simps)
qed

lemma concat_blocks: "0 < n \<Longrightarrow> concat (blocks n bs) = bs"
  by (simp add: blocks_def concat_block_ranges)

lemma block_ranges_bounds:
  "(i, k) \<in> set (block_ranges n off left) \<Longrightarrow> off \<le> i \<and> i + k \<le> off + left \<and> k \<le> n"
proof (induction n off left rule: block_ranges.induct)
  case (1 n off left)
  define x where "x = (if left > n then n else left)"
  have x: "x \<le> left" "x \<le> n" by (simp_all add: x_def)
  show ?case
  proof (cases "left = 0 \<or> n = 0")
    case False
    then have "block_ranges n off left = (off, x) # block_ranges n (off + x) (left - x)"
      by (subst block_ranges.simps) (simp add: x_def Let_def)
    then consider "(i, k) = (off, x)" | "(i, k) \<in> set (block_ranges n (off + x) (left - x))"
      using 1(2) by auto
    then show ?thesis
    proof cases
      case 2
      then have "off + x \<le> i \<and> i + k \<le> off + x + (left - x) \<and> k \<le> n"
        using 1(1)[OF False x_def] by simp
      then show ?thesis using x by simp
    qed (use x in simp)
  qed (use 1(2) in \<open>auto simp: block_ranges.simps\<close>)
qed

lemma blocks_length: "b \<in> set (blocks n bs) \<Longrightarrow> length b \<le> n"
  by (auto simp: blocks_def dest: block_ranges_bounds)

lemma concat_args_block [simp]: "concat (args_block args) = args"
  by (simp add: args_block_def)

lemma put_all_rule:
  assumes "put_all put bs h = Some (ok, h')" and "I h"
    and "\<And>b h ok h'. b \<in> set bs \<Longrightarrow> put b h = Some (ok, h') \<Longrightarrow> I h \<Longrightarrow> I h'"
  shows "I h'"
  using assms
proof (induction bs arbitrary: h)
  case (Cons b bs)
  then obtain ok1 h1 where h1: "put b h = Some (ok1, h1)" by (auto split: option.splits)
  then have I1: "I h1" using Cons.prems(3)[OF _ h1 Cons.prems(2)] by simp
  show ?case
  proof (cases ok1)
    case True
    then have "put_all put bs h1 = Some (ok, h')" using Cons.prems(1) h1 by simp
    then show ?thesis using I1
    proof (rule Cons.IH)
      show "I k'" if "c \<in> set bs" "put c k = Some (r, k')" "I k" for c k r k'
        by (rule Cons.prems(3)[OF _ that(2,3)]) (use that(1) in simp)
    qed
  next
    case False
    then show ?thesis using Cons.prems(1) h1 I1 by simp
  qed
qed simp

section \<open>The link\<close>

text \<open>
  What a transport promises: a put that succeeds has appended its bytes to the stream, one that fails
  a prefix of them. A sequence of puts then delivers the concatenation, or a prefix of it.
\<close>

locale byte_link =
  fixes put :: "'b \<Rightarrow> 'h \<Rightarrow> (bool \<times> 'h) option"
    and stream :: "'h \<Rightarrow> u8 list"
    and payload :: "'b \<Rightarrow> u8 list"
    and sendable :: "'b \<Rightarrow> bool"
    and fair :: "'h \<Rightarrow> bool"
  assumes put_true: "fair h \<Longrightarrow> sendable b \<Longrightarrow> put b h = Some (True, h') \<Longrightarrow> stream h' = stream h @ payload b"
    and put_false: "fair h \<Longrightarrow> sendable b \<Longrightarrow> put b h = Some (False, h')
      \<Longrightarrow> \<exists>n. stream h' = stream h @ take n (payload b)"
    and put_fair: "fair h \<Longrightarrow> put b h = Some (ok, h') \<Longrightarrow> fair h'"
begin

lemma put_all_true:
  "fair h \<Longrightarrow> \<forall>b\<in>set bs. sendable b \<Longrightarrow> put_all put bs h = Some (True, h')
    \<Longrightarrow> stream h' = stream h @ concat (map payload bs)"
proof (induction bs arbitrary: h)
  case (Cons b bs)
  then obtain h1 where "put b h = Some (True, h1)" "put_all put bs h1 = Some (True, h')"
    by (auto split: option.splits if_splits)
  moreover from this have "stream h1 = stream h @ payload b" "fair h1"
    using Cons.prems put_true[of h b h1] put_fair[of h b True h1] by simp_all
  ultimately show ?case using Cons.IH[of h1] Cons.prems(2) by simp
qed simp

lemma put_all_prefix:
  "fair h \<Longrightarrow> \<forall>b\<in>set bs. sendable b \<Longrightarrow> put_all put bs h = Some (ok, h')
    \<Longrightarrow> \<exists>n. stream h' = stream h @ take n (concat (map payload bs))"
proof (induction bs arbitrary: h)
  case (Cons b bs)
  then obtain ok1 h1 where h1: "put b h = Some (ok1, h1)" by (auto split: option.splits)
  show ?case
  proof (cases ok1)
    case True
    then have rest: "put_all put bs h1 = Some (ok, h')" using Cons.prems(3) h1 by simp
    have "stream h1 = stream h @ payload b" "fair h1"
      using h1 True Cons.prems put_true put_fair by simp_all
    moreover from this rest obtain n where "stream h' = stream h1 @ take n (concat (map payload bs))"
      using Cons.IH[of h1] Cons.prems(2) by auto
    ultimately have "stream h' = stream h @ take (length (payload b) + n) (concat (map payload (b # bs)))"
      by simp
    then show ?thesis by blast
  next
    case False
    then have "put b h = Some (False, h')" using Cons.prems(3) h1 by simp
    then obtain n where "stream h' = stream h @ take n (payload b)"
      using put_false[of h b h'] Cons.prems by auto
    then have "stream h' = stream h @ take (min n (length (payload b))) (concat (map payload (b # bs)))"
      by (simp add: min_def)
    then show ?thesis by blast
  qed
qed simp

end

text \<open>The bytes a descriptor has accepted.\<close>

fun delivered :: "host_world \<Rightarrow> int \<Rightarrow> host_call list \<Rightarrow> u8 list" where
  "delivered w s [] = []"
| "delivered w s (HSend s' bs # h) =
     delivered w s h @ (if s' = s then take (nat (hret (w h (HSend s' bs)))) bs else [])"
| "delivered w s (HWrite s' bs # h) =
     delivered w s h @ (if s' = s then take (nat (hret (w h (HWrite s' bs)))) bs else [])"
| "delivered w s (e # h) = delivered w s h"

text \<open>
  The documented behaviour of \<^verbatim>\<open>send\<close>: it never accepts more than it was given. For the USB Gecko the
  stronger \<open>full_writes\<close>: every write accepts all of its bytes.
\<close>

definition honest_sends :: "host_world \<Rightarrow> bool" where
  "honest_sends w \<longleftrightarrow> (\<forall>h s bs. hret (w h (HSend s bs)) \<le> int (length bs))"

definition full_writes :: "host_world \<Rightarrow> bool" where
  "full_writes w \<longleftrightarrow> (\<forall>h fd bs. hret (w h (HWrite fd bs)) = int (length bs))"

definition tcp_sendable :: "u8 list \<Rightarrow> bool" where
  "tcp_sendable b \<longleftrightarrow> length b < 2147483648"

lemma tcp_put_stream:
  assumes "honest_sends w" and "tcp_sendable b" and "tcp_put w s b h = Some (ok, h')"
  shows "\<exists>n. delivered w s h' = delivered w s h @ take n b \<and> (ok \<longrightarrow> n = length b)"
    and "s' \<noteq> s \<Longrightarrow> delivered w s' h' = delivered w s' h"
proof -
  let ?I = "\<lambda>(r, left, off, k). 0 \<le> left \<and> left + int off = int (length b)
    \<and> delivered w s k = delivered w s h @ take off b \<and> (s' \<noteq> s \<longrightarrow> delivered w s' k = delivered w s' h)
    \<and> (r = Some True \<longrightarrow> left = 0)"
  have start: "sint (of_nat (length b) :: u32) = int (length b)"
    using assms(2) mod_less[of "length b" 4294967296]
    by (simp add: tcp_sendable_def sint32 unsigned_of_nat take_bit_eq_mod)
  obtain x where x: "while_option (\<lambda>(r, left, off, h). r = None) (tcp_put_iter w s b)
      (None, int (length b), 0, h) = Some x" and res: "ok = the (fst x)" "h' = snd (snd (snd x))"
    using assms(3) by (auto simp: tcp_put_def start)
  have "?I x"
    using x
  proof (rule while_option_rule[rotated])
    show "?I (None, int (length b), 0, h)" by simp
    fix y assume I: "?I y" and go: "case y of (r, left, off, h) \<Rightarrow> r = None"
    obtain r left off k where y: "y = (r, left, off, k)" by (cases y)
    let ?bs = "take (nat left) (drop off b)"
    have le: "hret (w k (HSend s ?bs)) \<le> int (length ?bs)" using assms(1) unfolding honest_sends_def by blast
    have len: "int (length ?bs) = left" using I y by auto
    show "?I (tcp_put_iter w s b y)"
    proof (cases "0 < left \<and> 0 \<le> hret (w k (HSend s ?bs))")
      case True
      define m where "m = nat (hret (w k (HSend s ?bs)))"
      have m: "hret (w k (HSend s ?bs)) = int m" "int m \<le> left" using True le len by (simp_all add: m_def)
      then have "take m ?bs = take m (drop off b)" by (simp add: min_def)
      then show ?thesis using I True m by (simp add: y tcp_put_iter_def take_add)
    next
      case False
      then show ?thesis using I go by (auto simp: y tcp_put_iter_def Let_def)
    qed
  qed
  moreover have "fst x \<noteq> None" using while_option_stop[OF x] by (auto split: prod.splits)
  ultimately show "\<exists>n. delivered w s h' = delivered w s h @ take n b \<and> (ok \<longrightarrow> n = length b)"
    and "s' \<noteq> s \<Longrightarrow> delivered w s' h' = delivered w s' h"
    using res by (auto split: prod.splits)
qed

lemma tcp_put_calls: "tcp_put w s b h = Some (ok, h') \<Longrightarrow> e \<in> set h \<Longrightarrow> e \<in> set h'"
proof -
  assume "tcp_put w s b h = Some (ok, h')" and e: "e \<in> set h"
  then obtain x where x: "while_option (\<lambda>(r, left, off, h). r = None) (tcp_put_iter w s b)
      (None, sint (of_nat (length b) :: u32), 0, h) = Some x" and h': "h' = snd (snd (snd x))"
    by (auto simp: tcp_put_def)
  have "e \<in> set (snd (snd (snd x)))"
    using x by (rule while_option_rule[rotated, where P = "\<lambda>x. e \<in> set (snd (snd (snd x)))"])
      (auto simp: tcp_put_iter_def Let_def e)
  with h' show "e \<in> set h'" by simp
qed

interpretation tcp_link: byte_link "tcp_put w s" "delivered w s" "\<lambda>b. b" tcp_sendable "\<lambda>_. honest_sends w"
proof
  show "honest_sends w \<Longrightarrow> tcp_sendable b \<Longrightarrow> tcp_put w s b h = Some (True, h')
      \<Longrightarrow> delivered w s h' = delivered w s h @ b" for h b h'
    using tcp_put_stream(1)[of w b s h True h'] by auto
  show "honest_sends w \<Longrightarrow> tcp_sendable b \<Longrightarrow> tcp_put w s b h = Some (False, h')
      \<Longrightarrow> \<exists>n. delivered w s h' = delivered w s h @ take n b" for h b h'
    using tcp_put_stream(1)[of w b s h False h'] by auto
qed

lemma request_words_sendable: "\<forall>b\<in>set (request_words a n m). tcp_sendable b"
  by (simp add: request_words_def len_bytes_def tcp_sendable_def)

lemma host_address_delivered: "host_address w host h = (r, h') \<Longrightarrow> delivered w s h' = delivered w s h"
  by (auto simp: host_address_def Let_def split: if_splits)

text \<open>
  Whatever the partial sends do, an upload over TCP hands some socket a prefix of the request, the
  data and the arguments and nothing else; when it is reported as done, that prefix is all of it, and
  the socket is one that was connected to the loader's port.
\<close>

lemma send_tcp_delivers:
  assumes "honest_sends w" and "length args < 65536"
    and "send_tcp w host data len_un args h = Some (ok, h')"
  shows "\<exists>s n. (\<forall>s'. delivered w s' h' = delivered w s' h @ (if s' = s then take n (upload data len_un args) else []))
    \<and> (ok \<longrightarrow> take n (upload data len_un args) = upload data len_un args
           \<and> (\<exists>a. HConnect s a LD_TCP_PORT \<in> set h' \<and> hd h' = HClose s))"
proof -
  obtain a h1 where a: "host_address w host h = (a, h1)" by fastforce
  note keep = host_address_delivered[OF a]
  show ?thesis
  proof (cases "a = None \<or> hret (w h1 HSocket) < 0
      \<or> hret (w (HSocket # h1) (HConnect (hret (w h1 HSocket)) (the a) LD_TCP_PORT)) = -1")
    case True
    then have "\<not> ok" "delivered w s' h' = delivered w s' h" for s'
      using assms(3) a keep by (auto simp: send_tcp_def Let_def split: if_splits option.splits)
    then show ?thesis by (intro exI[of _ 0]) simp
  next
    case False
    then obtain ip where ip: "a = Some ip" by auto
    define s where "s = hret (w h1 HSocket)"
    let ?bs = "request_words (of_nat (length args)) (of_nat (length data)) len_un @ blocks 4096 data @ args_block args"
    let ?h3 = "HConnect s ip LD_TCP_PORT # HSocket # h1"
    obtain h4 where put: "put_all (tcp_put w s) ?bs ?h3 = Some (ok, h4)" and h': "h' = HClose s # h4"
      using assms(3) a False ip by (auto simp: send_tcp_def Let_def s_def)
    have sendable: "\<forall>b\<in>set ?bs. tcp_sendable b"
      using request_words_sendable assms(2) blocks_length[of _ 4096 data]
      by (force simp: tcp_sendable_def args_block_def split: if_splits)
    have cat: "concat (map (\<lambda>b. b) ?bs) = upload data len_un args"
      by (simp add: upload_def concat_blocks)
    have prefix: "\<exists>n. delivered w s h4 = delivered w s ?h3 @ take n (upload data len_un args)"
      using tcp_link.put_all_prefix[OF assms(1) sendable put] unfolding cat by blast
    have all: "ok \<Longrightarrow> delivered w s h4 = delivered w s ?h3 @ upload data len_un args"
      using tcp_link.put_all_true[OF assms(1) sendable, of s ?h3 h4] put unfolding cat by simp
    have "\<exists>n. delivered w s h4 = delivered w s ?h3 @ take n (upload data len_un args)
        \<and> (ok \<longrightarrow> take n (upload data len_un args) = upload data len_un args)"
    proof (cases ok)
      case True
      with all show ?thesis by (intro exI[of _ "length (upload data len_un args)"]) simp
    qed (use prefix in simp)
    then obtain n where n: "delivered w s h4 = delivered w s ?h3 @ take n (upload data len_un args)"
      "ok \<longrightarrow> take n (upload data len_un args) = upload data len_un args"
      by blast
    have others: "delivered w s' h4 = delivered w s' ?h3" if "s' \<noteq> s" for s'
      using put refl
    proof (rule put_all_rule[where I = "\<lambda>k. delivered w s' k = delivered w s' ?h3"])
      fix b k r k' assume "b \<in> set ?bs" "tcp_put w s b k = Some (r, k')" "delivered w s' k = delivered w s' ?h3"
      then show "delivered w s' k' = delivered w s' ?h3"
        using tcp_put_stream(2)[OF assms(1) _ _ that] sendable by metis
    qed
    have in_calls: "HConnect s ip LD_TCP_PORT \<in> set h4"
      using put by (rule put_all_rule[where I = "\<lambda>k. HConnect s ip LD_TCP_PORT \<in> set k"]) (auto dest: tcp_put_calls)
    have "delivered w s' h' = delivered w s' h @ (if s' = s then take n (upload data len_un args) else [])" for s'
      using n(1) others keep by (simp add: h')
    moreover have "HConnect s ip LD_TCP_PORT \<in> set h' \<and> hd h' = HClose s" using in_calls h' by simp
    ultimately show ?thesis using n(2) by blast
  qed
qed

section \<open>USB Gecko uploads\<close>

definition gecko_sendable :: "u8 list \<times> nat \<times> nat \<Rightarrow> bool" where
  "gecko_sendable = (\<lambda>(buf, off, k). off + k \<le> length buf \<and> length buf < 4294967296)"

definition gecko_payload :: "u8 list \<times> nat \<times> nat \<Rightarrow> u8 list" where
  "gecko_payload = (\<lambda>(buf, off, k). take k (drop off buf))"

lemma unat_of_nat64: "n < 18446744073709551616 \<Longrightarrow> unat (of_nat n :: u64) = n"
  by (simp add: unat_of_nat take_bit_eq_mod)

lemma gecko_bytes_buffer:
  assumes "off + k \<le> length buf" and "length buf < 4294967296"
  shows "gecko_bytes (\<lambda>i. let j = of_nat off + i in if unat j < length buf then buf ! unat j else rest j) 0 (of_nat k)
    = take k (drop off buf)"
proof (rule nth_equalityI)
  have k: "unat (of_nat k :: u64) = k" using assms by (intro unat_of_nat64) simp
  show "length (gecko_bytes (\<lambda>i. let j = of_nat off + i in if unat j < length buf then buf ! unat j else rest j) 0 (of_nat k))
      = length (take k (drop off buf))"
    using assms k by (simp add: gecko_bytes_def)
  fix i assume "i < length (gecko_bytes (\<lambda>i. let j = of_nat off + i in if unat j < length buf then buf ! unat j else rest j) 0 (of_nat k))"
  then have i: "i < k" using k by (simp add: gecko_bytes_def)
  then have "unat (of_nat (off + i) :: u64) = off + i" using assms by (intro unat_of_nat64) simp
  then show "gecko_bytes (\<lambda>i. let j = of_nat off + i in if unat j < length buf then buf ! unat j else rest j) 0 (of_nat k) ! i
      = take k (drop off buf) ! i"
    using i assms k by (simp add: gecko_bytes_def Let_def)
qed

lemma gecko_write_full:
  assumes "full_writes w" and "k < 4294967296"
  shows "gecko_write w fd peek (of_nat k) h =
    Some (if k = 0 then (0, h)
          else let h1 = HWrite fd (gecko_bytes peek 0 (of_nat k)) # h
               in (if hret (w h1 (HTcdrain fd)) \<noteq> 0 then 1 else 0, HTcdrain fd # h1))"
proof (cases "k = 0")
  case False
  have k: "unat (of_nat k :: u64) = k" using assms(2) by (intro unat_of_nat64) simp
  have "hret (w h (HWrite fd (gecko_bytes peek 0 (of_nat k)))) = int k"
    using assms(1) k by (simp add: full_writes_def gecko_bytes_def)
  then have res: "(word_of_int (hret (w h (HWrite fd (gecko_bytes peek 0 (of_nat k))))) :: u64) = of_nat k" by simp
  have nz: "(of_nat k :: u64) \<noteq> 0" using k False by (metis unat_0)
  have "\<not> (of_nat k :: u64) < 1"
    using k False by (simp add: word_less_nat_alt)
  then show ?thesis
    using False nz res
    by (simp add: gecko_write_def while_option_unfold[of _ _ "\<lparr>gresult = _, gleft = _, goff = _, gcalls = _\<rparr>"]
        gecko_write_iter_def Let_def)
qed (simp add: gecko_write_def while_option_unfold gecko_write_iter_def)

lemma gecko_put_full:
  assumes "full_writes w" and "gecko_sendable b"
  shows "gecko_put w fd rest b h =
    Some (if gecko_payload b = [] then (True, h)
          else let h1 = HWrite fd (gecko_payload b) # h
               in (hret (w h1 (HTcdrain fd)) = 0, HTcdrain fd # h1))"
proof -
  obtain buf off k where b: "b = (buf, off, k)" by (cases b)
  then have bounds: "off + k \<le> length buf" "length buf < 4294967296" "k < 4294967296"
    using assms(2) by (auto simp: gecko_sendable_def)
  have "gecko_payload b = [] \<longleftrightarrow> k = 0" using bounds by (auto simp: b gecko_payload_def)
  then show ?thesis
    using gecko_write_full[OF assms(1) bounds(3)] gecko_bytes_buffer[OF bounds(1,2)]
    by (simp add: b gecko_put_def gecko_payload_def Let_def)
qed

interpretation gecko_link: byte_link "gecko_put w fd rest" "delivered w fd" gecko_payload gecko_sendable "\<lambda>_. full_writes w"
proof
  fix h b h' assume w: "full_writes w" and b: "gecko_sendable b"
  have d: "delivered w fd (HTcdrain fd # HWrite fd bs # h) = delivered w fd h @ bs" for bs
    using w by (simp add: full_writes_def)
  show "gecko_put w fd rest b h = Some (True, h') \<Longrightarrow> delivered w fd h' = delivered w fd h @ gecko_payload b"
    using d by (auto simp: gecko_put_full[OF w b] Let_def simp del: delivered.simps split: if_splits)
  assume "gecko_put w fd rest b h = Some (False, h')"
  then have "delivered w fd h' = delivered w fd h @ take (length (gecko_payload b)) (gecko_payload b)"
    using d by (auto simp: gecko_put_full[OF w b] Let_def simp del: delivered.simps split: if_splits)
  then show "\<exists>n. delivered w fd h' = delivered w fd h @ take n (gecko_payload b)" by blast
qed

lemma put_all_total:
  "(\<And>b h. b \<in> set bs \<Longrightarrow> \<exists>h'. put b h = Some (True, h')) \<Longrightarrow> \<exists>h'. put_all put bs h = Some (True, h')"
proof (induction bs arbitrary: h)
  case (Cons b bs)
  obtain h1 where "put b h = Some (True, h1)" using Cons.prems[of b h] by auto
  moreover obtain h' where "put_all put bs h1 = Some (True, h')" using Cons.IH[of h1] Cons.prems by auto
  ultimately show ?case by simp
qed simp

definition drains :: "host_world \<Rightarrow> bool" where
  "drains w \<longleftrightarrow> (\<forall>h fd. hret (w h (HTcdrain fd)) = 0)"

lemma gecko_put_all_full:
  assumes "full_writes w" and "drains w" and "\<forall>b\<in>set bs. gecko_sendable b"
  obtains h' where "put_all (gecko_put w fd rest) bs h = Some (True, h')"
    and "delivered w fd h' = delivered w fd h @ concat (map gecko_payload bs)"
proof -
  have "\<exists>h'. put_all (gecko_put w fd rest) bs h = Some (True, h')"
    using assms by (intro put_all_total) (simp add: gecko_put_full drains_def Let_def)
  then obtain h' where h': "put_all (gecko_put w fd rest) bs h = Some (True, h')" by blast
  with gecko_link.put_all_true[OF assms(1,3) h'] that show ?thesis by blast
qed

lemma gecko_open_delivered: "gecko_open w dev h = (r, fd', h') \<Longrightarrow> delivered w fd h' = delivered w fd h"
  by (auto simp: gecko_open_def Let_def split: if_splits)

text \<open>
  Over a device that opens, takes every write whole and drains, an upload by USB Gecko always
  returns, is reported as done, and has written exactly the bytes that an upload over TCP sends.
\<close>

lemma send_gecko_delivers:
  assumes "full_writes w" and "drains w" and "gecko_open w dev h = (0, fd, h1)"
    and "length data < 4294967296" and "length args < 65536"
  shows "\<exists>h'. send_gecko w rest dev data len_un args h = Some (True, h')
    \<and> delivered w fd h' = delivered w fd h @ upload data len_un args"
proof -
  let ?rq = "request_words (of_nat (length args)) (of_nat (length data)) len_un"
  have payload_whole: "gecko_payload (whole b) = b" for b by (simp add: gecko_payload_def whole_def)
  have sendable_whole: "gecko_sendable (whole b) \<longleftrightarrow> length b < 4294967296" for b
    by (simp add: gecko_sendable_def whole_def)
  have s1: "\<forall>b\<in>set (map whole ?rq). gecko_sendable b"
    by (simp add: request_words_def len_bytes_def sendable_whole)
  have s2: "\<forall>b\<in>set (map (Pair data) (block_ranges 63488 0 (length data))). gecko_sendable b"
    using assms(4) by (auto simp: gecko_sendable_def dest: block_ranges_bounds)
  have s3: "\<forall>b\<in>set (map whole (args_block args)). gecko_sendable b"
    using assms(5) by (simp add: args_block_def sendable_whole)
  obtain h2 where h2: "put_all (gecko_put w fd rest) (map whole ?rq) h1 = Some (True, h2)"
    "delivered w fd h2 = delivered w fd h1 @ concat (map gecko_payload (map whole ?rq))"
    using gecko_put_all_full[OF assms(1,2) s1] by blast
  obtain h3 where h3: "put_all (gecko_put w fd rest) (map (Pair data) (block_ranges 63488 0 (length data))) h2 = Some (True, h3)"
    "delivered w fd h3 = delivered w fd h2 @ concat (map gecko_payload (map (Pair data) (block_ranges 63488 0 (length data))))"
    using gecko_put_all_full[OF assms(1,2) s2] by blast
  obtain h4 where h4: "put_all (gecko_put w fd rest) (map whole (args_block args)) h3 = Some (True, h4)"
    "delivered w fd h4 = delivered w fd h3 @ concat (map gecko_payload (map whole (args_block args)))"
    using gecko_put_all_full[OF assms(1,2) s3] by blast
  have "concat (map gecko_payload (map (Pair data) (block_ranges 63488 0 (length data)))) = data"
    using concat_block_ranges[of 63488 data 0 "length data"]
    by (simp add: gecko_payload_def comp_def)
  then have "delivered w fd h4 = delivered w fd h @ upload data len_un args"
    using h2(2) h3(2) h4(2) gecko_open_delivered[OF assms(3)]
    by (simp add: payload_whole comp_def upload_def)
  moreover have "send_gecko w rest dev data len_un args h = Some (True, gecko_close fd h4)"
    using h2(1) h3(1) h4(1) assms(3) by (simp add: send_gecko_def)
  ultimately show ?thesis by (simp add: gecko_close_def)
qed

text \<open>A data block that cannot be sent is not reported: the result is that of the arguments.\<close>

lemma send_gecko_hides_block_error:
  assumes "gecko_open w dev h = (0, fd, h1)"
    and "put_all (gecko_put w fd rest)
      (map whole (request_words (of_nat (length args)) (of_nat (length data)) len_un)) h1 = Some (True, h2)"
    and "put_all (gecko_put w fd rest) (map (Pair data) (block_ranges 63488 0 (length data))) h2 = Some (False, h3)"
    and "args = []"
  shows "send_gecko w rest dev data len_un args h = Some (True, gecko_close fd h3)"
  using assms by (simp add: send_gecko_def args_block_def)

lemma word_less_1: "(v :: u64) < 1 \<longleftrightarrow> v = 0"
  by (simp add: word_less_nat_alt unat_eq_0)

text \<open>
  \<^verbatim>\<open>gecko_write\<close> reports an error only when a write accepts nothing or the drain fails. A failed
  write (-1, kept in an unsigned variable) is not noticed: the bytes left grow by one and the buffer
  pointer moves back by one, and the loop goes on.
\<close>

lemma gecko_write_errors:
  assumes "gecko_write w fd peek count h = Some (r, h')" and "count \<noteq> 0"
  shows "r = 0 \<or>
    (\<exists>k. h' = HTcdrain fd # k \<and> hret (w k (HTcdrain fd)) \<noteq> 0) \<or>
    (\<exists>k bs. h' = HWrite fd bs # k \<and> (word_of_int (hret (w k (HWrite fd bs))) :: u64) = 0)"
proof -
  let ?I = "\<lambda>x :: gecko_xfer. case gresult x of None \<Rightarrow> True
    | Some r \<Rightarrow> r = 0 \<or> (\<exists>k. gcalls x = HTcdrain fd # k \<and> hret (w k (HTcdrain fd)) \<noteq> 0) \<or>
        (\<exists>k bs. gcalls x = HWrite fd bs # k \<and> (word_of_int (hret (w k (HWrite fd bs))) :: u64) = 0)"
  obtain x where x: "while_option (\<lambda>x. gresult x = None) (gecko_write_iter w fd peek count)
      \<lparr>gresult = None, gleft = count, goff = 0, gcalls = h\<rparr> = Some x"
    and res: "r = the (gresult x)" "h' = gcalls x"
    using assms(1) by (auto simp: gecko_write_def)
  have "?I x"
    using x
  proof (rule while_option_rule[rotated])
    fix y assume "?I y" and go: "gresult y = None"
    show "?I (gecko_write_iter w fd peek count y)"
      using go by (simp add: gecko_write_iter_def Let_def word_less_1)
  qed simp
  moreover have "gresult x \<noteq> None" using while_option_stop[OF x] .
  ultimately show ?thesis using res by auto
qed

lemma gecko_write_failed:
  assumes "gleft x \<noteq> 0" and "hret (w (gcalls x) (HWrite fd (gecko_bytes peek (goff x) count))) = -1"
    and "drains w"
  shows "gecko_write_iter w fd peek count x = x\<lparr>gleft := gleft x + 1, goff := goff x - 1,
    gcalls := HTcdrain fd # HWrite fd (gecko_bytes peek (goff x) count) # gcalls x\<rparr>"
proof -
  show ?thesis using assms by (simp add: gecko_write_iter_def Let_def drains_def word_less_1)
qed

text \<open>
  After a short write the next call of \<^verbatim>\<open>write\<close> is not for the rest but for \<^verbatim>\<open>count\<close> bytes again, from
  where the last one stopped: it hands the device as many bytes from behind the end of the buffer as
  were written before.
\<close>

lemma gecko_short_write_reads_past_end:
  fixes w :: host_world and count :: u64 and n :: nat
  assumes "0 < n" and "n < unat count" and "drains w"
    and "hret (w h (HWrite fd (gecko_bytes peek 0 count))) = int n"
  shows "\<exists>x y. x = gecko_write_iter w fd peek count \<lparr>gresult = None, gleft = count, goff = 0, gcalls = h\<rparr>
    \<and> gresult x = None \<and> y = gecko_write_iter w fd peek count x
    \<and> HWrite fd (map (\<lambda>i. peek (of_nat (n + i))) [0..<unat count]) \<in> set (gcalls y)"
proof -
  have n: "unat (of_nat n :: u64) = n"
    using assms(2) unsigned_less[of count, where ?'a = nat] by (intro unat_of_nat64) simp
  let ?s = "\<lparr>gresult = None, gleft = count, goff = 0, gcalls = h\<rparr>"
  define x where "x = gecko_write_iter w fd peek count ?s"
  have "count \<noteq> 0" "\<not> (of_nat n :: u64) < 1" using assms(1,2) n by (auto simp: word_less_nat_alt)
  then have x: "x = \<lparr>gresult = None, gleft = count - of_nat n, goff = of_nat n,
      gcalls = HTcdrain fd # HWrite fd (gecko_bytes peek 0 count) # h\<rparr>"
    using assms(3,4) by (simp add: x_def gecko_write_iter_def Let_def drains_def)
  have "gleft x \<noteq> 0" using assms(2) n by (auto simp: x)
  moreover have "gecko_bytes peek (of_nat n) count = map (\<lambda>i. peek (of_nat (n + i))) [0..<unat count]"
    by (simp add: gecko_bytes_def)
  ultimately have "HWrite fd (map (\<lambda>i. peek (of_nat (n + i))) [0..<unat count])
      \<in> set (gcalls (gecko_write_iter w fd peek count x))"
    by (auto simp: x gecko_write_iter_def Let_def)
  then show ?thesis using x x_def by auto
qed

section \<open>The arguments\<close>

definition args_text :: "u8 list \<Rightarrow> u8 list list \<Rightarrow> u8 list" where
  "args_text name ss = concat (map (\<lambda>s. s @ [0]) (name # ss))"

definition args_inv :: "(nat \<Rightarrow> u8) \<Rightarrow> u8 list \<Rightarrow> args_state \<Rightarrow> bool" where
  "args_inv mem0 t a \<longleftrightarrow> apos a + unat (aleft a) = 1024 \<and> apos a = length t \<and>
     (\<forall>x. abuf a x = (if x < length t then t ! x else mem0 x))"

lemma add_arg_inv:
  assumes "args_inv mem0 t a" and "length s < unat (aleft a)"
  shows "args_inv mem0 (t @ s @ [0]) (add_arg s a)"
proof -
  have le: "length s + 1 \<le> unat (aleft a)" "unat (aleft a) \<le> 1024" using assms by (simp_all add: args_inv_def)
  have l: "unat (of_nat (length s + 1) :: u16) = length s + 1"
    using le by (simp add: unat_of_nat take_bit_eq_mod del: of_nat_Suc of_nat_add)
  have "unat (aleft a - of_nat (length s + 1)) = unat (aleft a) - (length s + 1)"
    using le l by (simp add: unat_sub word_le_nat_alt del: of_nat_Suc of_nat_add)
  then show ?thesis
    using assms le by (auto simp: args_inv_def add_arg_def snprintf_s_def Let_def nth_append)
qed

lemma add_args_inv:
  assumes "args_inv mem0 t a"
  shows "case add_args ss a of
      None \<Rightarrow> 1024 < length (t @ concat (map (\<lambda>s. s @ [0]) ss))
    | Some b \<Rightarrow> args_inv mem0 (t @ concat (map (\<lambda>s. s @ [0]) ss)) b"
  using assms
proof (induction ss arbitrary: t a)
  case (Cons s ss)
  show ?case
  proof (cases "length s \<ge> unat (aleft a)")
    case True
    moreover have "length t + unat (aleft a) = 1024" using Cons.prems by (simp add: args_inv_def)
    ultimately have "1024 < length (t @ concat (map (\<lambda>s. s @ [0]) (s # ss)))" by simp
    then show ?thesis using True by simp
  next
    case False
    then have "args_inv mem0 (t @ s @ [0]) (add_arg s a)" using Cons.prems by (intro add_arg_inv) simp_all
    from Cons.IH[OF this] show ?thesis using False by (simp split: option.splits)
  qed
qed simp

text \<open>
  C28: for a file name of fewer than 1023 characters the argument buffer is not overrun: the program
  gives up exactly when the NUL-terminated strings and the final NUL need more than 1024 bytes, and
  otherwise sends exactly these bytes.
\<close>

theorem build_args_fits:
  assumes "length name < 1023"
  shows "if 1023 < length (args_text name ss) then build_args mem0 name ss = None
    else \<exists>ab n. build_args mem0 name ss = Some (ab, n) \<and> map ab [0..<unat n] = args_text name ss @ [0]
      \<and> unat n \<le> 1024 \<and> (\<forall>x\<ge>1024. ab x = mem0 x)"
proof -
  let ?a0 = "\<lparr>abuf = mem0, apos = 0, aleft = MAX_ARGS_LEN\<rparr>" and ?t = "args_text name ss"
  have "args_inv mem0 [] ?a0" by (simp add: args_inv_def MAX_ARGS_LEN_def)
  then have a: "args_inv mem0 (name @ [0]) (add_arg name ?a0)"
    using add_arg_inv[of mem0 "[]" ?a0 name] assms by (simp add: MAX_ARGS_LEN_def)
  have t: "name @ [0] @ concat (map (\<lambda>s. s @ [0]) ss) = ?t" by (simp add: args_text_def)
  have fin: "\<exists>ab n. Some ((abuf b)(apos b := 0), MAX_ARGS_LEN - aleft b + 1) = Some (ab, n)
      \<and> map ab [0..<unat n] = ?t @ [0] \<and> unat n \<le> 1024 \<and> (\<forall>x\<ge>1024. ab x = mem0 x)"
    if b: "args_inv mem0 ?t b" and l: "length ?t \<le> 1023" for b
  proof -
    have "apos b + unat (aleft b) = 1024" and u2: "apos b = length ?t"
      using b by (simp_all add: args_inv_def)
    then have u: "unat (aleft b) = 1024 - length ?t" "apos b = length ?t" by linarith+
    have "unat (MAX_ARGS_LEN - aleft b) = length ?t"
      using u l by (simp add: MAX_ARGS_LEN_def unat_sub word_le_nat_alt)
    then have n: "unat (MAX_ARGS_LEN - aleft b + 1) = Suc (length ?t)"
      using l by (simp add: unat_word_ariths)
    have "map ((abuf b)(apos b := 0)) [0..<unat (MAX_ARGS_LEN - aleft b + 1)] = ?t @ [0]"
      unfolding n using b u(2) by (intro nth_equalityI) (auto simp: args_inv_def nth_append)
    moreover have "\<forall>x\<ge>1024. ((abuf b)(apos b := 0)) x = mem0 x"
      using b u(2) l by (auto simp: args_inv_def)
    ultimately show ?thesis using n l by auto
  qed
  show ?thesis
  proof (cases "ss = []")
    case True
    then have "?t = name @ [0]" by (simp add: args_text_def)
    moreover from this have "\<not> 1023 < length ?t" using assms by simp
    moreover have "build_args mem0 name ss =
        Some ((abuf (add_arg name ?a0))(apos (add_arg name ?a0) := 0), MAX_ARGS_LEN - aleft (add_arg name ?a0) + 1)"
      using True by (simp add: build_args_def Let_def)
    ultimately show ?thesis using fin[of "add_arg name ?a0"] a by simp
  next
    case False
    note ss = add_args_inv[OF a, of ss, simplified append_assoc t]
    show ?thesis
    proof (cases "add_args ss (add_arg name ?a0)")
      case None
      then show ?thesis using ss False by (simp add: build_args_def Let_def)
    next
      case (Some b)
      then have b: "args_inv mem0 ?t b" using ss by simp
      then have "length ?t + unat (aleft b) = 1024" by (simp add: args_inv_def)
      then have u: "unat (aleft b) = 1024 - length ?t" "length ?t \<le> 1024" by linarith+
      have "aleft b < 1 \<longleftrightarrow> 1023 < length ?t" using u by (simp add: word_less_nat_alt) linarith
      then show ?thesis using fin[OF b] Some False by (simp add: build_args_def Let_def)
    qed
  qed
qed

section \<open>Runs\<close>

text \<open>A host whose calls all succeed and whose sends and writes take everything.\<close>

definition full_host :: host_world where
  "full_host h e = \<lparr>hret = (case e of HSend s bs \<Rightarrow> int (length bs) | HWrite fd bs \<Rightarrow> int (length bs)
     | HSocket \<Rightarrow> 5 | HOpen dev \<Rightarrow> 5 | _ \<Rightarrow> 0), hok = True, haddr = 0x7f000001, hsize = 0, hbytes = []\<rparr>"

lemma full_host_ok: "honest_sends full_host" "full_writes full_host" "drains full_host"
  by (simp_all add: honest_sends_def full_writes_def drains_def full_host_def)

lemma tcp_put_full_host:
  assumes "tcp_sendable b"
  shows "tcp_put full_host s b h = Some (True, if b = [] then h else HSend s b # h)"
proof -
  have "sint (of_nat (length b) :: u32) = int (length b)"
    using assms mod_less[of "length b" 4294967296]
    by (simp add: tcp_sendable_def sint32 unsigned_of_nat take_bit_eq_mod)
  then show ?thesis
    by (simp add: tcp_put_def while_option_unfold tcp_put_iter_def full_host_def Let_def)
qed

lemma full_host_run:
  "\<exists>h'. send_tcp full_host [0x77] [1, 2] 0 [0x61, 0] [] = Some (True, HClose 5 # h')"
  by (simp add: send_tcp_def host_address_def Let_def request_words_def blocks_def args_block_def
      len_bytes_def tcp_put_full_host tcp_sendable_def block_ranges.simps)
    (simp add: full_host_def INADDR_NONE_def)

lemma send_tcp_delivers_example:
  "\<exists>h'. send_tcp full_host [0x77] [1, 2] 0 [0x61, 0] [] = Some (True, h')
     \<and> delivered full_host 5 h' = upload [1, 2] 0 [0x61, 0]"
proof -
  obtain h' where run: "send_tcp full_host [0x77] [1, 2] 0 [0x61, 0] [] = Some (True, HClose 5 # h')"
    using full_host_run by blast
  then show ?thesis using send_tcp_delivers[OF full_host_ok(1) _ run] by fastforce
qed

lemma send_gecko_delivers_example:
  "\<exists>h'. send_gecko full_host (\<lambda>_. 0) [0x2f] [1, 2] 0 [0x61, 0] [] = Some (True, h')
     \<and> delivered full_host 5 h' = upload [1, 2] 0 [0x61, 0]"
proof -
  have "gecko_open full_host [0x2f] [] = (0, 5, [HTcflush 5, HTcsetattr 5, HTcgetattr 5, HFcntl 5, HOpen [0x2f]])"
    by (simp add: gecko_open_def full_host_def Let_def)
  from send_gecko_delivers[OF full_host_ok(2,3) this] show ?thesis by fastforce
qed

text \<open>A device that writes but cannot drain, and one that takes three bytes of the first write.\<close>

definition stuck_host :: host_world where
  "stuck_host h e = (full_host h e)\<lparr>hret := (case e of HTcdrain fd \<Rightarrow> -1 | HWrite fd bs \<Rightarrow> int (length bs) | _ \<Rightarrow> 0)\<rparr>"

lemma gecko_write_errors_example:
  "\<exists>h'. gecko_write stuck_host 5 (\<lambda>_. 0) 2 [] = Some (1, h')
     \<and> (\<exists>k. h' = HTcdrain 5 # k \<and> hret (stuck_host k (HTcdrain 5)) \<noteq> 0)"
proof -
  have "full_writes stuck_host" by (simp add: full_writes_def stuck_host_def)
  then have run: "gecko_write stuck_host 5 (\<lambda>_. 0) 2 [] = Some (1, [HTcdrain 5, HWrite 5 (gecko_bytes (\<lambda>_. 0) 0 2)])"
    using gecko_write_full[of stuck_host 2 5 "\<lambda>_. 0" "[]"] by (simp add: Let_def stuck_host_def)
  show ?thesis using gecko_write_errors[OF run] run by auto
qed

definition short_host :: host_world where
  "short_host h e = (full_host h e)\<lparr>hret := (case e of HWrite fd bs \<Rightarrow> min 3 (int (length bs)) | _ \<Rightarrow> 0)\<rparr>"

lemma gecko_short_write_reads_past_end_example:
  "\<exists>x y. x = gecko_write_iter short_host 5 ucast 4 \<lparr>gresult = None, gleft = 4, goff = 0, gcalls = []\<rparr>
    \<and> y = gecko_write_iter short_host 5 ucast 4 x
    \<and> HWrite 5 [3, 4, 5, 6] \<in> set (gcalls y)"
proof -
  have d: "drains short_host" by (simp add: drains_def short_host_def)
  have "hret (short_host [] (HWrite 5 (gecko_bytes ucast 0 4))) = int 3"
    by (simp add: short_host_def gecko_bytes_def)
  from gecko_short_write_reads_past_end[OF _ _ d this] show ?thesis
    by (simp add: upt_rec)
qed

theorem build_args_fits_witness:
  "\<exists>ab. build_args (\<lambda>_. 9) [0x61] [[0x62]] = Some (ab, 5) \<and> map ab [0..<5] = [0x61, 0, 0x62, 0, 0] \<and> ab 1024 = 9"
proof -
  have t: "args_text [0x61] [[0x62]] = [0x61, 0, 0x62, 0]" by (simp add: args_text_def)
  obtain ab n where r: "build_args (\<lambda>_. 9) [0x61] [[0x62]] = Some (ab, n)"
    "map ab [0..<unat n] = [0x61, 0, 0x62, 0, 0]" "\<forall>x\<ge>1024. ab x = 9"
    using build_args_fits[of "[0x61]" "[[0x62]]" "\<lambda>_. 9"] by (auto simp: t)
  then have "length (map ab [0..<unat n]) = 5" by simp
  then have n: "unat n = 5" by simp
  then have "n = 5" by (simp add: word_unat_eq_iff)
  then show ?thesis using r n by auto
qed

end
