(* ===== verification/Manage.thy ===== *)
theory Manage
  imports App_Entry "HOL-Library.While_Combinator"
begin

text \<open>
  \<^verbatim>\<open>channelapp/source/manage.c\<close> and the file names of \<^verbatim>\<open>theme.c\<close>: checking received ZIP archives,
  extracting them below \<^verbatim>\<open>/apps\<close> and deleting applications. The archive reader (the vendored minizip)
  and the file system are the environment: a call is answered by a result and, for an archive entry,
  its name as the code sees it, its flags and its size.
\<close>

section \<open>Calls\<close>

datatype zip_call =
    UnzOpen | UnzGetGlobalInfo | UnzGetCurrentFileInfo | UnzGoToNextFile | UnzClose
  | UnzOpenCurrentFile | UnzReadCurrentFile u32 | UnzCloseCurrentFile
  | Stat string | Mkdir string | OpenTrunc string | WriteFile int "u8 list" | CloseFile int
  | Unlink string | Progress_add u32

record zip_reply =
  zret :: int
  zdir :: bool
  znumber :: u32
  zname :: string
  zflag :: u32
  zsize :: u32
  zdata :: "u8 list"

type_synonym zip_world = "(zip_call, zip_reply) world"

section \<open>Directories\<close>

text \<open>\<^verbatim>\<open>dir_exists\<close>: 0 when there is no such file, 1 for a directory and -1 for anything else.\<close>

definition dir_exists :: "zip_world \<Rightarrow> string \<Rightarrow> zip_call list \<Rightarrow> int \<times> zip_call list" where
  "dir_exists w dir h =
     (let st = w h (Stat dir)
      in (if zret st \<noteq> 0 then 0 else if zdir st then 1 else -1, Stat dir # h))"

text \<open>The loop creates the directory before each slash, from the second character on.\<close>

function mkdir_from :: "zip_world \<Rightarrow> string \<Rightarrow> nat \<Rightarrow> zip_call list \<Rightarrow> int \<times> zip_call list" where
  "mkdir_from w dir i h =
     (if i \<ge> length dir then (0, h)
      else if dir ! i = CHR ''/'' then
        (case dir_exists w (take i dir) h of (res, h1) \<Rightarrow>
           if res < 0 then (res, h1)
           else if res = 0 then
             (let h2 = Mkdir (take i dir) # h1
              in if zret (w h1 (Mkdir (take i dir))) \<noteq> 0 then (-1, h2) else mkdir_from w dir (Suc i) h2)
           else mkdir_from w dir (Suc i) h1)
      else mkdir_from w dir (Suc i) h)"
  by pat_completeness auto
termination by (relation "measure (\<lambda>(w, dir, i, h). length dir - i)") auto

declare mkdir_from.simps [simp del]

definition mkdir_hier :: "zip_world \<Rightarrow> string \<Rightarrow> zip_call list \<Rightarrow> int \<times> zip_call list" where
  "mkdir_hier w path h =
     (let dir = (if last path \<noteq> CHR ''/'' then path @ ''/'' else path) in mkdir_from w dir 1 h)"

text \<open>
  A directory as \<^verbatim>\<open>readdir\<close> lists it: its files and subdirectories in order; \<open>None\<close> for a directory that
  cannot be opened.
\<close>

datatype dir_tree = Plain_File string | Sub_Dir string "dir_tree list option"

fun tree_name :: "dir_tree \<Rightarrow> string" where
  "tree_name (Plain_File n) = n"
| "tree_name (Sub_Dir n ts) = n"

definition join_path :: "string \<Rightarrow> string \<Rightarrow> string" where
  "join_path dir name = (if last dir \<noteq> CHR ''/'' then dir @ ''/'' @ name else dir @ name)"

text \<open>\<^verbatim>\<open>rmdir_hier_iter\<close>: everything below a directory is unlinked; the first failure ends it.\<close>

fun rmdir_entries :: "zip_world \<Rightarrow> string \<Rightarrow> dir_tree list \<Rightarrow> zip_call list \<Rightarrow> int \<times> zip_call list"
  and rmdir_hier_iter :: "zip_world \<Rightarrow> string \<Rightarrow> dir_tree list option \<Rightarrow> zip_call list \<Rightarrow> int \<times> zip_call list"
where
  "rmdir_entries w dir [] h = (0, h)"
| "rmdir_entries w dir (t # ts) h =
     (if tree_name t = ''.'' \<or> tree_name t = ''..'' then rmdir_entries w dir ts h
      else
        let newpath = join_path dir (tree_name t);
            (res, h1) = (case t of Plain_File n \<Rightarrow> (0, h) | Sub_Dir n sub \<Rightarrow> rmdir_hier_iter w newpath sub h)
        in if res \<noteq> 0 then (res, h1)
           else
             let res2 = zret (w h1 (Unlink newpath)); h2 = Unlink newpath # h1
             in if res2 \<noteq> 0 then (res2, h2) else rmdir_entries w dir ts h2)"
| "rmdir_hier_iter w dir None h = (-1, h)"
| "rmdir_hier_iter w dir (Some ts) h = rmdir_entries w dir ts h"

definition rmdir_hier :: "zip_world \<Rightarrow> string \<Rightarrow> dir_tree list option \<Rightarrow> zip_call list \<Rightarrow> int \<times> zip_call list" where
  "rmdir_hier w app tree h =
     (let buf = ''/apps'' @ ''/'' @ app
      in case rmdir_hier_iter w buf tree h of (res, h1) \<Rightarrow>
           if res = 0 then (zret (w h1 (Unlink buf)), Unlink buf # h1) else (res, h1))"

section \<open>File names of a theme\<close>

text \<open>\<^verbatim>\<open>theme_data\<close>: the names a theme may replace, and whether there is a wide version.\<close>

definition theme_data :: "(string \<times> bool) option list" where
  "theme_data =
     [Some (''background'', True), Some (''bubble1'', False), Some (''bubble2'', False),
      Some (''bubble3'', False), Some (''apps_previous'', False), Some (''apps_previous_hover'', False),
      Some (''apps_next'', False), Some (''apps_next_hover'', False), Some (''icon_usbgecko'', False),
      Some (''icon_usbgecko_active'', False), Some (''icon_ethernet'', False),
      Some (''icon_ethernet_active'', False), Some (''icon_wireless'', False),
      Some (''icon_wireless_active'', False), None, Some (''throbber'', False), None,
      Some (''dialog_background'', False), Some (''dlg_info'', False), Some (''dlg_confirm'', False),
      Some (''dlg_warning'', False), Some (''dlg_error'', False), Some (''button'', False),
      Some (''button_focus'', False), Some (''button_small'', False), Some (''button_small_focus'', False),
      Some (''button_tiny'', False), Some (''button_tiny_focus'', False), Some (''apps_list'', False),
      Some (''apps_list_hover'', False), Some (''apps_grid'', False), Some (''apps_grid_hover'', False),
      Some (''progress'', False), Some (''content_arrow_up'', False), Some (''content_arrow_down'', False)]"

fun theme_index_from :: "nat \<Rightarrow> (string \<times> bool) option list \<Rightarrow> string \<Rightarrow> (nat \<times> bool) option" where
  "theme_index_from i [] filename = None"
| "theme_index_from i (None # ts) filename = theme_index_from (Suc i) ts filename"
| "theme_index_from i (Some (n, wide) # ts) filename =
     (if strcasecmp (n @ ''.png'') filename = 0 then Some (i, False)
      else if wide \<and> strcasecmp (n @ ''_wide.png'') filename = 0 then Some (i, True)
      else theme_index_from (Suc i) ts filename)"

definition theme_get_index :: "string \<Rightarrow> (nat \<times> bool) option" where
  "theme_get_index filename = theme_index_from 0 theme_data filename"

definition has_extension :: "string \<Rightarrow> string \<Rightarrow> bool" where
  "has_extension ext f \<longleftrightarrow> length f \<ge> 5 \<and> map lower (drop (length f - 3) f) = map lower ext
     \<and> f ! (length f - 4) = CHR ''.''"

definition theme_is_valid_fn :: "string \<Rightarrow> bool" where
  "theme_is_valid_fn f \<longleftrightarrow> has_extension ''ttf'' f \<or> has_extension ''txt'' f \<or> theme_get_index f \<noteq> None"

section \<open>Checking an archive\<close>

definition manage_is_zip :: "u8 list \<Rightarrow> bool" where
  "manage_is_zip data \<longleftrightarrow> take 4 data = [0x50, 0x4b, 3, 4]"

definition bad_name :: "string \<Rightarrow> bool" where
  "bad_name f \<longleftrightarrow> (f \<noteq> [] \<and> hd f = CHR ''/'') \<or> CHR 0x5c \<in> set f \<or> CHR '':'' \<in> set f"

text \<open>What the loop over the entries has seen.\<close>

record zip_scan =
  sc_dirname :: string
  sc_bytes :: u32
  got_elf :: bool
  got_dol :: bool
  got_theme :: bool

definition app_entry_name :: "string \<Rightarrow> zip_scan \<Rightarrow> zip_scan" where
  "app_entry_name name s =
     (if strcasecmp name ''boot.dol'' = 0 then s\<lparr>got_dol := True\<rparr>
      else if strcasecmp name ''boot.elf'' = 0 then s\<lparr>got_elf := True\<rparr>
      else if strcasecmp name ''theme.zip'' = 0 then s\<lparr>got_theme := True\<rparr>
      else s)"

text \<open>One entry of an application archive: whether it is acceptable, and the new state.\<close>

definition check_app_entry :: "zip_reply \<Rightarrow> zip_scan \<Rightarrow> bool \<times> zip_scan" where
  "check_app_entry fi s =
     (let filename = zname fi
      in if bad_name filename then (False, s)
         else if zflag fi AND 1 \<noteq> 0 then (False, s)
         else if zsize fi > 0 then
           (let s1 = s\<lparr>sc_bytes := sc_bytes s + zsize fi\<rparr>
            in if sc_dirname s1 = '''' then
                 (if CHR ''/'' \<in> set filename then
                    (let s2 = s1\<lparr>sc_dirname := takeWhile (\<lambda>c. c \<noteq> CHR ''/'') filename @ ''/''\<rparr>
                     in (True, app_entry_name (drop (length (sc_dirname s2)) filename) s2))
                  else (False, s1))
               else if take (length (sc_dirname s1)) filename \<noteq> sc_dirname s1 then (False, s1)
               else (True, app_entry_name (drop (length (sc_dirname s1)) filename) s1))
         else (True, s))"

text \<open>
  The loop over \<open>n\<close> entries; after the last one there is no \<^verbatim>\<open>unzGoToNextFile\<close>. The two archive checks
  and the extraction share its shape; \<open>f\<close> is what they do with an entry.
\<close>

fun zip_entries ::
  "zip_world \<Rightarrow> (zip_reply \<Rightarrow> 's \<Rightarrow> zip_call list \<Rightarrow> bool \<times> 's \<times> zip_call list) \<Rightarrow> nat \<Rightarrow> 's \<Rightarrow> zip_call list
     \<Rightarrow> bool \<times> 's \<times> zip_call list"
where
  "zip_entries w f 0 s h = (True, s, h)"
| "zip_entries w f (Suc n) s h =
     (let fi = w h UnzGetCurrentFileInfo; h1 = UnzGetCurrentFileInfo # h
      in if zret fi \<noteq> 0 then (False, s, h1)
         else
           (case f fi s h1 of (ok, s1, h2) \<Rightarrow>
              if \<not> ok then (False, s1, h2)
              else if n = 0 then (True, s1, h2)
              else
                let h3 = UnzGoToNextFile # h2
                in if zret (w h2 UnzGoToNextFile) \<noteq> 0 then (False, s1, h3)
                   else zip_entries w f n s1 h3))"

definition manage_check_zip_app :: "zip_world \<Rightarrow> zip_scan \<Rightarrow> zip_call list \<Rightarrow> bool \<times> zip_scan \<times> zip_call list" where
  "manage_check_zip_app w s0 h0 =
     (let h1 = UnzOpen # h0
      in if zret (w h0 UnzOpen) = 0 then (False, s0, h1)
         else
           let gi = w h1 UnzGetGlobalInfo; h2 = UnzGetGlobalInfo # h1
           in if zret gi \<noteq> 0 then (False, s0, UnzClose # h2)
              else if znumber gi < 2 \<or> znumber gi > 1024 then (False, s0, UnzClose # h2)
              else
                (case zip_entries w (\<lambda>fi s h. case check_app_entry fi s of (ok, s') \<Rightarrow> (ok, s', h)) (unat (znumber gi))
                        \<lparr>sc_dirname = '''', sc_bytes = 0, got_elf = False, got_dol = False, got_theme = False\<rparr> h2 of
                   (ok, s, h3) \<Rightarrow>
                     if ok \<and> sc_dirname s \<noteq> '''' \<and>
                        (if got_elf s \<or> got_dol s then 1 else 0) + (if got_theme s then 1 else 0) = (1 :: int)
                     then (True, s\<lparr>sc_dirname := butlast (sc_dirname s)\<rparr>, UnzClose # h3)
                     else (False, s, UnzClose # h3)))"

definition check_theme_entry :: "zip_reply \<Rightarrow> bool \<Rightarrow> bool \<times> bool" where
  "check_theme_entry fi got_xml =
     (let filename = zname fi
      in if bad_name filename then (False, got_xml)
         else if zflag fi AND 1 \<noteq> 0 then (False, got_xml)
         else if zsize fi > 0 then
           (if CHR ''/'' \<in> set filename then (False, got_xml)
            else if strcasecmp filename ''theme.xml'' = 0 then (True, True)
            else if \<not> theme_is_valid_fn filename then (False, got_xml)
            else (True, got_xml))
         else (True, got_xml))"

definition manage_check_zip_theme :: "zip_world \<Rightarrow> u32 \<Rightarrow> zip_call list \<Rightarrow> bool \<times> zip_call list" where
  "manage_check_zip_theme w data_len h0 =
     (if unat data_len > MAX_THEME_ZIP_SIZE then (False, h0)
      else
        let h1 = UnzOpen # h0
        in if zret (w h0 UnzOpen) = 0 then (False, h1)
           else
             let gi = w h1 UnzGetGlobalInfo; h2 = UnzGetGlobalInfo # h1
             in if zret gi \<noteq> 0 then (False, UnzClose # h2)
                else if znumber gi < 1 \<or> znumber gi > 64 then (False, UnzClose # h2)
                else
                  (case zip_entries w (\<lambda>fi s h. case check_theme_entry fi s of (ok, s') \<Rightarrow> (ok, s', h)) (unat (znumber gi))
                          False h2 of
                     (ok, got_xml, h3) \<Rightarrow> (ok \<and> got_xml, UnzClose # h3)))"

section \<open>Extracting an archive\<close>

text \<open>
  One file: blocks of at most 8 KiB are read and written until the reader gives 0 or an error.
  The state of the loop is the last result, \<open>None\<close> before the first read.
\<close>

definition extract_iter :: "zip_world \<Rightarrow> int \<Rightarrow> int option \<times> zip_call list \<Rightarrow> int option \<times> zip_call list" where
  "extract_iter w fd = (\<lambda>(_, h).
     let r = w h (UnzReadCurrentFile 8192); res = zret r; h1 = UnzReadCurrentFile 8192 # h
     in if res < 0 then (Some res, h1)
        else if res > 0 then
          let h2 = WriteFile fd (zdata r) # h1
          in if res \<noteq> zret (w h1 (WriteFile fd (zdata r))) then (Some (-1), h2)
             else (Some res, Progress_add (word_of_int res) # h2)
        else (Some res, h1))"

definition extract_file :: "zip_world \<Rightarrow> int \<Rightarrow> zip_call list \<Rightarrow> (int \<times> zip_call list) option" where
  "extract_file w fd h =
     map_option (\<lambda>(r, h'). (the r, h'))
       (while_option (\<lambda>(r, h). r = None \<or> the r > 0) (extract_iter w fd) (None, h))"

definition dir_part :: "string \<Rightarrow> string" where
  "dir_part path = rev (tl (dropWhile (\<lambda>c. c \<noteq> CHR ''/'') (rev path)))"

text \<open>One entry; the state of the loop is \<open>True\<close> while every extraction has returned.\<close>

definition extract_entry :: "zip_world \<Rightarrow> zip_reply \<Rightarrow> bool \<Rightarrow> zip_call list \<Rightarrow> bool \<times> bool \<times> zip_call list" where
  "extract_entry w fi live h0 =
     (if zsize fi > 0 then
        let h1 = UnzOpenCurrentFile # h0
        in if zret (w h0 UnzOpenCurrentFile) \<noteq> 0 then (False, live, h1)
           else
             let path = ''/apps'' @ ''/'' @ zname fi
             in case mkdir_hier w (dir_part path) h1 of (res, h2) \<Rightarrow>
                  if res \<noteq> 0 then (False, live, h2)
                  else
                    let fd = zret (w h2 (OpenTrunc path)); h3 = OpenTrunc path # h2
                    in if fd < 0 then (False, live, h3)
                       else
                         (case extract_file w fd h3 of
                            None \<Rightarrow> (False, False, h3)
                          | Some (res, h4) \<Rightarrow>
                              (res \<ge> 0, live, UnzCloseCurrentFile # CloseFile fd # h4))
      else (True, live, h0))"

text \<open>\<open>None\<close> when the extraction never returns.\<close>

definition manage_extract_zip :: "zip_world \<Rightarrow> zip_call list \<Rightarrow> (bool \<times> zip_call list) option" where
  "manage_extract_zip w h0 =
     (let h1 = UnzOpen # h0
      in if zret (w h0 UnzOpen) = 0 then Some (False, h1)
         else
           let gi = w h1 UnzGetGlobalInfo; h2 = UnzGetGlobalInfo # h1
           in if zret gi \<noteq> 0 then Some (False, UnzClose # h2)
              else
                (case zip_entries w (extract_entry w) (unat (znumber gi)) True h2 of
                   (ok, live, h3) \<Rightarrow> if live then Some (ok, UnzClose # h3) else None))"

section \<open>The thread\<close>

text \<open>\<^verbatim>\<open>manage_func\<close>: extraction when there are data, deletion otherwise; the result is \<^verbatim>\<open>ta.success\<close>.\<close>

definition manage_func ::
  "zip_world \<Rightarrow> bool \<Rightarrow> string \<Rightarrow> dir_tree list option \<Rightarrow> zip_call list \<Rightarrow> (bool \<times> zip_call list) option" where
  "manage_func w extract app tree h =
     (if extract then manage_extract_zip w h
      else (case rmdir_hier w app tree h of (res, h1) \<Rightarrow> Some (res = 0, h1)))"

section \<open>What an accepted archive contains\<close>

text \<open>
  An archive with its members. The reader stands at one of them: it went to the first when it was opened and on by one with
  each \<^verbatim>\<open>unzGoToNextFile\<close>, and of this member it has delivered as much as was read since it was opened.
\<close>

record zip_member =
  zm_name :: string
  zm_flag :: u32
  zm_size :: u32
  zm_data :: "u8 list"

fun zip_pos :: "zip_call list \<Rightarrow> nat" where
  "zip_pos [] = 0"
| "zip_pos (UnzOpen # h) = 0"
| "zip_pos (UnzGoToNextFile # h) = Suc (zip_pos h)"
| "zip_pos (e # h) = zip_pos h"

fun zip_off :: "zip_world \<Rightarrow> zip_call list \<Rightarrow> nat" where
  "zip_off w [] = 0"
| "zip_off w (UnzOpenCurrentFile # h) = 0"
| "zip_off w (UnzReadCurrentFile n # h) = zip_off w h + nat (zret (w h (UnzReadCurrentFile n)))"
| "zip_off w (e # h) = zip_off w h"

text \<open>
  The documented behaviour of the reader on an archive with the members \<open>ms\<close>: what succeeds tells the number of members, the
  name, flags and size of the member it stands at, and delivers the next bytes of it, none only at its end. \<open>readable\<close> is an
  archive on which nothing fails.
\<close>

definition describes :: "zip_reply \<Rightarrow> zip_member \<Rightarrow> bool" where
  "describes u m \<longleftrightarrow> zname u = zm_name m \<and> zflag u = zm_flag m \<and> zsize u = zm_size m"

definition delivers :: "zip_reply \<Rightarrow> u32 \<Rightarrow> u8 list \<Rightarrow> bool" where
  "delivers u n rest \<longleftrightarrow> zret u < 0 \<or> (zret u = int (length (zdata u)) \<and> take (length (zdata u)) rest = zdata u
     \<and> (zdata u = [] \<longrightarrow> n = 0 \<or> rest = []))"

definition archive :: "zip_world \<Rightarrow> zip_member list \<Rightarrow> bool" where
  "archive w ms \<longleftrightarrow>
     (\<forall>h. zret (w h UnzGetGlobalInfo) = 0 \<longrightarrow> unat (znumber (w h UnzGetGlobalInfo)) = length ms)
   \<and> (\<forall>h. zip_pos h < length ms \<longrightarrow> zret (w h UnzGetCurrentFileInfo) = 0 \<longrightarrow> describes (w h UnzGetCurrentFileInfo) (ms ! zip_pos h))
   \<and> (\<forall>h n. zip_pos h < length ms \<longrightarrow> delivers (w h (UnzReadCurrentFile n)) n (drop (zip_off w h) (zm_data (ms ! zip_pos h))))"

definition readable :: "zip_world \<Rightarrow> bool" where
  "readable w \<longleftrightarrow> (\<forall>h. zret (w h UnzOpen) \<noteq> 0 \<and> zret (w h UnzGetGlobalInfo) = 0 \<and> zret (w h UnzGetCurrentFileInfo) = 0
     \<and> zret (w h UnzGoToNextFile) = 0 \<and> zret (w h UnzOpenCurrentFile) = 0 \<and> (\<forall>n. 0 \<le> zret (w h (UnzReadCurrentFile n))))"

fun accept_all :: "('e \<Rightarrow> 's \<Rightarrow> bool \<times> 's) \<Rightarrow> 'e list \<Rightarrow> 's \<Rightarrow> 's option" where
  "accept_all g [] s = Some s"
| "accept_all g (e # es) s = (case g e s of (ok, s1) \<Rightarrow> if ok then accept_all g es s1 else None)"

text \<open>A check without calls of its own is a fold over the members.\<close>

definition member_entry :: "zip_member \<Rightarrow> zip_reply" where
  "member_entry m = \<lparr>zret = 0, zdir = False, znumber = 0, zname = zm_name m, zflag = zm_flag m, zsize = zm_size m, zdata = []\<rparr>"

lemma member_entry_fields [simp]:
  "zname (member_entry m) = zm_name m" "zflag (member_entry m) = zm_flag m" "zsize (member_entry m) = zm_size m"
  by (simp_all add: member_entry_def)

lemma check_app_entry_member: "describes fi m \<Longrightarrow> check_app_entry fi s = check_app_entry (member_entry m) s"
  by (simp add: check_app_entry_def Let_def describes_def member_entry_def cong: if_cong)

lemma zip_entries_checks:
  assumes "archive w ms" and "readable w" and same: "\<And>fi m s. describes fi m \<Longrightarrow> g fi s = g (member_entry m) s"
  shows "zip_pos h + n = length ms \<Longrightarrow>
    (case accept_all g (map member_entry (drop (zip_pos h) ms)) s of
       Some t \<Rightarrow> \<exists>h'. zip_entries w (\<lambda>fi s h. case g fi s of (ok, s') \<Rightarrow> (ok, s', h)) n s h = (True, t, h')
     | None \<Rightarrow> \<exists>t h'. zip_entries w (\<lambda>fi s h. case g fi s of (ok, s') \<Rightarrow> (ok, s', h)) n s h = (False, t, h'))"
proof (induction n arbitrary: s h)
  case (Suc n)
  let ?u = "w h UnzGetCurrentFileInfo"
  have lt: "zip_pos h < length ms" using Suc.prems by simp
  have u: "zret ?u = 0" "zret (w k UnzGoToNextFile) = 0" for k using assms(2) by (simp_all add: readable_def)
  have "describes ?u (ms ! zip_pos h)" using assms(1) lt u(1) by (simp add: archive_def)
  note g = same[OF this]
  obtain ok s1 where s1: "g (member_entry (ms ! zip_pos h)) s = (ok, s1)" by fastforce
  have drop: "drop (zip_pos h) ms = ms ! zip_pos h # drop (Suc (zip_pos h)) ms" using lt by (rule Cons_nth_drop_Suc [symmetric])
  show ?case
  proof (cases "ok \<and> n \<noteq> 0")
    case False
    have "n = 0 \<Longrightarrow> drop (Suc (zip_pos h)) ms = []" using Suc.prems by simp
    then show ?thesis using False by (cases ok) (auto simp: Let_def u g s1 drop)
  next
    case True
    then have run: "zip_entries w (\<lambda>fi s h. case g fi s of (ok, s') \<Rightarrow> (ok, s', h)) (Suc n) s h
        = zip_entries w (\<lambda>fi s h. case g fi s of (ok, s') \<Rightarrow> (ok, s', h)) n s1 (UnzGoToNextFile # UnzGetCurrentFileInfo # h)"
      by (simp add: Let_def u g s1)
    have acc: "accept_all g (map member_entry (drop (zip_pos h) ms)) s = accept_all g (map member_entry (drop (Suc (zip_pos h)) ms)) s1"
      using True by (simp add: drop s1)
    show ?thesis using Suc.IH[of "UnzGoToNextFile # UnzGetCurrentFileInfo # h" s1] Suc.prems unfolding run acc by simp
  qed
qed simp

definition names_boot :: "string \<Rightarrow> bool" where
  "names_boot n \<longleftrightarrow> strcasecmp n ''boot.dol'' = 0 \<or> strcasecmp n ''boot.elf'' = 0"

definition names_theme :: "string \<Rightarrow> bool" where
  "names_theme n \<longleftrightarrow> strcasecmp n ''theme.zip'' = 0"

lemma names_theme_boot: "names_theme n \<Longrightarrow> \<not> names_boot n"
  by (cases n) (auto simp: names_theme_def names_boot_def lower_def Let_def split: if_splits)

definition folder :: "string \<Rightarrow> bool" where
  "folder d \<longleftrightarrow> (\<exists>e. d = e @ ''/'' \<and> e \<noteq> '''' \<and> CHR ''/'' \<notin> set e)"

definition inside :: "string \<Rightarrow> zip_reply \<Rightarrow> bool" where
  "inside d fi \<longleftrightarrow> take (length d) (zname fi) = d"

definition local_name :: "string \<Rightarrow> zip_reply \<Rightarrow> string" where
  "local_name d fi = drop (length d) (zname fi)"

definition got_boot :: "zip_scan \<Rightarrow> bool" where
  "got_boot s \<longleftrightarrow> got_elf s \<or> got_dol s"

lemma app_entry_name_fields:
  "sc_dirname (app_entry_name n s) = sc_dirname s" "sc_bytes (app_entry_name n s) = sc_bytes s"
  "got_boot (app_entry_name n s) \<longleftrightarrow> got_boot s \<or> names_boot n"
  "got_theme (app_entry_name n s) \<longleftrightarrow> got_theme s \<or> names_theme n"
  using names_theme_boot[of n]
  by (auto simp: app_entry_name_def got_boot_def names_boot_def names_theme_def)

lemma folder_of_name:
  assumes "CHR ''/'' \<in> set f" and "\<not> bad_name f"
  shows "folder (takeWhile (\<lambda>c. c \<noteq> CHR ''/'') f @ ''/'')"
    and "take (length (takeWhile (\<lambda>c. c \<noteq> CHR ''/'') f @ ''/'')) f = takeWhile (\<lambda>c. c \<noteq> CHR ''/'') f @ ''/''"
proof -
  obtain xs ys where f: "f = xs @ CHR ''/'' # ys" "CHR ''/'' \<notin> set xs" using assms(1) by (metis split_list_first)
  then have t: "takeWhile (\<lambda>c. c \<noteq> CHR ''/'') f = xs" by (auto simp: takeWhile_append)
  have "xs \<noteq> []" using assms(2) f by (auto simp: bad_name_def)
  then show "folder (takeWhile (\<lambda>c. c \<noteq> CHR ''/'') f @ ''/'')" using t f(2) by (auto simp: folder_def)
  show "take (length (takeWhile (\<lambda>c. c \<noteq> CHR ''/'') f @ ''/'')) f = takeWhile (\<lambda>c. c \<noteq> CHR ''/'') f @ ''/''"
    using t f(1) by simp
qed

definition scan_step :: "zip_scan \<Rightarrow> zip_reply \<Rightarrow> zip_scan \<Rightarrow> bool" where
  "scan_step s fi s1 \<longleftrightarrow> \<not> bad_name (zname fi) \<and> zflag fi AND 1 = 0
     \<and> (sc_dirname s1 = '''' \<or> folder (sc_dirname s1)) \<and> (sc_dirname s \<noteq> '''' \<longrightarrow> sc_dirname s1 = sc_dirname s)
     \<and> (zsize fi > 0 \<longrightarrow> sc_dirname s1 \<noteq> '''' \<and> inside (sc_dirname s1) fi)
     \<and> sc_bytes s1 = sc_bytes s + zsize fi
     \<and> (got_boot s1 \<longleftrightarrow> got_boot s \<or> (zsize fi > 0 \<and> names_boot (local_name (sc_dirname s1) fi)))
     \<and> (got_theme s1 \<longleftrightarrow> got_theme s \<or> (zsize fi > 0 \<and> names_theme (local_name (sc_dirname s1) fi)))"

lemma got_boot_update [simp]: "got_boot (s\<lparr>sc_bytes := b\<rparr>) = got_boot s" "got_boot (s\<lparr>sc_dirname := d\<rparr>) = got_boot s"
  by (simp_all add: got_boot_def)

lemma check_app_entry_step:
  assumes "check_app_entry fi s = (True, s1)" and "sc_dirname s = '''' \<or> folder (sc_dirname s)"
  shows "scan_step s fi s1"
proof (cases "zsize fi > 0")
  case False
  then have "zsize fi = 0" by (metis word_neq_0_conv)
  then show ?thesis
    using assms by (auto simp: check_app_entry_def scan_step_def Let_def split: if_splits)
next
  case True
  have base: "\<not> bad_name (zname fi)" "zflag fi AND 1 = 0"
    using assms(1) by (auto simp: check_app_entry_def Let_def split: if_splits)
  show ?thesis
  proof (cases "sc_dirname s = ''''")
    case empty: True
    let ?d = "takeWhile (\<lambda>c. c \<noteq> CHR ''/'') (zname fi) @ ''/''"
    have slash: "CHR ''/'' \<in> set (zname fi)"
      and s1: "s1 = app_entry_name (drop (length ?d) (zname fi)) (s\<lparr>sc_bytes := sc_bytes s + zsize fi, sc_dirname := ?d\<rparr>)"
      using assms(1) True empty base by (auto simp: check_app_entry_def Let_def split: if_splits)
    note f = folder_of_name[OF slash base(1)]
    show ?thesis
      using f base empty True unfolding s1 scan_step_def
      by (simp add: app_entry_name_fields inside_def local_name_def)
  next
    case False
    have "take (length (sc_dirname s)) (zname fi) = sc_dirname s"
      and s1: "s1 = app_entry_name (drop (length (sc_dirname s)) (zname fi)) (s\<lparr>sc_bytes := sc_bytes s + zsize fi\<rparr>)"
      using assms(1) True False base by (auto simp: check_app_entry_def Let_def split: if_splits)
    then show ?thesis
      using False base assms(2) \<open>zsize fi > 0\<close> unfolding s1 scan_step_def
      by (simp add: app_entry_name_fields inside_def local_name_def)
  qed
qed

lemma accept_app_entries:
  assumes "accept_all check_app_entry es s = Some s'" and "sc_dirname s = '''' \<or> folder (sc_dirname s)"
  shows "(sc_dirname s' = '''' \<or> folder (sc_dirname s')) \<and> (sc_dirname s \<noteq> '''' \<longrightarrow> sc_dirname s' = sc_dirname s)
    \<and> (\<forall>fi\<in>set es. \<not> bad_name (zname fi) \<and> zflag fi AND 1 = 0 \<and> (zsize fi > 0 \<longrightarrow> sc_dirname s' \<noteq> '''' \<and> inside (sc_dirname s') fi))
    \<and> sc_bytes s' = sc_bytes s + sum_list (map zsize es)
    \<and> (got_boot s' \<longleftrightarrow> got_boot s \<or> (\<exists>fi\<in>set es. zsize fi > 0 \<and> names_boot (local_name (sc_dirname s') fi)))
    \<and> (got_theme s' \<longleftrightarrow> got_theme s \<or> (\<exists>fi\<in>set es. zsize fi > 0 \<and> names_theme (local_name (sc_dirname s') fi)))"
  using assms
proof (induction es arbitrary: s)
  case (Cons fi es)
  then obtain s1 where c: "check_app_entry fi s = (True, s1)" and r: "accept_all check_app_entry es s1 = Some s'"
    by (auto split: prod.splits if_splits)
  note st = check_app_entry_step[OF c Cons.prems(2), unfolded scan_step_def]
  then have "sc_dirname s1 = '''' \<or> folder (sc_dirname s1)" by blast
  note ih = Cons.IH[OF r this]
  have d: "zsize fi > 0 \<Longrightarrow> sc_dirname s' = sc_dirname s1" using ih st by blast
  show ?case
  proof (intro conjI)
    show "sc_bytes s' = sc_bytes s + sum_list (map zsize (fi # es))" using ih st by (simp add: add.assoc)
    show "sc_dirname s' = '''' \<or> folder (sc_dirname s')" using ih by blast
    show "sc_dirname s \<noteq> '''' \<longrightarrow> sc_dirname s' = sc_dirname s" using ih st by metis
    show "\<forall>fi\<in>set (fi # es). \<not> bad_name (zname fi) \<and> zflag fi AND 1 = 0
        \<and> (zsize fi > 0 \<longrightarrow> sc_dirname s' \<noteq> '''' \<and> inside (sc_dirname s') fi)"
      using ih st d by simp
    show "got_boot s' \<longleftrightarrow> got_boot s \<or> (\<exists>fi\<in>set (fi # es). zsize fi > 0 \<and> names_boot (local_name (sc_dirname s') fi))"
      using ih st d by auto
    show "got_theme s' \<longleftrightarrow> got_theme s \<or> (\<exists>fi\<in>set (fi # es). zsize fi > 0 \<and> names_theme (local_name (sc_dirname s') fi))"
      using ih st d by auto
  qed
qed simp

text \<open>What an application archive is: everything in one directory \<open>d\<close>, with either a boot file or a theme in it.\<close>

definition app_archive :: "string \<Rightarrow> zip_member list \<Rightarrow> bool" where
  "app_archive d ms \<longleftrightarrow> d \<noteq> '''' \<and> CHR ''/'' \<notin> set d
     \<and> (\<forall>m\<in>set ms. \<not> bad_name (zm_name m) \<and> zm_flag m AND 1 = 0 \<and> (zm_size m > 0 \<longrightarrow> (\<exists>f. zm_name m = d @ ''/'' @ f)))
     \<and> ((\<exists>m\<in>set ms. zm_size m > 0 \<and> names_boot (drop (length d + 1) (zm_name m)))
        \<noteq> (\<exists>m\<in>set ms. zm_size m > 0 \<and> names_theme (drop (length d + 1) (zm_name m))))"

definition in_dir :: "string \<Rightarrow> zip_scan \<Rightarrow> bool" where
  "in_dir d s \<longleftrightarrow> sc_dirname s = '''' \<or> sc_dirname s = d @ ''/''"

lemma app_entry_accepted:
  assumes "\<not> bad_name (zm_name m)" and "zm_flag m AND 1 = 0" and "zm_size m > 0 \<longrightarrow> (\<exists>f. zm_name m = d @ ''/'' @ f)"
    and "CHR ''/'' \<notin> set d" and "in_dir d s"
  shows "\<exists>s'. check_app_entry (member_entry m) s = (True, s') \<and> in_dir d s'"
proof (cases "zm_size m > 0")
  case False
  then show ?thesis using assms by (simp add: check_app_entry_def member_entry_def)
next
  case True
  then obtain f where f: "zm_name m = d @ ''/'' @ f" using assms(3) by blast
  have "takeWhile (\<lambda>c. c \<noteq> CHR ''/'') (zm_name m) = d" using f assms(4) by (simp add: takeWhile_append)
  then show ?thesis
    using True assms(1,2,5) f by (auto simp: check_app_entry_def member_entry_def Let_def in_dir_def app_entry_name_fields)
qed

lemma app_entries_accepted:
  assumes "\<forall>m\<in>set ms. \<not> bad_name (zm_name m) \<and> zm_flag m AND 1 = 0 \<and> (zm_size m > 0 \<longrightarrow> (\<exists>f. zm_name m = d @ ''/'' @ f))"
    and "CHR ''/'' \<notin> set d" and "in_dir d s"
  shows "\<exists>s'. accept_all check_app_entry (map member_entry ms) s = Some s' \<and> in_dir d s'"
  using assms(1,3)
proof (induction ms arbitrary: s)
  case (Cons m ms)
  obtain s1 where "check_app_entry (member_entry m) s = (True, s1)" "in_dir d s1"
    using app_entry_accepted[of m d s] Cons.prems assms(2) by auto
  then show ?case using Cons.IH[of s1] Cons.prems(1) by simp
qed simp

definition scan_start :: zip_scan where
  "scan_start = \<lparr>sc_dirname = '''', sc_bytes = 0, got_elf = False, got_dol = False, got_theme = False\<rparr>"

lemma scan_start_fields [simp]: "sc_dirname scan_start = []" "sc_bytes scan_start = 0" "\<not> got_boot scan_start" "\<not> got_theme scan_start"
  by (simp_all add: scan_start_def got_boot_def)

definition scan_accepts :: "zip_scan \<Rightarrow> bool" where
  "scan_accepts s \<longleftrightarrow> sc_dirname s \<noteq> '''' \<and> got_boot s \<noteq> got_theme s"

text \<open>Every archive that the loop and the last test let pass is an application archive, with this directory.\<close>

lemma accepted_app_archive:
  assumes "accept_all check_app_entry (map member_entry ms) scan_start = Some s" and "scan_accepts s"
  shows "app_archive (butlast (sc_dirname s)) ms \<and> sc_bytes s = sum_list (map zm_size ms)"
proof -
  have acc: "(\<forall>fi\<in>set (map member_entry ms). \<not> bad_name (zname fi) \<and> zflag fi AND 1 = 0 \<and> (zsize fi > 0 \<longrightarrow> inside (sc_dirname s) fi))
    \<and> sc_bytes s = sum_list (map zsize (map member_entry ms)) \<and> folder (sc_dirname s)
    \<and> (got_boot s \<longleftrightarrow> (\<exists>fi\<in>set (map member_entry ms). zsize fi > 0 \<and> names_boot (local_name (sc_dirname s) fi)))
    \<and> (got_theme s \<longleftrightarrow> (\<exists>fi\<in>set (map member_entry ms). zsize fi > 0 \<and> names_theme (local_name (sc_dirname s) fi)))"
    using accept_app_entries[OF assms(1)] assms(2) by (simp add: scan_accepts_def)
  then obtain e where e: "sc_dirname s = e @ ''/''" "e \<noteq> ''''" "CHR ''/'' \<notin> set e" by (auto simp: folder_def)
  have inside: "\<exists>f. zm_name m = e @ ''/'' @ f" if "inside (sc_dirname s) (member_entry m)" for m
  proof -
    have "zm_name m = take (length (sc_dirname s)) (zm_name m) @ drop (length (sc_dirname s)) (zm_name m)" by simp
    then show ?thesis using that e(1) by (metis append.assoc inside_def member_entry_def zip_reply.select_convs(4))
  qed
  have loc: "local_name (sc_dirname s) (member_entry m) = drop (length e + 1) (zm_name m)" for m
    using e(1) by (simp add: local_name_def member_entry_def)
  have bytes: "map zsize (map member_entry ms) = map zm_size ms" by (simp add: comp_def)
  have kinds: "(\<exists>m\<in>set ms. zm_size m > 0 \<and> names_boot (drop (length e + 1) (zm_name m)))
      \<noteq> (\<exists>m\<in>set ms. zm_size m > 0 \<and> names_theme (drop (length e + 1) (zm_name m)))"
    using acc assms(2) by (simp add: loc scan_accepts_def)
  show ?thesis using acc e inside kinds unfolding bytes by (simp add: app_archive_def)
qed

lemma app_archive_accepted:
  assumes "app_archive d ms"
  shows "\<exists>s. accept_all check_app_entry (map member_entry ms) scan_start = Some s \<and> scan_accepts s"
proof -
  note a = assms[unfolded app_archive_def]
  obtain s where s: "accept_all check_app_entry (map member_entry ms) scan_start = Some s" "in_dir d s"
    using app_entries_accepted[of ms d scan_start] a by (auto simp: in_dir_def)
  have acc: "(\<forall>fi\<in>set (map member_entry ms). zsize fi > 0 \<longrightarrow> sc_dirname s \<noteq> '''')
    \<and> (got_boot s \<longleftrightarrow> (\<exists>fi\<in>set (map member_entry ms). zsize fi > 0 \<and> names_boot (local_name (sc_dirname s) fi)))
    \<and> (got_theme s \<longleftrightarrow> (\<exists>fi\<in>set (map member_entry ms). zsize fi > 0 \<and> names_theme (local_name (sc_dirname s) fi)))"
    using accept_app_entries[OF s(1)] by auto
  have "\<exists>m\<in>set ms. zm_size m > 0" using a by blast
  then have d: "sc_dirname s = d @ ''/''" using acc s(2) by (auto simp: in_dir_def member_entry_def)
  have "local_name (sc_dirname s) (member_entry m) = drop (length d + 1) (zm_name m)" for m
    by (simp add: local_name_def d)
  then have "scan_accepts s" using acc a d by (simp add: scan_accepts_def)
  with s(1) show ?thesis by blast
qed

text \<open>
  C24: of the archives that can be read, exactly those are accepted as an application that have 2 to 1024 members, none of
  them encrypted, absolute or with a backslash or colon in its name, whose nonempty members all lie in one directory, and with
  either \<^verbatim>\<open>boot.dol\<close> or \<^verbatim>\<open>boot.elf\<close>, or \<^verbatim>\<open>theme.zip\<close> in this directory, but not both kinds. The directory is returned, with the
  sum of the sizes (as 32-bit words).
\<close>

theorem check_zip_app_accepts:
  assumes "archive w ms" and "readable w"
  shows "\<exists>ok s h'. manage_check_zip_app w s0 h = (ok, s, h')
    \<and> (ok \<longleftrightarrow> 2 \<le> length ms \<and> length ms \<le> 1024 \<and> (\<exists>d. app_archive d ms))
    \<and> (ok \<longrightarrow> app_archive (sc_dirname s) ms \<and> sc_bytes s = sum_list (map zm_size ms))"
proof -
  let ?gi = "w (UnzOpen # h) UnzGetGlobalInfo" and ?h2 = "UnzGetGlobalInfo # UnzOpen # h"
  let ?run = "zip_entries w (\<lambda>fi s h. case check_app_entry fi s of (ok, s') \<Rightarrow> (ok, s', h)) (unat (znumber ?gi)) scan_start ?h2"
  have ok: "zret (w h UnzOpen) \<noteq> 0" "zret ?gi = 0" using assms(2) by (simp_all add: readable_def)
  then have n: "unat (znumber ?gi) = length ms" using assms(1) by (simp add: archive_def)
  have count: "znumber ?gi < 2 \<or> znumber ?gi > 1024 \<longleftrightarrow> \<not> (2 \<le> length ms \<and> length ms \<le> 1024)"
    using n by (simp add: word_less_nat_alt not_le)
  show ?thesis
  proof (cases "2 \<le> length ms \<and> length ms \<le> 1024")
    case False
    then have "manage_check_zip_app w s0 h = (False, s0, UnzClose # ?h2)" using count ok by (simp add: manage_check_zip_app_def Let_def)
    then show ?thesis using False by blast
  next
    case True
    have pos: "zip_pos ?h2 = 0" by simp
    have run: "case accept_all check_app_entry (map member_entry ms) scan_start of
        Some t \<Rightarrow> \<exists>h'. ?run = (True, t, h') | None \<Rightarrow> \<exists>t h'. ?run = (False, t, h')"
      using zip_entries_checks[where g = check_app_entry, OF assms check_app_entry_member, of ?h2 "unat (znumber ?gi)" scan_start] n unfolding pos by simp
    have check: "manage_check_zip_app w s0 h = (case ?run of (ok, s, h3) \<Rightarrow>
        if ok \<and> scan_accepts s then (True, s\<lparr>sc_dirname := butlast (sc_dirname s)\<rparr>, UnzClose # h3) else (False, s, UnzClose # h3))"
      using count True ok by (auto simp: manage_check_zip_app_def Let_def scan_start_def scan_accepts_def got_boot_def
          split: prod.split)
    show ?thesis
    proof (cases "accept_all check_app_entry (map member_entry ms) scan_start")
      case None
      then have "\<nexists>d. app_archive d ms" using app_archive_accepted by fastforce
      then show ?thesis using run None check by auto
    next
      case (Some t)
      then obtain h' where r: "?run = (True, t, h')" using run by auto
      show ?thesis
      proof (cases "scan_accepts t")
        case False
        then have "\<nexists>d. app_archive d ms" using app_archive_accepted Some by fastforce
        moreover have "manage_check_zip_app w s0 h = (False, t, UnzClose # h')" using check r False by simp
        ultimately show ?thesis by blast
      next
        case acc: True
        from accepted_app_archive[OF Some acc] show ?thesis using check r acc True by auto
      qed
    qed
  qed
qed

section \<open>What an extraction writes\<close>

text \<open>The files written so far, newest first: descriptor, path and contents.\<close>

fun files_written :: "zip_world \<Rightarrow> zip_call list \<Rightarrow> (int \<times> string \<times> u8 list) list" where
  "files_written w [] = []"
| "files_written w (OpenTrunc p # h) =
     (if zret (w h (OpenTrunc p)) < 0 then files_written w h
      else (zret (w h (OpenTrunc p)), p, []) # files_written w h)"
| "files_written w (WriteFile fd bs # h) =
     (case files_written w h of
        [] \<Rightarrow> []
      | (fd', p, d) # fs \<Rightarrow>
          if fd' = fd then (fd', p, d @ take (nat (zret (w h (WriteFile fd bs)))) bs) # fs
          else (fd', p, d) # fs)"
| "files_written w (e # h) = files_written w h"

text \<open>A file system on which nothing fails.\<close>

definition obliging :: "zip_world \<Rightarrow> bool" where
  "obliging w \<longleftrightarrow> (\<forall>h. (\<forall>p. zret (w h (Stat p)) = 0 \<longrightarrow> zdir (w h (Stat p))) \<and> (\<forall>p. zret (w h (Mkdir p)) = 0)
     \<and> (\<forall>p. 0 \<le> zret (w h (OpenTrunc p))) \<and> (\<forall>fd bs. zret (w h (WriteFile fd bs)) = int (length bs)))"

lemma mkdir_from_frame:
  "mkdir_from w dir i h = (r, h') \<Longrightarrow> files_written w h' = files_written w h \<and> zip_pos h' = zip_pos h \<and> zip_off w h' = zip_off w h
    \<and> (obliging w \<longrightarrow> r = 0)"
proof (induction w dir i h rule: mkdir_from.induct)
  case (1 w dir i h)
  show ?case
  proof (cases "length dir \<le> i \<or> dir ! i \<noteq> CHR ''/''")
    case True
    then show ?thesis
      using 1 by (subst (asm) (4) mkdir_from.simps) (auto split: if_splits)
  next
    case False
    then show ?thesis
      using 1 by (subst (asm) (4) mkdir_from.simps) (auto simp: dir_exists_def Let_def obliging_def split: if_splits)
  qed
qed

lemma mkdir_hier_frame:
  "mkdir_hier w p h = (r, h') \<Longrightarrow> files_written w h' = files_written w h \<and> zip_pos h' = zip_pos h \<and> zip_off w h' = zip_off w h
    \<and> (obliging w \<longrightarrow> r = 0)"
  by (auto simp: mkdir_hier_def Let_def dest: mkdir_from_frame)

text \<open>The loop over the blocks of a file ends, for each block brings it nearer to the end of the member.\<close>

lemma extract_blocks:
  assumes "archive w ms" and "i < length ms"
  shows "zip_pos h = i \<Longrightarrow> zip_off w h \<le> length (zm_data (ms ! i)) \<Longrightarrow> s = None \<or> the s > 0 \<Longrightarrow>
    files_written w h = (fd, p, take (zip_off w h) (zm_data (ms ! i))) # fs \<Longrightarrow>
    \<exists>r h'. while_option (\<lambda>(r, h). r = None \<or> the r > 0) (extract_iter w fd) (s, h) = Some (Some r, h') \<and> zip_pos h' = i
      \<and> (0 \<le> r \<longrightarrow> files_written w h' = (fd, p, zm_data (ms ! i)) # fs) \<and> (readable w \<and> obliging w \<longrightarrow> 0 \<le> r)"
proof (induction "length (zm_data (ms ! i)) - zip_off w h" arbitrary: s h rule: less_induct)
  case less
  let ?u = "w h (UnzReadCurrentFile 8192)" and ?data = "zm_data (ms ! i)"
  let ?v = "w (UnzReadCurrentFile 8192 # h) (WriteFile fd (zdata ?u))"
  have rest: "delivers ?u 8192 (drop (zip_off w h) ?data)" using assms less.prems(1) by (auto simp: archive_def)
  have step: "while_option (\<lambda>(r, h). r = None \<or> the r > 0) (extract_iter w fd) (s, h)
      = while_option (\<lambda>(r, h). r = None \<or> the r > 0) (extract_iter w fd) (extract_iter w fd (s, h))"
    using less.prems(3) by (subst while_option_unfold) simp
  have stop: "while_option (\<lambda>(r, h). r = None \<or> the r > 0) (extract_iter w fd) (Some r, h') = Some (Some r, h')" if "r \<le> 0" for r h'
    using that by (simp add: while_option_unfold)
  consider (error) "zret ?u < 0" | (at_end) "zret ?u = 0" | (short) "zret ?u > 0" "zret ?u \<noteq> zret ?v" | (block) "zret ?u > 0" "zret ?u = zret ?v"
    by linarith
  then show ?case
  proof cases
    case error
    then have "\<not> readable w" unfolding readable_def by (meson not_le)
    moreover have "extract_iter w fd (s, h) = (Some (zret ?u), UnzReadCurrentFile 8192 # h)" using error by (simp add: extract_iter_def Let_def)
    ultimately show ?thesis using error less.prems(1) by (simp add: step stop)
  next
    case at_end
    then have "zip_off w h = length ?data" using rest less.prems(2) by (simp add: delivers_def)
    moreover have "extract_iter w fd (s, h) = (Some 0, UnzReadCurrentFile 8192 # h)" using at_end by (simp add: extract_iter_def Let_def)
    ultimately show ?thesis using at_end less.prems(1,4) by (simp add: step stop)
  next
    case short
    then have "zret ?u = int (length (zdata ?u))" using rest by (simp add: delivers_def)
    then have "\<not> obliging w" using short unfolding obliging_def by metis
    moreover have "extract_iter w fd (s, h) = (Some (- 1), WriteFile fd (zdata ?u) # UnzReadCurrentFile 8192 # h)"
      using short by (simp add: extract_iter_def Let_def)
    ultimately show ?thesis using less.prems(1) by (simp add: step stop)
  next
    case block
    let ?h = "Progress_add (word_of_int (zret ?u)) # WriteFile fd (zdata ?u) # UnzReadCurrentFile 8192 # h"
    let ?n = "length (zdata ?u)"
    have d: "zret ?u = int ?n" "take ?n (drop (zip_off w h) ?data) = zdata ?u" using rest block(1) by (simp_all add: delivers_def)
    have n: "0 < ?n" "zip_off w h + ?n \<le> length ?data"
    proof -
      have "0 < int ?n" using block(1) d(1) by linarith
      then show "0 < ?n" by simp
      have "min (length ?data - zip_off w h) ?n = ?n" using arg_cong[OF d(2), of length] by (simp add: min.commute)
      then show "zip_off w h + ?n \<le> length ?data" using less.prems(2) by linarith
    qed
    have off: "zip_off w ?h = zip_off w h + ?n" using d(1) by simp
    have files: "files_written w ?h = (fd, p, take (zip_off w ?h) ?data) # fs"
      using less.prems(4) d block by (simp add: off take_add)
    have "extract_iter w fd (s, h) = (Some (zret ?u), ?h)" using block by (simp add: extract_iter_def Let_def)
    moreover have "length ?data - zip_off w ?h < length ?data - zip_off w h" using n unfolding off by linarith
    from less.hyps[OF this _ _ _ files, of "Some (zret ?u)"] less.prems(1) n block(1)
    have "\<exists>r h'. while_option (\<lambda>(r, h). r = None \<or> the r > 0) (extract_iter w fd) (Some (zret ?u), ?h) = Some (Some r, h') \<and> zip_pos h' = i
        \<and> (0 \<le> r \<longrightarrow> files_written w h' = (fd, p, zm_data (ms ! i)) # fs) \<and> (readable w \<and> obliging w \<longrightarrow> 0 \<le> r)"
      unfolding off by simp
    ultimately show ?thesis unfolding step by simp
  qed
qed

text \<open>One entry.\<close>

definition member_files :: "zip_member list \<Rightarrow> (string \<times> u8 list) list" where
  "member_files ms = rev (map (\<lambda>m. (''/apps/'' @ zm_name m, zm_data m)) (filter (\<lambda>m. zm_size m > 0) ms))"

lemma extract_entry_copies:
  assumes "archive w ms" and "zip_pos h < length ms" and "describes fi (ms ! zip_pos h)"
  shows "\<exists>ok h'. extract_entry w fi live (UnzGetCurrentFileInfo # h) = (ok, live, h') \<and> zip_pos h' = zip_pos h
    \<and> (ok \<longrightarrow> (\<exists>fs. files_written w h' = fs @ files_written w h \<and> map snd fs = member_files [ms ! zip_pos h]))
    \<and> (readable w \<and> obliging w \<longrightarrow> ok)"
proof (cases "zsize fi > 0")
  case False
  then have "zm_size (ms ! zip_pos h) = 0" using assms(3) by (metis describes_def word_neq_0_conv)
  then show ?thesis using False by (auto simp: extract_entry_def member_files_def)
next
  case True
  then have m: "member_files [ms ! zip_pos h] = [(''/apps/'' @ zname fi, zm_data (ms ! zip_pos h))]"
    using assms(3) by (simp add: member_files_def describes_def)
  define path where "path = ''/apps/'' @ zname fi"
  let ?h0 = "UnzGetCurrentFileInfo # h"
  let ?h1 = "UnzOpenCurrentFile # ?h0"
  obtain res h2 where dir: "mkdir_hier w (dir_part path) ?h1 = (res, h2)" by fastforce
  note frame = mkdir_hier_frame[OF dir, simplified]
  define fd where "fd = zret (w h2 (OpenTrunc path))"
  consider (fail) "zret (w ?h0 UnzOpenCurrentFile) \<noteq> 0 \<or> res \<noteq> 0 \<or> fd < 0"
    | (go) "zret (w ?h0 UnzOpenCurrentFile) = 0" "res = 0" "0 \<le> fd" by linarith
  then show ?thesis
  proof cases
    case fail
    then have "\<not> (readable w \<and> obliging w)" using frame by (auto simp: readable_def obliging_def fd_def not_le)
    moreover have "\<exists>h'. extract_entry w fi live ?h0 = (False, live, h') \<and> zip_pos h' = zip_pos h"
      using fail True dir frame by (auto simp: extract_entry_def Let_def path_def fd_def)
    ultimately show ?thesis by blast
  next
    case go
    let ?h3 = "OpenTrunc path # h2"
    have off: "zip_off w ?h3 = 0" "zip_pos ?h3 = zip_pos h" using frame by simp_all
    have "files_written w ?h3 = (fd, path, take (zip_off w ?h3) (zm_data (ms ! zip_pos h))) # files_written w h"
      using go(3) frame off by (simp add: fd_def)
    moreover have "zip_off w ?h3 \<le> length (zm_data (ms ! zip_pos h))" unfolding off by simp
    ultimately obtain r h4 where
      "while_option (\<lambda>(r, h). r = None \<or> the r > 0) (extract_iter w fd) (None, ?h3) = Some (Some r, h4)" and x: "zip_pos h4 = zip_pos h"
        "0 \<le> r \<longrightarrow> files_written w h4 = (fd, path, zm_data (ms ! zip_pos h)) # files_written w h" "readable w \<and> obliging w \<longrightarrow> 0 \<le> r"
      using extract_blocks[OF assms(1,2) off(2), of None] by blast
    then have "extract_file w fd ?h3 = Some (r, h4)" by (simp add: extract_file_def)
    note x = this x
    have "extract_entry w fi live ?h0 = (0 \<le> r, live, UnzCloseCurrentFile # CloseFile fd # h4)"
      using go x(1) True dir by (simp add: extract_entry_def Let_def path_def fd_def)
    then show ?thesis using x m by (auto simp: path_def)
  qed
qed

lemma zip_entries_copies:
  assumes "archive w ms"
  shows "zip_pos h + n = length ms \<Longrightarrow>
    \<exists>ok h'. zip_entries w (extract_entry w) n live h = (ok, live, h')
      \<and> (ok \<longrightarrow> (\<exists>fs. files_written w h' = fs @ files_written w h \<and> map snd fs = member_files (drop (zip_pos h) ms)))
      \<and> (readable w \<and> obliging w \<longrightarrow> ok)"
proof (induction n arbitrary: h)
  case 0
  then show ?case by (auto simp: member_files_def)
next
  case (Suc n)
  let ?u = "w h UnzGetCurrentFileInfo"
  have lt: "zip_pos h < length ms" using Suc.prems by simp
  show ?case
  proof (cases "zret ?u = 0")
    case False
    then have "\<not> readable w" by (auto simp: readable_def)
    moreover have "zip_entries w (extract_entry w) (Suc n) live h = (False, live, UnzGetCurrentFileInfo # h)"
      using False by (simp add: Let_def)
    ultimately show ?thesis by blast
  next
    case True
    then have "describes ?u (ms ! zip_pos h)" using assms lt by (simp add: archive_def)
    from extract_entry_copies[OF assms lt this, of live] obtain ok h1 where
      e: "extract_entry w ?u live (UnzGetCurrentFileInfo # h) = (ok, live, h1)" "zip_pos h1 = zip_pos h"
        "ok \<longrightarrow> (\<exists>fs. files_written w h1 = fs @ files_written w h \<and> map snd fs = member_files [ms ! zip_pos h])"
        "readable w \<and> obliging w \<longrightarrow> ok"
      by blast
    have drop: "member_files (drop (zip_pos h) ms) = member_files (drop (Suc (zip_pos h)) ms) @ member_files [ms ! zip_pos h]"
      unfolding Cons_nth_drop_Suc[OF lt, symmetric] by (simp add: member_files_def)
    consider (stop) "\<not> ok" | (last) "ok" "n = 0" | (stuck) "ok" "n \<noteq> 0" "zret (w h1 UnzGoToNextFile) \<noteq> 0"
      | (go) "ok" "n \<noteq> 0" "zret (w h1 UnzGoToNextFile) = 0" by blast
    then show ?thesis
    proof cases
      case stop
      then show ?thesis using True e by (intro exI[of _ False] exI[of _ h1]) (simp add: Let_def)
    next
      case last
      then have "member_files (drop (Suc (zip_pos h)) ms) = []" using Suc.prems by (simp add: member_files_def)
      then show ?thesis using True e last by (intro exI[of _ True] exI[of _ h1]) (simp add: Let_def drop)
    next
      case stuck
      then have "\<not> readable w" by (auto simp: readable_def)
      then show ?thesis using True e stuck by (intro exI[of _ False] exI[of _ "UnzGoToNextFile # h1"]) (simp add: Let_def)
    next
      case go
      have "zip_pos (UnzGoToNextFile # h1) + n = length ms" using Suc.prems e(2) by simp
      from Suc.IH[OF this] obtain ok2 h2 where
        r: "zip_entries w (extract_entry w) n live (UnzGoToNextFile # h1) = (ok2, live, h2)"
          "ok2 \<longrightarrow> (\<exists>fs. files_written w h2 = fs @ files_written w h1 \<and> map snd fs = member_files (drop (Suc (zip_pos h)) ms))"
          "readable w \<and> obliging w \<longrightarrow> ok2"
        using e(2) by auto
      have run: "zip_entries w (extract_entry w) (Suc n) live h = (ok2, live, h2)" using True e(1) go r(1) by (simp add: Let_def)
      have "\<exists>fs. files_written w h2 = fs @ files_written w h \<and> map snd fs = member_files (drop (zip_pos h) ms)" if ok2: ok2
      proof -
        obtain f1 f2 where "files_written w h1 = f1 @ files_written w h" "map snd f1 = member_files [ms ! zip_pos h]"
            "files_written w h2 = f2 @ files_written w h1" "map snd f2 = member_files (drop (Suc (zip_pos h)) ms)"
          using e(3) r(2) go(1) ok2 by blast
        then show ?thesis unfolding drop by (intro exI[of _ "f2 @ f1"]) simp
      qed
      with run r(3) show ?thesis by blast
    qed
  qed
qed

text \<open>
  C23: Extracting an archive returns. When it reports success, the files it has opened for writing are the nonempty members
  of the archive, all of them, in their order, each below \<^verbatim>\<open>/apps\<close> under its name and with its complete contents; and it does
  report success when neither the reader nor the file system fails.
\<close>

theorem extract_zip_copies:
  assumes "archive w ms"
  shows "\<exists>ok h'. manage_extract_zip w h = Some (ok, h')
    \<and> (ok \<longrightarrow> (\<exists>fs. files_written w h' = fs @ files_written w h
        \<and> map snd fs = rev (map (\<lambda>m. (''/apps/'' @ zm_name m, zm_data m)) (filter (\<lambda>m. zm_size m > 0) ms))))
    \<and> (readable w \<and> obliging w \<longrightarrow> ok)"
proof -
  let ?gi = "w (UnzOpen # h) UnzGetGlobalInfo" and ?h2 = "UnzGetGlobalInfo # UnzOpen # h"
  show ?thesis
  proof (cases "zret (w h UnzOpen) = 0 \<or> zret ?gi \<noteq> 0")
    case True
    then have "\<not> readable w" by (auto simp: readable_def)
    then show ?thesis using True by (auto simp: manage_extract_zip_def Let_def)
  next
    case False
    then have "zip_pos ?h2 + unat (znumber ?gi) = length ms" using assms by (simp add: archive_def)
    from zip_entries_copies[OF assms this, of True] obtain ok h3 where
      r: "zip_entries w (extract_entry w) (unat (znumber ?gi)) True ?h2 = (ok, True, h3)"
        "ok \<longrightarrow> (\<exists>fs. files_written w h3 = fs @ files_written w h \<and> map snd fs = member_files ms)" "readable w \<and> obliging w \<longrightarrow> ok"
      by auto
    have "manage_extract_zip w h = Some (ok, UnzClose # h3)" using False r(1) by (simp add: manage_extract_zip_def Let_def)
    then show ?thesis using r(2,3) by (simp add: member_files_def)
  qed
qed

section \<open>Runs\<close>

text \<open>A reader of the given members, on a file system where everything works.\<close>

fun reader_off :: "zip_member list \<Rightarrow> zip_call list \<Rightarrow> nat" where
  "reader_off ms [] = 0"
| "reader_off ms (UnzOpenCurrentFile # h) = 0"
| "reader_off ms (UnzReadCurrentFile n # h) =
     reader_off ms h + length (take (unat n) (drop (reader_off ms h) (zm_data (ms ! zip_pos h))))"
| "reader_off ms (e # h) = reader_off ms h"

definition archive_world :: "zip_member list \<Rightarrow> zip_world" where
  "archive_world ms h e =
     (let m = ms ! zip_pos h; chunk = (\<lambda>n. take (unat n) (drop (reader_off ms h) (zm_data m))) in
      \<lparr>zret = (case e of UnzOpen \<Rightarrow> 1 | OpenTrunc p \<Rightarrow> 3 | WriteFile fd bs \<Rightarrow> int (length bs)
         | UnzReadCurrentFile n \<Rightarrow> int (length (chunk n)) | _ \<Rightarrow> 0),
       zdir = True, znumber = word_of_nat (length ms), zname = zm_name m, zflag = zm_flag m, zsize = zm_size m,
       zdata = (case e of UnzReadCurrentFile n \<Rightarrow> chunk n | _ \<Rightarrow> [])\<rparr>)"

lemma archive_world_off: "zip_off (archive_world ms) h = reader_off ms h"
  by (induction ms h rule: reader_off.induct) (simp_all add: archive_world_def Let_def)

lemma archive_world_ok:
  assumes "length ms < 2 ^ 32"
  shows "archive (archive_world ms) ms" "readable (archive_world ms)" "obliging (archive_world ms)"
proof -
  have "unat (word_of_nat (length ms) :: u32) = length ms" using assms by (simp add: unat_of_nat)
  then show "archive (archive_world ms) ms"
    unfolding archive_def archive_world_off
    by (auto simp: archive_world_def Let_def describes_def delivers_def unat_eq_0 min_def)
qed (simp_all add: archive_world_def Let_def readable_def obliging_def)

definition demo_member :: "string \<Rightarrow> u8 list \<Rightarrow> zip_member" where
  "demo_member n d = \<lparr>zm_name = n, zm_flag = 0, zm_size = word_of_nat (length d), zm_data = d\<rparr>"

definition demo_app :: "zip_member list" where
  "demo_app = [demo_member ''a/'' [], demo_member ''a/boot.dol'' [1, 2, 3], demo_member ''a/icon.png'' [4, 5]]"

lemma first_dir: "d @ CHR ''/'' # f = e @ CHR ''/'' # g \<Longrightarrow> CHR ''/'' \<notin> set d \<Longrightarrow> CHR ''/'' \<notin> set e \<Longrightarrow> d = e"
proof -
  assume eq: "d @ CHR ''/'' # f = e @ CHR ''/'' # g" and d: "CHR ''/'' \<notin> set d" "CHR ''/'' \<notin> set e"
  have "takeWhile (\<lambda>c. c \<noteq> CHR ''/'') (d @ CHR ''/'' # f) = d" "takeWhile (\<lambda>c. c \<noteq> CHR ''/'') (e @ CHR ''/'' # g) = e"
    using d by (auto simp: takeWhile_append)
  then show "d = e" using eq by simp
qed

lemma demo_app_archive: "app_archive d demo_app \<longleftrightarrow> d = ''a''"
proof
  assume "app_archive d demo_app"
  then obtain f where "''a'' @ CHR ''/'' # ''boot.dol'' = d @ CHR ''/'' # f" "CHR ''/'' \<notin> set d"
    by (auto simp: app_archive_def demo_app_def demo_member_def)
  then show "d = ''a''" using first_dir[of "''a''" "''boot.dol''" d f] by simp
qed (simp add: app_archive_def demo_app_def demo_member_def bad_name_def names_boot_def names_theme_def lower_def)

lemma two_directories: "\<not> app_archive d (demo_member ''b/x'' [6] # demo_app)"
proof
  assume a: "app_archive d (demo_member ''b/x'' [6] # demo_app)"
  then obtain f g where "''a'' @ CHR ''/'' # ''boot.dol'' = d @ CHR ''/'' # f" "''b'' @ CHR ''/'' # ''x'' = d @ CHR ''/'' # g" "CHR ''/'' \<notin> set d"
    by (auto simp: app_archive_def demo_app_def demo_member_def)
  then have "d = ''a''" "d = ''b''" using first_dir[of "''a''" "''boot.dol''" d f] first_dir[of "''b''" "''x''" d g] by simp_all
  then show False by simp
qed

theorem check_zip_app_accepts_witness:
  "(\<exists>s h'. manage_check_zip_app (archive_world demo_app) scan_start [] = (True, s, h') \<and> sc_dirname s = ''a'' \<and> sc_bytes s = 5)
    \<and> \<not> fst (manage_check_zip_app (archive_world (demo_member ''b/x'' [6] # demo_app)) scan_start [])"
proof -
  have len: "length demo_app = 3" "length (demo_member ''b/x'' [6] # demo_app) = 4" by (simp_all add: demo_app_def)
  have bytes: "sum_list (map zm_size demo_app) = 5" by (simp add: demo_app_def demo_member_def)
  note ok = archive_world_ok[of demo_app, unfolded len, simplified]
    and two = archive_world_ok[of "demo_member ''b/x'' [6] # demo_app", unfolded len, simplified]
  from check_zip_app_accepts[OF ok(1,2), of scan_start "[]"] check_zip_app_accepts[OF two(1,2), of scan_start "[]"]
  show ?thesis unfolding demo_app_archive len bytes using two_directories by auto
qed

theorem extract_zip_copies_witness:
  "\<exists>h' fs. manage_extract_zip (archive_world demo_app) [] = Some (True, h') \<and> files_written (archive_world demo_app) h' = fs
     \<and> map snd fs = [(''/apps/a/icon.png'', [4, 5]), (''/apps/a/boot.dol'', [1, 2, 3])]"
proof -
  have "length demo_app < 2 ^ 32" by (simp add: demo_app_def)
  note a = archive_world_ok[OF this]
  from extract_zip_copies[OF a(1), of "[]"] a(2,3) show ?thesis by (auto simp: demo_app_def demo_member_def)
qed

text \<open>An archive of two entries of five bytes each.\<close>

definition two_entries :: "string \<Rightarrow> string \<Rightarrow> zip_world" where
  "two_entries n1 n2 h e =
     \<lparr>zret = (case e of UnzOpen \<Rightarrow> 1 | OpenTrunc p \<Rightarrow> 3 | WriteFile fd bs \<Rightarrow> int (length bs)
         | UnzReadCurrentFile n \<Rightarrow> (case h of OpenTrunc p # k \<Rightarrow> 5 | _ \<Rightarrow> 0) | _ \<Rightarrow> 0),
      zdir = True, znumber = 2, zname = (if UnzGoToNextFile \<in> set h then n2 else n1), zflag = 0, zsize = 5,
      zdata = [1, 2, 3, 4, 5]\<rparr>"

lemma zip_entries_2: "zip_entries w f 2 s h = zip_entries w f (Suc (Suc 0)) s h"
  by (simp only: numeral_2_eq_2)

text \<open>
  The names are checked for separators only: an archive whose common directory is \<^verbatim>\<open>..\<close> is accepted, and
  its files are written outside \<^verbatim>\<open>/apps\<close>.
\<close>

lemma parent_directory_accepted:
  "\<exists>s h'. manage_check_zip_app (two_entries ''../boot.dol'' ''../x'') s0 [] = (True, s, h') \<and> sc_dirname s = ''..''"
  by (simp add: manage_check_zip_app_def two_entries_def Let_def check_app_entry_def bad_name_def
      app_entry_name_def lower_def zip_entries_2)

end
