(* ===== verification/Loader.thy ===== *)
theory Loader
  imports Tcp Reloc Blob Manage
begin

text \<open>
  \<^verbatim>\<open>channelapp/source/loader.c\<close>: the two threads that wait for an upload over USB Gecko or TCP, the thread
  that reads an application into memory, and \<^verbatim>\<open>loader_load\<close>, which sets it up and classifies the result.
  A thread sleeps on its condition variable with its mutex released, so one wake-up is one function of
  the state: it handles the command it was given and all commands it gives itself. The calls are those
  of \<open>Tcp\<close>; the archive reader and zlib's \<^verbatim>\<open>uncompress\<close> are parameters.
\<close>

section \<open>The upload request\<close>

definition WIILOAD_MIN_VERSION :: u16 where "WIILOAD_MIN_VERSION = 0x0005"
definition LD_TCP_PORT :: u16 where "LD_TCP_PORT = 4299"
definition LD_TIMEOUT :: int where "LD_TIMEOUT = 3000"
definition EBUSY :: int where "EBUSY = 16"
definition ENETRESET :: int where "ENETRESET = 126"

definition buf_u16 :: "u8 list \<Rightarrow> nat \<Rightarrow> u16" where
  "buf_u16 buf pos = push_bit 8 (ucast (buf ! pos)) OR ucast (buf ! (pos + 1))"

definition buf_u32 :: "u8 list \<Rightarrow> nat \<Rightarrow> u32" where
  "buf_u32 buf pos = push_bit 24 (ucast (buf ! pos)) OR push_bit 16 (ucast (buf ! (pos + 1)))
     OR push_bit 8 (ucast (buf ! (pos + 2))) OR ucast (buf ! (pos + 3))"

text \<open>The fields both threads take from the sixteen bytes, and the test they share.\<close>

record request =
  rq_args_len :: u16
  rq_data_len :: u32
  rq_data_len_un :: u32

definition request_fields :: "u8 list \<Rightarrow> request" where
  "request_fields buf =
     \<lparr>rq_args_len = buf_u16 buf 6, rq_data_len = buf_u32 buf 8, rq_data_len_un = buf_u32 buf 12\<rparr>"

definition invalid_request :: "u8 list \<Rightarrow> bool" where
  "invalid_request buf \<longleftrightarrow>
     (let wiiload_version = buf_u16 buf 4; rq = request_fields buf
      in take 4 buf \<noteq> [0x48, 0x41, 0x58, 0x58]
         \<or> wiiload_version < WIILOAD_MIN_VERSION
         \<or> ucast (rq_args_len rq) > ARGS_MAX_LEN
         \<or> rq_data_len rq = 0 \<or> rq_data_len rq > LD_MAX_SIZE
         \<or> rq_data_len_un rq > LD_MAX_SIZE)"

section \<open>The USB Gecko thread\<close>

datatype ld_gecko_cmd = LDGECKOCMD_IDLE | LDGECKOCMD_EXIT | LDGECKOCMD_POLL

record ld_gecko_arg =
  lg_running :: bool
  lg_handshaked :: bool
  lg_cmd :: ld_gecko_cmd
  lg_data_len :: u32
  lg_data_len_un :: u32
  lg_args_len :: u16

text \<open>
  Receiving the request: the bytes so far and whether the timeout has struck. \<^verbatim>\<open>usb_recvbuffer_safe_ex\<close>
  delivers some bytes or none.
\<close>

definition gecko_recv_iter ::
  "net_world \<Rightarrow> clock \<Rightarrow> int \<Rightarrow> bool \<times> u8 list \<times> net_call list \<Rightarrow> bool \<times> u8 list \<times> net_call list" where
  "gecko_recv_iter w elapsed t = (\<lambda>(_, buf, h).
     let e = UsbRecv (16 - of_nat (length buf)); r = w h e; h1 = e # h
     in if nret r \<noteq> 0 then (False, buf @ nbytes r, h1)
        else (elapsed t (ntime (w h1 Gettime)) > LD_TIMEOUT, buf, Gettime # h1))"

definition gecko_recv ::
  "net_world \<Rightarrow> clock \<Rightarrow> net_call list \<Rightarrow> (u8 list \<times> net_call list) option" where
  "gecko_recv w elapsed h =
     map_option snd
       (while_option (\<lambda>(late, buf, h). \<not> late \<and> length buf \<noteq> 16)
          (gecko_recv_iter w elapsed (ntime (w h Gettime))) (False, [], Gettime # h))"

definition gecko_poll ::
  "net_world \<Rightarrow> clock \<Rightarrow> ld_gecko_arg \<Rightarrow> net_call list \<Rightarrow> (ld_gecko_arg \<times> net_call list) option" where
  "gecko_poll w elapsed ta h =
     (let ta1 = ta\<lparr>lg_cmd := LDGECKOCMD_IDLE, lg_handshaked := False\<rparr>
      in case gecko_recv w elapsed h of
           None \<Rightarrow> None
         | Some (buf, h1) \<Rightarrow>
             if length buf \<noteq> 16 then Some (ta1, h1)
             else
               let rq = request_fields buf;
                   ta2 = ta1\<lparr>lg_args_len := rq_args_len rq, lg_data_len := rq_data_len rq,
                             lg_data_len_un := rq_data_len_un rq\<rparr>
               in Some (if invalid_request buf then ta2 else ta2\<lparr>lg_handshaked := True\<rparr>, h1))"

text \<open>
  One wake-up; the flush at the top of the loop, before the thread sleeps again, throws away whatever
  has arrived behind the request.
\<close>

definition gecko_wake ::
  "net_world \<Rightarrow> clock \<Rightarrow> ld_gecko_arg \<Rightarrow> net_call list \<Rightarrow> (ld_gecko_arg \<times> net_call list) option" where
  "gecko_wake w elapsed ta h =
     (if lg_cmd ta = LDGECKOCMD_IDLE then Some (ta, h)
      else if lg_cmd ta = LDGECKOCMD_EXIT then Some (ta\<lparr>lg_running := False\<rparr>, h)
      else map_option (\<lambda>(ta', h'). (ta', UsbFlush # h')) (gecko_poll w elapsed ta h))"

definition ld_gecko_start :: "ld_gecko_arg \<Rightarrow> net_call list \<Rightarrow> ld_gecko_arg \<times> net_call list" where
  "ld_gecko_start ta h = (ta\<lparr>lg_running := True\<rparr>, UsbFlush # h)"

section \<open>The TCP thread\<close>

datatype ld_tcp_cmd = LDTCPCMD_IDLE | LDTCPCMD_EXIT | LDTCPCMD_INIT | LDTCPCMD_ACCEPT
datatype ld_tcp_state = LDTCPS_UNINITIALIZED | LDTCPS_INITIALIZING | LDTCPS_INITIALIZED

text \<open>
  \<^verbatim>\<open>ld_tcp_arg\<close> with the two variables of the thread that outlive a command, the listening socket and the
  network mask. \<^verbatim>\<open>client\<close> is kept as the address \<^verbatim>\<open>inet_ntoa\<close> prints.
\<close>

record ld_tcp_arg =
  lt_running :: bool
  lt_cmd :: ld_tcp_cmd
  lt_state :: ld_tcp_state
  lt_handshaked :: bool
  lt_args_len :: u16
  lt_data_len :: u32
  lt_data_len_un :: u32
  lt_s :: int
  lt_client :: u32
  lt_listen :: int
  lt_mask :: u32

text \<open>Waiting for \<^verbatim>\<open>net_init_async\<close>; the thread holds its mutex, so the command cannot change meanwhile.\<close>

definition net_status_loop ::
  "net_world \<Rightarrow> ld_tcp_cmd \<Rightarrow> net_call list \<Rightarrow> (int \<times> net_call list) option" where
  "net_status_loop w cmd h =
     while_option (\<lambda>(res, h). res = - EBUSY)
       (\<lambda>(res, h). if cmd = LDTCPCMD_EXIT then (-1, h)
                   else (nret (w (Usleep # h) NetGetStatus), NetGetStatus # Usleep # h))
       (nret (w h NetGetStatus), NetGetStatus # h)"

text \<open>\<^verbatim>\<open>while (retries)\<close>: the result, the retries left and the calls.\<close>

fun net_init_tries ::
  "net_world \<Rightarrow> ld_tcp_cmd \<Rightarrow> int \<Rightarrow> nat \<Rightarrow> net_call list \<Rightarrow> (int \<times> nat \<times> net_call list) option"
where
  "net_init_tries w cmd res 0 h = Some (res, 0, h)"
| "net_init_tries w cmd res (Suc retries) h =
     (let res1 = nret (w h NetInitAsync); h1 = NetInitAsync # h
      in if res1 \<noteq> 0 then Some (res1, Suc retries, h1)
         else
           (case net_status_loop w cmd h1 of
              None \<Rightarrow> None
            | Some (res2, h2) \<Rightarrow>
                if res2 = - EAGAIN \<or> res2 = - ETIMEDOUT then net_init_tries w cmd res2 retries (Usleep # h2)
                else Some (res2, Suc retries, h2)))"

definition tcp_thread_init ::
  "net_world \<Rightarrow> ld_tcp_arg \<Rightarrow> net_call list \<Rightarrow> (ld_tcp_arg \<times> net_call list) option" where
  "tcp_thread_init w ta h0 =
     (let ta1 = ta\<lparr>lt_cmd := LDTCPCMD_IDLE\<rparr>;
          h1 = (if lt_state ta = LDTCPS_INITIALIZED then NetClose (lt_listen ta) # h0 else h0);
          ta2 = ta1\<lparr>lt_state := LDTCPS_INITIALIZING\<rparr>
      in case net_init_tries w (lt_cmd ta2) 0 32 h1 of
           None \<Rightarrow> None
         | Some (res, retries, h2) \<Rightarrow>
             if res < 0 then Some (ta2\<lparr>lt_state := LDTCPS_UNINITIALIZED\<rparr>, h2)
             else
               let mask = naddr (w h2 NetGethostip) AND 0xffff0000; h3 = NetGethostip # h2
               in case tcp_listen w LD_TCP_PORT 3 h3 of (s, h4) \<Rightarrow>
                    let ta3 = ta2\<lparr>lt_mask := mask, lt_listen := s\<rparr>
                    in if s = - ENETRESET \<and> retries \<noteq> 0 then Some (ta3\<lparr>lt_cmd := LDTCPCMD_INIT\<rparr>, NetDeinit # h4)
                       else if s < 0 then Some (ta3\<lparr>lt_state := LDTCPS_UNINITIALIZED\<rparr>, h4)
                       else Some (ta3\<lparr>lt_state := LDTCPS_INITIALIZED\<rparr>, h4))"

definition tcp_thread_accept ::
  "net_world \<Rightarrow> clock \<Rightarrow> ld_tcp_arg \<Rightarrow> net_call list \<Rightarrow> (ld_tcp_arg \<times> net_call list) option" where
  "tcp_thread_accept w elapsed ta h0 =
     (let ta1 = ta\<lparr>lt_cmd := LDTCPCMD_IDLE\<rparr>;
          e = NetAccept (lt_listen ta); sn = nret (w h0 e); addr = naddr (w h0 e); h1 = e # h0
      in if sn = - EAGAIN then Some (ta1, h1)
         else if sn = - ENETRESET then Some (ta1\<lparr>lt_cmd := LDTCPCMD_INIT\<rparr>, NetDeinit # h1)
         else if sn < 0 then Some (ta1\<lparr>lt_state := LDTCPS_UNINITIALIZED\<rparr>, NetClose (lt_listen ta) # h1)
         else if addr AND 0xffff0000 \<noteq> lt_mask ta then Some (ta1, NetClose sn # h1)
         else
           (case tcp_read w elapsed sn 16 False h1 of
              None \<Rightarrow> None
            | Some (ok, buf, h2) \<Rightarrow>
                if \<not> ok then Some (ta1, NetClose sn # h2)
                else
                  let rq = request_fields buf;
                      ta2 = ta1\<lparr>lt_args_len := rq_args_len rq, lt_data_len := rq_data_len rq,
                                lt_data_len_un := rq_data_len_un rq\<rparr>
                  in if invalid_request buf then Some (ta2, NetClose sn # h2)
                     else Some (ta2\<lparr>lt_s := sn, lt_client := addr, lt_handshaked := True\<rparr>, h2)))"

definition tcp_thread_exit :: "ld_tcp_arg \<Rightarrow> net_call list \<Rightarrow> ld_tcp_arg \<times> net_call list" where
  "tcp_thread_exit ta h =
     (let h1 = (if lt_state ta = LDTCPS_INITIALIZED then NetClose (lt_listen ta) # NetShutdown (lt_listen ta) 2 # h else h)
      in (ta\<lparr>lt_state := LDTCPS_UNINITIALIZED, lt_running := False\<rparr>, NetDeinit # h1))"

text \<open>One pass of the outer loop, and a wake-up: passes until the thread waits again or has ended.\<close>

definition tcp_pass ::
  "net_world \<Rightarrow> clock \<Rightarrow> ld_tcp_arg \<times> net_call list \<Rightarrow> (ld_tcp_arg \<times> net_call list) option" where
  "tcp_pass w elapsed = (\<lambda>(ta, h).
     let ta1 = ta\<lparr>lt_handshaked := False\<rparr>
     in case lt_cmd ta of
          LDTCPCMD_IDLE \<Rightarrow> Some (ta, h)
        | LDTCPCMD_EXIT \<Rightarrow> Some (tcp_thread_exit ta1 h)
        | LDTCPCMD_INIT \<Rightarrow> tcp_thread_init w ta1 h
        | LDTCPCMD_ACCEPT \<Rightarrow> tcp_thread_accept w elapsed ta1 h)"

definition tcp_busy :: "ld_tcp_arg \<Rightarrow> bool" where
  "tcp_busy ta \<longleftrightarrow> lt_running ta \<and> lt_cmd ta \<noteq> LDTCPCMD_IDLE"

definition tcp_wake ::
  "net_world \<Rightarrow> clock \<Rightarrow> ld_tcp_arg \<Rightarrow> net_call list \<Rightarrow> (ld_tcp_arg \<times> net_call list) option" where
  "tcp_wake w elapsed ta h =
     Option.bind
       (while_option (\<lambda>x. case x of None \<Rightarrow> False | Some (ta, h) \<Rightarrow> tcp_busy ta)
          (\<lambda>x. Option.bind x (tcp_pass w elapsed)) (Some (ta, h)))
       (\<lambda>x. x)"

text \<open>The thread starts with a command to itself.\<close>

definition ld_tcp_start :: "ld_tcp_arg \<Rightarrow> ld_tcp_arg" where
  "ld_tcp_start ta = ta\<lparr>lt_running := True, lt_cmd := LDTCPCMD_INIT, lt_state := LDTCPS_UNINITIALIZED,
     lt_handshaked := False, lt_listen := -1, lt_mask := 0\<rparr>"


section \<open>Commands to the threads\<close>

text \<open>The file-scope arguments of both threads.\<close>

record ld_threads =
  ta_gecko :: ld_gecko_arg
  ta_tcp :: ld_tcp_arg

definition gecko_zero :: ld_gecko_arg where
  "gecko_zero = \<lparr>lg_running = False, lg_handshaked = False, lg_cmd = LDGECKOCMD_IDLE, lg_data_len = 0,
     lg_data_len_un = 0, lg_args_len = 0\<rparr>"

definition tcp_zero :: ld_tcp_arg where
  "tcp_zero = \<lparr>lt_running = False, lt_cmd = LDTCPCMD_IDLE, lt_state = LDTCPS_UNINITIALIZED,
     lt_handshaked = False, lt_args_len = 0, lt_data_len = 0, lt_data_len_un = 0, lt_s = 0, lt_client = 0,
     lt_listen = -1, lt_mask = 0\<rparr>"

text \<open>A mutex, a condition variable and a thread; the thread runs if the last result is 0.\<close>

definition spawn :: "net_world \<Rightarrow> net_call list \<Rightarrow> bool \<times> bool \<times> net_call list" where
  "spawn w h0 =
     (if nret (w h0 MutexInit) \<noteq> 0 then (False, False, MutexInit # h0)
      else let h1 = MutexInit # h0
           in if nret (w h1 CondInit) \<noteq> 0 then (False, False, CondInit # h1)
              else let h2 = CondInit # h1 in (True, nret (w h2 CreateThread) = 0, CreateThread # h2))"

text \<open>A failure of the Gecko part returns before the TCP part is reached.\<close>

definition loader_init :: "net_world \<Rightarrow> ld_threads \<Rightarrow> net_call list \<Rightarrow> ld_threads \<times> net_call list" where
  "loader_init w ld h0 =
     (let alive = nret (w h0 UsbIsGeckoAlive) \<noteq> 0; h1 = UsbIsGeckoAlive # h0;
          (ok, ld1, h2) =
            (if alive then
               (case spawn w h1 of (ok, run, h) \<Rightarrow>
                  (case (if run then ld_gecko_start gecko_zero h else (gecko_zero, h)) of
                     (g, h') \<Rightarrow> (ok, ld\<lparr>ta_gecko := g\<rparr>, h')))
             else (True, ld, h1))
      in if \<not> ok then (ld1, h2)
         else
           (case spawn w h2 of (ok2, run2, h3) \<Rightarrow>
              (ld1\<lparr>ta_tcp := if run2 then ld_tcp_start tcp_zero else tcp_zero\<rparr>, h3)))"

text \<open>Up to \<open>n\<close> attempts at a lock.\<close>

fun try_lock :: "net_world \<Rightarrow> net_call \<Rightarrow> nat \<Rightarrow> net_call list \<Rightarrow> bool \<times> net_call list" where
  "try_lock w e 0 h = (False, h)"
| "try_lock w e (Suc n) h =
     (if nret (w h e) = 0 then (True, e # h) else try_lock w e n (Usleep # e # h))"

text \<open>Stopping a thread: the exit command is given under the lock, and the thread runs until it has ended.\<close>

definition stop_tcp :: "net_world \<Rightarrow> clock \<Rightarrow> ld_tcp_arg \<Rightarrow> net_call list \<Rightarrow> (ld_tcp_arg \<times> net_call list) option" where
  "stop_tcp w elapsed ta h =
     (if \<not> lt_running ta then Some (ta, h)
      else
        (case try_lock w TryLockTcp 25 h of (locked, h1) \<Rightarrow>
           if \<not> locked then Some (ta, h1)
           else map_option (\<lambda>(ta', h2). (ta', snd (try_lock w TryLockTcp 25 h2)))
                  (tcp_wake w elapsed (ta\<lparr>lt_cmd := LDTCPCMD_EXIT\<rparr>) h1)))"

definition stop_gecko :: "net_world \<Rightarrow> clock \<Rightarrow> ld_gecko_arg \<Rightarrow> net_call list \<Rightarrow> (ld_gecko_arg \<times> net_call list) option" where
  "stop_gecko w elapsed ta h =
     (if \<not> lg_running ta then Some (ta, h)
      else
        (case try_lock w TryLockGecko 25 h of (locked, h1) \<Rightarrow>
           if \<not> locked then Some (ta, h1) else gecko_wake w elapsed (ta\<lparr>lg_cmd := LDGECKOCMD_EXIT\<rparr>) h1))"

definition loader_deinit :: "net_world \<Rightarrow> clock \<Rightarrow> ld_threads \<Rightarrow> net_call list \<Rightarrow> (ld_threads \<times> net_call list) option" where
  "loader_deinit w elapsed ld h =
     Option.bind (stop_tcp w elapsed (ta_tcp ld) h) (\<lambda>(t, h1).
     Option.bind (stop_gecko w elapsed (ta_gecko ld) h1) (\<lambda>(g, h2).
     Some (ld\<lparr>ta_tcp := t, ta_gecko := g\<rparr>, h2)))"

definition loader_gecko_initialized :: "ld_threads \<Rightarrow> bool" where
  "loader_gecko_initialized ld = lg_running (ta_gecko ld)"

definition loader_tcp_initializing :: "ld_threads \<Rightarrow> bool" where
  "loader_tcp_initializing ld \<longleftrightarrow> lt_running (ta_tcp ld) \<and> lt_state (ta_tcp ld) = LDTCPS_INITIALIZING"

definition loader_tcp_initialized :: "ld_threads \<Rightarrow> bool" where
  "loader_tcp_initialized ld \<longleftrightarrow> lt_running (ta_tcp ld) \<and> lt_state (ta_tcp ld) = LDTCPS_INITIALIZED"

text \<open>These give commands; the threads handle them when they wake.\<close>

definition loader_tcp_init :: "net_world \<Rightarrow> ld_threads \<Rightarrow> net_call list \<Rightarrow> ld_threads \<times> net_call list" where
  "loader_tcp_init w ld h =
     (let h1 = TryLockTcp # h
      in if nret (w h TryLockTcp) \<noteq> 0 then (ld, h1)
         else if lt_running (ta_tcp ld) \<and> lt_state (ta_tcp ld) = LDTCPS_UNINITIALIZED
         then (ld\<lparr>ta_tcp := (ta_tcp ld)\<lparr>lt_cmd := LDTCPCMD_INIT\<rparr>\<rparr>, h1)
         else (ld, h1))"

definition loader_signal_threads :: "net_world \<Rightarrow> ld_threads \<Rightarrow> net_call list \<Rightarrow> ld_threads \<times> net_call list" where
  "loader_signal_threads w ld h =
     (let h1 = TryLockGecko # h;
          ld1 = (if nret (w h TryLockGecko) = 0 \<and> loader_gecko_initialized ld \<and> \<not> lg_handshaked (ta_gecko ld)
                 then ld\<lparr>ta_gecko := (ta_gecko ld)\<lparr>lg_cmd := LDGECKOCMD_POLL\<rparr>\<rparr> else ld);
          h2 = TryLockTcp # h1;
          ld2 = (if nret (w h1 TryLockTcp) = 0 \<and> loader_tcp_initialized ld1 \<and> \<not> lt_handshaked (ta_tcp ld1)
                 then ld1\<lparr>ta_tcp := (ta_tcp ld1)\<lparr>lt_cmd := LDTCPCMD_ACCEPT\<rparr>\<rparr> else ld1)
      in (ld2, h2))"

definition loader_handshaked :: "net_world \<Rightarrow> ld_threads \<Rightarrow> net_call list \<Rightarrow> bool \<times> net_call list" where
  "loader_handshaked w ld h =
     (let g = (nret (w h TryLockGecko) = 0 \<and> lg_running (ta_gecko ld) \<and> lg_handshaked (ta_gecko ld));
          h1 = TryLockGecko # h;
          t = (nret (w h1 TryLockTcp) = 0 \<and> lt_running (ta_tcp ld) \<and> lt_handshaked (ta_tcp ld))
      in (g \<or> t, TryLockTcp # h1))"


section \<open>The load thread\<close>

datatype ld_load_cmd = LDC_FILE | LDC_GECKO | LDC_TCP
datatype ld_load_state = LDS_RUNNING | LDS_SUCCESS | LDS_ERR_READ | LDS_ERR_RECEIVE | LDS_ERR_UNCOMPRESS

record ld_load_arg =
  la_cmd :: ld_load_cmd
  la_data_len :: u32
  la_data :: u32
  la_data_len_un :: u32
  la_data_un :: u32
  la_args_len :: u16
  la_fd :: int

text \<open>
  The variables of the loops over \<^verbatim>\<open>left\<close>: whether the thread has given up, the bytes left, the bytes
  placed at \<^verbatim>\<open>ta->data\<close>, the bytes since the last report and the time of that report.
\<close>

record load_loop =
  ll_failed :: bool
  ll_left :: u32
  ll_got :: "u8 list"
  ll_block :: u32
  ll_time :: int

definition file_block :: "u32 \<Rightarrow> u32" where
  "file_block left = (if sint left > 32 * 1024 then 32 * 1024 else left)"

definition file_iter ::
  "net_world \<Rightarrow> int \<Rightarrow> load_loop \<times> net_call list \<Rightarrow> load_loop \<times> net_call list" where
  "file_iter w fd = (\<lambda>(x, h).
     let e = FileRead fd (file_block (ll_left x)); r = w h e; h1 = e # h
     in if nret r < 0 then (x\<lparr>ll_failed := True\<rparr>, FileClose fd # h1)
        else
          let x1 = x\<lparr>ll_got := ll_got x @ nbytes r, ll_left := ll_left x - word_of_int (nret r)\<rparr>
          in (x1, Progress (of_nat (length (ll_got x1))) # h1))"

definition gecko_iter ::
  "net_world \<Rightarrow> clock \<Rightarrow> load_loop \<times> net_call list \<Rightarrow> load_loop \<times> net_call list" where
  "gecko_iter w elapsed = (\<lambda>(x, h).
     let e = UsbRecv (ll_left x); r = w h e; h1 = e # h;
         (x1, h2) =
           (if nret r \<noteq> 0 then
              let y = x\<lparr>ll_got := ll_got x @ nbytes r, ll_left := ll_left x - word_of_int (nret r),
                        ll_block := ll_block x + word_of_int (nret r)\<rparr>
              in if sint (ll_block y) \<ge> 1024 then
                   let k = Progress (of_nat (length (ll_got y))) # h1
                   in (y\<lparr>ll_block := 0, ll_time := ntime (w k Gettime)\<rparr>, Gettime # k)
                 else (y, h1)
            else (x, h1))
     in (x1\<lparr>ll_failed := elapsed (ll_time x1) (ntime (w h2 Gettime)) > LD_TIMEOUT\<rparr>, Gettime # h2))"

definition load_loop ::
  "(load_loop \<times> net_call list \<Rightarrow> load_loop \<times> net_call list) \<Rightarrow> load_loop \<Rightarrow> net_call list
     \<Rightarrow> (load_loop \<times> net_call list) option" where
  "load_loop iter x h = while_option (\<lambda>(x, h). \<not> ll_failed x \<and> ll_left x \<noteq> 0) iter (x, h)"

text \<open>The receiving half of the thread: its state afterwards, the bytes received and the calls.\<close>

definition ld_receive ::
  "net_world \<Rightarrow> clock \<Rightarrow> ld_load_arg \<Rightarrow> net_call list \<Rightarrow> (ld_load_state \<times> u8 list \<times> net_call list) option" where
  "ld_receive w elapsed ta h =
     (let left = la_data_len ta + ucast (la_args_len ta);
          x = \<lparr>ll_failed = False, ll_left = left, ll_got = [], ll_block = 0, ll_time = 0\<rparr>
      in case la_cmd ta of
           LDC_FILE \<Rightarrow>
             map_option (\<lambda>(y, h1). if ll_failed y then (LDS_ERR_READ, ll_got y, h1)
                                   else (LDS_RUNNING, ll_got y, FileClose (la_fd ta) # h1))
               (load_loop (file_iter w (la_fd ta)) x h)
         | LDC_GECKO \<Rightarrow>
             map_option (\<lambda>(y, h1). (if ll_failed y then LDS_ERR_RECEIVE else LDS_RUNNING, ll_got y, h1))
               (load_loop (gecko_iter w elapsed) (x\<lparr>ll_time := ntime (w h Gettime)\<rparr>) (Gettime # h))
         | LDC_TCP \<Rightarrow>
             map_option (\<lambda>(ok, got, h1). (if ok then LDS_RUNNING else LDS_ERR_RECEIVE, got, NetClose (la_fd ta) # h1))
               (tcp_read w elapsed (la_fd ta) left True h))"

text \<open>
  \<^verbatim>\<open>uncompress\<close> of zlib, given the room there is for its output: its result and the bytes it wrote.
\<close>

type_synonym uncompress = "u8 list \<Rightarrow> u32 \<Rightarrow> int \<times> u8 list"

definition ld_uncompress :: "uncompress \<Rightarrow> ld_load_arg \<Rightarrow> mem \<Rightarrow> ld_load_state \<times> mem" where
  "ld_uncompress uncompress ta m =
     (if la_data_un ta = 0 then (LDS_SUCCESS, m)
      else
        (case uncompress (mem_read m (la_data ta) (unat (la_data_len ta))) (la_data_len_un ta) of
           (res, out) \<Rightarrow>
             let m1 = mem_write m (la_data_un ta) out
             in if res \<noteq> 0 then (LDS_ERR_UNCOMPRESS, m1)
                else if of_nat (length out) \<noteq> la_data_len_un ta then (LDS_ERR_UNCOMPRESS, m1)
                else (LDS_SUCCESS, m1)))"

definition ld_load_func ::
  "net_world \<Rightarrow> clock \<Rightarrow> uncompress \<Rightarrow> ld_load_arg \<Rightarrow> mem \<Rightarrow> net_call list
     \<Rightarrow> (ld_load_state \<times> mem \<times> net_call list) option" where
  "ld_load_func w elapsed uncompress ta m h =
     (case ld_receive w elapsed ta h of
        None \<Rightarrow> None
      | Some (st, got, h1) \<Rightarrow>
          let m1 = mem_write m (la_data ta) got
          in if st \<noteq> LDS_RUNNING then Some (st, m1, h1)
             else (case ld_uncompress uncompress ta m1 of (st2, m2) \<Rightarrow> Some (st2, m2, h1)))"

section \<open>Loading an application\<close>

datatype loader_type = LT_UNKNOWN | LT_EXECUTABLE | LT_ZIP_APP | LT_ZIP_THEME

record loader_result =
  r_type :: loader_type
  r_data :: u32
  r_data_len :: u32
  r_args :: "u8 list"
  r_args_len :: u32
  r_dirname :: string
  r_bytes :: u32

definition no_result :: loader_result where
  "no_result = \<lparr>r_type = LT_UNKNOWN, r_data = 0, r_data_len = 0, r_args = [], r_args_len = 0,
     r_dirname = '''', r_bytes = 0\<rparr>"

text \<open>The message shown on an error.\<close>

datatype ld_text = Text_Err_Read | Text_Err_Receive | Text_Err_Uncompress | Text_Err_Invalid_Zip | Text_Err_Oom

text \<open>
  Where the application comes from: a selected entry, else a Gecko request, else a TCP request. The
  second component is the file name.
\<close>

definition load_source ::
  "net_world \<Rightarrow> ae_state \<Rightarrow> app_entry option \<Rightarrow> ld_threads \<Rightarrow> net_call list
     \<Rightarrow> (ld_load_arg \<times> string) option \<times> ld_threads \<times> net_call list" where
  "load_source w ae entry ld h0 =
     (let ta = \<lparr>la_cmd = LDC_FILE, la_data_len = 0, la_data = 0, la_data_len_un = 0, la_data_un = 0,
                la_args_len = 0, la_fd = 0\<rparr>;
          lock_g = (nret (w h0 TryLockGecko) = 0); h1 = TryLockGecko # h0;
          gecko_handshaked = (lock_g \<and> lg_handshaked (ta_gecko ld));
          ld1 = (if lock_g then ld\<lparr>ta_gecko := (ta_gecko ld)\<lparr>lg_cmd := LDGECKOCMD_IDLE\<rparr>\<rparr> else ld);
          lock_t = (nret (w h1 TryLockTcp) = 0); h2 = TryLockTcp # h1;
          tcp_handshaked = (lock_t \<and> lt_handshaked (ta_tcp ld1));
          ld2 = (if lock_t then ld1\<lparr>ta_gecko := (ta_gecko ld1)\<lparr>lg_cmd := LDGECKOCMD_IDLE\<rparr>\<rparr> else ld1)
      in case entry of
           Some e \<Rightarrow>
             (case app_entry_get_filename ae e of
                None \<Rightarrow> (None, ld2, h2)
              | Some filename \<Rightarrow>
                  let fd = nret (w h2 (FileOpen filename)); h3 = FileOpen filename # h2
                  in if fd < 0 then (None, ld2, h3)
                     else (Some (ta\<lparr>la_fd := fd, la_data_len := ae_size e\<rparr>, filename), ld2, h3))
         | None \<Rightarrow>
             if gecko_handshaked then
               let g = ta_gecko ld2
               in (Some (ta\<lparr>la_cmd := LDC_GECKO, la_data_len := lg_data_len g,
                            la_data_len_un := lg_data_len_un g, la_args_len := lg_args_len g\<rparr>, ''''),
                   ld2\<lparr>ta_gecko := g\<lparr>lg_handshaked := False\<rparr>\<rparr>, h2)
             else if tcp_handshaked then
               let t = ta_tcp ld2
               in (Some (ta\<lparr>la_cmd := LDC_TCP, la_data_len := lt_data_len t, la_data_len_un := lt_data_len_un t,
                            la_args_len := lt_args_len t, la_fd := lt_s t\<rparr>, ''''),
                   ld2\<lparr>ta_tcp := t\<lparr>lt_handshaked := False\<rparr>\<rparr>, h2)
             else (None, ld2, h2))"

text \<open>The two buffers; the flag is false when there is not enough memory.\<close>

definition alloc_buffers :: "ld_load_arg \<Rightarrow> arena \<Rightarrow> (bool \<times> ld_load_arg \<times> arena) ret" where
  "alloc_buffers ta a =
     bind_ret (if la_data_len_un ta \<noteq> 0 then blob_alloc (la_data_len_un ta) a else Ret (0, a)) (\<lambda>(p, a1).
       if la_data_len_un ta \<noteq> 0 \<and> p = 0 then Ret (False, ta, a1)
       else bind_ret (blob_alloc (la_data_len ta + ucast (la_args_len ta)) a1) (\<lambda>(q, a2).
         if q = 0 then bind_ret (blob_free p a2) (\<lambda>a3. Ret (False, ta\<lparr>la_data_un := p\<rparr>, a3))
         else Ret (True, ta\<lparr>la_data_un := p, la_data := q\<rparr>, a2)))"

definition load_alloc :: "ld_load_arg \<Rightarrow> arena \<Rightarrow> (bool \<times> ld_load_arg \<times> arena) ret" where
  "load_alloc ta a =
     alloc_buffers (if la_data_len ta = la_data_len_un ta then ta\<lparr>la_data_len_un := 0\<rparr> else ta) a"

definition load_close :: "ld_load_arg \<Rightarrow> net_call list \<Rightarrow> net_call list" where
  "load_close ta h = (if la_cmd ta = LDC_TCP then NetClose (la_fd ta) # h else h)"

text \<open>The arguments of an application that was read from a file: its path and those of \<^verbatim>\<open>meta.xml\<close>.\<close>

definition file_args :: "string \<Rightarrow> app_entry \<Rightarrow> u8 list" where
  "file_args filename e =
     map (\<lambda>c. of_nat (of_char c)) filename
       @ (case Option.bind (meta e) meta_args of None \<Rightarrow> [] | Some margs \<Rightarrow> 0 # margs) @ [0, 0]"

definition load_text :: "ld_load_state \<Rightarrow> ld_text option" where
  "load_text st = (case st of LDS_ERR_READ \<Rightarrow> Some Text_Err_Read | LDS_ERR_RECEIVE \<Rightarrow> Some Text_Err_Receive
     | LDS_ERR_UNCOMPRESS \<Rightarrow> Some Text_Err_Uncompress | _ \<Rightarrow> None)"

record load_end =
  le_result :: loader_result
  le_message :: "ld_text option"
  le_arena :: arena
  le_mem :: mem
  le_calls :: "net_call list"
  le_zip :: "zip_call list"

text \<open>What is done with the buffer once the thread has ended.\<close>

definition load_classify ::
  "zip_world \<Rightarrow> app_entry option \<Rightarrow> string \<Rightarrow> ld_load_arg \<Rightarrow> load_end \<Rightarrow> load_end ret" where
  "load_classify zw entry filename ta x =
     (let r = (le_result x)\<lparr>r_data := la_data ta, r_data_len := la_data_len ta\<rparr>
      in if la_cmd ta = LDC_FILE then
           (case entry of
              None \<Rightarrow> Panic
            | Some e \<Rightarrow>
                Ret (x\<lparr>le_result :=
                       (if ae_type e = AET_THEME then r\<lparr>r_type := LT_ZIP_THEME\<rparr>
                        else r\<lparr>r_type := LT_EXECUTABLE, r_args := file_args filename e,
                               r_args_len := of_nat (length (file_args filename e))\<rparr>)\<rparr>))
         else if manage_is_zip (mem_read (le_mem x) (la_data ta) 4) then
           (case manage_check_zip_app zw \<lparr>sc_dirname = '''', sc_bytes = 0, got_elf = False, got_dol = False,
                                          got_theme = False\<rparr> (le_zip x) of
              (app, sc, z1) \<Rightarrow>
                let r1 = r\<lparr>r_dirname := sc_dirname sc, r_bytes := sc_bytes sc\<rparr>
                in if app then Ret (x\<lparr>le_result := r1\<lparr>r_type := LT_ZIP_APP\<rparr>, le_zip := z1\<rparr>)
                   else
                     (case manage_check_zip_theme zw (la_data_len ta) z1 of
                        (thm, z2) \<Rightarrow>
                          if thm then Ret (x\<lparr>le_result := r1\<lparr>r_type := LT_ZIP_THEME\<rparr>, le_zip := z2\<rparr>)
                          else bind_ret (blob_free (la_data ta) (le_arena x)) (\<lambda>a.
                            Ret (x\<lparr>le_result := r1, le_message := Some Text_Err_Invalid_Zip, le_arena := a,
                                   le_zip := z2\<rparr>))))
         else Ret (x\<lparr>le_result := r\<lparr>r_type := LT_EXECUTABLE\<rparr>\<rparr>))"

text \<open>From the end of the thread on: arguments, the buffer that is no longer needed, errors.\<close>

definition load_finish ::
  "zip_world \<Rightarrow> app_entry option \<Rightarrow> string \<Rightarrow> ld_load_arg \<Rightarrow> ld_load_state \<Rightarrow> load_end \<Rightarrow> load_end ret" where
  "load_finish zw entry filename ta st x =
     bind_ret
       (if la_data_len_un ta \<noteq> 0 then
          let r = (if la_args_len ta \<noteq> 0 then
                     (le_result x)\<lparr>r_args := mem_read (le_mem x) (la_data ta + la_data_len ta) (unat (la_args_len ta)),
                                   r_args_len := ucast (la_args_len ta)\<rparr>
                   else le_result x)
          in bind_ret (blob_free (la_data ta) (le_arena x)) (\<lambda>a.
             Ret (ta\<lparr>la_data := la_data_un ta, la_data_len := la_data_len_un ta, la_data_un := 0,
                     la_data_len_un := 0\<rparr>, x\<lparr>le_result := r, le_arena := a\<rparr>))
        else Ret (ta, x))
       (\<lambda>(ta1, x1).
          case load_text st of
            Some text \<Rightarrow>
              bind_ret (blob_free (la_data ta1) (le_arena x1)) (\<lambda>a.
              Ret (x1\<lparr>le_message := Some text, le_arena := a\<rparr>))
          | None \<Rightarrow> load_classify zw entry filename ta1 x1)"

text \<open>
  \<open>None\<close> when the load thread never ends; \<open>Panic\<close> when the allocator or \<^verbatim>\<open>loader_load\<close> itself panics.
\<close>

definition loader_load ::
  "net_world \<Rightarrow> clock \<Rightarrow> uncompress \<Rightarrow> zip_world \<Rightarrow> ae_state \<Rightarrow> app_entry option \<Rightarrow> ld_threads \<Rightarrow> arena \<Rightarrow> mem
     \<Rightarrow> net_call list \<Rightarrow> zip_call list \<Rightarrow> (ld_threads \<times> load_end ret) option" where
  "loader_load w elapsed uncompress zw ae entry ld a m h z =
     (case load_source w ae entry ld h of
        (src, ld1, h1) \<Rightarrow>
          (case src of
             None \<Rightarrow> Some (ld1, Ret \<lparr>le_result = no_result, le_message = None, le_arena = a, le_mem = m,
                                    le_calls = h1, le_zip = z\<rparr>)
           | Some (ta0, filename) \<Rightarrow>
               (case load_alloc ta0 a of
                  Panic \<Rightarrow> Some (ld1, Panic)
                | Ret (ok, ta, a1) \<Rightarrow>
                    if \<not> ok then
                      Some (ld1, Ret \<lparr>le_result = no_result, le_message = Some Text_Err_Oom, le_arena = a1, le_mem = m,
                                     le_calls = load_close ta h1, le_zip = z\<rparr>)
                    else if nret (w h1 MutexInit) \<noteq> 0 \<or> nret (w (MutexInit # h1) CreateThread) \<noteq> 0 then Some (ld1, Panic)
                    else
                      (case ld_load_func w elapsed uncompress ta m (CreateThread # MutexInit # h1) of
                         None \<Rightarrow> None
                       | Some (st, m1, h2) \<Rightarrow>
                           Some (ld1, load_finish zw entry filename ta st
                             \<lparr>le_result = no_result, le_message = None, le_arena = a1, le_mem = m1,
                              le_calls = h2, le_zip = z\<rparr>)))))"


definition loader_load_executable ::
  "u32 \<Rightarrow> loader_result \<Rightarrow> mem \<Rightarrow> arena \<Rightarrow> (u32 option \<times> mem \<times> arena) ret" where
  "loader_load_executable magic r m a =
     (case loader_reloc magic m (r_data r) (r_data_len r) (Some (r_args r)) (ucast (r_args_len r)) True of
        (ep, m1) \<Rightarrow> bind_ret (blob_free (r_data r) a) (\<lambda>a1. Ret (ep, m1, a1)))"

text \<open>\<^verbatim>\<open>manage_run\<close> of \<^verbatim>\<open>manage.c\<close> without its dialog: the thread that extracts or deletes.\<close>

definition manage_run ::
  "net_world \<Rightarrow> zip_world \<Rightarrow> bool \<Rightarrow> string \<Rightarrow> dir_tree list option \<Rightarrow> net_call list \<Rightarrow> zip_call list
     \<Rightarrow> (bool \<times> net_call list \<times> zip_call list) option" where
  "manage_run w zw data app tree h z =
     (if nret (w h MutexInit) \<noteq> 0 then Some (False, MutexInit # h, z)
      else
        let h1 = MutexInit # h
        in if nret (w h1 CreateThread) \<noteq> 0 then Some (False, CreateThread # h1, z)
           else map_option (\<lambda>(ok, z1). (ok, CreateThread # h1, z1)) (manage_func zw data app tree z))"

text \<open>
  \<open>answer\<close> is what the user chose, 0 for yes. The directory is only looked up for the warning.
\<close>

definition loader_handle_zip_app ::
  "net_world \<Rightarrow> zip_world \<Rightarrow> ae_state \<Rightarrow> int \<Rightarrow> loader_result \<Rightarrow> arena \<Rightarrow> net_call list \<Rightarrow> zip_call list
     \<Rightarrow> (bool \<times> arena ret \<times> net_call list \<times> zip_call list) option" where
  "loader_handle_zip_app w zw ae answer r a h z =
     (case app_entry_get_path ae of
        None \<Rightarrow> Some (False, blob_free (r_data r) a, h, z)
      | Some dv \<Rightarrow>
          (case dir_exists zw (dv @ '':/'' @ r_dirname r) z of
             (present, z1) \<Rightarrow>
               if answer \<noteq> 0 then Some (False, blob_free (r_data r) a, h, z1)
               else map_option (\<lambda>(ok, h1, z2). (ok, blob_free (r_data r) a, h1, z2))
                      (manage_run w zw True (r_dirname r) None h z1)))"

section \<open>The sockets of the TCP thread\<close>

lemma net_status_loop_socks:
  assumes "net_status_loop w cmd h = Some (r, h')"
  shows "open_socks w h' = open_socks w h"
proof -
  have "(\<lambda>(r, k). open_socks w k = open_socks w h) (r, h')"
    using assms unfolding net_status_loop_def
    by (rule while_option_rule[rotated]) (auto split: if_splits)
  then show ?thesis by simp
qed

lemma net_init_tries_socks: "net_init_tries w cmd res n h = Some (r, k, h') \<Longrightarrow> open_socks w h' = open_socks w h"
proof (induction n arbitrary: res h)
  case (Suc n)
  show ?case
  proof (cases "nret (w h NetInitAsync) = 0")
    case True
    then obtain r2 h2 where s: "net_status_loop w cmd (NetInitAsync # h) = Some (r2, h2)"
      using Suc.prems by (auto split: option.splits)
    from net_status_loop_socks[OF s] show ?thesis
      using Suc.prems True s Suc.IH by (auto split: if_splits)
  qed (use Suc.prems in auto)
qed simp

text \<open>What holds between two passes: \<open>base\<close> are the sockets of others.\<close>

definition pending_request_ok :: "ld_tcp_arg \<Rightarrow> bool" where
  "pending_request_ok ta \<longleftrightarrow> ucast (lt_args_len ta) \<le> ARGS_MAX_LEN
     \<and> lt_data_len ta \<noteq> 0 \<and> lt_data_len ta \<le> LD_MAX_SIZE \<and> lt_data_len_un ta \<le> LD_MAX_SIZE
     \<and> lt_client ta AND 0xffff0000 = lt_mask ta"

definition own_socks :: "ld_tcp_arg \<Rightarrow> int multiset" where
  "own_socks ta = (if lt_state ta = LDTCPS_INITIALIZED then {#lt_listen ta#} else {#})
     + (if lt_handshaked ta then {#lt_s ta#} else {#})"

definition tcp_inv :: "net_world \<Rightarrow> int multiset \<Rightarrow> ld_tcp_arg \<Rightarrow> net_call list \<Rightarrow> bool" where
  "tcp_inv w base ta h \<longleftrightarrow> mset (open_socks w h) = base + own_socks ta
     \<and> (lt_handshaked ta \<longrightarrow> lt_state ta = LDTCPS_INITIALIZED \<and> lt_cmd ta = LDTCPCMD_IDLE \<and> pending_request_ok ta)
     \<and> lt_cmd ta \<noteq> LDTCPCMD_EXIT
     \<and> (lt_cmd ta = LDTCPCMD_ACCEPT \<longrightarrow> lt_state ta = LDTCPS_INITIALIZED)"

lemma tcp_thread_init_inv:
  assumes "tcp_inv w base ta h" and "lt_cmd ta = LDTCPCMD_INIT" and "tcp_thread_init w ta h = Some (ta', h')"
  shows "tcp_inv w base ta' h'"
proof -
  define h1 where "h1 = (if lt_state ta = LDTCPS_INITIALIZED then NetClose (lt_listen ta) # h else h)"
  have b: "mset (open_socks w h1) = base" and nh: "\<not> lt_handshaked ta"
    using assms(1,2) by (auto simp: tcp_inv_def own_socks_def h1_def)
  obtain res n h2 where t: "net_init_tries w LDTCPCMD_IDLE 0 32 h1 = Some (res, n, h2)"
    using assms(3) by (cases "net_init_tries w LDTCPCMD_IDLE 0 32 h1") (auto simp: tcp_thread_init_def Let_def h1_def)
  obtain s h4 where l: "tcp_listen w LD_TCP_PORT 3 (NetGethostip # h2) = (s, h4)" by fastforce
  note o = net_init_tries_socks[OF t] tcp_listen_open[OF l]
  show ?thesis
    using assms(3) t l o b nh unfolding tcp_thread_init_def h1_def[symmetric]
    by (auto simp: Let_def tcp_inv_def own_socks_def ENETRESET_def h1_def[symmetric] split: if_splits)
qed


lemma invalid_request_fields:
  "\<not> invalid_request buf \<Longrightarrow> ucast (rq_args_len (request_fields buf)) \<le> ARGS_MAX_LEN
     \<and> rq_data_len (request_fields buf) \<noteq> 0 \<and> rq_data_len (request_fields buf) \<le> LD_MAX_SIZE
     \<and> rq_data_len_un (request_fields buf) \<le> LD_MAX_SIZE"
  by (auto simp: invalid_request_def Let_def not_less)

lemma tcp_thread_accept_inv:
  assumes "tcp_inv w base ta h" and "lt_cmd ta = LDTCPCMD_ACCEPT" and "tcp_thread_accept w elapsed ta h = Some (ta', h')"
  shows "tcp_inv w base ta' h'"
proof -
  define sn where "sn = nret (w h (NetAccept (lt_listen ta)))"
  define addr where "addr = naddr (w h (NetAccept (lt_listen ta)))"
  let ?h1 = "NetAccept (lt_listen ta) # h"
  have b: "mset (open_socks w h) = add_mset (lt_listen ta) base" "lt_state ta = LDTCPS_INITIALIZED" "\<not> lt_handshaked ta"
    using assms(1,2) by (auto simp: tcp_inv_def own_socks_def)
  show ?thesis
  proof (cases "sn < 0 \<or> addr AND 0xffff0000 \<noteq> lt_mask ta")
    case True
    then show ?thesis
      using assms(3) b unfolding tcp_thread_accept_def Let_def sn_def[symmetric] addr_def[symmetric]
      by (auto simp: tcp_inv_def own_socks_def EAGAIN_def ENETRESET_def sn_def[symmetric] split: if_splits)
  next
    case False
    then obtain ok buf h2 where r: "tcp_read w elapsed sn 16 False ?h1 = Some (ok, buf, h2)"
      using assms(3) by (cases "tcp_read w elapsed sn 16 False ?h1")
        (auto simp: tcp_thread_accept_def Let_def sn_def[symmetric] addr_def[symmetric] EAGAIN_def ENETRESET_def)
    have o: "mset (open_socks w h2) = add_mset sn (add_mset (lt_listen ta) base)"
      using tcp_read_socks[OF r] b False by (simp add: sn_def)
    show ?thesis
      using assms(3) b False r o invalid_request_fields[of buf]
      unfolding tcp_thread_accept_def Let_def sn_def[symmetric] addr_def[symmetric]
      by (auto simp: tcp_inv_def own_socks_def pending_request_ok_def EAGAIN_def ENETRESET_def split: if_splits)
  qed
qed

lemma tcp_pass_inv:
  assumes "tcp_inv w base ta h" and "tcp_pass w elapsed (ta, h) = Some (ta', h')"
  shows "tcp_inv w base ta' h'"
proof (cases "lt_cmd ta")
  case LDTCPCMD_INIT
  then have "\<not> lt_handshaked ta" using assms(1) by (auto simp: tcp_inv_def)
  then have "ta\<lparr>lt_handshaked := False\<rparr> = ta" by simp
  then show ?thesis using assms LDTCPCMD_INIT tcp_thread_init_inv by (simp add: tcp_pass_def)
next
  case LDTCPCMD_ACCEPT
  then have "\<not> lt_handshaked ta" using assms(1) by (auto simp: tcp_inv_def)
  then have "ta\<lparr>lt_handshaked := False\<rparr> = ta" by simp
  then show ?thesis using assms LDTCPCMD_ACCEPT tcp_thread_accept_inv by (simp add: tcp_pass_def)
qed (use assms in \<open>auto simp: tcp_pass_def tcp_inv_def\<close>)

lemma tcp_wake_rule:
  assumes "tcp_wake w elapsed ta h = Some (ta', h')" and "P ta h"
    and "\<And>ta h ta' h'. P ta h \<Longrightarrow> tcp_busy ta \<Longrightarrow> tcp_pass w elapsed (ta, h) = Some (ta', h') \<Longrightarrow> P ta' h'"
  shows "P ta' h' \<and> \<not> tcp_busy ta'"
proof -
  let ?b = "\<lambda>x. case x of None \<Rightarrow> False | Some (ta, h) \<Rightarrow> tcp_busy ta"
  let ?c = "\<lambda>x. Option.bind x (tcp_pass w elapsed)"
  have x: "while_option ?b ?c (Some (ta, h)) = Some (Some (ta', h'))"
    using assms(1) by (auto simp: tcp_wake_def bind_eq_Some_conv)
  then have "case Some (ta', h') of None \<Rightarrow> True | Some (ta, h) \<Rightarrow> P ta h"
    by (rule while_option_rule[rotated]) (use assms(2,3) in \<open>auto split: option.splits bind_splits\<close>)
  with while_option_stop[OF x] show ?thesis by simp
qed

lemma tcp_wake_inv: "tcp_wake w elapsed ta h = Some (ta', h') \<Longrightarrow> tcp_inv w base ta h \<Longrightarrow> tcp_inv w base ta' h'"
  using tcp_wake_rule[where P = "tcp_inv w base"] tcp_pass_inv by blast

lemma load_loop_socks:
  assumes "load_loop iter x h = Some (y, h')" and "\<And>x h. open_socks w (snd (iter (x, h))) = open_socks w h"
  shows "open_socks w h' = open_socks w h"
proof -
  have "(\<lambda>(x, k). open_socks w k = open_socks w h) (y, h')"
    using assms(1) unfolding load_loop_def
    by (rule while_option_rule[rotated]) (simp, use assms(2) in \<open>clarsimp, metis snd_conv\<close>)
  then show ?thesis by simp
qed

text \<open>The load thread closes the connection of a TCP upload, whatever happens, and touches no other socket.\<close>

lemma ld_receive_socks:
  assumes "ld_receive w elapsed ta h = Some (st, got, h')"
  shows "open_socks w h' = open_socks w (load_close ta h)"
proof -
  have f: "open_socks w (snd (file_iter w fd (x, k))) = open_socks w k" for fd x k
    by (simp add: file_iter_def Let_def)
  have g: "open_socks w (snd (gecko_iter w elapsed (x, k))) = open_socks w k" for x k
    by (simp add: gecko_iter_def Let_def split: prod.splits)
  show ?thesis
    using assms load_loop_socks[OF _ f] load_loop_socks[OF _ g]
    by (cases "la_cmd ta") (auto simp: ld_receive_def load_close_def Let_def dest!: tcp_read_socks split: if_splits)
qed


lemma load_source_cases:
  assumes "load_source w ae entry ld h = (src, ld', h')"
  obtains (none) "src = None" "ta_tcp ld' = ta_tcp ld" "open_socks w h' = open_socks w h"
  | (other) ta f where "src = Some (ta, f)" "la_cmd ta \<noteq> LDC_TCP" "ta_tcp ld' = ta_tcp ld" "open_socks w h' = open_socks w h"
      "la_cmd ta = LDC_FILE \<longleftrightarrow> entry \<noteq> None"
  | (tcp) ta where "src = Some (ta, '''')" "la_cmd ta = LDC_TCP" "entry = None" "lt_handshaked (ta_tcp ld)"
      "ta_tcp ld' = (ta_tcp ld)\<lparr>lt_handshaked := False\<rparr>" "h' = TryLockTcp # TryLockGecko # h"
      "la_fd ta = lt_s (ta_tcp ld)" "la_data_len ta = lt_data_len (ta_tcp ld)"
      "la_data_len_un ta = lt_data_len_un (ta_tcp ld)" "la_args_len ta = lt_args_len (ta_tcp ld)"
proof (cases entry)
  case (Some e)
  then show ?thesis
    using assms none other by (auto simp: load_source_def Let_def split: if_splits option.splits)
next
  case None
  then show ?thesis
    using assms none other tcp by (auto simp: load_source_def Let_def split: if_splits)
qed

lemma load_alloc_keeps:
  assumes "load_alloc ta a = Ret (ok, ta', a')"
  shows "la_cmd ta' = la_cmd ta \<and> la_fd ta' = la_fd ta \<and> la_data_len ta' = la_data_len ta \<and> la_args_len ta' = la_args_len ta
    \<and> la_data_len_un ta' = (if la_data_len_un ta = la_data_len ta then 0 else la_data_len_un ta)"
  using assms by (auto simp: load_alloc_def alloc_buffers_def bind_ret_eq_Ret split: if_splits)

lemma load_finish_calls:
  assumes "load_finish zw entry f ta st x = Ret y"
  shows "le_calls y = le_calls x"
proof -
  have c: "le_calls y = le_calls x" if "load_classify zw entry f ta x = Ret y" for ta x
    using that by (auto simp: load_classify_def Let_def bind_ret_eq_Ret split: if_splits option.splits prod.splits)
  show ?thesis
    using assms by (auto simp: load_finish_def Let_def bind_ret_eq_Ret dest!: c split: if_splits option.splits)
qed

lemma loader_load_socks:
  assumes "loader_load w elapsed uncompress zw ae entry ld a m h z = Some (ld', Ret x)"
  shows "(ta_tcp ld' = ta_tcp ld \<and> open_socks w (le_calls x) = open_socks w h)
    \<or> (lt_handshaked (ta_tcp ld) \<and> ta_tcp ld' = (ta_tcp ld)\<lparr>lt_handshaked := False\<rparr>
        \<and> open_socks w (le_calls x) = remove1 (lt_s (ta_tcp ld)) (open_socks w h))"
proof -
  obtain src ld1 h1 where src: "load_source w ae entry ld h = (src, ld1, h1)" by (metis prod_cases3)
  have go: "ld' = ld1 \<and> open_socks w (le_calls x) = open_socks w (load_close ta h1)" if s: "src = Some (ta, f)" for ta f
  proof -
    obtain ok ta1 a1 where al: "load_alloc ta a = Ret (ok, ta1, a1)"
      using assms src s by (auto simp: loader_load_def split: ret.splits)
    have cl: "load_close ta1 k = load_close ta k" for k
      using load_alloc_keeps[OF al] by (simp add: load_close_def)
    show ?thesis
    proof (cases ok)
      case False
      then show ?thesis using assms src s al cl by (auto simp: loader_load_def)
    next
      case True
      obtain st m1 h2 where f2: "ld_load_func w elapsed uncompress ta1 m (CreateThread # MutexInit # h1) = Some (st, m1, h2)"
        and fin: "load_finish zw entry f ta1 st \<lparr>le_result = no_result, le_message = None, le_arena = a1, le_mem = m1,
              le_calls = h2, le_zip = z\<rparr> = Ret x" and "ld' = ld1"
        using assms src s al True by (auto simp: loader_load_def split: if_splits option.splits)
      have "open_socks w h2 = open_socks w (load_close ta1 (CreateThread # MutexInit # h1))"
        using f2 ld_receive_socks by (auto simp: ld_load_func_def Let_def split: option.splits if_splits prod.splits)
      then show ?thesis
        using load_finish_calls[OF fin] \<open>ld' = ld1\<close> cl by (simp add: load_close_def split: if_splits)
    qed
  qed
  show ?thesis
    using src
  proof (cases rule: load_source_cases)
    case none
    then show ?thesis using assms src by (auto simp: loader_load_def)
  next
    case (other ta f)
    then show ?thesis using go[of ta f] by (simp add: load_close_def)
  next
    case (tcp ta)
    then show ?thesis using go[of ta "''''"] by (simp add: load_close_def)
  qed
qed

section \<open>The program between uploads\<close>

text \<open>
  The states of the TCP thread, with the calls so far: it has started on top of the sockets that were
  open then; the main loop gives it commands and loads applications; it wakes; and other parts of the
  program make calls that leave the sockets alone.
\<close>

inductive tcp_reach ::
  "net_world \<Rightarrow> clock \<Rightarrow> uncompress \<Rightarrow> zip_world \<Rightarrow> net_call list \<Rightarrow> ld_threads \<Rightarrow> net_call list \<Rightarrow> bool"
  for w elapsed uncompress zw h0 where
  reach_start: "tcp_reach w elapsed uncompress zw h0 (ld\<lparr>ta_tcp := ld_tcp_start tcp_zero\<rparr>) h0"
| reach_init: "tcp_reach w elapsed uncompress zw h0 ld h \<Longrightarrow> loader_tcp_init w ld h = (ld', h')
    \<Longrightarrow> tcp_reach w elapsed uncompress zw h0 ld' h'"
| reach_signal: "tcp_reach w elapsed uncompress zw h0 ld h \<Longrightarrow> loader_signal_threads w ld h = (ld', h')
    \<Longrightarrow> tcp_reach w elapsed uncompress zw h0 ld' h'"
| reach_wake: "tcp_reach w elapsed uncompress zw h0 ld h \<Longrightarrow> tcp_wake w elapsed (ta_tcp ld) h = Some (t, h')
    \<Longrightarrow> tcp_reach w elapsed uncompress zw h0 (ld\<lparr>ta_tcp := t\<rparr>) h'"
| reach_load: "tcp_reach w elapsed uncompress zw h0 ld h
    \<Longrightarrow> loader_load w elapsed uncompress zw ae entry ld a m h z = Some (ld', Ret x)
    \<Longrightarrow> tcp_reach w elapsed uncompress zw h0 ld' (le_calls x)"
| reach_other: "tcp_reach w elapsed uncompress zw h0 ld h \<Longrightarrow> open_socks w h' = open_socks w h
    \<Longrightarrow> tcp_reach w elapsed uncompress zw h0 (ld\<lparr>ta_gecko := g\<rparr>) h'"

lemma loader_tcp_init_inv:
  assumes "tcp_inv w base (ta_tcp ld) h" and "loader_tcp_init w ld h = (ld', h')"
  shows "tcp_inv w base (ta_tcp ld') h'"
  using assms by (auto simp: loader_tcp_init_def Let_def tcp_inv_def own_socks_def pending_request_ok_def split: if_splits)

lemma loader_signal_inv:
  assumes "tcp_inv w base (ta_tcp ld) h" and "loader_signal_threads w ld h = (ld', h')"
  shows "tcp_inv w base (ta_tcp ld') h'"
  using assms by (auto simp: loader_signal_threads_def Let_def tcp_inv_def own_socks_def loader_tcp_initialized_def split: if_splits)

lemma loader_load_inv:
  assumes "tcp_inv w base (ta_tcp ld) h" and "loader_load w elapsed uncompress zw ae entry ld a m h z = Some (ld', Ret x)"
  shows "tcp_inv w base (ta_tcp ld') (le_calls x)"
  using loader_load_socks[OF assms(2)] assms(1) by (auto simp: tcp_inv_def own_socks_def)

text \<open>
  C14: whatever the network does, between any two operations of the program exactly these sockets are open
  besides those of others: the listening one while the state is initialized, and that of an upload that
  has been accepted and not yet loaded. Such an upload comes from the local network and announces sizes
  within the load region and arguments within their buffer.
\<close>

theorem tcp_thread_sockets:
  assumes "tcp_reach w elapsed uncompress zw h0 ld h"
  shows "mset (open_socks w h) = mset (open_socks w h0) + own_socks (ta_tcp ld)
    \<and> (lt_handshaked (ta_tcp ld) \<longrightarrow> lt_state (ta_tcp ld) = LDTCPS_INITIALIZED \<and> pending_request_ok (ta_tcp ld))"
proof -
  have "tcp_inv w (mset (open_socks w h0)) (ta_tcp ld) h"
    using assms
  proof (induction rule: tcp_reach.induct)
    case (reach_start ld)
    then show ?case by (simp add: tcp_inv_def own_socks_def ld_tcp_start_def)
  next
    case reach_init
    then show ?case by (auto intro: loader_tcp_init_inv)
  next
    case reach_signal
    then show ?case by (auto intro: loader_signal_inv)
  next
    case reach_wake
    then show ?case by (auto intro: tcp_wake_inv)
  next
    case reach_load
    then show ?case by (auto intro: loader_load_inv)
  next
    case reach_other
    then show ?case by (simp add: tcp_inv_def)
  qed
  then show ?thesis by (simp add: tcp_inv_def)
qed


section \<open>What the load thread receives\<close>

text \<open>The documented behaviour of the three sources: they deliver the bytes they report, at most those asked for.\<close>

definition honest_sources :: "net_world \<Rightarrow> bool" where
  "honest_sources w \<longleftrightarrow> honest w
     \<and> (\<forall>h fd n. nret (w h (FileRead fd n)) \<le> int (unat n)
         \<and> (0 \<le> nret (w h (FileRead fd n)) \<longrightarrow> int (length (nbytes (w h (FileRead fd n)))) = nret (w h (FileRead fd n))))
     \<and> (\<forall>h n. nret (w h (UsbRecv n)) \<le> int (unat n)
         \<and> int (length (nbytes (w h (UsbRecv n)))) = nret (w h (UsbRecv n)))"

text \<open>The bytes that have come out of a file or over USB.\<close>

fun file_bytes :: "net_world \<Rightarrow> int \<Rightarrow> net_call list \<Rightarrow> u8 list" where
  "file_bytes w fd [] = []"
| "file_bytes w fd (FileRead fd' n # h) = file_bytes w fd h @
     (if fd' = fd \<and> 0 \<le> nret (w h (FileRead fd' n)) then nbytes (w h (FileRead fd' n)) else [])"
| "file_bytes w fd (e # h) = file_bytes w fd h"

fun usb_bytes :: "net_world \<Rightarrow> net_call list \<Rightarrow> u8 list" where
  "usb_bytes w [] = []"
| "usb_bytes w (UsbRecv n # h) = usb_bytes w h @ nbytes (w h (UsbRecv n))"
| "usb_bytes w (e # h) = usb_bytes w h"

definition arrived :: "net_world \<Rightarrow> ld_load_arg \<Rightarrow> net_call list \<Rightarrow> u8 list" where
  "arrived w ta h = (case la_cmd ta of LDC_FILE \<Rightarrow> file_bytes w (la_fd ta) h | LDC_GECKO \<Rightarrow> usb_bytes w h
     | LDC_TCP \<Rightarrow> received w (la_fd ta) h)"

lemma load_loop_rule:
  assumes "load_loop iter x h = Some (y, h')" and "P x h"
    and "\<And>x h. P x h \<Longrightarrow> \<not> ll_failed x \<Longrightarrow> ll_left x \<noteq> 0 \<Longrightarrow> P (fst (iter (x, h))) (snd (iter (x, h)))"
  shows "P y h' \<and> (ll_failed y \<or> ll_left y = 0)"
proof -
  have x: "while_option (\<lambda>(x, h). \<not> ll_failed x \<and> ll_left x \<noteq> 0) iter (x, h) = Some (y, h')"
    using assms(1) by (simp add: load_loop_def)
  then have "(\<lambda>(x, h). P x h) (y, h')"
    by (rule while_option_rule[rotated]) (use assms(2,3) in \<open>force simp: split_def\<close>)+
  with while_option_stop[OF x] show ?thesis by auto
qed

text \<open>The bytes received and the bytes left always add up.\<close>

definition adds_up :: "nat \<Rightarrow> u8 list \<Rightarrow> u8 list \<Rightarrow> load_loop \<Rightarrow> bool" where
  "adds_up n before now x \<longleftrightarrow> now = before @ ll_got x \<and> length (ll_got x) + unat (ll_left x) = n"

lemma left_decreases:
  fixes left :: u32
  assumes "int k = r" and "k \<le> unat left"
  shows "unat (left - word_of_int r) = unat left - k"
proof -
  have "k < 4294967296" using assms(2) unsigned_less[of left, where ?'a = nat] by simp
  then have "unat (of_nat k :: u32) = k" by simp
  moreover from this have "(of_nat k :: u32) \<le> left" using assms(2) by (simp add: word_le_nat_alt)
  ultimately show ?thesis using unat_sub[of "of_nat k" left] assms(1) by auto
qed

lemma file_block_le: "unat (file_block left) \<le> unat left"
proof (cases "sint left > 32768")
  case True
  have "uint left = sint left"
    using True sint_lt[of left] by (simp add: uint_sint take_bit_int_eq_self)
  then have "32768 \<le> unat left" using True by (simp add: unat_eq_nat_uint)
  then show ?thesis using True by (simp add: file_block_def)
qed (simp add: file_block_def)

lemma file_iter_adds_up:
  assumes "honest_sources w" and "adds_up n b (file_bytes w fd h) x"
  shows "adds_up n b (file_bytes w fd (snd (file_iter w fd (x, h)))) (fst (file_iter w fd (x, h)))"
proof -
  define r where "r = w h (FileRead fd (file_block (ll_left x)))"
  have r: "nret r \<le> int (unat (file_block (ll_left x)))" "0 \<le> nret r \<longrightarrow> int (length (nbytes r)) = nret r"
    using assms(1) unfolding honest_sources_def r_def by blast+
  show ?thesis
  proof (cases "nret r < 0")
    case True
    then show ?thesis
      using assms(2) by (simp add: file_iter_def Let_def r_def[symmetric] adds_up_def)
  next
    case False
    then have k: "length (nbytes r) \<le> unat (ll_left x)" "int (length (nbytes r)) = nret r"
      using r file_block_le[of "ll_left x"] by linarith+
    show ?thesis
      using left_decreases[OF k(2) k(1)] k(1) assms(2) False
      by (simp add: file_iter_def Let_def r_def[symmetric] adds_up_def)
  qed
qed

lemma gecko_iter_adds_up:
  assumes "honest_sources w" and "adds_up n b (usb_bytes w h) x"
  shows "adds_up n b (usb_bytes w (snd (gecko_iter w elapsed (x, h)))) (fst (gecko_iter w elapsed (x, h)))"
proof -
  define r where "r = w h (UsbRecv (ll_left x))"
  have r: "nret r \<le> int (unat (ll_left x))" "int (length (nbytes r)) = nret r"
    using assms(1) by (simp_all add: honest_sources_def r_def)
  have k: "length (nbytes r) \<le> unat (ll_left x)" using r by linarith
  let ?left = "ll_left x - word_of_int (nret r)"
  have sum: "length (ll_got x) + (length (nbytes r) + unat ?left) = n" "usb_bytes w h = b @ ll_got x"
    using left_decreases[OF r(2) k] k assms(2) by (simp_all add: adds_up_def)
  let ?y = "fst (gecko_iter w elapsed (x, h))"
  have y: "ll_got ?y = ll_got x @ nbytes r \<and> ll_left ?y = ?left
    \<and> usb_bytes w (snd (gecko_iter w elapsed (x, h))) = usb_bytes w h @ nbytes r"
  proof (cases "nret r = 0")
    case True
    then show ?thesis using r(2) by (simp add: gecko_iter_def Let_def r_def[symmetric])
  next
    case False
    then show ?thesis by (simp add: gecko_iter_def Let_def r_def[symmetric])
  qed
  show ?thesis unfolding adds_up_def using y sum by simp
qed

lemma ld_receive_complete:
  assumes "honest_sources w" and "ld_receive w elapsed ta h = Some (st, got, h')"
  shows "arrived w ta h' = arrived w ta h @ got"
    and "st = LDS_RUNNING \<Longrightarrow> length got = unat (la_data_len ta + ucast (la_args_len ta))"
proof -
  let ?left = "la_data_len ta + ucast (la_args_len ta)"
  have "arrived w ta h' = arrived w ta h @ got \<and> (st = LDS_RUNNING \<longrightarrow> length got = unat ?left)"
  proof (cases "la_cmd ta")
    case LDC_FILE
    then obtain y h1 where y: "load_loop (file_iter w (la_fd ta)) \<lparr>ll_failed = False, ll_left = ?left, ll_got = [],
        ll_block = 0, ll_time = 0\<rparr> h = Some (y, h1)"
      and e: "st = (if ll_failed y then LDS_ERR_READ else LDS_RUNNING)" "got = ll_got y"
        "h' = (if ll_failed y then h1 else FileClose (la_fd ta) # h1)"
      using assms(2) by (auto simp: ld_receive_def Let_def split: if_splits)
    have "adds_up (unat ?left) (file_bytes w (la_fd ta) h) (file_bytes w (la_fd ta) h1) y \<and> (ll_failed y \<or> ll_left y = 0)"
      by (rule load_loop_rule[OF y]) (simp add: adds_up_def, rule file_iter_adds_up[OF assms(1)])
    then show ?thesis using e LDC_FILE by (auto simp: arrived_def adds_up_def)
  next
    case LDC_GECKO
    then obtain y h1 where y: "load_loop (gecko_iter w elapsed) \<lparr>ll_failed = False, ll_left = ?left, ll_got = [],
        ll_block = 0, ll_time = ntime (w h Gettime)\<rparr> (Gettime # h) = Some (y, h1)"
      and e: "st = (if ll_failed y then LDS_ERR_RECEIVE else LDS_RUNNING)" "got = ll_got y" "h' = h1"
      using assms(2) by (auto simp: ld_receive_def Let_def split: if_splits)
    have "adds_up (unat ?left) (usb_bytes w h) (usb_bytes w h1) y \<and> (ll_failed y \<or> ll_left y = 0)"
      by (rule load_loop_rule[OF y]) (simp add: adds_up_def, rule gecko_iter_adds_up[OF assms(1)])
    then show ?thesis using e LDC_GECKO by (auto simp: arrived_def adds_up_def)
  next
    case LDC_TCP
    then obtain ok h1 where "tcp_read w elapsed (la_fd ta) ?left True h = Some (ok, got, h1)"
      and "st = (if ok then LDS_RUNNING else LDS_ERR_RECEIVE)" "h' = NetClose (la_fd ta) # h1"
      using assms(2) by (auto simp: ld_receive_def Let_def)
    moreover have "honest w" using assms(1) by (simp add: honest_sources_def)
    note tcp_read_received[OF this]
    ultimately show ?thesis using LDC_TCP by (auto simp: arrived_def)
  qed
  then show "arrived w ta h' = arrived w ta h @ got" and "st = LDS_RUNNING \<Longrightarrow> length got = unat ?left" by simp_all
qed


lemma load_func_stores:
  assumes "honest_sources w" and "ld_load_func w elapsed uncompress ta m h = Some (LDS_SUCCESS, m', h')"
  shows "\<exists>got. arrived w ta h' = arrived w ta h @ got \<and> length got = unat (la_data_len ta + ucast (la_args_len ta))
    \<and> (if la_data_un ta = 0 then m' = mem_write m (la_data ta) got
       else \<exists>out. uncompress (mem_read (mem_write m (la_data ta) got) (la_data ta) (unat (la_data_len ta)))
              (la_data_len_un ta) = (0, out)
            \<and> of_nat (length out) = la_data_len_un ta
            \<and> m' = mem_write (mem_write m (la_data ta) got) (la_data_un ta) out)"
proof -
  obtain st got h1 where r: "ld_receive w elapsed ta h = Some (st, got, h1)"
    using assms(2) by (auto simp: ld_load_func_def split: option.splits)
  have st: "st = LDS_RUNNING"
  proof (rule ccontr)
    assume "st \<noteq> LDS_RUNNING"
    then have "st = LDS_SUCCESS" using assms(2) r by (simp add: ld_load_func_def Let_def)
    then show False using r by (cases "la_cmd ta") (auto simp: ld_receive_def Let_def split: if_splits)
  qed
  then show ?thesis
    using ld_receive_complete[OF assms(1) r] assms(2) r
    by (intro exI[of _ got]) (auto simp: ld_load_func_def ld_uncompress_def Let_def split: if_splits prod.splits)
qed

text \<open>
  C16: when the load thread reports success, it has received exactly the announced data and arguments from
  its source, in order, and placed them at the buffer; a second buffer then holds what \<^verbatim>\<open>uncompress\<close> made
  of the data, of the announced size.
\<close>

theorem load_func_success:
  assumes "honest_sources w" and "ld_load_func w elapsed uncompress ta m h = Some (LDS_SUCCESS, m', h')"
  shows "\<exists>got. arrived w ta h' = arrived w ta h @ got \<and> length got = unat (la_data_len ta + ucast (la_args_len ta))
    \<and> (if la_data_un ta = 0 then m' = mem_write m (la_data ta) got
       else \<exists>out. uncompress (mem_read (mem_write m (la_data ta) got) (la_data ta) (unat (la_data_len ta)))
              (la_data_len_un ta) = (0, out)
            \<and> of_nat (length out) = la_data_len_un ta
            \<and> m' = mem_write (mem_write m (la_data ta) got) (la_data_un ta) out)"
  using assms by (rule load_func_stores)

text \<open>
  If a file has become shorter than the size in the application list, reading it never ends: at the
  end of the file \<^verbatim>\<open>read\<close> returns 0, which the loop takes for progress.
\<close>

lemma short_file_hangs:
  assumes "honest_sources w" and "la_cmd ta = LDC_FILE"
    and "\<And>h n. 0 \<le> nret (w h (FileRead (la_fd ta) n))"
    and "\<And>k. length (file_bytes w (la_fd ta) k) < length (file_bytes w (la_fd ta) h) + unat (la_data_len ta + ucast (la_args_len ta))"
  shows "ld_load_func w elapsed uncompress ta m h = None"
proof (rule ccontr)
  let ?left = "la_data_len ta + ucast (la_args_len ta)"
  let ?x = "\<lparr>ll_failed = False, ll_left = ?left, ll_got = [], ll_block = 0, ll_time = 0\<rparr>"
  assume "ld_load_func w elapsed uncompress ta m h \<noteq> None"
  then obtain y h1 where y: "load_loop (file_iter w (la_fd ta)) ?x h = Some (y, h1)"
    using assms(2) by (auto simp: ld_load_func_def ld_receive_def Let_def split: option.splits)
  let ?P = "\<lambda>x k. adds_up (unat ?left) (file_bytes w (la_fd ta) h) (file_bytes w (la_fd ta) k) x \<and> \<not> ll_failed x"
  have "?P y h1 \<and> (ll_failed y \<or> ll_left y = 0)"
  proof (rule load_loop_rule[OF y])
    show "?P ?x h" by (simp add: adds_up_def)
    fix x k assume "?P x k"
    moreover have "\<not> ll_failed (fst (file_iter w (la_fd ta) (x, k)))" if "\<not> ll_failed x"
      using that assms(3)[of k "file_block (ll_left x)"] by (simp add: file_iter_def Let_def)
    ultimately show "?P (fst (file_iter w (la_fd ta) (x, k))) (snd (file_iter w (la_fd ta) (x, k)))"
      using file_iter_adds_up[OF assms(1)] by simp
  qed
  then have "length (file_bytes w (la_fd ta) h1) = length (file_bytes w (la_fd ta) h) + unat ?left"
    by (auto simp: adds_up_def)
  then show False using assms(4)[of h1] by simp
qed

section \<open>The arena after a load\<close>

lemma blob_alloc_free:
  assumes "arena_ok s" and "length (blobs s) < MAX_BLOBS"
  obtains p s' where "blob_alloc n s = Ret (p, s')" and "length (blobs s') \<le> Suc (length (blobs s))"
    and "blob_free p s' = Ret s"
proof -
  obtain p s' where p: "blob_alloc n s = Ret (p, s')" "length (blobs s') \<le> Suc (length (blobs s))"
    using assms(2) by (cases "blob_addr n s < BLOB_MINSLACK + arena2lo s") (simp_all add: blob_alloc_def)
  then show ?thesis using that blob_free_alloc[OF assms(1)] by blast
qed

lemma load_alloc_arena:
  assumes "arena_ok a" and "la_data_len_un ta \<le> arena2hi a" and "length (blobs a) + 2 \<le> MAX_BLOBS"
  shows "\<exists>ok ta' a'. load_alloc ta a = Ret (ok, ta', a') \<and> (if ok then \<exists>a1. blob_free (la_data ta') a' = Ret a1
    \<and> (if la_data_len_un ta' = 0 then a1 = a else blob_free (la_data_un ta') a1 = Ret a) else a' = a)"
proof -
  define ta1 where "ta1 = (if la_data_len ta = la_data_len_un ta then ta\<lparr>la_data_len_un := 0\<rparr> else ta)"
  have eq: "load_alloc ta a = alloc_buffers ta1 a" by (simp add: load_alloc_def ta1_def)
  let ?n = "la_data_len ta1 + ucast (la_args_len ta1)"
  have len: "length (blobs a) < MAX_BLOBS" using assms(3) by simp
  show ?thesis
  proof (cases "la_data_len_un ta1 = 0")
    case True
    from blob_alloc_free[OF assms(1) len] obtain q a2 where "blob_alloc ?n a = Ret (q, a2)" "blob_free q a2 = Ret a" .
    then show ?thesis using True by (cases "q = 0") (auto simp: eq alloc_buffers_def blob.free_null)
  next
    case False
    then have fit: "blob_fits (la_data_len_un ta1) a" using assms(2) by (simp add: ta1_def blob_fits_def split: if_splits)
    from blob_alloc_free[OF assms(1) len] obtain p a1 where p: "blob_alloc (la_data_len_un ta1) a = Ret (p, a1)"
      "length (blobs a1) \<le> Suc (length (blobs a))" "blob_free p a1 = Ret a" .
    have len1: "length (blobs a1) < MAX_BLOBS" using p(2) assms(3) by simp
    from blob_alloc_free[OF blob.ok_alloc[OF assms(1) fit p(1)] len1]
    obtain q a2 where "blob_alloc ?n a1 = Ret (q, a2)" "blob_free q a2 = Ret a1" .
    then show ?thesis
      using False p by (cases "p = 0"; cases "q = 0") (auto simp: eq alloc_buffers_def blob.free_null)
  qed
qed

text \<open>The result owns one buffer, or none.\<close>

definition owns :: "arena \<Rightarrow> load_end \<Rightarrow> bool" where
  "owns a x \<longleftrightarrow> (if r_type (le_result x) = LT_UNKNOWN then le_arena x = a
     else blob_free (r_data (le_result x)) (le_arena x) = Ret a)"

lemma load_classify_owns:
  assumes "blob_free (la_data ta) (le_arena x) = Ret a" and "la_cmd ta = LDC_FILE \<Longrightarrow> entry \<noteq> None"
    and "r_type (le_result x) = LT_UNKNOWN"
  shows "\<exists>y. load_classify zw entry f ta x = Ret y \<and> owns a y"
proof -
  obtain app sc z1 where app: "manage_check_zip_app zw \<lparr>sc_dirname = '''', sc_bytes = 0, got_elf = False,
      got_dol = False, got_theme = False\<rparr> (le_zip x) = (app, sc, z1)" by (metis prod_cases3)
  obtain th z2 where th: "manage_check_zip_theme zw (la_data_len ta) z1 = (th, z2)" by fastforce
  show ?thesis
  proof (cases "la_cmd ta = LDC_FILE")
    case True
    then obtain e where "entry = Some e" using assms(2) by auto
    then show ?thesis using True assms by (simp add: load_classify_def owns_def Let_def)
  next
    case False
    then show ?thesis using assms(1,3) app th by (simp add: load_classify_def owns_def Let_def)
  qed
qed

lemma load_finish_owns:
  assumes "blob_free (la_data ta) (le_arena x) = Ret a1"
    and "if la_data_len_un ta = 0 then a1 = a else blob_free (la_data_un ta) a1 = Ret a"
    and "la_cmd ta = LDC_FILE \<Longrightarrow> entry \<noteq> None" and "r_type (le_result x) = LT_UNKNOWN"
  shows "\<exists>y. load_finish zw entry f ta st x = Ret y \<and> owns a y"
proof (cases "load_text st")
  case (Some t)
  then show ?thesis using assms by (auto simp: load_finish_def Let_def owns_def)
next
  case None
  then show ?thesis
    using assms by (cases "la_data_len_un ta = 0") (auto simp: load_finish_def Let_def intro!: load_classify_owns)
qed

text \<open>
  C15: provided that two more blobs fit the table and threads can be created, a load does not panic, and
  it leaves the arena as it was when it has no result; otherwise it leaves exactly the buffer of the
  result behind, whose release restores the arena.
\<close>

theorem loader_load_arena:
  assumes "arena_ok a" and "length (blobs a) + 2 \<le> MAX_BLOBS"
    and "lg_data_len_un (ta_gecko ld) \<le> arena2hi a" and "lt_data_len_un (ta_tcp ld) \<le> arena2hi a"
    and "\<And>h. nret (w h MutexInit) = 0 \<and> nret (w h CreateThread) = 0"
    and "loader_load w elapsed uncompress zw ae entry ld a m h z = Some (ld', y)"
  shows "\<exists>x. y = Ret x \<and> (if r_type (le_result x) = LT_UNKNOWN then le_arena x = a
    else blob_free (r_data (le_result x)) (le_arena x) = Ret a)"
proof -
  have "\<exists>x. y = Ret x \<and> owns a x"
  proof -
    obtain src ld1 h1 where src: "load_source w ae entry ld h = (src, ld1, h1)" by (metis prod_cases3)
    show ?thesis
    proof (cases src)
      case None
      then show ?thesis using assms(6) src by (auto simp: loader_load_def owns_def no_result_def)
    next
      case (Some p)
      obtain ta0 f where p: "p = (ta0, f)" by fastforce
      have un: "la_data_len_un ta0 \<le> arena2hi a" and fe: "la_cmd ta0 = LDC_FILE \<Longrightarrow> entry \<noteq> None"
        using src assms(3,4) Some p by (auto simp: load_source_def Let_def split: if_splits option.splits)
      obtain ok ta a1 where al: "load_alloc ta0 a = Ret (ok, ta, a1)"
        and free: "if ok then \<exists>a2. blob_free (la_data ta) a1 = Ret a2
          \<and> (if la_data_len_un ta = 0 then a2 = a else blob_free (la_data_un ta) a2 = Ret a) else a1 = a"
        using load_alloc_arena[OF assms(1) un assms(2)] by blast
      have cmd: "la_cmd ta = la_cmd ta0" using load_alloc_keeps[OF al] by simp
      show ?thesis
      proof (cases ok)
        case False
        then show ?thesis using assms(6) src Some p al free by (auto simp: loader_load_def owns_def no_result_def)
      next
        case True
        then obtain a2 where a2: "blob_free (la_data ta) a1 = Ret a2"
          "if la_data_len_un ta = 0 then a2 = a else blob_free (la_data_un ta) a2 = Ret a" using free by auto
        obtain st m1 h2 where y: "y = load_finish zw entry f ta st \<lparr>le_result = no_result, le_message = None,
            le_arena = a1, le_mem = m1, le_calls = h2, le_zip = z\<rparr>"
          using assms(5,6) src Some p al True by (auto simp: loader_load_def split: option.splits)
        show ?thesis unfolding y by (rule load_finish_owns) (use a2 fe cmd in \<open>auto simp: no_result_def\<close>)
      qed
    qed
  qed
  then show ?thesis by (simp add: owns_def)
qed


section \<open>Runs\<close>

text \<open>
  A network whose sockets each deliver the bytes of a stream, in which everything else works.
\<close>

fun read_pos :: "nat \<Rightarrow> int \<Rightarrow> net_call list \<Rightarrow> nat" where
  "read_pos n s [] = 0"
| "read_pos n s (NetRead s' k # h) = (if s' = s then min (read_pos n s h + unat k) n else read_pos n s h)"
| "read_pos n s (e # h) = read_pos n s h"

definition peer :: "u8 list \<Rightarrow> net_world" where
  "peer stream h e =
     \<lparr>nret = (case e of NetRead s k \<Rightarrow> int (length (take (unat k) (drop (read_pos (length stream) s h) stream)))
          | NetSocket \<Rightarrow> 3 | NetAccept s \<Rightarrow> 5 | _ \<Rightarrow> 0),
      nbytes = (case e of NetRead s k \<Rightarrow> take (unat k) (drop (read_pos (length stream) s h) stream) | _ \<Rightarrow> []),
      ntime = 0, naddr = 0xC0A80002\<rparr>"

lemma int_min_unat: "int (min k (unat n)) \<le> uint n"
proof -
  have "int (min k (unat n)) \<le> int (unat n)" by (intro of_nat_mono) simp
  then show ?thesis by simp
qed

lemma peer_honest: "honest_sources (peer stream)"
  by (auto simp: honest_sources_def honest_def peer_def int_min_unat)

lemma peer_stream: "received (peer stream) s h = take (read_pos (length stream) s h) stream"
proof (induction "peer stream" s h rule: received.induct)
  case (2 s s' k h)
  then show ?case by (auto simp: peer_def take_add[symmetric] min_def)
qed simp_all

definition idle_threads :: ld_threads where
  "idle_threads = \<lparr>ta_gecko = gecko_zero, ta_tcp = tcp_zero\<rparr>"

definition sample_request :: "u8 list" where
  "sample_request = [0x48, 0x41, 0x58, 0x58, 0, 5, 0, 2, 0, 0, 0, 2, 0, 0, 0, 4]"

definition sample_stream :: "u8 list" where
  "sample_stream = sample_request @ [1, 2, 0x61, 0]"

definition no_time :: clock where "no_time t now = 0"

definition started :: ld_tcp_arg where
  "started = \<lparr>lt_running = True, lt_cmd = LDTCPCMD_IDLE, lt_state = LDTCPS_INITIALIZED,
     lt_handshaked = False, lt_args_len = 0, lt_data_len = 0, lt_data_len_un = 0, lt_s = 0, lt_client = 0,
     lt_listen = 3, lt_mask = 0xC0A80000\<rparr>"

lemma tcp_wake_once:
  assumes "tcp_busy ta" and "tcp_pass w elapsed (ta, h) = Some (ta', h')" and "\<not> tcp_busy ta'"
  shows "tcp_wake w elapsed ta h = Some (ta', h')"
  using assms by (simp add: tcp_wake_def while_option_unfold)

lemma peer_init_Suc:
  "net_init_tries (peer stream) c r (Suc n) h = Some (0, Suc n, NetGetStatus # NetInitAsync # h)"
  by (simp add: net_status_loop_def while_option_unfold peer_def EBUSY_def EAGAIN_def ETIMEDOUT_def)

lemma peer_init: "net_init_tries (peer stream) c r 32 h = Some (0, 32, NetGetStatus # NetInitAsync # h)"
proof -
  have e: "32 = Suc (31 :: nat)" by simp
  show ?thesis unfolding e by (rule peer_init_Suc)
qed

lemma started_wake:
  "\<exists>h. tcp_wake (peer sample_stream) no_time (ld_tcp_start tcp_zero) [] = Some (started, h) \<and> read_pos 20 5 h = 0
     \<and> open_socks (peer sample_stream) h = [3]"
proof -
  have "\<exists>h. tcp_pass (peer sample_stream) no_time (ld_tcp_start tcp_zero, []) = Some (started, h) \<and> read_pos 20 5 h = 0
     \<and> open_socks (peer sample_stream) h = [3]"
    by (simp add: tcp_pass_def ld_tcp_start_def tcp_zero_def tcp_thread_init_def peer_init)
      (simp add: peer_def tcp_listen_def tcp_socket_def started_def Let_def ENETRESET_def)
  then show ?thesis
    using tcp_wake_once[of "ld_tcp_start tcp_zero"] by (auto simp: tcp_busy_def ld_tcp_start_def tcp_zero_def started_def)
qed

lemma peer_reads:
  assumes "0 < n" and "n \<le> 2048" and "unat n \<le> length st - read_pos (length st) s h"
  shows "\<exists>h'. tcp_read (peer st) no_time s n report h = Some (True, take (unat n) (drop (read_pos (length st) s h) st), h')
    \<and> read_pos (length st) s h' = read_pos (length st) s h + unat n"
proof -
  let ?x = "xfer_start (peer st) n h"
  have b: "xfer_block n = n" using assms(2) by (auto simp: xfer_block_def dest: leD)
  have m: "min (length st - read_pos (length st) s h) (unat n) = unat n" using assms(3) by simp
  have le: "read_pos (length st) s h \<le> length st" using assms by (metis diff_is_0_eq' nat_le_linear not_le unat_gt_0 word_gt_0 le_0_eq)
  have n: "\<not> unat n \<le> 0" using assms(1) by (simp add: word_gt_0 unat_eq_0)
  have d: "n div TCP_BLOCK_SIZE = 0"
    using assms(2) by (simp add: TCP_BLOCK_SIZE_def word_unat_eq_iff unat_div word_le_nat_alt)
  obtain y k where it: "xfer_iter (peer st) no_time (\<lambda>off k. NetRead s k) TCP_BLOCK_RECV_TIMEOUT report ?x (Gettime # h)
      = (True, y, k)"
    and y: "xleft y = 0" "xdata y = take (unat n) (drop (read_pos (length st) s h) st)"
      "read_pos (length st) s k = read_pos (length st) s h + unat n"
    using n le assms(3)
    by (cases report) (simp_all add: xfer_iter_def xfer_start_def b m d peer_def no_time_def Let_def
        TCP_BLOCK_RECV_TIMEOUT_def EAGAIN_def xfer_advance_def)
  have "xfer_loop (peer st) no_time (\<lambda>off k. NetRead s k) TCP_BLOCK_RECV_TIMEOUT report ?x (Gettime # h) = Some (y, k)"
  proof -
    have "xfer_loop (peer st) no_time (\<lambda>off k. NetRead s k) TCP_BLOCK_RECV_TIMEOUT report y k = Some (y, k)"
      using y(1) by (subst xfer_loop_unfold) simp
    moreover have "xleft ?x \<noteq> 0" using assms(1) by (simp add: xfer_start_def word_gt_0)
    ultimately show ?thesis using it by (subst xfer_loop_unfold) simp
  qed
  then show ?thesis using y by (simp add: tcp_read_def)
qed

definition accepted :: ld_tcp_arg where
  "accepted = started\<lparr>lt_args_len := 2, lt_data_len := 2, lt_data_len_un := 4, lt_s := 5,
     lt_client := 0xC0A80002, lt_handshaked := True\<rparr>"

lemma sample_request_fields:
  "request_fields sample_request = \<lparr>rq_args_len = 2, rq_data_len = 2, rq_data_len_un = 4\<rparr>"
  "\<not> invalid_request sample_request"
  by (simp_all add: request_fields_def invalid_request_def sample_request_def buf_u16_def buf_u32_def
      WIILOAD_MIN_VERSION_def ARGS_MAX_LEN_def ld_addr_values)

lemma started_accept:
  assumes "read_pos 20 5 h = 0"
  shows "\<exists>h'. tcp_thread_accept (peer sample_stream) no_time (started\<lparr>lt_cmd := LDTCPCMD_ACCEPT\<rparr>) h = Some (accepted, h')
    \<and> read_pos 20 5 h' = 16"
proof -
  have len: "length sample_stream = 20" and tk: "take 16 sample_stream = sample_request"
    by (simp_all add: sample_stream_def sample_request_def)
  obtain h' where r: "tcp_read (peer sample_stream) no_time 5 16 False (NetAccept 3 # h)
      = Some (True, sample_request, h')" "read_pos 20 5 h' = 16"
    using peer_reads[of 16 sample_stream 5 "NetAccept 3 # h" False] assms len tk by auto
  have p: "nret (peer sample_stream h (NetAccept 3)) = 5" "naddr (peer sample_stream h (NetAccept 3)) = 0xC0A80002"
    by (simp_all add: peer_def)
  have "tcp_thread_accept (peer sample_stream) no_time (started\<lparr>lt_cmd := LDTCPCMD_ACCEPT\<rparr>) h = Some (accepted, h')"
    by (simp add: tcp_thread_accept_def started_def p r sample_request_fields accepted_def
        EAGAIN_def ENETRESET_def Let_def)
  then show ?thesis using r(2) by blast
qed

lemma started_accept_wake:
  assumes "read_pos 20 5 h = 0"
  shows "\<exists>h'. tcp_wake (peer sample_stream) no_time (started\<lparr>lt_cmd := LDTCPCMD_ACCEPT\<rparr>) h = Some (accepted, h')"
proof -
  obtain h' where "tcp_thread_accept (peer sample_stream) no_time (started\<lparr>lt_cmd := LDTCPCMD_ACCEPT\<rparr>) h = Some (accepted, h')"
    using started_accept[OF assms] by blast
  then have "tcp_pass (peer sample_stream) no_time (started\<lparr>lt_cmd := LDTCPCMD_ACCEPT\<rparr>, h) = Some (accepted, h')"
    by (simp add: tcp_pass_def started_def)
  then show ?thesis
    using tcp_wake_once[of "started\<lparr>lt_cmd := LDTCPCMD_ACCEPT\<rparr>"] by (auto simp: tcp_busy_def started_def accepted_def)
qed

text \<open>From the start of the thread to an accepted upload.\<close>

theorem tcp_thread_sockets_witness:
  "\<exists>ld h. tcp_reach (peer sample_stream) no_time (\<lambda>_ _. (0, [])) (two_entries ''a'' ''b'') [] ld h
     \<and> ta_tcp ld = accepted \<and> mset (open_socks (peer sample_stream) h) = {#3, 5#}"
proof -
  let ?w = "peer sample_stream"
  let ?reach = "tcp_reach ?w no_time (\<lambda>_ _. (0, [])) (two_entries ''a'' ''b'') []"
  let ?ld = "\<lambda>t. \<lparr>ta_gecko = gecko_zero, ta_tcp = t\<rparr>"
  have "?reach (?ld (ld_tcp_start tcp_zero)) []"
    using reach_start[where ld = idle_threads] by (simp add: idle_threads_def)
  moreover obtain h where h: "tcp_wake ?w no_time (ld_tcp_start tcp_zero) [] = Some (started, h)" "read_pos 20 5 h = 0"
    using started_wake by blast
  ultimately have "?reach (?ld started) h" using reach_wake by fastforce
  moreover have "loader_signal_threads ?w (?ld started) h
      = (?ld (started\<lparr>lt_cmd := LDTCPCMD_ACCEPT\<rparr>), TryLockTcp # TryLockGecko # h)"
    by (simp add: loader_signal_threads_def loader_gecko_initialized_def gecko_zero_def loader_tcp_initialized_def
        started_def peer_def)
  ultimately have "?reach (?ld (started\<lparr>lt_cmd := LDTCPCMD_ACCEPT\<rparr>)) (TryLockTcp # TryLockGecko # h)"
    using reach_signal by blast
  moreover obtain h' where "tcp_wake ?w no_time (started\<lparr>lt_cmd := LDTCPCMD_ACCEPT\<rparr>) (TryLockTcp # TryLockGecko # h)
      = Some (accepted, h')"
    using started_accept_wake[of "TryLockTcp # TryLockGecko # h"] h(2) by auto
  ultimately have r: "?reach (?ld accepted) h'" using reach_wake by fastforce
  have "mset (open_socks ?w h') = {#3, 5#}"
    using tcp_thread_sockets[OF r] by (simp add: own_socks_def accepted_def started_def add_mset_commute)
  with r show ?thesis by (intro exI[of _ "?ld accepted"] exI[of _ h']) simp
qed


text \<open>Loading it: the compressed data are two bytes, which \<open>inflate\<close> turns into four.\<close>

definition inflate :: uncompress where "inflate src room = (0, take (unat room) [9, 8, 7, 6])"

definition tcp_load :: ld_load_arg where
  "tcp_load = \<lparr>la_cmd = LDC_TCP, la_data_len = 2, la_data = 0x933dffc0, la_data_len_un = 4,
     la_data_un = 0x933dffe0, la_args_len = 2, la_fd = 5\<rparr>"

lemma tcp_load_received:
  assumes "read_pos 20 5 h = 16"
  shows "\<exists>h'. ld_load_func (peer sample_stream) no_time inflate tcp_load m h
    = Some (LDS_SUCCESS, mem_write (mem_write m 0x933dffc0 [1, 2, 0x61, 0]) 0x933dffe0 [9, 8, 7, 6], h')"
proof -
  have len: "length sample_stream = 20" and dr: "drop 16 sample_stream = [1, 2, 0x61, 0]"
    by (simp_all add: sample_stream_def sample_request_def)
  obtain h' where "tcp_read (peer sample_stream) no_time 5 4 True h = Some (True, [1, 2, 0x61, 0], h')"
    using peer_reads[of 4 sample_stream 5 h True] assms len dr by auto
  then show ?thesis
    by (simp add: ld_load_func_def ld_receive_def ld_uncompress_def tcp_load_def inflate_def)
qed

theorem load_func_success_witness:
  "\<exists>h h' got. ld_load_func (peer sample_stream) no_time inflate tcp_load (\<lambda>_. 0) h
      = Some (LDS_SUCCESS, mem_write (mem_write (\<lambda>_. 0) 0x933dffc0 [1, 2, 0x61, 0]) 0x933dffe0 [9, 8, 7, 6], h')
    \<and> arrived (peer sample_stream) tcp_load h' = arrived (peer sample_stream) tcp_load h @ got \<and> length got = 4"
proof -
  have "read_pos 20 5 [NetRead 5 16] = 16" by simp
  from tcp_load_received[OF this] obtain h' where
    run: "ld_load_func (peer sample_stream) no_time inflate tcp_load (\<lambda>_. 0) [NetRead 5 16]
      = Some (LDS_SUCCESS, mem_write (mem_write (\<lambda>_. 0) 0x933dffc0 [1, 2, 0x61, 0]) 0x933dffe0 [9, 8, 7, 6], h')"
    by blast
  from load_func_success[OF peer_honest run] run show ?thesis
    by (intro exI[of _ "[NetRead 5 16]"] exI[of _ h']) (auto simp: tcp_load_def)
qed

lemma accepted_load:
  assumes "read_pos 20 5 h = 16"
  shows "\<exists>x. loader_load (peer sample_stream) no_time inflate zw ae None \<lparr>ta_gecko = gecko_zero, ta_tcp = accepted\<rparr>
      sample_arena m h z = Some (\<lparr>ta_gecko = gecko_zero, ta_tcp = accepted\<lparr>lt_handshaked := False\<rparr>\<rparr>, Ret x)
    \<and> r_type (le_result x) = LT_EXECUTABLE"
proof -
  let ?w = "peer sample_stream"
  let ?h1 = "TryLockTcp # TryLockGecko # h"
  let ?ld = "\<lparr>ta_gecko = gecko_zero, ta_tcp = accepted\<lparr>lt_handshaked := False\<rparr>\<rparr>"
  define ta where "ta = tcp_load\<lparr>la_data := 0, la_data_un := 0\<rparr>"
  have src: "load_source ?w ae None \<lparr>ta_gecko = gecko_zero, ta_tcp = accepted\<rparr> h = (Some (ta, ''''), ?ld, ?h1)"
    by (simp add: load_source_def gecko_zero_def accepted_def started_def peer_def ta_def tcp_load_def)
  obtain a where al: "load_alloc ta sample_arena = Ret (True, tcp_load, a)"
    and free: "\<exists>a1. blob_free 0x933dffc0 a = Ret a1 \<and> blob_free 0x933dffe0 a1 = Ret sample_arena"
    by (simp add: load_alloc_def alloc_buffers_def ta_def tcp_load_def blob_alloc_def blob_addr_def sample_arena_def
        MAX_BLOBS_def BLOB_MINSLACK_def blob_free_def)
  obtain h' where f: "ld_load_func ?w no_time inflate tcp_load m (CreateThread # MutexInit # ?h1)
      = Some (LDS_SUCCESS, mem_write (mem_write m 0x933dffc0 [1, 2, 0x61, 0]) 0x933dffe0 [9, 8, 7, 6], h')"
    using tcp_load_received[of "CreateThread # MutexInit # ?h1"] assms by auto
  have ok: "nret (?w ?h1 MutexInit) = 0" "nret (?w (MutexInit # ?h1) CreateThread) = 0" by (simp_all add: peer_def)
  have z: "\<not> manage_is_zip (mem_read (mem_write k 0x933dffe0 [9, 8, 7, 6]) 0x933dffe0 4)" for k
  proof -
    have e: "length [9, 8, 7, 6 :: u8] = 4" by simp
    show ?thesis
      using mem_read_write_same[of "[9, 8, 7, 6]" k "0x933dffe0"] unfolding e by (simp add: manage_is_zip_def)
  qed
  show ?thesis
    using free by (simp add: loader_load_def src al f ok)
      (auto simp: load_finish_def load_text_def load_classify_def tcp_load_def z Let_def)
qed


theorem loader_load_arena_witness:
  "\<exists>h ld' x. loader_load (peer sample_stream) no_time inflate (two_entries ''a'' ''b'') boot_state None
      \<lparr>ta_gecko = gecko_zero, ta_tcp = accepted\<rparr> sample_arena (\<lambda>_. 0) h [] = Some (ld', Ret x)
    \<and> blob_free (r_data (le_result x)) (le_arena x) = Ret sample_arena"
proof -
  have "read_pos 20 5 [NetRead 5 16] = 16" by simp
  from accepted_load[OF this] obtain ld' x where
    run: "loader_load (peer sample_stream) no_time inflate (two_entries ''a'' ''b'') boot_state None
        \<lparr>ta_gecko = gecko_zero, ta_tcp = accepted\<rparr> sample_arena (\<lambda>_. 0) [NetRead 5 16] [] = Some (ld', Ret x)"
    and t: "r_type (le_result x) = LT_EXECUTABLE"
    by blast
  have ok: "arena_ok sample_arena" "length (blobs sample_arena) + 2 \<le> MAX_BLOBS"
    by (simp_all add: arena_ok_def sample_arena_def MAX_BLOBS_def)
  have un: "lg_data_len_un (ta_gecko \<lparr>ta_gecko = gecko_zero, ta_tcp = accepted\<rparr>) \<le> arena2hi sample_arena"
    "lt_data_len_un (ta_tcp \<lparr>ta_gecko = gecko_zero, ta_tcp = accepted\<rparr>) \<le> arena2hi sample_arena"
    by (simp_all add: gecko_zero_def accepted_def sample_arena_def)
  have w: "nret (peer sample_stream h MutexInit) = 0 \<and> nret (peer sample_stream h CreateThread) = 0" for h
    by (simp add: peer_def)
  from loader_load_arena[OF ok un w run] run t show ?thesis
    by (intro exI[of _ "[NetRead 5 16]"] exI[of _ ld'] exI[of _ x]) simp
qed

text \<open>A file of which nothing is left.\<close>

definition file_load :: ld_load_arg where
  "file_load = tcp_load\<lparr>la_cmd := LDC_FILE, la_data_un := 0, la_args_len := 0, la_fd := 4\<rparr>"

lemma short_file_hangs_example: "ld_load_func (peer []) no_time inflate file_load (\<lambda>_. 0) [] = None"
proof (rule short_file_hangs)
  show "honest_sources (peer [])" by (rule peer_honest)
  show "la_cmd file_load = LDC_FILE" by (simp add: file_load_def)
  show "0 \<le> nret (peer [] h (FileRead (la_fd file_load) n))" for h n by (simp add: peer_def)
  have "file_bytes (peer []) fd k = []" for fd k
    by (induction "peer []" fd k rule: file_bytes.induct) (simp_all add: peer_def)
  then show "length (file_bytes (peer []) (la_fd file_load) k)
      < length (file_bytes (peer []) (la_fd file_load) []) + unat (la_data_len file_load + ucast (la_args_len file_load))" for k
    by (simp add: file_load_def tcp_load_def)
qed


section \<open>A load that has a result\<close>

lemma load_classify_fields:
  assumes "load_classify zw entry f ta x = Ret y" and "la_cmd ta \<noteq> LDC_FILE"
  shows "le_mem y = le_mem x \<and> r_data (le_result y) = la_data ta \<and> r_data_len (le_result y) = la_data_len ta
    \<and> r_args (le_result y) = r_args (le_result x) \<and> r_args_len (le_result y) = r_args_len (le_result x)"
  using assms by (auto simp: load_classify_def Let_def bind_ret_eq_Ret split: if_splits prod.splits)

lemma loader_load_result:
  assumes "loader_load w elapsed uncompress zw ae entry ld a m h z = Some (ld', Ret x)"
    and src: "load_source w ae entry ld h = (Some (ta0, f), ld1, h1)" and "la_cmd ta0 \<noteq> LDC_FILE"
    and "r_type (le_result x) \<noteq> LT_UNKNOWN"
  obtains ta a1 h2 where "load_alloc ta0 a = Ret (True, ta, a1)"
    and "ld_load_func w elapsed uncompress ta m (CreateThread # MutexInit # h1) = Some (LDS_SUCCESS, le_mem x, h2)"
    and "r_data (le_result x) = (if la_data_len_un ta = 0 then la_data ta else la_data_un ta)"
    and "r_data_len (le_result x) = (if la_data_len_un ta = 0 then la_data_len ta else la_data_len_un ta)"
    and "r_args (le_result x) = (if la_data_len_un ta = 0 \<or> la_args_len ta = 0 then []
           else mem_read (le_mem x) (la_data ta + la_data_len ta) (unat (la_args_len ta)))"
    and "r_args_len (le_result x) = (if la_data_len_un ta = 0 then 0 else ucast (la_args_len ta))"
proof -
  obtain ok ta a1 where al: "load_alloc ta0 a = Ret (ok, ta, a1)"
    using assms(1) src by (auto simp: loader_load_def split: ret.splits)
  have ok: ok using assms(1,4) src al by (auto simp: loader_load_def no_result_def split: if_splits)
  have cmd: "la_cmd ta \<noteq> LDC_FILE" using load_alloc_keeps[OF al] assms(3) by simp
  obtain st m1 h2 where f: "ld_load_func w elapsed uncompress ta m (CreateThread # MutexInit # h1) = Some (st, m1, h2)"
    and fin: "load_finish zw entry f ta st \<lparr>le_result = no_result, le_message = None, le_arena = a1, le_mem = m1,
          le_calls = h2, le_zip = z\<rparr> = Ret x"
    using assms(1) src al ok by (auto simp: loader_load_def split: if_splits option.splits)
  have none: "load_text st = None"
  proof (cases "load_text st")
    case (Some t)
    then show ?thesis
      using fin assms(4) by (auto simp: load_finish_def no_result_def Let_def bind_ret_eq_Ret split: if_splits)
  qed
  have "st \<noteq> LDS_RUNNING"
    using f by (auto simp: ld_load_func_def ld_uncompress_def Let_def split: option.splits if_splits prod.splits)
  then have st: "st = LDS_SUCCESS" using none by (cases st) (simp_all add: load_text_def)
  have "le_mem x = m1
    \<and> r_data (le_result x) = (if la_data_len_un ta = 0 then la_data ta else la_data_un ta)
    \<and> r_data_len (le_result x) = (if la_data_len_un ta = 0 then la_data_len ta else la_data_len_un ta)
    \<and> r_args (le_result x) = (if la_data_len_un ta = 0 \<or> la_args_len ta = 0 then []
           else mem_read m1 (la_data ta + la_data_len ta) (unat (la_args_len ta)))
    \<and> r_args_len (le_result x) = (if la_data_len_un ta = 0 then 0 else ucast (la_args_len ta))"
    using fin none cmd
    by (auto simp: load_finish_def no_result_def Let_def bind_ret_eq_Ret dest!: load_classify_fields split: if_splits)
  then show ?thesis using that[OF _ _ ] al ok f st by auto
qed

text \<open>The two buffers do not overlap, and neither wraps around.\<close>

lemma blob_alloc_below:
  assumes "arena_ok a" and "n \<le> arena2hi a" and "blob_alloc n a = Ret (p, a')" and "p \<noteq> 0"
  shows "unat p + unat n \<le> unat (arena2hi a) \<and> arena2hi a' = p \<and> arena2lo a' = arena2lo a
    \<and> unat (arena2lo a) + 524288 \<le> unat p \<and> arena_ok a'"
  using assms(3)
proof (cases rule: blob_alloc_cases)
  case blob
  then show ?thesis
    using blob_addr_bounds[of n a] assms(1,2) arena_ok_alloc[OF assms(1) _ assms(3)]
    by (auto simp: word_le_nat_alt arena_ok_def slack_less_iff)
qed (use assms(4) in simp)

lemma load_alloc_layout:
  assumes "arena_ok a" and "0x90000000 \<le> arena2lo a" and "load_alloc ta0 a = Ret (True, ta, a')"
    and "la_data_len_un ta0 \<le> LD_MAX_SIZE" and "unat (la_data_len ta0 + ucast (la_args_len ta0)) \<le> 0x02000000"
    and "arena2lo a \<le> arena2hi a"
  shows "unat (la_data ta) + unat (la_data_len ta + ucast (la_args_len ta)) < 4294967296"
    and "la_data_len_un ta \<noteq> 0 \<Longrightarrow> unat (la_data ta) + unat (la_data_len ta + ucast (la_args_len ta)) \<le> unat (la_data_un ta)
      \<and> unat (la_data_un ta) + unat (la_data_len_un ta) < 4294967296"
    and "la_data_un ta = 0 \<longleftrightarrow> la_data_len_un ta = 0"
proof -
  define ta1 where "ta1 = (if la_data_len ta0 = la_data_len_un ta0 then ta0\<lparr>la_data_len_un := 0\<rparr> else ta0)"
  define n where "n = la_data_len ta1 + ucast (la_args_len ta1)"
  have al: "alloc_buffers ta1 a = Ret (True, ta, a')" using assms(3) by (simp add: load_alloc_def ta1_def)
  have n: "unat n \<le> 0x02000000" using assms(5) by (cases "la_data_len ta0 = la_data_len_un ta0") (simp_all add: n_def ta1_def)
  have big: "x \<le> LD_MAX_SIZE \<Longrightarrow> x \<le> arena2hi a" for x
    using assms(2,6) by (simp add: ld_addr_values word_le_nat_alt)
  have un: "la_data_len_un ta1 \<le> arena2hi a" using assms(4) big by (simp add: ta1_def split: if_splits)
  have hi: "unat (arena2hi a) < 4294967296" using unsigned_less[of "arena2hi a", where ?'a = nat] by simp
  have lo: "0x90000000 \<le> unat (arena2lo a)" using assms(2) by (simp add: word_le_nat_alt)
  obtain p a1 q where p: "(if la_data_len_un ta1 \<noteq> 0 then blob_alloc (la_data_len_un ta1) a else Ret (0, a)) = Ret (p, a1)"
    and q: "blob_alloc n a1 = Ret (q, a')" "q \<noteq> 0" and ta: "ta = ta1\<lparr>la_data_un := p, la_data := q\<rparr>"
    and p0: "la_data_len_un ta1 \<noteq> 0 \<Longrightarrow> p \<noteq> 0"
    using al unfolding alloc_buffers_def n_def[symmetric] by (auto simp: bind_ret_eq_Ret split: if_splits)
  have fields: "la_data ta = q" "la_data_un ta = p" "la_data_len_un ta = la_data_len_un ta1"
    "la_data_len ta + ucast (la_args_len ta) = n"
    by (simp_all add: ta n_def)
  show "la_data_un ta = 0 \<longleftrightarrow> la_data_len_un ta = 0" using p p0 fields by (auto split: if_splits)
  have both: "unat q + unat n < 4294967296 \<and> (la_data_len_un ta1 \<noteq> 0 \<longrightarrow> unat q + unat n \<le> unat p
      \<and> unat p + unat (la_data_len_un ta1) < 4294967296)"
  proof (cases "la_data_len_un ta1 = 0")
    case True
    then have "a1 = a" using p by simp
    moreover have "n \<le> arena2hi a" using n lo assms(6) by (simp add: word_le_nat_alt)
    ultimately have "unat q + unat n \<le> unat (arena2hi a)" using blob_alloc_below[OF assms(1) _ _ q(2)] q(1) by blast
    then show ?thesis using True hi by linarith
  next
    case False
    then have b: "unat p + unat (la_data_len_un ta1) \<le> unat (arena2hi a)" "arena2hi a1 = p" "arena_ok a1"
      "unat (arena2lo a) + 524288 \<le> unat p"
      using blob_alloc_below[OF assms(1) un _ p0] p by auto
    have "n \<le> arena2hi a1" using n lo b by (simp add: word_le_nat_alt)
    then have "unat q + unat n \<le> unat p" using blob_alloc_below[OF b(3) _ q] b(2) by simp
    then show ?thesis using b(1) hi by linarith
  qed
  then show "unat (la_data ta) + unat (la_data_len ta + ucast (la_args_len ta)) < 4294967296"
    and "la_data_len_un ta \<noteq> 0 \<Longrightarrow> unat (la_data ta) + unat (la_data_len ta + ucast (la_args_len ta)) \<le> unat (la_data_un ta)
      \<and> unat (la_data_un ta) + unat (la_data_len_un ta) < 4294967296"
    unfolding fields by auto
qed

text \<open>When the program ends, the TCP thread forgets an upload it has accepted, with its socket still open.\<close>

lemma exit_forgets_upload:
  assumes "tcp_inv w base ta h" and "lt_handshaked ta" and "lt_running ta"
  shows "\<exists>ta' h'. tcp_wake w elapsed (ta\<lparr>lt_cmd := LDTCPCMD_EXIT\<rparr>) h = Some (ta', h')
    \<and> \<not> lt_running ta' \<and> mset (open_socks w h') = add_mset (lt_s ta) base"
proof -
  let ?e = "ta\<lparr>lt_cmd := LDTCPCMD_EXIT\<rparr>"
  obtain ta' h' where p: "tcp_pass w elapsed (?e, h) = Some (ta', h')" "\<not> lt_running ta'"
    "mset (open_socks w h') = add_mset (lt_s ta) base"
    using assms by (auto simp: tcp_pass_def tcp_thread_exit_def Let_def tcp_inv_def own_socks_def)
  then have "tcp_wake w elapsed ?e h = Some (ta', h')"
    using assms(3) by (intro tcp_wake_once) (auto simp: tcp_busy_def)
  then show ?thesis using p by blast
qed

end
