(* ===== verification/Xml.thy ===== *)
theory Xml
  imports HBC_Prelude
begin

text \<open>
  \<^verbatim>\<open>channelapp/source/xml.c\<close>: what is read out of \<^verbatim>\<open>meta.xml\<close>, \<^verbatim>\<open>theme.xml\<close> and the update description. The
  parser is the library \<^verbatim>\<open>mxml\<close>, a parameter: a record of the queries the code makes on its nodes.
  Strings of a theme live on a heap of their own, because the code shares and frees their pointers.
\<close>

section \<open>The queries\<close>

text \<open>
  \<open>mx_find\<close> is \<^verbatim>\<open>mxmlFindElement (.., MXML_DESCEND_FIRST)\<close> below a node; \<open>mx_each\<close> the nodes found by
  repeating it from each hit with \<^verbatim>\<open>MXML_NO_DESCEND\<close>, from a node on and below a top node; \<open>mx_children\<close> what \<^verbatim>\<open>mxmlGetFirstChild\<close> and
  \<^verbatim>\<open>mxmlWalkNext\<close> visit; \<open>mx_opaque\<close> the text of an opaque node.
\<close>

record 'n mxml =
  mx_load :: "u8 list \<Rightarrow> 'n option"
  mx_find :: "'n \<Rightarrow> string \<Rightarrow> 'n option"
  mx_each :: "'n \<Rightarrow> 'n \<Rightarrow> string \<Rightarrow> 'n list"
  mx_children :: "'n \<Rightarrow> 'n list"
  mx_opaque :: "'n \<Rightarrow> u8 list option"
  mx_attr :: "'n \<Rightarrow> string \<Rightarrow> u8 list option"

definition bytes :: "string \<Rightarrow> u8 list" where "bytes s = map of_char s"

fun first_opaque :: "'n mxml \<Rightarrow> 'n list \<Rightarrow> u8 list option" where
  "first_opaque x [] = None"
| "first_opaque x (n # ns) = (case mx_opaque x n of Some s \<Rightarrow> Some s | None \<Rightarrow> first_opaque x ns)"

definition get_cdata :: "'n mxml \<Rightarrow> 'n option \<Rightarrow> u8 list option" where
  "get_cdata x node = (case node of None \<Rightarrow> None | Some n \<Rightarrow> first_opaque x (mx_children x n))"

definition get_elem_cdata :: "'n mxml \<Rightarrow> 'n option \<Rightarrow> string \<Rightarrow> u8 list option" where
  "get_elem_cdata x node element = (case node of None \<Rightarrow> None | Some n \<Rightarrow> get_cdata x (mx_find x n element))"

text \<open>\<^verbatim>\<open>atoi\<close> of the C library: blanks, a sign, digits; \<^verbatim>\<open>strtol\<close> stops at the ends of 32 bits.\<close>

definition blank :: "u8 \<Rightarrow> bool" where
  "blank c \<longleftrightarrow> c = 32 \<or> (9 \<le> c \<and> c \<le> 13)"

definition digit :: "u8 \<Rightarrow> bool" where
  "digit c \<longleftrightarrow> 48 \<le> c \<and> c \<le> 57"

definition number_of :: "u8 list \<Rightarrow> int" where
  "number_of ds = foldl (\<lambda>a c. a * 10 + (int (unat c) - 48)) 0 ds"

definition atoi :: "u8 list \<Rightarrow> int" where
  "atoi s =
     (let s1 = dropWhile blank s;
          minus = (s1 \<noteq> [] \<and> hd s1 = 45);
          s2 = (if s1 \<noteq> [] \<and> (hd s1 = 45 \<or> hd s1 = 43) then tl s1 else s1);
          v = number_of (takeWhile digit s2)
      in max (- (2 ^ 31)) (min (2 ^ 31 - 1) (if minus then - v else v)))"

definition get_elem_int :: "'n mxml \<Rightarrow> 'n option \<Rightarrow> string \<Rightarrow> int \<Rightarrow> int" where
  "get_elem_int x node element std =
     (case node of
        None \<Rightarrow> std
      | Some n \<Rightarrow> (case get_cdata x (mx_find x n element) of None \<Rightarrow> std | Some s \<Rightarrow> atoi s))"

section \<open>Colours\<close>

definition NO_COLOR :: u32 where "NO_COLOR = 0x0DEADF00"

fun color_channels :: "'n mxml \<Rightarrow> 'n \<Rightarrow> string list \<Rightarrow> u32 \<Rightarrow> u32 option" where
  "color_channels x node [] res = Some res"
| "color_channels x node (ch # chs) res =
     (let res1 = push_bit 8 res; c = get_elem_int x (Some node) ch (-1)
      in if c < 0 \<or> c > 255 then None else color_channels x node chs (res1 OR (word_of_int c AND 0xff)))"

text \<open>\<open>None\<close> when the colour is left as it is.\<close>

definition get_color :: "'n mxml \<Rightarrow> 'n option \<Rightarrow> string \<Rightarrow> u32 option" where
  "get_color x node element =
     (case node of
        None \<Rightarrow> None
      | Some n \<Rightarrow>
          (case mx_find x n element of
             None \<Rightarrow> None
           | Some m \<Rightarrow> color_channels x m [''red'', ''green'', ''blue'', ''alpha''] 0))"

record theme_gradient =
  gr_ul :: u32
  gr_ur :: u32
  gr_lr :: u32
  gr_ll :: u32

definition get_gradient :: "'n mxml \<Rightarrow> 'n option \<Rightarrow> string \<Rightarrow> theme_gradient option" where
  "get_gradient x node element =
     (case node of
        None \<Rightarrow> None
      | Some n \<Rightarrow>
          (case mx_find x n element of
             None \<Rightarrow> None
           | Some m \<Rightarrow>
               (case map (\<lambda>corner. get_color x (Some m) corner)
                       [''upper_left'', ''upper_right'', ''lower_right'', ''lower_left''] of
                  [Some c0, Some c1, Some c2, Some c3] \<Rightarrow>
                    Some \<lparr>gr_ul = c0, gr_ur = c1, gr_lr = c3, gr_ll = c2\<rparr>
                | _ \<Rightarrow> None)))"

section \<open>Arguments of an application\<close>

text \<open>The length of the arguments in the 16 bits the code uses, with a separator between two of them.\<close>

fun args_len :: "u8 list option list \<Rightarrow> u16 \<Rightarrow> u16" where
  "args_len [] len = len"
| "args_len (None # as) len = args_len as len"
| "args_len (Some a # as) len =
     args_len as ((if len \<noteq> 0 then len + 1 else len) + of_nat (length a))"

text \<open>
  The second pass: the writes into the buffer, each an offset and bytes, and the final length. \<^verbatim>\<open>strcpy\<close>
  writes the terminating NUL, too.
\<close>

fun args_writes :: "u8 list option list \<Rightarrow> u16 \<Rightarrow> (nat \<times> u8 list) list \<times> u16" where
  "args_writes [] len = ([(unat len, [0])], len)"
| "args_writes (None # as) len = args_writes as len"
| "args_writes (Some a # as) len =
     (let len1 = (if len \<noteq> 0 then len + 1 else len);
          sep = (if len \<noteq> 0 then [(unat len, [0])] else []);
          (ws, n) = args_writes as (len1 + of_nat (length a))
      in (sep @ (unat len1, a @ [0]) # ws, n))"

text \<open>The size of the buffer, the writes into it and the length, or no arguments.\<close>

definition get_args :: "'n mxml \<Rightarrow> 'n option \<Rightarrow> string \<Rightarrow> (u16 \<times> (nat \<times> u8 list) list \<times> u16) option" where
  "get_args x node element =
     (case node of
        None \<Rightarrow> None
      | Some n \<Rightarrow>
          (case mx_find x n element of
             None \<Rightarrow> None
           | Some m \<Rightarrow>
               (let args = map (\<lambda>k. get_cdata x (Some k)) (mx_each x m m ''arg'');
                    len = args_len args 0
                in if len = 0 then None
                   else
                     let len1 = len + 1
                     in if len1 > 1024 then None
                        else (case args_writes args 0 of (ws, n) \<Rightarrow> Some (len1, ws, n)))))"

text \<open>What the writes leave in a buffer.\<close>

definition write_at :: "(nat \<Rightarrow> u8) \<Rightarrow> nat \<times> u8 list \<Rightarrow> nat \<Rightarrow> u8" where
  "write_at b = (\<lambda>(off, bs) i. if off \<le> i \<and> i < off + length bs then bs ! (i - off) else b i)"

definition after_writes :: "(nat \<Rightarrow> u8) \<Rightarrow> (nat \<times> u8 list) list \<Rightarrow> nat \<Rightarrow> u8" where
  "after_writes b ws = foldl write_at b ws"


text \<open>The arguments joined by NUL bytes; nothing separates a leading empty argument.\<close>

fun join_args :: "u8 list option list \<Rightarrow> u8 list \<Rightarrow> u8 list" where
  "join_args [] acc = acc"
| "join_args (None # as) acc = join_args as acc"
| "join_args (Some a # as) acc = join_args as ((if acc \<noteq> [] then acc @ [0] else acc) @ a)"

lemma join_args_longer: "length acc \<le> length (join_args as acc)"
proof (induction as acc rule: join_args.induct)
  case (3 a as acc)
  then show ?case by (auto split: if_splits)
qed simp_all

definition holds :: "(nat \<Rightarrow> u8) \<Rightarrow> u8 list \<Rightarrow> bool" where
  "holds b bs \<longleftrightarrow> (\<forall>i < length bs. b i = bs ! i)"

lemma holds_Nil [simp]: "holds b []"
  by (simp add: holds_def)

lemma holds_write: "holds b acc \<Longrightarrow> holds (write_at b (length acc, bs)) (acc @ bs)"
  by (auto simp: holds_def write_at_def nth_append)

lemma holds_prefix: "holds b (xs @ ys) \<Longrightarrow> holds b xs"
  by (auto simp: holds_def nth_append split: if_splits)

lemma args_writes_joined:
  assumes "length (join_args as acc) < 65535" and "holds b acc"
    and "args_writes as (of_nat (length acc)) = (ws, n)"
  shows "args_len as (of_nat (length acc)) = of_nat (length (join_args as acc)) \<and> n = of_nat (length (join_args as acc))
    \<and> (\<forall>(off, bs)\<in>set ws. off + length bs \<le> length (join_args as acc) + 1)
    \<and> holds (after_writes b ws) (join_args as acc @ [0])"
  using assms
proof (induction as acc arbitrary: b ws n rule: join_args.induct)
  case (1 acc)
  have "unat (of_nat (length acc) :: u16) = length acc" using 1(1) by (simp add: unat_of_nat take_bit_eq_mod)
  then show ?case using 1 holds_write[OF 1(2), of "[0]"] by (auto simp: after_writes_def)
next
  case (2 as acc)
  then show ?case by simp
next
  case (3 a as acc)
  define acc1 where "acc1 = (if acc \<noteq> [] then acc @ [0] else acc)"
  have J: "join_args (Some a # as) acc = join_args as (acc1 @ a)" by (simp add: acc1_def)
  have short: "length (acc1 @ a) < 65535" "length acc \<le> length (acc1 @ a)"
    using join_args_longer[of "acc1 @ a" as] 3(2) unfolding J by (auto simp: acc1_def)
  have u: "unat (of_nat k :: u16) = k" if "k \<le> length (acc1 @ a)" for k
    using that short by (simp add: unat_of_nat take_bit_eq_mod)
  have z: "of_nat (length acc) = (0 :: u16) \<longleftrightarrow> acc = []"
    using u[OF short(2)] by auto
  have l1: "(if acc \<noteq> [] then of_nat (length acc) + 1 else of_nat (length acc)) = (of_nat (length acc1) :: u16)"
    by (simp add: acc1_def)
  have l2: "(of_nat (length acc1) :: u16) + of_nat (length a) = of_nat (length (acc1 @ a))" by simp
  obtain ws1 where w: "args_writes as (of_nat (length (acc1 @ a))) = (ws1, n)"
    and ws: "ws = (if acc \<noteq> [] then [(length acc, [0])] else []) @ (length acc1, a @ [0]) # ws1"
    using 3(4) u[OF short(2)] u[of "length acc1"] unfolding args_writes.simps Let_def z l1 l2 by (auto split: prod.splits)
  define b1 where "b1 = (if acc \<noteq> [] then write_at b (length acc, [0]) else b)"
  have "holds b1 acc1" using 3(3) holds_write[OF 3(3), of "[0]"] by (simp add: b1_def acc1_def)
  then have h: "holds (write_at b1 (length acc1, a @ [0])) (acc1 @ a)"
    using holds_write[of b1 acc1 "a @ [0]"] holds_prefix[of _ "acc1 @ a" "[0]"] by simp
  have IH: "args_len as (of_nat (length (acc1 @ a))) = of_nat (length (join_args as (acc1 @ a)))
    \<and> n = of_nat (length (join_args as (acc1 @ a)))
    \<and> (\<forall>(off, bs)\<in>set ws1. off + length bs \<le> length (join_args as (acc1 @ a)) + 1)
    \<and> holds (after_writes (write_at b1 (length acc1, a @ [0])) ws1) (join_args as (acc1 @ a) @ [0])"
    using 3(1)[OF _ h[unfolded acc1_def] w[unfolded acc1_def]] 3(2) unfolding J acc1_def by blast
  have aw: "after_writes b ws = after_writes (write_at b1 (length acc1, a @ [0])) ws1"
    by (simp add: ws after_writes_def b1_def)
  have len: "args_len (Some a # as) (of_nat (length acc)) = args_len as (of_nat (length (acc1 @ a)))"
    unfolding args_len.simps z l1 l2 ..
  have bnd: "length acc1 + length (a @ [0]) \<le> length (join_args as (acc1 @ a)) + 1"
    "acc \<noteq> [] \<Longrightarrow> length acc + 1 \<le> length (join_args as (acc1 @ a)) + 1"
    using join_args_longer[of "acc1 @ a" as] by (simp_all add: acc1_def)
  show ?case
    unfolding J aw len using IH bnd by (auto simp: ws)
qed


text \<open>
  As long as the arguments and their separators are shorter than 64 KiB, \<^verbatim>\<open>_get_args\<close> returns them joined by
  NUL bytes and terminated, in a buffer of exactly that size, of at most 1024 bytes, and writes nothing
  outside it.
\<close>

lemma get_args_joined:
  assumes "get_args x node el = Some (sz, ws, n)" and "node = Some m" and "mx_find x m el = Some k"
    and "length (join_args (map (\<lambda>c. get_cdata x (Some c)) (mx_each x k k ''arg'')) []) < 65535"
  shows "\<exists>joined. joined = join_args (map (\<lambda>c. get_cdata x (Some c)) (mx_each x k k ''arg'')) []
    \<and> unat n = length joined \<and> unat sz = length joined + 1 \<and> unat sz \<le> 1024
    \<and> (\<forall>(off, bs)\<in>set ws. off + length bs \<le> unat sz)
    \<and> map (after_writes b ws) [0..<unat sz] = joined @ [0]"
proof -
  define as where "as = map (\<lambda>c. get_cdata x (Some c)) (mx_each x k k ''arg'')"
  define J where "J = join_args as []"
  have J: "length J < 65535" using assms(4) by (simp add: J_def as_def)
  have h: "holds b []" by simp
  have sz: "sz = args_len as 0 + 1" "\<not> sz > 1024" and w: "args_writes as (of_nat (length ([] :: u8 list))) = (ws, n)"
    using assms(1-3) by (auto simp: get_args_def Let_def as_def split: if_splits prod.splits)
  note r = args_writes_joined[OF J[unfolded J_def] h w, folded J_def]
  have "sz = of_nat (Suc (length J))" using r sz(1) by simp
  then have s: "unat sz = Suc (length J)" using J by (simp add: unat_of_nat take_bit_eq_mod del: of_nat_Suc)
  moreover have "unat n = length J" using r J by (simp add: unat_of_nat take_bit_eq_mod)
  moreover have "unat sz \<le> 1024" using sz(2) by (simp add: word_less_nat_alt)
  moreover have "map (after_writes b ws) [0..<unat sz] = J @ [0]"
    using r s by (intro nth_equalityI) (simp_all add: holds_def del: upt_Suc)
  moreover have "\<forall>(off, bs)\<in>set ws. off + length bs \<le> unat sz" using r s by auto
  ultimately show ?thesis unfolding J_def as_def by simp
qed

text \<open>
  The length has 16 bits: longer arguments wrap around to a small buffer, and the first \<^verbatim>\<open>strcpy\<close> runs past
  its end.
\<close>

definition arg_doc :: "u8 list list \<Rightarrow> nat mxml" where
  "arg_doc args =
     \<lparr>mx_load = (\<lambda>_. Some 0), mx_find = (\<lambda>n el. Some 0), mx_each = (\<lambda>n top el. [1..<Suc (length args)]),
      mx_children = (\<lambda>n. [n]), mx_opaque = (\<lambda>n. Some (args ! (n - 1))), mx_attr = (\<lambda>n el. None)\<rparr>"

lemma get_args_overflow:
  "get_args (arg_doc [replicate 40000 65, replicate 25540 66]) (Some 0) ''arguments''
     = Some (6, [(0, replicate 40000 65 @ [0]), (40000, [0]), (40001, replicate 25540 66 @ [0]), (5, [0])], 5)"
  by (simp add: get_args_def arg_doc_def get_cdata_def Let_def upt_rec)

lemma get_args_joined_example:
  "\<exists>ws. get_args (arg_doc [[65, 66], [67]]) (Some 0) ''arguments'' = Some (5, ws, 4)
     \<and> map (after_writes (\<lambda>_. 0) ws) [0..<5] = [65, 66, 0, 67, 0]"
proof -
  have run: "get_args (arg_doc [[65, 66], [67]]) (Some 0) ''arguments''
      = Some (5, [(0, [65, 66, 0]), (2, [0]), (3, [67, 0]), (4, [0])], 4)"
    by (simp add: get_args_def arg_doc_def get_cdata_def Let_def upt_rec)
  have find: "mx_find (arg_doc [[65, 66], [67]]) 0 ''arguments'' = Some 0" by (simp add: arg_doc_def)
  have j: "join_args (map (\<lambda>c. get_cdata (arg_doc [[65, 66], [67]]) (Some c)) (mx_each (arg_doc [[65, 66], [67]]) 0 0 ''arg'')) []
      = [65, 66, 0, 67]"
    by (simp add: arg_doc_def get_cdata_def upt_rec)
  from get_args_joined[OF run refl find, of "\<lambda>_. 0", unfolded j] run show ?thesis by (auto simp: upt_rec)
qed

section \<open>Descriptions of applications and updates\<close>

text \<open>\<^verbatim>\<open>sscanf\<close> with conversions \<^verbatim>\<open>%Nd\<close>: the values that could be converted.\<close>

definition scan_d :: "nat \<Rightarrow> u8 list \<Rightarrow> (int \<times> u8 list) option" where
  "scan_d width s =
     (let s1 = take width (dropWhile blank s);
          minus = (s1 \<noteq> [] \<and> hd s1 = 45);
          s2 = (if s1 \<noteq> [] \<and> (hd s1 = 45 \<or> hd s1 = 43) then tl s1 else s1);
          ds = takeWhile digit s2; used = length s1 - length s2 + length ds
      in if ds = [] then None
         else Some (if minus then - number_of ds else number_of ds, drop used (dropWhile blank s)))"

fun scan_ds :: "nat list \<Rightarrow> u8 list \<Rightarrow> int list" where
  "scan_ds [] s = []"
| "scan_ds (n # ns) s = (case scan_d n s of None \<Rightarrow> [] | Some (v, s1) \<Rightarrow> v # scan_ds ns s1)"

text \<open>\<^verbatim>\<open>release_date\<close>; \<open>mktime\<close> is given year, month, day, hour, minute and second.\<close>

definition release_date_of :: "(int list \<Rightarrow> int) \<Rightarrow> u8 list \<Rightarrow> int" where
  "release_date_of mktime s =
     (let v = scan_ds [4, 2, 2, 2, 2, 2] s; v2 = scan_ds [4, 2, 2] s
      in if length v = 6 then mktime ((hd v - 1900) # tl v)
         else if length v2 = 3 then mktime ((hd v2 - 1900) # tl v2 @ [1, 0, 0])
         else 0)"

record meta_data =
  md_name :: "u8 list option"
  md_coder :: "u8 list option"
  md_version :: "u8 list option"
  md_release_date :: int
  md_short_description :: "u8 list option"
  md_long_description :: "u8 list option"
  md_args :: "(u16 \<times> (nat \<times> u8 list) list \<times> u16) option"
  md_ahb_access :: bool

text \<open>\<open>contents\<close> is what the opened file holds, \<open>None\<close> if it cannot be opened.\<close>

definition meta_parse :: "'n mxml \<Rightarrow> (int list \<Rightarrow> int) \<Rightarrow> u8 list option \<Rightarrow> meta_data option" where
  "meta_parse x mktime contents =
     (case contents of
        None \<Rightarrow> None
      | Some buf \<Rightarrow>
          (case mx_load x buf of
             None \<Rightarrow> None
           | Some root \<Rightarrow>
               (case mx_find x root ''app'' of
                  None \<Rightarrow> None
                | Some node \<Rightarrow>
                    let get = get_elem_cdata x (Some node)
                    in Some \<lparr>md_name = get ''name'',
                             md_coder = (case get ''author'' of Some s \<Rightarrow> Some s | None \<Rightarrow> get ''coder''),
                             md_version = get ''version'',
                             md_release_date = (case get ''release_date'' of None \<Rightarrow> 0 | Some s \<Rightarrow> release_date_of mktime s),
                             md_short_description = get ''short_description'',
                             md_long_description = get ''long_description'',
                             md_args = get_args x (Some node) ''arguments'',
                             md_ahb_access = (mx_find x node ''ahb_access'' \<noteq> None \<or> mx_find x node ''no_ios_reload'' \<noteq> None)\<rparr>)))"

record update_info =
  ui_version :: "u8 list option"
  ui_date :: u64
  ui_notes :: "u8 list option"
  ui_uri :: "u8 list option"
  ui_hash :: "u8 list option"

text \<open>\<^verbatim>\<open>sscanf\<close> with \<^verbatim>\<open>%llu\<close>: the value saturates and is negated as \<^verbatim>\<open>strtoull\<close> does.\<close>

definition scan_ull :: "u8 list \<Rightarrow> u64 option" where
  "scan_ull s =
     (let s1 = dropWhile blank s;
          minus = (s1 \<noteq> [] \<and> hd s1 = 45);
          s2 = (if s1 \<noteq> [] \<and> (hd s1 = 45 \<or> hd s1 = 43) then tl s1 else s1);
          ds = takeWhile digit s2; v = number_of ds
      in if ds = [] then None
         else if v \<ge> 2 ^ 64 then Some (- 1)
         else Some (if minus then - word_of_int v else word_of_int v))"

definition update_parse :: "'n mxml \<Rightarrow> u8 list \<Rightarrow> update_info option" where
  "update_parse x buf =
     (case mx_load x buf of
        None \<Rightarrow> None
      | Some root \<Rightarrow>
          (case mx_find x root ''app'' of
             None \<Rightarrow> None
           | Some node \<Rightarrow>
               let get = get_elem_cdata x (Some node)
               in Some \<lparr>ui_version = get ''version'',
                        ui_date = (case get ''date'' of None \<Rightarrow> 0 | Some s \<Rightarrow> (case scan_ull s of None \<Rightarrow> 0 | Some d \<Rightarrow> d)),
                        ui_notes = get ''notes'', ui_uri = get ''uri'', ui_hash = get ''hash''\<rparr>))"


section \<open>Themes\<close>

text \<open>The heap the strings of a theme live on; freeing a pointer that is not live is an error.\<close>

record str_heap =
  hp_strings :: "nat \<Rightarrow> u8 list option"
  hp_next :: nat

definition heap_free :: "nat option \<Rightarrow> str_heap \<Rightarrow> str_heap ret" where
  "heap_free p hp =
     (case p of
        None \<Rightarrow> Ret hp
      | Some a \<Rightarrow>
          (case hp_strings hp a of
             None \<Rightarrow> Panic
           | Some s \<Rightarrow> Ret (hp\<lparr>hp_strings := (hp_strings hp)(a := None)\<rparr>)))"

definition xmldup :: "u8 list option \<Rightarrow> str_heap \<Rightarrow> nat option \<times> str_heap" where
  "xmldup s hp =
     (case s of
        None \<Rightarrow> (None, hp)
      | Some t \<Rightarrow> (Some (hp_next hp),
                   hp\<lparr>hp_strings := (hp_strings hp)(hp_next hp \<mapsto> t), hp_next := Suc (hp_next hp)\<rparr>))"

record theme_font =
  tf_file :: "nat option"
  tf_size :: int
  tf_color :: u32

record theme_xml =
  tx_progress :: theme_gradient
  tx_description :: "nat option"
  tx_default_font :: theme_font
  tx_fonts :: "theme_font list"
  tx_langs :: int

definition targets :: "u8 list list" where
  "targets = map bytes [''label'', ''dlgtitle'', ''memo'', ''appname'', ''appdesc'', ''button'', ''button_desel'']"

text \<open>
  \<^verbatim>\<open>strtok\<close>: the delimiters of the first call are a comma and a blank, those of the others a comma only.
\<close>

definition strtok :: "u8 list \<Rightarrow> u8 list \<Rightarrow> (u8 list \<times> u8 list) option" where
  "strtok delims s =
     (let s1 = dropWhile (\<lambda>c. c \<in> set delims) s
      in if s1 = [] then None
         else Some (takeWhile (\<lambda>c. c \<notin> set delims) s1, tl (dropWhile (\<lambda>c. c \<notin> set delims) s1)))"

lemma strtok_shorter: "strtok delims s = Some (t, r) \<Longrightarrow> length r < length s"
proof -
  assume a: "strtok delims s = Some (t, r)"
  define s1 where "s1 = dropWhile (\<lambda>c. c \<in> set delims) s"
  define s2 where "s2 = dropWhile (\<lambda>c. c \<notin> set delims) s1"
  have "s1 \<noteq> []" "r = tl s2" using a by (auto simp: strtok_def s1_def s2_def Let_def split: if_splits)
  moreover have "length s1 \<le> length s" "length s2 \<le> length s1" by (simp_all add: s1_def s2_def length_dropWhile_le)
  ultimately show ?thesis by (cases s2; cases s1) auto
qed

function more_tokens :: "u8 list \<Rightarrow> u8 list list" where
  "more_tokens s = (case strtok (bytes '','') s of None \<Rightarrow> [] | Some (t, r) \<Rightarrow> t # more_tokens r)"
  by pat_completeness auto
termination by (relation "measure length") (auto dest: strtok_shorter)

declare more_tokens.simps [simp del]

definition tokens :: "u8 list \<Rightarrow> u8 list list" where
  "tokens s = (case strtok (bytes '', '') s of None \<Rightarrow> [] | Some (t, r) \<Rightarrow> t # more_tokens r)"

text \<open>One font entry takes over what the element gives; its old file is freed.\<close>

definition font_update :: "nat option \<Rightarrow> int \<Rightarrow> u32 \<Rightarrow> theme_font \<Rightarrow> str_heap \<Rightarrow> (theme_font \<times> str_heap) ret" where
  "font_update file sz col f hp =
     bind_ret (if file \<noteq> None then heap_free (tf_file f) hp else Ret hp) (\<lambda>hp1.
     Ret (f\<lparr>tf_file := if file \<noteq> None then file else tf_file f,
           tf_size := if sz \<noteq> 0 then sz else tf_size f,
           tf_color := if col \<noteq> NO_COLOR then col else tf_color f\<rparr>, hp1))"

fun font_token :: "u8 list \<Rightarrow> nat option \<Rightarrow> int \<Rightarrow> u32 \<Rightarrow> u8 list list \<Rightarrow> theme_font list \<Rightarrow> str_heap
    \<Rightarrow> (theme_font list \<times> str_heap) ret" where
  "font_token tok file sz col (t # ts) (f # fs) hp =
     bind_ret (if tok = t then font_update file sz col f hp else Ret (f, hp)) (\<lambda>(f1, hp1).
     bind_ret (font_token tok file sz col ts fs hp1) (\<lambda>(fs1, hp2). Ret (f1 # fs1, hp2)))"
| "font_token tok file sz col ts fs hp = Ret (fs, hp)"

fun font_tokens :: "u8 list list \<Rightarrow> nat option \<Rightarrow> int \<Rightarrow> u32 \<Rightarrow> theme_font list \<Rightarrow> str_heap
    \<Rightarrow> (theme_font list \<times> str_heap) ret" where
  "font_tokens [] file sz col fs hp = Ret (fs, hp)"
| "font_tokens (tok # toks) file sz col fs hp =
     bind_ret (font_token tok file sz col targets fs hp) (\<lambda>(fs1, hp1). font_tokens toks file sz col fs1 hp1)"

definition get_font :: "'n mxml \<Rightarrow> 'n \<Rightarrow> theme_xml \<Rightarrow> str_heap \<Rightarrow> (theme_xml \<times> str_heap) ret" where
  "get_font x node th hp =
     (case xmldup (get_elem_cdata x (Some node) ''file'') hp of
        (file, hp1) \<Rightarrow>
          let sz = get_elem_int x (Some node) ''size'' 0;
              col = (case get_color x (Some node) ''color'' of Some c \<Rightarrow> c | None \<Rightarrow> NO_COLOR)
          in case mx_attr x node ''target'' of
               Some (b # bs) \<Rightarrow>
                 bind_ret (font_tokens (tokens (b # bs)) file sz col (tx_fonts th) hp1) (\<lambda>(fs, hp2).
                 Ret (th\<lparr>tx_fonts := fs\<rparr>, hp2))
             | _ \<Rightarrow>
                 bind_ret (font_update file sz col (tx_default_font th) hp1) (\<lambda>(f, hp2).
                 Ret (th\<lparr>tx_default_font := f\<rparr>, hp2)))"

fun get_fonts :: "'n mxml \<Rightarrow> 'n list \<Rightarrow> theme_xml \<Rightarrow> str_heap \<Rightarrow> (theme_xml \<times> str_heap) ret" where
  "get_fonts x [] th hp = Ret (th, hp)"
| "get_fonts x (n # ns) th hp = bind_ret (get_font x n th hp) (\<lambda>(th1, hp1). get_fonts x ns th1 hp1)"

definition lang_bits :: "u8 list list \<Rightarrow> int" where
  "lang_bits toks = (if bytes ''ja'' \<in> set toks then 1 else 0) + (if bytes ''ko'' \<in> set toks then 2 else 0)
     + (if bytes ''zh'' \<in> set toks then 4 else 0)"

fun free_fonts :: "theme_font list \<Rightarrow> str_heap \<Rightarrow> str_heap ret" where
  "free_fonts [] hp = Ret hp"
| "free_fonts (f # fs) hp = bind_ret (heap_free (tf_file f) hp) (free_fonts fs)"

definition free_theme :: "theme_xml \<Rightarrow> str_heap \<Rightarrow> str_heap ret" where
  "free_theme th hp =
     bind_ret (heap_free (tx_description th) hp) (\<lambda>hp1.
     bind_ret (heap_free (tf_file (tx_default_font th)) hp1) (free_fonts (tx_fonts th)))"

definition no_font :: theme_font where
  "no_font = \<lparr>tf_file = None, tf_size = 0, tf_color = NO_COLOR\<rparr>"

definition no_fonts :: "theme_font list" where "no_fonts = map (\<lambda>t. no_font) targets"

definition load_theme_xml :: "'n mxml \<Rightarrow> u8 list \<Rightarrow> theme_xml \<Rightarrow> str_heap \<Rightarrow> (bool \<times> theme_xml \<times> str_heap) ret" where
  "load_theme_xml x buf th hp =
     bind_ret (free_theme th hp) (\<lambda>hp0.
     (case mx_load x buf of
        None \<Rightarrow> Ret (False, th, hp0)
      | Some root \<Rightarrow>
          (case mx_find x root ''theme'' of
             None \<Rightarrow> Ret (False, th, hp0)
           | Some node \<Rightarrow>
               let langs = (case mx_attr x node ''langs'' of Some (b # bs) \<Rightarrow> lang_bits (tokens (b # bs)) | _ \<Rightarrow> 0);
                   (desc, hp1) = xmldup (map_option (take 64) (get_elem_cdata x (Some node) ''description'')) hp0;
                   th1 = th\<lparr>tx_langs := langs, tx_description := desc, tx_default_font := no_font, tx_fonts := no_fonts\<rparr>;
                   th2 = (case get_color x (Some node) ''font_color'' of
                            None \<Rightarrow> th1
                          | Some c \<Rightarrow> th1\<lparr>tx_default_font := (tx_default_font th1)\<lparr>tf_color := c\<rparr>\<rparr>);
                   th3 = (case get_gradient x (Some node) ''progress_gradient'' of
                            None \<Rightarrow> th2 | Some g \<Rightarrow> th2\<lparr>tx_progress := g\<rparr>)
               in bind_ret (get_fonts x (mx_each x node root ''font'') th3 hp1) (\<lambda>(th4, hp2). Ret (True, th4, hp2)))))"

text \<open>The pointers of a theme in the order they are freed.\<close>

definition theme_xml_init :: theme_xml where
  "theme_xml_init =
     (let f = \<lparr>tf_file = None, tf_size = 0, tf_color = 0\<rparr>
      in \<lparr>tx_progress = \<lparr>gr_ul = 0, gr_ur = 0, gr_lr = 0, gr_ll = 0\<rparr>, tx_description = None, tx_default_font = f,
          tx_fonts = map (\<lambda>t. f) targets, tx_langs = 0\<rparr>)"

definition theme_ptrs :: "theme_xml \<Rightarrow> nat option list" where
  "theme_ptrs th = tx_description th # tf_file (tx_default_font th) # map tf_file (tx_fonts th)"

fun free_ptrs :: "nat option list \<Rightarrow> str_heap \<Rightarrow> str_heap ret" where
  "free_ptrs [] hp = Ret hp"
| "free_ptrs (p # ps) hp = bind_ret (heap_free p hp) (free_ptrs ps)"

lemma free_fonts_ptrs: "free_fonts fs hp = free_ptrs (map tf_file fs) hp"
proof (induction fs arbitrary: hp)
  case (Cons f fs)
  then show ?case by (cases "heap_free (tf_file f) hp") simp_all
qed simp

lemma free_theme_ptrs: "free_theme th hp = free_ptrs (theme_ptrs th) hp"
proof (cases "heap_free (tx_description th) hp")
  case (Ret hp1)
  then show ?thesis
    by (cases "heap_free (tf_file (tx_default_font th)) hp1") (simp_all add: free_theme_def theme_ptrs_def free_fonts_ptrs)
qed (simp add: free_theme_def theme_ptrs_def)

lemma heap_free_dead:
  assumes "heap_free p hp = Ret hp'"
  shows "hp_strings hp b = None \<or> p = Some b \<Longrightarrow> hp_strings hp' b = None"
  using assms by (auto simp: heap_free_def split: option.splits)

lemma free_ptrs_dead:
  "free_ptrs ps hp = Ret hp' \<Longrightarrow> hp_strings hp b = None \<or> Some b \<in> set ps \<Longrightarrow> hp_strings hp' b = None"
proof (induction ps arbitrary: hp)
  case (Cons p ps)
  obtain hp1 where h: "heap_free p hp = Ret hp1" "free_ptrs ps hp1 = Ret hp'"
    using Cons.prems(1) by (auto simp: bind_ret_eq_Ret)
  have "hp_strings hp1 b = None \<or> Some b \<in> set ps" using Cons.prems(2) heap_free_dead[OF h(1)] by auto
  then show ?case using Cons.IH[OF h(2)] by blast
qed simp

lemma free_ptrs_again:
  "\<forall>b. Some b \<in> set ps \<longrightarrow> hp_strings hp b = None \<Longrightarrow> \<exists>p\<in>set ps. p \<noteq> None \<Longrightarrow> free_ptrs ps hp = Panic"
proof (induction ps)
  case (Cons p ps)
  then show ?case by (cases p) (auto simp: heap_free_def)
qed simp

text \<open>
  A theme description that cannot be parsed leaves the pointers of the theme before behind, freed: the
  next description frees them again.
\<close>

lemma theme_reload_frees_twice:
  assumes "mx_load x buf = None" and "load_theme_xml x buf th hp = Ret (ok, th1, hp1)"
    and "\<exists>p\<in>set (theme_ptrs th). p \<noteq> None"
  shows "\<not> ok \<and> load_theme_xml x buf2 th1 hp1 = Panic"
proof -
  obtain hp0 where f: "free_ptrs (theme_ptrs th) hp = Ret hp0" and r: "ok = False" "th1 = th" "hp1 = hp0"
    using assms(2) by (cases "free_ptrs (theme_ptrs th) hp") (simp_all add: load_theme_xml_def free_theme_ptrs assms(1))
  have "free_ptrs (theme_ptrs th1) hp1 = Panic"
    unfolding r by (rule free_ptrs_again) (use free_ptrs_dead[OF f] assms(3) in auto)
  then show ?thesis by (simp add: load_theme_xml_def free_theme_ptrs r)
qed

text \<open>A theme with a description, and a file that does not parse.\<close>

definition bad_doc :: "nat mxml" where
  "bad_doc = (arg_doc [])\<lparr>mx_load := (\<lambda>_. None)\<rparr>"

definition described :: theme_xml where
  "described = \<lparr>tx_progress = \<lparr>gr_ul = 0, gr_ur = 0, gr_lr = 0, gr_ll = 0\<rparr>, tx_description = Some 0,
     tx_default_font = no_font, tx_fonts = no_fonts, tx_langs = 0\<rparr>"

definition one_string :: str_heap where
  "one_string = \<lparr>hp_strings = [0 \<mapsto> [65]], hp_next = 1\<rparr>"

lemma theme_reload_frees_twice_example:
  "\<exists>hp1. load_theme_xml bad_doc [] described one_string = Ret (False, described, hp1)
     \<and> load_theme_xml bad_doc [] described hp1 = Panic"
proof -
  obtain hp1 where run: "load_theme_xml bad_doc [] described one_string = Ret (False, described, hp1)"
    by (simp add: load_theme_xml_def free_theme_def heap_free_def described_def one_string_def no_font_def no_fonts_def
        targets_def bad_doc_def)
  have "mx_load bad_doc [] = None" by (simp add: bad_doc_def)
  from theme_reload_frees_twice[OF this run, of "[]"] run show ?thesis
    by (auto simp: described_def theme_ptrs_def)
qed

text \<open>
  A font whose target names two entries gives both the same string, and loading the next theme frees it
  twice.
\<close>

lemma shared_font_freed_twice:
  "font_tokens (tokens (bytes ''label,memo'')) (Some 0) 0 NO_COLOR no_fonts one_string
     = Ret ([no_font\<lparr>tf_file := Some 0\<rparr>, no_font, no_font\<lparr>tf_file := Some 0\<rparr>, no_font, no_font, no_font, no_font], one_string)"
  "free_fonts [no_font\<lparr>tf_file := Some 0\<rparr>, no_font, no_font\<lparr>tf_file := Some 0\<rparr>, no_font, no_font, no_font, no_font]
     one_string = Panic"
  by (simp_all add: tokens_def more_tokens.simps strtok_def bytes_def targets_def no_fonts_def no_font_def font_update_def
      heap_free_def one_string_def)

text \<open>After the first one, names are not stripped of a blank before them.\<close>

lemma blank_before_target: "tokens (bytes ''label, memo'') = [bytes ''label'', bytes '' memo'']"
  by (simp add: tokens_def more_tokens.simps strtok_def bytes_def)

section \<open>Freeing descriptions\<close>

text \<open>The strings of a description are copied to the heap one after the other.\<close>

fun dup_all :: "u8 list option list \<Rightarrow> str_heap \<Rightarrow> nat option list \<times> str_heap" where
  "dup_all [] hp = ([], hp)"
| "dup_all (s # ss) hp =
     (case xmldup s hp of (p, hp1) \<Rightarrow> (case dup_all ss hp1 of (ps, hp2) \<Rightarrow> (p # ps, hp2)))"

record meta_ptrs =
  mp_name :: "nat option"
  mp_coder :: "nat option"
  mp_version :: "nat option"
  mp_short_description :: "nat option"
  mp_long_description :: "nat option"
  mp_args :: "nat option"

definition meta_free :: "meta_ptrs option \<Rightarrow> str_heap \<Rightarrow> str_heap ret" where
  "meta_free info hp =
     (case info of
        None \<Rightarrow> Ret hp
      | Some i \<Rightarrow>
          bind_ret (heap_free (mp_name i) hp) (\<lambda>hp1.
          bind_ret (heap_free (mp_coder i) hp1) (\<lambda>hp2.
          bind_ret (heap_free (mp_version i) hp2) (\<lambda>hp3.
          bind_ret (heap_free (mp_short_description i) hp3) (\<lambda>hp4.
          bind_ret (heap_free (mp_long_description i) hp4) (\<lambda>hp5.
          heap_free (mp_args i) hp5))))))"

record update_ptrs =
  up_version :: "nat option"
  up_notes :: "nat option"
  up_uri :: "nat option"
  up_hash :: "nat option"

definition update_free :: "update_ptrs option \<Rightarrow> str_heap \<Rightarrow> str_heap ret" where
  "update_free info hp =
     (case info of
        None \<Rightarrow> Ret hp
      | Some i \<Rightarrow>
          bind_ret (heap_free (up_version i) hp) (\<lambda>hp1.
          bind_ret (heap_free (up_notes i) hp1) (\<lambda>hp2.
          heap_free (up_uri i) hp2)))"

lemma bind_ret_right: "bind_ret x Ret = x"
  by (cases x) simp_all

lemma free_ptrs_fun: "free_ptrs [] = Ret" "free_ptrs (p # ps) = (\<lambda>hp. bind_ret (heap_free p hp) (free_ptrs ps))"
  by (simp_all add: fun_eq_iff)

definition heap_fresh :: "str_heap \<Rightarrow> bool" where
  "heap_fresh hp \<longleftrightarrow> (\<forall>a \<ge> hp_next hp. hp_strings hp a = None)"

lemma dup_all_grows:
  "dup_all ss hp = (ps, hp') \<Longrightarrow> heap_fresh hp \<Longrightarrow>
    heap_fresh hp' \<and> hp_next hp \<le> hp_next hp' \<and> (\<forall>a < hp_next hp. hp_strings hp' a = hp_strings hp a)"
proof (induction ss arbitrary: hp ps)
  case (Cons s ss)
  then obtain p hp1 ps1 where x: "xmldup s hp = (p, hp1)" and d: "dup_all ss hp1 = (ps1, hp')"
    by (auto split: prod.splits)
  then have "heap_fresh hp1 \<and> hp_next hp \<le> hp_next hp1 \<and> (\<forall>a < hp_next hp. hp_strings hp1 a = hp_strings hp a)"
    using Cons.prems(2) by (auto simp: xmldup_def heap_fresh_def split: option.splits)
  with Cons.IH[OF d] show ?case by fastforce
qed simp

lemma dup_all_ptrs:
  "dup_all ss hp = (ps, hp') \<Longrightarrow> heap_fresh hp \<Longrightarrow>
    distinct (filter (\<lambda>p. p \<noteq> None) ps)
    \<and> (\<forall>a. Some a \<in> set ps \<longleftrightarrow> hp_next hp \<le> a \<and> hp_strings hp' a \<noteq> None)"
proof (induction ss arbitrary: hp ps)
  case (Cons s ss)
  then obtain p hp1 ps1 where x: "xmldup s hp = (p, hp1)" and d: "dup_all ss hp1 = (ps1, hp')" and ps: "ps = p # ps1"
    by (auto split: prod.splits)
  have hp1: "heap_fresh hp1" "hp_next hp \<le> hp_next hp1"
      and p: "\<And>a. p = Some a \<longleftrightarrow> hp_next hp \<le> a \<and> a < hp_next hp1"
      and live: "\<And>a. p = Some a \<Longrightarrow> hp_strings hp1 a \<noteq> None"
    using x Cons.prems(2) by (auto simp: xmldup_def heap_fresh_def split: option.splits)
  note IH = Cons.IH[OF d hp1(1)]
  have "hp_strings hp' a = hp_strings hp1 a" if "a < hp_next hp1" for a
    using dup_all_grows[OF d hp1(1)] that by blast
  then have "Some a \<in> set ps \<longleftrightarrow> hp_next hp \<le> a \<and> hp_strings hp' a \<noteq> None" for a
    using IH p[of a] live[of a] hp1(2) unfolding ps by (cases "a < hp_next hp1") auto
  moreover have "p \<notin> set ps1" if "p \<noteq> None" using IH p that by (cases p) (auto simp: not_le)
  ultimately show ?case using IH by (simp add: ps)
qed (auto simp: heap_fresh_def)

lemma free_ptrs_live:
  "distinct (filter (\<lambda>p. p \<noteq> None) ps) \<Longrightarrow> (\<And>a. Some a \<in> set ps \<Longrightarrow> hp_strings hp a \<noteq> None) \<Longrightarrow>
    \<exists>hp2. free_ptrs ps hp = Ret hp2 \<and> hp_strings hp2 = (\<lambda>a. if Some a \<in> set ps then None else hp_strings hp a)"
proof (induction ps arbitrary: hp)
  case (Cons p ps)
  show ?case
  proof (cases p)
    case None
    with Cons show ?thesis by (simp add: heap_free_def)
  next
    case (Some a)
    then obtain t where t: "hp_strings hp a = Some t" using Cons.prems(2)[of a] by auto
    let ?hp = "hp\<lparr>hp_strings := (hp_strings hp)(a := None)\<rparr>"
    have "\<exists>hp2. free_ptrs ps ?hp = Ret hp2 \<and> hp_strings hp2 = (\<lambda>b. if Some b \<in> set ps then None else hp_strings ?hp b)"
      using Cons.prems Some by (intro Cons.IH) auto
    with Some t show ?thesis by (auto simp: heap_free_def fun_eq_iff)
  qed
qed simp

text \<open>All strings of an application's description are freed: the heap is what it was before they were copied.\<close>

lemma meta_free_all:
  assumes "dup_all [s1, s2, s3, s4, s5, s6] hp = (ps, hp')" and "heap_fresh hp"
  shows "\<exists>p1 p2 p3 p4 p5 p6 hp2. ps = [p1, p2, p3, p4, p5, p6]
    \<and> meta_free (Some \<lparr>mp_name = p1, mp_coder = p2, mp_version = p3, mp_short_description = p4,
         mp_long_description = p5, mp_args = p6\<rparr>) hp' = Ret hp2
    \<and> hp_strings hp2 = hp_strings hp"
proof -
  obtain p1 p2 p3 p4 p5 p6 where ps: "ps = [p1, p2, p3, p4, p5, p6]"
    using assms(1) by (auto split: prod.splits)
  obtain hp2 where free: "free_ptrs ps hp' = Ret hp2"
      and hp2: "hp_strings hp2 = (\<lambda>a. if Some a \<in> set ps then None else hp_strings hp' a)"
    using free_ptrs_live[of ps hp'] dup_all_ptrs[OF assms] by auto
  have "meta_free (Some \<lparr>mp_name = p1, mp_coder = p2, mp_version = p3, mp_short_description = p4,
         mp_long_description = p5, mp_args = p6\<rparr>) hp' = free_ptrs ps hp'"
    unfolding meta_free_def ps free_ptrs_fun by (simp add: bind_ret_right)
  moreover have "hp_strings hp2 a = hp_strings hp a" for a
    using dup_all_ptrs[OF assms] dup_all_grows[OF assms] assms(2) unfolding hp2 heap_fresh_def
    by (cases "hp_next hp \<le> a") auto
  ultimately show ?thesis using ps free by auto
qed

text \<open>Of an update's description the hash is left behind.\<close>

lemma update_free_leaks_hash:
  assumes "dup_all [s1, s2, s3, Some t] hp = (ps, hp')" and "heap_fresh hp"
  shows "\<exists>p1 p2 p3 a hp2. ps = [p1, p2, p3, Some a]
    \<and> update_free (Some \<lparr>up_version = p1, up_notes = p2, up_uri = p3, up_hash = Some a\<rparr>) hp' = Ret hp2
    \<and> hp_strings hp2 a = Some t"
proof -
  obtain p1 p2 p3 a where ps: "ps = [p1, p2, p3, Some a]" and t: "hp_strings hp' a = Some t"
    using assms(1) by (auto simp: xmldup_def split: prod.splits)
  obtain hp2 where free: "free_ptrs [p1, p2, p3] hp' = Ret hp2"
      and hp2: "hp_strings hp2 = (\<lambda>b. if Some b \<in> set [p1, p2, p3] then None else hp_strings hp' b)"
    using free_ptrs_live[of "[p1, p2, p3]" hp'] dup_all_ptrs[OF assms] unfolding ps by (auto split: if_splits)
  have "Some a \<notin> set [p1, p2, p3]" using dup_all_ptrs[OF assms] unfolding ps by (auto split: if_splits)
  then have "hp_strings hp2 a = Some t" using t by (simp add: hp2)
  moreover have "update_free (Some \<lparr>up_version = p1, up_notes = p2, up_uri = p3, up_hash = Some a\<rparr>) hp' = Ret hp2"
    using free unfolding free_ptrs_fun by (simp add: update_free_def bind_ret_right)
  ultimately show ?thesis using ps by blast
qed

end
