(* ===== verification/Update.thy ===== *)
theory Update
  imports Http Sha1 Reloc Xml
begin

text \<open>
  \<^verbatim>\<open>channelapp/source/update.c\<close>: looking for a newer version of the channel and starting its installer. The
  description is fetched and parsed in the background; the installer is fetched and run when the user
  agrees. The HTTP thread is that of \<open>Http\<close>, run to the end of its fetch; the XML library and the user's
  answer are parameters. The signature check is commented out in the code.
\<close>

section \<open>Hexadecimal digests\<close>

definition nibble2hex :: "u8 \<Rightarrow> u8" where
  "nibble2hex b = (let b1 = b AND 0xf in if b1 \<le> 9 then 48 + b1 else 97 + b1 - 0xa)"

definition hash2ascii :: "u8 list \<Rightarrow> u8 list" where
  "hash2ascii hash =
     concat (map (\<lambda>i. [nibble2hex (drop_bit 4 (hash ! i)), nibble2hex (hash ! i)]) [0..<20]) @ [0]"

section \<open>State\<close>

datatype update_state = UPDATE_IDLE | UPDATE_FETCH_META | UPDATE_VALIDATE | UPDATE_NO_UPDATE | UPDATE_CAN_UPDATE

text \<open>\<open>ua_running\<close> is a field of \<^verbatim>\<open>ta_ua\<close>; \<open>up_info\<close> and \<open>up_data\<close> are \<^verbatim>\<open>info\<close> and \<^verbatim>\<open>update_data\<close>.\<close>

record update_vars =
  us :: update_state
  ua_running :: bool
  up_info :: "update_info option"
  up_data :: "u8 list option"
  up_len :: u32

definition CHANNEL_VERSION_DATE :: u64 where "CHANNEL_VERSION_DATE = 202501220000"
definition update_url :: "u8 list" where "update_url = str ''http://localhost/update.xml''"

text \<open>The validation thread: without the signature check it only clears its flag.\<close>

definition update_func :: "update_vars \<Rightarrow> update_vars" where
  "update_func st = st\<lparr>ua_running := False\<rparr>"

section \<open>Looking for an update\<close>

definition update_signal :: "update_vars \<Rightarrow> http_arg \<Rightarrow> (bool \<times> update_vars \<times> http_arg) option" where
  "update_signal st a =
     (if us st = UPDATE_FETCH_META \<or> us st = UPDATE_CAN_UPDATE then Some (False, st, a)
      else
        (case http_request update_url (8 * 1024) a of
           None \<Rightarrow> None
         | Some (ok, a1) \<Rightarrow> Some (ok, if ok then st\<lparr>us := UPDATE_FETCH_META\<rparr> else st, a1)))"

text \<open>
  The result is whether the search goes on, and the value for \<^verbatim>\<open>*update_available\<close> if it is set.
  \<open>created\<close> tells whether the thread could be created; a thread that was created runs before the next
  call. Data of a successful fetch are NUL-terminated.
\<close>

definition update_check :: "'n mxml \<Rightarrow> update_vars \<Rightarrow> bool \<times> bool option \<times> update_vars" where
  "update_check x st0 =
     (let st = st0\<lparr>us := UPDATE_NO_UPDATE, up_info := Option.bind (up_data st0) (update_parse x), up_data := None\<rparr>
      in case up_info st of
           None \<Rightarrow> (False, None, st)
         | Some i \<Rightarrow>
             (case ui_hash i of
                None \<Rightarrow> (False, None, st\<lparr>up_info := None\<rparr>)
              | Some hash \<Rightarrow>
                  if length (take 40 hash) \<noteq> 40 then (False, None, st\<lparr>up_info := None\<rparr>)
                  else if ui_date i > CHANNEL_VERSION_DATE then (False, Some True, st\<lparr>us := UPDATE_CAN_UPDATE\<rparr>)
                  else (False, None, st\<lparr>up_info := None\<rparr>)))"

definition update_busy ::
  "'n mxml \<Rightarrow> bool \<Rightarrow> update_vars \<Rightarrow> http_arg \<Rightarrow> bool \<times> bool option \<times> update_vars \<times> http_arg" where
  "update_busy x created st a =
     (if us st \<noteq> UPDATE_FETCH_META \<and> us st \<noteq> UPDATE_VALIDATE then (False, None, st, a)
      else if us st = UPDATE_FETCH_META then
        (case http_get_result a of
           (None, a1) \<Rightarrow> (True, None, st, a1)
         | (Some (res, status, data, len), a1) \<Rightarrow>
             let st1 = st\<lparr>us := UPDATE_NO_UPDATE, up_data := data, up_len := len\<rparr>
             in if res \<noteq> HTTPR_OK then (False, Some False, st1, a1)
                else if \<not> created then (False, Some False, st1\<lparr>up_data := None\<rparr>, a1)
                else (True, Some False, st1\<lparr>us := UPDATE_VALIDATE\<rparr>, a1))
      else if ua_running st then (True, None, st, a)
      else (case update_check x st of (busy, av, st1) \<Rightarrow> (busy, av, st1, a)))"

section \<open>Running the installer\<close>

definition installer_args :: "u8 list" where
  "installer_args = str ''installer.elf'' @ [0] @ str ''-updatehbc'' @ [0, 0]"

text \<open>
  What becomes of a finished download: its bytes, or nothing if it failed or does not have the announced
  digest. \<open>junk\<close> is what the hash's stack buffer held before.
\<close>

definition checked_download ::
  "u8 list \<Rightarrow> u8 list option \<Rightarrow> http_res \<times> u32 \<times> u8 list option \<times> u32 \<Rightarrow> (u8 list \<times> u32) option" where
  "checked_download junk expected = (\<lambda>(res, status, data, len).
     if res \<noteq> HTTPR_OK then None
     else
       (case (data, expected) of
          (Some d, Some hash) \<Rightarrow>
            (let ascii_hash = hash2ascii (SHA1 junk (take (unat len) d))
             in if take 40 ascii_hash \<noteq> take 40 hash then None else Some (d, len))
        | _ \<Rightarrow> None))"

text \<open>
  The loop polls until the fetch is done, so it sees the state the HTTP thread leaves. \<open>addr\<close> is where
  \<^verbatim>\<open>malloc\<close> put the download.
\<close>

definition update_install ::
  "u32 \<Rightarrow> u8 list \<Rightarrow> u32 \<Rightarrow> u8 list option \<Rightarrow> http_arg \<Rightarrow> mem \<Rightarrow> (u32 option \<times> http_arg \<times> mem) option" where
  "update_install magic junk addr expected a m =
     (if http_get_state a = None then Some (None, a, m)
      else
        (case http_get_result a of
           (None, a1) \<Rightarrow> None
         | (Some r, a1) \<Rightarrow>
             (case checked_download junk expected r of
                None \<Rightarrow> Some (None, a1, m)
              | Some (d, len) \<Rightarrow>
                  (case loader_reloc magic (mem_write m addr d) addr len (Some installer_args) 26 True of
                     (ep, m1) \<Rightarrow> Some (ep, a1, m1)))))"

text \<open>\<open>None\<close> when it does not return: a fetch that hangs, or a null pointer.\<close>

definition update_execute ::
  "u32 \<Rightarrow> u32 \<Rightarrow> u32 \<Rightarrow> net_world \<Rightarrow> clock \<Rightarrow> u8 list \<Rightarrow> u32 \<Rightarrow> int \<Rightarrow> update_vars \<Rightarrow> http_arg \<Rightarrow> mem \<Rightarrow> net_call list
     \<Rightarrow> (u32 option \<times> update_vars \<times> http_arg \<times> mem \<times> net_call list) option" where
  "update_execute magic ng_id ms_id w elapsed junk addr answer st0 a m h =
     (if us st0 \<noteq> UPDATE_CAN_UPDATE then Some (None, st0, a, m, h)
      else
        let st = st0\<lparr>us := UPDATE_IDLE\<rparr>; st1 = st\<lparr>up_info := None\<rparr>
        in case up_info st of
             None \<Rightarrow> None
           | Some i \<Rightarrow>
               if answer = 1 then Some (None, st1, a, m, h)
               else
                 (case Option.bind (ui_uri i) (\<lambda>uri. http_request uri (4 * 1024 * 1024) a) of
                    None \<Rightarrow> None
                  | Some (False, a1) \<Rightarrow> Some (None, st1, a1, m, h)
                  | Some (True, a1) \<Rightarrow>
                      (case http_wake ng_id ms_id w elapsed a1 h of
                         None \<Rightarrow> None
                       | Some (a2, h1) \<Rightarrow>
                           map_option (\<lambda>(ep, a3, m1). (ep, st1, a3, m1, h1))
                             (update_install magic junk addr (ui_hash i) a2 m))))"

section \<open>What is run\<close>

text \<open>The lower-case hexadecimal notation of a byte string.\<close>

definition hex_notation :: "u8 list \<Rightarrow> u8 list" where
  "hex_notation bs = concat (map (\<lambda>b. [str ''0123456789abcdef'' ! (unat b div 16), str ''0123456789abcdef'' ! (unat b mod 16)]) bs)"

lemma nibble2hex_digit:
  assumes "n < 16"
  shows "nibble2hex (of_nat n) = str ''0123456789abcdef'' ! n"
proof -
  have "\<forall>n\<in>set [0..<16]. nibble2hex (of_nat n) = str ''0123456789abcdef'' ! n" by code_simp
  then show ?thesis using assms by simp
qed

lemma nibble2hex_low: "nibble2hex (b AND 0xf) = nibble2hex b"
  by (simp add: nibble2hex_def and.assoc)

lemma byte_nibbles:
  "nibble2hex (drop_bit 4 b) = str ''0123456789abcdef'' ! (unat b div 16)"
  "nibble2hex b = str ''0123456789abcdef'' ! (unat b mod 16)"
proof -
  have u: "unat b < 256" using unsigned_less[of b, where ?'a = nat] by simp
  have "drop_bit 4 b = of_nat (unat b div 16)"
    using u by (simp add: drop_bit_eq_div word_unat_eq_iff unat_div unat_of_nat take_bit_eq_mod)
  moreover have "unat b div 16 < 16" using u by (simp add: div_less_iff_less_mult)
  ultimately show "nibble2hex (drop_bit 4 b) = str ''0123456789abcdef'' ! (unat b div 16)" using nibble2hex_digit by simp
  have "b AND 0xf = of_nat (unat b mod 16)"
  proof -
    have "(0xf :: u8) = mask 4" by (simp add: mask_eq_exp_minus_1)
    then have "b AND 0xf = take_bit 4 b" by (simp add: take_bit_eq_mask)
    then show ?thesis
      using u by (simp add: take_bit_eq_mod word_unat_eq_iff unat_mod unat_of_nat)
  qed
  then show "nibble2hex b = str ''0123456789abcdef'' ! (unat b mod 16)"
    using nibble2hex_digit[of "unat b mod 16"] nibble2hex_low[of b] by simp
qed

lemma hash2ascii_notation:
  assumes "length hash = 20"
  shows "hash2ascii hash = hex_notation hash @ [0]"
proof -
  let ?g = "\<lambda>b. [nibble2hex (drop_bit 4 b), nibble2hex b]"
  have g: "?g = (\<lambda>b. [str ''0123456789abcdef'' ! (unat b div 16), str ''0123456789abcdef'' ! (unat b mod 16)])"
    using byte_nibbles by (intro ext) metis
  have "map (\<lambda>i. ?g (hash ! i)) [0..<20] = map ?g (map ((!) hash) [0..<20])" by simp
  moreover have "map ((!) hash) [0..<20] = hash" using assms by (metis map_nth)
  ultimately have "map (\<lambda>i. ?g (hash ! i)) [0..<20] = map ?g hash" by simp
  then show ?thesis unfolding hash2ascii_def hex_notation_def g[symmetric] by simp
qed


lemma length_fips_sha1: "length (fips_sha1 msg) = 20"
proof -
  obtain a b c d e where "fips_hash sha_init_state (fips_pad msg) = [a, b, c, d, e]"
    using list5[OF length_fips_hash[of sha_init_state "fips_pad msg"]] by (auto simp: sha_init_state_def)
  then show ?thesis by (simp add: fips_sha1_def sha_init_state_def)
qed

lemma length_hex_notation: "length (hex_notation (fips_sha1 data)) = 40"
  by (simp add: hex_notation_def length_concat o_def length_fips_sha1 sum_list_triv)

lemma update_install_cases:
  assumes "length junk = 64" and "update_install magic junk addr (Some hash) a m = Some (ep, a', m')"
    and "hres a = HTTPR_OK \<Longrightarrow> \<exists>data. hdata a = Some (data @ [0]) \<and> length data = unat (content_length a)
       \<and> content_length a \<le> 4 * 1024 * 1024 \<and> R data"
  shows "(ep = None \<and> m' = m) \<or>
    (\<exists>data. R data \<and> length data \<le> 4 * 1024 * 1024 \<and> hex_notation (fips_sha1 data) = take 40 hash
       \<and> (ep, m') = loader_reloc magic (mem_write m addr (data @ [0])) addr (of_nat (length data)) (Some installer_args) 26 True)"
proof (cases "hres a = HTTPR_OK \<and> http_get_state a \<noteq> None")
  case False
  then show ?thesis
    using assms(2) by (auto simp: update_install_def http_get_result_def checked_download_def split: if_splits)
next
  case True
  obtain data where d: "hdata a = Some (data @ [0])" "length data = unat (content_length a)"
    "content_length a \<le> 4 * 1024 * 1024" "R data"
    using assms(3) True by auto
  have small: "length data \<le> 4 * 1024 * 1024" using d by (simp add: word_le_nat_alt)
  have sha: "SHA1 junk data = fips_sha1 data" using SHA1_digest[of data junk] small assms(1) by simp
  have tk: "take 40 (hash2ascii (fips_sha1 data)) = hex_notation (fips_sha1 data)"
  proof -
    show ?thesis by (simp add: hash2ascii_notation length_fips_sha1 length_hex_notation)
  qed
  have len: "content_length a = of_nat (length data)" by (simp add: d(2))
  have un: "unat (of_nat (length data) :: u32) = length data" using d(2) len by simp
  have c: "checked_download junk (Some hash) (HTTPR_OK, s, Some (data @ [0]), of_nat (length data))
      = (if hex_notation (fips_sha1 data) \<noteq> take 40 hash then None else Some (data @ [0], of_nat (length data)))" for s
    by (simp add: checked_download_def Let_def sha tk un)
  show ?thesis
  proof (cases "hex_notation (fips_sha1 data) = take 40 hash")
    case True
    then have "(ep, m') = loader_reloc magic (mem_write m addr (data @ [0])) addr (of_nat (length data)) (Some installer_args) 26 True"
      using assms(2) \<open>hres a = HTTPR_OK \<and> http_get_state a \<noteq> None\<close> d(1)
      by (auto simp: update_install_def http_get_result_def c len split: prod.splits if_splits)
    then show ?thesis using small True d(4) by blast
  next
    case False
    then show ?thesis
      using assms(2) \<open>hres a = HTTPR_OK \<and> http_get_state a \<noteq> None\<close> d(1)
      by (auto simp: update_install_def http_get_result_def c len split: prod.splits if_splits)
  qed
qed



text \<open>
  A description that announces the digest of the two bytes that the server sends: they are loaded as a DOL (without sections,
  for the memory behind them is empty).
\<close>

definition offered_update :: update_info where
  "offered_update = \<lparr>ui_version = None, ui_date = 202601010000, ui_notes = None,
     ui_uri = Some [104, 116, 116, 112, 58, 47, 47, 104, 47, 105], ui_hash = Some (hex_notation (fips_sha1 [98, 99]))\<rparr>"

definition offered_vars :: update_vars where
  "offered_vars = \<lparr>us = UPDATE_CAN_UPDATE, ua_running = False, up_info = Some offered_update, up_data = None, up_len = 0\<rparr>"

lemma offered_url: "http_split_url [104, 116, 116, 112, 58, 47, 47, 104, 47, 105] = Some (Some ([104], [47, 105]))"
  by code_simp

definition offered_request :: http_arg where
  "offered_request = idle_http\<lparr>host := [104], hpath := [47, 105], hdone := False, hcmd := HTTPCMD_FETCH, hport := 80, max_size := 4194304\<rparr>"

lemma offered_requested: "http_request [104, 116, 116, 112, 58, 47, 47, 104, 47, 105] 4194304 idle_http = Some (True, offered_request)"
  by (simp add: http_request_def http_ready_def idle_http_def http_init_def http_thread_start_def offered_url offered_request_def)

lemma offered_fetched:
  "\<exists>a h. http_wake 0 0 (server ok_response) (\<lambda>_ _. 0) offered_request [] = Some (a, h)
     \<and> hres a = HTTPR_OK \<and> hdata a = Some [98, 99, 0] \<and> content_length a = 2 \<and> hrunning a \<and> hdone a"
proof -
  have "length (http_request_text 0 0 (offered_request\<lparr>hcmd := HTTPCMD_IDLE, hstate := HTTPS_REQUESTING\<rparr>)) \<le> 2048"
    by (simp add: http_request_text_def offered_request_def idle_http_def http_init_def http_thread_start_def crlf_def
        hex8_def CHANNEL_VERSION_STR_def region_name_def area_name_def dec.simps)
  moreover have "2 \<le> max_size offered_request" "hcmd offered_request = HTTPCMD_FETCH" "hrunning offered_request"
    by (simp_all add: offered_request_def idle_http_def http_init_def http_thread_start_def)
  ultimately show ?thesis using server_fetch[of 0 0 offered_request] by (auto simp: http_wake_def)
qed

lemma no_sections: "list_all (\<lambda>s. load32 m (size_field s) = 0) ss \<Longrightarrow> load_sections addr n check ss m = (True, m)"
  by (induction ss) (simp_all add: Let_def)

lemma offered_dol:
  "is_valid_elf (mem_write (\<lambda>_. 0) 0 [98, 99, 0]) 0 = 0"
  "reloc_dol (mem_write (\<lambda>_. 0) 0 [98, 99, 0]) 0 2 True = (Some 0, mem_write (\<lambda>_. 0) 0 [98, 99, 0])"
proof -
  let ?m = "mem_write (\<lambda>_. 0) 0 [98, 99, 0]"
  show "is_valid_elf ?m 0 = 0" by code_simp
  have "list_all (\<lambda>s. load32 ?m (size_field s) = 0) (dol_sections 0)" by code_simp
  moreover have "load32 ?m (0 + 0xe0) = 0" by code_simp
  ultimately show "reloc_dol ?m 0 2 True = (Some 0, ?m)" by (simp add: reloc_dol_def no_sections)
qed

lemma offered_run:
  "\<exists>st' a' m' h'. update_execute 0 0 0 (server ok_response) (\<lambda>_ _. 0) (replicate 64 0) 0 0 offered_vars idle_http (\<lambda>_. 0) []
     = Some (Some 0, st', a', m', h')"
proof -
  obtain a h where f: "http_wake 0 0 (server ok_response) (\<lambda>_ _. 0) offered_request [] = Some (a, h)" "hres a = HTTPR_OK"
      "hdata a = Some [98, 99, 0]" "content_length a = 2" "hrunning a" "hdone a"
    using offered_fetched by blast
  have "take 40 (hash2ascii (SHA1 (replicate 64 0) [98, 99])) = take 40 (hex_notation (fips_sha1 [98, 99]))"
    by (simp add: SHA1_digest hash2ascii_notation length_fips_sha1 length_hex_notation)
  then have c: "checked_download (replicate 64 0) (Some (hex_notation (fips_sha1 [98, 99]))) (HTTPR_OK, s, Some [98, 99, 0], 2)
      = Some ([98, 99, 0], 2)" for s
    by (simp add: checked_download_def Let_def)
  have "fst (loader_reloc 0 (mem_write (\<lambda>_. 0) 0 [98, 99, 0]) 0 2 (Some installer_args) 26 True) = Some 0"
    by (simp add: loader_reloc_def offered_dol)
  then obtain m' where r: "loader_reloc 0 (mem_write (\<lambda>_. 0) 0 [98, 99, 0]) 0 2 (Some installer_args) 26 True = (Some 0, m')"
    by (metis prod.collapse)
  show ?thesis using f c r
    by (simp add: update_execute_def Let_def offered_vars_def offered_update_def offered_requested update_install_def
        http_get_state_def http_get_result_def http_ready_def)
qed


section \<open>The state of the search\<close>

text \<open>The calls of the main loop, in any order, from the state the channel starts in.\<close>

inductive update_step :: "'n mxml \<Rightarrow> update_vars \<Rightarrow> update_vars \<Rightarrow> bool" for x where
  signal: "update_signal st a = Some (ok, st', a') \<Longrightarrow> update_step x st st'"
| validated: "update_step x st (update_func st)"
| busy: "update_busy x created st a = (b, av, st', a') \<Longrightarrow> update_step x st st'"
| execute: "update_execute magic ng_id ms_id w elapsed junk addr answer st a m h = Some (ep, st', a', m', h')
    \<Longrightarrow> update_step x st st'"

definition update_start :: update_vars where
  "update_start = \<lparr>us = UPDATE_IDLE, ua_running = False, up_info = None, up_data = None, up_len = 0\<rparr>"

definition info_newer :: "update_info \<Rightarrow> bool" where
  "info_newer i = (CHANNEL_VERSION_DATE < ui_date i \<and> (\<exists>hash. ui_hash i = Some hash \<and> 40 \<le> length hash))"

definition update_inv :: "update_vars \<Rightarrow> bool" where
  "update_inv st = (if us st = UPDATE_CAN_UPDATE then \<exists>i. up_info st = Some i \<and> info_newer i else up_info st = None)"

lemma update_check_inv: "update_check x st = (b, av, st') \<Longrightarrow> update_inv st' \<and> \<not> b \<and> (av = Some True \<longleftrightarrow> us st' = UPDATE_CAN_UPDATE)"
  by (auto simp: update_check_def update_inv_def info_newer_def Let_def split: option.splits if_splits)

lemma update_busy_inv: "update_busy x created st a = (b, av, st', a') \<Longrightarrow> update_inv st \<Longrightarrow> update_inv st'"
  using update_check_inv[of x st]
  by (auto simp: update_busy_def update_inv_def Let_def split: option.splits if_splits prod.splits)

lemma update_signal_inv: "update_signal st a = Some (ok, st', a') \<Longrightarrow> update_inv st \<Longrightarrow> update_inv st'"
  by (auto simp: update_signal_def update_inv_def split: option.splits if_splits)

lemma update_execute_vars:
  "update_execute magic ng_id ms_id w elapsed junk addr answer st a m h = Some (ep, st', a', m', h') \<Longrightarrow>
    st' = (if us st = UPDATE_CAN_UPDATE then st\<lparr>us := UPDATE_IDLE, up_info := None\<rparr> else st)"
  by (auto simp: update_execute_def Let_def split: option.splits if_splits prod.splits bool.splits)

lemma update_step_inv: "update_step x st st' \<Longrightarrow> update_inv st \<Longrightarrow> update_inv st'"
proof (induction rule: update_step.induct)
  case (signal st a ok st' a')
  then show ?case using update_signal_inv by blast
next
  case (validated st)
  then show ?case by (simp add: update_func_def update_inv_def)
next
  case (busy created st a b av st' a')
  then show ?case using update_busy_inv by blast
next
  case (execute magic ng_id ms_id w elapsed junk addr answer st a m h ep st' a' m' h')
  then show ?case using update_execute_vars[OF execute(1)] by (auto simp: update_inv_def)
qed

text \<open>
  Whatever the order of the calls, a description is kept exactly while an update is on offer, and it
  is one of a later version with a digest of full length: the offer is never a null pointer, and a
  description that was not offered has been released.
\<close>

lemma update_offer_valid:
  assumes "(update_step x)\<^sup>*\<^sup>* update_start st"
  shows "if us st = UPDATE_CAN_UPDATE then \<exists>i. up_info st = Some i \<and> info_newer i else up_info st = None"
proof -
  have "update_inv st"
    using assms
  proof (induction rule: rtranclp_induct)
    case base
    show ?case by (simp add: update_inv_def update_start_def)
  next
    case (step y z)
    then show ?case using update_step_inv by blast
  qed
  then show ?thesis by (simp add: update_inv_def)
qed

lemma update_offer_valid_example:
  "\<exists>a. update_signal update_start idle_http = Some (True, update_start\<lparr>us := UPDATE_FETCH_META\<rparr>, a)
     \<and> up_info (update_start\<lparr>us := UPDATE_FETCH_META\<rparr>) = None"
proof -
  have "http_split_url update_url = Some (Some (str ''localhost'', str ''/update.xml''))" by code_simp
  then obtain a where "update_signal update_start idle_http = Some (True, update_start\<lparr>us := UPDATE_FETCH_META\<rparr>, a)"
    by (auto simp: update_signal_def update_start_def http_request_def http_ready_def idle_http_def http_init_def
        http_thread_start_def)
  then show ?thesis using update_offer_valid[OF r_into_rtranclp[of "update_step undefined", OF signal]] by fastforce
qed

end
