(* ===== verification/Gf2.thy ===== *)
theory Gf2
  imports HBC_Prelude
begin

text \<open>
  Polynomials over the field of two elements, the reference for the arithmetic of the elliptic-curve
  module: a polynomial is the natural number whose bits are its coefficients, addition is \<open>XOR\<close> and
  multiplication the carry-less product. The instance of \<open>comm_ring_1\<close> gives the proofs about the module
  the ring laws, divisibility and powers of the library.
\<close>

unbundle bit_operations_syntax

section \<open>The carry-less product\<close>

fun clmul :: "nat \<Rightarrow> nat \<Rightarrow> nat" where
  "clmul a b = (if a = 0 then 0 else (if odd a then b else 0) XOR 2 * clmul (a div 2) b)"

declare clmul.simps [simp del]

lemma xor_double: "2 * (x XOR y) = (2 * x) XOR (2 * y :: nat)"
  using push_bit_xor[of 1 x y] by (simp add: push_bit_eq_mult mult.commute)

lemma xor_half: "(x XOR y) div 2 = (x div 2) XOR (y div 2 :: nat)"
  using drop_bit_xor[of 1 x y] by (simp add: drop_bit_eq_div)

lemma xor_swap: "(a XOR b) XOR (c XOR d) = (a XOR c) XOR (b XOR d :: nat)"
  by (simp add: xor.assoc xor.left_commute)

lemma bit_shift_in: "bit (of_bool c XOR 2 * m :: nat) i = (case i of 0 \<Rightarrow> c | Suc j \<Rightarrow> bit m j)"
  by (cases i) (simp_all add: bit_0 bit_Suc xor_half even_xor_iff)

lemma nat_bits: "(n :: nat) = of_bool (odd n) XOR 2 * (n div 2)"
  by (rule bit_eqI) (simp add: bit_shift_in bit_0 bit_Suc split: nat.split del: odd_two_times_div_two_nat even_two_times_div_two)

lemma clmul_0 [simp]: "clmul 0 b = 0"
  by (simp add: clmul.simps)

lemma clmul_rec: "clmul a b = (if odd a then b else 0) XOR 2 * clmul (a div 2) b"
  by (subst clmul.simps) simp

lemma clmul_0_right [simp]: "clmul a 0 = 0"
proof (induction a rule: less_induct)
  case (less a)
  then show ?case by (cases "a = 0") (simp_all add: clmul.simps[of a])
qed

lemma clmul_1 [simp]: "clmul 1 b = b" "clmul (Suc 0) b = b"
  by (simp_all add: clmul.simps)

lemma clmul_xor_left: "clmul (a XOR c) b = clmul a b XOR clmul c b"
proof (induction a arbitrary: c rule: less_induct)
  case (less a)
  show ?case
  proof (cases "a = 0")
    case False
    then have ih: "clmul (a div 2 XOR c div 2) b = clmul (a div 2) b XOR clmul (c div 2) b"
      by (intro less) simp
    show ?thesis
      unfolding clmul_rec[of "a XOR c"] clmul_rec[of a] clmul_rec[of c] xor_half ih xor_double xor_swap
      by (simp add: even_xor_iff)
  qed simp
qed

lemma clmul_xor_right: "clmul a (b XOR c) = clmul a b XOR clmul a c"
proof (induction a rule: less_induct)
  case (less a)
  show ?case
  proof (cases "a = 0")
    case False
    then have ih: "clmul (a div 2) (b XOR c) = clmul (a div 2) b XOR clmul (a div 2) c"
      by (intro less) simp
    show ?thesis
      unfolding clmul_rec[of a] ih xor_double xor_swap by simp
  qed simp
qed

lemma clmul_double_left: "clmul (2 * a) b = 2 * clmul a b"
  by (subst clmul_rec) simp

lemma clmul_double_right: "clmul a (2 * b) = 2 * clmul a b"
proof (induction a rule: less_induct)
  case (less a)
  show ?case
  proof (cases "a = 0")
    case False
    then have "clmul (a div 2) (2 * b) = 2 * clmul (a div 2) b"
      by (intro less) simp
    then show ?thesis
      unfolding clmul_rec[of a] xor_double by simp
  qed simp
qed

lemma clmul_1_right [simp]: "clmul a 1 = a" "clmul a (Suc 0) = a"
proof -
  show "clmul a 1 = a"
  proof (induction a rule: less_induct)
    case (less a)
    show ?case
    proof (cases "a = 0")
      case False
      then have "clmul (a div 2) 1 = a div 2" by (intro less) simp
      then have "clmul a 1 = of_bool (odd a) XOR 2 * (a div 2)" by (subst clmul_rec) (simp add: of_bool_def)
      then show ?thesis using nat_bits[of a] by simp
    qed simp
  qed
  then show "clmul a (Suc 0) = a" by simp
qed

lemma clmul_commute: "clmul a b = clmul b a"
proof (induction a rule: less_induct)
  case (less a)
  show ?case
  proof (cases "a = 0")
    case False
    then have "clmul (a div 2) b = clmul b (a div 2)" by (intro less) simp
    moreover have "clmul b a = clmul b (of_bool (odd a)) XOR 2 * clmul b (a div 2)"
      by (subst nat_bits[of a]) (simp only: clmul_xor_right clmul_double_right)
    ultimately show ?thesis by (simp add: clmul_rec[of a])
  qed simp
qed

lemma clmul_assoc: "clmul (clmul a b) c = clmul a (clmul b c)"
proof (induction a rule: less_induct)
  case (less a)
  show ?case
  proof (cases "a = 0")
    case False
    then have "clmul (clmul (a div 2) b) c = clmul (a div 2) (clmul b c)" by (intro less) simp
    then show ?thesis by (simp add: clmul_rec[of a] clmul_xor_left clmul_double_left)
  qed simp
qed

section \<open>The ring\<close>

typedef gf2 = "UNIV :: nat set" morphisms coeffs Gf2 by simp

setup_lifting type_definition_gf2

instantiation gf2 :: comm_ring_1
begin

lift_definition zero_gf2 :: gf2 is 0 .
lift_definition one_gf2 :: gf2 is 1 .
lift_definition plus_gf2 :: "gf2 \<Rightarrow> gf2 \<Rightarrow> gf2" is "\<lambda>a b. a XOR b" .
lift_definition minus_gf2 :: "gf2 \<Rightarrow> gf2 \<Rightarrow> gf2" is "\<lambda>a b. a XOR b" .
lift_definition uminus_gf2 :: "gf2 \<Rightarrow> gf2" is "\<lambda>a. a" .
lift_definition times_gf2 :: "gf2 \<Rightarrow> gf2 \<Rightarrow> gf2" is clmul .

instance
proof
  fix a b c :: gf2
  show "a * b * c = a * (b * c)" by transfer (rule clmul_assoc)
  show "a * b = b * a" by transfer (rule clmul_commute)
  show "1 * a = a" by transfer simp
  show "a + b + c = a + (b + c)" by transfer (rule xor.assoc)
  show "a + b = b + a" by transfer (rule xor.commute)
  show "0 + a = a" by transfer simp
  show "- a + a = 0" by transfer simp
  show "a - b = a + - b" by transfer simp
  show "(a + b) * c = a * c + b * c" by transfer (rule clmul_xor_left)
  show "(0 :: gf2) \<noteq> 1" by transfer simp
qed

end


lemma Gf2_0: "Gf2 0 = 0" and Gf2_1: "Gf2 1 = 1" "Gf2 (Suc 0) = 1" and Gf2_xor: "Gf2 (m XOR n) = Gf2 m + Gf2 n"
  by (transfer; simp)+

lemma gf2_twice [simp]: "a + a = (0 :: gf2)"
  by transfer simp

lemma gf2_minus [simp]: "a - b = a + (b :: gf2)" "- a = (a :: gf2)"
  by (transfer; simp)+

lemma gf2_two [simp]: "(2 :: gf2) = 0"
  using gf2_twice[of 1] by (simp only: one_add_one)

lemma gf2_cancel [simp]: "a + (a + b) = (b :: gf2)" "a + b + b = (a :: gf2)"
  using add.assoc[of a a b] add.assoc[of a b b] by simp_all

definition X :: gf2 where "X = Gf2 2"

lemma X_times: "X * Gf2 n = Gf2 (2 * n)"
proof -
  have "clmul 2 n = 2 * clmul 1 n" using clmul_double_left[of 1 n] by simp
  then show ?thesis unfolding X_def by transfer simp
qed

lemma X_power_times: "X ^ k * Gf2 n = Gf2 (2 ^ k * n)"
  by (induction k) (simp_all add: X_times mult.assoc)

lemma X_power: "X ^ k = Gf2 (2 ^ k)"
  using X_power_times[of k 1] by (simp add: Gf2_1)

lemma gf2_bits: "Gf2 n = of_bool (odd n) + X * Gf2 (n div 2)"
  by (subst nat_bits[of n]) (simp add: Gf2_xor X_times Gf2_0 Gf2_1 of_bool_def)

lemma gf2_power2_add: "(a + b) ^ 2 = a ^ 2 + (b :: gf2) ^ 2"
  by (simp add: power2_eq_square distrib_left distrib_right mult.commute add.assoc)

lemma gf2_frobenius_add: "(a + b) ^ 2 ^ k = a ^ 2 ^ k + (b :: gf2) ^ 2 ^ k"
  by (induction k) (simp_all add: power_mult gf2_power2_add mult.commute[of 2])

section \<open>Congruence\<close>

definition gf2_cong :: "gf2 \<Rightarrow> gf2 \<Rightarrow> gf2 \<Rightarrow> bool" where
  "gf2_cong f a b \<longleftrightarrow> f dvd a + b"

lemma gf2_cong_refl [simp]: "gf2_cong f a a"
  by (simp add: gf2_cong_def)

lemma gf2_cong_sym: "gf2_cong f a b \<Longrightarrow> gf2_cong f b a"
  by (simp add: gf2_cong_def add.commute)

lemma gf2_cong_trans [trans]: "gf2_cong f a b \<Longrightarrow> gf2_cong f b c \<Longrightarrow> gf2_cong f a c"
  unfolding gf2_cong_def using dvd_add[of f "a + b" "b + c"] by (simp add: add.assoc)

lemma gf2_cong_add: "gf2_cong f a b \<Longrightarrow> gf2_cong f c d \<Longrightarrow> gf2_cong f (a + c) (b + d)"
  unfolding gf2_cong_def using dvd_add[of f "a + b" "c + d"] by (simp add: ac_simps)

lemma gf2_cong_mult: "gf2_cong f a b \<Longrightarrow> gf2_cong f c d \<Longrightarrow> gf2_cong f (a * c) (b * d)"
proof -
  assume "gf2_cong f a b" "gf2_cong f c d"
  then have "f dvd (a + b) * c + b * (c + d)" unfolding gf2_cong_def by simp
  moreover have "(a + b) * c + b * (c + d) = a * c + b * d"
    by (simp add: distrib_left distrib_right add.assoc)
  ultimately show ?thesis by (simp add: gf2_cong_def)
qed

lemma gf2_cong_power: "gf2_cong f a b \<Longrightarrow> gf2_cong f (a ^ k) (b ^ k)"
  by (induction k) (auto intro: gf2_cong_mult)

lemma gf2_cong_multiple: "gf2_cong f (a + f * k) a"
  by (simp add: gf2_cong_def add.commute[of a])

text \<open>A multiple of a polynomial other than 0 has at least its degree, so small representatives are unique.\<close>

lemma clmul_degree:
  assumes "a \<noteq> 0" and "2 ^ n \<le> b" and "b < 2 ^ Suc n"
  shows "2 ^ n \<le> clmul a b"
  using assms(1)
proof (induction a rule: less_induct)
  case (less a)
  show ?case
  proof (cases "a div 2 = 0")
    case True
    then have "a = 1" using less.prems by (cases a) auto
    then show ?thesis using assms(2) by simp
  next
    case False
    define c where "c = 2 * clmul (a div 2) b"
    have c: "2 ^ Suc n \<le> c" using less.IH[of "a div 2"] False by (simp add: c_def)
    have "drop_bit (Suc n) ((if odd a then b else 0) XOR c) = drop_bit (Suc n) c"
      using assms(3) unfolding drop_bit_xor by (simp add: drop_bit_eq_div)
    moreover have "drop_bit (Suc n) c \<noteq> 0"
      using c by (simp add: drop_bit_eq_div div_eq_0_iff)
    ultimately have "drop_bit (Suc n) (clmul a b) \<noteq> 0" by (simp add: clmul_rec[of a] c_def)
    then have "2 ^ Suc n \<le> clmul a b" by (simp add: drop_bit_eq_div div_eq_0_iff)
    then show ?thesis by simp
  qed
qed

lemma xor_less: "a < 2 ^ n \<Longrightarrow> b < 2 ^ n \<Longrightarrow> (a XOR b :: nat) < 2 ^ n"
  using take_bit_xor[of n a b] by (metis take_bit_nat_eq_self take_bit_nat_less_exp)

lemma gf2_cong_unique:
  assumes "gf2_cong f a b" and "2 ^ n \<le> coeffs f" and "coeffs f < 2 ^ Suc n"
    and "coeffs a < 2 ^ n" and "coeffs b < 2 ^ n"
  shows "a = b"
proof -
  obtain k where k: "a + b = f * k" using assms(1) by (auto simp: gf2_cong_def dvd_def)
  have "coeffs (k * f) = coeffs a XOR coeffs b" using k by (simp add: mult.commute plus_gf2.rep_eq[symmetric])
  then have "clmul (coeffs k) (coeffs f) < 2 ^ n"
    using xor_less[OF assms(4,5)] by (simp add: times_gf2.rep_eq)
  then have "coeffs k = 0" using clmul_degree[OF _ assms(2,3), of "coeffs k"] by (meson not_le)
  then have "k = 0" by transfer simp
  then have "a + b = 0" using k by simp
  then have "a + b + b = b" by simp
  then show ?thesis by simp
qed

end
