(* ===== verification/Ec_Field.thy ===== *)
theory Ec_Field
  imports Gf2
begin

text \<open>
  \<^verbatim>\<open>pywii/ecmodule/_ecmodule.c\<close>: arithmetic in the field of \<open>2 ^ 233\<close> elements, for the signatures of the
  console. An element is a string of 30 bytes, the highest coefficient first. Results are new strings:
  where the code computes into one of its arguments the text says why the model may ignore it. Loop
  counters stay below 233 and are natural numbers.
\<close>

unbundle bit_operations_syntax

section \<open>Elements\<close>

definition elt_zero :: "u8 list" where
  "elt_zero = replicate 30 0"

definition elt_is_zero :: "u8 list \<Rightarrow> bool" where
  "elt_is_zero d = list_all (\<lambda>i. d ! i = 0) [0..<30]"

definition elt_add :: "u8 list \<Rightarrow> u8 list \<Rightarrow> u8 list" where
  "elt_add a b = map (\<lambda>i. a ! i XOR b ! i) [0..<30]"

text \<open>
  The loop of \<^verbatim>\<open>elt_mul_x\<close>: \<open>x\<close> is what the byte before hands on; the carry enters at the end. A byte is
  read before it is written, so source and destination may be the same.
\<close>

fun mul_x_loop :: "u8 \<Rightarrow> u8 \<Rightarrow> u8 list \<Rightarrow> u8 list" where
  "mul_x_loop carry x [] = [x XOR carry]"
| "mul_x_loop carry x (y # ys) = (x XOR drop_bit 7 y) # mul_x_loop carry (push_bit 1 y) ys"

definition elt_mul_x :: "u8 list \<Rightarrow> u8 list" where
  "elt_mul_x a =
     (let carry = hd a AND 1;
          d = mul_x_loop carry 0 (tl a)
      in d[20 := d ! 20 XOR push_bit 2 carry])"

definition elt_mul_step :: "u8 list \<Rightarrow> u8 list \<Rightarrow> u8 list \<times> nat \<times> u8 \<Rightarrow> u8 list \<times> nat \<times> u8" where
  "elt_mul_step a b = (\<lambda>(d, i, mask).
     (let d1 = elt_mul_x d;
          d2 = (if a ! i AND mask \<noteq> 0 then elt_add d1 b else d1);
          mask1 = drop_bit 1 mask
      in if mask1 = 0 then (d2, i + 1, 0x80) else (d2, i, mask1)))"

definition elt_mul :: "u8 list \<Rightarrow> u8 list \<Rightarrow> u8 list" where
  "elt_mul a b = fst ((elt_mul_step a b ^^ 233) (elt_zero, 0, 1))"

section \<open>Squares and inverses\<close>

definition square_table :: "u8 list" where
  "square_table = [0x00, 0x01, 0x04, 0x05, 0x10, 0x11, 0x14, 0x15, 0x40, 0x41, 0x44, 0x45, 0x50, 0x51, 0x54, 0x55]"

definition elt_square_to_wide :: "u8 list \<Rightarrow> u8 list" where
  "elt_square_to_wide a =
     concat (map (\<lambda>i. [square_table ! unat (drop_bit 4 (a ! i)), square_table ! unat (a ! i AND 15)]) [0..<30])"

text \<open>\<^verbatim>\<open>d[i] ^= b\<close>.\<close>

definition xor_at :: "nat \<Rightarrow> u8 \<Rightarrow> u8 list \<Rightarrow> u8 list" where
  "xor_at i b d = d[i := d ! i XOR b]"

definition wide_reduce_step :: "nat \<Rightarrow> u8 list \<Rightarrow> u8 list" where
  "wide_reduce_step i d =
     (let x = d ! i
      in xor_at (i + 30) (push_bit 7 x) (xor_at (i + 29) (drop_bit 1 x)
          (xor_at (i + 20) (push_bit 1 x) (xor_at (i + 19) (drop_bit 7 x) d))))"

definition wide_reduce :: "u8 list \<Rightarrow> u8 list" where
  "wide_reduce d0 =
     (let d = fold wide_reduce_step [0..<30] d0;
          x = d ! 30 AND NOT 1;
          d1 = xor_at 59 (drop_bit 1 x) (xor_at 50 (push_bit 1 x) (xor_at 49 (drop_bit 7 x) d))
      in d1[30 := d1 ! 30 AND 1])"

definition elt_square :: "u8 list \<Rightarrow> u8 list" where
  "elt_square a = take 30 (drop 30 (wide_reduce (elt_square_to_wide a)))"

text \<open>In all calls of \<^verbatim>\<open>itoh_tsujii\<close> the destination is neither of the arguments.\<close>

definition itoh_tsujii :: "u8 list \<Rightarrow> u8 list \<Rightarrow> nat \<Rightarrow> u8 list" where
  "itoh_tsujii a b j = elt_mul ((elt_square ^^ j) a) b"

definition elt_inv :: "u8 list \<Rightarrow> u8 list" where
  "elt_inv a =
     (let t = itoh_tsujii a a 1;
          s = itoh_tsujii t a 1;
          t = itoh_tsujii s s 3;
          s = itoh_tsujii t a 1;
          t = itoh_tsujii s s 7;
          s = itoh_tsujii t t 14;
          t = itoh_tsujii s a 1;
          s = itoh_tsujii t t 29;
          t = itoh_tsujii s s 58;
          s = itoh_tsujii t t 116
      in elt_square s)"

section \<open>The functions of the module\<close>

datatype py_error = ValueError string

definition ec_elt_mul :: "u8 list \<Rightarrow> u8 list \<Rightarrow> py_error + u8 list" where
  "ec_elt_mul a b =
     (if length a \<noteq> 30 \<or> length b \<noteq> 30 then Inl (ValueError ''ELT lengths must be 30'') else Inr (elt_mul a b))"

definition ec_elt_inv :: "u8 list \<Rightarrow> py_error + u8 list" where
  "ec_elt_inv a = (if length a \<noteq> 30 then Inl (ValueError ''ELT length must be 30'') else Inr (elt_inv a))"

definition ec_elt_square :: "u8 list \<Rightarrow> py_error + u8 list" where
  "ec_elt_square a = (if length a \<noteq> 30 then Inl (ValueError ''ELT length must be 30'') else Inr (elt_square a))"

section \<open>The polynomial of an element\<close>

fun poly :: "u8 list \<Rightarrow> gf2" where
  "poly [] = 0"
| "poly (b # bs) = X ^ (8 * length bs) * Gf2 (unat b) + poly bs"

definition field_poly :: gf2 where
  "field_poly = X ^ 233 + X ^ 74 + 1"

definition elt_wf :: "u8 list \<Rightarrow> bool" where
  "elt_wf a \<longleftrightarrow> length a = 30 \<and> hd a \<le> 1"

abbreviation eqm :: "gf2 \<Rightarrow> gf2 \<Rightarrow> bool" where
  "eqm \<equiv> gf2_cong field_poly"

lemma Gf2_unat_xor: "Gf2 (unat (a XOR b)) = Gf2 (unat a) + Gf2 (unat (b :: u8))"
  by (simp add: unsigned_xor_eq Gf2_xor)

lemma poly_append: "poly (xs @ ys) = X ^ (8 * length ys) * poly xs + poly ys"
  by (induction xs) (simp_all add: distrib_left power_add ac_simps)

lemma poly_zeros [simp]: "poly (replicate n 0) = 0"
  by (induction n) (simp_all add: Gf2_0)

lemma poly_map2: "length xs = length ys \<Longrightarrow> poly (map2 (XOR) xs ys) = poly xs + poly ys"
  by (induction xs ys rule: list_induct2) (simp_all add: Gf2_unat_xor distrib_left distrib_right ac_simps)

lemma poly_elt_add:
  assumes "length a = 30" and "length b = 30"
  shows "poly (elt_add a b) = poly a + poly b"
proof -
  have "elt_add a b = map2 (XOR) a b"
    using assms by (intro nth_equalityI) (simp_all add: elt_add_def)
  then show ?thesis using poly_map2 assms by simp
qed

lemma poly_xor_at:
  assumes "i < length d"
  shows "poly (xor_at i b d) = poly d + X ^ (8 * (length d - 1 - i)) * Gf2 (unat b)"
  using assms
proof (induction d arbitrary: i)
  case (Cons y d)
  show ?case
  proof (cases i)
    case 0
    then show ?thesis by (simp add: xor_at_def Gf2_unat_xor distrib_left distrib_right ac_simps)
  next
    case (Suc j)
    then show ?thesis using Cons by (simp add: xor_at_def ac_simps)
  qed
qed simp

text \<open>A byte shifted left: what stays and what leaves it.\<close>

lemma byte_shift:
  assumes "k \<le> 8"
  shows "X ^ k * Gf2 (unat y) = X ^ 8 * Gf2 (unat (drop_bit (8 - k) y)) + Gf2 (unat (push_bit k (y :: u8)))"
proof -
  have "push_bit k (unat y) = push_bit 8 (unat (drop_bit (8 - k) y)) XOR unat (push_bit k y)"
    using assms
    by (intro bit_eqI) (auto simp: bit_simps dest: bit_imp_le_length)
  then have "2 ^ k * unat y = 2 ^ 8 * unat (drop_bit (8 - k) y) XOR unat (push_bit k y)"
    by (simp only: push_bit_eq_mult mult.commute)
  then show ?thesis by (simp only: X_power_times Gf2_xor)
qed

section \<open>Multiplication by X\<close>

lemma poly_mul_x_loop:
  "poly (mul_x_loop c x ys) = X ^ (8 * length ys) * Gf2 (unat x) + X * poly ys + Gf2 (unat c)
   \<and> length (mul_x_loop c x ys) = Suc (length ys)"
proof (induction ys arbitrary: x)
  case Nil
  then show ?case by (simp add: Gf2_unat_xor)
next
  case (Cons y ys)
  have "X ^ (8 * length ys) * Gf2 (unat (push_bit 1 y)) + X ^ (8 * Suc (length ys)) * Gf2 (unat (drop_bit 7 y))
      = X ^ (8 * length ys) * (X * Gf2 (unat y))"
    using byte_shift[of 1 y] by (simp add: power_add distrib_left ac_simps)
  then show ?case using Cons[of "push_bit 1 y"] by (simp add: Gf2_unat_xor distrib_left power_add ac_simps)
qed

lemma hd_mul_x_loop: "hd (mul_x_loop c 0 (y # ys)) \<le> 1"
proof -
  have "unat (drop_bit 7 y) \<le> 1" using unsigned_less[of y, where ?'a = nat] by (simp add: unat_drop_bit drop_bit_eq_div unat_div)
  then show ?thesis by (simp add: word_le_nat_alt)
qed

lemma le_1_cases:
  assumes "b \<le> 1"
  shows "b = 0 \<or> b = (1 :: u8)"
proof -
  have "unat b \<le> 1" using assms by (simp add: word_le_nat_alt)
  then have "unat b = 0 \<or> unat b = 1" by linarith
  then show ?thesis by (metis unsigned_0 unsigned_1 word_unat_eq_iff)
qed

lemma poly_mul_x:
  assumes "elt_wf a"
  shows "eqm (poly (elt_mul_x a)) (X * poly a)" and "elt_wf (elt_mul_x a)"
proof -
  obtain h y t where a: "a = h # y # t" "length t = 28" "h = 0 \<or> h = 1"
    using assms le_1_cases by (cases a; cases "tl a") (auto simp: elt_wf_def)
  define d where "d = mul_x_loop h 0 (y # t)"
  have d: "poly d = X * poly (y # t) + Gf2 (unat h)" "length d = 30" "hd d \<le> 1"
    using poly_mul_x_loop[of h 0 "y # t"] hd_mul_x_loop[of h y t] a(2) unfolding d_def by (simp_all add: Gf2_0 del: mul_x_loop.simps poly.simps)
  have e: "elt_mul_x a = xor_at 20 (push_bit 2 h) d"
    using a by (auto simp: elt_mul_x_def xor_at_def d_def Let_def simp del: mul_x_loop.simps)
  have "Gf2 (unat (push_bit 2 h)) = X ^ 2 * Gf2 (unat h)"
    using a(3) by (auto simp: X_power_times)
  then have p: "poly (elt_mul_x a) = X * poly (y # t) + Gf2 (unat h) + X ^ 74 * Gf2 (unat h)"
    unfolding e using poly_xor_at[of 20 d "push_bit 2 h"] d by (simp add: power_add[symmetric] mult.assoc[symmetric] del: poly.simps)
  have "X * poly a = X ^ 233 * Gf2 (unat h) + X * poly (y # t)"
    using a power_Suc[of X 232] by (simp add: distrib_left mult.assoc[symmetric] del: power_Suc)
  then have "poly (elt_mul_x a) = X * poly a + field_poly * Gf2 (unat h)"
    unfolding p field_poly_def by (simp add: distrib_left distrib_right ac_simps del: poly.simps)
  then show "eqm (poly (elt_mul_x a)) (X * poly a)" using gf2_cong_multiple by simp
  show "elt_wf (elt_mul_x a)" unfolding e using d(2,3) by (cases d) (simp_all add: elt_wf_def xor_at_def)
qed

section \<open>Multiplication\<close>

text \<open>The bits of an element in the order of the loop: bit \<open>j\<close> of byte \<open>i\<close> has weight \<open>8 * (29 - i) + j\<close>.\<close>

lemma coeffs_poly: "coeffs (poly (b # bs)) = (2 ^ (8 * length bs) * unat b) XOR coeffs (poly bs)"
  by (simp add: plus_gf2.rep_eq X_power_times Gf2_inverse)

lemma coeffs_less: "coeffs (poly bs) < 2 ^ (8 * length bs)"
proof (induction bs)
  case (Cons b bs)
  have "2 ^ (8 * length bs) * unat b < 2 ^ (8 * length (b # bs))"
    using unsigned_less[of b, where ?'a = nat] by (simp add: power_add)
  moreover have "coeffs (poly bs) < 2 ^ (8 * length (b # bs))"
    using Cons by (rule less_le_trans) simp
  ultimately show ?case unfolding coeffs_poly by (rule xor_less)
qed (simp add: zero_gf2.rep_eq)

lemma poly_Gf2: "poly a = Gf2 (coeffs (poly a))"
  by (simp add: coeffs_inverse)

lemma bit_coeffs:
  assumes "i < length a" and "j < 8"
  shows "bit (coeffs (poly a)) (8 * (length a - 1 - i) + j) = bit (a ! i) j"
  using assms(1)
proof (induction a arbitrary: i)
  case (Cons b bs)
  show ?case
  proof (cases i)
    case 0
    have "\<not> bit (coeffs (poly bs)) (8 * length bs + j)"
      using coeffs_less[of bs] bit_take_bit_iff[of "8 * length bs" "coeffs (poly bs)"]
      by (metis linorder_not_less le_add1 take_bit_nat_eq_self)
    then show ?thesis
      using 0 by (simp add: coeffs_poly bit_xor_iff push_bit_eq_mult[symmetric] mult.commute[of "2 ^ _"] bit_push_bit_iff bit_unsigned_iff del: poly.simps)
  next
    case (Suc k)
    then have "k < length bs" using Cons.prems by simp
    then have "8 * (length bs - 1 - k) + j < 8 * length bs" using assms(2) by linarith
    then have "\<not> bit (2 ^ (8 * length bs) * unat b) (8 * (length bs - 1 - k) + j)"
      by (simp add: mult.commute[of "2 ^ _"] push_bit_eq_mult[symmetric] bit_push_bit_iff)
    then show ?thesis using Suc Cons.IH[of k] \<open>k < length bs\<close>
      by (simp add: coeffs_poly bit_xor_iff del: poly.simps)
  qed
qed simp

lemma elt_wf_add: "elt_wf a \<Longrightarrow> elt_wf b \<Longrightarrow> elt_wf (elt_add a b)"
  using le_1_cases[of "hd a"] le_1_cases[of "hd b"]
  by (cases a; cases b) (auto simp: elt_wf_def elt_add_def upt_conv_Cons)

lemma elt_wf_zero: "elt_wf elt_zero"
  by (simp add: elt_wf_def elt_zero_def)

lemma elt_wf_coeffs:
  assumes "elt_wf a"
  shows "coeffs (poly a) < 2 ^ 233"
proof -
  obtain h t where a: "a = h # t" "length t = 29" "unat h \<le> 1"
    using assms by (cases a) (auto simp: elt_wf_def word_le_nat_alt)
  have "2 ^ (8 * length t) * unat h < 2 ^ 233" using a by (cases "unat h") auto
  moreover have "coeffs (poly t) < 2 ^ 233"
    using coeffs_less[of t] by (rule less_le_trans) (simp add: a)
  ultimately show ?thesis unfolding a(1) coeffs_poly by (rule xor_less)
qed

text \<open>The mask after \<open>m\<close> shifts, and what the next one makes of it.\<close>

lemma mask_of: "m < 8 \<Longrightarrow> drop_bit m (0x80 :: u8) = push_bit (7 - m) 1"
proof -
  assume "m < 8"
  moreover have "\<forall>m\<in>set [0..<8]. drop_bit m (0x80 :: u8) = push_bit (7 - m) 1" by code_simp
  ultimately show ?thesis by simp
qed

lemma mask_next: "m < 8 \<Longrightarrow> drop_bit 1 (drop_bit m (0x80 :: u8)) = 0 \<longleftrightarrow> m = 7"
proof -
  assume "m < 8"
  moreover have "\<forall>m\<in>set [0..<8]. drop_bit 1 (drop_bit m (0x80 :: u8)) = 0 \<longleftrightarrow> m = 7" by code_simp
  ultimately show ?thesis by simp
qed

lemma next_byte:
  "k mod 8 = 7 \<Longrightarrow> Suc k div 8 = Suc (k div 8)" "k mod 8 = 7 \<Longrightarrow> Suc k mod 8 = 0"
  "k mod 8 \<noteq> 7 \<Longrightarrow> Suc k div 8 = k div 8" "k mod 8 \<noteq> 7 \<Longrightarrow> Suc k mod 8 = Suc (k mod 8)"
  by (simp_all add: div_Suc mod_Suc)

definition mul_inv :: "u8 list \<Rightarrow> u8 list \<Rightarrow> nat \<Rightarrow> u8 list \<times> nat \<times> u8 \<Rightarrow> bool" where
  "mul_inv a b n = (\<lambda>(d, i, mask). i = (7 + n) div 8 \<and> mask = drop_bit ((7 + n) mod 8) 0x80 \<and> elt_wf d
     \<and> eqm (poly d) (Gf2 (coeffs (poly a) div 2 ^ (233 - n)) * poly b))"

lemma selected_bit:
  assumes "length a = 30" and "n < 233"
  shows "a ! ((7 + n) div 8) AND drop_bit ((7 + n) mod 8) 0x80 \<noteq> 0 \<longleftrightarrow> bit (coeffs (poly a)) (232 - n)"
proof -
  define i m where "i = (7 + n) div 8" and "m = (7 + n) mod 8"
  have im: "8 * i + m = 7 + n" "m < 8" by (simp_all add: i_def m_def)
  then have "i < 30" "8 * (30 - 1 - i) + (7 - m) = 232 - n" using assms(2) by linarith+
  then have "bit (coeffs (poly a)) (232 - n) = bit (a ! i) (7 - m)"
    using bit_coeffs[of i a "7 - m"] assms(1) by simp
  then show ?thesis
    using mask_of[OF im(2)] by (simp add: bit_iff_and_push_bit_not_eq_0 i_def[symmetric] m_def[symmetric])
qed

lemma elt_mul_step_inv:
  assumes "elt_wf a" and "elt_wf b" and "n < 233" and "mul_inv a b n s"
  shows "mul_inv a b (Suc n) (elt_mul_step a b s)"
proof -
  obtain d i mask where s: "s = (d, i, mask)" by (cases s)
  define A q where "A = coeffs (poly a)" and "q = A div 2 ^ (232 - n)"
  have inv: "i = (7 + n) div 8" "mask = drop_bit ((7 + n) mod 8) 0x80" "elt_wf d"
    "eqm (poly d) (Gf2 (A div 2 ^ (233 - n)) * poly b)"
    using assms(4) by (simp_all add: mul_inv_def s A_def)
  have "233 - n = Suc (232 - n)" using assms(3) by simp
  then have q2: "A div 2 ^ (233 - n) = q div 2" by (simp add: q_def div_mult2_eq mult.commute[of 2])
  have odd: "(a ! i AND mask \<noteq> 0) = odd q"
    using selected_bit[of a n] assms(1,3) inv by (simp add: elt_wf_def q_def A_def bit_iff_odd)
  define d1 where "d1 = elt_mul_x d"
  define d2 where "d2 = (if a ! i AND mask \<noteq> 0 then elt_add d1 b else d1)"
  have d1: "elt_wf d1" "eqm (poly d1) (X * poly d)" unfolding d1_def using poly_mul_x[OF inv(3)] by auto
  have "eqm (poly d1) (X * (Gf2 (q div 2) * poly b))"
    using gf2_cong_trans[OF d1(2) gf2_cong_mult[OF gf2_cong_refl inv(4)]] by (simp add: q2)
  moreover have "poly d2 = poly d1 + of_bool (odd q) * poly b"
    using d1(1) assms(2) poly_elt_add[of d1 b] by (auto simp: d2_def odd elt_wf_def)
  ultimately have "eqm (poly d2) (X * (Gf2 (q div 2) * poly b) + of_bool (odd q) * poly b)"
    by (simp add: gf2_cong_add)
  then have e: "eqm (poly d2) (Gf2 q * poly b)"
    by (simp add: gf2_bits[of q] distrib_left distrib_right ac_simps)
  have w: "elt_wf d2" unfolding d2_def using elt_wf_add[OF d1(1) assms(2)] d1(1) by simp
  have step: "elt_mul_step a b s = (if drop_bit 1 mask = 0 then (d2, i + 1, 0x80) else (d2, i, drop_bit 1 mask))"
    by (simp add: s elt_mul_step_def Let_def d1_def d2_def)
  have next_bit: "7 + Suc n = Suc (7 + n)" by simp
  show ?thesis
  proof (cases "(7 + n) mod 8 = 7")
    case True
    then have "(7 + Suc n) div 8 = Suc i" "(7 + Suc n) mod 8 = 0"
      unfolding next_bit inv(1) using next_byte[of "7 + n"] by blast+
    then show ?thesis
      using e w True mask_next[of 7] inv(2)
      unfolding step by (simp add: mul_inv_def q_def A_def)
  next
    case False
    then have "(7 + Suc n) div 8 = i" "(7 + Suc n) mod 8 = Suc ((7 + n) mod 8)"
      unfolding next_bit inv(1) using next_byte[of "7 + n"] by blast+
    then show ?thesis
      using e w False mask_next[of "(7 + n) mod 8"] inv(2)
      unfolding step by (simp add: mul_inv_def q_def A_def)
  qed
qed

lemma elt_mul_poly:
  assumes "elt_wf a" and "elt_wf b"
  shows "elt_wf (elt_mul a b)" and "eqm (poly (elt_mul a b)) (poly a * poly b)"
proof -
  have "mul_inv a b n ((elt_mul_step a b ^^ n) (elt_zero, 0, 1))" if "n \<le> 233" for n
    using that
  proof (induction n)
    case 0
    have "coeffs (poly a) div 2 ^ 233 = 0" using elt_wf_coeffs[OF assms(1)] by simp
    then show ?case using elt_wf_zero by (simp add: mul_inv_def elt_zero_def Gf2_0)
  next
    case (Suc n)
    then show ?case using elt_mul_step_inv[OF assms] by simp
  qed
  from this[OF le_refl] have inv: "mul_inv a b 233 ((elt_mul_step a b ^^ 233) (elt_zero, 0, 1))" .
  obtain d i mask where e: "(elt_mul_step a b ^^ 233) (elt_zero, 0, 1) = (d, i, mask)" by (rule prod_cases3)
  have "elt_mul a b = d" unfolding elt_mul_def e by simp
  then show "elt_wf (elt_mul a b)" "eqm (poly (elt_mul a b)) (poly a * poly b)"
    using inv unfolding e by (simp_all add: mul_inv_def coeffs_inverse)
qed


section \<open>Squares\<close>

lemma square_nibble:
  assumes "n < 16"
  shows "Gf2 (unat (square_table ! n)) = Gf2 n ^ 2"
proof -
  have "\<forall>n\<in>set [0..<16]. unat (square_table ! n) = clmul n n" by code_simp
  then have "unat (square_table ! n) = clmul n n" using assms by simp
  then show ?thesis by (simp add: power2_eq_square) (transfer, simp)
qed

lemma nibbles: "Gf2 (unat b) = X ^ 4 * Gf2 (unat (drop_bit 4 b)) + Gf2 (unat (b AND 15 :: u8))"
proof -
  have "unat b = push_bit 4 (unat (drop_bit 4 b)) XOR unat (b AND 15)"
  proof (rule bit_eqI)
    fix n
    have m: "(15 :: u8) = mask 4" by (simp add: mask_eq_exp_minus_1)
    show "bit (unat b) n = bit (push_bit 4 (unat (drop_bit 4 b)) XOR unat (b AND 15)) n"
      unfolding m by (auto simp: bit_simps dest: bit_imp_le_length)
  qed
  then have "unat b = 2 ^ 4 * unat (drop_bit 4 b) XOR unat (b AND 15)"
    by (simp only: push_bit_eq_mult mult.commute)
  then show ?thesis by (metis X_power_times Gf2_xor)
qed

lemma square_byte:
  "X ^ 8 * Gf2 (unat (square_table ! unat (drop_bit 4 b))) + Gf2 (unat (square_table ! unat (b AND 15)))
    = Gf2 (unat (b :: u8)) ^ 2"
proof -
  have "unat (drop_bit 4 b) < 16"
    using unsigned_less[of b, where ?'a = nat] by (simp add: unat_drop_bit drop_bit_eq_div unat_div div_less_iff_less_mult)
  moreover have "unat (b AND 15) < 16"
    using word_and_le1[of b 15] by (simp add: word_le_nat_alt)
  ultimately show ?thesis
    by (subst (3) nibbles) (simp add: square_nibble gf2_power2_add power_mult_distrib power_mult[symmetric])
qed

lemma poly_square_to_wide:
  assumes "length a = 30"
  shows "poly (elt_square_to_wide a) = poly a ^ 2" and "length (elt_square_to_wide a) = 60"
proof -
  define w where "w = (\<lambda>b :: u8. [square_table ! unat (drop_bit 4 b), square_table ! unat (b AND 15)])"
  have "elt_square_to_wide a = concat (map w (map ((!) a) [0..<30]))"
    by (simp add: elt_square_to_wide_def w_def o_def)
  then have e: "elt_square_to_wide a = concat (map w a)" using assms by (metis map_nth)
  have l: "length (concat (map w a)) = 2 * length a" for a by (induction a) (simp_all add: w_def)
  have "poly (concat (map w a)) = poly a ^ 2" for a
  proof (induction a)
    case (Cons b a)
    have "poly (w b) = Gf2 (unat b) ^ 2" using square_byte[of b] by (simp add: w_def)
    then show ?case
      using Cons by (simp add: poly_append l gf2_power2_add power_mult_distrib power_mult[symmetric] mult.commute)
  qed simp
  then show "poly (elt_square_to_wide a) = poly a ^ 2" "length (elt_square_to_wide a) = 60"
    using l assms by (simp_all add: e)
qed

lemma xor_at_simps [simp]: "length (xor_at i b d) = length d" "j \<le> i \<Longrightarrow> take j (xor_at i b d) = take j d"
  "j \<noteq> i \<Longrightarrow> xor_at i b d ! j = d ! j"
  by (simp_all add: xor_at_def)

text \<open>What changes behind the first \<open>j\<close> bytes is the whole change.\<close>

lemma poly_drop_change:
  assumes "length d' = length d" and "take j d' = take j d"
  shows "poly (drop j d') = poly (drop j d) + (poly d + poly d')"
proof -
  have "poly e = X ^ (8 * (length e - j)) * poly (take j e) + poly (drop j e)" for e
    using poly_append[of "take j e" "drop j e"] by simp
  from this[of d] this[of d'] show ?thesis using assms by (simp add: ac_simps)
qed

lemma shifted_byte:
  assumes "k \<le> 8"
  shows "X ^ (8 * Suc n) * Gf2 (unat (drop_bit (8 - k) x)) + X ^ (8 * n) * Gf2 (unat (push_bit k (x :: u8)))
    = X ^ (8 * n + k) * Gf2 (unat x)"
proof -
  have "X ^ (8 * n + k) * Gf2 (unat x) = X ^ (8 * n) * (X ^ k * Gf2 (unat x))" by (simp add: power_add ac_simps)
  then show ?thesis unfolding byte_shift[OF assms, of x] by (simp add: power_add distrib_left ac_simps)
qed

lemma wide_reduce_step_poly:
  assumes "length d = 60" and "i < 30"
  shows "length (wide_reduce_step i d) = 60" and "eqm (poly (drop (Suc i) (wide_reduce_step i d))) (poly (drop i d))"
proof -
  define x where "x = d ! i"
  define d' where "d' = wide_reduce_step i d"
  have d': "d' = xor_at (i + 30) (push_bit 7 x) (xor_at (i + 29) (drop_bit 1 x)
          (xor_at (i + 20) (push_bit 1 x) (xor_at (i + 19) (drop_bit 7 x) d)))"
    by (simp add: d'_def wide_reduce_step_def x_def Let_def)
  have len: "length d' = 60" using assms by (simp add: d')
  have n: "60 - 1 - (i + 19) = Suc (39 - i)" "60 - 1 - (i + 20) = 39 - i" "60 - 1 - (i + 29) = Suc (29 - i)"
    "60 - 1 - (i + 30) = 29 - i" using assms(2) by linarith+
  have "poly d' = poly d + (X ^ (8 * Suc (39 - i)) * Gf2 (unat (drop_bit 7 x)) + X ^ (8 * (39 - i)) * Gf2 (unat (push_bit 1 x)))
     + (X ^ (8 * Suc (29 - i)) * Gf2 (unat (drop_bit 1 x)) + X ^ (8 * (29 - i)) * Gf2 (unat (push_bit 7 x)))"
    unfolding d' using assms by (simp only: poly_xor_at xor_at_simps n ac_simps)
  also have "\<dots> = poly d + X ^ (8 * (39 - i) + 1) * Gf2 (unat x) + X ^ (8 * (29 - i) + 7) * Gf2 (unat x)"
    using shifted_byte[of 1 "39 - i" x] shifted_byte[of 7 "29 - i" x] by simp
  also have "8 * (39 - i) + 1 = 74 + (239 - 8 * i)" using assms(2) by linarith
  also have "8 * (29 - i) + 7 = 239 - 8 * i" using assms(2) by linarith
  finally have p: "poly d + poly d' = X ^ 74 * (X ^ (239 - 8 * i) * Gf2 (unat x)) + X ^ (239 - 8 * i) * Gf2 (unat x)"
    by (simp add: power_add ac_simps)
  have "take (Suc i) d' = take (Suc i) d" by (simp add: d')
  then have q: "poly (drop (Suc i) d') = poly (drop (Suc i) d) + (poly d + poly d')"
    using poly_drop_change len assms(1) by metis
  have "drop i d = x # drop (Suc i) d" using assms by (simp add: Cons_nth_drop_Suc x_def)
  moreover have "8 * length (drop (Suc i) d) = 233 + (239 - 8 * i)" using assms by simp
  ultimately have "poly (drop i d) = X ^ 233 * (X ^ (239 - 8 * i) * Gf2 (unat x)) + poly (drop (Suc i) d)"
    by (simp add: power_add ac_simps del: length_drop)
  then have "poly (drop (Suc i) d') = poly (drop i d) + field_poly * (X ^ (239 - 8 * i) * Gf2 (unat x))"
    unfolding q p field_poly_def by (simp add: distrib_left distrib_right ac_simps)
  then show "eqm (poly (drop (Suc i) (wide_reduce_step i d))) (poly (drop i d))" "length (wide_reduce_step i d) = 60"
    using gf2_cong_multiple len by (simp_all add: d'_def[symmetric])
qed


lemma wide_reduce_fold:
  assumes "length w = 60" and "n \<le> 30"
  shows "length (fold wide_reduce_step [0..<n] w) = 60 \<and> eqm (poly (drop n (fold wide_reduce_step [0..<n] w))) (poly w)"
  using assms(2)
proof (induction n)
  case (Suc n)
  then show ?case
    using wide_reduce_step_poly[of "fold wide_reduce_step [0..<n] w" n] gf2_cong_trans by auto
qed (simp add: assms)

lemma and_1_xor: "b AND 1 = b XOR (b AND NOT (1 :: u8))"
  by (rule bit_word_eqI) (auto simp: bit_simps)

lemma shifted_out:
  assumes "x = b AND NOT (1 :: u8)"
  shows "Gf2 (unat x) = X * Gf2 (unat (drop_bit 1 x))"
proof -
  have "x = push_bit 1 (drop_bit 1 x)"
  proof (rule bit_word_eqI)
    fix n
    assume "n < LENGTH(8)"
    have "\<not> bit x 0" unfolding assms by (simp only: bit_and_iff bit_not_iff bit_1_iff) simp
    then show "bit x n = bit (push_bit 1 (drop_bit 1 x)) n"
      using \<open>n < LENGTH(8)\<close> by (cases n) (simp_all only: bit_push_bit_iff bit_drop_bit_eq o_def, simp_all)
  qed
  moreover have "unat (push_bit 1 (drop_bit 1 x)) = 2 * unat (drop_bit 1 x)"
  proof -
    have "unat (drop_bit 1 x) < 128"
      using unsigned_less[of x, where ?'a = nat] by (simp only: unat_drop_bit) simp
    then have "unat (drop_bit 1 x) * 2 ^ 1 mod 2 ^ LENGTH(8) = unat (drop_bit 1 x) * 2" by simp
    then show ?thesis unfolding unat_push_bit by (simp only: mult.commute)
  qed
  ultimately have "unat x = 2 * unat (drop_bit 1 x)" by (rule ssubst[of x _ "\<lambda>z. unat z = _"])
  then show ?thesis by (simp only: X_times)
qed

lemma wide_reduce_poly:
  assumes "length w = 60"
  shows "elt_wf (drop 30 (wide_reduce w))" and "eqm (poly (drop 30 (wide_reduce w))) (poly w)"
proof -
  define d where "d = fold wide_reduce_step [0..<30] w"
  have d: "length d = 60" "eqm (poly (drop 30 d)) (poly w)"
    using wide_reduce_fold[OF assms, of 30] by (simp_all add: d_def)
  define x where "x = d ! 30 AND NOT 1"
  define y where "y = Gf2 (unat (drop_bit 1 x))"
  define r where "r = xor_at 30 x (xor_at 59 (drop_bit 1 x) (xor_at 50 (push_bit 1 x) (xor_at 49 (drop_bit 7 x) d)))"
  have r: "wide_reduce w = r"
    unfolding wide_reduce_def d_def[symmetric] Let_def x_def[symmetric] r_def xor_at_def[of 30]
    by (simp add: and_1_xor x_def)
  have x: "Gf2 (unat x) = X * y" unfolding y_def by (rule shifted_out[OF x_def])
  have "poly r = poly d + X ^ (8 * Suc 9) * Gf2 (unat (drop_bit 7 x)) + X ^ (8 * 9) * Gf2 (unat (push_bit 1 x)) + y + X ^ 232 * Gf2 (unat x)"
    unfolding r_def using d(1) by (simp add: poly_xor_at y_def)
  also have "\<dots> = poly d + X ^ (8 * 9 + 1) * Gf2 (unat x) + y + X ^ 232 * Gf2 (unat x)"
    using shifted_byte[of 1 9 x] by (simp add: add.assoc)
  also have "\<dots> = poly d + (X ^ 74 * y + y + X ^ 233 * y)"
    unfolding x using power_Suc[of X 73] power_Suc[of X 232] by (simp add: ac_simps)
  finally have "poly d + poly r = field_poly * y"
    by (simp add: field_poly_def distrib_left distrib_right ac_simps)
  moreover have "take 30 r = take 30 d" "length r = length d" by (simp_all add: r_def)
  ultimately have "poly (drop 30 r) = poly (drop 30 d) + field_poly * y"
    using poly_drop_change by metis
  then show "eqm (poly (drop 30 (wide_reduce w))) (poly w)"
    using gf2_cong_trans[OF gf2_cong_multiple d(2)] by (simp add: r)
  have "hd (drop 30 r) = d ! 30 AND 1"
    using d(1) by (simp add: r_def hd_drop_conv_nth and_1_xor x_def xor_at_def)
  moreover have "d ! 30 AND 1 \<le> 1" by (rule word_and_le1)
  ultimately show "elt_wf (drop 30 (wide_reduce w))"
    using d(1) by (simp add: r elt_wf_def) (simp add: r_def)
qed

lemma elt_square_poly:
  assumes "length a = 30"
  shows "elt_wf (elt_square a)" and "eqm (poly (elt_square a)) (poly a ^ 2)"
proof -
  note w = poly_square_to_wide[OF assms]
  note r = wide_reduce_poly[OF w(2)]
  have "elt_square a = drop 30 (wide_reduce (elt_square_to_wide a))"
    using r(1) by (simp add: elt_square_def elt_wf_def)
  then show "elt_wf (elt_square a)" "eqm (poly (elt_square a)) (poly a ^ 2)"
    using r w(1) by simp_all
qed


section \<open>Powers and inverses\<close>

lemma poly_inject: "length a = length b \<Longrightarrow> poly a = poly b \<Longrightarrow> a = b"
proof (induction a b rule: list_induct2)
  case (Cons x xs y ys)
  define n p q where "n = 8 * length ys" and "p = coeffs (poly xs)" and "q = coeffs (poly ys)"
  have l: "p < 2 ^ n" "q < 2 ^ n"
    using coeffs_less[of xs] coeffs_less[of ys] Cons.hyps by (simp_all add: p_def q_def n_def)
  have e: "(2 ^ n * unat x) XOR p = (2 ^ n * unat y) XOR q"
    using Cons.hyps Cons.prems coeffs_poly[of x xs] coeffs_poly[of y ys] unfolding p_def q_def n_def by metis
  have low: "take_bit n ((2 ^ n * u) XOR p) = p \<and> drop_bit n ((2 ^ n * u) XOR p) = u" if "p < 2 ^ n" for u p :: nat
  proof -
    have z: "2 ^ n * u = push_bit n u" by (simp only: push_bit_eq_mult mult.commute)
    have "take_bit n p = p" "drop_bit n p = 0"
      using that by (simp_all add: take_bit_nat_eq_self drop_bit_eq_div)
    moreover have "drop_bit n (push_bit n u) = u" by (simp add: drop_bit_eq_div push_bit_eq_mult)
    ultimately show ?thesis unfolding z by (simp add: take_bit_xor drop_bit_xor take_bit_push_bit)
  qed
  have "p = q" using low[OF l(1), of "unat x"] low[OF l(2), of "unat y"] e by metis
  moreover have "unat x = unat y" using low[OF l(1), of "unat x"] low[OF l(2), of "unat y"] e by metis
  ultimately show ?case using Cons.IH by (simp add: word_unat_eq_iff p_def q_def coeffs_inject)
qed simp

lemma div_is_1: "v div b = 1 \<Longrightarrow> 0 < b \<Longrightarrow> b \<le> v \<and> v < 2 * (b :: nat)"
proof -
  assume "v div b = 1" "0 < b"
  then have "b + v mod b = v" "v mod b < b" using div_mult_mod_eq[of v b] by simp_all
  then show ?thesis by linarith
qed

lemma elt_unique:
  assumes "elt_wf a" and "elt_wf b" and "eqm (poly a) (poly b)"
  shows "a = b"
proof -
  define p :: nat where "p = 2 ^ 74 XOR 1"
  have "p < 2 ^ 75" unfolding p_def by (rule xor_less) simp_all
  then have p: "p < 2 ^ 233" by (rule less_le_trans) simp
  have c: "coeffs field_poly = 2 ^ 233 XOR p"
    by (simp only: field_poly_def X_power plus_gf2.rep_eq Gf2_inverse[OF UNIV_I] one_gf2.rep_eq p_def xor.assoc)
  have "coeffs field_poly div 2 ^ 233 = 1"
    unfolding c drop_bit_eq_div[symmetric] drop_bit_xor using p by (simp add: drop_bit_eq_div)
  then have "(2 :: nat) ^ 233 \<le> coeffs field_poly" "coeffs field_poly < (2 :: nat) ^ Suc 233"
    using div_is_1[of "coeffs field_poly" "2 ^ 233"] by simp_all
  then have "poly a = poly b"
    by (rule gf2_cong_unique[OF assms(3)]) (rule elt_wf_coeffs[OF assms(1)] elt_wf_coeffs[OF assms(2)])+
  then show ?thesis using poly_inject assms by (simp add: elt_wf_def)
qed

text \<open>\<open>t\<close> is \<open>a\<close> to the power \<open>e\<close>.\<close>

definition is_power :: "u8 list \<Rightarrow> nat \<Rightarrow> u8 list \<Rightarrow> bool" where
  "is_power a e t \<longleftrightarrow> elt_wf t \<and> eqm (poly t) (poly a ^ e)"

lemma is_power_self: "elt_wf a \<Longrightarrow> is_power a 1 a"
  by (simp add: is_power_def)

lemma is_power_square:
  assumes "is_power a e t"
  shows "is_power a (2 * e) (elt_square t)"
proof -
  have t: "length t = 30" "eqm (poly t) (poly a ^ e)" using assms by (simp_all add: is_power_def elt_wf_def)
  have "eqm (poly (elt_square t)) ((poly a ^ e) ^ 2)"
    using gf2_cong_trans[OF elt_square_poly(2)[OF t(1)] gf2_cong_power[OF t(2)]] .
  then show ?thesis
    using elt_square_poly(1)[OF t(1)] by (simp add: is_power_def power_mult[symmetric] mult.commute)
qed

lemma is_power_mul:
  assumes "is_power a e s" and "is_power a e' t"
  shows "is_power a (e + e') (elt_mul s t)"
  using elt_mul_poly[of s t] assms gf2_cong_trans[OF _ gf2_cong_mult]
  unfolding is_power_def power_add by blast

lemma is_power_itoh_tsujii:
  assumes "is_power a e s" and "is_power a e' t"
  shows "is_power a (2 ^ j * e + e') (itoh_tsujii s t j)"
proof -
  have "is_power a (2 ^ j * e) ((elt_square ^^ j) s)" for j
    by (induction j) (use assms(1) is_power_square in \<open>auto simp: mult.assoc\<close>)
  then show ?thesis unfolding itoh_tsujii_def using is_power_mul assms(2) by blast
qed

lemma elt_inv_power:
  assumes "elt_wf a"
  shows "is_power a (2 ^ 233 - 2) (elt_inv a)"
proof -
  note a = is_power_self[OF assms]
  define t1 where "t1 = itoh_tsujii a a 1"
  define s1 where "s1 = itoh_tsujii t1 a 1"
  define t2 where "t2 = itoh_tsujii s1 s1 3"
  define s2 where "s2 = itoh_tsujii t2 a 1"
  define t3 where "t3 = itoh_tsujii s2 s2 7"
  define s3 where "s3 = itoh_tsujii t3 t3 14"
  define t4 where "t4 = itoh_tsujii s3 a 1"
  define s4 where "s4 = itoh_tsujii t4 t4 29"
  define t5 where "t5 = itoh_tsujii s4 s4 58"
  define s5 where "s5 = itoh_tsujii t5 t5 116"
  have "is_power a (2 ^ 2 - 1) t1" using is_power_itoh_tsujii[OF a a, of 1] by (simp add: t1_def)
  note is_power_itoh_tsujii[OF this a, of 1]
  then have s1: "is_power a (2 ^ 3 - 1) s1" by (simp add: s1_def)
  have "is_power a (2 ^ 6 - 1) t2" using is_power_itoh_tsujii[OF s1 s1, of 3] by (simp add: t2_def)
  note is_power_itoh_tsujii[OF this a, of 1]
  then have s2: "is_power a (2 ^ 7 - 1) s2" by (simp add: s2_def)
  have t3: "is_power a (2 ^ 14 - 1) t3" using is_power_itoh_tsujii[OF s2 s2, of 7] by (simp add: t3_def)
  have "is_power a (2 ^ 28 - 1) s3" using is_power_itoh_tsujii[OF t3 t3, of 14] by (simp add: s3_def)
  note is_power_itoh_tsujii[OF this a, of 1]
  then have t4: "is_power a (2 ^ 29 - 1) t4" by (simp add: t4_def)
  have s4: "is_power a (2 ^ 58 - 1) s4" using is_power_itoh_tsujii[OF t4 t4, of 29] by (simp add: s4_def)
  have t5: "is_power a (2 ^ 116 - 1) t5" using is_power_itoh_tsujii[OF s4 s4, of 58] by (simp add: t5_def)
  have "is_power a (2 ^ 232 - 1) s5" using is_power_itoh_tsujii[OF t5 t5, of 116] by (simp add: s5_def)
  then have "is_power a (2 * (2 ^ 232 - 1)) (elt_square s5)" by (rule is_power_square)
  then show ?thesis
    unfolding elt_inv_def Let_def t1_def s1_def t2_def s2_def t3_def s3_def t4_def s4_def t5_def s5_def by simp
qed


section \<open>The module multiplies and squares\<close>

text \<open>
  C39: on reduced elements the module's product is the product of the polynomials, reduced by
  \<open>X ^ 233 + X ^ 74 + 1\<close>; no other reduced element is congruent to it.
\<close>

theorem ec_mul_reduces:
  assumes "elt_wf a" and "elt_wf b"
  shows "\<exists>d. ec_elt_mul a b = Inr d \<and> elt_wf d \<and> gf2_cong field_poly (poly d) (poly a * poly b)
    \<and> (\<exists>k. poly a * poly b = field_poly * k + poly d)"
proof -
  have e: "ec_elt_mul a b = Inr (elt_mul a b)" using assms by (simp add: ec_elt_mul_def elt_wf_def)
  obtain k where "poly (elt_mul a b) + poly a * poly b = field_poly * k"
    using elt_mul_poly(2)[OF assms] unfolding gf2_cong_def dvd_def by blast
  then have "poly a * poly b = field_poly * k + poly (elt_mul a b)"
    using gf2_cancel(1)[of "poly (elt_mul a b)" "poly a * poly b"] by (metis add.commute)
  then show ?thesis using e elt_mul_poly[OF assms] by blast
qed

definition elt_one :: "u8 list" where
  "elt_one = replicate 29 0 @ [1]"

definition elt_x :: "u8 list" where
  "elt_x = replicate 29 0 @ [2]"

lemma elt_wf_examples: "elt_wf elt_one" "elt_wf elt_x"
  by (simp_all add: elt_wf_def elt_one_def elt_x_def)

lemma poly_examples: "poly elt_one = 1" "poly elt_x = X" "poly elt_zero = 0"
  by (simp_all add: elt_one_def elt_x_def elt_zero_def poly_append Gf2_1 X_def)

theorem ec_mul_reduces_witness:
  "\<exists>d. ec_elt_mul elt_x elt_x = Inr d \<and> elt_wf d \<and> gf2_cong field_poly (poly d) (poly elt_x * poly elt_x)"
  using ec_mul_reduces[OF elt_wf_examples(2) elt_wf_examples(2)] by blast

text \<open>
  C22: squaring by the table of spread nibbles and the two-step reduction computes what the general
  multiplication computes.
\<close>

theorem ec_square_is_mul:
  assumes "elt_wf a"
  shows "ec_elt_square a = ec_elt_mul a a"
proof -
  have l: "length a = 30" using assms by (simp add: elt_wf_def)
  have "eqm (poly (elt_square a)) (poly (elt_mul a a))"
    using gf2_cong_trans[OF elt_square_poly(2)[OF l]] gf2_cong_sym[OF elt_mul_poly(2)[OF assms assms]]
    by (simp add: power2_eq_square)
  then have "elt_square a = elt_mul a a"
    using elt_unique[OF elt_square_poly(1)[OF l] elt_mul_poly(1)[OF assms assms]] by blast
  then show ?thesis using l by (simp add: ec_elt_square_def ec_elt_mul_def)
qed

theorem ec_square_is_mul_witness: "ec_elt_square elt_x = ec_elt_mul elt_x elt_x"
  by (rule ec_square_is_mul[OF elt_wf_examples(2)])

text \<open>
  C40: reduced elements are closed under the operations: 30 bytes with the seven bits above the
  highest coefficient clear.
\<close>

theorem elt_closed:
  assumes "elt_wf a" and "elt_wf b"
  shows "elt_wf (elt_add a b) \<and> elt_wf (elt_mul_x a) \<and> elt_wf (elt_mul a b) \<and> elt_wf (elt_square a)
    \<and> elt_wf (itoh_tsujii a b j) \<and> elt_wf (elt_inv a)"
proof -
  have sq: "elt_wf ((elt_square ^^ j) a)" for j
    using assms(1) by (induction j) (auto intro: elt_square_poly(1) simp: elt_wf_def[of "(_ ^^ _) _"])
  have "elt_wf (elt_inv a)" using elt_inv_power[OF assms(1)] by (simp add: is_power_def)
  then show ?thesis
    using elt_wf_add[OF assms] poly_mul_x(2)[OF assms(1)] elt_mul_poly(1)[OF assms] sq[of 1]
      elt_mul_poly(1)[OF sq assms(2)] by (simp add: itoh_tsujii_def)
qed

theorem elt_closed_witness: "elt_wf (elt_inv elt_x) \<and> elt_wf (elt_mul elt_x elt_one)"
  using elt_closed[OF elt_wf_examples(2) elt_wf_examples(1)] by blast

end
