(* ===== verification/Ec_Frobenius.thy ===== *)
theory Ec_Frobenius
  imports Ec_Field
begin

text \<open>
  \<open>X ^ (2 ^ 233)\<close> is \<open>X\<close> modulo the polynomial of the field, by computation: 233 squarings on lists of
  coefficients, in a form that is quick to evaluate and proved to be squaring.
\<close>

unbundle bit_operations_syntax

section \<open>Squaring on bit lists\<close>

text \<open>The same squaring on lists of coefficients, the lowest first, in a form that is quick to compute.\<close>

fun bpoly :: "bool list \<Rightarrow> gf2" where
  "bpoly [] = 0"
| "bpoly (b # bs) = of_bool b + X * bpoly bs"

fun bxor :: "bool list \<Rightarrow> bool list \<Rightarrow> bool list" where
  "bxor [] ys = ys"
| "bxor (x # xs) [] = x # xs"
| "bxor (x # xs) (y # ys) = (x \<noteq> y) # bxor xs ys"

fun split_like :: "bool list \<Rightarrow> bool list \<Rightarrow> bool list \<times> bool list" where
  "split_like [] xs = ([], xs)"
| "split_like (t # ts) [] = ([], [])"
| "split_like (t # ts) (x # xs) = (case split_like ts xs of (ys, zs) \<Rightarrow> (x # ys, zs))"

fun interleave :: "bool list \<Rightarrow> bool list \<Rightarrow> bool list" where
  "interleave [] ys = []"
| "interleave (x # xs) [] = [x]"
| "interleave (x # xs) (y # ys) = x # y # interleave xs ys"

definition z37 :: "bool list" where
  "z37 = [False, False, False, False, False, False, False, False, False, False, False, False, False, False, False, False,
     False, False, False, False, False, False, False, False, False, False, False, False, False, False, False, False,
     False, False, False, False, False]"

definition z79 :: "bool list" where
  "z79 = [False, False, False, False, False, False, False, False, False, False, False, False, False, False, False, False,
     False, False, False, False, False, False, False, False, False, False, False, False, False, False, False, False,
     False, False, False, False, False, False, False, False, False, False, False, False, False, False, False, False,
     False, False, False, False, False, False, False, False, False, False, False, False, False, False, False, False,
     False, False, False, False, False, False, False, False, False, False, False, False, False, False, False]"

definition z117 :: "bool list" where
  "z117 = [False, False, False, False, False, False, False, False, False, False, False, False, False, False, False, False,
     False, False, False, False, False, False, False, False, False, False, False, False, False, False, False, False,
     False, False, False, False, False, False, False, False, False, False, False, False, False, False, False, False,
     False, False, False, False, False, False, False, False, False, False, False, False, False, False, False, False,
     False, False, False, False, False, False, False, False, False, False, False, False, False, False, False, False,
     False, False, False, False, False, False, False, False, False, False, False, False, False, False, False, False,
     False, False, False, False, False, False, False, False, False, False, False, False, False, False, False, False,
     False, False, False, False, False]"

definition fsq :: "bool list \<Rightarrow> bool list" where
  "fsq e =
     (case split_like z117 e of (lo, hi) \<Rightarrow>
        (case split_like z79 hi of (h1, h2) \<Rightarrow> interleave (bxor lo (h2 @ h2)) (bxor hi (z37 @ h1))))"

lemma length_templates: "length z37 = 37" "length z79 = 79" "length z117 = 117"
  by (simp_all add: z37_def z79_def z117_def)

lemma z37: "z37 = replicate 37 False"
  by (simp add: z37_def numeral_eq_Suc)

lemma split_like: "split_like ts xs = (take (length ts) xs, drop (length ts) xs)"
  by (induction ts xs rule: split_like.induct) simp_all

lemma bpoly_append: "bpoly (xs @ ys) = bpoly xs + X ^ length xs * bpoly ys"
  by (induction xs) (simp_all add: distrib_left ac_simps)

lemma bpoly_zeros: "bpoly (replicate n False) = 0"
  by (induction n) simp_all

lemma bpoly_bxor: "bpoly (bxor xs ys) = bpoly xs + bpoly ys"
  by (induction xs ys rule: bxor.induct) (auto simp: distrib_left ac_simps)

lemma length_bxor: "length (bxor xs ys) = max (length xs) (length ys)"
  by (induction xs ys rule: bxor.induct) simp_all

lemma bpoly_interleave:
  "length ys \<le> length xs \<Longrightarrow> length xs \<le> Suc (length ys) \<Longrightarrow>
    bpoly (interleave xs ys) = bpoly xs ^ 2 + X * bpoly ys ^ 2"
  by (induction xs ys rule: interleave.induct)
    (auto simp: gf2_power2_add power_mult_distrib distrib_left power2_eq_square ac_simps)

lemma length_interleave:
  "length ys \<le> length xs \<Longrightarrow> length xs \<le> Suc (length ys) \<Longrightarrow> length (interleave xs ys) = length xs + length ys"
  by (induction xs ys rule: interleave.induct) simp_all



lemma fsq_algebra:
  fixes l h1 h2 x c u z :: gf2
  assumes "c * (x * u) = z"
  shows "l + (h2 + c * h2) + x * (h1 + u * h2 + c * h1)
    = l + x * z * (h1 + u * h2) + (z + c + 1) * (x * (h1 + u * h2) + h2)"
proof -
  show ?thesis unfolding assms[symmetric] by (simp add: distrib_left distrib_right ac_simps)
qed

lemma fsq_poly:
  assumes "length e = 233"
  shows "length (fsq e) = 233" and "eqm (bpoly (fsq e)) (bpoly e ^ 2)"
proof -
  define lo hi h1 h2 where "lo = take 117 e" and "hi = drop 117 e" and "h1 = take 79 hi" and "h2 = drop 79 hi"
  have l: "length lo = 117" "length hi = 116" "length h1 = 79" "length h2 = 37"
    using assms by (simp_all add: lo_def hi_def h1_def h2_def)
  have f: "fsq e = interleave (bxor lo (h2 @ h2)) (bxor hi (z37 @ h1))"
    by (simp add: fsq_def split_like length_templates lo_def hi_def h1_def h2_def)
  then show "length (fsq e) = 233" using l by (simp add: length_interleave length_bxor length_templates)
  have e: "bpoly e = bpoly lo + X ^ 117 * bpoly hi" "bpoly hi = bpoly h1 + X ^ 79 * bpoly h2"
    using bpoly_append[of lo hi] bpoly_append[of h1 h2] l(1,3) by (simp_all only: lo_def hi_def h1_def h2_def append_take_drop_id)
  define L H1 H2 where "L = bpoly lo ^ 2" and "H1 = bpoly h1 ^ 2" and "H2 = bpoly h2 ^ 2"
  have "bpoly (fsq e) = bpoly (bxor lo (h2 @ h2)) ^ 2 + X * bpoly (bxor hi (z37 @ h1)) ^ 2"
    unfolding f using l by (intro bpoly_interleave) (simp_all add: length_bxor length_templates)
  also have "bpoly (bxor lo (h2 @ h2)) ^ 2 = L + (H2 + X ^ 74 * H2)"
    using l by (simp add: bpoly_bxor bpoly_append gf2_power2_add power_mult_distrib power_mult[symmetric] L_def H2_def)
  also have "bpoly (bxor hi (z37 @ h1)) ^ 2 = H1 + X ^ 158 * H2 + X ^ 74 * H1"
    by (simp add: bpoly_bxor bpoly_append z37 bpoly_zeros e(2) gf2_power2_add power_mult_distrib
        power_mult[symmetric] H1_def H2_def)
  also have "L + (H2 + X ^ 74 * H2) + X * (H1 + X ^ 158 * H2 + X ^ 74 * H1)
      = L + X * X ^ 233 * (H1 + X ^ 158 * H2) + field_poly * (X * (H1 + X ^ 158 * H2) + H2)"
    unfolding field_poly_def
    by (rule fsq_algebra) (simp add: power_add[symmetric] power_Suc[symmetric] del: power_Suc)
  also have "L + X * X ^ 233 * (H1 + X ^ 158 * H2) = bpoly e ^ 2"
    using power_Suc[of X 233]
    by (simp add: e gf2_power2_add power_mult_distrib power_mult[symmetric] L_def H1_def H2_def del: power_Suc)
  finally show "eqm (bpoly (fsq e)) (bpoly e ^ 2)" using gf2_cong_multiple by simp
qed

lemma fsq_iter:
  assumes "length e = 233"
  shows "length ((fsq ^^ n) e) = 233 \<and> eqm (bpoly ((fsq ^^ n) e)) (bpoly e ^ 2 ^ n)"
proof (induction n)
  case (Suc n)
  then have l: "length ((fsq ^^ n) e) = 233" by simp
  have "eqm (bpoly (fsq ((fsq ^^ n) e))) ((bpoly e ^ 2 ^ n) ^ 2)"
    using gf2_cong_trans[OF fsq_poly(2)[OF l] gf2_cong_power] Suc by blast
  then show ?case using fsq_poly(1)[OF l] by (simp add: power_mult[symmetric] mult.commute)
qed (simp add: assms)

text \<open>The powers of \<open>X\<close> by \<open>2 ^ 78\<close> and \<open>2 ^ 156\<close>, on the way to \<open>2 ^ 233\<close>.\<close>

definition bits_of :: "string \<Rightarrow> bool list" where
  "bits_of = map (\<lambda>c. c = CHR ''1'')"

definition x_bits :: "bool list" where
  "x_bits = False # True # z117 @ z37 @ z37 @ z37 @ [False, False, False]"

definition x_78 :: "bool list" where
  "x_78 = bits_of
     ''10111001101111100100000000011000111010101101100100110111000101000110011111111111101001101011010010101001010110111010100111001010111010111110011000101100000000011101111111001011011001110101100110110111110100011111010000100001011010000''"

definition x_156 :: "bool list" where
  "x_156 = bits_of
     ''11000100001101101100100100111010000100001101000101010111010010011001100100101111100010001000000101010011101010101011111000101001000001010011111101011001101001010010100010101110100011101010111000000110101010000000100011010111101110010''"

lemma x_steps: "(fsq ^^ 78) x_bits = x_78" "(fsq ^^ 78) x_78 = x_156" "(fsq ^^ 77) x_156 = x_bits"
  by (code_simp, code_simp, code_simp)

lemma fsq_chain:
  assumes "(fsq ^^ n) e = e'" and "length e = 233 \<and> eqm (bpoly e) (X ^ 2 ^ m)"
  shows "length e' = 233 \<and> eqm (bpoly e') (X ^ 2 ^ (m + n))"
proof -
  have "eqm (bpoly e ^ 2 ^ n) (X ^ 2 ^ (m + n))"
    using gf2_cong_power[of _ "bpoly e" "X ^ 2 ^ m" "2 ^ n"] assms(2) by (simp only: power_mult[symmetric] power_add)
  then show ?thesis using fsq_iter[of e n] assms gf2_cong_trans by blast
qed

lemma X_frobenius: "eqm X (X ^ 2 ^ 233)"
proof -
  have x: "bpoly x_bits = X" by (simp add: x_bits_def z37_def z117_def)
  then have "length x_bits = 233 \<and> eqm (bpoly x_bits) (X ^ 2 ^ 0)"
    by (simp add: x_bits_def length_templates)
  note fsq_chain[OF x_steps(3) fsq_chain[OF x_steps(2) fsq_chain[OF x_steps(1) this]]]
  then show ?thesis by (simp only: x) (simp only: numeral_plus_numeral add_0 semiring_norm)
qed

end
