(* ===== verification/Ec_Inverse.thy ===== *)
theory Ec_Inverse
  imports Ec_Frobenius
begin

text \<open>
  The elements of \<open>Ec_Field\<close> form a field, and \<^verbatim>\<open>elt_inv\<close> is its inverse. The reduced strings are a type
  with the module's operations as an instance of \<open>comm_ring_1\<close>. Since \<open>X ^ (2 ^ 233)\<close> is \<open>X\<close>, every element is
  its own power of \<open>2 ^ 233\<close>; because 233 is prime and the modulus has no root, there are no idempotents
  but 0 and 1, and this gives the inverses.
\<close>

unbundle bit_operations_syntax

section \<open>The ring of elements\<close>

typedef elt = "{a. elt_wf a}" morphisms bytes_of Elt
  using elt_wf_zero by blast

setup_lifting type_definition_elt

instantiation elt :: "{zero, one, plus, minus, uminus, times}"
begin

lift_definition zero_elt :: elt is elt_zero by (rule elt_wf_zero)
lift_definition one_elt :: elt is elt_one by (rule elt_wf_examples)
lift_definition plus_elt :: "elt \<Rightarrow> elt \<Rightarrow> elt" is elt_add by (rule elt_wf_add)
lift_definition minus_elt :: "elt \<Rightarrow> elt \<Rightarrow> elt" is elt_add by (rule elt_wf_add)
lift_definition uminus_elt :: "elt \<Rightarrow> elt" is "\<lambda>a. a" .
lift_definition times_elt :: "elt \<Rightarrow> elt \<Rightarrow> elt" is elt_mul by (rule elt_mul_poly(1))

instance ..

end

definition epoly :: "elt \<Rightarrow> gf2" where
  "epoly x = poly (bytes_of x)"

lemma bytes_wf: "elt_wf (bytes_of x)"
  using bytes_of[of x] by simp

lemma epoly_simps [simp]:
  "epoly 0 = 0" "epoly 1 = 1" "epoly (x + y) = epoly x + epoly y" "epoly (x - y) = epoly x + epoly y" "epoly (- x) = epoly x"
proof -
  have l: "length (bytes_of x) = 30" for x using bytes_wf[of x] by (simp add: elt_wf_def)
  show "epoly 0 = 0" "epoly 1 = 1" "epoly (x + y) = epoly x + epoly y" "epoly (x - y) = epoly x + epoly y" "epoly (- x) = epoly x"
    by (simp_all add: epoly_def zero_elt.rep_eq one_elt.rep_eq plus_elt.rep_eq minus_elt.rep_eq uminus_elt.rep_eq
        poly_elt_add l poly_examples)
qed

lemma epoly_times: "eqm (epoly (x * y)) (epoly x * epoly y)"
  unfolding epoly_def times_elt.rep_eq by (rule elt_mul_poly(2)[OF bytes_wf bytes_wf])

lemma elt_eqI: "eqm (epoly x) (epoly y) \<Longrightarrow> x = y"
  unfolding epoly_def using elt_unique[OF bytes_wf bytes_wf] bytes_of_inject by blast

lemma epoly_times_right: "eqm (epoly y) q \<Longrightarrow> eqm (epoly (x * y)) (epoly x * q)"
  using gf2_cong_trans[OF epoly_times gf2_cong_mult[OF gf2_cong_refl]] by blast

lemma epoly_times_left: "eqm (epoly x) p \<Longrightarrow> eqm (epoly (x * y)) (p * epoly y)"
  using gf2_cong_trans[OF epoly_times gf2_cong_mult[OF _ gf2_cong_refl]] by blast

instance elt :: comm_ring_1
proof
  fix a b c :: elt
  show "a * b * c = a * (b * c)"
    using gf2_cong_trans[OF epoly_times_left[OF epoly_times, of a b c, unfolded mult.assoc]
        gf2_cong_sym[OF epoly_times_right[OF epoly_times]]]
    by (intro elt_eqI)
  show "a * b = b * a"
    using gf2_cong_trans[OF epoly_times[of a b, unfolded mult.commute[of "epoly a"]] gf2_cong_sym[OF epoly_times[of b a]]]
    by (intro elt_eqI)
  show "1 * a = a" using epoly_times[of 1 a] by (intro elt_eqI) simp
  show "a + b + c = a + (b + c)" "a + b = b + a" "0 + a = a" "- a + a = 0" "a - b = a + - b"
    by (rule elt_eqI; simp add: ac_simps)+
  show "(a + b) * c = a * c + b * c"
  proof (rule elt_eqI)
    have "eqm (epoly ((a + b) * c)) (epoly a * epoly c + epoly b * epoly c)"
      using epoly_times[of "a + b" c] by (simp add: distrib_right)
    then show "eqm (epoly ((a + b) * c)) (epoly (a * c + b * c))"
      using gf2_cong_trans gf2_cong_sym[OF gf2_cong_add[OF epoly_times[of a c] epoly_times[of b c]]] by fastforce
  qed
  show "(0 :: elt) \<noteq> 1"
  proof
    assume "(0 :: elt) = 1"
    then have "epoly 0 = epoly 1" by simp
    then show False by simp
  qed
qed

lemma epoly_power: "eqm (epoly (x ^ n)) (epoly x ^ n)"
  by (induction n) (auto intro: epoly_times_right)

lemma elt_twice: "x + x = (0 :: elt)"
  by (rule elt_eqI) (simp only: epoly_simps gf2_twice gf2_cong_refl)

lemma elt_two [simp]: "(2 :: elt) = 0"
  using elt_twice[of 1] by (simp only: one_add_one)

text \<open>Every element is its own power of \<open>2 ^ 233\<close>.\<close>

definition field_order :: nat where
  "field_order = 2 ^ 233"

lemma Gf2_frobenius: "eqm (Gf2 n ^ field_order) (Gf2 n)"
proof (induction n rule: less_induct)
  case (less n)
  show ?case
  proof (cases "n = 0")
    case True
    then show ?thesis by (simp add: Gf2_0 field_order_def zero_power)
  next
    case False
    then have ih: "eqm (Gf2 (n div 2) ^ field_order) (Gf2 (n div 2))" by (intro less) simp
    have "Gf2 n ^ field_order = of_bool (odd n) ^ field_order + X ^ field_order * Gf2 (n div 2) ^ field_order"
      by (subst gf2_bits[of n]) (simp only: field_order_def gf2_frobenius_add power_mult_distrib)
    moreover have "of_bool (odd n) ^ field_order = (of_bool (odd n) :: gf2)"
      by (simp add: field_order_def zero_power)
    moreover have "eqm (X ^ field_order * Gf2 (n div 2) ^ field_order) (X * Gf2 (n div 2))"
      using gf2_cong_mult[OF gf2_cong_sym[OF X_frobenius] ih] by (simp only: field_order_def)
    ultimately show ?thesis using gf2_cong_add gf2_cong_refl gf2_bits[of n] by metis
  qed
qed

lemma elt_frobenius: "x ^ field_order = (x :: elt)"
proof (rule elt_eqI)
  have "epoly x = Gf2 (coeffs (epoly x))" by (simp add: coeffs_inverse)
  then have "eqm (epoly x ^ field_order) (epoly x)" using Gf2_frobenius by metis
  then show "eqm (epoly (x ^ field_order)) (epoly x)" using gf2_cong_trans[OF epoly_power] by blast
qed

section \<open>Idempotents\<close>

text \<open>The part of the ring an idempotent cuts out.\<close>

definition part :: "elt \<Rightarrow> elt set" where
  "part e = {z. e * z = z}"

definition unity :: "elt \<Rightarrow> elt" where
  "unity y = y ^ (field_order - 1)"

lemma field_order_split: "field_order = Suc (field_order - 1)" "field_order - 1 = Suc (field_order - 2)"
  by (simp_all add: field_order_def)

lemma unity_times: "y * unity y = y"
  using elt_frobenius[of y] power_Suc[of y "field_order - 1"] field_order_split(1) by (simp only: unity_def)

lemma unity_split: "unity y = y * y ^ (field_order - 2)"
  by (simp only: unity_def field_order_split(2) power_Suc)

lemma unity_idempotent: "unity y * unity y = unity y"
proof -
  have "unity y * unity y = (y * unity y) * y ^ (field_order - 2)" using unity_split by (metis mult.assoc mult.commute)
  also have "\<dots> = y * y ^ (field_order - 2)" by (simp only: unity_times)
  finally show ?thesis by (simp only: unity_split[symmetric])
qed

lemma finite_elt [simp]: "finite (A :: elt set)"
proof -
  have "finite {a :: u8 list. set a \<subseteq> UNIV \<and> length a = 30}" by (rule finite_lists_length_eq) simp
  then have "finite {a. elt_wf a}" by (rule finite_subset[rotated]) (auto simp: elt_wf_def)
  moreover have "bytes_of ` UNIV \<subseteq> {a. elt_wf a}" using bytes_wf by auto
  ultimately have "finite (bytes_of ` (UNIV :: elt set))" by (rule finite_subset[rotated])
  then have "finite (UNIV :: elt set)" by (rule finite_imageD) (simp add: inj_on_def bytes_of_inject)
  then show ?thesis by (rule finite_subset[rotated]) simp
qed


lemma part_mult: "e * e = e \<Longrightarrow> e * z \<in> part e"
  by (simp add: part_def mult.assoc[symmetric])

lemma part_closed: "y \<in> part e \<Longrightarrow> z * y \<in> part e"
  by (simp add: part_def mult.left_commute[of e])

lemma card_elt: "card (UNIV :: elt set) = field_order"
proof -
  have "bij_betw bytes_of UNIV {a. elt_wf a}"
    unfolding bij_betw_def by (metis inj_on_def bytes_of_inject type_definition.Rep_range[OF type_definition_elt])
  moreover have "card {a. elt_wf a} = field_order"
  proof -
    define T where "T = {t :: u8 list. length t = 29}"
    have "{a. elt_wf a} = Cons 0 ` T \<union> Cons 1 ` T"
      by (auto simp: elt_wf_def T_def image_iff length_Suc_conv numeral_eq_Suc dest!: le_1_cases)
    moreover have "card T = 2 ^ 232"
      using card_lists_length_eq[of "UNIV :: u8 set" 29] by (simp add: T_def card_word)
    moreover have "finite T"
      using finite_lists_length_eq[of "UNIV :: u8 set" 29] by (simp add: T_def)
    moreover have "card (Cons b ` T) = card T" for b by (intro card_image) (simp add: inj_on_def)
    moreover have "Cons 0 ` T \<inter> Cons 1 ` T = {}" by auto
    ultimately show ?thesis
      using card_Un_disjoint[of "Cons 0 ` T" "Cons 1 ` T"] by (simp add: field_order_def)
  qed
  ultimately show ?thesis using bij_betw_same_card by metis
qed

text \<open>An idempotent and its complement split the ring, so its part has a power of 2 many elements.\<close>

lemma card_parts:
  assumes "e * e = e"
  shows "card (part e) * card (part (1 + e)) = field_order"
proof -
  have z: "e * (1 + e) = 0" using assms by (simp add: distrib_left elt_twice)
  have c: "(1 + e) * (1 + e) = 1 + e" using assms by (simp add: distrib_left distrib_right add.assoc elt_twice)
  have "bij_betw (\<lambda>(u, v). u + v) (part e \<times> part (1 + e)) UNIV"
  proof (rule bij_betw_byWitness[where f' = "\<lambda>w. (e * w, (1 + e) * w)"])
    show "(\<lambda>(u, v). u + v) ` (part e \<times> part (1 + e)) \<subseteq> UNIV" by simp
    show "(\<lambda>w. (e * w, (1 + e) * w)) ` UNIV \<subseteq> part e \<times> part (1 + e)"
      using part_mult[OF assms] part_mult[OF c] by auto
    show "\<forall>w\<in>UNIV. (case (e * w, (1 + e) * w) of (u, v) \<Rightarrow> u + v) = w"
      by (simp add: distrib_right add.left_commute elt_twice)
    have "(e * (u + v), (1 + e) * (u + v)) = (u, v)" if "e * u = u" "(1 + e) * v = v" for u v
    proof -
      have "e * v = 0" using that(2) z by (metis mult.assoc mult_zero_left)
      moreover have "(1 + e) * u = 0" using that(1) by (simp add: distrib_right elt_twice)
      ultimately show ?thesis using that by (simp add: distrib_left)
    qed
    then show "\<forall>p\<in>part e \<times> part (1 + e). (e * (case p of (u, v) \<Rightarrow> u + v), (1 + e) * (case p of (u, v) \<Rightarrow> u + v)) = p"
      by (auto simp: part_def)
  qed
  then have "card (part e \<times> part (1 + e)) = card (UNIV :: elt set)" by (rule bij_betw_same_card)
  then show ?thesis by (simp add: card_cartesian_product card_elt)
qed

lemma factor_of_power_2: "a * b = 2 ^ n \<Longrightarrow> \<exists>d\<le>n. a = (2 :: nat) ^ d"
proof (induction n arbitrary: a b)
  case (Suc n)
  show ?case
  proof (cases "even a")
    case True
    then obtain a' where a: "a = 2 * a'" by blast
    then have "a' * b = 2 ^ n" using Suc.prems by simp
    then obtain d where "d \<le> n" "a' = 2 ^ d" using Suc.IH by blast
    then show ?thesis using a by (intro exI[of _ "Suc d"]) simp
  next
    case False
    then obtain b' where b: "b = 2 * b'" using Suc.prems by (metis dvd_def even_mult_iff even_Suc_div_two power_Suc dvd_triv_left)
    then have "a * b' = 2 ^ n" using Suc.prems by simp
    then show ?thesis using Suc.IH le_Suc_eq by metis
  qed
qed simp

lemma card_part:
  assumes "e * e = e" and "e \<noteq> 0" and "e \<noteq> 1"
  shows "\<exists>d. 0 < d \<and> d < 233 \<and> card (part e) = 2 ^ d"
proof -
  obtain d where d: "d \<le> 233" "card (part e) = 2 ^ d"
    using factor_of_power_2 card_parts[OF assms(1)] unfolding field_order_def by blast
  have "d \<noteq> 0"
  proof
    assume "d = 0"
    then have "card (part e) = 1" using d by simp
    moreover have "{0, e} \<subseteq> part e" using assms(1) by (simp add: part_def)
    ultimately show False using card_mono[of "part e" "{0, e}"] assms(2) by simp
  qed
  moreover have "d \<noteq> 233"
  proof
    assume "d = 233"
    then have "card (part e) = card (UNIV :: elt set)" using d by (simp only: card_elt field_order_def)
    then have "part e = UNIV" using card_subset_eq[of UNIV "part e"] by simp
    then have "1 \<in> part e" by simp
    then show False using assms(3) by (simp add: part_def)
  qed
  ultimately show ?thesis using d by (intro exI[of _ d]) simp
qed

section \<open>The smallest part\<close>

text \<open>
  In the part of a smallest idempotent every element but 0 has an inverse, so its elements are their own
  powers of the number of elements.
\<close>

definition smallest :: "elt \<Rightarrow> bool" where
  "smallest e \<longleftrightarrow> e * e = e \<and> e \<noteq> 0 \<and> (\<forall>g. g * g = g \<longrightarrow> g \<noteq> 0 \<longrightarrow> card (part e) \<le> card (part g))"

lemma smallest_inverse:
  assumes "smallest e" and "y \<in> part e" and "y \<noteq> 0"
  shows "unity y = e"
proof -
  define g where "g = unity y"
  have y: "e * y = y" using assms(2) by (simp add: part_def)
  have g: "g * g = g" "y * g = y" by (simp_all add: g_def unity_idempotent unity_times)
  then have g0: "g \<noteq> 0" using assms(3) by auto
  have "g = y * y ^ (field_order - 2)" by (simp only: g_def unity_split)
  then have eg: "e * g = g" using y by (metis mult.assoc)
  have "part g \<subseteq> part e" using eg by (auto simp: part_def) (metis mult.assoc)
  moreover have "card (part e) \<le> card (part g)" using assms(1) g(1) g0 by (simp add: smallest_def)
  ultimately have "part g = part e" by (intro card_seteq) simp_all
  moreover have "e \<in> part e" using assms(1) by (simp add: smallest_def part_def)
  ultimately have "g * e = e" by (metis (mono_tags) mem_Collect_eq part_def)
  then show ?thesis using eg by (simp add: g_def mult.commute)
qed

lemma smallest_cancel:
  assumes "smallest e" and "y \<in> part e" and "y \<noteq> 0" and "z \<in> part e" and "z' \<in> part e" and "y * z = y * z'"
  shows "z = z'"
proof -
  have "e = y ^ (field_order - 2) * y"
    using smallest_inverse[OF assms(1-3)] unity_split[of y] by (simp add: mult.commute)
  then have "e * z = e * z'" using assms(6) by (metis mult.assoc)
  then show ?thesis using assms(4,5) by (simp add: part_def)
qed

lemma smallest_power:
  assumes "smallest e" and "y \<in> part e"
  shows "y ^ card (part e) = y"
proof (cases "y = 0")
  case True
  have "0 \<in> part e" by (simp add: part_def)
  then have "0 < card (part e)" by (auto simp: card_gt_0_iff)
  then show ?thesis by (simp add: True zero_power)
next
  case False
  define T where "T = part e - {0}"
  have "bij_betw (\<lambda>z. y * z) T T"
  proof -
    have "inj_on (\<lambda>z. y * z) T" using smallest_cancel[OF assms False] by (auto simp: inj_on_def T_def)
    moreover have "(\<lambda>z. y * z) ` T \<subseteq> T"
      using smallest_cancel[OF assms False, of _ 0] part_closed[of _ e y] by (auto simp: T_def part_def)
    ultimately show ?thesis by (simp add: bij_betw_def endo_inj_surj)
  qed
  then have "(\<Prod>z\<in>T. y * z) = \<Prod>T" by (rule prod.reindex_bij_betw)
  then have p: "y ^ card T * \<Prod>T = \<Prod>T" by (simp add: prod.distrib)
  have "\<exists>w. \<Prod>F * w = e" if "F \<subseteq> T" for F
    using finite_elt[of F] that
  proof (induction F rule: finite_induct)
    case (insert z F)
    then obtain w where w: "\<Prod>F * w = e" by auto
    define v where "v = z ^ (field_order - 2)"
    have v: "z * v = e"
      using smallest_inverse[OF assms(1), of z] insert.prems unity_split[of z] by (auto simp: T_def v_def)
    have "(z * \<Prod>F) * (v * w) = (z * v) * (\<Prod>F * w)" by (simp only: mult.assoc mult.left_commute)
    then have "(z * \<Prod>F) * (v * w) = e" using assms(1) by (simp only: v w smallest_def)
    moreover have "\<Prod>(insert z F) = z * \<Prod>F" using insert.hyps by simp
    ultimately have "\<Prod>(insert z F) * (v * w) = e" by simp
    then show ?case by blast
  qed auto
  then obtain w where w: "\<Prod>T * w = e" by blast
  have p': "y ^ card T * e = e" using p w by (metis mult.assoc)
  have "0 \<in> part e" by (simp add: part_def)
  then have c: "card (part e) = Suc (card T)" unfolding T_def by (rule card.remove[OF finite_elt])
  have y: "e * y = y" using assms(2) by (simp add: part_def)
  have "y ^ card (part e) = y ^ card T * (e * y)" unfolding c y by (simp add: mult.commute)
  also have "\<dots> = (y ^ card T * e) * y" by (simp only: mult.assoc)
  finally show ?thesis unfolding p' y .
qed

section \<open>The field\<close>

lemma power_iter:
  fixes y :: elt
  assumes "y ^ k = y"
  shows "y ^ k ^ n = y"
  by (induction n) (simp_all add: assms power_mult)

lemma coprime_233: "0 < d \<Longrightarrow> d < 233 \<Longrightarrow> coprime d (233 :: nat)"
proof -
  have "\<forall>d\<in>set [1..<233]. gcd d (233 :: nat) = 1" by code_simp
  then show "0 < d \<Longrightarrow> d < 233 \<Longrightarrow> coprime d (233 :: nat)" by (simp add: coprime_iff_gcd_eq_1)
qed

text \<open>An element whose square is itself, but no idempotent other than 0 and 1.\<close>

lemma no_root: 
  assumes "(e :: elt) * e = e" and "e * x = 0 \<or> e * x = e" and "x ^ 233 = x ^ 74 + 1"
  shows "e = 0"
  using assms(2)
proof
  assume z: "e * x = 0"
  have "e * x ^ Suc n = 0" for n using z by (metis mult.assoc mult_zero_left power_Suc)
  from this[of 232] this[of 73] have "e * x ^ 233 = 0" "e * x ^ 74 = 0" by (simp_all del: power_Suc)
  then show ?thesis using arg_cong[OF assms(3), of "\<lambda>z. e * z"] by (simp add: distrib_left)
next
  assume z: "e * x = e"
  have "e * x ^ n = e" for n by (induction n) (simp_all add: z mult.assoc[symmetric])
  then show ?thesis using arg_cong[OF assms(3), of "\<lambda>z. e * z"] by (simp add: distrib_left elt_twice)
qed

definition x_elt :: elt where
  "x_elt = Elt elt_x"

lemma x_root: "x_elt ^ 233 = x_elt ^ 74 + 1"
proof (rule elt_eqI)
  have x: "epoly x_elt = X" using elt_wf_examples(2) by (simp add: epoly_def x_elt_def Elt_inverse poly_examples)
  have "eqm (X ^ 233) (X ^ 74 + 1)"
    using gf2_cong_multiple[of field_poly "X ^ 74 + 1" 1] by (simp add: field_poly_def ac_simps)
  then have "eqm (epoly (x_elt ^ 233)) (X ^ 74 + 1)"
    using gf2_cong_trans[OF epoly_power] by (simp add: x)
  moreover have "eqm (epoly (x_elt ^ 74 + 1)) (X ^ 74 + 1)"
    using gf2_cong_add[OF epoly_power[of x_elt 74] gf2_cong_refl] by (simp add: x)
  ultimately show "eqm (epoly (x_elt ^ 233)) (epoly (x_elt ^ 74 + 1))"
    using gf2_cong_trans gf2_cong_sym by blast
qed

lemma smallest_is_1:
  assumes "smallest e"
  shows "e = 1"
proof (rule ccontr)
  have e: "e * e = e" "e \<noteq> 0" using assms by (simp_all add: smallest_def)
  assume "e \<noteq> 1"
  then obtain d where d: "0 < d" "d < 233" "card (part e) = 2 ^ d" using card_part e by blast
  obtain a b where ab: "a * d = b * 233 + 1"
    using bezout_nat[of d 233] coprime_233[OF d(1,2)] d(1) by (auto simp: coprime_iff_gcd_eq_1 mult.commute)
  have sq: "y * y = y" if "y \<in> part e" for y
  proof -
    have "y ^ 2 ^ d = y" using smallest_power[OF assms that] d(3) by simp
    then have "y ^ 2 ^ (a * d) = y" using power_iter[of y "2 ^ d" a] by (simp only: power_mult[symmetric] mult.commute)
    moreover have "y ^ 2 ^ (b * 233) = y"
      using power_iter[OF elt_frobenius[of y], of b] by (simp only: field_order_def power_mult[symmetric] mult.commute)
    moreover have "y ^ 2 ^ (b * 233 + 1) = (y ^ 2 ^ (b * 233)) ^ 2" by (simp only: power_add power_mult power_one_right)
    ultimately show ?thesis by (simp only: ab power2_eq_square)
  qed
  define y where "y = e * x_elt"
  have y: "y \<in> part e" unfolding y_def by (rule part_mult[OF e(1)])
  have "y = 0 \<or> y = e"
  proof (cases "y = 0")
    case False
    have "e \<in> part e" using e by (simp add: part_def)
    moreover have "y * y = y * e" using sq[OF y] y by (simp add: part_def mult.commute)
    ultimately show ?thesis using smallest_cancel[OF assms y False y] by blast
  qed simp
  then show False using no_root[OF e(1) _ x_root] e(2) by (simp add: y_def)
qed

lemma elt_inverse:
  assumes "x \<noteq> (0 :: elt)"
  shows "unity x = 1"
proof -
  have ex: "\<exists>e :: elt. e * e = e \<and> e \<noteq> 0" by (rule exI[of _ 1]) simp
  then obtain e :: elt where "e * e = e \<and> e \<noteq> 0" "\<forall>g. g * g = g \<and> g \<noteq> 0 \<longrightarrow> card (part e) \<le> card (part g)"
    using ex_has_least_nat[of "\<lambda>e. e * e = e \<and> e \<noteq> 0" _ "\<lambda>e. card (part e)"] by blast
  then have "smallest e" by (simp add: smallest_def)
  then have "smallest 1" using smallest_is_1 by metis
  moreover have "unity x \<noteq> 0" using unity_times[of x] assms by auto
  moreover have "x \<in> part 1" by (simp add: part_def)
  ultimately show ?thesis using smallest_inverse assms by blast
qed


text \<open>The module's inversion, on the type of elements: the instance is the library's \<open>field\<close>.\<close>

lemma Elt_inv:
  assumes "elt_wf a"
  shows "Elt (elt_inv a) = Elt a ^ (field_order - 2)"
proof -
  have p: "elt_wf (elt_inv a)" "eqm (poly (elt_inv a)) (poly a ^ (field_order - 2))"
    using elt_inv_power[OF assms] by (simp_all only: is_power_def field_order_def)
  have "eqm (epoly (Elt (elt_inv a))) (epoly (Elt a) ^ (field_order - 2))"
    using p assms by (simp add: epoly_def Elt_inverse)
  then show ?thesis using gf2_cong_trans gf2_cong_sym[OF epoly_power] elt_eqI by blast
qed

instantiation elt :: field
begin

lift_definition inverse_elt :: "elt \<Rightarrow> elt" is elt_inv
  using elt_inv_power by (simp add: is_power_def)

definition divide_elt :: "elt \<Rightarrow> elt \<Rightarrow> elt" where
  "divide_elt x y = x * inverse y"

lemma inverse_elt_power: "inverse x = (x :: elt) ^ (field_order - 2)"
  using Elt_inv[OF bytes_wf[of x]] by (metis bytes_of_inverse inverse_elt.rep_eq)

instance
proof
  fix x y :: elt
  show "x \<noteq> 0 \<Longrightarrow> inverse x * x = 1"
    using elt_inverse[of x] unity_split[of x] by (simp add: inverse_elt_power mult.commute)
  show "x div y = x * inverse y" by (rule divide_elt_def)
  have "field_order - 2 \<noteq> 0" by (simp add: field_order_def)
  then show "inverse (0 :: elt) = 0" by (simp add: inverse_elt_power zero_power)
qed

end

text \<open>
  C12: every element but zero times the result of \<^verbatim>\<open>elt_inv\<close> is one; the inverse of zero is zero. So the
  strings of 30 bytes with these operations are a field of \<open>2 ^ 233\<close> elements.
\<close>

theorem elt_inv_inverts:
  assumes "elt_wf a"
  shows "elt_mul a (elt_inv a) = (if elt_is_zero a then elt_zero else elt_one)"
proof -
  have z: "elt_is_zero a = (a = elt_zero)"
    using assms by (auto simp: elt_is_zero_def elt_zero_def elt_wf_def list_all_iff intro!: nth_equalityI)
  have m: "Elt (elt_mul a (elt_inv a)) = Elt a * inverse (Elt a)"
    using assms elt_inv_power[OF assms] by (metis Elt_inverse bytes_of_inverse inverse_elt.rep_eq mem_Collect_eq times_elt.rep_eq)
  have w: "elt_wf (elt_mul a (elt_inv a))" using elt_mul_poly(1)[OF assms] elt_inv_power[OF assms] by (simp add: is_power_def)
  show ?thesis
  proof (cases "elt_is_zero a")
    case True
    then have "Elt a = 0" by (simp add: z zero_elt_def)
    then have "Elt (elt_mul a (elt_inv a)) = Elt elt_zero" using m by (simp add: zero_elt_def)
    then show ?thesis using True w elt_wf_zero by (simp add: Elt_inject)
  next
    case False
    then have "Elt a \<noteq> 0" using z assms elt_wf_zero by (simp add: zero_elt_def Elt_inject)
    then have "Elt (elt_mul a (elt_inv a)) = Elt elt_one" using m by (simp add: one_elt_def)
    then show ?thesis using False w elt_wf_examples(1) by (simp add: Elt_inject)
  qed
qed

theorem elt_inv_inverts_witness: "elt_mul elt_x (elt_inv elt_x) = elt_one"
proof -
  have "\<not> elt_is_zero elt_x" by code_simp
  then show ?thesis using elt_inv_inverts[OF elt_wf_examples(2)] by simp
qed

end
