(* ===== verification/Wiipax.thy ===== *)
theory Wiipax
  imports Stub_Elf
begin

text \<open>
  \<^verbatim>\<open>wiipax/client/main.c\<close>: the packer that puts the unpacking stub of \<open>Stub_Elf\<close> in front of a program. It
  strips the program to its loadable segments, compresses the result, appends it to the last segment of a
  stripped copy of the stub and fills in the stub's payload descriptor. The LZMA encoder and the stub images
  (built from \<^verbatim>\<open>wiipax/stub\<close>) are parameters.

  An image is a buffer at offset 0 of a byte function: what lies behind its length is what follows the
  buffer in the program's memory, which the code reads when an offset in the file points there. Fields are
  big-endian in the file; \<^verbatim>\<open>be32\<close> and \<^verbatim>\<open>be16\<close> are the loads and stores of the prelude. \<^verbatim>\<open>size_t\<close> has 64 bits
  and its sums do not wrap. \<^verbatim>\<open>die\<close> is \<open>Inl\<close> with its message.
\<close>

unbundle bit_operations_syntax

record elf_image =
  ei_data :: mem
  ei_len :: u32
  ei_phdrs :: u32
  ei_shdrs :: "u32 option"

type_synonym 'a or_die = "string + 'a"

fun bind_die :: "'a or_die \<Rightarrow> ('a \<Rightarrow> 'b or_die) \<Rightarrow> 'b or_die" where
  "bind_die (Inl e) f = Inl e"
| "bind_die (Inr x) f = f x"

lemma bind_die_Inr [simp]: "bind_die r f = Inr y \<longleftrightarrow> (\<exists>x. r = Inr x \<and> f x = Inr y)"
  by (cases r) auto

definition store16 :: "mem \<Rightarrow> u32 \<Rightarrow> u16 \<Rightarrow> mem" where
  "store16 m a v = mem_write m a (be16_bytes v)"

definition ascii :: "string \<Rightarrow> u8 list" where
  "ascii s = map of_char s"

section \<open>Checking an image\<close>

definition check_elf :: "elf_image \<Rightarrow> unit or_die" where
  "check_elf elf =
     (let d = ei_data elf
      in if ei_len elf < 32 then Inl ''Too short for an ELF''
         else if \<not> is_elf_magic d 0 then Inl ''Not an ELF''
         else if d 4 \<noteq> 1 then Inl ''Invalid ELF class''
         else if d 5 \<noteq> 2 then Inl ''Invalid ELF byte order''
         else if d 6 \<noteq> 1 then Inl ''Invalid ELF ident version''
         else if load16 d 16 \<noteq> 2 then Inl ''ELF is not an executable''
         else if load16 d 18 \<noteq> 20 then Inl ''Machine is not PowerPC''
         else if load32 d 20 \<noteq> 1 then Inl ''Invalid ELF version''
         else if load32 d 24 = 0 then Inl ''ELF has no entrypoint''
         else Inr ())"

definition init_elf :: "elf_image \<Rightarrow> bool \<Rightarrow> elf_image or_die" where
  "init_elf elf sections =
     (let d = ei_data elf; num = load16 d 44; off = load32 d 28
      in if num = 0 \<or> off = 0 then Inl ''ELF has no program headers''
         else if load16 d 42 \<noteq> 32 then Inl ''Invalid program header entry size''
         else if unat off + unat num * 32 > unat (ei_len elf) then Inl ''Program headers out of bounds''
         else
           let elf1 = elf\<lparr>ei_phdrs := off\<rparr>; num = load16 d 48; off = load32 d 32
           in if num = 0 \<or> off = 0 then
                (if \<not> sections then Inr (elf1\<lparr>ei_shdrs := None\<rparr>) else Inl ''ELF has no section headers'')
              else if load16 d 46 \<noteq> 40 then Inl ''Invalid section header entry size''
              else if unat off + unat num * 40 > unat (ei_len elf) then Inl ''Section headers out of bounds''
              else Inr (elf1\<lparr>ei_shdrs := Some off\<rparr>))"

section \<open>The payload descriptor of the stub\<close>

text \<open>Section headers are read at \<open>sh\<close>. The name is compared up to its first different byte.\<close>

fun find_section :: "mem \<Rightarrow> u32 \<Rightarrow> u32 \<Rightarrow> u32 \<Rightarrow> nat list \<Rightarrow> u32 or_die" where
  "find_section d sh shstr n [] = Inl ''.payload section not present''"
| "find_section d sh shstr n (i # is) =
     (let hdr = sh + 40 * of_nat i; off = load32 d hdr
      in if off > n then Inl ''Section name out of .shstrtab bounds''
         else if mem_read d (shstr + off) 9 = ascii ''.payload'' @ [0] then Inr (load32 d (hdr + 16))
         else find_section d sh shstr n is)"

definition find_payload_offset :: "elf_image \<Rightarrow> u32 or_die" where
  "find_payload_offset elf =
     (case ei_shdrs elf of
        None \<Rightarrow> Inl ''null pointer''
      | Some sh \<Rightarrow>
          (let d = ei_data elf; shnum = load16 d 48; shstrndx = load16 d 50
           in if shstrndx = 0 \<or> shstrndx > shnum then Inl ''Invalid .shstrtab index''
              else
                let hdr = sh + 40 * ucast shstrndx; off = load32 d (hdr + 16); n = load32 d (hdr + 20)
                in if off + n > ei_len elf - 1 then Inl ''.shstrtab section out of bounds''
                   else find_section d sh off n [0..<unat shnum]))"

definition phdr_of :: "elf_image \<Rightarrow> nat \<Rightarrow> u32" where
  "phdr_of elf i = ei_phdrs elf + 32 * of_nat i"

fun map_offset :: "elf_image \<Rightarrow> u32 \<Rightarrow> nat list \<Rightarrow> (nat \<times> u32) or_die" where
  "map_offset elf offset [] = Inl ''File offset is not part of any PT_LOAD program header''"
| "map_offset elf offset (i # is) =
     (let d = ei_data elf; ph = phdr_of elf i
      in if load32 d ph \<noteq> 1 then map_offset elf offset is
         else if load32 d (ph + 16) < 1 then map_offset elf offset is
         else
           let poff = load32 d (ph + 4); psize = load32 d (ph + 16)
           in if offset \<ge> poff \<and> offset \<le> poff + psize then Inr (i, offset - poff)
              else map_offset elf offset is)"

definition e_phnum :: "elf_image \<Rightarrow> nat" where
  "e_phnum elf = unat (load16 (ei_data elf) 44)"

definition map_file_offset :: "elf_image \<Rightarrow> u32 \<Rightarrow> (nat \<times> u32) or_die" where
  "map_file_offset elf offset = map_offset elf offset [0..<e_phnum elf]"

section \<open>Stripping\<close>

definition kept :: "elf_image \<Rightarrow> nat \<Rightarrow> bool" where
  "kept elf i =
     (let d = ei_data elf; ph = phdr_of elf i
      in load32 d ph = 1 \<and> \<not> load32 d (ph + 16) < 1 \<and> \<not> load32 d (ph + 20) < 1)"

fun strip_size :: "elf_image \<Rightarrow> nat list \<Rightarrow> u32 \<times> u16 \<Rightarrow> u32 \<times> u16" where
  "strip_size elf [] pc = pc"
| "strip_size elf (i # is) (pos, count) =
     strip_size elf is
       (if kept elf i then (pos + round_up (load32 (ei_data elf) (phdr_of elf i + 16)) 32, count + 1)
        else (pos, count))"

text \<open>The new ELF header in a zeroed buffer; the program headers follow at offset 64.\<close>

definition strip_header :: "elf_image \<Rightarrow> u16 \<Rightarrow> mem" where
  "strip_header elf count =
     (let o1 = mem_write (\<lambda>_. 0) 0 [0x7f, 0x45, 0x4c, 0x46, 1, 2, 1];
          o2 = store16 o1 16 2;
          o3 = store16 o2 18 20;
          o4 = store32 o3 20 1;
          o5 = store32 o4 24 (load32 (ei_data elf) 24);
          o6 = store32 o5 28 64;
          o7 = store16 o6 42 32;
          o8 = store16 o7 44 count
      in store16 o8 46 40)"

definition strip_phdr :: "mem \<Rightarrow> u32 \<Rightarrow> mem \<Rightarrow> u32 \<Rightarrow> u32 \<Rightarrow> mem" where
  "strip_phdr d src out dst pos =
     (let o1 = store32 out dst (load32 d src);
          o2 = store32 o1 (dst + 4) pos;
          o3 = store32 o2 (dst + 8) (load32 d (src + 8));
          o4 = store32 o3 (dst + 12) (load32 d (src + 12));
          o5 = store32 o4 (dst + 16) (load32 d (src + 16));
          o6 = store32 o5 (dst + 20) (load32 d (src + 20));
          o7 = store32 o6 (dst + 24) (load32 d (src + 24))
      in store32 o7 (dst + 28) (load32 d (src + 28)))"

record strip_state =
  st_pos :: u32
  st_count :: u16
  st_ndx :: "nat option"
  st_found :: bool
  st_out :: mem

text \<open>One segment: its header, then its bytes. \<open>st_ndx\<close> is \<^verbatim>\<open>*phdrndx\<close>, replaced by the index in the result.\<close>

definition strip_segment :: "elf_image \<Rightarrow> nat \<Rightarrow> strip_state \<Rightarrow> strip_state" where
  "strip_segment elf i s =
     (if \<not> kept elf i then s
      else
        let d = ei_data elf; src = phdr_of elf i;
            filesz = load32 d (src + 16);
            out = strip_phdr d src (st_out s) (64 + 32 * ucast (st_count s)) (st_pos s)
        in s\<lparr>st_ndx := (if st_ndx s = Some i then Some (unat (st_count s)) else st_ndx s),
             st_found := st_found s \<or> st_ndx s = Some i,
             st_out := mem_write out (st_pos s) (mem_read d (load32 d (src + 4)) (unat filesz)),
             st_pos := st_pos s + round_up filesz 32,
             st_count := st_count s + 1\<rparr>)"

definition strip_elf :: "elf_image \<Rightarrow> nat option \<Rightarrow> (elf_image \<times> nat option) or_die" where
  "strip_elf elf phdrndx =
     (case strip_size elf [0..<e_phnum elf] (64, 0) of
        (pos0, count) \<Rightarrow>
          let pos = pos0 + of_nat (32 * unat count)
          in if pos > 20 * 1024 * 1024 then Inl ''ELF too big, even after stripping''
             else
               let s = fold (strip_segment elf) [0..<e_phnum elf]
                         \<lparr>st_pos = 64 + of_nat (32 * unat count), st_count = 0, st_ndx = phdrndx, st_found = False,
                          st_out = strip_header elf count\<rparr>
               in if phdrndx \<noteq> None \<and> \<not> st_found s then Inl ''PHDR not part of the stripped ELF''
                  else Inr (\<lparr>ei_data = st_out s, ei_len = pos, ei_phdrs = 64, ei_shdrs = None\<rparr>, st_ndx s))"

section \<open>Injecting the payload\<close>

text \<open>
  The image with the payload, the address of the payload at run time, and its offset in the image. The new
  buffer is zeroed before the old one is copied to it; \<open>behind\<close> is what follows it in memory.
\<close>

definition inject_elf :: "elf_image \<Rightarrow> u8 list \<Rightarrow> mem \<Rightarrow> (elf_image \<times> u32 \<times> u32) or_die" where
  "inject_elf dst src behind =
     (let d = ei_data dst; phdrndx = unat (load16 d 44 - 1); ph = phdr_of dst phdrndx
      in if load32 d (ph + 16) \<noteq> load32 d (ph + 20) then
           Inl ''File size does not match the memory size for the last PHDR''
         else
           let pos = load32 d (ph + 8) + load32 d (ph + 16);
               pos_a = round_up pos 32;
               pos_d = pos_a - pos;
               size_d = pos_d + round_up (of_nat (length src)) 32;
               len = ei_len dst + size_d;
               m = mem_write (mem_write behind 0 (replicate (unat len) 0)) 0 (mem_read d 0 (unat (ei_len dst)))
           in bind_die (init_elf (dst\<lparr>ei_data := m, ei_len := len\<rparr>) False) (\<lambda>elf.
                let ph = phdr_of elf phdrndx; d = ei_data elf;
                    p = load32 d (ph + 4) + load32 d (ph + 16);
                    m1 = mem_write d (p + pos_d) src;
                    dataaddr = (pos_a - load32 m1 (ph + 8) + load32 m1 (ph + 12)) OR 0x80000000;
                    m2 = store32 m1 (ph + 16) (load32 m1 (ph + 16) + size_d);
                    m3 = store32 m2 (ph + 20) (load32 m2 (ph + 20) + size_d);
                    m4 = store32 m3 (ph + 8) (load32 m3 (ph + 12))
                in Inr (elf\<lparr>ei_data := m4\<rparr>, dataaddr, p + pos_d)))"

section \<open>The program\<close>

record packed =
  lz_data :: "u8 list"
  lz_props :: "u8 list"

text \<open>The options: the stub's name and the two files, or the usage message.\<close>

fun pack_options :: "string list \<Rightarrow> string \<Rightarrow> (string \<times> string list) or_die" where
  "pack_options [] stub = Inr (stub, [])"
| "pack_options (a # as) stub =
     (if take 1 a \<noteq> ''-'' then Inr (stub, a # as)
      else if a = ''-h'' then Inl ''usage''
      else if a = ''-s'' then (case as of [] \<Rightarrow> Inl ''usage'' | s # as' \<Rightarrow> pack_options as' s)
      else if a = ''--'' then Inr (stub, as)
      else Inl ''Unrecognized option'')"

text \<open>A file or a built-in stub in a buffer of its length, with \<open>behind\<close> what follows it.\<close>

definition in_buffer :: "mem \<Rightarrow> u8 list \<Rightarrow> elf_image" where
  "in_buffer behind bs =
     \<lparr>ei_data = mem_write behind 0 bs, ei_len = of_nat (length bs), ei_phdrs = 0, ei_shdrs = None\<rparr>"

definition read_stub :: "(string \<Rightarrow> u8 list option) \<Rightarrow> mem \<Rightarrow> string \<Rightarrow> elf_image or_die" where
  "read_stub stubs behind nm = (case stubs nm of None \<Rightarrow> Inl ''Unknown stub'' | Some bs \<Rightarrow> Inr (in_buffer behind bs))"

text \<open>\<open>contents\<close> is what can be opened and read in full.\<close>

definition read_elf :: "(string \<Rightarrow> u8 list option) \<Rightarrow> mem \<Rightarrow> string \<Rightarrow> elf_image or_die" where
  "read_elf contents behind nm =
     (case contents nm of
        None \<Rightarrow> Inl ''Could not open ELF file''
      | Some bs \<Rightarrow> if length bs < 52 then Inl ''File too short for ELF'' else Inr (in_buffer behind bs))"

definition pad16 :: "u8 list \<Rightarrow> u8 list" where
  "pad16 bs = bs @ replicate (unat ((of_nat (length bs) + 15) AND NOT 15 :: u32) - length bs) 0"

text \<open>\<^verbatim>\<open>payload_t\<close> at \<open>at\<close>: where the packed data are, their length, the length of the program, the decoder's properties.\<close>

definition fill_payload :: "mem \<Rightarrow> u32 \<Rightarrow> u32 \<Rightarrow> u32 \<Rightarrow> packed \<Rightarrow> mem" where
  "fill_payload m at dataaddr len_in lz =
     (let m1 = store32 m at dataaddr;
          m2 = store32 m1 (at + 4) (of_nat (length (lz_data lz)));
          m3 = store32 m2 (at + 8) len_in
      in mem_write m3 (at + 12) (lz_props lz))"

definition pack_images ::
  "(u8 list \<Rightarrow> packed or_die) \<Rightarrow> mem \<Rightarrow> elf_image \<Rightarrow> elf_image or_die \<Rightarrow> elf_image or_die" where
  "pack_images lzma behind stub0 program =
     bind_die (check_elf stub0) (\<lambda>_.
     bind_die (init_elf stub0 True) (\<lambda>stub1.
     bind_die (find_payload_offset stub1) (\<lambda>offset.
     bind_die (map_file_offset stub1 offset) (\<lambda>(ndx, phdroff).
     bind_die (strip_elf stub1 (Some ndx)) (\<lambda>(stub2, ndx2).
     bind_die program (\<lambda>program0.
     bind_die (check_elf program0) (\<lambda>_.
     bind_die (init_elf program0 False) (\<lambda>program1.
     bind_die (strip_elf program1 None) (\<lambda>(program2, _).
     bind_die (lzma (mem_read (ei_data program2) 0 (unat (ei_len program2)))) (\<lambda>lz.
     bind_die (inject_elf stub2 (pad16 (lz_data lz)) behind) (\<lambda>(out, dataaddr, _).
       let at = load32 (ei_data out) (phdr_of out (the ndx2) + 4) + phdroff
       in Inr (out\<lparr>ei_data := fill_payload (ei_data out) at dataaddr (ei_len program2) lz\<rparr>))))))))))))"

text \<open>What is written to which file. \<^verbatim>\<open>argv[0]\<close> is not among \<open>args\<close>.\<close>

definition wiipax_main ::
  "(string \<Rightarrow> u8 list option) \<Rightarrow> (u8 list \<Rightarrow> packed or_die) \<Rightarrow> mem \<Rightarrow> (string \<Rightarrow> u8 list option) \<Rightarrow> string list
     \<Rightarrow> (string \<times> u8 list) or_die" where
  "wiipax_main stubs lzma behind contents args =
     (if length args < 2 then Inl ''usage''
      else
        bind_die (pack_options args ''mini'') (\<lambda>(stubname, files).
          case files of
            [infile, outfile] \<Rightarrow>
              bind_die (read_stub stubs behind stubname) (\<lambda>stub.
              bind_die (pack_images lzma behind stub (read_elf contents behind infile)) (\<lambda>out.
                Inr (outfile, mem_read (ei_data out) 0 (unat (ei_len out)))))
          | _ \<Rightarrow> Inl ''usage''))"


section \<open>Writes at offsets\<close>

lemma unat_minus_of_nat:
  assumes "0 < k" and "k < 4294967296"
  shows "unat (- of_nat k :: u32) = 4294967296 - k"
proof -
  define x :: u32 where "x = of_nat k"
  have x: "unat x = k" unfolding x_def by (rule unat_of_nat32[OF assms(2)])
  have "unat (- x) = (4294967296 - unat x) mod 4294967296"
    using unat_sub_if'[of 0 x] unsigned_less[of x, where ?'a = nat] by simp
  then show ?thesis unfolding x_def[symmetric] x using assms by simp
qed

lemma block_offsets:
  assumes "f + n \<le> 4294967296" and "g < 4294967296"
  shows "in_block (a + of_nat f) n (a + of_nat g) \<longleftrightarrow> f \<le> g \<and> g < f + n"
proof (cases "f \<le> g")
  case True
  then obtain k where k: "g = f + k" using le_Suc_ex by blast
  then have "in_block (a + of_nat f) n (a + of_nat g) \<longleftrightarrow> k < n"
    using assms(2) by (simp add: in_block_def)
  then show ?thesis using k by simp
next
  case False
  then obtain k where k: "f = g + k" "0 < k" using less_imp_add_positive[of g f] by auto
  have d: "(a + of_nat g :: u32) - (a + of_nat f) = - of_nat k" by (simp add: k(1))
  show ?thesis
  proof (cases "k < 4294967296")
    case True
    then have "\<not> in_block (a + of_nat f) n (a + of_nat g)"
      using assms(1) k unfolding in_block_def d unat_minus_of_nat[OF k(2) True] by linarith
    then show ?thesis using False by simp
  next
    case k': False
    then have "n = 0" using assms(1) k by linarith
    then show ?thesis by (simp add: in_block_def)
  qed
qed

lemma load32_write_other:
  assumes "f + length bs \<le> 4294967296" and "g + 4 \<le> 4294967296" and "g + 4 \<le> f \<or> f + length bs \<le> g"
  shows "load32 (mem_write m (a + of_nat f) bs) (a + of_nat g) = load32 m (a + of_nat g)"
proof (rule load32_cong)
  fix k :: nat assume "k < 4"
  then have "\<not> in_block (a + of_nat f) (length bs) (a + of_nat (g + k))"
    using assms by (subst block_offsets) auto
  then show "mem_write m (a + of_nat f) bs (a + of_nat g + of_nat k) = m (a + of_nat g + of_nat k)"
    using mem_write_outside by (simp add: add.assoc)
qed

lemma load32_store32_field [mem_simps]:
  "(numeral f :: nat) + 4 \<le> numeral g \<or> (numeral g :: nat) + 4 \<le> numeral f \<Longrightarrow> (numeral f :: nat) \<le> 4096 \<Longrightarrow> (numeral g :: nat) \<le> 4096
    \<Longrightarrow> load32 (store32 m (a + numeral f) v) (a + numeral g) = load32 m (a + numeral g)"
  "4 \<le> (numeral g :: nat) \<Longrightarrow> (numeral g :: nat) \<le> 4096 \<Longrightarrow> load32 (store32 m a v) (a + numeral g) = load32 m (a + numeral g)"
  "4 \<le> (numeral f :: nat) \<Longrightarrow> (numeral f :: nat) \<le> 4096 \<Longrightarrow> load32 (store32 m (a + numeral f) v) a = load32 m a"
proof -
  note w = load32_write_other[where bs = "be32_bytes v", unfolded length_be_bytes]
  assume "(numeral f :: nat) + 4 \<le> numeral g \<or> (numeral g :: nat) + 4 \<le> numeral f" "(numeral f :: nat) \<le> 4096" "(numeral g :: nat) \<le> 4096"
  then have "numeral f + 4 \<le> (4294967296 :: nat)" "numeral g + 4 \<le> (4294967296 :: nat)"
    "(numeral g :: nat) + 4 \<le> numeral f \<or> (numeral f :: nat) + 4 \<le> numeral g" by linarith+
  from w[OF this, of m a] show "load32 (store32 m (a + numeral f) v) (a + numeral g) = load32 m (a + numeral g)"
    by (simp only: store32_def of_nat_numeral)
next
  note w = load32_write_other[where bs = "be32_bytes v" and f = 0, unfolded length_be_bytes]
  assume "4 \<le> (numeral g :: nat)" "(numeral g :: nat) \<le> 4096"
  then have "0 + 4 \<le> (4294967296 :: nat)" "numeral g + 4 \<le> (4294967296 :: nat)"
    "(numeral g :: nat) + 4 \<le> 0 \<or> 0 + 4 \<le> (numeral g :: nat)" by linarith+
  from w[OF this, of m a] show "load32 (store32 m a v) (a + numeral g) = load32 m (a + numeral g)"
    by (simp add: store32_def)
next
  note w = load32_write_other[where bs = "be32_bytes v" and g = 0, unfolded length_be_bytes]
  assume "4 \<le> (numeral f :: nat)" "(numeral f :: nat) \<le> 4096"
  then have "numeral f + 4 \<le> (4294967296 :: nat)" "0 + 4 \<le> (4294967296 :: nat)"
    "0 + 4 \<le> (numeral f :: nat) \<or> (numeral f :: nat) + 4 \<le> 0" by linarith+
  from w[OF this, of m a] show "load32 (store32 m (a + numeral f) v) a = load32 m a"
    by (simp add: store32_def)
qed

lemma store32_outside: "\<not> in_block a 4 x \<Longrightarrow> store32 m a v x = m x"
  by (simp add: store32_def mem_write_outside)

section \<open>One program header\<close>

lemma strip_phdr_fields:
  "load32 (strip_phdr d src out dst pos) dst = load32 d src"
  "load32 (strip_phdr d src out dst pos) (dst + 4) = pos"
  "load32 (strip_phdr d src out dst pos) (dst + 8) = load32 d (src + 8)"
  "load32 (strip_phdr d src out dst pos) (dst + 12) = load32 d (src + 12)"
  "load32 (strip_phdr d src out dst pos) (dst + 16) = load32 d (src + 16)"
  "load32 (strip_phdr d src out dst pos) (dst + 20) = load32 d (src + 20)"
  "load32 (strip_phdr d src out dst pos) (dst + 24) = load32 d (src + 24)"
  "load32 (strip_phdr d src out dst pos) (dst + 28) = load32 d (src + 28)"
  by (simp_all add: strip_phdr_def Let_def mem_simps)

lemma strip_phdr_outside:
  assumes "\<not> in_block dst 32 x"
  shows "strip_phdr d src out dst pos x = out x"
proof -
  have f: "\<not> in_block (dst + of_nat k) 4 x" if "k + 4 \<le> 32" for k
    using assms block_sub[of dst k 4 x 32] that by auto
  show ?thesis
    using f[of 0] f[of 4] f[of 8] f[of 12] f[of 16] f[of 20] f[of 24] f[of 28]
    by (simp add: strip_phdr_def Let_def store32_outside)
qed

text \<open>Segments that are not kept change nothing.\<close>

lemma strip_skips: "fold (strip_segment elf) is s = fold (strip_segment elf) (filter (kept elf) is) s"
  by (induction "is" arbitrary: s) (simp_all add: strip_segment_def)

definition filesz_of :: "elf_image \<Rightarrow> nat \<Rightarrow> nat" where
  "filesz_of elf i = unat (load32 (ei_data elf) (phdr_of elf i + 16))"

definition padded :: "elf_image \<Rightarrow> nat \<Rightarrow> nat" where
  "padded elf i = 32 * ((filesz_of elf i + 31) div 32)"

lemma padded_le: "filesz_of elf i \<le> padded elf i"
  by (simp add: padded_def)

definition kept_list :: "elf_image \<Rightarrow> nat list" where
  "kept_list elf = filter (kept elf) [0..<e_phnum elf]"

text \<open>Where the \<open>j\<close>-th kept segment goes; the last of these is the length of the result.\<close>

definition seg_at :: "elf_image \<Rightarrow> nat \<Rightarrow> nat" where
  "seg_at elf j = 64 + 32 * length (kept_list elf) + sum_list (map (padded elf) (take j (kept_list elf)))"

definition strip_len :: "elf_image \<Rightarrow> nat" where
  "strip_len elf = seg_at elf (length (kept_list elf))"

lemma seg_at_Suc: "j < length (kept_list elf) \<Longrightarrow> seg_at elf (Suc j) = seg_at elf j + padded elf (kept_list elf ! j)"
  by (simp add: seg_at_def take_Suc_conv_app_nth)

lemma seg_at_mono: "i \<le> j \<Longrightarrow> seg_at elf i \<le> seg_at elf j"
proof -
  assume "i \<le> j"
  then obtain r where "take j (kept_list elf) = take i (kept_list elf) @ r"
    using append_take_drop_id[of i "take j (kept_list elf)"] by (metis min.absorb1 take_take)
  then show ?thesis by (simp add: seg_at_def)
qed

lemma seg_at_le: "seg_at elf j \<le> strip_len elf"
  by (cases "j \<le> length (kept_list elf)") (simp_all add: strip_len_def seg_at_mono, simp add: seg_at_def)

lemma kept_list_length: "length (kept_list elf) < 65536"
proof -
  have "length (kept_list elf) \<le> length [0..<e_phnum elf]" unfolding kept_list_def by (rule length_filter_le)
  then show ?thesis using unsigned_less[of "load16 (ei_data elf) 44", where ?'a = nat] by (simp add: e_phnum_def)
qed

lemma seg_end:
  assumes "j < length (kept_list elf)"
  shows "seg_at elf j + filesz_of elf (kept_list elf ! j) \<le> seg_at elf (Suc j)"
    and "seg_at elf j + filesz_of elf (kept_list elf ! j) \<le> strip_len elf"
  using seg_at_Suc[OF assms] padded_le[of elf "kept_list elf ! j"] seg_at_le[of elf "Suc j"] by simp_all


section \<open>The stripped image\<close>

text \<open>What the result holds of the \<open>j\<close>-th kept segment: its header with the new file offset, and its bytes.\<close>

definition seg_written :: "elf_image \<Rightarrow> mem \<Rightarrow> nat \<Rightarrow> bool" where
  "seg_written elf out j \<longleftrightarrow>
     (let d = ei_data elf; i = kept_list elf ! j; src = phdr_of elf i; dst = of_nat (64 + 32 * j)
      in load32 out dst = load32 d src \<and> load32 out (dst + 4) = of_nat (seg_at elf j) \<and>
         load32 out (dst + 8) = load32 d (src + 8) \<and> load32 out (dst + 12) = load32 d (src + 12) \<and>
         load32 out (dst + 16) = load32 d (src + 16) \<and> load32 out (dst + 20) = load32 d (src + 20) \<and>
         mem_read out (of_nat (seg_at elf j)) (filesz_of elf i)
           = mem_read d (load32 d (src + 4)) (filesz_of elf i))"

lemma seg_written_cong:
  assumes "same_on (of_nat (64 + 32 * j)) 32 out out'"
    and "same_on (of_nat (seg_at elf j)) (filesz_of elf (kept_list elf ! j)) out out'"
  shows "seg_written elf out j \<Longrightarrow> seg_written elf out' j"
proof -
  have "filesz_of elf (kept_list elf ! j) \<le> 4294967296"
    using unsigned_less[of "load32 (ei_data elf) (phdr_of elf (kept_list elf ! j) + 16)", where ?'a = nat]
    by (simp add: filesz_of_def)
  then have "mem_read out' (of_nat (seg_at elf j)) (filesz_of elf (kept_list elf ! j))
    = mem_read out (of_nat (seg_at elf j)) (filesz_of elf (kept_list elf ! j))"
    using assms(2) by (intro mem_read_cong) (auto simp: same_on_def)
  then show "seg_written elf out j \<Longrightarrow> seg_written elf out' j"
    using same_on_header[OF assms(1)] same_on_load32[OF assms(1), of 8] by (simp add: seg_written_def Let_def)
qed

definition strip_inv :: "elf_image \<Rightarrow> mem \<Rightarrow> nat \<Rightarrow> strip_state \<Rightarrow> bool" where
  "strip_inv elf hdr k s \<longleftrightarrow>
     st_pos s = of_nat (seg_at elf k) \<and> st_count s = of_nat k \<and> same_on 0 52 hdr (st_out s) \<and>
     (\<forall>j<k. seg_written elf (st_out s) j)"

lemma apart_offsets:
  assumes "p + n \<le> q \<or> q + k \<le> p" and "p + n < 4294967296" and "q + k < 4294967296"
  shows "apart (of_nat p) n (of_nat q) k"
  using assms by (intro apart_intervals) (simp_all add: unat_of_nat32[of p] unat_of_nat32[of q] del: unat_of_nat32)

lemma seg_at_ge: "64 + 32 * length (kept_list elf) \<le> seg_at elf j"
  by (simp add: seg_at_def)

lemma strip_step:
  assumes inv: "strip_inv elf hdr k s" and k: "k < length (kept_list elf)" and len: "strip_len elf \<le> 20 * 1024 * 1024"
  shows "strip_inv elf hdr (Suc k) (strip_segment elf (kept_list elf ! k) s)"
proof -
  define i d src where "i = kept_list elf ! k" and "d = ei_data elf" and "src = phdr_of elf i"
  define f where "f = filesz_of elf i"
  define dst where "dst = 64 + 32 * k"
  define o1 where "o1 = strip_phdr d src (st_out s) (of_nat dst) (of_nat (seg_at elf k))"
  define out where "out = mem_write o1 (of_nat (seg_at elf k)) (mem_read d (load32 d (src + 4)) f)"
  have pos: "st_pos s = of_nat (seg_at elf k)" "st_count s = of_nat k" using inv by (simp_all add: strip_inv_def)
  have kept: "kept elf i" using nth_mem[OF k] by (simp add: i_def kept_list_def)
  have ucount: "64 + 32 * ucast (of_nat k :: u16) = (of_nat dst :: u32)"
  proof -
    have "k < 65536" using k kept_list_length[of elf] by simp
    then have "ucast (of_nat k :: u16) = (of_nat k :: u32)"
      by (simp add: unsigned_of_nat take_bit_nat_eq_self)
    then show ?thesis by (simp add: dst_def)
  qed
  note e = seg_end[OF k, folded i_def f_def]
  have bounds: "dst + 32 \<le> 64 + 32 * length (kept_list elf)" using k by (simp add: dst_def)
  have f: "f \<le> 4294967264" using e(2) len by simp
  have pad: "of_nat (seg_at elf k) + round_up (load32 d (src + 16)) 32 = (of_nat (seg_at elf (Suc k)) :: u32)"
  proof -
    have u: "unat (load32 d (src + 16)) = f" by (simp add: f_def filesz_of_def d_def src_def)
    then have "unat (round_up (load32 d (src + 16)) 32) = padded elf i"
      using unat_round_up_32[of "load32 d (src + 16)"] f by (simp add: padded_def f_def)
    then have "(of_nat (unat (round_up (load32 d (src + 16)) 32)) :: u32) = of_nat (padded elf i)" by (rule arg_cong)
    then have "round_up (load32 d (src + 16)) 32 = of_nat (padded elf i)" by simp
    then show ?thesis using seg_at_Suc[OF k] by (simp add: i_def)
  qed
  have step: "st_pos (strip_segment elf i s) = of_nat (seg_at elf (Suc k))" "st_count (strip_segment elf i s) = of_nat (Suc k)"
    "st_out (strip_segment elf i s) = out"
    using kept pos ucount pad unfolding strip_segment_def
    by (simp_all add: Let_def d_def[symmetric] src_def[symmetric] o1_def out_def f_def filesz_of_def ac_simps)
  have frame: "same_on (of_nat p) n (st_out s) out"
    if "p + n \<le> dst \<or> dst + 32 \<le> p" "p + n \<le> seg_at elf k \<or> seg_at elf k + f \<le> p" "p + n \<le> 20 * 1024 * 1024" for p n
  proof -
    have "apart (of_nat p) n (of_nat dst) 32" using that bounds seg_at_ge[of elf k] e(2) len by (intro apart_offsets) simp_all
    moreover have "apart (of_nat p) n (of_nat (seg_at elf k)) f" using that e(2) len by (intro apart_offsets) simp_all
    ultimately show ?thesis
      by (auto simp: same_on_def apart_def out_def o1_def mem_write_outside strip_phdr_outside)
  qed
  have hdr: "same_on 0 52 (st_out s) out"
    using frame[of 0 52] seg_at_ge[of elf k] by (simp add: dst_def)
  have old: "seg_written elf out j" if "j < k" for j
  proof (rule seg_written_cong)
    have jl: "j < length (kept_list elf)" using that k by simp
    have "64 + 32 * j + 32 \<le> dst" using that by (simp add: dst_def)
    then show "same_on (of_nat (64 + 32 * j)) 32 (st_out s) out"
      using frame[of "64 + 32 * j" 32] bounds seg_at_ge[of elf k] e(2) len by simp
    have "seg_at elf (Suc j) \<le> seg_at elf k" using that by (intro seg_at_mono) simp
    then show "same_on (of_nat (seg_at elf j)) (filesz_of elf (kept_list elf ! j)) (st_out s) out"
      using frame[of "seg_at elf j" "filesz_of elf (kept_list elf ! j)"] seg_end[OF jl] bounds seg_at_ge[of elf j] len by simp
    show "seg_written elf (st_out s) j" using inv that by (simp add: strip_inv_def)
  qed
  have new: "seg_written elf out k"
  proof -
    have "apart (of_nat dst) 32 (of_nat (seg_at elf k)) f"
      using bounds seg_at_ge[of elf k] e(2) len by (intro apart_offsets) simp_all
    then have "same_on (of_nat dst) 32 o1 out"
      by (auto simp: same_on_def apart_def out_def mem_write_outside)
    note h = same_on_header[OF this] same_on_load32[OF this, of 8]
    have "mem_read out (of_nat (seg_at elf k)) f = mem_read d (load32 d (src + 4)) f"
      using mem_read_write_same[of "mem_read d (load32 d (src + 4)) f"] f by (simp add: out_def)
    then show ?thesis
      unfolding seg_written_def Let_def i_def[symmetric] d_def[symmetric] src_def[symmetric] f_def[symmetric] dst_def[symmetric]
      using h by (simp add: o1_def strip_phdr_fields)
  qed
  show ?thesis
    using inv old new hdr unfolding strip_inv_def i_def[symmetric] step
    by (auto simp: same_on_def less_Suc_eq)
qed


lemma strip_size_kept:
  assumes "strip_len elf \<le> 20 * 1024 * 1024"
  shows "strip_size elf [0..<e_phnum elf] (64, 0)
    = (of_nat (strip_len elf - 32 * length (kept_list elf)), of_nat (length (kept_list elf)))"
proof -
  have skip: "strip_size elf is pc = strip_size elf (filter (kept elf) is) pc" for "is" pc
    by (induction "is" arbitrary: pc) auto
  have "strip_size elf is (of_nat p, of_nat c) = (of_nat (p + sum_list (map (padded elf) is)), of_nat (c + length is))"
    if "\<forall>i\<in>set is. kept elf i" "sum_list (map (padded elf) is) \<le> 20 * 1024 * 1024" for "is" p c
    using that
  proof (induction "is" arbitrary: p c)
    case (Cons i "is")
    have le: "padded elf i \<le> 20 * 1024 * 1024" "sum_list (map (padded elf) is) \<le> 20 * 1024 * 1024"
      using Cons.prems(2) by simp_all
    have "filesz_of elf i \<le> 4294967264" using le(1) padded_le[of elf i] by linarith
    then have "unat (round_up (load32 (ei_data elf) (phdr_of elf i + 16)) 32) = padded elf i"
      by (simp add: unat_round_up_32 filesz_of_def padded_def)
    then have "(of_nat (unat (round_up (load32 (ei_data elf) (phdr_of elf i + 16)) 32)) :: u32) = of_nat (padded elf i)"
      by (rule arg_cong)
    then have r: "round_up (load32 (ei_data elf) (phdr_of elf i + 16)) 32 = of_nat (padded elf i)" by simp
    have "strip_size elf (i # is) (of_nat p, of_nat c) = strip_size elf is (of_nat (p + padded elf i), of_nat (Suc c))"
      using Cons.prems(1) by (simp add: r add.commute)
    then show ?case using Cons.IH[of "p + padded elf i" "Suc c"] Cons.prems(1) le(2) by (simp add: add.assoc)
  qed simp
  from this[of "kept_list elf" 64 0] show ?thesis
    using assms skip[of "[0..<e_phnum elf]" "(64, 0)"]
    by (simp add: kept_list_def[symmetric] strip_len_def seg_at_def) (simp add: kept_list_def)
qed

text \<open>A program whose segments fit is stripped; the result holds the header and every kept segment.\<close>

lemma strip_elf_result:
  assumes "strip_len elf \<le> 20 * 1024 * 1024"
  shows "\<exists>out. strip_elf elf None = Inr (out, None) \<and> ei_len out = of_nat (strip_len elf) \<and> ei_phdrs out = 64 \<and>
    same_on 0 52 (strip_header elf (of_nat (length (kept_list elf)))) (ei_data out) \<and>
    (\<forall>j<length (kept_list elf). seg_written elf (ei_data out) j)"
proof -
  define n c where "n = length (kept_list elf)" and "c = (of_nat n :: u16)"
  define hdr where "hdr = strip_header elf c"
  define s0 where "s0 = \<lparr>st_pos = 64 + of_nat (32 * unat c), st_count = 0, st_ndx = None, st_found = False, st_out = hdr\<rparr>"
  have c: "unat c = n" using kept_list_length[of elf] by (simp add: c_def n_def unat_of_nat take_bit_nat_eq_self)
  have "strip_inv elf hdr 0 s0"
    by (simp add: strip_inv_def s0_def c seg_at_def n_def same_on_def)
  have inv: "strip_inv elf hdr k (fold (strip_segment elf) (take k (kept_list elf)) s0)" if "k \<le> n" for k
    using that
  proof (induction k)
    case 0
    show ?case using \<open>strip_inv elf hdr 0 s0\<close> by simp
  next
    case (Suc k)
    then show ?case
      using strip_step[OF _ _ assms] by (simp add: take_Suc_conv_app_nth n_def)
  qed
  define s where "s = fold (strip_segment elf) [0..<e_phnum elf] s0"
  have s: "strip_inv elf hdr n s"
    using inv[of n] strip_skips[of elf "[0..<e_phnum elf]" s0] by (simp add: s_def kept_list_def[symmetric] n_def)
  have ndx: "st_ndx (fold (strip_segment elf) is s) = None" if "st_ndx s = None" for "is" s
    using that by (induction "is" arbitrary: s) (simp_all add: strip_segment_def Let_def)
  have "32 * n \<le> strip_len elf" by (simp add: strip_len_def seg_at_def n_def)
  then have "of_nat (strip_len elf - 32 * n) + of_nat (32 * unat c) = (of_nat (strip_len elf) :: u32)"
    by (simp only: c of_nat_add[symmetric]) simp
  moreover have "\<not> (of_nat (strip_len elf) :: u32) > 20 * 1024 * 1024"
    using assms by (simp add: not_less word_le_nat_alt)
  ultimately have "strip_elf elf None = Inr (\<lparr>ei_data = st_out s, ei_len = of_nat (strip_len elf), ei_phdrs = 64, ei_shdrs = None\<rparr>, None)"
    using ndx[of s0 "[0..<e_phnum elf]"]
    unfolding strip_elf_def strip_size_kept[OF assms] prod.case Let_def n_def[symmetric] c_def[symmetric] hdr_def[symmetric] s0_def[symmetric] s_def[symmetric]
    by (simp add: s0_def)
  then show ?thesis using s by (auto simp: strip_inv_def hdr_def n_def c_def)
qed


section \<open>The stub loads what was stripped\<close>

lemma strip_header_magic:
  "strip_header elf c 0 = 0x7f" "strip_header elf c 1 = 0x45" "strip_header elf c 2 = 0x4c" "strip_header elf c 3 = 0x46"
  by (simp_all add: strip_header_def store16_def store32_def mem_write_def Let_def)

lemma load16_write_other:
  assumes "f + length bs \<le> 4294967296" and "g + 2 \<le> 4294967296" and "g + 2 \<le> f \<or> f + length bs \<le> g"
  shows "load16 (mem_write m (a + of_nat f) bs) (a + of_nat g) = load16 m (a + of_nat g)"
proof -
  have "\<not> in_block (a + of_nat f) (length bs) (a + of_nat (g + k))" if "k < 2" for k
    using assms that by (subst block_offsets) auto
  from this[of 0] this[of 1] show ?thesis
    by (intro load16_cong) (simp_all add: mem_write_outside ac_simps)
qed

lemma load16_store16: "load16 (store16 m a v) a = v"
  by (simp add: load16_def store16_def mem_write_def be16_bytes_def be16_of_bytes)

lemma load_after_store16:
  "f + 2 \<le> 4294967296 \<Longrightarrow> g + 2 \<le> 4294967296 \<Longrightarrow> g + 2 \<le> f \<or> f + 2 \<le> g \<Longrightarrow>
    load16 (store16 m (of_nat f) v) (of_nat g) = load16 m (of_nat g)"
  "f + 2 \<le> 4294967296 \<Longrightarrow> g + 4 \<le> 4294967296 \<Longrightarrow> g + 4 \<le> f \<or> f + 2 \<le> g \<Longrightarrow>
    load32 (store16 m (of_nat f) v) (of_nat g) = load32 m (of_nat g)"
  using load16_write_other[of f "be16_bytes v" g m 0] load32_write_other[of f "be16_bytes v" g m 0]
  by (simp_all add: store16_def)

lemma strip_header_fields:
  "load32 (strip_header elf c) 24 = load32 (ei_data elf) 24" "load32 (strip_header elf c) 28 = 64"
  "load16 (strip_header elf c) 42 = 32" "load16 (strip_header elf c) 44 = c"
proof -
  note s16 = load_after_store16(1)[of 46 42] load_after_store16(1)[of 44 42] load_after_store16(1)[of 46 44]
    load_after_store16(2)[of 46 24] load_after_store16(2)[of 44 24] load_after_store16(2)[of 42 24]
    load_after_store16(2)[of 46 28] load_after_store16(2)[of 44 28] load_after_store16(2)[of 42 28]
  have "load32 (store32 m 28 64) 24 = load32 m 24" for m
    using load32_write_other[of 28 "be32_bytes 64" 24 m 0] by (simp add: store32_def)
  then show "load32 (strip_header elf c) 24 = load32 (ei_data elf) 24" "load32 (strip_header elf c) 28 = 64"
    "load16 (strip_header elf c) 42 = 32" "load16 (strip_header elf c) 44 = c"
    using s16 by (simp_all add: strip_header_def Let_def load16_store16 load32_store32)
qed


definition load_to :: "elf_image \<Rightarrow> nat \<Rightarrow> u32" where
  "load_to elf i = to_k0 (load32 (ei_data elf) (phdr_of elf i + 12))"

text \<open>
  Every kept segment has room in memory for its bytes, and the places the segments are loaded to touch
  neither one another nor the stripped image at \<open>addr\<close>.
\<close>

definition segs_loadable :: "elf_image \<Rightarrow> u32 \<Rightarrow> bool" where
  "segs_loadable elf addr \<longleftrightarrow>
     (\<forall>i\<in>set (kept_list elf). load32 (ei_data elf) (phdr_of elf i + 16) \<le> load32 (ei_data elf) (phdr_of elf i + 20) \<and>
        apart (load_to elf i) (filesz_of elf i) addr (strip_len elf) \<and>
        (\<forall>j\<in>set (kept_list elf). i \<noteq> j \<longrightarrow> apart (load_to elf i) (filesz_of elf i) (load_to elf j) (filesz_of elf j)))"

lemma apart_in_image:
  assumes "p + n \<le> q \<or> q + k \<le> p" and "p + n \<le> 4294967296" and "q + k \<le> 4294967296"
  shows "apart (a + of_nat p) n (a + of_nat q) k"
  unfolding apart_def
proof (intro allI impI)
  fix x assume "in_block (a + of_nat p) n x"
  then obtain b :: nat where "b < n" "x = a + of_nat p + of_nat b" using block_nth by blast
  moreover then have "\<not> in_block (a + of_nat q) k (a + of_nat (p + b))"
    using assms by (subst block_offsets) auto
  ultimately show "\<not> in_block (a + of_nat q) k x" by (simp add: add.assoc)
qed

lemma image_loads:
  assumes "mem_read m addr n = mem_read d 0 n" and "n \<le> 4294967296"
  shows "k + 4 \<le> n \<Longrightarrow> load32 m (addr + of_nat k) = load32 d (of_nat k)"
    and "k + 2 \<le> n \<Longrightarrow> load16 m (addr + of_nat k) = load16 d (of_nat k)"
    and "k + l \<le> n \<Longrightarrow> mem_read m (addr + of_nat k) l = mem_read d (of_nat k) l"
proof -
  have b: "m (addr + of_nat k) = d (of_nat k)" if "k < n" for k
    using nth_mem_read[OF that, of m addr] nth_mem_read[OF that, of d 0] assms(1) by simp
  show "load32 m (addr + of_nat k) = load32 d (of_nat k)" if "k + 4 \<le> n"
    using b[of k] b[of "k + 1"] b[of "k + 2"] b[of "k + 3"] that by (simp add: load32_def add.assoc) (simp add: ac_simps)
  show "load16 m (addr + of_nat k) = load16 d (of_nat k)" if "k + 2 \<le> n"
    using b[of k] b[of "k + 1"] that by (simp add: load16_def add.assoc) (simp add: ac_simps)
  show "mem_read m (addr + of_nat k) l = mem_read d (of_nat k) l" if "k + l \<le> n"
    using b that by (intro nth_equalityI) (simp_all add: nth_mem_read add.assoc flip: of_nat_add)
qed

lemma stripped_layout:
  assumes len: "strip_len elf \<le> 20 * 1024 * 1024" and ne: "kept_list elf \<noteq> []" and fit: "segs_loadable elf addr"
    and hdr: "same_on 0 52 (strip_header elf (of_nat (length (kept_list elf)))) out"
    and segs: "\<forall>j<length (kept_list elf). seg_written elf out j"
    and img: "mem_read m addr (strip_len elf) = mem_read out 0 (strip_len elf)"
  shows "elf_layout addr m" and "load32 m (addr + 24) = load32 (ei_data elf) 24"
    and "phnum addr m = length (kept_list elf)"
    and "\<And>j. j < length (kept_list elf) \<Longrightarrow> load32 m (phdr_at addr m j) = 1 \<and>
       seg_src addr m (phdr_at addr m j) = addr + of_nat (seg_at elf j) \<and>
       seg_dst m (phdr_at addr m j) = load_to elf (kept_list elf ! j) \<and>
       seg_len m (phdr_at addr m j) = filesz_of elf (kept_list elf ! j)"
proof -
  define n where "n = length (kept_list elf)"
  have n: "0 < n" "n < 65536" using ne kept_list_length[of elf] by (simp_all add: n_def)
  have base: "64 + 32 * n \<le> seg_at elf j" for j unfolding n_def by (rule seg_at_ge)
  have L: "64 + 32 * n \<le> strip_len elf" using base by (simp add: strip_len_def)
  note im = image_loads[OF img order_trans[OF len]]
  have im32: "load32 m (addr + of_nat k) = load32 out (of_nat k)" if "k + 4 \<le> strip_len elf" for k
    using im(1) that by simp
  have im16: "load16 m (addr + of_nat k) = load16 out (of_nat k)" if "k + 2 \<le> strip_len elf" for k
    using im(2) that by simp
  have h: "load32 out (of_nat k) = load32 (strip_header elf (of_nat n)) (of_nat k)" if "k + 4 \<le> 52" for k
    using same_on_load32[OF hdr that] by (simp add: n_def)
  have h16: "load16 out (of_nat k) = load16 (strip_header elf (of_nat n)) (of_nat k)" if "k + 2 \<le> 52" for k
    using same_on_load16[OF hdr that] by (simp add: n_def)
  show entry: "load32 m (addr + 24) = load32 (ei_data elf) 24"
    using im32[of 24] h[of 24] L by (simp add: strip_header_fields)
  have phoff: "load32 m (addr + 28) = 64" using im32[of 28] h[of 28] L by (simp add: strip_header_fields)
  have entsz: "load16 m (addr + 42) = 32" using im16[of 42] h16[of 42] L by (simp add: strip_header_fields)
  have cnt: "load16 m (addr + 44) = of_nat n" using im16[of 44] h16[of 44] L by (simp add: strip_header_fields)
  show pn: "phnum addr m = length (kept_list elf)"
    using n cnt by (simp add: phnum_def unat_of_nat take_bit_nat_eq_self n_def)
  have ph: "phdr_at addr m j = addr + of_nat (64 + 32 * j)" for j by (simp add: phdr_at_def phoff)
  have F: "load32 m (phdr_at addr m j) = 1 \<and> seg_src addr m (phdr_at addr m j) = addr + of_nat (seg_at elf j) \<and>
       seg_dst m (phdr_at addr m j) = load_to elf (kept_list elf ! j) \<and>
       seg_len m (phdr_at addr m j) = filesz_of elf (kept_list elf ! j) \<and> seg_fits m (phdr_at addr m j)" if j: "j < n" for j
  proof -
    define i where "i = kept_list elf ! j"
    have i: "i \<in> set (kept_list elf)" using j by (simp add: i_def n_def)
    have inb: "64 + 32 * j + k + 4 \<le> strip_len elf" if "k \<le> 28" for k using j L that by linarith
    have f: "load32 m (phdr_at addr m j + of_nat k) = load32 out (of_nat (64 + 32 * j) + of_nat k)" if "k \<le> 28" for k
      using im32[OF inb[OF that]] by (simp add: ph add.assoc)
    have k: "kept elf i" using i by (simp add: kept_list_def)
    have w: "seg_written elf out j" using segs j by (simp add: n_def)
    have fits: "load32 (ei_data elf) (phdr_of elf i + 16) \<le> load32 (ei_data elf) (phdr_of elf i + 20)"
      using fit i by (simp add: segs_loadable_def)
    show ?thesis
      using f[of 0] f[of 4] f[of 12] f[of 16] f[of 20] w k fits
      unfolding seg_written_def Let_def i_def[symmetric]
      by (simp add: seg_src_def seg_dst_def seg_len_def seg_fits_def load_to_def filesz_of_def kept_def Let_def)
  qed
  then show "\<And>j. j < length (kept_list elf) \<Longrightarrow> load32 m (phdr_at addr m j) = 1 \<and>
       seg_src addr m (phdr_at addr m j) = addr + of_nat (seg_at elf j) \<and>
       seg_dst m (phdr_at addr m j) = load_to elf (kept_list elf ! j) \<and>
       seg_len m (phdr_at addr m j) = filesz_of elf (kept_list elf ! j)" by (simp add: n_def)
  have se: "seg_at elf j + filesz_of elf (kept_list elf ! j) \<le> strip_len elf" if "j < n" for j
    using seg_end(2) that by (simp add: n_def)
  have in_img: "apart (load_to elf (kept_list elf ! j)) (filesz_of elf (kept_list elf ! j)) (addr + of_nat p) l"
    if "j < n" "p + l \<le> strip_len elf" for j p l
  proof -
    have "apart (load_to elf (kept_list elf ! j)) (filesz_of elf (kept_list elf ! j)) addr (strip_len elf)"
      using fit that(1) nth_mem[of j "kept_list elf"] by (simp add: segs_loadable_def n_def)
    then show ?thesis
      using apart_sub[OF apart_sym that(2), THEN apart_sym] len by simp
  qed
  have ordered: "seg_at elf i + filesz_of elf (kept_list elf ! i) \<le> seg_at elf j" if "i < j" "i < n" for i j
  proof -
    have "seg_at elf (Suc i) \<le> seg_at elf j" using that by (intro seg_at_mono) simp
    then show ?thesis using seg_end(1)[of i elf] that by (simp add: n_def)
  qed
  have disj: "seg_at elf i + filesz_of elf (kept_list elf ! i) \<le> seg_at elf j \<or> seg_at elf j + filesz_of elf (kept_list elf ! j) \<le> seg_at elf i"
    if "i \<noteq> j" "i < n" "j < n" for i j
    using ordered[of i j] ordered[of j i] that by linarith
  have dd: "apart (load_to elf (kept_list elf ! i)) (filesz_of elf (kept_list elf ! i)) (load_to elf (kept_list elf ! j)) (filesz_of elf (kept_list elf ! j))"
    if "i \<noteq> j" "i < n" "j < n" for i j
  proof -
    have "distinct (kept_list elf)" by (simp add: kept_list_def)
    then have "kept_list elf ! i \<noteq> kept_list elf ! j" using that by (simp add: nth_eq_iff_index_eq n_def)
    then show ?thesis using fit that nth_mem[of i "kept_list elf"] nth_mem[of j "kept_list elf"] by (simp add: segs_loadable_def n_def)
  qed
  have a52: "apart (addr + of_nat p) l addr 52" if "52 \<le> p" "p + l \<le> strip_len elf" for p l
    using apart_in_image[of p l 0 52 addr] that len by simp
  have hd32: "apart (addr + of_nat p) l (addr + of_nat (64 + 32 * j)) 32" if "64 + 32 * n \<le> p" "j < n" "p + l \<le> strip_len elf" for p l j
    using that len by (intro apart_in_image) auto
  show "elf_layout addr m"
    unfolding elf_layout_def pn phoff entsz
  proof (intro conjI allI impI)
    show "(64 :: u32) \<noteq> 0" "(32 :: u16) = 32" "0 < length (kept_list elf)" using ne by simp_all
    fix i assume "i < length (kept_list elf)"
    then have i: "i < n" by (simp add: n_def)
    show "seg_fits m (phdr_at addr m i)" using F[OF i] by simp
    show "apart (phdr_at addr m i) 32 addr 52" using a52[of "64 + 32 * i" 32] i L by (simp add: ph)
    show "apart (seg_src addr m (phdr_at addr m i)) (seg_len m (phdr_at addr m i)) addr 52"
      using F[OF i] a52[OF _ se[OF i]] base[of i] by simp
    show "apart (seg_dst m (phdr_at addr m i)) (seg_len m (phdr_at addr m i)) addr 52"
      using F[OF i] in_img[OF i, of 0 52] L by simp
    fix j assume "j < length (kept_list elf)"
    then have j: "j < n" by (simp add: n_def)
    show "apart (seg_src addr m (phdr_at addr m i)) (seg_len m (phdr_at addr m i)) (phdr_at addr m j) 32"
      using F[OF i] hd32[OF base[of i] j se[OF i]] by (simp add: ph)
    show "apart (seg_dst m (phdr_at addr m i)) (seg_len m (phdr_at addr m i)) (phdr_at addr m j) 32"
      using F[OF i] in_img[OF i, of "64 + 32 * j" 32] j L by (simp add: ph)
    show "apart (seg_dst m (phdr_at addr m i)) (seg_len m (phdr_at addr m i)) (seg_src addr m (phdr_at addr m j)) (seg_len m (phdr_at addr m j))"
      using F[OF i] F[OF j] in_img[OF i se[OF j]] by simp
    assume "i \<noteq> j"
    show "apart (seg_src addr m (phdr_at addr m i)) (seg_len m (phdr_at addr m i)) (seg_src addr m (phdr_at addr m j)) (seg_len m (phdr_at addr m j))"
      using F[OF i] F[OF j] apart_in_image[OF disj[OF \<open>i \<noteq> j\<close> i j], of addr] se[OF i] se[OF j] len by simp
    show "apart (seg_dst m (phdr_at addr m i)) (seg_len m (phdr_at addr m i)) (seg_dst m (phdr_at addr m j)) (seg_len m (phdr_at addr m j))"
      using F[OF i] F[OF j] dd[OF \<open>i \<noteq> j\<close> i j] by simp
  qed
qed


lemma to_k0_bounds: "unat (to_k0 a) < 0xc0000000"
proof -
  define p where "p = a AND 0x3FFFFFFF"
  have m: "(0x3FFFFFFF :: u32) = mask 30" by (simp add: mask_eq_exp_minus_1)
  have p: "unat p < 2 ^ 30" unfolding p_def m by (subst unat_and_mask) simp_all
  have "p AND 0x80000000 = 0" by (simp add: p_def and.assoc)
  then have "to_k0 a = p + 0x80000000" using word_plus_and_or[of p "0x80000000"] by (simp add: to_k0_def p_def)
  then have "unat (to_k0 a) = (unat p + 0x80000000) mod 2 ^ 32" by (simp add: unat_word_ariths)
  then have "unat (to_k0 a) \<le> unat p + 0x80000000" by simp
  then show ?thesis using p by simp
qed

lemma stripped_magic:
  assumes "same_on 0 52 (strip_header elf c) out" and "mem_read m addr n = mem_read out 0 n" and "52 \<le> n"
  shows "is_elf_magic m addr"
proof -
  have b: "m (addr + of_nat k) = strip_header elf c (of_nat k)" if "k < 52" for k
  proof -
    have "m (addr + of_nat k) = out (of_nat k)"
      using nth_mem_read[of k n m addr] nth_mem_read[of k n out 0] assms(2,3) that by simp
    then show ?thesis using same_on_byte[OF assms(1) that] by simp
  qed
  from b[of 0] b[of 1] b[of 2] b[of 3] show ?thesis by (simp add: is_elf_magic_def strip_header_magic)
qed

text \<open>
  C13: a program that the packer accepts and that fits, stripped and then put into the decoder's buffer, is
  started by the stub: it branches to the program's entry point, and every loadable segment of the original
  file is then at its load address.
\<close>

theorem packed_program_starts:
  assumes chk: "check_elf elf = Inr ()" and strip: "strip_elf elf None = Inr (out, ndx)"
    and len: "strip_len elf \<le> 20 * 1024 * 1024" and ne: "kept_list elf \<noteq> []" and fit: "segs_loadable elf CODE_BUFFER"
    and dec: "decode (write32 m0 0x0c003004 0) = (0, m)"
    and img: "mem_read m CODE_BUFFER (strip_len elf) = mem_read (ei_data out) 0 (strip_len elf)"
  shows "\<exists>m'. stubmain dkppc decode m0 =
      (let entry = load32 (ei_data elf) 24 in if dkppc \<or> entry AND 0xc0000000 \<noteq> 0 then Branch entry else Plunge entry, m') \<and>
    (\<forall>i<e_phnum elf. kept elf i \<longrightarrow>
       mem_read m' (to_k0 (load32 (ei_data elf) (phdr_of elf i + 12))) (filesz_of elf i)
         = mem_read (ei_data elf) (load32 (ei_data elf) (phdr_of elf i + 4)) (filesz_of elf i))"
proof -
  obtain hdr: "same_on 0 52 (strip_header elf (of_nat (length (kept_list elf)))) (ei_data out)"
    and segs: "\<forall>j<length (kept_list elf). seg_written elf (ei_data out) j"
    using strip_elf_result[OF len] strip by auto
  note lay = stripped_layout[OF len ne fit hdr segs img]
  define entry where "entry = load32 (ei_data elf) 24"
  have entry0: "entry \<noteq> 0" using chk by (auto simp: check_elf_def Let_def entry_def split: if_splits)
  have L: "52 \<le> strip_len elf" by (simp add: strip_len_def seg_at_def)
  obtain m2 where m2: "load_elf_image m CODE_BUFFER = (entry, m2)"
    and moved: "\<forall>j<phnum CODE_BUFFER m. seg_len m (phdr_at CODE_BUFFER m j) = 0 \<or> 
       mem_read m2 (seg_dst m (phdr_at CODE_BUFFER m j)) (seg_len m (phdr_at CODE_BUFFER m j))
         = mem_read m (seg_src CODE_BUFFER m (phdr_at CODE_BUFFER m j)) (seg_len m (phdr_at CODE_BUFFER m j))"
    using load_elf_image_result[OF lay(1)]
    by (auto simp: lay(2) entry_def Let_def phdr_at_def seg_src_def seg_dst_def seg_len_def)
  define m' where "m' = write32 (write32 m2 0x0c003004 0) 0x0c003000 0xffffffff"
  have run: "stubmain dkppc decode m0 = (if dkppc \<or> entry AND 0xc0000000 \<noteq> 0 then Branch entry else Plunge entry, m')"
    using stripped_magic[OF hdr img L] entry0
    by (auto simp: stubmain_def dec m2 valid_elf_image_def m'_def Let_def)
  have "mem_read m' (load_to elf i) (filesz_of elf i) = mem_read (ei_data elf) (load32 (ei_data elf) (phdr_of elf i + 4)) (filesz_of elf i)"
    if "i < e_phnum elf" "kept elf i" for i
  proof -
    have "i \<in> set (kept_list elf)" using that by (simp add: kept_list_def)
    then obtain j where j: "j < length (kept_list elf)" "kept_list elf ! j = i" by (auto simp: in_set_conv_nth)
    note f = lay(4)[OF j(1)]
    have e: "seg_at elf j + filesz_of elf i \<le> strip_len elf" using seg_end(2)[OF j(1)] j(2) by simp
    have "filesz_of elf i \<le> 4294967296" using e len by simp
    have "mem_read m' (load_to elf i) (filesz_of elf i) = mem_read m2 (load_to elf i) (filesz_of elf i)"
    proof (rule mem_read_cong)
      fix x assume x: "in_block (load_to elf i) (filesz_of elf i) x"
      have b: "unat (load_to elf i) + filesz_of elf i < 0xcc003000"
        using to_k0_bounds[of "load32 (ei_data elf) (phdr_of elf i + 12)"] e len by (simp add: load_to_def)
      then have "unat x < 0xcc003000" using x by (subst (asm) in_block_interval) simp_all
      then have "\<not> in_block 0xcc003004 4 x" "\<not> in_block 0xcc003000 4 x" by (simp_all add: in_block_interval)
      then show "m' x = m2 x" by (simp add: m'_def write32_def store32_def mem_write_outside)
    qed (use e len in simp)
    also have "\<dots> = mem_read m (CODE_BUFFER + of_nat (seg_at elf j)) (filesz_of elf i)"
      using moved[rule_format, of j] f j by (auto simp: lay(3) mem_read_def)
    also have "\<dots> = mem_read (ei_data out) (of_nat (seg_at elf j)) (filesz_of elf i)"
      using image_loads(3)[OF img _ e] len by simp
    also have "\<dots> = mem_read (ei_data elf) (load32 (ei_data elf) (phdr_of elf i + 4)) (filesz_of elf i)"
      using segs j by (auto simp: seg_written_def Let_def)
    finally show ?thesis .
  qed
  then show ?thesis using run by (auto simp: entry_def load_to_def Let_def)
qed


text \<open>A program of one segment: four bytes at file offset 0x54 for address 0x4000.\<close>

definition sample_data :: mem where
  "sample_data = (\<lambda>_. 0)(0 := 0x7f, 1 := 0x45, 2 := 0x4c, 3 := 0x46, 4 := 1, 5 := 2, 6 := 1, 17 := 2, 19 := 20, 23 := 1,
     24 := 0x80, 26 := 0x40, 31 := 0x34, 43 := 0x20, 45 := 1,
     55 := 1, 59 := 0x54, 66 := 0x40, 71 := 4, 75 := 4, 84 := 0x11, 85 := 0x22, 86 := 0x33, 87 := 0x44)"

definition sample_elf :: elf_image where
  "sample_elf = \<lparr>ei_data = sample_data, ei_len = 88, ei_phdrs = 52, ei_shdrs = None\<rparr>"

lemma sample_fields:
  "load32 sample_data 52 = 1" "load32 sample_data 56 = 84" "load32 sample_data 64 = 0x4000" "load32 sample_data 68 = 4"
  "load32 sample_data 72 = 4" "load32 sample_data 24 = 0x80004000" "load32 sample_data 20 = 1" "load32 sample_data 28 = 52"
  "load16 sample_data 16 = 2" "load16 sample_data 18 = 20" "load16 sample_data 44 = 1" "load16 sample_data 42 = 32"
  by (simp_all add: load32_def load16_def sample_data_def be32_of_def be16_of_def push_bit_eq_mult)

lemma sample_facts:
  "check_elf sample_elf = Inr ()" "kept_list sample_elf = [0]" "filesz_of sample_elf 0 = 4" "strip_len sample_elf = 128"
  "load_to sample_elf 0 = 0x80004000" "e_phnum sample_elf = 1" "kept sample_elf 0"
proof -
  show "check_elf sample_elf = Inr ()"
    by (simp add: check_elf_def sample_elf_def Let_def sample_fields) (simp add: is_elf_magic_def sample_data_def)
  show n: "e_phnum sample_elf = 1" by (simp add: e_phnum_def sample_elf_def sample_fields)
  show k: "kept sample_elf 0" by (simp add: kept_def sample_elf_def phdr_of_def sample_fields Let_def)
  show l: "kept_list sample_elf = [0]" using n k by (simp add: kept_list_def)
  show f: "filesz_of sample_elf 0 = 4" by (simp add: filesz_of_def sample_elf_def phdr_of_def sample_fields)
  show "strip_len sample_elf = 128" using l f by (simp add: strip_len_def seg_at_def padded_def)
  show "load_to sample_elf 0 = 0x80004000" by (simp add: load_to_def sample_elf_def phdr_of_def sample_fields to_k0_def)
qed

theorem packed_program_starts_witness:
  "\<exists>decode m'. stubmain False decode (\<lambda>_. 0) = (Branch 0x80004000, m') \<and> mem_read m' 0x80004000 4 = [0x11, 0x22, 0x33, 0x44]"
proof -
  have len: "strip_len sample_elf \<le> 20 * 1024 * 1024" by (simp add: sample_facts)
  obtain out where s: "strip_elf sample_elf None = Inr (out, None)" using strip_elf_result[OF len] by blast
  define m where "m = (\<lambda>a. ei_data out (a - CODE_BUFFER))"
  have img: "mem_read m CODE_BUFFER (strip_len sample_elf) = mem_read (ei_data out) 0 (strip_len sample_elf)"
    by (simp add: m_def mem_read_def)
  have fit: "segs_loadable sample_elf CODE_BUFFER"
    using sample_fields by (simp add: segs_loadable_def sample_facts CODE_BUFFER_def apart_intervals)
      (simp add: sample_elf_def phdr_of_def sample_fields)
  have ne: "kept_list sample_elf \<noteq> []" by (simp add: sample_facts)
  obtain m' where m': "stubmain False (\<lambda>_. (0, m)) (\<lambda>_. 0) =
      (let entry = load32 (ei_data sample_elf) 24 in if False \<or> entry AND 0xc0000000 \<noteq> 0 then Branch entry else Plunge entry, m')"
    "\<forall>i<e_phnum sample_elf. kept sample_elf i \<longrightarrow>
       mem_read m' (to_k0 (load32 (ei_data sample_elf) (phdr_of sample_elf i + 12))) (filesz_of sample_elf i)
         = mem_read (ei_data sample_elf) (load32 (ei_data sample_elf) (phdr_of sample_elf i + 4)) (filesz_of sample_elf i)"
    using packed_program_starts[OF sample_facts(1) s len ne fit, of "\<lambda>_. (0, m)" "\<lambda>_. 0" m False] img by blast
  have "mem_read m' (load_to sample_elf 0) 4 = mem_read sample_data 84 4"
    using m'(2)[rule_format, of 0] sample_facts
    by (simp add: load_to_def) (simp add: sample_elf_def phdr_of_def sample_fields)
  moreover have "mem_read sample_data 84 4 = [0x11, 0x22, 0x33, 0x44]"
    by (simp add: mem_read_def upt_rec sample_data_def)
  moreover have "load32 (ei_data sample_elf) 24 = 0x80004000" by (simp add: sample_elf_def sample_fields)
  ultimately show ?thesis using m'(1) sample_facts(5) by (intro exI[of _ "\<lambda>_. (0, m)"] exI[of _ m']) (simp add: Let_def)
qed


section \<open>The injected payload\<close>

text \<open>
  The last program header of the image lies inside it, before the end of the segment it describes, and
  nothing that is added up leaves 32 bits.
\<close>

definition injectable :: "elf_image \<Rightarrow> nat \<Rightarrow> bool" where
  "injectable dst n \<longleftrightarrow>
     (let d = ei_data dst; ph = phdr_of dst (unat (load16 d 44 - 1));
          e = unat (load32 d (ph + 4)) + unat (load32 d (ph + 16))
      in ei_phdrs dst = load32 d 28 \<and> 52 \<le> e \<and> unat ph + 32 \<le> e \<and> e \<le> unat (ei_len dst) \<and>
         unat (load32 d (ph + 8)) + unat (load32 d (ph + 16)) \<le> 4294967264 \<and> n \<le> 0x40000000 \<and>
         unat (load32 d (ph + 16)) \<le> 0x40000000 \<and> unat (ei_len dst) \<le> 0x40000000)"

lemma of_nat_unat [simp]: "of_nat (unat (w :: u32)) = w"
  by simp

lemma payload_injected_lemma:
  assumes inj: "inject_elf dst src behind = Inr (out, dataaddr, off)" and ok: "injectable dst (length src)"
  shows "\<exists>k. let ph = phdr_of out (unat (load16 (ei_data dst) 44 - 1)); d = ei_data out
    in off = load32 d (ph + 4) + k \<and> dataaddr = (load32 d (ph + 12) + k) OR 0x80000000 \<and>
       unat k + length src \<le> unat (load32 d (ph + 16)) \<and> load32 d (ph + 16) = load32 d (ph + 20) \<and>
       mem_read d off (length src) = src"
proof -
  define d ph where "d = ei_data dst" and "ph = phdr_of dst (unat (load16 d 44 - 1))"
  define fs po where "fs = load32 d (ph + 16)" and "po = load32 d (ph + 4)"
  define E where "E = unat po + unat fs"
  define pos pos_d where "pos = load32 d (ph + 8) + fs" and "pos_d = round_up pos 32 - pos"
  define size_d len where "size_d = pos_d + round_up (of_nat (length src)) 32" and "len = ei_len dst + size_d"
  define m where "m = mem_write (mem_write behind 0 (replicate (unat len) 0)) 0 (mem_read d 0 (unat (ei_len dst)))"
  define m1 where "m1 = mem_write m (po + fs + pos_d) src"
  have B: "ei_phdrs dst = load32 d 28" "52 \<le> E" "unat ph + 32 \<le> E" "E \<le> unat (ei_len dst)"
    "unat (load32 d (ph + 8)) + unat fs \<le> 4294967264" "length src \<le> 0x40000000" "unat fs \<le> 0x40000000"
    "unat (ei_len dst) \<le> 0x40000000"
    using ok unfolding injectable_def Let_def d_def[symmetric] ph_def[symmetric] fs_def[symmetric] po_def[symmetric] E_def[symmetric]
    by simp_all
  have upos: "unat pos = unat (load32 d (ph + 8)) + unat fs" using B(5) by (simp add: pos_def unat_word_ariths)
  have pd: "unat pos_d < 32"
    using round_up_32_bounds[of pos] B(5) upos by (simp add: pos_d_def unat_sub word_le_nat_alt)
  have rs: "length src \<le> unat (round_up (of_nat (length src)) 32)" "unat (round_up (of_nat (length src)) 32) < length src + 32"
    using round_up_32_bounds[of "of_nat (length src)"] B(6) by simp_all
  have usd: "unat size_d = unat pos_d + unat (round_up (of_nat (length src)) 32)"
    using pd rs B(6) by (simp add: size_d_def unat_word_ariths)
  have copy: "m (of_nat k) = d (of_nat k)" if "k < unat (ei_len dst)" for k
    using that B(8) by (simp add: m_def mem_write_def nth_mem_read)
  have m_load: "load32 m (of_nat k) = load32 d (of_nat k)" "load16 m (of_nat k) = load16 d (of_nat k)"
    if "k + 4 \<le> unat (ei_len dst)" for k
    using copy[of k] copy[of "k + 1"] copy[of "k + 2"] copy[of "k + 3"] that
    by (simp_all add: load32_def load16_def) (simp_all add: ac_simps)
  have init: "\<exists>sh. init_elf (dst\<lparr>ei_data := m, ei_len := len\<rparr>) False = Inr (dst\<lparr>ei_data := m, ei_len := len, ei_phdrs := load32 d 28, ei_shdrs := sh\<rparr>)"
    if "init_elf (dst\<lparr>ei_data := m, ei_len := len\<rparr>) False = Inr x" for x
    using that m_load(1)[of 28] B(2,4) by (auto simp: init_elf_def Let_def split: if_splits)
  have ph': "phdr_of (dst\<lparr>ei_data := m', ei_len := len, ei_phdrs := load32 d 28, ei_shdrs := sh\<rparr>) i = phdr_of dst i" for i m' sh
    using B(1) by (simp add: phdr_of_def)
  have field: "load32 m (ph + of_nat f) = load32 d (ph + of_nat f)" "load32 m1 (ph + of_nat f) = load32 d (ph + of_nat f)"
    if "f + 4 \<le> 32" for f
  proof -
    have "load32 m (of_nat (unat ph + f)) = load32 d (of_nat (unat ph + f))" using that B by (intro m_load) linarith
    then show a: "load32 m (ph + of_nat f) = load32 d (ph + of_nat f)" by simp
    have u: "po + fs + pos_d = 0 + of_nat (E + unat pos_d)" "ph + of_nat f = 0 + of_nat (unat ph + f)" by (simp_all add: E_def)
    have "load32 m1 (ph + of_nat f) = load32 m (ph + of_nat f)"
      unfolding m1_def u using that B pd by (intro load32_write_other) linarith+
    then show "load32 m1 (ph + of_nat f) = load32 d (ph + of_nat f)" using a by simp
  qed
  note fl = field[of 4, simplified] field[of 8, simplified] field[of 12, simplified] field[of 16, simplified] field[of 20, simplified]
  define m4 where "m4 = store32 (store32 (store32 m1 (ph + 16) (fs + size_d)) (ph + 20) (load32 d (ph + 20) + size_d)) (ph + 8) (load32 d (ph + 12))"
  have eqsz: "load32 d (ph + 20) = fs"
    using inj unfolding inject_elf_def Let_def d_def[symmetric] ph_def[symmetric] fs_def[symmetric] by (auto split: if_splits)
  have res: "\<exists>sh. out = dst\<lparr>ei_data := m4, ei_len := len, ei_phdrs := load32 d 28, ei_shdrs := sh\<rparr>"
    "dataaddr = (round_up pos 32 - load32 d (ph + 8) + load32 d (ph + 12)) OR 0x80000000" "off = po + fs + pos_d"
  proof -
    have i: "bind_die (init_elf (dst\<lparr>ei_data := m, ei_len := len\<rparr>) False) (\<lambda>elf.
                let ph = phdr_of elf (unat (load16 d 44 - 1)); d = ei_data elf;
                    p = load32 d (ph + 4) + load32 d (ph + 16);
                    m1 = mem_write d (p + pos_d) src;
                    dataaddr = (round_up pos 32 - load32 m1 (ph + 8) + load32 m1 (ph + 12)) OR 0x80000000;
                    m2 = store32 m1 (ph + 16) (load32 m1 (ph + 16) + size_d);
                    m3 = store32 m2 (ph + 20) (load32 m2 (ph + 20) + size_d);
                    m4 = store32 m3 (ph + 8) (load32 m3 (ph + 12))
                in Inr (elf\<lparr>ei_data := m4\<rparr>, dataaddr, p + pos_d)) = Inr (out, dataaddr, off)"
      using inj eqsz unfolding inject_elf_def
      by (simp only: Let_def d_def[symmetric] ph_def[symmetric] fs_def[symmetric] pos_def[symmetric] pos_d_def[symmetric]
          size_d_def[symmetric] len_def[symmetric] m_def[symmetric]) simp
    then obtain sh where "init_elf (dst\<lparr>ei_data := m, ei_len := len\<rparr>) False
        = Inr (dst\<lparr>ei_data := m, ei_len := len, ei_phdrs := load32 d 28, ei_shdrs := sh\<rparr>)" using init by auto
    note j = i[unfolded this bind_die.simps Let_def ph' ph_def[symmetric], simplified]
    have "out = dst\<lparr>ei_data := m4, ei_len := len, ei_phdrs := load32 d 28, ei_shdrs := sh\<rparr>
      \<and> dataaddr = (round_up pos 32 - load32 d (ph + 8) + load32 d (ph + 12)) OR 0x80000000 \<and> off = po + fs + pos_d"
      using j fl by (auto simp: m1_def[symmetric] po_def[symmetric] fs_def[symmetric] m4_def mem_simps)
    then show "\<exists>sh. out = dst\<lparr>ei_data := m4, ei_len := len, ei_phdrs := load32 d 28, ei_shdrs := sh\<rparr>"
      "dataaddr = (round_up pos 32 - load32 d (ph + 8) + load32 d (ph + 12)) OR 0x80000000" "off = po + fs + pos_d" by blast+
  qed
  have f4: "load32 m4 (ph + 4) = po" "load32 m4 (ph + 12) = load32 d (ph + 12)" "load32 m4 (ph + 16) = fs + size_d"
    "load32 m4 (ph + 20) = fs + size_d"
    using fl by (simp_all add: m4_def mem_simps eqsz po_def)
  have payload: "mem_read m4 off (length src) = src"
  proof -
    have "mem_read m4 off (length src) = mem_read m1 off (length src)"
    proof (rule mem_read_cong)
      fix x assume "in_block off (length src) x"
      then obtain b :: nat where b: "b < length src" "x = off + of_nat b" using block_nth by blast
      have x: "x = ph + of_nat (E + unat pos_d + b - unat ph)"
        using B(3) by (simp add: b(2) res(3) E_def of_nat_diff)
      have "\<not> in_block (ph + of_nat f) 4 x" if "f + 4 \<le> 32" for f
        unfolding x using that B pd b(1) by (subst block_offsets) auto
      from this[of 8] this[of 16] this[of 20] show "m4 x = m1 x" by (simp add: m4_def store32_outside)
    qed (use B(6) in simp)
    then show ?thesis using mem_read_write_same[of src m off] B(6) by (simp add: m1_def res(3))
  qed
  define k where "k = fs + pos_d"
  have "unat k = unat fs + unat pos_d" using B(7) pd by (simp add: k_def unat_word_ariths)
  moreover have "unat (fs + size_d) = unat fs + unat size_d"
    using B(6,7) pd rs usd by (simp add: unat_word_ariths)
  ultimately have "unat k + length src \<le> unat (fs + size_d)" using usd rs by simp
  moreover have "round_up pos 32 - load32 d (ph + 8) + load32 d (ph + 12) = load32 d (ph + 12) + k"
    by (simp add: k_def pos_d_def pos_def)
  moreover have "phdr_of out (unat (load16 (ei_data dst) 44 - 1)) = ph" "ei_data out = m4"
    using res(1) ph' by (auto simp: ph_def d_def)
  ultimately show ?thesis
    using res(2,3) f4 payload by (intro exI[of _ k]) (simp add: Let_def k_def add.assoc add.commute add.left_commute)
qed


text \<open>
  What is injected is found where the descriptor will say: the payload lies unchanged inside the last
  segment of the new image, whose file and memory size have grown together to hold it, and its run-time
  address is that segment's physical address plus the payload's place in the segment, in cached memory.
\<close>

lemma payload_injected:
  assumes "inject_elf dst src behind = Inr (out, dataaddr, off)" and "injectable dst (length src)"
  shows "\<exists>k. let ph = phdr_of out (unat (load16 (ei_data dst) 44 - 1)); d = ei_data out
    in off = load32 d (ph + 4) + k \<and> dataaddr = (load32 d (ph + 12) + k) OR 0x80000000 \<and>
       unat k + length src \<le> unat (load32 d (ph + 16)) \<and> load32 d (ph + 16) = load32 d (ph + 20) \<and>
       mem_read d off (length src) = src"
  using assms by (rule payload_injected_lemma)

lemma sample_injectable: "injectable sample_elf 3"
  by (simp add: injectable_def sample_elf_def phdr_of_def sample_fields Let_def)
    (simp add: load32_def sample_data_def be32_of_def)

lemma sample_inject: "\<exists>out a off. inject_elf sample_elf [1, 2, 3] (\<lambda>_. 0) = Inr (out, a, off)"
proof -
  have c: "mem_write m 0 (mem_read sample_data 0 88) x = sample_data x" if "unat x < 88" for m x
    using that by (simp add: mem_write_def nth_mem_read)
  have "load16 (mem_write m 0 (mem_read sample_data 0 88)) 44 = 1" "load16 (mem_write m 0 (mem_read sample_data 0 88)) 42 = 32"
    "load32 (mem_write m 0 (mem_read sample_data 0 88)) 28 = 52" "load16 (mem_write m 0 (mem_read sample_data 0 88)) 48 = 0" for m
    using sample_fields by (simp_all add: load16_def load32_def c) (simp add: sample_data_def be16_of_def)
  then have "\<exists>e. init_elf (sample_elf\<lparr>ei_data := mem_write m 0 (mem_read sample_data 0 88), ei_len := n\<rparr>) False = Inr e"
    if "84 \<le> unat n" for m n
    using that by (simp add: init_elf_def sample_elf_def Let_def)
  from this[of 148 "mem_write (\<lambda>_. 0) 0 (replicate 148 0)"]
  obtain e where e: "init_elf (sample_elf\<lparr>ei_data := mem_write (mem_write (\<lambda>_. 0) 0 (replicate 148 0)) 0 (mem_read sample_data 0 88),
      ei_len := 148\<rparr>) False = Inr e" by auto
  have v: "load32 sample_data 60 = 0" by (simp add: load32_def sample_data_def be32_of_def)
  have r: "round_up 4 32 = 32" "round_up 3 32 = 32" by (simp_all add: round_up_def)
  show ?thesis
    using e by (simp add: inject_elf_def sample_elf_def phdr_of_def sample_fields Let_def v r)
qed

lemma payload_injected_example:
  "\<exists>out a off k. inject_elf sample_elf [1, 2, 3] (\<lambda>_. 0) = Inr (out, a, off) \<and>
     off = load32 (ei_data out) (phdr_of out 0 + 4) + k \<and> mem_read (ei_data out) off 3 = [1, 2, 3]"
proof -
  have "unat (load16 (ei_data sample_elf) 44 - 1) = 0" by (simp add: sample_elf_def sample_fields)
  moreover obtain out a off where i: "inject_elf sample_elf [1, 2, 3] (\<lambda>_. 0) = Inr (out, a, off)" using sample_inject by blast
  moreover have "length [1, 2, 3 :: u8] = 3" by simp
  ultimately show ?thesis
    using payload_injected[OF i] sample_injectable unfolding Let_def by metis
qed

end
