(* ===== verification/Lz77.thy ===== *)
theory Lz77
  imports HBC_Prelude
begin

text \<open>
  The compressor of the channel's banner, \<^verbatim>\<open>banner/tools/lz77.c\<close>. The console's system menu unpacks its
  output; the format it expects is stated here as an abstract decoder, \<open>lz10\<close>, and the compressor is proved
  to write it, with the one exception that the code has: up to three last bytes are written without
  opening a new group when the flags of the current group are used up.

  The input is a function from positions to bytes, \<open>inp i\<close> for \<^verbatim>\<open>in[i]\<close>: the match search compares up to 18
  bytes whatever is left, so it reads behind the buffer, and every lemma holds for whatever lies there.
  \<open>outpos\<close> is the length of the list of the bytes written. Positions are natural numbers: the sizes are below
  \<open>2^31\<close>, the range of the \<^verbatim>\<open>int\<close> variables, since the header has 24 bits for them.
\<close>

section \<open>The compressor\<close>

text \<open>\<^verbatim>\<open>_LZ_StringCompare\<close> of the strings at \<open>p1\<close> and \<open>p2\<close>.\<close>

function lz_string_compare :: "(nat \<Rightarrow> u8) \<Rightarrow> nat \<Rightarrow> nat \<Rightarrow> nat \<Rightarrow> nat \<Rightarrow> nat" where
  "lz_string_compare inp p1 p2 len maxlen =
     (if len < maxlen \<and> inp (p1 + len) = inp (p2 + len)
      then lz_string_compare inp p1 p2 (Suc len) maxlen else len)"
  by pat_completeness auto

termination by (relation "measure (\<lambda>(_, _, _, len, maxlen). maxlen - len)") auto

declare lz_string_compare.simps [simp del]

text \<open>One candidate offset; the pair is the length and the offset of the best match so far.\<close>

definition lz_candidate :: "(nat \<Rightarrow> u8) \<Rightarrow> nat \<Rightarrow> nat \<Rightarrow> nat \<times> nat \<Rightarrow> nat \<times> nat" where
  "lz_candidate inp inpos offset best =
     (case best of (bestlength, bestoffset) \<Rightarrow>
        let ptr2 = inpos - offset
        in if inp inpos = inp ptr2 \<and> inp (inpos + bestlength) = inp (ptr2 + bestlength)
           then
             let maxlength = (if inpos + 1 > 18 then 18 else inpos + 1);
                 len = lz_string_compare inp inpos ptr2 0 maxlength
             in if len > bestlength then (len, offset) else best
           else best)"

definition LZ_MAX_OFFSET :: nat where
  "LZ_MAX_OFFSET = 4096"

definition lz_search :: "(nat \<Rightarrow> u8) \<Rightarrow> nat \<Rightarrow> nat \<times> nat" where
  "lz_search inp inpos =
     (let maxoffset = (if inpos > LZ_MAX_OFFSET then LZ_MAX_OFFSET else inpos)
      in fold (lz_candidate inp inpos) [3..<Suc maxoffset] (2, 0))"

record lz_state =
  lz_inpos :: nat
  lz_left :: int
  lz_out :: "u8 list"
  lz_flags :: nat
  lz_mask :: u8

text \<open>A new group of eight when the mask has run out.\<close>

definition lz_next_group :: "lz_state \<Rightarrow> lz_state" where
  "lz_next_group s =
     (if lz_mask s = 0
      then s\<lparr>lz_mask := 128, lz_flags := length (lz_out s), lz_out := lz_out s @ [0]\<rparr> else s)"

definition lz_bundle :: "nat \<Rightarrow> nat \<Rightarrow> u8 list" where
  "lz_bundle len offset =
     [ucast (push_bit 4 (of_nat (len - 3)) OR drop_bit 8 (of_nat (offset - 1) AND 0xF00) :: u32),
      ucast (of_nat (offset - 1) AND 0xFF :: u32)]"

definition lz_step :: "(nat \<Rightarrow> u8) \<Rightarrow> lz_state \<Rightarrow> lz_state" where
  "lz_step inp s =
     (case lz_search inp (lz_inpos s) of (bestlength, bestoffset) \<Rightarrow>
        if bestlength > 2 then
          lz_next_group
            (s\<lparr>lz_mask := drop_bit 1 (lz_mask s),
               lz_out := (lz_out s)[lz_flags s := lz_out s ! lz_flags s OR lz_mask s] @ lz_bundle bestlength bestoffset,
               lz_inpos := lz_inpos s + bestlength, lz_left := lz_left s - int bestlength\<rparr>)
        else
          lz_next_group
            (s\<lparr>lz_mask := drop_bit 1 (lz_mask s), lz_out := lz_out s @ [inp (lz_inpos s)],
               lz_inpos := lz_inpos s + 1, lz_left := lz_left s - 1\<rparr>))"

lemma lz_left_next_group [simp]: "lz_left (lz_next_group s) = lz_left s"
  by (simp add: lz_next_group_def)

lemma lz_inpos_next_group [simp]: "lz_inpos (lz_next_group s) = lz_inpos s"
  by (simp add: lz_next_group_def)

lemma lz_step_left: "lz_left (lz_step inp s) < lz_left s"
  by (auto simp: lz_step_def split: prod.split)

function lz_loop :: "(nat \<Rightarrow> u8) \<Rightarrow> lz_state \<Rightarrow> lz_state" where
  "lz_loop inp s = (let s' = lz_step inp s in if lz_left s' > 3 then lz_loop inp s' else s')"
  by pat_completeness auto

termination
proof (relation "measure (\<lambda>(_, s). nat (lz_left s))")
  show "wf (measure (\<lambda>(_ :: nat \<Rightarrow> u8, s). nat (lz_left s)))" by simp
  fix inp s s' assume "s' = lz_step inp s" and "3 < lz_left s'"
  then show "((inp, s'), inp, s) \<in> measure (\<lambda>(_, s). nat (lz_left s))"
    using lz_step_left[of inp s] by simp
qed

declare lz_loop.simps [simp del]

function lz_align :: "u8 list \<Rightarrow> u8 list" where
  "lz_align out = (if length out mod 4 \<noteq> 0 then lz_align (out @ [0]) else out)"
  by pat_completeness auto

termination
  by (relation "measure (\<lambda>out. (4 - length out mod 4) mod 4)") (auto simp: mod_Suc)

declare lz_align.simps [simp del]

definition lz_header :: "nat \<Rightarrow> u8 list" where
  "lz_header insize =
     (let n = of_nat insize :: u32
      in [0x10, ucast (n AND 0xFF), ucast (drop_bit 8 n AND 0xFF), ucast (drop_bit 16 n AND 0xFF)])"

lemma length_lz_header [simp]: "length (lz_header n) = 4"
  by (simp add: lz_header_def Let_def)

definition lz_start :: "nat \<Rightarrow> lz_state" where
  "lz_start insize =
     \<lparr>lz_inpos = 0, lz_left = int insize,
      lz_out = lz_header insize @ [0],
      lz_flags = 4, lz_mask = 128\<rparr>"

definition LZ_Compress :: "(nat \<Rightarrow> u8) \<Rightarrow> nat \<Rightarrow> u8 list" where
  "LZ_Compress inp insize =
     (if insize < 1 then []
      else
        let s = lz_loop inp (lz_start insize)
        in lz_align (lz_out s @ map inp [lz_inpos s..<insize]))"

text \<open>
  The tool: what it writes to which file. \<open>contents\<close> gives the input file, which is taken to be readable
  (the code does not look at the result of \<^verbatim>\<open>open\<close>), \<open>behind\<close> what lies behind its buffer.
\<close>

definition lz77_main :: "(string \<Rightarrow> u8 list) \<Rightarrow> (nat \<Rightarrow> u8) \<Rightarrow> string list \<Rightarrow> (string \<times> u8 list) option" where
  "lz77_main contents behind args =
     (case args of
        [infile, outfile] \<Rightarrow>
          let bs = contents infile;
              inp = (\<lambda>i. if i < length bs then bs ! i else behind (i - length bs))
          in Some (outfile, [0x4C, 0x5A, 0x37, 0x37] @ LZ_Compress inp (length bs))
      | _ \<Rightarrow> None)"

section \<open>The format\<close>

text \<open>
  The abstract decoder. After the tag \<open>0x10\<close> and the size in three bytes, groups of a flags byte and eight
  tokens, the highest flag first: a literal byte, or two bytes with a length and a distance. Copies may
  overlap what they write. Decoding ends with the announced size; what a last copy wrote too much is cut.
\<close>

fun lz_copy :: "nat \<Rightarrow> nat \<Rightarrow> u8 list \<Rightarrow> u8 list" where
  "lz_copy 0 offset out = out"
| "lz_copy (Suc n) offset out = lz_copy n offset (out @ [out ! (length out - offset)])"

function lz10 :: "nat \<Rightarrow> nat \<Rightarrow> u8 \<Rightarrow> u8 list \<Rightarrow> u8 list \<Rightarrow> u8 list option" where
  "lz10 n k flags out ins =
     (if n \<le> length out then Some (take n out)
      else if k = 0 then (case ins of [] \<Rightarrow> None | f # ins' \<Rightarrow> lz10 n 8 f out ins')
      else if \<not> bit flags (k - 1) then
        (case ins of [] \<Rightarrow> None | b # ins' \<Rightarrow> lz10 n (k - 1) flags (out @ [b]) ins')
      else
        (case ins of
           a # b # ins' \<Rightarrow>
             let offset = 256 * (unat a mod 16) + unat b + 1
             in if offset > length out then None
                else lz10 n (k - 1) flags (lz_copy (unat a div 16 + 3) offset out) ins'
         | _ \<Rightarrow> None))"
  by pat_completeness auto

termination by (relation "measure (\<lambda>(_, _, _, _, ins). length ins)") auto

declare lz10.simps [simp del]

definition lz_decode :: "u8 list \<Rightarrow> u8 list option" where
  "lz_decode bs =
     (case bs of
        t # a # b # c # ins \<Rightarrow>
          if t = 0x10 then lz10 (unat (be32_of 0 c b a)) 0 0 [] ins else None
      | _ \<Rightarrow> None)"

lemma lz10_done: "n \<le> length out \<Longrightarrow> lz10 n k flags out ins = Some (take n out)"
  by (simp add: lz10.simps)

section \<open>The match search\<close>

lemma lz_string_compare_bounds:
  "len \<le> lz_string_compare inp p1 p2 len maxlen
   \<and> (len \<le> maxlen \<longrightarrow> lz_string_compare inp p1 p2 len maxlen \<le> maxlen)
   \<and> (\<forall>j. len \<le> j \<and> j < lz_string_compare inp p1 p2 len maxlen \<longrightarrow> inp (p1 + j) = inp (p2 + j))"
proof (induction inp p1 p2 len maxlen rule: lz_string_compare.induct)
  case (1 inp p1 p2 len maxlen)
  show ?case
  proof (cases "len < maxlen \<and> inp (p1 + len) = inp (p2 + len)")
    case True
    let ?r = "lz_string_compare inp p1 p2 (Suc len) maxlen"
    have IH: "Suc len \<le> ?r" "?r \<le> maxlen" "\<And>j. Suc len \<le> j \<Longrightarrow> j < ?r \<Longrightarrow> inp (p1 + j) = inp (p2 + j)"
      using 1 [OF True] True by auto
    have "inp (p1 + j) = inp (p2 + j)" if "len \<le> j" "j < ?r" for j
      using that IH(3) True by (cases "j = len") auto
    with IH True show ?thesis
      by (simp add: lz_string_compare.simps [of inp p1 p2 len])
  next
    case False
    then have "lz_string_compare inp p1 p2 len maxlen = len"
      by (subst lz_string_compare.simps) (rule if_not_P)
    then show ?thesis by auto
  qed
qed

text \<open>A match of \<open>len\<close> bytes at a distance; the source and the bytes to be copied may overlap.\<close>

definition lz_matches :: "(nat \<Rightarrow> u8) \<Rightarrow> nat \<Rightarrow> nat \<Rightarrow> nat \<Rightarrow> bool" where
  "lz_matches inp p len offset \<longleftrightarrow>
     3 \<le> len \<and> len \<le> 18 \<and> 0 < offset \<and> offset \<le> p \<and> offset \<le> 4096
     \<and> (\<forall>j < len. inp (p + j) = inp (p - offset + j))"

lemma lz_candidate_matches:
  assumes "fst best = 2 \<or> lz_matches inp p (fst best) (snd best)"
    and "3 \<le> offset" "offset \<le> p" "offset \<le> 4096"
  shows "fst (lz_candidate inp p offset best) = 2
    \<or> lz_matches inp p (fst (lz_candidate inp p offset best)) (snd (lz_candidate inp p offset best))"
proof -
  obtain bl bo where b: "best = (bl, bo)" by (cases best)
  let ?max = "if p + 1 > 18 then 18 else p + 1"
  let ?len = "lz_string_compare inp p (p - offset) 0 ?max"
  have "2 \<le> bl" using assms(1) by (auto simp: b lz_matches_def)
  moreover have "?len \<le> 18" and "\<forall>j < ?len. inp (p + j) = inp (p - offset + j)"
    using lz_string_compare_bounds[of 0 inp p "p - offset" ?max] by auto
  ultimately have "bl < ?len \<Longrightarrow> lz_matches inp p ?len offset"
    using assms(2-4) by (auto simp: lz_matches_def)
  with assms(1) show ?thesis by (simp add: lz_candidate_def b Let_def)
qed

lemma lz_search_matches:
  assumes "lz_search inp p = (len, offset)" and "len > 2"
  shows "lz_matches inp p len offset"
proof -
  let ?ok = "\<lambda>best. fst best = 2 \<or> lz_matches inp p (fst best) (snd best)"
  have folded: "?ok (fold (lz_candidate inp p) os best)"
    if "?ok best" and "\<forall>x \<in> set os. 3 \<le> x \<and> x \<le> p \<and> x \<le> 4096" for os best
    using that
  proof (induction os arbitrary: best)
    case (Cons x os)
    from Cons.prems have "?ok (lz_candidate inp p x best)"
      by (intro lz_candidate_matches) auto
    moreover from Cons.prems(2) have "\<forall>x \<in> set os. 3 \<le> x \<and> x \<le> p \<and> x \<le> 4096" by simp
    ultimately have "?ok (fold (lz_candidate inp p) os (lz_candidate inp p x best))" by (rule Cons.IH)
    then show ?case by simp
  qed simp
  have "?ok (lz_search inp p)"
    unfolding lz_search_def Let_def by (rule folded) (auto simp: LZ_MAX_OFFSET_def split: if_splits)
  with assms show ?thesis by simp
qed

lemma lz_copy_matches:
  assumes "\<forall>j < len. inp (p + j) = inp (p - offset + j)" and "0 < offset" "offset \<le> p"
  shows "lz_copy len offset (map inp [0..<p]) = map inp [0..<p + len]"
  using assms
proof (induction len arbitrary: p)
  case (Suc len)
  have "map inp [0..<p] ! (p - offset) = inp (p - offset)" using Suc.prems by simp
  moreover have "inp p = inp (p - offset)" using Suc.prems(1) by (metis add_0_right zero_less_Suc)
  ultimately have "lz_copy (Suc len) offset (map inp [0..<p]) = lz_copy len offset (map inp [0..<Suc p])"
    by simp
  also have "\<dots> = map inp [0..<Suc p + len]"
  proof (rule Suc.IH)
    show "\<forall>j < len. inp (Suc p + j) = inp (Suc p - offset + j)"
    proof (intro allI impI)
      fix j assume "j < len"
      then have "inp (p + Suc j) = inp (p - offset + Suc j)" using Suc.prems(1) by blast
      with Suc.prems(3) show "inp (Suc p + j) = inp (Suc p - offset + j)" by (simp add: Suc_diff_le)
    qed
  qed (use Suc.prems in auto)
  finally show ?case by simp
qed simp

section \<open>One token\<close>

lemma drop_and_F00: "drop_bit 8 (x AND 0xF00 :: u32) = take_bit 4 (drop_bit 8 x)"
proof -
  have "(0xF00 :: u32) = push_bit 8 (mask 4)" by (simp add: mask_eq_exp_minus_1)
  then have "drop_bit 8 (x AND 0xF00) = drop_bit 8 (x AND push_bit 8 (mask 4))" by (rule arg_cong)
  also have "\<dots> = take_bit 4 (drop_bit 8 x)"
    unfolding push_bit_mask_eq by (rule bit_word_eqI) (auto simp: bit_simps)
  finally show ?thesis .
qed

lemma lz_bundle_decoded:
  assumes "lz_matches inp p len offset"
  obtains a b where "lz_bundle len offset = [a, b]" and "unat a div 16 + 3 = len"
    and "256 * (unat a mod 16) + unat b + 1 = offset"
proof
  let ?d = "of_nat (offset - 1) :: u32" and ?l = "of_nat (len - 3) :: u32"
  let ?a = "ucast (push_bit 4 ?l OR drop_bit 8 (?d AND 0xF00)) :: u8" and ?b = "ucast (?d AND 0xFF) :: u8"
  from assms have d: "offset - 1 < 4096" and l: "len - 3 < 16" by (auto simp: lz_matches_def)
  have "push_bit 4 ?l OR take_bit 4 (drop_bit 8 ?d) = push_bit 4 ?l + take_bit 4 (drop_bit 8 ?d)"
    by (intro disjunctive_add [symmetric]) (auto simp: bit_simps)
  then have "?a = ucast (push_bit 4 ?l + take_bit 4 (drop_bit 8 ?d))"
    unfolding drop_and_F00 by (rule arg_cong)
  then have "unat ?a = unat (push_bit 4 ?l + take_bit 4 (drop_bit 8 ?d)) mod 256"
    by (simp only: unsigned_ucast_eq take_bit_eq_mod) simp
  moreover have "unat (take_bit 4 (drop_bit 8 ?d)) = (offset - 1) div 256"
    using d by (simp add: unat_take_bit unat_drop_bit)
  moreover have "unat (push_bit 4 ?l) = (len - 3) * 16"
    using l by (simp add: unat_push_bit)
  moreover have "(offset - 1) div 256 < 16" using d by (simp add: less_mult_imp_div_less)
  ultimately have a: "unat ?a = (len - 3) * 16 + (offset - 1) div 256"
    using l by (simp add: unat_word_ariths)
  have "(0xFF :: u32) = mask 8" by (simp add: mask_eq_exp_minus_1)
  then have "unat (?d AND 0xFF) = unat (?d AND mask 8)" by (rule arg_cong)
  also have "\<dots> = (offset - 1) mod 256" by (subst unat_and_mask) (use d in simp_all)
  finally have b: "unat ?b = (offset - 1) mod 256"
    by (simp only: unsigned_ucast_eq take_bit_eq_mod) simp
  show "lz_bundle len offset = [?a, ?b]" by (simp add: lz_bundle_def)
  show "unat ?a div 16 + 3 = len"
    using a \<open>(offset - 1) div 256 < 16\<close> assms by (simp add: lz_matches_def)
  have "unat ?a mod 16 = (offset - 1) div 256" using a \<open>(offset - 1) div 256 < 16\<close> by simp
  then show "256 * (unat ?a mod 16) + unat ?b + 1 = offset"
    using b assms by (simp add: lz_matches_def)
qed

section \<open>What has been written decodes to what has been read\<close>

text \<open>
  \<open>k\<close> flags of the group at \<open>fl\<close> are unused and still zero. Whatever they become and whatever follows, decoding
  comes, after the bytes written, to where the input read is the output of the decoder.
\<close>

definition lz_inv :: "nat \<Rightarrow> (nat \<Rightarrow> u8) \<Rightarrow> u8 list \<Rightarrow> nat \<Rightarrow> nat \<Rightarrow> nat \<Rightarrow> bool" where
  "lz_inv n inp out fl k p \<longleftrightarrow>
     4 \<le> fl \<and> fl < length out \<and> k \<le> 8 \<and> (\<forall>j < k. \<not> bit (out ! fl) j)
     \<and> (\<forall>f ins. (\<forall>j. k \<le> j \<and> j < 8 \<longrightarrow> bit f j = bit (out ! fl) j)
           \<longrightarrow> lz10 n 0 0 [] (drop 4 (out[fl := f]) @ ins) = lz10 n k f (map inp [0..<p]) ins)"

lemma lz_invD:
  "lz_inv n inp out fl k p \<Longrightarrow> (\<And>j. k \<le> j \<Longrightarrow> j < 8 \<Longrightarrow> bit f j = bit (out ! fl) j)
    \<Longrightarrow> lz10 n 0 0 [] (drop 4 (out[fl := f]) @ ins) = lz10 n k f (map inp [0..<p]) ins"
  by (simp add: lz_inv_def)

lemma lz_inv_now:
  "lz_inv n inp out fl k p \<Longrightarrow> lz10 n 0 0 [] (drop 4 out @ ins) = lz10 n k (out ! fl) (map inp [0..<p]) ins"
  using lz_invD[of n inp out fl k p "out ! fl"] by simp

lemma lz_inv_literal:
  assumes inv: "lz_inv n inp out fl (Suc k) p" and "p < n"
  shows "lz_inv n inp (out @ [inp p]) fl k (Suc p)"
proof -
  have fl: "4 \<le> fl" "fl < length out" "k < 8" and zero: "\<And>j. j < Suc k \<Longrightarrow> \<not> bit (out ! fl) j"
    using inv by (auto simp: lz_inv_def)
  have "lz10 n 0 0 [] (drop 4 ((out @ [inp p])[fl := f]) @ ins) = lz10 n k f (map inp [0..<Suc p]) ins"
    if f: "\<And>j. k \<le> j \<Longrightarrow> j < 8 \<Longrightarrow> bit f j = bit (out ! fl) j" for f ins
  proof -
    have "drop 4 ((out @ [inp p])[fl := f]) @ ins = drop 4 (out[fl := f]) @ inp p # ins"
      using fl by (simp add: list_update_append)
    then have "lz10 n 0 0 [] (drop 4 ((out @ [inp p])[fl := f]) @ ins)
        = lz10 n (Suc k) f (map inp [0..<p]) (inp p # ins)"
      using lz_invD[OF inv, of f "inp p # ins"] f by simp
    also have "\<not> bit f k" using f[of k] zero[of k] fl by simp
    then have "lz10 n (Suc k) f (map inp [0..<p]) (inp p # ins) = lz10 n k f (map inp [0..<Suc p]) ins"
      using \<open>p < n\<close> by (subst lz10.simps) simp
    finally show ?thesis .
  qed
  with fl zero show ?thesis by (simp add: lz_inv_def nth_append)
qed

lemma lz_inv_match:
  assumes inv: "lz_inv n inp out fl (Suc k) p" and "p < n" and m: "lz_matches inp p len offset"
  shows "lz_inv n inp (out[fl := out ! fl OR push_bit k 1] @ lz_bundle len offset) fl k (p + len)"
proof -
  have fl: "4 \<le> fl" "fl < length out" "k < 8" and zero: "\<And>j. j < Suc k \<Longrightarrow> \<not> bit (out ! fl) j"
    using inv by (auto simp: lz_inv_def)
  obtain a b where ab: "lz_bundle len offset = [a, b]" "unat a div 16 + 3 = len"
      "256 * (unat a mod 16) + unat b + 1 = offset"
    using m by (rule lz_bundle_decoded)
  have "lz10 n 0 0 [] (drop 4 ((out[fl := out ! fl OR push_bit k 1] @ [a, b])[fl := f]) @ ins)
      = lz10 n k f (map inp [0..<p + len]) ins"
    if f: "\<And>j. k \<le> j \<Longrightarrow> j < 8 \<Longrightarrow> bit f j = bit (out ! fl OR push_bit k 1) j" for f ins
  proof -
    have "drop 4 ((out[fl := out ! fl OR push_bit k 1] @ [a, b])[fl := f]) @ ins = drop 4 (out[fl := f]) @ a # b # ins"
      using fl by (simp add: list_update_append)
    moreover have "bit f j = bit (out ! fl) j" if "Suc k \<le> j" "j < 8" for j
      using f[of j] that by (simp add: bit_simps)
    ultimately have "lz10 n 0 0 [] (drop 4 ((out[fl := out ! fl OR push_bit k 1] @ [a, b])[fl := f]) @ ins)
        = lz10 n (Suc k) f (map inp [0..<p]) (a # b # ins)"
      using lz_invD[OF inv, of f "a # b # ins"] by simp
    also have "bit f k" using f[of k] fl by (simp add: bit_simps)
    then have "lz10 n (Suc k) f (map inp [0..<p]) (a # b # ins)
        = lz10 n k f (lz_copy len offset (map inp [0..<p])) ins"
      using \<open>p < n\<close> m ab(2,3) by (subst lz10.simps) (simp add: lz_matches_def)
    also have "lz_copy len offset (map inp [0..<p]) = map inp [0..<p + len]"
      using m by (intro lz_copy_matches) (simp_all add: lz_matches_def)
    finally show ?thesis .
  qed
  moreover have "\<not> bit (out ! fl OR push_bit k 1) j" if "j < k" for j
    using zero[of j] that by (simp add: bit_simps)
  ultimately show ?thesis using fl by (simp add: lz_inv_def ab nth_append)
qed

lemma lz_inv_group:
  assumes inv: "lz_inv n inp out fl 0 p"
  shows "lz_inv n inp (out @ [0]) (length out) 8 p"
proof -
  have "lz10 n 0 0 [] (drop 4 (out @ [f]) @ ins) = lz10 n 8 f (map inp [0..<p]) ins" for f ins
  proof -
    have "lz10 n 0 0 [] (drop 4 (out @ [f]) @ ins) = lz10 n 0 (out ! fl) (map inp [0..<p]) (f # ins)"
      using lz_inv_now[OF inv, of "f # ins"] inv by (simp add: lz_inv_def)
    also have "\<dots> = lz10 n 8 f (map inp [0..<p]) ins"
      by (cases "n \<le> p") (simp_all add: lz10_done lz10.simps [of n 0])
    finally show ?thesis .
  qed
  with inv show ?thesis by (simp add: lz_inv_def)
qed

section \<open>The main loop\<close>

definition lz_ok :: "nat \<Rightarrow> (nat \<Rightarrow> u8) \<Rightarrow> nat \<Rightarrow> lz_state \<Rightarrow> bool" where
  "lz_ok n inp insize s \<longleftrightarrow>
     take 4 (lz_out s) = lz_header insize
     \<and> lz_left s = int insize - int (lz_inpos s)
     \<and> (\<exists>k < 8. lz_mask s = push_bit k 1 \<and> lz_inv n inp (lz_out s) (lz_flags s) (Suc k) (lz_inpos s))"

lemma lz_next_group_ok:
  assumes "take 4 (lz_out s) = lz_header insize"
    and "lz_left s = int insize - int (lz_inpos s)"
    and "lz_mask s = drop_bit 1 (push_bit k 1)" and "k < 8"
    and inv: "lz_inv n inp (lz_out s) (lz_flags s) k (lz_inpos s)"
  shows "lz_ok n inp insize (lz_next_group s)"
proof (cases k)
  case 0
  then have "lz_mask s = 0" using assms(3) by simp
  moreover have "lz_inv n inp (lz_out s @ [0]) (length (lz_out s)) 8 (lz_inpos s)"
    using inv 0 by (intro lz_inv_group) simp
  moreover have "4 \<le> length (lz_out s)" using inv by (simp add: lz_inv_def)
  moreover have "(128 :: u8) = push_bit 7 1" by (simp add: push_bit_eq_mult)
  ultimately show ?thesis
    using assms(1,2) unfolding lz_ok_def lz_next_group_def by (auto intro!: exI [of _ 7])
next
  case (Suc j)
  have "drop_bit 1 (push_bit (Suc j) 1 :: u8) = push_bit j 1"
    using assms(4) Suc by (intro bit_word_eqI) (auto simp: bit_simps)
  then have mask: "lz_mask s = push_bit j 1" using assms(3) Suc by simp
  have "bit (push_bit j 1 :: u8) j" using assms(4) Suc by (simp add: bit_simps)
  then have "(push_bit j 1 :: u8) \<noteq> 0" by (metis bit_0_eq bot_apply bot_bool_def)
  then show ?thesis
    using assms mask Suc by (auto simp: lz_ok_def lz_next_group_def intro!: exI [of _ j])
qed

lemma lz_step_ok:
  assumes ok: "lz_ok n inp insize s" and "lz_inpos s < n"
  shows "lz_ok n inp insize (lz_step inp s)"
proof -
  obtain k where k: "k < 8" "lz_mask s = push_bit k 1"
      and inv: "lz_inv n inp (lz_out s) (lz_flags s) (Suc k) (lz_inpos s)"
    using ok by (auto simp: lz_ok_def)
  have head: "take 4 (lz_out s) = lz_header insize"
      and left: "lz_left s = int insize - int (lz_inpos s)" and fl: "4 \<le> lz_flags s" "lz_flags s < length (lz_out s)"
    using ok inv by (auto simp: lz_ok_def lz_inv_def)
  obtain len offset where so: "lz_search inp (lz_inpos s) = (len, offset)" by fastforce
  show ?thesis
  proof (cases "len > 2")
    case True
    then have "lz_matches inp (lz_inpos s) len offset" using so by (rule lz_search_matches [rotated])
    then have "lz_inv n inp ((lz_out s)[lz_flags s := lz_out s ! lz_flags s OR push_bit k 1] @ lz_bundle len offset)
        (lz_flags s) k (lz_inpos s + len)"
      using inv assms(2) by (intro lz_inv_match)
    with True k head left fl so show ?thesis
      by (auto simp: lz_step_def intro!: lz_next_group_ok)
  next
    case False
    have "lz_inv n inp (lz_out s @ [inp (lz_inpos s)]) (lz_flags s) k (Suc (lz_inpos s))"
      using inv assms(2) by (rule lz_inv_literal)
    with False k head left fl so show ?thesis
      by (auto simp: lz_step_def intro!: lz_next_group_ok)
  qed
qed

lemma lz_loop_ok:
  assumes "lz_ok n inp insize s" "lz_inpos s < n" "insize - 3 \<le> n"
  shows "lz_ok n inp insize (lz_loop inp s) \<and> lz_left (lz_loop inp s) \<le> 3"
  using assms
proof (induction inp s rule: lz_loop.induct)
  case (1 inp s)
  have step: "lz_ok n inp insize (lz_step inp s)" using 1 by (intro lz_step_ok)
  show ?case
  proof (cases "lz_left (lz_step inp s) > 3")
    case True
    then have "lz_inpos (lz_step inp s) < n" using step 1 by (simp add: lz_ok_def)
    then have "lz_ok n inp insize (lz_loop inp (lz_step inp s)) \<and> lz_left (lz_loop inp (lz_step inp s)) \<le> 3"
      using 1 step True by (intro "1.IH") auto
    with True show ?thesis by (simp add: lz_loop.simps [of inp s] Let_def)
  next
    case False
    with step show ?thesis by (simp add: lz_loop.simps [of inp s] Let_def)
  qed
qed

lemma lz_start_ok: "lz_ok n inp insize (lz_start insize)"
proof -
  have "lz10 n 0 0 [] (f # ins) = lz10 n 8 f [] ins" for f ins
    by (cases "n = 0") (simp_all add: lz10_done lz10.simps [of n 0])
  moreover have "(128 :: u8) = push_bit 7 1" by (simp add: push_bit_eq_mult)
  ultimately show ?thesis
    unfolding lz_ok_def lz_start_def by (auto simp: lz_inv_def nth_append list_update_append intro!: exI [of _ 7])
qed

section \<open>The last bytes\<close>

lemma lz_inv_literals:
  "lz_inv n inp out fl k p \<Longrightarrow> i \<le> k \<Longrightarrow> p + i \<le> n \<Longrightarrow>
    lz_inv n inp (out @ map inp [p..<p + i]) fl (k - i) (p + i)"
proof (induction i)
  case (Suc i)
  then have "lz_inv n inp (out @ map inp [p..<p + i]) fl (Suc (k - Suc i)) (p + i)"
    by (simp add: Suc_diff_Suc)
  then show ?case using Suc.prems lz_inv_literal by fastforce
qed simp

lemma lz_inv_done:
  assumes "lz_inv n inp out fl k p" and "n \<le> p"
  shows "lz10 n 0 0 [] (drop 4 out @ ins) = Some (map inp [0..<n])"
  using lz_inv_now[OF assms(1), of ins] assms(2) by (simp add: lz10_done take_map)

lemma lz_align_padded: "lz_align out = out @ replicate ((4 - length out mod 4) mod 4) 0"
proof (induction out rule: lz_align.induct)
  case (1 out)
  show ?case
  proof (cases "length out mod 4 = 0")
    case False
    moreover have "length out mod 4 < 4" by simp
    ultimately consider "length out mod 4 = 1" | "length out mod 4 = 2" | "length out mod 4 = 3" by linarith
    then have "(4 - length out mod 4) mod 4 = Suc ((4 - Suc (length out) mod 4) mod 4)"
      by cases (simp_all add: mod_Suc)
    with 1 False show ?thesis by (simp add: lz_align.simps [of out])
  qed (simp add: lz_align.simps)
qed

text \<open>Whether the last bytes, which the loop leaves, still have flags in the last group.\<close>

definition lz_tail_flagged :: "(nat \<Rightarrow> u8) \<Rightarrow> nat \<Rightarrow> bool" where
  "lz_tail_flagged inp insize =
     (let s = lz_loop inp (lz_start insize) in 2 ^ (insize - lz_inpos s) \<le> 2 * unat (lz_mask s))"

section \<open>Round trip\<close>

lemma lz_header_size:
  assumes "n < 2 ^ 24"
  shows "\<exists>a b c. lz_header n = [0x10, a, b, c] \<and> unat (be32_of 0 c b a) = n"
proof -
  let ?n = "of_nat n :: u32"
  have low: "ucast (w AND 0xFF) = (ucast w :: u8)" for w :: u32
  proof -
    have "ucast (w AND mask 8) = (ucast w :: u8)" by (rule bit_word_eqI) (auto simp: bit_simps)
    then show ?thesis by (simp add: mask_eq_exp_minus_1)
  qed
  have "unat (drop_bit 24 ?n) = 0" using assms by (simp add: unat_drop_bit)
  then have "ucast (drop_bit 24 ?n) = (0 :: u8)" by (simp add: unsigned_eq_0_iff)
  then have "be32_of 0 (ucast (drop_bit 16 ?n)) (ucast (drop_bit 8 ?n)) (ucast ?n) = ?n"
    using be32_of_bytes[of ?n] by simp
  then show ?thesis using assms by (simp add: lz_header_def Let_def low)
qed

lemma LZ_Compress_decodes:
  assumes "0 < n" "n < 2 ^ 24"
  shows "lz_tail_flagged inp n \<Longrightarrow> lz_decode (LZ_Compress inp n) = Some (map inp [0..<n])"
    and "\<exists>m. n - 3 \<le> m \<and> m \<le> n \<and> lz10 m 0 0 [] (drop 4 (LZ_Compress inp n)) = Some (map inp [0..<m])"
proof -
  define s where "s = lz_loop inp (lz_start n)"
  define zs where "zs = replicate ((4 - length (lz_out s @ map inp [lz_inpos s..<n]) mod 4) mod 4) (0 :: u8)"
  have compressed: "LZ_Compress inp n = lz_out s @ map inp [lz_inpos s..<n] @ zs"
    using assms by (simp add: LZ_Compress_def s_def zs_def lz_align_padded Let_def)
  have inv: "lz_ok m inp n s" and left: "lz_left s \<le> 3" if "0 < m" "n - 3 \<le> m" for m
    using lz_loop_ok[OF lz_start_ok, of n m inp] that by (auto simp: s_def lz_start_def)
  have ok: "lz_ok n inp n s" and "lz_left s \<le> 3" using inv left assms by auto
  then have head: "take 4 (lz_out s) = lz_header n" and inpos: "n - 3 \<le> lz_inpos s" by (auto simp: lz_ok_def)
  then have "lz_out s = lz_header n @ drop 4 (lz_out s)" by (metis append_take_drop_id)
  then have split: "LZ_Compress inp n = lz_header n @ drop 4 (lz_out s) @ map inp [lz_inpos s..<n] @ zs"
    unfolding compressed by (metis append.assoc)
  show "lz_decode (LZ_Compress inp n) = Some (map inp [0..<n])" if tail: "lz_tail_flagged inp n"
  proof -
    obtain k where k: "k < 8" "lz_mask s = push_bit k 1"
        and inv: "lz_inv n inp (lz_out s) (lz_flags s) (Suc k) (lz_inpos s)"
      using ok by (auto simp: lz_ok_def)
    have "unat (push_bit k 1 :: u8) = 2 ^ k"
      using k(1) power_strict_increasing[of k 8 "2 :: nat"] by (simp only: unat_push_bit) simp
    then have "2 ^ (n - lz_inpos s) \<le> (2 :: nat) ^ Suc k"
      using tail k(2) by (simp add: lz_tail_flagged_def s_def [symmetric])
    then have rem: "n - lz_inpos s \<le> Suc k" by (rule power_le_imp_le_exp [rotated]) simp
    have "lz10 n 0 0 [] (drop 4 (lz_out s) @ map inp [lz_inpos s..<n] @ zs) = Some (map inp [0..<n])"
    proof (cases "n \<le> lz_inpos s")
      case True
      then show ?thesis using lz_inv_done[OF inv] by simp
    next
      case False
      then have "lz_inv n inp (lz_out s @ map inp [lz_inpos s..<n]) (lz_flags s) (Suc k - (n - lz_inpos s)) n"
        using lz_inv_literals[OF inv rem] by simp
      then have "lz10 n 0 0 [] (drop 4 (lz_out s @ map inp [lz_inpos s..<n]) @ zs) = Some (map inp [0..<n])"
        by (rule lz_inv_done) simp
      moreover have "4 \<le> length (lz_out s)" using inv by (simp add: lz_inv_def)
      ultimately show ?thesis by simp
    qed
    then show ?thesis using lz_header_size[OF assms(2)] by (auto simp: lz_decode_def split)
  qed
  show "\<exists>m. n - 3 \<le> m \<and> m \<le> n \<and> lz10 m 0 0 [] (drop 4 (LZ_Compress inp n)) = Some (map inp [0..<m])"
  proof (cases "lz_inpos s = 0")
    case True
    then show ?thesis using inpos by (intro exI [of _ 0]) (simp add: lz10_done)
  next
    case False
    let ?m = "min n (lz_inpos s)"
    have "lz_ok ?m inp n s" using inv[of ?m] assms inpos False by simp
    then obtain k where "lz_inv ?m inp (lz_out s) (lz_flags s) k (lz_inpos s)" by (auto simp: lz_ok_def)
    then have "lz10 ?m 0 0 [] (drop 4 (lz_out s) @ map inp [lz_inpos s..<n] @ zs) = Some (map inp [0..<?m])"
      by (rule lz_inv_done) simp
    with inpos show ?thesis by (intro exI [of _ ?m]) (simp add: split)
  qed
qed

section \<open>The size of the output\<close>

text \<open>
  A literal takes nine bits of output for eight of input, a match less; \<open>k + 1\<close> flags of the last group are
  still to be used. A match may reach behind the input.
\<close>

definition lz_bounded :: "nat \<Rightarrow> lz_state \<Rightarrow> bool" where
  "lz_bounded n s \<longleftrightarrow>
     (\<exists>k < 8. lz_mask s = push_bit k 1 \<and> 8 * length (lz_out s) \<le> 9 * min n (lz_inpos s) + 33 + k)"

lemma lz_half_mask:
  assumes "k < 8" and "0 < k"
  shows "drop_bit 1 (push_bit k 1 :: u8) = push_bit (k - 1) 1" and "(push_bit (k - 1) 1 :: u8) \<noteq> 0"
proof -
  show "drop_bit 1 (push_bit k 1 :: u8) = push_bit (k - 1) 1"
    using assms by (intro bit_word_eqI) (auto simp: bit_simps)
  have "bit (push_bit (k - 1) 1 :: u8) (k - 1)" using assms by (simp add: bit_simps)
  then show "(push_bit (k - 1) 1 :: u8) \<noteq> 0" by (metis bit_0_eq bot_apply bot_bool_def)
qed

lemma lz_next_group_bounded:
  assumes "lz_mask s = drop_bit 1 (push_bit k 1)" "k < 8"
    and "8 * length (lz_out s) \<le> 9 * min n (lz_inpos s) + 32 + k"
  shows "lz_bounded n (lz_next_group s)"
proof (cases "k = 0")
  case True
  moreover have "(128 :: u8) = push_bit 7 1" by (simp add: push_bit_eq_mult)
  ultimately show ?thesis
    using assms by (auto simp: lz_bounded_def lz_next_group_def intro!: exI [of _ 7])
next
  case False
  then show ?thesis
    using assms lz_half_mask[of k]
    by (auto simp: lz_bounded_def lz_next_group_def intro!: exI [of _ "k - 1"])
qed

lemma lz_step_bounded:
  assumes "lz_bounded n s" and p: "lz_inpos s = 0 \<and> 0 < n \<or> lz_inpos s + 3 < n"
  shows "lz_bounded n (lz_step inp s)"
proof -
  obtain k where k: "k < 8" "lz_mask s = push_bit k 1" "8 * length (lz_out s) \<le> 9 * min n (lz_inpos s) + 33 + k"
    using assms(1) by (auto simp: lz_bounded_def)
  obtain len offset where so: "lz_search inp (lz_inpos s) = (len, offset)" by fastforce
  show ?thesis
  proof (cases "len > 2")
    case True
    then have "lz_matches inp (lz_inpos s) len offset" using so by (rule lz_search_matches [rotated])
    then have "0 < lz_inpos s" "3 \<le> len" by (auto simp: lz_matches_def)
    with p k(3) have "8 * (length (lz_out s) + 2) \<le> 9 * min n (lz_inpos s + len) + 32 + k"
      by (auto simp: min_def)
    then show ?thesis
      using True k p so by (auto simp: lz_step_def lz_bundle_def intro!: lz_next_group_bounded)
  next
    case False
    with k p so show ?thesis
      by (auto simp: lz_step_def intro!: lz_next_group_bounded)
  qed
qed

lemma lz_step_left_inpos:
  "lz_left s = int n - int (lz_inpos s) \<Longrightarrow>
    lz_left (lz_step inp s) = int n - int (lz_inpos (lz_step inp s))"
  by (auto simp: lz_step_def split: prod.split)

lemma lz_loop_bounded:
  assumes "lz_bounded n s" "lz_inpos s = 0 \<and> 0 < n \<or> lz_inpos s + 3 < n" "lz_left s = int n - int (lz_inpos s)"
  shows "lz_bounded n (lz_loop inp s)"
  using assms
proof (induction inp s rule: lz_loop.induct)
  case (1 inp s)
  have "lz_bounded n (lz_step inp s)" using 1 by (intro lz_step_bounded)
  moreover have "lz_left (lz_step inp s) = int n - int (lz_inpos (lz_step inp s))"
    using 1 by (intro lz_step_left_inpos)
  ultimately show ?case
    using 1 by (subst lz_loop.simps) (auto simp: Let_def)
qed

lemma lz_align_length: "length (lz_align out) = 4 * ((length out + 3) div 4)"
proof -
  have "length (lz_align out) = length out + (4 - length out mod 4) mod 4" by (simp add: lz_align_padded)
  also have "\<dots> = 4 * ((length out + 3) div 4)"
  proof -
    define q r where "q = length out div 4" and "r = length out mod 4"
    then have out: "length out = 4 * q + r" and "r < 4" by simp_all
    then consider "r = 0" | "r = 1" | "r = 2" | "r = 3" by linarith
    then show ?thesis unfolding r_def [symmetric] out by cases (simp_all add: mod_Suc)
  qed
  finally show ?thesis .
qed

lemma LZ_Compress_length:
  assumes "0 < n"
  shows "length (LZ_Compress inp n) \<le> 4 * (((9 * n + 40) div 8 + 3) div 4)"
proof -
  let ?s = "lz_loop inp (lz_start n)"
  have "(128 :: u8) = push_bit 7 1" by (simp add: push_bit_eq_mult)
  then have "lz_bounded n (lz_start n)" by (auto simp: lz_bounded_def lz_start_def intro!: exI [of _ 7])
  then have "lz_bounded n ?s" using assms by (intro lz_loop_bounded) (simp_all add: lz_start_def)
  then have "8 * length (lz_out ?s) \<le> 9 * min n (lz_inpos ?s) + 40" by (auto simp: lz_bounded_def)
  then have "8 * (length (lz_out ?s) + (n - lz_inpos ?s)) \<le> 9 * n + 40" by (auto simp: min_def split: if_splits)
  then have "length (lz_out ?s) + (n - lz_inpos ?s) \<le> (9 * n + 40) div 8" by simp
  then have "(length (lz_out ?s) + (n - lz_inpos ?s) + 3) div 4 \<le> ((9 * n + 40) div 8 + 3) div 4"
    by (intro div_le_mono) simp
  with assms show ?thesis by (simp add: LZ_Compress_def Let_def lz_align_length)
qed

lemma lz_search_start: "p < 3 \<Longrightarrow> lz_search inp p = (2, 0)"
  by (simp add: lz_search_def LZ_MAX_OFFSET_def)

lemma LZ_Compress_small:
  assumes "0 < n" "n < 6"
  shows "length (LZ_Compress inp n) = (if n < 4 then 8 else 12)"
proof -
  let ?s = "lz_loop inp (lz_start n)"
  have s: "length (lz_out ?s) = (if n < 5 then 6 else 7) \<and> lz_inpos ?s = (if n < 5 then 1 else 2)"
  proof (cases "n < 5")
    case True
    then have "?s = lz_step inp (lz_start n)"
      by (subst lz_loop.simps) (simp add: lz_step_def lz_start_def lz_search_start)
    with True show ?thesis by (simp add: lz_step_def lz_start_def lz_search_start lz_next_group_def)
  next
    case False
    with assms have "n = 5" by simp
    then have "?s = lz_step inp (lz_step inp (lz_start 5))"
      by (simp, subst lz_loop.simps, subst lz_loop.simps)
        (simp add: lz_step_def lz_start_def lz_search_start lz_next_group_def)
    then show ?thesis
      using \<open>n = 5\<close> by (simp add: lz_step_def lz_start_def lz_search_start lz_next_group_def)
  qed
  consider "n = 1" | "n = 2" | "n = 3" | "n = 4" | "n = 5" using assms by linarith
  then show ?thesis
    using s by cases (simp_all add: LZ_Compress_def Let_def lz_align_length)
qed

lemma LZ_Compress_fits:
  assumes "0 < n"
  shows "length (LZ_Compress inp n) \<le> 2 * n \<longleftrightarrow> 6 \<le> n"
proof (cases "6 \<le> n")
  case True
  consider "n = 6" | "n = 7" | "n = 8" | "n = 9" | "10 \<le> n" using True by linarith
  then have "4 * (((9 * n + 40) div 8 + 3) div 4) \<le> 2 * n" by cases auto
  with LZ_Compress_length[OF assms, of inp] True show ?thesis by simp
next
  case False
  with assms show ?thesis by (auto simp: LZ_Compress_small)
qed

text \<open>Ten different bytes: the ninth is written where the decoder reads the next flags.\<close>

lemma lz77_last_bytes_lost:
  "lz_decode (LZ_Compress (\<lambda>i. of_nat i) 10) = Some [0, 1, 2, 3, 4, 5, 6, 7, 9, 0] \<and> \<not> lz_tail_flagged (\<lambda>i. of_nat i) 10"
  by code_simp

section \<open>Theorems\<close>

text \<open>
  C30: a file that is compressed decodes to itself when the flags of the last group are enough for the up to
  three bytes which the main loop leaves; in any case all but at most the last three bytes decode.
\<close>

theorem lz77_round_trip:
  assumes "0 < n" and "n < 2 ^ 24"
  shows "(lz_tail_flagged inp n \<longrightarrow> lz_decode (LZ_Compress inp n) = Some (map inp [0..<n]))
    \<and> (\<exists>m. n - 3 \<le> m \<and> m \<le> n \<and> lz10 m 0 0 [] (drop 4 (LZ_Compress inp n)) = Some (map inp [0..<m]))"
  using LZ_Compress_decodes[OF assms] by blast

theorem lz77_round_trip_witness:
  "lz_decode (LZ_Compress (\<lambda>i. of_nat (i mod 3)) 12) = Some [0, 1, 2, 0, 1, 2, 0, 1, 2, 0, 1, 2]"
proof -
  have "lz_tail_flagged (\<lambda>i. of_nat (i mod 3)) 12" by code_simp
  with lz77_round_trip[of 12 "\<lambda>i. of_nat (i mod 3)"]
  have "lz_decode (LZ_Compress (\<lambda>i. of_nat (i mod 3)) 12) = Some (map (\<lambda>i. of_nat (i mod 3)) [0..<12])" by simp
  also have "map (\<lambda>i. of_nat (i mod 3) :: u8) [0..<12] = [0, 1, 2, 0, 1, 2, 0, 1, 2, 0, 1, 2]" by code_simp
  finally show ?thesis .
qed

text \<open>
  The tool's output buffer, twice the size of the file, is overrun for files of one to five bytes and for no
  others.
\<close>

lemma lz77_buffer_fits: "length (LZ_Compress inp n) \<le> 2 * n \<longleftrightarrow> n = 0 \<or> 6 \<le> n"
proof (cases "n = 0")
  case True
  then show ?thesis by (simp add: LZ_Compress_def)
next
  case False
  then show ?thesis by (simp add: LZ_Compress_fits)
qed

end
