(* ===== verification/Settings.thy ===== *)
theory Settings
  imports Nand_Fs Xml
begin

text \<open>
  The settings of the channel: \<^verbatim>\<open>settings_load\<close> and \<^verbatim>\<open>settings_save\<close> of \<^verbatim>\<open>channelapp/source/xml.c\<close> over the NAND files
  of \<open>Nand_Fs\<close>, and how \<^verbatim>\<open>main.c\<close> remembers the selected application in them. The library \<^verbatim>\<open>mxml\<close> is a
  parameter, the queries of \<open>Xml\<close> and a function \<open>save\<close> that prints the elements below \<^verbatim>\<open>hbc\<close>.
\<close>

section \<open>Settings\<close>

record settings_t =
  se_device :: int
  se_sort_order :: int
  se_browse_mode :: int
  se_app_sel :: "u8 list"

record settings_mod =
  sm_settings :: settings_t
  sm_loaded :: settings_t
  sm_write_banner :: bool

definition MAX_SETTINGS_XML_SIZE :: u32 where "MAX_SETTINGS_XML_SIZE = 16 * 1024"

definition c_string :: "u8 list \<Rightarrow> u8 list" where
  "c_string bs = takeWhile (\<lambda>c. c \<noteq> 0) bs"

text \<open>\<^verbatim>\<open>strncpy\<close> to the 64 bytes of \<^verbatim>\<open>app_sel\<close>, and the NUL at their end.\<close>

definition copy_app_sel :: "u8 list \<Rightarrow> u8 list" where
  "copy_app_sel s = (take 64 (c_string s) @ replicate (64 - length (c_string s)) 0)[63 := 0]"

definition default_settings :: settings_t where
  "default_settings = \<lparr>se_device = - 1, se_sort_order = 0, se_browse_mode = 0, se_app_sel = replicate 64 0\<rparr>"

definition read_settings :: "'n mxml \<Rightarrow> 'n \<Rightarrow> settings_t \<Rightarrow> settings_t" where
  "read_settings x node se =
     (let se1 = se\<lparr>se_device := get_elem_int x (Some node) ''device'' (- 1),
                   se_sort_order := get_elem_int x (Some node) ''sort_order'' 0,
                   se_browse_mode := get_elem_int x (Some node) ''browse_mode'' 0\<rparr>
      in case get_elem_cdata x (Some node) ''app_sel'' of
           None \<Rightarrow> se1
         | Some s \<Rightarrow> se1\<lparr>se_app_sel := copy_app_sel s\<rparr>)"

text \<open>The settings once their file has been read into a NUL-terminated buffer.\<close>

definition parse_settings :: "'n mxml \<Rightarrow> u8 list \<Rightarrow> settings_mod \<Rightarrow> bool \<times> settings_mod" where
  "parse_settings x buf m =
     (case mx_load x (c_string buf) of
        None \<Rightarrow> (False, m)
      | Some root \<Rightarrow>
          (case mx_find x root ''hbc'' of
             None \<Rightarrow> (False, m)
           | Some node \<Rightarrow>
               let se = read_settings x node (sm_settings m)
               in (True, m\<lparr>sm_settings := se, sm_loaded := se\<rparr>)))"

definition settings_path :: "string \<Rightarrow> string" where "settings_path tp = tp @ ''/settings.xml''"
definition banner_path :: "string \<Rightarrow> string" where "banner_path tp = tp @ ''/banner.bin''"

text \<open>Whether the banner on the NAND is that of the program; any other is deleted.\<close>

definition check_banner :: "ios_world \<Rightarrow> u8 list \<Rightarrow> string \<Rightarrow> bool ret ios" where
  "check_banner w banner tp = do {
     r \<leftarrow> isfs_get w (banner_path tp) (of_nat (length banner)) 0 False;
     (case r of
        Panic \<Rightarrow> State_Monad.return Panic
      | Ret (res, buf) \<Rightarrow>
          (let good = (\<not> neg res \<and> (case buf of None \<Rightarrow> False | Some (p, bs) \<Rightarrow> take (length banner) bs = banner))
           in do {
             (if good then State_Monad.return 0 else call_ret w (ISFS_Delete (banner_path tp)));
             (case buf of None \<Rightarrow> State_Monad.return 0 | Some (p, bs) \<Rightarrow> call_ret w (Free p));
             State_Monad.return (Ret good)
           }))
   }"

definition settings_load ::
  "ios_world \<Rightarrow> 'n mxml \<Rightarrow> u8 list \<Rightarrow> string \<Rightarrow> settings_mod \<Rightarrow> (bool \<times> settings_mod) ret ios" where
  "settings_load w x banner tp m0 =
     (let m = m0\<lparr>sm_settings := default_settings, sm_loaded := default_settings\<rparr>
      in if tp = [] then State_Monad.return (Ret (False, m))
         else do {
           b \<leftarrow> check_banner w banner tp;
           (case b of
              Panic \<Rightarrow> State_Monad.return Panic
            | Ret good \<Rightarrow> do {
                r \<leftarrow> isfs_get w (settings_path tp) 0 MAX_SETTINGS_XML_SIZE False;
                (let m1 = m\<lparr>sm_write_banner := sm_write_banner m \<and> \<not> good\<rparr>
                 in case r of
                      Panic \<Rightarrow> State_Monad.return Panic
                    | Ret (res, buf) \<Rightarrow>
                        if neg res then State_Monad.return (Ret (False, m1))
                        else (case buf of
                                None \<Rightarrow> State_Monad.return Panic
                              | Some (p, bs) \<Rightarrow> do {
                                  call_ret w (Free p);
                                  State_Monad.return (Ret (parse_settings x bs m1))
                                }))
              })
         })"

section \<open>Saving\<close>

datatype xml_value = XInteger int | XText "u8 list"

definition settings_doc :: "settings_t \<Rightarrow> (string \<times> xml_value) list" where
  "settings_doc se =
     [(''device'', XInteger (se_device se)), (''sort_order'', XInteger (se_sort_order se)),
      (''browse_mode'', XInteger (se_browse_mode se))]
     @ (if length (c_string (se_app_sel se)) > 0 then [(''app_sel'', XText (c_string (se_app_sel se)))] else [])"

definition settings_save ::
  "ios_world \<Rightarrow> ((string \<times> xml_value) list \<Rightarrow> u8 list) \<Rightarrow> u8 list \<Rightarrow> string \<Rightarrow> settings_mod \<Rightarrow> bool ios" where
  "settings_save w save banner tp m =
     (if tp = [] then State_Monad.return False
      else if sm_loaded m = sm_settings m then State_Monad.return False
      else do {
        x \<leftarrow> call_ret w (Memalign 32 MAX_SETTINGS_XML_SIZE);
        (let xml = save (settings_doc (sm_settings m)) in
         if length xml < 16 \<or> length xml > unat MAX_SETTINGS_XML_SIZE - 1 then do {
           call_ret w (Free x);
           State_Monad.return False
         }
         else do {
           b \<leftarrow> (if sm_write_banner m then isfs_put w (banner_path tp) banner (of_nat (length banner))
                 else State_Monad.return 0);
           if sm_write_banner m \<and> neg b \<and> b \<noteq> - 105 then do {
             call_ret w (Free x);
             State_Monad.return False
           }
           else do {
             res \<leftarrow> isfs_put w (settings_path tp) (c_string xml) (of_nat (length (c_string xml)));
             if neg res then do {
               call_ret w (Free x);
               call_ret w (ISFS_Delete (banner_path tp));
               State_Monad.return False
             }
             else do {
               call_ret w (Free x);
               State_Monad.return True
             }
           }
         })
      })"

section \<open>The selected application\<close>

text \<open>
  When the program ends, the name of the directory goes to \<^verbatim>\<open>app_sel\<close> in small letters. The loop has no bound: \<open>None\<close> is
  a write behind the array.
\<close>

definition tolower8 :: "u8 \<Rightarrow> u8" where
  "tolower8 c = (if 65 \<le> c \<and> c \<le> 90 then c + 32 else c)"

definition remember_app :: "u8 list \<Rightarrow> settings_t \<Rightarrow> settings_t option" where
  "remember_app dirname se =
     (if length dirname > 64 then None
      else Some (se\<lparr>se_app_sel := map tolower8 dirname @ replicate (64 - length dirname) 0\<rparr>))"

text \<open>When the device goes away, \<^verbatim>\<open>strcpy\<close> does it, with the NUL.\<close>

definition keep_app :: "u8 list \<Rightarrow> settings_t \<Rightarrow> settings_t option" where
  "keep_app dirname se =
     (if length dirname + 1 > 64 then None
      else Some (se\<lparr>se_app_sel := dirname @ replicate (64 - length dirname) 0\<rparr>))"

section \<open>Numbers as text\<close>

text \<open>What the library prints for a node: an integer as \<^verbatim>\<open>%d\<close> does.\<close>

fun dec_nat :: "nat \<Rightarrow> u8 list" where
  "dec_nat n = (if n < 10 then [48 + of_nat n] else dec_nat (n div 10) @ [48 + of_nat (n mod 10)])"

declare dec_nat.simps [simp del]

fun text_of :: "xml_value \<Rightarrow> u8 list" where
  "text_of (XInteger i) = (if i < 0 then 45 # dec_nat (nat (- i)) else dec_nat (nat i))"
| "text_of (XText t) = t"

lemma unat_digit: "r < 10 \<Longrightarrow> unat (48 + of_nat r :: u8) = 48 + r"
  by (simp add: unat_word_ariths unat_of_nat take_bit_eq_mod)

lemma uint_digit: "r < 10 \<Longrightarrow> uint (48 + of_nat r :: u8) = 48 + int r"
proof -
  assume "r < 10"
  then have "int (unat (48 + of_nat r :: u8)) = 48 + int r" by (simp only: unat_digit)
  then show ?thesis by simp
qed

lemma digit_digit: "r < 10 \<Longrightarrow> digit (48 + of_nat r)"
  by (simp add: digit_def word_le_nat_alt unat_digit)

lemma number_of_append: "number_of (ds @ [c]) = number_of ds * 10 + (int (unat c) - 48)"
  by (simp add: number_of_def)

lemma number_of_dec_nat: "number_of (dec_nat n) = int n"
proof (induction n rule: dec_nat.induct)
  case (1 n)
  show ?case
  proof (cases "n < 10")
    case True
    then show ?thesis by (subst dec_nat.simps) (simp add: number_of_def uint_digit)
  next
    case False
    have "int (n div 10) * 10 + int (n mod 10) = int n" by presburger
    with 1 False show ?thesis
      by (subst dec_nat.simps) (simp add: number_of_append uint_digit)
  qed
qed

lemma dec_nat_digits: "\<forall>c \<in> set (dec_nat n). digit c"
proof (induction n rule: dec_nat.induct)
  case (1 n)
  then show ?case by (subst dec_nat.simps) (auto simp: digit_digit)
qed

lemma dec_nat_not_Nil: "dec_nat n \<noteq> []"
  by (subst dec_nat.simps) simp

lemma digit_not_blank: "digit c \<Longrightarrow> \<not> blank c \<and> c \<noteq> 45 \<and> c \<noteq> 43"
  by (auto simp: digit_def blank_def word_le_nat_alt unsigned_word_eqI)

lemma atoi_text_of:
  assumes "- (2 ^ 31) \<le> i" "i < 2 ^ 31"
  shows "atoi (text_of (XInteger i)) = i"
proof -
  have digits: "takeWhile digit (dec_nat n) = dec_nat n" for n
    using dec_nat_digits[of n] by (simp add: takeWhile_eq_all_conv)
  have hd: "\<not> blank (hd (dec_nat n))" "hd (dec_nat n) \<noteq> 45" "hd (dec_nat n) \<noteq> 43" for n
    using dec_nat_digits[of n] dec_nat_not_Nil[of n] digit_not_blank[of "hd (dec_nat n)"] by auto
  have drop: "dropWhile blank (dec_nat n) = dec_nat n" for n
    using hd(1)[of n] dec_nat_not_Nil[of n] by (cases "dec_nat n") auto
  have "\<not> blank 45" by (simp add: blank_def)
  then show ?thesis
    using assms hd[of "nat i"] dec_nat_not_Nil[of "nat i"]
    by (simp add: atoi_def Let_def digits drop number_of_dec_nat)
qed

section \<open>What is printed is read back\<close>

text \<open>
  The library reads \<open>text\<close> as an element \<^verbatim>\<open>hbc\<close> with exactly the elements \<open>es\<close>, their contents as printed.
\<close>

definition reads_back :: "'n mxml \<Rightarrow> u8 list \<Rightarrow> (string \<times> xml_value) list \<Rightarrow> bool" where
  "reads_back x text es \<longleftrightarrow>
     (\<exists>root node. mx_load x text = Some root \<and> mx_find x root ''hbc'' = Some node
        \<and> (\<forall>name. get_elem_cdata x (Some node) name = map_option text_of (map_of es name)))"

definition int32 :: "int \<Rightarrow> bool" where
  "int32 i \<longleftrightarrow> - (2 ^ 31) \<le> i \<and> i < 2 ^ 31"

text \<open>Values of the C variables; the name of the application is terminated and padded with zeros.\<close>

definition settings_ok :: "settings_t \<Rightarrow> bool" where
  "settings_ok se \<longleftrightarrow>
     int32 (se_device se) \<and> int32 (se_sort_order se) \<and> int32 (se_browse_mode se)
     \<and> copy_app_sel (se_app_sel se) = se_app_sel se"

lemma c_string_c_string [simp]: "c_string (c_string bs) = c_string bs"
  by (simp add: c_string_def takeWhile_idem)

lemma c_string_terminated: "\<forall>c \<in> set bs. c \<noteq> 0 \<Longrightarrow> c_string (bs @ 0 # cs) = bs"
  by (simp add: c_string_def)

lemma c_string_nonzero: "\<forall>c \<in> set (c_string bs). c \<noteq> 0"
  by (auto simp: c_string_def dest: set_takeWhileD)

lemma get_elem_int_cdata:
  "get_elem_int x (Some n) el std = (case get_elem_cdata x (Some n) el of None \<Rightarrow> std | Some s \<Rightarrow> atoi s)"
  by (simp add: get_elem_int_def get_elem_cdata_def)

lemma copy_app_sel_empty: "c_string s = [] \<Longrightarrow> copy_app_sel s = replicate 64 0"
  using list_update_id[of "replicate 64 (0 :: u8)" 63] by (simp add: copy_app_sel_def)

lemma parse_settings_back:
  assumes "reads_back x text (settings_doc se)" and "settings_ok se" and "\<forall>c \<in> set text. c \<noteq> 0"
    and "sm_settings m = default_settings"
  shows "parse_settings x (text @ [0]) m = (True, m\<lparr>sm_settings := se, sm_loaded := se\<rparr>)"
proof -
  obtain root node where x: "mx_load x text = Some root" "mx_find x root ''hbc'' = Some node"
      and get: "\<And>name. get_elem_cdata x (Some node) name = map_option text_of (map_of (settings_doc se) name)"
    using assms(1) by (auto simp: reads_back_def)
  have "copy_app_sel (c_string (se_app_sel se)) = se_app_sel se"
    using assms(2) by (simp add: settings_ok_def copy_app_sel_def)
  moreover have "se_app_sel se = replicate 64 0" if "c_string (se_app_sel se) = []"
    using assms(2) copy_app_sel_empty[OF that] by (simp add: settings_ok_def)
  ultimately have "read_settings x node default_settings = se"
    using assms(2) unfolding settings_ok_def int32_def
    by (auto simp: read_settings_def get_elem_int_cdata get settings_doc_def Let_def atoi_text_of
        default_settings_def simp del: text_of.simps(1) intro!: settings_t.equality)
  then show ?thesis
    using assms(3,4) x by (simp add: parse_settings_def c_string_terminated [where cs = Nil])
qed

section \<open>What the NAND keeps\<close>

text \<open>
  The contents of a file as far as the history of calls determines them: those of a file that was created, opened
  and written in one piece, until a call touches it again.
\<close>

fun nand_file :: "ios_world \<Rightarrow> string \<Rightarrow> ios_call list \<Rightarrow> u8 list option" where
  "nand_file w path [] = None"
| "nand_file w path (e # h) =
     (case e of
        ISFS_Write fd d \<Rightarrow>
          (case h of
             ISFS_Open p mode # ISFS_CreateFile q # h1 \<Rightarrow>
               if p = path \<and> q = path \<and> fd = rret (w (ISFS_CreateFile q # h1) (ISFS_Open p mode))
                  \<and> rret (w h e) = of_nat (length d)
               then Some d
               else if p = path then None else nand_file w path h
           | _ \<Rightarrow> None)
      | ISFS_Open p mode \<Rightarrow> nand_file w path h
      | IOS_Write fd d \<Rightarrow> None
      | _ \<Rightarrow> if touches path e then None else nand_file w path h)"

text \<open>
  Documented behaviour of the file system: a file that is opened for reading has the length and the bytes that were
  written to it.
\<close>

definition nand_keeps :: "ios_world \<Rightarrow> string \<Rightarrow> bool" where
  "nand_keeps w path \<longleftrightarrow>
     (\<forall>h d. nand_file w path h = Some d \<longrightarrow>
        (let h1 = ISFS_Open path 1 # h; fd = rret (w h (ISFS_Open path 1));
             h2 = ISFS_GetFileStats fd # h1
         in (\<not> neg (rret (w h1 (ISFS_GetFileStats fd))) \<longrightarrow>
               rlen (w h1 (ISFS_GetFileStats fd)) = of_nat (length d))
          \<and> (\<forall>n a. rret (w (Memalign 32 a # h2) (ISFS_Read fd n)) = of_nat (length d) \<longrightarrow>
               rbytes (w (Memalign 32 a # h2) (ISFS_Read fd n)) = d)))"

lemma isfs_put_stores:
  assumes "run_state (isfs_put w path data (of_nat (length data))) s = (r, s')" "\<not> neg r"
    and "length data < 2 ^ 31"
  shows "nand_file w path (calls s') = Some data"
proof -
  have "unat (of_nat (length data) :: u32) = length data" using assms(3) by simp
  then show ?thesis
    using assms(1,2) unfolding isfs_put_def
    by (auto simp: run_simps Let_def touches_def split: if_splits)
qed

lemma isfs_put_other:
  assumes "run_state (isfs_put w p data n) s = (r, s')" and "p \<noteq> path"
    and "nand_file w path (calls s) = Some d"
  shows "nand_file w path (calls s') = Some d"
  using assms unfolding isfs_put_def
  by (auto simp: run_simps Let_def touches_def split: if_splits)

lemma isfs_get_other:
  assumes "p \<noteq> path"
  shows "nand_file w path (calls (snd (run_state (isfs_get w p e m False) s))) = nand_file w path (calls s)"
  using assms unfolding isfs_get_def
  by (auto simp: run_simps Let_def touches_def split: prod.splits)

lemma isfs_get_keeps:
  assumes "nand_keeps w path" and "nand_file w path (calls s) = Some d" and "length d < 2 ^ 31"
  shows "case fst (run_state (isfs_get w path 0 m False) s) of
      Panic \<Rightarrow> True
    | Ret (r, None) \<Rightarrow> neg r
    | Ret (r, Some (p, bs)) \<Rightarrow> bs = d @ [0] \<and> \<not> neg r"
proof -
  have "unat (of_nat (length d) :: u32) = length d" using assms(3) by (intro unat_of_nat32) simp
  then have "int (unat (of_nat (length d) :: u32)) = int (length d)" by (rule arg_cong)
  then have "\<not> neg (of_nat (length d) :: u32)" using assms(3) by (simp add: sint32)
  then show ?thesis
    using assms(1,2) unfolding isfs_get_def nand_keeps_def
    by (auto simp: run_simps Let_def split: prod.splits)
qed

text \<open>A system on which, as far as reading is concerned, nothing fails: there is memory, and a file that was written can be read.\<close>

definition nand_works :: "ios_world \<Rightarrow> string \<Rightarrow> bool" where
  "nand_works w path \<longleftrightarrow> (\<forall>h. (\<forall>a n. rret (w h (Memalign a n)) \<noteq> 0)
     \<and> (nand_file w path h \<noteq> None \<longrightarrow> \<not> neg (rret (w h (ISFS_Open path 1))))
     \<and> (\<forall>fd. \<not> neg (rret (w h (ISFS_GetFileStats fd))) \<and> \<not> neg (rret (w h (ISFS_Close fd)))
          \<and> (\<forall>n. rret (w h (ISFS_Read fd n)) = n)))"

lemma isfs_get_works:
  assumes "nand_keeps w path" and "nand_works w path" and "nand_file w path (calls s) = Some d"
    and "0 < length d" and "length d \<le> unat m" and "unat m < 2 ^ 31"
  shows "\<exists>r p s'. run_state (isfs_get w path 0 m False) s = (Ret (r, Some (p, d @ [0])), s') \<and> \<not> neg r"
proof -
  have len: "unat (of_nat (length d) :: u32) = length d" using assms(5,6) by (intro unat_of_nat32) simp
  have ge: "\<not> neg (of_nat (length d) :: u32)"
  proof -
    have "int (unat (of_nat (length d) :: u32)) = int (length d)" using len by (rule arg_cong)
    then show ?thesis using assms(5,6) by (simp add: sint32)
  qed
  have ne: "(of_nat (length d) :: u32) \<noteq> 0" using len assms(4) by (metis unat_0 less_irrefl)
  have le: "\<not> of_nat (length d) > m" using len assms(5) by (simp add: word_less_nat_alt)
  let ?fd = "rret (w (calls s) (ISFS_Open path 1))" and ?h1 = "ISFS_Open path 1 # calls s"
  have open_ok: "\<not> neg ?fd" and works: "\<And>h a n. rret (w h (Memalign a n)) \<noteq> 0" "\<And>h fd. \<not> neg (rret (w h (ISFS_GetFileStats fd)))"
      "\<And>h fd. \<not> neg (rret (w h (ISFS_Close fd)))" "\<And>h fd n. rret (w h (ISFS_Read fd n)) = n"
    using assms(2,3) unfolding nand_works_def by simp_all
  have keeps: "rlen (w ?h1 (ISFS_GetFileStats ?fd)) = of_nat (length d)"
    "\<And>a n. n = of_nat (length d) \<Longrightarrow> rbytes (w (Memalign 32 a # ISFS_GetFileStats ?fd # ?h1) (ISFS_Read ?fd n)) = d"
    using assms(1,3) works unfolding nand_keeps_def Let_def by blast+
  show ?thesis
    unfolding isfs_get_def
    by (simp add: run_simps Let_def open_ok[unfolded One_nat_def] works keeps[unfolded One_nat_def] ne le ge)
qed

lemma check_banner_works:
  assumes "nand_works w path"
  shows "\<exists>good. fst (run_state (check_banner w banner tp) s) = Ret good"
proof -
  have mem: "\<And>h a n. rret (w h (Memalign a n)) \<noteq> 0" using assms by (simp add: nand_works_def)
  have "fst (run_state (isfs_get w p e m False) s) \<noteq> Panic" for p e m s
    unfolding isfs_get_def by (simp add: run_simps Let_def mem)
  then show ?thesis unfolding check_banner_def
    by (auto simp: run_simps Let_def split: prod.splits ret.splits option.splits) (metis fst_conv)
qed

lemma check_banner_keeps:
  assumes "run_state (check_banner w banner tp) s = (b, s')"
  shows "nand_file w (settings_path tp) (calls s') = nand_file w (settings_path tp) (calls s)"
proof -
  obtain r s1 where run: "run_state (isfs_get w (banner_path tp) (of_nat (length banner)) 0 False) s = (r, s1)"
    by fastforce
  have "banner_path tp \<noteq> settings_path tp" by (simp add: banner_path_def settings_path_def)
  with run have "nand_file w (settings_path tp) (calls s1) = nand_file w (settings_path tp) (calls s)"
    by (metis isfs_get_other snd_conv)
  then show ?thesis
    using assms run \<open>banner_path tp \<noteq> settings_path tp\<close> unfolding check_banner_def
    by (auto simp: run_simps Let_def touches_def split: ret.splits option.splits if_splits)
qed

section \<open>A round trip\<close>

lemma settings_save_stores:
  assumes "run_state (settings_save w save banner tp m) s = (True, s')"
    and "length (c_string (save (settings_doc (sm_settings m)))) < 2 ^ 31"
  shows "nand_file w (settings_path tp) (calls s') = Some (c_string (save (settings_doc (sm_settings m))))"
proof -
  let ?text = "c_string (save (settings_doc (sm_settings m)))"
  obtain s1 s2 r where put: "run_state (isfs_put w (settings_path tp) ?text (of_nat (length ?text))) s1 = (r, s2)"
      and r: "\<not> neg r" and s': "\<exists>x. calls s' = Free x # calls s2"
    using assms(1) unfolding settings_save_def
    by (auto simp: run_simps Let_def split: if_splits prod.splits)
  from isfs_put_stores[OF put r assms(2)] s' show ?thesis by (auto simp: touches_def)
qed

lemma settings_load_back:
  assumes stored: "nand_file w (settings_path tp) (calls s) = Some text" and keeps: "nand_keeps w (settings_path tp)"
    and len: "length text < 2 ^ 31" and nonzero: "\<forall>c \<in> set text. c \<noteq> 0"
    and reads: "reads_back x text (settings_doc se)" and ok: "settings_ok se" and tp: "tp \<noteq> []"
  shows "case fst (run_state (settings_load w x banner tp m) s) of
      Panic \<Rightarrow> True
    | Ret (found, m') \<Rightarrow> sm_settings m' = (if found then se else default_settings) \<and> sm_loaded m' = sm_settings m'"
proof -
  obtain b s1 where b: "run_state (check_banner w banner tp) s = (b, s1)" by fastforce
  obtain r s2 where r: "run_state (isfs_get w (settings_path tp) 0 MAX_SETTINGS_XML_SIZE False) s1 = (r, s2)"
    by fastforce
  have "nand_file w (settings_path tp) (calls s1) = Some text" using check_banner_keeps[OF b] stored by simp
  from isfs_get_keeps[OF keeps this len, of MAX_SETTINGS_XML_SIZE] r
  have get: "case r of Panic \<Rightarrow> True | Ret (r, None) \<Rightarrow> neg r | Ret (r, Some (p, bs)) \<Rightarrow> bs = text @ [0] \<and> \<not> neg r"
    by simp
  have parse: "parse_settings x (text @ [0]) n = (True, n\<lparr>sm_settings := se, sm_loaded := se\<rparr>)"
    if "sm_settings n = default_settings" for n
    using reads ok nonzero that by (rule parse_settings_back)
  show ?thesis
    using tp b r get unfolding settings_load_def
    by (auto simp: run_simps Let_def parse split: ret.splits option.splits prod.splits)
qed

lemma settings_load_works:
  assumes stored: "nand_file w (settings_path tp) (calls s) = Some text" and keeps: "nand_keeps w (settings_path tp)"
    and works: "nand_works w (settings_path tp)"
    and len: "0 < length text" "length text \<le> unat MAX_SETTINGS_XML_SIZE" and nonzero: "\<forall>c \<in> set text. c \<noteq> 0"
    and reads: "reads_back x text (settings_doc se)" and ok: "settings_ok se" and tp: "tp \<noteq> []"
  shows "\<exists>m'. fst (run_state (settings_load w x banner tp m) s) = Ret (True, m') \<and> sm_settings m' = se \<and> sm_loaded m' = se"
proof -
  obtain good s1 where b: "run_state (check_banner w banner tp) s = (Ret good, s1)"
    using check_banner_works[OF works, of banner tp s] by (metis prod.collapse)
  have "nand_file w (settings_path tp) (calls s1) = Some text" using check_banner_keeps[OF b] stored by simp
  from isfs_get_works[OF keeps works this len] obtain r p s2 where
    r: "run_state (isfs_get w (settings_path tp) 0 MAX_SETTINGS_XML_SIZE False) s1 = (Ret (r, Some (p, text @ [0])), s2)" "\<not> neg r"
    by (auto simp: MAX_SETTINGS_XML_SIZE_def)
  have parse: "parse_settings x (text @ [0]) n = (True, n\<lparr>sm_settings := se, sm_loaded := se\<rparr>)"
    if "sm_settings n = default_settings" for n
    using reads ok nonzero that by (rule parse_settings_back)
  show ?thesis
    using tp b r unfolding settings_load_def by (simp add: run_simps Let_def parse)
qed

section \<open>Names of applications\<close>

text \<open>A name of less than 64 bytes is kept as the settings require; one of 64 bytes has no NUL.\<close>

lemma tolower8_nonzero:
  assumes "c \<noteq> 0"
  shows "tolower8 c \<noteq> 0"
proof (cases "65 \<le> c \<and> c \<le> 90")
  case True
  then have "unat (c + 32) = unat c + 32" by (simp add: word_le_nat_alt unat_word_ariths)
  then have "c + 32 \<noteq> 0" by (metis add_eq_0_iff_both_eq_0 unat_0 zero_neq_numeral)
  with True show ?thesis by (simp add: tolower8_def)
next
  case False
  with assms show ?thesis unfolding tolower8_def by (simp only: if_False) simp
qed

lemma remember_app_ok:
  assumes "settings_ok se" and "length dirname < 64" and "\<forall>c \<in> set dirname. c \<noteq> 0"
  shows "\<exists>se'. remember_app dirname se = Some se' \<and> settings_ok se' \<and> c_string (se_app_sel se') = map tolower8 dirname"
proof -
  let ?a = "map tolower8 dirname @ replicate (64 - length dirname) 0"
  have nonzero: "\<forall>c \<in> set (map tolower8 dirname). c \<noteq> 0"
    using assms(3) by (auto simp: tolower8_nonzero)
  obtain k where k: "64 - length dirname = Suc k" using assms(2) by (cases "64 - length dirname") auto
  have c: "c_string ?a = map tolower8 dirname"
    unfolding k using c_string_terminated[OF nonzero, of "replicate k 0"] by simp
  have "?a ! 63 = 0" using assms(2) by (simp add: nth_append)
  then have "copy_app_sel ?a = ?a"
    using assms(2) list_update_id[of ?a 63] unfolding copy_app_sel_def c by simp
  then show ?thesis using assms(1,2) c by (simp add: remember_app_def settings_ok_def)
qed

lemma remember_app_64: "\<exists>se'. remember_app (replicate 64 97) se = Some se' \<and> 0 \<notin> set (se_app_sel se')"
  by (simp add: remember_app_def tolower8_def)

section \<open>Theorem\<close>

text \<open>
  C31: settings that were saved are those which the next start of the channel loads, when there is memory and the file that
  was written can be read then (\<open>nand_works\<close>). Whatever fails, a load that does not find them leaves the defaults, never a
  part of them.
\<close>

theorem settings_round_trip:
  assumes "run_state (settings_save w save banner tp m) s = (True, s')"
    and "settings_ok (sm_settings m)"
    and "reads_back x (save (settings_doc (sm_settings m))) (settings_doc (sm_settings m))"
    and "\<forall>c \<in> set (save (settings_doc (sm_settings m))). c \<noteq> 0"
    and "nand_keeps w (settings_path tp)"
  shows "(nand_works w (settings_path tp) \<longrightarrow> (\<exists>m'. fst (run_state (settings_load w x banner2 tp m0) s') = Ret (True, m')
        \<and> sm_settings m' = sm_settings m \<and> sm_loaded m' = sm_settings m))
    \<and> (case fst (run_state (settings_load w x banner2 tp m0) s') of
      Panic \<Rightarrow> True
    | Ret (found, m') \<Rightarrow>
        sm_settings m' = (if found then sm_settings m else default_settings) \<and> sm_loaded m' = sm_settings m')"
proof (intro conjI impI)
  let ?text = "save (settings_doc (sm_settings m))"
  have tp: "tp \<noteq> []" and len: "16 \<le> length ?text" "length ?text \<le> unat MAX_SETTINGS_XML_SIZE - 1"
    using assms(1) by (auto simp: settings_save_def run_simps State_Monad.return_def Let_def not_less not_le split: if_splits prod.splits)
  have max: "unat MAX_SETTINGS_XML_SIZE = 16384" by (simp add: MAX_SETTINGS_XML_SIZE_def)
  have c: "c_string ?text = ?text" using assms(4) by (simp add: c_string_def takeWhile_eq_all_conv)
  have stored: "nand_file w (settings_path tp) (calls s') = Some ?text"
    using settings_save_stores[OF assms(1)] len max by (simp add: c)
  have "length ?text < 2 ^ 31" using len(2) max by simp
  from settings_load_back[OF stored assms(5) this assms(4,3,2) tp, of banner2 m0]
  show "case fst (run_state (settings_load w x banner2 tp m0) s') of
      Panic \<Rightarrow> True
    | Ret (found, m') \<Rightarrow>
        sm_settings m' = (if found then sm_settings m else default_settings) \<and> sm_loaded m' = sm_settings m'" .
  assume works: "nand_works w (settings_path tp)"
  have "0 < length ?text" "length ?text \<le> unat MAX_SETTINGS_XML_SIZE" using len max by linarith+
  from settings_load_works[OF stored assms(5) works this assms(4,3,2) tp, of banner2 m0]
  show "\<exists>m'. fst (run_state (settings_load w x banner2 tp m0) s') = Ret (True, m')
        \<and> sm_settings m' = sm_settings m \<and> sm_loaded m' = sm_settings m" .
qed

text \<open>A NAND on which every call succeeds and one file is kept, and a printer and reader of one document.\<close>

definition sample_settings :: settings_t where
  "sample_settings = \<lparr>se_device = 2, se_sort_order = 1, se_browse_mode = - 7, se_app_sel = bytes ''snes'' @ replicate 60 0\<rparr>"

definition sample_save :: "(string \<times> xml_value) list \<Rightarrow> u8 list" where
  "sample_save es = (if es = settings_doc sample_settings then replicate 20 65 else replicate 20 66)"

definition sample_mxml :: "nat mxml" where
  "sample_mxml =
     \<lparr>mx_load = (\<lambda>bs. if bs = replicate 20 65 then Some 0 else None),
      mx_find = (\<lambda>n name. if n = 0 \<and> name = ''hbc'' then Some 1
                  else if n = 1 then (if name = ''device'' then Some 2 else if name = ''sort_order'' then Some 3
                     else if name = ''browse_mode'' then Some 4 else if name = ''app_sel'' then Some 5 else None)
                  else None),
      mx_each = (\<lambda>_ _ _. []), mx_children = (\<lambda>n. [n]),
      mx_opaque = (\<lambda>n. if n = 2 then Some [50] else if n = 3 then Some [49] else if n = 4 then Some [45, 55]
                    else if n = 5 then Some (bytes ''snes'') else None),
      mx_attr = (\<lambda>_ _. None)\<rparr>"

definition plain_nand :: ios_world where
  "plain_nand h e =
     \<lparr>rret = (case e of ISFS_Write fd d \<Rightarrow> of_nat (length d) | Memalign a b \<Rightarrow> 64 | _ \<Rightarrow> 0), rbytes = [], rlen = 0\<rparr>"

definition sample_nand :: ios_world where
  "sample_nand h e =
     (case e of
        ISFS_Write fd d \<Rightarrow> \<lparr>rret = of_nat (length d), rbytes = [], rlen = 0\<rparr>
      | ISFS_GetFileStats fd \<Rightarrow>
          \<lparr>rret = 0, rbytes = [],
           rlen = (case h of ISFS_Open p m # h1 \<Rightarrow>
                     (case nand_file plain_nand p h1 of
                        None \<Rightarrow> 0 | Some d \<Rightarrow> of_nat (length d)) | _ \<Rightarrow> 0)\<rparr>
      | ISFS_Read fd n \<Rightarrow>
          \<lparr>rret = n,
           rbytes = (case h of x # y # ISFS_Open p m # h1 \<Rightarrow>
                     (case nand_file plain_nand p h1 of
                        None \<Rightarrow> [] | Some d \<Rightarrow> d) | _ \<Rightarrow> []), rlen = 0\<rparr>
      | Memalign a b \<Rightarrow> \<lparr>rret = 64, rbytes = [], rlen = 0\<rparr>
      | _ \<Rightarrow> \<lparr>rret = 0, rbytes = [], rlen = 0\<rparr>)"

lemma nand_file_sample: "nand_file sample_nand p h = nand_file plain_nand p h"
proof (induction h)
  case (Cons e h)
  have "rret (sample_nand h0 (ISFS_Open q m)) = rret (plain_nand h0 (ISFS_Open q m))"
      "rret (sample_nand h0 (ISFS_Write fd d)) = rret (plain_nand h0 (ISFS_Write fd d))" for h0 q m fd d
    by (simp_all add: sample_nand_def plain_nand_def)
  with Cons show ?case
    by (auto simp del: nand_file.simps(2) simp add: nand_file.simps(2) [of _ _ e h] split: ios_call.split list.split)
qed simp

lemma sample_nand_keeps: "nand_keeps sample_nand path"
  unfolding nand_keeps_def nand_file_sample
  by (auto simp: sample_nand_def Let_def)

lemma sample_nand_works: "nand_works sample_nand path"
  by (simp add: nand_works_def sample_nand_def)

lemma sample_reads_back: "reads_back sample_mxml (sample_save (settings_doc sample_settings)) (settings_doc sample_settings)"
proof -
  have "c_string (se_app_sel sample_settings) = bytes ''snes''" by code_simp
  moreover have "dec_nat 2 = [50]" "dec_nat 1 = [49]" "dec_nat 7 = [55]" by code_simp+
  ultimately show ?thesis
    by (simp add: reads_back_def sample_mxml_def sample_save_def settings_doc_def get_elem_cdata_def get_cdata_def
        sample_settings_def bytes_def)
qed

theorem settings_round_trip_witness:
  "\<exists>s'. run_state (settings_save sample_nand sample_save [1] ''t''
        \<lparr>sm_settings = sample_settings, sm_loaded = default_settings, sm_write_banner = True\<rparr>)
        \<lparr>calls = [], initialized = True\<rparr> = (True, s')
    \<and> (\<exists>m'. fst (run_state (settings_load sample_nand sample_mxml [1] ''t''
        \<lparr>sm_settings = default_settings, sm_loaded = default_settings, sm_write_banner = True\<rparr>) s') = Ret (True, m')
      \<and> sm_settings m' = sample_settings \<and> sm_loaded m' = sample_settings)"
proof -
  let ?m = "\<lparr>sm_settings = sample_settings, sm_loaded = default_settings, sm_write_banner = True\<rparr>"
  have saved: "fst (run_state (settings_save sample_nand sample_save [1] ''t'' ?m) \<lparr>calls = [], initialized = True\<rparr>)"
    by code_simp
  have ok: "settings_ok sample_settings" "\<forall>c \<in> set (sample_save (settings_doc sample_settings)). c \<noteq> 0"
    by code_simp+
  obtain s' where s': "run_state (settings_save sample_nand sample_save [1] ''t'' ?m)
      \<lparr>calls = [], initialized = True\<rparr> = (True, s')"
    using saved by (metis (full_types) prod.collapse)
  have "sm_settings ?m = sample_settings" by simp
  from settings_round_trip[OF s', unfolded this, OF ok(1) sample_reads_back ok(2) sample_nand_keeps]
  show ?thesis using s' sample_nand_works[of "settings_path ''t''"] by blast
qed

end
