(* ===== verification/I18n.thy ===== *)
theory I18n
  imports HBC_Prelude
begin

text \<open>
  Translations, \<^verbatim>\<open>channelapp/source/i18n.c\<close>: a \<^verbatim>\<open>.mo\<close> catalogue somewhere in memory, written in either byte order, is
  configured and strings are looked up in it. And \<^verbatim>\<open>ggets.c\<close>, which reads a line into a growing buffer.
\<close>

section \<open>The catalogue\<close>

record mo_hdr =
  mo_magic :: u32
  mo_revision :: u32
  mo_count :: u32
  mo_source :: u32
  mo_target :: u32
  mo_hash_size :: u32
  mo_hashes :: u32

text \<open>\<open>mo_data\<close> is an address, zero for \<^verbatim>\<open>NULL\<close>.\<close>

record i18n_state =
  mo :: mo_hdr
  mo_inited :: bool
  mo_data :: u32

definition MAGIC_SWAB :: u32 where "MAGIC_SWAB = 0xde120495"
definition MAGIC :: u32 where "MAGIC = 0x950412de"

definition SWAB16 :: "u32 \<Rightarrow> u32" where
  "SWAB16 x = (drop_bit 8 x AND 0xFF) OR push_bit 8 (x AND 0xFF)"

definition SWAB32 :: "u32 \<Rightarrow> u32" where
  "SWAB32 x = push_bit 16 (SWAB16 (x AND 0xFFFF)) OR SWAB16 (drop_bit 16 x AND 0xFFFF)"

definition ENDIAN :: "mo_hdr \<Rightarrow> u32 \<Rightarrow> u32" where
  "ENDIAN h x = (if mo_magic h = MAGIC_SWAB then SWAB32 x else x)"

definition read_mo_hdr :: "mem \<Rightarrow> u32 \<Rightarrow> mo_hdr" where
  "read_mo_hdr m p =
     \<lparr>mo_magic = load32 m p, mo_revision = load32 m (p + 4), mo_count = load32 m (p + 8),
      mo_source = load32 m (p + 12), mo_target = load32 m (p + 16), mo_hash_size = load32 m (p + 20),
      mo_hashes = load32 m (p + 24)\<rparr>"

definition i18n_set_mo :: "mem \<Rightarrow> u32 \<Rightarrow> i18n_state \<Rightarrow> i18n_state" where
  "i18n_set_mo m mo_file s0 =
     (let s = s0\<lparr>mo_inited := True\<rparr>
      in if mo_file = 0 then s\<lparr>mo_data := 0\<rparr>
         else
           let h = read_mo_hdr m mo_file
           in if mo_magic h \<noteq> MAGIC_SWAB \<and> mo_magic h \<noteq> MAGIC then s\<lparr>mo := h\<rparr>
              else
                let h1 = (if mo_magic h = MAGIC_SWAB
                          then h\<lparr>mo_revision := SWAB32 (mo_revision h), mo_count := SWAB32 (mo_count h),
                                 mo_source := SWAB32 (mo_source h), mo_target := SWAB32 (mo_target h),
                                 mo_hash_size := SWAB32 (mo_hash_size h), mo_hashes := SWAB32 (mo_magic h)\<rparr>
                          else h)
                in s\<lparr>mo := h1\<lparr>mo_source := mo_file + mo_source h1, mo_target := mo_file + mo_target h1\<rparr>,
                     mo_data := mo_file\<rparr>)"

text \<open>
  \<^verbatim>\<open>strcmp\<close> of a string, given by its bytes without the NUL, with what is in memory. A lookup gives the address
  of the translation, or \<open>None\<close> for the string itself.
\<close>

definition same_string :: "mem \<Rightarrow> u8 list \<Rightarrow> u32 \<Rightarrow> bool" where
  "same_string m str p \<longleftrightarrow> mem_read m p (length str + 1) = str @ [0]"

fun mo_find :: "mem \<Rightarrow> i18n_state \<Rightarrow> u8 list \<Rightarrow> nat list \<Rightarrow> u32 option" where
  "mo_find m s str [] = None"
| "mo_find m s str (i # is) =
     (if same_string m str (mo_data s + ENDIAN (mo s) (load32 m (mo_source (mo s) + 8 * of_nat i + 4)))
      then Some (mo_data s + ENDIAN (mo s) (load32 m (mo_target (mo s) + 8 * of_nat i + 4)))
      else mo_find m s str is)"

definition i18n :: "mem \<Rightarrow> i18n_state \<Rightarrow> u8 list \<Rightarrow> u32 option" where
  "i18n m s english_string =
     (if mo_data s = 0 then None else mo_find m s english_string [0..<unat (mo_count (mo s))])"

definition i18n_have_mo :: "i18n_state \<Rightarrow> u32" where
  "i18n_have_mo s = (if mo_data s \<noteq> 0 then 1 else 0)"

section \<open>Swapping bytes\<close>

lemma bit_SWAB32:
  assumes "k < 8"
  shows "bit (SWAB32 x) k = bit x (24 + k)" "bit (SWAB32 x) (8 + k) = bit x (16 + k)"
    "bit (SWAB32 x) (16 + k) = bit x (8 + k)" "bit (SWAB32 x) (24 + k) = bit x k"
proof -
  have ff: "(0xFF :: u32) = mask 8" "(0xFFFF :: u32) = mask 16" by (simp_all add: mask_eq_exp_minus_1)
  show "bit (SWAB32 x) k = bit x (24 + k)" "bit (SWAB32 x) (8 + k) = bit x (16 + k)"
      "bit (SWAB32 x) (16 + k) = bit x (8 + k)" "bit (SWAB32 x) (24 + k) = bit x k"
    using assms unfolding SWAB32_def SWAB16_def ff by (auto simp: bit_simps)
qed

lemma bit_be32_of:
  assumes "k < 8"
  shows "bit (be32_of a b c d) k = bit d k" "bit (be32_of a b c d) (8 + k) = bit c k"
    "bit (be32_of a b c d) (16 + k) = bit b k" "bit (be32_of a b c d) (24 + k) = bit a k"
proof -
  have high: "\<not> bit (e :: u8) (8 + n)" for e n by (auto dest: bit_imp_le_length)
  have "\<not> bit (e :: u8) (16 + n)" "\<not> bit (e :: u8) (24 + n)" for e n
    using high[of e "8 + n"] high[of e "16 + n"] by (simp_all add: add.assoc [symmetric])
  with high assms show "bit (be32_of a b c d) k = bit d k" "bit (be32_of a b c d) (8 + k) = bit c k"
      "bit (be32_of a b c d) (16 + k) = bit b k" "bit (be32_of a b c d) (24 + k) = bit a k"
    by (auto simp: be32_of_def bit_simps)
qed

lemma SWAB32_be32_of: "SWAB32 (be32_of a b c d) = be32_of d c b a"
proof (rule bit_word_eqI)
  fix n assume "n < LENGTH(32)"
  then have "n < 32" by simp
  then consider "n < 8" | "8 \<le> n" "n < 16" | "16 \<le> n" "n < 24" | "24 \<le> n" "n < 32" by linarith
  then show "bit (SWAB32 (be32_of a b c d)) n = bit (be32_of d c b a) n"
  proof cases
    case 1
    then show ?thesis by (simp add: bit_SWAB32 bit_be32_of)
  next
    case 2
    then show ?thesis
      using bit_SWAB32(2)[of "n - 8"] bit_be32_of(2)[of "n - 8"] bit_be32_of(3)[of "n - 8"] by simp
  next
    case 3
    then show ?thesis
      using bit_SWAB32(3)[of "n - 16"] bit_be32_of(2)[of "n - 16"] bit_be32_of(3)[of "n - 16"] by simp
  next
    case 4
    then show ?thesis
      using bit_SWAB32(4)[of "n - 24"] bit_be32_of(1)[of "n - 24"] bit_be32_of(4)[of "n - 24"] by simp
  qed
qed

lemma SWAB32_SWAB32: "SWAB32 (SWAB32 x) = x"
  using SWAB32_be32_of be32_of_bytes[of x] by metis

section \<open>Catalogues\<close>

text \<open>A word of a file in big-endian or little-endian order.\<close>

definition word_at :: "bool \<Rightarrow> mem \<Rightarrow> u32 \<Rightarrow> u32" where
  "word_at be m a = (if be then load32 m a else be32_of (m (a + 3)) (m (a + 2)) (m (a + 1)) (m a))"

lemma word_at_SWAB: "word_at be m a = (if be then load32 m a else SWAB32 (load32 m a))"
  by (simp add: word_at_def load32_def SWAB32_be32_of)

text \<open>A catalogue at \<open>p\<close> with the strings and translations \<open>cat\<close>, written in one of the two orders.\<close>

definition mo_catalogue :: "mem \<Rightarrow> u32 \<Rightarrow> bool \<Rightarrow> (u8 list \<times> u8 list) list \<Rightarrow> bool" where
  "mo_catalogue m p be cat \<longleftrightarrow>
     p \<noteq> 0 \<and> word_at be m p = MAGIC \<and> unat (word_at be m (p + 8)) = length cat
     \<and> (\<forall>i < length cat. case cat ! i of (str, text) \<Rightarrow>
          0 \<notin> set str
          \<and> same_string m str (p + word_at be m (p + word_at be m (p + 12) + 8 * of_nat i + 4))
          \<and> same_string m text (p + word_at be m (p + word_at be m (p + 16) + 8 * of_nat i + 4)))"

lemma same_string_le:
  assumes "same_string m s1 p" "same_string m s2 p" "0 \<notin> set s2" "length s1 \<le> length s2"
  shows "s1 = s2"
proof -
  have "mem_read m p (length s1 + 1) = take (length s1 + 1) (mem_read m p (length s2 + 1))"
    using assms(4) by (intro mem_read_prefix) simp
  then have e: "s1 @ [0] = take (length s1 + 1) (s2 @ [0])"
    using assms(1,2) by (simp add: same_string_def)
  have "length s1 = length s2"
  proof (rule ccontr)
    assume "length s1 \<noteq> length s2"
    then have "(s1 @ [0]) ! length s1 = s2 ! length s1" using e assms(4) by simp
    then have "s2 ! length s1 = 0" by simp
    moreover have "s2 ! length s1 \<in> set s2" using \<open>length s1 \<noteq> length s2\<close> assms(4) by simp
    ultimately show False using assms(3) by simp
  qed
  with e show ?thesis by simp
qed

lemma same_string_unique:
  "same_string m s1 p \<Longrightarrow> same_string m s2 p \<Longrightarrow> 0 \<notin> set s1 \<Longrightarrow> 0 \<notin> set s2 \<Longrightarrow> s1 = s2"
  by (metis le_cases same_string_le)

lemma SWAB_MAGIC: "SWAB32 x = MAGIC \<longleftrightarrow> x = MAGIC_SWAB"
proof -
  have "SWAB32 MAGIC = MAGIC_SWAB" by code_simp
  then show ?thesis by (metis SWAB32_SWAB32)
qed

text \<open>The table entries that a lookup reads after the catalogue has been configured.\<close>

lemma i18n_set_mo_entries:
  fixes s
  assumes "p \<noteq> 0" and "word_at be m p = MAGIC"
  defines "s' \<equiv> i18n_set_mo m p s"
  shows "mo_data s' = p" and "mo_count (mo s') = word_at be m (p + 8)"
    and "ENDIAN (mo s') x = (if be then x else SWAB32 x)"
    and "mo_source (mo s') = p + word_at be m (p + 12)" and "mo_target (mo s') = p + word_at be m (p + 16)"
proof -
  have magic: "load32 m p = (if be then MAGIC else MAGIC_SWAB)"
    using assms(2) by (auto simp: word_at_SWAB SWAB_MAGIC split: if_splits)
  have "MAGIC \<noteq> MAGIC_SWAB" by (simp add: MAGIC_def MAGIC_SWAB_def)
  then show "mo_data s' = p" and "mo_count (mo s') = word_at be m (p + 8)"
      and "ENDIAN (mo s') x = (if be then x else SWAB32 x)"
      and "mo_source (mo s') = p + word_at be m (p + 12)" and "mo_target (mo s') = p + word_at be m (p + 16)"
    using assms(1) magic
    by (auto simp: s'_def i18n_set_mo_def Let_def read_mo_hdr_def word_at_SWAB ENDIAN_def)
qed

text \<open>A file that is no catalogue overwrites the header and leaves the data of the old one in place.\<close>

lemma i18n_bad_magic:
  assumes "p \<noteq> 0" "load32 m p \<noteq> MAGIC" "load32 m p \<noteq> MAGIC_SWAB"
  shows "mo_data (i18n_set_mo m p s) = mo_data s" and "mo (i18n_set_mo m p s) = read_mo_hdr m p"
  using assms by (simp_all add: i18n_set_mo_def Let_def read_mo_hdr_def)

lemma mo_find_first:
  assumes "\<And>i. i < length cat \<Longrightarrow> 0 \<notin> set (fst (cat ! i))
      \<and> same_string m (fst (cat ! i)) (mo_data s + ENDIAN (mo s) (load32 m (mo_source (mo s) + 8 * of_nat i + 4)))
      \<and> same_string m (snd (cat ! i)) (mo_data s + ENDIAN (mo s) (load32 m (mo_target (mo s) + 8 * of_nat i + 4)))"
    and "0 \<notin> set str" and "k \<le> length cat"
  shows "case mo_find m s str [k..<length cat] of
      None \<Rightarrow> map_of (drop k cat) str = None
    | Some a \<Rightarrow> \<exists>t. map_of (drop k cat) str = Some t \<and> same_string m t a"
  using assms(3)
proof (induction k rule: inc_induct)
  case (step k)
  let ?p = "mo_data s + ENDIAN (mo s) (load32 m (mo_source (mo s) + 8 * of_nat k + 4))"
  have "same_string m str ?p \<longleftrightarrow> str = fst (cat ! k)"
    using assms(1)[OF step.hyps(2)] assms(2) same_string_unique by blast
  moreover have "drop k cat = cat ! k # drop (Suc k) cat" using step.hyps(2) by (rule Cons_nth_drop_Suc [symmetric])
  moreover have "[k..<length cat] = k # [Suc k..<length cat]" using step.hyps(2) by (rule upt_conv_Cons)
  ultimately show ?case
    using step.IH assms(1)[OF step.hyps(2)] by (cases "cat ! k") (auto split: option.splits)
qed simp

text \<open>
  C34: with a catalogue in either byte order configured, a lookup gives the translation of exactly the strings
  the catalogue has, and of the others the string itself.
\<close>

theorem i18n_translates:
  assumes "mo_catalogue m p be cat" and "0 \<notin> set str"
  shows "case i18n m (i18n_set_mo m p s) str of
      None \<Rightarrow> map_of cat str = None
    | Some a \<Rightarrow> \<exists>t. map_of cat str = Some t \<and> same_string m t a"
proof -
  let ?s = "i18n_set_mo m p s"
  have p: "p \<noteq> 0" "word_at be m p = MAGIC" and count: "unat (word_at be m (p + 8)) = length cat"
    using assms(1) by (auto simp: mo_catalogue_def)
  note entries = i18n_set_mo_entries[OF p, of s]
  have n: "unat (mo_count (mo ?s)) = length cat" by (simp add: entries(2) count)
  have "case mo_find m ?s str [0..<length cat] of None \<Rightarrow> map_of (drop 0 cat) str = None
      | Some a \<Rightarrow> \<exists>t. map_of (drop 0 cat) str = Some t \<and> same_string m t a"
  proof (rule mo_find_first)
    fix i assume "i < length cat"
    then show "0 \<notin> set (fst (cat ! i))
      \<and> same_string m (fst (cat ! i)) (mo_data ?s + ENDIAN (mo ?s) (load32 m (mo_source (mo ?s) + 8 * of_nat i + 4)))
      \<and> same_string m (snd (cat ! i)) (mo_data ?s + ENDIAN (mo ?s) (load32 m (mo_target (mo ?s) + 8 * of_nat i + 4)))"
      using assms(1) unfolding mo_catalogue_def entries word_at_SWAB by (cases "cat ! i") (auto split: if_splits)
  qed (use assms(2) in simp_all)
  then show ?thesis using p(1) unfolding drop_0 by (simp add: i18n_def n entries(1))
qed

text \<open>A little-endian catalogue with one string.\<close>

definition sample_mo :: mem where
  "sample_mo = mem_write (\<lambda>_. 0) 0x100
     [0xde, 0x12, 0x04, 0x95, 0, 0, 0, 0, 1, 0, 0, 0, 28, 0, 0, 0, 36, 0, 0, 0, 0, 0, 0, 0, 0, 0, 0, 0,
      2, 0, 0, 0, 44, 0, 0, 0, 2, 0, 0, 0, 47, 0, 0, 0, 104, 105, 0, 106, 97, 0]"

theorem i18n_translates_witness:
  "case i18n sample_mo (i18n_set_mo sample_mo 0x100 \<lparr>mo = read_mo_hdr sample_mo 0, mo_inited = False, mo_data = 0\<rparr>)
      [104, 105] of
    None \<Rightarrow> False
  | Some a \<Rightarrow> same_string sample_mo [106, 97] a"
proof -
  have "mo_catalogue sample_mo 0x100 False [([104, 105], [106, 97])]" by code_simp
  from i18n_translates[OF this, of "[104, 105]" "\<lparr>mo = read_mo_hdr sample_mo 0, mo_inited = False, mo_data = 0\<rparr>"]
  show ?thesis by (auto split: option.splits)
qed

section \<open>Reading a line\<close>

text \<open>
  \<^verbatim>\<open>fggets\<close>: the size of the buffer, the bytes in it, what is left of the file, and whether the end was reached. The
  result is the buffer with its NUL, cut to size, or \<open>None\<close> for \<^verbatim>\<open>EOF\<close>; \<^verbatim>\<open>pmalloc\<close> does not return without memory.
\<close>

fun fggets_loop :: "nat \<Rightarrow> u8 list \<Rightarrow> u8 list \<Rightarrow> nat \<times> u8 list \<times> u8 list \<times> bool" where
  "fggets_loop cursize buffer [] = (cursize, buffer, [], True)"
| "fggets_loop cursize buffer (ch # f) =
     (if ch = 10 then (cursize, buffer, f, False)
      else fggets_loop (if length buffer \<ge> cursize - 1 then cursize + 128 else cursize) (buffer @ [ch]) f)"

definition fggets :: "u8 list \<Rightarrow> u8 list option \<times> u8 list" where
  "fggets f =
     (case fggets_loop 112 [] f of (cursize, buffer, rest, eof) \<Rightarrow>
        if eof \<and> buffer = [] then (None, rest) else (Some (buffer @ [0]), rest))"

lemma fggets_loop_fits:
  "length buffer < cursize \<Longrightarrow> case fggets_loop cursize buffer f of (size', buffer', _, _) \<Rightarrow> length buffer' < size'"
  by (induction cursize buffer f rule: fggets_loop.induct) auto

lemma fggets_loop_line:
  "case fggets_loop cursize buffer f of (_, buffer', rest, eof) \<Rightarrow>
    buffer' = buffer @ takeWhile (\<lambda>c. c \<noteq> 10) f \<and> (eof \<longrightarrow> rest = [] \<and> 10 \<notin> set f)
    \<and> (\<not> eof \<longrightarrow> f = takeWhile (\<lambda>c. c \<noteq> 10) f @ 10 # rest)"
  by (induction cursize buffer f rule: fggets_loop.induct) (auto split: prod.splits)

text \<open>A line is what comes before the next newline, which is taken with it; the last one may lack it.\<close>

lemma fggets_line:
  "fggets f =
    (if f = [] then (None, [])
     else (Some (takeWhile (\<lambda>c. c \<noteq> 10) f @ [0]), tl (dropWhile (\<lambda>c. c \<noteq> 10) f)))"
proof -
  obtain cs b rest eof where l: "fggets_loop 112 [] f = (cs, b, rest, eof)" by (metis prod_cases4)
  show ?thesis
  proof (cases eof)
    case True
    then have b: "b = takeWhile (\<lambda>c. c \<noteq> 10) f" "rest = []" and no: "10 \<notin> set f"
      using fggets_loop_line[where cursize = 112 and buffer = Nil and f = f] l by auto
    have whole: "takeWhile (\<lambda>c. c \<noteq> 10) f = f" "dropWhile (\<lambda>c. c \<noteq> 10) f = []"
      using no by (auto simp: takeWhile_eq_all_conv)
    show ?thesis using True l by (simp add: fggets_def b whole)
  next
    case False
    then have b: "b = takeWhile (\<lambda>c. c \<noteq> 10) f" and f: "f = takeWhile (\<lambda>c. c \<noteq> 10) f @ 10 # rest"
      using fggets_loop_line[where cursize = 112 and buffer = Nil and f = f] l by auto
    have "dropWhile (\<lambda>c. c \<noteq> 10) f = 10 # rest"
      using f by (metis same_append_eq takeWhile_dropWhile_id)
    then show ?thesis using False l b by (auto simp: fggets_def)
  qed
qed

end
