(* ===== verification/Controls.thy ===== *)
theory Controls
  imports HBC_Prelude
begin

text \<open>
  Remotes and pads, \<^verbatim>\<open>channelapp/source/controls.c\<close>: which remote owns the pointer, the buttons that count, the
  analog sticks, and the calls that make a remote rumble. The button masks of \<^verbatim>\<open>libogc\<close> are a parameter, and so are the
  answers of its scans; a remote that does not answer is \<open>None\<close>.
\<close>

section \<open>Buttons\<close>

datatype pad_button = Pad_A | Pad_B | Pad_X | Pad_Y | Pad_L | Pad_R | Pad_Z | Pad_Start | Pad_Up | Pad_Down | Pad_Left | Pad_Right
datatype wpad_button =
  Wpad_1 | Wpad_2 | Wpad_A | Wpad_B | Wpad_Minus | Wpad_Plus | Wpad_Home | Wpad_Up | Wpad_Down | Wpad_Left | Wpad_Right
datatype nunchuk_button = Nunchuk_Z | Nunchuk_C
datatype classic_button =
    Classic_Left | Classic_Right | Classic_Up | Classic_Down | Classic_A | Classic_B | Classic_X | Classic_Y
  | Classic_Full_L | Classic_Full_R | Classic_Minus | Classic_Plus | Classic_Home | Classic_ZR | Classic_ZL
datatype gh3_button =
    Gh3_Strum_Up | Gh3_Strum_Down | Gh3_Green | Gh3_Red | Gh3_Plus | Gh3_Minus | Gh3_Yellow | Gh3_Blue | Gh3_Orange

record libogc =
  pad_mask :: "pad_button \<Rightarrow> u32"
  wpad_mask :: "wpad_button \<Rightarrow> u32"
  nunchuk_mask :: "nunchuk_button \<Rightarrow> u32"
  classic_mask :: "classic_button \<Rightarrow> u32"
  gh3_mask :: "gh3_button \<Rightarrow> u32"

definition PADW_BUTTON_NET_INIT :: u32 where "PADW_BUTTON_NET_INIT = 0x2000"
definition PADW_BUTTON_SCREENSHOT :: u32 where "PADW_BUTTON_SCREENSHOT = 0x4000"

definition PADS :: "libogc \<Rightarrow> pad_button \<Rightarrow> wpad_button \<Rightarrow> u32" where
  "PADS lo p w = pad_mask lo p OR push_bit 16 (wpad_mask lo w)"

definition PADS_UP :: "libogc \<Rightarrow> u32" where "PADS_UP lo = PADS lo Pad_Up Wpad_Up"
definition PADS_DOWN :: "libogc \<Rightarrow> u32" where "PADS_DOWN lo = PADS lo Pad_Down Wpad_Down"
definition PADS_LEFT :: "libogc \<Rightarrow> u32" where "PADS_LEFT lo = PADS lo Pad_Left Wpad_Left"
definition PADS_RIGHT :: "libogc \<Rightarrow> u32" where "PADS_RIGHT lo = PADS lo Pad_Right Wpad_Right"
definition PADS_NET_INIT :: "libogc \<Rightarrow> u32" where
  "PADS_NET_INIT lo = pad_mask lo Pad_Z OR push_bit 16 PADW_BUTTON_NET_INIT"
definition PADS_SCREENSHOT :: u32 where "PADS_SCREENSHOT = push_bit 16 PADW_BUTTON_SCREENSHOT"
definition PADS_A :: "libogc \<Rightarrow> u32" where "PADS_A lo = PADS lo Pad_A Wpad_A"
definition PADS_B :: "libogc \<Rightarrow> u32" where "PADS_B lo = PADS lo Pad_B Wpad_B"
definition PADS_MINUS :: "libogc \<Rightarrow> u32" where "PADS_MINUS lo = PADS lo Pad_L Wpad_Minus"
definition PADS_PLUS :: "libogc \<Rightarrow> u32" where "PADS_PLUS lo = PADS lo Pad_R Wpad_Plus"
definition PADS_1 :: "libogc \<Rightarrow> u32" where "PADS_1 lo = PADS lo Pad_X Wpad_1"
definition PADS_2 :: "libogc \<Rightarrow> u32" where "PADS_2 lo = PADS lo Pad_Y Wpad_2"
definition PADS_HOME :: "libogc \<Rightarrow> u32" where "PADS_HOME lo = PADS lo Pad_Start Wpad_Home"
definition PADS_DPAD :: "libogc \<Rightarrow> u32" where "PADS_DPAD lo = PADS_UP lo OR PADS_DOWN lo OR PADS_LEFT lo OR PADS_RIGHT lo"

text \<open>
  What is plugged into a remote, with the stick's position and center. \<open>ir_x\<close> and \<open>ir_y\<close> are the coordinates as
  \<^verbatim>\<open>controls_ir\<close> reports them: less 64 and cut off to integers, which the code does in floating point.
\<close>

datatype expansion = Exp_None | Exp_Nunchuk int int | Exp_Classic int int | Exp_Gh3 int int

record wpad_data =
  wd_exp :: expansion
  btns_d :: u32
  btns_h :: u32
  btns_u :: u32
  ir_valid :: bool
  ir_x :: int
  ir_y :: int

definition map_buttons :: "(u32 \<times> u32) list \<Rightarrow> u32 \<Rightarrow> u32" where
  "map_buttons ms btns = fold (\<lambda>(m, t) b. if b AND m \<noteq> 0 then b OR t else b) ms btns"

definition expansion_buttons :: "libogc \<Rightarrow> expansion \<Rightarrow> (u32 \<times> u32) list" where
  "expansion_buttons lo e =
     (case e of
        Exp_None \<Rightarrow> []
      | Exp_Nunchuk _ _ \<Rightarrow>
          [(nunchuk_mask lo Nunchuk_Z, PADW_BUTTON_NET_INIT), (nunchuk_mask lo Nunchuk_C, PADW_BUTTON_SCREENSHOT)]
      | Exp_Classic _ _ \<Rightarrow>
          [(classic_mask lo Classic_Left, wpad_mask lo Wpad_Left), (classic_mask lo Classic_Right, wpad_mask lo Wpad_Right),
           (classic_mask lo Classic_Up, wpad_mask lo Wpad_Up), (classic_mask lo Classic_Down, wpad_mask lo Wpad_Down),
           (classic_mask lo Classic_A, wpad_mask lo Wpad_A), (classic_mask lo Classic_B, wpad_mask lo Wpad_B),
           (classic_mask lo Classic_X, wpad_mask lo Wpad_1), (classic_mask lo Classic_Y, wpad_mask lo Wpad_2),
           (classic_mask lo Classic_Full_L OR classic_mask lo Classic_Minus, wpad_mask lo Wpad_Minus),
           (classic_mask lo Classic_Full_R OR classic_mask lo Classic_Plus, wpad_mask lo Wpad_Plus),
           (classic_mask lo Classic_Home, wpad_mask lo Wpad_Home),
           (classic_mask lo Classic_ZR, PADW_BUTTON_NET_INIT), (classic_mask lo Classic_ZL, PADW_BUTTON_SCREENSHOT)]
      | Exp_Gh3 _ _ \<Rightarrow>
          [(gh3_mask lo Gh3_Strum_Up, wpad_mask lo Wpad_Up), (gh3_mask lo Gh3_Strum_Down, wpad_mask lo Wpad_Down),
           (gh3_mask lo Gh3_Green, wpad_mask lo Wpad_A), (gh3_mask lo Gh3_Red, wpad_mask lo Wpad_B),
           (gh3_mask lo Gh3_Plus, wpad_mask lo Wpad_Plus), (gh3_mask lo Gh3_Minus, wpad_mask lo Wpad_Minus),
           (gh3_mask lo Gh3_Yellow, wpad_mask lo Wpad_Left), (gh3_mask lo Gh3_Blue, wpad_mask lo Wpad_Right),
           (gh3_mask lo Gh3_Orange, wpad_mask lo Wpad_1)])"

definition wpad_button_transform :: "libogc \<Rightarrow> wpad_data \<Rightarrow> u32 \<Rightarrow> u32" where
  "wpad_button_transform lo wd btns =
     push_bit 16
       (map_buttons (expansion_buttons lo (wd_exp wd)) (btns AND NOT PADW_BUTTON_NET_INIT AND NOT PADW_BUTTON_SCREENSHOT)
        AND 0xffff)"

section \<open>The pointer and its owner\<close>

text \<open>The buttons of all sources pressed, held and released.\<close>

type_synonym buttons = "u32 \<times> u32 \<times> u32"

definition or_buttons :: "libogc \<Rightarrow> wpad_data \<Rightarrow> buttons \<Rightarrow> buttons" where
  "or_buttons lo wd b =
     (case b of (d, h, u) \<Rightarrow>
        (d OR wpad_button_transform lo wd (btns_d wd), h OR wpad_button_transform lo wd (btns_h wd),
         u OR wpad_button_transform lo wd (btns_u wd)))"

text \<open>The remotes' state; \<open>rumbles\<close> are the calls of \<^verbatim>\<open>WPAD_Rumble\<close>, the last one first.\<close>

record pads =
  pointer_owner :: "nat option"
  wpads :: "wpad_data option list"
  rumbling :: bool
  rumbles :: "(nat \<times> bool) list"

definition pads_start :: "nat \<Rightarrow> pads" where
  "pads_start n = \<lparr>pointer_owner = None, wpads = replicate n None, rumbling = False, rumbles = []\<rparr>"

definition pointing :: "wpad_data option \<Rightarrow> bool" where
  "pointing w = (case w of None \<Rightarrow> False | Some d \<Rightarrow> ir_valid d)"

definition next_owner :: "wpad_data option list \<Rightarrow> nat option \<Rightarrow> nat option" where
  "next_owner ws owner =
     (let kept = (case owner of None \<Rightarrow> None | Some i \<Rightarrow> if \<not> pointing (ws ! i) then None else Some i)
      in case kept of None \<Rightarrow> find (\<lambda>i. pointing (ws ! i)) [0..<length ws] | Some i \<Rightarrow> Some i)"

definition controls_scan :: "libogc \<Rightarrow> buttons \<Rightarrow> wpad_data option list \<Rightarrow> pads \<Rightarrow> buttons \<times> pads" where
  "controls_scan lo pad ws p =
     (let last = pointer_owner p;
          owner = next_owner ws last;
          b = (case owner of
                 Some i \<Rightarrow> or_buttons lo (the (ws ! i)) pad
               | None \<Rightarrow> fold (\<lambda>w b. case w of None \<Rightarrow> b | Some wd \<Rightarrow> or_buttons lo wd b) ws pad);
          calls = (case last of
                     None \<Rightarrow> []
                   | Some l \<Rightarrow>
                       if last \<noteq> owner \<and> rumbling p
                       then (case owner of None \<Rightarrow> [] | Some o1 \<Rightarrow> [(o1, True)]) @ [(l, False)] else [])
      in (b, p\<lparr>pointer_owner := owner, wpads := ws, rumbles := calls @ rumbles p\<rparr>))"

definition controls_ir :: "pads \<Rightarrow> (int \<times> int) option" where
  "controls_ir p =
     (case pointer_owner p of
        None \<Rightarrow> None
      | Some i \<Rightarrow>
          (case wpads p ! i of
             None \<Rightarrow> None
           | Some wd \<Rightarrow> if ir_valid wd then Some (ir_x wd, ir_y wd) else None))"

definition controls_rumble :: "bool \<Rightarrow> pads \<Rightarrow> pads" where
  "controls_rumble on p =
     p\<lparr>rumbling := on, rumbles := (case pointer_owner p of None \<Rightarrow> [] | Some i \<Rightarrow> [(i, on)]) @ rumbles p\<rparr>"

section \<open>Sticks\<close>

definition wpad_sticky :: "wpad_data option \<Rightarrow> int" where
  "wpad_sticky w =
     (case w of
        None \<Rightarrow> 0
      | Some wd \<Rightarrow>
          (case wd_exp wd of
             Exp_None \<Rightarrow> 0 | Exp_Nunchuk p c \<Rightarrow> p - c | Exp_Classic p c \<Rightarrow> (p - c) * 4 | Exp_Gh3 p c \<Rightarrow> (p - c) * 4))"

definition DEADZONE :: int where "DEADZONE = 10"

definition deadzone :: "int \<Rightarrow> int" where
  "deadzone v = (if v > DEADZONE then v - DEADZONE else if v < - DEADZONE then v + DEADZONE else 0)"

definition controls_sticky :: "int \<Rightarrow> pads \<Rightarrow> int" where
  "controls_sticky pad p =
     deadzone pad + (case pointer_owner p of
        Some i \<Rightarrow> deadzone (wpad_sticky (wpads p ! i))
      | None \<Rightarrow> sum_list (map (\<lambda>w. deadzone (wpad_sticky w)) (wpads p)))"

text \<open>What \<^verbatim>\<open>view.c\<close> gets from a scan: buttons and the pointer, and the masks to test them with.\<close>

record controls =
  c_lo :: libogc
  c_down :: u32
  c_held :: u32
  c_up :: u32
  c_ir :: bool
  c_x :: int
  c_y :: int

text \<open>\<open>x0\<close> and \<open>y0\<close> are what is in the caller's variables, which keep it when there is no pointer.\<close>

definition scan :: "libogc \<Rightarrow> buttons \<Rightarrow> wpad_data option list \<Rightarrow> int \<Rightarrow> int \<Rightarrow> pads \<Rightarrow> controls \<times> pads" where
  "scan lo pad ws x0 y0 p =
     (case controls_scan lo pad ws p of
        ((d, h, u), p1) \<Rightarrow>
          (\<lparr>c_lo = lo, c_down = d, c_held = h, c_up = u, c_ir = controls_ir p1 \<noteq> None,
             c_x = (case controls_ir p1 of None \<Rightarrow> x0 | Some (x, y) \<Rightarrow> x),
             c_y = (case controls_ir p1 of None \<Rightarrow> y0 | Some (x, y) \<Rightarrow> y)\<rparr>, p1))"

section \<open>Who rumbles\<close>

text \<open>The motor of a remote is as the last call for it left it.\<close>

definition motor :: "(nat \<times> bool) list \<Rightarrow> nat \<Rightarrow> bool" where
  "motor calls i = (case find (\<lambda>c. fst c = i) calls of None \<Rightarrow> False | Some c \<Rightarrow> snd c)"

lemma motor_simps [simp]:
  "motor [] i = False" "motor ((j, on) # calls) i = (if j = i then on else motor calls i)"
  by (auto simp: motor_def)

lemma next_owner_pointing:
  "next_owner ws owner = Some i \<Longrightarrow> pointing (ws ! i)"
  by (auto simp: next_owner_def Let_def find_Some_iff split: option.splits if_splits)

text \<open>The owner keeps the pointer while it points; then the first remote that points gets it.\<close>

lemma next_owner_keeps: "pointing (ws ! j) \<Longrightarrow> next_owner ws (Some j) = Some j"
  by (simp add: next_owner_def)

lemma next_owner_first:
  assumes "\<And>j. owner = Some j \<Longrightarrow> \<not> pointing (ws ! j)"
  shows "next_owner ws owner = Some i \<longleftrightarrow> i < length ws \<and> pointing (ws ! i) \<and> (\<forall>j < i. \<not> pointing (ws ! j))"
proof -
  have "next_owner ws owner = find (\<lambda>i. pointing (ws ! i)) [0..<length ws]"
    using assms by (simp add: next_owner_def split: option.split)
  then show ?thesis by (auto simp: find_Some_iff)
qed

text \<open>The scans and rumble requests of a session, with the answers of any remotes.\<close>

inductive pads_reach :: "libogc \<Rightarrow> nat \<Rightarrow> pads \<Rightarrow> bool" for lo n where
  start: "pads_reach lo n (pads_start n)"
| scan: "pads_reach lo n p \<Longrightarrow> length ws = n \<Longrightarrow> pads_reach lo n (snd (controls_scan lo pad ws p))"
| rumble: "pads_reach lo n p \<Longrightarrow> pads_reach lo n (controls_rumble on p)"

lemma pads_reach_rumble:
  "pads_reach lo n p \<Longrightarrow> (\<forall>i. motor (rumbles p) i \<longrightarrow> pointer_owner p = Some i \<and> rumbling p)
    \<and> length (wpads p) = n \<and> (\<forall>i. pointer_owner p = Some i \<longrightarrow> pointing (wpads p ! i))"
proof (induction rule: pads_reach.induct)
  case (scan p ws pad)
  then show ?case
    by (auto simp: controls_scan_def Let_def next_owner_pointing split: option.splits if_splits)
qed (auto simp: pads_start_def controls_rumble_def split: option.splits if_splits)

lemma transform_high:
  "n < 16 \<Longrightarrow> \<not> bit (wpad_button_transform lo wd btns) n"
  unfolding wpad_button_transform_def bit_push_bit_iff by simp

section \<open>Correctness\<close>

text \<open>
  C35: a remote rumbles only while it owns the pointer and a rumble was asked for, whatever remotes appear, vanish
  or stop pointing between the scans; and whoever owns the pointer after a scan points.
\<close>

theorem rumble_only_owner:
  assumes "pads_reach lo n p"
  shows "(\<forall>i. motor (rumbles p) i \<longrightarrow> pointer_owner p = Some i \<and> rumbling p)
    \<and> (\<forall>i. pointer_owner p = Some i \<longrightarrow> pointing (wpads p ! i))"
  using pads_reach_rumble[OF assms] by blast

definition two_remotes :: "bool \<Rightarrow> bool \<Rightarrow> wpad_data option list" where
  "two_remotes a b = map (\<lambda>v. Some \<lparr>wd_exp = Exp_None, btns_d = 0, btns_h = 0, btns_u = 0, ir_valid = v, ir_x = 0, ir_y = 0\<rparr>) [a, b]"

definition handed_over :: "libogc \<Rightarrow> pads" where
  "handed_over lo = snd (controls_scan lo (0, 0, 0) (two_remotes False True)
     (controls_rumble True (snd (controls_scan lo (0, 0, 0) (two_remotes True True) (pads_start 2)))))"

theorem rumble_only_owner_witness:
  "\<forall>lo. motor (rumbles (handed_over lo)) 1 \<and> \<not> motor (rumbles (handed_over lo)) 0"
proof
  fix lo
  have "pads_reach lo 2 (handed_over lo)"
    unfolding handed_over_def
    by (intro pads_reach.intros) (simp_all add: two_remotes_def)
  then have o: "\<forall>i. motor (rumbles (handed_over lo)) i \<longrightarrow> pointer_owner (handed_over lo) = Some i"
    using rumble_only_owner by blast
  have first: "next_owner (two_remotes True True) None = Some 0" "next_owner (two_remotes False True) (Some 0) = Some 1"
    by (simp_all add: next_owner_def two_remotes_def pointing_def upt_rec)
  then have "rumbles (handed_over lo) = [(1, True), (0, False), (0, True)]" "pointer_owner (handed_over lo) = Some 1"
    by (simp_all add: handed_over_def controls_scan_def controls_rumble_def pads_start_def Let_def)
  with o show "motor (rumbles (handed_over lo)) 1 \<and> \<not> motor (rumbles (handed_over lo)) 0" by auto
qed

end
