(* ===== verification/View.thy ===== *)
theory View
  imports Controls
begin

text \<open>
  Views and widgets, \<^verbatim>\<open>channelapp/source/widgets.c\<close> and \<^verbatim>\<open>view.c\<close>: flags and layers of a widget, the focus and the
  pointer of a view, and what a frame draws. What is drawn is a list of commands over the entities of the theme,
  a parameter \<open>'e\<close>; a text is one command, not the entries of its characters, which \<^verbatim>\<open>font.c\<close> computes.
  Coordinates are integers with the casts of the code. A view's widgets are a list; its count is a \<^verbatim>\<open>u8\<close>.
\<close>

section \<open>Widgets\<close>

datatype widget_type = WT_LABEL | WT_IMAGE | WT_BUTTON | WT_APP_ENTRY | WT_PROGRESS | WT_GRADIENT | WT_MEMO
datatype cursor_type = CUR_STD | CUR_DRAG | CUR_EGG

definition WF_VISIBLE :: u32 where "WF_VISIBLE = 1"
definition WF_ENABLED :: u32 where "WF_ENABLED = 2"
definition WF_FOCUSABLE :: u32 where "WF_FOCUSABLE = 4"
definition WF_RUMBLE :: u32 where "WF_RUMBLE = 8"
definition WF_CURSOR :: u32 where "WF_CURSOR = 32"
definition WF_FOCUSED :: u32 where "WF_FOCUSED = 64"
definition WF_FLAGS_MASK :: u32 where "WF_FLAGS_MASK = 0xff"
definition WF_FLAGS_AND :: u32 where "WF_FLAGS_AND = 256"

lemmas WF_defs = WF_VISIBLE_def WF_ENABLED_def WF_FOCUSABLE_def WF_RUMBLE_def WF_CURSOR_def WF_FOCUSED_def
  WF_FLAGS_MASK_def WF_FLAGS_AND_def

definition FOCUS_FLAGS :: u32 where "FOCUS_FLAGS = WF_VISIBLE OR WF_ENABLED OR WF_FOCUSABLE"
definition CURSOR_FLAGS :: u32 where "CURSOR_FLAGS = WF_VISIBLE OR WF_ENABLED"

text \<open>An entity of the theme with its size; the drawing commands of a layer.\<close>

record 'e entity =
  en_id :: 'e
  en_w :: int
  en_h :: int

datatype 'e draw =
    Draw_Entity 'e int int int u32
  | Draw_Text string int int int int
  | Draw_Gradient int int int int u32 u32 u32 u32
  | Draw_Scissor int int int int int
  | Draw_Scissor_Reset
  | Draw_Null

record 'e widget_layer =
  l_flags :: u32
  l_flags_invert :: u32
  l_gfx :: "'e draw list"

record 'e widget =
  w_type :: widget_type
  w_flags :: u32
  w_width :: int
  w_height :: int
  w_cur :: cursor_type
  w_x :: int
  w_y :: int
  w_z :: int
  w_layers :: "'e widget_layer list"
  w_y_min :: int
  w_y_max :: int

definition s8 :: "int \<Rightarrow> int" where "s8 i = signed_take_bit 7 i"
definition s16 :: "int \<Rightarrow> int" where "s16 i = signed_take_bit 15 i"

text \<open>\<^verbatim>\<open>widget_free\<close> leaves a widget of zeros.\<close>

definition no_widget :: "'e widget" where
  "no_widget = \<lparr>w_type = WT_LABEL, w_flags = 0, w_width = 0, w_height = 0, w_cur = CUR_STD, w_x = 0, w_y = 0, w_z = 0,
     w_layers = [], w_y_min = 0, w_y_max = 0\<rparr>"

definition widget_free :: "'e widget \<Rightarrow> 'e widget" where
  "widget_free w = no_widget"

definition widget_set_flag :: "u32 \<Rightarrow> bool \<Rightarrow> 'e widget \<Rightarrow> 'e widget" where
  "widget_set_flag flag on w =
     (if on then w\<lparr>w_flags := w_flags w OR flag\<rparr> else w\<lparr>w_flags := w_flags w AND NOT flag\<rparr>)"

definition widget_toggle_flag :: "u32 \<Rightarrow> 'e widget \<Rightarrow> 'e widget" where
  "widget_toggle_flag flag w = widget_set_flag flag (w_flags w AND flag = 0) w"

definition widget_scroll_memo :: "int \<Rightarrow> 'e widget \<Rightarrow> bool \<times> 'e widget" where
  "widget_scroll_memo modifier w =
     (let y0 = s16 (w_y w + modifier);
          y1 = (if y0 < w_y_min w then w_y_min w else y0);
          y = (if y1 > w_y_max w then w_y_max w else y1)
      in if w_y w = y then (False, w) else (True, w\<lparr>w_y := y\<rparr>))"

text \<open>A memo with its two arrows, at \<open>i\<close>, \<open>i + 1\<close> and \<open>i + 2\<close>.\<close>

definition widget_scroll_memo_deco :: "nat \<Rightarrow> int \<Rightarrow> 'e widget list \<Rightarrow> bool \<times> 'e widget list" where
  "widget_scroll_memo_deco i modifier ws =
     (case widget_scroll_memo modifier (ws ! (i + 1)) of
        (res, memo) \<Rightarrow>
          (res, ws[i + 1 := memo,
                   i := widget_set_flag WF_VISIBLE (w_y memo < w_y_max memo) (ws ! i),
                   i + 2 := widget_set_flag WF_VISIBLE (w_y memo > w_y_min memo) (ws ! (i + 2))]))"

definition TEX_LAYER_WIDGETS :: int where "TEX_LAYER_WIDGETS = 2"
definition COL_DEFAULT :: u32 where "COL_DEFAULT = 0xffffffff"
definition WIDGET_DISABLED_COLOR :: u32 where "WIDGET_DISABLED_COLOR = 0xFFFFFF54"

definition widget_init ::
  "widget_type \<Rightarrow> bool \<Rightarrow> int \<Rightarrow> int \<Rightarrow> int \<Rightarrow> int \<Rightarrow> int \<Rightarrow> 'e widget_layer list \<Rightarrow> 'e widget \<Rightarrow> 'e widget" where
  "widget_init type focusable x y z width height layers w =
     w\<lparr>w_type := type,
       w_flags := (if focusable then WF_VISIBLE OR WF_ENABLED OR WF_FOCUSABLE else WF_VISIBLE OR WF_ENABLED),
       w_width := width, w_height := height, w_cur := CUR_STD,
       w_x := x, w_y := y, w_z := TEX_LAYER_WIDGETS + z, w_layers := layers\<rparr>"

definition draw_entity :: "'e entity \<Rightarrow> int \<Rightarrow> u32 \<Rightarrow> 'e draw list" where
  "draw_entity e layer colour = [Draw_Entity (en_id e) 0 0 layer colour]"

definition widget_image ::
  "int \<Rightarrow> int \<Rightarrow> int \<Rightarrow> 'e entity \<Rightarrow> 'e entity option \<Rightarrow> bool \<Rightarrow> 'e entity option \<Rightarrow> 'e widget \<Rightarrow> 'e widget" where
  "widget_image x y z img image_disabled rumble image_cursor w0 =
     (let layers =
        [(if image_cursor \<noteq> None
          then \<lparr>l_flags = WF_ENABLED OR WF_FLAGS_AND OR WF_CURSOR, l_flags_invert = WF_CURSOR, l_gfx = draw_entity img 0 COL_DEFAULT\<rparr>
          else \<lparr>l_flags = WF_ENABLED, l_flags_invert = 0, l_gfx = draw_entity img 0 COL_DEFAULT\<rparr>)]
        @ (case image_disabled of None \<Rightarrow> []
           | Some e \<Rightarrow> [\<lparr>l_flags = WF_ENABLED, l_flags_invert = WF_ENABLED, l_gfx = draw_entity e 1 COL_DEFAULT\<rparr>])
        @ (case image_cursor of None \<Rightarrow> []
           | Some e \<Rightarrow> [\<lparr>l_flags = WF_ENABLED OR WF_FLAGS_AND OR WF_CURSOR, l_flags_invert = 0, l_gfx = draw_entity e 2 COL_DEFAULT\<rparr>]);
          w = widget_init WT_IMAGE False x y z (en_w img) (en_h img) layers w0
      in if rumble then w\<lparr>w_flags := w_flags w OR WF_RUMBLE\<rparr> else w)"

text \<open>The three backgrounds of a button or an entry: normal, disabled, focused.\<close>

definition background_layers :: "'e entity \<Rightarrow> 'e entity \<Rightarrow> 'e widget_layer list" where
  "background_layers tex tex_focus =
     [\<lparr>l_flags = WF_FOCUSED OR WF_FLAGS_AND OR WF_ENABLED, l_flags_invert = WF_FOCUSED, l_gfx = draw_entity tex 0 COL_DEFAULT\<rparr>,
      \<lparr>l_flags = WF_ENABLED, l_flags_invert = WF_ENABLED, l_gfx = draw_entity tex 0 WIDGET_DISABLED_COLOR\<rparr>,
      \<lparr>l_flags = WF_FOCUSED OR WF_FLAGS_AND OR WF_ENABLED, l_flags_invert = 0, l_gfx = draw_entity tex_focus 0 COL_DEFAULT\<rparr>]"

definition widget_button_set_caption :: "int \<Rightarrow> int \<Rightarrow> string option \<Rightarrow> 'e widget \<Rightarrow> 'e widget" where
  "widget_button_set_caption bw bh caption w =
     w\<lparr>w_layers := (w_layers w)[3 := (w_layers w ! 3)\<lparr>l_gfx :=
        (case caption of None \<Rightarrow> [] | Some c \<Rightarrow> [Draw_Text c 16 (bh div 2) 1 (bw - 32)])\<rparr>]\<rparr>"

definition widget_button ::
  "int \<Rightarrow> int \<Rightarrow> int \<Rightarrow> 'e entity \<Rightarrow> 'e entity \<Rightarrow> string option \<Rightarrow> 'e widget \<Rightarrow> 'e widget" where
  "widget_button x y z tex tex_focus caption w0 =
     (let layers = background_layers tex tex_focus @ [\<lparr>l_flags = 0, l_flags_invert = 0, l_gfx = []\<rparr>];
          w = widget_init WT_BUTTON True x y z (en_w tex) (en_h tex) layers w0
      in widget_button_set_caption (en_w tex) (en_h tex) caption (w\<lparr>w_flags := w_flags w OR WF_RUMBLE\<rparr>))"

text \<open>An application: its icon, its name and description, or the directory and the default text.\<close>

record 'e app_entry =
  ae_dirname :: string
  ae_icon :: "'e option"
  ae_name :: "string option"
  ae_description :: "string option"

definition widget_grid_app_entry ::
  "int \<Rightarrow> int \<Rightarrow> int \<Rightarrow> 'e entity \<Rightarrow> 'e entity \<Rightarrow> 'e app_entry \<Rightarrow> 'e widget \<Rightarrow> 'e widget" where
  "widget_grid_app_entry x y z tex tex_focus entry w0 =
     (let layers = background_layers tex tex_focus
            @ (case ae_icon entry of None \<Rightarrow> []
               | Some e \<Rightarrow> [\<lparr>l_flags = 0, l_flags_invert = 0, l_gfx = [Draw_Entity e 8 8 1 COL_DEFAULT]\<rparr>]);
          w = widget_init WT_APP_ENTRY True x y z (en_w tex) (en_h tex) layers w0
      in w\<lparr>w_flags := w_flags w OR WF_RUMBLE\<rparr>)"

definition widget_app_entry ::
  "int \<Rightarrow> int \<Rightarrow> int \<Rightarrow> 'e entity \<Rightarrow> 'e entity \<Rightarrow> string \<Rightarrow> 'e app_entry \<Rightarrow> 'e widget \<Rightarrow> 'e widget" where
  "widget_app_entry x y z tex tex_focus default_description entry w0 =
     (let line1 = (case ae_name entry of None \<Rightarrow> ae_dirname entry | Some n \<Rightarrow> n);
          line2 = (case ae_description entry of None \<Rightarrow> default_description | Some d \<Rightarrow> d);
          layers = background_layers tex tex_focus
            @ [\<lparr>l_flags = 0, l_flags_invert = 0,
                l_gfx = [Draw_Text line1 156 8 1 (en_w tex - 156 - 16), Draw_Text line2 156 54 1 (en_w tex - 156 - 16)]
                  @ (case ae_icon entry of None \<Rightarrow> [] | Some e \<Rightarrow> [Draw_Entity e 8 8 1 COL_DEFAULT])\<rparr>];
          w = widget_init WT_APP_ENTRY True x y z (en_w tex) (en_h tex) layers w0
      in w\<lparr>w_flags := w_flags w OR WF_RUMBLE\<rparr>)"

text \<open>A gradient that fills the screen, queued at the origin, and its fading: the sums are those of \<^verbatim>\<open>u32\<close>, whatever the sign of the modifier.\<close>

definition gfx_gen_gradient :: "int \<Rightarrow> int \<Rightarrow> u32 \<Rightarrow> u32 \<Rightarrow> u32 \<Rightarrow> u32 \<Rightarrow> 'e draw" where
  "gfx_gen_gradient w h c1 c2 c3 c4 = Draw_Gradient 0 0 w h c1 c2 c3 c4"

definition widget_gradient ::
  "int \<Rightarrow> int \<Rightarrow> int \<Rightarrow> int \<Rightarrow> int \<Rightarrow> u32 \<Rightarrow> u32 \<Rightarrow> u32 \<Rightarrow> u32 \<Rightarrow> 'e widget \<Rightarrow> 'e widget" where
  "widget_gradient x y z width height c1 c2 c3 c4 w =
     widget_init WT_GRADIENT False x y z 0 0
       [\<lparr>l_flags = 0, l_flags_invert = 0, l_gfx = [gfx_gen_gradient width height c1 c2 c3 c4]\<rparr>] w"

definition CCLAMP :: "u32 \<Rightarrow> u32" where
  "CCLAMP x = (if x > 255 then 255 else if x < 0 then 0 else x)"

definition fade_draw :: "int \<Rightarrow> 'e draw \<Rightarrow> 'e draw" where
  "fade_draw m d =
     (case d of
        Draw_Gradient x y w h c1 c2 c3 c4 \<Rightarrow>
          Draw_Gradient x y w h (CCLAMP (c1 + word_of_int m)) (CCLAMP (c2 + word_of_int m)) (CCLAMP (c3 + word_of_int m))
            (CCLAMP (c4 + word_of_int m))
      | _ \<Rightarrow> d)"

definition widget_fade_gradient :: "int \<Rightarrow> 'e widget \<Rightarrow> 'e widget" where
  "widget_fade_gradient m w =
     w\<lparr>w_layers := (w_layers w)[0 := (w_layers w ! 0)\<lparr>l_gfx := (l_gfx (w_layers w ! 0))[0 := fade_draw m (l_gfx (w_layers w ! 0) ! 0)]\<rparr>]\<rparr>"

section \<open>Views\<close>

record 'e view =
  v_x :: int
  v_y :: int
  v_z :: int
  v_widgets :: "'e widget list"
  v_focus :: int
  v_cursor :: int
  v_drag :: bool
  v_drag_widget :: int
  v_drag_btn :: u32
  v_drag_start_x :: int
  v_drag_start_y :: int
  v_drag_x :: int
  v_drag_y :: int

definition view_new :: "nat \<Rightarrow> int \<Rightarrow> int \<Rightarrow> int \<Rightarrow> u32 \<Rightarrow> 'e view" where
  "view_new widget_count x y z drag_btn =
     \<lparr>v_x = x, v_y = y, v_z = z, v_widgets = replicate widget_count no_widget, v_focus = - 1, v_cursor = - 1,
      v_drag = False, v_drag_widget = 0, v_drag_btn = drag_btn, v_drag_start_x = 0, v_drag_start_y = 0,
      v_drag_x = 0, v_drag_y = 0\<rparr>"

definition at_widget :: "int \<Rightarrow> ('e widget \<Rightarrow> 'e widget) \<Rightarrow> 'e view \<Rightarrow> 'e view" where
  "at_widget i f v = v\<lparr>v_widgets := (v_widgets v)[nat i := f (v_widgets v ! nat i)]\<rparr>"

definition view_set_focus :: "int \<Rightarrow> 'e view \<Rightarrow> 'e view" where
  "view_set_focus new_focus v =
     (let v1 = (if v_focus v \<noteq> - 1 then at_widget (v_focus v) (widget_set_flag WF_FOCUSED False) v else v);
          v2 = v1\<lparr>v_focus := s8 new_focus\<rparr>
      in if v_focus v2 \<noteq> - 1 then at_widget (v_focus v2) (widget_set_flag WF_FOCUSED True) v2 else v2)"

definition focusable :: "'e widget \<Rightarrow> bool" where
  "focusable w \<longleftrightarrow> w_flags w AND FOCUS_FLAGS = FOCUS_FLAGS"

text \<open>The first of the positions that can have the focus gets it.\<close>

fun focus_first :: "nat list \<Rightarrow> 'e view \<Rightarrow> 'e view" where
  "focus_first [] v = v"
| "focus_first (i # is) v =
     (if focusable (v_widgets v ! i) then view_set_focus (int i) v else focus_first is v)"

definition view_set_focus_prev :: "'e view \<Rightarrow> 'e view" where
  "view_set_focus_prev v =
     (if v_focus v < 1 then v else focus_first (rev [0..<nat (v_focus v)]) v)"

definition view_set_focus_next :: "'e view \<Rightarrow> 'e view" where
  "view_set_focus_next v =
     (if v_focus v = int (length (v_widgets v)) - 1 then v
      else focus_first [nat (v_focus v + 1)..<length (v_widgets v)] v)"

definition view_move_focus :: "int \<Rightarrow> 'e view \<Rightarrow> 'e view" where
  "view_move_focus m v =
     (if v_focus v + m < 1 then v
      else if v_focus v + m > int (length (v_widgets v)) - 1 then v
      else if focusable (v_widgets v ! nat (v_focus v + m)) then view_set_focus (v_focus v + m) v
      else v)"

text \<open>The last widget under a point. A memo is scrolled by its \<open>y\<close>, its top is \<open>y_max\<close>.\<close>

definition widget_hit :: "int \<Rightarrow> int \<Rightarrow> 'e widget \<Rightarrow> bool" where
  "widget_hit x y w =
     (let wx = s16 (w_x w); wy = (if w_type w = WT_MEMO then w_y_max w else s16 (w_y w))
      in w_width w \<noteq> 0 \<and> w_height w \<noteq> 0 \<and> x \<ge> wx \<and> y \<ge> wy \<and> x \<le> wx + w_width w \<and> y \<le> wy + w_height w)"

primrec widget_at :: "'e widget list \<Rightarrow> nat \<Rightarrow> int \<Rightarrow> int \<Rightarrow> int" where
  "widget_at ws 0 x y = - 1"
| "widget_at ws (Suc i) x y = (if widget_hit x y (ws ! i) then s8 (int i) else widget_at ws i x y)"

definition view_widget_at_xy :: "'e view \<Rightarrow> int \<Rightarrow> int \<Rightarrow> int" where
  "view_widget_at_xy v x y = widget_at (v_widgets v) (length (v_widgets v)) x y"

section \<open>Input\<close>

record screen =
  cursor_enabled :: bool
  rumble_enabled :: bool
  throbber_enabled :: bool
  rumble_timeout :: int
  fading :: bool
  viewing :: bool
  view_bubbles :: bool
  view_fakelogo :: bool
  egg :: bool

definition RUMBLE_TIME :: int where "RUMBLE_TIME = 3"
definition RUMBLE_DELAY :: int where "RUMBLE_DELAY = 12"

definition view_widget_at_ir :: "screen \<Rightarrow> controls \<Rightarrow> 'e view \<Rightarrow> int" where
  "view_widget_at_ir sc c v =
     (if \<not> cursor_enabled sc \<or> \<not> c_ir c then - 1 else view_widget_at_xy v (c_x c - v_x v) (c_y c - v_y v))"

section \<open>Frames\<close>

datatype 'e command =
    Background | Bubbles bool int int | Logo | Score | Throbber | Cursor cursor_type int int
  | Shade u32 int | Origin int int int | Origin_Pop | Entries "'e draw list"

definition layer_drawn :: "'e widget \<Rightarrow> 'e widget_layer \<Rightarrow> bool" where
  "layer_drawn w l =
     (l_flags l = 0 \<or>
      (let f = (w_flags w XOR l_flags_invert l) AND l_flags l AND WF_FLAGS_MASK
       in f \<noteq> 0 \<and> \<not> (l_flags l AND WF_FLAGS_AND \<noteq> 0 \<and> f \<noteq> l_flags l AND WF_FLAGS_MASK)))"

definition push_widget :: "'e widget \<Rightarrow> 'e command list" where
  "push_widget w =
     (if w_flags w AND WF_VISIBLE \<noteq> 0
      then [Origin (w_x w) (w_y w) (w_z w)]
        @ map (\<lambda>l. Entries (l_gfx l)) (filter (layer_drawn w) (w_layers w)) @ [Origin_Pop]
      else [])"

text \<open>The views below a dialog are drawn first, each shaded by the one above it; the list has the topmost first.\<close>

fun view_push_view :: "'e view list \<Rightarrow> u32 \<Rightarrow> 'e command list" where
  "view_push_view [] alpha = []"
| "view_push_view (v # below) alpha =
     (if below = [] then [] else view_push_view below 0 @ [Shade alpha (v_z v - 1)])
     @ [Origin (v_x v) (v_y v) (v_z v)] @ concat (map push_widget (v_widgets v)) @ [Origin_Pop]"

definition plot_drag :: "int \<Rightarrow> controls \<Rightarrow> 'e view \<Rightarrow> 'e view \<times> cursor_type" where
  "plot_drag w c v =
     (if v_drag_btn v = 0 then (v, CUR_STD)
      else
        let v1 = (if c_up c AND v_drag_btn v \<noteq> 0 then v\<lparr>v_drag := False\<rparr> else v);
            v2 = (if w \<noteq> - 1 \<and> c_down c AND v_drag_btn v \<noteq> 0
                  then v1\<lparr>v_drag := True, v_drag_widget := w, v_drag_start_x := c_x c, v_drag_start_y := c_y c\<rparr> else v1)
        in if v_drag v2 \<and> c_held c AND v_drag_btn v \<noteq> 0
           then (v2\<lparr>v_drag_x := c_x c - v_drag_start_x v2, v_drag_y := c_y c - v_drag_start_y v2\<rparr>,
                 w_cur (v_widgets v2 ! nat (v_drag_widget v2)))
           else (v2, CUR_STD))"

text \<open>The pointer's highlight and the focus that follows it; whether the remote starts to rumble.\<close>

definition plot_pointer :: "screen \<Rightarrow> bool \<Rightarrow> int \<Rightarrow> cursor_type \<Rightarrow> 'e view \<Rightarrow> 'e view \<times> bool" where
  "plot_pointer sc wm w ct v =
     (let old = v_cursor v;
          v1 = (if old \<noteq> - 1 then (at_widget old (widget_set_flag WF_CURSOR False) v)\<lparr>v_cursor := - 1\<rparr> else v)
      in if \<not> wm then (v1, False)
         else
           let v2 = view_set_focus (- 1) v1
           in if w = - 1 then (v2, False)
              else
                let hot = (w_flags (v_widgets v2 ! nat w) AND CURSOR_FLAGS = CURSOR_FLAGS);
                    v3 = (if hot then (at_widget w (widget_set_flag WF_CURSOR True) v2)\<lparr>v_cursor := w\<rparr> else v2);
                    start = (hot \<and> rumble_enabled sc \<and> old \<noteq> w \<and> ct \<noteq> CUR_DRAG
                      \<and> w_flags (v_widgets v3 ! nat w) AND WF_RUMBLE \<noteq> 0 \<and> rumble_timeout sc = - RUMBLE_DELAY)
                in (if focusable (v_widgets v3 ! nat w) then view_set_focus w v3 else v3, start))"

record 'e frame =
  fr_view :: "'e view"
  fr_screen :: screen
  fr_draws :: "'e command list"
  fr_rumble :: "bool list"
  fr_screenshot :: bool

definition view_plot :: "screen \<Rightarrow> controls \<Rightarrow> u32 \<Rightarrow> 'e view list \<Rightarrow> 'e view \<Rightarrow> 'e frame" where
  "view_plot sc0 c alpha below v0 =
     (let w = view_widget_at_xy v0 (c_x c - v_x v0) (c_y c - v_y v0);
          sc = (if c_held c AND push_bit 16 (wpad_mask (c_lo c) Wpad_2) \<noteq> 0 \<and> c_down c AND push_bit 16 (wpad_mask (c_lo c) Wpad_1) \<noteq> 0 \<and> \<not> fading sc0
                then sc0\<lparr>viewing := \<not> viewing sc0\<rparr> else sc0);
          wm = (if viewing sc then c_ir c \<and> cursor_enabled sc else c_ir c);
          (v1, ct) = (if viewing sc then plot_drag w c v0 else (v0, CUR_STD));
          (v, start) = (if viewing sc then plot_pointer sc wm w ct v1 else (v1, False));
          ct1 = (if w \<noteq> - 1 \<and> ct \<noteq> CUR_DRAG then w_cur (v_widgets v ! nat w) else ct);
          ct2 = (if egg sc \<and> ct1 = CUR_STD then CUR_EGG else ct1);
          t0 = (if start then RUMBLE_TIME else rumble_timeout sc);
          t = (if t0 > - RUMBLE_DELAY then t0 - 1 else t0)
      in \<lparr>fr_view = v, fr_screen = sc\<lparr>rumble_timeout := t\<rparr>,
          fr_draws = [Background] @ (if view_bubbles sc then [Bubbles wm (c_x c) (c_y c)] else [])
            @ (if view_fakelogo sc then [Logo] else []) @ (if viewing sc then [] else [Score])
            @ (if viewing sc \<or> fading sc then view_push_view (v # below) alpha else [])
            @ (if throbber_enabled sc then [Throbber] else []) @ (if wm then [Cursor ct2 (c_x c) (c_y c)] else []),
          fr_rumble = (if start then [True] else []) @ (if t < 1 then [False] else []),
          fr_screenshot = (c_held c AND PADS_NET_INIT (c_lo c) \<noteq> 0 \<and> c_down c AND PADS_SCREENSHOT \<noteq> 0)\<rparr>)"

text \<open>The screen fades over the views \<open>vs\<close>, the topmost first; the frames drawn are collected.\<close>

definition view_fade ::
  "int \<Rightarrow> int \<Rightarrow> (nat \<Rightarrow> controls) \<Rightarrow> 'e view list \<Rightarrow> int \<Rightarrow> u32 \<Rightarrow> u32 \<Rightarrow> u32 \<Rightarrow> u32 \<Rightarrow> nat \<Rightarrow> int \<Rightarrow> screen
     \<Rightarrow> screen \<times> 'e command list list" where
  "view_fade view_width view_height ctl vs z c1 c2 c3 c4 steps m sc =
     (let below = (if viewing sc then vs else []);
          sc1 = (if viewing sc then sc else sc\<lparr>fading := True\<rparr>);
          w = widget_gradient (- 32) (- 32) z (view_width + 64) (view_height + 64) c1 c2 c3 c4 no_widget;
          (vf, sc2, fs) =
            fold (\<lambda>i (vf, sc, fs).
                    let fr = view_plot sc (ctl i) 0 below (at_widget 0 (widget_fade_gradient m) vf)
                    in (fr_view fr, fr_screen fr, fs @ [fr_draws fr]))
              [0..<steps] ((view_new 1 0 0 0 0)\<lparr>v_widgets := [w]\<rparr>, sc1, [])
      in (sc2\<lparr>fading := False\<rparr>, fs))"

definition view_show_throbber :: "bool \<Rightarrow> screen \<Rightarrow> screen" where
  "view_show_throbber on sc = sc\<lparr>throbber_enabled := on\<rparr>"

definition view_enable_cursor :: "bool \<Rightarrow> screen \<Rightarrow> screen" where
  "view_enable_cursor on sc = sc\<lparr>cursor_enabled := on\<rparr>"

section \<open>Focus and highlight\<close>

text \<open>Only the widget with the focus has the flag for it, and so for the pointer's highlight.\<close>

definition view_ok :: "'e view \<Rightarrow> bool" where
  "view_ok v \<longleftrightarrow>
     length (v_widgets v) \<le> 127 \<and> - 1 \<le> v_focus v \<and> v_focus v < int (length (v_widgets v))
     \<and> - 1 \<le> v_cursor v \<and> v_cursor v < int (length (v_widgets v))
     \<and> (\<forall>i < length (v_widgets v). (bit (w_flags (v_widgets v ! i)) 6 \<longrightarrow> int i = v_focus v)
          \<and> (bit (w_flags (v_widgets v ! i)) 5 \<longrightarrow> int i = v_cursor v))"

lemma s8_id: "- 128 \<le> i \<Longrightarrow> i < 128 \<Longrightarrow> s8 i = i"
  by (simp add: s8_def signed_take_bit_int_eq_self)

lemma WF_bits: "WF_FOCUSED = push_bit 6 1" "WF_CURSOR = push_bit 5 1"
  by (simp_all add: WF_defs)

lemma bit_push_1: "n < 32 \<Longrightarrow> bit (push_bit k 1 :: u32) n \<longleftrightarrow> n = k"
  by (auto simp: bit_simps)

lemma bit_WF: "n < 32 \<Longrightarrow> bit WF_FOCUSED n \<longleftrightarrow> n = 6" "n < 32 \<Longrightarrow> bit WF_CURSOR n \<longleftrightarrow> n = 5"
  unfolding WF_bits by (rule bit_push_1, assumption)+

lemma bit_set_flag:
  "n < 32 \<Longrightarrow> bit (w_flags (widget_set_flag WF_FOCUSED on w)) n = (if n = 6 then on else bit (w_flags w) n)"
  "n < 32 \<Longrightarrow> bit (w_flags (widget_set_flag WF_CURSOR on w)) n = (if n = 5 then on else bit (w_flags w) n)"
  by (auto simp: widget_set_flag_def bit_or_iff bit_and_iff bit_not_iff bit_WF)

lemma widget_set_flag_other [simp]:
  "w_x (widget_set_flag f on w) = w_x w" "w_y (widget_set_flag f on w) = w_y w"
  "w_width (widget_set_flag f on w) = w_width w" "w_height (widget_set_flag f on w) = w_height w"
  "w_type (widget_set_flag f on w) = w_type w" "w_y_max (widget_set_flag f on w) = w_y_max w"
  by (simp_all add: widget_set_flag_def)

lemma at_widget_sel [simp]:
  "v_focus (at_widget i f v) = v_focus v" "v_cursor (at_widget i f v) = v_cursor v"
  "length (v_widgets (at_widget i f v)) = length (v_widgets v)"
  by (simp_all add: at_widget_def)

lemma nth_at_widget:
  "j < length (v_widgets v) \<Longrightarrow>
    v_widgets (at_widget i f v) ! j = (if j = nat i then f (v_widgets v ! j) else v_widgets v ! j)"
  by (auto simp: at_widget_def nth_list_update)

lemma view_set_focus_ok:
  assumes ok: "view_ok v" and f: "- 1 \<le> f" "f < int (length (v_widgets v))"
  shows "view_ok (view_set_focus f v)" and "v_focus (view_set_focus f v) = f"
    and "length (v_widgets (view_set_focus f v)) = length (v_widgets v)"
    and "v_cursor (view_set_focus f v) = v_cursor v"
    and "\<And>j k. j < length (v_widgets v) \<Longrightarrow> k < 32 \<Longrightarrow> bit (w_flags (v_widgets (view_set_focus f v) ! j)) k \<longleftrightarrow>
      (if k = 6 then int j = f else bit (w_flags (v_widgets v ! j)) k)"
proof -
  have "s8 f = f" using ok f by (intro s8_id) (auto simp: view_ok_def)
  then show foc: "v_focus (view_set_focus f v) = f"
    by (simp add: view_set_focus_def Let_def)
  show len: "length (v_widgets (view_set_focus f v)) = length (v_widgets v)"
      and cur: "v_cursor (view_set_focus f v) = v_cursor v"
    by (simp_all add: view_set_focus_def Let_def)
  define v1 where "v1 = (if v_focus v \<noteq> - 1 then at_widget (v_focus v) (widget_set_flag WF_FOCUSED False) v else v)"
  have v1: "bit (w_flags (v_widgets v1 ! j)) k \<longleftrightarrow> k \<noteq> 6 \<and> bit (w_flags (v_widgets v ! j)) k"
    if "j < length (v_widgets v)" "k < 32" for j k
  proof (cases "v_focus v = int j")
    case True
    with that show ?thesis by (simp add: v1_def nth_at_widget bit_set_flag)
  next
    case False
    then have "\<not> bit (w_flags (v_widgets v ! j)) 6" using ok that by (auto simp: view_ok_def)
    moreover have "v_widgets v1 ! j = v_widgets v ! j"
    proof (cases "v_focus v = - 1")
      case False
      then have "0 \<le> v_focus v" using ok by (simp add: view_ok_def)
      then have "j \<noteq> nat (v_focus v)" using \<open>v_focus v \<noteq> int j\<close> by auto
      with that show ?thesis by (simp add: v1_def nth_at_widget)
    qed (simp add: v1_def)
    ultimately show ?thesis by auto
  qed
  have set: "view_set_focus f v = (if f \<noteq> - 1 then at_widget f (widget_set_flag WF_FOCUSED True) (v1\<lparr>v_focus := f\<rparr>)
      else v1\<lparr>v_focus := f\<rparr>)"
    by (simp add: view_set_focus_def Let_def v1_def \<open>s8 f = f\<close>)
  have len1: "length (v_widgets v1) = length (v_widgets v)" by (simp add: v1_def)
  show bits: "bit (w_flags (v_widgets (view_set_focus f v) ! j)) k \<longleftrightarrow>
      (if k = 6 then int j = f else bit (w_flags (v_widgets v ! j)) k)"
    if "j < length (v_widgets v)" "k < 32" for j k
  proof (cases "int j = f")
    case True
    then have "nat f = j" "f \<noteq> - 1" by auto
    with that True show ?thesis unfolding set by (simp add: nth_at_widget len1 bit_set_flag v1)
  next
    case False
    then have "f \<noteq> - 1 \<Longrightarrow> j \<noteq> nat f" using f by auto
    with that False show ?thesis unfolding set by (simp add: nth_at_widget len1 v1)
  qed
  show "view_ok (view_set_focus f v)"
    using ok f bits unfolding view_ok_def foc len cur by simp
qed

lemma focus_first_find:
  "focus_first is v = (case find (\<lambda>i. focusable (v_widgets v ! i)) is of None \<Rightarrow> v | Some i \<Rightarrow> view_set_focus (int i) v)"
  by (induction "is") auto

lemma focusable_bits: "focusable w \<longleftrightarrow> bit (w_flags w) 0 \<and> bit (w_flags w) 1 \<and> bit (w_flags w) 2"
proof -
  have m: "FOCUS_FLAGS = mask 3" by (simp add: FOCUS_FLAGS_def WF_defs mask_eq_exp_minus_1)
  have "w_flags w AND mask 3 = mask 3 \<longleftrightarrow> (\<forall>n < 3. bit (w_flags w) n)"
  proof
    assume e: "w_flags w AND mask 3 = mask 3"
    show "\<forall>n < 3. bit (w_flags w) n"
    proof (intro allI impI)
      fix n :: nat assume "n < 3"
      then have "bit (mask 3 :: u32) n" by (simp add: bit_mask_iff)
      then show "bit (w_flags w) n" by (metis e bit_and_iff)
    qed
  qed (rule bit_word_eqI, auto simp: bit_simps)
  moreover have "(\<forall>n < 3. P n) \<longleftrightarrow> P 0 \<and> P 1 \<and> P 2" for P :: "nat \<Rightarrow> bool"
    by (auto simp: eval_nat_numeral All_less_Suc)
  ultimately show ?thesis unfolding focusable_def m by simp
qed

lemma focusable_set_flag:
  "focusable (widget_set_flag WF_FOCUSED on w) = focusable w" "focusable (widget_set_flag WF_CURSOR on w) = focusable w"
  by (simp_all add: focusable_bits bit_set_flag)

lemma widget_at_range:
  "n \<le> 127 \<Longrightarrow> widget_at ws n x y = - 1 \<or> 0 \<le> widget_at ws n x y \<and> widget_at ws n x y < int n"
  by (induction n) (auto simp: s8_id)

lemma view_widget_at_xy_range:
  assumes "view_ok v"
  shows "view_widget_at_xy v x y = - 1 \<or> 0 \<le> view_widget_at_xy v x y \<and> view_widget_at_xy v x y < int (length (v_widgets v))"
  using assms widget_at_range[of "length (v_widgets v)"] by (simp add: view_ok_def view_widget_at_xy_def)

text \<open>A hit is the last of the widgets under the point.\<close>

lemma view_widget_at_xy_topmost:
  fixes v :: "'e view"
  assumes "view_ok v" and "view_widget_at_xy v x y = int i" and "i < length (v_widgets v)"
  shows "widget_hit x y (v_widgets v ! i) \<and> (\<forall>j < length (v_widgets v). i < j \<longrightarrow> \<not> widget_hit x y (v_widgets v ! j))"
proof -
  have "n \<le> 127 \<Longrightarrow> widget_at ws n x y = int i \<Longrightarrow>
      widget_hit x y (ws ! i) \<and> (\<forall>j < n. i < j \<longrightarrow> \<not> widget_hit x y (ws ! j))" for n and ws :: "'e widget list"
    by (induction n) (auto simp: s8_id less_Suc_eq split: if_splits)
  from this[of "length (v_widgets v)" "v_widgets v"] assms show ?thesis
    unfolding view_ok_def view_widget_at_xy_def by blast
qed

lemma clear_cursor_ok:
  assumes ok: "view_ok v" and "v_cursor v \<noteq> - 1"
  shows "view_ok ((at_widget (v_cursor v) (widget_set_flag WF_CURSOR False) v)\<lparr>v_cursor := - 1\<rparr>)"
proof -
  have "nat (v_cursor v) < length (v_widgets v)" "0 \<le> v_cursor v" using assms by (auto simp: view_ok_def)
  then have "j = nat (v_cursor v) \<longleftrightarrow> int j = v_cursor v" for j by auto
  then have "bit (w_flags (v_widgets (at_widget (v_cursor v) (widget_set_flag WF_CURSOR False) v) ! i)) 6 \<longleftrightarrow>
      bit (w_flags (v_widgets v ! i)) 6"
    and "bit (w_flags (v_widgets (at_widget (v_cursor v) (widget_set_flag WF_CURSOR False) v) ! i)) 5 \<longleftrightarrow>
      bit (w_flags (v_widgets v ! i)) 5 \<and> int i \<noteq> v_cursor v" if "i < length (v_widgets v)" for i
    using that by (simp_all add: nth_at_widget bit_set_flag)
  with ok show ?thesis by (auto simp: view_ok_def)
qed

lemma set_cursor_ok:
  assumes ok: "view_ok v" and "v_cursor v = - 1" and "0 \<le> w" "w < int (length (v_widgets v))"
  shows "view_ok ((at_widget w (widget_set_flag WF_CURSOR True) v)\<lparr>v_cursor := w\<rparr>)"
proof -
  have "j = nat w \<longleftrightarrow> int j = w" for j using assms(3) by auto
  with assms show ?thesis by (auto simp: view_ok_def nth_at_widget bit_set_flag)
qed

lemma plot_drag_same:
  "v_widgets (fst (plot_drag w c v)) = v_widgets v" "v_focus (fst (plot_drag w c v)) = v_focus v"
  "v_cursor (fst (plot_drag w c v)) = v_cursor v"
  by (simp_all add: plot_drag_def Let_def)

lemma plot_pointer_ok:
  assumes ok: "view_ok v" and w: "w = - 1 \<or> 0 \<le> w \<and> w < int (length (v_widgets v))"
  shows "view_ok (fst (plot_pointer sc wm w ct v))"
    and "v_focus (fst (plot_pointer sc wm w ct v)) =
      (if \<not> wm then v_focus v else if w \<noteq> - 1 \<and> focusable (v_widgets v ! nat w) then w else - 1)"
proof -
  define v1 where "v1 = (if v_cursor v \<noteq> - 1 then (at_widget (v_cursor v) (widget_set_flag WF_CURSOR False) v)\<lparr>v_cursor := - 1\<rparr> else v)"
  have v1: "view_ok v1" "v_cursor v1 = - 1" "length (v_widgets v1) = length (v_widgets v)" "v_focus v1 = v_focus v"
    using ok clear_cursor_ok[OF ok] by (simp_all add: v1_def)
  define v2 where "v2 = view_set_focus (- 1) v1"
  have v2: "view_ok v2" "v_cursor v2 = - 1" "length (v_widgets v2) = length (v_widgets v)" "v_focus v2 = - 1"
    using view_set_focus_ok[OF v1(1), of "- 1"] v1 by (simp_all add: v2_def)
  define hot where "hot \<longleftrightarrow> w_flags (v_widgets v2 ! nat w) AND CURSOR_FLAGS = CURSOR_FLAGS"
  define v3 where "v3 = (if hot then (at_widget w (widget_set_flag WF_CURSOR True) v2)\<lparr>v_cursor := w\<rparr> else v2)"
  have fst_eq: "fst (plot_pointer sc wm w ct v) =
      (if \<not> wm then v1 else if w = - 1 then v2 else if focusable (v_widgets v3 ! nat w) then view_set_focus w v3 else v3)"
    by (simp add: plot_pointer_def Let_def v1_def v2_def hot_def v3_def)
  have v3: "view_ok v3" "length (v_widgets v3) = length (v_widgets v)" "v_focus v3 = - 1" if "w \<noteq> - 1"
    using v2 w that set_cursor_ok[OF v2(1,2), of w] by (simp_all add: v3_def)
  have foc: "focusable (v_widgets v3 ! nat w) \<longleftrightarrow> focusable (v_widgets v ! nat w)" if "w \<noteq> - 1"
  proof -
    have lt: "nat w < length (v_widgets v)" using w that by auto
    have "focusable (v_widgets v1 ! nat w) \<longleftrightarrow> focusable (v_widgets v ! nat w)"
      using lt by (simp add: v1_def nth_at_widget focusable_set_flag)
    moreover have "focusable (v_widgets v2 ! nat w) \<longleftrightarrow> focusable (v_widgets v1 ! nat w)"
      using view_set_focus_ok(5)[OF v1(1), of "- 1" "nat w"] lt v1(3) by (simp add: v2_def focusable_bits)
    moreover have "focusable (v_widgets v3 ! nat w) \<longleftrightarrow> focusable (v_widgets v2 ! nat w)"
      using lt v2(3) by (simp add: v3_def nth_at_widget focusable_set_flag)
    ultimately show ?thesis by simp
  qed
  show "view_ok (fst (plot_pointer sc wm w ct v))"
    unfolding fst_eq using v1 v2 v3 view_set_focus_ok(1)[of v3 w] w by auto
  show "v_focus (fst (plot_pointer sc wm w ct v)) =
      (if \<not> wm then v_focus v else if w \<noteq> - 1 \<and> focusable (v_widgets v ! nat w) then w else - 1)"
    unfolding fst_eq using v1 v2 v3 view_set_focus_ok(2)[of v3 w] w foc by auto
qed

lemma focus_first_ok:
  assumes "view_ok v" and "\<forall>i \<in> set is. i < length (v_widgets v)"
  shows "view_ok (focus_first is v)" and "v_focus (focus_first is v) =
      (case find (\<lambda>i. focusable (v_widgets v ! i)) is of None \<Rightarrow> v_focus v | Some i \<Rightarrow> int i)"
proof -
  have "i < length (v_widgets v)" if "find (\<lambda>i. focusable (v_widgets v ! i)) is = Some i" for i
    using that assms(2) by (auto simp: find_Some_iff)
  then have "view_ok (view_set_focus (int i) v)" "v_focus (view_set_focus (int i) v) = int i"
    if "find (\<lambda>i. focusable (v_widgets v ! i)) is = Some i" for i
    using view_set_focus_ok(1,2)[OF assms(1), of "int i"] that by simp_all
  with assms(1) show "view_ok (focus_first is v)" and "v_focus (focus_first is v) =
      (case find (\<lambda>i. focusable (v_widgets v ! i)) is of None \<Rightarrow> v_focus v | Some i \<Rightarrow> int i)"
    by (simp_all add: focus_first_find split: option.split)
qed

lemma focus_nearest:
  assumes ok: "view_ok v"
  shows "view_ok (view_set_focus_next v)" "view_ok (view_set_focus_prev v)" "view_ok (view_move_focus m v)"
    and "v_focus (view_set_focus_next v) =
      (case find (\<lambda>i. focusable (v_widgets v ! i)) [nat (v_focus v + 1)..<length (v_widgets v)] of
         None \<Rightarrow> v_focus v | Some i \<Rightarrow> int i)"
    and "v_focus (view_set_focus_prev v) =
      (case find (\<lambda>i. focusable (v_widgets v ! i)) (rev [0..<nat (v_focus v)]) of
         None \<Rightarrow> v_focus v | Some i \<Rightarrow> int i)"
proof -
  let ?n = "length (v_widgets v)"
  have f: "- 1 \<le> v_focus v" "v_focus v < int ?n" using ok by (auto simp: view_ok_def)
  have next_eq: "view_set_focus_next v = focus_first [nat (v_focus v + 1)..<?n] v"
    using f by (auto simp: view_set_focus_next_def)
  have prev_eq: "view_set_focus_prev v = focus_first (rev [0..<nat (v_focus v)]) v"
    using f by (auto simp: view_set_focus_prev_def)
  show "view_ok (view_set_focus_next v)" and "v_focus (view_set_focus_next v) =
      (case find (\<lambda>i. focusable (v_widgets v ! i)) [nat (v_focus v + 1)..<?n] of None \<Rightarrow> v_focus v | Some i \<Rightarrow> int i)"
    unfolding next_eq using ok by (auto intro!: focus_first_ok)
  have "\<forall>i \<in> set (rev [0..<nat (v_focus v)]). i < ?n" using f by auto
  then show "view_ok (view_set_focus_prev v)" and "v_focus (view_set_focus_prev v) =
      (case find (\<lambda>i. focusable (v_widgets v ! i)) (rev [0..<nat (v_focus v)]) of None \<Rightarrow> v_focus v | Some i \<Rightarrow> int i)"
    unfolding prev_eq using ok focus_first_ok by blast+
  show "view_ok (view_move_focus m v)"
    using ok view_set_focus_ok(1)[OF ok, of "v_focus v + m"] by (auto simp: view_move_focus_def)
qed

lemma fr_view_plot:
  "fr_view (view_plot sc c alpha below v) =
    (let w = view_widget_at_xy v (c_x c - v_x v) (c_y c - v_y v); sc1 = fr_screen (view_plot sc c alpha below v)
     in if viewing sc1
        then fst (plot_pointer (if viewing sc1 = viewing sc then sc else sc\<lparr>viewing := \<not> viewing sc\<rparr>) (c_ir c \<and> cursor_enabled sc) w (snd (plot_drag w c v)) (fst (plot_drag w c v))) else v)"
proof -
  let ?w = "view_widget_at_xy v (c_x c - v_x v) (c_y c - v_y v)"
  define toggled where "toggled \<longleftrightarrow> c_held c AND push_bit 16 (wpad_mask (c_lo c) Wpad_2) \<noteq> 0 \<and> c_down c AND push_bit 16 (wpad_mask (c_lo c) Wpad_1) \<noteq> 0 \<and> \<not> fading sc"
  define sc1 where "sc1 = (if toggled then sc\<lparr>viewing := \<not> viewing sc\<rparr> else sc)"
  obtain v1 ct where d: "plot_drag ?w c v = (v1, ct)" by fastforce
  obtain q st where q: "plot_pointer sc1 (c_ir c \<and> cursor_enabled sc) ?w ct v1 = (q, st)" by fastforce
  have sc: "viewing (fr_screen (view_plot sc c alpha below v)) = viewing sc1" "cursor_enabled sc1 = cursor_enabled sc"
    by (simp_all add: view_plot_def Let_def sc1_def toggled_def split: prod.split)
  have r: "fr_view (view_plot sc c alpha below v) = (if viewing sc1 then q else v)"
  proof (cases "viewing sc1")
    case True
    then show ?thesis
      using q sc(2) unfolding view_plot_def toggled_def [symmetric] sc1_def [symmetric] Let_def by (simp add: d)
  next
    case False
    then show ?thesis
      unfolding view_plot_def toggled_def [symmetric] sc1_def [symmetric] Let_def by simp
  qed
  have e: "(if viewing sc1 = viewing sc then sc else sc\<lparr>viewing := \<not> viewing sc\<rparr>) = sc1"
    by (simp add: sc1_def)
  show ?thesis unfolding Let_def sc(1) e d prod.sel q by (rule r)
qed

lemma view_plot_view:
  fixes sc c alpha below
  assumes ok: "view_ok v"
  defines "v' \<equiv> fr_view (view_plot sc c alpha below v)"
  shows "view_ok v'" and "v_focus v' =
      (let w = view_widget_at_xy v (c_x c - v_x v) (c_y c - v_y v)
       in if viewing (fr_screen (view_plot sc c alpha below v)) \<and> c_ir c \<and> cursor_enabled sc
          then (if w \<noteq> - 1 \<and> focusable (v_widgets v ! nat w) then w else - 1) else v_focus v)"
proof -
  define w where "w = view_widget_at_xy v (c_x c - v_x v) (c_y c - v_y v)"
  define on where "on = viewing (fr_screen (view_plot sc c alpha below v))"
  define sc1 where "sc1 = (if on = viewing sc then sc else sc\<lparr>viewing := \<not> viewing sc\<rparr>)"
  define wm where "wm \<longleftrightarrow> c_ir c \<and> cursor_enabled sc"
  have w: "w = - 1 \<or> 0 \<le> w \<and> w < int (length (v_widgets v))"
    using view_widget_at_xy_range[OF ok] by (simp add: w_def)
  define v1 where "v1 = fst (plot_drag w c v)"
  define ct where "ct = snd (plot_drag w c v)"
  have v1: "view_ok v1" "v_widgets v1 = v_widgets v" "v_focus v1 = v_focus v"
    using ok unfolding v1_def view_ok_def by (simp_all add: plot_drag_same)
  define q where "q = fst (plot_pointer sc1 wm w ct v1)"
  have v': "v' = (if on then q else v)"
    unfolding v'_def fr_view_plot Let_def q_def v1_def ct_def w_def sc1_def wm_def on_def ..
  note pp = plot_pointer_ok[OF v1(1), of w sc1 wm ct, folded q_def]
  show "view_ok v'" using pp(1) w v1(2) ok by (simp add: v')
  have "v_focus v' = (if on \<and> wm then (if w \<noteq> - 1 \<and> focusable (v_widgets v ! nat w) then w else - 1) else v_focus v)"
    using pp(2) w v1(2,3) by (simp add: v')
  then show "v_focus v' =
      (let w = view_widget_at_xy v (c_x c - v_x v) (c_y c - v_y v)
       in if viewing (fr_screen (view_plot sc c alpha below v)) \<and> c_ir c \<and> cursor_enabled sc
          then (if w \<noteq> - 1 \<and> focusable (v_widgets v ! nat w) then w else - 1) else v_focus v)"
    unfolding Let_def w_def [symmetric] on_def wm_def .
qed

section \<open>What is drawn of a widget\<close>

lemma bit_2_66:
  assumes "n < 32"
  shows "bit (66 :: u32) n \<longleftrightarrow> n = 1 \<or> n = 6" and "bit (2 :: u32) n \<longleftrightarrow> n = 1"
proof -
  have e: "(66 :: u32) = push_bit 6 1 OR push_bit 1 1" "(2 :: u32) = push_bit 1 1" by simp_all
  show "bit (66 :: u32) n \<longleftrightarrow> n = 1 \<or> n = 6"
    using bit_push_1[OF assms, of 6] bit_push_1[OF assms, of 1] unfolding e(1) bit_or_iff by blast
  show "bit (2 :: u32) n \<longleftrightarrow> n = 1" unfolding e(2) using assms by (rule bit_push_1)
qed

lemma and_66: "x AND 66 = (66 :: u32) \<longleftrightarrow> bit x 1 \<and> bit x 6"
proof
  assume e: "x AND 66 = 66"
  have "bit (x AND 66) 1" "bit (x AND 66) 6" unfolding e using bit_2_66(1)[of 1] bit_2_66(1)[of 6] by simp_all
  then show "bit x 1 \<and> bit x 6" unfolding bit_and_iff by blast
next
  assume b: "bit x 1 \<and> bit x 6"
  show "x AND 66 = 66"
  proof (rule bit_word_eqI)
    fix n assume "n < LENGTH(32)"
    then have "n < 32" by simp
    then show "bit (x AND 66) n = bit (66 :: u32) n" using b bit_2_66(1)[of n] unfolding bit_and_iff by auto
  qed
qed

lemma and_2: "x AND 2 \<noteq> (0 :: u32) \<longleftrightarrow> bit x 1"
proof
  assume "bit x 1"
  then have "bit (x AND 2) 1" unfolding bit_and_iff using bit_2_66(2)[of 1] by simp
  then show "x AND 2 \<noteq> 0" by auto
next
  assume "x AND 2 \<noteq> 0"
  then obtain n where n: "bit (x AND 2) n" by (auto simp: bit_eq_iff)
  then have "n < 32" using bit_imp_le_length by fastforce
  with n show "bit x 1" unfolding bit_and_iff using bit_2_66(2)[of n] by auto
qed

text \<open>The conditions of the three kinds of layer: not focused, focused, disabled.\<close>

lemma layer_drawn_cases:
  "layer_drawn w \<lparr>l_flags = WF_FOCUSED OR WF_FLAGS_AND OR WF_ENABLED, l_flags_invert = WF_FOCUSED, l_gfx = g\<rparr>
    \<longleftrightarrow> bit (w_flags w) 1 \<and> \<not> bit (w_flags w) 6"
  "layer_drawn w \<lparr>l_flags = WF_FOCUSED OR WF_FLAGS_AND OR WF_ENABLED, l_flags_invert = 0, l_gfx = g\<rparr>
    \<longleftrightarrow> bit (w_flags w) 1 \<and> bit (w_flags w) 6"
  "layer_drawn w \<lparr>l_flags = WF_ENABLED, l_flags_invert = WF_ENABLED, l_gfx = g\<rparr> \<longleftrightarrow> \<not> bit (w_flags w) 1"
proof -
  have m: "(x AND 322) AND 255 = x AND (66 :: u32)" "(x AND 2) AND 255 = x AND (2 :: u32)" for x
    by (simp_all add: and.assoc)
  have x: "bit (x XOR 64 :: u32) 1 = bit x 1" "bit (x XOR 64 :: u32) 6 = (\<not> bit x 6)" "bit (x XOR 2 :: u32) 1 = (\<not> bit x 1)" for x
  proof -
    have "bit (64 :: u32) n \<longleftrightarrow> n = 6" if "n < 32" for n
      using bit_push_1[OF that, of 6] by simp
    then show "bit (x XOR 64 :: u32) 1 = bit x 1" "bit (x XOR 64 :: u32) 6 = (\<not> bit x 6)"
        "bit (x XOR 2 :: u32) 1 = (\<not> bit x 1)"
      using bit_2_66(2)[of 1] by (simp_all only: bit_xor_iff) simp_all
  qed
  have all: "(f \<noteq> 0 \<and> \<not> (True \<and> f \<noteq> 66)) \<longleftrightarrow> f = (66 :: u32)" for f by auto
  have "(WF_FOCUSED OR WF_FLAGS_AND OR WF_ENABLED) = 322" "322 AND WF_FLAGS_AND \<noteq> 0" "322 AND WF_FLAGS_MASK = (66 :: u32)"
    "WF_ENABLED AND WF_FLAGS_AND = 0" "WF_ENABLED = 2" "WF_FLAGS_MASK = 255" "WF_FOCUSED = 64"
    by (simp_all add: WF_defs)
  note c = this
  show "layer_drawn w \<lparr>l_flags = WF_FOCUSED OR WF_FLAGS_AND OR WF_ENABLED, l_flags_invert = WF_FOCUSED, l_gfx = g\<rparr>
    \<longleftrightarrow> bit (w_flags w) 1 \<and> \<not> bit (w_flags w) 6"
    unfolding layer_drawn_def Let_def widget_layer.simps c(1) using c(2,3) all and_66[of "w_flags w XOR 64"] x(1,2)[of "w_flags w"]
    by (auto simp: c(6,7) m)
  show "layer_drawn w \<lparr>l_flags = WF_FOCUSED OR WF_FLAGS_AND OR WF_ENABLED, l_flags_invert = 0, l_gfx = g\<rparr>
    \<longleftrightarrow> bit (w_flags w) 1 \<and> bit (w_flags w) 6"
    unfolding layer_drawn_def Let_def widget_layer.simps c(1) using c(2,3) all and_66[of "w_flags w"]
    by (auto simp: c(6) m)
  show "layer_drawn w \<lparr>l_flags = WF_ENABLED, l_flags_invert = WF_ENABLED, l_gfx = g\<rparr> \<longleftrightarrow> \<not> bit (w_flags w) 1"
    unfolding layer_drawn_def Let_def widget_layer.simps using c(4) and_2[of "w_flags w XOR 2"] x(3)[of "w_flags w"]
    by (simp add: c(5,6) m)
qed

text \<open>Of the three backgrounds of a button or an entry exactly one is drawn.\<close>

lemma background_drawn:
  "filter (layer_drawn w) (background_layers tex tex_focus) =
    [background_layers tex tex_focus ! (if \<not> bit (w_flags w) 1 then 1 else if bit (w_flags w) 6 then 2 else 0)]"
  unfolding background_layers_def by (simp add: layer_drawn_cases)

text \<open>
  From white, the steps of -8 that the program takes end at 7; the lower clamp never applies, one step more would wrap
  around and be clamped to white.
\<close>

lemma fade_step:
  assumes "8 \<le> n" "n \<le> 255"
  shows "CCLAMP (of_nat n + word_of_int (- 8)) = of_nat (n - 8)"
proof -
  have "(of_nat n :: u32) + word_of_int (- 8) = of_nat (n - 8)"
    using assms(1) by (simp add: of_nat_diff)
  moreover have "unat (of_nat (n - 8) :: u32) = n - 8" using assms unfolding unat_of_nat by simp
  moreover have "\<not> 255 < n - 8" using assms by simp
  ultimately show ?thesis unfolding CCLAMP_def word_less_nat_alt by simp
qed

lemma fade_dark: "8 * k \<le> 255 \<Longrightarrow> ((\<lambda>c. CCLAMP (c + word_of_int (- 8))) ^^ k) 255 = of_nat (255 - 8 * k)"
proof (induction k)
  case (Suc k)
  then show ?case using fade_step[of "255 - 8 * k"] by simp
qed simp

lemma fade_wraps: "((\<lambda>c. CCLAMP (c + word_of_int (- 8))) ^^ 32) 255 = 255"
proof -
  have "((\<lambda>c. CCLAMP (c + word_of_int (- 8))) ^^ 31) 255 = 7" using fade_dark[of 31] by simp
  moreover have "CCLAMP (7 + word_of_int (- 8)) = 255" by code_simp
  moreover have "(32 :: nat) = Suc 31" by simp
  ultimately show ?thesis by (simp only: funpow.simps comp_apply)
qed

section \<open>What the focus and the pointer leave alone\<close>

text \<open>Whether a widget can have the focus, its other flags, and what is drawn of it.\<close>

definition same_widgets :: "'e view \<Rightarrow> 'e view \<Rightarrow> bool" where
  "same_widgets v v' \<longleftrightarrow>
     length (v_widgets v') = length (v_widgets v)
     \<and> (\<forall>j < length (v_widgets v). focusable (v_widgets v' ! j) = focusable (v_widgets v ! j)
          \<and> bit (w_flags (v_widgets v' ! j)) 2 = bit (w_flags (v_widgets v ! j)) 2
          \<and> w_layers (v_widgets v' ! j) = w_layers (v_widgets v ! j))"

lemma same_widgets_refl [simp]: "same_widgets v v"
  by (simp add: same_widgets_def)

lemma same_widgets_trans: "same_widgets u v \<Longrightarrow> same_widgets v w \<Longrightarrow> same_widgets u w"
  by (simp add: same_widgets_def)

lemma same_widgets_eq: "v_widgets v' = v_widgets v \<Longrightarrow> same_widgets v v'"
  by (simp add: same_widgets_def)

lemma w_layers_set_flag [simp]: "w_layers (widget_set_flag f on w) = w_layers w"
  by (simp add: widget_set_flag_def)

lemma same_widgets_flag:
  "same_widgets v (at_widget i (widget_set_flag WF_FOCUSED on) v)"
  "same_widgets v (at_widget i (widget_set_flag WF_CURSOR on) v)"
  by (simp_all add: same_widgets_def nth_at_widget focusable_set_flag bit_set_flag)

lemma same_widgets_update [simp]:
  "same_widgets v (v'\<lparr>v_focus := f\<rparr>) = same_widgets v v'" "same_widgets v (v'\<lparr>v_cursor := f\<rparr>) = same_widgets v v'"
  "same_widgets (v\<lparr>v_focus := f\<rparr>) v' = same_widgets v v'"
  by (simp_all add: same_widgets_def)

lemma same_view_set_focus: "same_widgets v (view_set_focus f v)"
proof -
  define v1 where "v1 = (if v_focus v \<noteq> - 1 then at_widget (v_focus v) (widget_set_flag WF_FOCUSED False) v else v)"
  have "same_widgets v v1" by (simp add: v1_def same_widgets_flag)
  moreover have "same_widgets v1 (view_set_focus f v)"
    using same_widgets_flag(1)[of "v1\<lparr>v_focus := s8 f\<rparr>"] by (simp add: view_set_focus_def Let_def v1_def [symmetric])
  ultimately show ?thesis by (rule same_widgets_trans)
qed

lemma same_focus_moves:
  "same_widgets v (view_set_focus_next v)" "same_widgets v (view_set_focus_prev v)" "same_widgets v (view_move_focus m v)"
  by (auto simp: view_set_focus_next_def view_set_focus_prev_def view_move_focus_def focus_first_find
      same_view_set_focus split: option.split)

lemma same_plot_pointer: "same_widgets v (fst (plot_pointer sc wm w ct v))"
proof -
  define v1 where "v1 = (if v_cursor v \<noteq> - 1 then (at_widget (v_cursor v) (widget_set_flag WF_CURSOR False) v)\<lparr>v_cursor := - 1\<rparr> else v)"
  define v2 where "v2 = view_set_focus (- 1) v1"
  define v3 where "v3 = (if w_flags (v_widgets v2 ! nat w) AND CURSOR_FLAGS = CURSOR_FLAGS
    then (at_widget w (widget_set_flag WF_CURSOR True) v2)\<lparr>v_cursor := w\<rparr> else v2)"
  have "same_widgets v v1" "same_widgets v1 v2" "same_widgets v2 v3"
    by (simp_all add: v1_def v2_def v3_def same_widgets_flag same_view_set_focus)
  then have "same_widgets v v1" "same_widgets v v2" "same_widgets v v3" "same_widgets v (view_set_focus w v3)"
    using same_view_set_focus same_widgets_trans by blast+
  moreover have "fst (plot_pointer sc wm w ct v) =
      (if \<not> wm then v1 else if w = - 1 then v2 else if focusable (v_widgets v3 ! nat w) then view_set_focus w v3 else v3)"
    by (simp add: plot_pointer_def Let_def v1_def v2_def v3_def)
  ultimately show ?thesis by simp
qed

lemma same_view_plot: "same_widgets v (fr_view (view_plot sc c alpha below v))"
proof -
  have "same_widgets v (fst (plot_drag w c v))" for w by (simp add: same_widgets_eq plot_drag_same)
  then have "same_widgets v (fst (plot_pointer sc' wm w ct (fst (plot_drag w c v))))" for sc' wm w ct
    using same_plot_pointer same_widgets_trans by blast
  then show ?thesis
    unfolding fr_view_plot Let_def by simp
qed

end
