(* ===== verification/Browser.thy ===== *)
theory Browser
  imports View
begin

text \<open>
  The browser, \<^verbatim>\<open>channelapp/source/browser.c\<close>: pages of applications over the widgets of one view. Widgets 0 to 4 are
  the arrows and icons; two halves of twenty widgets hold the page shown and the one that slides in. The positions
  during the animation, cosines rounded to integers, and the controls of its frames are parameters. An application is
  the number of its entry; \<open>entries\<close> is the visible list, \<^verbatim>\<open>entries[0..entry_count-1]\<close>.
\<close>

section \<open>State\<close>

definition AE_OFFSET :: nat where "AE_OFFSET = 5"
definition TRANS_STEPS :: nat where "TRANS_STEPS = 20"
definition MAX_COLUMNS :: nat where "MAX_COLUMNS = 4"
definition ROWS :: nat where "ROWS = 5"

lemmas browser_consts = AE_OFFSET_def TRANS_STEPS_def MAX_COLUMNS_def ROWS_def

datatype browser_action = BA_ADD | BA_REMOVE | BA_REFRESH | BA_NEXT | BA_PREV

record 'e theme_ui =
  th_arrow_left :: "'e entity"
  th_arrow_left_focus :: "'e entity"
  th_arrow_right :: "'e entity"
  th_arrow_right_focus :: "'e entity"
  th_gecko :: "'e entity"
  th_gecko_active :: "'e entity"
  th_lan :: "'e entity"
  th_lan_active :: "'e entity"
  th_wlan :: "'e entity"
  th_wlan_active :: "'e entity"
  th_dlg_error :: "'e entity"
  th_logo :: "'e entity"
  th_app_entry :: "'e entity"
  th_app_entry_focus :: "'e entity"
  th_grid_app_entry :: "'e entity"
  th_grid_app_entry_focus :: "'e entity"
  th_no_description :: string
  th_view_width :: int

record 'e browser =
  first_set :: bool
  top_offset :: nat
  v_browser :: "'e view"
  columns_current :: nat
  columns_new :: nat

section \<open>The fixed widgets\<close>

definition network_icon :: "'e theme_ui \<Rightarrow> nat \<Rightarrow> bool \<Rightarrow> 'e entity" where
  "network_icon th connection active =
     (if connection = 1 then (if active then th_lan_active th else th_lan th)
      else if connection = 2 then (if active then th_wlan_active th else th_wlan th)
      else th_dlg_error th)"

text \<open>\<open>inited\<close>: whether there are widgets to be freed.\<close>

definition browser_theme_reinit :: "'e theme_ui \<Rightarrow> nat \<Rightarrow> bool \<Rightarrow> 'e browser \<Rightarrow> 'e browser" where
  "browser_theme_reinit th conn inited b =
     (let w0 = v_widgets (v_browser b);
          ws = (if inited then map widget_free w0 else w0);
          net = network_icon th conn;
          left = widget_image 40 192 0 (th_arrow_left th) None True (Some (th_arrow_left_focus th)) (ws ! 0);
          right = widget_image (th_view_width th - 40 - en_w (th_arrow_right th)) 192 0 (th_arrow_right th) None True
                    (Some (th_arrow_right_focus th)) (ws ! 1);
          gecko = widget_image (th_view_width th - 48 - en_w (th_gecko_active th) - en_w (net True)) 412 0
                    (th_gecko_active th) (Some (th_gecko th)) False None (ws ! 2);
          network = widget_image (th_view_width th - 48 - en_w (th_gecko_active th)) 412 0
                    (net True) (Some (net False)) False None (ws ! 3);
          logo = widget_image 16 416 0 (th_logo th) (Some (th_logo th)) False None (ws ! 4)
      in b\<lparr>v_browser := (v_browser b)\<lparr>v_widgets :=
             ws[0 := widget_set_flag WF_VISIBLE False left, 1 := widget_set_flag WF_VISIBLE False right,
                2 := widget_set_flag WF_ENABLED False gecko, 3 := widget_set_flag WF_ENABLED False network,
                4 := logo]\<rparr>\<rparr>)"

definition browser_init :: "'e theme_ui \<Rightarrow> nat \<Rightarrow> bool \<Rightarrow> nat \<Rightarrow> nat \<Rightarrow> nat \<Rightarrow> 'e browser" where
  "browser_init th conn first toff cc cn =
     browser_theme_reinit th conn False
       \<lparr>first_set = first, top_offset = toff, v_browser = view_new (AE_OFFSET + MAX_COLUMNS * ROWS * 2) 0 0 0 0,
        columns_current = cc, columns_new = cn\<rparr>"

section \<open>Pages\<close>

fun index_of :: "nat list \<Rightarrow> nat \<Rightarrow> nat option" where
  "index_of [] a = None"
| "index_of (e # es) a = (if e = a then Some 0 else map_option Suc (index_of es a))"

definition browser_set_top_offset :: "nat list \<Rightarrow> nat option \<Rightarrow> 'e browser \<Rightarrow> 'e browser" where
  "browser_set_top_offset entries app b =
     (case app of
        None \<Rightarrow> b\<lparr>top_offset := 0\<rparr>
      | Some a \<Rightarrow>
          if length entries < 1 then b\<lparr>top_offset := 0\<rparr>
          else
            let t = (case index_of entries a of None \<Rightarrow> top_offset b | Some i \<Rightarrow> i mod 65536);
                page = columns_new b * ROWS;
                t1 = t div page * page
            in b\<lparr>top_offset := (if t1 > length entries - 1 then t1 - page else t1)\<rparr>)"

text \<open>The widget of an entry, before it is moved into place.\<close>

definition entry_widget :: "'e theme_ui \<Rightarrow> (nat \<Rightarrow> 'e app_entry) \<Rightarrow> nat \<Rightarrow> int \<Rightarrow> int \<Rightarrow> nat \<Rightarrow> nat \<Rightarrow> 'e widget" where
  "entry_widget th info columns x2 y i e =
     (if columns = 1
      then widget_app_entry x2 y 0 (th_app_entry th) (th_app_entry_focus th) (th_no_description th) (info e) no_widget
      else widget_grid_app_entry (x2 + int (i mod columns) * en_w (th_grid_app_entry th)) y 0
             (th_grid_app_entry th) (th_grid_app_entry_focus th) (info e) no_widget)"

text \<open>The new page in the half at \<open>o2\<close>; \<open>y\<close> moves down after each row.\<close>

definition fill_half ::
  "'e theme_ui \<Rightarrow> (nat \<Rightarrow> 'e app_entry) \<Rightarrow> nat list \<Rightarrow> nat \<Rightarrow> nat \<Rightarrow> int \<Rightarrow> nat \<Rightarrow> 'e widget list \<Rightarrow> 'e widget list" where
  "fill_half th info entries columns toff x2 o2 ws =
     fold (\<lambda>i ws. if length entries > toff + i
                   then ws[o2 + i := entry_widget th info columns x2 (64 + int (i div columns) * en_h (th_app_entry th)) i
                             (entries ! (toff + i))]
                   else ws)
       [0..<columns * ROWS] ws"

definition free_half :: "nat \<Rightarrow> 'e widget list \<Rightarrow> 'e widget list" where
  "free_half h ws = fold (\<lambda>i ws. ws[h + i := widget_free (ws ! (h + i))]) [0..<MAX_COLUMNS * ROWS] ws"

definition new_focus :: "nat list \<Rightarrow> nat option \<Rightarrow> nat \<Rightarrow> nat \<Rightarrow> nat \<Rightarrow> nat" where
  "new_focus entries app columns toff o2 =
     fold (\<lambda>i f. if length entries > toff + i \<and> Some (entries ! (toff + i)) = app then f + i else f) [0..<columns * ROWS] o2"

text \<open>A frame of the animation: widgets are moved, the frame is drawn, and half way the focus changes.\<close>

definition place :: "(nat \<Rightarrow> nat \<Rightarrow> int) \<Rightarrow> nat \<Rightarrow> 'e view \<Rightarrow> 'e view" where
  "place xs i v = v\<lparr>v_widgets := map (\<lambda>(k, w). if k < 2 \<or> AE_OFFSET \<le> k then w\<lparr>w_x := xs i k\<rparr> else w)
     (zip [0..<length (v_widgets v)] (v_widgets v))\<rparr>"

definition show_arrows :: "bool \<Rightarrow> bool \<Rightarrow> 'e view \<Rightarrow> 'e view" where
  "show_arrows prev_page next_page v =
     v\<lparr>v_widgets := (v_widgets v)[0 := widget_set_flag WF_VISIBLE prev_page (widget_set_flag WF_VISIBLE True (v_widgets v ! 0)),
                      1 := widget_set_flag WF_VISIBLE next_page (widget_set_flag WF_VISIBLE True (v_widgets v ! 1))]\<rparr>"

definition anim_frame ::
  "(nat \<Rightarrow> nat \<Rightarrow> int) \<Rightarrow> (nat \<Rightarrow> controls) \<Rightarrow> bool \<Rightarrow> bool \<Rightarrow> nat \<Rightarrow> nat \<Rightarrow> 'e view \<times> screen \<Rightarrow> 'e view \<times> screen" where
  "anim_frame xs ctl prev_page next_page focus i st =
     (case st of (v, sc) \<Rightarrow>
        let fr = view_plot sc (ctl i) 0 [] (place xs i v); v1 = fr_view fr
        in (if i = TRANS_STEPS div 2 then view_set_focus (int focus) (show_arrows prev_page next_page v1) else v1, fr_screen fr))"

text \<open>The new top of the page, or \<open>None\<close> when there is nothing to do.\<close>

definition turn_page :: "browser_action \<Rightarrow> nat list \<Rightarrow> nat option \<Rightarrow> 'e browser \<Rightarrow> 'e browser option" where
  "turn_page action entries app b =
     (case action of
        BA_REMOVE \<Rightarrow> Some b
      | BA_ADD \<Rightarrow> Some (browser_set_top_offset entries app b)
      | BA_REFRESH \<Rightarrow> Some (browser_set_top_offset entries app b)
      | BA_NEXT \<Rightarrow>
          if length entries \<le> top_offset b + columns_new b * ROWS then None
          else Some (b\<lparr>top_offset := (top_offset b + columns_current b * ROWS) mod 65536\<rparr>)
      | BA_PREV \<Rightarrow>
          if top_offset b < 1 then None
          else if top_offset b < columns_current b * ROWS then None
          else Some (b\<lparr>top_offset := top_offset b - columns_current b * ROWS\<rparr>))"

definition browser_gen_view ::
  "'e theme_ui \<Rightarrow> (nat \<Rightarrow> 'e app_entry) \<Rightarrow> (nat \<Rightarrow> nat \<Rightarrow> int) \<Rightarrow> (nat \<Rightarrow> controls) \<Rightarrow> browser_action \<Rightarrow> nat list
     \<Rightarrow> nat option \<Rightarrow> 'e browser \<times> screen \<Rightarrow> 'e browser \<times> screen" where
  "browser_gen_view th info xs ctl action entries app st =
     (case st of (b0, sc) \<Rightarrow>
        case turn_page action entries app b0 of
          None \<Rightarrow> (b0, sc)
        | Some b \<Rightarrow>
            let prev_page = (action \<noteq> BA_REMOVE \<and> top_offset b > 0);
                next_page = (action \<noteq> BA_REMOVE \<and> length entries > top_offset b + columns_new b * ROWS);
                o1 = (if first_set b then AE_OFFSET else AE_OFFSET + MAX_COLUMNS * ROWS);
                o2 = (if first_set b then AE_OFFSET + MAX_COLUMNS * ROWS else AE_OFFSET);
                focus = (if action = BA_REMOVE then o2
                         else new_focus entries app (columns_new b) (top_offset b) o2);
                tex = (if columns_new b = 1 then th_app_entry th else th_grid_app_entry th);
                x0 = (th_view_width th - en_w tex * int (columns_new b)) div 2;
                x2 = (if action = BA_PREV then - th_view_width th + x0 else th_view_width th + x0);
                ws1 = free_half o2 (v_widgets (v_browser b));
                ws2 = (if action = BA_REMOVE then ws1
                       else fill_half th info entries (columns_new b) (top_offset b) x2 o2 ws1);
                (v, sc') = fold (anim_frame xs ctl prev_page next_page focus) [0..<TRANS_STEPS] ((v_browser b)\<lparr>v_widgets := ws2\<rparr>, sc)
            in (b\<lparr>first_set := \<not> first_set b,
                  v_browser := v\<lparr>v_widgets := free_half o1 (v_widgets v)\<rparr>,
                  columns_current := columns_new b,
                  top_offset := (if action = BA_REMOVE then 0 else top_offset b)\<rparr>, sc'))"

section \<open>Focus and selection\<close>

definition browser_set_focus :: "libogc \<Rightarrow> u32 \<Rightarrow> 'e browser \<Rightarrow> 'e browser" where
  "browser_set_focus lo bd b =
     (let v = v_browser b; n = int (columns_current b)
      in b\<lparr>v_browser :=
            (if columns_current b = 1 then
               if bd AND PADS_UP lo \<noteq> 0 then view_set_focus_prev v
               else if bd AND PADS_DOWN lo \<noteq> 0 then view_set_focus_next v
               else v
             else if bd AND PADS_LEFT lo \<noteq> 0 then view_set_focus_prev v
             else if bd AND PADS_RIGHT lo \<noteq> 0 then view_set_focus_next v
             else if bd AND PADS_UP lo \<noteq> 0 then view_move_focus (- n) v
             else if bd AND PADS_DOWN lo \<noteq> 0 then view_move_focus n v
             else v)\<rparr>)"

text \<open>The index is a \<^verbatim>\<open>u32\<close>; an index that is not in the list reads outside of it.\<close>

datatype selection = No_Entry | Entry nat | Outside

definition browser_sel :: "nat list \<Rightarrow> 'e browser \<Rightarrow> selection" where
  "browser_sel entries b =
     (if length entries < 1 \<or> v_focus (v_browser b) < int AE_OFFSET then No_Entry
      else
        let i = (if first_set b then int (top_offset b) + v_focus (v_browser b) - int AE_OFFSET
                 else int (top_offset b) + v_focus (v_browser b) - int (MAX_COLUMNS * ROWS) - int AE_OFFSET) mod 2 ^ 32
        in if i < int (length entries) then Entry (entries ! nat i) else Outside)"

text \<open>\<open>outside\<close>: the pointer read there, which is only compared with the entries.\<close>

definition browser_switch_mode ::
  "'e theme_ui \<Rightarrow> (nat \<Rightarrow> 'e app_entry) \<Rightarrow> (nat \<Rightarrow> nat \<Rightarrow> int) \<Rightarrow> (nat \<Rightarrow> controls) \<Rightarrow> bool \<Rightarrow> nat option \<Rightarrow> nat list
     \<Rightarrow> 'e browser \<times> screen \<Rightarrow> ('e browser \<times> screen) \<times> nat" where
  "browser_switch_mode th info xs ctl widescreen outside entries st =
     (case st of (b, sc) \<Rightarrow>
        let app = (case browser_sel entries b of Entry e \<Rightarrow> Some e | No_Entry \<Rightarrow> None | Outside \<Rightarrow> outside);
            list = (columns_current b = 1);
            b1 = b\<lparr>columns_new := (if list then if widescreen then 4 else 3 else 1)\<rparr>
        in (browser_gen_view th info xs ctl BA_REFRESH entries app (b1, sc), if list then 1 else 0))"

section \<open>The halves of the view\<close>

lemma length_free_half [simp]: "length (free_half h ws) = length ws"
proof -
  have "length (fold (\<lambda>i ws. ws[h + i := widget_free (ws ! (h + i))]) js ws) = length ws" for js
    by (induction js arbitrary: ws) simp_all
  then show ?thesis by (simp add: free_half_def)
qed

lemma nth_fold_update:
  assumes "k < length ws"
  shows "fold (\<lambda>i ws. if P i then ws[h + i := f i] else ws) [0..<m] ws ! k =
    (if h \<le> k \<and> k < h + m \<and> P (k - h) then f (k - h) else ws ! k)"
proof -
  have "length (fold (\<lambda>i ws. if P i then ws[h + i := f i] else ws) js ws) = length ws" for js
    by (induction js arbitrary: ws) simp_all
  then show ?thesis
    using assms by (induction m) (auto simp: nth_list_update less_Suc_eq le_add_diff_inverse)
qed

lemma nth_free_half:
  "k < length ws \<Longrightarrow> free_half h ws ! k = (if h \<le> k \<and> k < h + 20 then no_widget else ws ! k)"
  using nth_fold_update[of k ws "\<lambda>_. True" h "\<lambda>_. no_widget" 20]
  by (simp add: free_half_def widget_free_def browser_consts)

lemma nth_fill_half:
  "k < length ws \<Longrightarrow> fill_half th info entries columns toff x2 o2 ws ! k =
    (if o2 \<le> k \<and> k < o2 + columns * 5 \<and> toff + (k - o2) < length entries
     then entry_widget th info columns x2 (64 + int ((k - o2) div columns) * en_h (th_app_entry th)) (k - o2)
            (entries ! (toff + (k - o2)))
     else ws ! k)"
  using nth_fold_update[of k ws "\<lambda>i. length entries > toff + i" o2]
  by (simp add: fill_half_def browser_consts)

lemma length_fill_half [simp]: "length (fill_half th info entries columns toff x2 o2 ws) = length ws"
proof -
  have "length (fold (\<lambda>i ws. if length entries > toff + i then ws[o2 + i := f i] else ws) js ws) = length ws" for js f
    by (induction js arbitrary: ws) simp_all
  then show ?thesis by (simp add: fill_half_def)
qed

text \<open>What is drawn of an entry does not depend on its place.\<close>

definition layers_of :: "'e theme_ui \<Rightarrow> (nat \<Rightarrow> 'e app_entry) \<Rightarrow> nat \<Rightarrow> nat \<Rightarrow> 'e widget_layer list" where
  "layers_of th info columns e = w_layers (entry_widget th info columns 0 0 0 e)"

lemma entry_widget_layers: "w_layers (entry_widget th info columns x2 y i e) = layers_of th info columns e"
  by (simp add: layers_of_def entry_widget_def widget_app_entry_def widget_grid_app_entry_def widget_init_def Let_def)

lemma entry_widget_flags: "w_flags (entry_widget th info columns x2 y i e) = 15"
  by (simp add: entry_widget_def widget_app_entry_def widget_grid_app_entry_def widget_init_def Let_def WF_defs)

lemma bit_15: "n < 32 \<Longrightarrow> bit (15 :: u32) n \<longleftrightarrow> n < 4"
proof -
  assume n: "n < 32"
  have e: "(15 :: u32) = mask 4" by (simp add: mask_eq_exp_minus_1)
  show "bit (15 :: u32) n \<longleftrightarrow> n < 4" unfolding e bit_mask_iff using n by simp
qed

lemma focusable_entry: "focusable (entry_widget th info columns x2 y i e)"
  by (simp add: focusable_bits entry_widget_flags bit_15)

lemma not_focusable_no_widget [simp]: "\<not> focusable no_widget" "w_flags no_widget = 0"
  by (simp_all add: focusable_bits no_widget_def)

lemma index_of_Some: "index_of es a = Some i \<Longrightarrow> i < length es \<and> es ! i = a"
  by (induction es arbitrary: i) (auto split: if_splits)

lemma index_of_mem: "a \<in> set es \<Longrightarrow> \<exists>i. index_of es a = Some i"
  by (induction es) auto

lemma new_focus_found:
  assumes d: "distinct entries" and i: "i < columns * 5" "toff + i < length entries"
  shows "new_focus entries (Some (entries ! (toff + i))) columns toff o2 = o2 + i"
proof -
  let ?P = "\<lambda>j. length entries > toff + j \<and> Some (entries ! (toff + j)) = Some (entries ! (toff + i))"
  have P: "?P j \<longleftrightarrow> j = i" for j using d i(2) by (auto simp: nth_eq_iff_index_eq)
  have "fold (\<lambda>j f. if ?P j then f + j else f) [0..<m] o2 = (if i < m then o2 + i else o2)" for m
    unfolding P by (induction m) auto
  then show ?thesis using i(1) by (simp add: new_focus_def ROWS_def)
qed

lemma new_focus_index:
  assumes "distinct entries"
  shows "new_focus entries app columns toff o2 = o2
    \<or> (\<exists>i < columns * 5. toff + i < length entries \<and> new_focus entries app columns toff o2 = o2 + i)"
proof (cases "\<exists>i < columns * 5. toff + i < length entries \<and> Some (entries ! (toff + i)) = app")
  case True
  then show ?thesis using new_focus_found[OF assms] by blast
next
  case False
  have "fold (\<lambda>i f. if length entries > toff + i \<and> Some (entries ! (toff + i)) = app then f + i else f) [0..<m] o2 = o2"
    if "m \<le> columns * 5" for m
    using that False by (induction m) auto
  then show ?thesis by (simp add: new_focus_def ROWS_def)
qed

section \<open>What the animation keeps\<close>

lemma bit_set_other:
  "n < 32 \<Longrightarrow> n \<noteq> 0 \<Longrightarrow> bit (w_flags (widget_set_flag WF_VISIBLE on w)) n = bit (w_flags w) n"
  "n < 32 \<Longrightarrow> n \<noteq> 1 \<Longrightarrow> bit (w_flags (widget_set_flag WF_ENABLED on w)) n = bit (w_flags w) n"
proof -
  have "WF_VISIBLE = push_bit 0 1" "WF_ENABLED = push_bit 1 1" by (simp_all add: WF_defs)
  then have b: "n < 32 \<Longrightarrow> bit WF_VISIBLE n \<longleftrightarrow> n = 0" "n < 32 \<Longrightarrow> bit WF_ENABLED n \<longleftrightarrow> n = 1" for n
    using bit_push_1[of n 0] bit_push_1[of n 1] by simp_all
  show "n < 32 \<Longrightarrow> n \<noteq> 0 \<Longrightarrow> bit (w_flags (widget_set_flag WF_VISIBLE on w)) n = bit (w_flags w) n"
    and "n < 32 \<Longrightarrow> n \<noteq> 1 \<Longrightarrow> bit (w_flags (widget_set_flag WF_ENABLED on w)) n = bit (w_flags w) n"
    by (auto simp: widget_set_flag_def bit_or_iff bit_and_iff bit_not_iff b)
qed

text \<open>The entries stay what they are; the arrows may be shown or hidden.\<close>

definition same_entries :: "'e view \<Rightarrow> 'e view \<Rightarrow> bool" where
  "same_entries v v' \<longleftrightarrow>
     length (v_widgets v') = length (v_widgets v)
     \<and> (\<forall>j < length (v_widgets v).
          (5 \<le> j \<longrightarrow> focusable (v_widgets v' ! j) = focusable (v_widgets v ! j)
             \<and> w_layers (v_widgets v' ! j) = w_layers (v_widgets v ! j))
          \<and> bit (w_flags (v_widgets v' ! j)) 2 = bit (w_flags (v_widgets v ! j)) 2)"

lemma same_entries_trans: "same_entries u v \<Longrightarrow> same_entries v w \<Longrightarrow> same_entries u w"
  by (simp add: same_entries_def)

lemma same_entries_widgets: "same_widgets v v' \<Longrightarrow> same_entries v v'"
  by (simp add: same_entries_def same_widgets_def)

lemma nth_place:
  "j < length (v_widgets v) \<Longrightarrow> v_widgets (place xs i v) ! j =
    (if j < 2 \<or> 5 \<le> j then (v_widgets v ! j)\<lparr>w_x := xs i j\<rparr> else v_widgets v ! j)"
  by (simp add: place_def AE_OFFSET_def)

lemma length_place [simp]: "length (v_widgets (place xs i v)) = length (v_widgets v)"
  by (simp add: place_def)

lemma place_keeps:
  "same_entries v (place xs i v)" "view_ok v \<Longrightarrow> view_ok (place xs i v)"
proof -
  have f: "w_flags (v_widgets (place xs i v) ! j) = w_flags (v_widgets v ! j)"
      "w_layers (v_widgets (place xs i v) ! j) = w_layers (v_widgets v ! j)" if "j < length (v_widgets v)" for j
    using that by (simp_all add: nth_place)
  then show "same_entries v (place xs i v)" by (simp add: same_entries_def focusable_bits)
  assume "view_ok v"
  moreover have "v_focus (place xs i v) = v_focus v" "v_cursor (place xs i v) = v_cursor v" by (simp_all add: place_def)
  ultimately show "view_ok (place xs i v)" using f by (simp add: view_ok_def)
qed

lemma show_arrows_keeps:
  assumes "2 \<le> length (v_widgets v)"
  shows "same_entries v (show_arrows l r v)" and "view_ok v \<Longrightarrow> view_ok (show_arrows l r v)"
proof -
  have n: "v_widgets (show_arrows l r v) ! j =
      (if j = 0 then widget_set_flag WF_VISIBLE l (widget_set_flag WF_VISIBLE True (v_widgets v ! 0))
       else if j = 1 then widget_set_flag WF_VISIBLE r (widget_set_flag WF_VISIBLE True (v_widgets v ! 1))
       else v_widgets v ! j)" for j
  proof -
    have "0 < length (v_widgets v)" "1 < length (v_widgets v)" using assms by linarith+
    then show ?thesis by (auto simp: show_arrows_def nth_list_update)
  qed
  have s: "length (v_widgets (show_arrows l r v)) = length (v_widgets v)" "v_focus (show_arrows l r v) = v_focus v"
      "v_cursor (show_arrows l r v) = v_cursor v"
    by (simp_all add: show_arrows_def)
  have f: "bit (w_flags (v_widgets (show_arrows l r v) ! j)) k = bit (w_flags (v_widgets v ! j)) k" if "k < 32" "k \<noteq> 0" for j k
    using that by (simp add: n bit_set_other)
  show "same_entries v (show_arrows l r v)"
    using f[of 2] by (auto simp: same_entries_def s n)
  show "view_ok v \<Longrightarrow> view_ok (show_arrows l r v)"
    using f[of 5] f[of 6] by (simp add: view_ok_def s)
qed

lemma anim_frame_keeps:
  assumes "view_ok v" and "2 \<le> length (v_widgets v)" and "focus < length (v_widgets v)"
  shows "same_entries v (fst (anim_frame xs ctl l r focus i (v, sc)))"
    and "view_ok (fst (anim_frame xs ctl l r focus i (v, sc)))"
proof -
  define v1 where "v1 = fr_view (view_plot sc (ctl i) 0 [] (place xs i v))"
  have v1: "same_entries v v1" "view_ok v1"
    using same_entries_trans[OF place_keeps(1) same_entries_widgets[OF same_view_plot]]
      view_plot_view(1)[OF place_keeps(2)[OF assms(1)]] unfolding v1_def by blast+
  have len: "length (v_widgets v1) = length (v_widgets v)" using v1(1) by (simp add: same_entries_def)
  define v2 where "v2 = show_arrows l r v1"
  have v2: "same_entries v v2" "view_ok v2"
    using show_arrows_keeps[of v1 l r] v1 len assms(2) same_entries_trans unfolding v2_def by auto
  have "length (v_widgets v2) = length (v_widgets v)" using v2(1) by (simp add: same_entries_def)
  then have v3: "same_entries v (view_set_focus (int focus) v2)" "view_ok (view_set_focus (int focus) v2)"
    using view_set_focus_ok(1)[OF v2(2), of "int focus"] assms(3)
      same_entries_trans[OF v2(1) same_entries_widgets[OF same_view_set_focus]] by auto
  have "fst (anim_frame xs ctl l r focus i (v, sc)) = (if i = TRANS_STEPS div 2 then view_set_focus (int focus) v2 else v1)"
    unfolding anim_frame_def v2_def v1_def Let_def by simp
  with v1 v3 show "same_entries v (fst (anim_frame xs ctl l r focus i (v, sc)))"
    and "view_ok (fst (anim_frame xs ctl l r focus i (v, sc)))"
    by simp_all
qed

lemma animation_keeps:
  assumes "view_ok v" and "2 \<le> length (v_widgets v)" and "focus < length (v_widgets v)"
  shows "same_entries v (fst (fold (anim_frame xs ctl l r focus) is (v, sc)))
    \<and> view_ok (fst (fold (anim_frame xs ctl l r focus) is (v, sc)))"
  using assms
proof (induction "is" arbitrary: v sc)
  case (Cons i "is")
  obtain v1 sc1 where f: "anim_frame xs ctl l r focus i (v, sc) = (v1, sc1)" by fastforce
  have v1: "same_entries v v1" "view_ok v1"
    using anim_frame_keeps[OF Cons.prems, of xs ctl l r i sc] unfolding f by simp_all
  then have "length (v_widgets v1) = length (v_widgets v)" by (simp add: same_entries_def)
  with Cons.IH[OF v1(2), of sc1] Cons.prems v1(1) same_entries_trans show ?case by (simp add: f) blast
qed (simp add: same_entries_def)

text \<open>Half way the focus goes to the new page; it stays there unless the pointer moves it.\<close>

lemma no_pointer_focus:
  assumes "view_ok v" and "\<not> c_ir (ctl i)" and "i \<noteq> 10"
  shows "v_focus (fst (anim_frame xs ctl l r focus i (v, sc))) = v_focus v"
  using view_plot_view(2)[OF place_keeps(2)[OF assms(1)], of sc "ctl i" 0 "[]"] assms(2,3)
  by (simp add: anim_frame_def Let_def TRANS_STEPS_def) (simp add: place_def)

lemma no_pointer_focus_fold:
  assumes "view_ok v" and "2 \<le> length (v_widgets v)" and "focus < length (v_widgets v)"
    and "\<forall>i \<in> set js. \<not> c_ir (ctl i) \<and> i \<noteq> 10"
  shows "v_focus (fst (fold (anim_frame xs ctl l r focus) js (v, sc))) = v_focus v"
  using assms
proof (induction js arbitrary: v sc)
  case (Cons i js)
  obtain v1 sc1 where f: "anim_frame xs ctl l r focus i (v, sc) = (v1, sc1)" by fastforce
  have v1: "same_entries v v1" "view_ok v1"
    using anim_frame_keeps[OF Cons.prems(1-3), of xs ctl l r i sc] unfolding f by simp_all
  moreover have "length (v_widgets v1) = length (v_widgets v)" using v1(1) by (simp add: same_entries_def)
  moreover have "v_focus v1 = v_focus v"
    using no_pointer_focus[OF Cons.prems(1), of ctl i xs l r focus sc] Cons.prems(4) by (simp add: f)
  ultimately show ?case using Cons.IH[of v1 sc1] Cons.prems by (simp add: f)
qed simp

lemma animation_focus:
  assumes ok: "view_ok v" and len: "2 \<le> length (v_widgets v)" and f: "focus < length (v_widgets v)"
    and ir: "\<forall>i > 10. \<not> c_ir (ctl i)"
  shows "v_focus (fst (fold (anim_frame xs ctl l r focus) [0..<TRANS_STEPS] (v, sc))) = int focus"
proof -
  have split: "[0..<TRANS_STEPS] = [0..<10] @ [10] @ [11..<20]"
    by (simp add: TRANS_STEPS_def upt_rec)
  obtain v1 sc1 where f1: "fold (anim_frame xs ctl l r focus) [0..<10] (v, sc) = (v1, sc1)" by fastforce
  obtain v2 sc2 where f2: "anim_frame xs ctl l r focus 10 (v1, sc1) = (v2, sc2)" by fastforce
  have v1: "same_entries v v1" "view_ok v1"
    using animation_keeps[OF ok len f, of xs ctl l r "[0..<10]" sc] unfolding f1 by simp_all
  then have l1: "length (v_widgets v1) = length (v_widgets v)" by (simp add: same_entries_def)
  have v2: "same_entries v1 v2" "view_ok v2"
    using anim_frame_keeps[of v1 focus xs ctl l r 10 sc1] v1 l1 len f unfolding f2 by simp_all
  then have l2: "length (v_widgets v2) = length (v_widgets v)" using l1 by (simp add: same_entries_def)
  define v3 where "v3 = show_arrows l r (fr_view (view_plot sc1 (ctl 10) 0 [] (place xs 10 v1)))"
  have "v2 = view_set_focus (int focus) v3"
    using f2 unfolding anim_frame_def v3_def Let_def by (simp add: TRANS_STEPS_def)
  moreover have "view_ok v3" "length (v_widgets v3) = length (v_widgets v)"
  proof -
    let ?p = "fr_view (view_plot sc1 (ctl 10) 0 [] (place xs 10 v1))"
    have "length (v_widgets ?p) = length (v_widgets v)"
      using same_view_plot[of "place xs 10 v1" sc1 "ctl 10" 0 "[]"] l1 by (simp add: same_widgets_def)
    moreover have "view_ok ?p" using view_plot_view(1)[OF place_keeps(2)[OF v1(2)]] .
    ultimately show "view_ok v3" "length (v_widgets v3) = length (v_widgets v)"
      using show_arrows_keeps[of ?p l r] len by (simp_all add: v3_def same_entries_def)
  qed
  ultimately have "v_focus v2 = int focus" using view_set_focus_ok(2)[of v3 "int focus"] f by simp
  moreover have "v_focus (fst (fold (anim_frame xs ctl l r focus) [11..<20] (v2, sc2))) = v_focus v2"
    using v2(2) l2 len f ir by (intro no_pointer_focus_fold) auto
  ultimately show ?thesis unfolding split fold_append comp_apply f1 by (simp add: f2)
qed

section \<open>The focused entry is the selected one\<close>

text \<open>
  Only the entries of the page shown can have the focus; the widget at place \<open>i\<close> of the page shows entry
  \<open>top_offset + i\<close>.
\<close>

definition half :: "'e browser \<Rightarrow> nat" where
  "half b = (if first_set b then 5 else 25)"

definition browser_ok :: "'e theme_ui \<Rightarrow> (nat \<Rightarrow> 'e app_entry) \<Rightarrow> nat list \<Rightarrow> 'e browser \<Rightarrow> bool" where
  "browser_ok th info entries b \<longleftrightarrow>
     view_ok (v_browser b) \<and> length (v_widgets (v_browser b)) = 45
     \<and> 0 < columns_current b \<and> columns_current b \<le> 4 \<and> 0 < columns_new b \<and> columns_new b \<le> 4
     \<and> (\<forall>k < 5. \<not> bit (w_flags (v_widgets (v_browser b) ! k)) 2)
     \<and> (\<forall>k < 45. 5 \<le> k \<longrightarrow> focusable (v_widgets (v_browser b) ! k) \<longrightarrow>
          half b \<le> k \<and> k < half b + columns_current b * 5 \<and> top_offset b + (k - half b) < length entries
          \<and> w_layers (v_widgets (v_browser b) ! k)
            = layers_of th info (columns_current b) (entries ! (top_offset b + (k - half b))))"

lemma browser_ok_same:
  assumes "browser_ok th info entries b" and "same_entries (v_browser b) v" and "view_ok v"
  shows "browser_ok th info entries (b\<lparr>v_browser := v\<rparr>)"
  using assms by (auto simp: browser_ok_def same_entries_def half_def)

lemma browser_ok_set_focus: "browser_ok th info entries b \<Longrightarrow> browser_ok th info entries (browser_set_focus lo bd b)"
proof -
  assume ok: "browser_ok th info entries b"
  then have v: "view_ok (v_browser b)" by (simp add: browser_ok_def)
  have "browser_ok th info entries (b\<lparr>v_browser := view_set_focus_next (v_browser b)\<rparr>)"
    "browser_ok th info entries (b\<lparr>v_browser := view_set_focus_prev (v_browser b)\<rparr>)"
    "browser_ok th info entries (b\<lparr>v_browser := view_move_focus m (v_browser b)\<rparr>)"
    "browser_ok th info entries (b\<lparr>v_browser := v_browser b\<rparr>)" for m
    by (rule browser_ok_same[OF ok same_entries_widgets[OF same_focus_moves(1)] focus_nearest(1)[OF v]]
        browser_ok_same[OF ok same_entries_widgets[OF same_focus_moves(2)] focus_nearest(2)[OF v]]
        browser_ok_same[OF ok same_entries_widgets[OF same_focus_moves(3)] focus_nearest(3)[OF v]]
        browser_ok_same[OF ok same_entries_widgets[OF same_widgets_refl] v])+
  then show ?thesis by (simp add: browser_set_focus_def Let_def)
qed

lemma browser_ok_plot:
  "browser_ok th info entries b \<Longrightarrow> browser_ok th info entries (b\<lparr>v_browser := fr_view (view_plot sc c alpha below (v_browser b))\<rparr>)"
  by (rule browser_ok_same[OF _ same_entries_widgets[OF same_view_plot] view_plot_view(1)]) (assumption, unfold browser_ok_def, blast)

text \<open>The new page after its widgets were made, slid in, and the old half was freed.\<close>

lemma no_widget_layers [simp]: "w_flags (widget_free w) = 0" "widget_free w = no_widget"
  by (simp_all add: widget_free_def no_widget_def)

lemma turn_ok:
  fixes v :: "'e view" and th info entries tp x gone xs ctl l r js sc
  assumes v: "view_ok v" "length (v_widgets v) = 45" "\<forall>k < 5. \<not> bit (w_flags (v_widgets v ! k)) 2"
    and c: "0 < c" "c \<le> 4" and o: "{o1, o2} = {5, 25}" and f: "focus < 45"
  defines "ws \<equiv> (if gone then free_half o2 (v_widgets v) else fill_half th info entries c tp x o2 (free_half o2 (v_widgets v)))"
  defines "v' \<equiv> fst (fold (anim_frame xs ctl l r focus) js (v\<lparr>v_widgets := ws\<rparr>, sc))"
  defines "v'' \<equiv> v'\<lparr>v_widgets := free_half o1 (v_widgets v')\<rparr>"
  shows "view_ok v''" and "length (v_widgets v'') = 45" and "\<forall>k < 5. \<not> bit (w_flags (v_widgets v'' ! k)) 2"
    and "\<forall>k < 45. 5 \<le> k \<longrightarrow> focusable (v_widgets v'' ! k) \<longrightarrow>
          o2 \<le> k \<and> k < o2 + c * 5 \<and> tp + (k - o2) < length entries
          \<and> w_layers (v_widgets v'' ! k) = layers_of th info c (entries ! (tp + (k - o2)))"
    and "\<And>k. \<not> gone \<Longrightarrow> o2 \<le> k \<Longrightarrow> k < o2 + c * 5 \<Longrightarrow> tp + (k - o2) < length entries \<Longrightarrow> focusable (v_widgets v'' ! k)"
    and "view_ok (v\<lparr>v_widgets := ws\<rparr>)"
proof -
  have o12: "o1 = 5 \<and> o2 = 25 \<or> o1 = 25 \<and> o2 = 5" using o by (auto simp: doubleton_eq_iff)
  have len: "length ws = 45" using v(2) by (simp add: ws_def)
  have ws: "ws ! k = (if k < o2 \<or> o2 + 20 \<le> k then v_widgets v ! k
      else if \<not> gone \<and> k < o2 + c * 5 \<and> tp + (k - o2) < length entries
        then entry_widget th info c x (64 + int ((k - o2) div c) * en_h (th_app_entry th)) (k - o2) (entries ! (tp + (k - o2)))
      else no_widget)" if "k < 45" for k
    using that v(2) c by (auto simp: ws_def nth_fill_half nth_free_half)
  have fl: "\<not> bit (w_flags (ws ! k)) 5 \<and> \<not> bit (w_flags (ws ! k)) 6 \<or> ws ! k = v_widgets v ! k" if "k < 45" for k
    using ws[OF that] by (auto simp: entry_widget_flags bit_15)
  show "view_ok (v\<lparr>v_widgets := ws\<rparr>)"
  proof -
    have "(bit (w_flags (ws ! k)) 6 \<longrightarrow> int k = v_focus v) \<and> (bit (w_flags (ws ! k)) 5 \<longrightarrow> int k = v_cursor v)" if "k < 45" for k
      using fl[OF that] v(1,2) that by (auto simp: view_ok_def)
    then show ?thesis using v(1,2) len by (simp add: view_ok_def)
  qed
  note an = animation_keeps[OF this, of focus xs ctl l r js sc]
  have v': "same_entries (v\<lparr>v_widgets := ws\<rparr>) v'" "view_ok v'" using an len f by (simp_all add: v'_def)
  have len': "length (v_widgets v') = 45" using v'(1) len by (simp add: same_entries_def)
  have n: "v_widgets v'' ! k = (if o1 \<le> k \<and> k < o1 + 20 then no_widget else v_widgets v' ! k)" if "k < 45" for k
    using that len' by (simp add: v''_def nth_free_half)
  show "length (v_widgets v'') = 45" using len' by (simp add: v''_def)
  show "view_ok v''"
  proof -
    have "v_focus v'' = v_focus v'" "v_cursor v'' = v_cursor v'" "length (v_widgets v'') = 45"
      using len' by (simp_all add: v''_def)
    then show ?thesis using v'(2) len' n by (auto simp: view_ok_def)
  qed
  show "\<forall>k < 5. \<not> bit (w_flags (v_widgets v'' ! k)) 2"
  proof (intro allI impI)
    fix k :: nat assume "k < 5"
    then have "bit (w_flags (v_widgets v'' ! k)) 2 = bit (w_flags (v_widgets v' ! k)) 2" using n o12 by auto
    also have "\<dots> = bit (w_flags (ws ! k)) 2" using v'(1) len \<open>k < 5\<close> by (simp add: same_entries_def)
    also have "ws ! k = v_widgets v ! k" using ws[of k] o12 \<open>k < 5\<close> by auto
    finally show "\<not> bit (w_flags (v_widgets v'' ! k)) 2" using v(3) \<open>k < 5\<close> by simp
  qed
  show "\<forall>k < 45. 5 \<le> k \<longrightarrow> focusable (v_widgets v'' ! k) \<longrightarrow>
          o2 \<le> k \<and> k < o2 + c * 5 \<and> tp + (k - o2) < length entries
          \<and> w_layers (v_widgets v'' ! k) = layers_of th info c (entries ! (tp + (k - o2)))"
  proof (intro allI impI)
    fix k :: nat assume k: "k < 45" "5 \<le> k" and foc: "focusable (v_widgets v'' ! k)"
    then have "\<not> (o1 \<le> k \<and> k < o1 + 20)" "v_widgets v'' ! k = v_widgets v' ! k" using n by (auto split: if_splits)
    moreover have "focusable (v_widgets v' ! k) = focusable (ws ! k)" "w_layers (v_widgets v' ! k) = w_layers (ws ! k)"
      using v'(1) len k by (simp_all add: same_entries_def)
    moreover have "o2 \<le> k \<and> k < o2 + 20" using calculation(1) k o12 by auto
    ultimately show "o2 \<le> k \<and> k < o2 + c * 5 \<and> tp + (k - o2) < length entries
          \<and> w_layers (v_widgets v'' ! k) = layers_of th info c (entries ! (tp + (k - o2)))"
      using ws[OF k(1)] foc by (auto simp: entry_widget_layers split: if_splits)
  qed
  fix k assume k: "\<not> gone" "o2 \<le> k" "k < o2 + c * 5" "tp + (k - o2) < length entries"
  then have lt: "k < 45" "5 \<le> k" "\<not> (o1 \<le> k \<and> k < o1 + 20)" using o12 c by auto
  then have "focusable (v_widgets v'' ! k) = focusable (ws ! k)"
    using v'(1) len n[OF lt(1)] by (auto simp: same_entries_def)
  then show "focusable (v_widgets v'' ! k)"
    using ws[OF lt(1)] k c by (simp add: focusable_entry del: Nat.add_diff_assoc)
qed

lemma turn_page_keeps:
  "turn_page action entries app b = Some b' \<Longrightarrow>
    v_browser b' = v_browser b \<and> first_set b' = first_set b \<and> columns_current b' = columns_current b \<and> columns_new b' = columns_new b"
  by (auto simp: turn_page_def browser_set_top_offset_def Let_def split: browser_action.splits option.splits if_splits)

lemma browser_gen_view_turned:
  fixes b b' :: "'e browser" and sc ctl xs th info
  assumes ok: "browser_ok th0 info0 entries0 b" and d: "distinct entries" and Some: "turn_page action entries app b = Some b'"
  defines "b'' \<equiv> fst (browser_gen_view th info xs ctl action entries app (b, sc))"
  defines "focus \<equiv> new_focus entries app (columns_new b') (top_offset b') (half b'')"
  shows "browser_ok th info entries b''"
    and "columns_current b'' = columns_new b'" and "first_set b'' = (\<not> first_set b)"
    and "action \<noteq> BA_REMOVE \<Longrightarrow> top_offset b'' = top_offset b'"
    and "action \<noteq> BA_REMOVE \<Longrightarrow> \<forall>i > 10. \<not> c_ir (ctl i) \<Longrightarrow> v_focus (v_browser b'') = int focus"
    and "action \<noteq> BA_REMOVE \<Longrightarrow> top_offset b' + (focus - half b'') < length entries \<Longrightarrow> focusable (v_widgets (v_browser b'') ! focus)"
proof -
  note keep = turn_page_keeps[OF Some]
  define o1 where "o1 = (if first_set b' then AE_OFFSET else AE_OFFSET + MAX_COLUMNS * ROWS)"
  define o2 where "o2 = (if first_set b' then AE_OFFSET + MAX_COLUMNS * ROWS else AE_OFFSET)"
  define c where "c = columns_new b'"
  define l where "l \<longleftrightarrow> action \<noteq> BA_REMOVE \<and> top_offset b' > 0"
  define r where "r \<longleftrightarrow> action \<noteq> BA_REMOVE \<and> length entries > top_offset b' + c * ROWS"
  define foc where "foc = (if action = BA_REMOVE then o2 else new_focus entries app c (top_offset b') o2)"
  define x0 where "x0 = (th_view_width th - en_w (if c = 1 then th_app_entry th else th_grid_app_entry th) * int c) div 2"
  define x2 where "x2 = (if action = BA_PREV then - th_view_width th + x0 else th_view_width th + x0)"
  define ws where "ws = (if action = BA_REMOVE then free_half o2 (v_widgets (v_browser b'))
     else fill_half th info entries c (top_offset b') x2 o2 (free_half o2 (v_widgets (v_browser b'))))"
  define v where "v = fst (fold (anim_frame xs ctl l r foc) [0..<TRANS_STEPS] ((v_browser b')\<lparr>v_widgets := ws\<rparr>, sc))"
  define v2 where "v2 = v\<lparr>v_widgets := free_half o1 (v_widgets v)\<rparr>"
  define toff where "toff = (if action = BA_REMOVE then 0 else top_offset b')"
  have eq: "b'' = b'\<lparr>first_set := \<not> first_set b', v_browser := v2, columns_current := c, top_offset := toff\<rparr>"
    unfolding b''_def browser_gen_view_def prod.case Some option.case v2_def v_def ws_def x2_def x0_def foc_def r_def l_def c_def
      o1_def o2_def toff_def Let_def split_def fst_conv snd_conv Some option.case ..
  have o12: "o1 = (if first_set b then 5 else 25)" "o2 = (if first_set b then 25 else 5)" and c': "c = columns_new b"
    using keep by (simp_all add: o1_def o2_def browser_consts c_def)
  have cc: "0 < c" "c \<le> 4" and v: "view_ok (v_browser b')" "length (v_widgets (v_browser b')) = 45"
      "\<forall>k < 5. \<not> bit (w_flags (v_widgets (v_browser b') ! k)) 2"
    using ok keep by (simp_all add: browser_ok_def c')
  have o: "{o1, o2} = {5, 25}" by (auto simp: o12)
  have "new_focus entries app c (top_offset b') o2 < 45"
    using new_focus_index[OF d, of app c "top_offset b'" o2] cc by (auto simp: o12)
  then have f: "foc < 45" by (simp add: foc_def o12)
  have ws': "ws = (if action = BA_REMOVE then free_half o2 (v_widgets (v_browser b'))
     else fill_half th info entries c toff x2 o2 (free_half o2 (v_widgets (v_browser b'))))"
    by (simp add: ws_def toff_def)
  note t = turn_ok(1-5)[OF v cc o f, where gone = "action = BA_REMOVE" and th = th and info = info and entries = entries and tp = toff
      and x = x2 and xs = xs and ctl = ctl and l = l and r = r and js = "[0..<TRANS_STEPS]" and sc = sc,
      folded ws', folded v_def, folded v2_def]
  note tw = turn_ok(6)[OF v cc o f, where gone = "action = BA_REMOVE" and th = th and info = info and entries = entries
      and tp = toff and x = x2, folded ws']
  have h: "half b'' = o2" using keep by (simp add: eq half_def o12)
  have "half (b'\<lparr>first_set := \<not> first_set b', v_browser := v2, columns_current := c, top_offset := toff\<rparr>) = o2"
    using h by (simp add: eq)
  then show "browser_ok th info entries b''"
    unfolding eq browser_ok_def using t(1-4) cc keep by (simp add: c' del: Nat.add_diff_assoc)
  show "columns_current b'' = columns_new b'" and "first_set b'' = (\<not> first_set b)"
    and "action \<noteq> BA_REMOVE \<Longrightarrow> top_offset b'' = top_offset b'"
    using keep by (simp_all add: eq c_def toff_def)
  assume go: "action \<noteq> BA_REMOVE"
  then have foc: "foc = focus" unfolding foc_def focus_def h c_def by simp
  have lws: "length ws = 45" using v by (simp add: ws_def)
  show "v_focus (v_browser b'') = int focus" if ir: "\<forall>i > 10. \<not> c_ir (ctl i)"
  proof -
    have "view_ok ((v_browser b')\<lparr>v_widgets := ws\<rparr>)" by (rule tw)
    from animation_focus[OF this _ _ ir, of foc xs l r sc] have "v_focus v = int foc"
      using f lws by (simp add: v_def)
    then show ?thesis by (simp add: eq v2_def foc)
  qed
  show "focusable (v_widgets (v_browser b'') ! focus)" if "top_offset b' + (focus - half b'') < length entries"
  proof -
    have "o2 \<le> focus \<and> focus < o2 + c * 5"
      using new_focus_index[OF d, of app c "top_offset b'" o2] cc unfolding focus_def h c_def by auto
    then show ?thesis using t(5)[of focus] that go h toff_def by (simp add: eq del: Nat.add_diff_assoc)
  qed
qed

lemma widget_image_flags: "w_flags (widget_image x y z img d r c w) = (if r then 11 else 3)"
  by (simp add: widget_image_def widget_init_def Let_def WF_defs)

lemma browser_theme_reinit_ok:
  assumes "inited \<Longrightarrow> length (v_widgets (v_browser b)) = 45 \<and> view_ok (v_browser b)"
    and "\<not> inited \<Longrightarrow> v_browser b = view_new 45 0 0 0 0"
    and "0 < columns_current b" "columns_current b \<le> 4" "0 < columns_new b" "columns_new b \<le> 4"
  shows "browser_ok th info entries (browser_theme_reinit th conn inited b)"
proof -
  let ?b = "browser_theme_reinit th conn inited b"
  have len: "length (v_widgets (v_browser b)) = 45" using assms(1,2) by (cases inited) (auto simp: view_new_def)
  have foc: "- 1 \<le> v_focus (v_browser b)" "v_focus (v_browser b) < 45" "- 1 \<le> v_cursor (v_browser b)" "v_cursor (v_browser b) < 45"
    using assms(1,2) by (cases inited; auto simp: view_new_def view_ok_def)+
  have zero: "(if inited then map widget_free (v_widgets (v_browser b)) else v_widgets (v_browser b)) = replicate 45 no_widget"
    using len assms(2) by (cases inited) (auto simp: view_new_def widget_free_def intro!: nth_equalityI)
  have bits: "\<not> bit (11 :: u32) 2" "\<not> bit (11 :: u32) 5" "\<not> bit (11 :: u32) 6"
    "\<not> bit (3 :: u32) 2" "\<not> bit (3 :: u32) 5" "\<not> bit (3 :: u32) 6"
    by code_simp+
  have n: "\<not> bit (w_flags (v_widgets (v_browser ?b) ! k)) 2 \<and> \<not> bit (w_flags (v_widgets (v_browser ?b) ! k)) 5
      \<and> \<not> bit (w_flags (v_widgets (v_browser ?b) ! k)) 6" if "k < 45" for k
    using that unfolding browser_theme_reinit_def zero Let_def
    by (auto simp: nth_list_update bit_set_other widget_image_flags bits)
  moreover have s: "length (v_widgets (v_browser ?b)) = 45" "v_focus (v_browser ?b) = v_focus (v_browser b)"
    "v_cursor (v_browser ?b) = v_cursor (v_browser b)" "columns_current ?b = columns_current b" "columns_new ?b = columns_new b"
    using len by (simp_all add: browser_theme_reinit_def Let_def)
  moreover have "view_ok (v_browser ?b)" using n foc by (simp add: view_ok_def s)
  ultimately show ?thesis using assms(3-6) by (simp add: browser_ok_def focusable_bits)
qed


text \<open>
  What the main loop does with the browser, in any order: it starts, changes the theme, moves the focus, draws frames
  with the pointer, turns pages, and switches between the list and the grid. The list of applications and their descriptions
  can change at any time; \<open>page\<close> and \<open>info\<close> are those of the last page that was made. A request for the page before the
  first or after the last one makes no page.
\<close>

inductive browser_reach :: "(nat \<Rightarrow> 'e app_entry) \<Rightarrow> 'e theme_ui \<Rightarrow> nat list \<Rightarrow> 'e browser \<Rightarrow> bool" where
  start: "browser_reach info th page (browser_init th conn True 0 1 1)"
| theme: "browser_reach info th page b \<Longrightarrow> browser_reach info th' page (browser_theme_reinit th' conn True b)"
| focus: "browser_reach info th page b \<Longrightarrow> browser_reach info th page (browser_set_focus lo bd b)"
| plot: "browser_reach info th page b \<Longrightarrow>
    browser_reach info th page (b\<lparr>v_browser := fr_view (view_plot sc c alpha below (v_browser b))\<rparr>)"
| turn: "browser_reach info th page b \<Longrightarrow> distinct entries \<Longrightarrow> turn_page action entries app b \<noteq> None \<Longrightarrow>
    browser_reach info' th entries (fst (browser_gen_view th info' xs ctl action entries app (b, sc)))"
| stay: "browser_reach info th page b \<Longrightarrow> turn_page action entries app b = None \<Longrightarrow>
    browser_reach info th page (fst (browser_gen_view th info' xs ctl action entries app (b, sc)))"
| switch: "browser_reach info th page b \<Longrightarrow> distinct entries \<Longrightarrow>
    browser_reach info' th entries (fst (fst (browser_switch_mode th info' xs ctl wide outside entries (b, sc))))"

lemma browser_reach_ok: "browser_reach info th page b \<Longrightarrow> browser_ok th info page b"
proof (induction rule: browser_reach.induct)
  case (start info th page conn)
  show ?case unfolding browser_init_def
    by (rule browser_theme_reinit_ok) (simp_all add: browser_consts)
next
  case (theme info th page b th' conn)
  then show ?case by (intro browser_theme_reinit_ok) (simp_all add: browser_ok_def)
next
  case (turn info th page b entries action app info' xs ctl sc)
  then show ?case using browser_gen_view_turned(1)[OF turn.IH turn.hyps(2)] by auto
next
  case (stay info th page b action entries app info' xs ctl sc)
  then show ?case by (simp add: browser_gen_view_def)
next
  case (switch info th page b entries info' xs ctl wide outside sc)
  have cols: "browser_ok th info page (b\<lparr>columns_new := c\<rparr>)" if "0 < c" "c \<le> 4" for c
  proof -
    have "half (b\<lparr>columns_new := c\<rparr>) = half b" by (simp add: half_def)
    then show ?thesis using switch.IH that unfolding browser_ok_def by (simp del: Nat.add_diff_assoc)
  qed
  have ok: "browser_ok th info page (b\<lparr>columns_new := (if columns_current b = 1 then if wide then 4 else 3 else 1)\<rparr>)"
    by (rule cols) simp_all
  have "turn_page BA_REFRESH entries a c = Some (browser_set_top_offset entries a c)" for a and c :: "'e browser"
    by (simp add: turn_page_def)
  from browser_gen_view_turned(1)[OF ok switch.hyps(2) this] show ?case
    unfolding browser_switch_mode_def prod.case Let_def fst_conv by blast
qed (simp_all add: browser_ok_set_focus browser_ok_plot)

text \<open>
  The widget with the focus shows an entry of the list of its page, and the selection is whatever the list of applications
  holds at the same index.
\<close>

lemma browser_sel_focused:
  assumes ok: "browser_ok th info page b" and f: "0 \<le> v_focus (v_browser b)"
    and foc: "focusable (v_widgets (v_browser b) ! nat (v_focus (v_browser b)))" and small: "length page < 2 ^ 32"
  shows "\<exists>i < length page.
    w_layers (v_widgets (v_browser b) ! nat (v_focus (v_browser b))) = layers_of th info (columns_current b) (page ! i)
    \<and> (\<forall>entries. browser_sel entries b
        = (if entries = [] then No_Entry else if i < length entries then Entry (entries ! i) else Outside))"
proof -
  define k where "k = nat (v_focus (v_browser b))"
  have vf: "v_focus (v_browser b) = int k" using f by (simp add: k_def)
  have "k < 45" using ok f by (auto simp: browser_ok_def view_ok_def k_def)
  have fk: "focusable (v_widgets (v_browser b) ! k)" using foc by (simp add: k_def)
  moreover have "5 \<le> k"
  proof (rule ccontr)
    assume "\<not> 5 \<le> k"
    then have "\<not> bit (w_flags (v_widgets (v_browser b) ! k)) 2" using ok by (simp add: browser_ok_def)
    with fk show False by (simp add: focusable_bits)
  qed
  ultimately have k: "half b \<le> k" "top_offset b + (k - half b) < length page"
    "w_layers (v_widgets (v_browser b) ! k) = layers_of th info (columns_current b) (page ! (top_offset b + (k - half b)))"
    using ok \<open>k < 45\<close> by (simp_all add: browser_ok_def del: Nat.add_diff_assoc)
  define i where "i = top_offset b + (k - half b)"
  have "(if first_set b then int (top_offset b) + int k - int AE_OFFSET
      else int (top_offset b) + int k - int (MAX_COLUMNS * ROWS) - int AE_OFFSET) = int i"
    using k(1) by (auto simp: i_def half_def browser_consts)
  moreover have "int i mod 2 ^ 32 = int i" using k(2) small unfolding i_def [symmetric] by (intro mod_pos_pos_trivial) auto
  ultimately have "browser_sel es b = (if es = [] then No_Entry else if i < length es then Entry (es ! i) else Outside)" for es
    using \<open>5 \<le> k\<close> unfolding browser_sel_def vf Let_def by (auto simp: AE_OFFSET_def)
  then show ?thesis using k(2,3) unfolding k_def [symmetric] i_def [symmetric] by blast
qed

lemma set_top_offset_page:
  assumes "i < length entries" "entries ! i = a" "distinct entries" "length entries \<le> 65536" "0 < columns_new b"
  defines "toff \<equiv> i div (columns_new b * 5) * (columns_new b * 5)"
  shows "browser_set_top_offset entries (Some a) b = b\<lparr>top_offset := toff\<rparr>" and "toff \<le> i" and "i - toff < columns_new b * 5"
proof -
  obtain j where "index_of entries a = Some j" using index_of_mem[of a entries] assms(1,2) by auto
  moreover from index_of_Some[OF this] have "j = i" using assms(1-3) by (auto simp: nth_eq_iff_index_eq)
  ultimately have j: "index_of entries a = Some i" by simp
  show le: "toff \<le> i" by (simp add: toff_def)
  have "\<not> toff > length entries - 1" "\<not> length entries < 1" "i mod 65536 = i" using le assms(1,4) by auto
  then show "browser_set_top_offset entries (Some a) b = b\<lparr>top_offset := toff\<rparr>"
    unfolding browser_set_top_offset_def Let_def j ROWS_def option.case toff_def by simp
  have "i - toff = i mod (columns_new b * 5)" by (simp add: toff_def minus_div_mult_eq_mod)
  then show "i - toff < columns_new b * 5" using assms(5) by simp
qed

lemma refresh_selects:
  fixes b :: "'e browser" and xs sc
  assumes ok: "browser_ok th info entries0 b" and d: "distinct entries" and a: "a \<in> set entries" and len: "length entries \<le> 65536"
    and act: "action \<in> {BA_ADD, BA_REFRESH}" and ir: "\<forall>i > 10. \<not> c_ir (ctl i)"
  defines "b'' \<equiv> fst (browser_gen_view th info xs ctl action entries (Some a) (b, sc))"
  shows "browser_sel entries b'' = Entry a" and "0 \<le> v_focus (v_browser b'')"
    and "focusable (v_widgets (v_browser b'') ! nat (v_focus (v_browser b'')))"
proof -
  obtain i where i: "i < length entries" "entries ! i = a" using a by (auto simp: in_set_conv_nth)
  have c: "0 < columns_new b" using ok by (simp add: browser_ok_def)
  define toff where "toff = i div (columns_new b * 5) * (columns_new b * 5)"
  define b' where "b' = b\<lparr>top_offset := toff\<rparr>"
  note p = set_top_offset_page[OF i d len c, folded toff_def]
  have turn: "turn_page action entries (Some a) b = Some b'" using act p(1) by (auto simp: turn_page_def b'_def)
  have b': "columns_new b' = columns_new b" "top_offset b' = toff" by (simp_all add: b'_def)
  have rem: "action \<noteq> BA_REMOVE" using act by auto
  note t = browser_gen_view_turned[OF ok d turn, where th = th and info = info and xs = xs and ctl = ctl and sc = sc, folded b''_def, unfolded b']
  have "new_focus entries (Some a) (columns_new b) toff (half b'') = half b'' + (i - toff)"
    using new_focus_found[OF d p(3), of toff "half b''"] p(2) i by simp
  with t(5)[OF rem ir] t(6)[OF rem] p(2) i(1)
  have f: "v_focus (v_browser b'') = int (half b'' + (i - toff))" and foc: "focusable (v_widgets (v_browser b'') ! (half b'' + (i - toff)))"
    by simp_all
  show "0 \<le> v_focus (v_browser b'')" "focusable (v_widgets (v_browser b'') ! nat (v_focus (v_browser b'')))"
    unfolding f nat_int using foc by simp_all
  have top: "top_offset b'' = toff" using t(4)[OF rem] by simp
  have "(if first_set b'' then int (top_offset b'') + v_focus (v_browser b'') - int AE_OFFSET
      else int (top_offset b'') + v_focus (v_browser b'') - int (MAX_COLUMNS * ROWS) - int AE_OFFSET) = int i"
    unfolding top f using p(2) by (auto simp: half_def browser_consts)
  moreover have "int i mod 2 ^ 32 = int i" using i(1) len by (intro mod_pos_pos_trivial) auto
  moreover have "\<not> (length entries < 1 \<or> v_focus (v_browser b'') < int AE_OFFSET)"
    unfolding f using i(1) by (auto simp: half_def AE_OFFSET_def)
  ultimately show "browser_sel entries b'' = Entry a"
    unfolding browser_sel_def Let_def using i by simp
qed

text \<open>
  The focus may be left in the half that is freed, where the pointer put it in a late frame: no widget has it then, and
  the selection reads past the list of entries.
\<close>

lemma focus_left_outside:
  assumes "first_set b" and "v_focus (v_browser b) = int k" and "25 \<le> k" "k < 45"
    and "entries \<noteq> []" and "length entries \<le> top_offset b + 20" and "top_offset b < 65536"
  shows "browser_sel entries b = Outside"
proof -
  define i where "i = top_offset b + (k - 5)"
  have "int (top_offset b) + int k - int AE_OFFSET = int i" using assms(3) by (simp add: i_def AE_OFFSET_def)
  moreover have "int i mod 2 ^ 32 = int i" using assms(4,7) unfolding i_def by (intro mod_pos_pos_trivial) auto
  moreover have "\<not> int i < int (length entries)" using assms(3,6) by (simp add: i_def)
  ultimately show ?thesis using assms unfolding browser_sel_def Let_def by (simp add: AE_OFFSET_def)
qed


section \<open>Correctness\<close>

text \<open>A theme of one size, entries without icons, every widget at the left edge, no pointer.\<close>

definition plain_theme :: "nat theme_ui" where
  "plain_theme =
     (let e = (\<lambda>n. \<lparr>en_id = n, en_w = 400, en_h = 64\<rparr>)
      in \<lparr>th_arrow_left = e 0, th_arrow_left_focus = e 1, th_arrow_right = e 2, th_arrow_right_focus = e 3, th_gecko = e 4,
          th_gecko_active = e 5, th_lan = e 6, th_lan_active = e 7, th_wlan = e 8, th_wlan_active = e 9, th_dlg_error = e 10,
          th_logo = e 11, th_app_entry = e 12, th_app_entry_focus = e 13, th_grid_app_entry = e 14,
          th_grid_app_entry_focus = e 15, th_no_description = ''none'', th_view_width = 640\<rparr>)"

definition plain_info :: "nat \<Rightarrow> nat app_entry" where
  "plain_info e = \<lparr>ae_dirname = ''app'', ae_icon = None, ae_name = None, ae_description = None\<rparr>"

definition no_pointer :: "nat \<Rightarrow> controls" where
  "no_pointer i = \<lparr>c_lo = \<lparr>pad_mask = \<lambda>_. 1, wpad_mask = \<lambda>_. 2, nunchuk_mask = \<lambda>_. 4, classic_mask = \<lambda>_. 4,
     gh3_mask = \<lambda>_. 4\<rparr>, c_down = 0, c_held = 0, c_up = 0, c_ir = False, c_x = 0, c_y = 0\<rparr>"

definition shown :: screen where
  "shown = \<lparr>cursor_enabled = True, rumble_enabled = False, throbber_enabled = False, rumble_timeout = - 12, fading = False,
     viewing = True, view_bubbles = False, view_fakelogo = False, egg = False\<rparr>"

definition first_page :: "nat browser" where
  "first_page = fst (browser_gen_view plain_theme plain_info (\<lambda>i k. 0) no_pointer BA_REFRESH [3, 4, 5] (Some 4)
     (browser_init plain_theme 1 True 0 1 1, shown))"

lemma first_page_focus:
  "browser_reach plain_info plain_theme [3, 4, 5] first_page" "0 \<le> v_focus (v_browser first_page)"
  "focusable (v_widgets (v_browser first_page) ! nat (v_focus (v_browser first_page)))"
proof -
  have r: "browser_reach plain_info plain_theme [3, 4, 5] (browser_init plain_theme 1 True 0 1 1)" by (rule browser_reach.start)
  show "browser_reach plain_info plain_theme [3, 4, 5] first_page"
    unfolding first_page_def by (rule browser_reach.turn[OF r]) (simp_all add: turn_page_def)
  show "0 \<le> v_focus (v_browser first_page)"
    "focusable (v_widgets (v_browser first_page) ! nat (v_focus (v_browser first_page)))"
    unfolding first_page_def by (rule refresh_selects[OF browser_reach_ok[OF r]]; simp add: no_pointer_def)+
qed

text \<open>
  C33: Whatever was done with the browser, and whatever became of the list of applications since the page was made, a widget
  that has the focus shows the texts and the icon of an entry of the list of its page, and the selection is what the list of
  applications now holds at the place of this entry: the entry itself as long as the list is still that of the page.
\<close>

theorem browser_selects_focused:
  assumes "browser_reach info th page b" and "0 \<le> v_focus (v_browser b)"
    and "focusable (v_widgets (v_browser b) ! nat (v_focus (v_browser b)))" and "length page < 2 ^ 32"
  shows "\<exists>i < length page.
    w_layers (v_widgets (v_browser b) ! nat (v_focus (v_browser b))) = layers_of th info (columns_current b) (page ! i)
    \<and> browser_sel page b = Entry (page ! i)
    \<and> (\<forall>entries. browser_sel entries b
        = (if entries = [] then No_Entry else if i < length entries then Entry (entries ! i) else Outside))"
proof -
  obtain i where i: "i < length page"
    "w_layers (v_widgets (v_browser b) ! nat (v_focus (v_browser b))) = layers_of th info (columns_current b) (page ! i)"
    "\<forall>es. browser_sel es b = (if es = [] then No_Entry else if i < length es then Entry (es ! i) else Outside)"
    using browser_sel_focused[OF browser_reach_ok[OF assms(1)] assms(2-4)] by blast
  from i(1,3) have "browser_sel page b = Entry (page ! i)" by auto
  with i show ?thesis by blast
qed

theorem browser_selects_focused_witness:
  "\<exists>e \<in> {3, 4, 5}. browser_sel [3, 4, 5] first_page = Entry e
    \<and> w_layers (v_widgets (v_browser first_page) ! nat (v_focus (v_browser first_page)))
      = layers_of plain_theme plain_info (columns_current first_page) e"
proof -
  obtain i where "i < length [3, 4, 5 :: nat]" "browser_sel [3, 4, 5] first_page = Entry ([3, 4, 5] ! i)"
    "w_layers (v_widgets (v_browser first_page) ! nat (v_focus (v_browser first_page)))
      = layers_of plain_theme plain_info (columns_current first_page) ([3, 4, 5] ! i)"
    using browser_selects_focused[OF first_page_focus] by auto
  moreover have "[3, 4, 5 :: nat] ! i \<in> set [3, 4, 5]" using calculation(1) by (rule nth_mem)
  ultimately show ?thesis by (intro bexI[of _ "[3, 4, 5] ! i"]) simp_all
qed

text \<open>
  An application that is uploaded again and then cannot be loaded is dropped from the list without a new page: here the page
  shows 4 with the focus, and the selection is 5.
\<close>

lemma browser_selects_another: "browser_sel [3, 4, 5] first_page = Entry 4" "browser_sel [3, 5] first_page = Entry 5"
proof -
  have r: "browser_reach plain_info plain_theme [3, 4, 5] (browser_init plain_theme 1 True 0 1 1)" by (rule browser_reach.start)
  show four: "browser_sel [3, 4, 5] first_page = Entry 4"
    unfolding first_page_def by (rule refresh_selects(1)[OF browser_reach_ok[OF r]]; simp add: no_pointer_def)
  have "length [3, 4, 5 :: nat] < 2 ^ 32" by simp
  from browser_sel_focused[OF browser_reach_ok[OF first_page_focus(1)] first_page_focus(2,3) this]
  obtain i where i: "i < length [3, 4, 5 :: nat]"
    and sel: "\<forall>es. browser_sel es first_page = (if es = [] then No_Entry else if i < length es then Entry (es ! i) else Outside)"
    by blast
  from sel[rule_format, of "[3, 4, 5]"] four i have "[3, 4, 5 :: nat] ! i = 4" by simp
  then have "i = 1" using i by (cases i; cases "i - 1") (simp_all add: less_Suc_eq)
  with sel[rule_format, of "[3, 5]"] show "browser_sel [3, 5] first_page = Entry 5" by simp
qed

text \<open>
  A new page asked for with an application of the list (\<^verbatim>\<open>browser_gen_view
\<close>, \<^verbatim>\<open>BA_ADD\<close> or \<^verbatim>\<open>BA_REFRESH\<close>) has
  that application selected at the end of the animation, when no pointer is on the screen after the focus was set.\<close>

lemma browser_refresh_selects:
  assumes "browser_reach info th entries0 b" and "distinct entries" and "a \<in> set entries" and "length entries \<le> 65536"
    and "action \<in> {BA_ADD, BA_REFRESH}" and "\<forall>i > 10. \<not> c_ir (ctl i)"
  shows "browser_sel entries (fst (browser_gen_view th info xs ctl action entries (Some a) (b, sc))) = Entry a"
  by (rule refresh_selects(1)[OF browser_reach_ok[OF assms(1)] assms(2-6)])

lemma browser_refresh_selects_example:
  "browser_sel [9, 4, 8, 7] (fst (browser_gen_view plain_theme plain_info (\<lambda>i k. 0) no_pointer BA_ADD [9, 4, 8, 7] (Some 8)
     (first_page, shown))) = Entry 8"
  by (rule browser_refresh_selects[OF first_page_focus(1)]) (simp_all add: no_pointer_def)

end
