(* ===== verification/Font.thy ===== *)
theory Font
  imports HBC_Prelude
begin

text \<open>
  Text, \<^verbatim>\<open>channelapp/source/font.c\<close>: decoding of UTF-8, the cache of glyphs, and the loops that measure, wrap and lay out
  a string. FreeType is a parameter: \<open>ft\<close> gives what it renders for a code point at the size of the font, or \<open>None\<close> when
  one of its calls fails, and \<open>kern\<close> the kerning of two glyphs. A string is the list of its bytes without the NUL. The
  sums of advances are integers.
\<close>

section \<open>UTF-8\<close>

text \<open>A byte of the string, or the NUL at its end. The result is the code point and the bytes taken.\<close>

definition at :: "u8 list \<Rightarrow> nat \<Rightarrow> u8" where
  "at s k = (if k < length s then s ! k else 0)"

definition cont :: "u8 \<Rightarrow> bool" where
  "cont c \<longleftrightarrow> c AND 0xc0 = 0x80"

definition low6 :: "u8 \<Rightarrow> u32" where
  "low6 c = ucast (c AND 0x3f)"

text \<open>In a malformed sequence of \<open>n\<close> bytes the first is skipped, and then those up to a NUL.\<close>

definition skip_bad :: "u8 list \<Rightarrow> nat \<Rightarrow> nat" where
  "skip_bad s n = fold (\<lambda>_ c. if at s c \<noteq> 0 then c + 1 else c) [1..<n] 1"

definition utf8_get_char :: "u8 list \<Rightarrow> u32 \<times> nat" where
  "utf8_get_char s =
     (let c = at s in
      if c 0 = 0 then (0, 0)
      else if c 0 \<le> 0x7f then (ucast (c 0), 1)
      else if c 0 \<ge> 0xc0 \<and> c 0 \<le> 0xdf then
        (if \<not> cont (c 1) then (63, skip_bad s 2)
         else (low6 (c 1) OR push_bit 6 (ucast (c 0 AND 0x1f)), 2))
      else if c 0 \<ge> 0xe0 \<and> c 0 \<le> 0xef then
        (if \<not> cont (c 1) \<or> \<not> cont (c 2) then (63, skip_bad s 3)
         else (low6 (c 2) OR push_bit 6 (low6 (c 1)) OR push_bit 12 (ucast (c 0 AND 0x1f)), 3))
      else if c 0 \<ge> 0xf0 \<and> c 0 \<le> 0xf7 then
        (if \<not> cont (c 1) \<or> \<not> cont (c 2) \<or> \<not> cont (c 3) then (63, skip_bad s 4)
         else (low6 (c 3) OR push_bit 6 (low6 (c 2)) OR push_bit 12 (low6 (c 1)) OR push_bit 18 (ucast (c 0 AND 0x1f)), 4))
      else (63, 1))"

section \<open>Glyphs\<close>

record ft_glyph =
  ft_index :: nat
  ft_advance_x :: int
  ft_advance_y :: int
  ft_width :: nat
  ft_rows :: nat
  ft_left :: int
  ft_top :: int

record font_glyph =
  codepoint :: int
  next_idx :: int
  glyph_index :: nat
  valid :: bool
  g_x :: int
  g_y :: int
  g_w :: int
  g_h :: int
  dx :: int
  dy :: int

definition zero_glyph :: font_glyph where
  "zero_glyph = \<lparr>codepoint = 0, next_idx = 0, glyph_index = 0, valid = False, g_x = 0, g_y = 0, g_w = 0, g_h = 0, dx = 0, dy = 0\<rparr>"

definition render :: "(int \<Rightarrow> ft_glyph option) \<Rightarrow> int \<Rightarrow> font_glyph" where
  "render ft cp =
     (let g = zero_glyph\<lparr>codepoint := cp, next_idx := - 1\<rparr>
      in case ft cp of
           None \<Rightarrow> g
         | Some b \<Rightarrow>
             let g1 = g\<lparr>dx := ft_advance_x b, dy := ft_advance_y b, glyph_index := ft_index b, g_w := int (ft_width b),
                        g_h := int (ft_rows b)\<rparr>
             in if ft_width b = 0 \<or> ft_rows b = 0 then g1
                else g1\<lparr>g_x := ft_left b, g_y := ft_top b, valid := True\<rparr>)"

text \<open>The texture of a glyph: its pixels in tiles of 8 by 4 bytes.\<close>

definition tile_size :: "nat \<Rightarrow> nat \<Rightarrow> nat" where
  "tile_size cw ch = (cw + 7) div 8 * ((ch + 3) div 4) * 32"

definition tile_offset :: "nat \<Rightarrow> nat \<Rightarrow> nat \<Rightarrow> nat" where
  "tile_offset cw x y = y div 4 * ((cw + 7) div 8 * 32) + y mod 4 * 8 + 32 * (x div 8) + x mod 8"

definition tile_pixels :: "(nat \<Rightarrow> u8) \<Rightarrow> nat \<Rightarrow> nat \<Rightarrow> nat \<Rightarrow> u8 list" where
  "tile_pixels buffer pitch cw ch =
     fold (\<lambda>y pix. fold (\<lambda>x pix. pix[tile_offset cw x y := buffer (y * pitch + x)]) [0..<cw] pix) [0..<ch]
       (replicate (tile_size cw ch) 0)"

text \<open>The cache: 64 roots and the glyphs chained to them.\<close>

definition GLYPH_CACHE_ROOT :: nat where "GLYPH_CACHE_ROOT = 64"
definition GLYPH_CACHE_INIT :: nat where "GLYPH_CACHE_INIT = 32"
definition GLYPH_CACHE_GROW :: nat where "GLYPH_CACHE_GROW = 32"

lemmas cache_consts = GLYPH_CACHE_ROOT_def GLYPH_CACHE_INIT_def GLYPH_CACHE_GROW_def

record font_face =
  max_glyphs :: nat
  num_glyphs :: nat
  glyphs :: "font_glyph list"

definition empty_face :: font_face where
  "empty_face =
     \<lparr>max_glyphs = GLYPH_CACHE_ROOT + GLYPH_CACHE_INIT, num_glyphs = GLYPH_CACHE_ROOT,
      glyphs = replicate (GLYPH_CACHE_ROOT + GLYPH_CACHE_INIT) (zero_glyph\<lparr>codepoint := - 1, next_idx := - 1\<rparr>)\<rparr>"

text \<open>The glyph of the chain with the code point, or the end of the chain.\<close>

partial_function (option) find_glyph :: "font_glyph list \<Rightarrow> int \<Rightarrow> nat \<Rightarrow> (bool \<times> nat) option" where
  "find_glyph gs cp i =
     (if codepoint (gs ! i) = cp then Some (True, i)
      else if next_idx (gs ! i) = - 1 then Some (False, i)
      else find_glyph gs cp (nat (next_idx (gs ! i))))"

definition add_glyph :: "(int \<Rightarrow> ft_glyph option) \<Rightarrow> int \<Rightarrow> nat \<Rightarrow> font_face \<Rightarrow> nat \<times> font_face" where
  "add_glyph ft cp i f =
     (let gs = (glyphs f)[i := (glyphs f ! i)\<lparr>next_idx := int (num_glyphs f)\<rparr>];
          grow = (num_glyphs f = max_glyphs f);
          gs1 = (if grow then gs @ replicate GLYPH_CACHE_GROW zero_glyph else gs)
      in (num_glyphs f,
          f\<lparr>glyphs := gs1[num_glyphs f := render ft cp], num_glyphs := num_glyphs f + 1,
             max_glyphs := (if grow then max_glyphs f + GLYPH_CACHE_GROW else max_glyphs f)\<rparr>))"

text \<open>The index of the glyph is the pointer that the code returns.\<close>

definition font_get_char :: "(int \<Rightarrow> ft_glyph option) \<Rightarrow> int \<Rightarrow> font_face \<Rightarrow> (nat \<times> font_face) option" where
  "font_get_char ft cp f =
     (let r = nat (cp mod int GLYPH_CACHE_ROOT)
      in if codepoint (glyphs f ! r) \<noteq> - 1
         then (case find_glyph (glyphs f) cp r of
                 None \<Rightarrow> None
               | Some (True, i) \<Rightarrow> Some (i, f)
               | Some (False, i) \<Rightarrow> Some (add_glyph ft cp i f))
         else Some (r, f\<lparr>glyphs := (glyphs f)[r := render ft cp]\<rparr>))"

section \<open>Measuring\<close>

text \<open>The pen: its position, the advance that is due, and the previous glyph.\<close>

record pen =
  p_cx :: int
  p_cy :: int
  p_cdx :: int
  p_cdy :: int
  p_previous :: nat

definition pen_start :: pen where
  "pen_start = \<lparr>p_cx = 0, p_cy = 0, p_cdx = 0, p_cdy = 0, p_previous = 0\<rparr>"

type_synonym kern = "nat \<Rightarrow> nat \<Rightarrow> int \<times> int"

definition font_kern :: "kern \<Rightarrow> nat \<Rightarrow> nat \<Rightarrow> int \<times> int \<Rightarrow> int \<times> int" where
  "font_kern kern left right d = (fst d + fst (kern left right), snd d + snd (kern left right))"

definition pen_advance :: "kern \<Rightarrow> font_glyph \<Rightarrow> pen \<Rightarrow> pen" where
  "pen_advance kern g p =
     (let d = (if p_previous p \<noteq> 0 then font_kern kern (p_previous p) (glyph_index g) (p_cdx p, p_cdy p) else (p_cdx p, p_cdy p))
      in p\<lparr>p_cx := p_cx p + (fst d + 32) div 64, p_cy := p_cy p + (snd d + 32) div 64, p_cdx := fst d, p_cdy := snd d\<rparr>)"

definition pen_glyph :: "font_glyph \<Rightarrow> pen \<Rightarrow> pen" where
  "pen_glyph g p = p\<lparr>p_cdx := dx g, p_cdy := dy g, p_previous := glyph_index g\<rparr>"

text \<open>What the loops do with a decoded character: newlines are spaces unless they end the text, returns are skipped.\<close>

definition text_char :: "u32 \<Rightarrow> u8 list \<Rightarrow> u32 option" where
  "text_char mbc s' = (if mbc = 10 then if s' \<noteq> [] then Some 32 else None else if mbc = 13 then None else Some mbc)"

lemma utf8_get_char_step: "fst (utf8_get_char s) \<noteq> 0 \<Longrightarrow> length (drop (snd (utf8_get_char s)) s) < length s"
proof -
  have "skip_bad s n \<ge> 1" for n
  proof -
    have "fold (\<lambda>_ c. if at s c \<noteq> 0 then c + 1 else c) js k \<ge> k" for js :: "nat list" and k
      by (induction js arbitrary: k) (auto intro: le_trans[OF le_add1[of _ 1]])
    then show ?thesis by (simp add: skip_bad_def)
  qed
  moreover assume "fst (utf8_get_char s) \<noteq> 0"
  ultimately have "s \<noteq> [] \<and> snd (utf8_get_char s) \<ge> 1"
    by (auto simp: utf8_get_char_def Let_def at_def split: if_splits)
  then show ?thesis by (cases s) auto
qed

function char_count :: "kern \<Rightarrow> (u32 \<Rightarrow> font_glyph) \<Rightarrow> int \<Rightarrow> u8 list \<Rightarrow> pen \<Rightarrow> nat" where
  "char_count kern gl mw s p =
     (let mbc = fst (utf8_get_char s); s' = drop (snd (utf8_get_char s)) s in
      if mbc = 0 then 0
      else case text_char mbc s' of
             None \<Rightarrow> char_count kern gl mw s' p
           | Some m \<Rightarrow>
               let p1 = pen_advance kern (gl m) p
               in if mw \<noteq> 0 \<and> p_cx p1 \<ge> mw then 0 else Suc (char_count kern gl mw s' (pen_glyph (gl m) p1)))"
  by pat_completeness auto
termination
  by (relation "measure (\<lambda>(_, _, _, s, _). length s)") (use utf8_get_char_step in auto)

declare char_count.simps [simp del]

text \<open>
  The floating-point arithmetic with the ratio of a wide screen: a division; a position moved by half or all of the
  difference between a width over the ratio and the width of a text.
\<close>

record ratio =
  shrink :: "int \<Rightarrow> int"
  centered :: "int \<Rightarrow> int \<Rightarrow> int \<Rightarrow> int"
  to_right :: "int \<Rightarrow> int \<Rightarrow> int \<Rightarrow> int"

definition font_get_char_count :: "kern \<Rightarrow> (u32 \<Rightarrow> font_glyph) \<Rightarrow> ratio \<Rightarrow> u8 list \<Rightarrow> int \<Rightarrow> nat" where
  "font_get_char_count kern gl ra s max_width = char_count kern gl (shrink ra max_width) s pen_start"


function string_width :: "kern \<Rightarrow> (u32 \<Rightarrow> font_glyph) \<Rightarrow> nat \<Rightarrow> nat \<Rightarrow> u8 list \<Rightarrow> pen \<Rightarrow> pen" where
  "string_width kern gl count i s p =
     (let mbc = fst (utf8_get_char s); s' = drop (snd (utf8_get_char s)) s in
      if mbc = 0 then p
      else case text_char mbc s' of
             None \<Rightarrow> string_width kern gl count i s' p
           | Some m \<Rightarrow>
               let p1 = pen_glyph (gl m) (pen_advance kern (gl m) p)
               in if i + 1 = count then p1 else string_width kern gl count (i + 1) s' p1)"
  by pat_completeness auto
termination
  by (relation "measure (\<lambda>(_, _, _, _, s, _). length s)") (use utf8_get_char_step in auto)

declare string_width.simps [simp del]

text \<open>The result is a \<^verbatim>\<open>u16\<close>.\<close>

definition font_get_string_width :: "kern \<Rightarrow> (u32 \<Rightarrow> font_glyph) \<Rightarrow> u8 list \<Rightarrow> nat \<Rightarrow> int" where
  "font_get_string_width kern gl s count =
     (let p = string_width kern gl count 0 s pen_start in (p_cx p + (p_cdx p + 32) div 64) mod 65536)"

section \<open>Wrapping\<close>

text \<open>The width that a glyph takes at the end of a line.\<close>

definition glyph_width :: "font_glyph \<Rightarrow> int" where
  "glyph_width g = (let w = (dx g + 32) div 64 in if g_w g + g_x g > w then g_w g + g_x g else w)"

definition line_of :: "u8 list \<Rightarrow> nat \<Rightarrow> nat \<Rightarrow> u8 list option" where
  "line_of s start end = (if end \<le> start then None else Some (take (end - start) (drop start s)))"

text \<open>\<open>ls\<close> is the position after the last space; the lines are those from \<open>start\<close> on.\<close>

partial_function (option) wrap_lines ::
  "kern \<Rightarrow> (u32 \<Rightarrow> font_glyph) \<Rightarrow> int \<Rightarrow> u8 list \<Rightarrow> nat \<Rightarrow> nat \<Rightarrow> int \<Rightarrow> pen \<Rightarrow> u8 list option list option" where
  "wrap_lines kern gl mw s start i ls0 p =
     (let mbc = fst (utf8_get_char (drop i s)); i1 = i + snd (utf8_get_char (drop i s));
          ls = (if mbc = 32 then int i1 else ls0) in
      if mbc = 0 then Some [line_of s start i]
      else if mbc = 10 then Option.bind (wrap_lines kern gl mw s i1 i1 ls pen_start) (\<lambda>r. Some (line_of s start i # r))
      else if mbc = 13 then wrap_lines kern gl mw s start i1 ls p
      else
        let g = gl mbc; p1 = pen_advance kern g p in
        if p_cx p1 + glyph_width g \<ge> mw then
          (let e = (if ls \<le> int start then (if i = start then i + 1 else i) else nat ls)
           in Option.bind (wrap_lines kern gl mw s e e ls pen_start) (\<lambda>r. Some (line_of s start e # r)))
        else wrap_lines kern gl mw s start i1 ls (pen_glyph g p1))"

definition font_wrap_string ::
  "kern \<Rightarrow> (u32 \<Rightarrow> font_glyph) \<Rightarrow> ratio \<Rightarrow> u8 list \<Rightarrow> int \<Rightarrow> u8 list option list option" where
  "font_wrap_string kern gl ra s max_width = wrap_lines kern gl (shrink ra max_width) s 0 0 (- 1) pen_start"

section \<open>Layout\<close>

datatype font_xalign = FA_LEFT | FA_CENTERED | FA_RIGHT
datatype font_yalign = FA_ASCENDER | FA_EM_TOP | FA_EM_CENTERED | FA_BASELINE | FA_DESCENDER

text \<open>A glyph that is drawn has the code point of its texture; the code stretches the horizontal position by the ratio.\<close>

datatype queue_entry = Q_Null | Q_Entity int int int int

record font_metrics =
  em_height :: int
  ascender :: int
  descender :: int

definition align_x :: "font_xalign \<Rightarrow> ratio \<Rightarrow> int \<Rightarrow> int \<Rightarrow> int \<Rightarrow> int" where
  "align_x xalign ra x width w =
     (case xalign of
        FA_LEFT \<Rightarrow> shrink ra x
      | FA_CENTERED \<Rightarrow> centered ra (shrink ra x) width w
      | FA_RIGHT \<Rightarrow> to_right ra (shrink ra x) width w)"

definition align_y :: "font_yalign \<Rightarrow> font_metrics \<Rightarrow> int \<Rightarrow> int" where
  "align_y yalign fm y =
     (case yalign of
        FA_ASCENDER \<Rightarrow> y + ascender fm
      | FA_EM_TOP \<Rightarrow> y + em_height fm
      | FA_EM_CENTERED \<Rightarrow> y + em_height fm div 2
      | FA_BASELINE \<Rightarrow> y
      | FA_DESCENDER \<Rightarrow> y + descender fm)"

text \<open>\<open>first\<close>: nothing was drawn yet. The result is the entries filled in and how many are left.\<close>

function plot_chars ::
  "kern \<Rightarrow> (u32 \<Rightarrow> font_glyph) \<Rightarrow> font_xalign \<Rightarrow> int \<Rightarrow> nat \<Rightarrow> u8 list \<Rightarrow> bool \<Rightarrow> pen \<Rightarrow> queue_entry list \<times> nat" where
  "plot_chars kern gl xalign layer count s first p =
     (let mbc = fst (utf8_get_char s); s' = drop (snd (utf8_get_char s)) s in
      if mbc = 0 then ([], count)
      else if mbc = 10 \<and> s' = [] then ([], count)
      else case text_char mbc s' of
             None \<Rightarrow> plot_chars kern gl xalign layer count s' first p
           | Some m \<Rightarrow>
               let g = gl m; p1 = pen_advance kern g p;
                   p2 = (if valid g \<and> xalign = FA_LEFT \<and> first \<and> g_x g > 0 then p1\<lparr>p_cx := p_cx p1 - g_x g\<rparr> else p1);
                   e = (if valid g then Q_Entity (codepoint g) (p_cx p2 + g_x g) (p_cy p2 - g_y g) layer else Q_Null)
               in if count - 1 = 0 then ([e], 0)
                  else map_prod ((#) e) id
                         (plot_chars kern gl xalign layer (count - 1) s' (first \<and> \<not> valid g) (pen_glyph g p2)))"
  by pat_completeness auto
termination
  by (relation "measure (\<lambda>(_, _, _, _, _, s, _, _). length s)") (use utf8_get_char_step in auto)

declare plot_chars.simps [simp del]

definition font_plot_string ::
  "kern \<Rightarrow> (u32 \<Rightarrow> font_glyph) \<Rightarrow> ratio \<Rightarrow> font_metrics \<Rightarrow> nat \<Rightarrow> u8 list \<Rightarrow> int \<Rightarrow> int \<Rightarrow> int \<Rightarrow> int \<Rightarrow> font_xalign
     \<Rightarrow> font_yalign \<Rightarrow> queue_entry list \<times> nat" where
  "font_plot_string kern gl ra fm count s x y layer width xalign yalign =
     (if count = 0 then ([], 0)
      else
        let p = pen_start\<lparr>p_cx := align_x xalign ra x width (font_get_string_width kern gl s count), p_cy := align_y yalign fm y\<rparr>
        in case plot_chars kern gl xalign layer count s True p of
             (es, left) \<Rightarrow> (es @ replicate left Q_Null, left))"


section \<open>The cache holds what is rendered\<close>

text \<open>
  Every glyph in use is what FreeType renders for its code point; it hangs in the chain of the root of its code point,
  whose indices increase.
\<close>

definition glyph_ok :: "(int \<Rightarrow> ft_glyph option) \<Rightarrow> font_glyph list \<Rightarrow> nat \<Rightarrow> nat \<Rightarrow> bool" where
  "glyph_ok ft gs n i \<longleftrightarrow>
     (if codepoint (gs ! i) = - 1 then i < 64 \<and> next_idx (gs ! i) = - 1
      else (gs ! i)\<lparr>next_idx := - 1\<rparr> = render ft (codepoint (gs ! i))
        \<and> (i < 64 \<longrightarrow> codepoint (gs ! i) mod 64 = int i)
        \<and> (next_idx (gs ! i) \<noteq> - 1 \<longrightarrow> int i < next_idx (gs ! i) \<and> next_idx (gs ! i) < int n
             \<and> codepoint (gs ! nat (next_idx (gs ! i))) \<noteq> - 1
             \<and> codepoint (gs ! nat (next_idx (gs ! i))) mod 64 = codepoint (gs ! i) mod 64))"

definition cache_ok :: "(int \<Rightarrow> ft_glyph option) \<Rightarrow> font_face \<Rightarrow> bool" where
  "cache_ok ft f \<longleftrightarrow> 64 \<le> num_glyphs f \<and> num_glyphs f \<le> max_glyphs f \<and> length (glyphs f) = max_glyphs f
     \<and> (\<forall>i < num_glyphs f. glyph_ok ft (glyphs f) (num_glyphs f) i)"

lemma cache_ok_empty: "cache_ok ft empty_face"
  by (simp add: cache_ok_def empty_face_def cache_consts glyph_ok_def)

lemma render_simps [simp]: "codepoint (render ft cp) = cp" "next_idx (render ft cp) = - 1"
  "(render ft cp)\<lparr>next_idx := - 1\<rparr> = render ft cp"
  by (simp_all add: render_def zero_glyph_def Let_def split: option.split)

lemma find_glyph_chain:
  assumes ok: "\<forall>i < n. glyph_ok ft gs n i" and i: "i < n" "codepoint (gs ! i) \<noteq> - 1" "codepoint (gs ! i) mod 64 = cp mod 64"
  shows "\<exists>b j. find_glyph gs cp i = Some (b, j) \<and> i \<le> j \<and> j < n \<and> codepoint (gs ! j) \<noteq> - 1
    \<and> codepoint (gs ! j) mod 64 = cp mod 64 \<and> (b \<longleftrightarrow> codepoint (gs ! j) = cp) \<and> (\<not> b \<longrightarrow> next_idx (gs ! j) = - 1)"
  using i
proof (induction "n - i" arbitrary: i rule: less_induct)
  case less
  show ?case
  proof (cases "codepoint (gs ! i) = cp \<or> next_idx (gs ! i) = - 1")
    case True
    then have "find_glyph gs cp i = Some (codepoint (gs ! i) = cp, i)" by (subst find_glyph.simps) auto
    with True less.prems show ?thesis by auto
  next
    case False
    let ?k = "nat (next_idx (gs ! i))"
    have g: "glyph_ok ft gs n i" using ok less.prems(1) by simp
    with False less.prems have k: "i < ?k" "?k < n" "codepoint (gs ! ?k) \<noteq> - 1" "codepoint (gs ! ?k) mod 64 = cp mod 64"
      by (auto simp: glyph_ok_def)
    have "find_glyph gs cp i = find_glyph gs cp ?k" using False by (subst find_glyph.simps) simp
    moreover have "n - ?k < n - i" using k(1,2) by linarith
    ultimately show ?thesis using less.hyps[of ?k] k by force
  qed
qed

text \<open>A glyph appended to the end of the chain is found there.\<close>

lemma find_glyph_append:
  assumes ok: "\<forall>i < n. glyph_ok ft gs n i" and i: "i < n" "codepoint (gs ! i) \<noteq> - 1" "codepoint (gs ! i) mod 64 = cp mod 64"
    and f: "find_glyph gs cp i = Some (False, e)"
    and same: "\<forall>j < n. codepoint (gs' ! j) = codepoint (gs ! j) \<and> (j \<noteq> e \<longrightarrow> next_idx (gs' ! j) = next_idx (gs ! j))"
    and new: "next_idx (gs' ! e) = int n" "codepoint (gs' ! n) = cp"
  shows "find_glyph gs' cp i = Some (True, n)"
  using i f
proof (induction "n - i" arbitrary: i rule: less_induct)
  case less
  have ne: "codepoint (gs ! i) \<noteq> cp" using less.prems(4) by (subst (asm) find_glyph.simps) auto
  show ?case
  proof (cases "next_idx (gs ! i) = - 1")
    case True
    then have "e = i" using less.prems(4) ne by (subst (asm) find_glyph.simps) auto
    then have "find_glyph gs' cp i = find_glyph gs' cp n" using ne same less.prems(1) new by (subst find_glyph.simps) simp
    also have "\<dots> = Some (True, n)" using new(2) by (subst find_glyph.simps) simp
    finally show ?thesis .
  next
    case False
    let ?k = "nat (next_idx (gs ! i))"
    have e: "find_glyph gs cp ?k = Some (False, e)" using less.prems(4) ne False by (subst (asm) find_glyph.simps) auto
    have g: "glyph_ok ft gs n i" using ok less.prems(1) by simp
    with False less.prems have k: "i < ?k" "?k < n" "codepoint (gs ! ?k) \<noteq> - 1" "codepoint (gs ! ?k) mod 64 = cp mod 64"
      by (auto simp: glyph_ok_def)
    have "i \<noteq> e"
    proof
      assume "i = e"
      from find_glyph_chain[OF ok k(2,3,4)] e have "?k \<le> e" by auto
      with k(1) \<open>i = e\<close> show False by simp
    qed
    then have "find_glyph gs' cp i = find_glyph gs' cp ?k"
      using ne same less.prems(1) False by (subst find_glyph.simps) simp
    moreover have "n - ?k < n - i" using k(1,2) by linarith
    ultimately show ?thesis using less.hyps[of ?k] k e by simp
  qed
qed


text \<open>The glyphs in use keep their contents, whatever is added.\<close>

definition keeps_glyphs :: "font_face \<Rightarrow> font_face \<Rightarrow> bool" where
  "keeps_glyphs f f' \<longleftrightarrow> (\<forall>j < num_glyphs f. codepoint (glyphs f ! j) \<noteq> - 1 \<longrightarrow>
     (glyphs f' ! j)\<lparr>next_idx := - 1\<rparr> = (glyphs f ! j)\<lparr>next_idx := - 1\<rparr>)"

lemma glyph_render: "cache_ok ft f \<Longrightarrow> j < num_glyphs f \<Longrightarrow> codepoint (glyphs f ! j) \<noteq> - 1 \<Longrightarrow>
  (glyphs f ! j)\<lparr>next_idx := - 1\<rparr> = render ft (codepoint (glyphs f ! j))"
  by (auto simp: cache_ok_def glyph_ok_def)

lemma add_glyph_ok:
  assumes ok: "cache_ok ft f" and cp: "0 \<le> cp" and e: "e < num_glyphs f" "codepoint (glyphs f ! e) \<noteq> - 1"
    "codepoint (glyphs f ! e) mod 64 = cp mod 64" "next_idx (glyphs f ! e) = - 1"
  defines "f' \<equiv> snd (add_glyph ft cp e f)"
  shows "cache_ok ft f'" and "num_glyphs f' = num_glyphs f + 1"
    and "\<And>j. j < num_glyphs f \<Longrightarrow> glyphs f' ! j = (if j = e then (glyphs f ! j)\<lparr>next_idx := int (num_glyphs f)\<rparr> else glyphs f ! j)"
    and "glyphs f' ! num_glyphs f = render ft cp"
proof -
  define n where "n = num_glyphs f"
  have b: "64 \<le> n" "n \<le> max_glyphs f" "length (glyphs f) = max_glyphs f" "\<forall>i < n. glyph_ok ft (glyphs f) n i"
    using ok by (simp_all add: cache_ok_def n_def)
  define gs where "gs = (glyphs f)[e := (glyphs f ! e)\<lparr>next_idx := int n\<rparr>]"
  define gs1 where "gs1 = (if n = max_glyphs f then gs @ replicate GLYPH_CACHE_GROW zero_glyph else gs)"
  have len: "n < length gs1" "length gs1 = (if n = max_glyphs f then max_glyphs f + 32 else max_glyphs f)"
    using b by (auto simp: gs1_def gs_def cache_consts)
  have f': "glyphs f' = gs1[n := render ft cp]" "num_glyphs f' = n + 1"
    "max_glyphs f' = (if n = max_glyphs f then max_glyphs f + 32 else max_glyphs f)"
    by (simp_all add: f'_def add_glyph_def Let_def gs1_def gs_def n_def cache_consts)
  show "num_glyphs f' = num_glyphs f + 1" by (simp add: f' n_def)
  show new: "glyphs f' ! num_glyphs f = render ft cp" using len by (simp add: f' n_def [symmetric])
  show old: "glyphs f' ! j = (if j = e then (glyphs f ! j)\<lparr>next_idx := int (num_glyphs f)\<rparr> else glyphs f ! j)"
    if "j < num_glyphs f" for j
    using that b e(1) by (auto simp: f' n_def gs1_def gs_def nth_append nth_list_update)
  have cps: "codepoint (glyphs f' ! j) = codepoint (glyphs f ! j)" if "j < n" for j
    using old[of j] that by (simp add: n_def)
  have "glyph_ok ft (glyphs f') (n + 1) j" if "j < n + 1" for j
  proof (cases "j = n")
    case True
    then show ?thesis using new b(1) cp by (auto simp: glyph_ok_def n_def [symmetric])
  next
    case False
    then have jn: "j < n" using that by simp
    have g: "glyph_ok ft (glyphs f) n j" using b(4) jn by blast
    show ?thesis
    proof (cases "j = e")
      case True
      then show ?thesis using g old[of j] jn new e cp by (auto simp: glyph_ok_def n_def)
    next
      case ne: False
      have o: "glyphs f' ! j = glyphs f ! j" using old[of j] jn ne by (simp add: n_def)
      show ?thesis
      proof (cases "codepoint (glyphs f ! j) = - 1 \<or> next_idx (glyphs f ! j) = - 1")
        case True
        then show ?thesis using g unfolding glyph_ok_def o by auto
      next
        case False
        then have k: "int j < next_idx (glyphs f ! j)" "next_idx (glyphs f ! j) < int n" using g by (auto simp: glyph_ok_def)
        have c: "codepoint (glyphs f' ! nat (next_idx (glyphs f ! j))) = codepoint (glyphs f ! nat (next_idx (glyphs f ! j)))"
          using k by (intro cps) linarith
        show ?thesis using g False unfolding glyph_ok_def o c by auto
      qed
    qed
  qed
  then show "cache_ok ft f'" using b len by (auto simp: cache_ok_def f')
qed

lemma font_get_char_ok:
  assumes ok: "cache_ok ft f" and cp: "0 \<le> cp"
  shows "\<exists>i f'. font_get_char ft cp f = Some (i, f') \<and> i < num_glyphs f' \<and> (glyphs f' ! i)\<lparr>next_idx := - 1\<rparr> = render ft cp
    \<and> cache_ok ft f' \<and> keeps_glyphs f f' \<and> font_get_char ft cp f' = Some (i, f')"
proof -
  define r where "r = nat (cp mod 64)"
  have r: "r < 64" "int r = cp mod 64" by (simp_all add: r_def nat_less_iff)
  define n where "n = num_glyphs f"
  have b: "64 \<le> n" "n \<le> max_glyphs f" "length (glyphs f) = max_glyphs f" "\<forall>i < n. glyph_ok ft (glyphs f) n i"
    using ok by (simp_all add: cache_ok_def n_def)
  have rn: "r < n" using r b by simp
  have R: "nat (cp mod int GLYPH_CACHE_ROOT) = r" by (simp add: r_def cache_consts)
  show ?thesis
  proof (cases "codepoint (glyphs f ! r) = - 1")
    case True
    define f' where "f' = f\<lparr>glyphs := (glyphs f)[r := render ft cp]\<rparr>"
    have run: "font_get_char ft cp f = Some (r, f')"
      unfolding font_get_char_def R Let_def f'_def using True by simp
    have new: "glyphs f' ! r = render ft cp" using rn b by (simp add: f'_def)
    have old: "j \<noteq> r \<Longrightarrow> glyphs f' ! j = glyphs f ! j" for j by (simp add: f'_def)
    have "glyph_ok ft (glyphs f') n j" if "j < n" for j
    proof (cases "j = r")
      case True
      then show ?thesis using r cp by (auto simp: glyph_ok_def new)
    next
      case False
      have g: "glyph_ok ft (glyphs f) n j" using b(4) that by blast
      show ?thesis
      proof (cases "codepoint (glyphs f ! j) = - 1 \<or> next_idx (glyphs f ! j) = - 1")
        case True
        then show ?thesis using g unfolding glyph_ok_def old[OF False] by auto
      next
        case c: False
        then have "nat (next_idx (glyphs f ! j)) \<noteq> r" using g \<open>codepoint (glyphs f ! r) = - 1\<close> by (auto simp: glyph_ok_def)
        then show ?thesis using g unfolding glyph_ok_def old[OF False] by (auto simp: old)
      qed
    qed
    then have ok': "cache_ok ft f'" using b by (simp add: cache_ok_def f'_def n_def [symmetric])
    have "keeps_glyphs f f'" unfolding keeps_glyphs_def using True by (metis old)
    moreover have "font_get_char ft cp f' = Some (r, f')"
      unfolding font_get_char_def R Let_def new using cp by (subst find_glyph.simps) (simp add: new)
    moreover have "r < num_glyphs f'" using rn by (simp add: f'_def n_def)
    ultimately show ?thesis using run new ok' by auto
  next
    case False
    have "codepoint (glyphs f ! r) mod 64 = cp mod 64"
      using b(4) rn r False by (auto simp: glyph_ok_def)
    note chain = find_glyph_chain[OF b(4) rn False this] and app = find_glyph_append[OF b(4) rn False this]
    from chain obtain e where e: "find_glyph (glyphs f) cp r = Some (codepoint (glyphs f ! e) = cp, e)" "e < n"
        "codepoint (glyphs f ! e) \<noteq> - 1" "codepoint (glyphs f ! e) mod 64 = cp mod 64"
        "codepoint (glyphs f ! e) \<noteq> cp \<Longrightarrow> next_idx (glyphs f ! e) = - 1"
      by auto
    show ?thesis
    proof (cases "codepoint (glyphs f ! e) = cp")
      case True
      then have "font_get_char ft cp f = Some (e, f)"
        unfolding font_get_char_def R Let_def using False e(1) by simp
      then show ?thesis using glyph_render[OF ok] True e(2,3) ok by (auto simp: keeps_glyphs_def n_def)
    next
      case ne: False
      define f' where "f' = snd (add_glyph ft cp e f)"
      have "add_glyph ft cp e f = (n, f')" by (simp add: f'_def add_glyph_def Let_def n_def)
      then have run: "font_get_char ft cp f = Some (n, f')"
        unfolding font_get_char_def R Let_def using False e(1) ne by simp
      note a = add_glyph_ok[OF ok cp e(2)[unfolded n_def] e(3,4) e(5)[OF ne], folded f'_def, folded n_def]
      have cps: "codepoint (glyphs f' ! j) = codepoint (glyphs f ! j) \<and> (j \<noteq> e \<longrightarrow> next_idx (glyphs f' ! j) = next_idx (glyphs f ! j))"
        if "j < n" for j
        using a(3)[OF that] by simp
      have "find_glyph (glyphs f') cp r = Some (True, n)"
        using e(1) ne cps a(3)[OF e(2)] a(4) by (intro app[of e]) simp_all
      then have "font_get_char ft cp f' = Some (n, f')"
        unfolding font_get_char_def R Let_def using False cps[OF rn] by simp
      moreover have "keeps_glyphs f f'" unfolding keeps_glyphs_def n_def [symmetric] using a(3) by simp
      ultimately show ?thesis using run a(1,2,4) by auto
    qed
  qed
qed


section \<open>A string fills the entries it was counted for\<close>

lemma plot_chars_fills:
  "0 < count \<Longrightarrow> count \<le> char_count kern gl mw s p \<Longrightarrow>
    length (fst (plot_chars kern gl xalign layer count s first q)) = count \<and> snd (plot_chars kern gl xalign layer count s first q) = 0"
proof (induction kern gl mw s p arbitrary: count first q rule: char_count.induct)
  case (1 kern gl mw s p)
  define mbc where "mbc = fst (utf8_get_char s)"
  define s' where "s' = drop (snd (utf8_get_char s)) s"
  note cc = char_count.simps[of kern gl mw s p, folded mbc_def s'_def, unfolded Let_def]
  note pc = plot_chars.simps[of kern gl xalign layer count s first q, folded mbc_def s'_def, unfolded Let_def]
  have m: "mbc \<noteq> 0" using "1.prems" cc by auto
  show ?case
  proof (cases "text_char mbc s'")
    case None
    have c: "count \<le> char_count kern gl mw s' p" using "1.prems"(2) cc m None by simp
    have ne: "\<not> (mbc = 10 \<and> s' = [])"
    proof
      assume "mbc = 10 \<and> s' = []"
      then have "char_count kern gl mw s' p = 0" by (subst char_count.simps) (simp add: utf8_get_char_def at_def Let_def)
      with c "1.prems"(1) show False by simp
    qed
    have "plot_chars kern gl xalign layer count s first q = plot_chars kern gl xalign layer count s' first q"
      unfolding pc if_not_P[OF m] if_not_P[OF ne] None option.case ..
    then show ?thesis using "1.IH"(1)[OF mbc_def s'_def m None "1.prems"(1) c] by simp
  next
    case (Some k)
    have ne: "\<not> (mbc = 10 \<and> s' = [])" using Some by (auto simp: text_char_def)
    let ?p1 = "pen_advance kern (gl k) p"
    have room: "\<not> (mw \<noteq> 0 \<and> p_cx ?p1 \<ge> mw)" using "1.prems" cc m Some by (auto split: if_splits)
    have c: "count \<le> Suc (char_count kern gl mw s' (pen_glyph (gl k) ?p1))" using "1.prems"(2) cc m Some room by simp
    show ?thesis
    proof (cases "count - 1 = 0")
      case True
      then show ?thesis unfolding pc if_not_P[OF m] if_not_P[OF ne] Some option.case if_P[OF True] using "1.prems"(1) by simp
    next
      case False
      then have "0 < count - 1" "count - 1 \<le> char_count kern gl mw s' (pen_glyph (gl k) ?p1)" using c by auto
      from "1.IH"(2)[OF mbc_def s'_def m Some refl room this]
      have ih: "length (fst (plot_chars kern gl xalign layer (count - 1) s' fi q')) = count - 1
          \<and> snd (plot_chars kern gl xalign layer (count - 1) s' fi q') = 0" for fi q' by blast
      then show ?thesis unfolding pc if_not_P[OF m] if_not_P[OF ne] Some option.case if_not_P[OF False]
        using "1.prems"(1) by (simp add: map_prod_def split_def)
    qed
  qed
qed

lemma plot_string_fills:
  assumes "count = font_get_char_count kern gl ra s max_width"
  shows "length (fst (font_plot_string kern gl ra fm count s x y layer width xalign yalign)) = count
    \<and> snd (font_plot_string kern gl ra fm count s x y layer width xalign yalign) = 0"
proof (cases "count = 0")
  case False
  then have "0 < count" "count \<le> char_count kern gl (shrink ra max_width) s pen_start"
    using assms by (simp_all add: font_get_char_count_def)
  note fills = plot_chars_fills[OF this]
  from False show ?thesis
    unfolding font_plot_string_def Let_def split_def using fills by simp
qed (simp add: font_plot_string_def)


section \<open>Wrapped lines are the text\<close>

lemma at_nonzero: "at s k \<noteq> 0 \<Longrightarrow> k < length s"
  by (simp add: at_def split: if_splits)

lemma cont_at: "cont (at s k) \<Longrightarrow> k < length s"
  by (rule at_nonzero) (auto simp: cont_def)

lemma utf8_get_char_le: "snd (utf8_get_char s) \<le> length s"
proof -
  have F: "fold (\<lambda>_ c. if at s c \<noteq> 0 then c + 1 else c) js k \<le> length s" if "k \<le> length s" for js :: "nat list" and k
    using that
  proof (induction js arbitrary: k)
    case (Cons j js)
    then show ?case using at_nonzero[of s k] by (cases "at s k = 0") simp_all
  qed simp
  have "skip_bad s n \<le> length s" if "at s 0 \<noteq> 0" for n
    unfolding skip_bad_def using at_nonzero[OF that] by (intro F) linarith
  then have sk: "at s 0 \<noteq> 0 \<longrightarrow> skip_bad s 2 \<le> length s \<and> skip_bad s 3 \<le> length s \<and> skip_bad s 4 \<le> length s" by blast
  have c: "cont (at s 1) \<longrightarrow> 2 \<le> length s" "cont (at s 2) \<longrightarrow> 3 \<le> length s" "cont (at s 3) \<longrightarrow> 4 \<le> length s"
      "at s 0 \<noteq> 0 \<longrightarrow> 1 \<le> length s"
    using cont_at[of s 1] cont_at[of s 2] cont_at[of s 3] at_nonzero[of s 0] by (auto simp: Suc_le_eq)
  show ?thesis
    unfolding utf8_get_char_def Let_def if_distrib[of snd] snd_conv using sk c by (simp only: split: if_split) blast
qed

lemma utf8_get_char_newline: "utf8_get_char s = (10, 1) \<Longrightarrow> s \<noteq> [] \<and> s ! 0 = 10"
proof -
  assume u: "utf8_get_char s = (10, 1)"
  have "at s 0 \<noteq> 0" and "at s 0 \<le> 0x7f \<Longrightarrow> (ucast (at s 0) :: u32) = 10" using u
    by (auto simp: utf8_get_char_def Let_def split: if_splits)
  moreover have "at s 0 \<le> 0x7f" using u by (auto simp: utf8_get_char_def Let_def split: if_splits)
  ultimately have "(ucast (at s 0) :: u32) = ucast (10 :: u8)" and "s \<noteq> []" by (auto simp: at_def)
  then have "uint (ucast (at s 0) :: u32) = 10" by simp
  moreover have "uint (ucast (at s 0) :: u32) = uint (at s 0)"
    using uint_lt2p[of "at s 0"] by (simp add: unsigned_ucast_eq take_bit_int_eq_self)
  ultimately have "at s 0 = 10" by (simp add: word_uint_eq_iff)
  with \<open>s \<noteq> []\<close> show ?thesis by (simp add: at_def)
qed

text \<open>No character is encoded with more bytes than it needs, as far as the loops depend on it.\<close>

definition no_overlong :: "u8 list \<Rightarrow> bool" where
  "no_overlong s \<longleftrightarrow> (\<forall>i < length s. fst (utf8_get_char (drop i s)) \<noteq> 0
     \<and> (fst (utf8_get_char (drop i s)) = 10 \<longrightarrow> snd (utf8_get_char (drop i s)) = 1))"

text \<open>The lines with what was between them: nothing, or a newline.\<close>

definition joined :: "u8 list option list \<Rightarrow> bool list \<Rightarrow> u8 list" where
  "joined ls brk = concat (map2 (\<lambda>l b. (case l of None \<Rightarrow> [] | Some t \<Rightarrow> t) @ (if b then [10] else [])) ls brk)"

definition wraps :: "kern \<Rightarrow> (u32 \<Rightarrow> font_glyph) \<Rightarrow> int \<Rightarrow> u8 list \<Rightarrow> nat \<Rightarrow> nat \<Rightarrow> int \<Rightarrow> pen \<Rightarrow> bool" where
  "wraps kern gl mw s start i ls p \<longleftrightarrow>
     (\<exists>rs brk. wrap_lines kern gl mw s start i ls p = Some rs \<and> length brk = length rs \<and> joined rs brk = drop start s)"

lemma line_part: "start \<le> e \<Longrightarrow> (case line_of s start e of None \<Rightarrow> [] | Some t \<Rightarrow> t) @ drop e s = drop start s"
proof -
  assume "start \<le> e"
  then have "drop e s = drop (e - start) (drop start s)" by simp
  with \<open>start \<le> e\<close> show ?thesis by (auto simp: line_of_def simp del: drop_drop)
qed

lemma wraps_step:
  assumes ok: "no_overlong s" and i: "start \<le> i" "i \<le> length s" and ls: "ls \<le> int (length s)"
    and later: "\<And>e ls. start < e \<Longrightarrow> e \<le> length s \<Longrightarrow> ls \<le> int (length s) \<Longrightarrow> wraps kern gl mw s e e ls pen_start"
  shows "wraps kern gl mw s start i ls p"
  using i ls
proof (induction "length s - i" arbitrary: i ls p rule: less_induct)
  case (less i ls p)
  define mbc where "mbc = fst (utf8_get_char (drop i s))"
  define i1 where "i1 = i + snd (utf8_get_char (drop i s))"
  define ls1 where "ls1 = (if mbc = 32 then int i1 else ls)"
  have i1: "i1 \<le> length s" using utf8_get_char_le[of "drop i s"] less.prems(2) by (simp add: i1_def)
  have ls1: "ls1 \<le> int (length s)" using i1 less.prems(3) by (simp add: ls1_def)
  note w = wrap_lines.simps[of kern gl mw s start i ls p, unfolded Let_def, folded mbc_def i1_def, folded ls1_def]
  have brk: "wraps kern gl mw s start i ls p"
    if e: "e \<le> length s" "start < e" "start \<le> e'" and t: "drop e' s = (if b then [10] else []) @ drop e s"
      and run: "wrap_lines kern gl mw s start i ls p
        = Option.bind (wrap_lines kern gl mw s e e ls1 pen_start) (\<lambda>r. Some (line_of s start e' # r))" for e e' b
  proof -
    obtain rs bs where r: "wrap_lines kern gl mw s e e ls1 pen_start = Some rs" "length bs = length rs" "joined rs bs = drop e s"
      using later[OF e(2,1) ls1] by (auto simp: wraps_def)
    have "joined (line_of s start e' # rs) (b # bs) = drop start s"
      using line_part[OF e(3), of s] by (simp add: joined_def r(3)[unfolded joined_def] t)
    with r show ?thesis unfolding wraps_def run by (intro exI[of _ "line_of s start e' # rs"] exI[of _ "b # bs"]) simp
  qed
  show ?case
  proof (cases "mbc = 0")
    case True
    then have "i = length s" using ok less.prems(2) by (auto simp: no_overlong_def mbc_def le_less)
    with line_part[OF less.prems(1), of s] True show ?thesis
      unfolding wraps_def w by (intro exI[of _ "[line_of s start i]"] exI[of _ "[False]"]) (simp add: joined_def)
  next
    case m0: False
    then have lt: "i < length s" by (auto simp: mbc_def utf8_get_char_def at_def Let_def not_less intro: ccontr)
    have i1i: "i < i1" using utf8_get_char_step[of "drop i s"] m0 lt by (auto simp: mbc_def i1_def)
    have inner: "wraps kern gl mw s start i1 ls1 q" for q
      using less.hyps[of i1 ls1 q] i1i i1 ls1 lt less.prems(1) by auto
    show ?thesis
    proof (cases "mbc = 10")
      case True
      then have one: "i1 = i + 1" using ok lt by (simp add: no_overlong_def mbc_def i1_def)
      have "utf8_get_char (drop i s) = (10, 1)" using True one by (simp add: mbc_def i1_def prod_eq_iff)
      from utf8_get_char_newline[OF this] have "drop i s = [10] @ drop (i + 1) s"
        using lt by (simp add: Cons_nth_drop_Suc [symmetric])
      with one have "drop i s = (if True then [10] else []) @ drop i1 s" by simp
      then show ?thesis using w m0 True one less.prems(1) i1 by (intro brk[of i1 i True]) simp_all
    next
      case m10: False
      show ?thesis
      proof (cases "mbc = 13")
        case True
        then have "wrap_lines kern gl mw s start i ls p = wrap_lines kern gl mw s start i1 ls1 p" using w m0 by simp
        with inner[of p] show ?thesis by (simp add: wraps_def)
      next
        case m13: False
        note w2 = w[unfolded if_not_P[OF m0] if_not_P[OF m10] if_not_P[OF m13]]
        let ?full = "p_cx (pen_advance kern (gl mbc) p) + glyph_width (gl mbc) \<ge> mw"
        show ?thesis
        proof (cases ?full)
          case True
          define e where "e = (if ls1 \<le> int start then (if i = start then i + 1 else i) else nat ls1)"
          have "e \<le> length s" "start < e" using lt ls1 less.prems(1) by (auto simp: e_def)
          then show ?thesis using w2 True less.prems(1) by (intro brk[of e e False]) (simp_all only: e_def [symmetric] Let_def if_P[OF True], simp_all)
        next
          case False
          then have "wrap_lines kern gl mw s start i ls p
              = wrap_lines kern gl mw s start i1 ls1 (pen_glyph (gl mbc) (pen_advance kern (gl mbc) p))" using w2 by simp
          with inner show ?thesis by (simp add: wraps_def)
        qed
      qed
    qed
  qed
qed

lemma wraps_all:
  assumes "no_overlong s" and "start \<le> length s" and "ls \<le> int (length s)"
  shows "wraps kern gl mw s start start ls pen_start"
  using assms(2,3)
proof (induction "length s - start" arbitrary: start ls rule: less_induct)
  case less
  show ?case
    by (rule wraps_step[OF assms(1) le_refl less.prems]) (rule less.hyps, use less.prems in simp_all)
qed


section \<open>Wrapped lines fit\<close>

text \<open>A decoded character depends on the bytes it takes only.\<close>

definition decode :: "u8 \<Rightarrow> u8 \<Rightarrow> u8 \<Rightarrow> u8 \<Rightarrow> u32 \<times> nat" where
  "decode a b c d =
     (let bad = (\<lambda>n. if b = 0 then 1 else if n = 2 \<or> c = 0 then 2 else if n = 3 \<or> d = 0 then 3 else (4 :: nat)) in
      if a = 0 then (0, 0)
      else if a \<le> 0x7f then (ucast a, 1)
      else if a \<ge> 0xc0 \<and> a \<le> 0xdf then
        (if \<not> cont b then (63, bad (2 :: nat)) else (low6 b OR push_bit 6 (ucast (a AND 0x1f)), 2))
      else if a \<ge> 0xe0 \<and> a \<le> 0xef then
        (if \<not> cont b \<or> \<not> cont c then (63, bad 3)
         else (low6 c OR push_bit 6 (low6 b) OR push_bit 12 (ucast (a AND 0x1f)), 3))
      else if a \<ge> 0xf0 \<and> a \<le> 0xf7 then
        (if \<not> cont b \<or> \<not> cont c \<or> \<not> cont d then (63, bad 4)
         else (low6 d OR push_bit 6 (low6 c) OR push_bit 12 (low6 b) OR push_bit 18 (ucast (a AND 0x1f)), 4))
      else (63, 1))"

lemma skip_bad_simps:
  "skip_bad s 2 = (if at s 1 = 0 then 1 else 2)"
  "skip_bad s 3 = (if at s 1 = 0 then 1 else if at s 2 = 0 then 2 else 3)"
  "skip_bad s 4 = (if at s 1 = 0 then 1 else if at s 2 = 0 then 2 else if at s 3 = 0 then 3 else 4)"
proof -
  have "[1..<2] = [1 :: nat]" "[1..<3] = [1, 2 :: nat]" "[1..<4] = [1, 2, 3 :: nat]" by (simp_all add: upt_rec)
  then show "skip_bad s 2 = (if at s 1 = 0 then 1 else 2)"
    "skip_bad s 3 = (if at s 1 = 0 then 1 else if at s 2 = 0 then 2 else 3)"
    "skip_bad s 4 = (if at s 1 = 0 then 1 else if at s 2 = 0 then 2 else if at s 3 = 0 then 3 else 4)"
    by (simp_all only: skip_bad_def) (simp_all add: eval_nat_numeral)
qed

lemma utf8_decode: "utf8_get_char s = decode (at s 0) (at s 1) (at s 2) (at s 3)"
  unfolding utf8_get_char_def decode_def Let_def skip_bad_simps by simp

lemma not_cont_0 [simp]: "\<not> cont 0"
  by (simp add: cont_def)

lemma decode_take:
  assumes "snd (decode a b c d) \<le> k" and "0 < k"
  shows "decode a (if 1 < k then b else 0) (if 2 < k then c else 0) (if 3 < k then d else 0) = decode a b c d"
proof -
  have "k = 1 \<or> k = 2 \<or> k = 3 \<or> 4 \<le> k" using assms(2) by linarith
  then show ?thesis
    using assms(1) unfolding decode_def Let_def by (elim disjE) (auto split: if_splits)
qed

lemma at_take: "at (take k s) j = (if j < k then at s j else 0)"
  by (auto simp: at_def)

lemma utf8_take: "snd (utf8_get_char s) \<le> k \<Longrightarrow> 0 < k \<Longrightarrow> utf8_get_char (take k s) = utf8_get_char s"
  unfolding utf8_decode at_take using decode_take[of "at s 0" "at s 1" "at s 2" "at s 3" k] by simp


text \<open>From \<open>a\<close> to \<open>b\<close> the text is read with the pen inside of the width.\<close>

inductive reads :: "kern \<Rightarrow> (u32 \<Rightarrow> font_glyph) \<Rightarrow> int \<Rightarrow> u8 list \<Rightarrow> nat \<Rightarrow> nat \<Rightarrow> pen \<Rightarrow> pen \<Rightarrow> bool" for kern gl mw s where
  at_end: "reads kern gl mw s a a p p"
| skip: "fst (utf8_get_char (drop a s)) = 13 \<Longrightarrow> reads kern gl mw s (a + snd (utf8_get_char (drop a s))) b p q \<Longrightarrow>
    reads kern gl mw s a b p q"
| glyph: "fst (utf8_get_char (drop a s)) = m \<Longrightarrow> m \<notin> {0, 10, 13} \<Longrightarrow> p_cx (pen_advance kern (gl m) p) < mw \<Longrightarrow>
    reads kern gl mw s (a + snd (utf8_get_char (drop a s))) b (pen_glyph (gl m) (pen_advance kern (gl m) p)) q \<Longrightarrow>
    reads kern gl mw s a b p q"

lemma reads_trans: "reads kern gl mw s a b p q \<Longrightarrow> reads kern gl mw s b c q r \<Longrightarrow> reads kern gl mw s a c p r"
  by (induction rule: reads.induct) (auto intro: reads.intros)

lemma reads_le: "reads kern gl mw s a b p q \<Longrightarrow> a \<le> b"
  by (induction rule: reads.induct) simp_all

text \<open>What is read inside of the width is counted the same with it and without it.\<close>

lemma reads_count:
  "reads kern gl mw s a b p q \<Longrightarrow> b \<le> c \<Longrightarrow> c \<le> length s \<Longrightarrow>
    \<exists>n. char_count kern gl mw (take (c - a) (drop a s)) p = n + char_count kern gl mw (take (c - b) (drop b s)) q
      \<and> char_count kern gl 0 (take (c - a) (drop a s)) p = n + char_count kern gl 0 (take (c - b) (drop b s)) q"
proof (induction rule: reads.induct)
  case (at_end a p)
  show ?case by (rule exI[of _ 0]) simp
next
  case (skip a b p q)
  let ?n = "snd (utf8_get_char (drop a s))"
  have le: "a + ?n \<le> c" using reads_le[OF skip.hyps(2)] skip.prems by simp
  have n: "0 < ?n" using utf8_get_char_step[of "drop a s"] skip.hyps(1) by (auto intro: ccontr)
  have u: "utf8_get_char (take (c - a) (drop a s)) = utf8_get_char (drop a s)" using le n by (intro utf8_take) auto
  have d: "drop ?n (take (c - a) (drop a s)) = take (c - (a + ?n)) (drop (a + ?n) s)"
    by (simp add: drop_take add.commute)
  have "char_count kern gl w (take (c - a) (drop a s)) p = char_count kern gl w (take (c - (a + ?n)) (drop (a + ?n) s)) p" for w
    by (subst char_count.simps) (simp add: u d skip.hyps(1) text_char_def Let_def)
  with skip.IH skip.prems show ?case by simp
next
  case (glyph a m p b q)
  let ?n = "snd (utf8_get_char (drop a s))" and ?p = "pen_advance kern (gl m) p"
  have le: "a + ?n \<le> c" using reads_le[OF glyph.hyps(4)] glyph.prems by simp
  have n: "0 < ?n" using utf8_get_char_step[of "drop a s"] glyph.hyps(1,2) by (auto intro: ccontr)
  have u: "utf8_get_char (take (c - a) (drop a s)) = utf8_get_char (drop a s)" using le n by (intro utf8_take) auto
  have d: "drop ?n (take (c - a) (drop a s)) = take (c - (a + ?n)) (drop (a + ?n) s)"
    by (simp add: drop_take add.commute)
  have "char_count kern gl w (take (c - a) (drop a s)) p
      = Suc (char_count kern gl w (take (c - (a + ?n)) (drop (a + ?n) s)) (pen_glyph (gl m) ?p))" if "w = 0 \<or> p_cx ?p < w" for w
    using glyph.hyps(1,2) that by (subst char_count.simps) (auto simp: u d text_char_def Let_def)
  from this[of mw] this[of 0] glyph.hyps(3) glyph.IH[OF glyph.prems] show ?case by auto
qed

text \<open>A single character counts at most once.\<close>

lemma one_char_count:
  assumes "snd (utf8_get_char t) = length t"
  shows "char_count kern gl mw t p \<le> 1"
proof -
  have "char_count kern gl mw [] q = 0" for q by (subst char_count.simps) (simp add: utf8_get_char_def at_def Let_def)
  then show ?thesis using assms by (subst char_count.simps) (auto simp: Let_def split: option.split)
qed

lemma one_byte_count:
  assumes "length t = 1"
  shows "char_count kern gl mw t p \<le> 1"
proof (cases "fst (utf8_get_char t) = 0")
  case True
  then show ?thesis by (subst char_count.simps) (simp add: Let_def)
next
  case False
  then have "0 < snd (utf8_get_char t)" using utf8_get_char_step[of t] by (auto intro: ccontr)
  with utf8_get_char_le[of t] assms have "snd (utf8_get_char t) = length t" by linarith
  then show ?thesis by (rule one_char_count)
qed

text \<open>A line fits but for its last character.\<close>

definition line_fits :: "kern \<Rightarrow> (u32 \<Rightarrow> font_glyph) \<Rightarrow> int \<Rightarrow> u8 list \<Rightarrow> bool" where
  "line_fits kern gl mw t \<longleftrightarrow> char_count kern gl 0 t pen_start \<le> char_count kern gl mw t pen_start + 1"

lemma line_fits_reads:
  assumes "reads kern gl mw s start e pen_start q" and "e \<le> length s" and "line_of s start e = Some t"
  shows "line_fits kern gl mw t"
proof -
  have t: "t = take (e - start) (drop start s)" using assms(3) by (auto simp: line_of_def split: if_splits)
  obtain n where "char_count kern gl mw t pen_start = n + char_count kern gl mw [] q"
      "char_count kern gl 0 t pen_start = n + char_count kern gl 0 [] q"
    using reads_count[OF assms(1) order.refl assms(2)] by (auto simp: t)
  moreover have "char_count kern gl w [] q = 0" for w by (subst char_count.simps) (simp add: utf8_get_char_def at_def Let_def)
  ultimately show ?thesis by (simp add: line_fits_def)
qed

lemma line_fits_last:
  assumes r: "reads kern gl mw s start i pen_start q" and u: "fst (utf8_get_char (drop i s)) \<noteq> 0"
    and e: "e = i + snd (utf8_get_char (drop i s))" and t: "line_of s start e = Some t"
  shows "line_fits kern gl mw t"
proof -
  let ?n = "snd (utf8_get_char (drop i s))"
  have le: "?n \<le> length s - i" using utf8_get_char_le[of "drop i s"] by simp
  have n: "0 < ?n" using utf8_get_char_step[of "drop i s"] u by (auto intro: ccontr)
  have el: "e \<le> length s" using le n e by linarith
  have t: "t = take (e - start) (drop start s)" using t by (auto simp: line_of_def split: if_splits)
  have "utf8_get_char (take ?n (drop i s)) = utf8_get_char (drop i s)" using n by (intro utf8_take) auto
  then have one: "char_count kern gl w (take ?n (drop i s)) q \<le> 1" for w
    using le by (intro one_char_count) (simp add: min_def)
  obtain k where "char_count kern gl mw t pen_start = k + char_count kern gl mw (take ?n (drop i s)) q"
      "char_count kern gl 0 t pen_start = k + char_count kern gl 0 (take ?n (drop i s)) q"
    using reads_count[OF r _ el] e by (auto simp: t)
  with one[of 0] show ?thesis by (simp add: line_fits_def)
qed


lemma wrap_lines_fit:
  assumes "wrap_lines kern gl mw s start i ls p = Some rs" and wide: "\<forall>m. 0 \<le> glyph_width (gl m)"
    and "reads kern gl mw s start i pen_start p" and "i \<le> length s" and "ls \<le> int i"
    and "int start < ls \<longrightarrow> (\<exists>q. reads kern gl mw s start (nat ls) pen_start q)"
  shows "\<forall>t. Some t \<in> set rs \<longrightarrow> line_fits kern gl mw t"
  using assms
proof (induction kern gl mw s start i ls p rs rule: wrap_lines.raw_induct[rotated, consumes 1, case_names 1])
  case (1 wrap kern gl mw s start i ls p rs)
  define mbc where "mbc = fst (utf8_get_char (drop i s))"
  define i1 where "i1 = i + snd (utf8_get_char (drop i s))"
  define ls1 where "ls1 = (if mbc = 32 then int i1 else ls)"
  note run = "1.hyps"[unfolded Let_def, folded mbc_def i1_def, folded ls1_def]
  note prems = "1.prems"(2,3,4,5)
  note IH = "1.IH"[OF _ "1.prems"(1)]
  have i1: "i \<le> i1" "i1 \<le> length s" using utf8_get_char_le[of "drop i s"] prems(2) by (auto simp: i1_def)
  have ls1: "ls1 \<le> int i1" using i1(1) prems(3) by (simp add: ls1_def)
  have start: "start \<le> i" by (rule reads_le[OF prems(1)])
  have later: "\<forall>t. Some t \<in> set rs \<longrightarrow> line_fits kern gl mw t"
    if b: "Option.bind (wrap kern gl mw s e e l pen_start) (\<lambda>r. Some (x # r)) = Some rs" and e: "e \<le> length s" "l \<le> int e"
      and x: "\<And>t. x = Some t \<Longrightarrow> line_fits kern gl mw t" for e l x
  proof -
    from b obtain r where r: "wrap kern gl mw s e e l pen_start = Some r" "rs = x # r" by (auto simp: bind_eq_Some_conv)
    show ?thesis using IH[OF r(1) reads.at_end e] e x unfolding r(2) by auto
  qed
  show ?case
  proof (cases "mbc = 0 \<or> mbc = 10")
    case True
    have x: "\<And>t. line_of s start i = Some t \<Longrightarrow> line_fits kern gl mw t" by (rule line_fits_reads[OF prems(1,2)])
    show ?thesis
    proof (cases "mbc = 0")
      case True
      then have "rs = [line_of s start i]" using run by simp
      with x show ?thesis by auto
    next
      case False
      with True have m: "mbc = 10" by simp
      show ?thesis using run[unfolded if_not_P[OF False] if_P[OF m]] i1(2) ls1 x by (rule later)
    qed
  next
    case False
    then have m0: "mbc \<noteq> 0" and m10: "mbc \<noteq> 10" by simp_all
    note run1 = run[unfolded if_not_P[OF m0] if_not_P[OF m10]]
    have inner: ?thesis if w: "wrap kern gl mw s start i1 ls1 p1 = Some rs" and r: "reads kern gl mw s i i1 p p1" for p1
    proof -
      have r1: "reads kern gl mw s start i1 pen_start p1" by (rule reads_trans[OF prems(1) r])
      have "int start < ls1 \<longrightarrow> (\<exists>q. reads kern gl mw s start (nat ls1) pen_start q)"
        using r1 prems(4) by (auto simp: ls1_def)
      from IH[OF w r1 i1(2) ls1 this] show ?thesis .
    qed
    show ?thesis
    proof (cases "mbc = 13")
      case True
      have "reads kern gl mw s i i1 p p"
        unfolding i1_def by (rule reads.skip[OF True[unfolded mbc_def] reads.at_end])
      with run1[unfolded if_P[OF True]] show ?thesis by (rule inner)
    next
      case m13: False
      define p1 where "p1 = pen_advance kern (gl mbc) p"
      note run2 = run1[unfolded if_not_P[OF m13], folded p1_def]
      show ?thesis
      proof (cases "p_cx p1 + glyph_width (gl mbc) \<ge> mw")
        case True
        define e where "e = (if ls1 \<le> int start then (if i = start then i + 1 else i) else nat ls1)"
        have lt: "i < length s" using m0 by (auto simp: mbc_def utf8_get_char_def at_def Let_def not_less intro: ccontr)
        have "line_fits kern gl mw t" if t: "line_of s start e = Some t" for t
        proof -
          consider "ls1 \<le> int start" "i = start" | "ls1 \<le> int start" "i \<noteq> start" | "int start < ls1" "mbc = 32" | "int start < ls1" "mbc \<noteq> 32"
            by linarith
          then show ?thesis
          proof cases
            case 1
            then have "length t = 1" using t lt by (auto simp: e_def line_of_def split: if_splits)
            then have "char_count kern gl 0 t pen_start \<le> 1" by (rule one_byte_count)
            then show ?thesis by (simp add: line_fits_def)
          next
            case 2
            then show ?thesis using line_fits_reads[OF prems(1,2)] t by (simp add: e_def)
          next
            case 3
            then have "e = i + snd (utf8_get_char (drop i s))" by (simp add: e_def ls1_def i1_def)
            then show ?thesis using m0 t by (intro line_fits_last[OF prems(1)]) (simp_all add: mbc_def)
          next
            case 4
            then have "e = nat ls" "int start < ls" by (simp_all add: e_def ls1_def)
            then obtain q where "reads kern gl mw s start e pen_start q" using prems(4) by auto
            moreover have "e \<le> length s" using \<open>e = nat ls\<close> prems(2,3) by simp
            ultimately show ?thesis using line_fits_reads t by blast
          qed
        qed
        moreover have "e \<le> length s" "ls1 \<le> int e" using lt ls1 i1(2) start by (auto simp: e_def)
        ultimately show ?thesis using run2[unfolded if_P[OF True] Let_def, folded e_def] by (intro later) simp_all
      next
        case fits: False
        have "0 \<le> glyph_width (gl mbc)" using "1.prems"(1) by (rule spec)
        with fits have "p_cx p1 < mw" by linarith
        then have "reads kern gl mw s i i1 p (pen_glyph (gl mbc) p1)"
          unfolding i1_def p1_def using m0 m10 m13 by (intro reads.glyph[OF mbc_def[symmetric] _ _ reads.at_end]) simp_all
        with run2[unfolded if_not_P[OF fits]] show ?thesis by (rule inner)
      qed
    qed
  qed
qed

section \<open>Encoded characters are decoded\<close>

text \<open>The encoder is beside the decoder in the source, for its debug output.\<close>

definition utf8 :: "u32 \<Rightarrow> u8 list" where
  "utf8 cp =
     (if cp < 0x80 then [ucast cp]
      else if cp < 0x800 then [0xC0 OR ucast (drop_bit 6 cp), 0x80 OR ucast (cp AND 0x3F)]
      else if cp < 0x10000 then
        [0xE0 OR ucast (drop_bit 12 cp), 0x80 OR ucast (drop_bit 6 cp AND 0x3F), 0x80 OR ucast (cp AND 0x3F)]
      else if cp < 0x110000 then
        [0xF0 OR ucast (drop_bit 18 cp), 0x80 OR ucast (drop_bit 12 cp AND 0x3F), 0x80 OR ucast (drop_bit 6 cp AND 0x3F),
         0x80 OR ucast (cp AND 0x3F)]
      else [63])"

lemma u8_bits:
  "bit (0x80 :: u8) n \<longleftrightarrow> n = 7" "bit (0xC0 :: u8) n \<longleftrightarrow> n = 6 \<or> n = 7" "bit (0xE0 :: u8) n \<longleftrightarrow> n = 5 \<or> n = 6 \<or> n = 7"
  "bit (0xDF :: u8) n \<longleftrightarrow> n < 8 \<and> n \<noteq> 5" "bit (0xEF :: u8) n \<longleftrightarrow> n < 8 \<and> n \<noteq> 4"
  "bit (0x1F :: u8) n \<longleftrightarrow> n < 5" "bit (0x3F :: u8) n \<longleftrightarrow> n < 6" "bit (0x3F :: u32) n \<longleftrightarrow> n < 6"
proof -
  have b: "n < 8 \<or> \<not> bit (w :: u8) n" for w using bit_imp_le_length[of w n] by auto
  have e: "n = 0 \<or> n = 1 \<or> n = 2 \<or> n = 3 \<or> n = 4 \<or> n = 5 \<or> n = 6 \<or> n = 7 \<or> 8 \<le> n" by linarith
  from e b[of "0x80"] show "bit (0x80 :: u8) n \<longleftrightarrow> n = 7" by (elim disjE) auto
  from e b[of "0xC0"] show "bit (0xC0 :: u8) n \<longleftrightarrow> n = 6 \<or> n = 7" by (elim disjE) auto
  from e b[of "0xE0"] show "bit (0xE0 :: u8) n \<longleftrightarrow> n = 5 \<or> n = 6 \<or> n = 7" by (elim disjE) auto
  from e b[of "0xDF"] show "bit (0xDF :: u8) n \<longleftrightarrow> n < 8 \<and> n \<noteq> 5" by (elim disjE) auto
  from e b[of "0xEF"] show "bit (0xEF :: u8) n \<longleftrightarrow> n < 8 \<and> n \<noteq> 4" by (elim disjE) auto
  have "(0x1F :: u8) = mask 5" "(0x3F :: u8) = mask 6" "(0x3F :: u32) = mask 6" by (simp_all add: mask_eq_exp_minus_1)
  then show "bit (0x1F :: u8) n \<longleftrightarrow> n < 5" "bit (0x3F :: u8) n \<longleftrightarrow> n < 6" "bit (0x3F :: u32) n \<longleftrightarrow> n < 6"
    by (simp_all only: bit_mask_iff) auto
qed

lemma less_bits:
  assumes "(cp :: u32) < 2 ^ k" and "bit cp n"
  shows "n < k"
proof -
  have "cp AND mask k = cp" using assms(1) by (rule less_mask_eq)
  then have "bit (cp AND mask k) n" using assms(2) by simp
  then show ?thesis by (simp add: bit_simps)
qed

lemma cont_enc: "cont (0x80 OR ucast (x AND (0x3F :: u32)))"
  unfolding cont_def by (rule bit_word_eqI) (auto simp: bit_simps u8_bits simp del: bit_numeral_word_iff)

lemma low6_enc: "low6 (0x80 OR ucast (x AND (0x3F :: u32))) = x AND 0x3F"
  unfolding low6_def by (rule bit_word_eqI) (auto simp: bit_simps u8_bits simp del: bit_numeral_word_iff)

lemma between_bits:
  assumes "w AND a = a" and "w AND b = w"
  shows "a \<le> w \<and> (w :: u8) \<le> b"
  using word_and_le1[of w a] word_and_le2[of w a] word_and_le1[of w b] word_and_le2[of w b] assms by (metis)

lemma decode_2: "0xC0 \<le> a \<and> a \<le> 0xDF \<Longrightarrow> cont b \<Longrightarrow> decode a b c d = (low6 b OR push_bit 6 (ucast (a AND 0x1f)), 2)"
proof -
  assume a: "0xC0 \<le> a \<and> a \<le> 0xDF" and b: "cont b"
  have n: "\<not> a \<le> 0x7f"
  proof
    assume "a \<le> 0x7f"
    from order.trans[OF conjunct1[OF a] this] show False by simp
  qed
  then have "a \<noteq> 0" by auto
  with n a b show ?thesis by (simp add: decode_def)
qed

lemma decode_3: "0xE0 \<le> a \<and> a \<le> 0xEF \<Longrightarrow> cont b \<Longrightarrow> cont c \<Longrightarrow>
  decode a b c d = (low6 c OR push_bit 6 (low6 b) OR push_bit 12 (ucast (a AND 0x1f)), 3)"
proof -
  assume a: "0xE0 \<le> a \<and> a \<le> 0xEF" and b: "cont b" "cont c"
  have n: "\<not> a \<le> k" if "k < 0xE0" for k
  proof
    assume "a \<le> k"
    with conjunct1[OF a] that show False by (meson leD order.trans)
  qed
  have "a \<noteq> 0" using a by auto
  with n[of "0x7f"] n[of "0xdf"] a b show ?thesis by (simp add: decode_def)
qed

lemma at_simps: "at (a # s) 0 = a" "at (a # s) (Suc k) = at s k" "at (a # s) 1 = at s 0" "at (a # b # s) 2 = at s 0"
  by (auto simp: at_def eval_nat_numeral)

lemma utf8_2:
  assumes "0x80 \<le> cp" "cp < 0x800"
  shows "utf8_get_char (utf8 cp @ r) = (cp, 2)"
proof -
  have c: "n < 11" if "bit cp n" for n by (rule less_bits[OF _ that]) (use assms in simp)
  let ?a = "0xC0 OR ucast (drop_bit 6 cp) :: u8"
  have "?a AND 0x1F = ucast (drop_bit 6 cp)" "?a AND 0xC0 = 0xC0" "?a AND 0xDF = ?a"
    by (rule bit_word_eqI; auto simp: bit_simps u8_bits dest: c simp del: bit_numeral_word_iff)+
  moreover have "(cp AND 0x3f) OR push_bit 6 (ucast (ucast (drop_bit 6 cp) :: u8)) = cp"
    by (rule bit_word_eqI) (auto simp: bit_simps u8_bits dest: c simp del: bit_numeral_word_iff)
  ultimately have d: "decode ?a (0x80 OR ucast (cp AND 0x3F)) c d = (cp, 2)" for c d
    by (simp only: decode_2[OF between_bits cont_enc] low6_enc)
  have "utf8 cp = [?a, 0x80 OR ucast (cp AND 0x3F)]" using assms by (simp add: utf8_def not_less)
  then show ?thesis unfolding utf8_decode using d by (simp add: at_simps)
qed

lemma utf8_3:
  assumes "0x800 \<le> cp" "cp < 0x10000"
  shows "utf8_get_char (utf8 cp @ r) = (cp, 3)"
proof -
  have c: "n < 16" if "bit cp n" for n by (rule less_bits[OF _ that]) (use assms in simp)
  let ?a = "0xE0 OR ucast (drop_bit 12 cp) :: u8"
  have "?a AND 0xE0 = 0xE0" "?a AND 0xEF = ?a"
    by (rule bit_word_eqI; auto simp: bit_simps u8_bits dest: c simp del: bit_numeral_word_iff)+
  note r = between_bits[OF this]
  have low: "x AND 0x3f = take_bit 6 x" for x :: u32
    by (rule bit_word_eqI) (auto simp: bit_simps u8_bits simp del: bit_numeral_word_iff)
  have lead: "?a AND 0x1f = ucast (drop_bit 12 cp)"
    by (rule bit_word_eqI) (auto simp: bit_simps u8_bits dest: c simp del: bit_numeral_word_iff)
  have "(cp AND 0x3f) OR push_bit 6 (drop_bit 6 cp AND 0x3f) OR push_bit 12 (ucast (?a AND 0x1f)) = cp"
    unfolding low lead by (rule bit_word_eqI) (auto simp: bit_simps dest: c simp del: bit_numeral_word_iff)
  then have d: "decode ?a (0x80 OR ucast (drop_bit 6 cp AND 0x3F)) (0x80 OR ucast (cp AND 0x3F)) d = (cp, 3)" for d
    by (simp only: decode_3[OF r cont_enc cont_enc] low6_enc)
  have "0x80 \<le> cp" by (rule order.trans[OF _ assms(1)]) simp
  then have "\<not> cp < 0x80" by (simp add: not_less)
  then have "utf8 cp = [?a, 0x80 OR ucast (drop_bit 6 cp AND 0x3F), 0x80 OR ucast (cp AND 0x3F)]"
    using assms by (simp add: utf8_def not_less)
  then show ?thesis unfolding utf8_decode using d by (simp add: at_simps)
qed

lemma utf8_1:
  assumes "cp \<noteq> 0" "cp < 0x80"
  shows "utf8_get_char (utf8 cp @ r) = (cp, 1)"
proof -
  have c: "n < 7" if "bit cp n" for n by (rule less_bits[OF _ that]) (use assms in simp)
  have cp: "ucast (ucast cp :: u8) = cp" by (rule bit_word_eqI) (auto simp: bit_simps dest: c)
  then have "(ucast cp :: u8) \<noteq> 0" using assms(1) by auto
  moreover have "ucast cp \<le> (0x7f :: u8)"
  proof -
    have "ucast cp AND 0x7f = (ucast cp :: u8)" 
    proof -
      have m: "(0x7f :: u8) = mask 7" by (simp add: mask_eq_exp_minus_1)
      show ?thesis unfolding m by (rule bit_word_eqI) (auto simp: bit_simps dest: c)
    qed
    then show ?thesis using word_and_le1[of "ucast cp" "0x7f :: u8"] by metis
  qed
  moreover have "utf8 cp = [ucast cp]" using assms by (simp add: utf8_def)
  ultimately show ?thesis unfolding utf8_decode decode_def using cp by (simp add: at_simps)
qed

text \<open>Of four bytes the first gives five bits, where three are of the code point: U+1F600 is read as another number.\<close>

lemma utf8_four_bytes: "utf8_get_char (utf8 0x1F600) = (0x41F600, 4)"
  by code_simp


section \<open>Properties\<close>

text \<open>The layout without a wide screen.\<close>

definition no_ratio :: ratio where
  "no_ratio = \<lparr>shrink = id, centered = \<lambda>x w v. x + (w - v) div 2, to_right = \<lambda>x w v. x + w - v\<rparr>"

text \<open>
  C36: The glyph cache. In a well-formed cache a lookup returns, what it finds or adds is what FreeType renders for the code
  point, the next lookup finds the same glyph without rendering, no glyph that was in use changes but for its link, and the
  cache stays well-formed, whatever chains it follows and also when it has to grow.
\<close>

theorem font_cache_renders:
  assumes "cache_ok ft f" and "0 \<le> cp"
  shows "\<exists>i f'. font_get_char ft cp f = Some (i, f') \<and> i < num_glyphs f' \<and> (glyphs f' ! i)\<lparr>next_idx := - 1\<rparr> = render ft cp
    \<and> cache_ok ft f' \<and> keeps_glyphs f f' \<and> font_get_char ft cp f' = Some (i, f')"
  by (rule font_get_char_ok[OF assms])

theorem font_cache_renders_witness:
  "\<exists>i f'. font_get_char (\<lambda>_. None) 65 empty_face = Some (i, f') \<and> (glyphs f' ! i)\<lparr>next_idx := - 1\<rparr> = render (\<lambda>_. None) 65
    \<and> font_get_char (\<lambda>_. None) 65 f' = Some (i, f')"
  using font_cache_renders[OF cache_ok_empty[of "\<lambda>_. None"], of 65] by auto

lemma wrapped_lines:
  assumes "no_overlong s"
  obtains rs brk where "font_wrap_string kern gl ra s max_width = Some rs" and "length brk = length rs" and "joined rs brk = s"
  using wraps_all[OF assms, of 0 "- 1" kern gl "shrink ra max_width"] by (auto simp: wraps_def font_wrap_string_def)

lemma wrapped_fit:
  assumes "font_wrap_string kern gl ra s max_width = Some rs" and "\<forall>m. 0 \<le> glyph_width (gl m)" and "Some t \<in> set rs"
  shows "line_fits kern gl (shrink ra max_width) t"
  using wrap_lines_fit[OF assms(1)[unfolded font_wrap_string_def] assms(2) reads.at_end] assms(3) by simp



text \<open>
  Drawing a string with the number of entries that \<open>font_get_char_count\<close> gives for it fills exactly that many entries
  of the queue: none is written behind them and none has to be padded.
\<close>

lemma font_plot_fills:
  assumes "count = font_get_char_count kern gl ra s max_width"
  shows "length (fst (font_plot_string kern gl ra fm count s x y layer width xalign yalign)) = count
    \<and> snd (font_plot_string kern gl ra fm count s x y layer width xalign yalign) = 0"
  by (rule plot_string_fills[OF assms])

lemma font_plot_fills_example:
  "length (fst (font_plot_string (\<lambda>_ _. (0, 0)) (\<lambda>m. zero_glyph) no_ratio \<lparr>em_height = 0, ascender = 0, descender = 0\<rparr>
      (font_get_char_count (\<lambda>_ _. (0, 0)) (\<lambda>m. zero_glyph) no_ratio [72, 105] 0) [72, 105] 0 0 1 100 FA_LEFT FA_BASELINE))
    = font_get_char_count (\<lambda>_ _. (0, 0)) (\<lambda>m. zero_glyph) no_ratio [72, 105] 0"
  by (rule font_plot_fills[OF refl, THEN conjunct1])

text \<open>
  The encoding of a code point of up to 16 bits is decoded to the code point, and exactly its bytes are taken,
  whatever follows them.
\<close>

lemma font_utf8_round_trip:
  assumes "cp \<noteq> 0" and "cp < 0x10000"
  shows "utf8_get_char (utf8 cp @ r) = (cp, length (utf8 cp))"
proof -
  consider "cp < 0x80" | "\<not> cp < 0x80" "cp < 0x800" | "\<not> cp < 0x80" "\<not> cp < 0x800" by blast
  then show ?thesis
  proof cases
    case 1
    then have "length (utf8 cp) = 1" by (simp add: utf8_def)
    with utf8_1[OF assms(1) 1] show ?thesis by simp
  next
    case 2
    then have "length (utf8 cp) = 2" by (simp add: utf8_def)
    with utf8_2[of cp r] 2 show ?thesis by (simp add: not_less)
  next
    case 3
    then have "length (utf8 cp) = 3" using assms(2) by (simp add: utf8_def)
    with utf8_3[of cp r] 3 assms(2) show ?thesis by (simp add: not_less)
  qed
qed

lemma font_utf8_round_trip_example: "utf8_get_char (utf8 0x20AC @ [33]) = (0x20AC, length (utf8 0x20AC))"
  by (rule font_utf8_round_trip) simp_all

end
