(* ===== verification/Font_Table.thy ===== *)
theory Font_Table
  imports Font
begin

text \<open>
  The table of fonts, \<^verbatim>\<open>font_load\<close>, \<^verbatim>\<open>font_clear\<close> and the functions that use an entry (\<^verbatim>\<open>font_get_char\<close> and the getters) of
  \<^verbatim>\<open>channelapp/source/font.c\<close>, and the font files of a theme that are read, \<^verbatim>\<open>channelapp/source/theme.c\<close>. Font objects, FreeType
  faces and font files are shared between entries, so they live in stores that notice when something is used or freed that
  is not there. FreeType may refuse any call: its answers are functions of the state. The texture of a glyph belongs to this
  glyph alone and is left out, and so is \<^verbatim>\<open>font_kern\<close>, which reads an entry whose glyph was asked for just before.
\<close>

section \<open>Loading a font\<close>

definition FONT_MAX :: nat where "FONT_MAX = 7"

text \<open>The data of a font is the address of its file.\<close>

record font_object =
  fo_data :: nat
  fo_em_w :: int
  fo_em_h :: int
  fo_face :: "nat option"
  fo_glyphs :: font_face
  fo_em_height :: int
  fo_ascender :: int
  fo_descender :: int
  fo_height :: int

record theme_file =
  tf_data :: "nat option"
  tf_size :: int

record font_table =
  ft_fonts :: "nat option list"
  ft_objects :: "nat \<Rightarrow> font_object option"
  ft_faces :: "nat \<Rightarrow> nat option"
  ft_next :: nat
  ft_next_face :: nat
  ft_theme :: "theme_file list"

text \<open>What is not in the table: the built-in fonts, the width on a wide screen, and what FreeType answers.\<close>

record freetype =
  default_fonts :: "(nat \<times> int) list"
  em_width :: "int \<Rightarrow> int"
  new_face :: "font_table \<Rightarrow> nat \<Rightarrow> int"
  set_sizes :: "font_table \<Rightarrow> nat \<Rightarrow> int \<Rightarrow> int \<Rightarrow> int"
  face_glyph :: "nat \<Rightarrow> int \<Rightarrow> int \<Rightarrow> int \<Rightarrow> ft_glyph option"
  face_metrics :: "nat \<Rightarrow> int \<Rightarrow> int \<Rightarrow> int \<times> int \<times> int"

text \<open>The search reads the objects of the entries that are not \<^verbatim>\<open>NULL\<close>; an object that is not there must not be read.\<close>

fun scan_fonts :: "(font_object \<Rightarrow> bool) \<Rightarrow> font_table \<Rightarrow> nat list \<Rightarrow> (nat \<times> font_object) option ret" where
  "scan_fonts P t [] = Ret None"
| "scan_fonts P t (i # is) =
     (case ft_fonts t ! i of
        None \<Rightarrow> scan_fonts P t is
      | Some p \<Rightarrow> (case ft_objects t p of
                    None \<Rightarrow> Panic
                  | Some ob \<Rightarrow> if P ob then Ret (Some (i, ob)) else scan_fonts P t is))"

definition first_font :: "(font_object \<Rightarrow> bool) \<Rightarrow> font_table \<Rightarrow> (nat \<times> font_object) option ret" where
  "first_font P t = scan_fonts P t [0..<FONT_MAX]"

text \<open>\<^verbatim>\<open>font_get_char\<close> on an object: a face is needed for a glyph that is not in the cache.\<close>

definition object_char :: "freetype \<Rightarrow> font_table \<Rightarrow> font_object \<Rightarrow> int \<Rightarrow> (font_glyph \<times> font_object) ret" where
  "object_char F t ob cp =
     (case font_get_char (face_glyph F (the (fo_face ob)) (fo_em_w ob) (fo_em_h ob)) cp (fo_glyphs ob) of
        None \<Rightarrow> Panic
      | Some (k, gs) \<Rightarrow>
          if gs \<noteq> fo_glyphs ob \<and> Option.bind (fo_face ob) (ft_faces t) = None then Panic
          else Ret (glyphs gs ! k, ob\<lparr>fo_glyphs := gs\<rparr>))"

text \<open>\<^verbatim>\<open>(x+32)>>6\<close>\<close>

definition pixels :: "int \<Rightarrow> int" where
  "pixels x = (x + 32) div 64"

text \<open>The last part: the sizes are set, the object is filled in and entered into the table.\<close>

definition finish_font :: "freetype \<Rightarrow> nat \<Rightarrow> font_object \<Rightarrow> font_table \<Rightarrow> (int \<times> font_table) ret" where
  "finish_font F i ob t =
     (let face = the (fo_face ob); ob1 = ob\<lparr>fo_em_w := em_width F (fo_em_w ob)\<rparr>;
          ret = set_sizes F t face (fo_em_w ob1) (fo_em_h ob1) in
      if Option.bind (fo_face ob) (ft_faces t) = None then Panic
      else if ret \<noteq> 0 then Ret (ret, t)
      else bind_ret (object_char F t (ob1\<lparr>fo_glyphs := empty_face\<rparr>) 77) (\<lambda>(g, ob2).
        case face_metrics F face (fo_em_w ob1) (fo_em_h ob1) of (asc, desc, h) \<Rightarrow>
        Ret (0, t\<lparr>ft_fonts := (ft_fonts t)[i := Some (ft_next t)],
                   ft_objects := (ft_objects t)(ft_next t \<mapsto> ob2\<lparr>fo_em_height := g_h g, fo_ascender := pixels asc,
                     fo_descender := pixels desc, fo_height := pixels h\<rparr>),
                   ft_next := ft_next t + 1\<rparr>)))"

text \<open>The data and the size of an entry.\<close>

definition font_source :: "freetype \<Rightarrow> nat \<Rightarrow> bool \<Rightarrow> font_table \<Rightarrow> nat \<times> int" where
  "font_source F i use_theme t =
     ((if use_theme then (case tf_data (ft_theme t ! i) of None \<Rightarrow> fst (default_fonts F ! i) | Some d \<Rightarrow> d) else fst (default_fonts F ! i)),
      (if use_theme \<and> tf_size (ft_theme t ! i) \<noteq> 0 then tf_size (ft_theme t ! i) else snd (default_fonts F ! i)))"

definition new_object :: "nat \<Rightarrow> int \<Rightarrow> nat option \<Rightarrow> font_object" where
  "new_object data em face = \<lparr>fo_data = data, fo_em_w = em, fo_em_h = em, fo_face = face, fo_glyphs = empty_face,
     fo_em_height = 0, fo_ascender = 0, fo_descender = 0, fo_height = 0\<rparr>"

text \<open>A font that FreeType refuses is left allocated, unless it is replaced by the built-in one.\<close>

definition leak_object :: "font_object \<Rightarrow> font_table \<Rightarrow> font_table" where
  "leak_object ob t = t\<lparr>ft_objects := (ft_objects t)(ft_next t \<mapsto> ob), ft_next := ft_next t + 1\<rparr>"

function font_load :: "freetype \<Rightarrow> nat \<Rightarrow> bool \<Rightarrow> font_table \<Rightarrow> (int \<times> font_table) ret" where
  "font_load F i use_theme t =
     (let data = fst (font_source F i use_theme t); em = snd (font_source F i use_theme t) in
      if ft_fonts t ! i \<noteq> None then Ret (0, t)
      else case first_font (\<lambda>ob. fo_data ob = data \<and> fo_em_h ob = em) t of
        Panic \<Rightarrow> Panic
      | Ret (Some (j, _)) \<Rightarrow> Ret (0, t\<lparr>ft_fonts := (ft_fonts t)[i := ft_fonts t ! j]\<rparr>)
      | Ret None \<Rightarrow>
          (case first_font (\<lambda>ob. fo_data ob = data) t of
             Panic \<Rightarrow> Panic
           | Ret found \<Rightarrow>
               (case Option.bind found (\<lambda>(_, ob). fo_face ob) of
                  Some face \<Rightarrow> finish_font F i (new_object data em (Some face)) t
                | None \<Rightarrow>
                    let ret = new_face F t data in
                    if ret \<noteq> 0 then
                      (if use_theme \<and> tf_data (ft_theme t ! i) \<noteq> None
                       then font_load F i False (t\<lparr>ft_theme := (ft_theme t)[i := (ft_theme t ! i)\<lparr>tf_data := None\<rparr>]\<rparr>)
                       else Ret (ret, leak_object (new_object data em None) t))
                    else finish_font F i (new_object data em (Some (ft_next_face t)))
                           (t\<lparr>ft_faces := (ft_faces t)(ft_next_face t \<mapsto> data), ft_next_face := ft_next_face t + 1\<rparr>))))"
  by pat_completeness auto
termination
  by (relation "measure (\<lambda>(_, _, use_theme, _). if use_theme then 1 else 0)") auto

declare font_load.simps [simp del]

section \<open>Using a font\<close>

text \<open>
  An entry is read without a look at what \<^verbatim>\<open>font_load\<close> returned: it is \<^verbatim>\<open>NULL\<close> (\<open>No_Font\<close>), or its object is not there
  (\<open>Dangling\<close>), or it is used.
\<close>

datatype 'a use = Used 'a | No_Font | Dangling

fun bind_use :: "'a use \<Rightarrow> ('a \<Rightarrow> 'b use) \<Rightarrow> 'b use" where
  "bind_use (Used x) f = f x"
| "bind_use No_Font f = No_Font"
| "bind_use Dangling f = Dangling"

definition of_ret :: "'a ret \<Rightarrow> 'a use" where
  "of_ret r = (case r of Ret x \<Rightarrow> Used x | Panic \<Rightarrow> Dangling)"

text \<open>\<^verbatim>\<open>font_load(id,1)\<close> and the reading of \<^verbatim>\<open>fonts[id]\<close>.\<close>

definition use_font :: "freetype \<Rightarrow> nat \<Rightarrow> font_table \<Rightarrow> (nat \<times> font_object \<times> font_table) use" where
  "use_font F i t =
     bind_use (of_ret (font_load F i True t)) (\<lambda>(ret, t1).
       case ft_fonts t1 ! i of
         None \<Rightarrow> No_Font
       | Some p \<Rightarrow> (case ft_objects t1 p of None \<Rightarrow> Dangling | Some ob \<Rightarrow> Used (p, ob, t1)))"

definition table_char :: "freetype \<Rightarrow> nat \<Rightarrow> int \<Rightarrow> font_table \<Rightarrow> (font_glyph \<times> font_table) use" where
  "table_char F i cp t =
     bind_use (use_font F i t) (\<lambda>(p, ob, t1).
     bind_use (of_ret (object_char F t1 ob cp)) (\<lambda>(g, ob1).
     Used (g, t1\<lparr>ft_objects := (ft_objects t1)(p \<mapsto> ob1)\<rparr>)))"

definition table_metric :: "freetype \<Rightarrow> nat \<Rightarrow> (font_object \<Rightarrow> int) \<Rightarrow> font_table \<Rightarrow> (int \<times> font_table) use" where
  "table_metric F i m t = bind_use (use_font F i t) (\<lambda>(p, ob, t1). Used (m ob, t1))"

definition font_get_ascender :: "freetype \<Rightarrow> nat \<Rightarrow> font_table \<Rightarrow> (int \<times> font_table) use" where
  "font_get_ascender F i t = table_metric F i fo_ascender t"

definition font_get_height :: "freetype \<Rightarrow> nat \<Rightarrow> font_table \<Rightarrow> (int \<times> font_table) use" where
  "font_get_height F i t = table_metric F i (\<lambda>ob. fo_ascender ob - fo_descender ob) t"

definition font_get_em_height :: "freetype \<Rightarrow> nat \<Rightarrow> font_table \<Rightarrow> (int \<times> font_table) use" where
  "font_get_em_height F i t = table_metric F i fo_em_height t"

definition font_get_y_spacing :: "freetype \<Rightarrow> nat \<Rightarrow> font_table \<Rightarrow> (int \<times> font_table) use" where
  "font_get_y_spacing F i t = table_metric F i fo_height t"

definition font_get_min_y :: "freetype \<Rightarrow> nat \<Rightarrow> font_table \<Rightarrow> (int \<times> font_table) use" where
  "font_get_min_y F i t = table_metric F i (\<lambda>ob. - fo_descender ob) t"

section \<open>Clearing the table\<close>

text \<open>\<^verbatim>\<open>FT_Done_Face\<close>, \<^verbatim>\<open>free\<close> and reading an object need what they are given to be there.\<close>

definition done_face :: "nat \<Rightarrow> font_table \<Rightarrow> font_table ret" where
  "done_face f t = (if ft_faces t f = None then Panic else Ret (t\<lparr>ft_faces := (ft_faces t)(f := None)\<rparr>))"

definition free_object :: "nat \<Rightarrow> font_table \<Rightarrow> font_table ret" where
  "free_object p t = (if ft_objects t p = None then Panic else Ret (t\<lparr>ft_objects := (ft_objects t)(p := None)\<rparr>))"

text \<open>Every object of the table with this face loses it.\<close>

fun drop_face :: "nat \<Rightarrow> nat option list \<Rightarrow> font_table \<Rightarrow> font_table ret" where
  "drop_face f [] t = Ret t"
| "drop_face f (None # ps) t = drop_face f ps t"
| "drop_face f (Some p # ps) t =
     (case ft_objects t p of
        None \<Rightarrow> Panic
      | Some ob \<Rightarrow>
          drop_face f ps (if fo_face ob = Some f then t\<lparr>ft_objects := (ft_objects t)(p \<mapsto> ob\<lparr>fo_face := None\<rparr>)\<rparr> else t))"

definition clear_font :: "nat \<Rightarrow> font_table \<Rightarrow> font_table ret" where
  "clear_font i t =
     (case ft_fonts t ! i of
        None \<Rightarrow> Ret t
      | Some p \<Rightarrow>
          let t1 = t\<lparr>ft_fonts := map (\<lambda>k. if k \<noteq> i \<and> ft_fonts t ! k = Some p then None else ft_fonts t ! k) [0..<length (ft_fonts t)]\<rparr> in
          case ft_objects t1 p of
            None \<Rightarrow> Panic
          | Some ob \<Rightarrow>
              bind_ret (case fo_face ob of
                          None \<Rightarrow> Ret t1
                        | Some f \<Rightarrow> bind_ret (done_face f t1) (\<lambda>t2. drop_face f (ft_fonts t2) t2)) (\<lambda>t3.
              bind_ret (free_object p t3) (\<lambda>t4. Ret (t4\<lparr>ft_fonts := (ft_fonts t4)[i := None]\<rparr>))))"

fun clear_from :: "nat list \<Rightarrow> font_table \<Rightarrow> font_table ret" where
  "clear_from [] t = Ret t"
| "clear_from (i # is) t = bind_ret (clear_font i t) (clear_from is)"

definition font_clear :: "font_table \<Rightarrow> font_table ret" where
  "font_clear t = clear_from [0..<FONT_MAX] t"

section \<open>A well-formed table\<close>

text \<open>
  The objects of the table are there, their faces are there and were opened from their data; what comes next is fresh. Only
  while the table is being cleared (\<open>whole\<close> is false) an object may be without a face.
\<close>

definition entry_ok :: "bool \<Rightarrow> font_table \<Rightarrow> nat \<Rightarrow> bool" where
  "entry_ok whole t p \<longleftrightarrow>
     (case ft_objects t p of
        None \<Rightarrow> False
      | Some ob \<Rightarrow> (case fo_face ob of None \<Rightarrow> \<not> whole | Some f \<Rightarrow> ft_faces t f = Some (fo_data ob)))"

definition table_ok :: "bool \<Rightarrow> font_table \<Rightarrow> bool" where
  "table_ok whole t \<longleftrightarrow> length (ft_fonts t) = FONT_MAX \<and> (\<forall>p. Some p \<in> set (ft_fonts t) \<longrightarrow> entry_ok whole t p)
     \<and> (\<forall>p \<ge> ft_next t. ft_objects t p = None) \<and> (\<forall>f \<ge> ft_next_face t. ft_faces t f = None)"

text \<open>What a load may change: its own entry, fresh objects and faces, and which font files are in use.\<close>

definition only_entry :: "nat \<Rightarrow> font_table \<Rightarrow> font_table \<Rightarrow> bool" where
  "only_entry i t t' \<longleftrightarrow> (\<forall>j. j \<noteq> i \<longrightarrow> ft_fonts t' ! j = ft_fonts t ! j)
     \<and> (\<forall>p < ft_next t. ft_objects t' p = ft_objects t p) \<and> (\<forall>f < ft_next_face t. ft_faces t' f = ft_faces t f)"

lemma entry_ok_fonts [simp]: "entry_ok w (t\<lparr>ft_fonts := x\<rparr>) p = entry_ok w t p" "entry_ok w (t\<lparr>ft_theme := y\<rparr>) p = entry_ok w t p"
  by (simp_all add: entry_ok_def split: option.split)

lemma table_entry: "table_ok whole t \<Longrightarrow> i < FONT_MAX \<Longrightarrow> ft_fonts t ! i = Some p \<Longrightarrow> entry_ok whole t p"
  unfolding table_ok_def by (metis nth_mem)

lemma table_enter:
  assumes "table_ok w t" and "i < FONT_MAX" and "entry_ok w t p"
  shows "table_ok w (t\<lparr>ft_fonts := (ft_fonts t)[i := Some p]\<rparr>)"
proof -
  have "entry_ok w t q" if "Some q \<in> set ((ft_fonts t)[i := Some p])" for q
    using that assms set_update_subset_insert[of "ft_fonts t" i "Some p"] unfolding table_ok_def by auto
  then show ?thesis using assms by (simp add: table_ok_def)
qed

text \<open>A fresh object, or a fresh face, leaves the entries as they are.\<close>

lemma fresh_object:
  assumes "table_ok w t"
  shows "table_ok w (t\<lparr>ft_objects := (ft_objects t)(ft_next t \<mapsto> ob), ft_next := ft_next t + 1\<rparr>)"
proof -
  have "p \<noteq> ft_next t" if "Some p \<in> set (ft_fonts t)" for p
    using assms that unfolding table_ok_def by (auto simp: entry_ok_def)
  then have "entry_ok w (t\<lparr>ft_objects := (ft_objects t)(ft_next t \<mapsto> ob), ft_next := ft_next t + 1\<rparr>) p"
    if "Some p \<in> set (ft_fonts t)" for p
  proof -
    have "entry_ok w t p" "p \<noteq> ft_next t" using assms that \<open>\<And>p. Some p \<in> set (ft_fonts t) \<Longrightarrow> p \<noteq> ft_next t\<close>
      by (auto simp: table_ok_def)
    then show ?thesis by (cases "ft_objects t p") (simp_all add: entry_ok_def split: option.splits)
  qed
  then show ?thesis using assms unfolding table_ok_def by auto
qed

lemma fresh_face:
  assumes "table_ok w t"
  shows "table_ok w (t\<lparr>ft_faces := (ft_faces t)(ft_next_face t \<mapsto> d), ft_next_face := ft_next_face t + 1\<rparr>)"
proof -
  have "entry_ok w (t\<lparr>ft_faces := (ft_faces t)(ft_next_face t \<mapsto> d), ft_next_face := ft_next_face t + 1\<rparr>) p"
    if "Some p \<in> set (ft_fonts t)" for p
  proof -
    have "entry_ok w t p" "ft_faces t (ft_next_face t) = None" using assms that unfolding table_ok_def by auto
    then show ?thesis by (auto simp: entry_ok_def split: option.splits)
  qed
  then show ?thesis using assms unfolding table_ok_def by auto
qed

text \<open>The cached glyphs of every object with a face are what the face renders at the size of the object.\<close>

definition glyphs_of :: "freetype \<Rightarrow> font_object \<Rightarrow> int \<Rightarrow> ft_glyph option" where
  "glyphs_of F ob = face_glyph F (the (fo_face ob)) (fo_em_w ob) (fo_em_h ob)"

definition glyphs_ok :: "freetype \<Rightarrow> font_table \<Rightarrow> bool" where
  "glyphs_ok F t \<longleftrightarrow> (\<forall>p ob. ft_objects t p = Some ob \<longrightarrow> fo_face ob \<noteq> None \<longrightarrow> cache_ok (glyphs_of F ob) (fo_glyphs ob))"

definition load_ok :: "freetype \<Rightarrow> nat \<Rightarrow> font_table \<Rightarrow> (int \<times> font_table) ret \<Rightarrow> bool" where
  "load_ok F i t r \<longleftrightarrow> (\<exists>ret t'. r = Ret (ret, t') \<and> table_ok True t' \<and> glyphs_ok F t' \<and> only_entry i t t' \<and> (ret = 0 \<longleftrightarrow> ft_fonts t' ! i \<noteq> None))"

lemma only_entry_refl: "only_entry i t t"
  by (simp add: only_entry_def)

text \<open>A character asked for is the one that the face renders, and the cache stays right.\<close>

lemma object_char_ok:
  assumes "cache_ok (glyphs_of F ob) (fo_glyphs ob)" and "fo_face ob = Some f" and "ft_faces t f \<noteq> None" and "0 \<le> cp"
  shows "\<exists>g gs. object_char F t ob cp = Ret (g, ob\<lparr>fo_glyphs := gs\<rparr>) \<and> g\<lparr>next_idx := - 1\<rparr> = render (glyphs_of F ob) cp
    \<and> cache_ok (glyphs_of F ob) gs"
proof -
  obtain k gs where "font_get_char (glyphs_of F ob) cp (fo_glyphs ob) = Some (k, gs)"
      "(glyphs gs ! k)\<lparr>next_idx := - 1\<rparr> = render (glyphs_of F ob) cp" "cache_ok (glyphs_of F ob) gs"
    using font_get_char_ok[OF assms(1,4)] by blast
  then show ?thesis using assms(2,3) by (auto simp: object_char_def glyphs_of_def)
qed

lemma finish_font_ok:
  assumes "table_ok True t" and "glyphs_ok F t" and "i < FONT_MAX" and "ft_fonts t ! i = None" and "fo_face ob = Some f"
    and "ft_faces t f = Some (fo_data ob)"
  shows "load_ok F i t (finish_font F i ob t)"
proof (cases "set_sizes F t f (em_width F (fo_em_w ob)) (fo_em_h ob) = 0")
  case False
  then show ?thesis using assms by (simp add: finish_font_def Let_def load_ok_def only_entry_refl)
next
  case True
  define ob1 where "ob1 = ob\<lparr>fo_em_w := em_width F (fo_em_w ob), fo_glyphs := empty_face\<rparr>"
  have ob1: "fo_face ob1 = Some f" "fo_data ob1 = fo_data ob" by (simp_all add: ob1_def assms(5))
  obtain g gs where g: "object_char F t ob1 77 = Ret (g, ob1\<lparr>fo_glyphs := gs\<rparr>)" "cache_ok (glyphs_of F ob1) gs"
    using object_char_ok[of F ob1 f t 77] ob1 assms(6) cache_ok_empty by (auto simp: ob1_def)
  obtain asc desc h where m: "face_metrics F f (em_width F (fo_em_w ob)) (fo_em_h ob) = (asc, desc, h)" by (metis prod_cases3)
  define ob2 where "ob2 = ob1\<lparr>fo_glyphs := gs, fo_em_height := g_h g, fo_ascender := pixels asc, fo_descender := pixels desc, fo_height := pixels h\<rparr>"
  let ?t1 = "t\<lparr>ft_objects := (ft_objects t)(ft_next t \<mapsto> ob2), ft_next := ft_next t + 1\<rparr>"
  let ?t2 = "?t1\<lparr>ft_fonts := (ft_fonts ?t1)[i := Some (ft_next t)]\<rparr>"
  have run: "finish_font F i ob t = Ret (0, ?t2)"
  proof -
    have "finish_font F i ob t = Ret (0, t\<lparr>ft_fonts := (ft_fonts t)[i := Some (ft_next t)],
        ft_objects := (ft_objects t)(ft_next t \<mapsto> ob2), ft_next := ft_next t + 1\<rparr>)"
      using True assms(5,6) g(1) m by (simp add: finish_font_def Let_def ob2_def ob1_def)
    also have "t\<lparr>ft_fonts := (ft_fonts t)[i := Some (ft_next t)], ft_objects := (ft_objects t)(ft_next t \<mapsto> ob2), ft_next := ft_next t + 1\<rparr> = ?t2"
      by (rule font_table.equality) simp_all
    finally show ?thesis .
  qed
  have ob2: "fo_face ob2 = Some f" "fo_data ob2 = fo_data ob" "fo_glyphs ob2 = gs" "glyphs_of F ob2 = glyphs_of F ob1"
    by (simp_all add: ob2_def ob1 glyphs_of_def)
  have "entry_ok True ?t1 (ft_next t)" using assms(6) ob2 by (simp add: entry_ok_def)
  from table_enter[OF fresh_object[OF assms(1)] assms(3) this]
  have "table_ok True ?t2" .
  moreover have "glyphs_ok F ?t2" using assms(2) g(2) ob2 by (simp add: glyphs_ok_def)
  moreover have "length (ft_fonts t) = FONT_MAX" using assms(1) by (simp add: table_ok_def)
  ultimately show ?thesis using assms(3) unfolding run load_ok_def by (simp add: only_entry_def)
qed

text \<open>A search in the table finds an entry with its object.\<close>

lemma scan_fonts_ok:
  assumes "table_ok w t" and "\<forall>i \<in> set is. i < FONT_MAX"
  shows "\<exists>r. scan_fonts P t is = Ret r \<and>
    (\<forall>j ob. r = Some (j, ob) \<longrightarrow> j < FONT_MAX \<and> P ob \<and> (\<exists>p. ft_fonts t ! j = Some p \<and> ft_objects t p = Some ob))"
  using assms
proof (induction P t "is" rule: scan_fonts.induct)
  case (2 P t i js)
  show ?case
  proof (cases "ft_fonts t ! i")
    case None
    then show ?thesis using "2.IH"(1) "2.prems" by simp
  next
    case (Some p)
    then have "entry_ok w t p" using table_entry[OF "2.prems"(1) _ Some] "2.prems"(2) by simp
    then obtain ob where "ft_objects t p = Some ob" by (auto simp: entry_ok_def split: option.splits)
    then show ?thesis using "2.IH"(2)[OF Some] "2.prems" Some by (cases "P ob") simp_all
  qed
qed simp

lemma first_font_ok:
  assumes "table_ok w t"
  shows "\<exists>r. first_font P t = Ret r \<and>
    (\<forall>j ob. r = Some (j, ob) \<longrightarrow> j < FONT_MAX \<and> P ob \<and> (\<exists>p. ft_fonts t ! j = Some p \<and> ft_objects t p = Some ob))"
  unfolding first_font_def by (rule scan_fonts_ok[OF assms]) simp

lemma load_ok_grown:
  assumes "load_ok F i t1 r" and "only_entry i t t1" and "ft_next t \<le> ft_next t1" and "ft_next_face t \<le> ft_next_face t1"
  shows "load_ok F i t r"
  using assms by (fastforce simp: load_ok_def only_entry_def)

lemma font_load_ok:
  "table_ok True t \<Longrightarrow> glyphs_ok F t \<Longrightarrow> i < FONT_MAX \<Longrightarrow> load_ok F i t (font_load F i use_theme t)"
proof (induction F i use_theme t rule: font_load.induct)
  case (1 F i use_theme t)
  define data where "data = fst (font_source F i use_theme t)"
  define em where "em = snd (font_source F i use_theme t)"
  note run = font_load.simps[of F i use_theme t, folded data_def em_def, unfolded Let_def]
  note ok = "1.prems"(1) and gok = "1.prems"(2) and i = "1.prems"(3)
  have len: "length (ft_fonts t) = FONT_MAX" using ok by (simp add: table_ok_def)
  show ?case
  proof (cases "ft_fonts t ! i")
    case (Some p)
    then show ?thesis using ok gok by (simp add: run load_ok_def only_entry_refl)
  next
    case None
    then have f0: "\<not> ft_fonts t ! i \<noteq> None" by simp
    note run = run[unfolded if_not_P[OF f0]]
    obtain r where r: "first_font (\<lambda>ob. fo_data ob = data \<and> fo_em_h ob = em) t = Ret r"
        "\<forall>j ob. r = Some (j, ob) \<longrightarrow> j < FONT_MAX \<and> (\<exists>p. ft_fonts t ! j = Some p \<and> ft_objects t p = Some ob)"
      using first_font_ok[OF ok, of "\<lambda>ob. fo_data ob = data \<and> fo_em_h ob = em"] by blast
    show ?thesis
    proof (cases r)
      case (Some jo)
      then obtain j ob p where j: "r = Some (j, ob)" "j < FONT_MAX" "ft_fonts t ! j = Some p" using r(2) by (cases jo) auto
      have "table_ok True (t\<lparr>ft_fonts := (ft_fonts t)[i := Some p]\<rparr>)" by (rule table_enter[OF ok i table_entry[OF ok j(2,3)]])
      then show ?thesis using gok i len j by (simp add: run r(1) load_ok_def only_entry_def glyphs_ok_def)
    next
      case none: None
      note none = r(1)[unfolded none]
      obtain q where q: "first_font (\<lambda>ob. fo_data ob = data) t = Ret q"
          "\<forall>j ob. q = Some (j, ob) \<longrightarrow> j < FONT_MAX \<and> fo_data ob = data \<and> (\<exists>p. ft_fonts t ! j = Some p \<and> ft_objects t p = Some ob)"
        using first_font_ok[OF ok, of "\<lambda>ob. fo_data ob = data"] by blast
      show ?thesis
      proof (cases "Option.bind q (\<lambda>(_, ob). fo_face ob)")
        case (Some f)
        then obtain j p ob where j: "j < FONT_MAX" "ft_fonts t ! j = Some p" "ft_objects t p = Some ob" "fo_data ob = data" "fo_face ob = Some f"
          using q(2) by (auto simp: bind_eq_Some_conv)
        then have "ft_faces t f = Some data" using table_entry[OF ok j(1,2)] by (simp add: entry_ok_def)
        then show ?thesis
          using finish_font_ok[OF ok gok i None, of "new_object data em (Some f)" f]
          unfolding run none q(1) ret.case option.case Some by (simp add: new_object_def)
      next
        case face: None
        show ?thesis
        proof (cases "new_face F t data = 0")
          case True
          let ?t1 = "t\<lparr>ft_faces := (ft_faces t)(ft_next_face t \<mapsto> data), ft_next_face := ft_next_face t + 1\<rparr>"
          have "load_ok F i ?t1 (finish_font F i (new_object data em (Some (ft_next_face t))) ?t1)"
            by (rule finish_font_ok[OF fresh_face[OF ok] _ i, where f = "ft_next_face t"])
              (use None gok in \<open>simp_all add: new_object_def glyphs_ok_def\<close>)
          then have "load_ok F i t (finish_font F i (new_object data em (Some (ft_next_face t))) ?t1)"
            by (rule load_ok_grown) (simp_all add: only_entry_def)
          then show ?thesis unfolding run none q(1) face ret.case option.case using True by simp
        next
          case False
          show ?thesis
          proof (cases "use_theme \<and> tf_data (ft_theme t ! i) \<noteq> None")
            case True
            let ?t1 = "t\<lparr>ft_theme := (ft_theme t)[i := (ft_theme t ! i)\<lparr>tf_data := None\<rparr>]\<rparr>"
            have "table_ok True ?t1" "glyphs_ok F ?t1" using ok gok by (simp_all add: table_ok_def glyphs_ok_def)
            then have "load_ok F i ?t1 (font_load F i False ?t1)"
              using "1.IH"[OF refl refl, folded data_def em_def, OF f0 none refl q(1) face refl False True] i by simp
            then have "load_ok F i t (font_load F i False ?t1)" by (rule load_ok_grown) (simp_all add: only_entry_def)
            then show ?thesis unfolding run none q(1) face ret.case option.case using False True by simp
          next
            case nofallback: False
            have "table_ok True (leak_object (new_object data em None) t)" unfolding leak_object_def by (rule fresh_object[OF ok])
            moreover have "glyphs_ok F (leak_object (new_object data em None) t)"
              using gok by (simp add: glyphs_ok_def leak_object_def new_object_def)
            ultimately have "load_ok F i t (Ret (new_face F t data, leak_object (new_object data em None) t))"
              using None False by (simp add: load_ok_def only_entry_def leak_object_def)
            then show ?thesis unfolding run none q(1) face ret.case option.case if_not_P[OF nofallback] using False by simp
          qed
        qed
      qed
    qed
  qed
qed

text \<open>
  The use of an entry: it is not there exactly when the load was refused; otherwise a character is what the face of the
  object, open on the data of the object, renders at its size.
\<close>

definition refused :: "freetype \<Rightarrow> nat \<Rightarrow> font_table \<Rightarrow> bool" where
  "refused F i t \<longleftrightarrow> (\<exists>ret t'. font_load F i True t = Ret (ret, t') \<and> ret \<noteq> 0)"

lemma use_font_ok:
  assumes "table_ok True t" and "glyphs_ok F t" and "i < FONT_MAX"
  shows "(use_font F i t = No_Font \<and> refused F i t)
    \<or> (\<exists>p ob f t1. use_font F i t = Used (p, ob, t1) \<and> \<not> refused F i t \<and> table_ok True t1 \<and> glyphs_ok F t1 \<and> ft_fonts t1 ! i = Some p
        \<and> ft_objects t1 p = Some ob \<and> fo_face ob = Some f \<and> ft_faces t1 f = Some (fo_data ob))"
proof -
  obtain ret t1 where l: "font_load F i True t = Ret (ret, t1)" "table_ok True t1" "glyphs_ok F t1" "ret = 0 \<longleftrightarrow> ft_fonts t1 ! i \<noteq> None"
    using font_load_ok[OF assms] unfolding load_ok_def by blast
  have refused: "refused F i t \<longleftrightarrow> ret \<noteq> 0" using l(1) by (simp add: refused_def)
  show ?thesis
  proof (cases "ft_fonts t1 ! i")
    case None
    then show ?thesis using l by (simp add: use_font_def of_ret_def refused)
  next
    case (Some p)
    then have "entry_ok True t1 p" by (rule table_entry[OF l(2) assms(3)])
    then obtain ob f where "ft_objects t1 p = Some ob" "fo_face ob = Some f" "ft_faces t1 f = Some (fo_data ob)"
      by (auto simp: entry_ok_def split: option.splits)
    then show ?thesis using l Some by (simp add: use_font_def of_ret_def refused)
  qed
qed

lemma table_char_ok:
  assumes "table_ok True t" and "glyphs_ok F t" and "i < FONT_MAX" and "0 \<le> cp"
  shows "(table_char F i cp t = No_Font \<and> refused F i t)
    \<or> (\<exists>g t1 p ob f. table_char F i cp t = Used (g, t1) \<and> \<not> refused F i t \<and> table_ok True t1 \<and> glyphs_ok F t1 \<and> ft_fonts t1 ! i = Some p
        \<and> ft_objects t1 p = Some ob \<and> fo_face ob = Some f \<and> ft_faces t1 f = Some (fo_data ob)
        \<and> g\<lparr>next_idx := - 1\<rparr> = render (face_glyph F f (fo_em_w ob) (fo_em_h ob)) cp)"
  using use_font_ok[OF assms(1-3)]
proof (elim disjE exE conjE)
  assume "use_font F i t = No_Font" "refused F i t"
  then show ?thesis by (simp add: table_char_def)
next
  fix p ob f t1
  assume u: "use_font F i t = Used (p, ob, t1)" "\<not> refused F i t" "table_ok True t1" "glyphs_ok F t1" "ft_fonts t1 ! i = Some p"
    "ft_objects t1 p = Some ob" "fo_face ob = Some f" "ft_faces t1 f = Some (fo_data ob)"
  have "cache_ok (glyphs_of F ob) (fo_glyphs ob)" using u(4,6,7) by (simp add: glyphs_ok_def)
  then obtain g gs where g: "object_char F t1 ob cp = Ret (g, ob\<lparr>fo_glyphs := gs\<rparr>)" "g\<lparr>next_idx := - 1\<rparr> = render (glyphs_of F ob) cp"
      "cache_ok (glyphs_of F ob) gs"
    using object_char_ok[of F ob f t1 cp] u(7,8) assms(4) by auto
  define t2 where "t2 = t1\<lparr>ft_objects := (ft_objects t1)(p \<mapsto> ob\<lparr>fo_glyphs := gs\<rparr>)\<rparr>"
  have run: "table_char F i cp t = Used (g, t2)" using u(1) g(1) by (simp add: table_char_def of_ret_def t2_def)
  have eq: "entry_ok True t2 q = entry_ok True t1 q" for q using u(6) by (simp add: entry_ok_def t2_def split: option.split)
  have "p < ft_next t1" using u(3,6) unfolding table_ok_def by (metis linorder_not_le option.distinct(1))
  then have "table_ok True t2" using u(3) unfolding table_ok_def eq by (simp add: t2_def)
  moreover have "glyphs_ok F t2" using u(4) g(3) by (simp add: glyphs_ok_def t2_def glyphs_of_def)
  moreover have "ft_fonts t2 ! i = Some p" "ft_faces t2 f = Some (fo_data ob)" "ft_objects t2 p = Some (ob\<lparr>fo_glyphs := gs\<rparr>)"
    using u(5,8) by (simp_all add: t2_def)
  ultimately show ?thesis using run u(2,7) g(2) by (auto simp: glyphs_of_def)
qed

lemma table_metric_ok:
  assumes "table_ok True t" and "glyphs_ok F t" and "i < FONT_MAX"
  shows "(table_metric F i m t = No_Font \<and> refused F i t)
    \<or> (\<exists>x t1. table_metric F i m t = Used (x, t1) \<and> \<not> refused F i t \<and> table_ok True t1 \<and> glyphs_ok F t1)"
  using use_font_ok[OF assms] by (auto simp: table_metric_def)

section \<open>Clearing releases everything once\<close>

definition without_face :: "nat \<Rightarrow> font_object \<Rightarrow> font_object" where
  "without_face f ob = (if fo_face ob = Some f then ob\<lparr>fo_face := None\<rparr> else ob)"

lemma without_face_twice [simp]: "without_face f (without_face f ob) = without_face f ob"
  by (simp add: without_face_def)

lemma drop_face_run:
  "(\<forall>p. Some p \<in> set ps \<longrightarrow> ft_objects t p \<noteq> None) \<Longrightarrow>
    drop_face f ps t = Ret (t\<lparr>ft_objects := (\<lambda>q. if Some q \<in> set ps then map_option (without_face f) (ft_objects t q) else ft_objects t q)\<rparr>)"
proof (induction f ps t rule: drop_face.induct)
  case (3 f p ps t)
  then obtain ob where ob: "ft_objects t p = Some ob" by auto
  let ?t1 = "if fo_face ob = Some f then t\<lparr>ft_objects := (ft_objects t)(p \<mapsto> ob\<lparr>fo_face := None\<rparr>)\<rparr> else t"
  have t1: "ft_objects ?t1 = (ft_objects t)(p := Some (without_face f ob))" "ft_fonts ?t1 = ft_fonts t" "ft_faces ?t1 = ft_faces t"
      "ft_next ?t1 = ft_next t" "ft_next_face ?t1 = ft_next_face t" "ft_theme ?t1 = ft_theme t"
    using ob by (auto simp: without_face_def)
  have "drop_face f ps ?t1 = Ret (?t1\<lparr>ft_objects := (\<lambda>q. if Some q \<in> set ps then map_option (without_face f) (ft_objects ?t1 q) else ft_objects ?t1 q)\<rparr>)"
    by (rule "3.IH"[OF ob]) (use "3.prems" t1(1) in auto)
  moreover have "?t1\<lparr>ft_objects := (\<lambda>q. if Some q \<in> set ps then map_option (without_face f) (ft_objects ?t1 q) else ft_objects ?t1 q)\<rparr>
      = t\<lparr>ft_objects := (\<lambda>q. if Some q \<in> set (Some p # ps) then map_option (without_face f) (ft_objects t q) else ft_objects t q)\<rparr>"
    by (rule font_table.equality) (auto simp: fun_eq_iff ob without_face_def)
  ultimately show ?case using ob by simp
qed simp_all

text \<open>The objects in the table, and their faces.\<close>

definition tabled :: "font_table \<Rightarrow> nat set" where
  "tabled t = {p. Some p \<in> set (ft_fonts t)}"

definition tabled_faces :: "font_table \<Rightarrow> nat set" where
  "tabled_faces t = {f. \<exists>p \<in> tabled t. \<exists>ob. ft_objects t p = Some ob \<and> fo_face ob = Some f}"

text \<open>An object that still has a face is as it was.\<close>

definition same_faced :: "font_table \<Rightarrow> font_table \<Rightarrow> bool" where
  "same_faced t t' \<longleftrightarrow> (\<forall>p ob. ft_objects t' p = Some ob \<longrightarrow> fo_face ob \<noteq> None \<longrightarrow> ft_objects t p = Some ob)"

definition clear_step :: "nat \<Rightarrow> font_table \<Rightarrow> font_table \<Rightarrow> bool" where
  "clear_step i t t' \<longleftrightarrow> table_ok False t' \<and> ft_fonts t' ! i = None \<and> (\<forall>j < FONT_MAX. ft_fonts t ! j = None \<longrightarrow> ft_fonts t' ! j = None)
     \<and> tabled t' \<subseteq> tabled t \<and> tabled_faces t' \<subseteq> tabled_faces t \<and> same_faced t t'
     \<and> dom (ft_objects t') = dom (ft_objects t) - (tabled t - tabled t')
     \<and> dom (ft_faces t') = dom (ft_faces t) - (tabled_faces t - tabled_faces t')"

lemma entry_live: "table_ok w t \<Longrightarrow> Some p \<in> set (ft_fonts t) \<Longrightarrow> ft_objects t p \<noteq> None"
proof -
  assume "table_ok w t" "Some p \<in> set (ft_fonts t)"
  then have "entry_ok w t p" by (simp add: table_ok_def)
  then show ?thesis by (cases "ft_objects t p") (simp_all add: entry_ok_def)
qed

lemma in_entries: "length xs = n \<Longrightarrow> x \<in> set xs \<longleftrightarrow> (\<exists>j < n. xs ! j = x)"
  by (auto simp: in_set_conv_nth)

lemma clear_font_ok:
  assumes "table_ok False t" and "i < FONT_MAX"
  shows "\<exists>t'. clear_font i t = Ret t' \<and> clear_step i t t'"
proof (cases "ft_fonts t ! i")
  case None
  then show ?thesis using assms by (auto simp: clear_font_def clear_step_def same_faced_def)
next
  case (Some p)
  have len: "length (ft_fonts t) = FONT_MAX" using assms(1) by (simp add: table_ok_def)
  then have p: "Some p \<in> set (ft_fonts t)" using Some assms(2) by (metis nth_mem)
  obtain ob where ob: "ft_objects t p = Some ob" using entry_live[OF assms(1) p] by auto
  define fs where "fs = map (\<lambda>k. if k \<noteq> i \<and> ft_fonts t ! k = Some p then None else ft_fonts t ! k) [0..<length (ft_fonts t)]"
  have fs: "length fs = FONT_MAX" "fs ! i = Some p" using len assms(2) Some by (simp_all add: fs_def)
  have fsj: "fs ! j = (if j \<noteq> i \<and> ft_fonts t ! j = Some p then None else ft_fonts t ! j)" if "j < FONT_MAX" for j
    using that len by (simp add: fs_def)
  have sub: "Some q \<in> set (ft_fonts t)" if "Some q \<in> set fs" for q
    using that len by (auto simp: fs_def split: if_splits)
  have also_in: "Some q \<in> set fs" if mem: "Some q \<in> set (ft_fonts t)" for q
  proof -
    obtain j where j: "j < FONT_MAX" "ft_fonts t ! j = Some q" using mem unfolding in_entries[OF len] by blast
    then have "fs ! j = Some q \<or> q = p" using fsj[OF j(1)] by auto
    then show ?thesis using fs(2) j(1) assms(2) unfolding in_entries[OF fs(1)] by blast
  qed
  have len': "length (fs[i := None]) = FONT_MAX" using fs(1) by simp
  have gone: "Some q \<in> set (fs[i := None]) \<longleftrightarrow> Some q \<in> set (ft_fonts t) \<and> q \<noteq> p" for q
  proof
    assume "Some q \<in> set (fs[i := None])"
    then obtain j where j: "j < FONT_MAX" "fs[i := None] ! j = Some q" unfolding in_entries[OF len'] by blast
    then have ji: "j \<noteq> i" using fs(1) assms(2) by auto
    then have "fs ! j = Some q" using j(2) by simp
    then have "ft_fonts t ! j = Some q" "q \<noteq> p" using fsj[OF j(1)] ji by (auto split: if_splits)
    then show "Some q \<in> set (ft_fonts t) \<and> q \<noteq> p" using j(1) unfolding in_entries[OF len] by blast
  next
    assume q: "Some q \<in> set (ft_fonts t) \<and> q \<noteq> p"
    then have "Some q \<in> set fs" using also_in by simp
    then obtain j where j: "j < FONT_MAX" "fs ! j = Some q" unfolding in_entries[OF fs(1)] by blast
    then have "fs[i := None] ! j = Some q" using q fs by (cases "j = i") auto
    then show "Some q \<in> set (fs[i := None])" using j(1) unfolding in_entries[OF len'] by blast
  qed
  define g where "g = (case fo_face ob of None \<Rightarrow> id | Some f \<Rightarrow> without_face f)"
  define objects where "objects = (\<lambda>q. if Some q \<in> set fs then map_option g (ft_objects t q) else ft_objects t q)(p := None)"
  define faces where "faces = (case fo_face ob of None \<Rightarrow> ft_faces t | Some f \<Rightarrow> (ft_faces t)(f := None))"
  define t' where "t' = t\<lparr>ft_fonts := fs[i := None], ft_objects := objects, ft_faces := faces\<rparr>"
  have face: "ft_faces t f = Some (fo_data ob)" if "fo_face ob = Some f" for f
    using assms(1) p ob that by (auto simp: table_ok_def entry_ok_def)
  have run: "clear_font i t = Ret t'"
  proof (cases "fo_face ob")
    case None
    then have "map_option g = (\<lambda>x. x)" by (simp add: g_def fun_eq_iff option.map_id)
    then have "objects = (ft_objects t)(p := None)" by (simp add: objects_def fun_eq_iff)
    then show ?thesis
      using Some ob None by (simp add: clear_font_def Let_def fs_def [symmetric] free_object_def t'_def faces_def)
  next
    case (Some f)
    let ?t2 = "t\<lparr>ft_fonts := fs, ft_faces := (ft_faces t)(f := None)\<rparr>"
    have "drop_face f fs ?t2 = Ret (?t2\<lparr>ft_objects := (\<lambda>q. if Some q \<in> set fs then map_option g (ft_objects t q) else ft_objects t q)\<rparr>)"
    proof -
      have eq: "ft_objects ?t2 = ft_objects t" "map_option g = map_option (without_face f)" using Some by (simp_all add: g_def)
      show ?thesis using drop_face_run[of fs ?t2 f] entry_live[OF assms(1)] sub unfolding eq by blast
    qed
    moreover have "Some p \<in> set fs" using also_in[OF p] .
    ultimately show ?thesis
      using \<open>ft_fonts t ! i = Some p\<close> ob Some face[OF Some]
      by (simp add: clear_font_def Let_def fs_def [symmetric] free_object_def done_face_def t'_def faces_def objects_def)
  qed
  have q: "objects q = map_option g (ft_objects t q)" if "Some q \<in> set (ft_fonts t)" "q \<noteq> p" for q
    using that also_in by (simp add: objects_def)
  have tab: "tabled t' = tabled t - {p}" using gone by (auto simp: tabled_def t'_def)
  have kept_face: "fo_face (g ob') = Some f \<longleftrightarrow> fo_face ob' = Some f \<and> fo_face ob \<noteq> Some f" for ob' f
    by (auto simp: g_def without_face_def split: option.split)
  have data: "fo_data (g ob') = fo_data ob'" for ob' by (simp add: g_def without_face_def split: option.split)
  have faces: "faces f = (if fo_face ob = Some f then None else ft_faces t f)" for f
    by (simp add: faces_def split: option.split)
  have entries: "entry_ok False t' q" if "Some q \<in> set (ft_fonts t)" "q \<noteq> p" for q
  proof -
    have "entry_ok False t q" using assms(1) that(1) by (simp add: table_ok_def)
    then have "\<exists>ob'. ft_objects t q = Some ob' \<and> (\<forall>f. fo_face ob' = Some f \<longrightarrow> ft_faces t f = Some (fo_data ob'))"
      by (cases "ft_objects t q") (simp_all add: entry_ok_def split: option.splits)
    then obtain ob' where ob': "ft_objects t q = Some ob'" "\<forall>f. fo_face ob' = Some f \<longrightarrow> ft_faces t f = Some (fo_data ob')" by blast
    have "faces f = Some (fo_data (g ob'))" if "fo_face (g ob') = Some f" for f
      using that ob'(2) unfolding faces data kept_face by simp
    then show ?thesis using q[OF that] ob'(1) by (simp add: entry_ok_def t'_def split: option.split)
  qed
  have fresh: "objects q = None" if "ft_next t \<le> q" for q using assms(1) that by (auto simp: objects_def table_ok_def)
  have fresh_faces: "faces f = None" if "ft_next_face t \<le> f" for f using assms(1) that by (auto simp: faces table_ok_def)
  have ok': "table_ok False t'"
    unfolding table_ok_def using entries gone fresh fresh_faces fs(1) by (auto simp: t'_def)
  have tf: "tabled_faces t' = tabled_faces t - {f. fo_face ob = Some f}"
  proof -
    have "f \<in> tabled_faces t' \<longleftrightarrow> f \<in> tabled_faces t \<and> fo_face ob \<noteq> Some f" for f
    proof
      assume "f \<in> tabled_faces t'"
      then obtain r ob' where r: "Some r \<in> set (ft_fonts t)" "r \<noteq> p" "objects r = Some ob'" "fo_face ob' = Some f"
        unfolding tabled_faces_def tab by (auto simp: tabled_def t'_def)
      then obtain ob2 where "ft_objects t r = Some ob2" "ob' = g ob2" using q[OF r(1,2)] by auto
      with r show "f \<in> tabled_faces t \<and> fo_face ob \<noteq> Some f" using kept_face by (auto simp: tabled_faces_def tabled_def)
    next
      assume f: "f \<in> tabled_faces t \<and> fo_face ob \<noteq> Some f"
      then obtain r ob' where r: "Some r \<in> set (ft_fonts t)" "ft_objects t r = Some ob'" "fo_face ob' = Some f"
        by (auto simp: tabled_faces_def tabled_def)
      with f ob have "r \<noteq> p" by auto
      with r f kept_face q[OF r(1)] show "f \<in> tabled_faces t'"
        unfolding tabled_faces_def tab by (auto simp: tabled_def t'_def intro!: bexI[of _ r])
    qed
    then show ?thesis by auto
  qed
  have "tabled t - tabled t' = {p}" using p tab by (auto simp: tabled_def)
  moreover have "tabled_faces t - tabled_faces t' = {f. fo_face ob = Some f}"
    using p ob tf by (auto simp: tabled_faces_def tabled_def)
  moreover have "dom (ft_objects t') = dom (ft_objects t) - {p}" by (auto simp: t'_def objects_def dom_def split: if_splits)
  moreover have "dom (ft_faces t') = dom (ft_faces t) - {f. fo_face ob = Some f}" by (auto simp: t'_def faces dom_def split: if_splits)
  moreover have "\<forall>j < FONT_MAX. ft_fonts t ! j = None \<longrightarrow> ft_fonts t' ! j = None"
  proof (intro allI impI)
    fix j assume "j < FONT_MAX" "ft_fonts t ! j = None"
    then show "ft_fonts t' ! j = None" using fsj[of j] fs(1) by (cases "j = i") (simp_all add: t'_def)
  qed
  moreover have "ft_fonts t' ! i = None" using fs(1) assms(2) by (simp add: t'_def)
  moreover have "tabled t' \<subseteq> tabled t" "tabled_faces t' \<subseteq> tabled_faces t" unfolding tab tf by auto
  moreover have "same_faced t t'"
    unfolding same_faced_def by (auto simp: t'_def objects_def g_def without_face_def split: option.splits if_splits)
  ultimately have "clear_step i t t'" using ok' by (simp add: clear_step_def)
  with run show ?thesis by blast
qed

definition cleared :: "font_table \<Rightarrow> font_table \<Rightarrow> bool" where
  "cleared t t' \<longleftrightarrow> table_ok False t' \<and> (\<forall>j < FONT_MAX. ft_fonts t ! j = None \<longrightarrow> ft_fonts t' ! j = None)
     \<and> tabled t' \<subseteq> tabled t \<and> tabled_faces t' \<subseteq> tabled_faces t \<and> same_faced t t'
     \<and> dom (ft_objects t') = dom (ft_objects t) - (tabled t - tabled t')
     \<and> dom (ft_faces t') = dom (ft_faces t) - (tabled_faces t - tabled_faces t')"

lemma clear_step_cleared: "clear_step i t t' \<longleftrightarrow> cleared t t' \<and> ft_fonts t' ! i = None"
  by (auto simp: clear_step_def cleared_def)

lemma diff_trans: "A2 = A1 - (T1 - T2) \<Longrightarrow> A1 = A - (T - T1) \<Longrightarrow> T2 \<subseteq> T1 \<Longrightarrow> T1 \<subseteq> T \<Longrightarrow> A2 = A - (T - T2)"
  by blast

lemma cleared_trans:
  assumes "cleared t t1" and "cleared t1 t2"
  shows "cleared t t2"
proof -
  note a = assms(1)[unfolded cleared_def] and b = assms(2)[unfolded cleared_def]
  have "dom (ft_objects t2) = dom (ft_objects t) - (tabled t - tabled t2)"
    by (rule diff_trans[of _ "dom (ft_objects t1)" "tabled t1"]) (use a b in simp_all)
  moreover have "dom (ft_faces t2) = dom (ft_faces t) - (tabled_faces t - tabled_faces t2)"
    by (rule diff_trans[of _ "dom (ft_faces t1)" "tabled_faces t1"]) (use a b in simp_all)
  moreover have "tabled t2 \<subseteq> tabled t" "tabled_faces t2 \<subseteq> tabled_faces t" using a b by (meson subset_trans)+
  moreover have "same_faced t t2" using a b by (auto simp: same_faced_def)
  ultimately show ?thesis using a b by (simp add: cleared_def)
qed

lemma clear_from_ok:
  "table_ok False t \<Longrightarrow> \<forall>i \<in> set is. i < FONT_MAX \<Longrightarrow>
    \<exists>t'. clear_from is t = Ret t' \<and> cleared t t' \<and> (\<forall>i \<in> set is. ft_fonts t' ! i = None)"
proof (induction "is" arbitrary: t)
  case Nil
  then show ?case by (simp add: cleared_def same_faced_def)
next
  case (Cons i js)
  obtain t1 where 1: "clear_font i t = Ret t1" "cleared t t1" "ft_fonts t1 ! i = None"
    using clear_font_ok[OF Cons.prems(1), of i] Cons.prems(2) by (auto simp: clear_step_cleared)
  obtain t2 where 2: "clear_from js t1 = Ret t2" "cleared t1 t2" "\<forall>i \<in> set js. ft_fonts t2 ! i = None"
    using Cons.IH[of t1] 1(2) Cons.prems(2) by (auto simp: cleared_def)
  have "ft_fonts t2 ! i = None" using 1(3) 2(2) Cons.prems(2) by (simp add: cleared_def)
  with 1 2 cleared_trans[OF 1(2) 2(2)] show ?case by auto
qed

lemma table_ok_weaken: "table_ok True t \<Longrightarrow> table_ok w t"
proof -
  have "entry_ok True t p \<Longrightarrow> entry_ok w t p" for p
    by (cases "ft_objects t p") (simp_all add: entry_ok_def split: option.splits)
  then show "table_ok True t \<Longrightarrow> table_ok w t" by (simp add: table_ok_def)
qed

lemma font_clear_ok:
  assumes "table_ok True t"
  shows "\<exists>t'. font_clear t = Ret t' \<and> table_ok True t' \<and> ft_fonts t' = replicate FONT_MAX None
    \<and> same_faced t t'
    \<and> dom (ft_objects t') = dom (ft_objects t) - tabled t \<and> dom (ft_faces t') = dom (ft_faces t) - tabled_faces t"
proof -
  obtain t' where t': "font_clear t = Ret t'" "cleared t t'" "\<forall>i < FONT_MAX. ft_fonts t' ! i = None"
    using clear_from_ok[OF table_ok_weaken[OF assms], of "[0..<FONT_MAX]"] by (auto simp: font_clear_def)
  have "length (ft_fonts t') = FONT_MAX" using t'(2) by (simp add: cleared_def table_ok_def)
  then have f: "ft_fonts t' = replicate FONT_MAX None" using t'(3) by (intro nth_equalityI) simp_all
  then have none: "tabled t' = {}" "tabled_faces t' = {}" by (auto simp: tabled_def tabled_faces_def)
  have "table_ok True t'" using t'(2) f by (simp add: cleared_def table_ok_def)
  with t' f none show ?thesis by (simp add: cleared_def)
qed

section \<open>Any use of the table\<close>

text \<open>
  The fonts are loaded on demand, by whoever asks for a character or a measure; a change of the theme clears the table and
  puts other files in place.
\<close>

datatype table_op = Load nat bool | Get_Char nat nat | Ascender nat | Height nat | Em_Height nat | Y_Spacing nat | Min_Y nat
  | Change_Theme "theme_file list"

definition table_op :: "freetype \<Rightarrow> table_op \<Rightarrow> font_table \<Rightarrow> font_table use" where
  "table_op F op t =
     (case op of
        Load i use_theme \<Rightarrow> bind_use (of_ret (font_load F i use_theme t)) (\<lambda>(ret, t1). Used t1)
      | Get_Char i cp \<Rightarrow> bind_use (table_char F i (int cp) t) (\<lambda>(g, t1). Used t1)
      | Ascender i \<Rightarrow> bind_use (font_get_ascender F i t) (\<lambda>(x, t1). Used t1)
      | Height i \<Rightarrow> bind_use (font_get_height F i t) (\<lambda>(x, t1). Used t1)
      | Em_Height i \<Rightarrow> bind_use (font_get_em_height F i t) (\<lambda>(x, t1). Used t1)
      | Y_Spacing i \<Rightarrow> bind_use (font_get_y_spacing F i t) (\<lambda>(x, t1). Used t1)
      | Min_Y i \<Rightarrow> bind_use (font_get_min_y F i t) (\<lambda>(x, t1). Used t1)
      | Change_Theme th \<Rightarrow> bind_use (of_ret (font_clear t)) (\<lambda>t1. Used (t1\<lparr>ft_theme := th\<rparr>)))"

fun table_ops :: "freetype \<Rightarrow> table_op list \<Rightarrow> font_table \<Rightarrow> font_table use" where
  "table_ops F [] t = Used t"
| "table_ops F (op # ops) t = bind_use (table_op F op t) (table_ops F ops)"

text \<open>The entry that an operation uses, and the entries of the table.\<close>

definition op_uses :: "table_op \<Rightarrow> nat option" where
  "op_uses op = (case op of Load i use_theme \<Rightarrow> None | Get_Char i cp \<Rightarrow> Some i | Ascender i \<Rightarrow> Some i | Height i \<Rightarrow> Some i
     | Em_Height i \<Rightarrow> Some i | Y_Spacing i \<Rightarrow> Some i | Min_Y i \<Rightarrow> Some i | Change_Theme th \<Rightarrow> None)"

definition op_fits :: "table_op \<Rightarrow> bool" where
  "op_fits op = (case op of Load i use_theme \<Rightarrow> i < FONT_MAX | Change_Theme th \<Rightarrow> length th = FONT_MAX
     | _ \<Rightarrow> (case op_uses op of None \<Rightarrow> True | Some i \<Rightarrow> i < FONT_MAX))"

definition font_init :: font_table where
  "font_init = \<lparr>ft_fonts = replicate FONT_MAX None, ft_objects = Map.empty, ft_faces = Map.empty, ft_next = 0, ft_next_face = 0,
     ft_theme = replicate FONT_MAX \<lparr>tf_data = None, tf_size = 0\<rparr>\<rparr>"

text \<open>An operation keeps the table right, or finds no font because its load was refused.\<close>

definition op_ok :: "freetype \<Rightarrow> table_op \<Rightarrow> font_table \<Rightarrow> bool" where
  "op_ok F op t \<longleftrightarrow> (\<exists>t1. table_op F op t = Used t1 \<and> table_ok True t1 \<and> glyphs_ok F t1)
     \<or> (table_op F op t = No_Font \<and> (\<exists>i. op_uses op = Some i \<and> refused F i t))"

lemma metric_op_ok:
  assumes "table_ok True t" and "glyphs_ok F t" and "i < FONT_MAX" and "op_uses op = Some i"
    and "table_op F op t = bind_use (table_metric F i m t) (\<lambda>(x, t1). Used t1)"
  shows "op_ok F op t"
  using table_metric_ok[OF assms(1-3), of m] assms(4,5) by (auto simp: op_ok_def)

lemma table_op_ok:
  assumes "table_ok True t" and "glyphs_ok F t" and "op_fits op"
  shows "op_ok F op t"
proof (cases op)
  case (Load i use_theme)
  then have "load_ok F i t (font_load F i use_theme t)" using assms by (intro font_load_ok) (simp_all add: op_fits_def)
  then show ?thesis by (auto simp: Load table_op_def load_ok_def op_ok_def of_ret_def)
next
  case (Get_Char i cp)
  then have "i < FONT_MAX" using assms(3) by (simp add: op_fits_def op_uses_def)
  from table_char_ok[OF assms(1,2) this, of "int cp"]
  show ?thesis by (auto simp: Get_Char table_op_def op_ok_def op_uses_def)
next
  case (Change_Theme th)
  obtain t1 where t1: "font_clear t = Ret t1" "table_ok True t1" "same_faced t t1" using font_clear_ok[OF assms(1)] by blast
  then have "glyphs_ok F t1" using assms(2) unfolding glyphs_ok_def same_faced_def by blast
  then show ?thesis using t1 by (simp add: Change_Theme table_op_def table_ok_def op_ok_def of_ret_def glyphs_ok_def)
qed (rule metric_op_ok[OF assms(1,2)]; use assms(3) in \<open>simp add: op_fits_def op_uses_def table_op_def font_get_ascender_def
  font_get_height_def font_get_em_height_def font_get_y_spacing_def font_get_min_y_def\<close>)+

lemma table_ops_ok:
  "table_ok True t \<Longrightarrow> glyphs_ok F t \<Longrightarrow> \<forall>op \<in> set ops. op_fits op \<Longrightarrow>
    (\<exists>t'. table_ops F ops t = Used t' \<and> table_ok True t' \<and> glyphs_ok F t')
    \<or> (table_ops F ops t = No_Font \<and> (\<exists>ops1 op ops2 i t1. ops = ops1 @ op # ops2 \<and> table_ops F ops1 t = Used t1
        \<and> op_uses op = Some i \<and> refused F i t1))"
proof (induction ops arbitrary: t)
  case (Cons op ops)
  have "op_ok F op t" using table_op_ok[OF Cons.prems(1,2)] Cons.prems(3) by simp
  then consider (used) t1 where "table_op F op t = Used t1" "table_ok True t1" "glyphs_ok F t1"
    | (none) i where "table_op F op t = No_Font" "op_uses op = Some i" "refused F i t"
    unfolding op_ok_def by blast
  then show ?case
  proof cases
    case used
    consider (all) t' where "table_ops F ops t1 = Used t'" "table_ok True t'" "glyphs_ok F t'"
      | (stop) ops1 op' ops2 i t2 where "table_ops F ops t1 = No_Font" "ops = ops1 @ op' # ops2" "table_ops F ops1 t1 = Used t2"
          "op_uses op' = Some i" "refused F i t2"
      using Cons.IH[OF used(2,3)] Cons.prems(3) by auto
    then show ?thesis
    proof cases
      case all
      then show ?thesis using used(1) by simp
    next
      case stop
      then have "op # ops = (op # ops1) @ op' # ops2" "table_ops F (op # ops1) t = Used t2" using used(1) by simp_all
      then show ?thesis using stop used(1) by (metis bind_use.simps(1) table_ops.simps(2))
    qed
  next
    case none
    have "op # ops = [] @ op # ops" "table_ops F [] t = Used t" by simp_all
    then show ?thesis using none by (metis bind_use.simps(2) table_ops.simps(2))
  qed
qed simp

lemma font_init_ok: "table_ok True font_init" "glyphs_ok F font_init"
  by (simp_all add: table_ok_def glyphs_ok_def font_init_def)

section \<open>Properties\<close>

text \<open>
  C4: However fonts are loaded, used and themes changed, and whatever FreeType refuses, no font object or face is used or
  freed that was freed or never made, although entries share objects and objects share faces. A use fails only on an entry
  that is \<^verbatim>\<open>NULL\<close>, and then FreeType refused to load it just before; a use that does not fail gives what the face,
  open on the data of the object, renders at the size of the object. Clearing the table closes the face of each of its objects
  and frees each object once, leaving exactly what is not in the table.
\<close>

theorem font_table_released:
  assumes "\<forall>op \<in> set ops. op_fits op"
  shows "case table_ops F ops font_init of
      Dangling \<Rightarrow> False
    | No_Font \<Rightarrow> (\<exists>ops1 op ops2 i t ret t1. ops = ops1 @ op # ops2 \<and> table_ops F ops1 font_init = Used t \<and> op_uses op = Some i
        \<and> font_load F i True t = Ret (ret, t1) \<and> ret \<noteq> 0)
    | Used t \<Rightarrow>
        (\<forall>i < FONT_MAX. \<forall>cp. case table_char F i (int cp) t of
            Dangling \<Rightarrow> False
          | No_Font \<Rightarrow> \<exists>ret t1. font_load F i True t = Ret (ret, t1) \<and> ret \<noteq> 0
          | Used (g, t1) \<Rightarrow> \<exists>p ob f. ft_fonts t1 ! i = Some p \<and> ft_objects t1 p = Some ob \<and> fo_face ob = Some f
              \<and> ft_faces t1 f = Some (fo_data ob) \<and> g\<lparr>next_idx := - 1\<rparr> = render (face_glyph F f (fo_em_w ob) (fo_em_h ob)) (int cp))
        \<and> (\<exists>t'. font_clear t = Ret t' \<and> ft_fonts t' = replicate FONT_MAX None
            \<and> dom (ft_objects t') = dom (ft_objects t) - tabled t \<and> dom (ft_faces t') = dom (ft_faces t) - tabled_faces t)"
proof -
  consider (used) t where "table_ops F ops font_init = Used t" "table_ok True t" "glyphs_ok F t"
    | (none) "table_ops F ops font_init = No_Font" "\<exists>ops1 op ops2 i t1. ops = ops1 @ op # ops2
        \<and> table_ops F ops1 font_init = Used t1 \<and> op_uses op = Some i \<and> refused F i t1"
    using table_ops_ok[OF font_init_ok, of ops] assms by blast
  then show ?thesis
  proof cases
    case used
    have "case table_char F i (int cp) t of
            Dangling \<Rightarrow> False
          | No_Font \<Rightarrow> \<exists>ret t1. font_load F i True t = Ret (ret, t1) \<and> ret \<noteq> 0
          | Used (g, t1) \<Rightarrow> \<exists>p ob f. ft_fonts t1 ! i = Some p \<and> ft_objects t1 p = Some ob \<and> fo_face ob = Some f
              \<and> ft_faces t1 f = Some (fo_data ob) \<and> g\<lparr>next_idx := - 1\<rparr> = render (face_glyph F f (fo_em_w ob) (fo_em_h ob)) (int cp)"
      if "i < FONT_MAX" for i cp
      using table_char_ok[OF used(2,3) that, of "int cp"] unfolding refused_def by fastforce
    then show ?thesis using font_clear_ok[OF used(2)] used(1) by auto
  next
    case none
    then show ?thesis unfolding refused_def by auto
  qed
qed

text \<open>
  Two fonts on one file of different sizes, and a third that shares the object of the first; a second file is refused, and
  the use of its font finds none.
\<close>

definition demo_freetype :: freetype where
  "demo_freetype = \<lparr>default_fonts = [(1, 16), (1, 20), (2, 16), (1, 20), (1, 16), (1, 20), (2, 20)], em_width = id,
     new_face = (\<lambda>_ data. if data = 2 then 81 else 0), set_sizes = (\<lambda>_ _ _ _. 0),
     face_glyph = (\<lambda>_ _ _ _. None), face_metrics = (\<lambda>_ _ _. (640, - 128, 768))\<rparr>"

definition demo_ops :: "table_op list" where
  "demo_ops = [Load 0 True, Get_Char 1 72, Height 4]"

lemma entries_7: "[0..<7] = [0, 1, 2, 3, 4, 5, 6 :: nat]"
  by (simp add: upt_rec)

lemmas demo_table = demo_freetype_def demo_ops_def font_init_def FONT_MAX_def font_source_def new_object_def finish_font_def
  object_char_def use_font_def table_char_def table_metric_def table_op_def of_ret_def first_font_def leak_object_def
  font_get_height_def font_get_em_height_def entries_7 pixels_def op_fits_def op_uses_def

lemmas demo_cache = font_get_char_def empty_face_def GLYPH_CACHE_ROOT_def GLYPH_CACHE_INIT_def render_def zero_glyph_def

theorem font_table_released_witness:
  "(case table_ops demo_freetype demo_ops font_init of Used t \<Rightarrow> (\<exists>t'. font_clear t = Ret t' \<and> ft_fonts t' = replicate FONT_MAX None)
      | _ \<Rightarrow> False)
    \<and> table_ops demo_freetype (demo_ops @ [Em_Height 2]) font_init = No_Font"
proof -
  have fits: "\<forall>op \<in> set (demo_ops @ [Em_Height 2]). op_fits op" "\<forall>op \<in> set demo_ops. op_fits op"
    by (simp_all add: demo_ops_def op_fits_def op_uses_def FONT_MAX_def)
  have run: "case table_ops demo_freetype demo_ops font_init of Used t \<Rightarrow> True | _ \<Rightarrow> False"
    by (simp add: demo_table demo_cache font_load.simps)
  have stop: "case table_ops demo_freetype (demo_ops @ [Em_Height 2]) font_init of No_Font \<Rightarrow> True | _ \<Rightarrow> False"
    by (simp add: demo_table demo_cache font_load.simps)
  show ?thesis
    using run stop font_table_released[OF fits(1), of demo_freetype] font_table_released[OF fits(2), of demo_freetype]
    by (simp split: use.splits)
qed

end
