(* ===== verification/Mem_File.thy ===== *)
theory Mem_File
  imports HBC_Prelude
begin

text \<open>
  Archives in memory, \<^verbatim>\<open>channelapp/source/unzip_io.c\<close>: the callbacks through which minizip reads a buffer as a file.
  \<^verbatim>\<open>long\<close> and \<^verbatim>\<open>uLong\<close> are words; where the code mixes them the arithmetic is unsigned. The abstract file is a list of
  bytes with a position inside of it; the locale \<open>random_access\<close> states what a client relies on.
\<close>

section \<open>The callbacks\<close>

record mem_file =
  mf_buffer :: "u8 list"
  mf_length :: u32
  mf_position :: u32

definition mem_open :: "u8 list \<Rightarrow> mem_file" where
  "mem_open buf = \<lparr>mf_buffer = buf, mf_length = of_nat (length buf), mf_position = 0\<rparr>"

text \<open>\<open>None\<close>: bytes outside of the buffer are copied.\<close>

definition copy_from :: "u8 list \<Rightarrow> int \<Rightarrow> nat \<Rightarrow> u8 list option" where
  "copy_from buf p n =
     (if n = 0 then Some [] else if 0 \<le> p \<and> p + int n \<le> int (length buf) then Some (take n (drop (nat p) buf)) else None)"

definition mem_read_cb :: "mem_file \<Rightarrow> u32 \<Rightarrow> (u8 list \<times> u32 \<times> mem_file) option" where
  "mem_read_cb h n =
     (let size1 = (if mf_position h + n > mf_length h then mf_length h - mf_position h else n)
      in Option.bind (copy_from (mf_buffer h) (sint (mf_position h)) (unat size1))
           (\<lambda>bs. Some (bs, size1, h\<lparr>mf_position := mf_position h + size1\<rparr>)))"

definition mem_tell :: "mem_file \<Rightarrow> u32" where
  "mem_tell h = mf_position h"

definition mem_seek :: "mem_file \<Rightarrow> u32 \<Rightarrow> int \<Rightarrow> int \<times> mem_file" where
  "mem_seek h offset origin =
     (let sum = offset + mf_position h; rest = mf_length h - offset in
      if origin = 0 then (0, h\<lparr>mf_position := offset\<rparr>)
      else if origin = 1 then (if sum \<ge> 0 \<and> sum \<le> mf_length h then (0, h\<lparr>mf_position := sum\<rparr>) else (- 1, h))
      else if origin = 2 then
        (if rest \<ge> 0 \<and> rest \<le> mf_length h then (0, h\<lparr>mf_position := offset + mf_length h - 0\<rparr>) else (- 1, h))
      else (- 1, h))"

definition mem_error :: "mem_file \<Rightarrow> int" where
  "mem_error h = 0"

text \<open>Calls of minizip, and what they return.\<close>

datatype file_op = F_Read u32 | F_Tell | F_Seek u32 int | F_Error

datatype file_answer = A_Bytes "u8 list" | A_Number int

definition mem_op :: "file_op \<Rightarrow> mem_file \<Rightarrow> (file_answer \<times> mem_file) option" where
  "mem_op op h =
     (case op of
        F_Read n \<Rightarrow> (case mem_read_cb h n of None \<Rightarrow> None | Some (bs, size1, h1) \<Rightarrow> Some (A_Bytes bs, h1))
      | F_Tell \<Rightarrow> Some (A_Number (sint (mem_tell h)), h)
      | F_Seek off origin \<Rightarrow> (case mem_seek h off origin of (r, h1) \<Rightarrow> Some (A_Number r, h1))
      | F_Error \<Rightarrow> Some (A_Number (mem_error h), h))"

fun mem_ops :: "file_op list \<Rightarrow> mem_file \<Rightarrow> (file_answer list \<times> mem_file) option" where
  "mem_ops [] h = Some ([], h)"
| "mem_ops (op # ops) h =
     (case mem_op op h of
        None \<Rightarrow> None
      | Some (a, h1) \<Rightarrow> map_option (map_prod ((#) a) id) (mem_ops ops h1))"

section \<open>The abstract file\<close>

text \<open>Reading stops at the end; a seek outside of the file fails and leaves the position where it is.\<close>

definition file_target :: "nat \<Rightarrow> nat \<Rightarrow> u32 \<Rightarrow> int \<Rightarrow> int option" where
  "file_target len p off origin =
     (if origin = 0 then Some (int (unat off))
      else if origin = 1 then Some (int p + sint off)
      else if origin = 2 then Some (int len + sint off)
      else None)"

definition file_step :: "u8 list \<Rightarrow> file_op \<Rightarrow> nat \<Rightarrow> file_answer \<times> nat" where
  "file_step bs op p =
     (case op of
        F_Read n \<Rightarrow> (A_Bytes (take (unat n) (drop p bs)), min (p + unat n) (length bs))
      | F_Tell \<Rightarrow> (A_Number (int p), p)
      | F_Seek off origin \<Rightarrow>
          (case file_target (length bs) p off origin of
             None \<Rightarrow> (A_Number (- 1), p)
           | Some t \<Rightarrow> if 0 \<le> t \<and> t \<le> int (length bs) then (A_Number 0, nat t) else (A_Number (- 1), p))
      | F_Error \<Rightarrow> (A_Number 0, p))"

fun file_steps :: "u8 list \<Rightarrow> file_op list \<Rightarrow> nat \<Rightarrow> file_answer list \<times> nat" where
  "file_steps bs [] p = ([], p)"
| "file_steps bs (op # ops) p =
     (let r = file_step bs op p; rs = file_steps bs ops (snd r) in (fst r # fst rs, snd rs))"

text \<open>
  The calls for which the callbacks are this file: a read does not wrap around, a seek from the start stays inside, one
  from the end has the offset zero.
\<close>

definition plain_op :: "u8 list \<Rightarrow> file_op \<Rightarrow> nat \<Rightarrow> bool" where
  "plain_op bs op p \<longleftrightarrow>
     (case op of
        F_Read n \<Rightarrow> p + unat n < 2 ^ 32
      | F_Seek off origin \<Rightarrow> (origin = 0 \<longrightarrow> unat off \<le> length bs) \<and> (origin = 2 \<longrightarrow> off = 0)
      | _ \<Rightarrow> True)"

fun plain_ops :: "u8 list \<Rightarrow> file_op list \<Rightarrow> nat \<Rightarrow> bool" where
  "plain_ops bs [] p \<longleftrightarrow> True"
| "plain_ops bs (op # ops) p \<longleftrightarrow> plain_op bs op p \<and> plain_ops bs ops (snd (file_step bs op p))"

definition holds_file :: "u8 list \<Rightarrow> nat \<Rightarrow> mem_file \<Rightarrow> bool" where
  "holds_file bs p h \<longleftrightarrow> mf_buffer h = bs \<and> length bs < 2 ^ 31 \<and> mf_length h = of_nat (length bs) \<and> mf_position h = of_nat p \<and> p \<le> length bs"

lemma holds_open: "length bs < 2 ^ 31 \<Longrightarrow> holds_file bs 0 (mem_open bs)"
  by (simp add: holds_file_def mem_open_def)

text \<open>Below \<open>2 ^ 31\<close> a length is the same signed and unsigned.\<close>

lemma unat_small: "n < 2 ^ 32 \<Longrightarrow> unat (of_nat n :: u32) = n"
  by (simp add: unat_of_nat take_bit_nat_eq_self)

lemma sint_small: "n < 2 ^ 31 \<Longrightarrow> sint (of_nat n :: u32) = int n"
  by (simp add: signed_of_nat signed_take_bit_int_eq_self)

lemma read_refines:
  assumes "holds_file bs p h" and "p + unat n < 2 ^ 32"
  shows "\<exists>h1. mem_op (F_Read n) h = Some (fst (file_step bs (F_Read n) p), h1) \<and> holds_file bs (snd (file_step bs (F_Read n) p)) h1"
proof -
  note h = assms(1)[unfolded holds_file_def]
  have s: "sint (of_nat p :: u32) = int p" using h by (intro sint_small) simp
  have sum: "of_nat p + n = of_nat (p + unat n)" by simp
  have le: "mf_position h + n > mf_length h \<longleftrightarrow> length bs < p + unat n"
    using h assms(2) unfolding word_less_nat_alt by (simp only: sum unat_small) simp
  have c: "copy_from bs (int p) k = Some (take k (drop p bs))" if "p + k \<le> length bs" for k
    using that by (simp add: copy_from_def)
  show ?thesis
  proof (cases "length bs < p + unat n")
    case True
    have "of_nat (length bs) - of_nat p = (of_nat (length bs - p) :: u32)" using h by (simp add: of_nat_diff)
    moreover have "unat (of_nat (length bs - p) :: u32) = length bs - p"
      by (rule unat_small, rule le_less_trans[of _ "length bs"]) (use h in simp_all)
    ultimately show ?thesis
      using True h le c[of "length bs - p"] s
      by (simp add: mem_op_def mem_read_cb_def file_step_def holds_file_def of_nat_diff min_def)
  next
    case False
    then show ?thesis
      using h le c[of "unat n"] s by (simp add: mem_op_def mem_read_cb_def file_step_def holds_file_def min_def)
  qed
qed

lemma seek_refines:
  assumes "holds_file bs p h" and "plain_op bs (F_Seek off origin) p"
  shows "\<exists>h1. mem_op (F_Seek off origin) h = Some (fst (file_step bs (F_Seek off origin) p), h1)
    \<and> holds_file bs (snd (file_step bs (F_Seek off origin) p)) h1"
proof -
  note h = assms(1)[unfolded holds_file_def]
  have len: "unat (mf_length h) = length bs" using h by (simp add: unat_small)
  consider "origin = 0" | "origin = 1" | "origin = 2" | "origin \<notin> {0, 1, 2}" by blast
  then show ?thesis
  proof cases
    case 1
    then have "unat off \<le> length bs" using assms(2) by (simp add: plain_op_def)
    moreover from of_nat_mono[OF this] have "uint off \<le> int (length bs)" by simp
    ultimately show ?thesis using 1 h by (simp add: mem_op_def mem_seek_def file_step_def file_target_def holds_file_def)
  next
    case 2
    define t where "t = int p + sint off"
    have t: "- (2 ^ 31) \<le> t" "t < 2 ^ 32" using sint_range_size[of off] h by (auto simp: t_def word_size)
    have w: "off + mf_position h = of_int t" "off + of_nat p = of_int t" using h by (simp_all add: t_def)
    have "uint (of_int t :: u32) = t mod 2 ^ 32" by (simp add: unsigned_of_int take_bit_eq_mod)
    also have "\<dots> = (if t < 0 then t + 2 ^ 32 else t)"
    proof (cases "t < 0")
      case True
      then have "t mod 2 ^ 32 = (t + 2 ^ 32) mod 2 ^ 32" by simp
      also have "\<dots> = t + 2 ^ 32" using t True by (intro mod_pos_pos_trivial) simp_all
      finally show ?thesis using True by simp
    qed (use t in \<open>simp add: mod_pos_pos_trivial\<close>)
    finally have u: "uint (of_int t :: u32) = (if t < 0 then t + 2 ^ 32 else t)" .
    have "uint (mf_length h) = int (length bs)" using len by (simp add: uint_nat)
    then have le: "of_int t \<le> mf_length h \<longleftrightarrow> 0 \<le> t \<and> t \<le> int (length bs)"
      unfolding word_le_def u using t h by auto
    show ?thesis
    proof (cases "0 \<le> t \<and> t \<le> int (length bs)")
      case True
      then have "nat t \<le> length bs" by linarith
      with True show ?thesis
        using 2 h le by (simp add: mem_op_def mem_seek_def file_step_def file_target_def holds_file_def w Let_def t_def [symmetric])
    next
      case False
      then show ?thesis
        using 2 h le by (auto simp: mem_op_def mem_seek_def file_step_def file_target_def holds_file_def w Let_def t_def [symmetric])
    qed
  next
    case 3
    then show ?thesis
      using assms(2) h by (simp add: mem_op_def mem_seek_def file_step_def file_target_def holds_file_def plain_op_def)
  next
    case 4
    then show ?thesis using assms(1) by (simp add: mem_op_def mem_seek_def file_step_def file_target_def)
  qed
qed

lemma op_refines:
  assumes "holds_file bs p h" and "plain_op bs op p"
  shows "\<exists>h1. mem_op op h = Some (fst (file_step bs op p), h1) \<and> holds_file bs (snd (file_step bs op p)) h1"
proof (cases op)
  case (F_Read n)
  then show ?thesis using read_refines[OF assms(1)] assms(2) by (simp add: plain_op_def)
next
  case F_Tell
  then show ?thesis using assms(1) by (simp add: mem_op_def mem_tell_def file_step_def sint_small holds_file_def)
next
  case (F_Seek off origin)
  then show ?thesis using seek_refines[OF assms(1)] assms(2) by simp
next
  case F_Error
  then show ?thesis using assms(1) by (simp add: mem_op_def mem_error_def file_step_def)
qed

lemma ops_refine:
  "holds_file bs p h \<Longrightarrow> plain_ops bs ops p \<Longrightarrow>
    \<exists>h1. mem_ops ops h = Some (fst (file_steps bs ops p), h1) \<and> holds_file bs (snd (file_steps bs ops p)) h1"
proof (induction ops arbitrary: p h)
  case (Cons op ops)
  obtain h1 where 1: "mem_op op h = Some (fst (file_step bs op p), h1)" "holds_file bs (snd (file_step bs op p)) h1"
    using op_refines[OF Cons.prems(1), of op] Cons.prems(2) by auto
  obtain h2 where "mem_ops ops h1 = Some (fst (file_steps bs ops (snd (file_step bs op p))), h2)"
      "holds_file bs (snd (file_steps bs ops (snd (file_step bs op p)))) h2"
    using Cons.IH[OF 1(2)] Cons.prems(2) by auto
  with 1 show ?case by (simp add: Let_def)
qed simp

section \<open>Outside of the file\<close>

text \<open>
  A seek from the start is not checked. A read of any size behind the end is then turned into one of nearly \<open>2 ^ 32\<close>
  bytes, which leaves the buffer.
\<close>

lemma seek_outside_reads_outside:
  assumes "holds_file bs p h" and "length bs < unat off" and "unat off < 2 ^ 31" and "unat n < 2 ^ 31"
  shows "fst (mem_seek h off 0) = 0" and "mem_read_cb (snd (mem_seek h off 0)) n = None"
proof -
  note h = assms(1)[unfolded holds_file_def]
  define k where "k = length bs"
  have "unat (off + n) = unat off + unat n" using assms(3,4) by (intro iffD1[OF unat_add_lem]) simp
  then have gt: "off + n > of_nat k"
    unfolding word_less_nat_alt using assms(2-4) h by (simp add: unat_small k_def)
  have "unat (of_nat k :: u32) = k" using h by (simp add: unat_small k_def)
  then have "of_nat k - off \<noteq> 0" using assms(2) by (auto simp: k_def)
  then have nz: "unat (of_nat k - off) \<noteq> 0" by (simp add: unat_eq_0)
  have "int k < int (unat off)" using assms(2) unfolding k_def by (rule iffD2[OF of_nat_less_iff])
  then have "int k < sint off" using assms(3) sint_small[of "unat off"] by simp
  then have "\<not> sint off + int (unat (of_nat k - off)) \<le> int k" by linarith
  with gt nz show "mem_read_cb (snd (mem_seek h off 0)) n = None"
    using h by (simp add: mem_seek_def mem_read_cb_def copy_from_def Let_def k_def)
qed (simp add: mem_seek_def)

text \<open>From the end, offsets behind it are accepted and those inside of the file refused.\<close>

lemma seek_end_reversed:
  "fst (mem_seek (mem_open [1, 2, 3]) 2 2) = 0" "mem_tell (snd (mem_seek (mem_open [1, 2, 3]) 2 2)) = 5"
  "fst (mem_seek (mem_open [1, 2, 3]) (- 2) 2) = - 1"
  by (simp_all add: mem_seek_def mem_open_def mem_tell_def)

section \<open>Reading at an offset\<close>

text \<open>What a client needs of a file: a seek inside of it is answered by zero, and a read returns the bytes from there on.\<close>

locale random_access =
  fixes holds :: "u8 list \<Rightarrow> nat \<Rightarrow> 'h \<Rightarrow> bool"
    and seek :: "'h \<Rightarrow> u32 \<Rightarrow> int \<times> 'h"
    and read :: "'h \<Rightarrow> u32 \<Rightarrow> (u8 list \<times> u32 \<times> 'h) option"
  assumes seek_inside: "holds bs p h \<Longrightarrow> unat off \<le> length bs \<Longrightarrow> fst (seek h off) = 0 \<and> holds bs (unat off) (snd (seek h off))"
    and read_inside: "holds bs p h \<Longrightarrow> p + unat n \<le> length bs \<Longrightarrow>
      \<exists>h1. read h n = Some (take (unat n) (drop p bs), n, h1) \<and> holds bs (p + unat n) h1"
begin

definition read_at :: "'h \<Rightarrow> u32 \<Rightarrow> u32 \<Rightarrow> (u8 list \<times> u32 \<times> 'h) option" where
  "read_at h off n = (case seek h off of (r, h1) \<Rightarrow> if r = 0 then read h1 n else None)"

lemma read_at_bytes:
  assumes "holds bs p h" and "unat off + unat n \<le> length bs"
  shows "\<exists>h1. read_at h off n = Some (take (unat n) (drop (unat off) bs), n, h1) \<and> holds bs (unat off + unat n) h1"
proof -
  obtain h0 where h0: "seek h off = (0, h0)" "holds bs (unat off) h0"
    using seek_inside[OF assms(1), of off] assms(2) by (cases "seek h off") auto
  then show ?thesis using read_inside[OF h0(2) assms(2)] by (simp add: read_at_def)
qed

end

interpretation mem_random: random_access holds_file "\<lambda>h off. mem_seek h off 0" mem_read_cb
proof
  fix bs p and h :: mem_file and off :: u32
  assume h: "holds_file bs p h" and off: "unat off \<le> length bs"
  then have "plain_op bs (F_Seek off 0) p" by (simp add: plain_op_def)
  moreover have "uint off \<le> int (length bs)" using of_nat_mono[OF off, where 'a = int] by simp
  ultimately show "fst (mem_seek h off 0) = 0 \<and> holds_file bs (unat off) (snd (mem_seek h off 0))"
    using seek_refines[OF h, of off 0] by (simp add: mem_op_def file_step_def file_target_def mem_seek_def)
next
  fix bs p and h :: mem_file and n :: u32
  assume h: "holds_file bs p h" and n: "p + unat n \<le> length bs"
  then have "p + unat n < 2 ^ 32" by (simp add: holds_file_def)
  from read_refines[OF h this] n
  obtain r h1 where r: "mem_read_cb h n = Some (take (unat n) (drop p bs), r, h1)" "holds_file bs (p + unat n) h1"
    by (auto simp: mem_op_def file_step_def min_def split: option.splits)
  have "\<not> mf_position h + n > mf_length h"
  proof -
    have "mf_position h + n = of_nat (p + unat n)" using h by (simp add: holds_file_def)
    moreover have "unat (of_nat (p + unat n) :: u32) = p + unat n"
      by (rule unat_small, rule le_less_trans[OF n]) (use h in \<open>simp add: holds_file_def\<close>)
    ultimately show ?thesis using h n unfolding word_less_nat_alt by (simp add: holds_file_def unat_small)
  qed
  then have "r = n" using r(1) by (auto simp: mem_read_cb_def Let_def bind_eq_Some_conv)
  with r show "\<exists>h1. mem_read_cb h n = Some (take (unat n) (drop p bs), n, h1) \<and> holds_file bs (p + unat n) h1" by blast
qed

lemmas mem_read_at = mem_random.read_at_bytes[unfolded mem_random.read_at_def]

section \<open>Properties\<close>

text \<open>
  C8: On a buffer below 2 GiB the callbacks are a read-only file: every sequence of reads, tells and seeks whose seeks from
  the start stay inside, whose seeks from the end have the offset zero and whose reads do not wrap around is answered as
  the file answers it, and no byte outside of the buffer is copied.
\<close>

theorem mem_file_refines:
  assumes "length bs < 2 ^ 31" and "plain_ops bs ops 0"
  shows "\<exists>h. mem_ops ops (mem_open bs) = Some (fst (file_steps bs ops 0), h) \<and> holds_file bs (snd (file_steps bs ops 0)) h"
  by (rule ops_refine[OF holds_open[OF assms(1)] assms(2)])

theorem mem_file_refines_witness:
  "\<exists>h. mem_ops [F_Read 2, F_Seek (- 1) 1, F_Read 5, F_Tell] (mem_open [1, 2, 3])
    = Some ([A_Bytes [1, 2], A_Number 0, A_Bytes [2, 3], A_Number 3], h)"
proof -
  have "plain_ops [1, 2, 3] [F_Read 2, F_Seek (- 1) 1, F_Read 5, F_Tell] 0"
    by (simp add: plain_op_def file_step_def file_target_def)
  from mem_file_refines[OF _ this]
  obtain h where "mem_ops [F_Read 2, F_Seek (- 1) 1, F_Read 5, F_Tell] (mem_open [1, 2, 3])
      = Some (fst (file_steps [1, 2, 3] [F_Read 2, F_Seek (- 1) 1, F_Read 5, F_Tell] 0), h)" by auto
  then show ?thesis by (simp add: file_step_def file_target_def Let_def)
qed

end
