(* ===== verification/Stub_Ios.thy ===== *)
theory Stub_Ios
  imports HBC_Prelude "HOL-Library.Sublist"
begin

unbundle bit_operations_syntax

text \<open>
  The stub that brings the channel back, \<^verbatim>\<open>channelapp/stub/ios.c\<close> and \<^verbatim>\<open>stub.c\<close>: the client of the IOS message protocol on
  the bare registers, and the sequence of title launches. The hardware is the environment: it answers each read of a
  register, and each read of memory that IOS may have written, from the whole history; what the caches write back is
  in the history with its contents. A wait polls at most \<open>n\<close> times; a run that is still waiting then has no result, and
  its history is that of the machine so far. The debug output over USB is left out.
\<close>

section \<open>Hardware\<close>

record ioctlv =
  v_data :: u32
  v_len :: u32
  v_bytes :: "u8 list"

text \<open>The message; the eight words \<^verbatim>\<open>user\<close> behind the arguments stay zero.\<close>

record ipc =
  ipc_cmd :: u32
  ipc_result :: int
  ipc_fd :: int
  ipc_arg :: "u32 list"

datatype hw_op =
    Read_Reg u32
  | Write_Reg u32 u32
  | Udelay u32
  | Flush_Ipc ipc
  | Invalidate_Ipc
  | Flush_Data u32 u32 "u8 list"
  | Flush_Vec "ioctlv list"
  | Invalidate_Data u32 u32

type_synonym hw = "(hw_op, u32) world"

type_synonym 'a run = "hw_op list \<Rightarrow> 'a option \<times> hw_op list"

definition done_with :: "'a \<Rightarrow> 'a run" where
  "done_with a h = (Some a, h)"

definition next_run :: "'a run \<Rightarrow> ('a \<Rightarrow> 'b run) \<Rightarrow> 'b run" where
  "next_run f g h = (case f h of (None, h1) \<Rightarrow> (None, h1) | (Some a, h1) \<Rightarrow> g a h1)"

definition io :: "hw \<Rightarrow> hw_op \<Rightarrow> u32 run" where
  "io w e h = (Some (w h e), e # h)"

definition virt_to_phys :: "u32 \<Rightarrow> u32" where
  "virt_to_phys x = x AND 0x7FFFFFFF"

definition phys_to_virt :: "u32 \<Rightarrow> u32" where
  "phys_to_virt x = x OR 0x80000000"

section \<open>Registers\<close>

definition ipc_read :: "hw \<Rightarrow> u32 \<Rightarrow> u32 run" where
  "ipc_read w r = io w (Read_Reg (0x0d000000 + 4 * r))"

definition ipc_write :: "hw \<Rightarrow> u32 \<Rightarrow> u32 \<Rightarrow> u32 run" where
  "ipc_write w r v = io w (Write_Reg (0x0d000000 + 4 * r) v)"

definition ipc_bell :: "hw \<Rightarrow> u32 \<Rightarrow> u32 run" where
  "ipc_bell w b = next_run (ipc_read w 1) (\<lambda>v. ipc_write w 1 ((v AND 0x30) OR b))"

text \<open>The two wait loops poll for different bits of the control register.\<close>

primrec poll :: "hw \<Rightarrow> nat \<Rightarrow> u32 \<Rightarrow> u32 run" where
  "poll w 0 bits h = (None, h)"
| "poll w (Suc n) bits h =
     next_run (ipc_read w 1) (\<lambda>v. if v AND bits \<noteq> bits then poll w n bits else done_with v) h"

definition ipc_wait_ack :: "hw \<Rightarrow> nat \<Rightarrow> u32 run" where
  "ipc_wait_ack w n = next_run (poll w n 0x22) (\<lambda>_. io w (Udelay 100))"

definition ipc_wait_reply :: "hw \<Rightarrow> nat \<Rightarrow> u32 run" where
  "ipc_wait_reply w n = next_run (poll w n 0x14) (\<lambda>_. io w (Udelay 100))"

definition ipc_irq_ack :: "hw \<Rightarrow> u32 run" where
  "ipc_irq_ack w = ipc_write w 12 0x40000000"

section \<open>Messages\<close>

text \<open>\<open>at\<close> is the address of the one message buffer.\<close>

definition ipc_send_request :: "hw \<Rightarrow> nat \<Rightarrow> u32 \<Rightarrow> ipc \<Rightarrow> u32 run" where
  "ipc_send_request w n at m =
     next_run (io w (Flush_Ipc m)) (\<lambda>_.
     next_run (ipc_write w 0 (virt_to_phys at)) (\<lambda>_.
     next_run (ipc_bell w 1) (\<lambda>_.
     next_run (ipc_wait_ack w n) (\<lambda>_.
     next_run (ipc_bell w 2) (\<lambda>_. ipc_irq_ack w)))))"

definition ipc_send_twoack :: "hw \<Rightarrow> nat \<Rightarrow> u32 \<Rightarrow> ipc \<Rightarrow> u32 run" where
  "ipc_send_twoack w n at m =
     next_run (io w (Flush_Ipc m)) (\<lambda>_.
     next_run (ipc_write w 0 (virt_to_phys at)) (\<lambda>_.
     next_run (ipc_bell w 1) (\<lambda>_.
     next_run (ipc_wait_ack w n) (\<lambda>_.
     next_run (ipc_irq_ack w) (\<lambda>_.
     next_run (ipc_bell w 2) (\<lambda>_.
     next_run (ipc_wait_ack w n) (\<lambda>_.
     next_run (ipc_irq_ack w) (\<lambda>_.
     next_run (ipc_bell w 2) (\<lambda>_. ipc_bell w 8)))))))))"

text \<open>Replies to other messages are acknowledged and ignored; \<open>k\<close> bounds how many.\<close>

primrec recv_loop :: "hw \<Rightarrow> nat \<Rightarrow> u32 \<Rightarrow> nat \<Rightarrow> u32 run" where
  "recv_loop w n at 0 h = (None, h)"
| "recv_loop w n at (Suc k) h =
     next_run (ipc_wait_reply w n) (\<lambda>_.
     next_run (ipc_read w 2) (\<lambda>reply.
     next_run (ipc_bell w 4) (\<lambda>_.
     next_run (ipc_irq_ack w) (\<lambda>_.
     next_run (ipc_bell w 8) (\<lambda>_. if reply = virt_to_phys at then done_with reply else recv_loop w n at k))))) h"

text \<open>The result of the message is what is in memory after its cache lines have been invalidated.\<close>

definition ipc_recv_reply :: "hw \<Rightarrow> nat \<Rightarrow> u32 \<Rightarrow> int run" where
  "ipc_recv_reply w n at =
     next_run (recv_loop w n at n) (\<lambda>_. next_run (io w Invalidate_Ipc) (\<lambda>v. done_with (sint v)))"

definition ios_open :: "hw \<Rightarrow> nat \<Rightarrow> u32 \<Rightarrow> u32 \<Rightarrow> u8 list \<Rightarrow> u32 \<Rightarrow> int run" where
  "ios_open w n at filename name mode =
     next_run (io w (Flush_Data filename (of_nat (length name + 1)) (name @ [0]))) (\<lambda>_.
     next_run (ipc_send_request w n at
                 \<lparr>ipc_cmd = 1, ipc_result = 0, ipc_fd = 0, ipc_arg = [virt_to_phys filename, mode, 0, 0, 0]\<rparr>) (\<lambda>_.
     ipc_recv_reply w n at))"

definition ios_close :: "hw \<Rightarrow> nat \<Rightarrow> u32 \<Rightarrow> int \<Rightarrow> int run" where
  "ios_close w n at fd =
     next_run (ipc_send_request w n at \<lparr>ipc_cmd = 2, ipc_result = 0, ipc_fd = fd, ipc_arg = [0, 0, 0, 0, 0]\<rparr>) (\<lambda>_.
     ipc_recv_reply w n at)"

text \<open>The vectors are given to IOS with physical addresses; those it writes to get their virtual address back.\<close>

primrec flush_vecs :: "hw \<Rightarrow> ioctlv list \<Rightarrow> ioctlv list run" where
  "flush_vecs w [] = done_with []"
| "flush_vecs w (v # vs) =
     (if v_data v \<noteq> 0
      then next_run (io w (Flush_Data (v_data v) (v_len v) (v_bytes v))) (\<lambda>_.
           next_run (flush_vecs w vs) (\<lambda>vs'. done_with (v\<lparr>v_data := virt_to_phys (v_data v)\<rparr> # vs')))
      else next_run (flush_vecs w vs) (\<lambda>vs'. done_with (v # vs')))"

text \<open>The first word of each vector that IOS may have written, or zero for one without data.\<close>

primrec invalidate_vecs :: "hw \<Rightarrow> ioctlv list \<Rightarrow> u32 list run" where
  "invalidate_vecs w [] = done_with []"
| "invalidate_vecs w (v # vs) =
     (if v_data v \<noteq> 0
      then next_run (io w (Invalidate_Data (phys_to_virt (v_data v)) (v_len v))) (\<lambda>x.
           next_run (invalidate_vecs w vs) (\<lambda>xs. done_with (x # xs)))
      else next_run (invalidate_vecs w vs) (\<lambda>xs. done_with (0 # xs)))"

definition ioctlv_message :: "int \<Rightarrow> u32 \<Rightarrow> nat \<Rightarrow> nat \<Rightarrow> u32 \<Rightarrow> ipc" where
  "ioctlv_message fd nr in_count out_count vec =
     \<lparr>ipc_cmd = 7, ipc_result = 0, ipc_fd = fd, ipc_arg = [nr, of_nat in_count, of_nat out_count, virt_to_phys vec, 0]\<rparr>"

definition ios_ioctlv_any ::
  "hw \<Rightarrow> nat \<Rightarrow> u32 \<Rightarrow> u32 \<Rightarrow> int \<Rightarrow> u32 \<Rightarrow> ioctlv list \<Rightarrow> ioctlv list \<Rightarrow> bool \<Rightarrow> (int \<times> u32 list) run" where
  "ios_ioctlv_any w n at vec_at fd nr ins outs reboot =
     next_run (flush_vecs w (ins @ outs)) (\<lambda>vs.
     next_run (io w (Flush_Vec vs)) (\<lambda>_.
     let m = ioctlv_message fd nr (length ins) (length outs) vec_at in
     if reboot then next_run (ipc_send_twoack w n at m) (\<lambda>_. done_with (0, []))
     else next_run (ipc_send_request w n at m) (\<lambda>_.
          next_run (ipc_recv_reply w n at) (\<lambda>r.
          next_run (invalidate_vecs w (drop (length ins) vs)) (\<lambda>xs. done_with (r, xs))))))"

definition ios_ioctlv where
  "ios_ioctlv w n at vec_at fd nr ins outs = ios_ioctlv_any w n at vec_at fd nr ins outs False"

definition ios_ioctlvreboot where
  "ios_ioctlvreboot w n at vec_at fd nr ins outs = ios_ioctlv_any w n at vec_at fd nr ins outs True"

text \<open>What an earlier program left in the registers is acknowledged, and all of its files are closed.\<close>

definition ipc_cleanup_reply :: "hw \<Rightarrow> u32 run" where
  "ipc_cleanup_reply w =
     next_run (ipc_read w 1) (\<lambda>v.
       if v AND 0x14 \<noteq> 0x14 then done_with 0
       else next_run (ipc_read w 2) (\<lambda>_. next_run (ipc_bell w 4) (\<lambda>_. next_run (ipc_irq_ack w) (\<lambda>_. ipc_bell w 8))))"

definition ipc_cleanup_request :: "hw \<Rightarrow> u32 run" where
  "ipc_cleanup_request w = next_run (ipc_read w 1) (\<lambda>v. if v AND 0x22 = 0x22 then ipc_bell w 2 else done_with 0)"

primrec flush_transactions :: "hw \<Rightarrow> nat \<Rightarrow> u32 run" where
  "flush_transactions w 0 = done_with 0"
| "flush_transactions w (Suc k) =
     next_run (ipc_cleanup_request w) (\<lambda>_. next_run (ipc_cleanup_reply w) (\<lambda>_. next_run (ipc_irq_ack w) (\<lambda>_.
     next_run (io w (Udelay 1000)) (\<lambda>_. flush_transactions w k))))"

primrec close_all :: "hw \<Rightarrow> nat \<Rightarrow> u32 \<Rightarrow> int list \<Rightarrow> u32 run" where
  "close_all w n at [] = done_with 0"
| "close_all w n at (fd # fds) = next_run (ios_close w n at fd) (\<lambda>_. close_all w n at fds)"

definition reset_ios :: "hw \<Rightarrow> nat \<Rightarrow> u32 \<Rightarrow> u32 run" where
  "reset_ios w n at = next_run (flush_transactions w 10) (\<lambda>_. close_all w n at [0..31])"

section \<open>Launching titles\<close>

text \<open>The addresses of the static variables, and what the channel has left for the stub.\<close>

record stub =
  s_ipc :: u32
  s_vecs :: u32
  s_title :: u32
  s_cntviews :: u32
  s_tikviews :: u32
  s_dev_es :: u32
  s_conf_magic :: u64
  s_conf_title :: u64

definition be64_bytes :: "u64 \<Rightarrow> u8 list" where
  "be64_bytes x = be32_bytes (ucast (drop_bit 32 x)) @ be32_bytes (ucast x)"

definition IOCTL_ES_LAUNCH :: u32 where "IOCTL_ES_LAUNCH = 0x08"
definition IOCTL_ES_GETVIEWCNT :: u32 where "IOCTL_ES_GETVIEWCNT = 0x12"
definition IOCTL_ES_GETVIEWS :: u32 where "IOCTL_ES_GETVIEWS = 0x13"
definition STUB_MAGIC :: u64 where "STUB_MAGIC = 0x4c4f41444b544858"
definition MY_TITLEID :: u64 where "MY_TITLEID = 0x000100014c554c5a"

lemmas stub_consts = IOCTL_ES_LAUNCH_def IOCTL_ES_GETVIEWCNT_def IOCTL_ES_GETVIEWS_def

definition title_vec :: "stub \<Rightarrow> u64 \<Rightarrow> ioctlv" where
  "title_vec s title = \<lparr>v_data = s_title s, v_len = 8, v_bytes = be64_bytes title\<rparr>"

definition LaunchTitle :: "hw \<Rightarrow> nat \<Rightarrow> stub \<Rightarrow> int \<Rightarrow> u64 \<Rightarrow> int run" where
  "LaunchTitle w n s es_fd titleID =
     (let ioctlv = ios_ioctlv w n (s_ipc s) (s_vecs s) es_fd; title = title_vec s titleID in
      next_run (ioctlv IOCTL_ES_GETVIEWCNT [title] [\<lparr>v_data = s_cntviews s, v_len = 4, v_bytes = []\<rparr>]) (\<lambda>(ret, out).
      let cntviews = hd out in
      if ret < 0 then done_with ret
      else if cntviews > 4 then done_with (- 1)
      else
        next_run (ioctlv IOCTL_ES_GETVIEWS [title, \<lparr>v_data = s_cntviews s, v_len = 4, v_bytes = be32_bytes cntviews\<rparr>]
                    [\<lparr>v_data = s_tikviews s, v_len = 0xd8 * cntviews, v_bytes = []\<rparr>]) (\<lambda>(ret, _).
        if ret < 0 then done_with ret
        else
          next_run (ios_ioctlvreboot w n (s_ipc s) (s_vecs s) es_fd IOCTL_ES_LAUNCH
                      [title, \<lparr>v_data = s_tikviews s, v_len = 0xd8, v_bytes = []\<rparr>] []) (\<lambda>(ret, _).
          done_with ret))))"

definition version_of :: "u32 \<Rightarrow> int" where
  "version_of vercode =
     (let version = drop_bit 16 vercode in if version = 0 then - 1 else if version > 0xff then - 1 else uint version)"

definition IOS_GetVersion :: "hw \<Rightarrow> int run" where
  "IOS_GetVersion w = next_run (io w (Invalidate_Data 0x80003140 8)) (\<lambda>vercode. done_with (version_of vercode))"

definition es_init :: "hw \<Rightarrow> nat \<Rightarrow> stub \<Rightarrow> int run" where
  "es_init w n s = ios_open w n (s_ipc s) (s_dev_es s) (map (of_nat \<circ> of_char) ''/dev/es'') 0"

definition ios_title :: "int \<Rightarrow> u64" where
  "ios_title iosver = 0x0000000100000000 OR of_int (if iosver < 0 then 21 else iosver)"

definition requested_title :: "stub \<Rightarrow> u64" where
  "requested_title s = (if s_conf_magic s = STUB_MAGIC then s_conf_title s else MY_TITLEID)"

text \<open>The stub, in two parts; its last act is an endless loop, here the result.\<close>

definition load_titles :: "hw \<Rightarrow> nat \<Rightarrow> stub \<Rightarrow> int \<Rightarrow> int \<Rightarrow> unit run" where
  "load_titles w n s es_fd iosver =
     next_run (LaunchTitle w n s es_fd (ios_title iosver)) (\<lambda>_.
     next_run (IOS_GetVersion w) (\<lambda>_.
     next_run (es_init w n s) (\<lambda>es_fd.
     if es_fd < 0 then done_with ()
     else
       next_run (LaunchTitle w n s es_fd (requested_title s)) (\<lambda>_.
       next_run (LaunchTitle w n s es_fd 0x0000000100000002) (\<lambda>_.
       next_run (IOS_GetVersion w) (\<lambda>_. done_with ()))))))"

definition stub_main :: "hw \<Rightarrow> nat \<Rightarrow> stub \<Rightarrow> unit run" where
  "stub_main w n s =
     next_run (reset_ios w n (s_ipc s)) (\<lambda>_.
     next_run (es_init w n s) (\<lambda>es_fd.
     if es_fd < 0 then done_with ()
     else
       next_run (IOS_GetVersion w) (\<lambda>iosver.
       next_run (IOS_GetVersion w) (\<lambda>_. load_titles w n s es_fd iosver))))"

section \<open>Runs that keep a property\<close>

text \<open>\<open>triple I P f Q\<close>: from a history with \<open>P\<close> the run ends in one with \<open>Q\<close>, or is waiting in one with \<open>I\<close>.\<close>

definition triple :: "(hw_op list \<Rightarrow> bool) \<Rightarrow> (hw_op list \<Rightarrow> bool) \<Rightarrow> 'a run \<Rightarrow> ('a \<Rightarrow> hw_op list \<Rightarrow> bool) \<Rightarrow> bool" where
  "triple I P f Q \<longleftrightarrow> (\<forall>h. P h \<longrightarrow> (case f h of (None, h') \<Rightarrow> I h' | (Some a, h') \<Rightarrow> Q a h'))"

lemma triple_next: "triple I P f Q \<Longrightarrow> (\<And>a. triple I (Q a) (g a) R) \<Longrightarrow> triple I P (next_run f g) R"
  by (fastforce simp: triple_def next_run_def split: prod.splits option.splits)

lemma triple_same: "triple I P f (\<lambda>_. P) \<Longrightarrow> (\<And>a. triple I P (g a) R) \<Longrightarrow> triple I P (next_run f g) R"
  by (rule triple_next)

lemma triple_done: "(\<And>h. P h \<Longrightarrow> Q a h) \<Longrightarrow> triple I P (done_with a) Q"
  by (simp add: triple_def done_with_def)

lemma triple_io: "(\<And>h. P h \<Longrightarrow> Q (w h e) (e # h)) \<Longrightarrow> triple I P (io w e) Q"
  by (simp add: triple_def io_def)

lemma triple_weaken: "triple I P f Q \<Longrightarrow> (\<And>h. P' h \<Longrightarrow> P h) \<Longrightarrow> (\<And>a h. Q a h \<Longrightarrow> Q' a h) \<Longrightarrow> (\<And>h. I h \<Longrightarrow> I' h) \<Longrightarrow> triple I' P' f Q'"
  by (fastforce simp: triple_def split: prod.splits option.splits)

lemma triple_snd: "triple I P f Q \<Longrightarrow> P h \<Longrightarrow> (\<And>a h. Q a h \<Longrightarrow> I h) \<Longrightarrow> I (snd (f h))"
  by (cases "f h"; cases "fst (f h)") (fastforce simp: triple_def dest: spec[of _ h])+

lemma triple_conj: "triple I P f Q \<Longrightarrow> triple (\<lambda>_. True) P f R \<Longrightarrow> triple I P f (\<lambda>a h. Q a h \<and> R a h)"
  by (fastforce simp: triple_def split: prod.splits option.splits)

lemma triple_if: "(b \<Longrightarrow> triple I P f Q) \<Longrightarrow> (\<not> b \<Longrightarrow> triple I P g Q) \<Longrightarrow> triple I P (if b then f else g) Q"
  by simp

abbreviation keeps :: "(hw_op list \<Rightarrow> bool) \<Rightarrow> 'a run \<Rightarrow> bool" where
  "keeps P f \<equiv> triple P P f (\<lambda>_. P)"

text \<open>Accesses that neither hand the message over nor take a reply.\<close>

definition quiet :: "hw_op \<Rightarrow> bool" where
  "quiet e \<longleftrightarrow>
     (case e of
        Read_Reg r \<Rightarrow> r \<noteq> 0x0d000008
      | Write_Reg r v \<Rightarrow> r \<noteq> 0x0d000000
      | Udelay d \<Rightarrow> True
      | Invalidate_Data a n \<Rightarrow> True
      | Flush_Data a n bs \<Rightarrow> True
      | _ \<Rightarrow> False)"

definition quiet_closed :: "(hw_op list \<Rightarrow> bool) \<Rightarrow> bool" where
  "quiet_closed P \<longleftrightarrow> (\<forall>e h. quiet e \<longrightarrow> P h \<longrightarrow> P (e # h))"

lemma quiet_io: "quiet_closed P \<Longrightarrow> quiet e \<Longrightarrow> keeps P (io w e)"
  by (rule triple_io) (simp add: quiet_closed_def)

lemma quiet_ops:
  assumes "quiet_closed P"
  shows quiet_read1: "keeps P (ipc_read w 1)"
    and quiet_bell: "keeps P (ipc_bell w b)"
    and quiet_ack: "keeps P (ipc_irq_ack w)"
    and quiet_delay: "keeps P (io w (Udelay d))"
proof -
  show r: "keeps P (ipc_read w 1)" unfolding ipc_read_def by (rule quiet_io[OF assms]) (simp add: quiet_def)
  have "keeps P (ipc_write w 1 v)" for v unfolding ipc_write_def by (rule quiet_io[OF assms]) (simp add: quiet_def)
  then show "keeps P (ipc_bell w b)" unfolding ipc_bell_def by (intro triple_next[OF r])
  show "keeps P (ipc_irq_ack w)" unfolding ipc_irq_ack_def ipc_write_def by (rule quiet_io[OF assms]) (simp add: quiet_def)
  show "keeps P (io w (Udelay d))" by (rule quiet_io[OF assms]) (simp add: quiet_def)
qed

lemma quiet_poll:
  assumes "quiet_closed P"
  shows "keeps P (poll w n b)"
proof (induction n)
  case 0
  then show ?case by (simp add: triple_def)
next
  case (Suc n)
  have "poll w (Suc n) b = next_run (ipc_read w 1) (\<lambda>v. if v AND b \<noteq> b then poll w n b else done_with v)"
    by (rule ext) simp
  then show ?case
    using Suc by (auto intro!: triple_next[OF quiet_read1[OF assms]] triple_if triple_done)
qed

lemma quiet_waits:
  assumes "quiet_closed P"
  shows "keeps P (ipc_wait_ack w n)" and "keeps P (ipc_wait_reply w n)"
  unfolding ipc_wait_ack_def ipc_wait_reply_def
  by (rule triple_next[OF quiet_poll[OF assms]], rule quiet_delay[OF assms])+

lemmas quiet_rules = quiet_read1 quiet_bell quiet_ack quiet_delay quiet_waits

lemma quiet_flush_vecs:
  assumes "quiet_closed P"
  shows "keeps P (flush_vecs w vs)"
proof (induction vs)
  case (Cons v vs)
  have "keeps P (io w (Flush_Data a n b))" for a n b by (rule quiet_io[OF assms]) (simp add: quiet_def)
  then show ?case using Cons by (auto intro!: triple_next[OF Cons] triple_next[of _ _ "io _ _"] triple_done)
qed (simp add: triple_done)

lemma quiet_invalidate_vecs:
  assumes "quiet_closed P"
  shows "keeps P (invalidate_vecs w vs)"
proof (induction vs)
  case (Cons v vs)
  have "keeps P (io w (Invalidate_Data a n))" for a n by (rule quiet_io[OF assms]) (simp add: quiet_def)
  then show ?case using Cons by (auto intro!: triple_next[OF Cons] triple_next[of _ _ "io _ _"] triple_done)
qed (simp add: triple_done)

section \<open>The message buffer has one owner\<close>

text \<open>
  The buffer is free; it has been written back for a message, which restarts IOS or not; IOS has it; the reply to it has been
  taken from the register. \<open>Broken\<close>: it was written while it was not free, handed over unwritten, or read without a reply. A
  message that restarts IOS is not replied to.
\<close>

datatype phase = Unused | Ready bool | Sent bool | Replied | Broken

definition launch_msg :: "ipc \<Rightarrow> bool" where
  "launch_msg m \<longleftrightarrow> ipc_cmd m = 7 \<and> hd (ipc_arg m) = IOCTL_ES_LAUNCH"

definition phase_step :: "u32 \<Rightarrow> u32 \<Rightarrow> hw_op \<Rightarrow> phase \<Rightarrow> phase" where
  "phase_step v at e p =
     (case e of
        Flush_Ipc m \<Rightarrow> if p = Unused \<or> p = Sent True then Ready (launch_msg m) else Broken
      | Write_Reg r x \<Rightarrow>
          if r = 0x0d000000 then (case p of Ready b \<Rightarrow> if x = virt_to_phys at then Sent b else Broken | _ \<Rightarrow> Broken) else p
      | Read_Reg r \<Rightarrow> if r = 0x0d000008 \<and> v = virt_to_phys at \<and> p = Sent False then Replied else p
      | Invalidate_Ipc \<Rightarrow> if p = Replied then Unused else Broken
      | _ \<Rightarrow> p)"

primrec phase_of :: "hw \<Rightarrow> u32 \<Rightarrow> hw_op list \<Rightarrow> phase" where
  "phase_of w at [] = Unused"
| "phase_of w at (e # h) = phase_step (w h e) at e (phase_of w at h)"

definition idle :: "hw \<Rightarrow> u32 \<Rightarrow> hw_op list \<Rightarrow> bool" where
  "idle w at h \<longleftrightarrow> phase_of w at h \<in> {Unused, Sent True}"

definition sound :: "hw \<Rightarrow> u32 \<Rightarrow> hw_op list \<Rightarrow> bool" where
  "sound w at h \<longleftrightarrow> phase_of w at h \<noteq> Broken"

lemma idle_sound: "idle w at h \<Longrightarrow> sound w at h"
  by (auto simp: idle_def sound_def)

lemma quiet_phase: "quiet e \<Longrightarrow> phase_of w at (e # h) = phase_of w at h"
  by (auto simp: quiet_def phase_step_def split: hw_op.splits)

lemma quiet_closed_phase: "quiet_closed (\<lambda>h. phase_of w at h = p)" "quiet_closed (idle w at)"
  by (simp_all add: quiet_closed_def quiet_phase idle_def del: phase_of.simps)

text \<open>A run that keeps a phase other than \<open>Broken\<close> is sound while it waits.\<close>

lemma in_phase: "keeps (\<lambda>h. phase_of w at h = p) f \<Longrightarrow> p \<noteq> Broken \<Longrightarrow>
  triple (sound w at) (\<lambda>h. phase_of w at h = p) f (\<lambda>_ h. phase_of w at h = p)"
  by (erule triple_weaken) (auto simp: sound_def)

lemma in_idle: "keeps (idle w at) f \<Longrightarrow> triple (sound w at) (idle w at) f (\<lambda>_. idle w at)"
  by (erule triple_weaken) (auto simp: idle_sound)

lemmas phase_rules = quiet_rules[OF quiet_closed_phase(1), THEN in_phase]
lemmas idle_rules = quiet_rules[OF quiet_closed_phase(2), THEN in_idle] quiet_flush_vecs[OF quiet_closed_phase(2), THEN in_idle]
  quiet_invalidate_vecs[OF quiet_closed_phase(2), THEN in_idle]

lemma post_message:
  "triple (sound w at) (idle w at) (io w (Flush_Ipc m)) (\<lambda>_ h. phase_of w at h = Ready (launch_msg m))"
  "triple (sound w at) (\<lambda>h. phase_of w at h = Ready b) (ipc_write w 0 (virt_to_phys at)) (\<lambda>_ h. phase_of w at h = Sent b)"
  unfolding ipc_write_def by (auto intro!: triple_io simp: idle_def phase_step_def)

lemma send_request_phase:
  "triple (sound w at) (idle w at) (ipc_send_request w n at m) (\<lambda>_ h. phase_of w at h = Sent (launch_msg m))"
  unfolding ipc_send_request_def by (intro triple_next[OF post_message(1)] triple_next[OF post_message(2)] triple_same phase_rules) simp_all

lemma send_twoack_phase:
  "triple (sound w at) (idle w at) (ipc_send_twoack w n at m) (\<lambda>_ h. phase_of w at h = Sent (launch_msg m))"
  unfolding ipc_send_twoack_def by (intro triple_next[OF post_message(1)] triple_next[OF post_message(2)] triple_same phase_rules) simp_all

lemma recv_loop_phase:
  "triple (sound w at) (\<lambda>h. phase_of w at h = Sent False) (recv_loop w n at k) (\<lambda>_ h. phase_of w at h = Replied)"
proof (induction k)
  case 0
  then show ?case by (simp add: triple_def sound_def)
next
  case (Suc k)
  let ?Q = "\<lambda>v h. phase_of w at h = (if v = virt_to_phys at then Replied else Sent False)"
  have step: "recv_loop w n at (Suc k) =
     next_run (ipc_wait_reply w n) (\<lambda>_.
     next_run (ipc_read w 2) (\<lambda>reply.
     next_run (ipc_bell w 4) (\<lambda>_.
     next_run (ipc_irq_ack w) (\<lambda>_.
     next_run (ipc_bell w 8) (\<lambda>_. if reply = virt_to_phys at then done_with reply else recv_loop w n at k)))))"
    by (rule ext) simp
  have rd: "triple (sound w at) (\<lambda>h. phase_of w at h = Sent False) (ipc_read w 2) ?Q"
    unfolding ipc_read_def by (rule triple_io) (simp add: phase_step_def)
  have last: "triple (sound w at) (?Q v) (if v = virt_to_phys at then done_with v else recv_loop w n at k)
      (\<lambda>_ h. phase_of w at h = Replied)" for v
    using Suc by (auto intro: triple_done)
  show ?case
    unfolding step
    by (rule triple_next[OF phase_rules(6)], simp, rule triple_next[OF rd])
      (rule triple_next[OF phase_rules(2)], simp, rule triple_next[OF phase_rules(3)], simp, rule triple_next[OF phase_rules(2)], simp, rule last)
qed

lemma recv_reply_phase:
  "triple (sound w at) (\<lambda>h. phase_of w at h = Sent False) (ipc_recv_reply w n at) (\<lambda>_. idle w at)"
  unfolding ipc_recv_reply_def
  by (intro triple_next[OF recv_loop_phase] triple_next[of _ _ _ "\<lambda>_. idle w at"] triple_io triple_done) (auto simp: phase_step_def idle_def)

lemma transaction_phase:
  assumes "\<not> launch_msg m"
  shows "triple (sound w at) (idle w at) (next_run (ipc_send_request w n at m) (\<lambda>_. ipc_recv_reply w n at)) (\<lambda>_. idle w at)"
  using send_request_phase[of w at n m] assms
  by (intro triple_next[of _ _ _ "\<lambda>_ h. phase_of w at h = Sent False"] recv_reply_phase) simp

abbreviation idles :: "hw \<Rightarrow> u32 \<Rightarrow> 'a run \<Rightarrow> bool" where
  "idles w at f \<equiv> triple (sound w at) (idle w at) f (\<lambda>_. idle w at)"

lemma done_idle: "idles w at (done_with a)"
  by (rule triple_done)

lemma io_idle: "idles w at (io w (Flush_Vec vs))" "idles w at (io w (Flush_Data a n bs))" "idles w at (io w (Invalidate_Data a n))"
  "idles w at (ipc_read w 2)"
  unfolding ipc_read_def by (auto intro!: triple_io simp: idle_def phase_step_def)

lemma triple_assoc: "next_run (next_run f g) k = next_run f (\<lambda>a. next_run (g a) k)"
  by (rule ext) (simp add: next_run_def split: prod.split option.split)

lemma ios_open_idle: "idles w at (ios_open w n at a name mode)"
  unfolding ios_open_def by (intro triple_same[OF io_idle(2)] transaction_phase) (simp add: launch_msg_def)

lemma ios_close_idle: "idles w at (ios_close w n at fd)"
  unfolding ios_close_def by (rule transaction_phase) (simp add: launch_msg_def)

lemma ioctlv_idle:
  assumes "reboot \<longleftrightarrow> nr = IOCTL_ES_LAUNCH"
  shows "idles w at (ios_ioctlv_any w n at vec_at fd nr ins outs reboot)"
proof -
  let ?m = "ioctlv_message fd nr (length ins) (length outs) vec_at"
  have m: "launch_msg ?m \<longleftrightarrow> reboot" using assms by (simp add: launch_msg_def ioctlv_message_def)
  have go: "idles w at (next_run (ipc_send_twoack w n at ?m) (\<lambda>_. done_with x))" if reboot for x :: "int \<times> u32 list"
    using m that by (intro triple_next[OF send_twoack_phase] triple_done) (simp add: idle_def)
  have stay: "idles w at (next_run (ipc_send_request w n at ?m) (\<lambda>_. next_run (ipc_recv_reply w n at) g))"
    if "\<not> reboot" "\<And>r. idles w at (g r)" for g :: "int \<Rightarrow> (int \<times> u32 list) run"
    using triple_same[OF transaction_phase that(2)] m that(1) unfolding triple_assoc by simp
  show ?thesis
    unfolding ios_ioctlv_any_def Let_def
    by (intro triple_same[OF idle_rules(7)] triple_same[OF io_idle(1)] triple_if go stay triple_same[OF idle_rules(8)] done_idle)
qed

lemma LaunchTitle_idle: "idles w (s_ipc s) (LaunchTitle w n s fd title)"
proof -
  have c: "(IOCTL_ES_GETVIEWCNT = IOCTL_ES_LAUNCH) = False" "(IOCTL_ES_GETVIEWS = IOCTL_ES_LAUNCH) = False"
    by (simp_all add: stub_consts)
  have q: "idles w (s_ipc s) (ios_ioctlv w n (s_ipc s) v fd nr ins outs)" if "nr \<noteq> IOCTL_ES_LAUNCH" for v nr ins outs
    unfolding ios_ioctlv_def using that by (intro ioctlv_idle) simp
  have l: "idles w (s_ipc s) (ios_ioctlvreboot w n (s_ipc s) v fd IOCTL_ES_LAUNCH ins outs)" for v ins outs
    unfolding ios_ioctlvreboot_def by (intro ioctlv_idle) simp
  show ?thesis
    unfolding LaunchTitle_def Let_def split_def
    by (intro triple_same[OF q] triple_same[OF l] triple_if done_idle) (simp_all add: c)
qed

lemma reset_ios_idle: "idles w at (reset_ios w n at)"
proof -
  have reply: "idles w at (ipc_cleanup_reply w)"
    unfolding ipc_cleanup_reply_def by (intro triple_same[OF io_idle(4)] triple_same idle_rules triple_if done_idle)
  have request: "idles w at (ipc_cleanup_request w)"
    unfolding ipc_cleanup_request_def by (intro triple_same idle_rules triple_if done_idle)
  have flush: "idles w at (flush_transactions w k)" for k
    by (induction k) (auto intro!: done_idle triple_same[OF request] triple_same[OF reply] triple_same[OF idle_rules(3)] triple_same[OF idle_rules(4)])
  have close: "idles w at (close_all w n at fds)" for fds
    by (induction fds) (auto intro!: done_idle triple_same[OF ios_close_idle])
  show ?thesis unfolding reset_ios_def by (rule triple_same[OF flush close])
qed

lemma stub_main_idle: "idles w (s_ipc s) (stub_main w n s)"
proof -
  have v: "idles w (s_ipc s) (IOS_GetVersion w)" unfolding IOS_GetVersion_def by (intro triple_same[OF io_idle(3)] done_idle)
  have e: "idles w (s_ipc s) (es_init w n s)" unfolding es_init_def by (rule ios_open_idle)
  show ?thesis
    unfolding stub_main_def load_titles_def
    by (intro triple_same[OF v] triple_same[OF e] triple_same[OF reset_ios_idle] triple_same[OF LaunchTitle_idle] triple_if done_idle)
qed

section \<open>What is launched\<close>

text \<open>The bytes that IOS sees at an address, and the titles that it was told to launch, the last one first.\<close>

primrec last_flush :: "u32 \<Rightarrow> hw_op list \<Rightarrow> u8 list" where
  "last_flush a [] = []"
| "last_flush a (e # h) = (case e of Flush_Data b n bs \<Rightarrow> if b = a then bs else last_flush a h | _ \<Rightarrow> last_flush a h)"

primrec launches :: "u32 \<Rightarrow> hw_op list \<Rightarrow> u8 list list" where
  "launches a [] = []"
| "launches a (e # h) =
     (case e of Flush_Ipc m \<Rightarrow> if launch_msg m then last_flush a h # launches a h else launches a h | _ \<Rightarrow> launches a h)"

text \<open>A vector lies inside one of the static variables; \<^verbatim>\<open>tikviews\<close> has room for four views.\<close>

definition inside_var :: "stub \<Rightarrow> ioctlv \<Rightarrow> bool" where
  "inside_var s v \<longleftrightarrow> v_data v = virt_to_phys (s_title s) \<and> unat (v_len v) \<le> 8
     \<or> v_data v = virt_to_phys (s_cntviews s) \<and> unat (v_len v) \<le> 4
     \<or> v_data v = virt_to_phys (s_tikviews s) \<and> unat (v_len v) \<le> 0xd8 * 4"

definition vectors_ok :: "stub \<Rightarrow> hw_op list \<Rightarrow> bool" where
  "vectors_ok s h \<longleftrightarrow> (\<forall>vs. Flush_Vec vs \<in> set h \<longrightarrow> (\<forall>v \<in> set vs. inside_var s v))"

text \<open>The history so far has gone on from \<open>b\<close>.\<close>

definition launched :: "hw_op list \<Rightarrow> stub \<Rightarrow> u8 list list \<Rightarrow> hw_op list \<Rightarrow> bool" where
  "launched b s ts h \<longleftrightarrow> launches (s_title s) h = ts \<and> vectors_ok s h \<and> suffix b h"

definition no_launch :: "hw_op \<Rightarrow> bool" where
  "no_launch e \<longleftrightarrow> (case e of Flush_Ipc m \<Rightarrow> \<not> launch_msg m | Flush_Vec vs \<Rightarrow> False | _ \<Rightarrow> True)"

lemma launched_step: "no_launch e \<Longrightarrow> launched b s ts h \<Longrightarrow> launched b s ts (e # h)"
  by (auto simp: launched_def no_launch_def vectors_ok_def suffix_ConsI split: hw_op.splits)

lemma launched_io: "no_launch e \<Longrightarrow> keeps (launched b s ts) (io w e)"
  by (rule triple_io) (rule launched_step)

lemma quiet_closed_launched: "quiet_closed (launched b s ts)"
  by (auto simp: quiet_closed_def quiet_def no_launch_def intro!: launched_step split: hw_op.splits)

lemmas launched_quiet = quiet_rules[OF quiet_closed_launched] quiet_invalidate_vecs[OF quiet_closed_launched]

lemma launched_ops: "keeps (launched b s ts) (ipc_read w r)" "keeps (launched b s ts) (ipc_write w r v)"
  "keeps (launched b s ts) (io w Invalidate_Ipc)" "keeps (launched b s ts) (io w (Flush_Data a n bs))"
  "keeps (launched b s ts) (io w (Invalidate_Data a n))" "keeps (launched b s ts) (done_with x)"
  unfolding ipc_read_def ipc_write_def by (auto intro!: launched_io triple_done simp: no_launch_def)

lemmas launched_rules = launched_quiet launched_ops

lemma launched_post: "\<not> launch_msg m \<Longrightarrow> keeps (launched b s ts) (io w (Flush_Ipc m))"
  by (rule launched_io) (simp add: no_launch_def)

lemma launched_request: "\<not> launch_msg m \<Longrightarrow> keeps (launched b s ts) (ipc_send_request w n at m)"
  unfolding ipc_send_request_def by (intro triple_same launched_rules launched_post)

lemma launched_recv_loop: "keeps (launched b s ts) (recv_loop w n at k)"
proof (induction k)
  case (Suc k)
  have "recv_loop w n at (Suc k) =
     next_run (ipc_wait_reply w n) (\<lambda>_.
     next_run (ipc_read w 2) (\<lambda>reply.
     next_run (ipc_bell w 4) (\<lambda>_.
     next_run (ipc_irq_ack w) (\<lambda>_.
     next_run (ipc_bell w 8) (\<lambda>_. if reply = virt_to_phys at then done_with reply else recv_loop w n at k)))))"
    by (rule ext) simp
  then show ?case by (simp only:) (intro triple_same launched_rules triple_if Suc)
qed (simp add: triple_def)

lemma launched_reply: "keeps (launched b s ts) (ipc_recv_reply w n at)"
  unfolding ipc_recv_reply_def by (intro triple_same launched_rules launched_recv_loop)

text \<open>Flushing the vectors never waits.\<close>

definition phys_vec :: "ioctlv \<Rightarrow> ioctlv" where
  "phys_vec v = v\<lparr>v_data := virt_to_phys (v_data v)\<rparr>"

lemma flush_vecs_result:
  "flush_vecs w vs h = (Some (map phys_vec vs), rev (map (\<lambda>v. Flush_Data (v_data v) (v_len v) (v_bytes v)) (filter (\<lambda>v. v_data v \<noteq> 0) vs)) @ h)"
proof (induction vs arbitrary: h)
  case (Cons v vs)
  then show ?case
    by (auto simp: next_run_def done_with_def io_def phys_vec_def virt_to_phys_def split: prod.splits intro: ioctlv.equality)
qed (simp add: done_with_def)

text \<open>The vectors handed over to IOS.\<close>

definition hand_over :: "hw \<Rightarrow> ioctlv list \<Rightarrow> ioctlv list run" where
  "hand_over w vs = next_run (flush_vecs w vs) (\<lambda>vs'. next_run (io w (Flush_Vec vs')) (\<lambda>_. done_with vs'))"

lemma ioctlv_hand_over:
  "ios_ioctlv_any w n at vec_at fd nr ins outs reboot = next_run (hand_over w (ins @ outs)) (\<lambda>vs.
     let m = ioctlv_message fd nr (length ins) (length outs) vec_at in
     if reboot then next_run (ipc_send_twoack w n at m) (\<lambda>_. done_with (0, []))
     else next_run (ipc_send_request w n at m) (\<lambda>_.
          next_run (ipc_recv_reply w n at) (\<lambda>r.
          next_run (invalidate_vecs w (drop (length ins) vs)) (\<lambda>xs. done_with (r, xs)))))"
  unfolding ios_ioctlv_any_def hand_over_def
  by (rule ext) (simp add: next_run_def done_with_def io_def flush_vecs_result del: flush_vecs.simps)

lemma launched_flush:
  assumes "\<forall>v \<in> set vs. inside_var s (phys_vec v)"
  shows "keeps (launched b s ts) (hand_over w vs)"
proof -
  have k: "keeps (launched b s ts) (flush_vecs w vs)" by (rule quiet_flush_vecs[OF quiet_closed_launched])
  have "launched b s ts (snd (hand_over w vs h))" if h: "launched b s ts h" for h
  proof -
    have "launched b s ts (snd (flush_vecs w vs h))" using k h by (simp add: triple_def flush_vecs_result)
    with assms show ?thesis
      by (simp add: hand_over_def next_run_def flush_vecs_result io_def done_with_def launched_def vectors_ok_def suffix_ConsI)
  qed
  then show ?thesis
    by (simp add: triple_def hand_over_def next_run_def flush_vecs_result io_def done_with_def)
qed

lemma launched_ioctlv:
  assumes "nr \<noteq> IOCTL_ES_LAUNCH" and "\<forall>v \<in> set (ins @ outs). inside_var s (phys_vec v)"
  shows "keeps (launched b s ts) (ios_ioctlv w n at va fd nr ins outs)"
proof -
  have m: "\<not> launch_msg (ioctlv_message fd nr (length ins) (length outs) va)"
    using assms(1) by (simp add: launch_msg_def ioctlv_message_def)
  show ?thesis
    unfolding ios_ioctlv_def ioctlv_hand_over Let_def if_False
    by (intro triple_same[OF launched_flush[OF assms(2)]] triple_same[OF launched_request[OF m]] triple_same[OF launched_reply]
        triple_same[OF launched_quiet(7)] launched_ops(6))
qed

text \<open>The launch itself: the waits come after the message has been handed over.\<close>

lemma launched_reboot:
  assumes "s_title s \<noteq> 0" and "s_tikviews s \<noteq> s_title s"
  shows "triple (\<lambda>h. launched b s ts h \<or> launched b s (be64_bytes t # ts) h) (launched b s ts)
    (ios_ioctlvreboot w n at va fd IOCTL_ES_LAUNCH [title_vec s t, \<lparr>v_data = s_tikviews s, v_len = 0xd8, v_bytes = []\<rparr>] [])
    (\<lambda>r h. fst r = 0 \<and> launched b s (be64_bytes t # ts) h)"
proof -
  let ?vs = "[title_vec s t, \<lparr>v_data = s_tikviews s, v_len = 0xd8, v_bytes = []\<rparr>]"
  let ?L = "launched b s (be64_bytes t # ts)" and ?I = "\<lambda>h. launched b s ts h \<or> launched b s (be64_bytes t # ts) h"
  let ?m = "ioctlv_message fd IOCTL_ES_LAUNCH (length ?vs) (length ([] :: ioctlv list)) va"
  have m: "launch_msg ?m" by (simp add: launch_msg_def ioctlv_message_def)
  have weak: "triple ?I ?L f (\<lambda>_. ?L)" if "keeps ?L f" for f :: "'b run" by (rule triple_weaken[OF that]) simp_all
  have v: "\<forall>v \<in> set ?vs. inside_var s (phys_vec v)" by (simp add: inside_var_def phys_vec_def title_vec_def)
  have flush: "triple ?I (launched b s ts) (hand_over w ?vs)
      (\<lambda>_ h. launched b s ts h \<and> last_flush (s_title s) h = be64_bytes t)"
  proof (rule triple_weaken)
    show "triple (launched b s ts) (launched b s ts) (hand_over w ?vs)
      (\<lambda>_ h. launched b s ts h \<and> last_flush (s_title s) h = be64_bytes t)"
    proof (rule triple_conj[OF launched_flush[OF v]])
      show "triple (\<lambda>_. True) (launched b s ts) (hand_over w ?vs)
        (\<lambda>_ h. last_flush (s_title s) h = be64_bytes t)"
        using assms by (simp add: hand_over_def triple_def next_run_def flush_vecs_result io_def done_with_def title_vec_def del: flush_vecs.simps)
    qed
  qed simp_all
  have post: "triple ?I (\<lambda>h. launched b s ts h \<and> last_flush (s_title s) h = be64_bytes t) (io w (Flush_Ipc ?m)) (\<lambda>_. ?L)"
    using m by (intro triple_io) (simp add: launched_def vectors_ok_def suffix_ConsI del: list.size)
  have send: "triple ?I (\<lambda>h. launched b s ts h \<and> last_flush (s_title s) h = be64_bytes t) (ipc_send_twoack w n at ?m) (\<lambda>_. ?L)"
    unfolding ipc_send_twoack_def by (intro triple_next[OF post] weak triple_same launched_rules)
  show ?thesis
    unfolding ios_ioctlvreboot_def ioctlv_hand_over Let_def if_True append_Nil2
    by (rule triple_next[OF flush], rule triple_next[OF send], rule triple_done) simp
qed

lemma views_len: "c \<le> 4 \<Longrightarrow> unat (0xd8 * c :: u32) \<le> 0xd8 * 4"
proof -
  assume "c \<le> 4"
  then have c: "unat c \<le> 4" by (simp add: word_le_nat_alt)
  then have "unat (0xd8 * c :: u32) = 0xd8 * unat c" by (intro unat_mult_lem[THEN iffD1, of "0xd8 :: u32" c, simplified]) simp
  with c show ?thesis by simp
qed

lemma LaunchTitle_launches:
  assumes "s_title s \<noteq> 0" and "s_tikviews s \<noteq> s_title s"
  shows "triple (\<lambda>h. launched b s ts h \<or> launched b s (be64_bytes t # ts) h) (launched b s ts) (LaunchTitle w n s fd t)
    (\<lambda>r. if r < 0 then launched b s ts else launched b s (be64_bytes t # ts))"
proof -
  let ?I = "\<lambda>h. launched b s ts h \<or> launched b s (be64_bytes t # ts) h"
  have weak: "triple ?I (launched b s ts) f (\<lambda>_. launched b s ts)" if "keeps (launched b s ts) f" for f :: "'b run"
    by (rule triple_weaken[OF that]) simp_all
  have title: "inside_var s (phys_vec (title_vec s t))" by (simp add: inside_var_def phys_vec_def title_vec_def)
  have cnt: "keeps (launched b s ts) (ios_ioctlv w n (s_ipc s) (s_vecs s) fd IOCTL_ES_GETVIEWCNT [title_vec s t]
      [\<lparr>v_data = s_cntviews s, v_len = 4, v_bytes = []\<rparr>])"
    by (rule launched_ioctlv) (use title in \<open>simp_all add: stub_consts inside_var_def phys_vec_def\<close>)
  have views: "keeps (launched b s ts) (ios_ioctlv w n (s_ipc s) (s_vecs s) fd IOCTL_ES_GETVIEWS
      [title_vec s t, \<lparr>v_data = s_cntviews s, v_len = 4, v_bytes = be32_bytes c\<rparr>]
      [\<lparr>v_data = s_tikviews s, v_len = 0xd8 * c, v_bytes = []\<rparr>])" if "\<not> c > 4" for c
    by (rule launched_ioctlv) (use title that views_len[of c] in \<open>simp_all add: stub_consts inside_var_def phys_vec_def not_less\<close>)
  note cnt' = triple_next[OF weak[OF cnt]] and views' = triple_next[OF weak[OF views]]
  show ?thesis
    unfolding LaunchTitle_def Let_def split_def
    by (intro cnt' triple_if views' triple_next[OF launched_reboot[OF assms]] triple_done) simp_all
qed

text \<open>Some of the titles, in their order, and no others.\<close>

definition some_of :: "hw_op list \<Rightarrow> stub \<Rightarrow> u64 list \<Rightarrow> hw_op list \<Rightarrow> bool" where
  "some_of b s xs h \<longleftrightarrow> (\<exists>ts. launched b s ts h \<and> subseq (rev ts) (map be64_bytes xs))"

lemma some_of_more: "some_of b s xs h \<Longrightarrow> some_of b s (xs @ ys) h"
  unfolding some_of_def map_append by (blast intro: subseq_order.trans[OF _ subseq_rev_drop_many[of _ "[]", simplified]] list_emb_append2)

lemma some_of_keeps:
  assumes "\<And>ts. keeps (launched b s ts) f"
  shows "keeps (some_of b s xs) f"
  unfolding triple_def
proof (intro allI impI)
  fix h assume "some_of b s xs h"
  then obtain ts where "launched b s ts h" "subseq (rev ts) (map be64_bytes xs)" by (auto simp: some_of_def)
  with assms[of ts] show "case f h of (None, h') \<Rightarrow> some_of b s xs h' | (Some a, h') \<Rightarrow> some_of b s xs h'"
    by (fastforce simp: triple_def some_of_def split: prod.splits option.splits)
qed

lemma some_of_launch:
  assumes "s_title s \<noteq> 0" and "s_tikviews s \<noteq> s_title s"
  shows "triple (some_of b s (xs @ [t])) (some_of b s xs) (LaunchTitle w n s fd t) (\<lambda>_. some_of b s (xs @ [t]))"
  unfolding triple_def
proof (intro allI impI)
  fix h assume "some_of b s xs h"
  then obtain ts where ts: "launched b s ts h" "subseq (rev ts) (map be64_bytes xs)" by (auto simp: some_of_def)
  then have "some_of b s (xs @ [t]) h'" if "launched b s ts h' \<or> launched b s (be64_bytes t # ts) h'" for h'
    using that some_of_more[of b s xs h' "[t]"] by (auto simp: some_of_def)
  moreover obtain r h' where r: "LaunchTitle w n s fd t h = (r, h')" by fastforce
  moreover have "launched b s ts h' \<or> launched b s (be64_bytes t # ts) h'"
    using LaunchTitle_launches[OF assms, unfolded triple_def, rule_format, OF ts(1), of t w n fd] unfolding r
    by (cases r) (auto split: if_splits)
  ultimately show "case LaunchTitle w n s fd t h of (None, h') \<Rightarrow> some_of b s (xs @ [t]) h' | (Some a, h') \<Rightarrow> some_of b s (xs @ [t]) h'"
    by (cases r) simp_all
qed

definition stub_titles :: "stub \<Rightarrow> u32 \<Rightarrow> u64 list" where
  "stub_titles s code = [ios_title (version_of code), requested_title s, 0x0000000100000002]"

lemma launched_open: "keeps (launched b s ts) (ios_open w n at a name mode)"
  unfolding ios_open_def by (intro triple_same launched_rules launched_request launched_reply) (simp add: launch_msg_def)

lemma launched_version: "keeps (launched b s ts) (IOS_GetVersion w)"
  unfolding IOS_GetVersion_def by (intro triple_same launched_rules)

lemma launched_reset: "keeps (launched b s ts) (reset_ios w n at)"
proof -
  have reply: "keeps (launched b s ts) (ipc_cleanup_reply w)"
    unfolding ipc_cleanup_reply_def by (intro triple_same launched_rules triple_if)
  have request: "keeps (launched b s ts) (ipc_cleanup_request w)"
    unfolding ipc_cleanup_request_def by (intro triple_same launched_rules triple_if)
  have flush: "keeps (launched b s ts) (flush_transactions w k)" for k
    by (induction k) (auto intro!: launched_rules triple_same[OF request] triple_same[OF reply] triple_same[OF launched_rules(3)]
        triple_same[OF launched_rules(4)])
  have close: "keeps (launched b s ts) (close_all w n at fds)" for fds
  proof (induction fds)
    case (Cons fd fds)
    have "keeps (launched b s ts) (ios_close w n at fd)"
      unfolding ios_close_def by (intro triple_same launched_request launched_reply) (simp add: launch_msg_def)
    with Cons show ?case by (simp add: triple_same)
  qed (simp add: launched_ops)
  show ?thesis unfolding reset_ios_def by (rule triple_same[OF flush close])
qed

text \<open>
  The version word is read, and nothing was launched before; from then on the titles are those of this word.
\<close>

definition version_read :: hw_op where
  "version_read = Invalidate_Data 0x80003140 8"

definition stub_ok :: "hw \<Rightarrow> stub \<Rightarrow> hw_op list \<Rightarrow> bool" where
  "stub_ok w s h \<longleftrightarrow> some_of [] s [] h
     \<or> (\<exists>h0. launches (s_title s) h0 = [] \<and> some_of (version_read # h0) s (stub_titles s (w h0 version_read)) h)"

lemma triple_ex: "(\<And>x. triple I (P x) f Q) \<Longrightarrow> triple I (\<lambda>h. \<exists>x. P x h) f Q"
  unfolding triple_def by (intro allI impI, elim exE) auto

lemma some_of_keep:
  assumes "\<And>ts. keeps (launched b s ts) f" and "\<And>h. some_of b s xs h \<Longrightarrow> I h"
  shows "triple I (some_of b s xs) f (\<lambda>_. some_of b s xs)"
  by (rule triple_weaken[OF some_of_keeps[OF assms(1)]]) (assumption | rule assms(2))+

lemma version_known:
  "triple (stub_ok w s) (some_of [] s []) (IOS_GetVersion w)
     (\<lambda>v h. \<exists>h0. (launches (s_title s) h0 = [] \<and> v = version_of (w h0 version_read)) \<and> some_of (version_read # h0) s [] h)"
  unfolding triple_def
proof (intro allI impI)
  fix h assume "some_of [] s [] h"
  then have l: "launches (s_title s) h = []" "vectors_ok s h" by (auto simp: some_of_def launched_def dest: list_emb_Nil2)
  then have "launched (version_read # h) s [] (version_read # h)"
    by (simp add: launched_def vectors_ok_def version_read_def)
  then have "some_of (version_read # h) s [] (version_read # h)" by (auto simp: some_of_def)
  then show "case IOS_GetVersion w h of (None, h') \<Rightarrow> stub_ok w s h'
    | (Some v, h') \<Rightarrow> \<exists>h0. (launches (s_title s) h0 = [] \<and> v = version_of (w h0 version_read)) \<and> some_of (version_read # h0) s [] h'"
    using l(1) by (auto simp: IOS_GetVersion_def next_run_def io_def done_with_def version_read_def)
qed

lemma load_titles_launches:
  assumes "s_title s \<noteq> 0" and "s_tikviews s \<noteq> s_title s" and none: "launches (s_title s) h0 = []"
  shows "triple (stub_ok w s) (some_of (version_read # h0) s [])
    (next_run (IOS_GetVersion w) (\<lambda>_. load_titles w n s fd (version_of (w h0 version_read)))) (\<lambda>_. stub_ok w s)"
proof -
  let ?b = "version_read # h0" and ?I = "stub_ok w s"
  let ?A = "ios_title (version_of (w h0 version_read))" and ?B = "requested_title s" and ?C = "0x0000000100000002"
  have part: "?I h" if "some_of ?b s xs h" "stub_titles s (w h0 version_read) = xs @ ys" for xs ys h
    using some_of_more[OF that(1), of ys] that(2) none by (auto simp: stub_ok_def)
  have early: "some_of ?b s [] h \<Longrightarrow> ?I h" "some_of ?b s [?A] h \<Longrightarrow> ?I h" "some_of ?b s [?A, ?B] h \<Longrightarrow> ?I h"
      "some_of ?b s [?A, ?B, ?C] h \<Longrightarrow> ?I h" for h
    by (erule part, simp add: stub_titles_def)+
  have ended: "triple ?I (some_of ?b s xs) (done_with ()) (\<lambda>_. ?I)" if "\<And>h. some_of ?b s xs h \<Longrightarrow> ?I h" for xs
    using that by (rule triple_done)
  have launch: "triple ?I (some_of ?b s xs) (LaunchTitle w n s fd t) (\<lambda>_. some_of ?b s (xs @ [t]))"
    if "\<And>h. some_of ?b s (xs @ [t]) h \<Longrightarrow> ?I h" for xs t fd
    by (rule triple_weaken[OF some_of_launch[OF assms(1,2)]]) (assumption | rule that)+
  have es: "triple ?I (some_of ?b s xs) (es_init w n s) (\<lambda>_. some_of ?b s xs)" if "\<And>h. some_of ?b s xs h \<Longrightarrow> ?I h" for xs
    unfolding es_init_def by (rule some_of_keep[OF launched_open that])
  have "triple ?I (some_of ?b s []) (load_titles w n s fd (version_of (w h0 version_read))) (\<lambda>_. ?I)"
    unfolding load_titles_def
  proof (rule triple_next[OF launch[of "[]", unfolded append_Nil, OF early(2)]], assumption,
      rule triple_same[OF some_of_keep[OF launched_version early(2)]], assumption,
      rule triple_same[OF es[OF early(2)]], assumption, rule triple_if)
    show "triple ?I (some_of ?b s [?A]) (done_with ()) (\<lambda>_. ?I)" by (rule ended[OF early(2)])
  next
    fix es_fd
    show "triple ?I (some_of ?b s [?A]) (next_run (LaunchTitle w n s es_fd ?B) (\<lambda>_.
        next_run (LaunchTitle w n s es_fd ?C) (\<lambda>_. next_run (IOS_GetVersion w) (\<lambda>_. done_with ())))) (\<lambda>_. ?I)"
      by (rule triple_next[OF launch[of "[?A]" ?B, unfolded append.simps, OF early(3)]], assumption,
          rule triple_next[OF launch[of "[?A, ?B]" ?C, unfolded append.simps, OF early(4)]], assumption,
          rule triple_same[OF some_of_keep[OF launched_version early(4)]], assumption, rule ended[OF early(4)])
  qed
  then show ?thesis by (rule triple_same[OF some_of_keep[OF launched_version early(1)], rotated])
qed

lemma stub_main_launches:
  assumes "s_title s \<noteq> 0" and "s_tikviews s \<noteq> s_title s"
  shows "triple (stub_ok w s) (some_of [] s []) (stub_main w n s) (\<lambda>_. stub_ok w s)"
proof -
  have early: "some_of [] s [] h \<Longrightarrow> stub_ok w s h" for h by (simp add: stub_ok_def)
  have es: "triple (stub_ok w s) (some_of [] s []) (es_init w n s) (\<lambda>_. some_of [] s [])"
    unfolding es_init_def by (rule some_of_keep[OF launched_open early])
  have known: "triple (stub_ok w s)
      (\<lambda>h. \<exists>h0. (launches (s_title s) h0 = [] \<and> v = version_of (w h0 version_read)) \<and> some_of (version_read # h0) s [] h)
      (next_run (IOS_GetVersion w) (\<lambda>_. load_titles w n s fd v)) (\<lambda>_. stub_ok w s)" for v fd
  proof (rule triple_ex)
    fix h0
    show "triple (stub_ok w s) (\<lambda>h. (launches (s_title s) h0 = [] \<and> v = version_of (w h0 version_read)) \<and> some_of (version_read # h0) s [] h)
      (next_run (IOS_GetVersion w) (\<lambda>_. load_titles w n s fd v)) (\<lambda>_. stub_ok w s)"
    proof (cases "launches (s_title s) h0 = [] \<and> v = version_of (w h0 version_read)")
      case True
      then show ?thesis using load_titles_launches[OF assms, of h0 w n fd] by simp
    next
      case False
      then show ?thesis by (auto simp: triple_def)
    qed
  qed
  show ?thesis
    unfolding stub_main_def
    by (rule triple_next[OF some_of_keep[OF launched_reset early]], assumption, rule triple_next[OF es], rule triple_if,
        rule triple_done, erule early, rule triple_next[OF version_known known])
qed

section \<open>Properties\<close>

text \<open>
  C10: The single message buffer of the stub has one owner at any time, whatever the hardware answers: it is written only while
  no message is with IOS, its address is handed over only after it was written back from the cache, and a result is read
  from it only after IOS has replied to this very message; replies to others are skipped. A message that restarts IOS
  is the exception that needs no reply.
\<close>

theorem stub_message_owner: "sound w (s_ipc s) (snd (stub_main w n s []))"
proof -
  have "idle w (s_ipc s) []" by (simp add: idle_def)
  with stub_main_idle[of w s n] show ?thesis by (rule triple_snd) (rule idle_sound)
qed

text \<open>
  C9: Whatever IOS answers, and however far the stub gets, the titles it launches are some of these, in this order: the IOS that
  is running, which is the one of the version word that the stub has read at 0x80003140 when nothing was launched yet (IOS 21,
  if there is none in it), the requested title, the system menu. Each vector that IOS is given lies inside of a variable of the
  stub, also when the number of ticket views comes from IOS.
\<close>

theorem stub_launch_order:
  assumes "s_title s \<noteq> 0" and "s_tikviews s \<noteq> s_title s"
  shows "(launches (s_title s) (snd (stub_main w n s [])) = []
      \<or> (\<exists>h h0. snd (stub_main w n s []) = h @ Invalidate_Data 0x80003140 8 # h0 \<and> launches (s_title s) h0 = []
          \<and> subseq (rev (launches (s_title s) (snd (stub_main w n s []))))
              (map be64_bytes [ios_title (version_of (w h0 (Invalidate_Data 0x80003140 8))), requested_title s, 0x0000000100000002])))
    \<and> vectors_ok s (snd (stub_main w n s []))"
proof -
  have "some_of [] s [] []" by (simp add: some_of_def launched_def vectors_ok_def)
  with stub_main_launches[OF assms, of w n] have "stub_ok w s (snd (stub_main w n s []))" by (rule triple_snd)
  then show ?thesis
    by (auto simp: stub_ok_def some_of_def launched_def stub_titles_def version_read_def suffix_def)
qed

text \<open>Hardware that answers at once, with IOS 58 running and one ticket view for each title.\<close>

definition willing :: hw where
  "willing h e = (case e of Read_Reg r \<Rightarrow> if r = 0x0d000004 then 0x36 else 0x1000
     | Invalidate_Data a k \<Rightarrow> if a = 0x80003140 then 0x003A0000 else 1 | _ \<Rightarrow> 0)"

definition demo_stub :: stub where
  "demo_stub = \<lparr>s_ipc = 0x80001000, s_vecs = 0x80001040, s_title = 0x80001060, s_cntviews = 0x80001080, s_tikviews = 0x800010a0,
     s_dev_es = 0x80001400, s_conf_magic = STUB_MAGIC, s_conf_title = 0x0001000148415858\<rparr>"

lemma willing_launch: "fst (LaunchTitle willing 1 demo_stub 3 0x100000002 []) = Some 0"
  "launches 0x80001060 (snd (LaunchTitle willing 1 demo_stub 3 0x100000002 [])) = [[0, 0, 0, 1, 0, 0, 0, 2]]"
  by code_simp+

lemma willing_main: "launches 0x80001060 (snd (stub_main willing 1 demo_stub []))
  = [[0, 0, 0, 1, 0, 0, 0, 2], [0, 1, 0, 1, 0x48, 0x41, 0x58, 0x58], [0, 0, 0, 1, 0, 0, 0, 58]]"
  by code_simp

theorem stub_launch_order_witness:
  "\<exists>h h0. snd (stub_main willing 1 demo_stub []) = h @ Invalidate_Data 0x80003140 8 # h0
     \<and> launches 0x80001060 (snd (stub_main willing 1 demo_stub []))
       = [[0, 0, 0, 1, 0, 0, 0, 2], [0, 1, 0, 1, 0x48, 0x41, 0x58, 0x58], [0, 0, 0, 1, 0, 0, 0, 58]]
     \<and> subseq (rev (launches 0x80001060 (snd (stub_main willing 1 demo_stub []))))
         (map be64_bytes [ios_title (version_of (willing h0 (Invalidate_Data 0x80003140 8))), requested_title demo_stub, 0x0000000100000002])"
proof -
  have s: "s_title demo_stub = 0x80001060" "s_title demo_stub \<noteq> 0" "s_tikviews demo_stub \<noteq> s_title demo_stub"
    by (simp_all add: demo_stub_def)
  have "launches 0x80001060 (snd (stub_main willing 1 demo_stub [])) \<noteq> []" by (simp only: willing_main) simp
  with stub_launch_order[OF s(2,3), of willing 1] have "\<exists>h h0. snd (stub_main willing 1 demo_stub []) = h @ Invalidate_Data 0x80003140 8 # h0
     \<and> subseq (rev (launches 0x80001060 (snd (stub_main willing 1 demo_stub []))))
         (map be64_bytes [ios_title (version_of (willing h0 (Invalidate_Data 0x80003140 8))), requested_title demo_stub, 0x0000000100000002])"
    unfolding s(1) by blast
  then obtain h h0 where "snd (stub_main willing 1 demo_stub []) = h @ Invalidate_Data 0x80003140 8 # h0"
    "subseq (rev (launches 0x80001060 (snd (stub_main willing 1 demo_stub []))))
         (map be64_bytes [ios_title (version_of (willing h0 (Invalidate_Data 0x80003140 8))), requested_title demo_stub, 0x0000000100000002])"
    by (elim exE conjE)
  then show ?thesis by (intro exI[of _ h] exI[of _ h0] conjI willing_main)
qed

end
