(* ===== verification/Widget_Text.thy ===== *)
theory Widget_Text
  imports View Font
begin

text \<open>
  The widgets with text of \<^verbatim>\<open>channelapp/source/widgets.c\<close>: labels, memos and the progress bar. What \<open>Font\<close> lays out becomes the
  entries of a layer. A memo is wrapped, cut to its frame and scrolled. The layers come from \<^verbatim>\<open>pmalloc\<close>, so they start with
  unknown contents.
\<close>

section \<open>Text as entries\<close>

text \<open>A font with its glyphs, the texture of each, and the colour of the theme.\<close>

record 'e text_font =
  tf_kern :: kern
  tf_glyph :: "u32 \<Rightarrow> font_glyph"
  tf_metrics :: font_metrics
  tf_height :: int
  tf_texture :: "int \<Rightarrow> 'e"
  tf_colour :: u32

definition draw_queue :: "'e text_font \<Rightarrow> queue_entry \<Rightarrow> 'e draw" where
  "draw_queue f e = (case e of Q_Null \<Rightarrow> Draw_Null | Q_Entity cp x y layer \<Rightarrow> Draw_Entity (tf_texture f cp) x y layer (tf_colour f))"

definition text_count :: "'e text_font \<Rightarrow> ratio \<Rightarrow> u8 list \<Rightarrow> int \<Rightarrow> nat" where
  "text_count f ra s max_width = font_get_char_count (tf_kern f) (tf_glyph f) ra s max_width"

definition plot_text :: "'e text_font \<Rightarrow> ratio \<Rightarrow> nat \<Rightarrow> u8 list \<Rightarrow> int \<Rightarrow> int \<Rightarrow> int \<Rightarrow> int \<Rightarrow> font_xalign \<Rightarrow> font_yalign \<Rightarrow> 'e draw list" where
  "plot_text f ra count s x y layer width xalign yalign =
     map (draw_queue f) (fst (font_plot_string (tf_kern f) (tf_glyph f) ra (tf_metrics f) count s x y layer width xalign yalign))"

section \<open>Labels and the progress bar\<close>

text \<open>The flags that a label inverts are not set; \<open>l0\<close> is the unknown layer.\<close>

definition widget_label ::
  "'e text_font \<Rightarrow> ratio \<Rightarrow> 'e widget_layer \<Rightarrow> int \<Rightarrow> int \<Rightarrow> int \<Rightarrow> u8 list \<Rightarrow> int \<Rightarrow> font_xalign \<Rightarrow> font_yalign \<Rightarrow> 'e widget \<Rightarrow> 'e widget" where
  "widget_label f ra l0 x y z caption width xalign yalign w =
     widget_init WT_LABEL False x y z 0 0
       [l0\<lparr>l_flags := 0, l_gfx := plot_text f ra (text_count f ra caption width) caption 0 0 0 width xalign yalign\<rparr>] w"

text \<open>The bar, its percentage and its frame; the bar and the four characters are filled in by \<^verbatim>\<open>widget_set_progress\<close>.\<close>

definition widget_progress ::
  "'e text_font \<Rightarrow> ratio \<Rightarrow> 'e draw \<Rightarrow> 'e entity \<Rightarrow> int \<Rightarrow> int \<Rightarrow> int \<Rightarrow> u8 list \<Rightarrow> 'e widget \<Rightarrow> 'e widget" where
  "widget_progress f ra unknown tex x y z caption w =
     (let chars = text_count f ra caption (en_w tex - 64) in
      widget_init WT_PROGRESS False x y z 0 0
        [\<lparr>l_flags = 0, l_flags_invert = 0, l_gfx = [unknown]\<rparr>,
         \<lparr>l_flags = 0, l_flags_invert = 0, l_gfx = draw_entity tex 1 COL_DEFAULT\<rparr>,
         \<lparr>l_flags = 0, l_flags_invert = 0,
          l_gfx = replicate 4 unknown @ plot_text f ra chars caption 38 19 2 (en_w tex - 64) FA_LEFT FA_EM_CENTERED\<rparr>] w)"

text \<open>The share is a floating-point number: \<open>bar\<close> is the width it gives the bar, \<open>percent\<close> the four characters.\<close>

definition widget_set_progress ::
  "'e text_font \<Rightarrow> ratio \<Rightarrow> 'e entity \<Rightarrow> u32 \<times> u32 \<times> u32 \<times> u32 \<Rightarrow> (u32 \<Rightarrow> int) \<Rightarrow> (u32 \<Rightarrow> u8 list) \<Rightarrow> u32 \<Rightarrow> 'e widget \<Rightarrow> 'e widget" where
  "widget_set_progress f ra tex colours bar percent progress w =
     (case colours of (ul, ur, lr, ll) \<Rightarrow>
        let l0 = w_layers w ! 0; l2 = w_layers w ! 2;
            text = plot_text f ra 4 (percent progress) 32 (en_h tex - 20) 2 (en_w tex - 70) FA_RIGHT FA_EM_CENTERED
        in w\<lparr>w_layers := (w_layers w)[0 := l0\<lparr>l_gfx := [Draw_Gradient 35 35 (bar progress) 42 ul ur lr ll]\<rparr>,
               2 := l2\<lparr>l_gfx := text @ drop 4 (l_gfx l2)\<rparr>]\<rparr>)"

section \<open>Memos\<close>

text \<open>A height that is passed on is cut to 16 bits.\<close>

definition u16_of :: "int \<Rightarrow> int" where "u16_of i = i mod 0x10000"

text \<open>The loop over the lines: the layers, the next of them, and the height so far. An empty line only takes its height.\<close>

definition memo_line ::
  "'e text_font \<Rightarrow> ratio \<Rightarrow> int \<Rightarrow> font_xalign \<Rightarrow> u8 list option \<Rightarrow> 'e widget_layer list \<times> nat \<times> int \<Rightarrow> 'e widget_layer list \<times> nat \<times> int" where
  "memo_line f ra width align line st =
     (case st of (ls, c, oy) \<Rightarrow>
        case line of
          None \<Rightarrow> (ls, c, oy + tf_height f)
        | Some s \<Rightarrow>
            (ls[c := \<lparr>l_flags = 0, l_flags_invert = 0, l_gfx = plot_text f ra (text_count f ra s 0) s 0 oy 0 width align FA_ASCENDER\<rparr>],
             c + 1, oy + tf_height f))"

text \<open>\<open>None\<close>: the wrapping does not return, or the division by the height of a line traps.\<close>

definition widget_memo ::
  "'e text_font \<Rightarrow> ratio \<Rightarrow> 'e widget_layer \<Rightarrow> int \<Rightarrow> int \<Rightarrow> int \<Rightarrow> int \<Rightarrow> int \<Rightarrow> u8 list \<Rightarrow> font_xalign \<Rightarrow> 'e widget \<Rightarrow> 'e widget option" where
  "widget_memo f ra l0 x y z width height text align w0 =
     (case font_wrap_string (tf_kern f) (tf_glyph f) ra text width of
        None \<Rightarrow> None
      | Some lines \<Rightarrow>
          let hf = tf_height f; count = int (length lines);
              c = length (filter (\<lambda>l. l \<noteq> None) lines);
              cl = (height + hf - 1) div hf;
              ot = (if cl > count then (cl - count) div 2 * hf else 0);
              ls0 = (replicate (c + 2) l0)[0 := \<lparr>l_flags = 0, l_flags_invert = 0, l_gfx = [Draw_Scissor x y z width height]\<rparr>]
          in if hf = 0 then None
             else case fold (memo_line f ra width align) lines (ls0, 1, 0) of
               (ls, k, oy) \<Rightarrow>
                 let w = widget_init WT_MEMO False x (s16 (y + ot)) z width height
                           (ls[k := \<lparr>l_flags = 0, l_flags_invert = 0, l_gfx = [Draw_Scissor_Reset]\<rparr>]) w0;
                     w1 = (if int c > cl then w\<lparr>w_cur := CUR_DRAG\<rparr> else w)
                 in Some (w1\<lparr>w_y_max := w_y w1, w_y_min := s16 (w_y w1 - oy + height)\<rparr>))"

text \<open>A memo between two arrows, and at its top.\<close>

definition widget_memo_deco ::
  "'e text_font \<Rightarrow> ratio \<Rightarrow> 'e widget_layer \<Rightarrow> 'e entity \<Rightarrow> 'e entity \<Rightarrow> int \<Rightarrow> int \<Rightarrow> int \<Rightarrow> int \<Rightarrow> int \<Rightarrow> u8 list \<Rightarrow> font_xalign
     \<Rightarrow> 'e widget list \<Rightarrow> 'e widget list option" where
  "widget_memo_deco f ra l0 up down x y z width height text align ws =
     (case widget_memo f ra l0 x (s16 (y + en_h up + 8)) z width (u16_of (height - en_h up - 8 - en_h down - 8)) text align (ws ! 1) of
        None \<Rightarrow> None
      | Some memo \<Rightarrow>
          Some (snd (widget_scroll_memo_deco 0 0
            (ws[0 := widget_image (s16 (x + cdiv (width - en_w up) 2)) y z up None False None (ws ! 0),
                1 := memo,
                2 := widget_image (s16 (x + cdiv (width - en_w down) 2)) (s16 (y + height - en_h down)) z down None False None (ws ! 2)]))))"

section \<open>What a memo shows\<close>

definition text_layer :: "'e text_font \<Rightarrow> ratio \<Rightarrow> int \<Rightarrow> font_xalign \<Rightarrow> int \<Rightarrow> u8 list \<Rightarrow> 'e widget_layer" where
  "text_layer f ra width align oy s =
     \<lparr>l_flags = 0, l_flags_invert = 0, l_gfx = plot_text f ra (text_count f ra s 0) s 0 oy 0 width align FA_ASCENDER\<rparr>"

text \<open>One layer for each line that is not empty, each line below the one before.\<close>

fun line_layers :: "'e text_font \<Rightarrow> ratio \<Rightarrow> int \<Rightarrow> font_xalign \<Rightarrow> int \<Rightarrow> u8 list option list \<Rightarrow> 'e widget_layer list" where
  "line_layers f ra width align oy [] = []"
| "line_layers f ra width align oy (None # ls) = line_layers f ra width align (oy + tf_height f) ls"
| "line_layers f ra width align oy (Some s # ls) = text_layer f ra width align oy s # line_layers f ra width align (oy + tf_height f) ls"

lemma line_layers_length: "length (line_layers f ra width align oy ls) = length (filter (\<lambda>l. l \<noteq> None) ls)"
  by (induction f ra width align oy ls rule: line_layers.induct) simp_all

lemma memo_lines:
  assumes "c + length (line_layers f ra width align oy lines) \<le> length ls"
  shows "fold (memo_line f ra width align) lines (ls, c, oy)
    = (take c ls @ line_layers f ra width align oy lines @ drop (c + length (line_layers f ra width align oy lines)) ls,
       c + length (line_layers f ra width align oy lines), oy + int (length lines) * tf_height f)"
  using assms
proof (induction lines arbitrary: ls c oy)
  case (Cons line lines)
  show ?case
  proof (cases line)
    case None
    then show ?thesis using Cons by (simp add: memo_line_def algebra_simps)
  next
    case (Some s)
    let ?l = "text_layer f ra width align oy s"
    have c: "c < length ls" using Cons.prems Some by simp
    have "memo_line f ra width align line (ls, c, oy) = (ls[c := ?l], c + 1, oy + tf_height f)"
      by (simp add: memo_line_def text_layer_def Some)
    moreover have "take (c + 1) (ls[c := ?l]) = take c ls @ [?l]" using c by (simp add: take_Suc_conv_app_nth)
    ultimately show ?thesis using Cons.IH[of "c + 1" "oy + tf_height f" "ls[c := ?l]"] Cons.prems Some
      by (simp add: algebra_simps)
  qed
qed simp

text \<open>The entries of a line are those counted for it.\<close>

lemma plot_text_length:
  "length (plot_text f ra (text_count f ra s max_width) s x y layer width xalign yalign) = text_count f ra s max_width"
  unfolding plot_text_def text_count_def length_map by (rule plot_string_fills[OF refl, THEN conjunct1])

text \<open>With at least one layer before the loop and one behind it, the loop fills those between.\<close>

lemma memo_loop:
  "fold (memo_line f ra width align) lines ((replicate (length (filter (\<lambda>l. l \<noteq> None) lines) + 2) l0)[0 := a], 1, 0)
    = (a # line_layers f ra width align 0 lines @ [l0], 1 + length (line_layers f ra width align 0 lines), int (length lines) * tf_height f)"
proof -
  let ?n = "length (filter (\<lambda>l. l \<noteq> None) lines)"
  have "drop (1 + ?n) ((replicate (?n + 2) l0)[0 := a]) = drop (1 + ?n) (replicate (?n + 2) l0)" by (rule drop_update_cancel) simp
  then have "drop (1 + ?n) ((replicate (?n + 2) l0)[0 := a]) = [l0]" by (simp only: drop_replicate) simp
  then show ?thesis by (subst memo_lines) (simp_all add: line_layers_length)
qed

lemma s16_fits: "i \<in> {- 0x8000..<0x8000} \<Longrightarrow> s16 i = i"
  unfolding s16_def by (rule signed_take_bit_int_eq_self) simp_all

lemma widget_memo_wrapped:
  assumes "font_wrap_string (tf_kern f) (tf_glyph f) ra text width = Some lines" and "tf_height f \<noteq> 0"
  shows "\<exists>w. widget_memo f ra l0 x y z width height text align w0 = Some w
    \<and> w_layers w = \<lparr>l_flags = 0, l_flags_invert = 0, l_gfx = [Draw_Scissor x y z width height]\<rparr>
        # line_layers f ra width align 0 lines @ [\<lparr>l_flags = 0, l_flags_invert = 0, l_gfx = [Draw_Scissor_Reset]\<rparr>]
    \<and> w_y_max w = w_y w \<and> w_y_min w = s16 (w_y w - int (length lines) * tf_height f + height)"
  unfolding widget_memo_def Let_def assms(1) option.case if_not_P[OF assms(2)] memo_loop prod.case
  by (simp add: widget_init_def nth_append list_update_append)

section \<open>Properties\<close>



section \<open>Memos that are too high\<close>

text \<open>
  The ends of the range are 16 bits wide: a memo whose lower end does not fit is left with the ends swapped, and cannot be
  scrolled at all.
\<close>

lemma memo_too_high:
  assumes "font_wrap_string (tf_kern f) (tf_glyph f) ra text width = Some lines" and "tf_height f \<noteq> 0"
    and "widget_memo f ra l0 x y z width height text align w0 = Some w"
    and "w_y w - int (length lines) * tf_height f + height < - 0x8000"
    and "int (length lines) * tf_height f - height \<le> 0x10000" and "- 0x8000 \<le> w_y w"
  shows "widget_scroll_memo m w = (False, w)"
proof -
  let ?v = "w_y w - int (length lines) * tf_height f + height"
  from widget_memo_wrapped[OF assms(1,2), of l0 x y z height align w0] assms(3) have w: "w_y_max w = w_y w" "w_y_min w = s16 ?v"
    by auto
  have "s16 ?v = s16 (?v + 0x10000)" by (simp add: s16_def signed_take_bit_eq_iff_take_bit_eq take_bit_eq_mod)
  also have "\<dots> = ?v + 0x10000" using assms(4-6) by (intro s16_fits) auto
  finally show ?thesis using w assms(5) by (auto simp: widget_scroll_memo_def Let_def)
qed

end
