(* ===== verification/Dialogs.thy ===== *)
theory Dialogs
  imports Widget_Text
begin

text \<open>
  The dialogs of \<^verbatim>\<open>channelapp/source/dialogs.c\<close>: how they are built from the widgets, and the loops that ask the user. The fonts,
  the pictures of the theme and the translated texts are parameters, and so are the sines by which a dialog moves in and out.
  A frame of a loop takes what \<^verbatim>\<open>controls_scan\<close> and \<^verbatim>\<open>controls_sticky\<close> answer in it.
\<close>

section \<open>What dialogs are built from\<close>

datatype dialog_message_type = DLGMT_INFO | DLGMT_CONFIRM | DLGMT_WARNING | DLGMT_ERROR | DLGMT_SYSINFO

datatype dialog_message_buttons = DLGB_OK | DLGB_OKCANCEL | DLGB_YESNO | DLGB_NONE

text \<open>\<open>d_unknown\<close>: what a new entry of a layer holds before it is filled; \<open>d_layer\<close>: a new layer.\<close>

record 'e dialog_env =
  d_title :: "'e text_font"
  d_title_height :: int
  d_memo :: "'e text_font"
  d_label :: "'e text_font"
  d_ratio :: ratio
  d_layer :: "'e widget_layer"
  d_unknown :: "'e draw"
  d_dialog :: "'e entity"
  d_about :: "'e entity"
  d_info :: "'e entity"
  d_confirm :: "'e entity"
  d_warning :: "'e entity"
  d_error :: "'e entity"
  d_small :: "'e entity"
  d_small_focus :: "'e entity"
  d_tiny :: "'e entity"
  d_tiny_focus :: "'e entity"
  d_progress :: "'e entity"
  d_up :: "'e entity"
  d_down :: "'e entity"
  d_view_width :: int
  d_view_height :: int
  caption_info :: "u8 list"
  caption_confirm :: "u8 list"
  caption_warning :: "u8 list"
  caption_error :: "u8 list"
  caption_sysinfo :: "u8 list"
  caption_options :: "u8 list"
  caption_device :: "u8 list"
  caption_sort_by :: "u8 list"
  caption_ok :: string
  caption_cancel :: string
  caption_yes :: string
  caption_no :: string
  caption_delete :: string
  caption_load :: string
  caption_back :: string
  caption_device_names :: "string list"
  caption_sorts :: "string list"

definition TEX_LAYER_DIALOGS :: int where "TEX_LAYER_DIALOGS = 30"
definition DIALOG_MASK_COLOR :: u32 where "DIALOG_MASK_COLOR = 0x101010a0"

text \<open>A new dialog, in the middle of the screen.\<close>

definition dialog_view :: "'e dialog_env \<Rightarrow> nat \<Rightarrow> int \<Rightarrow> int \<Rightarrow> u32 \<Rightarrow> 'e view" where
  "dialog_view env count w y drag = view_new count (s16 (cdiv (d_view_width env - w) 2)) y TEX_LAYER_DIALOGS drag"

definition put :: "nat \<Rightarrow> ('e widget \<Rightarrow> 'e widget) \<Rightarrow> 'e widget list \<Rightarrow> 'e widget list" where
  "put i f ws = ws[i := f (ws ! i)]"

text \<open>A memo with its arrows, at \<open>i\<close>, \<open>i + 1\<close> and \<open>i + 2\<close>.\<close>

definition put_memo ::
  "'e dialog_env \<Rightarrow> nat \<Rightarrow> int \<Rightarrow> int \<Rightarrow> int \<Rightarrow> int \<Rightarrow> int \<Rightarrow> u8 list \<Rightarrow> font_xalign \<Rightarrow> 'e widget list \<Rightarrow> 'e widget list option" where
  "put_memo env i x y z width height text align ws =
     map_option (\<lambda>ms. take i ws @ ms @ drop (i + 3) ws)
       (widget_memo_deco (d_memo env) (d_ratio env) (d_layer env) (d_up env) (d_down env) x y z width height text align
         (take 3 (drop i ws)))"

section \<open>Messages\<close>

definition message_count :: "dialog_message_buttons \<Rightarrow> nat" where
  "message_count buttons = (case buttons of DLGB_OK \<Rightarrow> 7 | DLGB_OKCANCEL \<Rightarrow> 8 | DLGB_YESNO \<Rightarrow> 8 | DLGB_NONE \<Rightarrow> 6)"

definition message_title :: "'e dialog_env \<Rightarrow> dialog_message_type \<Rightarrow> u8 list \<times> 'e entity" where
  "message_title env type =
     (case type of
        DLGMT_INFO \<Rightarrow> (caption_info env, d_info env)
      | DLGMT_CONFIRM \<Rightarrow> (caption_confirm env, d_confirm env)
      | DLGMT_WARNING \<Rightarrow> (caption_warning env, d_warning env)
      | DLGMT_ERROR \<Rightarrow> (caption_error env, d_error env)
      | DLGMT_SYSINFO \<Rightarrow> (caption_sysinfo env, d_info env))"

definition message_captions :: "'e dialog_env \<Rightarrow> dialog_message_buttons \<Rightarrow> string option \<times> string option" where
  "message_captions env buttons =
     (case buttons of
        DLGB_OK \<Rightarrow> (Some (caption_ok env), None)
      | DLGB_OKCANCEL \<Rightarrow> (Some (caption_ok env), Some (caption_cancel env))
      | DLGB_YESNO \<Rightarrow> (Some (caption_yes env), Some (caption_no env))
      | DLGB_NONE \<Rightarrow> (None, None))"

text \<open>The picture of the dialog, its icon and its title, at 0, 1 and 2.\<close>

definition message_head :: "'e dialog_env \<Rightarrow> dialog_message_type \<Rightarrow> 'e widget list \<Rightarrow> 'e widget list" where
  "message_head env type ws =
     (case message_title env type of
        (caption, icon) \<Rightarrow>
          put 2 (widget_label (d_title env) (d_ratio env) (d_layer env) 32 32 1 caption (u16_of (en_w (d_dialog env) - 64)) FA_CENTERED FA_ASCENDER)
            (put 1 (widget_image 128 24 0 icon None False None) (put 0 (widget_image 0 0 0 (d_dialog env) None False None) ws)))"

text \<open>One or two buttons, at 6 and 7.\<close>

definition message_foot :: "'e dialog_env \<Rightarrow> dialog_message_buttons \<Rightarrow> int \<Rightarrow> 'e widget list \<Rightarrow> 'e widget list" where
  "message_foot env buttons yb ws =
     (case message_captions env buttons of
        (b1, b2) \<Rightarrow>
          let w = en_w (d_dialog env); bw = en_w (d_small env);
              gap = (if b2 \<noteq> None then u16_of (cdiv (w - bw * 2) 3) else u16_of (cdiv (w - bw) 2));
              ws1 = (if b1 \<noteq> None then put 6 (widget_button (s16 gap) (s16 yb) 1 (d_small env) (d_small_focus env) b1) ws else ws)
          in if b2 \<noteq> None then put 7 (widget_button (s16 (u16_of (gap + gap + bw))) (s16 yb) 1 (d_small env) (d_small_focus env) b2) ws1
             else ws1)"

definition dialog_message ::
  "'e dialog_env \<Rightarrow> libogc \<Rightarrow> dialog_message_type \<Rightarrow> dialog_message_buttons \<Rightarrow> u8 list \<Rightarrow> nat \<Rightarrow> 'e view option" where
  "dialog_message env lo type buttons text focus =
     (let v = dialog_view env (message_count buttons) (en_w (d_dialog env)) 44 (PADS_B lo);
          hf = d_title_height env mod 256;
          yb = u16_of (en_h (d_dialog env) - 32 - (if buttons \<noteq> DLGB_NONE then en_h (d_small env) else 0));
          ym = u16_of (32 + hf + 8); hm = u16_of (yb - ym - 8)
      in map_option
           (\<lambda>ws. view_set_focus (if buttons \<noteq> DLGB_NONE then 6 + int focus else - 1) (v\<lparr>v_widgets := message_foot env buttons yb ws\<rparr>))
           (put_memo env 3 32 (s16 ym) 1 (u16_of (en_w (d_dialog env) - 64)) hm text FA_CENTERED (message_head env type (v_widgets v))))"

section \<open>Moving in and out\<close>

text \<open>\<open>ys\<close>: the floating-point heights; the colour that shades what is below changes by \<open>stepa\<close> in each frame, which
  as an 8-bit number is not negative when the dialog moves out.\<close>

definition dialog_fade :: "bool \<Rightarrow> (nat \<Rightarrow> int) \<Rightarrow> (nat \<Rightarrow> controls) \<Rightarrow> 'e view list \<Rightarrow> 'e view \<times> screen \<Rightarrow> 'e view \<times> screen" where
  "dialog_fade fade_in ys ctl below st =
     (let c0 = (if fade_in then DIALOG_MASK_COLOR AND 0xffffff00 else DIALOG_MASK_COLOR);
          stepa = (if fade_in then 160 div 15 :: nat else 256 - 160 div 15)
      in fold (\<lambda>i (v, sc).
           let fr = view_plot sc (ctl i) (c0 + of_nat ((i + 1) * stepa)) below (v\<lparr>v_y := s16 (ys i)\<rparr>)
           in (fr_view fr, fr_screen fr)) [0..<15] st)"

section \<open>Asking\<close>

record message_input =
  mi_ctl :: controls
  mi_sticky :: int

definition tapped :: "controls \<Rightarrow> (libogc \<Rightarrow> u32) \<Rightarrow> bool" where
  "tapped c m \<longleftrightarrow> c_down c AND m (c_lo c) \<noteq> 0"

text \<open>\<open>fhw\<close>: the height of a line.\<close>

definition scroll_amount :: "int \<Rightarrow> message_input \<Rightarrow> 'e view \<Rightarrow> int" where
  "scroll_amount fhw i v =
     s16 ((if tapped (mi_ctl i) PADS_UP then fhw else 0) - (if tapped (mi_ctl i) PADS_DOWN then fhw else 0) + cdiv (mi_sticky i) 8
       + (if v_drag v \<and> v_drag_widget v = 4 then cdiv (- v_drag_y v) 32 else 0))"

definition message_frame ::
  "dialog_message_buttons \<Rightarrow> int \<Rightarrow> 'e view list \<Rightarrow> message_input \<Rightarrow> 'e view \<times> screen \<Rightarrow> bool \<times> 'e view \<times> screen" where
  "message_frame buttons fhw below i st =
     (case st of (v, sc) \<Rightarrow>
        let fr = view_plot sc (mi_ctl i) DIALOG_MASK_COLOR below v;
            v1 = (if tapped (mi_ctl i) PADS_LEFT then view_set_focus_prev (fr_view fr) else fr_view fr);
            v2 = (if tapped (mi_ctl i) PADS_RIGHT then view_set_focus_next v1 else v1);
            v3 = v2\<lparr>v_widgets := snd (widget_scroll_memo_deco 3 (scroll_amount fhw i v2) (v_widgets v2))\<rparr>
        in (tapped (mi_ctl i) PADS_A \<and> v_focus v3 \<noteq> - 1 \<or> tapped (mi_ctl i) PADS_B \<and> buttons = DLGB_NONE, v3, fr_screen fr))"

text \<open>The loop over the frames: the answer, and how many frames it took. \<open>None\<close>: it is still being asked.\<close>

fun message_loop ::
  "dialog_message_buttons \<Rightarrow> int \<Rightarrow> 'e view list \<Rightarrow> message_input list \<Rightarrow> 'e view \<times> screen \<Rightarrow> (int \<times> nat \<times> 'e view \<times> screen) option" where
  "message_loop buttons fhw below [] st = None"
| "message_loop buttons fhw below (i # is) st =
     (case message_frame buttons fhw below i st of
        (closed, v, sc) \<Rightarrow>
          if closed then Some (if buttons \<noteq> DLGB_NONE then s8 (v_focus v - 6) else 0, 1, v, sc)
          else map_option (\<lambda>(res, n, r). (res, n + 1, r)) (message_loop buttons fhw below is (v, sc)))"

text \<open>\<open>ys\<close> and \<open>ctl\<close> with the first argument \<open>True\<close> are those of the moving in.\<close>

definition show_message ::
  "'e dialog_env \<Rightarrow> libogc \<Rightarrow> dialog_message_type \<Rightarrow> dialog_message_buttons \<Rightarrow> u8 list \<Rightarrow> nat
     \<Rightarrow> (bool \<Rightarrow> nat \<Rightarrow> int) \<Rightarrow> (bool \<Rightarrow> nat \<Rightarrow> controls) \<Rightarrow> 'e view list \<Rightarrow> message_input list \<Rightarrow> screen \<Rightarrow> (int \<times> nat \<times> screen) option" where
  "show_message env lo type buttons text focus ys ctl below is sc =
     Option.bind (dialog_message env lo type buttons text focus) (\<lambda>v.
     Option.bind (message_loop buttons (tf_height (d_memo env) mod 256) below is (dialog_fade True (ys True) (ctl True) below (v, sc)))
       (\<lambda>(res, n, v', sc'). Some (res, n, snd (dialog_fade False (ys False) (ctl False) below (v', sc')))))"

section \<open>The other dialogs\<close>

text \<open>What is shown of an application.\<close>

record 'e app_info =
  ai_dirname :: "u8 list"
  ai_icon :: "'e entity option"
  ai_meta :: bool
  ai_name :: "u8 list option"
  ai_coder :: "u8 list option"
  ai_version :: "u8 list option"
  ai_description :: "u8 list option"

text \<open>
  \<open>l_coder\<close> and \<open>l_version\<close> are what \<^verbatim>\<open>snprintf\<close> makes of the translated formats; 64 bytes with the NUL are kept.
  \<open>nodesc\<close>: the text for applications without a description.
\<close>

definition dialog_app ::
  "'e dialog_env \<Rightarrow> libogc \<Rightarrow> (u8 list \<Rightarrow> u8 list) \<Rightarrow> (u8 list \<Rightarrow> u8 list) \<Rightarrow> u8 list \<Rightarrow> 'e app_info \<Rightarrow> 'e view option" where
  "dialog_app env lo l_coder l_version nodesc entry =
     (let w = en_w (d_dialog env); tw = en_w (d_tiny env);
          field = (\<lambda>f. if ai_meta entry then f entry else None);
          name = (case field ai_name of Some n \<Rightarrow> n | None \<Rightarrow> ai_dirname entry);
          coder = (case field ai_coder of Some c \<Rightarrow> take 63 (l_coder c) | None \<Rightarrow> []);
          version = (case field ai_version of Some c \<Rightarrow> take 63 (l_version c) | None \<Rightarrow> []);
          desc = (case field ai_description of Some d \<Rightarrow> d | None \<Rightarrow> nodesc);
          v = dialog_view env 11 w 44 (PADS_B lo);
          label = (\<lambda>f x y s width xa ya. widget_label f (d_ratio env) (d_layer env) x y 1 s width xa ya);
          ws1 = put 1 (label (d_title env) 32 16 name (u16_of (w - 64)) FA_CENTERED FA_ASCENDER)
                  (put 0 (widget_image 0 0 0 (d_dialog env) None False None) (v_widgets v));
          ws2 = (case ai_icon entry of Some e \<Rightarrow> put 2 (widget_image 32 48 1 e None False None) ws1 | None \<Rightarrow> ws1);
          ws3 = put 4 (label (d_label env) (48 + 128) 72 coder (u16_of (w - 72 - 128)) FA_LEFT FA_ASCENDER)
                  (put 3 (label (d_label env) (48 + 128) 72 version (u16_of (w - 72 - 128)) FA_LEFT FA_DESCENDER) ws2);
          yb = u16_of (en_h (d_dialog env) - en_h (d_tiny env) - 16);
          ym = 48 + 48 + 8; hm = u16_of (yb - ym - 8);
          gap = u16_of (cdiv (w - tw * 3) 4);
          x1 = gap; x2 = u16_of (x1 + gap + tw); x3 = u16_of (x2 + gap + tw);
          button = (\<lambda>x c. widget_button (s16 x) (s16 yb) 1 (d_tiny env) (d_tiny_focus env) (Some c))
      in map_option (\<lambda>ws.
           view_set_focus 10 (v\<lparr>v_widgets := put 10 (button x3 (caption_back env)) (put 9 (button x2 (caption_load env))
             (put 8 (button x1 (caption_delete env)) ws))\<rparr>))
           (put_memo env 5 32 ym 1 (u16_of (w - 64)) hm desc FA_LEFT ws3))"

definition dialog_progress ::
  "'e dialog_env \<Rightarrow> u32 \<times> u32 \<times> u32 \<times> u32 \<Rightarrow> (u32 \<Rightarrow> int) \<Rightarrow> (u32 \<Rightarrow> u8 list) \<Rightarrow> u8 list \<Rightarrow> 'e view" where
  "dialog_progress env colours bar percent caption =
     (let v = dialog_view env 1 (en_w (d_progress env)) (s16 (cdiv (d_view_height env - en_h (d_progress env)) 2)) 0
      in v\<lparr>v_widgets := put 0 (widget_set_progress (d_label env) (d_ratio env) (d_progress env) colours bar percent 0
            \<circ> widget_progress (d_label env) (d_ratio env) (d_unknown env) (d_progress env) 0 0 0 caption) (v_widgets v)\<rparr>)"

definition dialog_set_progress ::
  "'e dialog_env \<Rightarrow> u32 \<times> u32 \<times> u32 \<times> u32 \<Rightarrow> (u32 \<Rightarrow> int) \<Rightarrow> (u32 \<Rightarrow> u8 list) \<Rightarrow> u32 \<Rightarrow> 'e view \<Rightarrow> 'e view" where
  "dialog_set_progress env colours bar percent progress v =
     v\<lparr>v_widgets := put 0 (widget_set_progress (d_label env) (d_ratio env) (d_progress env) colours bar percent progress) (v_widgets v)\<rparr>"

text \<open>The text of the credits, and the buffer that \<^verbatim>\<open>dialogs_theme_reinit\<close> allocates for it.\<close>

record credits =
  about_pre :: "u8 list"
  about_post :: "u8 list"
  about_trans :: "u8 list"
  about_theme :: "u8 list"

definition about_size :: "credits \<Rightarrow> nat" where
  "about_size c = length (about_pre c) + length (about_post c) + length (about_trans c) + length (about_theme c) + 128"

definition about_text :: "credits \<Rightarrow> u8 list option \<Rightarrow> u8 list" where
  "about_text c description =
     about_pre c
     @ (if about_trans c \<noteq> [] then [10, 10] @ about_trans c else [])
     @ (case description of Some d \<Rightarrow> if d \<noteq> [] then [10, 10] @ about_theme c @ [32] @ d else [] | None \<Rightarrow> [])
     @ [10, 10] @ about_post c"

definition dialog_about :: "'e dialog_env \<Rightarrow> credits \<Rightarrow> u8 list option \<Rightarrow> 'e view option" where
  "dialog_about env c description =
     (let w = en_w (d_dialog env);
          v = dialog_view env 3 w 44 0;
          ws = put 1 (widget_image (s16 (cdiv (w - en_w (d_about env)) 2)) 16 1 (d_about env) None False None)
                 (put 0 (widget_image 0 0 0 (d_dialog env) None False None) (v_widgets v));
          yb = u16_of (en_h (d_dialog env) - 16); ym0 = u16_of (16 + en_h (d_about env) + 8);
          hm0 = u16_of (yb - ym0 - 8); hf = tf_height (d_memo env) mod 256;
          l = (hm0 div hf) mod 256; hmn = u16_of (l * hf);
          ym = (if hmn < hm0 then u16_of (ym0 + (hm0 - hmn) div 2) else ym0);
          hm = (if hmn < hm0 then hmn else hm0)
      in if hf = 0 then None
         else map_option (\<lambda>m. v\<lparr>v_widgets := ws[2 := m\<lparr>w_cur := CUR_STD\<rparr>]\<rparr>)
           (widget_memo (d_memo env) (d_ratio env) (d_layer env) 32 (s16 ym) 1 (u16_of (w - 64)) hm (about_text c description) FA_CENTERED (ws ! 2)))"

text \<open>The descriptions of themes have at most 64 bytes.\<close>

lemma about_fits:
  assumes "\<forall>d. description = Some d \<longrightarrow> length d \<le> 64"
  shows "length (about_text c description) + 1 \<le> about_size c"
  using assms by (auto simp: about_text_def about_size_def split: option.split)


section \<open>Options\<close>

datatype button_font = FONT_BUTTON | FONT_BUTTON_DESEL

text \<open>The sort order by its number: name, date, size.\<close>

record dialog_options_result =
  or_confirmed :: bool
  or_device :: int
  or_sort :: int

text \<open>The view, the fonts of the captions of its widgets, the result, the frames and the polls of the devices.\<close>

record 'e options =
  o_view :: "'e view"
  o_fonts :: "button_font list"
  o_ret :: dialog_options_result
  o_frame :: nat
  o_polls :: nat

definition WIDGET_OPTIONS_SORT_NAME :: int where "WIDGET_OPTIONS_SORT_NAME = 8"
definition WIDGET_OPTIONS_SORT_DATE :: int where "WIDGET_OPTIONS_SORT_DATE = 9"
definition WIDGET_OPTIONS_SORT_SIZE :: int where "WIDGET_OPTIONS_SORT_SIZE = 10"
definition WIDGET_OPTIONS_CAPTION_OK :: int where "WIDGET_OPTIONS_CAPTION_OK = 11"
definition WIDGET_OPTIONS_CAPTION_BACK :: int where "WIDGET_OPTIONS_CAPTION_BACK = 12"
definition DLG_DEV_FIRST :: int where "DLG_DEV_FIRST = 4"

lemmas options_consts = WIDGET_OPTIONS_SORT_NAME_def WIDGET_OPTIONS_SORT_DATE_def WIDGET_OPTIONS_SORT_SIZE_def
  WIDGET_OPTIONS_CAPTION_OK_def WIDGET_OPTIONS_CAPTION_BACK_def DLG_DEV_FIRST_def

definition on_widget :: "nat \<Rightarrow> ('e widget \<Rightarrow> 'e widget) \<Rightarrow> 'e options \<Rightarrow> 'e options" where
  "on_widget i f q = q\<lparr>o_view := (o_view q)\<lparr>v_widgets := put i f (v_widgets (o_view q))\<rparr>\<rparr>"

definition set_caption :: "'e entity \<Rightarrow> nat \<Rightarrow> button_font \<Rightarrow> string \<Rightarrow> 'e options \<Rightarrow> 'e options" where
  "set_caption tex i font caption q =
     (on_widget i (widget_button_set_caption (en_w tex) (en_h tex) (Some caption)) q)\<lparr>o_fonts := (o_fonts q)[i := font]\<rparr>"

text \<open>The button of a device; there is none, and no name for it, unless the number is one of the four.\<close>

definition set_device_caption :: "'e dialog_env \<Rightarrow> int \<Rightarrow> button_font \<Rightarrow> 'e options \<Rightarrow> 'e options option" where
  "set_device_caption env d font q =
     (if 0 \<le> d \<and> d < 4
      then Some (set_caption (d_small env) (nat (DLG_DEV_FIRST + d)) font (caption_device_names env ! nat d) q) else None)"

text \<open>The captions of the orders, with \<open>k\<close> selected.\<close>

definition set_sort_captions :: "'e dialog_env \<Rightarrow> int \<Rightarrow> 'e options \<Rightarrow> 'e options" where
  "set_sort_captions env k q =
     fold (\<lambda>j. set_caption (d_tiny env) (8 + j) (if k = int j then FONT_BUTTON else FONT_BUTTON_DESEL) (caption_sorts env ! j)) [0..<3] q"

definition set_status :: "bool list \<Rightarrow> 'e options \<Rightarrow> 'e options" where
  "set_status status q = fold (\<lambda>i. on_widget (4 + i) (widget_set_flag WF_ENABLED (status ! i))) [0..<4] q"

text \<open>\<open>ret0\<close>, \<open>device0\<close>, \<open>status0\<close>: what is on the stack, since nothing is stored there before it is used.\<close>

definition options_new ::
  "'e dialog_env \<Rightarrow> libogc \<Rightarrow> dialog_options_result \<Rightarrow> int \<Rightarrow> bool list \<Rightarrow> 'e options" where
  "options_new env lo ret0 device0 status0 =
     (let w = en_w (d_dialog env); sw = en_w (d_small env);
          label = (\<lambda>f x y s xa ya. widget_label f (d_ratio env) (d_layer env) x y 1 s (u16_of (w - 64)) xa ya);
          small = (\<lambda>x y c. widget_button x y 1 (d_small env) (d_small_focus env) c);
          tiny = (\<lambda>x y. widget_button x y 1 (d_tiny env) (d_tiny_focus env) None);
          yb = s16 (en_h (d_dialog env) - en_h (d_small env) - 16);
          v = dialog_view env 13 w 44 (PADS_B lo);
          ws1 = put 3 (label (d_label env) 32 212 (caption_sort_by env) FA_LEFT FA_DESCENDER)
                 (put 2 (label (d_label env) 32 60 (caption_device env) FA_LEFT FA_DESCENDER)
                 (put 1 (label (d_title env) 32 16 (caption_options env) FA_CENTERED FA_ASCENDER)
                 (put 0 (widget_image 0 0 0 (d_dialog env) None False None) (v_widgets v))));
          ws2 = put 7 (small 268 128 None) (put 6 (small 52 128 None) (put 5 (small 268 64 None) (put 4 (small 52 64 None) ws1)));
          ws3 = put 10 (tiny 328 216) (put 9 (tiny 190 216) (put 8 (tiny 52 216) ws2));
          ws4 = put 12 (small (s16 (w - sw - 32)) yb (Some (caption_back env))) (put 11 (small 32 yb (Some (caption_ok env))) ws3);
          o1 = \<lparr>o_view = v\<lparr>v_widgets := ws4\<rparr>, o_fonts = replicate 13 FONT_BUTTON, o_ret = ret0, o_frame = 0, o_polls = 1\<rparr>;
          o2 = set_status status0 (fold (\<lambda>i. set_caption (d_small env) (4 + i) (if int i = device0 then FONT_BUTTON else FONT_BUTTON_DESEL)
                 (caption_device_names env ! i)) [0..<4] o1);
          o3 = set_sort_captions env (if or_sort ret0 \<in> {1, 2} then or_sort ret0 else 0) o2
      in o3\<lparr>o_view := view_set_focus WIDGET_OPTIONS_CAPTION_BACK (o_view o3)\<rparr>)"

record options_input =
  oi_ctl :: controls
  oi_status :: "bool list"
  oi_left_first :: bool

text \<open>
  By two buttons, or by four if this does not move. Whether the focus is read before or after the call is up to the compiler;
  the call returns it as a \<^verbatim>\<open>u8\<close>.
\<close>

definition move_far :: "bool \<Rightarrow> int \<Rightarrow> 'e view \<Rightarrow> 'e view" where
  "move_far left_first m v =
     (let v1 = view_move_focus m v
      in if (if left_first then v_focus v else v_focus v1) = v_focus v1 mod 256 then view_move_focus (2 * m) v1 else v1)"

text \<open>A press of A on the widget with the focus; whether this closes the dialog.\<close>

definition options_press :: "'e dialog_env \<Rightarrow> int \<Rightarrow> 'e options \<Rightarrow> (bool \<times> 'e options) option" where
  "options_press env f q =
     (if DLG_DEV_FIRST \<le> f \<and> f < DLG_DEV_FIRST + 4 then
        Option.bind (set_device_caption env (or_device (o_ret q)) FONT_BUTTON_DESEL q) (\<lambda>o1.
        let o2 = o1\<lparr>o_ret := (o_ret o1)\<lparr>or_device := f - DLG_DEV_FIRST\<rparr>\<rparr>
        in map_option (Pair False) (set_device_caption env (or_device (o_ret o2)) FONT_BUTTON o2))
      else if f = WIDGET_OPTIONS_SORT_NAME \<or> f = WIDGET_OPTIONS_SORT_DATE \<or> f = WIDGET_OPTIONS_SORT_SIZE then
        Some (False, set_sort_captions env (f - 8) (q\<lparr>o_ret := (o_ret q)\<lparr>or_sort := f - 8\<rparr>\<rparr>))
      else Some (f = WIDGET_OPTIONS_CAPTION_OK \<or> f = WIDGET_OPTIONS_CAPTION_BACK, q))"

definition options_frame ::
  "'e dialog_env \<Rightarrow> 'e view list \<Rightarrow> options_input \<Rightarrow> 'e options \<times> screen \<Rightarrow> (bool \<times> 'e options \<times> screen) option" where
  "options_frame env below i st =
     (case st of (o0, sc) \<Rightarrow>
        let o1 = set_status (oi_status i) o0; c = oi_ctl i;
            fr = view_plot sc c DIALOG_MASK_COLOR below (o_view o1);
            v1 = (if tapped c PADS_LEFT then view_set_focus_prev (fr_view fr) else fr_view fr);
            v2 = (if tapped c PADS_RIGHT then view_set_focus_next v1 else v1);
            v3 = (if tapped c PADS_UP then move_far (oi_left_first i) (- 2) v2 else v2);
            v4 = (if tapped c PADS_DOWN then move_far (oi_left_first i) 2 v3 else v3);
            o2 = o1\<lparr>o_view := v4, o_frame := o_frame o1 + 1\<rparr>;
            poll = (\<lambda>q. q\<lparr>o_polls := o_polls q + (if o_frame q mod 30 = 0 then 1 else 0)\<rparr>)
        in if tapped c PADS_B \<or> tapped c PADS_1 then Some (True, o2, fr_screen fr)
           else if tapped c PADS_A \<and> v_focus v4 \<noteq> - 1 then
             map_option (\<lambda>(closed, o3). (closed, if closed then o3 else poll o3, fr_screen fr)) (options_press env (v_focus v4) o2)
           else Some (False, poll o2, fr_screen fr))"

text \<open>The result when the dialog was closed in a frame with these buttons.\<close>

definition options_result :: "controls \<Rightarrow> 'e options \<Rightarrow> dialog_options_result" where
  "options_result c q =
     (if tapped c PADS_A \<and> v_focus (o_view q) = WIDGET_OPTIONS_CAPTION_OK then (o_ret q)\<lparr>or_confirmed := True\<rparr> else o_ret q)"

text \<open>\<open>None\<close>: a caption outside of the tables; \<open>Some None\<close>: the frames did not close the dialog.\<close>

fun options_loop ::
  "'e dialog_env \<Rightarrow> 'e view list \<Rightarrow> options_input list \<Rightarrow> 'e options \<times> screen \<Rightarrow> (dialog_options_result \<times> 'e options \<times> screen) option option" where
  "options_loop env below [] st = Some None"
| "options_loop env below (i # is) st =
     Option.bind (options_frame env below i st) (\<lambda>(closed, q, sc).
       if closed then Some (Some (options_result (oi_ctl i) q, q, sc)) else options_loop env below is (q, sc))"

definition show_options_dialog ::
  "'e dialog_env \<Rightarrow> libogc \<Rightarrow> dialog_options_result \<Rightarrow> int \<Rightarrow> bool list \<Rightarrow> (nat \<Rightarrow> int) \<Rightarrow> (nat \<Rightarrow> controls) \<Rightarrow> 'e view list
     \<Rightarrow> options_input list \<Rightarrow> screen \<Rightarrow> dialog_options_result option option" where
  "show_options_dialog env lo ret0 device0 status0 ys ctl below is sc =
     (let q = options_new env lo ret0 device0 status0; (v, sc1) = dialog_fade True ys ctl below (o_view q, sc)
      in map_option (map_option fst) (options_loop env below is (q\<lparr>o_view := v\<rparr>, sc1)))"


section \<open>Which widgets can be chosen\<close>

lemma plain_flags:
  "w_flags (widget_image x y z img None False None w) = 3"
  "w_flags (widget_label f ra l x y z cap width xa ya w) = 3"
  "w_flags (widget_button x y z tex tf c w) = 15"
  by (simp_all add: widget_image_def widget_label_def widget_button_def widget_button_set_caption_def widget_init_def Let_def WF_defs)

lemma bits_3_2: "w_flags w \<in> {2, 3} \<Longrightarrow> \<not> bit (w_flags w) 2 \<and> \<not> bit (w_flags w) 5 \<and> \<not> bit (w_flags w) 6"
  by (auto simp: bit_numeral_rec)

lemma bits_15: "w_flags w = 15 \<Longrightarrow> focusable w \<and> \<not> bit (w_flags w) 5 \<and> \<not> bit (w_flags w) 6"
  by (simp add: focusable_bits bit_numeral_rec)

lemma widget_memo_flags: "widget_memo f ra l x y z width height text align w0 = Some w \<Longrightarrow> w_flags w = 3"
  by (auto simp: widget_memo_def widget_init_def WF_defs Let_def split: option.splits if_splits prod.splits)

lemma memo_deco_flags:
  assumes "widget_memo_deco f ra l up down x y z width height text align ws = Some ms" and "length ws = 3"
  shows "length ms = 3" and "\<forall>j < 3. w_flags (ms ! j) \<in> {2, 3}"
proof -
  have vis: "w_flags (widget_set_flag WF_VISIBLE b w) \<in> {2, 3}" if "w_flags w = 3" for b w
    using that by (simp add: widget_set_flag_def WF_defs)
  have scroll: "w_flags (snd (widget_scroll_memo 0 w)) = w_flags w" for w by (simp add: widget_scroll_memo_def Let_def)
  obtain m where m: "widget_memo f ra l x (s16 (y + en_h up + 8)) z width (u16_of (height - en_h up - 8 - en_h down - 8)) text align (ws ! 1) = Some m"
    using assms(1) by (auto simp: widget_memo_deco_def split: option.splits)
  obtain b m' where s: "widget_scroll_memo 0 m = (b, m')" by fastforce
  have m': "w_flags m' = 3" using scroll[of m] s widget_memo_flags[OF m] by simp
  obtain a b c where ws: "ws = [a, b, c]" using assms(2) by (auto simp: numeral_3_eq_3 length_Suc_conv)
  have ms: "ms = [widget_set_flag WF_VISIBLE (w_y m' < w_y_max m') (widget_image (s16 (x + cdiv (width - en_w up) 2)) y z up None False None a), m',
      widget_set_flag WF_VISIBLE (w_y m' > w_y_min m') (widget_image (s16 (x + cdiv (width - en_w down) 2)) (s16 (y + height - en_h down)) z down None False None c)]"
    using assms(1)[unfolded widget_memo_deco_def m option.case] by (simp add: ws widget_scroll_memo_deco_def s numeral_2_eq_2)
  then show "length ms = 3" by simp
  show "\<forall>j < 3. w_flags (ms ! j) \<in> {2, 3}"
  proof -
    have "w_flags (ms ! 0) \<in> {2, 3}" unfolding ms nth_Cons_0 by (rule vis[OF plain_flags(1)])
    moreover have "w_flags (ms ! Suc 0) \<in> {2, 3}" by (simp add: ms m')
    moreover have "w_flags (ms ! Suc (Suc 0)) \<in> {2, 3}" unfolding ms nth_Cons_Suc nth_Cons_0 by (rule vis[OF plain_flags(1)])
    ultimately show ?thesis by (auto simp: numeral_3_eq_3 less_Suc_eq)
  qed
qed

lemma put_memo_flags:
  assumes "put_memo env i x y z width height text align ws = Some ws'" and "i + 3 \<le> length ws"
  shows "length ws' = length ws" and "\<forall>j < length ws. if i \<le> j \<and> j < i + 3 then w_flags (ws' ! j) \<in> {2, 3} else ws' ! j = ws ! j"
proof -
  obtain ms where ms: "widget_memo_deco (d_memo env) (d_ratio env) (d_layer env) (d_up env) (d_down env) x y z width height text align
      (take 3 (drop i ws)) = Some ms" and ws': "ws' = take i ws @ ms @ drop (i + 3) ws"
    using assms(1) by (auto simp: put_memo_def)
  have "length (take 3 (drop i ws)) = 3" using assms(2) by simp
  note m = memo_deco_flags[OF ms this]
  show "length ws' = length ws" using assms(2) m(1) by (simp add: ws')
  show "\<forall>j < length ws. if i \<le> j \<and> j < i + 3 then w_flags (ws' ! j) \<in> {2, 3} else ws' ! j = ws ! j"
  proof (intro allI impI)
    fix j assume "j < length ws"
    consider "j < i" | "i \<le> j" "j < i + 3" | "i + 3 \<le> j" by linarith
    then show "if i \<le> j \<and> j < i + 3 then w_flags (ws' ! j) \<in> {2, 3} else ws' ! j = ws ! j"
    proof cases
      case 2
      then have "ws' ! j = ms ! (j - i)" using assms(2) m(1) by (simp add: ws' nth_append)
      then show ?thesis using 2 m(2) by simp
    qed (use assms(2) m(1) \<open>j < length ws\<close> in \<open>simp_all add: ws' nth_append\<close>)
  qed
qed

text \<open>A message: the buttons, behind the first six widgets, are what can have the focus.\<close>

definition asks :: "nat \<Rightarrow> 'e view \<Rightarrow> bool" where
  "asks n v \<longleftrightarrow> view_ok v \<and> length (v_widgets v) = n
     \<and> (\<forall>j < n. if j < 6 then \<not> bit (w_flags (v_widgets v ! j)) 2 else focusable (v_widgets v ! j))
     \<and> (v_focus v = - 1 \<or> 6 \<le> v_focus v)"

lemma asks_focusable: "asks n v \<Longrightarrow> j < n \<Longrightarrow> focusable (v_widgets v ! j) \<longleftrightarrow> 6 \<le> j"
  by (cases "j < 6") (auto simp: asks_def focusable_bits)

text \<open>What leaves the widgets as they are, but for the focus and the pointer.\<close>

lemma asks_same:
  assumes "asks n v" and "same_widgets v v'" and "view_ok v'" and "v_focus v' = - 1 \<or> 6 \<le> v_focus v'"
  shows "asks n v'"
  using assms by (simp add: asks_def same_widgets_def)

lemma put_simps [simp]: "length (put i f ws) = length ws" "j \<noteq> i \<Longrightarrow> put i f ws ! j = ws ! j" "i < length ws \<Longrightarrow> put i f ws ! i = f (ws ! i)"
  by (simp_all add: put_def)

lemma dialog_message_asks:
  assumes "dialog_message env lo type buttons text focus = Some v" and "buttons \<noteq> DLGB_NONE \<longrightarrow> focus < message_count buttons - 6"
  shows "asks (message_count buttons) v" and "v_focus v = (if buttons \<noteq> DLGB_NONE then 6 + int focus else - 1)"
proof -
  define n where "n = message_count buttons"
  have n: "6 \<le> n" "n \<le> 8" by (simp_all add: n_def message_count_def split: dialog_message_buttons.split)
  obtain v0 ws x y w h yb where v0: "v0 = dialog_view env n (en_w (d_dialog env)) 44 (PADS_B lo)"
      and ws: "put_memo env 3 x y 1 w h text FA_CENTERED (message_head env type (v_widgets v0)) = Some ws"
      and v: "v = view_set_focus (if buttons \<noteq> DLGB_NONE then 6 + int focus else - 1) (v0\<lparr>v_widgets := message_foot env buttons yb ws\<rparr>)"
    using assms(1) unfolding dialog_message_def Let_def n_def by auto
  have len: "length (message_head env type (v_widgets v0)) = n"
    by (simp add: message_head_def v0 dialog_view_def view_new_def split: prod.split)
  note m = put_memo_flags[OF ws, unfolded len]
  have head: "w_flags (message_head env type (v_widgets v0) ! j) = 3" if "j < 3" for j
    using that n by (cases "message_title env type") (auto simp: message_head_def v0 dialog_view_def view_new_def plain_flags less_Suc_eq numeral_3_eq_3 numeral_2_eq_2)
  have low: "w_flags (ws ! j) \<in> {2, 3}" if "j < 6" for j
  proof (cases "j < 3")
    case True
    then have "ws ! j = message_head env type (v_widgets v0) ! j" using m(2) n by auto
    then show ?thesis using head[OF True] by simp
  next
    case False
    then show ?thesis using that m(2)[rule_format, of j] n by simp
  qed
  let ?ws = "message_foot env buttons yb ws"
  have lws: "length ws = n" using m(1) n by simp
  have lfoot: "length ?ws = n" by (simp add: message_foot_def Let_def lws split: prod.split)
  have low': "?ws ! j = ws ! j" if "j < 6" for j
    using that by (cases "message_captions env buttons") (simp add: message_foot_def Let_def)
  have high: "w_flags (?ws ! j) = 15" if "6 \<le> j" "j < n" for j
  proof -
    have "j = 6 \<or> j = 7" using that n by linarith
    then show ?thesis using that(2) lws
      by (elim disjE; cases buttons; simp add: message_foot_def message_captions_def Let_def n_def message_count_def plain_flags)
  qed
  have all: "(if j < 6 then \<not> bit (w_flags (?ws ! j)) 2 else focusable (?ws ! j)) \<and> \<not> bit (w_flags (?ws ! j)) 5 \<and> \<not> bit (w_flags (?ws ! j)) 6" if "j < n" for j
    using bits_3_2[OF low[of j]] low'[of j] bits_15[OF high[of j]] that by (cases "j < 6") auto
  let ?v = "v0\<lparr>v_widgets := ?ws\<rparr>" and ?f = "if buttons \<noteq> DLGB_NONE then 6 + int focus else - 1"
  have f0: "v_focus ?v = - 1" "v_cursor ?v = - 1" by (simp_all add: v0 dialog_view_def view_new_def)
  have ok: "view_ok ?v" unfolding view_ok_def f0 using all n by (simp add: lfoot)
  have f: "- 1 \<le> ?f" "?f < int (length (v_widgets ?v))" using assms(2) n by (auto simp: lfoot n_def)
  note s = view_set_focus_ok[OF ok f]
  show "v_focus v = ?f" unfolding v by (rule s(2))
  have "if j < 6 then \<not> bit (w_flags (v_widgets v ! j)) 2 else focusable (v_widgets v ! j)" if "j < n" for j
    using same_view_set_focus[of ?v ?f] that all[OF that] unfolding v by (simp add: same_widgets_def lfoot)
  then show "asks (message_count buttons) v"
    using s(1,2,3) unfolding asks_def v[symmetric] n_def[symmetric] by (auto simp: lfoot)
qed


lemma dialog_message_built:
  assumes "no_overlong text" and "tf_height (d_memo env) \<noteq> 0"
  shows "\<exists>v. dialog_message env lo type buttons text focus = Some v"
proof -
  have "\<exists>w. widget_memo (d_memo env) (d_ratio env) (d_layer env) x y z width height text align w0 = Some w" for x y z width height align w0
    by (rule wrapped_lines[OF assms(1)]) (use widget_memo_wrapped[OF _ assms(2)] in blast)
  then have "\<exists>ms. widget_memo_deco (d_memo env) (d_ratio env) (d_layer env) (d_up env) (d_down env) x y z width height text align ws = Some ms"
    for x y z width height align ws
    unfolding widget_memo_deco_def by (metis (no_types, lifting) option.case(2))
  then show ?thesis by (simp add: dialog_message_def put_memo_def Let_def)
qed

section \<open>The loop of a message\<close>

lemma asks_plot: "asks n v \<Longrightarrow> asks n (fr_view (view_plot sc c alpha below v))"
proof -
  assume a: "asks n v"
  then have ok: "view_ok v" by (simp add: asks_def)
  note p = view_plot_view[OF ok, of sc c alpha below, unfolded Let_def]
  have w: "view_widget_at_xy v x y = - 1 \<or> 0 \<le> view_widget_at_xy v x y \<and> view_widget_at_xy v x y < int n" for x y
    using view_widget_at_xy_range[OF ok] a by (simp add: asks_def)
  have "6 \<le> f" if "f \<noteq> - 1" "focusable (v_widgets v ! nat f)" "f = - 1 \<or> 0 \<le> f \<and> f < int n" for f
  proof -
    have "nat f < n" "0 \<le> f" using that by auto
    then have "6 \<le> nat f" using asks_focusable[OF a] that(2) by blast
    then show ?thesis by linarith
  qed
  with w a have "v_focus (fr_view (view_plot sc c alpha below v)) = - 1 \<or> 6 \<le> v_focus (fr_view (view_plot sc c alpha below v))"
    unfolding p(2) by (auto simp: asks_def)
  with a p(1) show ?thesis by (intro asks_same[OF a same_view_plot])
qed

lemma found_high:
  assumes "asks n v" and "\<forall>j \<in> set js. j < n"
  shows "(case find (\<lambda>j. focusable (v_widgets v ! j)) js of None \<Rightarrow> v_focus v | Some j \<Rightarrow> int j) = - 1
    \<or> 6 \<le> (case find (\<lambda>j. focusable (v_widgets v ! j)) js of None \<Rightarrow> v_focus v | Some j \<Rightarrow> int j)"
proof (cases "find (\<lambda>j. focusable (v_widgets v ! j)) js")
  case None
  then show ?thesis using assms(1) by (simp add: asks_def)
next
  case (Some j)
  then have "focusable (v_widgets v ! j)" "j \<in> set js" by (auto simp: find_Some_iff)
  then have "6 \<le> j" using assms asks_focusable by blast
  with Some show ?thesis by simp
qed

lemma asks_moves: "asks n v \<Longrightarrow> asks n (view_set_focus_next v)" "asks n v \<Longrightarrow> asks n (view_set_focus_prev v)"
proof -
  assume a: "asks n v"
  then have ok: "view_ok v" and len: "length (v_widgets v) = n" by (simp_all add: asks_def)
  have f: "v_focus v < int n" using ok len by (simp add: view_ok_def)
  note m = focus_nearest[OF ok]
  show "asks n (view_set_focus_next v)"
    by (rule asks_same[OF a same_focus_moves(1) m(1)]) (unfold m(4) len, rule found_high[OF a], simp)
  show "asks n (view_set_focus_prev v)"
    by (rule asks_same[OF a same_focus_moves(2) m(2)]) (unfold m(5), rule found_high[OF a], use f in auto)
qed

text \<open>Scrolling only moves the memo and shows or hides its arrows, which cannot have the focus.\<close>

lemma bit_visible: "n < 32 \<Longrightarrow> n \<noteq> 0 \<Longrightarrow> bit (w_flags (widget_set_flag WF_VISIBLE on w)) n = bit (w_flags w) n"
  by (auto simp: widget_set_flag_def WF_VISIBLE_def bit_or_iff bit_and_iff bit_not_iff bit_1_iff)

lemma asks_scroll:
  assumes a: "asks n v" and n: "6 \<le> n"
  shows "asks n (v\<lparr>v_widgets := snd (widget_scroll_memo_deco 3 m (v_widgets v))\<rparr>)"
proof -
  let ?ws = "snd (widget_scroll_memo_deco 3 m (v_widgets v))"
  have len: "length (v_widgets v) = n" using a by (simp add: asks_def)
  obtain b w where w: "widget_scroll_memo m (v_widgets v ! 4) = (b, w)" by fastforce
  have fw: "w_flags w = w_flags (v_widgets v ! 4)"
    using w by (auto simp: widget_scroll_memo_def Let_def split: if_splits)
  have ws: "?ws = (v_widgets v)[4 := w, 3 := widget_set_flag WF_VISIBLE (w_y w < w_y_max w) (v_widgets v ! 3),
      5 := widget_set_flag WF_VISIBLE (w_y w > w_y_min w) (v_widgets v ! 5)]"
    by (simp add: widget_scroll_memo_deco_def w)
  have bit: "bit (w_flags (?ws ! j)) k = bit (w_flags (v_widgets v ! j)) k" if "j < n" "k < 32" "k \<noteq> 0" for j k
    using that fw len n unfolding ws by (auto simp: nth_list_update bit_visible)
  have high: "?ws ! j = v_widgets v ! j" if "6 \<le> j" for j using that by (simp add: ws)
  have "length ?ws = n" by (simp add: ws len)
  then show ?thesis using a bit high by (auto simp: asks_def view_ok_def)
qed

lemma asks_frame:
  assumes "asks n v" and "6 \<le> n" and "message_frame buttons fhw below i (v, sc) = (closed, v', sc')"
  shows "asks n v'" and "closed \<longleftrightarrow> tapped (mi_ctl i) PADS_A \<and> v_focus v' \<noteq> - 1 \<or> tapped (mi_ctl i) PADS_B \<and> buttons = DLGB_NONE"
proof -
  define v0 where "v0 = fr_view (view_plot sc (mi_ctl i) DIALOG_MASK_COLOR below v)"
  define v1 where "v1 = (if tapped (mi_ctl i) PADS_LEFT then view_set_focus_prev v0 else v0)"
  define v2 where "v2 = (if tapped (mi_ctl i) PADS_RIGHT then view_set_focus_next v1 else v1)"
  have "asks n v0" unfolding v0_def by (rule asks_plot[OF assms(1)])
  then have "asks n v1" by (simp add: v1_def asks_moves)
  then have "asks n v2" by (simp add: v2_def asks_moves)
  note r = assms(3)[unfolded message_frame_def Let_def prod.case, folded v0_def, folded v1_def, folded v2_def]
  show "asks n v'" using r asks_scroll[OF \<open>asks n v2\<close> assms(2)] by blast
  show "closed \<longleftrightarrow> tapped (mi_ctl i) PADS_A \<and> v_focus v' \<noteq> - 1 \<or> tapped (mi_ctl i) PADS_B \<and> buttons = DLGB_NONE"
    using r by auto
qed

lemma asks_fade: "asks n v \<Longrightarrow> asks n (fst (dialog_fade b ys ctl below (v, sc)))"
proof -
  assume a: "asks n v"
  have "asks n (fst (fold (\<lambda>i (v, sc). let fr = view_plot sc (ctl i) (k i) below (v\<lparr>v_y := s16 (ys i)\<rparr>) in (fr_view fr, fr_screen fr)) js (u, sc)))"
    if "asks n u" for js u sc k
    using that
  proof (induction js arbitrary: u sc)
    case (Cons j js)
    have "asks n (u\<lparr>v_y := y\<rparr>)" for y using Cons.prems by (simp add: asks_def view_ok_def)
    from Cons.IH[OF asks_plot[OF this]] show ?case by (simp add: Let_def)
  qed simp
  with a show ?thesis by (simp add: dialog_fade_def Let_def)
qed

lemma message_loop_answer:
  assumes "asks n v" and "6 \<le> n" and "message_loop buttons fhw below is (v, sc) = Some (res, k, v', sc')"
  shows "0 < k \<and> k \<le> length is \<and> (if buttons = DLGB_NONE then res = 0 else 0 \<le> res \<and> res < int n - 6)
    \<and> (tapped (mi_ctl (is ! (k - 1))) PADS_A \<or> buttons = DLGB_NONE \<and> tapped (mi_ctl (is ! (k - 1))) PADS_B)"
  using assms
proof (induction buttons fhw below "is" "(v, sc)" arbitrary: v sc k rule: message_loop.induct)
  case (2 buttons fhw below i "is" v sc)
  obtain closed v1 sc1 where f: "message_frame buttons fhw below i (v, sc) = (closed, v1, sc1)" by (metis prod_cases3)
  note a = asks_frame[OF 2(2,3) f]
  show ?case
  proof (cases closed)
    case True
    have "v_focus v1 < int n" "int n \<le> 127" using a(1) by (auto simp: asks_def view_ok_def)
    moreover have "buttons \<noteq> DLGB_NONE \<Longrightarrow> 6 \<le> v_focus v1" using a True by (auto simp: asks_def)
    ultimately show ?thesis using 2(4) True a(2) by (auto simp: f s8_id)
  next
    case False
    then obtain k' where k: "k = k' + 1" "message_loop buttons fhw below is (v1, sc1) = Some (res, k', v', sc')"
      using 2(4) by (auto simp: f)
    from 2(1)[OF f[symmetric] refl False a(1) 2(3) k(2)] show ?thesis by (auto simp: k(1) nth_Cons')
  qed
qed simp


lemma plot_focus: "view_ok v \<Longrightarrow> \<not> c_ir c \<Longrightarrow> v_focus (fr_view (view_plot sc c alpha below v)) = v_focus v"
  using view_plot_view(2)[of v sc c alpha below] by (simp add: Let_def)

lemma fade_focus:
  assumes "asks n v" and "\<forall>i. \<not> c_ir (ctl i)"
  shows "v_focus (fst (dialog_fade b ys ctl below (v, sc))) = v_focus v"
proof -
  have "v_focus (fst (fold (\<lambda>i (v, sc). let fr = view_plot sc (ctl i) (k i) below (v\<lparr>v_y := s16 (ys i)\<rparr>) in (fr_view fr, fr_screen fr)) js (u, sc))) = v_focus u"
    if "asks n u" for js u sc k
    using that
  proof (induction js arbitrary: u sc)
    case (Cons j js)
    have u: "asks n (u\<lparr>v_y := y\<rparr>)" for y using Cons.prems by (simp add: asks_def view_ok_def)
    then have "view_ok (u\<lparr>v_y := y\<rparr>)" for y by (simp add: asks_def)
    from plot_focus[OF this] Cons.IH[OF asks_plot[OF u]] assms(2) show ?case by (simp add: Let_def)
  qed simp
  with assms(1) show ?thesis by (simp add: dialog_fade_def Let_def)
qed

lemma message_closes:
  assumes "asks n v" and "\<not> c_ir (mi_ctl i)" and "\<not> tapped (mi_ctl i) PADS_LEFT" and "\<not> tapped (mi_ctl i) PADS_RIGHT"
    and "tapped (mi_ctl i) PADS_A \<and> v_focus v \<noteq> - 1 \<or> tapped (mi_ctl i) PADS_B \<and> buttons = DLGB_NONE"
  shows "\<exists>r. message_loop buttons fhw below (i # is) (v, sc) = Some (if buttons \<noteq> DLGB_NONE then s8 (v_focus v - 6) else 0, 1, r)"
proof -
  have "view_ok v" using assms(1) by (simp add: asks_def)
  from plot_focus[OF this assms(2)] assms(3-5) show ?thesis by (auto simp: message_frame_def Let_def)
qed

section \<open>The dialog of the options\<close>

text \<open>The captions show the order that the result holds.\<close>

definition shows_sort :: "'e options \<Rightarrow> bool" where
  "shows_sort q \<longleftrightarrow> length (o_fonts q) = 13 \<and> (\<forall>k < 3. o_fonts q ! (8 + k) = FONT_BUTTON \<longleftrightarrow> or_sort (o_ret q) = int k)"

lemma set_caption_simps [simp]:
  "o_ret (set_caption tex i font c q) = o_ret q" "o_fonts (set_caption tex i font c q) = (o_fonts q)[i := font]"
  "v_focus (o_view (set_caption tex i font c q)) = v_focus (o_view q)"
  by (simp_all add: set_caption_def on_widget_def)

lemma set_sort_captions_simps [simp]:
  "o_ret (set_sort_captions env k q) = o_ret q"
  "o_fonts (set_sort_captions env k q) = (o_fonts q)[8 := if k = 0 then FONT_BUTTON else FONT_BUTTON_DESEL,
     9 := if k = 1 then FONT_BUTTON else FONT_BUTTON_DESEL, 10 := if k = 2 then FONT_BUTTON else FONT_BUTTON_DESEL]"
  by (simp_all add: set_sort_captions_def numeral_3_eq_3)

lemma set_status_simps [simp]: "o_ret (set_status st q) = o_ret q" "o_fonts (set_status st q) = o_fonts q"
  by (simp_all add: set_status_def on_widget_def eval_nat_numeral)

lemma options_press_shows:
  assumes "shows_sort q" and "options_press env f q = Some (closed, r)"
  shows "shows_sort r"
proof -
  have dev: "shows_sort r'" if "set_device_caption env d font q' = Some r'" "shows_sort q'" for d font q' r'
    using that by (auto simp: set_device_caption_def shows_sort_def options_consts nth_list_update split: if_splits)
  have ret: "shows_sort (q'\<lparr>o_ret := (o_ret q')\<lparr>or_device := d\<rparr>\<rparr>) = shows_sort q'" for q' :: "'a options" and d
    by (simp add: shows_sort_def)
  consider "DLG_DEV_FIRST \<le> f \<and> f < DLG_DEV_FIRST + 4" | "\<not> (DLG_DEV_FIRST \<le> f \<and> f < DLG_DEV_FIRST + 4)" "f \<in> {8, 9, 10}"
    | "\<not> (DLG_DEV_FIRST \<le> f \<and> f < DLG_DEV_FIRST + 4)" "f \<notin> {8, 9, 10}" by blast
  then show ?thesis
  proof cases
    case 1
    then show ?thesis using assms dev ret by (auto simp: options_press_def Let_def bind_eq_Some_conv)
  next
    case 2
    then have "r = set_sort_captions env (f - 8) (q\<lparr>o_ret := (o_ret q)\<lparr>or_sort := f - 8\<rparr>\<rparr>)"
      using assms(2) by (auto simp: options_press_def options_consts)
    then show ?thesis using assms(1) 2(2) by (auto simp: shows_sort_def less_Suc_eq numeral_3_eq_3)
  next
    case 3
    then show ?thesis using assms by (auto simp: options_press_def options_consts split: if_splits)
  qed
qed

lemma options_new_ret [simp]: "o_ret (options_new env lo ret0 device0 status0) = ret0"
proof -
  have "o_ret (fold (\<lambda>i. set_caption tex (4 + i) (f i) (c i)) js q) = o_ret q" for tex f c js and q :: "'a options"
    by (induction js arbitrary: q) simp_all
  then show ?thesis by (simp add: options_new_def Let_def)
qed

text \<open>
  The result is never given a first value: closed with B, the dialog returns what was on the stack, also whether it was confirmed.
  A device chosen while the device on the stack is none of the four writes outside of the tables.
\<close>

lemma options_stack:
  assumes "tapped (oi_ctl i) PADS_B" and "\<not> tapped (oi_ctl i) PADS_A"
  shows "show_options_dialog env lo ret0 device0 status0 ys ctl below (i # is) sc = Some (Some ret0)"
  using assms by (simp add: show_options_dialog_def options_frame_def options_result_def Let_def split_beta)

lemma options_wild:
  assumes "or_device (o_ret q) \<notin> {0..3}" and "DLG_DEV_FIRST \<le> f" and "f < DLG_DEV_FIRST + 4"
  shows "options_press env f q = None"
  using assms by (auto simp: options_press_def set_device_caption_def)

section \<open>Properties\<close>

text \<open>A concrete environment and controls.\<close>

definition plain_font :: "nat text_font" where
  "plain_font = \<lparr>tf_kern = \<lambda>_ _. (0, 0), tf_glyph = \<lambda>m. zero_glyph\<lparr>dx := 640\<rparr>,
     tf_metrics = \<lparr>em_height = 0, ascender = 0, descender = 0\<rparr>, tf_height = 20, tf_texture = nat, tf_colour = 0\<rparr>"

definition plain_env :: "nat dialog_env" where
  "plain_env =
     (let e = (\<lambda>n w h. \<lparr>en_id = n, en_w = w, en_h = h\<rparr>)
      in \<lparr>d_title = plain_font, d_title_height = 30, d_memo = plain_font, d_label = plain_font, d_ratio = no_ratio,
          d_layer = \<lparr>l_flags = 0, l_flags_invert = 0, l_gfx = []\<rparr>, d_unknown = Draw_Null, d_dialog = e 0 520 360, d_about = e 1 236 104,
          d_info = e 2 32 32, d_confirm = e 3 32 32, d_warning = e 4 32 32, d_error = e 5 32 32, d_small = e 6 200 48, d_small_focus = e 7 200 48,
          d_tiny = e 8 132 48, d_tiny_focus = e 9 132 48, d_progress = e 10 400 112, d_up = e 11 32 8, d_down = e 12 32 8,
          d_view_width = 640, d_view_height = 480, caption_info = [73], caption_confirm = [67], caption_warning = [87], caption_error = [69],
          caption_sysinfo = [83], caption_options = [79], caption_device = [68], caption_sort_by = [66], caption_ok = ''Ok'',
          caption_cancel = ''Cancel'', caption_yes = ''Yes'', caption_no = ''No'', caption_delete = ''Delete'', caption_load = ''Load'',
          caption_back = ''Back'', caption_device_names = [''sd'', ''usb'', ''a'', ''b''], caption_sorts = [''Name'', ''Date'', ''Size'']\<rparr>)"

definition plain_controls :: "u32 \<Rightarrow> controls" where
  "plain_controls down = \<lparr>c_lo = \<lparr>pad_mask = \<lambda>b. if b = Pad_A then 256 else 1, wpad_mask = \<lambda>b. if b = Wpad_A then 8 else 2,
     nunchuk_mask = \<lambda>_. 4, classic_mask = \<lambda>_. 4, gh3_mask = \<lambda>_. 4\<rparr>, c_down = down, c_held = 0, c_up = 0, c_ir = False, c_x = 0, c_y = 0\<rparr>"

text \<open>
  C6: For a text without overlong encodings, lines of positive height and a preset button that the message has: a message is
  closed only by a button in its last frame, A or, when there is nothing to choose, B; the answer is the number of one of its
  buttons, or 0. If no pointer is on the screen while it appears and in its first frame, and neither left nor right is pressed
  in this frame, A (or B, when there is nothing to choose) in it answers with the button that the caller preset; a pointer on
  the screen takes the focus to itself.
\<close>

theorem message_answered:
  assumes "no_overlong text" and "0 < tf_height (d_memo env)" and "buttons \<noteq> DLGB_NONE \<longrightarrow> focus < message_count buttons - 6"
  shows "(show_message env lo type buttons text focus ys ctl below is sc = Some (res, k, sc') \<longrightarrow>
      0 < k \<and> k \<le> length is \<and> (if buttons = DLGB_NONE then res = 0 else 0 \<le> res \<and> res < int (message_count buttons) - 6)
      \<and> (tapped (mi_ctl (is ! (k - 1))) PADS_A \<or> buttons = DLGB_NONE \<and> tapped (mi_ctl (is ! (k - 1))) PADS_B))
    \<and> ((\<forall>j. \<not> c_ir (ctl True j)) \<and> \<not> c_ir (mi_ctl i) \<and> \<not> tapped (mi_ctl i) PADS_LEFT \<and> \<not> tapped (mi_ctl i) PADS_RIGHT
      \<and> tapped (mi_ctl i) (if buttons = DLGB_NONE then PADS_B else PADS_A)
      \<longrightarrow> (\<exists>sc'. show_message env lo type buttons text focus ys ctl below (i # is) sc
            = Some (if buttons = DLGB_NONE then 0 else int focus, 1, sc')))"
proof -
  obtain v where v: "dialog_message env lo type buttons text focus = Some v" using dialog_message_built[OF assms(1)] assms(2) by force
  note a = dialog_message_asks[OF v assms(3)]
  have n: "6 \<le> message_count buttons" "message_count buttons \<le> 8" by (simp_all add: message_count_def split: dialog_message_buttons.split)
  obtain u sc1 where u: "dialog_fade True (ys True) (ctl True) below (v, sc) = (u, sc1)" by fastforce
  have au: "asks (message_count buttons) u" using asks_fade[OF a(1), of True "ys True" "ctl True" below sc] by (simp add: u)
  have "0 < k \<and> k \<le> length is \<and> (if buttons = DLGB_NONE then res = 0 else 0 \<le> res \<and> res < int (message_count buttons) - 6)
      \<and> (tapped (mi_ctl (is ! (k - 1))) PADS_A \<or> buttons = DLGB_NONE \<and> tapped (mi_ctl (is ! (k - 1))) PADS_B)"
    if run: "show_message env lo type buttons text focus ys ctl below is sc = Some (res, k, sc')"
  proof -
    from run obtain v' sc2 where "message_loop buttons (tf_height (d_memo env) mod 256) below is (u, sc1) = Some (res, k, v', sc2)"
      by (auto simp: show_message_def v u bind_eq_Some_conv)
    from message_loop_answer[OF au n(1) this] show ?thesis .
  qed
  moreover have "\<exists>sc'. show_message env lo type buttons text focus ys ctl below (i # is) sc = Some (if buttons = DLGB_NONE then 0 else int focus, 1, sc')"
    if i: "\<forall>j. \<not> c_ir (ctl True j)" "\<not> c_ir (mi_ctl i)" "\<not> tapped (mi_ctl i) PADS_LEFT" "\<not> tapped (mi_ctl i) PADS_RIGHT"
      "tapped (mi_ctl i) (if buttons = DLGB_NONE then PADS_B else PADS_A)"
  proof -
    have f: "v_focus u = (if buttons \<noteq> DLGB_NONE then 6 + int focus else - 1)"
      using fade_focus[OF a(1) i(1), of True "ys True" below sc] a(2) by (simp add: u)
    have "\<exists>r. message_loop buttons (tf_height (d_memo env) mod 256) below (i # is) (u, sc1)
        = Some (if buttons \<noteq> DLGB_NONE then s8 (v_focus u - 6) else 0, 1, r)"
      using i(5) f by (intro message_closes[OF au i(2-4)]) (auto split: if_splits)
    then obtain v' sc2 where "message_loop buttons (tf_height (d_memo env) mod 256) below (i # is) (u, sc1)
        = Some (if buttons \<noteq> DLGB_NONE then s8 (v_focus u - 6) else 0, 1, v', sc2)" by force
    moreover have "buttons \<noteq> DLGB_NONE \<Longrightarrow> s8 (v_focus u - 6) = int focus"
      using f assms(3) n by (simp add: s8_id)
    ultimately show ?thesis by (auto simp: show_message_def v u)
  qed
  ultimately show ?thesis by blast
qed

theorem message_answered_witness:
  "\<exists>sc'. show_message plain_env (c_lo (plain_controls 0)) DLGMT_CONFIRM DLGB_YESNO [68, 101, 108, 63] 1 (\<lambda>_ _. 0) (\<lambda>_ _. plain_controls 0) []
      [\<lparr>mi_ctl = plain_controls 256, mi_sticky = 0\<rparr>]
      \<lparr>cursor_enabled = True, rumble_enabled = False, throbber_enabled = False, rumble_timeout = - 12, fading = False,
       viewing = True, view_bubbles = False, view_fakelogo = False, egg = False\<rparr> = Some (1, 1, sc')"
proof -
  let ?sc = "\<lparr>cursor_enabled = True, rumble_enabled = False, throbber_enabled = False, rumble_timeout = - 12, fading = False,
       viewing = True, view_bubbles = False, view_fakelogo = False, egg = False\<rparr>"
  let ?i = "\<lparr>mi_ctl = plain_controls 256, mi_sticky = 0\<rparr>"
  have a: "no_overlong [68, 101, 108, 63]" by code_simp
  have b: "0 < tf_height (d_memo plain_env)" by (simp add: plain_env_def plain_font_def Let_def)
  have c: "DLGB_YESNO \<noteq> DLGB_NONE \<longrightarrow> (1::nat) < message_count DLGB_YESNO - 6" by (simp add: message_count_def)
  note answer = message_answered[OF a b c, of "c_lo (plain_controls 0)" DLGMT_CONFIRM "\<lambda>_ _. 0" "\<lambda>_ _. plain_controls 0" "[]" "[]"
    ?sc 0 0 ?sc ?i, THEN conjunct2]
  have "\<not> tapped (mi_ctl ?i) PADS_LEFT" "\<not> tapped (mi_ctl ?i) PADS_RIGHT" "tapped (mi_ctl ?i) PADS_A" "\<not> c_ir (plain_controls n)" for n
    by (simp_all add: tapped_def plain_controls_def PADS_LEFT_def PADS_RIGHT_def PADS_A_def PADS_def)
  with answer show ?thesis by simp
qed

end
