(* ===== verification/Dvd.thy ===== *)
theory Dvd
  imports Main
begin

text \<open>
  Stopping the disc, \<^verbatim>\<open>channelapp/source/dvd.c\<close>: a chain of asynchronous IOS requests whose replies arrive in interrupts, and the
  function that ends the chain when the channel exits. IOS may reply between any two accesses of that function to the shared
  variables, so each access is a step. IOS handles requests in their order: what is to be closed is closed when it is asked
  for; \<open>d_bad\<close> remembers a close of a descriptor that was not open. A request that IOS does not even accept is not modelled.
\<close>

section \<open>The callback chain\<close>

datatype wiidvd_state = WDVD_OPEN | WDVD_STOP | WDVD_CLOSE | WDVD_DONE

datatype request = Open_Request | Ioctl_Request | Close_Request

text \<open>Where \<^verbatim>\<open>WiiDVD_ShutDown\<close> is: not called; it has read the descriptor; cleared it; set the state; finished.\<close>

datatype shutdown = Not_Called | Has_Read int | Has_Cleared int | Has_Marked int | Finished

record drive =
  d_fd :: int
  d_state :: wiidvd_state
  d_pending :: "request option"
  d_open :: "int set"
  d_bad :: bool
  d_exit :: shutdown

definition ios_close_fd :: "int \<Rightarrow> drive \<Rightarrow> drive" where
  "ios_close_fd f d = d\<lparr>d_open := d_open d - {f}, d_bad := d_bad d \<or> f \<notin> d_open d\<rparr>"

definition WiiDVD_StopMotorAsync :: drive where
  "WiiDVD_StopMotorAsync = \<lparr>d_fd = - 1, d_state = WDVD_OPEN, d_pending = Some Open_Request, d_open = {}, d_bad = False, d_exit = Not_Called\<rparr>"

definition WiiDVD_Callback :: "int \<Rightarrow> drive \<Rightarrow> drive" where
  "WiiDVD_Callback result d =
     (case d_state d of
        WDVD_OPEN \<Rightarrow>
          let d1 = d\<lparr>d_fd := result\<rparr> in
          if result < 0 then d1 else d1\<lparr>d_state := WDVD_STOP, d_pending := Some Ioctl_Request\<rparr>
      | WDVD_STOP \<Rightarrow> ios_close_fd (d_fd d) (d\<lparr>d_state := WDVD_CLOSE, d_pending := Some Close_Request\<rparr>)
      | WDVD_CLOSE \<Rightarrow> d\<lparr>d_fd := - 1, d_state := WDVD_DONE\<rparr>
      | WDVD_DONE \<Rightarrow> d)"

text \<open>A reply; a successful open gives a descriptor that was not open.\<close>

definition reply :: "int \<Rightarrow> drive \<Rightarrow> drive" where
  "reply r d =
     WiiDVD_Callback r
       (d\<lparr>d_pending := None, d_open := (if d_pending d = Some Open_Request \<and> r \<ge> 0 then insert r (d_open d) else d_open d)\<rparr>)"

section \<open>Ending it\<close>

definition shut_read :: "drive \<Rightarrow> drive" where
  "shut_read d = d\<lparr>d_exit := (if d_fd d > 0 then Has_Read (d_fd d) else Finished)\<rparr>"

definition shut_clear :: "int \<Rightarrow> drive \<Rightarrow> drive" where
  "shut_clear f d = d\<lparr>d_fd := - 1, d_exit := Has_Cleared f\<rparr>"

definition shut_mark :: "int \<Rightarrow> drive \<Rightarrow> drive" where
  "shut_mark f d = d\<lparr>d_state := WDVD_DONE, d_exit := Has_Marked f\<rparr>"

definition shut_close :: "int \<Rightarrow> drive \<Rightarrow> drive" where
  "shut_close f d = ios_close_fd f (d\<lparr>d_exit := Finished\<rparr>)"

text \<open>The function without an interrupt in between.\<close>

definition WiiDVD_ShutDown :: "drive \<Rightarrow> drive" where
  "WiiDVD_ShutDown d =
     (let d1 = shut_read d in
      case d_exit d1 of Has_Read f \<Rightarrow> shut_close f (shut_mark f (shut_clear f d1)) | _ \<Rightarrow> d1)"

inductive dvd_step :: "drive \<Rightarrow> drive \<Rightarrow> bool" where
  replied: "d_pending d = Some Open_Request \<Longrightarrow> r \<notin> d_open d \<Longrightarrow> dvd_step d (reply r d)"
| answered: "d_pending d = Some Ioctl_Request \<or> d_pending d = Some Close_Request \<Longrightarrow> dvd_step d (reply r d)"
| reads: "d_exit d = Not_Called \<Longrightarrow> dvd_step d (shut_read d)"
| clears: "d_exit d = Has_Read f \<Longrightarrow> dvd_step d (shut_clear f d)"
| marks: "d_exit d = Has_Cleared f \<Longrightarrow> dvd_step d (shut_mark f d)"
| closes: "d_exit d = Has_Marked f \<Longrightarrow> dvd_step d (shut_close f d)"

inductive dvd_reachable :: "drive \<Rightarrow> bool" where
  started: "dvd_reachable WiiDVD_StopMotorAsync"
| moved: "dvd_reachable d \<Longrightarrow> dvd_step d d' \<Longrightarrow> dvd_reachable d'"

section \<open>Invariant\<close>

text \<open>What is true in each state of the chain, for each place of the function that ends it.\<close>

definition at_open :: "drive \<Rightarrow> bool" where
  "at_open d \<longleftrightarrow> d_state d = WDVD_OPEN \<and> d_fd d < 0 \<and> d_open d = {} \<and> d_pending d \<in> {Some Open_Request, None}
     \<and> d_exit d \<in> {Not_Called, Finished} \<and> \<not> d_bad d"

definition stopping :: "drive \<Rightarrow> bool" where
  "stopping d \<longleftrightarrow> (\<exists>f \<ge> 0. d_state d = WDVD_STOP \<and> d_pending d = Some Ioctl_Request \<and> d_open d = {f} \<and> \<not> d_bad d
     \<and> (d_fd d = f \<and> d_exit d \<in> {Not_Called, Finished, Has_Read f} \<or> d_fd d = - 1 \<and> d_exit d = Has_Cleared f))"

definition closing :: "drive \<Rightarrow> bool" where
  "closing d \<longleftrightarrow> (\<exists>f \<ge> 0. d_state d = WDVD_CLOSE \<and> d_pending d = Some Close_Request
     \<and> (d_open d = {} \<and> d_fd d = f \<and> d_exit d \<in> {Not_Called, Finished, Has_Read f} \<and> \<not> d_bad d
        \<or> d_open d = {} \<and> d_fd d = - 1 \<and> d_exit d = Has_Cleared f \<or> d_open d = {f} \<and> d_fd d = - 1 \<and> d_exit d = Has_Cleared f))"

definition ended :: "drive \<Rightarrow> bool" where
  "ended d \<longleftrightarrow> d_state d = WDVD_DONE \<and> d_fd d = - 1 \<and> d_pending d \<noteq> Some Open_Request
     \<and> (d_exit d \<in> {Not_Called, Finished} \<and> d_open d = {}
        \<or> (\<exists>f \<ge> 0. d_exit d = Has_Read f \<and> d_open d = {}
             \<or> d_exit d \<in> {Has_Cleared f, Has_Marked f} \<and> d_open d \<subseteq> {f}))"

definition dvd_ok :: "drive \<Rightarrow> bool" where
  "dvd_ok d \<longleftrightarrow> at_open d \<or> stopping d \<or> closing d \<or> ended d"

lemmas phases = at_open_def stopping_def closing_def ended_def

lemmas dvd_ops = reply_def WiiDVD_Callback_def ios_close_fd_def shut_read_def shut_clear_def shut_mark_def shut_close_def

lemma reply_ok:
  assumes "dvd_ok d" and "d_pending d \<noteq> None"
  shows "dvd_ok (reply r d)"
proof -
  consider "at_open d" | "stopping d" | "closing d" | "ended d" using assms(1) by (auto simp: dvd_ok_def)
  then show ?thesis
  proof cases
    case 1
    then have "at_open (reply r d) \<or> stopping (reply r d)" using assms(2) by (auto simp: at_open_def stopping_def dvd_ops Let_def)
    then show ?thesis by (auto simp: dvd_ok_def)
  next
    case 2
    then have "closing (reply r d)" by (auto simp: stopping_def closing_def dvd_ops)
    then show ?thesis by (simp add: dvd_ok_def)
  next
    case 3
    then have "ended (reply r d)" by (auto simp: closing_def ended_def dvd_ops)
    then show ?thesis by (simp add: dvd_ok_def)
  next
    case 4
    then have "ended (reply r d)" by (auto simp: ended_def dvd_ops)
    then show ?thesis by (simp add: dvd_ok_def)
  qed
qed

lemma shut_ok:
  assumes "dvd_ok d"
  shows "d_exit d = Not_Called \<Longrightarrow> dvd_ok (shut_read d)"
    and "d_exit d = Has_Read f \<Longrightarrow> dvd_ok (shut_clear f d)"
    and "d_exit d = Has_Cleared f \<Longrightarrow> dvd_ok (shut_mark f d)"
    and "d_exit d = Has_Marked f \<Longrightarrow> dvd_ok (shut_close f d)"
  using assms unfolding dvd_ok_def by (elim disjE; auto simp: phases dvd_ops)+

lemma dvd_reachable_ok: "dvd_reachable d \<Longrightarrow> dvd_ok d"
proof (induction rule: dvd_reachable.induct)
  case started
  then show ?case by (simp add: dvd_ok_def at_open_def WiiDVD_StopMotorAsync_def)
next
  case (moved d d')
  from moved.hyps(2) moved.IH show ?case
    by (cases rule: dvd_step.cases) (auto intro: reply_ok shut_ok)
qed

section \<open>A second close\<close>

text \<open>Ended while the close is under way, the descriptor is closed a second time.\<close>

lemma dvd_closed_twice: "\<exists>d. dvd_reachable d \<and> d_exit d = Finished \<and> d_bad d"
proof -
  let ?a = "reply 5 WiiDVD_StopMotorAsync" and ?b = "reply 0 (reply 5 WiiDVD_StopMotorAsync)"
  have a: "dvd_reachable ?a" by (intro moved[OF started] replied) (simp_all add: WiiDVD_StopMotorAsync_def)
  have "d_pending ?a = Some Ioctl_Request" by (simp add: dvd_ops WiiDVD_StopMotorAsync_def Let_def)
  then have b: "dvd_reachable ?b" by (intro moved[OF a answered]) simp
  have f: "d_exit (shut_read ?b) = Has_Read 5" "d_exit ?b = Not_Called" by (simp_all add: dvd_ops WiiDVD_StopMotorAsync_def Let_def)
  have "dvd_reachable (shut_read ?b)" by (rule moved[OF b reads[OF f(2)]])
  then have "dvd_reachable (shut_clear 5 (shut_read ?b))" by (rule moved) (rule clears[OF f(1)])
  then have "dvd_reachable (shut_mark 5 (shut_clear 5 (shut_read ?b)))" by (rule moved) (rule marks, simp add: shut_clear_def)
  then have "dvd_reachable (shut_close 5 (shut_mark 5 (shut_clear 5 (shut_read ?b))))"
    by (rule moved) (rule closes, simp add: shut_mark_def)
  moreover have "d_exit (shut_close 5 (shut_mark 5 (shut_clear 5 (shut_read ?b)))) = Finished"
      "d_bad (shut_close 5 (shut_mark 5 (shut_clear 5 (shut_read ?b))))"
    by (simp_all add: dvd_ops WiiDVD_StopMotorAsync_def Let_def)
  ultimately show ?thesis by blast
qed

text \<open>Uninterrupted, and not while the close is under way, it closes only what is open.\<close>

inductive dvd_calm :: "drive \<Rightarrow> bool" where
  calm_start: "dvd_calm WiiDVD_StopMotorAsync"
| calm_reply: "dvd_calm d \<Longrightarrow> d_pending d \<noteq> None \<Longrightarrow> dvd_calm (reply r d)"
| calm_exit: "dvd_calm d \<Longrightarrow> d_exit d = Not_Called \<Longrightarrow> d_state d \<noteq> WDVD_CLOSE \<Longrightarrow> dvd_calm (WiiDVD_ShutDown d)"

lemma dvd_calm_good: "dvd_calm d \<Longrightarrow> \<not> d_bad d \<and> dvd_ok d \<and> d_exit d \<in> {Not_Called, Finished}"
proof (induction rule: dvd_calm.induct)
  case calm_start
  then show ?case by (simp add: WiiDVD_StopMotorAsync_def dvd_ok_def at_open_def)
next
  case (calm_reply d r)
  then have "dvd_ok (reply r d)" using reply_ok by blast
  moreover have "\<not> d_bad (reply r d) \<and> d_exit (reply r d) \<in> {Not_Called, Finished}"
    using calm_reply.IH by (cases "r < 0") (auto simp: dvd_ok_def phases dvd_ops Let_def)
  ultimately show ?case by blast
next
  case (calm_exit d)
  then show ?case by (auto simp: dvd_ok_def phases WiiDVD_ShutDown_def dvd_ops Let_def)
qed

section \<open>Properties\<close>

text \<open>
  C7: Whatever IOS answers and wherever its replies interrupt the function that ends the chain, once no request is under way
  and that function is not in its middle, no descriptor of the disc drive is left open and none is remembered.
\<close>

theorem dvd_left_closed:
  assumes "dvd_reachable d" and "d_pending d = None" and "d_exit d = Not_Called \<or> d_exit d = Finished"
  shows "d_open d = {} \<and> d_fd d < 0"
  using dvd_reachable_ok[OF assms(1)] assms(2,3) by (auto simp: dvd_ok_def phases)

theorem dvd_left_closed_witness: "d_open (reply (- 4) WiiDVD_StopMotorAsync) = {}"
proof -
  have "dvd_reachable (reply (- 4) WiiDVD_StopMotorAsync)"
    by (intro moved[OF started] replied) (simp_all add: WiiDVD_StopMotorAsync_def)
  from dvd_left_closed[OF this] show ?thesis by (simp add: dvd_ops WiiDVD_StopMotorAsync_def Let_def)
qed

end
