(* ===== verification/Main_Loop.thy ===== *)
theory Main_Loop
  imports Browser Loader
begin

text \<open>
  The loop of \<^verbatim>\<open>main_real\<close> in \<^verbatim>\<open>channelapp/source/main.c\<close>: which view is shown, what the buttons do in it, what becomes of the
  selected application and how the channel is left. The list of applications is that of \<open>App_Entry\<close>, and its device thread
  runs between the iterations. What else is called answers with the fields of \<open>inputs\<close>, at most once in an iteration, and
  leaves an \<open>effect\<close> in the log, the newest first. Dialogs and applications can be freed: a use of one that is no longer
  there ends the run with a fault.
\<close>

section \<open>State\<close>

text \<open>What a pointer to a view holds; the dialogs are allocated, the other two are static.\<close>

datatype view_ptr = V_Browser | V_Main | V_Dialog nat

datatype menu = MENU_HOME | MENU_EXIT

datatype message = Msg_Unimplemented | Msg_Sysinfo | Msg_Delete | Msg_Delete_Failed string

text \<open>Where a program that is started came from; an application's description can ask for access to the hardware.\<close>

datatype origin = From_Network | From_Update | From_App ptr bool

datatype effect =
    E_Gen_View browser_action "ptr option" | E_Popall | E_Throbber bool | E_Throbber_Tickle | E_Plot view_ptr
  | E_Menu menu | E_Set_Focus view_ptr int | E_Focus_Prev view_ptr | E_Focus_Next view_ptr | E_Message view_ptr message
  | E_Dialog_App nat ptr | E_About nat | E_Fade view_ptr bool | E_View_Fade view_ptr | E_Free nat | E_Cursor bool | E_Fakelogo bool
  | E_Widget_Enabled nat bool | E_Widget_Toggle nat | E_Tcp_Init | E_Signal_Threads | E_Switch_Mode | E_Browser_Focus
  | E_Options | E_Update_Signal | E_Update_Execute | E_Load "ptr option" | E_Load_Executable | E_Loaded origin u32
  | E_Zip_App string | E_Free_Data u32 | E_Refresh_Theme "ptr option" u32 u32 | E_Manage string | E_Scroll nat int
  | E_Dvd_ShutDown | E_Controls_Deinit | E_Loader_Deinit | E_Http_Deinit | E_Deinit_Screens | E_Settings_Save
  | E_Launch_BootMii | E_Poke_Priiloader | E_Patch_Ahb | E_Launch_IOS | E_Unlock_Dvd | E_Exec "u32 option" | E_Reboot | E_Power_Off | E_System_Menu

datatype fault = Freed_Entry | Freed_View | Overrun

type_synonym 'a outcome = "fault + 'a"

fun bind_out :: "'a outcome \<Rightarrow> ('a \<Rightarrow> 'b outcome) \<Rightarrow> 'b outcome" where
  "bind_out (Inl e) f = Inl e"
| "bind_out (Inr x) f = f x"

record main =
  m_ae :: ae_state
  m_views :: "nat set"
  m_next :: nat
  m_current :: view_ptr
  m_last :: view_ptr
  m_detail :: "nat option"
  m_about :: "nat option"
  m_app_sel :: "ptr option"
  m_app_name :: string
  m_menu :: menu
  m_parent :: menu
  m_frame :: u64
  m_loading :: bool
  m_update_check :: int
  m_updating :: bool
  m_available :: bool
  m_reloced :: bool
  m_ep :: "u32 option"
  m_ahb :: bool
  m_bootmii :: bool
  m_priiloader :: bool
  m_reboot :: bool
  m_should_exit :: bool
  m_shutdown :: bool
  m_exit_about :: bool
  m_fhw :: u8
  m_eggs :: u8
  m_egg :: bool
  m_log :: "effect list"

text \<open>
  The answers of one iteration. \<open>i_browser\<close> is the state of the browser when \<^verbatim>\<open>browser_sel\<close> is asked for the selection,
  \<open>i_stray\<close> what that reads behind the list, \<open>i_focus\<close> the focus of the view when it is asked for, \<open>i_during\<close> the reset and
  the power button while an update is offered and downloaded.
\<close>

record inputs =
  i_lo :: libogc
  i_bd :: u32
  i_bh :: u32
  i_viewing :: bool
  i_lock_action :: bool
  i_lock_scan :: bool
  i_browser :: "nat browser"
  i_stray :: "ptr option"
  i_clicked :: int
  i_focus :: int
  i_gecko :: bool
  i_tcp_initializing :: bool
  i_tcp_initialized :: bool
  i_update_signal :: bool
  i_busy :: "bool \<times> bool option"
  i_update :: "u32 option"
  i_during :: "bool \<times> bool"
  i_options :: "(app_sort \<times> int) option"
  i_handshaked :: bool
  i_result :: loader_result
  i_exec :: "u32 option"
  i_zip :: bool
  i_fs :: app_fs
  i_answer :: int
  i_managed :: bool
  i_height :: u8
  i_sticky :: int
  i_drag :: bool
  i_drag_widget :: int
  i_drag_y :: int

definition emit :: "effect \<Rightarrow> main \<Rightarrow> main" where
  "emit e s = s\<lparr>m_log := e # m_log s\<rparr>"

section \<open>What can be freed\<close>

definition view_live :: "view_ptr \<Rightarrow> main \<Rightarrow> bool" where
  "view_live v s = (case v of V_Dialog n \<Rightarrow> n \<in> m_views s | _ \<Rightarrow> True)"

text \<open>An operation on a view.\<close>

definition on_view :: "view_ptr \<Rightarrow> effect \<Rightarrow> main \<Rightarrow> main outcome" where
  "on_view v e s = (if view_live v s then Inr (emit e s) else Inl Freed_View)"

definition on_dialog :: "nat option \<Rightarrow> (nat \<Rightarrow> effect) \<Rightarrow> main \<Rightarrow> main outcome" where
  "on_dialog d e s = (case d of None \<Rightarrow> Inl Freed_View | Some n \<Rightarrow> on_view (V_Dialog n) (e n) s)"

definition view_free :: "nat option \<Rightarrow> main \<Rightarrow> main outcome" where
  "view_free d s =
     (case d of
        None \<Rightarrow> Inl Freed_View
      | Some n \<Rightarrow> if n \<in> m_views s then Inr (emit (E_Free n) (s\<lparr>m_views := m_views s - {n}\<rparr>)) else Inl Freed_View)"

text \<open>A new dialog.\<close>

definition dialog_new :: "(nat \<Rightarrow> effect) \<Rightarrow> main \<Rightarrow> nat \<times> main" where
  "dialog_new e s = (m_next s, emit (e (m_next s)) (s\<lparr>m_views := insert (m_next s) (m_views s), m_next := m_next s + 1\<rparr>))"

text \<open>The application a pointer points to.\<close>

definition app_at :: "ptr option \<Rightarrow> main \<Rightarrow> App_Entry.app_entry outcome" where
  "app_at a s =
     (case a of None \<Rightarrow> Inl Freed_Entry
      | Some p \<Rightarrow> (case ae_heap (m_ae s) p of None \<Rightarrow> Inl Freed_Entry | Some e \<Rightarrow> Inr e))"

section \<open>The start of an iteration\<close>

text \<open>\<^verbatim>\<open>strcpy\<close> to the 64 bytes of \<^verbatim>\<open>settings.app_sel\<close>, with the NUL.\<close>

definition keep_name :: "App_Entry.app_entry \<Rightarrow> main \<Rightarrow> main outcome" where
  "keep_name e s = (if length (dirname e) + 1 > 64 then Inl Overrun else Inr (s\<lparr>m_app_name := dirname e\<rparr>))"

definition listed :: "main \<Rightarrow> ptr list" where
  "listed s = pointers (take (entry_count (m_ae s)) (entries (m_ae s)))"

text \<open>The selection of the browser becomes that of the loop.\<close>

definition take_selection :: "nat browser \<Rightarrow> ptr option \<Rightarrow> main \<Rightarrow> main" where
  "take_selection b stray s =
     s\<lparr>m_app_sel := (case browser_sel (listed s) b of No_Entry \<Rightarrow> None | Entry p \<Rightarrow> Some p | Outside \<Rightarrow> stray)\<rparr>"

definition list_actions :: "inputs \<Rightarrow> main \<Rightarrow> main outcome" where
  "list_actions i s =
     (if m_current s \<noteq> V_Browser then Inr s
      else
        case app_entry_action (i_lock_action i) (m_ae s) of
          (act, ae) \<Rightarrow>
            let s1 = s\<lparr>m_ae := ae\<rparr> in
            case act of
              AE_ACT_NONE \<Rightarrow> Inr s1
            | AE_ACT_REMOVE \<Rightarrow>
                let s2 = take_selection (i_browser i) (i_stray i) s1 in
                bind_out (if m_app_sel s2 = None then Inr s2 else bind_out (app_at (m_app_sel s2) s2) (\<lambda>e. keep_name e s2)) (\<lambda>s3.
                let s4 = emit (E_Gen_View BA_REMOVE None) (emit E_Popall s3)
                in Inr (s4\<lparr>m_ae := app_entries_free (m_ae s4)\<rparr>))
            | AE_ACT_ADD \<Rightarrow>
                let s2 = s1\<lparr>m_app_sel := (if m_app_name s1 \<noteq> [] then app_entry_find (m_app_name s1) (m_ae s1) else None)\<rparr>
                in Inr (emit (E_Gen_View BA_ADD (m_app_sel s2)) (emit (E_Throbber False) s2)))"

text \<open>The throbber, the device thread and the frame; whoever changes the view starts to count anew.\<close>

definition show_frame :: "inputs \<Rightarrow> main \<Rightarrow> main outcome" where
  "show_frame i s =
     (let busy = app_entry_is_loading (m_ae s);
          s1 = (if m_loading s \<noteq> busy then emit (E_Throbber (\<not> m_loading s)) (s\<lparr>m_loading := \<not> m_loading s\<rparr>) else s);
          s2 = (if m_loading s1 then emit E_Throbber_Tickle s1 else s1);
          s3 = (if m_frame s2 mod 30 = 0 then s2\<lparr>m_ae := app_entry_scan (i_lock_scan i) (m_ae s2)\<rparr> else s2)
      in bind_out (on_view (m_current s3) (E_Plot (m_current s3)) s3) (\<lambda>s4.
           let s5 = s4\<lparr>m_frame := m_frame s4 + 1\<rparr>
           in Inr (if m_last s5 \<noteq> m_current s5 then s5\<lparr>m_frame := 0, m_last := m_current s5\<rparr> else s5)))"

section \<open>Buttons\<close>

definition pressed :: "inputs \<Rightarrow> (libogc \<Rightarrow> u32) \<Rightarrow> bool" where
  "pressed i m \<longleftrightarrow> i_bd i AND m (i_lo i) \<noteq> 0"

text \<open>The 2 on a remote, held while the 1 is pressed.\<close>

definition holds_2 :: "inputs \<Rightarrow> bool" where
  "holds_2 i \<longleftrightarrow> i_bh i AND push_bit 16 (wpad_mask (i_lo i) Wpad_2) \<noteq> 0"

definition wpad_1 :: "libogc \<Rightarrow> u32" where "wpad_1 lo = push_bit 16 (wpad_mask lo Wpad_1)"

section \<open>The menu\<close>

text \<open>Both menus have the first one as their parent.\<close>

definition show_menu :: "menu \<Rightarrow> main \<Rightarrow> main" where
  "show_menu m s = emit (E_Menu m) (s\<lparr>m_menu := m, m_parent := MENU_HOME\<rparr>)"

definition home_button :: "main \<Rightarrow> main" where
  "home_button s =
     (if m_current s = V_Browser then emit (E_Set_Focus V_Main 0) ((show_menu MENU_HOME s)\<lparr>m_current := V_Main\<rparr>)
      else if m_current s = V_Main then s\<lparr>m_current := V_Browser\<rparr>
      else s)"

definition menu_home :: "int \<Rightarrow> main \<Rightarrow> main outcome" where
  "menu_home focus s =
     (if focus = 0 then Inr (emit (E_Message (m_current s) Msg_Unimplemented) s)
      else if focus = 1 then Inr (emit (E_Message (m_current s) Msg_Sysinfo) s)
      else if focus = 2 then
        (case dialog_new E_About s of
           (n, s1) \<Rightarrow>
             bind_out (on_view (V_Dialog n) (E_Fade (V_Dialog n) True) (emit (E_Cursor False) (s1\<lparr>m_about := Some n, m_current := V_Dialog n\<rparr>)))
               (\<lambda>s2. Inr (s2\<lparr>m_exit_about := False\<rparr>)))
      else if focus = 3 then Inr (show_menu MENU_EXIT s)
      else Inr s)"

text \<open>The second falls through to the third, which is to return to the system menu.\<close>

definition menu_exit :: "int \<Rightarrow> main \<Rightarrow> main" where
  "menu_exit focus s =
     (if focus = 0 then s\<lparr>m_bootmii := True, m_should_exit := True\<rparr>
      else if focus = 1 then s\<lparr>m_priiloader := True, m_should_exit := True\<rparr>
      else if focus = 2 then s\<lparr>m_should_exit := True\<rparr>
      else if focus = 3 then s\<lparr>m_reboot := True, m_should_exit := True\<rparr>
      else if focus = 4 then s\<lparr>m_should_exit := True, m_shutdown := True\<rparr>
      else s)"

definition menu_frame :: "inputs \<Rightarrow> main \<Rightarrow> main outcome" where
  "menu_frame i s =
     (let s0 = emit (E_Fakelogo True) s in
      if pressed i PADS_B then
        Inr (if m_menu s0 = MENU_HOME then s0\<lparr>m_current := V_Browser\<rparr> else show_menu (m_parent s0) s0)
      else
        let s1 = (if pressed i PADS_UP then emit (E_Focus_Prev (m_current s0)) s0 else s0);
            s2 = (if pressed i PADS_DOWN then emit (E_Focus_Next (m_current s1)) s1 else s1)
        in if pressed i PADS_A then
             (case m_menu s2 of MENU_HOME \<Rightarrow> menu_home (i_focus i) s2 | MENU_EXIT \<Rightarrow> Inr (menu_exit (i_focus i) s2))
           else Inr s2)"

section \<open>The browser\<close>

text \<open>The icons of the Gecko and the network, and the search for updates.\<close>

definition browser_icons :: "inputs \<Rightarrow> main \<Rightarrow> main" where
  "browser_icons i s =
     (let s0 = emit (E_Widget_Enabled 2 (i_gecko i)) (emit (E_Fakelogo False) s);
          s1 = (if \<not> i_tcp_initializing i then emit (E_Widget_Enabled 3 (i_tcp_initialized i)) s0 else s0);
          s2 = (if i_tcp_initializing i \<and> m_frame s1 mod 20 = 0 then emit (E_Widget_Toggle 3) s1 else s1)
      in if i_viewing i \<and> (pressed i PADS_NET_INIT \<or> pressed i wpad_1 \<and> \<not> holds_2 i) then emit E_Tcp_Init s2 else s2)"

definition update_frame :: "inputs \<Rightarrow> main \<Rightarrow> main" where
  "update_frame i s =
     (let s1 = (if i_tcp_initialized i \<and> m_update_check s > 0 then s\<lparr>m_update_check := m_update_check s - 1\<rparr> else s);
          s2 = (if m_update_check s1 = 0 then emit E_Update_Signal (s1\<lparr>m_update_check := - 1, m_updating := i_update_signal i\<rparr>) else s1)
      in if m_updating s2 \<and> \<not> m_loading s2
         then s2\<lparr>m_updating := fst (i_busy i), m_available := (case snd (i_busy i) of None \<Rightarrow> m_available s2 | Some b \<Rightarrow> b)\<rparr>
         else s2)"

text \<open>What a reset or the power button asks for; \<^verbatim>\<open>reset_cb\<close> and \<^verbatim>\<open>power_cb\<close> are interrupts.\<close>

definition reset_cb :: "main \<Rightarrow> main" where "reset_cb s = s\<lparr>m_should_exit := True\<rparr>"
definition power_cb :: "main \<Rightarrow> main" where "power_cb s = s\<lparr>m_should_exit := True, m_shutdown := True\<rparr>"

definition update_execute_frame :: "inputs \<Rightarrow> main \<Rightarrow> main" where
  "update_execute_frame i s =
     (let s1 = emit E_Update_Execute (s\<lparr>m_available := False\<rparr>);
          s2 = (if fst (i_during i) then reset_cb s1 else s1);
          s3 = (if snd (i_during i) then power_cb s2 else s2)
      in case i_update i of
           None \<Rightarrow> s3\<lparr>m_reloced := False, m_should_exit := False\<rparr>
         | Some ep \<Rightarrow> emit (E_Loaded From_Update ep) (s3\<lparr>m_ep := Some ep, m_reloced := True, m_should_exit := True\<rparr>))"

definition options_frame :: "inputs \<Rightarrow> main \<Rightarrow> main" where
  "options_frame i s =
     (let s1 = emit E_Options s in
      case i_options i of
        None \<Rightarrow> s1
      | Some (srt, device) \<Rightarrow>
          s1\<lparr>m_ae := app_entry_set_prefered device (app_entry_set_device device (app_entry_set_sort srt (m_ae s1)))\<rparr>)"

text \<open>The application dialog for the selected entry, whose name, icon and description it copies.\<close>

definition open_detail :: "inputs \<Rightarrow> main \<Rightarrow> main outcome" where
  "open_detail i s =
     (let s1 = take_selection (i_browser i) (i_stray i) s in
      case m_app_sel s1 of
        None \<Rightarrow> Inr s1
      | Some p \<Rightarrow>
          bind_out (app_at (Some p) s1) (\<lambda>e.
          case dialog_new (\<lambda>n. E_Dialog_App n p) s1 of
            (n, s2) \<Rightarrow> on_view (V_Dialog n) (E_Fade (V_Dialog n) True) (s2\<lparr>m_detail := Some n, m_current := V_Dialog n\<rparr>)))"

definition browser_click :: "inputs \<Rightarrow> main \<Rightarrow> main outcome" where
  "browser_click i s =
     (if i_clicked i = 0 then Inr (emit (E_Gen_View BA_PREV None) s)
      else if i_clicked i = 1 then Inr (emit (E_Gen_View BA_NEXT None) s)
      else if i_clicked i = 3 then Inr (emit E_Tcp_Init s)
      else if i_clicked i = 4 then
        (let s1 = s\<lparr>m_eggs := m_eggs s + 1\<rparr> in Inr (if m_eggs s1 \<ge> 69 then s1\<lparr>m_egg := True\<rparr> else s1))
      else open_detail i s)"

text \<open>\<open>None\<close> when no button ended the iteration.\<close>

definition browser_buttons :: "inputs \<Rightarrow> main \<Rightarrow> main outcome option" where
  "browser_buttons i s =
     (if \<not> i_viewing i then None
      else if pressed i PADS_1 \<and> \<not> holds_2 i then Some (Inr (options_frame i s))
      else if pressed i PADS_2 then Some (Inr (emit E_Switch_Mode s))
      else if pressed i PADS_DPAD then Some (Inr (emit E_Browser_Focus s))
      else if pressed i PADS_A then Some (browser_click i s)
      else None)"

definition turn_pages :: "inputs \<Rightarrow> main \<Rightarrow> main" where
  "turn_pages i s =
     (let both = i_bd i OR i_bh i;
          s1 = (if i_viewing i \<and> both AND PADS_MINUS (i_lo i) \<noteq> 0 then emit (E_Gen_View BA_PREV None) s else s)
      in if i_viewing i \<and> both AND PADS_PLUS (i_lo i) \<noteq> 0 then emit (E_Gen_View BA_NEXT None) s1 else s1)"

section \<open>What was loaded\<close>

definition refresh_theme :: "ptr option \<Rightarrow> u32 \<Rightarrow> u32 \<Rightarrow> main \<Rightarrow> main" where
  "refresh_theme app data len s =
     emit (E_Gen_View BA_REFRESH app) (emit (E_View_Fade (m_current s)) ((emit (E_Refresh_Theme app data len)
       (emit (E_View_Fade (m_current s)) (emit (E_Gen_View BA_REMOVE None) s)))\<lparr>m_parent := MENU_HOME\<rparr>))"

definition start_executable :: "inputs \<Rightarrow> origin \<Rightarrow> bool \<Rightarrow> main \<Rightarrow> main" where
  "start_executable i org ahb s =
     (let s1 = emit E_Load_Executable s in
      case i_exec i of
        None \<Rightarrow> s1
      | Some ep \<Rightarrow> emit (E_Loaded org ep) (s1\<lparr>m_ep := Some ep, m_reloced := True, m_ahb := ahb, m_should_exit := True\<rparr>))"

definition network_load :: "sorter \<Rightarrow> allocator \<Rightarrow> inputs \<Rightarrow> main \<Rightarrow> main" where
  "network_load qsort alloc i s =
     (let s1 = emit (E_Load None) s; r = i_result i in
      case r_type r of
        LT_UNKNOWN \<Rightarrow> s1
      | LT_EXECUTABLE \<Rightarrow> start_executable i From_Network True s1
      | LT_ZIP_APP \<Rightarrow>
          let s2 = emit (E_Zip_App (r_dirname r)) s1 in
          if \<not> i_zip i then s2
          else case app_entry_add qsort alloc (i_fs i) (r_dirname r) (m_ae s2) of
            (p, ae) \<Rightarrow>
              let s3 = s2\<lparr>m_ae := ae, m_app_sel := p\<rparr>
              in if p \<noteq> None then emit (E_Gen_View BA_REFRESH p) s3 else s3
      | LT_ZIP_THEME \<Rightarrow> (refresh_theme (m_app_sel s1) (r_data r) (r_data_len r) s1)\<lparr>m_fhw := i_height i\<rparr>)"

definition browser_frame :: "sorter \<Rightarrow> allocator \<Rightarrow> inputs \<Rightarrow> main \<Rightarrow> main outcome" where
  "browser_frame qsort alloc i s =
     (let s1 = update_frame i (browser_icons i s) in
      if m_available s1 then Inr (update_execute_frame i s1)
      else case browser_buttons i s1 of
        Some r \<Rightarrow> r
      | None \<Rightarrow>
          let s2 = turn_pages i s1 in
          Inr (if i_handshaked i then network_load qsort alloc i s2
               else if \<not> m_reloced s2 then emit E_Signal_Threads s2 else s2))"

section \<open>The dialogs\<close>

definition close_detail :: "main \<Rightarrow> main outcome" where
  "close_detail s =
     bind_out (on_view (m_current s) (E_Fade (m_current s) False) s) (\<lambda>s1.
     bind_out (view_free (m_detail s1) (s1\<lparr>m_current := V_Browser\<rparr>)) (\<lambda>s2.
     Inr (s2\<lparr>m_detail := None\<rparr>)))"

text \<open>The lines the description moves.\<close>

definition scroll_by :: "inputs \<Rightarrow> main \<Rightarrow> int" where
  "scroll_by i s =
     s16 ((if pressed i PADS_UP then uint (m_fhw s) else 0) - (if pressed i PADS_DOWN then uint (m_fhw s) else 0)
       + cdiv (i_sticky i) 8 + (if i_drag i \<and> i_drag_widget i = 6 then cdiv (- i_drag_y i) 32 else 0))"

definition delete_app :: "sorter \<Rightarrow> inputs \<Rightarrow> main \<Rightarrow> main outcome" where
  "delete_app qsort i s =
     (let s1 = emit (E_Message (m_current s) Msg_Delete) s in
      if i_answer i = 1 then Inr s1
      else
        let s2 = emit (E_Gen_View BA_REMOVE None) s1 in
        bind_out (app_at (m_app_sel s2) s2) (\<lambda>e.
        let s3 = emit (E_Manage (dirname e)) s2;
            s4 = (if \<not> i_managed i then emit (E_Message (m_current s3) (Msg_Delete_Failed (dirname e))) s3
                  else s3\<lparr>m_ae := snd (app_entry_remove qsort (the (m_app_sel s3)) (m_ae s3)), m_app_sel := None\<rparr>)
        in Inr (emit (E_Gen_View BA_REFRESH None) s4)))"

definition load_app :: "inputs \<Rightarrow> main \<Rightarrow> main outcome" where
  "load_app i s =
     bind_out (app_at (m_app_sel s) s) (\<lambda>e.
     let s1 = emit (E_Load (m_app_sel s)) s; r = i_result i in
     Inr (case r_type r of
            LT_UNKNOWN \<Rightarrow> s1
          | LT_EXECUTABLE \<Rightarrow>
              start_executable i (From_App (the (m_app_sel s1)) (case meta e of None \<Rightarrow> False | Some m \<Rightarrow> ahb_access m))
                (case meta e of None \<Rightarrow> m_ahb s1 | Some m \<Rightarrow> ahb_access m) s1
          | LT_ZIP_APP \<Rightarrow> emit (E_Free_Data (r_data r)) s1
          | LT_ZIP_THEME \<Rightarrow> refresh_theme (m_app_sel s1) (r_data r) (r_data_len r) s1))"

definition detail_frame :: "sorter \<Rightarrow> inputs \<Rightarrow> main \<Rightarrow> main outcome" where
  "detail_frame qsort i s =
     (let s1 = (if pressed i PADS_LEFT then emit (E_Focus_Prev (m_current s)) s else s);
          s2 = (if pressed i PADS_RIGHT then emit (E_Focus_Next (m_current s1)) s1 else s1);
          dragging = (i_drag i \<and> i_drag_widget i = 6)
      in if \<not> dragging \<and> pressed i PADS_B then close_detail s2
         else bind_out (on_dialog (m_detail s2) (\<lambda>n. E_Scroll n (scroll_by i s2)) s2) (\<lambda>s3.
           if pressed i PADS_A \<and> i_focus i = 10 then close_detail s3
           else if pressed i PADS_A \<and> i_focus i = 8 then bind_out (close_detail s3) (delete_app qsort i)
           else if pressed i PADS_A \<and> i_focus i = 9 then bind_out (close_detail s3) (load_app i)
           else Inr s3))"

definition about_frame :: "inputs \<Rightarrow> main \<Rightarrow> main outcome" where
  "about_frame i s =
     (let s1 = (if pressed i PADS_A \<or> pressed i PADS_B then s\<lparr>m_exit_about := True\<rparr> else s) in
      if m_exit_about s1 then
        bind_out (on_view (m_current s1) (E_Fade (m_current s1) False) s1) (\<lambda>s2.
        bind_out (view_free (m_about s2) (s2\<lparr>m_current := V_Main\<rparr>)) (\<lambda>s3.
        Inr (emit (E_Cursor True) (s3\<lparr>m_about := None\<rparr>))))
      else if m_frame s1 > 120 \<and> m_frame s1 mod 3 = 0 then on_dialog (m_about s1) (\<lambda>n. E_Scroll n (- 1)) s1
      else Inr s1)"

section \<open>The loop\<close>

definition shows_dialog :: "nat option \<Rightarrow> main \<Rightarrow> bool" where
  "shows_dialog d s \<longleftrightarrow> (case d of None \<Rightarrow> False | Some n \<Rightarrow> m_current s = V_Dialog n)"

definition main_iter :: "sorter \<Rightarrow> allocator \<Rightarrow> inputs \<Rightarrow> main \<Rightarrow> main outcome" where
  "main_iter qsort alloc i s =
     bind_out (list_actions i s) (\<lambda>s1.
     bind_out (show_frame i s1) (\<lambda>s2.
     if pressed i PADS_HOME \<and> i_viewing i then Inr (home_button s2)
     else if m_current s2 = V_Main \<and> i_viewing i then menu_frame i s2
     else if m_current s2 = V_Browser then browser_frame qsort alloc i s2
     else if shows_dialog (m_detail s2) s2 \<and> i_viewing i then detail_frame qsort i s2
     else if shows_dialog (m_about s2) s2 \<and> i_viewing i then about_frame i s2
     else Inr s2))"

text \<open>The state before the loop, after the settings were loaded.\<close>

definition main_start :: "ae_state \<Rightarrow> string \<Rightarrow> u8 \<Rightarrow> main" where
  "main_start ae name fhw =
     \<lparr>m_ae = ae, m_views = {}, m_next = 0, m_current = V_Browser, m_last = V_Browser, m_detail = None, m_about = None,
      m_app_sel = None, m_app_name = name, m_menu = MENU_HOME, m_parent = MENU_HOME, m_frame = 0, m_loading = False,
      m_update_check = 60, m_updating = False, m_available = False, m_reloced = False, m_ep = None, m_ahb = False,
      m_bootmii = False, m_priiloader = False, m_reboot = False, m_should_exit = False, m_shutdown = False,
      m_exit_about = False, m_fhw = fhw, m_eggs = 0, m_egg = False, m_log = []\<rparr>"

section \<open>Leaving\<close>

record exit_inputs =
  x_browser :: "nat browser"
  x_stray :: "ptr option"
  x_world :: dev_world
  x_lock :: "nat \<Rightarrow> bool"
  x_returns :: "effect \<Rightarrow> bool"

text \<open>The calls up to the first that does not return.\<close>

fun until_gone :: "(effect \<Rightarrow> bool) \<Rightarrow> effect list \<Rightarrow> effect list" where
  "until_gone returns [] = []"
| "until_gone returns (e # es) = (if returns e then e # until_gone returns es else [e])"

definition leave :: "main \<Rightarrow> effect list" where
  "leave s =
     (if m_bootmii s then [E_Launch_BootMii] else [])
     @ (if m_priiloader s then [E_Poke_Priiloader, E_System_Menu] else [])
     @ (if m_reloced s
        then (if m_ahb s then [E_Patch_Ahb] else []) @ [E_Launch_IOS] @ (if m_ahb s then [E_Unlock_Dvd] else []) @ [E_Exec (m_ep s)]
        else [])
     @ (if m_reboot s then [E_Reboot] else [])
     @ (if m_shutdown s then [E_Power_Off] else [])
     @ [E_System_Menu]"

text \<open>The name of the selected application, byte by byte and without its NUL.\<close>

definition remember_name :: "App_Entry.app_entry \<Rightarrow> main \<Rightarrow> main outcome" where
  "remember_name e s = (if length (dirname e) > 64 then Inl Overrun else Inr (s\<lparr>m_app_name := map (char_of \<circ> lower) (dirname e)\<rparr>))"

definition fade_out :: "main \<Rightarrow> main outcome" where
  "fade_out s =
     (let s0 = emit (E_Cursor False) s in
      bind_out (case m_current s0 of V_Dialog n \<Rightarrow> on_view (V_Dialog n) (E_Fade (V_Dialog n) False) s0 | _ \<Rightarrow> Inr s0) (\<lambda>s1.
      on_view (m_current s1) (E_View_Fade (m_current s1)) s1))"

definition note_selection :: "nat browser \<Rightarrow> ptr option \<Rightarrow> main \<Rightarrow> main outcome" where
  "note_selection b stray s =
     (let s1 = take_selection b stray s
      in if m_app_sel s1 = None then Inr s1 else bind_out (app_at (m_app_sel s1) s1) (\<lambda>e. remember_name e s1))"

definition shut_down :: "exit_inputs \<Rightarrow> main \<Rightarrow> main" where
  "shut_down x s =
     (let s1 = emit E_Http_Deinit (emit E_Loader_Deinit s)
      in emit E_Settings_Save (emit E_Deinit_Screens (s1\<lparr>m_ae := app_entry_deinit (x_world x) (x_lock x) (m_ae s1)\<rparr>)))"

definition main_exit :: "exit_inputs \<Rightarrow> main \<Rightarrow> (main \<times> effect list) outcome" where
  "main_exit x s =
     bind_out (fade_out s) (\<lambda>s1.
     bind_out (note_selection (x_browser x) (x_stray x) (emit E_Controls_Deinit (emit E_Dvd_ShutDown s1))) (\<lambda>s2.
     let t = shut_down x s2 in Inr (t, until_gone (x_returns x) (leave t))))"

section \<open>Runs\<close>

text \<open>Whatever the list of applications holds at the start and whatever its thread does.\<close>

inductive main_step :: "dev_world \<Rightarrow> sorter \<Rightarrow> allocator \<Rightarrow> main \<Rightarrow> main \<Rightarrow> bool" for w qsort alloc where
  iterates: "\<not> m_should_exit s \<Longrightarrow> main_iter qsort alloc i s = Inr t \<Longrightarrow> main_step w qsort alloc s t"
| device: "main_step w qsort alloc s (s\<lparr>m_ae := ae_wake w qsort alloc fs (m_ae s)\<rparr>)"
| resets: "main_step w qsort alloc s (reset_cb s)"
| powers: "main_step w qsort alloc s (power_cb s)"

inductive main_reach :: "dev_world \<Rightarrow> sorter \<Rightarrow> allocator \<Rightarrow> main \<Rightarrow> bool" for w qsort alloc where
  starts: "main_reach w qsort alloc (main_start ae name fhw)"
| moves: "main_reach w qsort alloc s \<Longrightarrow> main_step w qsort alloc s t \<Longrightarrow> main_reach w qsort alloc t"

section \<open>Outcomes\<close>

definition ends :: "fault set \<Rightarrow> ('a \<Rightarrow> bool) \<Rightarrow> 'a outcome \<Rightarrow> bool" where
  "ends F P r \<longleftrightarrow> (case r of Inl f \<Rightarrow> f \<in> F | Inr x \<Rightarrow> P x)"

lemma ends_simps [simp]: "ends F P (Inl f) \<longleftrightarrow> f \<in> F" "ends F P (Inr x) \<longleftrightarrow> P x"
  by (simp_all add: ends_def)

lemma ends_bind: "ends F Q r \<Longrightarrow> (\<And>x. Q x \<Longrightarrow> ends F P (f x)) \<Longrightarrow> ends F P (bind_out r f)"
  by (cases r) simp_all

lemma ends_mono: "ends F P r \<Longrightarrow> (\<And>x. P x \<Longrightarrow> Q x) \<Longrightarrow> ends F Q r"
  by (cases r) simp_all

section \<open>Dialogs and applications in use\<close>

text \<open>
  One dialog at most is there, the one that is shown. With \<open>apps\<close> also the list of applications is in order and the
  application of the dialog is live.
\<close>

definition app_live :: "bool \<Rightarrow> ptr option \<Rightarrow> ae_state \<Rightarrow> bool" where
  "app_live apps a ae \<longleftrightarrow> (apps \<longrightarrow> (\<exists>p e. a = Some p \<and> ae_heap ae p = Some e))"

definition dialogs :: "main \<Rightarrow> nat set \<times> view_ptr \<times> nat option \<times> nat option" where
  "dialogs s = (m_views s, m_current s, m_detail s, m_about s)"

definition dialogs_ok :: "nat set \<times> view_ptr \<times> nat option \<times> nat option \<Rightarrow> bool" where
  "dialogs_ok d \<longleftrightarrow>
     (case d of (vs, V_Dialog n, de, ab) \<Rightarrow> vs = {n} \<and> (de = Some n \<and> ab = None \<or> de = None \<and> ab = Some n)
      | (vs, _, de, ab) \<Rightarrow> vs = {} \<and> de = None \<and> ab = None)"

definition main_ok :: "bool \<Rightarrow> main \<Rightarrow> bool" where
  "main_ok apps s \<longleftrightarrow> (apps \<longrightarrow> ae_ok (m_ae s)) \<and> dialogs_ok (dialogs s) \<and> (m_detail s \<noteq> None \<longrightarrow> app_live apps (m_app_sel s) (m_ae s))"

text \<open>No name overruns the settings.\<close>

definition short_names :: "main \<Rightarrow> bool" where
  "short_names s \<longleftrightarrow> (\<forall>p e. ae_heap (m_ae s) p = Some e \<longrightarrow> length (dirname e) < 64)"

definition faults :: "bool \<Rightarrow> bool \<Rightarrow> fault set" where
  "faults apps short = {f. f = Overrun \<and> \<not> short \<or> f = Freed_Entry \<and> \<not> apps}"

lemma emit_simps [simp]:
  "m_ae (emit e s) = m_ae s" "dialogs (emit e s) = dialogs s" "m_app_sel (emit e s) = m_app_sel s"
  "m_views (emit e s) = m_views s" "m_current (emit e s) = m_current s" "m_detail (emit e s) = m_detail s" "m_about (emit e s) = m_about s"
  "main_ok c (emit e s) = main_ok c s" "listed (emit e s) = listed s" "m_should_exit (emit e s) = m_should_exit s"
  "m_frame (emit e s) = m_frame s" "m_loading (emit e s) = m_loading s" "m_available (emit e s) = m_available s"
  "m_menu (emit e s) = m_menu s" "m_log (emit e s) = e # m_log s"
  by (simp_all add: emit_def dialogs_def main_ok_def listed_def)

lemma shows_dialog_emit [simp]: "shows_dialog d (emit e s) = shows_dialog d s"
  by (simp add: shows_dialog_def split: option.split)

lemma main_ok_frame [simp]:
  "main_ok c (s\<lparr>m_app_name := a1\<rparr>) = main_ok c s" "main_ok c (s\<lparr>m_menu := a2\<rparr>) = main_ok c s" "main_ok c (s\<lparr>m_parent := a2\<rparr>) = main_ok c s"
  "main_ok c (s\<lparr>m_frame := a4\<rparr>) = main_ok c s" "main_ok c (s\<lparr>m_loading := b\<rparr>) = main_ok c s" "main_ok c (s\<lparr>m_last := a5\<rparr>) = main_ok c s"
  "main_ok c (s\<lparr>m_update_check := a6\<rparr>) = main_ok c s" "main_ok c (s\<lparr>m_updating := b\<rparr>) = main_ok c s" "main_ok c (s\<lparr>m_available := b\<rparr>) = main_ok c s"
  "main_ok c (s\<lparr>m_reloced := b\<rparr>) = main_ok c s" "main_ok c (s\<lparr>m_ep := a7\<rparr>) = main_ok c s" "main_ok c (s\<lparr>m_ahb := b\<rparr>) = main_ok c s"
  "main_ok c (s\<lparr>m_bootmii := b\<rparr>) = main_ok c s" "main_ok c (s\<lparr>m_priiloader := b\<rparr>) = main_ok c s" "main_ok c (s\<lparr>m_reboot := b\<rparr>) = main_ok c s"
  "main_ok c (s\<lparr>m_should_exit := b\<rparr>) = main_ok c s" "main_ok c (s\<lparr>m_shutdown := b\<rparr>) = main_ok c s" "main_ok c (s\<lparr>m_exit_about := b\<rparr>) = main_ok c s"
  "main_ok c (s\<lparr>m_fhw := a8\<rparr>) = main_ok c s" "main_ok c (s\<lparr>m_eggs := a8\<rparr>) = main_ok c s" "main_ok c (s\<lparr>m_egg := b\<rparr>) = main_ok c s"
  by (simp_all add: main_ok_def dialogs_def)

lemma main_ok_current:
  "main_ok c s \<Longrightarrow> view_live (m_current s) s"
  by (cases "m_current s") (simp_all add: main_ok_def dialogs_ok_def dialogs_def view_live_def)

lemma on_current: "main_ok c s \<Longrightarrow> ends F (main_ok c) (on_view (m_current s) e s)"
  using main_ok_current[of c s] by (simp add: on_view_def)

lemma listed_live:
  assumes "main_ok True s" and "p \<in> set (listed s)"
  shows "\<exists>e. ae_heap (m_ae s) p = Some e"
proof -
  have t: "table_ok (m_ae s)" "App_Entry.view_ok (m_ae s)" using assms(1) by (simp_all add: main_ok_def ae_ok_def)
  then obtain ps where ps: "entries (m_ae s) = map Some ps @ replicate (MAX_ENTRIES - length ps) None" "entry_count (m_ae s) = length ps"
      "set ps \<subseteq> set (pointers (entries_all (m_ae s)))" by (auto simp: App_Entry.view_ok_def)
  have "pointers (map Some ps) = ps" by (induction ps) simp_all
  then have "listed s = ps" by (simp add: listed_def ps)
  with ps(3) assms(2) t(1) show ?thesis by (auto simp: table_ok_def)
qed

text \<open>What is selected in a list in order is live, or behind the list.\<close>

lemma browser_sel_mem: "browser_sel es b = Entry p \<Longrightarrow> p \<in> set es"
  by (auto simp: browser_sel_def Let_def split: if_splits)

lemma selected_live:
  assumes "main_ok True s" and "m_app_sel (take_selection b None s) = Some p"
  shows "\<exists>e. ae_heap (m_ae s) p = Some e"
  using assms(2) browser_sel_mem[of "listed s" b] listed_live[OF assms(1)]
  by (auto simp: take_selection_def split: selection.splits)

lemma take_selection_simps [simp]:
  "m_ae (take_selection b st s) = m_ae s" "m_detail (take_selection b st s) = m_detail s" "m_current (take_selection b st s) = m_current s"
  "m_views (take_selection b st s) = m_views s" "listed (take_selection b st s) = listed s"
  by (simp_all add: take_selection_def listed_def)

lemma ae_ok_free: "ae_ok s \<Longrightarrow> ae_ok (app_entries_free s)"
  unfolding ae_ok_def by (simp add: table_ok_free view_ok_free)

lemma ae_ok_keeps:
  "ae_ok s \<Longrightarrow> ae_ok (snd (app_entry_action b s))"
  "ae_ok s \<Longrightarrow> ae_ok (app_entry_scan b s)"
  "ae_ok s \<Longrightarrow> ae_ok (app_entry_set_sort srt s)"
  "ae_ok s \<Longrightarrow> ae_ok (app_entry_set_prefered d s)"
  "ae_ok s \<Longrightarrow> ae_ok (app_entry_set_device d s)"
  by (auto simp: app_entry_action_def app_entry_scan_def app_entry_command_def
      app_entry_set_sort_def app_entry_set_prefered_def app_entry_set_device_def Let_def split: app_sort.splits)


text \<open>Where no dialog of an application is shown, the application does not matter.\<close>

lemma main_ok_app:
  "m_detail s = None \<Longrightarrow> main_ok c (s\<lparr>m_app_sel := a\<rparr>) = main_ok c s"
  by (simp add: main_ok_def dialogs_def)

lemma take_selection_ok [simp]: "m_detail s = None \<Longrightarrow> main_ok c (take_selection b st s) = main_ok c s"
  by (simp add: take_selection_def main_ok_app)

lemma main_ok_dialogs: "main_ok c s \<Longrightarrow> main_ok False s"
  by (simp add: main_ok_def app_live_def)

lemma main_ok_ae:
  "main_ok c s \<Longrightarrow> c \<longrightarrow> ae_ok ae \<Longrightarrow> m_detail s = None \<or> ae_heap ae = ae_heap (m_ae s) \<Longrightarrow> main_ok c (s\<lparr>m_ae := ae\<rparr>)"
  by (auto simp: main_ok_def dialogs_def app_live_def)

lemma main_ok_freed: "main_ok c s \<Longrightarrow> m_detail s = None \<Longrightarrow> main_ok c (s\<lparr>m_ae := app_entries_free (m_ae s)\<rparr>)"
  by (rule main_ok_ae) (simp_all add: main_ok_def ae_ok_free)

lemma no_detail: "main_ok c s \<Longrightarrow> m_current s \<in> {V_Browser, V_Main} \<Longrightarrow> m_detail s = None \<and> m_about s = None \<and> m_views s = {}"
  by (auto simp: main_ok_def dialogs_ok_def dialogs_def)

lemma show_menu_ok [simp]: "main_ok c (show_menu m s) = main_ok c s" "m_current (show_menu m s) = m_current s"
  by (simp_all add: show_menu_def)

text \<open>Between the two static views.\<close>

lemma main_ok_switch:
  "main_ok c s \<Longrightarrow> m_current s \<in> {V_Browser, V_Main} \<Longrightarrow> v \<in> {V_Browser, V_Main} \<Longrightarrow> main_ok c (s\<lparr>m_current := v\<rparr>)"
  by (auto simp: main_ok_def dialogs_ok_def dialogs_def)

lemma app_at_live: "ae_heap (m_ae s) p = Some e \<Longrightarrow> app_at (Some p) s = Inr e"
  by (simp add: app_at_def)

lemma list_actions_ok:
  assumes ok: "main_ok c s" and sel: "c \<longrightarrow> i_stray i = None"
  shows "ends (faults c (short_names s)) (main_ok c) (list_actions i s)"
proof (cases "m_current s = V_Browser")
  case True
  obtain act ae where act: "app_entry_action (i_lock_action i) (m_ae s) = (act, ae)" by fastforce
  let ?s = "s\<lparr>m_ae := ae\<rparr>"
  have "ae = snd (app_entry_action (i_lock_action i) (m_ae s))" by (simp add: act)
  then have ae: "c \<longrightarrow> ae_ok ae" "ae_heap ae = ae_heap (m_ae s)" using ok ae_ok_keeps(1)[of "m_ae s"]
    by (auto simp: main_ok_def app_entry_action_def)
  have ok1: "main_ok c ?s" by (rule main_ok_ae[OF ok ae(1)]) (simp add: ae(2))
  have det: "m_detail s = None" using no_detail[OF ok] True by simp
  show ?thesis
  proof (cases act)
    case AE_ACT_REMOVE
    let ?s2 = "take_selection (i_browser i) (i_stray i) ?s"
    have ok2: "main_ok c ?s2" using ok1 det by simp
    have "ends (faults c (short_names s)) (\<lambda>t. main_ok c t \<and> m_detail t = None)
        (if m_app_sel ?s2 = None then Inr ?s2 else bind_out (app_at (m_app_sel ?s2) ?s2) (\<lambda>e. keep_name e ?s2))"
    proof (cases "m_app_sel ?s2")
      case None
      then show ?thesis using ok2 det by simp
    next
      case (Some p)
      show ?thesis
      proof (cases "ae_heap ae p")
        case None
        then have "\<not> c" using selected_live[of ?s "i_browser i" p] ok1 sel Some by (cases c) auto
        with None Some show ?thesis by (simp add: app_at_def faults_def)
      next
        case e: (Some e)
        then have "app_at (m_app_sel ?s2) ?s2 = Inr e" unfolding Some by (simp add: app_at_def)
        moreover have "short_names s \<longrightarrow> length (dirname e) < 64" using e ae(2) by (simp add: short_names_def)
        ultimately show ?thesis using Some ok2 det by (auto simp: keep_name_def faults_def)
      qed
    qed
    then have "ends (faults c (short_names s)) (main_ok c)
        (bind_out (if m_app_sel ?s2 = None then Inr ?s2 else bind_out (app_at (m_app_sel ?s2) ?s2) (\<lambda>e. keep_name e ?s2)) (\<lambda>s3.
           let s4 = emit (E_Gen_View BA_REMOVE None) (emit E_Popall s3) in Inr (s4\<lparr>m_ae := app_entries_free (m_ae s4)\<rparr>)))"
      by (rule ends_bind) (use main_ok_freed[of c "emit (E_Gen_View BA_REMOVE None) (emit E_Popall x)" for x] in \<open>simp add: Let_def\<close>)
    then show ?thesis unfolding list_actions_def act by (simp add: True AE_ACT_REMOVE Let_def)
  qed (use True act ok1 det in \<open>simp_all add: list_actions_def Let_def main_ok_app\<close>)
qed (simp add: list_actions_def ok)

lemma show_frame_ok: "main_ok c s \<Longrightarrow> ends F (main_ok c) (show_frame i s)"
proof -
  assume ok: "main_ok c s"
  define s1 where "s1 = (if m_loading s \<noteq> app_entry_is_loading (m_ae s) then emit (E_Throbber (\<not> m_loading s)) (s\<lparr>m_loading := \<not> m_loading s\<rparr>) else s)"
  define s2 where "s2 = (if m_loading s1 then emit E_Throbber_Tickle s1 else s1)"
  define s3 where "s3 = (if m_frame s2 mod 30 = 0 then s2\<lparr>m_ae := app_entry_scan (i_lock_scan i) (m_ae s2)\<rparr> else s2)"
  have "main_ok c s1" using ok by (simp add: s1_def)
  then have ok2: "main_ok c s2" by (simp add: s2_def)
  then have "c \<longrightarrow> ae_ok (m_ae s2)" by (simp add: main_ok_def)
  then have "main_ok c (s2\<lparr>m_ae := app_entry_scan (i_lock_scan i) (m_ae s2)\<rparr>)"
    using ae_ok_keeps(2)[of "m_ae s2"] by (intro main_ok_ae[OF ok2]) (simp_all add: app_entry_scan_def app_entry_command_def)
  then have ok3: "main_ok c s3" using ok2 by (simp add: s3_def)
  show ?thesis unfolding show_frame_def Let_def s1_def[symmetric] s2_def[symmetric] s3_def[symmetric]
    by (rule ends_bind[OF on_current[OF ok3]]) simp
qed

section \<open>Each view keeps the invariant\<close>

lemma new_dialog_ok:
  assumes "main_ok c s" and "m_current s \<in> {V_Browser, V_Main}" and "dialog_new e s = (n, t)"
  shows "main_ok c (t\<lparr>m_about := Some n, m_current := V_Dialog n\<rparr>)" "view_live (V_Dialog n) (t\<lparr>m_about := Some n, m_current := V_Dialog n\<rparr>)"
    and "app_live c (m_app_sel s) (m_ae s) \<Longrightarrow> main_ok c (t\<lparr>m_detail := Some n, m_current := V_Dialog n\<rparr>)"
    and "view_live (V_Dialog n) (t\<lparr>m_detail := Some n, m_current := V_Dialog n\<rparr>)"
  using assms no_detail[OF assms(1,2)]
  by (auto simp: dialog_new_def main_ok_def dialogs_ok_def dialogs_def emit_def view_live_def)

lemma home_button_ok: "main_ok c s \<Longrightarrow> main_ok c (home_button s)"
  by (auto simp: home_button_def intro!: main_ok_switch)

lemma menu_home_ok: "main_ok c s \<Longrightarrow> m_current s = V_Main \<Longrightarrow> ends F (main_ok c) (menu_home f s)"
proof -
  assume ok: "main_ok c s" and v: "m_current s = V_Main"
  obtain n t where d: "dialog_new E_About s = (n, t)" by fastforce
  have "ends F (main_ok c) (on_view (V_Dialog n) e (emit e' (t\<lparr>m_about := Some n, m_current := V_Dialog n\<rparr>)))" for e e'
    using new_dialog_ok(1,2)[OF ok _ d] v by (simp add: on_view_def view_live_def)
  then have "ends F (main_ok c) (bind_out (on_view (V_Dialog n) e (emit e' (t\<lparr>m_about := Some n, m_current := V_Dialog n\<rparr>)))
      (\<lambda>s2. Inr (s2\<lparr>m_exit_about := False\<rparr>)))" for e e'
    by (rule ends_bind) simp
  then show ?thesis using ok by (simp add: menu_home_def d)
qed

lemma menu_frame_ok:
  assumes ok: "main_ok c s" and v: "m_current s = V_Main"
  shows "ends F (main_ok c) (menu_frame i s)"
proof -
  have "main_ok c (menu_exit f t) = main_ok c t" for f t by (simp add: menu_exit_def)
  then show ?thesis using ok v main_ok_switch[OF ok, of V_Browser]
    by (auto simp: menu_frame_def Let_def main_ok_switch intro!: menu_home_ok split: menu.split)
qed

lemma browser_parts_ok [simp]:
  "main_ok c (browser_icons i s) = main_ok c s" "m_current (browser_icons i s) = m_current s"
  "main_ok c (update_frame i s) = main_ok c s" "m_current (update_frame i s) = m_current s"
  "main_ok c (turn_pages i s) = main_ok c s" "m_current (turn_pages i s) = m_current s"
  by (simp_all add: browser_icons_def update_frame_def turn_pages_def Let_def split: option.split)

lemma update_execute_frame_ok: "main_ok c s \<Longrightarrow> main_ok c (update_execute_frame i s)"
  by (simp add: update_execute_frame_def reset_cb_def power_cb_def Let_def split: option.split)

lemma options_frame_ok: "main_ok c s \<Longrightarrow> m_current s = V_Browser \<Longrightarrow> main_ok c (options_frame i s)"
proof -
  assume ok: "main_ok c s" and v: "m_current s = V_Browser"
  have "c \<longrightarrow> ae_ok (m_ae s)" using ok by (simp add: main_ok_def)
  then show ?thesis using ok no_detail[OF ok] v
    by (auto simp: options_frame_def Let_def split: option.split intro!: main_ok_ae ae_ok_keeps)
qed

lemma open_detail_ok:
  assumes ok: "main_ok c s" and v: "m_current s = V_Browser" and sel: "c \<longrightarrow> i_stray i = None"
  shows "ends (faults c sh) (main_ok c) (open_detail i s)"
proof -
  let ?s = "take_selection (i_browser i) (i_stray i) s"
  have ok1: "main_ok c ?s" using ok no_detail[OF ok] v by simp
  show ?thesis
  proof (cases "m_app_sel ?s")
    case None
    then show ?thesis using ok1 by (simp add: open_detail_def Let_def)
  next
    case (Some p)
    obtain n t where d: "dialog_new (\<lambda>n. E_Dialog_App n p) ?s = (n, t)" by fastforce
    have live: "c \<Longrightarrow> \<exists>e. ae_heap (m_ae s) p = Some e" using selected_live[of s "i_browser i" p] ok sel Some by auto
    show ?thesis
    proof (cases "ae_heap (m_ae s) p")
      case None
      with live have "\<not> c" by auto
      with None Some show ?thesis by (simp add: open_detail_def Let_def app_at_def faults_def)
    next
      case e: (Some e)
      have "app_live c (m_app_sel ?s) (m_ae ?s)" using e Some by (simp add: app_live_def)
      with new_dialog_ok(3,4)[OF ok1 _ d] v
      have "ends (faults c sh) (main_ok c) (on_view (V_Dialog n) x (t\<lparr>m_detail := Some n, m_current := V_Dialog n\<rparr>))" for x
        by (simp add: on_view_def)
      moreover have "app_at (Some p) ?s = Inr e" using e by (simp add: app_at_def)
      ultimately show ?thesis using Some by (simp add: open_detail_def Let_def d)
    qed
  qed
qed

lemma start_executable_ok [simp]: "main_ok c (start_executable i org b s) = main_ok c s"
  by (simp add: start_executable_def Let_def split: option.split)

lemma refresh_theme_ok [simp]: "main_ok c (refresh_theme a d l s) = main_ok c s"
  by (simp add: refresh_theme_def)

lemma network_load_ok:
  assumes ok: "main_ok c s" and v: "m_current s = V_Browser"
  shows "main_ok False (network_load qsort alloc i s)"
proof -
  have det: "m_detail s = None" using no_detail[OF ok] v by simp
  have "main_ok False (t\<lparr>m_ae := ae, m_app_sel := p\<rparr>)" if "main_ok False t" "m_detail t = None" for p ae t
    using main_ok_ae[OF that(1), of ae] that(2) by (simp add: main_ok_app)
  then show ?thesis using main_ok_dialogs[OF ok] det
    by (auto simp: network_load_def Let_def split: loader_type.split prod.split)
qed

text \<open>What an application is added to or removed from may be in disorder, but nothing of the iteration comes after it.\<close>

lemma browser_frame_ok:
  assumes ok: "main_ok c s" and v: "m_current s = V_Browser" and sel: "c \<longrightarrow> i_stray i = None"
  shows "ends (faults c sh) (main_ok False) (browser_frame qsort alloc i s)"
proof -
  define s1 where "s1 = update_frame i (browser_icons i s)"
  have ok1: "main_ok c s1" and v1: "m_current s1 = V_Browser" using ok v by (simp_all add: s1_def)
  note ok2 = main_ok_dialogs[OF ok1]
  have "ends (faults c sh) (main_ok False) (browser_click i s1)"
    using ok2 ends_mono[OF open_detail_ok[OF ok1 v1 sel] main_ok_dialogs] by (simp add: browser_click_def Let_def)
  then have "ends (faults c sh) (main_ok False) r" if "browser_buttons i s1 = Some r" for r
    using that ok2 options_frame_ok[OF ok2 v1] by (auto simp: browser_buttons_def split: if_splits)
  then show ?thesis
    unfolding browser_frame_def Let_def s1_def[symmetric]
    using ok2 v1 update_execute_frame_ok[OF ok2] network_load_ok[of False "turn_pages i s1"]
    by (auto split: option.split)
qed

text \<open>Closing the dialog of an application leaves the application as it was.\<close>

lemma close_detail_ok:
  assumes ok: "main_ok c s" and d: "shows_dialog (m_detail s) s"
  shows "ends F (\<lambda>t. main_ok c t \<and> m_current t = V_Browser \<and> app_live c (m_app_sel t) (m_ae t)) (close_detail s)"
proof -
  obtain n where n: "m_detail s = Some n" "m_current s = V_Dialog n" using d by (auto simp: shows_dialog_def split: option.splits)
  then have s: "c \<longrightarrow> ae_ok (m_ae s)" "m_views s = {n}" "m_about s = None" "app_live c (m_app_sel s) (m_ae s)"
    using ok by (auto simp: main_ok_def dialogs_ok_def dialogs_def)
  then show ?thesis using n
    by (simp add: close_detail_def on_view_def view_live_def view_free_def main_ok_def dialogs_def dialogs_ok_def)
qed

lemma delete_app_ok:
  assumes ok: "main_ok c s" and v: "m_current s = V_Browser" and app: "app_live c (m_app_sel s) (m_ae s)"
  shows "ends (faults c sh) (main_ok False) (delete_app qsort i s)"
proof -
  let ?s = "emit (E_Gen_View BA_REMOVE None) (emit (E_Message (m_current s) Msg_Delete) s)"
  have det: "m_detail s = None" using no_detail[OF ok] v by simp
  note ok2 = main_ok_dialogs[OF ok]
  have removed: "main_ok False (t\<lparr>m_ae := ae, m_app_sel := None\<rparr>)" if "main_ok False t" "m_detail t = None" for t ae
    using main_ok_ae[OF that(1), of ae] that(2) by (simp add: main_ok_app)
  have "ends (faults c sh) (\<lambda>e. True) (app_at (m_app_sel ?s) ?s)"
    using app by (auto simp: app_at_def faults_def app_live_def split: option.splits)
  then have "ends (faults c sh) (main_ok False) (bind_out (app_at (m_app_sel ?s) ?s) (\<lambda>e.
      let s3 = emit (E_Manage (dirname e)) ?s;
          s4 = (if \<not> i_managed i then emit (E_Message (m_current s3) (Msg_Delete_Failed (dirname e))) s3
                else s3\<lparr>m_ae := snd (app_entry_remove qsort (the (m_app_sel s3)) (m_ae s3)), m_app_sel := None\<rparr>)
      in Inr (emit (E_Gen_View BA_REFRESH None) s4)))"
    by (rule ends_bind) (use ok2 det removed in \<open>simp add: Let_def\<close>)
  then show ?thesis using ok2 by (simp add: delete_app_def Let_def)
qed

lemma load_app_ok:
  assumes ok: "main_ok c s" and app: "app_live c (m_app_sel s) (m_ae s)"
  shows "ends (faults c sh) (main_ok c) (load_app i s)"
proof -
  have "ends (faults c sh) (\<lambda>e. True) (app_at (m_app_sel s) s)"
    using app by (auto simp: app_at_def faults_def app_live_def split: option.splits)
  then show ?thesis unfolding load_app_def
    by (rule ends_bind) (use ok in \<open>simp add: Let_def split: loader_type.split option.split\<close>)
qed

lemma detail_frame_ok:
  assumes ok: "main_ok c s" and d: "shows_dialog (m_detail s) s"
  shows "ends (faults c sh) (main_ok False) (detail_frame qsort i s)"
proof -
  define s1 where "s1 = (if pressed i PADS_LEFT then emit (E_Focus_Prev (m_current s)) s else s)"
  define s2 where "s2 = (if pressed i PADS_RIGHT then emit (E_Focus_Next (m_current s1)) s1 else s1)"
  have ok2: "main_ok c s2" and d2: "shows_dialog (m_detail s2) s2" using ok d by (simp_all add: s2_def s1_def)
  have shut: "ends (faults c sh) (main_ok False) (close_detail t)" if "main_ok c t" "shows_dialog (m_detail t) t" for t
    using close_detail_ok[OF that] by (rule ends_mono) (blast intro: main_ok_dialogs)
  have then_shut: "ends (faults c sh) (main_ok False) (bind_out (close_detail t) f)"
    if "main_ok c t" "shows_dialog (m_detail t) t"
      "\<And>u. main_ok c u \<Longrightarrow> m_current u = V_Browser \<Longrightarrow> app_live c (m_app_sel u) (m_ae u) \<Longrightarrow> ends (faults c sh) (main_ok False) (f u)" for t f
    using close_detail_ok[OF that(1,2)] by (rule ends_bind) (simp add: that(3))
  obtain n where n: "m_detail s2 = Some n" "m_current s2 = V_Dialog n" using d2 by (auto simp: shows_dialog_def split: option.splits)
  have "ends (faults c sh) (\<lambda>t. main_ok c t \<and> shows_dialog (m_detail t) t) (on_dialog (m_detail s2) f s2)" for f
    using main_ok_current[OF ok2] ok2 d2 n by (simp add: on_dialog_def on_view_def shows_dialog_def)
  note scrolled = ends_bind[OF this]
  show ?thesis unfolding detail_frame_def Let_def s1_def[symmetric] s2_def[symmetric]
    using shut[OF ok2 d2]
    by (auto intro!: scrolled shut then_shut delete_app_ok ends_mono[OF load_app_ok main_ok_dialogs] intro: main_ok_dialogs)
qed

lemma about_frame_ok:
  assumes ok: "main_ok c s" and d: "shows_dialog (m_about s) s"
  shows "ends F (main_ok c) (about_frame i s)"
proof -
  obtain n where n: "m_about s = Some n" "m_current s = V_Dialog n" using d by (auto simp: shows_dialog_def split: option.splits)
  then have s: "m_views s = {n}" "m_detail s = None" using ok by (auto simp: main_ok_def dialogs_ok_def dialogs_def)
  have "c \<longrightarrow> ae_ok (m_ae s)" using ok by (simp add: main_ok_def)
  then show ?thesis using ok n s
    by (simp add: about_frame_def Let_def on_dialog_def on_view_def view_live_def view_free_def main_ok_def dialogs_def dialogs_ok_def)
qed

lemma main_iter_ok:
  assumes ok: "main_ok c s" and sel: "c \<longrightarrow> i_stray i = None"
  shows "ends (faults c (short_names s)) (main_ok False) (main_iter qsort alloc i s)"
  unfolding main_iter_def
proof (rule ends_bind[OF list_actions_ok[OF ok sel]], rule ends_bind[OF show_frame_ok])
  fix t assume t: "main_ok c t"
  note d = main_ok_dialogs[OF t]
  show "ends (faults c (short_names s)) (main_ok False)
     (if pressed i PADS_HOME \<and> i_viewing i then Inr (home_button t)
      else if m_current t = V_Main \<and> i_viewing i then menu_frame i t
      else if m_current t = V_Browser then browser_frame qsort alloc i t
      else if shows_dialog (m_detail t) t \<and> i_viewing i then detail_frame qsort i t
      else if shows_dialog (m_about t) t \<and> i_viewing i then about_frame i t
      else Inr t)"
    using home_button_ok[OF d] menu_frame_ok[OF d] browser_frame_ok[OF t _ sel] detail_frame_ok[OF t] about_frame_ok[OF d]
    by (simp add: d)
qed

text \<open>
  While the list is in order and the application of a dialog is live, an iteration comes to its end: nothing that was freed is
  used and no name overruns its buffer, provided that the names are short and that there are null pointers behind the list.
  The pictures of the page are drawn by the browser and not looked at here.
\<close>

lemma main_iter_returns:
  assumes "main_ok True s" and "i_stray i = None" and "short_names s"
  shows "\<exists>t. main_iter qsort alloc i s = Inr t"
  using main_iter_ok[of True s i qsort alloc] assms by (cases "main_iter qsort alloc i s") (simp_all add: faults_def)

section \<open>Reachable states\<close>

lemma main_step_ok: "main_step w qsort alloc s t \<Longrightarrow> main_ok False s \<Longrightarrow> main_ok False t"
proof (induction rule: main_step.induct)
  case (iterates s i t)
  from main_iter_ok[of False s i] iterates(2,3) show ?case by (metis ends_simps(2))
qed (simp_all add: reset_cb_def power_cb_def main_ok_def dialogs_def app_live_def)

lemma main_reach_ok: "main_reach w qsort alloc s \<Longrightarrow> main_ok False s"
proof (induction rule: main_reach.induct)
  case (starts ae name fhw)
  then show ?case by (simp add: main_ok_def main_start_def dialogs_def dialogs_ok_def)
qed (rule main_step_ok)


section \<open>What is started\<close>

fun is_load :: "effect \<Rightarrow> bool" where
  "is_load (E_Loaded org ep) = True"
| "is_load _ = False"

definition loads :: "main \<Rightarrow> effect list" where "loads s = filter is_load (m_log s)"

definition wants_ahb :: "origin \<Rightarrow> bool" where
  "wants_ahb org = (case org of From_Network \<Rightarrow> True | From_Update \<Rightarrow> False | From_App p a \<Rightarrow> a)"

text \<open>Nothing is loaded, or one program is and the loop ends.\<close>

definition quiet :: "main \<Rightarrow> bool" where "quiet s \<longleftrightarrow> \<not> m_reloced s \<and> \<not> m_ahb s \<and> loads s = []"

definition launch_ok :: "main \<Rightarrow> bool" where
  "launch_ok s \<longleftrightarrow> quiet s \<or> m_reloced s \<and> m_should_exit s
     \<and> (\<exists>org ep. loads s = [E_Loaded org ep] \<and> m_ep s = Some ep \<and> m_ahb s = wants_ahb org)"

lemma quiet_launch: "quiet s \<Longrightarrow> launch_ok s"
  by (simp add: launch_ok_def)

lemma quiet_ends: "ends F quiet r \<Longrightarrow> ends F launch_ok r"
  by (erule ends_mono) (rule quiet_launch)

lemma quiet_emit [simp]: "quiet (emit e s) \<longleftrightarrow> \<not> is_load e \<and> quiet s"
  by (auto simp: quiet_def loads_def emit_def)

lemma quiet_frame [simp]:
  "quiet (s\<lparr>m_ae := x1\<rparr>) = quiet s" "quiet (s\<lparr>m_views := x2\<rparr>) = quiet s" "quiet (s\<lparr>m_next := x3\<rparr>) = quiet s"
  "quiet (s\<lparr>m_current := x4\<rparr>) = quiet s" "quiet (s\<lparr>m_last := x4\<rparr>) = quiet s" "quiet (s\<lparr>m_detail := x5\<rparr>) = quiet s"
  "quiet (s\<lparr>m_about := x5\<rparr>) = quiet s" "quiet (s\<lparr>m_app_sel := x5\<rparr>) = quiet s" "quiet (s\<lparr>m_app_name := x6\<rparr>) = quiet s"
  "quiet (s\<lparr>m_menu := x7\<rparr>) = quiet s" "quiet (s\<lparr>m_parent := x7\<rparr>) = quiet s" "quiet (s\<lparr>m_frame := x8\<rparr>) = quiet s"
  "quiet (s\<lparr>m_loading := b\<rparr>) = quiet s" "quiet (s\<lparr>m_update_check := x9\<rparr>) = quiet s" "quiet (s\<lparr>m_updating := b\<rparr>) = quiet s"
  "quiet (s\<lparr>m_available := b\<rparr>) = quiet s" "quiet (s\<lparr>m_bootmii := b\<rparr>) = quiet s" "quiet (s\<lparr>m_priiloader := b\<rparr>) = quiet s"
  "quiet (s\<lparr>m_reboot := b\<rparr>) = quiet s" "quiet (s\<lparr>m_should_exit := b\<rparr>) = quiet s" "quiet (s\<lparr>m_shutdown := b\<rparr>) = quiet s"
  "quiet (s\<lparr>m_exit_about := b\<rparr>) = quiet s" "quiet (s\<lparr>m_fhw := x10\<rparr>) = quiet s" "quiet (s\<lparr>m_eggs := x10\<rparr>) = quiet s"
  "quiet (s\<lparr>m_egg := b\<rparr>) = quiet s"
  by (simp_all add: quiet_def loads_def)

lemma ends_any [simp]: "ends UNIV (\<lambda>x. True) r"
  by (cases r) simp_all

lemma quiet_on_view: "quiet s \<Longrightarrow> \<not> is_load e \<Longrightarrow> ends UNIV quiet (on_view v e s)"
  by (simp add: on_view_def)

lemma list_actions_quiet: "quiet s \<Longrightarrow> ends UNIV quiet (list_actions i s)"
proof -
  assume q: "quiet s"
  have k: "ends UNIV quiet (keep_name e t)" if "quiet t" for e t using that by (simp add: keep_name_def)
  have "ends UNIV quiet (bind_out (app_at a t) (\<lambda>e. keep_name e t))" if "quiet t" for a t
    by (rule ends_bind[of UNIV "\<lambda>e. True"]) (simp_all add: k that)
  then show ?thesis using q
    by (auto simp: list_actions_def take_selection_def Let_def split: prod.split ae_action.split intro!: ends_bind[of UNIV quiet])
qed

lemma show_frame_quiet: "quiet s \<Longrightarrow> ends UNIV quiet (show_frame i s)"
  by (auto simp: show_frame_def Let_def intro!: ends_bind[of UNIV quiet] quiet_on_view)

lemma menu_frame_quiet: "quiet s \<Longrightarrow> ends UNIV quiet (menu_frame i s)"
  by (auto simp: menu_frame_def Let_def menu_home_def menu_exit_def show_menu_def dialog_new_def
      split: menu.split intro!: ends_bind[of UNIV quiet] quiet_on_view)

lemma close_detail_quiet: "quiet s \<Longrightarrow> ends UNIV quiet (close_detail s)"
  by (auto simp: close_detail_def view_free_def split: option.split intro!: ends_bind[of UNIV quiet] quiet_on_view)

lemma about_frame_quiet: "quiet s \<Longrightarrow> ends UNIV quiet (about_frame i s)"
  by (auto simp: about_frame_def Let_def view_free_def on_dialog_def split: option.split intro!: ends_bind[of UNIV quiet] quiet_on_view)

lemma start_executable_launch:
  "quiet s \<Longrightarrow> b = wants_ahb org \<Longrightarrow> launch_ok (start_executable i org b s)"
  by (auto simp: start_executable_def Let_def launch_ok_def quiet_def loads_def emit_def split: option.split)

lemma refresh_theme_quiet: "quiet s \<Longrightarrow> quiet (refresh_theme a d l s)"
  by (simp add: refresh_theme_def)

lemma network_load_launch: "quiet s \<Longrightarrow> launch_ok (network_load qsort alloc i s)"
  by (simp add: network_load_def Let_def wants_ahb_def refresh_theme_quiet quiet_launch start_executable_launch
      split: loader_type.split prod.split)

lemma update_execute_launch: "quiet s \<Longrightarrow> launch_ok (update_execute_frame i s)"
  by (auto simp: update_execute_frame_def Let_def launch_ok_def quiet_def loads_def emit_def wants_ahb_def reset_cb_def power_cb_def
      split: option.split)

lemma browser_parts_quiet [simp]:
  "quiet (browser_icons i s) = quiet s" "quiet (update_frame i s) = quiet s" "quiet (turn_pages i s) = quiet s"
  by (simp_all add: browser_icons_def update_frame_def turn_pages_def Let_def split: option.split)

lemma browser_click_quiet: "quiet s \<Longrightarrow> ends UNIV quiet (browser_click i s)"
  by (auto simp: browser_click_def open_detail_def take_selection_def dialog_new_def Let_def split: option.split
      intro!: ends_bind[of UNIV "\<lambda>e. True"] quiet_on_view)

lemma browser_frame_launch: "quiet s \<Longrightarrow> ends UNIV launch_ok (browser_frame qsort alloc i s)"
proof -
  assume "quiet s"
  define s1 where "s1 = update_frame i (browser_icons i s)"
  have q: "quiet s1" using \<open>quiet s\<close> by (simp add: s1_def)
  have "ends UNIV launch_ok (browser_click i s1)" by (rule quiet_ends[OF browser_click_quiet[OF q]])
  moreover have "launch_ok (options_frame i s1)"
    using q by (auto simp: options_frame_def Let_def split: option.split intro!: quiet_launch)
  ultimately have "ends UNIV launch_ok r" if "browser_buttons i s1 = Some r" for r
    using that q by (auto simp: browser_buttons_def quiet_launch split: if_splits)
  then show ?thesis
    unfolding browser_frame_def Let_def s1_def[symmetric]
    using q by (auto simp: update_execute_launch network_load_launch quiet_launch split: option.split)
qed

lemma load_app_launch: "quiet s \<Longrightarrow> ends UNIV launch_ok (load_app i s)"
proof -
  assume q: "quiet s"
  then have "m_ahb s = False" by (simp add: quiet_def)
  then have "m_ahb (emit e s) = False" for e by (simp add: emit_def)
  then show ?thesis using q unfolding load_app_def
    by (intro ends_bind[of UNIV "\<lambda>e. True"])
      (simp_all add: Let_def wants_ahb_def refresh_theme_quiet quiet_launch start_executable_launch split: loader_type.split option.split)
qed

lemma delete_app_quiet: "quiet s \<Longrightarrow> ends UNIV quiet (delete_app qsort i s)"
  unfolding delete_app_def Let_def
  by (cases "i_answer i = 1") (auto intro!: ends_bind[of UNIV "\<lambda>e. True"])

lemma detail_frame_launch: "quiet s \<Longrightarrow> ends UNIV launch_ok (detail_frame qsort i s)"
proof -
  assume q: "quiet s"
  have shut: "ends UNIV launch_ok (close_detail t)" if "quiet t" for t
    by (rule quiet_ends[OF close_detail_quiet[OF that]])
  have del: "ends UNIV launch_ok (delete_app qsort i t)" if "quiet t" for t
    by (rule quiet_ends[OF delete_app_quiet[OF that]])
  have scroll: "ends UNIV quiet (on_dialog d (\<lambda>n. E_Scroll n (k t)) t)" if "quiet t" for d k t
    using that by (auto simp: on_dialog_def split: option.split intro!: quiet_on_view)
  show ?thesis using q unfolding detail_frame_def Let_def
    by (auto intro!: ends_bind[OF scroll] shut ends_bind[OF close_detail_quiet] del load_app_launch quiet_launch)
qed

lemma main_iter_launch: "quiet s \<Longrightarrow> ends UNIV launch_ok (main_iter qsort alloc i s)"
  unfolding main_iter_def
proof (rule ends_bind[OF list_actions_quiet], assumption, rule ends_bind[OF show_frame_quiet], assumption)
  fix t assume q: "quiet t"
  have "ends UNIV launch_ok (menu_frame i t)" "ends UNIV launch_ok (about_frame i t)" "launch_ok (home_button t)" "launch_ok t"
    using menu_frame_quiet[OF q] about_frame_quiet[OF q] q
    by (simp_all add: quiet_ends quiet_launch home_button_def show_menu_def)
  then show "ends UNIV launch_ok
     (if pressed i PADS_HOME \<and> i_viewing i then Inr (home_button t)
      else if m_current t = V_Main \<and> i_viewing i then menu_frame i t
      else if m_current t = V_Browser then browser_frame qsort alloc i t
      else if shows_dialog (m_detail t) t \<and> i_viewing i then detail_frame qsort i t
      else if shows_dialog (m_about t) t \<and> i_viewing i then about_frame i t
      else Inr t)"
    using browser_frame_launch[OF q] detail_frame_launch[OF q] by simp
qed

lemma main_step_launch: "main_step w qsort alloc s t \<Longrightarrow> launch_ok s \<Longrightarrow> launch_ok t"
proof (induction rule: main_step.induct)
  case (iterates s i t)
  then have "quiet s" by (simp add: launch_ok_def)
  from main_iter_launch[OF this] iterates(2) show ?case by (metis ends_simps(2))
qed (auto simp: launch_ok_def quiet_def loads_def reset_cb_def power_cb_def)

lemma main_reach_launch: "main_reach w qsort alloc s \<Longrightarrow> launch_ok s"
proof (induction rule: main_reach.induct)
  case (starts ae name fhw)
  then show ?case by (simp add: launch_ok_def quiet_def loads_def main_start_def)
qed (rule main_step_launch)


section \<open>The end\<close>

lemma fade_out_ok: "main_ok c s \<Longrightarrow> ends F (\<lambda>t. main_ok c t \<and> m_ae t = m_ae s) (fade_out s)"
proof -
  assume ok: "main_ok c s"
  have same: "ends F (\<lambda>t. main_ok c t \<and> m_ae t = m_ae s) (on_view (m_current u) e u)" if "main_ok c u \<and> m_ae u = m_ae s" for u e
    using that main_ok_current[of c u] by (simp add: on_view_def)
  let ?s0 = "emit (E_Cursor False) s"
  have "ends F (\<lambda>t. main_ok c t \<and> m_ae t = m_ae s)
      (case m_current ?s0 of V_Dialog n \<Rightarrow> on_view (V_Dialog n) (E_Fade (V_Dialog n) False) ?s0 | _ \<Rightarrow> Inr ?s0)"
    using same[of ?s0] ok by (cases "m_current s") simp_all
  then show ?thesis unfolding fade_out_def Let_def by (rule ends_bind) (rule same)
qed

lemma note_selection_ok:
  assumes ok: "main_ok c s" and sel: "c \<longrightarrow> st = None"
  shows "ends (faults c (short_names s)) (\<lambda>t. True) (note_selection b st s)"
proof (cases "m_app_sel (take_selection b st s)")
  case None
  then show ?thesis by (simp add: note_selection_def Let_def)
next
  case (Some p)
  show ?thesis
  proof (cases "ae_heap (m_ae s) p")
    case None
    then have "\<not> c" using selected_live[of s b p] ok sel Some by (cases c) auto
    with None Some show ?thesis by (simp add: note_selection_def Let_def app_at_def faults_def)
  next
    case e: (Some e)
    then have "short_names s \<Longrightarrow> length (dirname e) < 64" by (simp add: short_names_def)
    then have "short_names s \<Longrightarrow> \<not> length (dirname e) > 64" by simp
    with e Some show ?thesis by (auto simp: note_selection_def Let_def app_at_def remember_name_def faults_def)
  qed
qed

lemma main_exit_ok:
  assumes ok: "main_ok c s" and sel: "c \<longrightarrow> x_stray x = None"
  shows "ends (faults c (short_names s)) (\<lambda>(t, es). True) (main_exit x s)"
  unfolding main_exit_def
proof (rule ends_bind[OF fade_out_ok[OF ok]])
  fix t assume t: "main_ok c t \<and> m_ae t = m_ae s"
  let ?t = "emit E_Controls_Deinit (emit E_Dvd_ShutDown t)"
  have n: "short_names ?t = short_names s" using t by (simp add: short_names_def)
  have "main_ok c ?t" using t by simp
  from note_selection_ok[OF this sel, of "x_browser x", unfolded n]
  show "ends (faults c (short_names s)) (\<lambda>(t, es). True)
      (bind_out (note_selection (x_browser x) (x_stray x) ?t) (\<lambda>s2. let t = shut_down x s2 in Inr (t, until_gone (x_returns x) (leave t))))"
    by (rule ends_bind) (simp add: Let_def)
qed

text \<open>Leaving does not change what is to be started.\<close>

definition exits :: "main \<Rightarrow> bool \<times> bool \<times> bool \<times> u32 option \<times> bool \<times> bool \<times> bool \<times> effect list" where
  "exits s = (m_bootmii s, m_priiloader s, m_reloced s, m_ep s, m_ahb s, m_reboot s, m_shutdown s, loads s)"

lemma exits_emit [simp]: "\<not> is_load e \<Longrightarrow> exits (emit e s) = exits s"
  by (simp add: exits_def emit_def loads_def)

lemma exits_frame [simp]: "exits (s\<lparr>m_app_sel := a\<rparr>) = exits s" "exits (s\<lparr>m_ae := ae\<rparr>) = exits s" "exits (s\<lparr>m_app_name := n\<rparr>) = exits s"
  by (simp_all add: exits_def loads_def)

lemma main_exit_kept:
  assumes "main_exit x s = Inr (t, calls)"
  shows "exits t = exits s \<and> calls = until_gone (x_returns x) (leave t) \<and> E_Settings_Save \<in> set (m_log t)"
proof -
  have v: "ends UNIV (\<lambda>t. exits t = exits s) (on_view v e u)" if "exits u = exits s" "\<not> is_load e" for v e u
    using that by (simp add: on_view_def)
  have "ends UNIV (\<lambda>t. exits t = exits s) (case m_current (emit (E_Cursor False) s) of
      V_Dialog n \<Rightarrow> on_view (V_Dialog n) (E_Fade (V_Dialog n) False) (emit (E_Cursor False) s) | _ \<Rightarrow> Inr (emit (E_Cursor False) s))"
    by (auto simp: v split: view_ptr.split)
  then have "ends UNIV (\<lambda>t. exits t = exits s) (fade_out s)"
    unfolding fade_out_def Let_def by (rule ends_bind) (simp add: v)
  then obtain u where u: "fade_out s = Inr u" "exits u = exits s"
    using assms by (cases "fade_out s") (simp_all add: main_exit_def)
  let ?u = "emit E_Controls_Deinit (emit E_Dvd_ShutDown u)"
  have "ends UNIV (\<lambda>t. exits t = exits s) (note_selection (x_browser x) (x_stray x) ?u)"
    using u(2) by (auto simp: note_selection_def take_selection_def Let_def remember_name_def intro!: ends_bind[of UNIV "\<lambda>e. True"])
  then obtain r where r: "note_selection (x_browser x) (x_stray x) ?u = Inr r" "exits r = exits s"
    using assms u(1) by (cases "note_selection (x_browser x) (x_stray x) ?u") (simp_all add: main_exit_def)
  then have "t = shut_down x r" "calls = until_gone (x_returns x) (leave t)"
    using assms u(1) by (auto simp: main_exit_def Let_def)
  with r(2) show ?thesis by (simp add: shut_down_def Let_def)
qed

lemma until_gone_reached: "e \<notin> set as \<Longrightarrow> e \<in> set (until_gone r (as @ bs)) \<Longrightarrow> until_gone r (as @ bs) = as @ until_gone r bs"
  by (induction as) (auto split: if_splits)

lemma until_gone_subset: "set (until_gone r es) \<subseteq> set es"
  by (induction es) auto

section \<open>Properties\<close>

text \<open>
  C2: Whatever the user does, whatever the browser selects and whatever becomes of the list of applications, no iteration of
  the loop and not the end of it uses or frees a dialog that was freed or never made; after an iteration the only dialog
  that is allocated is the one that is shown.
\<close>

theorem main_uses_live:
  assumes "main_reach w qsort alloc s"
  shows "main_iter qsort alloc i s \<noteq> Inl Freed_View \<and> main_exit x s \<noteq> Inl Freed_View
    \<and> (\<forall>t. main_iter qsort alloc i s = Inr t \<longrightarrow> m_views t = (case m_current t of V_Dialog n \<Rightarrow> {n} | _ \<Rightarrow> {}))"
proof -
  have ok: "main_ok False s" by (rule main_reach_ok[OF assms])
  have "m_views t = (case m_current t of V_Dialog n \<Rightarrow> {n} | _ \<Rightarrow> {})" if "main_ok False t" for t
    using that by (auto simp: main_ok_def dialogs_ok_def dialogs_def split: view_ptr.splits)
  moreover have "Freed_View \<notin> faults False (short_names s)" by (simp add: faults_def)
  ultimately show ?thesis
    using main_iter_ok[OF ok, of i qsort alloc] main_exit_ok[OF ok, of x]
    by (cases "main_iter qsort alloc i s"; cases "main_exit x s") auto
qed

definition no_browser :: "nat browser" where
  "no_browser = browser_init plain_theme 1 True 0 1 1"

definition idle_inputs :: inputs where
  "idle_inputs = \<lparr>i_lo = \<lparr>pad_mask = \<lambda>_. 1, wpad_mask = \<lambda>_. 2, nunchuk_mask = \<lambda>_. 4, classic_mask = \<lambda>_. 4, gh3_mask = \<lambda>_. 4\<rparr>,
     i_bd = 0, i_bh = 0, i_viewing = True, i_lock_action = False, i_lock_scan = False,
     i_browser = no_browser, i_stray = None, i_clicked = - 1, i_focus = - 1,
     i_gecko = False, i_tcp_initializing = False, i_tcp_initialized = True, i_update_signal = False, i_busy = (False, None), i_update = None,
     i_during = (False, False), i_options = None, i_handshaked = True, i_result = no_result\<lparr>r_type := LT_EXECUTABLE\<rparr>,
     i_exec = Some 0x80004000, i_zip = False, i_fs = one_app, i_answer = 0, i_managed = False, i_height = 20, i_sticky = 0,
     i_drag = False, i_drag_widget = 0, i_drag_y = 0\<rparr>"

definition plain_exit :: exit_inputs where
  "plain_exit = \<lparr>x_browser = no_browser, x_stray = None, x_world = \<lambda>_ _. True, x_lock = \<lambda>_. True,
     x_returns = \<lambda>e. e \<in> {E_Patch_Ahb, E_Launch_IOS, E_Unlock_Dvd}\<rparr>"

definition first_state :: main where
  "first_state = main_start (app_entry_init True True True boot_state) [] 20"

lemma first_state_reach: "main_reach w qsort alloc first_state"
  unfolding first_state_def by (rule main_reach.starts)

text \<open>HOME, A on the third button of the menu, and B in the dialog that this opens.\<close>

definition press :: "u32 \<Rightarrow> int \<Rightarrow> inputs" where
  "press b focus = idle_inputs\<lparr>i_lo := \<lparr>pad_mask = \<lambda>p. if p = Pad_A then 1 else if p = Pad_B then 2 else if p = Pad_Start then 4 else 8,
     wpad_mask = \<lambda>_. 0, nunchuk_mask = \<lambda>_. 0, classic_mask = \<lambda>_. 0, gh3_mask = \<lambda>_. 0\<rparr>, i_bd := b, i_focus := focus, i_handshaked := False\<rparr>"

lemmas run_simps = main_iter_def list_actions_def first_state_def main_start_def app_entry_action_def app_entry_init_def ae_start_def boot_state_def
  press_def idle_inputs_def show_frame_def app_entry_is_loading_def app_entry_scan_def app_entry_command_def Let_def on_view_def view_live_def
  emit_def pressed_def PADS_HOME_def PADS_A_def PADS_B_def PADS_UP_def PADS_DOWN_def PADS_def home_button_def show_menu_def menu_frame_def
  menu_home_def dialog_new_def

lemma about_opened:
  "\<exists>s t. main_iter sort_by least_free (press 4 0) first_state = Inr s \<and> main_iter sort_by least_free (press 1 2) s = Inr t
     \<and> m_current t = V_Dialog 0 \<and> m_views t = {0} \<and> \<not> m_should_exit s \<and> m_about t = Some 0 \<and> m_detail t = None"
  by (simp add: run_simps)

theorem main_uses_live_witness:
  "\<exists>s t. main_reach (\<lambda>_ _. True) sort_by least_free s \<and> m_views s = {0} \<and> main_iter sort_by least_free (press 2 0) s = Inr t \<and> m_views t = {}"
proof -
  obtain s t where st: "main_iter sort_by least_free (press 4 0) first_state = Inr s" "main_iter sort_by least_free (press 1 2) s = Inr t"
      "m_current t = V_Dialog 0" "m_views t = {0}" "\<not> m_should_exit s" "m_about t = Some 0" "m_detail t = None"
    using about_opened by blast
  have "\<not> m_should_exit first_state" by (simp add: first_state_def main_start_def)
  from main_reach.moves[OF main_reach.moves[OF first_state_reach main_step.iterates[OF this st(1)]] main_step.iterates[OF st(5,2)]]
  have r: "main_reach (\<lambda>_ _. True) sort_by least_free t" .
  obtain u where u: "main_iter sort_by least_free (press 2 0) t = Inr u" "m_current u = V_Main"
  proof -
    define P :: "main \<Rightarrow> bool" where "P = (\<lambda>t. m_detail t = None \<and> m_current t = V_Dialog 0 \<and> m_about t = Some 0 \<and> m_views t = {0})"
    have emit: "P (emit e t) = P t" for e t by (simp add: P_def)
    have "P t" using st(3-7) by (simp add: P_def)
    then have "list_actions (press 2 0) t = Inr t" by (simp add: list_actions_def P_def)
    moreover obtain v where v: "show_frame (press 2 0) t = Inr v" "P v"
    proof -
      have "\<exists>v. show_frame (press 2 0) t = Inr v \<and> P v" using \<open>P t\<close>
        by (auto simp: show_frame_def Let_def on_view_def view_live_def P_def app_entry_scan_def app_entry_command_def emit_def)
      then show ?thesis using that by blast
    qed
    moreover have "\<exists>u. about_frame (press 2 0) v = Inr u \<and> m_current u = V_Main" using v(2)
      by (auto simp: about_frame_def Let_def pressed_def press_def idle_inputs_def PADS_A_def PADS_B_def PADS_def P_def on_view_def view_live_def
          view_free_def emit_def)
    ultimately show ?thesis using that v(2)
      by (auto simp: main_iter_def P_def shows_dialog_def pressed_def press_def idle_inputs_def PADS_HOME_def PADS_def)
  qed
  from main_uses_live[OF r, of "press 2 0"] u have "m_views u = {}" by simp
  with r u st(4) show ?thesis by blast
qed

text \<open>
  C3: A program is started only at the end of a session, after the settings were saved and IOS was reloaded; it is entered
  where the only program that was loaded in the session starts, and IOS is patched for access to the hardware exactly when that
  program came over the network or its description asks for this.
\<close>

theorem main_starts_loaded:
  assumes "main_reach w qsort alloc s" and "main_exit x s = Inr (t, calls)" and "E_Exec e \<in> set calls"
  shows "\<exists>org ep. e = Some ep \<and> filter is_load (m_log s) = [E_Loaded org ep] \<and> (E_Patch_Ahb \<in> set calls \<longleftrightarrow> wants_ahb org)
    \<and> E_Launch_IOS \<in> set (takeWhile (\<lambda>c. c \<noteq> E_Exec e) calls) \<and> E_Settings_Save \<in> set (m_log t)"
proof -
  from main_exit_kept[OF assms(2)] have t: "exits t = exits s" "calls = until_gone (x_returns x) (leave t)" "E_Settings_Save \<in> set (m_log t)"
    by blast+
  have "E_Exec e \<in> set (leave t)" using assms(3) until_gone_subset unfolding t(2) by blast
  then have e: "m_reloced t" "e = m_ep t" by (auto simp: leave_def split: if_splits)
  then have "m_reloced s" using t(1) by (simp add: exits_def)
  then obtain org ep where l: "loads s = [E_Loaded org ep]" "m_ep s = Some ep" "m_ahb s = wants_ahb org"
    using main_reach_launch[OF assms(1)] by (auto simp: launch_ok_def quiet_def)
  have m: "e = Some ep" "m_ahb t = wants_ahb org" using t(1) e(2) l by (simp_all add: exits_def)
  define before where "before = (if m_bootmii t then [E_Launch_BootMii] else []) @ (if m_priiloader t then [E_Poke_Priiloader, E_System_Menu] else [])
    @ (if m_ahb t then [E_Patch_Ahb] else []) @ [E_Launch_IOS] @ (if m_ahb t then [E_Unlock_Dvd] else [])"
  define after where "after = E_Exec e # (if m_reboot t then [E_Reboot] else []) @ (if m_shutdown t then [E_Power_Off] else []) @ [E_System_Menu]"
  have split: "leave t = before @ after" using e by (simp add: leave_def before_def after_def)
  have "E_Exec e \<notin> set before" by (simp add: before_def)
  from until_gone_reached[OF this, of "x_returns x" after] assms(3)
  have c: "calls = before @ until_gone (x_returns x) after" unfolding t(2) split by blast
  have "E_Patch_Ahb \<notin> set after" by (simp add: after_def)
  then have "E_Patch_Ahb \<notin> set (until_gone (x_returns x) after)" using until_gone_subset by blast
  then have "E_Patch_Ahb \<in> set calls \<longleftrightarrow> wants_ahb org" unfolding c by (auto simp: before_def m(2))
  moreover have "takeWhile (\<lambda>c. c \<noteq> E_Exec e) calls = before"
    unfolding c using \<open>E_Exec e \<notin> set before\<close> by (subst takeWhile_append2) (auto simp: after_def)
  then have "E_Launch_IOS \<in> set (takeWhile (\<lambda>c. c \<noteq> E_Exec e) calls)" by (simp add: before_def)
  ultimately show ?thesis using l(1) m(1) t(3) by (simp add: loads_def)
qed


lemma first_upload:
  "\<exists>s. main_iter qsort alloc idle_inputs first_state = Inr s \<and> m_reloced s \<and> m_ep s = Some 0x80004000 \<and> m_ahb s
     \<and> \<not> m_bootmii s \<and> \<not> m_priiloader s \<and> m_current s = V_Browser \<and> listed s = []"
  by (simp add: main_iter_def list_actions_def first_state_def main_start_def app_entry_action_def app_entry_init_def ae_start_def boot_state_def
      idle_inputs_def show_frame_def app_entry_is_loading_def app_entry_scan_def app_entry_command_def Let_def on_view_def view_live_def emit_def
      pressed_def browser_frame_def update_frame_def browser_icons_def browser_buttons_def turn_pages_def network_load_def
      start_executable_def no_result_def listed_def)

theorem main_starts_loaded_witness:
  "\<exists>s t calls. main_exit plain_exit s = Inr (t, calls) \<and> E_Exec (Some 0x80004000) \<in> set calls \<and> E_Patch_Ahb \<in> set calls
    \<and> (\<exists>org. loads s = [E_Loaded org 0x80004000] \<and> wants_ahb org)"
proof -
  obtain s where s: "main_iter sort_by least_free idle_inputs first_state = Inr s" "m_reloced s" "m_ep s = Some 0x80004000" "m_ahb s"
      "\<not> m_bootmii s" "\<not> m_priiloader s" "m_current s = V_Browser" "listed s = []"
    using first_upload by blast
  have "\<not> m_should_exit first_state" by (simp add: first_state_def main_start_def)
  from main_step.iterates[OF this s(1)] have r: "main_reach (\<lambda>_ _. True) sort_by least_free s"
    by (rule main_reach.moves[OF first_state_reach])
  obtain t calls where x: "main_exit plain_exit s = Inr (t, calls)" "E_Exec (Some 0x80004000) \<in> set calls" "E_Patch_Ahb \<in> set calls"
    using s(2-8) by (simp add: main_exit_def fade_out_def note_selection_def take_selection_def browser_sel_def plain_exit_def shut_down_def leave_def Let_def on_view_def
        view_live_def emit_def listed_def)
  from main_starts_loaded[OF r x(1,2)] x show ?thesis by (auto simp: loads_def)
qed

section \<open>What goes wrong\<close>

text \<open>
  The device thread keeps looking for devices while the dialog of an application is open. A card that is taken out and put back
  has the list read anew: the records of all applications are freed, also that of the application of the dialog.
\<close>

lemma reinserted_card:
  assumes "device_active ae < 0" and "ta_cmd ae = AE_CMD_SCAN" and "device_prefered ae < 0" and "ta_mount ae < 0"
    and "\<forall>h e. w h e" and "fs_apps fs = None" and "p \<in> set (pointers (entries_all ae))"
  shows "ae_heap (ae_wake w qsort alloc fs ae) p = None"
  using assms by (simp add: ae_wake_def ae_scan_def scan_requested_def scan_prefered_def Let_def DEVICE_COUNT_def upt_rec mount_def dev_def
      scan_load_def app_entry_load_all_def app_entries_free_def heap_free_eq split_beta)

lemma loads_freed_app:
  assumes "m_detail s = Some n" and "m_current s = V_Dialog n" and "m_app_sel s = Some p" and "ae_heap (m_ae s) p = None"
    and "n \<in> m_views s"
    and "i_viewing i" and "\<not> pressed i PADS_HOME" and "\<not> pressed i PADS_B" and "pressed i PADS_A" and "i_focus i = 9"
  shows "main_iter qsort alloc i s = Inl Freed_Entry"
proof -
  define P :: "main \<Rightarrow> bool" where "P = (\<lambda>t. m_detail t = Some n \<and> m_current t = V_Dialog n \<and> m_app_sel t = Some p \<and> ae_heap (m_ae t) p = None \<and> n \<in> m_views t)"
  have emit: "P (emit e t) = P t" for e t by (simp add: P_def)
  have "P s" using assms(1-5) by (simp add: P_def)
  then have "list_actions i s = Inr s" by (simp add: list_actions_def P_def)
  moreover obtain t where t: "show_frame i s = Inr t" "P t"
  proof -
    have "\<exists>t. show_frame i s = Inr t \<and> P t" using \<open>P s\<close>
      by (auto simp: show_frame_def Let_def on_view_def view_live_def P_def app_entry_scan_def app_entry_command_def emit_def)
    then show ?thesis using that by blast
  qed
  moreover have "detail_frame qsort i t = Inl Freed_Entry"
  proof -
    define t1 where "t1 = (if pressed i PADS_LEFT then emit (E_Focus_Prev (m_current t)) t else t)"
    define t2 where "t2 = (if pressed i PADS_RIGHT then emit (E_Focus_Next (m_current t1)) t1 else t1)"
    have "P t2" using t(2) by (simp add: t2_def t1_def emit)
    then show ?thesis unfolding detail_frame_def Let_def t1_def[symmetric] t2_def[symmetric]
      using assms(8-10) by (simp add: P_def on_dialog_def on_view_def view_live_def close_detail_def view_free_def load_app_def app_at_def emit_def)
  qed
  ultimately show ?thesis using assms(6,7) by (simp add: main_iter_def P_def shows_dialog_def)
qed

text \<open>The power button pressed while an update is offered or downloaded is forgotten when the update is not installed.\<close>

lemma power_forgotten:
  assumes "i_during i = (False, True)" and "i_update i = None"
  shows "\<not> m_should_exit (update_execute_frame i s)" and "m_shutdown (update_execute_frame i s)"
  using assms by (simp_all add: update_execute_frame_def power_cb_def Let_def)

end
