(* ===== verification/Main_Parts.thy ===== *)
theory Main_Parts
  imports HBC_Prelude
begin

text \<open>
  Two functions of \<^verbatim>\<open>channelapp/source/main.c\<close> beside its loop: the patch of IOS that keeps the access to the hardware for the
  program that is started, and the choice of the catalogue of translations.
\<close>

section \<open>The patch of IOS\<close>

definition ES_MODULE_START :: u32 where "ES_MODULE_START = 0x939F0000"

definition ticket_check :: "u16 list" where
  "ticket_check = [0x685B, 0x22EC, 0x0052, 0x189B, 0x681B, 0x4698, 0x07DB]"

definition check_at :: "mem \<Rightarrow> u32 \<Rightarrow> bool" where
  "check_at m p \<longleftrightarrow> mem_read m p 14 = concat (map be16_bytes ticket_check)"

fun find_check :: "mem \<Rightarrow> u32 \<Rightarrow> nat \<Rightarrow> u32 option" where
  "find_check m p 0 = None"
| "find_check m p (Suc n) = (if check_at m p then Some p else find_check m (p + 2) n)"

text \<open>
  \<open>ahbprot\<close> is the register that is all ones while the channel has access. The result, whether the protection of MEM2 was
  turned off, and the memory.
\<close>

definition patch_ahbprot_reset :: "u32 \<Rightarrow> mem \<Rightarrow> int \<times> bool \<times> mem" where
  "patch_ahbprot_reset ahbprot m =
     (if ahbprot = 0xFFFFFFFF then
        case find_check m ES_MODULE_START 0x4000 of
          Some p \<Rightarrow> (0, True, mem_write m (p + 8) (be16_bytes 0x23FF))
        | None \<Rightarrow> (- 1, True, m)
      else (- 2, False, m))"

lemma find_check_found:
  "find_check m p n = Some q \<Longrightarrow> check_at m q \<and> (\<exists>k < n. q = p + 2 * of_nat k \<and> (\<forall>j < k. \<not> check_at m (p + 2 * of_nat j)))"
proof (induction m p n rule: find_check.induct)
  case (2 m p n)
  show ?case
  proof (cases "check_at m p")
    case True
    then show ?thesis using 2(2) by (intro conjI exI[of _ 0]) auto
  next
    case False
    then obtain k where k: "check_at m q" "k < n" "q = p + 2 + 2 * of_nat k" "\<forall>j < k. \<not> check_at m (p + 2 + 2 * of_nat j)"
      using 2 by auto
    have "\<not> check_at m (p + 2 * of_nat j)" if "j < Suc k" for j
      using that False k(4) by (cases j) (auto simp: algebra_simps)
    then show ?thesis using k by (intro conjI exI[of _ "Suc k"]) (auto simp: algebra_simps)
  qed
qed simp

lemma find_check_none: "find_check m p n = None \<Longrightarrow> j < n \<Longrightarrow> \<not> check_at m (p + 2 * of_nat j)"
proof (induction m p n arbitrary: j rule: find_check.induct)
  case (2 m p n)
  then show ?case by (cases j) (auto simp: algebra_simps split: if_splits)
qed simp


text \<open>
  The patch changes two bytes, the access rights that the first occurrence of the check loads, and removes that occurrence;
  without an occurrence in the searched range, or without access, the memory stays as it is.
\<close>

lemma patched_gone: "\<not> check_at (mem_write m (p + 8) (be16_bytes 0x23FF)) p"
proof
  let ?m = "mem_write m (p + 8) (be16_bytes 0x23FF)"
  assume "check_at ?m p"
  then have "mem_read ?m p 14 ! 8 = concat (map be16_bytes ticket_check) ! 8" by (simp add: check_at_def)
  moreover have "mem_read ?m p 14 ! 8 = ?m (p + 8)" by (simp add: mem_read_def)
  moreover have "?m (p + 8) = 0x23" by (simp add: mem_write_def be16_bytes_def)
  moreover have "concat (map be16_bytes ticket_check) ! 8 = 0x68" by (simp add: ticket_check_def be16_bytes_def)
  ultimately show False by simp
qed

lemma patch_ahbprot_reset_result:
  "patch_ahbprot_reset r m = (res, prot, m') \<Longrightarrow>
     (prot \<longleftrightarrow> r = 0xFFFFFFFF)
     \<and> (res = 0 \<longrightarrow> (\<exists>k < 0x4000. \<exists>p. p = ES_MODULE_START + 2 * of_nat k \<and> check_at m p \<and> \<not> check_at m' p
          \<and> (\<forall>j < k. \<not> check_at m (ES_MODULE_START + 2 * of_nat j)) \<and> (\<forall>x. \<not> in_block (p + 8) 2 x \<longrightarrow> m' x = m x)))
     \<and> (res \<noteq> 0 \<longrightarrow> m' = m) \<and> (res = - 1 \<longrightarrow> (\<forall>j < 0x4000. \<not> check_at m (ES_MODULE_START + 2 * of_nat j)))"
proof (cases "find_check m ES_MODULE_START 0x4000")
  case None
  assume "patch_ahbprot_reset r m = (res, prot, m')"
  then show ?thesis using None find_check_none[OF None] by (auto simp: patch_ahbprot_reset_def split: if_splits)
next
  case (Some p)
  assume run: "patch_ahbprot_reset r m = (res, prot, m')"
  have "length (be16_bytes 0x23FF) = 2" by (simp add: be16_bytes_def)
  then have "mem_write m (p + 8) (be16_bytes 0x23FF) x = m x" if "\<not> in_block (p + 8) 2 x" for x
    using that by (intro mem_write_outside) simp
  with run show ?thesis using Some find_check_found[OF Some] patched_gone[of m p]
    by (auto simp: patch_ahbprot_reset_def split: if_splits)
qed

section \<open>The language\<close>

text \<open>The languages of the console, and those with a catalogue of translations.\<close>

datatype conf_language =
  CONF_LANG_ENGLISH | CONF_LANG_SPANISH | CONF_LANG_FRENCH | CONF_LANG_GERMAN | CONF_LANG_DUTCH | CONF_LANG_ITALIAN | CONF_LANG_JAPANESE
  | CONF_LANG_OTHER

datatype catalogue = Spanish_Mo | French_Mo | German_Mo | Dutch_Mo | Italian_Mo | Japanese_Mo

text \<open>What the system answers (\<open>None\<close>: an error), and whether the theme has Japanese glyphs. The result \<open>None\<close> is English, untranslated.\<close>

definition config_language :: "conf_language option \<Rightarrow> bool \<Rightarrow> catalogue option" where
  "config_language conf theme_ja =
     (case (case conf of None \<Rightarrow> CONF_LANG_ENGLISH | Some l \<Rightarrow> l) of
        CONF_LANG_ENGLISH \<Rightarrow> None
      | CONF_LANG_SPANISH \<Rightarrow> Some Spanish_Mo
      | CONF_LANG_FRENCH \<Rightarrow> Some French_Mo
      | CONF_LANG_GERMAN \<Rightarrow> Some German_Mo
      | CONF_LANG_DUTCH \<Rightarrow> Some Dutch_Mo
      | CONF_LANG_ITALIAN \<Rightarrow> Some Italian_Mo
      | CONF_LANG_JAPANESE \<Rightarrow> if theme_ja then Some Japanese_Mo else None
      | CONF_LANG_OTHER \<Rightarrow> None)"

end
