(* ===== verification/Spec2Isabelle.thy ===== *)
theory Spec2Isabelle
  imports Blob Stub_String Vsprintf Reloc Sha1 App_Entry Nand_Fs Http Stub_Elf Wiiload Manage Loader Update Ec_Inverse Wiipax Lz77 Settings I18n Browser Font_Table Mem_File Stub_Ios Dialogs Dvd Main_Loop Main_Parts
begin

text \<open>
  \<^bold>\<open>A verification development of the Homebrew Channel.\<close>

  The channel (\<^verbatim>\<open>channel/channelapp\<close>) lists the applications of a storage device, receives others over
  TCP or a USB Gecko, relocates them to their load addresses and starts them. \<^verbatim>\<open>channel/wiiload\<close> is the
  host program that uploads to it. \<^verbatim>\<open>wiipax\<close> packs a program behind a small stub that unpacks and loads
  it again. The theories follow these parts; all paths below are under \<^verbatim>\<open>src/\<close>.

  \<^item> \<open>HBC_Prelude\<close>: machine words and their big-endian bytes, the flat 32-bit memory with its lemmas on
    reads after writes, calls to the environment, results of code that may panic, rounding.
  \<^item> \<open>Blob\<close> (\<^verbatim>\<open>channel/channelapp/source/blob.c\<close>): the stack allocator for large buffers in MEM2. The
    locale \<open>stack_alloc\<close> is its contract; nested release and disjointness of live blobs.
  \<^item> \<open>Reloc\<close> (\<^verbatim>\<open>loader_reloc.c\<close>, the addresses of \<^verbatim>\<open>config.h\<close>): DOL and ELF loading, arguments, the launch
    stub; where sections land and what memory a load may touch.
  \<^item> \<open>App_Entry\<close> (\<^verbatim>\<open>appentry.c\<close>): the table of applications, the sorted and filtered view of it, and the
    device thread, as a transition system whose reachable states keep an invariant.
  \<^item> \<open>Nand_Fs\<close> (\<^verbatim>\<open>nand.c\<close>, \<^verbatim>\<open>isfs.c\<close>, \<^verbatim>\<open>fileops.c\<close>, \<^verbatim>\<open>playtime.c\<close>): file helpers in the state monad over a
    history of IOS calls; safe replacement of files and balance of descriptors.
  \<^item> \<open>Tcp\<close> (\<^verbatim>\<open>tcp.c\<close>) and \<open>Http\<close> (\<^verbatim>\<open>http.c\<close>): polled socket operations with timeouts, and the download
    thread on top of them: what is transferred, that transfers return, which sockets stay open.
  \<^item> \<open>Sha1\<close> (\<^verbatim>\<open>sha1.c\<close>): the streaming hash, refined to a transcription of FIPS 180-1.
  \<^item> \<open>Stub_String\<close>, \<open>Vsprintf\<close>, \<open>Stub_Elf\<close> (\<^verbatim>\<open>wiipax/stub/string.c\<close>, \<^verbatim>\<open>vsprintf.c\<close>, \<^verbatim>\<open>elf.c\<close>, \<^verbatim>\<open>main.c\<close>): the
    freestanding C library of the unpacking stub and its ELF loader.
  \<^item> \<open>Wiiload\<close> (\<^verbatim>\<open>channel/wiiload/main.c\<close>, \<^verbatim>\<open>gecko.c\<close>): the upload client. The locale \<open>byte_link\<close> states what
    a transport promises; it is interpreted on the TCP and on the USB Gecko writer.
  \<^item> \<open>Manage\<close> (\<^verbatim>\<open>manage.c\<close>): which ZIP archives are accepted as an application, their extraction, and the
    deletion of an application; minizip answers through the calls.
  \<^item> \<open>Loader\<close> (\<^verbatim>\<open>loader.c\<close>): the threads that wait for an upload over TCP or USB Gecko, the load thread and
    the two copies of every buffer it may need; what arrives, which sockets and blobs stay behind.
  \<^item> \<open>Update\<close> (\<^verbatim>\<open>update.c\<close>): the state machine that looks for, downloads and checks an installer.
  \<^item> \<open>Xml\<close> and \<open>Settings\<close> (\<^verbatim>\<open>xml.c\<close>): application and update descriptions, themes and their strings on a
    heap that notices a double free; settings that are loaded again after they were saved.
  \<^item> \<open>I18n\<close> (\<^verbatim>\<open>i18n.c\<close>, \<^verbatim>\<open>ggets.c\<close>): lookups in a translation catalogue of either byte order, and lines read.
  \<^item> \<open>Controls\<close> (\<^verbatim>\<open>controls.c\<close>), \<open>View\<close> (\<^verbatim>\<open>widgets.c\<close>, \<^verbatim>\<open>view.c\<close>) and \<open>Browser\<close> (\<^verbatim>\<open>browser.c\<close>): the owner of the
    pointer, flags and focus of widgets, what a frame draws, and the pages of applications. The main lemmas carry
    the invariants \<open>view_ok\<close> (at most one widget is focused) and \<open>browser_ok\<close> (only the page shown can be
    focused, and its widgets show the entries they stand for) through every operation.
  \<^item> \<open>Font\<close> (\<^verbatim>\<open>font.c\<close>): UTF-8, the cache of glyphs, and counting, wrapping and drawing of text. FreeType and the
    ratio of a wide screen are parameters. \<open>Font_Table\<close> adds the table of fonts, whose entries share objects and faces;
    \<open>Widget_Text\<close> the labels, memos and progress bar of \<^verbatim>\<open>widgets.c\<close>: what a memo shows of its text, and how far it scrolls.
    \<open>Dialogs\<close> (\<^verbatim>\<open>dialogs.c\<close>) builds the dialogs from them and runs the loops that ask the user; the shape of a message
    (\<open>asks\<close>) is kept by every frame, so that its focus is one of its buttons.
  \<^item> \<open>Dvd\<close> (\<^verbatim>\<open>dvd.c\<close>): the callback chain that stops the disc, interrupted at any point of the function that ends it.
  \<^item> \<open>Mem_File\<close> (\<^verbatim>\<open>unzip_io.c\<close>): the callbacks through which minizip reads an archive in memory, as a read-only file.
  \<^item> \<open>Stub_Ios\<close> (\<^verbatim>\<open>channelapp/stub/ios.c\<close>, \<^verbatim>\<open>stub.c\<close>): the stub that brings the channel back: the message protocol with IOS
    on the hardware registers, and the titles it launches. Histories of register accesses and cache flushes carry
    the invariants, by triples over runs that may wait forever.
  \<^item> \<open>Main_Loop\<close> (\<^verbatim>\<open>main.c\<close>): the loop with its views, the application list of \<open>App_Entry\<close> and its thread between the
    iterations, and the way out. A use of a freed dialog or application is a fault; the invariants are that no fault can
    happen unless the list is read anew behind an open dialog, and that what is started is what was loaded.
    \<open>Main_Parts\<close>: the patch of IOS, found and applied once, and the language.
  \<^item> \<open>Gf2\<close>, \<open>Ec_Field\<close>, \<open>Ec_Frobenius\<close>, \<open>Ec_Inverse\<close> (\<^verbatim>\<open>pywii/ecmodule/_ecmodule.c\<close>): the field of
    \<open>2 ^ 233\<close> elements, against polynomials over the field of two elements.
  \<^item> \<open>Wiipax\<close> (\<^verbatim>\<open>wiipax/client/main.c\<close>): the packer: checks, stripping, compression, injection into the stub.
  \<^item> \<open>Lz77\<close> (\<^verbatim>\<open>channel/banner/tools/lz77.c\<close>): the compressor of banners, against a decoder of its format.
  \<^item> This theory puts the client of \<open>Wiiload\<close> at the other end of the loader's socket; what the packer writes and
    what the stub starts meet at the end of \<open>Wiipax\<close>.

  \<^bold>\<open>State and calls.\<close> File-scope variables are the fields of a record that the operations return updated
  (\<open>arena\<close>, \<open>ae_state\<close>, \<open>http_arg\<close>, \<open>nand_state\<close>, \<open>sha1_ctx\<close>). A call into the operating system or a library
  that is not part of the repository is a constructor of a datatype of calls, put to an environment that
  answers from the history of all earlier calls. Theorems hold for every environment, or name the
  documented behaviour they rely on (\<open>honest\<close>, \<open>honest_sends\<close>, \<open>ticking\<close>) as a hypothesis. Memory is a
  function from 32-bit addresses to bytes; integers keep their width, so that sums wrap.

  \<^bold>\<open>Loops.\<close> Loops over counted data are structural recursion or \<open>function\<close> with a measure. The header loops
  read their bound again in each iteration, as the code does; they end because the bound has 16 bits.
  Loops that wait for a peer or a clock are \<open>while_option\<close>, with \<open>None\<close> for never returning; loops that
  stop at a NUL byte are \<open>partial_function\<close>. That they return is proved under stated conditions.

  \<^bold>\<open>Limits.\<close> Thread interleaving is modelled at the level of whole critical sections. Debug output,
  cache maintenance and interrupt locks have no effect in the model. Not modelled: drawing and textures
  (floating point and output only), start-up and the text about the
  system in \<^verbatim>\<open>main.c\<close>; the vendored LZMA and minizip sources, which are parameters of what uses them;
  the parser of XML (\<^verbatim>\<open>mxml\<close>), likewise; the assembly files, and the remaining host tools.
\<close>

section \<open>From wiiload to the console\<close>

text \<open>The request as \<^verbatim>\<open>wiiload\<close> writes it and the loader reads it.\<close>

lemma ucast_low_byte: "(ucast ((x :: 'a :: len word) AND 0xff) :: u8) = ucast x"
proof (rule bit_word_eqI)
  fix n assume n: "n < LENGTH(8)"
  have m: "(0xff :: 'a word) = mask 8" by (simp add: mask_eq_exp_minus_1)
  show "bit (ucast (x AND 0xff) :: u8) n = bit (ucast x :: u8) n"
    using n unfolding m by (auto simp: bit_simps dest: bit_imp_le_length)
qed

lemma buf_words: "buf_u16 buf pos = be16_of (buf ! pos) (buf ! (pos + 1))"
  "buf_u32 buf pos = be32_of (buf ! pos) (buf ! (pos + 1)) (buf ! (pos + 2)) (buf ! (pos + 3))"
  by (simp_all add: buf_u16_def buf_u32_def be16_of_def be32_of_def)

definition header :: "u16 \<Rightarrow> u32 \<Rightarrow> u32 \<Rightarrow> u8 list" where
  "header a n m = concat (request_words a n m)"

lemma header_bytes:
  "header a n m = [0x48, 0x41, 0x58, 0x58, 0, 5, ucast (drop_bit 8 a), ucast a,
     ucast (drop_bit 24 n), ucast (drop_bit 16 n), ucast (drop_bit 8 n), ucast n,
     ucast (drop_bit 24 m), ucast (drop_bit 16 m), ucast (drop_bit 8 m), ucast m]"
  by (simp add: header_def request_words_def len_bytes_def ucast_low_byte)

lemma header_fields: "request_fields (header a n m) = \<lparr>rq_args_len = a, rq_data_len = n, rq_data_len_un = m\<rparr>"
  by (simp add: request_fields_def buf_words header_bytes word_bytes)

lemma upload_header:
  "upload data n args = header (of_nat (length args)) (of_nat (length data)) n @ data @ args"
  by (simp add: upload_def header_def)

lemma length_header: "length (header a n m) = 16"
  by (simp add: header_bytes)

lemma accept_request:
  assumes "honest w" and "tcp_thread_accept w elapsed ta h = Some (ta', h1)" and "lt_handshaked ta'" and "\<not> lt_handshaked ta"
  obtains buf where "received w (lt_s ta') h1 = received w (lt_s ta') h @ buf" and "length buf = 16"
    and "lt_args_len ta' = rq_args_len (request_fields buf)" and "lt_data_len ta' = rq_data_len (request_fields buf)"
    and "lt_data_len_un ta' = rq_data_len_un (request_fields buf)" and "\<not> invalid_request buf"
proof -
  define sn where "sn = nret (w h (NetAccept (lt_listen ta)))"
  have sn: "\<not> sn < 0" "naddr (w h (NetAccept (lt_listen ta))) AND 0xffff0000 = lt_mask ta"
    using assms(2-4) by (auto simp: tcp_thread_accept_def Let_def sn_def[symmetric] split: if_splits)
  obtain ok buf h2 where r: "tcp_read w elapsed sn 16 False (NetAccept (lt_listen ta) # h) = Some (ok, buf, h2)"
    using assms(2) sn by (cases "tcp_read w elapsed sn 16 False (NetAccept (lt_listen ta) # h)")
      (auto simp: tcp_thread_accept_def Let_def sn_def[symmetric] EAGAIN_def ENETRESET_def)
  have ok: "ok" "\<not> invalid_request buf" "h1 = h2" "ta' = ta\<lparr>lt_cmd := LDTCPCMD_IDLE,
      lt_args_len := rq_args_len (request_fields buf), lt_data_len := rq_data_len (request_fields buf),
      lt_data_len_un := rq_data_len_un (request_fields buf), lt_s := sn,
      lt_client := naddr (w h (NetAccept (lt_listen ta))), lt_handshaked := True\<rparr>"
    using assms(2-4) sn r by (auto simp: tcp_thread_accept_def Let_def sn_def[symmetric] EAGAIN_def ENETRESET_def split: if_splits)
  show ?thesis
    using tcp_read_received[OF assms(1) r] ok by (intro that[of buf]) simp_all
qed

lemma take_of_length: "bs = take i xs \<Longrightarrow> bs = take (length bs) xs"
  by (cases "i \<le> length xs") auto

lemma load_source_tcp:
  assumes "load_source w ae None ld h = (src, ld', h')" and "\<not> lg_handshaked (ta_gecko ld)" and "src \<noteq> None"
  obtains ta where "src = Some (ta, [])" and "la_cmd ta = LDC_TCP" and "h' = TryLockTcp # TryLockGecko # h"
    and "la_fd ta = lt_s (ta_tcp ld)" and "la_data_len ta = lt_data_len (ta_tcp ld)"
    and "la_data_len_un ta = lt_data_len_un (ta_tcp ld)" and "la_args_len ta = lt_args_len (ta_tcp ld)"
  using assms by (auto simp: load_source_def Let_def split: if_splits)

lemma header_valid:
  "\<not> invalid_request (header a n m) \<longleftrightarrow> ucast a \<le> ARGS_MAX_LEN \<and> n \<noteq> 0 \<and> n \<le> LD_MAX_SIZE \<and> m \<le> LD_MAX_SIZE"
proof -
  have "take 4 (header a n m) = [0x48, 0x41, 0x58, 0x58]" "buf_u16 (header a n m) 4 = 5"
    by (simp_all add: header_bytes buf_words be16_of_def)
  then show ?thesis
    by (simp add: invalid_request_def Let_def header_fields WIILOAD_MIN_VERSION_def) (auto simp: not_less)
qed

text \<open>
  C11: an upload that \<^verbatim>\<open>wiiload\<close> sends over TCP and the console accepts arrives in memory as it was sent:
  the data, unpacked to the announced size, at the result's address and the arguments in the result. When
  the data are not packed the arguments are received and dropped.
\<close>

theorem wiiload_upload_arrives:
  assumes "honest_sources w"
    and room: "\<And>src k. length (snd (uncompress src k)) \<le> unat k"
    and stream: "\<And>k. \<exists>i. received w (lt_s ta1) k = take i (upload data n args)" and fresh: "received w (lt_s ta1) h = []"
    and len: "length data < 4294967296" "length args < 65536" "n \<noteq> of_nat (length data)"
    and acc: "tcp_thread_accept w elapsed ta h = Some (ta1, h1)" "lt_handshaked ta1" "\<not> lt_handshaked ta"
    and ld: "ta_tcp ld = ta1" "\<not> lg_handshaked (ta_gecko ld)"
    and load: "loader_load w elapsed uncompress zw ae None ld a m h1 z = Some (ld', Ret x)"
    and result: "r_type (le_result x) \<noteq> LT_UNKNOWN"
    and arena: "arena_ok a" "0x90000000 \<le> arena2lo a" "arena2lo a \<le> arena2hi a"
  shows "if n = 0 then mem_read (le_mem x) (r_data (le_result x)) (unat (r_data_len (le_result x))) = data
       \<and> r_args (le_result x) = [] \<and> r_args_len (le_result x) = 0
     else (\<exists>out. uncompress data n = (0, out)
         \<and> mem_read (le_mem x) (r_data (le_result x)) (unat (r_data_len (le_result x))) = out)
       \<and> r_data_len (le_result x) = n
       \<and> r_args (le_result x) = args \<and> r_args_len (le_result x) = of_nat (length args)"
proof -
  have hw: "honest w" using assms(1) by (simp add: honest_sources_def)
  obtain buf where buf: "received w (lt_s ta1) h1 = received w (lt_s ta1) h @ buf" "length buf = 16"
    "lt_args_len ta1 = rq_args_len (request_fields buf)" "lt_data_len ta1 = rq_data_len (request_fields buf)"
    "lt_data_len_un ta1 = rq_data_len_un (request_fields buf)" "\<not> invalid_request buf"
    using accept_request[OF hw acc] by blast
  let ?hd = "header (of_nat (length args)) (of_nat (length data)) n"
  obtain i where "buf = take i (upload data n args)" using stream[of h1] buf(1) fresh by auto
  then have "buf = take 16 (upload data n args)" using take_of_length buf(2) by metis
  then have b: "buf = ?hd" by (simp add: upload_header length_header)
  have f: "lt_args_len ta1 = of_nat (length args)" "lt_data_len ta1 = of_nat (length data)" "lt_data_len_un ta1 = n"
    using buf(3-5) by (simp_all add: b header_fields)
  have v: "ucast (of_nat (length args) :: u16) \<le> ARGS_MAX_LEN" "of_nat (length data) \<le> LD_MAX_SIZE" "n \<le> LD_MAX_SIZE"
    using buf(6) by (simp_all add: b header_valid)
  obtain src ld1 hs where src: "load_source w ae None ld h1 = (src, ld1, hs)" by (metis prod_cases3)
  have "src \<noteq> None"
  proof
    assume "src = None"
    then show False using load result src by (auto simp: loader_load_def no_result_def)
  qed
  from load_source_tcp[OF src ld(2) this] obtain ta0 where s0: "src = Some (ta0, [])" "la_cmd ta0 = LDC_TCP"
    "hs = TryLockTcp # TryLockGecko # h1" "la_fd ta0 = lt_s ta1" "la_data_len ta0 = of_nat (length data)"
    "la_data_len_un ta0 = n" "la_args_len ta0 = of_nat (length args)"
    using f ld(1) by metis
  have cmd: "la_cmd ta0 \<noteq> LDC_FILE" using s0(2) by simp
  obtain ta a1 h2 where
    al: "load_alloc ta0 a = Ret (True, ta, a1)"
    and run: "ld_load_func w elapsed uncompress ta m (CreateThread # MutexInit # hs) = Some (LDS_SUCCESS, le_mem x, h2)"
    and r: "r_data (le_result x) = (if la_data_len_un ta = 0 then la_data ta else la_data_un ta)"
      "r_data_len (le_result x) = (if la_data_len_un ta = 0 then la_data_len ta else la_data_len_un ta)"
      "r_args (le_result x) = (if la_data_len_un ta = 0 \<or> la_args_len ta = 0 then []
           else mem_read (le_mem x) (la_data ta + la_data_len ta) (unat (la_args_len ta)))"
      "r_args_len (le_result x) = (if la_data_len_un ta = 0 then 0 else ucast (la_args_len ta))"
    by (rule loader_load_result[OF load src[unfolded s0(1)] cmd result])
  have ta: "la_cmd ta = LDC_TCP" "la_fd ta = lt_s ta1" "la_data_len ta = of_nat (length data)"
    "la_args_len ta = of_nat (length args)" "la_data_len_un ta = n"
    using load_alloc_keeps[OF al] unfolding s0(2,4-7) by (simp_all add: len(3))
  have "length data \<le> 0x0132c7ff" using v(2) len(1) by (simp add: ld_addr_values word_le_nat_alt)
  moreover have al16: "unat (of_nat (length args) :: u16) = length args" using len(2) by (simp add: unat_of_nat)
  moreover have ua: "unat (ucast (of_nat (length args) :: u16) :: u32) = length args"
    unfolding unsigned_ucast_eq al16 using len(2) by (simp add: take_bit_eq_mod)
  moreover have "length args \<le> 1024"
    using v(1) ua by (simp add: ARGS_MAX_LEN_def word_le_nat_alt)
  ultimately have small: "length data + length args \<le> 0x02000000" "length data \<le> 0x0132c7ff" "length args \<le> 1024"
    by simp_all
  let ?p = "la_data ta"
  have total: "unat (la_data_len ta + ucast (la_args_len ta)) = length data + length args"
    using small ua len(1) by (simp add: ta unat_word_ariths)
  obtain got where got: "arrived w ta h2 = arrived w ta (CreateThread # MutexInit # hs) @ got"
      "length got = length data + length args"
    and mem: "if la_data_un ta = 0 then le_mem x = mem_write m ?p got
       else \<exists>out. uncompress (mem_read (mem_write m ?p got) ?p (unat (la_data_len ta))) (la_data_len_un ta) = (0, out)
            \<and> of_nat (length out) = la_data_len_un ta
            \<and> le_mem x = mem_write (mem_write m ?p got) (la_data_un ta) out"
    using load_func_stores[OF assms(1) run] unfolding total by blast
  obtain j where "?hd @ got = take j (upload data n args)"
    using stream[of h2] got(1) by (auto simp: arrived_def ta s0(3) buf(1) fresh b)
  then have "?hd @ got = take (length (?hd @ got)) (upload data n args)" by (rule take_of_length)
  then have g: "got = data @ args" using got(2) by (simp add: upload_header length_header)
  have layout: "unat ?p + length got < 4294967296"
    "n \<noteq> 0 \<Longrightarrow> unat ?p + length got \<le> unat (la_data_un ta) \<and> unat (la_data_un ta) + unat n < 4294967296"
    "la_data_un ta = 0 \<longleftrightarrow> n = 0"
    using load_alloc_layout[OF arena(1,2) al _ _ arena(3)] total v(3) small load_alloc_keeps[OF al] s0 got(2) by (simp_all add: ta)
  have block: "mem_read (mem_write m ?p got) ?p (length got) = got"
    using layout(1) by (intro mem_read_write_same) simp
  have lens: "unat (la_data_len ta) = length data" "unat (la_args_len ta) = length args"
    using len(1) al16 by (simp_all add: ta)
  have data: "mem_read (mem_write m ?p got) ?p (length data) = data"
    using mem_read_prefix[of "length data" "length got" "mem_write m ?p got" ?p] unfolding block by (simp add: g)
  show ?thesis
  proof (cases "n = 0")
    case True
    then show ?thesis using r mem layout(3) data lens by (simp add: ta)
  next
    case False
    then obtain out where out: "uncompress data n = (0, out)" "of_nat (length out) = n"
      "le_mem x = mem_write (mem_write m ?p got) (la_data_un ta) out"
      using mem layout(3) data lens by (auto simp: ta)
    have lo: "length out = unat n" using room[of data n] out(1,2) unsigned_less[of n, where ?'a = nat] by auto
    have "mem_read (le_mem x) (?p + of_nat (length data)) (length args)
        = mem_read (mem_write m ?p got) (?p + of_nat (length data)) (length args)"
      unfolding out(3)
    proof (rule mem_read_write_other)
      fix y assume y: "in_block (?p + of_nat (length data)) (length args) y"
      have "unat (of_nat (length data) :: u32) = length data" using len(1) by simp
      then have "unat (?p + of_nat (length data)) = unat ?p + length data"
        using layout(1) g by (simp add: unat_word_ariths)
      then have "unat y < unat ?p + length data + length args"
        using y layout(1) g in_block_interval[of "?p + of_nat (length data)" "length args" y] by simp
      then have "unat y < unat (la_data_un ta)" using layout(2)[OF False] g by simp
      then show "\<not> in_block (la_data_un ta) (length out) y"
        using layout(2)[OF False] lo in_block_interval[of "la_data_un ta" "length out" y] by simp
    qed (use small in simp)
    also have "\<dots> = args"
      using mem_read_suffix[of "mem_write m ?p got" ?p "length data" "length args"] block by (simp add: g)
    finally have args: "mem_read (le_mem x) (?p + of_nat (length data)) (length args) = args" .
    have "mem_read (le_mem x) (la_data_un ta) (unat n) = out"
      using layout(2)[OF False] lo unfolding out(3) by (metis mem_read_write_same order_less_imp_le add_leD2)
    moreover have "ucast (of_nat (length args) :: u16) = (of_nat (length args) :: u32)"
      using ua len(2) by (simp add: word_unat_eq_iff)
    moreover have "of_nat (length args) = (0 :: u16) \<longleftrightarrow> args = []" using al16 by auto
    ultimately show ?thesis using r out(1) args lens False by (simp add: ta)
  qed
qed


lemma sample_stream_upload: "sample_stream = upload [1, 2] 4 [0x61, 0]"
  by (simp add: sample_stream_def sample_request_def upload_header header_bytes)

theorem wiiload_upload_arrives_witness:
  "\<exists>h1 ld' x. loader_load (peer (upload [1, 2] 4 [0x61, 0])) no_time inflate (two_entries ''a'' ''b'') boot_state None
      \<lparr>ta_gecko = gecko_zero, ta_tcp = accepted\<rparr> sample_arena (\<lambda>_. 0) h1 [] = Some (ld', Ret x)
    \<and> mem_read (le_mem x) (r_data (le_result x)) 4 = [9, 8, 7, 6] \<and> r_args (le_result x) = [0x61, 0]"
proof -
  let ?w = "peer sample_stream" and ?ld = "\<lparr>ta_gecko = gecko_zero, ta_tcp = accepted\<rparr>"
  have "read_pos 20 5 [] = 0" by simp
  from started_accept[OF this] obtain h1 where
    acc: "tcp_thread_accept ?w no_time (started\<lparr>lt_cmd := LDTCPCMD_ACCEPT\<rparr>) [] = Some (accepted, h1)" "read_pos 20 5 h1 = 16"
    by blast
  obtain ld' x where load: "loader_load ?w no_time inflate (two_entries ''a'' ''b'') boot_state None ?ld sample_arena (\<lambda>_. 0) h1 []
      = Some (ld', Ret x)" and t: "r_type (le_result x) = LT_EXECUTABLE"
    using accepted_load[OF acc(2)] by blast
  have room: "length (snd (inflate src k)) \<le> unat k" for src k by (simp add: inflate_def)
  have stream: "\<exists>i. received ?w (lt_s accepted) k = take i (upload [1, 2] 4 [0x61, 0])" for k
    using peer_stream[of sample_stream "lt_s accepted" k] unfolding sample_stream_upload by blast
  have hs: "lt_handshaked accepted" "\<not> lt_handshaked (started\<lparr>lt_cmd := LDTCPCMD_ACCEPT\<rparr>)"
    "ta_tcp ?ld = accepted" "\<not> lg_handshaked (ta_gecko ?ld)"
    by (simp_all add: accepted_def started_def gecko_zero_def)
  have arena: "arena_ok sample_arena" "0x90000000 \<le> arena2lo sample_arena" "arena2lo sample_arena \<le> arena2hi sample_arena"
    by (simp_all add: arena_ok_def sample_arena_def MAX_BLOBS_def)
  have len: "length [1, 2 :: u8] < 4294967296" "length [0x61, 0 :: u8] < 65536" "(4 :: u32) \<noteq> of_nat (length [1, 2 :: u8])"
    by simp_all
  have ty: "r_type (le_result x) \<noteq> LT_UNKNOWN" using t by simp
  have nil: "received ?w (lt_s accepted) [] = []" by simp
  from wiiload_upload_arrives[OF peer_honest room stream nil len acc(1) hs(1,2,3,4) load ty arena]
  have "mem_read (le_mem x) (r_data (le_result x)) 4 = [9, 8, 7, 6]" "r_args (le_result x) = [0x61, 0]"
    by (auto simp: inflate_def)
  with load show ?thesis unfolding sample_stream_upload by blast
qed

end
